(* ===== verification/Prelude.thy ===== *)
theory Prelude
  imports Main "HOL-Library.Word" "HOL-Library.Monad_Syntax" "HOL-Library.Multiset"
begin

unbundle bit_operations_syntax

text \<open>
  Shared vocabulary of the development: the C integer types of \<open>src/include/types.h\<close> as
  words of the same width, byte arrays as functions from offsets, little-endian field access,
  checked division, and the two storage interfaces (a store of independent cells and a queue)
  that several components implement.
\<close>

section \<open>Machine integers and bytes\<close>

type_synonym u8 = "8 word"
type_synonym u16 = "16 word"
type_synonym u32 = "32 word"
type_synonym u64 = "64 word"
type_synonym bytes = "u8 list"

text \<open>
  A byte array of fixed size (a disk sector, a FAT sector in the cache) is a function from byte
  offsets; every access of the code stays below the array size and the bounds are lemmas.
\<close>

type_synonym sector = "nat \<Rightarrow> u8"

named_theorems fs_defs "definitions of straight-line file system operations"
named_theorems frame_simps "fields an operation leaves unchanged"

lemma unat_of_nat_eq: "n < 2 ^ LENGTH('a) \<Longrightarrow> unat (of_nat n :: 'a::len word) = n"
  by (simp add: unat_of_nat)

section \<open>Little-endian fields\<close>

definition le16 :: "u16 \<Rightarrow> bytes" where
  "le16 v = [ucast v, ucast (drop_bit 8 v)]"

definition le32 :: "u32 \<Rightarrow> bytes" where
  "le32 v = [ucast v, ucast (drop_bit 8 v), ucast (drop_bit 16 v), ucast (drop_bit 24 v)]"

definition of_le16 :: "u8 \<Rightarrow> u8 \<Rightarrow> u16" where
  "of_le16 a b = ucast a OR push_bit 8 (ucast b)"

definition of_le32 :: "u8 \<Rightarrow> u8 \<Rightarrow> u8 \<Rightarrow> u8 \<Rightarrow> u32" where
  "of_le32 a b c d =
     ucast a OR push_bit 8 (ucast b) OR push_bit 16 (ucast c) OR push_bit 24 (ucast d)"

lemma length_le16 [simp]: "length (le16 v) = 2"
  by (simp add: le16_def)

lemma length_le32 [simp]: "length (le32 v) = 4"
  by (simp add: le32_def)

lemma of_le16_le16 [simp]: "of_le16 (le16 v ! 0) (le16 v ! Suc 0) = v"
  by (rule bit_word_eqI) (auto simp: of_le16_def le16_def bit_simps)

lemma of_le32_le32 [simp]:
  "of_le32 (le32 v ! 0) (le32 v ! Suc 0) (le32 v ! 2) (le32 v ! 3) = v"
proof (rule bit_word_eqI)
  fix n :: nat
  assume "n < LENGTH(32)"
  then consider "n < 8" | "8 \<le> n" "n < 16" | "16 \<le> n" "n < 24" | "24 \<le> n" "n < 32"
    by (auto simp: not_less) linarith
  then show "bit (of_le32 (le32 v ! 0) (le32 v ! Suc 0) (le32 v ! 2) (le32 v ! 3)) n = bit v n"
    by cases (auto simp: of_le32_def le32_def bit_simps)
qed

lemma u8_no_high_bit [simp]: "8 \<le> n \<Longrightarrow> \<not> bit (w :: u8) n"
  by (auto dest: bit_imp_le_length)

lemma le16_of_le16 [simp]: "le16 (of_le16 a b) = [a, b]"
  by (simp add: le16_def of_le16_def) (auto intro!: bit_word_eqI simp: bit_simps)

lemma le32_of_le32 [simp]: "le32 (of_le32 a b c d) = [a, b, c, d]"
  by (simp add: le32_def of_le32_def) (auto intro!: bit_word_eqI simp: bit_simps)

section \<open>Byte arrays\<close>

text \<open>\<open>f_memcpy(base + off, src, n)\<close> into an array, and \<open>f_memcpy(dst, base + off, n)\<close> out of it.\<close>

definition blit :: "nat \<Rightarrow> bytes \<Rightarrow> sector \<Rightarrow> sector" where
  "blit off bs f = (\<lambda>i. if off \<le> i \<and> i < off + length bs then bs ! (i - off) else f i)"

definition slice :: "sector \<Rightarrow> nat \<Rightarrow> nat \<Rightarrow> bytes" where
  "slice f off n = map f [off..<off + n]"

definition get32 :: "sector \<Rightarrow> nat \<Rightarrow> u32" where
  "get32 f off = of_le32 (f off) (f (off + 1)) (f (off + 2)) (f (off + 3))"

definition get16 :: "sector \<Rightarrow> nat \<Rightarrow> u16" where
  "get16 f off = of_le16 (f off) (f (off + 1))"

lemma length_slice [simp]: "length (slice f off n) = n"
  by (simp add: slice_def)

lemma nth_slice [simp]: "i < n \<Longrightarrow> slice f off n ! i = f (off + i)"
  by (simp add: slice_def)

lemma slice_blit_same: "length bs = n \<Longrightarrow> slice (blit off bs f) off n = bs"
  by (rule nth_equalityI) (auto simp: blit_def)

lemma slice_blit_other:
  "off + length bs \<le> off' \<or> off' + n \<le> off \<Longrightarrow> slice (blit off bs f) off' n = slice f off' n"
  by (rule nth_equalityI) (auto simp: blit_def)

lemma get32_blit_same [simp]: "get32 (blit off (le32 v) f) off = v"
  by (simp add: get32_def blit_def)

lemma get32_blit_other:
  "off + length bs \<le> off' \<or> off' + 4 \<le> off \<Longrightarrow> get32 (blit off bs f) off' = get32 f off'"
  by (auto simp: get32_def blit_def)

section \<open>Strings\<close>

text \<open>A string literal as the code stores it, and the string a buffer of characters holds.\<close>

definition ascii :: "string \<Rightarrow> bytes" where
  "ascii cs = map (\<lambda>c. of_nat (of_char c)) cs"

definition c_string :: "bytes \<Rightarrow> bytes" where
  "c_string buf = takeWhile (\<lambda>c. c \<noteq> 0) buf"

section \<open>Decimal digits\<close>

text \<open>
  \<open>do { buf[i++] = '0' + v % 10; v /= 10; } while (v)\<close>: the digits from the least significant
  on; the callers print the buffer backwards.
\<close>

fun dec_rev :: "nat \<Rightarrow> bytes" where
  "dec_rev v = (if v < 10 then [of_nat (48 + v)] else of_nat (48 + v mod 10) # dec_rev (v div 10))"

declare dec_rev.simps [simp del]

definition dec_digits :: "nat \<Rightarrow> bytes" where
  "dec_digits v = rev (dec_rev v)"

text \<open>What a reader of the decimal text gets back.\<close>

definition dec_value :: "bytes \<Rightarrow> nat" where
  "dec_value ds = foldl (\<lambda>n d. 10 * n + (unat d - 48)) 0 ds"

lemma unat_digit: "k < 10 \<Longrightarrow> unat (of_nat (48 + k) :: u8) = 48 + k"
  by (subst unat_of_nat) simp

lemma dec_value_digits [simp]: "dec_value (dec_digits v) = v"
proof (induction v rule: dec_rev.induct)
  case (1 v)
  have d: "unat (of_nat (48 + k) :: u8) - 48 = k" if "k < 10" for k
    using unat_digit [OF that] by simp
  show ?case
  proof (cases "v < 10")
    case True
    then show ?thesis using d [of v] by (simp add: dec_value_def dec_digits_def dec_rev.simps [of v])
  next
    case False
    have "dec_value (dec_digits v) = 10 * dec_value (dec_digits (v div 10)) + v mod 10"
      using False d [of "v mod 10"] by (simp add: dec_value_def dec_digits_def dec_rev.simps [of v])
    then show ?thesis using 1 False by simp
  qed
qed

lemma dec_digits_range: "d \<in> set (dec_digits v) \<Longrightarrow> 48 \<le> d \<and> d \<le> 57"
proof (induction v rule: dec_rev.induct)
  case (1 v)
  have r: "48 \<le> (of_nat (48 + k) :: u8) \<and> (of_nat (48 + k) :: u8) \<le> 57" if "k < 10" for k
    using unat_digit [OF that] that by (simp add: word_le_nat_alt)
  show ?case
    using 1 r [of v] r [of "v mod 10"]
    by (cases "v < 10") (auto simp: dec_digits_def dec_rev.simps [of v])
qed

lemma length_dec_rev: "v < 10 ^ n \<Longrightarrow> 0 < n \<Longrightarrow> length (dec_rev v) \<le> n"
proof (induction n arbitrary: v)
  case (Suc n)
  show ?case
  proof (cases "v < 10")
    case False
    then have "n \<noteq> 0" using Suc.prems by (cases n) auto
    moreover have "v div 10 < 10 ^ n" using Suc.prems by (simp add: less_mult_imp_div_less mult.commute)
    ultimately show ?thesis using Suc.IH [of "v div 10"] False by (simp add: dec_rev.simps [of v])
  qed (simp add: dec_rev.simps [of v])
qed simp

section \<open>Checked division\<close>

text \<open>
  \<open>div\<close> by zero raises the divide error exception (\<open>#DE\<close>); no handler of the kernel returns
  from it, so the operation has no result.
\<close>

definition c_div :: "u32 \<Rightarrow> u32 \<Rightarrow> u32 option" where
  "c_div a b = (if b = 0 then None else Some (a div b))"

definition c_mod :: "u32 \<Rightarrow> u32 \<Rightarrow> u32 option" where
  "c_mod a b = (if b = 0 then None else Some (a mod b))"

lemma c_div_Some [simp]: "b \<noteq> 0 \<Longrightarrow> c_div a b = Some (a div b)"
  by (simp add: c_div_def)

lemma c_mod_Some [simp]: "b \<noteq> 0 \<Longrightarrow> c_mod a b = Some (a mod b)"
  by (simp add: c_mod_def)

section \<open>Signed integers\<close>

text \<open>
  The value a C \<open>int\<close> holds after a computation whose mathematical result is \<open>v\<close>. C leaves the result
  open when \<open>v\<close> is not an \<open>int\<close>; here it is what the 32-bit instructions compute.
\<close>

definition c_int :: "int \<Rightarrow> int" where
  "c_int v = (v + 2 ^ 31) mod 2 ^ 32 - 2 ^ 31"

lemma c_int_id: "- (2 ^ 31) \<le> v \<Longrightarrow> v < 2 ^ 31 \<Longrightarrow> c_int v = v"
  by (simp add: c_int_def)

section \<open>Loops that can fail\<close>

text \<open>A loop over the values of its counter whose body has no result when it leaves what C defines.\<close>

fun each :: "('a \<Rightarrow> 's \<Rightarrow> 's option) \<Rightarrow> 'a list \<Rightarrow> 's \<Rightarrow> 's option" where
  "each f [] s = Some s"
| "each f (x # xs) s = do { s1 \<leftarrow> f x s; each f xs s1 }"

text \<open>If the body has a result wherever \<open>P\<close> holds, and keeps \<open>P\<close>, the loop is a fold.\<close>

lemma each_fold:
  assumes "\<And>x s. x \<in> set xs \<Longrightarrow> P s \<Longrightarrow> f x s = Some (g x s) \<and> P (g x s)" "P s"
  shows "each f xs s = Some (fold g xs s) \<and> P (fold g xs s)"
  using assms
proof (induction xs arbitrary: s)
  case (Cons x xs)
  have "f x s = Some (g x s)" "P (g x s)" using Cons.prems by simp_all
  then show ?case using Cons.IH [of "g x s"] Cons.prems(1) by simp
qed simp

text \<open>The values of the loop counter of \<open>for (uint32_t i = lo; i < hi; i++)\<close>, in order.\<close>

definition range32 :: "u32 \<Rightarrow> u32 \<Rightarrow> u32 list" where
  "range32 lo hi = map of_nat [unat lo..<unat hi]"

lemma set_range32: "set (range32 lo hi) = {c. lo \<le> c \<and> c < hi}"
proof -
  have "c \<in> set (range32 lo hi)" if "lo \<le> c" "c < hi" for c
    using that by (auto simp: range32_def word_le_nat_alt word_less_nat_alt
        intro!: image_eqI [where x = "unat c"])
  moreover have "lo \<le> c \<and> c < hi" if "c \<in> set (range32 lo hi)" for c
  proof -
    from that obtain n where n: "c = of_nat n" "unat lo \<le> n" "n < unat hi"
      by (auto simp: range32_def)
    with unsigned_less [of hi, where ?'a = nat] have "unat c = n" by (simp add: unat_of_nat)
    with n show ?thesis by (simp add: word_le_nat_alt word_less_nat_alt)
  qed
  ultimately show ?thesis by auto
qed

lemma distinct_range32 [simp]: "distinct (range32 lo hi)"
proof -
  have "inj_on (of_nat :: nat \<Rightarrow> u32) (set [unat lo..<unat hi])"
  proof (rule inj_onI)
    fix x y assume *: "x \<in> set [unat lo..<unat hi]" "y \<in> set [unat lo..<unat hi]"
      "(of_nat x :: u32) = of_nat y"
    have "x < 2 ^ 32" "y < 2 ^ 32" using * unsigned_less [of hi, where ?'a = nat] by auto
    then show "x = y" using arg_cong [OF *(3), of unat] by (simp add: unat_of_nat)
  qed
  then show ?thesis by (simp add: range32_def distinct_map)
qed

lemma range32_empty [simp]: "hi \<le> lo \<Longrightarrow> range32 lo hi = []"
  by (simp add: range32_def word_le_nat_alt)

section \<open>Interfaces\<close>

text \<open>
  A store of independent cells: what is written to a key is read back, other keys are untouched.
  The sector store behind the cache, the FAT, the cluster bitmap and the UHCI frame list all
  promise this to their clients; \<open>good\<close> is the condition under which the promise holds.
\<close>

locale cell_store =
  fixes rd :: "'s \<Rightarrow> 'k \<Rightarrow> 'v"
    and wr :: "'k \<Rightarrow> 'v \<Rightarrow> 's \<Rightarrow> 's"
    and good :: "'s \<Rightarrow> bool"
    and dom_k :: "'k \<Rightarrow> bool"
    and norm :: "'v \<Rightarrow> 'v"
  assumes rd_same: "good s \<Longrightarrow> dom_k k \<Longrightarrow> rd (wr k v s) k = norm v"
    and rd_other: "good s \<Longrightarrow> dom_k k \<Longrightarrow> dom_k j \<Longrightarrow> j \<noteq> k \<Longrightarrow> rd (wr k v s) j = rd s j"
    and good_wr: "good s \<Longrightarrow> dom_k k \<Longrightarrow> good (wr k v s)"
begin

lemma good_fold: "good s \<Longrightarrow> \<forall>k \<in> set ks. dom_k k \<Longrightarrow> good (fold (\<lambda>k. wr k v) ks s)"
  by (induction ks arbitrary: s) (auto simp: good_wr)

lemma rd_fold:
  assumes "good s" "\<forall>k \<in> set ks. dom_k k" "dom_k j"
  shows "rd (fold (\<lambda>k. wr k v) ks s) j = (if j \<in> set ks then norm v else rd s j)"
  using assms
proof (induction ks arbitrary: s rule: rev_induct)
  case (snoc k ks)
  have g: "good (fold (\<lambda>k. wr k v) ks s)" using snoc.prems by (intro good_fold) auto
  have IH: "rd (fold (\<lambda>k. wr k v) ks s) j = (if j \<in> set ks then norm v else rd s j)"
    using snoc by simp
  show ?case
  proof (cases "j = k")
    case True
    with g snoc.prems show ?thesis by (simp add: rd_same)
  next
    case False
    with g snoc.prems IH show ?thesis by (simp add: rd_other)
  qed
qed simp

lemma wr_wr: "good s \<Longrightarrow> dom_k k \<Longrightarrow> dom_k j \<Longrightarrow> rd (wr k v (wr k u s)) j = rd (wr k v s) j"
  by (cases "j = k") (simp_all add: rd_same rd_other good_wr)

end

text \<open>A bounded first-in first-out queue: what a producer and a consumer rely on.\<close>

locale fifo =
  fixes contents :: "'q \<Rightarrow> 'a list"
    and post :: "'a \<Rightarrow> 'q \<Rightarrow> bool \<times> 'q"
    and take1 :: "'q \<Rightarrow> 'a option \<times> 'q"
    and inv :: "'q \<Rightarrow> bool"
    and cap :: nat
  assumes post_room: "inv q \<Longrightarrow> length (contents q) < cap \<Longrightarrow>
      \<exists>q'. post x q = (True, q') \<and> inv q' \<and> contents q' = contents q @ [x]"
    and post_full: "inv q \<Longrightarrow> length (contents q) = cap \<Longrightarrow> post x q = (False, q)"
    and take_some: "inv q \<Longrightarrow> contents q = y # ys \<Longrightarrow>
      \<exists>q'. take1 q = (Some y, q') \<and> inv q' \<and> contents q' = ys"
    and take_none: "inv q \<Longrightarrow> contents q = [] \<Longrightarrow> take1 q = (None, q)"
    and bounded: "inv q \<Longrightarrow> length (contents q) \<le> cap"
begin

lemma post_inv: "inv q \<Longrightarrow> inv (snd (post x q))"
  using post_room [of q x] post_full [of q x] bounded [of q]
  by (cases "length (contents q) < cap") auto

lemma post_all:
  "inv q \<Longrightarrow> contents (fold (\<lambda>x q. snd (post x q)) xs q) = contents q @ take (cap - length (contents q)) xs
    \<and> inv (fold (\<lambda>x q. snd (post x q)) xs q)"
proof (induction xs arbitrary: q)
  case (Cons x xs)
  show ?case
  proof (cases "length (contents q) < cap")
    case True
    then obtain q' where q': "post x q = (True, q')" "inv q'" "contents q' = contents q @ [x]"
      using post_room Cons.prems by blast
    have "cap - length (contents q) = Suc (cap - length (contents q'))" using True q' by simp
    with Cons.IH [OF q'(2)] q' show ?thesis by simp
  next
    case False
    with bounded [OF Cons.prems] have "length (contents q) = cap" by simp
    with Cons post_full show ?thesis by simp
  qed
qed simp

fun drain :: "nat \<Rightarrow> 'q \<Rightarrow> 'a list" where
  "drain 0 q = []"
| "drain (Suc n) q = (case take1 q of (None, _) \<Rightarrow> [] | (Some x, q') \<Rightarrow> x # drain n q')"

lemma drain_contents: "inv q \<Longrightarrow> length (contents q) \<le> n \<Longrightarrow> drain n q = contents q"
proof (induction n arbitrary: q)
  case (Suc n)
  show ?case
  proof (cases "contents q")
    case Nil
    with take_none Suc.prems show ?thesis by simp
  next
    case (Cons y ys)
    with take_some Suc.prems obtain q' where "take1 q = (Some y, q')" "inv q'" "contents q' = ys"
      by blast
    with Suc Cons show ?thesis by simp
  qed
qed simp

end

end
