(* ===== verification/Sector_Cache.thy ===== *)
theory Sector_Cache
  imports Prelude
begin

text \<open>
  The volume state of \<open>src/fs/fat32_core.c\<close> and its one-sector write-back cache.

  The drive is the sector-level behaviour that \<open>fat32_core.c\<close> gets from
  \<open>ata_read(lba, 1, buf)\<close> and \<open>ata_write(lba, 1, buf)\<close>: a present drive maps a sector address to
  512 bytes, and an access can fail. Which addresses fail is a parameter (\<open>drv_rd_ok\<close>,
  \<open>drv_wr_ok\<close>), so every error path of the file system is a path of the model.
\<close>

section \<open>State\<close>

record drive =
  drv_present :: bool
  drv_sectors :: u32
  drv_data :: "u32 \<Rightarrow> sector"
  drv_rd_ok :: "u32 \<Rightarrow> bool"
  drv_wr_ok :: "u32 \<Rightarrow> bool"

record geometry =
  vol_lba_start :: u32
  vol_bytes_per_sec :: u32
  vol_sec_per_clus :: u32
  vol_reserved_sec :: u32
  vol_num_fats :: u32
  vol_fat_size :: u32
  vol_root_cluster :: u32
  vol_fat_lba :: u32
  vol_data_lba :: u32
  vol_total_clusters :: u32

text \<open>\<open>fat32_fd_t\<close>; \<open>open\<close>, \<open>write\<close> and \<open>size\<close> get a prefix.\<close>

record fat32_fd_t =
  fd_open :: bool
  fd_write :: bool
  fd_cluster :: u32
  fd_dir_cluster :: u32
  fd_dir_lba :: u32
  fd_dir_offset :: u32
  fd_size :: u32
  fd_pos :: u32
  fd_cur_cluster :: u32

record vol =
  vol_mounted :: bool
  vol_readonly :: bool
  geo :: geometry
  sec_cache :: sector
  sec_cache_lba :: u32
  sec_cache_dirty :: bool
  fds :: "fat32_fd_t list"
  heap_ptr :: u32
  drv :: drive

definition fd_zero :: fat32_fd_t where
  "fd_zero = \<lparr>fd_open = False, fd_write = False, fd_cluster = 0, fd_dir_cluster = 0,
     fd_dir_lba = 0, fd_dir_offset = 0, fd_size = 0, fd_pos = 0, fd_cur_cluster = 0\<rparr>"

text \<open>The value of \<open>sec_cache_lba\<close> that stands for an empty cache.\<close>

abbreviation NO_LBA :: u32 where
  "NO_LBA \<equiv> 0xFFFFFFFF"

section \<open>The drive\<close>

definition blk_read :: "u32 \<Rightarrow> drive \<Rightarrow> sector option" where
  "blk_read lba d = (if drv_present d \<and> drv_rd_ok d lba then Some (drv_data d lba) else None)"

definition blk_write :: "u32 \<Rightarrow> sector \<Rightarrow> drive \<Rightarrow> bool \<times> drive" where
  "blk_write lba b d =
     (if drv_present d \<and> drv_wr_ok d lba
      then (True, d\<lparr>drv_data := (drv_data d)(lba := b)\<rparr>) else (False, d))"

text \<open>\<open>ata_write\<close> called by the volume code for its effect.\<close>

definition vol_blk_write :: "u32 \<Rightarrow> sector \<Rightarrow> vol \<Rightarrow> bool \<times> vol" where
  "vol_blk_write lba b s = (let (ok, d) = blk_write lba b (drv s) in (ok, s\<lparr>drv := d\<rparr>))"

section \<open>Cached sector access\<close>

definition sec_flush :: "vol \<Rightarrow> bool \<times> vol" where
  "sec_flush s =
     (if \<not> sec_cache_dirty s then (True, s)
      else let (ok, s1) = vol_blk_write (sec_cache_lba s) (sec_cache s) s
           in if \<not> ok then (False, s1) else (True, s1\<lparr>sec_cache_dirty := False\<rparr>))"

definition sec_read :: "u32 \<Rightarrow> vol \<Rightarrow> bool \<times> vol" where
  "sec_read lba s =
     (if sec_cache_lba s = lba then (True, s)
      else let (ok, s1) = sec_flush s
           in if \<not> ok then (False, s1)
              else case blk_read lba (drv s1) of
                     None \<Rightarrow> (False, s1)
                   | Some b \<Rightarrow> (True, s1\<lparr>sec_cache := b, sec_cache_lba := lba\<rparr>))"

definition sec_write :: "u32 \<Rightarrow> sector \<Rightarrow> vol \<Rightarrow> bool \<times> vol" where
  "sec_write lba b s =
     (let (ok, s1) = (if sec_cache_lba s \<noteq> lba
                      then let (ok, s1) = sec_flush s
                           in if \<not> ok then (False, s1) else (True, s1\<lparr>sec_cache_lba := lba\<rparr>)
                      else (True, s))
      in if \<not> ok then (False, s1)
         else (True, s1\<lparr>sec_cache := b, sec_cache_dirty := True\<rparr>))"

text \<open>
  The read-modify-write that the driver writes out at every metadata update:
  \<open>f_memcpy(sec_cache + off, src, n); sec_cache_dirty = true; sec_flush()\<close>.
\<close>

definition cache_patch :: "nat \<Rightarrow> bytes \<Rightarrow> vol \<Rightarrow> bool \<times> vol" where
  "cache_patch off bs s =
     sec_flush (s\<lparr>sec_cache := blit off bs (sec_cache s), sec_cache_dirty := True\<rparr>)"

section \<open>What the cache promises\<close>

text \<open>
  The abstract disk: each address holds the cached sector if it is the cached address, and the
  drive's sector otherwise. A clean cache agrees with the drive.
\<close>

definition sec_view :: "vol \<Rightarrow> u32 \<Rightarrow> sector" where
  "sec_view s a = (if sec_cache_lba s = a then sec_cache s else drv_data (drv s) a)"

definition cache_ok :: "vol \<Rightarrow> bool" where
  "cache_ok s \<longleftrightarrow>
     (if sec_cache_dirty s then sec_cache_lba s \<noteq> NO_LBA
      else sec_cache_lba s = NO_LBA \<or> sec_cache s = drv_data (drv s) (sec_cache_lba s))"

definition io_ok :: "vol \<Rightarrow> bool" where
  "io_ok s \<longleftrightarrow> drv_present (drv s) \<and> (\<forall>a. drv_rd_ok (drv s) a) \<and> (\<forall>a. drv_wr_ok (drv s) a)"

text \<open>Everything but the cache and the drive's contents.\<close>

definition same_vol :: "vol \<Rightarrow> vol \<Rightarrow> bool" where
  "same_vol s t \<longleftrightarrow> vol_mounted t = vol_mounted s \<and> vol_readonly t = vol_readonly s \<and>
     geo t = geo s \<and> fds t = fds s \<and> heap_ptr t = heap_ptr s \<and>
     drv_present (drv t) = drv_present (drv s) \<and> drv_sectors (drv t) = drv_sectors (drv s) \<and>
     drv_rd_ok (drv t) = drv_rd_ok (drv s) \<and> drv_wr_ok (drv t) = drv_wr_ok (drv s)"

lemma same_vol_refl [simp]: "same_vol s s"
  by (simp add: same_vol_def)

lemma same_vol_trans [trans]: "same_vol s t \<Longrightarrow> same_vol t u \<Longrightarrow> same_vol s u"
  by (simp add: same_vol_def)

lemma same_vol_io: "same_vol s t \<Longrightarrow> io_ok s \<Longrightarrow> io_ok t"
  by (simp add: same_vol_def io_ok_def)

lemma same_vol_geo: "same_vol s t \<Longrightarrow> geo t = geo s"
  by (simp add: same_vol_def)

lemma blk_write_ok: "io_ok s \<Longrightarrow>
  vol_blk_write a b s = (True, s\<lparr>drv := (drv s)\<lparr>drv_data := (drv_data (drv s))(a := b)\<rparr>\<rparr>)"
  by (simp add: vol_blk_write_def blk_write_def io_ok_def)

lemma vol_blk_write_same: "vol_blk_write a b s = (ok, t) \<Longrightarrow> same_vol s t"
  by (auto simp: vol_blk_write_def blk_write_def same_vol_def split: if_splits)

lemma sec_flush_same: "sec_flush s = (ok, t) \<Longrightarrow> same_vol s t"
  by (auto simp: sec_flush_def vol_blk_write_def blk_write_def same_vol_def split: if_splits prod.splits)

lemma sec_read_same: "sec_read a s = (ok, t) \<Longrightarrow> same_vol s t"
  by (auto simp: sec_read_def same_vol_def split: if_splits prod.splits option.splits
      dest!: sec_flush_same)

lemma sec_write_same: "sec_write a b s = (ok, t) \<Longrightarrow> same_vol s t"
  by (auto simp: sec_write_def same_vol_def Let_def split: if_splits prod.splits
      dest!: sec_flush_same)

lemma cache_patch_same: "cache_patch n bs s = (ok, t) \<Longrightarrow> same_vol s t"
  by (auto simp: cache_patch_def same_vol_def dest!: sec_flush_same)

text \<open>Flushing never changes the abstract disk, whether or not the write succeeds.\<close>

lemma sec_flush_view:
  assumes "sec_flush s = (ok, t)" "cache_ok s"
  shows "sec_view t = sec_view s" "cache_ok t" "sec_cache t = sec_cache s"
    "sec_cache_lba t = sec_cache_lba s" "ok \<Longrightarrow> \<not> sec_cache_dirty t"
  using assms
  by (auto simp: sec_flush_def vol_blk_write_def blk_write_def sec_view_def cache_ok_def fun_eq_iff
      split: if_splits prod.splits)

lemma sec_flush_ok: "io_ok s \<Longrightarrow> fst (sec_flush s)"
  by (simp add: sec_flush_def blk_write_ok)

lemma sec_read_view:
  assumes "sec_read lba s = (ok, t)" "cache_ok s" "lba \<noteq> NO_LBA"
  shows "a \<noteq> NO_LBA \<Longrightarrow> sec_view t a = sec_view s a" "cache_ok t"
    "ok \<Longrightarrow> sec_cache t = sec_view s lba" "ok \<Longrightarrow> sec_cache_lba t = lba"
proof -
  show "a \<noteq> NO_LBA \<Longrightarrow> sec_view t a = sec_view s a"
    using assms by (cases "sec_flush s")
      (auto simp: sec_read_def blk_read_def sec_view_def cache_ok_def sec_flush_def
        vol_blk_write_def blk_write_def split: if_splits option.splits)
  show "cache_ok t"
    using assms by (cases "sec_flush s")
      (auto simp: sec_read_def blk_read_def cache_ok_def sec_flush_def
        vol_blk_write_def blk_write_def split: if_splits option.splits)
  show "ok \<Longrightarrow> sec_cache t = sec_view s lba" "ok \<Longrightarrow> sec_cache_lba t = lba"
    using assms by (cases "sec_flush s";
      auto simp: sec_read_def blk_read_def sec_view_def cache_ok_def sec_flush_def
        vol_blk_write_def blk_write_def split: if_splits option.splits)+
qed

lemma sec_read_ok: "io_ok s \<Longrightarrow> fst (sec_read lba s)"
  using sec_flush_ok [of s] same_vol_io [OF sec_flush_same]
  by (auto simp: sec_read_def blk_read_def io_ok_def split: prod.splits option.splits)

lemma sec_readE:
  assumes "io_ok s" "cache_ok s" "lba \<noteq> NO_LBA"
  obtains t where "sec_read lba s = (True, t)" "same_vol s t" "cache_ok t" "io_ok t"
    "\<And>a. a \<noteq> NO_LBA \<Longrightarrow> sec_view t a = sec_view s a"
    "sec_cache t = sec_view s lba" "sec_cache_lba t = lba"
proof -
  obtain ok t where r: "sec_read lba s = (ok, t)" by fastforce
  have ok using r sec_read_ok [OF assms(1), of lba] by simp
  then show ?thesis
    using r that sec_read_same [OF r] sec_read_view [OF r assms(2,3)]
      same_vol_io [OF sec_read_same [OF r] assms(1)] by simp
qed

lemma cache_patch_view:
  assumes "cache_patch off bs s = (ok, t)" "io_ok s" "sec_cache_lba s \<noteq> NO_LBA"
  shows "ok" "cache_ok t" "same_vol s t" "sec_cache_lba t = sec_cache_lba s"
    "sec_view t = (sec_view s)(sec_cache_lba s := blit off bs (sec_cache s))"
    "sec_cache t = blit off bs (sec_cache s)" "\<not> sec_cache_dirty t"
  using assms
  by (auto simp: cache_patch_def sec_flush_def vol_blk_write_def blk_write_def cache_ok_def
      sec_view_def io_ok_def same_vol_def fun_eq_iff split: if_splits prod.splits)

lemma sec_write_view:
  assumes "sec_write lba b s = (ok, t)" "io_ok s" "cache_ok s" "lba \<noteq> NO_LBA"
  shows "ok" "cache_ok t" "io_ok t"
    "a \<noteq> NO_LBA \<Longrightarrow> sec_view t a = (if a = lba then b else sec_view s a)"
proof -
  obtain ok1 s1 where f: "sec_flush s = (ok1, s1)" by fastforce
  note F = sec_flush_view [OF f assms(3)]
  have ok1: ok1 using sec_flush_ok [OF assms(2)] f by simp
  have io: "io_ok s1" using same_vol_io [OF sec_flush_same [OF f] assms(2)] .
  show "ok" "io_ok t"
    using assms(1,2) f ok1 io by (auto simp: sec_write_def io_ok_def split: if_splits)
  show "cache_ok t"
    using assms(1,4) f ok1 by (auto simp: sec_write_def cache_ok_def split: if_splits)
  have "sec_view s1 a = sec_view s a" using F(1) by simp
  moreover have "a \<noteq> NO_LBA \<Longrightarrow> sec_cache_lba s \<noteq> lba \<Longrightarrow> sec_view s1 a = drv_data (drv s1) a"
    using F(2,5) ok1 by (auto simp: cache_ok_def sec_view_def)
  ultimately show "a \<noteq> NO_LBA \<Longrightarrow> sec_view t a = (if a = lba then b else sec_view s a)"
    using assms(1) f ok1 by (auto simp: sec_write_def sec_view_def split: if_splits)
qed

text \<open>The cached volume is a store of independent sectors.\<close>

interpretation sectors: cell_store sec_view "\<lambda>k v s. snd (sec_write k v s)"
  "\<lambda>s. io_ok s \<and> cache_ok s" "\<lambda>k. k \<noteq> NO_LBA" "\<lambda>v. v"
proof unfold_locales
  fix s :: vol and k v
  assume g: "io_ok s \<and> cache_ok s" "k \<noteq> NO_LBA"
  obtain ok t where w: "sec_write k v s = (ok, t)" by fastforce
  note W = sec_write_view [OF w conjunct1 [OF g(1)] conjunct2 [OF g(1)] g(2)]
  show "sec_view (snd (sec_write k v s)) k = v" using w W(4) g by simp
  show "io_ok (snd (sec_write k v s)) \<and> cache_ok (snd (sec_write k v s))" using w W by simp
  fix j assume "j \<noteq> NO_LBA" "j \<noteq> k"
  then show "sec_view (snd (sec_write k v s)) j = sec_view s j" using w W(4) by simp
qed

end
