(* ===== verification/Fat_Table.thy ===== *)
theory Fat_Table
  imports Sector_Cache
begin

text \<open>
  Geometry helpers and the file allocation table of \<open>src/fs/fat32_core.c\<close>: reading and writing
  an entry, allocating a cluster, freeing and following a chain.
\<close>

section \<open>Operations\<close>

abbreviation FAT32_EOC :: u32 where "FAT32_EOC \<equiv> 0x0FFFFFF8"
abbreviation FAT32_FREE :: u32 where "FAT32_FREE \<equiv> 0"
abbreviation FAT32_BAD :: u32 where "FAT32_BAD \<equiv> 0x0FFFFFF7"
abbreviation FAT_MASK :: u32 where "FAT_MASK \<equiv> 0x0FFFFFFF"

definition cluster_to_lba :: "geometry \<Rightarrow> u32 \<Rightarrow> u32" where
  "cluster_to_lba g c = vol_data_lba g + (c - 2) * vol_sec_per_clus g"

definition fat_lba_for_cluster :: "geometry \<Rightarrow> u32 \<Rightarrow> u32" where
  "fat_lba_for_cluster g c = (let fat_offset = c * 4 in vol_fat_lba g + fat_offset div 512)"

definition fat_offset_in_sector :: "u32 \<Rightarrow> u32" where
  "fat_offset_in_sector c = (c * 4) mod 512"

definition fat_get :: "u32 \<Rightarrow> vol \<Rightarrow> u32 \<times> vol" where
  "fat_get c s =
     (let lba = fat_lba_for_cluster (geo s) c;
          (ok, s1) = sec_read lba s
      in if \<not> ok then (0x0FFFFFF7, s1)
         else let off = fat_offset_in_sector c;
                  val = get32 (sec_cache s1) (unat off)
              in (val AND 0x0FFFFFFF, s1))"

text \<open>The loop of \<open>fat_set\<close> over the FAT copies \<open>f\<close> that are left.\<close>

fun fat_set_copies :: "u32 list \<Rightarrow> u32 \<Rightarrow> u32 \<Rightarrow> vol \<Rightarrow> bool \<times> vol" where
  "fat_set_copies [] cluster value s = (True, s)"
| "fat_set_copies (f # fs) cluster value s =
     (let fat_lba = vol_fat_lba (geo s) + f * vol_fat_size (geo s);
          lba = fat_lba + (cluster * 4) div 512;
          off = fat_offset_in_sector cluster;
          (ok, s1) = sec_read lba s
      in if \<not> ok then (False, s1)
         else let (ok2, s2) = cache_patch (unat off) (le32 value) s1
              in if \<not> ok2 then (False, s2) else fat_set_copies fs cluster value s2)"

definition fat_set :: "u32 \<Rightarrow> u32 \<Rightarrow> vol \<Rightarrow> bool \<times> vol" where
  "fat_set cluster value s =
     fat_set_copies (range32 0 (vol_num_fats (geo s))) cluster (value AND 0x0FFFFFFF) s"

definition zero_sector :: sector where
  "zero_sector = (\<lambda>_. 0)"

text \<open>\<open>for (...) ata_write(base + s, 1, zero)\<close>, ignoring the status.\<close>

fun zero_sectors :: "u32 list \<Rightarrow> u32 \<Rightarrow> vol \<Rightarrow> vol" where
  "zero_sectors [] base s = s"
| "zero_sectors (i # is) base s = zero_sectors is base (snd (vol_blk_write (base + i) zero_sector s))"

fun fat_alloc_scan :: "u32 list \<Rightarrow> u32 \<Rightarrow> vol \<Rightarrow> u32 \<times> vol" where
  "fat_alloc_scan [] prev s = (0, s)"
| "fat_alloc_scan (c # cs) prev s =
     (let (v, s1) = fat_get c s
      in if v = FAT32_FREE
         then let s2 = snd (fat_set c 0x0FFFFFFF s1);
                  s3 = (if prev \<noteq> 0 then snd (fat_set prev c s2) else s2);
                  lba = cluster_to_lba (geo s3) c
              in (c, zero_sectors (range32 0 (vol_sec_per_clus (geo s3))) lba s3)
         else fat_alloc_scan cs prev s1)"

definition fat_alloc :: "u32 \<Rightarrow> vol \<Rightarrow> u32 \<times> vol" where
  "fat_alloc prev s = fat_alloc_scan (range32 2 (vol_total_clusters (geo s) + 2)) prev s"

text \<open>The chain is followed until its end marker; \<open>None\<close> is a loop that does not end.\<close>

partial_function (option) fat_free_chain :: "u32 \<Rightarrow> vol \<Rightarrow> vol option" where
  "fat_free_chain c s =
     (if 2 \<le> c \<and> c < FAT32_EOC
      then let (nxt, s1) = fat_get c s;
               s2 = snd (fat_set c FAT32_FREE s1)
           in fat_free_chain nxt s2
      else Some s)"

fun fat_follow_n :: "nat \<Rightarrow> u32 \<Rightarrow> vol \<Rightarrow> u32 \<times> vol" where
  "fat_follow_n 0 c s = (c, s)"
| "fat_follow_n (Suc n) c s =
     (if FAT32_EOC \<le> c \<or> c < 2 then (0, s)
      else let (nxt, s1) = fat_get c s in fat_follow_n n nxt s1)"

definition fat_follow :: "u32 \<Rightarrow> u32 \<Rightarrow> vol \<Rightarrow> u32 \<times> vol" where
  "fat_follow start n s = fat_follow_n (unat n) start s"

section \<open>Well-formed geometry\<close>

text \<open>
  The layout \<open>fat32_mount\<close> computes: the FAT copies follow each other before the data area, the
  data area fits below the last address and the FAT has an entry for every cluster.
\<close>

definition geo_ok :: "geometry \<Rightarrow> bool" where
  "geo_ok g \<longleftrightarrow> 0 < unat (vol_sec_per_clus g) \<and> 0 < unat (vol_num_fats g) \<and>
     unat (vol_fat_lba g) + unat (vol_num_fats g) * unat (vol_fat_size g) \<le> unat (vol_data_lba g) \<and>
     unat (vol_data_lba g) + unat (vol_total_clusters g) * unat (vol_sec_per_clus g) < 2 ^ 32 \<and>
     unat (vol_total_clusters g) + 2 \<le> 128 * unat (vol_fat_size g) \<and>
     unat (vol_total_clusters g) + 2 \<le> 0x0FFFFFF7"

text \<open>Indices the FAT has an entry for, and clusters of the data area.\<close>

definition fat_index :: "geometry \<Rightarrow> u32 \<Rightarrow> bool" where
  "fat_index g c \<longleftrightarrow> unat c < unat (vol_total_clusters g) + 2"

definition valid_cluster :: "geometry \<Rightarrow> u32 \<Rightarrow> bool" where
  "valid_cluster g c \<longleftrightarrow> 2 \<le> unat c \<and> fat_index g c"

definition good_vol :: "vol \<Rightarrow> bool" where
  "good_vol s \<longleftrightarrow> io_ok s \<and> cache_ok s \<and> geo_ok (geo s)"

definition copy_lba :: "geometry \<Rightarrow> u32 \<Rightarrow> u32 \<Rightarrow> u32" where
  "copy_lba g f c = vol_fat_lba g + f * vol_fat_size g + (c * 4) div 512"

text \<open>Entry \<open>c\<close> of FAT copy \<open>f\<close>, and the value the driver works with.\<close>

definition fat_copy :: "vol \<Rightarrow> u32 \<Rightarrow> u32 \<Rightarrow> u32" where
  "fat_copy s f c = get32 (sec_view s (copy_lba (geo s) f c)) (unat (fat_offset_in_sector c))"

definition fatv :: "vol \<Rightarrow> u32 \<Rightarrow> u32" where
  "fatv s c = fat_copy s 0 c AND FAT_MASK"

lemma valid_fat_index: "valid_cluster g c \<Longrightarrow> fat_index g c"
  by (simp add: valid_cluster_def)

lemma fat_lba_copy: "fat_lba_for_cluster g c = copy_lba g 0 c"
  by (simp add: fat_lba_for_cluster_def copy_lba_def)

lemma unat_times4: "unat c < 2 ^ 30 \<Longrightarrow> unat (c * 4 :: u32) = 4 * unat c"
  by (simp add: unat_word_ariths)

lemma fat_offset_unat:
  assumes "geo_ok g" "fat_index g c"
  shows "unat (fat_offset_in_sector c) = 4 * (unat c mod 128)"
proof -
  have "unat c < 2 ^ 30" using assms by (simp add: geo_ok_def fat_index_def)
  then have "unat (fat_offset_in_sector c) = (4 * unat c) mod 512"
    by (simp add: fat_offset_in_sector_def unat_mod unat_times4)
  also have "\<dots> = 4 * (unat c mod 128)"
    using mult_mod_right [of 4 "unat c" 128] by simp
  finally show ?thesis .
qed

lemma copy_lba_unat:
  assumes "geo_ok g" "fat_index g c" "f < vol_num_fats g"
  shows "unat (copy_lba g f c) = unat (vol_fat_lba g) + unat f * unat (vol_fat_size g) + unat c div 128"
    "unat c div 128 < unat (vol_fat_size g)"
    "unat (copy_lba g f c) < unat (vol_data_lba g)"
proof -
  have c: "unat c < 2 ^ 30" using assms by (simp add: geo_ok_def fat_index_def)
  have "(4 * unat c) div 512 = unat c div 128" by simp
  then have d: "unat ((c * 4) div 512) = unat c div 128"
    using c by (simp add: unat_div unat_times4)
  show sz: "unat c div 128 < unat (vol_fat_size g)"
    using assms by (auto simp: geo_ok_def fat_index_def)
  have "unat f + 1 \<le> unat (vol_num_fats g)" using assms(3) by (simp add: word_less_nat_alt)
  then have "(unat f + 1) * unat (vol_fat_size g) \<le> unat (vol_num_fats g) * unat (vol_fat_size g)"
    by (rule mult_le_mono1)
  then have le: "unat (vol_fat_lba g) + unat f * unat (vol_fat_size g) + unat c div 128
      < unat (vol_data_lba g)"
    using assms(1) sz by (simp add: geo_ok_def algebra_simps)
  have "unat (vol_data_lba g) < 2 ^ 32" using unsigned_less [of "vol_data_lba g", where ?'a = nat] by simp
  moreover have "unat c * 4 < 4294967296" using c by simp
  ultimately show eq: "unat (copy_lba g f c)
      = unat (vol_fat_lba g) + unat f * unat (vol_fat_size g) + unat c div 128"
    using le by (simp add: copy_lba_def unat_word_ariths unat_div)
  show "unat (copy_lba g f c) < unat (vol_data_lba g)" using eq le by simp
qed

lemma copy_lba_not_no:
  assumes "geo_ok g" "fat_index g c" "f < vol_num_fats g"
  shows "copy_lba g f c \<noteq> NO_LBA"
proof
  assume "copy_lba g f c = NO_LBA"
  then have "unat (copy_lba g f c) = 0xFFFFFFFF" by simp
  with copy_lba_unat(3) [OF assms] unsigned_less [of "vol_data_lba g", where ?'a = nat] show False by simp
qed

text \<open>Two FAT entries are the same entry or occupy disjoint bytes.\<close>

lemma copy_slots:
  assumes g: "geo_ok g" and c: "fat_index g c" "fat_index g c'"
    and f: "f < vol_num_fats g" "f' < vol_num_fats g"
    and eq: "copy_lba g f c = copy_lba g f' c'"
  shows "f = f' \<and> (c = c' \<or> unat (fat_offset_in_sector c) + 4 \<le> unat (fat_offset_in_sector c') \<or>
    unat (fat_offset_in_sector c') + 4 \<le> unat (fat_offset_in_sector c))"
proof -
  note L = copy_lba_unat [OF g c(1) f(1)] copy_lba_unat [OF g c(2) f(2)]
  let ?n = "unat (vol_fat_size g)"
  have E: "unat f * ?n + unat c div 128 = unat f' * ?n + unat c' div 128"
    using L(1,4) eq by simp
  have "(unat f * ?n + unat c div 128) div ?n = unat f"
    "(unat f' * ?n + unat c' div 128) div ?n = unat f'"
    using L(2,5) by (simp_all add: div_add1_eq)
  with E have ff: "unat f = unat f'" by metis
  with E have cc: "unat c div 128 = unat c' div 128" by simp
  have "c = c' \<or> unat c mod 128 \<noteq> unat c' mod 128"
    using cc by (metis div_mod_decomp word_unat_eq_iff)
  moreover have "f = f'" using ff by (simp add: word_unat_eq_iff)
  ultimately show ?thesis
    using fat_offset_unat [OF g c(1)] fat_offset_unat [OF g c(2)] by auto
qed

section \<open>Reading and writing entries\<close>

lemma good_volD: "good_vol s \<Longrightarrow> io_ok s" "good_vol s \<Longrightarrow> cache_ok s" "good_vol s \<Longrightarrow> geo_ok (geo s)"
  by (simp_all add: good_vol_def)

lemma num_fats_pos: "geo_ok g \<Longrightarrow> 0 < vol_num_fats g"
  by (simp add: geo_ok_def word_less_nat_alt)

text \<open>The views of two volumes agree on everything but the sentinel address.\<close>

definition same_view :: "vol \<Rightarrow> vol \<Rightarrow> bool" where
  "same_view s t \<longleftrightarrow> (\<forall>a. a \<noteq> NO_LBA \<longrightarrow> sec_view t a = sec_view s a)"

lemma same_view_refl [simp]: "same_view s s"
  by (simp add: same_view_def)

lemma same_view_trans [trans]: "same_view s t \<Longrightarrow> same_view t u \<Longrightarrow> same_view s u"
  by (simp add: same_view_def)

lemma fat_getE:
  assumes "good_vol s" "fat_index (geo s) c"
  obtains t where "fat_get c s = (fatv s c, t)" "same_vol s t" "good_vol t" "same_view s t"
proof -
  note G = good_volD [OF assms(1)]
  have ne: "fat_lba_for_cluster (geo s) c \<noteq> NO_LBA"
    using copy_lba_not_no [OF G(3) assms(2) num_fats_pos [OF G(3)]] by (simp add: fat_lba_copy)
  show ?thesis
  proof (rule sec_readE [OF G(1,2) ne])
    fix t assume t: "sec_read (fat_lba_for_cluster (geo s) c) s = (True, t)" "same_vol s t"
      "cache_ok t" "io_ok t" "\<And>a. a \<noteq> NO_LBA \<Longrightarrow> sec_view t a = sec_view s a"
      "sec_cache t = sec_view s (fat_lba_for_cluster (geo s) c)"
    show thesis
    proof (rule that)
      show "fat_get c s = (fatv s c, t)"
        using t by (simp add: fat_get_def fatv_def fat_copy_def fat_lba_copy)
      show "same_vol s t" by (rule t(2))
      show "good_vol t" using t G(3) by (simp add: good_vol_def same_vol_geo)
      show "same_view s t" using t(5) by (simp add: same_view_def)
    qed
  qed
qed

lemma same_view_fat:
  assumes "same_view s t" "same_vol s t" "geo_ok (geo s)" "fat_index (geo s) c" "f < vol_num_fats (geo s)"
  shows "fat_copy t f c = fat_copy s f c"
  using assms copy_lba_not_no [OF assms(3-5)]
  by (simp add: fat_copy_def same_view_def same_vol_geo)

lemma same_view_fatv:
  assumes "same_view s t" "same_vol s t" "geo_ok (geo s)" "fat_index (geo s) c"
  shows "fatv t c = fatv s c"
  using same_view_fat [OF assms num_fats_pos [OF assms(3)]] by (simp add: fatv_def)

text \<open>One iteration of \<open>fat_set\<close>'s loop patches one entry of one copy and nothing else.\<close>

lemma fat_patch_step:
  assumes "good_vol s" "fat_index (geo s) c" "f < vol_num_fats (geo s)"
  obtains s1 t where "sec_read (copy_lba (geo s) f c) s = (True, s1)"
    "cache_patch (unat (fat_offset_in_sector c)) (le32 v) s1 = (True, t)"
    "same_vol s t" "good_vol t"
    "\<And>f' c'. f' < vol_num_fats (geo s) \<Longrightarrow> fat_index (geo s) c' \<Longrightarrow>
       fat_copy t f' c' = (if f' = f \<and> c' = c then v else fat_copy s f' c')"
    "\<And>a. a \<noteq> NO_LBA \<Longrightarrow> a \<noteq> copy_lba (geo s) f c \<Longrightarrow> sec_view t a = sec_view s a"
    "sec_cache_lba t = copy_lba (geo s) f c" "\<not> sec_cache_dirty t"
proof -
  note G = good_volD [OF assms(1)]
  let ?l = "copy_lba (geo s) f c" and ?o = "unat (fat_offset_in_sector c)"
  have ne: "?l \<noteq> NO_LBA" by (rule copy_lba_not_no [OF G(3) assms(2,3)])
  obtain s1 where r: "sec_read ?l s = (True, s1)" "same_vol s s1" "cache_ok s1" "io_ok s1"
    "\<And>a. a \<noteq> NO_LBA \<Longrightarrow> sec_view s1 a = sec_view s a" "sec_cache s1 = sec_view s ?l"
    "sec_cache_lba s1 = ?l"
    using sec_readE [OF G(1,2) ne] by blast
  obtain ok t where p: "cache_patch ?o (le32 v) s1 = (ok, t)" by fastforce
  note P = cache_patch_view [OF p r(4)] 
  have P: ok "cache_ok t" "same_vol s1 t" "sec_cache_lba t = ?l"
    "sec_view t = (sec_view s1)(?l := blit ?o (le32 v) (sec_view s ?l))" "\<not> sec_cache_dirty t"
    using P r(6,7) ne by auto
  have sv: "same_vol s t" by (rule same_vol_trans [OF r(2) P(3)])
  show ?thesis
  proof (rule that [OF r(1)])
    show "cache_patch ?o (le32 v) s1 = (True, t)" using p P(1) by simp
    show "same_vol s t" by (rule sv)
    show "good_vol t" using same_vol_io [OF sv G(1)] P(2) G(3) sv by (simp add: good_vol_def same_vol_geo)
    show "sec_cache_lba t = ?l" "\<not> sec_cache_dirty t" by (fact P)+
    show "\<And>a. a \<noteq> NO_LBA \<Longrightarrow> a \<noteq> ?l \<Longrightarrow> sec_view t a = sec_view s a" using P(5) r(5) by simp
    fix f' c' assume f': "f' < vol_num_fats (geo s)" and c': "fat_index (geo s) c'"
    have ne': "copy_lba (geo s) f' c' \<noteq> NO_LBA" by (rule copy_lba_not_no [OF G(3) c' f'])
    show "fat_copy t f' c' = (if f' = f \<and> c' = c then v else fat_copy s f' c')"
    proof (cases "copy_lba (geo s) f' c' = ?l")
      case True
      from copy_slots [OF G(3) c' assms(2) f' assms(3) True]
      show ?thesis
        using P(5) True sv by (auto simp: fat_copy_def same_vol_geo get32_blit_other)
    next
      case False
      then show ?thesis using P(5) r(5) sv ne' by (auto simp: fat_copy_def same_vol_geo)
    qed
  qed
qed

lemma fat_set_copies_spec:
  assumes "good_vol s" "fat_index (geo s) c" "\<forall>f \<in> set fs. f < vol_num_fats (geo s)"
  shows "\<exists>t. fat_set_copies fs c v s = (True, t) \<and> same_vol s t \<and> good_vol t \<and>
    (\<forall>f' c'. f' < vol_num_fats (geo s) \<longrightarrow> fat_index (geo s) c' \<longrightarrow>
       fat_copy t f' c' = (if f' \<in> set fs \<and> c' = c then v else fat_copy s f' c')) \<and>
    (\<forall>a. a \<noteq> NO_LBA \<longrightarrow> vol_data_lba (geo s) \<le> a \<longrightarrow> sec_view t a = sec_view s a) \<and>
    (fs \<noteq> [] \<longrightarrow> sec_cache_lba t = copy_lba (geo s) (last fs) c \<and> \<not> sec_cache_dirty t)"
  using assms
proof (induction fs arbitrary: s)
  case (Cons f fs)
  then have f: "f < vol_num_fats (geo s)" by simp
  show ?case
  proof (rule fat_patch_step [OF Cons.prems(1,2) f, where v = v])
    fix s1 s2
    assume a: "sec_read (copy_lba (geo s) f c) s = (True, s1)"
      "cache_patch (unat (fat_offset_in_sector c)) (le32 v) s1 = (True, s2)"
      "same_vol s s2" "good_vol s2"
      "\<And>f' c'. f' < vol_num_fats (geo s) \<Longrightarrow> fat_index (geo s) c' \<Longrightarrow>
         fat_copy s2 f' c' = (if f' = f \<and> c' = c then v else fat_copy s f' c')"
      "\<And>a. a \<noteq> NO_LBA \<Longrightarrow> a \<noteq> copy_lba (geo s) f c \<Longrightarrow> sec_view s2 a = sec_view s a"
      "sec_cache_lba s2 = copy_lba (geo s) f c" "\<not> sec_cache_dirty s2"
    have g: "geo s2 = geo s" using a(3) by (rule same_vol_geo)
    have below: "copy_lba (geo s) f c < vol_data_lba (geo s)"
      using copy_lba_unat(3) [OF good_volD(3) [OF Cons.prems(1)] Cons.prems(2) f]
      by (simp add: word_less_nat_alt)
    obtain t where t: "fat_set_copies fs c v s2 = (True, t)" "same_vol s2 t" "good_vol t"
      "\<forall>f' c'. f' < vol_num_fats (geo s) \<longrightarrow> fat_index (geo s) c' \<longrightarrow>
         fat_copy t f' c' = (if f' \<in> set fs \<and> c' = c then v else fat_copy s2 f' c')"
      "\<forall>a. a \<noteq> NO_LBA \<longrightarrow> vol_data_lba (geo s) \<le> a \<longrightarrow> sec_view t a = sec_view s2 a"
      "fs \<noteq> [] \<longrightarrow> sec_cache_lba t = copy_lba (geo s) (last fs) c \<and> \<not> sec_cache_dirty t"
      using Cons.IH [of s2] a(4) Cons.prems(2,3) g by auto
    have "fat_set_copies (f # fs) c v s = (True, t)"
      using a(1,2) t(1) by (simp add: copy_lba_def)
    moreover have "fs = [] \<Longrightarrow> t = s2" using t(1) by simp
    ultimately show ?thesis
      using a t same_vol_trans [OF a(3) t(2)] below by (intro exI [of _ t]) auto
  qed
qed simp

lemma fat_setE:
  assumes "good_vol s" "fat_index (geo s) c"
  obtains t where "fat_set c v s = (True, t)" "same_vol s t" "good_vol t"
    "\<And>f' c'. f' < vol_num_fats (geo s) \<Longrightarrow> fat_index (geo s) c' \<Longrightarrow>
       fat_copy t f' c' = (if c' = c then v AND FAT_MASK else fat_copy s f' c')"
    "\<And>a. a \<noteq> NO_LBA \<Longrightarrow> vol_data_lba (geo s) \<le> a \<Longrightarrow> sec_view t a = sec_view s a"
    "sec_cache_lba t < vol_data_lba (geo s)" "\<not> sec_cache_dirty t"
proof -
  let ?fs = "range32 0 (vol_num_fats (geo s))"
  have fs: "set ?fs = {f. f < vol_num_fats (geo s)}" by (simp add: set_range32)
  have ne: "?fs \<noteq> []"
    using fs num_fats_pos [OF good_volD(3) [OF assms(1)]] by (metis empty_Collect_eq empty_set)
  obtain t where t: "fat_set_copies ?fs c (v AND FAT_MASK) s = (True, t)" "same_vol s t" "good_vol t"
    "\<forall>f' c'. f' < vol_num_fats (geo s) \<longrightarrow> fat_index (geo s) c' \<longrightarrow>
       fat_copy t f' c' = (if f' \<in> set ?fs \<and> c' = c then v AND FAT_MASK else fat_copy s f' c')"
    "\<forall>a. a \<noteq> NO_LBA \<longrightarrow> vol_data_lba (geo s) \<le> a \<longrightarrow> sec_view t a = sec_view s a"
    "sec_cache_lba t = copy_lba (geo s) (last ?fs) c" "\<not> sec_cache_dirty t"
    using fat_set_copies_spec [OF assms, of ?fs "v AND FAT_MASK"] fs ne by auto
  have "last ?fs < vol_num_fats (geo s)" using last_in_set [OF ne] fs by simp
  then have "sec_cache_lba t < vol_data_lba (geo s)"
    using copy_lba_unat(3) [OF good_volD(3) [OF assms(1)] assms(2)] t(6)
    by (simp add: word_less_nat_alt)
  then show ?thesis using that [of t] t fs by (simp add: fat_set_def)
qed


lemma mask_idem [simp]: "(v AND FAT_MASK) AND FAT_MASK = v AND FAT_MASK"
  by (simp add: and.assoc)

lemma fat_set_fatv:
  assumes "good_vol s" "fat_index (geo s) c" "fat_set c v s = (ok, t)"
  shows "ok" "same_vol s t" "good_vol t"
    "fat_index (geo s) k \<Longrightarrow> fatv t k = (if k = c then v AND FAT_MASK else fatv s k)"
    "a \<noteq> NO_LBA \<Longrightarrow> vol_data_lba (geo s) \<le> a \<Longrightarrow> sec_view t a = sec_view s a"
    "sec_cache_lba t < vol_data_lba (geo s)" "\<not> sec_cache_dirty t"
proof -
  obtain t' where t': "fat_set c v s = (True, t')" "same_vol s t'" "good_vol t'"
    "\<And>f' c'. f' < vol_num_fats (geo s) \<Longrightarrow> fat_index (geo s) c' \<Longrightarrow>
       fat_copy t' f' c' = (if c' = c then v AND FAT_MASK else fat_copy s f' c')"
    "\<And>a. a \<noteq> NO_LBA \<Longrightarrow> vol_data_lba (geo s) \<le> a \<Longrightarrow> sec_view t' a = sec_view s a"
    "sec_cache_lba t' < vol_data_lba (geo s)" "\<not> sec_cache_dirty t'"
    by (rule fat_setE [OF assms(1,2), where v = v]) blast
  with assms(3) have [simp]: "ok" "t = t'" by auto
  show "ok" "same_vol s t" "good_vol t" "sec_cache_lba t < vol_data_lba (geo s)" "\<not> sec_cache_dirty t"
    using t' by auto
  show "fat_index (geo s) k \<Longrightarrow> fatv t k = (if k = c then v AND FAT_MASK else fatv s k)"
    using t'(4) [OF num_fats_pos [OF good_volD(3) [OF assms(1)]]] by (simp add: fatv_def)
  show "a \<noteq> NO_LBA \<Longrightarrow> vol_data_lba (geo s) \<le> a \<Longrightarrow> sec_view t a = sec_view s a"
    using t'(5) by simp
qed

text \<open>The FAT is a store of 28-bit entries; what a client does with a list of entries follows.\<close>

interpretation fat: cell_store fatv "\<lambda>c v s. snd (fat_set c v s)"
  "\<lambda>s. good_vol s \<and> geo s = g" "fat_index g" "\<lambda>v. v AND FAT_MASK" for g
proof unfold_locales
  fix s :: vol and k v
  assume g: "good_vol s \<and> geo s = g" "fat_index g k"
  obtain ok t where t: "fat_set k v s = (ok, t)" by fastforce
  note F = fat_set_fatv [OF _ _ t]
  show "fatv (snd (fat_set k v s)) k = v AND FAT_MASK" using F(4) g t by simp
  show "good_vol (snd (fat_set k v s)) \<and> geo (snd (fat_set k v s)) = g"
    using F(2,3) g t by (simp add: same_vol_geo)
  fix j assume "fat_index g j" "j \<noteq> k"
  then show "fatv (snd (fat_set k v s)) j = fatv s j" using F(4) g t by simp
qed

section \<open>Chains\<close>

text \<open>\<open>cs\<close> are the clusters a traversal from \<open>c\<close> visits until it leaves the range of links.\<close>

fun chain :: "(u32 \<Rightarrow> u32) \<Rightarrow> u32 \<Rightarrow> u32 list \<Rightarrow> bool" where
  "chain f c [] \<longleftrightarrow> c < 2 \<or> FAT32_EOC \<le> c"
| "chain f c (x # xs) \<longleftrightarrow> x = c \<and> 2 \<le> c \<and> c < FAT32_EOC \<and> chain f (f c) xs"

lemma chain_cong: "(\<And>k. k \<in> set cs \<Longrightarrow> f k = g k) \<Longrightarrow> chain f c cs = chain g c cs"
  by (induction cs arbitrary: c) auto

lemma fat_free_chain_spec:
  assumes "chain (fatv s) c cs" "distinct cs" "\<forall>k \<in> set cs. fat_index (geo s) k" "good_vol s"
  shows "\<exists>t. fat_free_chain c s = Some t \<and> same_vol s t \<and> good_vol t \<and>
    (\<forall>k. fat_index (geo s) k \<longrightarrow> fatv t k = (if k \<in> set cs then FAT32_FREE else fatv s k)) \<and>
    (\<forall>a. a \<noteq> NO_LBA \<longrightarrow> vol_data_lba (geo s) \<le> a \<longrightarrow> sec_view t a = sec_view s a)"
  using assms
proof (induction cs arbitrary: c s)
  case Nil
  then show ?case by (subst fat_free_chain.simps) auto
next
  case (Cons x cs)
  then have x: "x = c" "2 \<le> c" "c < FAT32_EOC" "chain (fatv s) (fatv s c) cs" "c \<notin> set cs"
    "fat_index (geo s) c" by auto
  obtain s1 where s1: "fat_get c s = (fatv s c, s1)" "same_vol s s1" "good_vol s1" "same_view s s1"
    by (rule fat_getE [OF Cons.prems(4) x(6)])
  have g1: "geo s1 = geo s" using s1(2) by (rule same_vol_geo)
  have v1: "fat_index (geo s) k \<Longrightarrow> fatv s1 k = fatv s k" for k
    by (rule same_view_fatv [OF s1(4,2) good_volD(3) [OF Cons.prems(4)]])
  obtain ok s2 where f: "fat_set c FAT32_FREE s1 = (ok, s2)" by fastforce
  note F = fat_set_fatv [OF s1(3) x(6) [folded g1] f]
  have g2: "geo s2 = geo s" using F(2) g1 by (simp add: same_vol_geo)
  have fv2: "fat_index (geo s) k \<Longrightarrow> fatv s2 k = (if k = c then 0 else fatv s k)" for k
    using F(4) [of k] v1 [of k] g1 by simp
  have "chain (fatv s2) (fatv s c) cs"
    using x(4,5) fv2 Cons.prems(3) by (subst chain_cong [of _ _ "fatv s"]) auto
  then obtain t where t: "fat_free_chain (fatv s c) s2 = Some t" "same_vol s2 t" "good_vol t"
    "\<forall>k. fat_index (geo s) k \<longrightarrow> fatv t k = (if k \<in> set cs then FAT32_FREE else fatv s2 k)"
    "\<forall>a. a \<noteq> NO_LBA \<longrightarrow> vol_data_lba (geo s) \<le> a \<longrightarrow> sec_view t a = sec_view s2 a"
    using Cons.IH [of s2 "fatv s c"] Cons.prems F(3) g2 by auto
  have "fat_free_chain c s = Some t"
    using x(2,3) s1(1) f t(1) by (subst fat_free_chain.simps) simp
  moreover have "same_vol s t" using s1(2) F(2) t(2) same_vol_trans by blast
  moreover have "\<forall>a. a \<noteq> NO_LBA \<longrightarrow> vol_data_lba (geo s) \<le> a \<longrightarrow> sec_view t a = sec_view s a"
    using t(5) F(5) s1(4) g1 by (simp add: same_view_def)
  ultimately show ?case using t(3,4) fv2 x(1) by auto
qed


section \<open>Allocation\<close>

lemma cluster_lba_unat:
  assumes "geo_ok g" "valid_cluster g c" "i < unat (vol_sec_per_clus g)"
  shows "unat (cluster_to_lba g c + of_nat i)
    = unat (vol_data_lba g) + (unat c - 2) * unat (vol_sec_per_clus g) + i"
    "unat (cluster_to_lba g c + of_nat i) < 2 ^ 32 - 1"
proof -
  let ?k = "unat (vol_sec_per_clus g)"
  have c2: "unat (c - 2) = unat c - 2"
    using assms(2) by (simp add: valid_cluster_def unat_sub word_le_nat_alt)
  have "unat c - 2 + 1 \<le> unat (vol_total_clusters g)"
    using assms(2) unfolding valid_cluster_def fat_index_def by linarith
  then have "(unat c - 2 + 1) * ?k \<le> unat (vol_total_clusters g) * ?k"
    by (rule mult_le_mono1)
  moreover have "(unat c - 2 + 1) * ?k = (unat c - 2) * ?k + ?k" by (simp add: algebra_simps)
  ultimately have le: "unat (vol_data_lba g) + (unat c - 2) * ?k + ?k < 2 ^ 32"
    using assms(1) unfolding geo_ok_def by linarith
  have i32: "i < 2 ^ 32" using le assms(3) by linarith
  have m: "(unat c - 2) * ?k < 2 ^ 32" using le by linarith
  show eq: "unat (cluster_to_lba g c + of_nat i) = unat (vol_data_lba g) + (unat c - 2) * ?k + i"
    using le assms(3) i32 m by (simp add: cluster_to_lba_def unat_word_ariths c2 unat_of_nat)
  show "unat (cluster_to_lba g c + of_nat i) < 2 ^ 32 - 1" using eq le assms(3) by linarith
qed

text \<open>The sectors of a cluster.\<close>

definition cluster_sectors :: "geometry \<Rightarrow> u32 \<Rightarrow> u32 set" where
  "cluster_sectors g c = (\<lambda>i. cluster_to_lba g c + i) ` {i. i < vol_sec_per_clus g}"

lemma cluster_sectors_range:
  assumes "geo_ok g" "valid_cluster g c" "a \<in> cluster_sectors g c"
  shows "vol_data_lba g \<le> a" "a \<noteq> NO_LBA"
    "unat a = unat (vol_data_lba g) + (unat c - 2) * unat (vol_sec_per_clus g) + unat (a - cluster_to_lba g c)"
    "unat (a - cluster_to_lba g c) < unat (vol_sec_per_clus g)"
proof -
  obtain i where i: "a = cluster_to_lba g c + i" "i < vol_sec_per_clus g"
    using assms(3) by (auto simp: cluster_sectors_def)
  have i': "unat i < unat (vol_sec_per_clus g)" using i(2) by (simp add: word_less_nat_alt)
  note C = cluster_lba_unat [OF assms(1,2) i']
  have a: "a = cluster_to_lba g c + of_nat (unat i)" using i by simp
  show "unat a = unat (vol_data_lba g) + (unat c - 2) * unat (vol_sec_per_clus g) + unat (a - cluster_to_lba g c)"
    "unat (a - cluster_to_lba g c) < unat (vol_sec_per_clus g)"
    using C(1) a i i' by simp_all
  then show "vol_data_lba g \<le> a" by (simp add: word_le_nat_alt)
  show "a \<noteq> NO_LBA"
  proof
    assume "a = NO_LBA"
    then have "unat a = 0xFFFFFFFF" by simp
    with C(2) a show False by simp
  qed
qed

text \<open>Distinct clusters share no sector.\<close>

lemma cluster_sectors_disjoint:
  assumes "geo_ok g" "valid_cluster g c" "valid_cluster g d" "c \<noteq> d"
  shows "cluster_sectors g c \<inter> cluster_sectors g d = {}"
proof (rule ccontr)
  let ?k = "unat (vol_sec_per_clus g)"
  assume "cluster_sectors g c \<inter> cluster_sectors g d \<noteq> {}"
  then obtain a where "a \<in> cluster_sectors g c" "a \<in> cluster_sectors g d" by auto
  note C = cluster_sectors_range [OF assms(1,2) this(1)] and D = cluster_sectors_range [OF assms(1,3) this(2)]
  have "((unat c - 2) * ?k + unat (a - cluster_to_lba g c)) div ?k = unat c - 2"
    "((unat d - 2) * ?k + unat (a - cluster_to_lba g d)) div ?k = unat d - 2"
    using C(4) D(4) by (simp_all add: div_add1_eq)
  moreover have "(unat c - 2) * ?k + unat (a - cluster_to_lba g c)
      = (unat d - 2) * ?k + unat (a - cluster_to_lba g d)" using C(3) D(3) by linarith
  ultimately have "unat c - 2 = unat d - 2" by metis
  then have "unat c = unat d" using assms(2,3) unfolding valid_cluster_def by linarith
  with assms(4) show False by (simp add: word_unat_eq_iff)
qed

lemma zero_sectors_spec:
  assumes "io_ok s" "\<not> sec_cache_dirty s" "\<forall>i \<in> set is. base + i \<noteq> sec_cache_lba s" "cache_ok s"
  shows "same_vol s (zero_sectors is base s) \<and> cache_ok (zero_sectors is base s) \<and>
    (\<forall>a. sec_view (zero_sectors is base s) a
       = (if a \<in> (\<lambda>i. base + i) ` set is then zero_sector else sec_view s a))"
  using assms
proof (induction "is" arbitrary: s)
  case (Cons i "is")
  define u where "u = s\<lparr>drv := (drv s)\<lparr>drv_data := (drv_data (drv s))(base + i := zero_sector)\<rparr>\<rparr>"
  have w: "zero_sectors (i # is) base s = zero_sectors is base u"
    using Cons.prems(1) by (simp add: blk_write_ok u_def)
  have sv: "same_vol s u" by (simp add: same_vol_def u_def)
  have cu: "cache_ok u" using Cons.prems(2-4) by (auto simp: cache_ok_def u_def)
  have vu: "sec_view u a = (if a = base + i then zero_sector else sec_view s a)" for a
    using Cons.prems(3) by (auto simp: sec_view_def u_def)
  have IH: "same_vol u (zero_sectors is base u) \<and> cache_ok (zero_sectors is base u) \<and>
    (\<forall>a. sec_view (zero_sectors is base u) a
       = (if a \<in> (\<lambda>i. base + i) ` set is then zero_sector else sec_view u a))"
    using Cons.IH [of u] Cons.prems same_vol_io [OF sv Cons.prems(1)] cu by (simp add: u_def)
  then show ?case
    unfolding w using vu same_vol_trans [OF sv, of "zero_sectors is base u"] by simp
qed simp

lemma index_mask: "geo_ok g \<Longrightarrow> fat_index g c \<Longrightarrow> c AND FAT_MASK = c"
proof -
  assume "geo_ok g" "fat_index g c"
  then have "unat c < 268435456" by (simp add: geo_ok_def fat_index_def)
  then have "int (unat c) < 268435456" by linarith
  then have "c AND mask 28 = c" by (simp add: mask_eq_iff)
  moreover have "FAT_MASK = mask 28" by (simp add: mask_eq_exp_minus_1)
  ultimately show ?thesis by simp
qed

text \<open>What a successful allocation leaves behind.\<close>

definition allocated :: "u32 \<Rightarrow> u32 \<Rightarrow> vol \<Rightarrow> vol \<Rightarrow> bool" where
  "allocated prev c s t \<longleftrightarrow> valid_cluster (geo s) c \<and> fatv s c = FAT32_FREE \<and>
     (\<forall>k. fat_index (geo s) k \<longrightarrow> fatv t k =
        (if k = c then FAT_MASK else if prev \<noteq> 0 \<and> k = prev then c else fatv s k)) \<and>
     (\<forall>a \<in> cluster_sectors (geo s) c. sec_view t a = zero_sector) \<and>
     (\<forall>a. a \<noteq> NO_LBA \<longrightarrow> vol_data_lba (geo s) \<le> a \<longrightarrow> a \<notin> cluster_sectors (geo s) c \<longrightarrow>
        sec_view t a = sec_view s a)"

lemma fat_alloc_commit:
  assumes "good_vol s" "valid_cluster (geo s) c" "fatv s c = FAT32_FREE"
    and "prev = 0 \<or> fat_index (geo s) prev \<and> fatv s prev \<noteq> FAT32_FREE"
    and s2: "s2 = snd (fat_set c 0x0FFFFFFF s)"
    and s3: "s3 = (if prev \<noteq> 0 then snd (fat_set prev c s2) else s2)"
    and t: "t = zero_sectors (range32 0 (vol_sec_per_clus (geo s3))) (cluster_to_lba (geo s3) c) s3"
  shows "same_vol s t \<and> good_vol t \<and> allocated prev c s t"
proof -
  note G = good_volD(3) [OF assms(1)]
  have ci: "fat_index (geo s) c" using assms(2) by (rule valid_fat_index)
  obtain ok where f2: "fat_set c 0x0FFFFFFF s = (ok, s2)" unfolding s2 by (metis prod.collapse)
  note F2 = fat_set_fatv [OF assms(1) ci f2]
  have g2: "geo s2 = geo s" using F2(2) by (rule same_vol_geo)
  have pc: "prev \<noteq> 0 \<Longrightarrow> prev \<noteq> c" using assms(3,4) by auto
  have S3: "same_vol s s3" "good_vol s3" "sec_cache_lba s3 < vol_data_lba (geo s)" "\<not> sec_cache_dirty s3"
    "\<And>k. fat_index (geo s) k \<Longrightarrow> fatv s3 k =
       (if k = c then FAT_MASK else if prev \<noteq> 0 \<and> k = prev then c else fatv s k)"
    "\<And>a. a \<noteq> NO_LBA \<Longrightarrow> vol_data_lba (geo s) \<le> a \<Longrightarrow> sec_view s3 a = sec_view s a"
  proof -
    have "same_vol s s3 \<and> good_vol s3 \<and> sec_cache_lba s3 < vol_data_lba (geo s) \<and>
      \<not> sec_cache_dirty s3 \<and> (\<forall>k. fat_index (geo s) k \<longrightarrow> fatv s3 k =
       (if k = c then FAT_MASK else if prev \<noteq> 0 \<and> k = prev then c else fatv s k)) \<and>
      (\<forall>a. a \<noteq> NO_LBA \<longrightarrow> vol_data_lba (geo s) \<le> a \<longrightarrow> sec_view s3 a = sec_view s a)"
      (is "?P s3")
    proof (cases "prev = 0")
      case True
      then have "s3 = s2" using s3 by simp
      moreover have "?P s2" using F2 True by simp
      ultimately show ?thesis by simp
    next
      case False
      have pi: "fat_index (geo s2) prev" using False assms(4) g2 by simp
      obtain ok3 where f3: "fat_set prev c s2 = (ok3, s3)" using s3 False by (metis prod.collapse)
      note F3 = fat_set_fatv [OF F2(3) pi f3]
      have m: "c AND FAT_MASK = c" by (rule index_mask [OF G ci])
      have "fatv s3 k = (if k = c then FAT_MASK else if prev \<noteq> 0 \<and> k = prev then c else fatv s k)"
        if "fat_index (geo s) k" for k
      proof -
        have k: "fat_index (geo s2) k" using that g2 by simp
        show ?thesis
          unfolding F3(4) [OF k] F2(4) [OF that] m using pc [OF False] False by auto
      qed
      moreover have "sec_view s3 a = sec_view s a" if "a \<noteq> NO_LBA" "vol_data_lba (geo s) \<le> a" for a
        using F3(5) [of a] F2(5) [of a] that g2 by simp
      moreover have "sec_cache_lba s3 < vol_data_lba (geo s)" using F3(6) g2 by simp
      ultimately show ?thesis using F3(3,7) same_vol_trans [OF F2(2) F3(2)] by blast
    qed
    then show "same_vol s s3" "good_vol s3" "sec_cache_lba s3 < vol_data_lba (geo s)" "\<not> sec_cache_dirty s3"
      "\<And>k. fat_index (geo s) k \<Longrightarrow> fatv s3 k =
       (if k = c then FAT_MASK else if prev \<noteq> 0 \<and> k = prev then c else fatv s k)"
      "\<And>a. a \<noteq> NO_LBA \<Longrightarrow> vol_data_lba (geo s) \<le> a \<Longrightarrow> sec_view s3 a = sec_view s a" by blast+
  qed
  have g3: "geo s3 = geo s" using S3(1) by (rule same_vol_geo)
  let ?is = "range32 0 (vol_sec_per_clus (geo s))" and ?b = "cluster_to_lba (geo s) c"
  have img: "(\<lambda>i. ?b + i) ` set ?is = cluster_sectors (geo s) c"
    by (simp add: cluster_sectors_def set_range32)
  have "\<forall>i \<in> set ?is. ?b + i \<noteq> sec_cache_lba s3"
  proof
    fix i assume "i \<in> set ?is"
    then have "?b + i \<in> cluster_sectors (geo s) c" unfolding img [symmetric] by (rule imageI)
    from cluster_sectors_range(1) [OF G assms(2) this] S3(3)
    show "?b + i \<noteq> sec_cache_lba s3" by auto
  qed
  note Z = zero_sectors_spec [OF good_volD(1) [OF S3(2)] S3(4) this good_volD(2) [OF S3(2)]]
  have tz: "t = zero_sectors ?is ?b s3" using t g3 by simp
  have sv3: "same_vol s3 t" and ct: "cache_ok t"
    and vt: "\<And>a. sec_view t a = (if a \<in> cluster_sectors (geo s) c then zero_sector else sec_view s3 a)"
    using Z unfolding tz img by auto
  have gt: "good_vol t"
    using ct same_vol_io [OF sv3 good_volD(1) [OF S3(2)]] G sv3 g3 by (simp add: good_vol_def same_vol_geo)
  have ft: "fatv t k = fatv s3 k" if k: "fat_index (geo s) k" for k
  proof -
    have "copy_lba (geo s) 0 k < vol_data_lba (geo s)"
      using copy_lba_unat(3) [OF G k num_fats_pos [OF G]] by (simp add: word_less_nat_alt)
    then have "copy_lba (geo s) 0 k \<notin> cluster_sectors (geo s) c"
      using cluster_sectors_range(1) [OF G assms(2)] leD by blast
    then show ?thesis using vt g3 sv3 by (simp add: fatv_def fat_copy_def same_vol_geo)
  qed
  have "allocated prev c s t"
    unfolding allocated_def
  proof (intro conjI allI ballI impI)
    fix k assume "fat_index (geo s) k"
    then show "fatv t k = (if k = c then FAT_MASK else if prev \<noteq> 0 \<and> k = prev then c else fatv s k)"
      using ft S3(5) by metis
  next
    fix a assume "a \<in> cluster_sectors (geo s) c"
    then show "sec_view t a = zero_sector" using vt by metis
  next
    fix a assume "a \<noteq> NO_LBA" "vol_data_lba (geo s) \<le> a" "a \<notin> cluster_sectors (geo s) c"
    then show "sec_view t a = sec_view s a" using vt S3(6) by metis
  qed (use assms in simp_all)
  then show ?thesis using same_vol_trans [OF S3(1) sv3] gt by blast
qed

lemma fat_alloc_scan_spec:
  assumes "good_vol s" "\<forall>k \<in> set cs. valid_cluster (geo s) k"
    and "prev = 0 \<or> fat_index (geo s) prev \<and> fatv s prev \<noteq> FAT32_FREE"
    and "fat_alloc_scan cs prev s = (c, t)"
  shows "same_vol s t \<and> good_vol t \<and>
    (c = 0 \<and> (\<forall>k \<in> set cs. fatv s k \<noteq> FAT32_FREE) \<and> same_view s t \<or>
     (\<exists>pre post. cs = pre @ c # post \<and> (\<forall>k \<in> set pre. fatv s k \<noteq> FAT32_FREE) \<and> allocated prev c s t))"
  using assms
proof (induction cs arbitrary: s)
  case (Cons d cs)
  have d: "valid_cluster (geo s) d" "fat_index (geo s) d" using Cons.prems(2) valid_fat_index by auto
  note G = good_volD(3) [OF Cons.prems(1)]
  obtain s1 where s1: "fat_get d s = (fatv s d, s1)" "same_vol s s1" "good_vol s1" "same_view s s1"
    by (rule fat_getE [OF Cons.prems(1) d(2)])
  have g1: "geo s1 = geo s" using s1(2) by (rule same_vol_geo)
  have v1: "fat_index (geo s) k \<Longrightarrow> fatv s1 k = fatv s k" for k
    by (rule same_view_fatv [OF s1(4,2) G])
  have prev1: "prev = 0 \<or> fat_index (geo s1) prev \<and> fatv s1 prev \<noteq> FAT32_FREE"
    using Cons.prems(3) v1 g1 by auto
  show ?case
  proof (cases "fatv s d = FAT32_FREE")
    case True
    define s2 where "s2 = snd (fat_set d 0x0FFFFFFF s1)"
    define s3 where "s3 = (if prev \<noteq> 0 then snd (fat_set prev d s2) else s2)"
    have ct: "c = d" "t = zero_sectors (range32 0 (vol_sec_per_clus (geo s3))) (cluster_to_lba (geo s3) d) s3"
      using Cons.prems(4) s1(1) True by (auto simp: s2_def s3_def Let_def)
    have "same_vol s1 t \<and> good_vol t \<and> allocated prev d s1 t"
      using fat_alloc_commit [OF s1(3) _ _ prev1 s2_def s3_def ct(2)] d v1 True g1 by simp
    moreover have "allocated prev d s1 t \<Longrightarrow> allocated prev d s t"
      using v1 g1 s1(4) d(2) by (auto simp: allocated_def same_view_def)
    ultimately show ?thesis using ct(1) same_vol_trans [OF s1(2)] by (metis append_Nil empty_iff empty_set)
  next
    case False
    then have "fat_alloc_scan cs prev s1 = (c, t)" using Cons.prems(4) s1(1) by simp
    then have I: "same_vol s1 t \<and> good_vol t \<and>
      (c = 0 \<and> (\<forall>k \<in> set cs. fatv s1 k \<noteq> FAT32_FREE) \<and> same_view s1 t \<or>
       (\<exists>pre post. cs = pre @ c # post \<and> (\<forall>k \<in> set pre. fatv s1 k \<noteq> FAT32_FREE) \<and> allocated prev c s1 t))"
      using Cons.IH [OF s1(3) _ prev1] Cons.prems(2) g1 by simp
    have idx: "k \<in> set cs \<Longrightarrow> fatv s1 k = fatv s k" for k
      using v1 Cons.prems(2) valid_fat_index by simp
    have al: "allocated prev c s1 t \<Longrightarrow> allocated prev c s t"
      using v1 g1 s1(4) by (auto simp: allocated_def same_view_def valid_fat_index)
    from I consider "c = 0" "\<forall>k \<in> set cs. fatv s1 k \<noteq> FAT32_FREE" "same_view s1 t"
      | pre post where "cs = pre @ c # post" "\<forall>k \<in> set pre. fatv s1 k \<noteq> FAT32_FREE" "allocated prev c s1 t"
      by blast
    then show ?thesis
    proof cases
      case 1
      then show ?thesis
        using I same_vol_trans [OF s1(2)] same_view_trans [OF s1(4)] idx False by auto
    next
      case 2
      then have "d # cs = (d # pre) @ c # post" "\<forall>k \<in> set (d # pre). fatv s k \<noteq> FAT32_FREE"
        using idx False by auto
      then show ?thesis using I 2 al same_vol_trans [OF s1(2)] by blast
    qed
  qed
qed simp

lemma set_data_clusters:
  assumes "geo_ok g"
  shows "set (range32 2 (vol_total_clusters g + 2)) = {c. valid_cluster g c}"
proof -
  have "unat (vol_total_clusters g + 2) = unat (vol_total_clusters g) + 2"
    using assms by (simp add: geo_ok_def unat_word_ariths)
  then show ?thesis
    by (auto simp: set_range32 valid_cluster_def fat_index_def word_le_nat_alt word_less_nat_alt)
qed


section \<open>Freeing always returns on a working drive, and can hang on a failing one\<close>

text \<open>Every entry is free, an end marker or a cluster the FAT has an entry for.\<close>

definition closed_fat :: "vol \<Rightarrow> bool" where
  "closed_fat s \<longleftrightarrow> (\<forall>k. fat_index (geo s) k \<longrightarrow>
     fatv s k < 2 \<or> FAT32_EOC \<le> fatv s k \<or> fat_index (geo s) (fatv s k))"

lemma fat_free_chain_step:
  assumes "good_vol s" "fat_index (geo s) c" "2 \<le> c" "c < FAT32_EOC"
  obtains t where "fat_free_chain c s = fat_free_chain (fatv s c) t" "same_vol s t" "good_vol t"
    "\<And>k. fat_index (geo s) k \<Longrightarrow> fatv t k = (if k = c then FAT32_FREE else fatv s k)"
proof -
  obtain s1 where s1: "fat_get c s = (fatv s c, s1)" "same_vol s s1" "good_vol s1" "same_view s s1"
    by (rule fat_getE [OF assms(1,2)])
  have g1: "geo s1 = geo s" using s1(2) by (rule same_vol_geo)
  obtain ok t where f: "fat_set c FAT32_FREE s1 = (ok, t)" by fastforce
  note F = fat_set_fatv [OF s1(3) assms(2) [folded g1] f]
  show ?thesis
  proof (rule that [of t])
    show "fat_free_chain c s = fat_free_chain (fatv s c) t"
      using s1(1) f assms(3,4) by (subst fat_free_chain.simps) simp
    show "same_vol s t" "good_vol t" using s1(2) F(2,3) same_vol_trans by blast+
    fix k assume k: "fat_index (geo s) k"
    show "fatv t k = (if k = c then FAT32_FREE else fatv s k)"
      using F(4) [of k] same_view_fatv [OF s1(4,2) good_volD(3) [OF assms(1)] k] k g1 by simp
  qed
qed

lemma finite_fat_index: "finite {k. fat_index g k \<and> P k}"
  by (rule finite_subset [OF subset_UNIV]) simp

lemma fat_free_chain_returns:
  assumes "good_vol s" "closed_fat s" "c < 2 \<or> FAT32_EOC \<le> c \<or> fat_index (geo s) c"
  shows "\<exists>t. fat_free_chain c s = Some t \<and> good_vol t"
  using assms
proof (induction "card {k. fat_index (geo s) k \<and> fatv s k \<noteq> FAT32_FREE}" arbitrary: s c rule: less_induct)
  case less
  show ?case
  proof (cases "2 \<le> c \<and> c < FAT32_EOC")
    case False
    then show ?thesis using less.prems by (subst fat_free_chain.simps) auto
  next
    case True
    then have c: "fat_index (geo s) c" "2 \<le> c" "c < FAT32_EOC" using less.prems(3) by auto
    obtain t where t: "fat_free_chain c s = fat_free_chain (fatv s c) t" "same_vol s t" "good_vol t"
      "\<And>k. fat_index (geo s) k \<Longrightarrow> fatv t k = (if k = c then FAT32_FREE else fatv s k)"
      by (rule fat_free_chain_step [OF less.prems(1) c]) blast
    have g: "geo t = geo s" using t(2) by (rule same_vol_geo)
    show ?thesis
    proof (cases "fatv s c = FAT32_FREE")
      case True
      then have "fat_free_chain c s = Some t" using t(1) by (subst (asm) (2) fat_free_chain.simps) simp
      with t(3) show ?thesis by blast
    next
      case False
      have "{k. fat_index (geo t) k \<and> fatv t k \<noteq> FAT32_FREE} \<subset> {k. fat_index (geo s) k \<and> fatv s k \<noteq> FAT32_FREE}"
      proof (rule psubsetI)
        show "{k. fat_index (geo t) k \<and> fatv t k \<noteq> FAT32_FREE} \<subseteq> {k. fat_index (geo s) k \<and> fatv s k \<noteq> FAT32_FREE}"
          using t(4) g by (auto split: if_splits)
        have "c \<in> {k. fat_index (geo s) k \<and> fatv s k \<noteq> FAT32_FREE}" using False c(1) by simp
        moreover have "c \<notin> {k. fat_index (geo t) k \<and> fatv t k \<noteq> FAT32_FREE}" using t(4) c(1) by simp
        ultimately show "{k. fat_index (geo t) k \<and> fatv t k \<noteq> FAT32_FREE} \<noteq> {k. fat_index (geo s) k \<and> fatv s k \<noteq> FAT32_FREE}"
          by blast
      qed
      then have "card {k. fat_index (geo t) k \<and> fatv t k \<noteq> FAT32_FREE}
          < card {k. fat_index (geo s) k \<and> fatv s k \<noteq> FAT32_FREE}"
        by (rule psubset_card_mono [OF finite_fat_index])
      moreover have "closed_fat t"
        unfolding closed_fat_def g
      proof (intro allI impI)
        fix k assume k: "fat_index (geo s) k"
        show "fatv t k < 2 \<or> FAT32_EOC \<le> fatv t k \<or> fat_index (geo s) (fatv t k)"
          using less.prems(2) k unfolding t(4) [OF k] closed_fat_def by (cases "k = c") auto
      qed
      moreover have "fatv s c < 2 \<or> FAT32_EOC \<le> fatv s c \<or> fat_index (geo t) (fatv s c)"
        using less.prems(2) c(1) unfolding closed_fat_def g by blast
      ultimately show ?thesis using less.hyps [of t "fatv s c"] t(1,3) by simp
    qed
  qed
qed

text \<open>
  A volume whose drive no longer answers: reads and writes fail, the cache is clean and holds
  none of the sectors of entry \<open>FAT32_BAD\<close>.
\<close>

definition dead_drive :: "vol \<Rightarrow> bool" where
  "dead_drive s \<longleftrightarrow> (\<forall>a. \<not> drv_rd_ok (drv s) a) \<and> \<not> sec_cache_dirty s \<and>
     (\<forall>f < vol_num_fats (geo s). sec_cache_lba s \<noteq> copy_lba (geo s) f FAT32_BAD) \<and>
     vol_num_fats (geo s) \<noteq> 0"

lemma dead_sec_read: "dead_drive s \<Longrightarrow> f < vol_num_fats (geo s) \<Longrightarrow> sec_read (copy_lba (geo s) f FAT32_BAD) s = (False, s)"
  by (auto simp: dead_drive_def sec_read_def sec_flush_def blk_read_def)

lemma dead_fat_get: "dead_drive s \<Longrightarrow> fat_get FAT32_BAD s = (FAT32_BAD, s)"
  using dead_sec_read [of s 0]
  by (auto simp: fat_get_def fat_lba_copy Let_def dead_drive_def word_gt_0)

lemma dead_fat_set:
  assumes "dead_drive s"
  shows "fat_set FAT32_BAD v s = (False, s)"
proof -
  have ne: "range32 0 (vol_num_fats (geo s)) \<noteq> []"
    using assms by (auto simp: dead_drive_def range32_def unat_eq_0)
  then obtain f fs where fs: "range32 0 (vol_num_fats (geo s)) = f # fs" by (cases "range32 0 (vol_num_fats (geo s))") auto
  have f: "f < vol_num_fats (geo s)"
    using fs set_range32 [of 0 "vol_num_fats (geo s)"] by auto
  have "copy_lba (geo s) f FAT32_BAD
      = vol_fat_lba (geo s) + f * vol_fat_size (geo s) + (FAT32_BAD * 4) div 512"
    by (simp add: copy_lba_def)
  then show ?thesis
    using dead_sec_read [OF assms f] by (simp add: fat_set_def fs Let_def)
qed

lemma fat_free_chain_stuck:
  assumes "fat_free_chain c s = Some t" "c = FAT32_BAD"
  shows "\<not> dead_drive s"
proof -
  have "c = FAT32_BAD \<longrightarrow> \<not> dead_drive s"
  proof (rule fat_free_chain.raw_induct [where P = "\<lambda>c s t. c = FAT32_BAD \<longrightarrow> \<not> dead_drive s", OF _ assms(1)])
    fix f c s t
    assume IH: "\<And>c s t. f c s = Some t \<Longrightarrow> c = FAT32_BAD \<longrightarrow> \<not> dead_drive s"
      and eq: "(if 2 \<le> c \<and> c < FAT32_EOC
          then let (nxt, s1) = fat_get c s; s2 = snd (fat_set c FAT32_FREE s1) in f nxt s2
          else Some s) = Some t"
    show "c = FAT32_BAD \<longrightarrow> \<not> dead_drive s"
      using IH eq by (auto simp: dead_fat_get dead_fat_set)
  qed
  with assms(2) show ?thesis by simp
qed

section \<open>A small volume\<close>

text \<open>
  Four clusters of one sector, two FAT copies of one sector; cluster 2 is the root directory,
  3 and 5 form a chain, 4 is free. Used to instantiate the hypotheses of the properties.
\<close>

definition sector_of :: "bytes \<Rightarrow> sector" where
  "sector_of bs = (\<lambda>i. if i < length bs then bs ! i else 0)"

definition sample_geo :: geometry where
  "sample_geo = \<lparr>vol_lba_start = 0, vol_bytes_per_sec = 512, vol_sec_per_clus = 1,
     vol_reserved_sec = 1, vol_num_fats = 2, vol_fat_size = 1, vol_root_cluster = 2,
     vol_fat_lba = 1, vol_data_lba = 3, vol_total_clusters = 4\<rparr>"

definition sample_fat :: sector where
  "sample_fat = sector_of (concat (map le32
     [0x0FFFFFF8, 0x0FFFFFFF, 0x0FFFFFFF, 5, 0, 0x0FFFFFFF]))"

definition sample_drive :: "(u32 \<Rightarrow> sector) \<Rightarrow> drive" where
  "sample_drive d = \<lparr>drv_present = True, drv_sectors = 64, drv_data = d,
     drv_rd_ok = (\<lambda>_. True), drv_wr_ok = (\<lambda>_. True)\<rparr>"

definition sample_vol :: "(u32 \<Rightarrow> sector) \<Rightarrow> vol" where
  "sample_vol d = \<lparr>vol_mounted = True, vol_readonly = False, geo = sample_geo,
     sec_cache = zero_sector, sec_cache_lba = NO_LBA, sec_cache_dirty = False,
     fds = replicate 16 fd_zero, heap_ptr = 0, drv = sample_drive d\<rparr>"

definition sample_disk :: "u32 \<Rightarrow> sector" where
  "sample_disk = (\<lambda>_. zero_sector)(1 := sample_fat, 2 := sample_fat)"

abbreviation sample :: vol where "sample \<equiv> sample_vol sample_disk"

lemmas sample_defs = sample_vol_def sample_disk_def sample_drive_def sample_geo_def sample_fat_def
  sector_of_def le32_def zero_sector_def

lemma good_sample_vol: "good_vol (sample_vol d)"
  by (simp add: good_vol_def io_ok_def cache_ok_def geo_ok_def sample_vol_def sample_drive_def sample_geo_def)

lemma geo_sample [simp]: "geo (sample_vol d) = sample_geo"
  by (simp add: sample_vol_def)

lemma fat_index_sample [simp]: "fat_index sample_geo k \<longleftrightarrow> unat k < 6"
  by (simp add: fat_index_def sample_geo_def)

lemma fatv_sample:
  "fatv sample 0 = 0x0FFFFFF8" "fatv sample 1 = FAT_MASK" "fatv sample 2 = FAT_MASK"
  "fatv sample 3 = 5" "fatv sample 4 = 0" "fatv sample 5 = FAT_MASK"
  by (simp_all add: fatv_def fat_copy_def copy_lba_def sec_view_def get32_def
      fat_offset_in_sector_def sample_defs of_le32_def)


section \<open>Properties\<close>

text \<open>C24: The one-sector write-back cache is transparent. On a working drive, after a sector is
  written through \<open>sec_write\<close>, \<open>sec_read\<close> of any address yields the written sector at that
  address and the old contents elsewhere, and \<open>sec_flush\<close> leaves exactly that disk on the drive.\<close>

theorem sec_cache_transparent:
  assumes "io_ok s" "cache_ok s" "a \<noteq> NO_LBA" "b \<noteq> NO_LBA"
  shows "\<exists>t u v. sec_write a x s = (True, t) \<and> sec_read b t = (True, u) \<and>
    sec_cache u = (if b = a then x else sec_view s b) \<and> sec_flush u = (True, v) \<and>
    (\<forall>c. c \<noteq> NO_LBA \<longrightarrow> drv_data (drv v) c = (if c = a then x else sec_view s c))"
proof -
  obtain ok t where w: "sec_write a x s = (ok, t)" by fastforce
  note W = sec_write_view [OF w assms(1-3)]
  obtain u where u: "sec_read b t = (True, u)" "same_vol t u" "cache_ok u" "io_ok u"
    "\<And>c. c \<noteq> NO_LBA \<Longrightarrow> sec_view u c = sec_view t c" "sec_cache u = sec_view t b"
    using sec_readE [OF W(3,2) assms(4)] by blast
  obtain ok2 v where f: "sec_flush u = (ok2, v)" by fastforce
  note F = sec_flush_view [OF f u(3)]
  have ok2: ok2 using sec_flush_ok [OF u(4)] f by simp
  have "drv_data (drv v) c = (if c = a then x else sec_view s c)" if "c \<noteq> NO_LBA" for c
  proof -
    have "drv_data (drv v) c = sec_view v c"
      using F(2,5) ok2 that by (auto simp: sec_view_def cache_ok_def)
    then show ?thesis using F(1) u(5) W(4) that by simp
  qed
  then show ?thesis using w W(1) u(1,6) W(4) [OF assms(4)] f ok2 by auto
qed

theorem sec_cache_transparent_witness:
  "\<exists>t u v. sec_write 7 (sector_of [1, 2]) sample = (True, t) \<and> sec_read 1 t = (True, u) \<and>
    sec_cache u = (if (1 :: u32) = 7 then sector_of [1, 2] else sec_view sample 1) \<and> sec_flush u = (True, v) \<and>
    (\<forall>c. c \<noteq> NO_LBA \<longrightarrow> drv_data (drv v) c = (if c = 7 then sector_of [1, 2] else sec_view sample c))"
  by (rule sec_cache_transparent) (use good_sample_vol in \<open>simp_all add: good_vol_def\<close>)

text \<open>\<open>fat_set\<close> is a faithful table update. It succeeds on a working drive, afterwards
  \<open>fat_get\<close> reads the low 28 bits of the new value at the written cluster and the old value at
  every other cluster, every FAT copy holds the same update, and no sector of the data area moves.\<close>

theorem fat_set_updates_table:
  assumes "good_vol s" "fat_index (geo s) c"
  shows "\<exists>t. fat_set c v s = (True, t) \<and> good_vol t \<and> same_vol s t \<and>
    (\<forall>k. fat_index (geo s) k \<longrightarrow>
       fst (fat_get k t) = (if k = c then v AND FAT_MASK else fst (fat_get k s))) \<and>
    (\<forall>f k. f < vol_num_fats (geo s) \<longrightarrow> fat_index (geo s) k \<longrightarrow>
       fat_copy t f k = (if k = c then v AND FAT_MASK else fat_copy s f k)) \<and>
    (\<forall>a. a \<noteq> NO_LBA \<longrightarrow> vol_data_lba (geo s) \<le> a \<longrightarrow> sec_view t a = sec_view s a)"
proof -
  obtain t where t: "fat_set c v s = (True, t)" "same_vol s t" "good_vol t"
    "\<And>f' c'. f' < vol_num_fats (geo s) \<Longrightarrow> fat_index (geo s) c' \<Longrightarrow>
       fat_copy t f' c' = (if c' = c then v AND FAT_MASK else fat_copy s f' c')"
    "\<And>a. a \<noteq> NO_LBA \<Longrightarrow> vol_data_lba (geo s) \<le> a \<Longrightarrow> sec_view t a = sec_view s a"
    by (rule fat_setE [OF assms, where v = v]) blast
  have g: "geo t = geo s" using t(2) by (rule same_vol_geo)
  have "fst (fat_get k t) = (if k = c then v AND FAT_MASK else fst (fat_get k s))"
    if k: "fat_index (geo s) k" for k
  proof -
    obtain s1 where s1: "fat_get k s = (fatv s k, s1)" by (rule fat_getE [OF assms(1) k])
    obtain t1 where t1: "fat_get k t = (fatv t k, t1)" by (rule fat_getE [OF t(3) k [folded g]])
    show ?thesis using s1 t1 fat_set_fatv(4) [OF assms t(1) k] by simp
  qed
  then show ?thesis using t by blast
qed

theorem fat_set_updates_table_witness:
  "\<exists>t. fat_set 4 0xF0000005 sample = (True, t) \<and> good_vol t \<and> same_vol sample t \<and>
    (\<forall>k. fat_index (geo sample) k \<longrightarrow>
       fst (fat_get k t) = (if k = 4 then 0xF0000005 AND FAT_MASK else fst (fat_get k sample))) \<and>
    (\<forall>f k. f < vol_num_fats (geo sample) \<longrightarrow> fat_index (geo sample) k \<longrightarrow>
       fat_copy t f k = (if k = 4 then 0xF0000005 AND FAT_MASK else fat_copy sample f k)) \<and>
    (\<forall>a. a \<noteq> NO_LBA \<longrightarrow> vol_data_lba (geo sample) \<le> a \<longrightarrow> sec_view t a = sec_view sample a)"
  by (rule fat_set_updates_table [OF good_sample_vol]) simp

lemma sorted_range32: "sorted_wrt (<) (range32 lo hi)"
proof -
  have "sorted_wrt (\<lambda>x y. (of_nat x :: u32) < of_nat y) [unat lo..<unat hi]"
  proof (rule sorted_wrt_mono_rel [OF _ sorted_wrt_upt])
    fix x y assume "x \<in> set [unat lo..<unat hi]" "y \<in> set [unat lo..<unat hi]" "x < y"
    moreover have "unat hi < 2 ^ 32" using unsigned_less [of hi, where ?'a = nat] by simp
    ultimately show "(of_nat x :: u32) < of_nat y" by (simp add: word_less_nat_alt unat_of_nat)
  qed
  then show ?thesis by (simp add: range32_def sorted_wrt_map)
qed

lemma fat_alloc_spec:
  assumes "good_vol s" "prev = 0 \<or> fat_index (geo s) prev \<and> fatv s prev \<noteq> FAT32_FREE"
    and "fat_alloc prev s = (c, t)"
  shows "same_vol s t \<and> good_vol t \<and>
    (if c = 0 then (\<forall>k. valid_cluster (geo s) k \<longrightarrow> fatv s k \<noteq> FAT32_FREE) \<and> same_view s t
     else allocated prev c s t \<and> (\<forall>k. valid_cluster (geo s) k \<longrightarrow> k < c \<longrightarrow> fatv s k \<noteq> FAT32_FREE))"
proof -
  let ?cs = "range32 2 (vol_total_clusters (geo s) + 2)"
  note cs = set_data_clusters [OF good_volD(3) [OF assms(1)]]
  have sc: "fat_alloc_scan ?cs prev s = (c, t)" using assms(3) by (simp add: fat_alloc_def)
  have "\<forall>k \<in> set ?cs. valid_cluster (geo s) k" using cs by simp
  note A = fat_alloc_scan_spec [OF assms(1) this assms(2) sc]
  show ?thesis
  proof (cases "c = 0")
    case True
    then have "\<not> valid_cluster (geo s) c" by (simp add: valid_cluster_def)
    then have "\<not> allocated prev c s t" by (simp add: allocated_def)
    then show ?thesis using A True cs by auto
  next
    case False
    then obtain pre post where p: "?cs = pre @ c # post" "\<forall>k \<in> set pre. fatv s k \<noteq> FAT32_FREE"
      "allocated prev c s t" using A by blast
    have "fatv s k \<noteq> FAT32_FREE" if "valid_cluster (geo s) k" "k < c" for k
    proof -
      have "k \<in> set (pre @ c # post)" using that(1) cs unfolding p(1) by simp
      moreover have "\<forall>x \<in> set post. c < x"
        using sorted_range32 [of 2 "vol_total_clusters (geo s) + 2"] unfolding p(1) by (simp add: sorted_wrt_append)
      ultimately show ?thesis using that(2) p(2) by auto
    qed
    then show ?thesis using A False p(3) by simp
  qed
qed

text \<open>C16: \<open>fat_alloc\<close> is a first-fit allocator. It answers 0 exactly when no cluster is free and
  then changes nothing; otherwise it returns the lowest free cluster, now the end of a chain,
  linked after \<open>prev\<close> if there is one, with every sector of it zeroed and every other entry and
  every other cluster's data unchanged, and the cache stays coherent although the zeroing
  bypasses it.\<close>

theorem fat_alloc_first_fit:
  assumes "good_vol s" "prev = 0 \<or> fat_index (geo s) prev \<and> fatv s prev \<noteq> FAT32_FREE"
    and "fat_alloc prev s = (c, t)"
  shows "same_vol s t \<and> good_vol t \<and>
    (if c = 0 then (\<forall>k. valid_cluster (geo s) k \<longrightarrow> fatv s k \<noteq> FAT32_FREE) \<and> same_view s t
     else allocated prev c s t \<and> (\<forall>k. valid_cluster (geo s) k \<longrightarrow> k < c \<longrightarrow> fatv s k \<noteq> FAT32_FREE))"
  by (rule fat_alloc_spec [OF assms])

theorem fat_alloc_first_fit_witness:
  "same_vol sample (snd (fat_alloc 5 sample)) \<and> good_vol (snd (fat_alloc 5 sample)) \<and>
    (if fst (fat_alloc 5 sample) = 0
     then (\<forall>k. valid_cluster (geo sample) k \<longrightarrow> fatv sample k \<noteq> FAT32_FREE) \<and> same_view sample (snd (fat_alloc 5 sample))
     else allocated 5 (fst (fat_alloc 5 sample)) sample (snd (fat_alloc 5 sample)) \<and>
       (\<forall>k. valid_cluster (geo sample) k \<longrightarrow> k < fst (fat_alloc 5 sample) \<longrightarrow> fatv sample k \<noteq> FAT32_FREE))"
  by (rule fat_alloc_first_fit [OF good_sample_vol]) (simp_all add: fatv_sample)

text \<open>\<open>fat_free_chain\<close> frees a chain exactly: on a volume whose entries from \<open>c\<close> on form the
  finite chain \<open>cs\<close>, the loop ends, precisely the entries of \<open>cs\<close> become free, and neither another
  entry nor any data sector changes.\<close>

theorem fat_free_chain_frees:
  assumes "good_vol s" "chain (fatv s) c cs" "distinct cs" "\<forall>k \<in> set cs. fat_index (geo s) k"
  shows "\<exists>t. fat_free_chain c s = Some t \<and> same_vol s t \<and> good_vol t \<and>
    (\<forall>k. fat_index (geo s) k \<longrightarrow> fatv t k = (if k \<in> set cs then FAT32_FREE else fatv s k)) \<and>
    (\<forall>a. a \<noteq> NO_LBA \<longrightarrow> vol_data_lba (geo s) \<le> a \<longrightarrow> sec_view t a = sec_view s a)"
  by (rule fat_free_chain_spec [OF assms(2-4,1)])

theorem fat_free_chain_frees_witness:
  "\<exists>t. fat_free_chain 3 sample = Some t \<and> same_vol sample t \<and> good_vol t \<and>
    (\<forall>k. fat_index (geo sample) k \<longrightarrow> fatv t k = (if k \<in> set [3, 5] then FAT32_FREE else fatv sample k)) \<and>
    (\<forall>a. a \<noteq> NO_LBA \<longrightarrow> vol_data_lba (geo sample) \<le> a \<longrightarrow> sec_view t a = sec_view sample a)"
  by (rule fat_free_chain_frees [OF good_sample_vol]) (simp_all add: fatv_sample)

text \<open>C26: On a working drive \<open>fat_free_chain\<close> returns whatever the links are, cyclic chains
  included, as long as every entry is free, an end marker or a cluster of the volume: each round
  frees an allocated entry or stops.\<close>

theorem fat_free_chain_terminates:
  assumes "good_vol s" "closed_fat s" "c < 2 \<or> FAT32_EOC \<le> c \<or> fat_index (geo s) c"
  shows "\<exists>t. fat_free_chain c s = Some t \<and> good_vol t"
  by (rule fat_free_chain_returns [OF assms])

text \<open>A volume whose clusters 3 and 5 point at each other.\<close>

definition cyclic_disk :: "u32 \<Rightarrow> sector" where
  "cyclic_disk = (\<lambda>_. zero_sector)(1 := sector_of (concat (map le32
     [0x0FFFFFF8, 0x0FFFFFFF, 0x0FFFFFFF, 5, 0, 3])))"

lemma fatv_cyclic:
  "fatv (sample_vol cyclic_disk) 0 = 0x0FFFFFF8" "fatv (sample_vol cyclic_disk) 1 = FAT_MASK"
  "fatv (sample_vol cyclic_disk) 2 = FAT_MASK" "fatv (sample_vol cyclic_disk) 3 = 5"
  "fatv (sample_vol cyclic_disk) 4 = 0" "fatv (sample_vol cyclic_disk) 5 = 3"
  by (simp_all add: fatv_def fat_copy_def copy_lba_def sec_view_def get32_def cyclic_disk_def
      fat_offset_in_sector_def sample_defs of_le32_def)

lemma small_index:
  assumes "unat (k :: u32) < 6"
  shows "k = 0 \<or> k = 1 \<or> k = 2 \<or> k = 3 \<or> k = 4 \<or> k = 5"
proof -
  have "k = of_nat (unat k)" by simp
  moreover have "unat k = 0 \<or> unat k = 1 \<or> unat k = 2 \<or> unat k = 3 \<or> unat k = 4 \<or> unat k = 5"
    using assms by linarith
  ultimately show ?thesis by (elim disjE) simp_all
qed

theorem fat_free_chain_terminates_witness:
  "\<exists>t. fat_free_chain 3 (sample_vol cyclic_disk) = Some t \<and> good_vol t"
proof (rule fat_free_chain_terminates [OF good_sample_vol])
  show "closed_fat (sample_vol cyclic_disk)"
    using small_index fatv_cyclic by (fastforce simp: closed_fat_def)
qed simp

text \<open>C28: When the drive stops answering, \<open>fat_free_chain\<close> never returns: a failed \<open>fat_get\<close>
  answers the bad-cluster mark, which the loop condition takes for one more link, and reading the
  entry of that mark fails in the same way for ever.\<close>

theorem fat_free_chain_hangs_on_read_error:
  assumes "dead_drive s" "2 \<le> c" "c < FAT32_EOC"
    and "\<forall>f < vol_num_fats (geo s). sec_cache_lba s \<noteq> copy_lba (geo s) f c"
  shows "fat_free_chain c s = None"
proof (cases "fat_free_chain c s")
  case (Some t)
  have r: "sec_read (copy_lba (geo s) f c) s = (False, s)" if "f < vol_num_fats (geo s)" for f
    using assms(1,4) that by (auto simp: dead_drive_def sec_read_def sec_flush_def blk_read_def)
  have "0 < vol_num_fats (geo s)" using assms(1) by (simp add: dead_drive_def word_gt_0)
  then have g: "fat_get c s = (FAT32_BAD, s)"
    using r [of 0] by (simp add: fat_get_def fat_lba_copy Let_def)
  have "fat_set_copies fs c v s = (fs = [], s)" if "\<forall>f \<in> set fs. f < vol_num_fats (geo s)" for fs v
    using r that by (cases fs) (simp_all add: copy_lba_def Let_def)
  then have "snd (fat_set c FAT32_FREE s) = s" by (simp add: fat_set_def set_range32)
  then have "fat_free_chain c s = fat_free_chain FAT32_BAD s"
    using g assms(2,3) by (subst fat_free_chain.simps) simp
  with Some fat_free_chain_stuck [of FAT32_BAD s t] assms(1) show ?thesis by simp
qed simp

definition dead_sample :: vol where
  "dead_sample = sample\<lparr>drv := (drv sample)\<lparr>drv_rd_ok := \<lambda>_. False\<rparr>\<rparr>"

theorem fat_free_chain_hangs_witness: "fat_free_chain 3 dead_sample = None"
proof (rule fat_free_chain_hangs_on_read_error)
  have ne: "copy_lba sample_geo f k \<noteq> NO_LBA" if "k = FAT32_BAD \<or> k = 3" "f < 2" for f k
  proof -
    have "f \<in> set (range32 0 2)" using that(2) by (simp add: set_range32)
    then have "f = 0 \<or> f = 1" by (auto simp: range32_def upt_rec)
    then show ?thesis using that(1) by (auto simp: copy_lba_def sample_geo_def)
  qed
  show "dead_drive dead_sample"
    "\<forall>f < vol_num_fats (geo dead_sample). sec_cache_lba dead_sample \<noteq> copy_lba (geo dead_sample) f 3"
    using ne [symmetric]
    by (simp_all add: dead_drive_def dead_sample_def sample_vol_def sample_drive_def)
      (simp_all add: sample_geo_def)
qed simp_all

end
