(* ===== verification/Fat_Names.thy ===== *)
theory Fat_Names
  imports Fat_Table
begin

text \<open>
  The pure helpers of \<open>src/fs/fat32_internal.h\<close> on names and directory entries: the packed 32-byte
  layouts, short (8.3) names and their checksum, and the pieces of a long file name (LFN).
\<close>

section \<open>Packed directory entries\<close>

record fat32_dir_entry_t =
  de_name :: bytes
  de_ext :: bytes
  de_attr :: u8
  de_nt_reserved :: u8
  de_crt_time_tenth :: u8
  de_crt_time :: u16
  de_crt_date :: u16
  de_lst_acc_date :: u16
  de_fst_clus_hi :: u16
  de_wrt_time :: u16
  de_wrt_date :: u16
  de_fst_clus_lo :: u16
  de_file_size :: u32

record fat32_lfn_entry_t =
  lfn_order :: u8
  lfn_name1 :: "u16 list"
  lfn_attr :: u8
  lfn_type :: u8
  lfn_checksum_byte :: u8
  lfn_name2 :: "u16 list"
  lfn_fst_clus_lo :: u16
  lfn_name3 :: "u16 list"

text \<open>The bytes of the packed structures in memory, and the structures a cast of 32 bytes gives.\<close>

definition pack_dir :: "fat32_dir_entry_t \<Rightarrow> bytes" where
  "pack_dir e = de_name e @ de_ext e @ [de_attr e, de_nt_reserved e, de_crt_time_tenth e] @
     le16 (de_crt_time e) @ le16 (de_crt_date e) @ le16 (de_lst_acc_date e) @
     le16 (de_fst_clus_hi e) @ le16 (de_wrt_time e) @ le16 (de_wrt_date e) @
     le16 (de_fst_clus_lo e) @ le32 (de_file_size e)"

definition field16 :: "bytes \<Rightarrow> nat \<Rightarrow> u16" where
  "field16 b i = of_le16 (b ! i) (b ! (i + 1))"

definition field32 :: "bytes \<Rightarrow> nat \<Rightarrow> u32" where
  "field32 b i = of_le32 (b ! i) (b ! (i + 1)) (b ! (i + 2)) (b ! (i + 3))"

definition unpack_dir :: "bytes \<Rightarrow> fat32_dir_entry_t" where
  "unpack_dir b = \<lparr>de_name = take 8 b, de_ext = take 3 (drop 8 b), de_attr = b ! 11,
     de_nt_reserved = b ! 12, de_crt_time_tenth = b ! 13, de_crt_time = field16 b 14,
     de_crt_date = field16 b 16, de_lst_acc_date = field16 b 18, de_fst_clus_hi = field16 b 20,
     de_wrt_time = field16 b 22, de_wrt_date = field16 b 24, de_fst_clus_lo = field16 b 26,
     de_file_size = field32 b 28\<rparr>"

definition pack_lfn :: "fat32_lfn_entry_t \<Rightarrow> bytes" where
  "pack_lfn e = [lfn_order e] @ concat (map le16 (lfn_name1 e)) @
     [lfn_attr e, lfn_type e, lfn_checksum_byte e] @ concat (map le16 (lfn_name2 e)) @
     le16 (lfn_fst_clus_lo e) @ concat (map le16 (lfn_name3 e))"

definition unpack_lfn :: "bytes \<Rightarrow> fat32_lfn_entry_t" where
  "unpack_lfn b = \<lparr>lfn_order = b ! 0, lfn_name1 = map (\<lambda>j. field16 b (1 + 2 * j)) [0..<5],
     lfn_attr = b ! 11, lfn_type = b ! 12, lfn_checksum_byte = b ! 13,
     lfn_name2 = map (\<lambda>j. field16 b (14 + 2 * j)) [0..<6], lfn_fst_clus_lo = field16 b 26,
     lfn_name3 = map (\<lambda>j. field16 b (28 + 2 * j)) [0..<2]\<rparr>"

definition entry_cluster :: "fat32_dir_entry_t \<Rightarrow> u32" where
  "entry_cluster e = push_bit 16 (ucast (de_fst_clus_hi e)) OR ucast (de_fst_clus_lo e)"

definition set_entry_cluster :: "u32 \<Rightarrow> fat32_dir_entry_t \<Rightarrow> fat32_dir_entry_t" where
  "set_entry_cluster c e =
     e\<lparr>de_fst_clus_hi := ucast (drop_bit 16 c), de_fst_clus_lo := ucast (c AND 0xFFFF)\<rparr>"

definition dir_entry_zero :: fat32_dir_entry_t where
  "dir_entry_zero = unpack_dir (replicate 32 0)"

abbreviation ATTR_DIR :: u8 where "ATTR_DIR \<equiv> 0x10"
abbreviation ATTR_ARCHIVE :: u8 where "ATTR_ARCHIVE \<equiv> 0x20"
abbreviation ATTR_LFN :: u8 where "ATTR_LFN \<equiv> 0x0F"

section \<open>Short names\<close>

text \<open>\<open>'.'\<close>, \<open>'/'\<close>, space and \<open>'~'\<close> as byte values; C strings are byte lists without NUL.\<close>

abbreviation CH_DOT :: u8 where "CH_DOT \<equiv> 46"
abbreviation CH_SLASH :: u8 where "CH_SLASH \<equiv> 47"
abbreviation CH_SPACE :: u8 where "CH_SPACE \<equiv> 32"
abbreviation CH_TILDE :: u8 where "CH_TILDE \<equiv> 126"

definition f_toupper :: "u8 \<Rightarrow> u8" where
  "f_toupper c = (if 97 \<le> c \<and> c \<le> 122 then c - 32 else c)"

definition lfn_checksum :: "bytes \<Rightarrow> u8" where
  "lfn_checksum name83 =
     foldl (\<lambda>sum b. (if sum AND 1 \<noteq> 0 then 0x80 else 0) + drop_bit 1 sum + b) 0 (take 11 name83)"

definition lfn_extract :: "fat32_lfn_entry_t \<Rightarrow> bytes" where
  "lfn_extract e = map ucast (lfn_name1 e) @ map ucast (lfn_name2 e) @ map ucast (lfn_name3 e)"

text \<open>The index of the last dot, \<open>None\<close> for the code's -1.\<close>

definition last_dot :: "bytes \<Rightarrow> nat option" where
  "last_dot name = (let ds = filter (\<lambda>i. name ! i = CH_DOT) [0..<length name]
                    in if ds = [] then None else Some (last ds))"

text \<open>The stem loop at index \<open>i\<close> with \<open>room\<close> characters left in the output.\<close>

fun make_stem :: "nat \<Rightarrow> nat option \<Rightarrow> nat \<Rightarrow> bytes \<Rightarrow> bytes" where
  "make_stem i dot room [] = []"
| "make_stem i dot room (ch # cs) =
     (if room = 0 \<or> dot = Some i then []
      else let c = f_toupper ch
           in if c = CH_SPACE \<or> c = CH_DOT then make_stem (Suc i) dot room cs
              else c # make_stem (Suc i) dot (room - 1) cs)"

definition pad_to :: "nat \<Rightarrow> bytes \<Rightarrow> bytes" where
  "pad_to n bs = take n (bs @ replicate n CH_SPACE)"

definition make_83 :: "bytes \<Rightarrow> bytes" where
  "make_83 name =
     (let dot = last_dot name;
          stem = make_stem 0 dot 8 name;
          ext = (case dot of None \<Rightarrow> [] | Some d \<Rightarrow> take 3 (map f_toupper (drop (Suc d) name)))
      in pad_to 8 stem @ pad_to 3 ext)"

text \<open>The name with numeric tail \<open>~n\<close> that \<open>make_83_unique\<close> tries in round \<open>n\<close>.\<close>

definition make_83_tail :: "bytes \<Rightarrow> bytes \<Rightarrow> nat \<Rightarrow> bytes" where
  "make_83_tail name ext n =
     (let digits = dec_digits n;
          stem_max = 8 - (1 + length digits);
          stem = make_stem 0 (last_dot name) stem_max name
      in pad_to 8 (stem @ [CH_TILDE] @ digits) @ ext)"

section \<open>Long names\<close>

text \<open>Character \<open>ci\<close> of the UCS-2 name stored in the LFN entries of \<open>name\<close>.\<close>

definition lfn_char :: "bytes \<Rightarrow> nat \<Rightarrow> u16" where
  "lfn_char name ci = (if ci < length name then ucast (name ! ci)
                       else if ci = length name then 0x0000 else 0xFFFF)"

text \<open>The LFN entry with sequence number \<open>i\<close> of \<open>lfn_count\<close> that \<open>dir_add_entry\<close> writes.\<close>

definition make_lfn :: "bytes \<Rightarrow> u8 \<Rightarrow> nat \<Rightarrow> nat \<Rightarrow> fat32_lfn_entry_t" where
  "make_lfn name checksum lfn_count i =
     (let base = (i - 1) * 13 in
      \<lparr>lfn_order = of_nat i OR (if i = lfn_count then 0x40 else 0),
       lfn_name1 = map (\<lambda>j. lfn_char name (base + j)) [0..<5],
       lfn_attr = ATTR_LFN, lfn_type = 0, lfn_checksum_byte = checksum,
       lfn_name2 = map (\<lambda>j. lfn_char name (base + 5 + j)) [0..<6],
       lfn_fst_clus_lo = 0,
       lfn_name3 = map (\<lambda>j. lfn_char name (base + 11 + j)) [0..<2]\<rparr>)"

text \<open>
  \<open>for (i = 0; i < 13 && base + i < FAT32_MAX_NAME - 1; i++) { lfn_buf[base+i] = part[i];
  if (part[i] == 0) break; }\<close>, from buffer index \<open>k = base + i\<close>.
\<close>

fun lfn_store :: "nat \<Rightarrow> bytes \<Rightarrow> bytes \<Rightarrow> bytes" where
  "lfn_store k [] buf = buf"
| "lfn_store k (c # cs) buf =
     (if k < 255 then (if c = 0 then buf[k := c] else lfn_store (Suc k) cs (buf[k := c]))
      else buf)"

text \<open>
  What the directory scans of \<open>dir_find\<close> and \<open>fat32_readdir\<close> do with an LFN entry, on the buffer
  and the flag \<open>building_lfn\<close>.
\<close>

definition lfn_collect :: "fat32_lfn_entry_t \<Rightarrow> bytes \<times> bool \<Rightarrow> bytes \<times> bool" where
  "lfn_collect lfn st =
     (let seq = unat (lfn_order lfn AND 0x1F);
          (buf, building) = (if lfn_order lfn AND 0x40 \<noteq> 0 then (replicate 256 0, True) else st)
      in if building \<and> 1 \<le> seq \<and> seq \<le> 20
         then (lfn_store ((seq - 1) * 13) (lfn_extract lfn) buf, building)
         else (buf, building))"

text \<open>The entries \<open>dir_add_entry\<close> writes for a name, in the order it writes them.\<close>

definition lfn_entries :: "bytes \<Rightarrow> u8 \<Rightarrow> fat32_lfn_entry_t list" where
  "lfn_entries name checksum =
     (let n = (length name + 12) div 13 in map (make_lfn name checksum n) (rev [1..<Suc n]))"

section \<open>Facts about entries\<close>

lemma length_pack_dir: "length (de_name e) = 8 \<Longrightarrow> length (de_ext e) = 3 \<Longrightarrow> length (pack_dir e) = 32"
  by (simp add: pack_dir_def)

lemma le16_list: "le16 v = [le16 v ! 0, le16 v ! Suc 0]"
  by (simp add: le16_def)

lemma le32_list: "le32 v = [le32 v ! 0, le32 v ! Suc 0, le32 v ! 2, le32 v ! 3]"
  by (simp add: le32_def)

lemma length_8: "length xs = 8 \<Longrightarrow> \<exists>a b c d e f g h. xs = [a, b, c, d, e, f, g, h]"
  by (auto simp: numeral_eq_Suc length_Suc_conv)

lemma length_3: "length xs = 3 \<Longrightarrow> \<exists>a b c. xs = [a, b, c]"
  by (auto simp: numeral_eq_Suc length_Suc_conv)

lemma unpack_pack_dir:
  assumes "length (de_name e) = 8" "length (de_ext e) = 3"
  shows "unpack_dir (pack_dir e) = e"
proof -
  obtain a b c d e' f g h where n: "de_name e = [a, b, c, d, e', f, g, h]"
    using length_8 [OF assms(1)] by blast
  obtain x y z where x: "de_ext e = [x, y, z]" using length_3 [OF assms(2)] by blast
  show ?thesis
    by (cases e) (use n x of_le16_le16 of_le32_le32 in
      \<open>simp add: unpack_dir_def pack_dir_def field16_def field32_def le16_def le32_def numeral_eq_Suc\<close>)
qed

lemma entry_cluster_set [simp]: "entry_cluster (set_entry_cluster c e) = c"
proof (rule bit_word_eqI)
  fix n assume n: "n < LENGTH(32)"
  have m: "(0xFFFF :: u32) = mask 16" by (simp add: mask_eq_exp_minus_1)
  consider "n < 16" | "16 \<le> n" by linarith
  then show "bit (entry_cluster (set_entry_cluster c e)) n = bit c n"
    by cases (use n in \<open>auto simp: entry_cluster_def set_entry_cluster_def m bit_or_iff bit_push_bit_iff
        bit_ucast_iff bit_drop_bit_eq bit_and_iff bit_mask_iff dest: bit_imp_le_length\<close>)
qed

lemma ucast_u8_u16 [simp]: "ucast (ucast (x :: u8) :: u16) = x"
  by (rule bit_word_eqI) (simp add: bit_simps)

lemma ucast_lfn_char: "ci < length name \<Longrightarrow> (ucast (lfn_char name ci) :: u8) = name ! ci"
  by (simp add: lfn_char_def)

lemma length_5: "length xs = 5 \<Longrightarrow> \<exists>a b c d e. xs = [a, b, c, d, e]"
  by (auto simp: numeral_eq_Suc length_Suc_conv)

lemma length_6: "length xs = 6 \<Longrightarrow> \<exists>a b c d e f. xs = [a, b, c, d, e, f]"
  by (auto simp: numeral_eq_Suc length_Suc_conv)

lemma length_2: "length xs = 2 \<Longrightarrow> \<exists>a b. xs = [a, b]"
  by (auto simp: numeral_eq_Suc length_Suc_conv)

lemma unpack_pack_lfn:
  assumes "length (lfn_name1 e) = 5" "length (lfn_name2 e) = 6" "length (lfn_name3 e) = 2"
  shows "unpack_lfn (pack_lfn e) = e"
proof -
  obtain a b c d f where 1: "lfn_name1 e = [a, b, c, d, f]" using length_5 [OF assms(1)] by blast
  obtain g h i j k l where 2: "lfn_name2 e = [g, h, i, j, k, l]" using length_6 [OF assms(2)] by blast
  obtain m n where 3: "lfn_name3 e = [m, n]" using length_2 [OF assms(3)] by blast
  have q: "of_le16 (ucast v) (ucast (drop_bit 8 v)) = v" for v :: u16
    using of_le16_le16 [of v] by (simp add: le16_def)
  have s: "[0..<5] = [0, 1, 2, 3, 4 :: nat]" "[0..<6] = [0, 1, 2, 3, 4, 5 :: nat]" "[0..<2] = [0, 1 :: nat]"
    by (simp_all add: upt_rec)
  show ?thesis
    by (cases e) (use 1 2 3 q in \<open>simp add: unpack_lfn_def pack_lfn_def field16_def le16_def s\<close>)
qed

section \<open>Facts about short names\<close>

lemma f_toupper_idem [simp]: "f_toupper (f_toupper c) = f_toupper c"
  by (auto simp: f_toupper_def word_le_nat_alt unat_sub)

lemma f_toupper_dot [simp]: "f_toupper c = CH_DOT \<longleftrightarrow> c = CH_DOT"
  by (auto simp: f_toupper_def word_le_nat_alt word_unat_eq_iff unat_sub)

lemma length_make_stem: "length (make_stem i dot room cs) \<le> room"
  by (induction i dot room cs rule: make_stem.induct) (auto simp: Let_def)

lemma make_stem_upper: "make_stem i dot room (map f_toupper cs) = make_stem i dot room cs"
  by (induction i dot room cs rule: make_stem.induct) (simp_all add: Let_def)

lemma make_stem_chars: "c \<in> set (make_stem i dot room cs) \<Longrightarrow> c \<noteq> CH_SPACE \<and> c \<noteq> CH_DOT \<and> f_toupper c = c"
  by (induction i dot room cs rule: make_stem.induct) (auto simp: Let_def split: if_splits)

lemma length_pad_to [simp]: "length (pad_to n bs) = n"
  by (simp add: pad_to_def)

lemma last_dot_upper: "last_dot (map f_toupper name) = last_dot name"
proof -
  have "filter (\<lambda>i. map f_toupper name ! i = CH_DOT) [0..<length name]
      = filter (\<lambda>i. name ! i = CH_DOT) [0..<length name]"
    by (rule filter_cong) simp_all
  then show ?thesis by (simp add: last_dot_def)
qed

lemma length_make_83 [simp]: "length (make_83 name) = 11"
  by (simp add: make_83_def Let_def)

lemma make_83_upper: "make_83 (map f_toupper name) = make_83 name"
  by (simp add: make_83_def Let_def last_dot_upper make_stem_upper drop_map [symmetric] map_map comp_def
      split: option.split)

lemma length_dec_digits: "v < 10 ^ n \<Longrightarrow> 0 < n \<Longrightarrow> length (dec_digits v) \<le> n"
  by (simp add: dec_digits_def length_dec_rev)

section \<open>Facts about long names\<close>

lemma lfn_order_list:
  "list_all (\<lambda>i. unat ((of_nat i :: u8) AND 0x1F) = i \<and> (of_nat i :: u8) AND 0x40 = 0
      \<and> unat ((of_nat i OR 0x40 :: u8) AND 0x1F) = i \<and> (of_nat i OR 0x40 :: u8) AND 0x40 \<noteq> 0)
     [1, 2, 3, 4, 5, 6, 7, 8, 9, 10, 11, 12, 13, 14, 15, 16, 17, 18, 19, 20]"
  by simp

lemma lfn_order_seq:
  assumes "1 \<le> i" "i \<le> 20"
  shows "unat ((of_nat i OR (if i = n then 0x40 else 0) :: u8) AND 0x1F) = i"
    and "(of_nat i OR (if i = n then 0x40 else 0) :: u8) AND 0x40 \<noteq> 0 \<longleftrightarrow> i = n"
proof -
  have "i \<in> set [1, 2, 3, 4, 5, 6, 7, 8, 9, 10, 11, 12, 13, 14, 15, 16, 17, 18, 19, 20]"
    using assms by (simp only: set_simps insert_iff empty_iff) arith
  with lfn_order_list [unfolded list_all_iff]
  have "unat ((of_nat i :: u8) AND 0x1F) = i \<and> (of_nat i :: u8) AND 0x40 = 0
      \<and> unat ((of_nat i OR 0x40 :: u8) AND 0x1F) = i \<and> (of_nat i OR 0x40 :: u8) AND 0x40 \<noteq> 0" by blast
  then show "unat ((of_nat i OR (if i = n then 0x40 else 0) :: u8) AND 0x1F) = i"
    and "(of_nat i OR (if i = n then 0x40 else 0) :: u8) AND 0x40 \<noteq> 0 \<longleftrightarrow> i = n"
    by (simp_all only: or.right_neutral split: if_split) simp_all
qed

lemma lfn_extract_make:
  "lfn_extract (make_lfn name chk n i)
     = map (\<lambda>ci. ucast (lfn_char name ci)) [(i - 1) * 13..<(i - 1) * 13 + 13]"
proof -
  define b where "b = (i - Suc 0) * 13"
  have s: "[0..<5] = [0, 1, 2, 3, 4 :: nat]" "[0..<6] = [0, 1, 2, 3, 4, 5 :: nat]" "[0..<2] = [0, 1 :: nat]"
    by (simp_all add: upt_rec)
  have "[b..<b + 13] = map (\<lambda>j. b + j) [0..<13]" by (simp add: map_add_upt add.commute)
  moreover have "[0..<13] = [0, 1, 2, 3, 4, 5, 6, 7, 8, 9, 10, 11, 12 :: nat]" by (simp add: upt_rec)
  ultimately show ?thesis
    by (simp add: lfn_extract_def make_lfn_def Let_def s b_def [symmetric] add.assoc)
qed

lemma length_lfn_store [simp]: "length (lfn_store k cs buf) = length buf"
  by (induction k cs buf rule: lfn_store.induct) simp_all

lemma lfn_store_nth:
  assumes "0 \<notin> set name" "length name \<le> 255" "k \<le> length name" "length buf = 256" "j < 256"
  shows "lfn_store k (map (\<lambda>ci. ucast (lfn_char name ci)) [k..<k + m]) buf ! j
    = (if k \<le> j \<and> j < k + m \<and> j < length name then name ! j
       else if j = length name \<and> k \<le> j \<and> j < k + m \<and> j < 255 then 0 else buf ! j)"
  using assms
proof (induction m arbitrary: k buf)
  case (Suc m)
  let ?c = "ucast (lfn_char name k) :: u8"
  have u: "[k..<k + Suc m] = k # [Suc k..<Suc k + m]" by (simp add: upt_conv_Cons)
  consider "k < length name" | "k = length name" using Suc.prems(3) by linarith
  then show ?case
  proof cases
    case 1
    have "name ! k \<noteq> 0" using Suc.prems(1) nth_mem [OF 1] by metis
    with 1 have c: "?c = name ! k" "?c \<noteq> 0" by (simp_all add: ucast_lfn_char)
    have "k < 255" using 1 Suc.prems(2) by linarith
    moreover have "lfn_store (Suc k) (map (\<lambda>ci. ucast (lfn_char name ci)) [Suc k..<Suc k + m]) (buf[k := ?c]) ! j
      = (if Suc k \<le> j \<and> j < Suc k + m \<and> j < length name then name ! j
         else if j = length name \<and> Suc k \<le> j \<and> j < Suc k + m \<and> j < 255 then 0 else buf[k := ?c] ! j)"
      using Suc.prems 1 by (intro Suc.IH) auto
    ultimately show ?thesis
      unfolding u using c 1 Suc.prems(4,5) by (auto simp: nth_list_update)
  next
    case 2
    then have "?c = 0" by (simp add: lfn_char_def)
    then show ?thesis unfolding u using 2 Suc.prems(4,5) by (auto simp: nth_list_update)
  qed
qed auto

text \<open>The buffer once the entries down to sequence number \<open>k + 1\<close> have been read.\<close>

definition lfn_partial :: "bytes \<Rightarrow> nat \<Rightarrow> bytes \<Rightarrow> bool" where
  "lfn_partial name k buf \<longleftrightarrow> length buf = 256 \<and>
     (\<forall>j<256. buf ! j = (if 13 * k \<le> j \<and> j < length name then name ! j else 0))"

lemma lfn_partial_store:
  assumes "0 \<notin> set name" "length name \<le> 255" "13 * k < length name" "lfn_partial name (Suc k) buf"
  shows "lfn_partial name k
    (lfn_store (13 * k) (map (\<lambda>ci. ucast (lfn_char name ci)) [13 * k..<13 * k + 13]) buf)"
  unfolding lfn_partial_def
proof (intro conjI allI impI)
  show "length (lfn_store (13 * k) (map (\<lambda>ci. ucast (lfn_char name ci)) [13 * k..<13 * k + 13]) buf) = 256"
    using assms(4) by (simp add: lfn_partial_def)
next
  fix j :: nat assume j: "j < 256"
  have b: "length buf = 256" "buf ! j = (if 13 * Suc k \<le> j \<and> j < length name then name ! j else 0)"
    using assms(4) j by (simp_all add: lfn_partial_def)
  show "lfn_store (13 * k) (map (\<lambda>ci. ucast (lfn_char name ci)) [13 * k..<13 * k + 13]) buf ! j
    = (if 13 * k \<le> j \<and> j < length name then name ! j else 0)"
    by (subst lfn_store_nth [OF assms(1,2)]) (use assms(3) b j in auto)
qed

lemma lfn_collect_make:
  assumes "1 \<le> i" "i \<le> 20"
  shows "lfn_collect (make_lfn name chk n i) (buf, b) =
    (let buf' = (if i = n then replicate 256 0 else buf); b' = (b \<or> i = n)
     in if b' then (lfn_store ((i - 1) * 13)
          (map (\<lambda>ci. ucast (lfn_char name ci)) [(i - 1) * 13..<(i - 1) * 13 + 13]) buf', True)
        else (buf', False))"
proof -
  have "lfn_order (make_lfn name chk n i) = of_nat i OR (if i = n then 0x40 else 0)"
    by (simp add: make_lfn_def Let_def)
  with lfn_order_seq [OF assms, of n] assms show ?thesis
    by (simp add: lfn_collect_def lfn_extract_make Let_def)
qed

lemma lfn_collect_down:
  assumes "0 \<notin> set name" "length name \<le> 255" "k < n" "n \<le> 20" "13 * (n - 1) < length name"
    and "lfn_partial name k buf"
  shows "\<exists>buf'. fold lfn_collect (map (make_lfn name chk n) (rev [1..<Suc k])) (buf, True) = (buf', True)
    \<and> lfn_partial name 0 buf'"
  using assms
proof (induction k arbitrary: buf)
  case (Suc k)
  have k: "13 * k < length name" using Suc.prems(3,5) by simp
  have r: "rev [1..<Suc (Suc k)] = Suc k # rev [1..<Suc k]" by simp
  let ?buf = "lfn_store (13 * k) (map (\<lambda>ci. ucast (lfn_char name ci)) [13 * k..<13 * k + 13]) buf"
  have "lfn_collect (make_lfn name chk n (Suc k)) (buf, True) = (?buf, True)"
    using Suc.prems by (subst lfn_collect_make) (simp_all add: Let_def mult.commute)
  moreover have "lfn_partial name k ?buf" using Suc.prems k by (intro lfn_partial_store)
  ultimately show ?case using Suc.IH [of ?buf] Suc.prems unfolding r by simp
qed auto

lemma lfn_partial_all:
  assumes "lfn_partial name 0 buf" "0 \<notin> set name" "length name \<le> 255"
  shows "c_string buf = name"
proof -
  have l: "length buf = 256" "\<And>j. j < 256 \<Longrightarrow> buf ! j = (if j < length name then name ! j else 0)"
    using assms(1) by (simp_all add: lfn_partial_def)
  have "take (length name) buf = name" by (rule nth_equalityI) (use l assms(3) in auto)
  moreover have "drop (length name) buf = 0 # drop (Suc (length name)) buf"
    using l assms(3) by (subst Cons_nth_drop_Suc [symmetric]) auto
  ultimately have "buf = name @ 0 # drop (Suc (length name)) buf"
    by (metis append_take_drop_id)
  then have "c_string buf = takeWhile (\<lambda>c. c \<noteq> 0) (name @ 0 # drop (Suc (length name)) buf)"
    by (simp add: c_string_def)
  also have "\<dots> = name" using assms(2) by (subst takeWhile_append2) auto
  finally show ?thesis .
qed

lemma lfn_roundtrip_any:
  assumes "0 \<notin> set name" "name \<noteq> []" "length name \<le> 255"
  shows "\<exists>buf'. fold lfn_collect (lfn_entries name chk) (buf, building) = (buf', True)
    \<and> c_string buf' = name"
proof -
  define n where "n = (length name + 12) div 13"
  have n: "1 \<le> n" "n \<le> 20" "13 * (n - 1) < length name" "length name \<le> 13 * n"
    using assms(2,3) by (cases name; simp add: n_def; linarith)+
  then obtain m where m: "n = Suc m" by (cases n) auto
  let ?buf = "lfn_store (13 * m) (map (\<lambda>ci. ucast (lfn_char name ci)) [13 * m..<13 * m + 13]) (replicate 256 0)"
  have "lfn_collect (make_lfn name chk n n) (buf, building) = (?buf, True)"
    using n m by (subst lfn_collect_make) (simp_all add: Let_def mult.commute)
  moreover have "lfn_partial name m ?buf"
    by (rule lfn_partial_store [OF assms(1,3)]) (use n m in \<open>auto simp: lfn_partial_def\<close>)
  then obtain buf' where "fold lfn_collect (map (make_lfn name chk n) (rev [1..<Suc m])) (?buf, True) = (buf', True)"
      "lfn_partial name 0 buf'"
    using lfn_collect_down [OF assms(1,3) _ n(2,3), of m] m by auto
  moreover have "lfn_entries name chk = make_lfn name chk n n # map (make_lfn name chk n) (rev [1..<Suc m])"
    by (simp add: lfn_entries_def n_def [symmetric]) (simp add: m)
  ultimately show ?thesis using lfn_partial_all [OF _ assms(1,3)] by auto
qed

text \<open>C25: The long-name entries that \<open>dir_add_entry\<close> writes for a name of 1 to 255 bytes, read back
  in directory order by the scan of \<open>dir_find\<close> and \<open>fat32_readdir\<close>, give exactly that name, whatever
  an earlier unfinished sequence left in the buffer.\<close>

theorem lfn_roundtrip:
  assumes "0 \<notin> set name" "name \<noteq> []" "length name \<le> 255"
  shows "\<exists>buf'. fold lfn_collect (lfn_entries name chk) (buf, building) = (buf', True)
    \<and> c_string buf' = name"
  by (rule lfn_roundtrip_any [OF assms])

theorem lfn_roundtrip_witness:
  "\<exists>buf'. fold lfn_collect (lfn_entries (ascii ''a long file name.txt'') 7) (replicate 256 65, True) = (buf', True)
    \<and> c_string buf' = ascii ''a long file name.txt''"
  by (rule lfn_roundtrip) (simp_all add: ascii_def)

section \<open>The entry structures as bytes\<close>

lemma bytes_32:
  assumes "length b = 32"
  shows "b = map (\<lambda>i. b ! i) [0, 1, 2, 3, 4, 5, 6, 7, 8, 9, 10, 11, 12, 13, 14, 15, 16, 17, 18, 19, 20,
    21, 22, 23, 24, 25, 26, 27, 28, 29, 30, 31]"
proof -
  have "[0..<32] = [0, 1, 2, 3, 4, 5, 6, 7, 8, 9, 10, 11, 12, 13, 14, 15, 16, 17, 18, 19, 20,
    21, 22, 23, 24, 25, 26, 27, 28, 29, 30, 31 :: nat]" by (simp add: upt_rec)
  with map_nth [of b] assms show ?thesis by simp
qed

lemma take_8_nth: "length b = 32 \<Longrightarrow> take 8 b = map (\<lambda>i. b ! i) [0, 1, 2, 3, 4, 5, 6, 7]"
  by (rule nth_equalityI) (auto simp: less_Suc_eq numeral_eq_Suc)

lemma take_3_nth: "length b = 32 \<Longrightarrow> take 3 (drop 8 b) = map (\<lambda>i. b ! i) [8, 9, 10]"
  by (rule nth_equalityI) (auto simp: less_Suc_eq numeral_eq_Suc)

lemma pack_unpack_dir: "length b = 32 \<Longrightarrow> pack_dir (unpack_dir b) = b"
proof -
  assume b: "length b = 32"
  have "pack_dir (unpack_dir b) = map (\<lambda>i. b ! i) [0, 1, 2, 3, 4, 5, 6, 7, 8, 9, 10, 11, 12, 13, 14, 15,
    16, 17, 18, 19, 20, 21, 22, 23, 24, 25, 26, 27, 28, 29, 30, 31]"
    by (simp add: pack_dir_def unpack_dir_def field16_def field32_def take_8_nth [OF b] take_3_nth [OF b])
  with bytes_32 [OF b] show ?thesis by simp
qed

lemma pack_unpack_lfn: "length b = 32 \<Longrightarrow> pack_lfn (unpack_lfn b) = b"
proof -
  assume b: "length b = 32"
  have s: "[0..<5] = [0, 1, 2, 3, 4 :: nat]" "[0..<6] = [0, 1, 2, 3, 4, 5 :: nat]" "[0..<2] = [0, 1 :: nat]"
    by (simp_all add: upt_rec)
  have "pack_lfn (unpack_lfn b) = map (\<lambda>i. b ! i) [0, 1, 2, 3, 4, 5, 6, 7, 8, 9, 10, 11, 12, 13, 14, 15,
    16, 17, 18, 19, 20, 21, 22, 23, 24, 25, 26, 27, 28, 29, 30, 31]"
    by (simp add: pack_lfn_def unpack_lfn_def field16_def s) (simp add: numeral_2_eq_2)
  with bytes_32 [OF b] show ?thesis by simp
qed

text \<open>A 32-byte directory slot and the packed structures are the same data: casting the bytes to
  either structure and back changes nothing, and the first cluster that \<open>set_entry_cluster\<close>
  splits into two 16-bit halves is what \<open>entry_cluster\<close> reads from the written bytes.\<close>

theorem dir_entry_roundtrip:
  assumes "length b = 32"
  shows "pack_dir (unpack_dir b) = b \<and> pack_lfn (unpack_lfn b) = b \<and>
    entry_cluster (unpack_dir (pack_dir (set_entry_cluster c (unpack_dir b)))) = c"
proof (intro conjI)
  have "length (de_name (set_entry_cluster c (unpack_dir b))) = 8"
    "length (de_ext (set_entry_cluster c (unpack_dir b))) = 3"
    using assms by (simp_all add: set_entry_cluster_def unpack_dir_def)
  then show "entry_cluster (unpack_dir (pack_dir (set_entry_cluster c (unpack_dir b)))) = c"
    by (simp add: unpack_pack_dir)
qed (simp_all add: assms pack_unpack_dir pack_unpack_lfn)

theorem dir_entry_roundtrip_witness:
  "entry_cluster (unpack_dir (pack_dir (set_entry_cluster 0x12345 (unpack_dir (replicate 32 0xE5))))) = 0x12345"
  using dir_entry_roundtrip [where b = "replicate 32 0xE5" and c = "0x12345"] by simp

text \<open>A short name always fills its eleven bytes, does not depend on the case of the long name
  (so names equal up to case collide on the same short name), and its checksum is the
  rotate-and-add of the FAT specification.\<close>

theorem make_83_canonical:
  "length (make_83 name) = 11 \<and> make_83 (map f_toupper name) = make_83 name \<and>
   lfn_checksum (make_83 name) = foldl (\<lambda>s b. word_rotr 1 s + b) 0 (make_83 name)"
proof -
  have h: "bit (0x80 :: int) n \<longleftrightarrow> n = 7" for n
  proof -
    have "(0x80 :: int) = push_bit 7 1" by simp
    then show ?thesis by (simp only: bit_simps) auto
  qed
  have r: "(if s AND 1 \<noteq> 0 then 0x80 else 0) + drop_bit 1 s = word_rotr 1 (s :: u8)" for s
  proof -
    have o: "s AND 1 \<noteq> 0 \<longleftrightarrow> bit s 0" by (simp add: and_one_eq bit_0 odd_iff_mod_2_eq_one)
    have "(if s AND 1 \<noteq> 0 then 0x80 else 0) + drop_bit 1 s
        = (if s AND 1 \<noteq> 0 then 0x80 else 0) OR drop_bit 1 s"
      by (rule disjunctive_add) (auto simp: bit_drop_bit_eq h)
    also have "\<dots> = word_rotr 1 s"
    proof (rule bit_word_eqI)
      fix n assume "n < LENGTH(8)"
      then consider "n = 7" | "n < 7" by fastforce
      then show "bit ((if s AND 1 \<noteq> 0 then 0x80 else 0) OR drop_bit 1 s) n = bit (word_rotr 1 s) n"
        by cases (auto simp: bit_or_iff bit_drop_bit_eq h bit_word_rotr_iff o)
    qed
    finally show ?thesis .
  qed
  show ?thesis by (simp add: make_83_upper lfn_checksum_def r del: One_nat_def)
qed

end
