(* ===== verification/Fat_Dir.thy ===== *)
theory Fat_Dir
  imports Fat_Names
begin

text \<open>
  Directory scanning and path resolution: the second half of \<open>src/fs/fat32_core.c\<close>
  (\<open>dir_read_entry\<close> \<dots> \<open>path_stat\<close>) and \<open>dir_add_entry\<close> of \<open>src/fs/fat32_ops.c\<close>.
  A directory is a chain of clusters; a scan walks its 32-byte slots. Walking is a partial
  function: a cyclic chain without an end marker slot is walked forever (\<open>None\<close>).
\<close>

section \<open>Positions and slots\<close>

record dir_pos_t =
  dp_cluster :: u32
  dp_entry_idx :: u32
  dp_lba :: u32
  dp_off :: u32

definition dir_read_entry :: "dir_pos_t \<Rightarrow> vol \<Rightarrow> bytes option \<times> vol" where
  "dir_read_entry pos s =
     (let (ok, s1) = sec_read (dp_lba pos) s
      in if \<not> ok then (None, s1) else (Some (slice (sec_cache s1) (unat (dp_off pos)) 32), s1))"

definition dir_write_entry :: "dir_pos_t \<Rightarrow> bytes \<Rightarrow> vol \<Rightarrow> bool \<times> vol" where
  "dir_write_entry pos e s =
     (let (ok, s1) = sec_read (dp_lba pos) s
      in if \<not> ok then (False, s1) else cache_patch (unat (dp_off pos)) e s1)"

text \<open>Advance to the next slot; \<open>None\<close> is the division trap on \<open>vol_sec_per_clus = 0\<close>.\<close>

definition dir_next :: "dir_pos_t \<Rightarrow> vol \<Rightarrow> ((bool \<times> dir_pos_t) \<times> vol) option" where
  "dir_next pos0 s =
     (let pos = pos0\<lparr>dp_entry_idx := dp_entry_idx pos0 + 1, dp_off := dp_off pos0 + 32\<rparr>
      in if dp_off pos \<ge> 512
         then let pos = pos\<lparr>dp_off := 0, dp_lba := dp_lba pos + 1\<rparr>;
                  base = cluster_to_lba (geo s) (dp_cluster pos)
              in do {
                sec_in_clus \<leftarrow> c_mod (dp_lba pos - base) (vol_sec_per_clus (geo s));
                if sec_in_clus = 0 \<and> dp_lba pos \<noteq> base
                then let (next_clus, s1) = fat_get (dp_cluster pos) s
                     in if next_clus \<ge> FAT32_EOC \<or> next_clus < 2 then Some ((False, pos), s1)
                        else Some ((True, pos\<lparr>dp_cluster := next_clus,
                                              dp_lba := cluster_to_lba (geo s1) next_clus\<rparr>), s1)
                else Some ((True, pos), s)
              }
         else Some ((True, pos), s))"

definition dir_pos_init :: "geometry \<Rightarrow> u32 \<Rightarrow> dir_pos_t" where
  "dir_pos_init g cluster =
     \<lparr>dp_cluster = cluster, dp_entry_idx = 0, dp_lba = cluster_to_lba g cluster, dp_off = 0\<rparr>"

text \<open>The first byte and the attribute byte of a slot.\<close>

abbreviation e_first :: "bytes \<Rightarrow> u8" where "e_first e \<equiv> e ! 0"
abbreviation e_attr :: "bytes \<Rightarrow> u8" where "e_attr e \<equiv> e ! 11"

section \<open>Short-name collisions\<close>

partial_function (option) dir_83_scan :: "bytes \<Rightarrow> dir_pos_t \<Rightarrow> vol \<Rightarrow> (bool \<times> vol) option" where
  "dir_83_scan name83 pos s =
     (let (r, s1) = dir_read_entry pos s
      in case r of
           None \<Rightarrow> Some (False, s1)
         | Some e \<Rightarrow>
             if e_first e = 0 then Some (False, s1)
             else if e_first e \<noteq> 0xE5 \<and> e_attr e \<noteq> ATTR_LFN \<and> take 11 e = name83
             then Some (True, s1)
             else do {
               ((more, pos1), s2) \<leftarrow> dir_next pos s1;
               if more then dir_83_scan name83 pos1 s2 else Some (False, s2)
             })"

definition dir_83_exists :: "u32 \<Rightarrow> bytes \<Rightarrow> vol \<Rightarrow> (bool \<times> vol) option" where
  "dir_83_exists dir_cluster name83 s = dir_83_scan name83 (dir_pos_init (geo s) dir_cluster) s"

text \<open>The rounds \<open>n\<close> of the numeric tail generation.\<close>

fun unique_tail :: "nat list \<Rightarrow> u32 \<Rightarrow> bytes \<Rightarrow> bytes \<Rightarrow> vol \<Rightarrow> (bytes \<times> vol) option" where
  "unique_tail [] dir_cluster name ext s = Some (make_83 name, s)"
| "unique_tail (n # ns) dir_cluster name ext s =
     (let out = make_83_tail name ext n
      in do {
        (used, s1) \<leftarrow> dir_83_exists dir_cluster out s;
        if \<not> used then Some (out, s1) else unique_tail ns dir_cluster name ext s1
      })"

definition make_83_unique :: "u32 \<Rightarrow> bytes \<Rightarrow> vol \<Rightarrow> (bytes \<times> vol) option" where
  "make_83_unique dir_cluster name s =
     (let out = make_83 name
      in do {
        (used, s1) \<leftarrow> dir_83_exists dir_cluster out s;
        if \<not> used then Some (out, s1)
        else unique_tail [1..<10000] dir_cluster name (drop 8 out) s1
      })"

section \<open>Lookup\<close>

text \<open>The locals of \<open>dir_find\<close> that live across iterations.\<close>

record find_state =
  fs_buf :: bytes
  fs_parts :: nat
  fs_building :: bool
  fs_start :: dir_pos_t

definition lfn_matches :: "bytes \<Rightarrow> bytes \<Rightarrow> bool" where
  "lfn_matches name buf \<longleftrightarrow> map f_toupper name = map f_toupper (c_string buf)"

text \<open>The branch of the loop body for an LFN slot.\<close>

definition find_lfn :: "bytes \<Rightarrow> dir_pos_t \<Rightarrow> find_state \<Rightarrow> find_state" where
  "find_lfn e pos f =
     (let lfn = unpack_lfn e;
          (buf, building) = lfn_collect lfn (fs_buf f, fs_building f)
      in if lfn_order lfn AND 0x40 \<noteq> 0
         then f\<lparr>fs_buf := buf, fs_building := building,
                fs_parts := unat (lfn_order lfn AND 0x1F), fs_start := pos\<rparr>
         else f\<lparr>fs_buf := buf, fs_building := building\<rparr>)"

text \<open>Whether a short entry is the one looked for.\<close>

definition find_match :: "bytes \<Rightarrow> bytes \<Rightarrow> find_state \<Rightarrow> bool" where
  "find_match name e f =
     (if fs_building f \<and> 0 < fs_parts f \<and> lfn_matches name (fs_buf f) then True
      else \<not> fs_building f \<and> take 11 e = make_83 name)"

text \<open>What the other paths through the loop body leave in the locals.\<close>

definition find_step :: "bytes \<Rightarrow> dir_pos_t \<Rightarrow> find_state \<Rightarrow> find_state" where
  "find_step e pos f =
     (if e_first e = 0xE5 then f\<lparr>fs_building := False, fs_parts := 0\<rparr>
      else if e_attr e = ATTR_LFN then find_lfn e pos f
      else f\<lparr>fs_building := False, fs_parts := 0, fs_start := pos\<rparr>)"

text \<open>Result: the entry, its position and the position of its first LFN slot.\<close>

partial_function (option) dir_find_from ::
  "bytes \<Rightarrow> dir_pos_t \<Rightarrow> find_state \<Rightarrow> vol \<Rightarrow> ((bytes \<times> dir_pos_t \<times> dir_pos_t) option \<times> vol) option" where
  "dir_find_from name pos f s =
     (let (r, s1) = dir_read_entry pos s
      in case r of
           None \<Rightarrow> Some (None, s1)
         | Some e \<Rightarrow>
             if e_first e = 0 then Some (None, s1)
             else if e_first e \<noteq> 0xE5 \<and> e_attr e \<noteq> ATTR_LFN \<and> find_match name e f
             then Some (Some (e, pos, if fs_building f then fs_start f else pos), s1)
             else do {
               ((more, pos1), s2) \<leftarrow> dir_next pos s1;
               if more then dir_find_from name pos1 (find_step e pos f) s2 else Some (None, s2)
             })"

definition find_init :: "dir_pos_t \<Rightarrow> find_state" where
  "find_init pos = \<lparr>fs_buf = replicate 256 0, fs_parts = 0, fs_building = False, fs_start = pos\<rparr>"

definition dir_find ::
  "u32 \<Rightarrow> bytes \<Rightarrow> vol \<Rightarrow> ((bytes \<times> dir_pos_t \<times> dir_pos_t) option \<times> vol) option" where
  "dir_find dir_cluster name s =
     (let pos = dir_pos_init (geo s) dir_cluster in dir_find_from name pos (find_init pos) s)"

section \<open>Paths\<close>

text \<open>One component of a path (at most 255 bytes are kept) and the rest after its slash.\<close>

definition path_comp :: "bytes \<Rightarrow> bytes \<times> bytes" where
  "path_comp p =
     (let comp = take 255 (takeWhile (\<lambda>c. c \<noteq> CH_SLASH) p);
          rest = dropWhile (\<lambda>c. c \<noteq> CH_SLASH) p
      in (comp, drop 1 rest))"

lemma path_comp_shorter [simp]: "length (snd (path_comp (c # cs))) < Suc (length cs)"
proof -
  have "length (dropWhile (\<lambda>c. c \<noteq> CH_SLASH) (c # cs)) \<le> length (c # cs)" by (rule length_dropWhile_le)
  then show ?thesis by (simp add: path_comp_def Let_def)
qed

function (sequential) resolve_walk ::
  "u32 \<Rightarrow> bytes \<Rightarrow> vol \<Rightarrow> ((u32 \<times> bytes) \<times> vol) option" where
  "resolve_walk cluster [] s = Some ((cluster, []), s)"
| "resolve_walk cluster p s =
     (let (comp, rest) = path_comp p
      in if rest = [] then Some ((cluster, comp), s)
         else do {
           (r, s1) \<leftarrow> dir_find cluster comp s;
           case r of
             None \<Rightarrow> Some ((0, []), s1)
           | Some (e, _, _) \<Rightarrow>
               if e_attr e AND ATTR_DIR = 0 then Some ((0, []), s1)
               else let c = entry_cluster (unpack_dir e)
                    in resolve_walk (if c = 0 then vol_root_cluster (geo s1) else c) rest s1
         })"
  by pat_completeness auto
termination
  by (relation "measure (\<lambda>(_, p, _). length p)") (auto simp: prod_eq_iff)

text \<open>Cluster of the parent directory (0 on error) and the last component.\<close>

definition path_resolve_parent :: "bytes \<Rightarrow> vol \<Rightarrow> ((u32 \<times> bytes) \<times> vol) option" where
  "path_resolve_parent path s =
     (case path of
        [] \<Rightarrow> Some ((0, []), s)
      | c # p \<Rightarrow> if c \<noteq> CH_SLASH then Some ((0, []), s)
                 else resolve_walk (vol_root_cluster (geo s)) p s)"

text \<open>What \<open>path_stat\<close> reports: the entry, its position and the directory that holds it; the
  latter two are not filled in for the root.\<close>

definition path_stat ::
  "bytes \<Rightarrow> vol \<Rightarrow> ((fat32_dir_entry_t \<times> (dir_pos_t \<times> u32) option) option \<times> vol) option" where
  "path_stat path s =
     (if path = [CH_SLASH]
      then Some (Some (set_entry_cluster (vol_root_cluster (geo s)) (dir_entry_zero\<lparr>de_attr := ATTR_DIR\<rparr>), None), s)
      else do {
        ((dir_cluster, name), s1) \<leftarrow> path_resolve_parent path s;
        if dir_cluster = 0 \<or> name = [] then Some (None, s1)
        else do {
          (r, s2) \<leftarrow> dir_find dir_cluster name s1;
          case r of
            None \<Rightarrow> Some (None, s2)
          | Some (e, pos, _) \<Rightarrow> Some (Some (unpack_dir e, Some (pos, dir_cluster)), s2)
        }
      })"

section \<open>Adding an entry\<close>

text \<open>
  The search for \<open>need\<close> consecutive free slots: \<open>Some start\<close> to write at, \<open>None\<close> for a failed
  read or a full disk. \<open>free_run\<close> counts the free slots that end at the current position.
\<close>

partial_function (option) find_space ::
  "nat \<Rightarrow> nat \<Rightarrow> dir_pos_t \<Rightarrow> dir_pos_t \<Rightarrow> vol \<Rightarrow> (dir_pos_t option \<times> vol) option" where
  "find_space need free_run run_start pos s =
     (let (r, s1) = dir_read_entry pos s
      in case r of
           None \<Rightarrow> Some (None, s1)
         | Some e \<Rightarrow>
             let free = (e_first e = 0 \<or> e_first e = 0xE5);
                 run_start1 = (if free \<and> free_run = 0 then pos else run_start);
                 free_run1 = (if free then free_run + 1 else 0)
             in if free \<and> need \<le> free_run1 then Some (Some run_start1, s1)
                else do {
                  ((more, pos1), s2) \<leftarrow> dir_next pos s1;
                  if more then find_space need free_run1 run_start1 pos1 s2
                  else let (new_clus, s3) = fat_alloc (dp_cluster pos1) s2
                       in if new_clus = 0 then Some (None, s3)
                          else Some (Some (if free_run1 = 0 then dir_pos_init (geo s3) new_clus
                                           else run_start1), s3)
                })"

text \<open>
  Writing the LFN slots in order; neither the result of the write nor that of \<open>dir_next\<close> is looked at.
\<close>

fun write_slots :: "bytes list \<Rightarrow> dir_pos_t \<Rightarrow> vol \<Rightarrow> (dir_pos_t \<times> vol) option" where
  "write_slots [] pos s = Some (pos, s)"
| "write_slots (e # es) pos s =
     (let (_, s1) = dir_write_entry pos e s
      in do { ((_, pos1), s2) \<leftarrow> dir_next pos s1; write_slots es pos1 s2 })"

definition make_e83 :: "bytes \<Rightarrow> u8 \<Rightarrow> u32 \<Rightarrow> u32 \<Rightarrow> fat32_dir_entry_t" where
  "make_e83 name83 attr first_cluster file_size =
     (set_entry_cluster first_cluster dir_entry_zero)
       \<lparr>de_name := take 8 name83, de_ext := drop 8 name83, de_attr := attr,
        de_file_size := file_size, de_wrt_date := 0x5B21, de_wrt_time := 0\<rparr>"

definition dir_add_entry ::
  "u32 \<Rightarrow> bytes \<Rightarrow> u8 \<Rightarrow> u32 \<Rightarrow> u32 \<Rightarrow> vol \<Rightarrow> (dir_pos_t option \<times> vol) option" where
  "dir_add_entry dir_cluster name attr first_cluster file_size s = do {
     (name83, s1) \<leftarrow> make_83_unique dir_cluster name s;
     let lfn_count = (length name + 12) div 13;
     let pos = dir_pos_init (geo s1) dir_cluster;
     (r, s2) \<leftarrow> find_space (lfn_count + 1) 0 pos pos s1;
     case r of
       None \<Rightarrow> Some (None, s2)
     | Some start \<Rightarrow> do {
         (pos1, s3) \<leftarrow> write_slots (map pack_lfn (lfn_entries name (lfn_checksum name83))) start s2;
         let (_, s4) = dir_write_entry pos1 (pack_dir (make_e83 name83 attr first_cluster file_size)) s3;
         Some (Some pos1, s4)
       }
   }"

end
