(* ===== verification/Fat_Dir_Spec.thy ===== *)
theory Fat_Dir_Spec
  imports Fat_Dir
begin

text \<open>
  What directory scans compute. A directory whose FAT chain is \<open>cs\<close> is the list of its slots
  (\<open>dir_listing\<close>); lookup, collision check and the search for free slots on the disk are shown to
  be pure functions of that list, and adding an entry is an update of it.
\<close>

section \<open>Chains\<close>

lemma chain_unique: "chain f c cs \<Longrightarrow> chain f c ds \<Longrightarrow> cs = ds"
proof (induction cs arbitrary: c ds)
  case Nil
  then show ?case by (cases ds) auto
next
  case (Cons x cs)
  then show ?case by (cases ds) auto
qed

lemma chain_suffix: "chain f c cs \<Longrightarrow> x \<in> set cs \<Longrightarrow> \<exists>ds. chain f x ds \<and> length ds \<le> length cs"
proof (induction cs arbitrary: c)
  case (Cons y cs)
  show ?case
  proof (cases "x = y")
    case True
    with Cons.prems show ?thesis by (intro exI [of _ "y # cs"]) auto
  next
    case False
    with Cons.prems have "chain f (f y) cs" "x \<in> set cs" by auto
    with Cons.IH show ?thesis by fastforce
  qed
qed simp

text \<open>A chain that ends never meets the same cluster twice.\<close>

lemma chain_distinct: "chain f c cs \<Longrightarrow> distinct cs"
proof (induction cs arbitrary: c)
  case (Cons x cs)
  then have t: "chain f (f x) cs" by simp
  have "x \<notin> set cs"
  proof
    assume "x \<in> set cs"
    then obtain ds where ds: "chain f x ds" "length ds \<le> length cs"
      using chain_suffix [OF t] by blast
    have "ds = x # cs" using chain_unique [of f x ds "x # cs"] ds(1) Cons.prems by simp
    with ds(2) show False by simp
  qed
  with Cons.IH [OF t] show ?case by simp
qed simp

lemma chain_next: "chain f c cs \<Longrightarrow> Suc i < length cs \<Longrightarrow>
    f (cs ! i) = cs ! Suc i \<and> 2 \<le> cs ! Suc i \<and> cs ! Suc i < FAT32_EOC"
proof (induction cs arbitrary: c i)
  case (Cons x cs)
  then obtain y ys where cs: "cs = y # ys" by (cases cs) auto
  show ?case
  proof (cases i)
    case 0
    with Cons.prems cs show ?thesis by auto
  next
    case (Suc k)
    with Cons.prems Cons.IH [of "f x" k] show ?thesis by simp
  qed
qed simp

lemma chain_end: "chain f c cs \<Longrightarrow> cs \<noteq> [] \<Longrightarrow> f (last cs) < 2 \<or> FAT32_EOC \<le> f (last cs)"
proof (induction cs arbitrary: c)
  case (Cons x cs)
  then show ?case by (cases cs) auto
qed simp

section \<open>The slots of a directory\<close>

definition dir_chain :: "vol \<Rightarrow> u32 \<Rightarrow> u32 list \<Rightarrow> bool" where
  "dir_chain s c cs \<longleftrightarrow> cs \<noteq> [] \<and> chain (fatv s) c cs \<and> (\<forall>k \<in> set cs. valid_cluster (geo s) k)"

definition clus_slots :: "geometry \<Rightarrow> nat" where
  "clus_slots g = 16 * unat (vol_sec_per_clus g)"

definition slot_lba :: "geometry \<Rightarrow> u32 list \<Rightarrow> nat \<Rightarrow> u32" where
  "slot_lba g cs j =
     cluster_to_lba g (cs ! (j div clus_slots g)) + of_nat (j mod clus_slots g div 16)"

text \<open>The position of slot \<open>j\<close>; \<open>i\<close> is the value \<open>entry_idx\<close> had at slot 0.\<close>

definition pos_at :: "geometry \<Rightarrow> u32 list \<Rightarrow> u32 \<Rightarrow> nat \<Rightarrow> dir_pos_t" where
  "pos_at g cs i j = \<lparr>dp_cluster = cs ! (j div clus_slots g), dp_entry_idx = i + of_nat j,
     dp_lba = slot_lba g cs j, dp_off = 32 * of_nat (j mod 16)\<rparr>"

definition slot :: "vol \<Rightarrow> u32 list \<Rightarrow> nat \<Rightarrow> bytes" where
  "slot s cs j = slice (sec_view s (slot_lba (geo s) cs j)) (32 * (j mod 16)) 32"

definition slot_count :: "geometry \<Rightarrow> u32 list \<Rightarrow> nat" where
  "slot_count g cs = clus_slots g * length cs"

definition dir_slots :: "vol \<Rightarrow> u32 list \<Rightarrow> bytes list" where
  "dir_slots s cs = map (slot s cs) [0..<slot_count (geo s) cs]"

definition dir_listing :: "vol \<Rightarrow> u32 list \<Rightarrow> u32 \<Rightarrow> (bytes \<times> dir_pos_t) list" where
  "dir_listing s cs i = map (\<lambda>j. (slot s cs j, pos_at (geo s) cs i j)) [0..<slot_count (geo s) cs]"

lemma length_slot [simp]: "length (slot s cs j) = 32"
  by (simp add: slot_def)

lemma slot_index:
  assumes "geo_ok g" "j < slot_count g cs"
  shows "j div clus_slots g < length cs" "j mod clus_slots g div 16 < unat (vol_sec_per_clus g)"
    "0 < clus_slots g"
proof -
  show k: "0 < clus_slots g" using assms(1) by (simp add: clus_slots_def geo_ok_def)
  show "j div clus_slots g < length cs"
    using assms(2) by (simp add: slot_count_def less_mult_imp_div_less mult.commute)
  have "j mod clus_slots g < 16 * unat (vol_sec_per_clus g)" using k by (simp add: clus_slots_def)
  then show "j mod clus_slots g div 16 < unat (vol_sec_per_clus g)" by (simp add: less_mult_imp_div_less mult.commute)
qed

lemma slot_lba_in:
  assumes "geo_ok g" "j < slot_count g cs"
  shows "slot_lba g cs j \<in> cluster_sectors g (cs ! (j div clus_slots g))"
proof -
  have lt: "j mod clus_slots g div 16 < unat (vol_sec_per_clus g)" by (rule slot_index(2) [OF assms])
  have "unat (of_nat (j mod clus_slots g div 16) :: u32) = j mod clus_slots g div 16"
    by (rule unat_of_nat_eq) (use lt unsigned_less [of "vol_sec_per_clus g", where ?'a = nat] in simp)
  with lt show ?thesis by (auto simp: slot_lba_def cluster_sectors_def word_less_nat_alt)
qed

lemma slot_lba_data:
  assumes "geo_ok g" "j < slot_count g cs" "\<forall>k \<in> set cs. valid_cluster g k"
  shows "vol_data_lba g \<le> slot_lba g cs j" "slot_lba g cs j \<noteq> NO_LBA"
proof -
  have "valid_cluster g (cs ! (j div clus_slots g))" using assms(3) slot_index(1) [OF assms(1,2)] by simp
  note C = cluster_sectors_range [OF assms(1) this slot_lba_in [OF assms(1,2)]]
  show "vol_data_lba g \<le> slot_lba g cs j" "slot_lba g cs j \<noteq> NO_LBA" by (rule C(1), rule C(2))
qed

text \<open>Slots in the same sector have different offsets.\<close>

lemma slot_lba_inj:
  assumes "geo_ok g" "\<forall>k \<in> set cs. valid_cluster g k" "distinct cs"
    and "j < slot_count g cs" "k < slot_count g cs" "slot_lba g cs j = slot_lba g cs k" "j \<noteq> k"
  shows "j mod 16 \<noteq> k mod 16"
proof
  assume m: "j mod 16 = k mod 16"
  let ?K = "clus_slots g"
  note J = slot_index [OF assms(1,4)] and K = slot_index [OF assms(1,5)]
  have vj: "valid_cluster g (cs ! (j div ?K))" "valid_cluster g (cs ! (k div ?K))"
    using assms(2) J(1) K(1) by simp_all
  have "cs ! (j div ?K) = cs ! (k div ?K)"
    using cluster_sectors_disjoint [OF assms(1) vj] slot_lba_in [OF assms(1,4)] slot_lba_in [OF assms(1,5)]
      assms(6) by auto
  then have d: "j div ?K = k div ?K" using nth_eq_iff_index_eq [OF assms(3) J(1) K(1)] by simp
  have n: "unat (of_nat i :: u32) = i" if "i < unat (vol_sec_per_clus g)" for i
    by (rule unat_of_nat_eq) (use that unsigned_less [of "vol_sec_per_clus g", where ?'a = nat] in simp)
  have "(of_nat (j mod ?K div 16) :: u32) = of_nat (k mod ?K div 16)"
    using assms(6) d by (simp add: slot_lba_def)
  then have e: "j mod ?K div 16 = k mod ?K div 16" using n [OF J(2)] n [OF K(2)] by metis
  have mm: "i mod ?K mod 16 = i mod 16" for i by (simp add: clus_slots_def mod_mod_cancel)
  have "j mod ?K = k mod ?K" using e m mm [of j] mm [of k] by (metis div_mult_mod_eq)
  with d have "j = k" by (metis div_mult_mod_eq)
  with assms(7) show False by simp
qed

section \<open>One step of a scan\<close>

lemma dir_pos_init_at: "geo_ok g \<Longrightarrow> cs \<noteq> [] \<Longrightarrow> dir_pos_init g (hd cs) = pos_at g cs 0 0"
  by (cases cs) (simp_all add: dir_pos_init_def pos_at_def slot_lba_def)

lemma unat_slot_off: "unat (32 * of_nat (j mod 16) :: u32) = 32 * (j mod 16)"
proof -
  have "j mod 16 < 16" by simp
  then have "unat (of_nat (j mod 16) :: u32) = j mod 16" by (intro unat_of_nat_eq) simp
  then show ?thesis using \<open>j mod 16 < 16\<close> by (simp add: unat_word_ariths)
qed

lemma dir_chain_view:
  assumes "same_view s t" "same_vol s t" "good_vol s" "dir_chain s c cs"
  shows "dir_chain t c cs" "slot_count (geo t) cs = slot_count (geo s) cs"
    "j < slot_count (geo s) cs \<Longrightarrow> slot t cs j = slot s cs j"
proof -
  have g: "geo t = geo s" by (rule same_vol_geo [OF assms(2)])
  note v = same_view_fatv [OF assms(1,2) good_volD(3) [OF assms(3)]]
  show "dir_chain t c cs"
    using assms(4) v unfolding dir_chain_def g
    by (subst chain_cong [of cs "fatv t" "fatv s"]) (auto intro: valid_fat_index)
  show "slot_count (geo t) cs = slot_count (geo s) cs" by (simp add: g)
  show "slot t cs j = slot s cs j" if j: "j < slot_count (geo s) cs"
    using slot_lba_data [OF good_volD(3) [OF assms(3)] j] assms(1,4)
    by (simp add: slot_def g same_view_def dir_chain_def)
qed

lemma dir_read_at:
  assumes "good_vol s" "dir_chain s c cs" "j < slot_count (geo s) cs"
  obtains t where "dir_read_entry (pos_at (geo s) cs i j) s = (Some (slot s cs j), t)"
    "same_vol s t" "good_vol t" "same_view s t"
proof -
  note G = good_volD [OF assms(1)]
  have ne: "slot_lba (geo s) cs j \<noteq> NO_LBA"
    using slot_lba_data [OF G(3) assms(3)] assms(2) by (simp add: dir_chain_def)
  obtain t where t: "sec_read (slot_lba (geo s) cs j) s = (True, t)" "same_vol s t"
      "cache_ok t" "io_ok t" "\<And>a. a \<noteq> NO_LBA \<Longrightarrow> sec_view t a = sec_view s a"
      "sec_cache t = sec_view s (slot_lba (geo s) cs j)"
    using sec_readE [OF G(1,2) ne] by blast
  show ?thesis
  proof (rule that)
    show "dir_read_entry (pos_at (geo s) cs i j) s = (Some (slot s cs j), t)"
      using t by (simp add: dir_read_entry_def pos_at_def slot_def unat_slot_off)
    show "good_vol t" using t G(3) by (simp add: good_vol_def same_vol_geo)
    show "same_view s t" using t(5) by (simp add: same_view_def)
  qed (rule t(2))
qed

lemma slot_div:
  "j div clus_slots g = j div 16 div unat (vol_sec_per_clus g)"
  "j mod clus_slots g div 16 = j div 16 mod unat (vol_sec_per_clus g)"
  by (simp_all add: clus_slots_def div_mult2_eq mod_mult2_eq)

lemma slot_step:
  "j mod 16 < 15 \<Longrightarrow> Suc j div 16 = j div 16 \<and> Suc j mod 16 = Suc (j mod 16)"
  "\<not> j mod 16 < 15 \<Longrightarrow> Suc j div 16 = Suc (j div 16) \<and> Suc j mod 16 = 0"
proof -
  show "j mod 16 < 15 \<Longrightarrow> Suc j div 16 = j div 16 \<and> Suc j mod 16 = Suc (j mod 16)"
    by (simp add: div_Suc mod_Suc)
  assume "\<not> j mod 16 < 15"
  moreover have "j mod 16 < 16" by simp
  ultimately have "j mod 16 = 15" by linarith
  then show "Suc j div 16 = Suc (j div 16) \<and> Suc j mod 16 = 0" by (simp add: div_Suc mod_Suc)
qed

lemma slot_off_wrap: "(512 :: u32) \<le> 32 * of_nat (j mod 16) + 32 \<longleftrightarrow> \<not> j mod 16 < 15"
proof -
  have "unat (32 * of_nat (j mod 16) + 32 :: u32) = 32 * (j mod 16) + 32"
    using unat_slot_off [of j] by (simp add: unat_word_ariths)
  then show ?thesis by (auto simp: word_le_nat_alt)
qed

lemma sec_step_word:
  fixes b :: nat and n base :: u32
  assumes "0 < unat n"
  shows "base + of_nat (b mod unat n) + 1 - base = of_nat (Suc (b mod unat n))"
    "(of_nat (Suc (b mod unat n)) :: u32) mod n = 0 \<longleftrightarrow> Suc (b mod unat n) = unat n"
    "base + of_nat (b mod unat n) + 1 \<noteq> base"
proof -
  have lt: "b mod unat n < unat n" using assms by simp
  show "base + of_nat (b mod unat n) + 1 - base = of_nat (Suc (b mod unat n))" by simp
  have "Suc (b mod unat n) < 2 ^ 32" using lt unsigned_less [of n, where ?'a = nat] by simp
  then have u: "unat (of_nat (Suc (b mod unat n)) :: u32) = Suc (b mod unat n)"
    by (intro unat_of_nat_eq) simp
  have "unat ((of_nat (Suc (b mod unat n)) :: u32) mod n) = Suc (b mod unat n) mod unat n"
    unfolding unat_mod_distrib u ..
  moreover have "Suc (b mod unat n) mod unat n = 0 \<longleftrightarrow> Suc (b mod unat n) = unat n"
    using lt by (metis Suc_lessI less_not_refl mod_less mod_self nat.distinct(1))
  ultimately show "(of_nat (Suc (b mod unat n)) :: u32) mod n = 0 \<longleftrightarrow> Suc (b mod unat n) = unat n"
    by (metis unat_0 unat_eq_zero)
  show "base + of_nat (b mod unat n) + 1 \<noteq> base"
  proof
    assume "base + of_nat (b mod unat n) + 1 = base"
    then have "(of_nat (Suc (b mod unat n)) :: u32) = 0" by (simp add: algebra_simps)
    with u show False by (metis nat.distinct(1) unat_0)
  qed
qed

lemma Suc_div_full: "0 < n \<Longrightarrow> Suc (b mod n) = n \<Longrightarrow> Suc b div n = Suc (b div n) \<and> Suc b mod n = 0"
  by (simp add: div_Suc mod_Suc)

lemma Suc_div_part: "0 < n \<Longrightarrow> Suc (b mod n) \<noteq> n \<Longrightarrow> Suc b div n = b div n \<and> Suc b mod n = Suc (b mod n)"
  by (simp add: div_Suc mod_Suc)

lemma dir_next_at:
  assumes "good_vol s" "dir_chain s c cs" "j < slot_count (geo s) cs"
  obtains t p where "dir_next (pos_at (geo s) cs i j) s = Some ((Suc j < slot_count (geo s) cs, p), t)"
    "Suc j < slot_count (geo s) cs \<Longrightarrow> p = pos_at (geo s) cs i (Suc j)"
    "dp_cluster p = (if Suc j < slot_count (geo s) cs then cs ! (Suc j div clus_slots (geo s)) else last cs)"
    "same_vol s t" "good_vol t" "same_view s t"
proof -
  let ?g = "geo s" and ?b = "j div 16"
  let ?n = "unat (vol_sec_per_clus ?g)"
  note G = good_volD(3) [OF assms(1)]
  have n: "0 < ?n" using G by (simp add: geo_ok_def)
  then have n0: "vol_sec_per_clus ?g \<noteq> 0" by auto
  have cnt: "k < slot_count ?g cs \<longleftrightarrow> k div 16 div ?n < length cs" for k
    using n by (simp add: slot_count_def clus_slots_def less_mult_imp_div_less div_less_iff_less_mult
        div_mult2_eq [symmetric] mult.commute)
  have ch: "chain (fatv s) c cs" "cs \<noteq> []" "\<forall>k \<in> set cs. valid_cluster ?g k"
    using assms(2) by (simp_all add: dir_chain_def)
  show ?thesis
  proof (cases "j mod 16 < 15")
    case True
    note st = slot_step(1) [OF True]
    have "Suc j < slot_count ?g cs" using assms(3) cnt [of j] cnt [of "Suc j"] st by simp
    moreover have "dir_next (pos_at ?g cs i j) s = Some ((True, pos_at ?g cs i (Suc j)), s)"
      using st True slot_off_wrap [of j]
      by (simp add: dir_next_def Let_def pos_at_def slot_lba_def slot_div algebra_simps)
    ultimately show ?thesis
      using assms(1) by (intro that [of "pos_at ?g cs i (Suc j)" s]) (simp_all add: pos_at_def)
  next
    case False
    note st = slot_step(2) [OF False]
    let ?base = "cluster_to_lba ?g (cs ! (?b div ?n))"
    note W = sec_step_word(1) [OF n, of ?base ?b] sec_step_word(2) [OF n, of ?b]
      sec_step_word(3) [OF n, of ?base ?b]
    show ?thesis
    proof (cases "Suc (?b mod ?n) = ?n")
      case part: False
      note sd = Suc_div_part [OF n part]
      have "Suc j < slot_count ?g cs" using assms(3) cnt [of j] cnt [of "Suc j"] st sd by simp
      moreover have "dir_next (pos_at ?g cs i j) s = Some ((True, pos_at ?g cs i (Suc j)), s)"
        using st False slot_off_wrap [of j] W sd part n0
        by (simp add: dir_next_def Let_def pos_at_def slot_lba_def slot_div algebra_simps)
      ultimately show ?thesis
        using assms(1) by (intro that [of "pos_at ?g cs i (Suc j)" s]) (simp_all add: pos_at_def)
    next
      case full: True
      note sd = Suc_div_full [OF n full]
      have b: "?b div ?n < length cs" using assms(3) cnt by simp
      then have "fat_index ?g (cs ! (?b div ?n))" using ch(3) by (simp add: valid_fat_index)
      then obtain t where t: "fat_get (cs ! (?b div ?n)) s = (fatv s (cs ! (?b div ?n)), t)"
          "same_vol s t" "good_vol t" "same_view s t"
        using fat_getE [OF assms(1)] by blast
      have gt: "geo t = ?g" by (rule same_vol_geo [OF t(2)])
      show ?thesis
      proof (cases "Suc (?b div ?n) < length cs")
        case more: True
        note N = chain_next [OF ch(1) more]
        have "Suc j < slot_count ?g cs" using cnt [of "Suc j"] st sd more by simp
        moreover have "dir_next (pos_at ?g cs i j) s = Some ((True, pos_at ?g cs i (Suc j)), t)"
          using st False slot_off_wrap [of j] W sd full n0 t(1) N gt
          by (simp add: dir_next_def Let_def pos_at_def slot_lba_def slot_div algebra_simps not_le not_less)
        ultimately show ?thesis
          using t by (intro that [of "pos_at ?g cs i (Suc j)" t]) (simp_all add: pos_at_def)
      next
        case last: False
        then have "?b div ?n = length cs - 1" using b by linarith
        then have l: "cs ! (?b div ?n) = last cs" using ch(2) by (simp add: last_conv_nth)
        have ne: "\<not> Suc j < slot_count ?g cs" using cnt [of "Suc j"] st sd last by simp
        have stop: "(FAT32_EOC \<le> fatv s (cs ! (?b div ?n)) \<or> fatv s (cs ! (?b div ?n)) < 2) = True"
          using chain_end [OF ch(1,2)] unfolding l by blast
        let ?p = "(pos_at ?g cs i j)\<lparr>dp_entry_idx := i + of_nat j + 1, dp_off := 0,
            dp_lba := slot_lba ?g cs j + 1\<rparr>"
        have "dir_next (pos_at ?g cs i j) s = Some ((False, ?p), t)"
          using False slot_off_wrap [of j] W full n0 t(1) stop
          by (simp add: dir_next_def Let_def pos_at_def slot_lba_def slot_div algebra_simps)
        then show ?thesis
          using t ne l by (intro that [of ?p t]) (simp_all add: pos_at_def slot_div)
      qed
    qed
  qed
qed

section \<open>Scans as functions of the listing\<close>

text \<open>\<open>s\<close> and \<open>t\<close> are the same volume up to the contents of the cache.\<close>

definition reads_only :: "vol \<Rightarrow> vol \<Rightarrow> bool" where
  "reads_only s t \<longleftrightarrow> same_vol s t \<and> good_vol t \<and> same_view s t"

lemma reads_only_refl: "good_vol s \<Longrightarrow> reads_only s s"
  by (simp add: reads_only_def)

lemma reads_only_trans [trans]: "reads_only s t \<Longrightarrow> reads_only t u \<Longrightarrow> reads_only s u"
  unfolding reads_only_def by (metis same_vol_trans same_view_trans)

lemma reads_only_geo: "reads_only s t \<Longrightarrow> geo t = geo s"
  by (simp add: reads_only_def same_vol_geo)

lemma dir_listing_cong:
  assumes "reads_only s t" "good_vol s" "dir_chain s c cs"
  shows "dir_listing t cs i = dir_listing s cs i" "dir_slots t cs = dir_slots s cs" "dir_chain t c cs"
proof -
  note V = dir_chain_view [of s t, OF _ _ assms(2,3)]
  have r: "same_view s t" "same_vol s t" using assms(1) by (simp_all add: reads_only_def)
  show "dir_chain t c cs" by (rule V(1) [OF r])
  show "dir_listing t cs i = dir_listing s cs i"
    using V(3) [OF r] reads_only_geo [OF assms(1)] by (simp add: dir_listing_def)
  show "dir_slots t cs = dir_slots s cs"
    using V(3) [OF r] reads_only_geo [OF assms(1)] by (simp add: dir_slots_def)
qed

lemma length_dir_listing [simp]: "length (dir_listing s cs i) = slot_count (geo s) cs"
  by (simp add: dir_listing_def)

lemma drop_dir_listing:
  "j < slot_count (geo s) cs \<Longrightarrow>
   drop j (dir_listing s cs i) = (slot s cs j, pos_at (geo s) cs i j) # drop (Suc j) (dir_listing s cs i)"
  by (subst Cons_nth_drop_Suc [symmetric]) (simp_all add: dir_listing_def)

text \<open>One read and one advance: the common step of every scan.\<close>

lemma scan_step:
  assumes "good_vol s" "dir_chain s c cs" "j < slot_count (geo s) cs"
  obtains s1 s2 p where
    "dir_read_entry (pos_at (geo s) cs i j) s = (Some (slot s cs j), s1)"
    "dir_next (pos_at (geo s) cs i j) s1 = Some ((Suc j < slot_count (geo s) cs, p), s2)"
    "Suc j < slot_count (geo s) cs \<Longrightarrow> p = pos_at (geo s) cs i (Suc j)"
    "\<not> Suc j < slot_count (geo s) cs \<Longrightarrow> dp_cluster p = last cs"
    "reads_only s s1" "reads_only s s2"
proof -
  obtain s1 where s1: "dir_read_entry (pos_at (geo s) cs i j) s = (Some (slot s cs j), s1)"
    "same_vol s s1" "good_vol s1" "same_view s s1"
    by (rule dir_read_at [OF assms])
  have r1: "reads_only s s1" using s1 by (simp add: reads_only_def)
  have g1: "geo s1 = geo s" by (rule reads_only_geo [OF r1])
  note ch1 = dir_listing_cong(3) [OF r1 assms(1,2)]
  obtain s2 p where s2: "dir_next (pos_at (geo s1) cs i j) s1 = Some ((Suc j < slot_count (geo s1) cs, p), s2)"
    "Suc j < slot_count (geo s1) cs \<Longrightarrow> p = pos_at (geo s1) cs i (Suc j)"
    "dp_cluster p = (if Suc j < slot_count (geo s1) cs then cs ! (Suc j div clus_slots (geo s1)) else last cs)"
    "same_vol s1 s2" "good_vol s2" "same_view s1 s2"
    using dir_next_at [OF s1(3) ch1, of j] assms(3) g1 by metis
  have r2: "reads_only s1 s2" using s2 by (simp add: reads_only_def)
  show ?thesis using that [of s1 p s2] s1(1) s2(1-3) r1 reads_only_trans [OF r1 r2] unfolding g1 by simp
qed

fun find_in :: "bytes \<Rightarrow> find_state \<Rightarrow> (bytes \<times> dir_pos_t) list \<Rightarrow> (bytes \<times> dir_pos_t \<times> dir_pos_t) option" where
  "find_in name f [] = None"
| "find_in name f ((e, pos) # xs) =
     (if e_first e = 0 then None
      else if e_first e \<noteq> 0xE5 \<and> e_attr e \<noteq> ATTR_LFN \<and> find_match name e f
      then Some (e, pos, if fs_building f then fs_start f else pos)
      else find_in name (find_step e pos f) xs)"

lemma dir_find_from_at:
  assumes "good_vol s" "dir_chain s c cs" "j < slot_count (geo s) cs"
  shows "\<exists>t. dir_find_from name (pos_at (geo s) cs i j) f s
      = Some (find_in name f (drop j (dir_listing s cs i)), t) \<and> reads_only s t"
  using assms
proof (induction "slot_count (geo s) cs - j" arbitrary: j f s)
  case (Suc m)
  obtain s1 s2 p where S: "dir_read_entry (pos_at (geo s) cs i j) s = (Some (slot s cs j), s1)"
    "dir_next (pos_at (geo s) cs i j) s1 = Some ((Suc j < slot_count (geo s) cs, p), s2)"
    "Suc j < slot_count (geo s) cs \<Longrightarrow> p = pos_at (geo s) cs i (Suc j)"
    "reads_only s s1" "reads_only s s2"
    by (rule scan_step [OF Suc.prems]) blast
  have gv2: "good_vol s2" using S(5) by (simp add: reads_only_def)
  note g2 = reads_only_geo [OF S(5)] and L2 = dir_listing_cong [OF S(5) Suc.prems(1,2)]
  note D = drop_dir_listing [OF Suc.prems(3), of i]
  show ?case
  proof (cases "e_first (slot s cs j) = 0 \<or>
      e_first (slot s cs j) \<noteq> 0xE5 \<and> e_attr (slot s cs j) \<noteq> ATTR_LFN \<and> find_match name (slot s cs j) f")
    case True
    then show ?thesis using S D by (subst dir_find_from.simps) auto
  next
    case go: False
    show ?thesis
    proof (cases "Suc j < slot_count (geo s) cs")
      case True
      have "m = slot_count (geo s2) cs - Suc j" using Suc.hyps(2) g2 by simp
      with Suc.hyps(1) [OF this gv2 L2(3)] True
      obtain t where t: "dir_find_from name (pos_at (geo s) cs i (Suc j)) (find_step (slot s cs j) (pos_at (geo s) cs i j) f) s2
          = Some (find_in name (find_step (slot s cs j) (pos_at (geo s) cs i j) f) (drop (Suc j) (dir_listing s cs i)), t)"
        "reads_only s2 t" unfolding g2 L2(1) by blast
      have "dir_find_from name (pos_at (geo s) cs i j) f s
          = Some (find_in name f (drop j (dir_listing s cs i)), t)"
        using S(1,2) S(3) [OF True] go True t(1) unfolding D by (subst dir_find_from.simps) auto
      then show ?thesis using reads_only_trans [OF S(5) t(2)] by blast
    next
      case False
      then have "drop (Suc j) (dir_listing s cs i) = []" by simp
      then show ?thesis using S go False unfolding D by (subst dir_find_from.simps) auto
    qed
  qed
qed simp

lemma slot_count_pos: "good_vol s \<Longrightarrow> dir_chain s c cs \<Longrightarrow> 0 < slot_count (geo s) cs"
  using good_volD(3) [of s] by (simp add: slot_count_def clus_slots_def geo_ok_def dir_chain_def)

lemma dir_pos_init_chain:
  assumes "good_vol s" "dir_chain s c cs"
  shows "dir_pos_init (geo s) c = pos_at (geo s) cs 0 0"
proof -
  have "c = hd cs" using assms(2) by (cases cs) (auto simp: dir_chain_def)
  then show ?thesis using dir_pos_init_at good_volD(3) [OF assms(1)] assms(2) by (simp add: dir_chain_def)
qed

lemma dir_find_listing:
  assumes "good_vol s" "dir_chain s c cs"
  shows "\<exists>t. dir_find c name s = Some (find_in name (find_init (pos_at (geo s) cs 0 0)) (dir_listing s cs 0), t)
    \<and> reads_only s t"
  using dir_find_from_at [OF assms slot_count_pos [OF assms], of name 0 "find_init (pos_at (geo s) cs 0 0)"]
  by (simp add: dir_find_def Let_def dir_pos_init_chain [OF assms])

text \<open>The collision check.\<close>

fun exists_83 :: "bytes \<Rightarrow> bytes list \<Rightarrow> bool" where
  "exists_83 name83 [] = False"
| "exists_83 name83 (e # es) =
     (if e_first e = 0 then False
      else if e_first e \<noteq> 0xE5 \<and> e_attr e \<noteq> ATTR_LFN \<and> take 11 e = name83 then True
      else exists_83 name83 es)"

lemma drop_dir_slots:
  "j < slot_count (geo s) cs \<Longrightarrow> drop j (dir_slots s cs) = slot s cs j # drop (Suc j) (dir_slots s cs)"
  by (subst Cons_nth_drop_Suc [symmetric]) (simp_all add: dir_slots_def)

lemma dir_83_scan_at:
  assumes "good_vol s" "dir_chain s c cs" "j < slot_count (geo s) cs"
  shows "\<exists>t. dir_83_scan name83 (pos_at (geo s) cs i j) s
      = Some (exists_83 name83 (drop j (dir_slots s cs)), t) \<and> reads_only s t"
  using assms
proof (induction "slot_count (geo s) cs - j" arbitrary: j s)
  case (Suc m)
  obtain s1 s2 p where S: "dir_read_entry (pos_at (geo s) cs i j) s = (Some (slot s cs j), s1)"
    "dir_next (pos_at (geo s) cs i j) s1 = Some ((Suc j < slot_count (geo s) cs, p), s2)"
    "Suc j < slot_count (geo s) cs \<Longrightarrow> p = pos_at (geo s) cs i (Suc j)"
    "reads_only s s1" "reads_only s s2"
    by (rule scan_step [OF Suc.prems]) blast
  have gv2: "good_vol s2" using S(5) by (simp add: reads_only_def)
  note g2 = reads_only_geo [OF S(5)] and L2 = dir_listing_cong [OF S(5) Suc.prems(1,2)]
  note D = drop_dir_slots [OF Suc.prems(3)]
  show ?case
  proof (cases "e_first (slot s cs j) = 0 \<or>
      e_first (slot s cs j) \<noteq> 0xE5 \<and> e_attr (slot s cs j) \<noteq> ATTR_LFN \<and> take 11 (slot s cs j) = name83")
    case True
    then show ?thesis using S D by (subst dir_83_scan.simps) auto
  next
    case go: False
    show ?thesis
    proof (cases "Suc j < slot_count (geo s) cs")
      case True
      have "m = slot_count (geo s2) cs - Suc j" using Suc.hyps(2) g2 by simp
      with Suc.hyps(1) [OF this gv2 L2(3)] True
      obtain t where t: "dir_83_scan name83 (pos_at (geo s) cs i (Suc j)) s2
          = Some (exists_83 name83 (drop (Suc j) (dir_slots s cs)), t)"
        "reads_only s2 t" unfolding g2 L2(2) by blast
      have "dir_83_scan name83 (pos_at (geo s) cs i j) s = Some (exists_83 name83 (drop j (dir_slots s cs)), t)"
        using S(1,2) S(3) [OF True] go True t(1) unfolding D by (subst dir_83_scan.simps) auto
      then show ?thesis using reads_only_trans [OF S(5) t(2)] by blast
    next
      case False
      then have "drop (Suc j) (dir_slots s cs) = []" by (simp add: dir_slots_def)
      then show ?thesis using S go False unfolding D by (subst dir_83_scan.simps) auto
    qed
  qed
qed simp

lemma dir_83_exists_listing:
  assumes "good_vol s" "dir_chain s c cs"
  shows "\<exists>t. dir_83_exists c name83 s = Some (exists_83 name83 (dir_slots s cs), t) \<and> reads_only s t"
  using dir_83_scan_at [OF assms slot_count_pos [OF assms], of name83 0]
  by (simp add: dir_83_exists_def dir_pos_init_chain [OF assms])

text \<open>The short name \<open>make_83_unique\<close> settles on, for the slots of the directory.\<close>

definition unique_83 :: "bytes \<Rightarrow> bytes list \<Rightarrow> bytes" where
  "unique_83 name es =
     (let out = make_83 name;
          free = filter (\<lambda>out. \<not> exists_83 out es) (map (make_83_tail name (drop 8 out)) [1..<10000])
      in if \<not> exists_83 out es then out else if free = [] then out else hd free)"

lemma unique_tail_listing:
  assumes "good_vol s" "dir_chain s c cs"
  shows "\<exists>t. unique_tail ns c name ext s =
      Some (let free = filter (\<lambda>out. \<not> exists_83 out (dir_slots s cs)) (map (make_83_tail name ext) ns)
            in if free = [] then make_83 name else hd free, t) \<and> reads_only s t"
  using assms
proof (induction ns arbitrary: s)
  case Nil
  then show ?case by (auto intro: reads_only_refl)
next
  case (Cons n ns)
  let ?out = "make_83_tail name ext n"
  obtain s1 where s1: "dir_83_exists c ?out s = Some (exists_83 ?out (dir_slots s cs), s1)" "reads_only s s1"
    using dir_83_exists_listing [OF Cons.prems] by blast
  show ?case
  proof (cases "exists_83 ?out (dir_slots s cs)")
    case True
    note L = dir_listing_cong [OF s1(2) Cons.prems]
    have "good_vol s1" using s1(2) by (simp add: reads_only_def)
    from Cons.IH [OF this L(3)] obtain t where
      t: "unique_tail ns c name ext s1 =
        Some (let free = filter (\<lambda>out. \<not> exists_83 out (dir_slots s cs)) (map (make_83_tail name ext) ns)
              in if free = [] then make_83 name else hd free, t)" "reads_only s1 t"
      unfolding L(2) by blast
    then show ?thesis using s1 True reads_only_trans [OF s1(2) t(2)] by (simp add: Let_def)
  next
    case False
    then show ?thesis using s1 by (simp add: Let_def)
  qed
qed

lemma make_83_unique_listing:
  assumes "good_vol s" "dir_chain s c cs"
  shows "\<exists>t. make_83_unique c name s = Some (unique_83 name (dir_slots s cs), t) \<and> reads_only s t"
proof -
  obtain s1 where s1: "dir_83_exists c (make_83 name) s = Some (exists_83 (make_83 name) (dir_slots s cs), s1)"
      "reads_only s s1"
    using dir_83_exists_listing [OF assms] by blast
  note L = dir_listing_cong [OF s1(2) assms]
  have gv: "good_vol s1" using s1(2) by (simp add: reads_only_def)
  obtain t where t: "unique_tail [1..<10000] c name (drop 8 (make_83 name)) s1 =
      Some (let free = filter (\<lambda>out. \<not> exists_83 out (dir_slots s cs))
                  (map (make_83_tail name (drop 8 (make_83 name))) [1..<10000])
            in if free = [] then make_83 name else hd free, t)" "reads_only s1 t"
    using unique_tail_listing [OF gv L(3), of "[1..<10000]" name "drop 8 (make_83 name)"] unfolding L(2) by blast
  show ?thesis
  proof (cases "exists_83 (make_83 name) (dir_slots s cs)")
    case True
    then have "make_83_unique c name s = Some (unique_83 name (dir_slots s cs), t)"
      using s1(1) t(1) by (simp add: make_83_unique_def unique_83_def Let_def del: upt_Suc upt_rec_numeral)
    then show ?thesis using reads_only_trans [OF s1(2) t(2)] by blast
  next
    case False
    then have "make_83_unique c name s = Some (unique_83 name (dir_slots s cs), s1)"
      using s1(1) by (simp add: make_83_unique_def unique_83_def Let_def del: upt_Suc upt_rec_numeral)
    then show ?thesis using s1(2) by blast
  qed
qed

section \<open>Writing slots\<close>

definition dir_sectors :: "geometry \<Rightarrow> u32 list \<Rightarrow> u32 set" where
  "dir_sectors g cs = (\<Union>c \<in> set cs. cluster_sectors g c)"

text \<open>Only sectors in \<open>A\<close> of the data area have changed.\<close>

definition writes_in :: "u32 set \<Rightarrow> vol \<Rightarrow> vol \<Rightarrow> bool" where
  "writes_in A s t \<longleftrightarrow> same_vol s t \<and> good_vol t \<and>
     (\<forall>k. fat_index (geo s) k \<longrightarrow> fatv t k = fatv s k) \<and>
     (\<forall>a. a \<noteq> NO_LBA \<longrightarrow> a \<notin> A \<longrightarrow> sec_view t a = sec_view s a)"

lemma writes_in_trans [trans]:
  assumes "writes_in A s t" "writes_in A t u"
  shows "writes_in A s u"
proof -
  have "geo t = geo s" using assms(1) by (simp add: writes_in_def same_vol_geo)
  moreover have "same_vol s u"
    using assms same_vol_trans [of s t u] by (simp add: writes_in_def)
  ultimately show ?thesis using assms by (simp add: writes_in_def)
qed

lemma reads_writes_in:
  assumes "reads_only s t" "good_vol s"
  shows "writes_in A s t"
  using assms same_view_fatv [of s t, OF _ _ good_volD(3) [OF assms(2)]]
  by (simp add: writes_in_def reads_only_def same_view_def)

lemma writes_in_geo: "writes_in A s t \<Longrightarrow> geo t = geo s"
  by (simp add: writes_in_def same_vol_geo)

lemma writes_in_chain: "writes_in A s t \<Longrightarrow> dir_chain s c cs \<Longrightarrow> dir_chain t c cs"
  unfolding dir_chain_def using writes_in_geo [of A s t]
  by (subst chain_cong [of cs "fatv t" "fatv s"]) (auto simp: writes_in_def valid_fat_index)

lemma dir_slots_nth: "k < slot_count (geo s) cs \<Longrightarrow> dir_slots s cs ! k = slot s cs k"
  by (simp add: dir_slots_def)

lemma length_dir_slots [simp]: "length (dir_slots s cs) = slot_count (geo s) cs"
  by (simp add: dir_slots_def)

lemma sectors_writes_in:
  assumes "good_vol s" "same_vol s t" "good_vol t" "lba \<in> A" "vol_data_lba (geo s) \<le> lba"
    and "\<And>a. a \<noteq> NO_LBA \<Longrightarrow> a \<noteq> lba \<Longrightarrow> sec_view t a = sec_view s a"
  shows "writes_in A s t"
proof -
  note G = good_volD(3) [OF assms(1)]
  have "fatv t k = fatv s k" if k: "fat_index (geo s) k" for k
  proof -
    note C = copy_lba_unat(3) [OF G k num_fats_pos [OF G]]
    have "copy_lba (geo s) 0 k \<noteq> lba" using C assms(5) by (auto simp: word_le_nat_alt)
    then have "sec_view t (copy_lba (geo s) 0 k) = sec_view s (copy_lba (geo s) 0 k)"
      using assms(6) copy_lba_not_no [OF G k num_fats_pos [OF G]] by simp
    then show ?thesis by (simp add: fatv_def fat_copy_def same_vol_geo [OF assms(2)])
  qed
  then show ?thesis using assms(2,3,4,6) by (auto simp: writes_in_def)
qed

lemma dir_write_at:
  assumes "good_vol s" "dir_chain s c cs" "j < slot_count (geo s) cs" "length e = 32"
  obtains t where "dir_write_entry (pos_at (geo s) cs i j) e s = (True, t)"
    "writes_in (dir_sectors (geo s) cs) s t" "dir_slots t cs = (dir_slots s cs)[j := e]"
proof -
  note G = good_volD [OF assms(1)]
  let ?lba = "slot_lba (geo s) cs j"
  have vc: "\<forall>k \<in> set cs. valid_cluster (geo s) k" and ds: "distinct cs"
    using assms(2) chain_distinct by (auto simp: dir_chain_def)
  note L = slot_lba_data [OF G(3) assms(3) vc]
  obtain s1 where s1: "sec_read ?lba s = (True, s1)" "same_vol s s1" "cache_ok s1" "io_ok s1"
      "\<And>a. a \<noteq> NO_LBA \<Longrightarrow> sec_view s1 a = sec_view s a" "sec_cache s1 = sec_view s ?lba" "sec_cache_lba s1 = ?lba"
    using sec_readE [OF G(1,2) L(2)] by blast
  obtain ok t where t: "cache_patch (32 * (j mod 16)) e s1 = (ok, t)" by fastforce
  note P = cache_patch_view [OF t s1(4) L(2) [folded s1(7)]]
  have sv: "same_vol s t" using same_vol_trans [OF s1(2) P(3)] .
  have gt: "geo t = geo s" by (rule same_vol_geo [OF sv])
  have gvt: "good_vol t" using P(2) same_vol_io [OF sv G(1)] G(3) gt by (simp add: good_vol_def)
  have vt: "a \<noteq> NO_LBA \<Longrightarrow> sec_view t a = (if a = ?lba then blit (32 * (j mod 16)) e (sec_view s ?lba) else sec_view s a)" for a
    using P(5) s1(5,6,7) by simp
  have "?lba \<in> dir_sectors (geo s) cs"
    using slot_lba_in [OF G(3) assms(3)] nth_mem [OF slot_index(1) [OF G(3) assms(3)]]
    unfolding dir_sectors_def by (rule UN_I [rotated])
  then have w: "writes_in (dir_sectors (geo s) cs) s t"
    by (rule sectors_writes_in [OF assms(1) sv gvt _ L(1)]) (use vt in simp)
  have "slot t cs k = (if k = j then e else slot s cs k)" if k: "k < slot_count (geo s) cs" for k
  proof -
    note K = slot_lba_data [OF G(3) k vc]
    show ?thesis
    proof (cases "slot_lba (geo s) cs k = ?lba")
      case True
      show ?thesis
      proof (cases "k = j")
        case True
        then show ?thesis using vt L(2) assms(4) by (simp add: slot_def gt slice_blit_same)
      next
        case False
        then have "j mod 16 \<noteq> k mod 16"
          using slot_lba_inj [OF G(3) vc ds k assms(3) True] by simp
        then have "32 * (j mod 16) + length e \<le> 32 * (k mod 16) \<or> 32 * (k mod 16) + 32 \<le> 32 * (j mod 16)"
          using assms(4) by linarith
        then show ?thesis using vt L(2) True False by (simp add: slot_def gt slice_blit_other)
      qed
    qed (use vt K in \<open>auto simp: slot_def gt\<close>)
  qed
  then have "dir_slots t cs = (dir_slots s cs)[j := e]"
    by (intro nth_equalityI) (auto simp: dir_slots_nth gt nth_list_update)
  moreover have "dir_write_entry (pos_at (geo s) cs i j) e s = (True, t)"
    using s1(1) t P(1) by (simp add: dir_write_entry_def pos_at_def unat_slot_off)
  ultimately show ?thesis using that w by blast
qed

text \<open>\<open>es\<close> written over the slots from \<open>j\<close> on.\<close>

definition overwrite :: "nat \<Rightarrow> 'a list \<Rightarrow> 'a list \<Rightarrow> 'a list" where
  "overwrite j es xs = take j xs @ es @ drop (j + length es) xs"

lemma overwrite_Nil [simp]: "overwrite j [] xs = xs"
  by (simp add: overwrite_def)

lemma overwrite_Cons:
  "j < length xs \<Longrightarrow> overwrite j (e # es) xs = overwrite (Suc j) es (xs[j := e])"
  by (simp add: overwrite_def take_Suc_conv_app_nth upd_conv_take_nth_drop add.commute)

lemma write_slots_at:
  assumes "good_vol s" "dir_chain s c cs" "j + length es < slot_count (geo s) cs"
    and "\<forall>e \<in> set es. length e = 32"
  shows "\<exists>t. write_slots es (pos_at (geo s) cs i j) s = Some (pos_at (geo s) cs i (j + length es), t)
    \<and> writes_in (dir_sectors (geo s) cs) s t \<and> dir_slots t cs = overwrite j es (dir_slots s cs)"
  using assms
proof (induction es arbitrary: j s)
  case Nil
  then show ?case using reads_writes_in [OF reads_only_refl] by auto
next
  case (Cons e es)
  have j: "j < slot_count (geo s) cs" "Suc j < slot_count (geo s) cs" using Cons.prems(3) by simp_all
  have "length e = 32" using Cons.prems(4) by simp
  then obtain s1 where s1: "dir_write_entry (pos_at (geo s) cs i j) e s = (True, s1)"
    "writes_in (dir_sectors (geo s) cs) s s1" "dir_slots s1 cs = (dir_slots s cs)[j := e]"
    using dir_write_at [OF Cons.prems(1,2) j(1)] by blast
  have g1: "geo s1 = geo s" and gv1: "good_vol s1"
    using s1(2) writes_in_geo by (auto simp: writes_in_def)
  note c1 = writes_in_chain [OF s1(2) Cons.prems(2)]
  obtain s2 where s2: "dir_next (pos_at (geo s) cs i j) s1 = Some ((True, pos_at (geo s) cs i (Suc j)), s2)"
    "reads_only s1 s2"
    using dir_next_at [OF gv1 c1, of j] j unfolding g1 reads_only_def by metis
  have gv2: "good_vol s2" using s2(2) by (simp add: reads_only_def)
  note L2 = dir_listing_cong [OF s2(2) gv1 c1] and g2 = reads_only_geo [OF s2(2)]
  obtain t where t: "write_slots es (pos_at (geo s) cs i (Suc j)) s2 = Some (pos_at (geo s) cs i (Suc j + length es), t)"
    "writes_in (dir_sectors (geo s) cs) s2 t" "dir_slots t cs = overwrite (Suc j) es (dir_slots s2 cs)"
    using Cons.IH [OF gv2 L2(3), of "Suc j"] Cons.prems(3,4) unfolding g2 g1 by auto
  have "dir_slots t cs = overwrite j (e # es) (dir_slots s cs)"
    using t(3) L2(2) s1(3) j(1) by (simp add: overwrite_Cons)
  moreover have "writes_in (dir_sectors (geo s) cs) s t"
    using writes_in_trans [OF s1(2) writes_in_trans [OF reads_writes_in [OF s2(2) gv1] t(2)]] .
  ultimately show ?case using s1(1) s2(1) t(1) by simp
qed

section \<open>Frames\<close>

text \<open>\<open>t\<close> differs from \<open>s\<close> at most in the FAT entries and the sectors of the clusters \<open>K\<close>.\<close>

definition changes :: "u32 set \<Rightarrow> vol \<Rightarrow> vol \<Rightarrow> bool" where
  "changes K s t \<longleftrightarrow> good_vol t \<and> geo t = geo s \<and>
     (\<forall>k. fat_index (geo s) k \<longrightarrow> k \<notin> K \<longrightarrow> fatv t k = fatv s k) \<and>
     (\<forall>a. a \<noteq> NO_LBA \<longrightarrow> vol_data_lba (geo s) \<le> a \<longrightarrow>
        (\<forall>k \<in> K. valid_cluster (geo s) k \<longrightarrow> a \<notin> cluster_sectors (geo s) k) \<longrightarrow> sec_view t a = sec_view s a)"

lemma changes_mono: "changes K s t \<Longrightarrow> K \<subseteq> L \<Longrightarrow> changes L s t"
  unfolding changes_def by blast

lemma changes_trans: "changes K s t \<Longrightarrow> changes L t u \<Longrightarrow> changes (K \<union> L) s u"
  unfolding changes_def by (auto simp: ball_Un)

lemma changes_same [trans]: "changes K s t \<Longrightarrow> changes K t u \<Longrightarrow> changes K s u"
  using changes_trans [of K s t K u] by simp

lemma changesD: "changes K s t \<Longrightarrow> good_vol t" "changes K s t \<Longrightarrow> geo t = geo s"
  by (simp_all add: changes_def)

lemma reads_changes: "reads_only s t \<Longrightarrow> good_vol s \<Longrightarrow> changes K s t"
  using same_view_fatv [of s t, OF _ _ good_volD(3) [of s]]
  by (simp add: changes_def reads_only_def same_view_def same_vol_geo)

lemma writes_changes: "writes_in (dir_sectors (geo s) cs) s t \<Longrightarrow> \<forall>k \<in> set cs. valid_cluster (geo s) k \<Longrightarrow> changes (set cs) s t"
  by (auto simp: changes_def writes_in_def same_vol_geo dir_sectors_def)

lemma allocated_changes:
  assumes "allocated prev d s t" "same_vol s t" "good_vol t"
  shows "changes {prev, d} s t" "prev = 0 \<Longrightarrow> changes {d} s t"
  using assms by (auto simp: changes_def allocated_def same_vol_geo)

text \<open>Chains that avoid \<open>K\<close> keep their links and their contents.\<close>

lemma changes_sector:
  assumes "changes K s t" "good_vol s" "valid_cluster (geo s) c" "c \<notin> K" "a \<in> cluster_sectors (geo s) c"
  shows "sec_view t a = sec_view s a"
proof -
  note G = good_volD(3) [OF assms(2)]
  note C = cluster_sectors_range [OF G assms(3,5)]
  have "a \<notin> cluster_sectors (geo s) k" if "k \<in> K" "valid_cluster (geo s) k" for k
    using cluster_sectors_disjoint [OF G assms(3) that(2)] assms(4,5) that(1) by auto
  then show ?thesis using assms(1) C(1,2) by (simp add: changes_def)
qed

lemma changes_dir:
  assumes "changes K s t" "good_vol s" "dir_chain s c cs" "set cs \<inter> K = {}"
  shows "dir_chain t c cs" "dir_slots t cs = dir_slots s cs" "dir_listing t cs i = dir_listing s cs i"
    "k \<in> set cs \<Longrightarrow> fatv t k = fatv s k"
proof -
  note G = good_volD(3) [OF assms(2)] and g = changesD(2) [OF assms(1)]
  have v: "\<forall>k \<in> set cs. valid_cluster (geo s) k" using assms(3) by (simp add: dir_chain_def)
  show f: "fatv t k = fatv s k" if "k \<in> set cs" for k
  proof -
    have "fat_index (geo s) k" "k \<notin> K" using v assms(4) that valid_fat_index by auto
    then show ?thesis using assms(1) by (simp add: changes_def)
  qed
  show "dir_chain t c cs" using assms(3) f unfolding dir_chain_def g by (subst chain_cong [of cs "fatv t" "fatv s"]) auto
  have sl: "slot t cs j = slot s cs j" if j: "j < slot_count (geo s) cs" for j
  proof -
    have "cs ! (j div clus_slots (geo s)) \<in> set cs" using slot_index(1) [OF G j] by simp
    then have "sec_view t (slot_lba (geo s) cs j) = sec_view s (slot_lba (geo s) cs j)"
      using assms(4) v by (intro changes_sector [OF assms(1,2) _ _ slot_lba_in [OF G j]]) auto
    then show ?thesis by (simp add: slot_def g)
  qed
  then show "dir_slots t cs = dir_slots s cs" "dir_listing t cs i = dir_listing s cs i"
    by (simp_all add: dir_slots_def dir_listing_def g)
qed

end
