(* ===== verification/Fat_Dir_Add.thy ===== *)
theory Fat_Dir_Add
  imports Fat_Dir_Spec
begin

text \<open>
  \<open>dir_add_entry\<close>: where it puts the slots, that they are written into free space only, and that
  a lookup of the name then finds the new entry. The properties of directories close the theory.
\<close>

section \<open>Free runs\<close>

definition slot_free :: "bytes \<Rightarrow> bool" where
  "slot_free e \<longleftrightarrow> e_first e = 0 \<or> e_first e = 0xE5"

text \<open>After the end marker there are only end markers.\<close>

fun end_ok :: "bytes list \<Rightarrow> bool" where
  "end_ok [] \<longleftrightarrow> True"
| "end_ok (e # es) \<longleftrightarrow> (e_first e = 0 \<longrightarrow> list_all (\<lambda>x. e_first x = 0) es) \<and> end_ok es"

lemma end_ok_append: "end_ok (xs @ ys) \<longleftrightarrow>
    end_ok xs \<and> end_ok ys \<and> (list_ex (\<lambda>x. e_first x = 0) xs \<longrightarrow> list_all (\<lambda>x. e_first x = 0) ys)"
  by (induction xs) auto

text \<open>The search of \<open>dir_add_entry\<close> over a listing: a start, or the length and start of the final run.\<close>

fun find_run :: "nat \<Rightarrow> nat \<Rightarrow> 'p \<Rightarrow> (bytes \<times> 'p) list \<Rightarrow> 'p + nat \<times> 'p" where
  "find_run need k st [] = Inr (k, st)"
| "find_run need k st ((e, pos) # xs) =
     (let st1 = (if slot_free e \<and> k = 0 then pos else st);
          k1 = (if slot_free e then k + 1 else 0)
      in if slot_free e \<and> need \<le> k1 then Inl st1 else find_run need k1 st1 xs)"

lemma find_run_free:
  "list_all (\<lambda>x. slot_free (fst x)) xs \<Longrightarrow> 0 < k \<Longrightarrow> k < need \<Longrightarrow>
   find_run need k st xs = (if need - k \<le> length xs then Inl st else Inr (k + length xs, st))"
proof (induction xs arbitrary: k)
  case (Cons x xs)
  obtain e p where x: "x = (e, p)" by fastforce
  show ?case
  proof (cases "need \<le> Suc k")
    case False
    then have "find_run need (Suc k) st xs
        = (if need - Suc k \<le> length xs then Inl st else Inr (Suc k + length xs, st))"
      using Cons by simp
    with Cons.prems x False show ?thesis by auto
  qed (use Cons.prems x in auto)
qed simp

lemma zero_free: "list_all (\<lambda>x. e_first x = 0) (map fst xs) \<Longrightarrow> list_all (\<lambda>x. slot_free (fst x)) xs"
  by (induction xs) (auto simp: slot_free_def)

text \<open>A start that is found begins a run of \<open>need\<close> free slots with no end marker before it.\<close>

definition run_at :: "nat \<Rightarrow> nat \<Rightarrow> (bytes \<times> 'p) list \<Rightarrow> bool" where
  "run_at r m xs \<longleftrightarrow> list_all (\<lambda>x. slot_free (fst x)) (take m (drop r xs)) \<and>
     list_all (\<lambda>x. e_first (fst x) \<noteq> 0) (take r xs)"

lemma find_run_Inl:
  assumes "find_run need k st xs = Inl p" "k < need" "end_ok (map fst xs)"
  shows "(0 < k \<and> p = st \<and> need - k \<le> length xs \<and> list_all (\<lambda>x. slot_free (fst x)) (take (need - k) xs)) \<or>
    (\<exists>r. r + need \<le> length xs \<and> p = snd (xs ! r) \<and> run_at r need xs)"
  using assms
proof (induction xs arbitrary: k st)
  case (Cons x xs)
  obtain e pos where x: "x = (e, pos)" by fastforce
  have step: "\<exists>r. r + need \<le> length (x # xs) \<and> p = snd ((x # xs) ! r) \<and> run_at r need (x # xs)"
    if "\<exists>r. r + need \<le> length xs \<and> p = snd (xs ! r) \<and> run_at r need xs" "e_first e \<noteq> 0"
  proof -
    from that(1) obtain r where "r + need \<le> length xs \<and> p = snd (xs ! r) \<and> run_at r need xs" by blast
    with that(2) x show ?thesis by (intro exI [of _ "Suc r"]) (simp add: run_at_def)
  qed
  show ?case
  proof (cases "slot_free e")
    case False
    then have ne: "e_first e \<noteq> 0" and f: "find_run need 0 st xs = Inl p"
      using Cons.prems(1) x by (auto simp: slot_free_def)
    have "0 < need" "end_ok (map fst xs)" using Cons.prems(2,3) x by simp_all
    from Cons.IH [OF f this] have A: "\<exists>r. r + need \<le> length xs \<and> p = snd (xs ! r) \<and> run_at r need xs"
      by simp
    show ?thesis by (intro disjI2 step [OF A ne])
  next
    case free: True
    define st1 where "st1 = (if k = 0 then pos else st)"
    show ?thesis
    proof (cases "need \<le> Suc k")
      case True
      then have n: "need = Suc k" "p = st1" using Cons.prems(1,2) x free by (auto simp: st1_def)
      show ?thesis
      proof (cases "k = 0")
        case True
        then show ?thesis using n x free
          by (intro disjI2 exI [of _ 0]) (simp add: run_at_def st1_def)
      qed (use n x free in \<open>simp add: st1_def\<close>)
    next
      case more: False
      then have f: "find_run need (Suc k) st1 xs = Inl p"
        using Cons.prems(1) x free by (auto simp: st1_def Let_def split: if_splits)
      have "p = st1 \<and> need - Suc k \<le> length xs \<and> list_all (\<lambda>x. slot_free (fst x)) (take (need - Suc k) xs)
          \<or> e_first e \<noteq> 0 \<and> (\<exists>r. r + need \<le> length xs \<and> p = snd (xs ! r) \<and> run_at r need xs)"
      proof (cases "e_first e = 0")
        case True
        then have z: "list_all (\<lambda>x. slot_free (fst x)) xs" using Cons.prems(3) x by (auto intro: zero_free)
        with find_run_free [OF z, of "Suc k" need st1] f more
        have "p = st1" "need - Suc k \<le> length xs" by (auto split: if_splits)
        with z show ?thesis by (auto simp: list_all_iff dest: in_set_takeD)
      next
        case False
        then show ?thesis using Cons.IH [OF f] more Cons.prems(3) x by auto
      qed
      then show ?thesis
      proof
        assume h: "p = st1 \<and> need - Suc k \<le> length xs \<and> list_all (\<lambda>x. slot_free (fst x)) (take (need - Suc k) xs)"
        have t: "take (need - k) (x # xs) = x # take (need - Suc k) xs"
          using more by (simp add: take_Cons' Suc_diff_Suc)
        show ?thesis
        proof (cases "k = 0")
          case True
          with h x free t more show ?thesis
            by (intro disjI2 exI [of _ 0]) (auto simp: run_at_def st1_def)
        qed (use h x free t more in \<open>auto simp: st1_def\<close>)
      qed (use step in blast)
    qed
  qed
qed simp

lemma find_run_Inr:
  assumes "find_run need k st xs = Inr (k', st')" "k < need" "end_ok (map fst xs)"
  shows "k' < need \<and>
    (0 < k \<and> k' = k + length xs \<and> st' = st \<and> list_all (\<lambda>x. slot_free (fst x)) xs \<or>
     (\<exists>r. r \<le> length xs \<and> k' = length xs - r \<and> (0 < k' \<longrightarrow> st' = snd (xs ! r)) \<and> run_at r k' xs))"
  using assms
proof (induction xs arbitrary: k st)
  case Nil
  then show ?case by (cases "k = 0") (auto simp: run_at_def)
next
  case (Cons x xs)
  obtain e pos where x: "x = (e, pos)" by fastforce
  have step: "\<exists>r. r \<le> length (x # xs) \<and> k' = length (x # xs) - r \<and> (0 < k' \<longrightarrow> st' = snd ((x # xs) ! r)) \<and>
      run_at r k' (x # xs)"
    if "\<exists>r. r \<le> length xs \<and> k' = length xs - r \<and> (0 < k' \<longrightarrow> st' = snd (xs ! r)) \<and> run_at r k' xs"
      "e_first e \<noteq> 0"
  proof -
    from that(1) show ?thesis
    proof (elim exE conjE)
      fix r assume r: "r \<le> length xs" "k' = length xs - r" "0 < k' \<longrightarrow> st' = snd (xs ! r)" "run_at r k' xs"
      have "run_at (Suc r) k' (x # xs)" using r(4) that(2) by (simp add: run_at_def x)
      moreover have "Suc r \<le> length (x # xs)" "k' = length (x # xs) - Suc r" using r(1,2) by simp_all
      moreover have "0 < k' \<longrightarrow> st' = snd ((x # xs) ! Suc r)" using r(3) by simp
      ultimately show ?thesis by (intro exI [of _ "Suc r"] conjI)
    qed
  qed
  show ?case
  proof (cases "slot_free e")
    case False
    then have ne: "e_first e \<noteq> 0" and f: "find_run need 0 st xs = Inr (k', st')"
      using Cons.prems(1) x by (auto simp: slot_free_def)
    have "0 < need" "end_ok (map fst xs)" using Cons.prems(2,3) x by simp_all
    from Cons.IH [OF f this] have A: "k' < need"
      "\<exists>r. r \<le> length xs \<and> k' = length xs - r \<and> (0 < k' \<longrightarrow> st' = snd (xs ! r)) \<and> run_at r k' xs"
      by simp_all
    show ?thesis by (intro conjI disjI2 A(1) step [OF A(2) ne])
  next
    case free: True
    define st1 where "st1 = (if k = 0 then pos else st)"
    have more: "Suc k < need" and f: "find_run need (Suc k) st1 xs = Inr (k', st')"
      using Cons.prems(1) x free by (auto simp: st1_def Let_def split: if_splits)
    have "k' < need \<and> (k' = Suc k + length xs \<and> st' = st1 \<and> list_all (\<lambda>x. slot_free (fst x)) xs
        \<or> e_first e \<noteq> 0 \<and> (\<exists>r. r \<le> length xs \<and> k' = length xs - r \<and> (0 < k' \<longrightarrow> st' = snd (xs ! r)) \<and> run_at r k' xs))"
    proof (cases "e_first e = 0")
      case True
      then have z: "list_all (\<lambda>x. slot_free (fst x)) xs" using Cons.prems(3) x by (auto intro: zero_free)
      with find_run_free [OF z, of "Suc k" need st1] f more show ?thesis by (auto split: if_splits)
    next
      case False
      then show ?thesis using Cons.IH [OF f more] Cons.prems(3) x by auto
    qed
    then show ?thesis
    proof (elim conjE disjE)
      assume h: "k' < need" "k' = Suc k + length xs" "st' = st1" "list_all (\<lambda>x. slot_free (fst x)) xs"
      show ?thesis
      proof (cases "k = 0")
        case True
        with h x free show ?thesis
          by (intro conjI disjI2 exI [of _ 0]) (auto simp: run_at_def st1_def)
      qed (use h x free in \<open>auto simp: st1_def\<close>)
    next
      assume h: "k' < need" "e_first e \<noteq> 0"
        "\<exists>r. r \<le> length xs \<and> k' = length xs - r \<and> (0 < k' \<longrightarrow> st' = snd (xs ! r)) \<and> run_at r k' xs"
      show ?thesis by (intro conjI disjI2 h(1) step [OF h(3,2)])
    qed
  qed
qed

text \<open>The search on the disk.\<close>

lemma find_space_at:
  assumes "good_vol s" "dir_chain s c cs" "j < slot_count (geo s) cs"
  shows "\<exists>u. reads_only s u \<and> find_space need k st (pos_at (geo s) cs i j) s =
    (case find_run need k st (drop j (dir_listing s cs i)) of
       Inl p \<Rightarrow> Some (Some p, u)
     | Inr (k', st') \<Rightarrow>
         (let (new_clus, t) = fat_alloc (last cs) u
          in if new_clus = 0 then Some (None, t)
             else Some (Some (if k' = 0 then dir_pos_init (geo t) new_clus else st'), t)))"
  using assms
proof (induction "slot_count (geo s) cs - j" arbitrary: j s k st)
  case (Suc m)
  obtain s1 s2 p where S: "dir_read_entry (pos_at (geo s) cs i j) s = (Some (slot s cs j), s1)"
    "dir_next (pos_at (geo s) cs i j) s1 = Some ((Suc j < slot_count (geo s) cs, p), s2)"
    "Suc j < slot_count (geo s) cs \<Longrightarrow> p = pos_at (geo s) cs i (Suc j)"
    "\<not> Suc j < slot_count (geo s) cs \<Longrightarrow> dp_cluster p = last cs"
    "reads_only s s1" "reads_only s s2"
    by (rule scan_step [OF Suc.prems]) blast
  have gv2: "good_vol s2" using S(6) by (simp add: reads_only_def)
  note g2 = reads_only_geo [OF S(6)] and L2 = dir_listing_cong [OF S(6) Suc.prems(1,2)]
  note D = drop_dir_listing [OF Suc.prems(3), of i]
  let ?e = "slot s cs j"
  let ?st1 = "if slot_free ?e \<and> k = 0 then pos_at (geo s) cs i j else st"
  let ?k1 = "if slot_free ?e then k + 1 else 0"
  show ?case
  proof (cases "slot_free ?e \<and> need \<le> ?k1")
    case True
    then have sf: "slot_free ?e" "need \<le> k + 1" by (simp_all split: if_splits)
    then have "find_run need k st (drop j (dir_listing s cs i)) = Inl ?st1"
      unfolding D by simp
    moreover have "find_space need k st (pos_at (geo s) cs i j) s = Some (Some ?st1, s1)"
      using sf(2) sf(1) [unfolded slot_free_def] S(1) by (subst find_space.simps) (auto simp: slot_free_def)
    ultimately show ?thesis using S(5) by auto
  next
    case go: False
    then have fr: "find_run need k st (drop j (dir_listing s cs i))
        = find_run need ?k1 ?st1 (drop (Suc j) (dir_listing s cs i))" unfolding D by (auto simp: Let_def)
    have "\<not> ((e_first ?e = 0 \<or> e_first ?e = 0xE5) \<and> need \<le> ?k1)" using go by (simp add: slot_free_def)
    then have fs: "find_space need k st (pos_at (geo s) cs i j) s =
        (if Suc j < slot_count (geo s) cs then find_space need ?k1 ?st1 p s2
         else let (new_clus, s3) = fat_alloc (dp_cluster p) s2
              in if new_clus = 0 then Some (None, s3)
                 else Some (Some (if ?k1 = 0 then dir_pos_init (geo s3) new_clus else ?st1), s3))"
      using S(1,2) by (subst find_space.simps) (auto simp add: Let_def slot_free_def)
    show ?thesis
    proof (cases "Suc j < slot_count (geo s) cs")
      case True
      have "m = slot_count (geo s2) cs - Suc j" using Suc.hyps(2) g2 by simp
      from Suc.hyps(1) [OF this gv2 L2(3), of ?k1 ?st1] True obtain u where u: "reads_only s2 u"
        "find_space need ?k1 ?st1 (pos_at (geo s) cs i (Suc j)) s2 =
          (case find_run need ?k1 ?st1 (drop (Suc j) (dir_listing s cs i)) of
             Inl p \<Rightarrow> Some (Some p, u)
           | Inr (k', st') \<Rightarrow>
               (let (new_clus, t) = fat_alloc (last cs) u
                in if new_clus = 0 then Some (None, t)
                   else Some (Some (if k' = 0 then dir_pos_init (geo t) new_clus else st'), t)))"
        unfolding g2 L2(1) by blast
      show ?thesis unfolding fr fs S(3) [OF True] if_P [OF True] u(2)
        using reads_only_trans [OF S(6) u(1)] by blast
    next
      case False
      then have "drop (Suc j) (dir_listing s cs i) = []" by simp
      then show ?thesis unfolding fr fs using S(4) [OF False] S(6) False by auto
    qed
  qed
qed simp

section \<open>Finding what was written\<close>

lemma find_in_prefix:
  assumes "find_in name f (xs @ ys) = None" "list_all (\<lambda>x. e_first (fst x) \<noteq> 0) xs"
  shows "\<exists>f'. \<forall>zs. find_in name f (xs @ zs) = find_in name f' zs"
  using assms
proof (induction xs arbitrary: f)
  case (Cons x xs)
  obtain e p where x: "x = (e, p)" by fastforce
  with Cons.prems have n: "e_first e \<noteq> 0"
      "\<not> (e_first e \<noteq> 0xE5 \<and> e_attr e \<noteq> ATTR_LFN \<and> find_match name e f)"
      "find_in name (find_step e p f) (xs @ ys) = None"
    by (auto split: if_splits)
  from Cons.IH [OF n(3)] Cons.prems(2) obtain f' where
    "\<forall>zs. find_in name (find_step e p f) (xs @ zs) = find_in name f' zs" by auto
  moreover have "find_in name f ((x # xs) @ zs) = find_in name (find_step e p f) (xs @ zs)" for zs
    unfolding append_Cons x find_in.simps(2) using n(1,2) by (simp only: if_False simp_thms)
  ultimately show ?case by auto
qed auto

text \<open>What a written LFN slot looks like to a scan.\<close>

lemma make_lfn_shape:
  "length (lfn_name1 (make_lfn name chk n i)) = 5" "length (lfn_name2 (make_lfn name chk n i)) = 6"
  "length (lfn_name3 (make_lfn name chk n i)) = 2"
  "lfn_order (make_lfn name chk n i) = of_nat i OR (if i = n then 0x40 else 0)"
  "lfn_attr (make_lfn name chk n i) = ATTR_LFN"
  by (simp_all add: make_lfn_def Let_def)

lemma pack_lfn_bytes:
  assumes "length (lfn_name1 l) = 5" "length (lfn_name2 l) = 6" "length (lfn_name3 l) = 2"
  shows "length (pack_lfn l) = 32" "e_first (pack_lfn l) = lfn_order l" "e_attr (pack_lfn l) = lfn_attr l"
proof -
  obtain a b c d e where 1: "lfn_name1 l = [a, b, c, d, e]" using length_5 [OF assms(1)] by blast
  obtain f g h i j k where 2: "lfn_name2 l = [f, g, h, i, j, k]" using length_6 [OF assms(2)] by blast
  obtain m n where 3: "lfn_name3 l = [m, n]" using length_2 [OF assms(3)] by blast
  show "length (pack_lfn l) = 32" "e_first (pack_lfn l) = lfn_order l" "e_attr (pack_lfn l) = lfn_attr l"
    using 1 2 3 by (simp_all add: pack_lfn_def le16_def)
qed

lemma lfn_order_byte:
  assumes "1 \<le> i" "i \<le> 20"
  shows "(of_nat i OR (if i = n then 0x40 else 0) :: u8) \<noteq> 0 \<and> (of_nat i OR (if i = n then 0x40 else 0) :: u8) \<noteq> 0xE5"
proof -
  let ?w = "of_nat i OR (if i = n then 0x40 else 0) :: u8"
  have "unat (?w AND 0x1F) = i" by (rule lfn_order_seq(1) [OF assms])
  moreover have "unat ((0xE5 :: u8) AND 0x1F) = 5" by simp
  moreover have "?w = 0xE5 \<Longrightarrow> ?w AND 0x40 \<noteq> 0" by simp
  then have "?w = 0xE5 \<Longrightarrow> i = n" using lfn_order_seq(2) [OF assms, of n] by blast
  moreover have "?w = 0xE5 \<Longrightarrow> i = 5" using calculation(1,2) by simp
  moreover have "(of_nat 5 OR 0x40 :: u8) \<noteq> 0xE5" by simp
  ultimately have "?w \<noteq> 0xE5" by (cases "i = n") auto
  moreover have "?w \<noteq> 0" using \<open>unat (?w AND 0x1F) = i\<close> assms(1) by (metis and_zero_eq unat_0 not_one_le_zero and.commute)
  ultimately show ?thesis by blast
qed

lemma lfn_slot:
  assumes "1 \<le> i" "i \<le> 20"
  shows "e_first (pack_lfn (make_lfn name chk n i)) \<noteq> 0" "e_first (pack_lfn (make_lfn name chk n i)) \<noteq> 0xE5"
    "e_attr (pack_lfn (make_lfn name chk n i)) = ATTR_LFN" "length (pack_lfn (make_lfn name chk n i)) = 32"
    "unpack_lfn (pack_lfn (make_lfn name chk n i)) = make_lfn name chk n i"
  using pack_lfn_bytes [OF make_lfn_shape(1-3)] unpack_pack_lfn [OF make_lfn_shape(1-3)]
    make_lfn_shape(4,5) lfn_order_byte [OF assms, of n] by metis+

lemma find_in_lfns:
  assumes "\<forall>i \<in> set is. 1 \<le> i \<and> i \<le> 20" "length ps = length is"
  shows "\<exists>f'. find_in name f (zip (map (\<lambda>i. pack_lfn (make_lfn nm chk n i)) is) ps @ zs) = find_in name f' zs \<and>
    (fs_buf f', fs_building f') = fold lfn_collect (map (make_lfn nm chk n) is) (fs_buf f, fs_building f) \<and>
    (n \<notin> set is \<longrightarrow> fs_parts f' = fs_parts f \<and> fs_start f' = fs_start f) \<and>
    (is \<noteq> [] \<and> hd is = n \<and> n \<notin> set (tl is) \<longrightarrow> fs_parts f' = n \<and> fs_start f' = hd ps)"
  using assms
proof (induction "is" arbitrary: f ps)
  case (Cons i "is")
  obtain p ps' where ps: "ps = p # ps'" "length ps' = length is" using Cons.prems(2) by (cases ps) auto
  have i: "1 \<le> i" "i \<le> 20" using Cons.prems(1) by auto
  note S = lfn_slot [OF i, of nm chk n]
  let ?l = "make_lfn nm chk n i"
  let ?g = "find_lfn (pack_lfn ?l) p f"
  have g: "(fs_buf ?g, fs_building ?g) = lfn_collect ?l (fs_buf f, fs_building f)"
    "fs_parts ?g = (if i = n then n else fs_parts f)" "fs_start ?g = (if i = n then p else fs_start f)"
    using lfn_order_seq [OF i, of n] S(5) make_lfn_shape(4) [of nm chk n i]
    by (auto simp: find_lfn_def Let_def split: prod.splits)
  have step: "find_in name f (zip (map (\<lambda>i. pack_lfn (make_lfn nm chk n i)) (i # is)) ps @ zs)
      = find_in name ?g (zip (map (\<lambda>i. pack_lfn (make_lfn nm chk n i)) is) ps' @ zs)"
    using S(1-3) unfolding ps by (simp add: find_step_def)
  obtain f' where "find_in name ?g (zip (map (\<lambda>i. pack_lfn (make_lfn nm chk n i)) is) ps' @ zs) = find_in name f' zs"
    "(fs_buf f', fs_building f') = fold lfn_collect (map (make_lfn nm chk n) is) (fs_buf ?g, fs_building ?g)"
    "n \<notin> set is \<longrightarrow> fs_parts f' = fs_parts ?g \<and> fs_start f' = fs_start ?g"
    using Cons.IH [of ps' ?g] Cons.prems(1) ps(2) by auto
  then show ?case unfolding step using g ps(1) by (intro exI [of _ f']) auto
qed auto

text \<open>The short entry of \<open>dir_add_entry\<close>.\<close>

lemma make_e83_fields:
  assumes "length n83 = 11"
  shows "length (pack_dir (make_e83 n83 attr clus fsz)) = 32"
    "take 11 (pack_dir (make_e83 n83 attr clus fsz)) = n83"
    "e_attr (pack_dir (make_e83 n83 attr clus fsz)) = attr"
    "unpack_dir (pack_dir (make_e83 n83 attr clus fsz)) = make_e83 n83 attr clus fsz"
    "entry_cluster (make_e83 n83 attr clus fsz) = clus"
    "de_file_size (make_e83 n83 attr clus fsz) = fsz" "de_attr (make_e83 n83 attr clus fsz) = attr"
proof -
  have n: "length (de_name (make_e83 n83 attr clus fsz)) = 8" "length (de_ext (make_e83 n83 attr clus fsz)) = 3"
    using assms by (simp_all add: make_e83_def)
  show "length (pack_dir (make_e83 n83 attr clus fsz)) = 32" by (rule length_pack_dir [OF n])
  show "unpack_dir (pack_dir (make_e83 n83 attr clus fsz)) = make_e83 n83 attr clus fsz"
    by (rule unpack_pack_dir [OF n])
  show "take 11 (pack_dir (make_e83 n83 attr clus fsz)) = n83"
    using assms by (simp add: pack_dir_def make_e83_def)
  show "e_attr (pack_dir (make_e83 n83 attr clus fsz)) = attr"
    using assms by (simp add: pack_dir_def make_e83_def nth_append)
  show "de_file_size (make_e83 n83 attr clus fsz) = fsz" "de_attr (make_e83 n83 attr clus fsz) = attr"
    by (simp_all add: make_e83_def)
  have "entry_cluster (make_e83 n83 attr clus fsz) = entry_cluster (set_entry_cluster clus dir_entry_zero)"
    by (simp add: make_e83_def entry_cluster_def)
  then show "entry_cluster (make_e83 n83 attr clus fsz) = clus" by simp
qed

definition name_ok :: "bytes \<Rightarrow> bool" where
  "name_ok name \<longleftrightarrow> name \<noteq> [] \<and> length name \<le> 255 \<and> 0 \<notin> set name \<and> 0xE5 \<notin> set name"

abbreviation lfn_need :: "bytes \<Rightarrow> nat" where
  "lfn_need name \<equiv> (length name + 12) div 13"

lemma lfn_need_bounds: "name_ok name \<Longrightarrow> 1 \<le> lfn_need name \<and> lfn_need name \<le> 20"
  by (cases name) (auto simp: name_ok_def)

text \<open>The slots \<open>dir_add_entry\<close> writes, and what a scan that reaches them answers.\<close>

definition new_slots :: "bytes \<Rightarrow> bytes \<Rightarrow> u8 \<Rightarrow> u32 \<Rightarrow> u32 \<Rightarrow> bytes list" where
  "new_slots name n83 attr clus fsz =
     map pack_lfn (lfn_entries name (lfn_checksum n83)) @ [pack_dir (make_e83 n83 attr clus fsz)]"

lemma length_new_slots [simp]: "length (new_slots name n83 attr clus fsz) = lfn_need name + 1"
  by (simp add: new_slots_def lfn_entries_def Let_def)

text \<open>A scan that has passed the long-name slots has collected the name.\<close>

lemma scan_new:
  assumes "name_ok name" "length n83 = 11" "length ps = lfn_need name + 1"
  obtains ps1 p f' where "ps = ps1 @ [p]" "length ps1 = lfn_need name"
    "zip (new_slots name n83 attr clus fsz) ps @ zs =
      zip (map (\<lambda>i. pack_lfn (make_lfn name (lfn_checksum n83) (lfn_need name) i)) (rev [1..<Suc (lfn_need name)])) ps1
        @ (pack_dir (make_e83 n83 attr clus fsz), p) # zs"
    "find_in nm f (zip (map (\<lambda>i. pack_lfn (make_lfn name (lfn_checksum n83) (lfn_need name) i)) (rev [1..<Suc (lfn_need name)])) ps1
        @ (pack_dir (make_e83 n83 attr clus fsz), p) # zs)
      = find_in nm f' ((pack_dir (make_e83 n83 attr clus fsz), p) # zs)"
    "fs_building f'" "c_string (fs_buf f') = name" "fs_parts f' = lfn_need name" "fs_start f' = hd ps1"
proof -
  let ?n = "lfn_need name" and ?e = "pack_dir (make_e83 n83 attr clus fsz)"
  note N = lfn_need_bounds [OF assms(1)]
  let ?is = "rev [1..<Suc ?n]"
  obtain ps1 p where ps: "ps = ps1 @ [p]" "length ps1 = ?n"
    using assms(3) by (cases ps rule: rev_cases) auto
  have lf: "map pack_lfn (lfn_entries name (lfn_checksum n83))
      = map (\<lambda>i. pack_lfn (make_lfn name (lfn_checksum n83) ?n i)) ?is"
    by (simp add: lfn_entries_def Let_def comp_def)
  obtain f' where f': "find_in nm f (zip (map (\<lambda>i. pack_lfn (make_lfn name (lfn_checksum n83) ?n i)) ?is) ps1 @ (?e, p) # zs)
      = find_in nm f' ((?e, p) # zs)"
    "(fs_buf f', fs_building f') = fold lfn_collect (map (make_lfn name (lfn_checksum n83) ?n) ?is) (fs_buf f, fs_building f)"
    "?is \<noteq> [] \<and> hd ?is = ?n \<and> ?n \<notin> set (tl ?is) \<longrightarrow> fs_parts f' = ?n \<and> fs_start f' = hd ps1"
    using find_in_lfns [of ?is ps1 nm f name "lfn_checksum n83" ?n "(?e, p) # zs"] ps(2) N
    by (auto simp del: upt_Suc)
  obtain m where m: "?n = Suc m" using N by (cases ?n) auto
  have "?is \<noteq> [] \<and> hd ?is = ?n \<and> ?n \<notin> set (tl ?is)" unfolding m by simp
  with f'(3) have st: "fs_parts f' = ?n" "fs_start f' = hd ps1" by blast+
  obtain buf' where "fold lfn_collect (lfn_entries name (lfn_checksum n83)) (fs_buf f, fs_building f) = (buf', True)"
      "c_string buf' = name"
    using lfn_roundtrip_any assms(1) unfolding name_ok_def by blast
  then have b: "fs_building f'" "c_string (fs_buf f') = name"
    using f'(2) by (simp_all add: lfn_entries_def Let_def)
  have "zip (new_slots name n83 attr clus fsz) ps @ zs
      = zip (map (\<lambda>i. pack_lfn (make_lfn name (lfn_checksum n83) ?n i)) ?is) ps1 @ (?e, p) # zs"
    unfolding new_slots_def lf ps(1) using ps(2) by (subst zip_append) (simp_all del: upt_Suc)
  from that [OF ps this f'(1) b st] show ?thesis .
qed

lemma find_in_new:
  assumes "name_ok name" "length n83 = 11" "n83 ! 0 \<noteq> 0" "n83 ! 0 \<noteq> 0xE5" "attr \<noteq> ATTR_LFN"
    and "length ps = lfn_need name + 1"
  shows "find_in name f (zip (new_slots name n83 attr clus fsz) ps @ zs)
    = Some (pack_dir (make_e83 n83 attr clus fsz), ps ! lfn_need name, ps ! 0)"
proof -
  let ?n = "lfn_need name" and ?e = "pack_dir (make_e83 n83 attr clus fsz)"
  note N = lfn_need_bounds [OF assms(1)]
  obtain ps1 p f' where S: "ps = ps1 @ [p]" "length ps1 = ?n" "zip (new_slots name n83 attr clus fsz) ps @ zs =
      zip (map (\<lambda>i. pack_lfn (make_lfn name (lfn_checksum n83) ?n i)) (rev [1..<Suc ?n])) ps1 @ (?e, p) # zs"
    "find_in name f (zip (map (\<lambda>i. pack_lfn (make_lfn name (lfn_checksum n83) ?n i)) (rev [1..<Suc ?n])) ps1 @ (?e, p) # zs)
      = find_in name f' ((?e, p) # zs)" "fs_building f'" "c_string (fs_buf f') = name" "fs_parts f' = ?n" "fs_start f' = hd ps1"
    by (rule scan_new [OF assms(1,2,6)])
  have "e_first ?e = n83 ! 0"
    using make_e83_fields(2) [OF assms(2), of attr clus fsz] by (metis nth_take zero_less_numeral)
  then have "find_in name f' ((?e, p) # zs) = Some (?e, p, hd ps1)"
    using S(5-8) N assms(3-5) make_e83_fields(3) [OF assms(2)] by (simp add: find_match_def lfn_matches_def)
  moreover have "ps1 \<noteq> []" using S(2) N by auto
  then have "ps ! ?n = p" "ps ! 0 = hd ps1" using S(1,2) N by (simp_all add: nth_append hd_conv_nth)
  ultimately show ?thesis unfolding S(3,4) by simp
qed

section \<open>Finding everything else\<close>

definition same_name :: "bytes \<Rightarrow> bytes \<Rightarrow> bool" where
  "same_name a b \<longleftrightarrow> map f_toupper a = map f_toupper b"

text \<open>When no long name is being collected, the rest of the scan's state does not matter.\<close>

lemma find_step_idle:
  assumes "\<not> fs_building f" "\<not> fs_building g"
  shows "find_step e p f = find_step e p g \<or> \<not> fs_building (find_step e p f) \<and> \<not> fs_building (find_step e p g)"
  using assms by (auto simp: find_step_def find_lfn_def lfn_collect_def Let_def)

lemma find_in_idle: "\<not> fs_building f \<Longrightarrow> \<not> fs_building g \<Longrightarrow> find_in name f xs = find_in name g xs"
proof (induction xs arbitrary: f g)
  case (Cons x xs)
  obtain e p where x: "x = (e, p)" by fastforce
  have "find_in name (find_step e p f) xs = find_in name (find_step e p g) xs"
    using find_step_idle [OF Cons.prems, of e p] Cons.IH by metis
  then show ?case using Cons.prems unfolding x by (simp add: find_match_def)
qed simp

lemma find_in_split:
  assumes "list_all (\<lambda>x. e_first (fst x) \<noteq> 0) xs"
  shows "(\<exists>r. \<forall>zs. find_in name f (xs @ zs) = Some r) \<or> (\<exists>f'. \<forall>zs. find_in name f (xs @ zs) = find_in name f' zs)"
  using assms
proof (induction xs arbitrary: f)
  case (Cons x xs)
  obtain e p where x: "x = (e, p)" by fastforce
  show ?case
  proof (cases "e_first e \<noteq> 0xE5 \<and> e_attr e \<noteq> ATTR_LFN \<and> find_match name e f")
    case True
    then have "find_in name f ((x # xs) @ zs) = Some (e, p, if fs_building f then fs_start f else p)" for zs
      using Cons.prems x by simp
    then show ?thesis by metis
  next
    case False
    then have "find_in name f ((x # xs) @ zs) = find_in name (find_step e p f) (xs @ zs)" for zs
      using Cons.prems x by auto
    then show ?thesis using Cons.IH [of "find_step e p f"] Cons.prems by simp
  qed
qed auto

lemma find_in_deleted:
  assumes "list_all (\<lambda>x. e_first (fst x) = 0xE5) xs" "xs \<noteq> []"
  shows "\<exists>g. \<not> fs_building g \<and> (\<forall>zs. find_in name f (xs @ zs) = find_in name g zs)"
  using assms
proof (induction xs arbitrary: f)
  case (Cons x xs)
  obtain e p where x: "x = (e, p)" by fastforce
  have n: "e_first e = 0xE5" using Cons.prems x by simp
  then have s: "find_in name f ((x # xs) @ zs) = find_in name (find_step e p f) (xs @ zs)" "\<not> fs_building (find_step e p f)" for zs
    by (simp_all add: x find_step_def)
  show ?case
  proof (cases "xs = []")
    case False
    then show ?thesis using Cons.IH [of "find_step e p f"] Cons.prems s(1) by simp
  qed (use s in auto)
qed simp

lemma find_in_zero: "list_all (\<lambda>x. e_first (fst x) = 0) xs \<Longrightarrow> find_in name f xs = None"
  by (cases xs) auto

text \<open>A scan for another name passes over the new slots.\<close>

lemma find_in_pass:
  assumes "name_ok name" "length n83 = 11" "n83 ! 0 \<noteq> 0" "n83 ! 0 \<noteq> 0xE5" "attr \<noteq> ATTR_LFN"
    and "length ps = lfn_need name + 1" "\<not> same_name nm name"
  shows "\<exists>g. \<not> fs_building g \<and> find_in nm f (zip (new_slots name n83 attr clus fsz) ps @ zs) = find_in nm g zs"
proof -
  let ?n = "lfn_need name" and ?e = "pack_dir (make_e83 n83 attr clus fsz)"
  obtain ps1 p f' where ps: "ps = ps1 @ [p]" "length ps1 = ?n" and S: "zip (new_slots name n83 attr clus fsz) ps @ zs =
      zip (map (\<lambda>i. pack_lfn (make_lfn name (lfn_checksum n83) ?n i)) (rev [1..<Suc ?n])) ps1 @ (?e, p) # zs"
    "find_in nm f (zip (map (\<lambda>i. pack_lfn (make_lfn name (lfn_checksum n83) ?n i)) (rev [1..<Suc ?n])) ps1 @ (?e, p) # zs)
      = find_in nm f' ((?e, p) # zs)" "fs_building f'" "c_string (fs_buf f') = name"
    by (rule scan_new [OF assms(1,2,6)])
  have "e_first ?e = n83 ! 0"
    using make_e83_fields(2) [OF assms(2), of attr clus fsz] by (metis nth_take zero_less_numeral)
  moreover have "\<not> find_match nm ?e f'" using S(3,4) assms(7) by (auto simp: find_match_def lfn_matches_def same_name_def)
  ultimately have "find_in nm f' ((?e, p) # zs) = find_in nm (find_step ?e p f') zs" "\<not> fs_building (find_step ?e p f')"
    using assms(3-5) make_e83_fields(3) [OF assms(2)] by (simp_all add: find_step_def)
  then show ?thesis unfolding S(1,2) by blast
qed

text \<open>So writing an entry over free slots changes no other lookup.\<close>

lemma find_in_overwrite:
  assumes "name_ok name" "length n83 = 11" "n83 ! 0 \<noteq> 0" "n83 ! 0 \<noteq> 0xE5" "attr \<noteq> ATTR_LFN" "\<not> same_name nm name"
    and "length ps = lfn_need name + 1" "length b = lfn_need name + 1"
    and "list_all (\<lambda>x. e_first (fst x) \<noteq> 0) a" "list_all (\<lambda>x. slot_free (fst x)) b" "end_ok (map fst (b @ c))"
  shows "find_in nm f (a @ zip (new_slots name n83 attr clus fsz) ps @ c) = find_in nm f (a @ b @ c)"
proof -
  have "find_in nm h (zip (new_slots name n83 attr clus fsz) ps @ c) = find_in nm h (b @ c)" for h
  proof -
    obtain g where g: "\<not> fs_building g" "find_in nm h (zip (new_slots name n83 attr clus fsz) ps @ c) = find_in nm g c"
      using find_in_pass [OF assms(1-5,7,6)] by blast
    show ?thesis
    proof (cases "list_all (\<lambda>x. e_first (fst x) = 0xE5) b")
      case True
      moreover have "b \<noteq> []" using assms(8) by auto
      ultimately obtain g' where "\<not> fs_building g'" "find_in nm h (b @ c) = find_in nm g' c"
        using find_in_deleted by blast
      then show ?thesis using g find_in_idle by metis
    next
      case False
      then obtain x where x: "x \<in> set b" "e_first (fst x) \<noteq> 0xE5" by (auto simp: list_all_iff)
      then have "e_first (fst x) = 0" using assms(10) by (auto simp: list_all_iff slot_free_def)
      with x(1) have "\<exists>x \<in> set b. e_first (fst x) = 0" by blast
      from split_list_first_prop [OF this] obtain b1 y b2 where b: "b = b1 @ y # b2" "e_first (fst y) = 0"
        "\<forall>x \<in> set b1. e_first (fst x) \<noteq> 0" by blast
      have z: "list_all (\<lambda>x. e_first (fst x) = 0) (b2 @ c)"
        using assms(11) b(2) unfolding b(1) by (auto simp: end_ok_append list.pred_map comp_def)
      have d: "list_all (\<lambda>x. e_first (fst x) = 0xE5) b1"
        using assms(10) b(3) unfolding b(1) by (auto simp: list_all_iff slot_free_def)
      have "find_in nm h' (y # b2 @ c) = None" for h' using b(2) by (cases y) simp
      then have "find_in nm h (b @ c) = None"
        using find_in_deleted [OF d, of nm h] unfolding b(1) by (cases "b1 = []") auto
      moreover have "find_in nm g c = None" using z by (intro find_in_zero) simp
      ultimately show ?thesis using g by simp
    qed
  qed
  then show ?thesis using find_in_split [OF assms(9), of nm f] by metis
qed

section \<open>The short name is not mistaken for a free slot\<close>

lemma f_toupper_eq: "f_toupper c = 0 \<longleftrightarrow> c = 0" "f_toupper c = 0xE5 \<longleftrightarrow> c = 0xE5"
  by (auto simp: f_toupper_def word_le_nat_alt word_unat_eq_iff unat_sub)

lemma make_stem_subset: "set (make_stem i dot room cs) \<subseteq> f_toupper ` set cs"
  by (induction i dot room cs rule: make_stem.induct) (auto simp: Let_def)

lemma pad_to_first:
  assumes "0 < n" "0 \<notin> set bs" "0xE5 \<notin> set bs"
  shows "pad_to n bs ! 0 \<noteq> 0" "pad_to n bs ! 0 \<noteq> 0xE5"
proof -
  have "pad_to n bs ! 0 \<in> insert CH_SPACE (set bs)"
    using assms(1) by (cases bs) (auto simp: pad_to_def nth_Cons')
  then show "pad_to n bs ! 0 \<noteq> 0" "pad_to n bs ! 0 \<noteq> 0xE5" using assms(2,3) by auto
qed

lemma stem_clean:
  assumes "0 \<notin> set name" "0xE5 \<notin> set name"
  shows "0 \<notin> set (make_stem i dot room name)" "0xE5 \<notin> set (make_stem i dot room name)"
  using assms make_stem_subset [of i dot room name] f_toupper_eq by (fastforce simp: image_iff)+

lemma make_83_tail_shape:
  assumes "0 \<notin> set name" "0xE5 \<notin> set name" "length ext = 3"
  shows "length (make_83_tail name ext n) = 11" "make_83_tail name ext n ! 0 \<noteq> 0"
    "make_83_tail name ext n ! 0 \<noteq> 0xE5"
proof -
  let ?stem = "make_stem 0 (last_dot name) (8 - (1 + length (dec_digits n))) name @ [CH_TILDE] @ dec_digits n"
  have e: "make_83_tail name ext n = pad_to 8 ?stem @ ext" by (simp add: make_83_tail_def Let_def)
  have d: "0 \<notin> set (dec_digits n)" "0xE5 \<notin> set (dec_digits n)"
    using dec_digits_range [of 0 n] dec_digits_range [of "0xE5" n] by auto
  have "0 \<notin> set ?stem" "0xE5 \<notin> set ?stem"
    using stem_clean [OF assms(1,2)] d by simp_all
  note P = pad_to_first [OF _ this, of 8]
  show "length (make_83_tail name ext n) = 11" using assms(3) by (simp add: e)
  show "make_83_tail name ext n ! 0 \<noteq> 0" "make_83_tail name ext n ! 0 \<noteq> 0xE5"
    using P by (simp_all add: e nth_append)
qed

lemma unique_83_shape:
  assumes "name_ok name"
  shows "length (unique_83 name es) = 11" "unique_83 name es ! 0 \<noteq> 0" "unique_83 name es ! 0 \<noteq> 0xE5"
proof -
  have nm: "0 \<notin> set name" "0xE5 \<notin> set name" using assms by (simp_all add: name_ok_def)
  let ?P = "\<lambda>x. length x = 11 \<and> x ! 0 \<noteq> (0 :: u8) \<and> x ! 0 \<noteq> 0xE5"
  have m: "?P (make_83 name)"
    using pad_to_first [OF _ stem_clean [OF nm], of 8 0 "last_dot name" 8]
    by (simp add: nth_append make_83_def Let_def)
  let ?tails = "map (make_83_tail name (drop 8 (make_83 name))) [1..<10000]"
  have t: "?P x" if "x \<in> set ?tails" for x
  proof -
    have "length (drop 8 (make_83 name)) = 3" by simp
    from make_83_tail_shape [OF nm this] that show ?thesis by auto
  qed
  have "?P (unique_83 name es)"
  proof (cases "\<not> exists_83 (make_83 name) es \<or> filter (\<lambda>out. \<not> exists_83 out es) ?tails = []")
    case True
    then have "unique_83 name es = make_83 name" unfolding unique_83_def Let_def by presburger
    with m show ?thesis by simp
  next
    case False
    then have "unique_83 name es = hd (filter (\<lambda>out. \<not> exists_83 out es) ?tails)"
      unfolding unique_83_def Let_def by presburger
    moreover have "hd (filter (\<lambda>out. \<not> exists_83 out es) ?tails) \<in> set (filter (\<lambda>out. \<not> exists_83 out es) ?tails)"
      by (rule hd_in_set) (use False in blast)
    then have "hd (filter (\<lambda>out. \<not> exists_83 out es) ?tails) \<in> set ?tails"
      unfolding set_filter by blast
    ultimately show ?thesis using t by metis
  qed
  then show "length (unique_83 name es) = 11" "unique_83 name es ! 0 \<noteq> 0" "unique_83 name es ! 0 \<noteq> 0xE5"
    by blast+
qed

section \<open>Growing a directory\<close>

text \<open>A directory the driver can extend: its last FAT entry is an end marker and not free.\<close>

definition dir_ok :: "vol \<Rightarrow> u32 \<Rightarrow> u32 list \<Rightarrow> bool" where
  "dir_ok s c cs \<longleftrightarrow> dir_chain s c cs \<and> fatv s (last cs) \<noteq> FAT32_FREE \<and> end_ok (dir_slots s cs)"

lemma chain_extend:
  assumes "chain f c cs" "cs \<noteq> []" "\<forall>k \<in> set cs. k \<noteq> last cs \<longrightarrow> g k = f k"
    and "g (last cs) = d" "2 \<le> d" "d < FAT32_EOC" "FAT32_EOC \<le> g d"
  shows "chain g c (cs @ [d])"
  using assms
proof (induction cs arbitrary: c)
  case (Cons x cs)
  show ?case
  proof (cases "cs = []")
    case True
    then show ?thesis using Cons.prems by auto
  next
    case False
    have "last cs \<in> set cs" using False by simp
    moreover have "x \<notin> set cs" using chain_distinct [OF Cons.prems(1)] by simp
    ultimately have "x \<noteq> last cs" by blast
    moreover have "chain g (f x) (cs @ [d])"
      using Cons.IH [of "f x"] Cons.prems False by auto
    ultimately show ?thesis using Cons.prems False by auto
  qed
qed simp

lemma chain_last_nonfree:
  assumes "dir_ok s c cs" "k \<in> set cs"
  shows "fatv s k \<noteq> FAT32_FREE"
proof -
  obtain i where i: "i < length cs" "k = cs ! i" using assms(2) by (metis in_set_conv_nth)
  show ?thesis
  proof (cases "Suc i < length cs")
    case True
    have "chain (fatv s) c cs" using assms(1) by (simp add: dir_ok_def dir_chain_def)
    from chain_next [OF this True] i(2) show ?thesis by auto
  next
    case False
    then have "i = length cs - 1" using i(1) by linarith
    moreover have "cs \<noteq> []" using i(1) by auto
    ultimately have "k = last cs" using i by (simp add: last_conv_nth)
    then show ?thesis using assms(1) by (simp add: dir_ok_def)
  qed
qed

lemma slot_old:
  assumes "0 < clus_slots g" "j < slot_count g cs"
  shows "slot_lba g (cs @ ds) j = slot_lba g cs j" "pos_at g (cs @ ds) i j = pos_at g cs i j"
proof -
  have "j div clus_slots g < length cs"
    using assms by (simp add: slot_count_def less_mult_imp_div_less mult.commute)
  then show "slot_lba g (cs @ ds) j = slot_lba g cs j" "pos_at g (cs @ ds) i j = pos_at g cs i j"
    by (simp_all add: slot_lba_def pos_at_def nth_append)
qed

lemma slice_zero: "slice zero_sector off n = replicate n 0"
  by (rule nth_equalityI) (auto simp: zero_sector_def)

text \<open>After \<open>fat_alloc(last)\<close> the directory has one more cluster of end markers.\<close>

lemma dir_grow:
  assumes "good_vol s" "dir_ok s c cs" "fat_alloc (last cs) s = (d, t)" "d \<noteq> 0"
  shows "good_vol t" "same_vol s t" "dir_chain t c (cs @ [d])" "fatv t d = FAT_MASK"
    "dir_slots t (cs @ [d]) = dir_slots s cs @ replicate (clus_slots (geo s)) (replicate 32 0)"
    "dir_pos_init (geo t) d = pos_at (geo s) (cs @ [d]) (- of_nat (slot_count (geo s) cs)) (slot_count (geo s) cs)"
    "changes (set (cs @ [d])) s t" "valid_cluster (geo s) d" "fatv s d = FAT32_FREE"
proof -
  let ?g = "geo s" and ?n = "slot_count (geo s) cs" and ?K = "clus_slots (geo s)"
  have ch: "cs \<noteq> []" "chain (fatv s) c cs" "\<forall>k \<in> set cs. valid_cluster ?g k"
    using assms(2) by (simp_all add: dir_ok_def dir_chain_def)
  note G = good_volD(3) [OF assms(1)]
  have lv: "valid_cluster ?g (last cs)" using ch by simp
  have nf: "fatv s (last cs) \<noteq> FAT32_FREE" using assms(2) by (simp add: dir_ok_def)
  have A: "same_vol s t" "good_vol t" "allocated (last cs) d s t"
    using fat_alloc_spec [OF assms(1) _ assms(3)] valid_fat_index [OF lv] nf assms(4) by auto
  show "good_vol t" "same_vol s t" by (rule A(2), rule A(1))
  show "changes (set (cs @ [d])) s t"
    by (rule changes_mono [OF allocated_changes(1) [OF A(3,1,2)]]) (use ch(1) in simp)
  have gt: "geo t = ?g" by (rule same_vol_geo [OF A(1)])
  have l0: "last cs \<noteq> 0" using lv by (auto simp: valid_cluster_def)
  have d: "valid_cluster ?g d" "fatv s d = FAT32_FREE"
    "\<And>k. fat_index ?g k \<Longrightarrow> fatv t k = (if k = d then FAT_MASK else if k = last cs then d else fatv s k)"
    "\<And>a. a \<in> cluster_sectors ?g d \<Longrightarrow> sec_view t a = zero_sector"
    "\<And>a. a \<noteq> NO_LBA \<Longrightarrow> vol_data_lba ?g \<le> a \<Longrightarrow> a \<notin> cluster_sectors ?g d \<Longrightarrow> sec_view t a = sec_view s a"
    using A(3) l0 by (auto simp: allocated_def)
  show "valid_cluster ?g d" "fatv s d = FAT32_FREE" by (rule d(1), rule d(2))
  have dn: "d \<notin> set cs" using chain_last_nonfree [OF assms(2)] d(2) by blast
  have dm: "2 \<le> d" "d < FAT32_EOC"
    using d(1) G by (auto simp: valid_cluster_def fat_index_def geo_ok_def word_le_nat_alt word_less_nat_alt)
  show fd: "fatv t d = FAT_MASK" using d(3) [OF valid_fat_index [OF d(1)]] by simp
  have fl: "fatv t (last cs) = d" using d(3) [OF valid_fat_index [OF lv]] dn ch(1) by (metis last_in_set)
  have "\<forall>k \<in> set cs. k \<noteq> last cs \<longrightarrow> fatv t k = fatv s k"
    using d(3) dn ch(3) valid_fat_index by metis
  then have "chain (fatv t) c (cs @ [d])"
    using ch(1,2) fl dm fd by (intro chain_extend [where f = "fatv s"]) simp_all
  then show "dir_chain t c (cs @ [d])" using ch(3) d(1) by (simp add: dir_chain_def gt)
  have K: "0 < ?K" using G by (simp add: clus_slots_def geo_ok_def)
  have cnt: "slot_count ?g (cs @ [d]) = ?n + ?K" by (simp add: slot_count_def)
  have old: "slot t (cs @ [d]) j = slot s cs j" if j: "j < ?n" for j
  proof -
    have v: "valid_cluster ?g (cs ! (j div ?K))" using ch(3) slot_index(1) [OF G j] by simp
    have "cs ! (j div ?K) \<noteq> d" using dn nth_mem [OF slot_index(1) [OF G j]] by metis
    then have "slot_lba ?g cs j \<notin> cluster_sectors ?g d"
      using cluster_sectors_disjoint [OF G v d(1)] slot_lba_in [OF G j] by blast
    then show ?thesis
      using d(5) slot_lba_data [OF G j ch(3)] slot_old(1) [OF K j] by (simp add: slot_def gt)
  qed
  have new: "slot t (cs @ [d]) j = replicate 32 0" if j: "?n \<le> j" "j < ?n + ?K" for j
  proof -
    have "j div ?K = length cs" using j K by (simp add: slot_count_def div_nat_eqI mult.commute)
    then have "slot_lba ?g (cs @ [d]) j \<in> cluster_sectors ?g d"
      using slot_lba_in [OF G, of j "cs @ [d]"] j(2) cnt by simp
    then show ?thesis using d(4) by (simp add: slot_def gt slice_zero)
  qed
  show "dir_slots t (cs @ [d]) = dir_slots s cs @ replicate ?K (replicate 32 0)"
  proof (rule nth_equalityI)
    show "length (dir_slots t (cs @ [d])) = length (dir_slots s cs @ replicate ?K (replicate 32 0))"
      by (simp add: gt cnt)
    fix j assume "j < length (dir_slots t (cs @ [d]))"
    then have "j < ?n + ?K" by (simp add: gt cnt)
    then show "dir_slots t (cs @ [d]) ! j = (dir_slots s cs @ replicate ?K (replicate 32 0)) ! j"
      using old [of j] new [of j] by (cases "j < ?n") (simp_all add: dir_slots_nth gt cnt nth_append)
  qed
  have "?n div ?K = length cs" "?n mod ?K = 0" "?n mod 16 = 0"
    using K by (simp_all add: slot_count_def clus_slots_def)
  then show "dir_pos_init (geo t) d = pos_at ?g (cs @ [d]) (- of_nat ?n) ?n"
    by (simp add: dir_pos_init_def pos_at_def slot_lba_def gt)
qed

section \<open>Adding an entry\<close>

text \<open>What \<open>dir_find\<close> answers for \<open>name\<close> in the directory on the clusters \<open>cs\<close>.\<close>

abbreviation lookup :: "bytes \<Rightarrow> vol \<Rightarrow> u32 list \<Rightarrow> (bytes \<times> dir_pos_t \<times> dir_pos_t) option" where
  "lookup name s cs \<equiv> find_in name (find_init (pos_at (geo s) cs 0 0)) (dir_listing s cs 0)"

lemma dir_listing_zip: "dir_listing s cs i = zip (dir_slots s cs) (map (pos_at (geo s) cs i) [0..<slot_count (geo s) cs])"
  by (simp add: dir_listing_def dir_slots_def zip_map_map zip_same_conv_map)

lemma map_fst_listing [simp]: "map fst (dir_listing s cs i) = dir_slots s cs"
  by (simp add: dir_listing_def dir_slots_def)

lemma end_ok_nonzero: "list_all (\<lambda>x. e_first x \<noteq> 0) xs \<Longrightarrow> end_ok (xs @ ys) = end_ok ys"
  by (induction xs) auto

lemma end_ok_zero: "list_all (\<lambda>x. e_first x = 0) xs \<Longrightarrow> end_ok xs"
  by (induction xs) auto

lemma end_ok_drop: "end_ok xs \<Longrightarrow> end_ok (drop n xs)"
  by (induction xs arbitrary: n) (auto simp: drop_Cons split: nat.split)

lemma find_in_zeros: "list_all (\<lambda>x. e_first (fst x) = 0) zs \<Longrightarrow> find_in name f (xs @ zs) = find_in name f xs"
  by (induction name f xs rule: find_in.induct) (auto simp: find_in_zero)

lemma new_slots_ok:
  assumes "name_ok name" "length n83 = 11" "n83 ! 0 \<noteq> 0"
  shows "list_all (\<lambda>e. length e = 32 \<and> e_first e \<noteq> 0) (new_slots name n83 attr clus fsz)"
proof -
  have "length e = 32 \<and> e_first e \<noteq> 0" if "e \<in> set (map pack_lfn (lfn_entries name (lfn_checksum n83)))" for e
  proof -
    from that obtain i where i: "e = pack_lfn (make_lfn name (lfn_checksum n83) (lfn_need name) i)" "1 \<le> i" "i \<le> lfn_need name"
      by (auto simp: lfn_entries_def Let_def)
    then have "i \<le> 20" using lfn_need_bounds [OF assms(1)] by linarith
    from lfn_slot [OF i(2) this] i(1) show ?thesis by metis
  qed
  moreover have "e_first (pack_dir (make_e83 n83 attr clus fsz)) \<noteq> 0"
    using make_e83_fields(2) [OF assms(2), of attr clus fsz] assms(3) by (metis nth_take zero_less_numeral)
  ultimately show ?thesis using make_e83_fields(1) [OF assms(2)] by (auto simp: new_slots_def list_all_iff)
qed

lemma dir_add_write:
  assumes "good_vol u" "dir_ok u c cs" "name_ok name" "length n83 = 11" "n83 ! 0 \<noteq> 0" "n83 ! 0 \<noteq> 0xE5"
    and "attr \<noteq> ATTR_LFN" "r + (lfn_need name + 1) \<le> slot_count (geo u) cs"
    and "list_all (\<lambda>e. e_first e \<noteq> 0) (take r (dir_slots u cs))"
    and "lookup name u cs = None" "list_all slot_free (take (lfn_need name + 1) (drop r (dir_slots u cs)))"
  shows "\<exists>t1 ok t v.
    write_slots (map pack_lfn (lfn_entries name (lfn_checksum n83))) (pos_at (geo u) cs i r) u
      = Some (pos_at (geo u) cs i (r + lfn_need name), t1) \<and>
    dir_write_entry (pos_at (geo u) cs i (r + lfn_need name)) (pack_dir (make_e83 n83 attr clus fsz)) t1 = (ok, t) \<and>
    writes_in (dir_sectors (geo u) cs) u t \<and> dir_ok t c cs \<and>
    dir_slots t cs = overwrite r (new_slots name n83 attr clus fsz) (dir_slots u cs) \<and>
    (\<forall>nm. \<not> same_name nm name \<longrightarrow> lookup nm t cs = lookup nm u cs) \<and>
    dir_find c name t = Some (Some (pack_dir (make_e83 n83 attr clus fsz),
      pos_at (geo u) cs 0 (r + lfn_need name), pos_at (geo u) cs 0 r), v)"
proof -
  let ?n = "lfn_need name" and ?N = "slot_count (geo u) cs" and ?g = "geo u"
  let ?ls = "map pack_lfn (lfn_entries name (lfn_checksum n83))"
  let ?e = "pack_dir (make_e83 n83 attr clus fsz)"
  let ?new = "new_slots name n83 attr clus fsz"
  have ch: "dir_chain u c cs" and eo: "end_ok (dir_slots u cs)" and nf: "fatv u (last cs) \<noteq> FAT32_FREE"
    using assms(2) by (simp_all add: dir_ok_def)
  have new: "?new = ?ls @ [?e]" by (simp add: new_slots_def)
  note NS = new_slots_ok [OF assms(3-5), of attr clus fsz]
  have len: "length ?ls = ?n" by (simp add: lfn_entries_def Let_def)
  have "r + length ?ls < ?N" using assms(8) len by simp
  moreover have "\<forall>e \<in> set ?ls. length e = 32" using NS unfolding new by (simp add: list_all_iff)
  ultimately obtain t1 where t1: "write_slots ?ls (pos_at ?g cs i r) u = Some (pos_at ?g cs i (r + ?n), t1)"
    "writes_in (dir_sectors ?g cs) u t1" "dir_slots t1 cs = overwrite r ?ls (dir_slots u cs)"
    using write_slots_at [OF assms(1) ch, of r ?ls i] len by auto
  have g1: "geo t1 = ?g" and gv1: "good_vol t1" using t1(2) writes_in_geo by (auto simp: writes_in_def)
  have j: "r + ?n < slot_count (geo t1) cs" using assms(8) g1 by simp
  obtain t where t: "dir_write_entry (pos_at (geo t1) cs i (r + ?n)) ?e t1 = (True, t)"
    "writes_in (dir_sectors (geo t1) cs) t1 t" "dir_slots t cs = (dir_slots t1 cs)[r + ?n := ?e]"
    by (rule dir_write_at [OF gv1 writes_in_chain [OF t1(2) ch] j make_e83_fields(1) [OF assms(4)]])
  have w: "writes_in (dir_sectors ?g cs) u t" using writes_in_trans [OF t1(2)] t(2) g1 by simp
  have gt: "geo t = ?g" and gvt: "good_vol t" using w writes_in_geo by (auto simp: writes_in_def)
  have cht: "dir_chain t c cs" by (rule writes_in_chain [OF w ch])
  have sl: "dir_slots t cs = overwrite r ?new (dir_slots u cs)"
    unfolding t(3) t1(3) new using len assms(8)
    by (simp add: overwrite_def list_update_append Cons_nth_drop_Suc [symmetric] del: Cons_nth_drop_Suc)
  have pre: "list_all (\<lambda>e. e_first e \<noteq> 0) (take r (dir_slots u cs) @ ?new)"
    using assms(9) NS by (auto simp: list_all_iff)
  have "end_ok (dir_slots t cs)"
    using end_ok_nonzero [OF pre, of "drop (r + length ?new) (dir_slots u cs)"] end_ok_drop [OF eo]
    by (simp add: sl overwrite_def)
  moreover have "fat_index ?g (last cs)" using ch by (simp add: dir_chain_def valid_fat_index)
  then have "fatv t (last cs) = fatv u (last cs)" using w by (simp add: writes_in_def)
  ultimately have dk: "dir_ok t c cs" using cht nf by (simp add: dir_ok_def)
  define ps where "ps = map (pos_at ?g cs 0) [0..<?N]"
  have lp: "length ps = ?N" by (simp add: ps_def)
  have pn: "k < ?N \<Longrightarrow> ps ! k = pos_at ?g cs 0 k" for k by (simp add: ps_def)
  have Lu: "dir_listing u cs 0 = zip (take r (dir_slots u cs)) (take r ps) @ zip (drop r (dir_slots u cs)) (drop r ps)"
    unfolding dir_listing_zip ps_def [symmetric] by (metis append_take_drop_id drop_zip take_zip)
  have mid: "drop r ps = take (?n + 1) (drop r ps) @ drop (r + (?n + 1)) ps"
    by (metis add.commute append_take_drop_id drop_drop)
  have Lt: "dir_listing t cs 0 = zip (take r (dir_slots u cs)) (take r ps) @
      zip ?new (take (?n + 1) (drop r ps)) @ zip (drop (r + (?n + 1)) (dir_slots u cs)) (drop (r + (?n + 1)) ps)"
  proof -
    have "dir_listing t cs 0 = zip (take r (dir_slots u cs) @ ?new @ drop (r + (?n + 1)) (dir_slots u cs))
        (take r ps @ take (?n + 1) (drop r ps) @ drop (r + (?n + 1)) ps)"
      unfolding dir_listing_zip sl overwrite_def gt ps_def [symmetric] mid [symmetric] by simp
    also have "\<dots> = zip (take r (dir_slots u cs)) (take r ps) @
        zip (?new @ drop (r + (?n + 1)) (dir_slots u cs)) (take (?n + 1) (drop r ps) @ drop (r + (?n + 1)) ps)"
      by (rule zip_append) (simp add: lp)
    also have "zip (?new @ drop (r + (?n + 1)) (dir_slots u cs)) (take (?n + 1) (drop r ps) @ drop (r + (?n + 1)) ps)
        = zip ?new (take (?n + 1) (drop r ps)) @ zip (drop (r + (?n + 1)) (dir_slots u cs)) (drop (r + (?n + 1)) ps)"
      by (rule zip_append) (use assms(8) lp in simp)
    finally show ?thesis .
  qed
  have "list_all (\<lambda>x. e_first (fst x) \<noteq> 0) (zip (take r (dir_slots u cs)) (take r ps))"
    using assms(9) by (auto simp: list_all_iff dest: set_zip_leftD)
  then obtain f' where f': "\<And>zs. find_in name (find_init (pos_at ?g cs 0 0))
      (zip (take r (dir_slots u cs)) (take r ps) @ zs) = find_in name f' zs"
    using find_in_prefix assms(10) unfolding Lu by metis
  have "length (take (?n + 1) (drop r ps)) = ?n + 1" using assms(8) lp by simp
  from find_in_new [OF assms(3-7) this]
  have "find_in name (find_init (pos_at ?g cs 0 0)) (dir_listing t cs 0)
      = Some (?e, take (?n + 1) (drop r ps) ! ?n, take (?n + 1) (drop r ps) ! 0)"
    unfolding Lt f' .
  moreover have "take (?n + 1) (drop r ps) ! ?n = pos_at ?g cs 0 (r + ?n)"
    "take (?n + 1) (drop r ps) ! 0 = pos_at ?g cs 0 r"
    using assms(8) lp by (simp_all add: pn)
  ultimately have "\<exists>v. dir_find c name t = Some (Some (?e, pos_at ?g cs 0 (r + ?n), pos_at ?g cs 0 r), v)"
    using dir_find_listing [OF gvt cht, of name] unfolding gt by auto
  moreover have "lookup nm t cs = lookup nm u cs" if "\<not> same_name nm name" for nm
  proof -
    have split: "zip (drop r (dir_slots u cs)) (drop r ps) =
        zip (take (?n + 1) (drop r (dir_slots u cs))) (take (?n + 1) (drop r ps)) @
        zip (drop (r + (?n + 1)) (dir_slots u cs)) (drop (r + (?n + 1)) ps)"
      using append_take_drop_id [of "?n + 1" "zip (drop r (dir_slots u cs)) (drop r ps)"]
      by (simp only: take_zip drop_zip drop_drop add.commute [of "?n + 1" r])
    have Lb: "dir_listing u cs 0 = zip (take r (dir_slots u cs)) (take r ps) @
        zip (take (?n + 1) (drop r (dir_slots u cs))) (take (?n + 1) (drop r ps)) @
        zip (drop (r + (?n + 1)) (dir_slots u cs)) (drop (r + (?n + 1)) ps)"
      unfolding Lu split by (rule refl)
    show ?thesis unfolding Lt Lb gt
    proof (rule find_in_overwrite [OF assms(3-7) that])
      show "length (take (?n + 1) (drop r ps)) = ?n + 1"
        "length (zip (take (?n + 1) (drop r (dir_slots u cs))) (take (?n + 1) (drop r ps))) = ?n + 1"
        using assms(8) lp by simp_all
      show "list_all (\<lambda>x. slot_free (fst x)) (zip (take (?n + 1) (drop r (dir_slots u cs))) (take (?n + 1) (drop r ps)))"
        using assms(11) by (auto simp: list_all_iff dest: set_zip_leftD)
      have "map fst (zip (drop r (dir_slots u cs)) (drop r ps)) = drop r (dir_slots u cs)"
        using lp by simp
      then show "end_ok (map fst (zip (take (?n + 1) (drop r (dir_slots u cs))) (take (?n + 1) (drop r ps)) @
          zip (drop (r + (?n + 1)) (dir_slots u cs)) (drop (r + (?n + 1)) ps)))"
        unfolding split [symmetric] using end_ok_drop [OF eo] by simp
    qed fact
  qed
  ultimately show ?thesis using t1(1) t(1) w dk sl unfolding g1 by blast
qed

lemma run_at_listing: "run_at r m (dir_listing s cs i) \<longleftrightarrow>
    list_all slot_free (take m (drop r (dir_slots s cs))) \<and> list_all (\<lambda>e. e_first e \<noteq> 0) (take r (dir_slots s cs))"
  unfolding run_at_def map_fst_listing [symmetric, of s cs i] take_map drop_map list.pred_map comp_def by (rule refl)

lemma dir_ok_reads:
  assumes "reads_only s t" "good_vol s" "dir_ok s c cs"
  shows "dir_ok t c cs" "good_vol t"
proof -
  have ch: "dir_chain s c cs" using assms(3) by (simp add: dir_ok_def)
  note L = dir_listing_cong [OF assms(1,2) ch]
  have "valid_cluster (geo s) (last cs)" using ch by (simp add: dir_chain_def)
  then have "fatv t (last cs) = fatv s (last cs)"
    using same_view_fatv [of s t, OF _ _ good_volD(3) [OF assms(2)] valid_fat_index] assms(1)
    by (simp add: reads_only_def)
  then show "dir_ok t c cs" using L assms(3) by (simp add: dir_ok_def)
  show "good_vol t" using assms(1) by (simp add: reads_only_def)
qed

lemma overwrite_free:
  assumes "list_all slot_free (take (length es) (drop r xs))" "j < length xs" "\<not> slot_free (xs ! j)"
    and "r + length es \<le> length xs"
  shows "overwrite r es xs ! j = xs ! j"
proof -
  have "\<not> (r \<le> j \<and> j < r + length es)"
  proof
    assume *: "r \<le> j \<and> j < r + length es"
    then have *: "r \<le> j" "j < r + length es" by blast+
    then have "j - r < length es" by linarith
    then have "take (length es) (drop r xs) ! (j - r) = xs ! j" using * assms(4) by (simp add: nth_take)
    moreover have "j - r < length (take (length es) (drop r xs))" using * assms(4) by simp
    ultimately have "xs ! j \<in> set (take (length es) (drop r xs))" by (metis nth_mem)
    with assms(1,3) show False by (simp add: list_all_iff)
  qed
  then show ?thesis using assms(2,4) by (auto simp: overwrite_def nth_append)
qed

text \<open>Positions of the same slot, up to the running number \<open>entry_idx\<close> that nothing reads.\<close>

definition same_slot :: "dir_pos_t \<Rightarrow> dir_pos_t \<Rightarrow> bool" where
  "same_slot p q \<longleftrightarrow> dp_lba p = dp_lba q \<and> dp_off p = dp_off q \<and> dp_cluster p = dp_cluster q"

text \<open>What a successful \<open>dir_add_entry\<close> establishes.\<close>

definition entry_added :: "u32 \<Rightarrow> u32 list \<Rightarrow> bytes \<Rightarrow> fat32_dir_entry_t \<Rightarrow> dir_pos_t \<Rightarrow> vol \<Rightarrow> vol \<Rightarrow> bool" where
  "entry_added c cs name e pos s t \<longleftrightarrow>
     (\<exists>ds start k v. dir_ok t c (cs @ ds) \<and> same_slot (pos_at (geo s) (cs @ ds) 0 k) pos \<and>
        dir_find c name t = Some (Some (pack_dir e, pos_at (geo s) (cs @ ds) 0 k, start), v) \<and>
        k < slot_count (geo s) (cs @ ds) \<and> (k < slot_count (geo s) cs \<longrightarrow> slot_free (slot s cs k)) \<and>
        (\<forall>j < slot_count (geo s) cs. \<not> slot_free (slot s cs j) \<longrightarrow> slot t (cs @ ds) j = slot s cs j) \<and>
        (\<forall>nm. \<not> same_name nm name \<longrightarrow> lookup nm t (cs @ ds) = lookup nm s cs) \<and>
        (\<forall>k \<in> set ds. fatv s k = FAT32_FREE) \<and> changes (set (cs @ ds)) s t)"

lemma entry_added_write:
  assumes "good_vol u" "dir_ok u c cs'" "cs' = cs @ ds" "name_ok name" "length n83 = 11" "n83 ! 0 \<noteq> 0" "n83 ! 0 \<noteq> 0xE5"
    and "attr \<noteq> ATTR_LFN" "r + (lfn_need name + 1) \<le> slot_count (geo u) cs'"
    and "list_all (\<lambda>e. e_first e \<noteq> 0) (take r (dir_slots u cs'))"
    and "list_all slot_free (take (lfn_need name + 1) (drop r (dir_slots u cs')))"
    and "lookup name u cs' = None" "\<forall>nm. lookup nm u cs' = lookup nm s cs"
    and "geo u = geo s" "\<And>j. j < slot_count (geo s) cs \<Longrightarrow> slot u cs' j = slot s cs j"
    and "changes (set cs') s u" "\<forall>k \<in> set ds. fatv s k = FAT32_FREE"
  shows "\<exists>t. do {
      (pos1, s3) \<leftarrow> write_slots (map pack_lfn (lfn_entries name (lfn_checksum n83))) (pos_at (geo u) cs' i r) u;
      let (_, s4) = dir_write_entry pos1 (pack_dir (make_e83 n83 attr clus fsz)) s3;
      Some (Some pos1, s4)
    } = Some (Some (pos_at (geo u) cs' i (r + lfn_need name)), t) \<and> same_vol u t \<and> good_vol t \<and>
    entry_added c cs name (make_e83 n83 attr clus fsz) (pos_at (geo u) cs' i (r + lfn_need name)) s t"
proof -
  obtain t1 ok t v where W:
    "write_slots (map pack_lfn (lfn_entries name (lfn_checksum n83))) (pos_at (geo u) cs' i r) u
      = Some (pos_at (geo u) cs' i (r + lfn_need name), t1)"
    "dir_write_entry (pos_at (geo u) cs' i (r + lfn_need name)) (pack_dir (make_e83 n83 attr clus fsz)) t1 = (ok, t)"
    "writes_in (dir_sectors (geo u) cs') u t" "dir_ok t c cs'"
    "dir_slots t cs' = overwrite r (new_slots name n83 attr clus fsz) (dir_slots u cs')"
    "\<forall>nm. \<not> same_name nm name \<longrightarrow> lookup nm t cs' = lookup nm u cs'"
    "dir_find c name t = Some (Some (pack_dir (make_e83 n83 attr clus fsz),
      pos_at (geo u) cs' 0 (r + lfn_need name), pos_at (geo u) cs' 0 r), v)"
    using dir_add_write [OF assms(1,2,4-10,12,11), where i = i and clus = clus and fsz = fsz] by blast
  have gt: "geo t = geo u" using W(3) by (rule writes_in_geo)
  have "slot t cs' j = slot s cs j" if j: "j < slot_count (geo s) cs" "\<not> slot_free (slot s cs j)" for j
  proof -
    have j': "j < slot_count (geo u) cs'" using j(1) assms(3,14)
      by (simp add: slot_count_def add_mult_distrib2 trans_less_add1)
    have "dir_slots t cs' ! j = dir_slots u cs' ! j"
      unfolding W(5) by (rule overwrite_free)
        (use assms(9,11,15) j j' in \<open>simp_all add: dir_slots_nth\<close>)
    then show ?thesis using j j' gt assms(15) by (simp add: dir_slots_nth)
  qed
  moreover have "changes (set cs') s t"
    using changes_same [OF assms(16) writes_changes [OF W(3)]] assms(2) by (simp add: dir_ok_def dir_chain_def)
  moreover have fr: "slot_free (slot s cs (r + lfn_need name))" if "r + lfn_need name < slot_count (geo s) cs"
  proof -
    have j: "r + lfn_need name < slot_count (geo u) cs'" using assms(9) by simp
    have "slot u cs' (r + lfn_need name) \<in> set (take (lfn_need name + 1) (drop r (dir_slots u cs')))"
      using j by (auto simp: in_set_conv_nth dir_slots_nth intro!: exI [of _ "lfn_need name"])
    then show ?thesis using assms(11,15) that by (auto simp: list_all_iff)
  qed
  ultimately have "entry_added c cs name (make_e83 n83 attr clus fsz) (pos_at (geo u) cs' i (r + lfn_need name)) s t"
    unfolding entry_added_def
    by (intro exI [of _ ds] exI [of _ "pos_at (geo u) cs' 0 r"] exI [of _ "r + lfn_need name"] exI [of _ v])
      (use W(4,6,7) assms(3,9,13,14,17) fr in \<open>auto simp: same_slot_def pos_at_def\<close>)
  then show ?thesis using W(1,2,3) by (auto simp: writes_in_def)
qed

lemma dir_add_spec:
  assumes "good_vol s" "dir_ok s c cs" "name_ok name" "attr \<noteq> ATTR_LFN"
    and "lfn_need name + 1 \<le> clus_slots (geo s)" "dir_find c name s = Some (None, s0)"
  shows "\<exists>r t. dir_add_entry c name attr clus fsz s = Some (r, t) \<and> same_vol s t \<and> good_vol t \<and>
    (case r of None \<Rightarrow> (\<forall>k. valid_cluster (geo s) k \<longrightarrow> fatv s k \<noteq> FAT32_FREE) \<and> same_view s t
     | Some pos \<Rightarrow> entry_added c cs name (make_e83 (unique_83 name (dir_slots s cs)) attr clus fsz) pos s t)"
proof -
  let ?g = "geo s" and ?need = "lfn_need name + 1" and ?N = "slot_count (geo s) cs"
  let ?n83 = "unique_83 name (dir_slots s cs)"
  let ?f = "find_init (pos_at (geo s) cs 0 0)"
  have ch: "dir_chain s c cs" "end_ok (dir_slots s cs)" using assms(2) by (simp_all add: dir_ok_def)
  note U = unique_83_shape [OF assms(3), of "dir_slots s cs"]
  obtain s1 where s1: "make_83_unique c name s = Some (?n83, s1)" "reads_only s s1"
    using make_83_unique_listing [OF assms(1) ch(1)] by blast
  note D1 = dir_ok_reads [OF s1(2) assms(1,2)] and L1 = dir_listing_cong [OF s1(2) assms(1) ch(1)]
    and g1 = reads_only_geo [OF s1(2)]
  have nf: "find_in name ?f (dir_listing s cs 0) = None"
    using dir_find_listing [OF assms(1) ch(1), of name] assms(6) by auto
  obtain u where u: "reads_only s1 u" "find_space ?need 0 (pos_at ?g cs 0 0) (pos_at ?g cs 0 0) s1 =
    (case find_run ?need 0 (pos_at ?g cs 0 0) (dir_listing s cs 0) of
       Inl p \<Rightarrow> Some (Some p, u)
     | Inr (k', st') \<Rightarrow>
         (let (new_clus, t) = fat_alloc (last cs) u
          in if new_clus = 0 then Some (None, t)
             else Some (Some (if k' = 0 then dir_pos_init (geo t) new_clus else st'), t)))"
    using find_space_at [OF D1(2) L1(3), of 0 ?need 0 "pos_at ?g cs 0 0" 0] slot_count_pos [OF D1(2) L1(3)]
    unfolding L1(1) g1 by auto
  have ru: "reads_only s u" by (rule reads_only_trans [OF s1(2) u(1)])
  note Du = dir_ok_reads [OF ru assms(1,2)] and Lu = dir_listing_cong [OF ru assms(1) ch(1)]
    and gu = reads_only_geo [OF ru]
  have svu: "same_vol s u" "same_view s u" using ru by (simp_all add: reads_only_def)
  have vu: "fat_index ?g k \<Longrightarrow> fatv u k = fatv s k" for k
    by (rule same_view_fatv [OF svu(2,1) good_volD(3) [OF assms(1)]])
  have su: "j < ?N \<Longrightarrow> slot u cs j = slot s cs j" for j
    using Lu(2) gu by (metis dir_slots_nth)
  have rest: "dir_add_entry c name attr clus fsz s = (case find_space ?need 0 (pos_at ?g cs 0 0) (pos_at ?g cs 0 0) s1 of
      None \<Rightarrow> None | Some (None, s2) \<Rightarrow> Some (None, s2)
    | Some (Some start, s2) \<Rightarrow> do {
        (pos1, s3) \<leftarrow> write_slots (map pack_lfn (lfn_entries name (lfn_checksum ?n83))) start s2;
        let (_, s4) = dir_write_entry pos1 (pack_dir (make_e83 ?n83 attr clus fsz)) s3;
        Some (Some pos1, s4) })"
    using s1(1) dir_pos_init_chain [OF assms(1) ch(1)] g1
    by (simp add: dir_add_entry_def Let_def split: option.split prod.split)
  show ?thesis
  proof (cases "find_run ?need 0 (pos_at ?g cs 0 0) (dir_listing s cs 0)")
    case (Inl p)
    then obtain r where r: "r + ?need \<le> ?N" "p = snd (dir_listing s cs 0 ! r)" "run_at r ?need (dir_listing s cs 0)"
      using find_run_Inl [OF Inl] ch(2) by auto
    have p: "p = pos_at ?g cs 0 r" using r(1,2) by (simp add: dir_listing_def)
    have q: "list_all (\<lambda>e. e_first e \<noteq> 0) (take r (dir_slots s cs))"
      "list_all slot_free (take ?need (drop r (dir_slots s cs)))"
      using r(3) unfolding run_at_listing by blast+
    obtain t where t: "do {
        (pos1, s3) \<leftarrow> write_slots (map pack_lfn (lfn_entries name (lfn_checksum ?n83))) (pos_at ?g cs 0 r) u;
        let (_, s4) = dir_write_entry pos1 (pack_dir (make_e83 ?n83 attr clus fsz)) s3;
        Some (Some pos1, s4)
      } = Some (Some (pos_at ?g cs 0 (r + lfn_need name)), t)" "same_vol u t" "good_vol t"
      "entry_added c cs name (make_e83 ?n83 attr clus fsz) (pos_at ?g cs 0 (r + lfn_need name)) s t"
      using entry_added_write [OF Du(2,1) _ assms(3) U assms(4), of cs "[]" r s 0 clus fsz]
      unfolding gu Lu(1,2) using r(1) q nf su reads_changes [OF ru assms(1)] by auto
    show ?thesis using t same_vol_trans [OF svu(1) t(2)] unfolding rest u(2) Inl by (simp add: p)
  next
    case (Inr q)
    obtain k' st' where q: "q = (k', st')" by fastforce
    note Inr = Inr [unfolded q]
    obtain r where r: "r \<le> ?N" "k' = ?N - r" "0 < k' \<longrightarrow> st' = snd (dir_listing s cs 0 ! r)"
        "run_at r k' (dir_listing s cs 0)" "k' < ?need"
      using find_run_Inr [OF Inr] ch(2) by auto
    obtain d t0 where al: "fat_alloc (last cs) u = (d, t0)" by fastforce
    have lv: "valid_cluster ?g (last cs)" using ch(1) by (simp add: dir_chain_def)
    have nfr: "fatv u (last cs) \<noteq> FAT32_FREE" using Du(1) by (simp add: dir_ok_def)
    show ?thesis
    proof (cases "d = 0")
      case True
      have "same_vol u t0 \<and> good_vol t0 \<and> (\<forall>k. valid_cluster ?g k \<longrightarrow> fatv u k \<noteq> FAT32_FREE) \<and> same_view u t0"
        using fat_alloc_spec [OF Du(2) _ al] valid_fat_index [OF lv] nfr True gu by simp
      then show ?thesis unfolding rest u(2) Inr using al True vu svu
        by (auto intro: same_vol_trans same_view_trans simp: valid_fat_index)
    next
      case False
      note Gr = dir_grow [OF Du(2,1) al False, unfolded gu Lu(2)]
      let ?cs = "cs @ [d]"
      have g0: "geo t0 = ?g" using Gr(2) gu by (simp add: same_vol_geo)
      have C0: "changes (set ?cs) s t0" by (rule changes_same [OF reads_changes [OF ru assms(1)] Gr(7)])
      have fr: "\<forall>k \<in> set [d]. fatv s k = FAT32_FREE" using vu [OF valid_fat_index [OF Gr(8)]] Gr(9) by simp
      have K: "0 < clus_slots ?g" using assms(5) by simp
      have cnt: "slot_count ?g ?cs = ?N + clus_slots ?g" by (simp add: slot_count_def)
      have z: "list_all (\<lambda>x. e_first x = 0) (replicate (clus_slots ?g) (replicate 32 0))" by (simp add: list_all_iff)
      have dk: "dir_ok t0 c ?cs" using Gr(3,4,5) ch(2) z end_ok_zero [OF z] by (simp add: dir_ok_def end_ok_append)
      have L0: "dir_listing t0 ?cs 0 = dir_listing s cs 0 @
          zip (replicate (clus_slots ?g) (replicate 32 0)) (map (pos_at ?g ?cs 0) [?N..<?N + clus_slots ?g])"
      proof -
        have "[0..<?N + clus_slots ?g] = [0..<?N] @ [?N..<?N + clus_slots ?g]"
          by (rule upt_add_eq_append) simp
        moreover have "map (pos_at ?g ?cs 0) [0..<?N] = map (pos_at ?g cs 0) [0..<?N]"
          by (rule map_cong [OF refl]) (rule slot_old(2) [OF K], simp)
        ultimately have "map (pos_at ?g ?cs 0) [0..<?N + clus_slots ?g]
            = map (pos_at ?g cs 0) [0..<?N] @ map (pos_at ?g ?cs 0) [?N..<?N + clus_slots ?g]"
          by (simp only: map_append)
        then show ?thesis unfolding dir_listing_zip Gr(5) g0 cnt
          by (simp only:) (rule zip_append, simp)
      qed
      have p0: "pos_at ?g ?cs 0 0 = pos_at ?g cs 0 0"
        using slot_old(2) [OF K] slot_count_pos [OF assms(1) ch(1)] by blast
      have same: "find_in nm ?f (dir_listing t0 ?cs 0) = lookup nm s cs" for nm
        unfolding L0 by (rule find_in_zeros) (auto simp: list_all_iff set_zip)
      then have "find_in name ?f (dir_listing t0 ?cs 0) = None" using nf by simp
      moreover have "list_all (\<lambda>e. e_first e \<noteq> 0) (take r (dir_slots t0 ?cs))"
        using r(4) r(1) unfolding Gr(5) run_at_listing by simp
      moreover have "list_all slot_free (take ?need (drop r (dir_slots t0 ?cs)))"
      proof -
        have "list_all slot_free (drop r (dir_slots s cs))"
          using r(1,2,4) unfolding run_at_listing by simp
        then have "list_all slot_free (drop r (dir_slots t0 ?cs))"
          using r(1) z by (auto simp: Gr(5) list_all_iff slot_free_def)
        then show ?thesis by (auto simp: list_all_iff dest: in_set_takeD)
      qed
      moreover have "r + ?need \<le> slot_count (geo t0) ?cs" using r(1,2,5) assms(5) unfolding g0 cnt by linarith
      moreover have "slot t0 ?cs j = slot s cs j" if "j < ?N" for j
      proof -
        have "dir_slots t0 ?cs ! j = dir_slots s cs ! j" using that by (simp add: Gr(5) nth_append)
        then show ?thesis using that by (simp add: dir_slots_nth g0 cnt)
      qed
      ultimately have W: "\<exists>t. do {
          (pos1, s3) \<leftarrow> write_slots (map pack_lfn (lfn_entries name (lfn_checksum ?n83))) (pos_at ?g ?cs i r) t0;
          let (_, s4) = dir_write_entry pos1 (pack_dir (make_e83 ?n83 attr clus fsz)) s3;
          Some (Some pos1, s4)
        } = Some (Some (pos_at ?g ?cs i (r + lfn_need name)), t) \<and> same_vol t0 t \<and> good_vol t \<and>
        entry_added c cs name (make_e83 ?n83 attr clus fsz) (pos_at ?g ?cs i (r + lfn_need name)) s t" for i
        using entry_added_write [OF Gr(1) dk refl assms(3) U assms(4), of r s i clus fsz] C0 fr same unfolding g0 p0 by simp
      have st: "(if k' = 0 then dir_pos_init (geo t0) d else st')
          = pos_at ?g ?cs (if k' = 0 then - of_nat ?N else 0) r"
      proof (cases "k' = 0")
        case True
        then have "r = ?N" using r(1,2) by simp
        with True show ?thesis using Gr(6) by simp
      next
        case False
        then have "r < ?N" using r(1,2) by simp
        with False r(3) show ?thesis using slot_old(2) [OF K] by (simp add: dir_listing_def)
      qed
      obtain t where t: "do {
          (pos1, s3) \<leftarrow> write_slots (map pack_lfn (lfn_entries name (lfn_checksum ?n83)))
            (if k' = 0 then dir_pos_init (geo t0) d else st') t0;
          let (_, s4) = dir_write_entry pos1 (pack_dir (make_e83 ?n83 attr clus fsz)) s3;
          Some (Some pos1, s4)
        } = Some (Some (pos_at ?g ?cs (if k' = 0 then - of_nat ?N else 0) (r + lfn_need name)), t)"
        "same_vol t0 t" "good_vol t"
        "entry_added c cs name (make_e83 ?n83 attr clus fsz)
           (pos_at ?g ?cs (if k' = 0 then - of_nat ?N else 0) (r + lfn_need name)) s t"
        unfolding st using W by blast
      have "dir_add_entry c name attr clus fsz s
          = Some (Some (pos_at ?g ?cs (if k' = 0 then - of_nat ?N else 0) (r + lfn_need name)), t)"
        unfolding rest u(2) Inr using al False t(1) by simp
      moreover have "same_vol s t" using svu(1) Gr(2) t(2) same_vol_trans by blast
      ultimately show ?thesis using t(3,4) by auto
    qed
  qed
qed

section \<open>Sample directory\<close>

lemma zero_dir_slots:
  assumes "\<And>j. j < slot_count (geo s) cs \<Longrightarrow> sec_view s (slot_lba (geo s) cs j) = zero_sector"
  shows "list_all (\<lambda>e. e_first e = 0) (dir_slots s cs)"
  using assms by (auto simp: list_all_iff dir_slots_def slot_def slice_zero)

lemma sample_root_slots: "list_all (\<lambda>e. e_first e = 0) (dir_slots sample [2])"
proof (rule zero_dir_slots)
  fix j assume "j < slot_count (geo sample) [2]"
  then have "j < 16" by (simp add: slot_count_def clus_slots_def sample_geo_def)
  then show "sec_view sample (slot_lba (geo sample) [2] j) = zero_sector"
    by (simp add: slot_lba_def clus_slots_def sec_view_def cluster_to_lba_def sample_defs fun_eq_iff)
qed

lemma sample_root_chain: "dir_chain sample 2 [2]"
  by (simp add: dir_chain_def fatv_sample valid_cluster_def)

lemma sample_root_ok: "dir_ok sample 2 [2]"
  using end_ok_zero [OF sample_root_slots] by (simp add: dir_ok_def sample_root_chain fatv_sample)

lemma sample_find_none: "\<exists>s0. dir_find 2 name sample = Some (None, s0)"
proof -
  have "list_all (\<lambda>x. e_first (fst x) = 0) (dir_listing sample [2] 0)"
    using sample_root_slots unfolding map_fst_listing [symmetric, of sample "[2]" 0] list.pred_map comp_def .
  then have "find_in name f (dir_listing sample [2] 0) = None" for f by (rule find_in_zero)
  then show ?thesis using dir_find_listing [OF good_sample_vol sample_root_chain, of name] by auto
qed

section \<open>Properties\<close>

text \<open>\<open>make_83_unique\<close> returns the plain 8.3 name if no live short entry of the directory has it,
  otherwise the first numeric-tail name \<open>~1 \<dots> ~9999\<close> that no live short entry has; only when all
  of these are taken does it fall back to the colliding name. It never writes.\<close>

theorem make_83_unique_no_collision:
  assumes "good_vol s" "dir_chain s c cs"
  shows "\<exists>out t. make_83_unique c name s = Some (out, t) \<and> same_vol s t \<and> same_view s t \<and>
    (\<not> exists_83 out (dir_slots s cs) \<or>
     out = make_83 name \<and> (\<forall>n. 1 \<le> n \<and> n \<le> 9999 \<longrightarrow>
        exists_83 (make_83_tail name (drop 8 (make_83 name)) n) (dir_slots s cs)))"
proof -
  let ?es = "dir_slots s cs" and ?tail = "make_83_tail name (drop 8 (make_83 name))"
  let ?free = "filter (\<lambda>out. \<not> exists_83 out ?es) (map ?tail [1..<10000])"
  obtain t where t: "make_83_unique c name s = Some (unique_83 name ?es, t)" "reads_only s t"
    using make_83_unique_listing [OF assms] by blast
  have u: "unique_83 name ?es = (if \<not> exists_83 (make_83 name) ?es then make_83 name
      else if ?free = [] then make_83 name else hd ?free)"
    unfolding unique_83_def Let_def by (rule refl)
  have "\<not> exists_83 (unique_83 name ?es) ?es \<or> unique_83 name ?es = make_83 name \<and>
      (\<forall>n. 1 \<le> n \<and> n \<le> 9999 \<longrightarrow> exists_83 (?tail n) ?es)"
  proof (cases "exists_83 (make_83 name) ?es")
    case col: True
    show ?thesis
    proof (cases "?free = []")
      case True
      then have "\<forall>n \<in> set [1..<10000]. exists_83 (?tail n) ?es"
        unfolding filter_empty_conv set_map by blast
      then have "\<forall>n. 1 \<le> n \<and> n \<le> 9999 \<longrightarrow> exists_83 (?tail n) ?es" by auto
      moreover have "unique_83 name ?es = make_83 name" unfolding u True by simp
      ultimately show ?thesis by blast
    next
      case False
      then have "hd ?free \<in> set ?free" by (rule hd_in_set)
      then have "\<not> exists_83 (hd ?free) ?es" unfolding set_filter by blast
      moreover have "unique_83 name ?es = hd ?free" unfolding u using False col by presburger
      ultimately show ?thesis by metis
    qed
  qed (simp add: u)
  then show ?thesis using t by (auto simp: reads_only_def)
qed

theorem make_83_unique_no_collision_witness:
  "\<exists>out t. make_83_unique 2 (ascii ''a b.txt'') sample = Some (out, t) \<and> same_vol sample t \<and> same_view sample t \<and>
    (\<not> exists_83 out (dir_slots sample [2]) \<or>
     out = make_83 (ascii ''a b.txt'') \<and> (\<forall>n. 1 \<le> n \<and> n \<le> 9999 \<longrightarrow>
        exists_83 (make_83_tail (ascii ''a b.txt'') (drop 8 (make_83 (ascii ''a b.txt''))) n) (dir_slots sample [2])))"
  by (rule make_83_unique_no_collision [OF good_sample_vol sample_root_chain])

text \<open>C14: What \<open>dir_add_entry\<close> adds, \<open>dir_find\<close> finds. For a directory in order, a legal new name and
  room for its slots in one cluster, \<open>dir_add_entry\<close> returns; it fails only on a full disk and then
  changes nothing; otherwise the lookup of the name yields the new entry (attributes, first
  cluster, size) at the reported position, in a slot that was free or new, every slot in use before is
  unchanged, the lookup of every other name answers as before, the directory
  is in order again, possibly longer by a cluster that was free, and no FAT entry and no sector
  outside the directory has changed.\<close>

theorem dir_add_entry_found:
  assumes "good_vol s" "dir_ok s c cs" "name_ok name" "attr \<noteq> ATTR_LFN"
    and "lfn_need name + 1 \<le> clus_slots (geo s)" "dir_find c name s = Some (None, s0)"
  shows "\<exists>r t. dir_add_entry c name attr clus fsz s = Some (r, t) \<and> same_vol s t \<and> good_vol t \<and>
    (case r of None \<Rightarrow> (\<forall>k. valid_cluster (geo s) k \<longrightarrow> fatv s k \<noteq> FAT32_FREE) \<and> same_view s t
     | Some pos \<Rightarrow> entry_added c cs name (make_e83 (unique_83 name (dir_slots s cs)) attr clus fsz) pos s t)"
  by (rule dir_add_spec [OF assms])

theorem dir_add_entry_found_witness:
  "\<exists>r t. dir_add_entry 2 (ascii ''notes.txt'') 0x20 3 700 sample = Some (r, t) \<and> same_vol sample t \<and> good_vol t \<and>
    (case r of None \<Rightarrow> (\<forall>k. valid_cluster (geo sample) k \<longrightarrow> fatv sample k \<noteq> FAT32_FREE) \<and> same_view sample t
     | Some pos \<Rightarrow> entry_added 2 [2] (ascii ''notes.txt'')
         (make_e83 (unique_83 (ascii ''notes.txt'') (dir_slots sample [2])) 0x20 3 700) pos sample t)"
proof -
  obtain s0 where "dir_find 2 (ascii ''notes.txt'') sample = Some (None, s0)" using sample_find_none by blast
  then show ?thesis
    by (rule dir_add_entry_found [OF good_sample_vol sample_root_ok, rotated -1])
      (simp_all add: name_ok_def ascii_def clus_slots_def sample_geo_def)
qed

end
