(* ===== verification/Mm.thy ===== *)
theory Mm
  imports Prelude
begin

text \<open>
  The kernel heap of \<open>src/mm/mm.c\<close>: a bump allocator over a static arena of 2 MB. \<open>kfree\<close> does
  nothing. The arena is its bytes and the offset \<open>heap_ptr\<close> of the first unused byte.
\<close>

section \<open>The allocator\<close>

abbreviation HEAP_SIZE :: u32 where "HEAP_SIZE \<equiv> 2 * 1024 * 1024"

record heap =
  heap_bytes :: "nat \<Rightarrow> u8"
  bump_ptr :: u32

definition mm_init :: "heap \<Rightarrow> heap" where
  "mm_init h = h\<lparr>bump_ptr := 0\<rparr>"

definition round4 :: "u32 \<Rightarrow> u32" where
  "round4 n = (n + 3) AND NOT 3"

text \<open>The pointer arithmetic: the offset of the new block and the new \<open>heap_ptr\<close>.\<close>

definition kmalloc_ptr :: "u32 \<Rightarrow> u32 \<Rightarrow> u32 option \<times> u32" where
  "kmalloc_ptr n p =
     (let n = round4 n in if p + n > HEAP_SIZE then (None, p) else (Some p, p + n))"

definition kmalloc :: "u32 \<Rightarrow> heap \<Rightarrow> u32 option \<times> heap" where
  "kmalloc n h =
     (case kmalloc_ptr n (bump_ptr h) of
        (None, _) \<Rightarrow> (None, h)
      | (Some p, q) \<Rightarrow>
          (Some p, h\<lparr>bump_ptr := q,
             heap_bytes := blit (unat p) (replicate (unat (round4 n)) 0) (heap_bytes h)\<rparr>))"

definition kfree :: "u32 \<Rightarrow> heap \<Rightarrow> heap" where
  "kfree p h = h"

definition mm_heap_used :: "heap \<Rightarrow> u32" where
  "mm_heap_used h = bump_ptr h"

section \<open>Facts\<close>

definition heap_ok :: "heap \<Rightarrow> bool" where
  "heap_ok h \<longleftrightarrow> bump_ptr h \<le> HEAP_SIZE \<and> unat (bump_ptr h) mod 4 = 0"

lemma round4_unat:
  assumes "unat n \<le> 2 ^ 32 - 4"
  shows "unat (round4 n) = (unat n + 3) div 4 * 4"
proof -
  have m: "unat (n + 3) = unat n + 3" using assms by (simp add: unat_word_ariths)
  have "(n + 3) AND NOT 3 = (n + 3) AND NOT (mask 2)" by (simp add: mask_eq_exp_minus_1)
  also have "\<dots> = push_bit 2 (drop_bit 2 (n + 3))"
    by (rule bit_word_eqI) (auto simp: bit_simps not_less dest!: le_Suc_ex)
  finally have "round4 n = push_bit 2 (drop_bit 2 (n + 3))" by (simp add: round4_def)
  moreover have "unat (drop_bit 2 (n + 3)) = (unat n + 3) div 4"
    using m by (simp add: unat_div drop_bit_eq_div)
  moreover have "(unat n + 3) div 4 * 4 < 2 ^ 32"
    using assms unsigned_less [of n, where ?'a = nat] by simp
  ultimately show ?thesis by (simp add: push_bit_eq_mult unat_word_ariths mult.commute)
qed

lemma round4_wraps: "unat n > 2 ^ 32 - 4 \<Longrightarrow> round4 n = 0"
proof -
  assume n: "unat n > 2 ^ 32 - 4"
  have "n \<in> {0xFFFFFFFD, 0xFFFFFFFE, 0xFFFFFFFF}"
  proof -
    have "unat n < 2 ^ 32" using unsigned_less [of n, where ?'a = nat] by simp
    with n have "unat n = 0xFFFFFFFD \<or> unat n = 0xFFFFFFFE \<or> unat n = 0xFFFFFFFF" by simp linarith
    then show ?thesis by (simp add: word_unat_eq_iff)
  qed
  then show "round4 n = 0" by (auto simp: round4_def)
qed

lemma kmalloc_cases:
  assumes "heap_ok h" "unat n \<le> unat HEAP_SIZE"
  defines "m \<equiv> (unat n + 3) div 4 * 4"
  shows "unat (bump_ptr h) + m > unat HEAP_SIZE \<Longrightarrow> kmalloc n h = (None, h)"
    and "unat (bump_ptr h) + m \<le> unat HEAP_SIZE \<Longrightarrow> \<exists>h'. kmalloc n h = (Some (bump_ptr h), h') \<and> heap_ok h' \<and>
      unat (bump_ptr h') = unat (bump_ptr h) + m \<and>
      heap_bytes h' = blit (unat (bump_ptr h)) (replicate m 0) (heap_bytes h)"
proof -
  have r: "unat (round4 n) = m" unfolding m_def by (rule round4_unat) (use assms(2) in simp)
  have p: "unat (bump_ptr h) \<le> 2097152" using assms(1) by (simp add: heap_ok_def word_le_nat_alt)
  have "m \<le> 2097152 + 3" using assms(2) by (simp add: m_def)
  then have s: "unat (bump_ptr h + round4 n) = unat (bump_ptr h) + m"
    using r p by (simp add: unat_word_ariths)
  show "unat (bump_ptr h) + m > unat HEAP_SIZE \<Longrightarrow> kmalloc n h = (None, h)"
    using s by (simp add: kmalloc_def kmalloc_ptr_def word_less_nat_alt Let_def)
  assume a: "unat (bump_ptr h) + m \<le> unat HEAP_SIZE"
  let ?h = "h\<lparr>bump_ptr := bump_ptr h + round4 n,
      heap_bytes := blit (unat (bump_ptr h)) (replicate m 0) (heap_bytes h)\<rparr>"
  have "kmalloc n h = (Some (bump_ptr h), ?h)"
    using s a r by (simp add: kmalloc_def kmalloc_ptr_def word_less_nat_alt Let_def)
  moreover have "(unat (bump_ptr h) + m) mod 4 = 0"
    using assms(1) by (simp add: heap_ok_def m_def)
  then have "heap_ok ?h" using s a by (simp add: heap_ok_def word_le_nat_alt)
  ultimately show "\<exists>h'. kmalloc n h = (Some (bump_ptr h), h') \<and> heap_ok h' \<and>
      unat (bump_ptr h') = unat (bump_ptr h) + m \<and>
      heap_bytes h' = blit (unat (bump_ptr h)) (replicate m 0) (heap_bytes h)"
    using s by (intro exI [of _ ?h]) simp
qed

text \<open>A run of allocations, with the blocks (offset, rounded length) handed out.\<close>

fun kmallocs :: "u32 list \<Rightarrow> heap \<Rightarrow> (nat \<times> nat) list \<times> heap" where
  "kmallocs [] h = ([], h)"
| "kmallocs (n # ns) h =
     (case kmalloc n h of
        (None, h1) \<Rightarrow> kmallocs ns h1
      | (Some p, h1) \<Rightarrow> let (bs, h2) = kmallocs ns h1 in ((unat p, (unat n + 3) div 4 * 4) # bs, h2))"

lemma kmallocs_spec:
  assumes "heap_ok h" "list_all (\<lambda>n. unat n \<le> unat HEAP_SIZE) ns" "kmallocs ns h = (bs, h')"
  shows "heap_ok h' \<and> unat (bump_ptr h) \<le> unat (bump_ptr h') \<and>
    sorted_wrt (\<lambda>(p, m) (q, k). p + m \<le> q) bs \<and>
    list_all (\<lambda>(p, m). unat (bump_ptr h) \<le> p \<and> p mod 4 = 0 \<and> p + m \<le> unat (bump_ptr h')) bs"
  using assms
proof (induction ns arbitrary: h bs)
  case (Cons n ns)
  define m where "m = (unat n + 3) div 4 * 4"
  have n: "unat n \<le> unat HEAP_SIZE" using Cons.prems(2) by simp
  note K = kmalloc_cases [OF Cons.prems(1) n, folded m_def]
  show ?case
  proof (cases "unat (bump_ptr h) + m > unat HEAP_SIZE")
    case True
    with K(1) Cons show ?thesis by simp
  next
    case False
    then obtain h1 where h1: "kmalloc n h = (Some (bump_ptr h), h1)" "heap_ok h1"
      "unat (bump_ptr h1) = unat (bump_ptr h) + m" using K(2) by (auto simp: not_less)
    obtain cs where cs: "kmallocs ns h1 = (cs, h')" "bs = (unat (bump_ptr h), m) # cs"
      using Cons.prems(3) h1(1) by (auto simp: m_def split: prod.splits)
    have IH: "heap_ok h' \<and> unat (bump_ptr h1) \<le> unat (bump_ptr h') \<and>
      sorted_wrt (\<lambda>(p, m) (q, k). p + m \<le> q) cs \<and>
      list_all (\<lambda>(p, m). unat (bump_ptr h1) \<le> p \<and> p mod 4 = 0 \<and> p + m \<le> unat (bump_ptr h')) cs"
      using Cons.IH [OF h1(2) _ cs(1)] Cons.prems(2) by simp
    have "unat (bump_ptr h) mod 4 = 0" using Cons.prems(1) by (simp add: heap_ok_def)
    with IH h1(3) cs(2) show ?thesis by (auto simp: list_all_iff)
  qed
qed simp

section \<open>Properties\<close>

text \<open>Blocks never overlap. For any sequence of requests of at most the arena size, every block
  that \<open>kmalloc\<close> hands out is 4-byte aligned and inside the arena, and each block ends before the
  next one starts; a refused request leaves the heap as it was.\<close>

theorem kmalloc_blocks_disjoint:
  assumes "heap_ok h" "list_all (\<lambda>n. unat n \<le> unat HEAP_SIZE) ns" "kmallocs ns h = (bs, h')"
  shows "sorted_wrt (\<lambda>(p, m) (q, k). p + m \<le> q) bs \<and>
    list_all (\<lambda>(p, m). unat (bump_ptr h) \<le> p \<and> p mod 4 = 0 \<and> p + m \<le> unat HEAP_SIZE) bs"
proof -
  note K = kmallocs_spec [OF assms]
  have "unat (bump_ptr h') \<le> unat HEAP_SIZE" using K by (simp add: heap_ok_def word_le_nat_alt)
  then show ?thesis using K by (auto simp: list_all_iff)
qed

definition heap0 :: heap where
  "heap0 = \<lparr>heap_bytes = (\<lambda>_. 0xAA), bump_ptr = 0\<rparr>"

theorem kmalloc_blocks_disjoint_witness:
  "sorted_wrt (\<lambda>(p, m) (q, k). p + m \<le> q) (fst (kmallocs [5, 0x200000, 12] heap0)) \<and>
    list_all (\<lambda>(p, m). unat (bump_ptr heap0) \<le> p \<and> p mod 4 = 0 \<and> p + m \<le> unat HEAP_SIZE)
      (fst (kmallocs [5, 0x200000, 12] heap0))"
  by (rule kmalloc_blocks_disjoint [where ns = "[5, 0x200000, 12]" and h' = "snd (kmallocs [5, 0x200000, 12] heap0)"])
    (simp_all add: heap0_def heap_ok_def del: kmallocs.simps)

text \<open>The size check can wrap around. Rounding up a request of the last three sizes gives 0,
  so \<open>kmalloc\<close> answers with a block of no bytes; and a request that carries \<open>heap_ptr + size\<close> past
  \<open>2^32\<close> passes the check and moves \<open>heap_ptr\<close> backwards, into blocks already handed out.\<close>

theorem kmalloc_wraps:
  "kmalloc 0xFFFFFFFF heap0 = (Some 0, heap0) \<and>
   (\<exists>p q. kmalloc_ptr 0x1000 0 = (Some 0, p) \<and> kmalloc_ptr 0xFFFFF100 p = (Some p, q) \<and> q < p \<and>
      kmalloc_ptr 0x100 q = (Some q, q + 0x100))"
proof -
  have "blit 0 [] f = f" for f by (simp add: blit_def fun_eq_iff)
  then have "kmalloc 0xFFFFFFFF heap0 = (Some 0, heap0)"
    by (simp add: kmalloc_def kmalloc_ptr_def heap0_def round4_def Let_def)
  then show ?thesis by (simp add: kmalloc_ptr_def round4_def Let_def)
qed

end
