(* ===== verification/Fat_Ops.thy ===== *)
theory Fat_Ops
  imports Fat_Dir Mm
begin

text \<open>
  The public file and directory operations of \<open>src/fs/fat32_ops.c\<close>. An operation that returns a
  descriptor or an error code returns a sum, with the error on the left; \<open>None\<close> is a trap or a
  loop that does not end.
\<close>

section \<open>Types and descriptors\<close>

datatype fat32_err_t =
    FAT32_OK
  | FAT32_ERR_NOTFOUND
  | FAT32_ERR_EXISTS
  | FAT32_ERR_FULL
  | FAT32_ERR_IO
  | FAT32_ERR_NOTDIR
  | FAT32_ERR_ISDIR
  | FAT32_ERR_NOMEM
  | FAT32_ERR_NODEV
  | FAT32_ERR_NOTEMPTY

record fat32_dirent_t =
  dirent_name :: bytes
  dirent_size :: u32
  dirent_attr :: u8
  dirent_is_dir :: bool
  dirent_cluster :: u32

abbreviation FAT32_MAX_FD :: nat where "FAT32_MAX_FD \<equiv> 16"

definition upd_fd :: "nat \<Rightarrow> (fat32_fd_t \<Rightarrow> fat32_fd_t) \<Rightarrow> vol \<Rightarrow> vol" where
  "upd_fd fd f s = s\<lparr>fds := (fds s)[fd := f (fds s ! fd)]\<rparr>"

text \<open>The argument check \<open>fd < 0 || fd >= FAT32_MAX_FD || !fds[fd].open\<close>.\<close>

definition fd_valid :: "int \<Rightarrow> vol \<Rightarrow> bool" where
  "fd_valid fd s \<longleftrightarrow> 0 \<le> fd \<and> fd < int FAT32_MAX_FD \<and> fd_open (fds s ! nat fd)"

definition first_free_fd :: "vol \<Rightarrow> nat option" where
  "first_free_fd s = (let free = filter (\<lambda>i. \<not> fd_open (fds s ! i)) [0..<FAT32_MAX_FD]
                      in if free = [] then None else Some (hd free))"

section \<open>Opening\<close>

definition new_fd :: "bool \<Rightarrow> u32 \<Rightarrow> u32 \<Rightarrow> dir_pos_t \<Rightarrow> u32 \<Rightarrow> fat32_fd_t" where
  "new_fd write cluster dir_cluster pos fsize = \<lparr>fd_open = True, fd_write = write, fd_cluster = cluster,
     fd_dir_cluster = dir_cluster, fd_dir_lba = dp_lba pos, fd_dir_offset = dp_off pos,
     fd_size = fsize, fd_pos = 0, fd_cur_cluster = cluster\<rparr>"

text \<open>The branch for an existing entry; with \<open>write\<close> the file is truncated to one new cluster.\<close>

definition open_existing ::
  "nat \<Rightarrow> bool \<Rightarrow> fat32_dir_entry_t \<Rightarrow> dir_pos_t \<Rightarrow> u32 \<Rightarrow> vol \<Rightarrow> ((fat32_err_t + nat) \<times> vol) option" where
  "open_existing fd write e pos dir_cluster s =
     (let cluster = entry_cluster e;
          s1 = upd_fd fd (\<lambda>_. new_fd write cluster dir_cluster pos (de_file_size e)) s
      in if \<not> write then Some (Inr fd, s1)
         else do {
           s2 \<leftarrow> (if cluster \<ge> 2 then fat_free_chain cluster s1 else Some s1);
           let (new_clus, s3) = fat_alloc 0 s2;
           if new_clus = 0 then Some (Inl FAT32_ERR_FULL, s3)
           else let s4 = upd_fd fd (\<lambda>f. f\<lparr>fd_cluster := new_clus, fd_cur_cluster := new_clus,
                                          fd_size := 0, fd_pos := 0\<rparr>) s3;
                    e1 = (set_entry_cluster new_clus e)\<lparr>de_file_size := 0\<rparr>;
                    (_, s5) = dir_write_entry pos (pack_dir e1) s4
                in Some (Inr fd, s5)
         })"

definition open_new :: "nat \<Rightarrow> bytes \<Rightarrow> vol \<Rightarrow> ((fat32_err_t + nat) \<times> vol) option" where
  "open_new fd path s = do {
     ((parent, name), s1) \<leftarrow> path_resolve_parent path s;
     if parent = 0 then Some (Inl FAT32_ERR_NOTFOUND, s1)
     else let (new_clus, s2) = fat_alloc 0 s1
          in if new_clus = 0 then Some (Inl FAT32_ERR_FULL, s2)
             else do {
               (r, s3) \<leftarrow> dir_add_entry parent name ATTR_ARCHIVE new_clus 0 s2;
               case r of
                 None \<Rightarrow> do { s4 \<leftarrow> fat_free_chain new_clus s3; Some (Inl FAT32_ERR_FULL, s4) }
               | Some new_pos \<Rightarrow> Some (Inr fd, upd_fd fd (\<lambda>_. new_fd True new_clus parent new_pos 0) s3)
             }
   }"

definition fat32_open :: "bytes \<Rightarrow> bool \<Rightarrow> vol \<Rightarrow> ((fat32_err_t + nat) \<times> vol) option" where
  "fat32_open path write s =
     (if \<not> vol_mounted s then Some (Inl FAT32_ERR_NODEV, s)
      else if write \<and> vol_readonly s then Some (Inl FAT32_ERR_IO, s)
      else case first_free_fd s of
             None \<Rightarrow> Some (Inl FAT32_ERR_NOMEM, s)
           | Some fd \<Rightarrow> do {
               (r, s1) \<leftarrow> path_stat path s;
               case r of
                 Some (e, where_) \<Rightarrow>
                   if de_attr e AND ATTR_DIR \<noteq> 0 then Some (Inl FAT32_ERR_ISDIR, s1)
                   else (case where_ of
                           None \<Rightarrow> None
                         | Some (pos, dir_cluster) \<Rightarrow> open_existing fd write e pos dir_cluster s1)
               | None \<Rightarrow> if \<not> write then Some (Inl FAT32_ERR_NOTFOUND, s1) else open_new fd path s1
             })"

section \<open>Reading and writing\<close>

text \<open>\<open>rd\<close> is the local \<open>read\<close>, \<open>acc\<close> the bytes copied to the caller's buffer so far.\<close>

partial_function (option) read_loop ::
  "nat \<Rightarrow> u32 \<Rightarrow> u32 \<Rightarrow> u32 \<Rightarrow> bytes \<Rightarrow> vol \<Rightarrow> (bytes \<times> vol) option" where
  "read_loop fd len csz rd acc s =
     (let f = fds s ! fd
      in if \<not> rd < len then Some (acc, s)
         else if fd_cur_cluster f < 2 \<or> fd_cur_cluster f \<ge> FAT32_EOC then Some (acc, s)
         else do {
           clus_off \<leftarrow> c_mod (fd_pos f) csz;
           let byte_off = clus_off mod 512;
           let lba = cluster_to_lba (geo s) (fd_cur_cluster f) + clus_off div 512;
           let (ok, s1) = sec_read lba s;
           if \<not> ok then Some (acc, s1)
           else do {
             let can_read = min (512 - byte_off) (len - rd);
             let chunk = slice (sec_cache s1) (unat byte_off) (unat can_read);
             let s2 = upd_fd fd (\<lambda>f. f\<lparr>fd_pos := fd_pos f + can_read\<rparr>) s1;
             m \<leftarrow> c_mod (fd_pos f + can_read) csz;
             let s3 = (if m = 0
                       then let (c, s') = fat_get (fd_cur_cluster f) s2
                            in upd_fd fd (\<lambda>f. f\<lparr>fd_cur_cluster := c\<rparr>) s'
                       else s2);
             read_loop fd len csz (rd + can_read) (acc @ chunk) s3
           }
         })"

definition fat32_read :: "int \<Rightarrow> u32 \<Rightarrow> vol \<Rightarrow> ((fat32_err_t + bytes) \<times> vol) option" where
  "fat32_read fd len s =
     (if \<not> fd_valid fd s then Some (Inl FAT32_ERR_NOTFOUND, s)
      else let f = fds s ! nat fd
           in if fd_pos f \<ge> fd_size f then Some (Inr [], s)
              else let remaining = fd_size f - fd_pos f;
                       len = (if len > remaining then remaining else len)
                   in do {
                     (out, s1) \<leftarrow> read_loop (nat fd) len (vol_sec_per_clus (geo s) * 512) 0 [] s;
                     Some (Inr out, s1)
                   })"

text \<open>The cluster step at the head of \<open>fat32_write\<close>'s loop: \<open>False\<close> for the \<open>break\<close> on a full disk.\<close>

definition write_advance :: "nat \<Rightarrow> u32 \<Rightarrow> vol \<Rightarrow> bool \<times> vol" where
  "write_advance fd clus_off s =
     (let f = fds s ! fd
      in if clus_off = 0 \<and> fd_pos f > 0
         then let (next, s1) = fat_get (fd_cur_cluster f) s
              in if next \<ge> FAT32_EOC \<or> next < 2
                 then let (new_clus, s2) = fat_alloc (fd_cur_cluster f) s1
                      in if new_clus = 0 then (False, s2)
                         else (True, upd_fd fd (\<lambda>f. f\<lparr>fd_cur_cluster := new_clus\<rparr>) s2)
                 else (True, upd_fd fd (\<lambda>f. f\<lparr>fd_cur_cluster := next\<rparr>) s1)
         else (True, s))"

partial_function (option) write_loop ::
  "nat \<Rightarrow> bytes \<Rightarrow> u32 \<Rightarrow> u32 \<Rightarrow> u32 \<Rightarrow> vol \<Rightarrow> (u32 \<times> vol) option" where
  "write_loop fd buf len csz written s =
     (if \<not> written < len then Some (written, s)
      else do {
        clus_off \<leftarrow> c_mod (fd_pos (fds s ! fd)) csz;
        let (go, s0) = write_advance fd clus_off s;
        if \<not> go then Some (written, s0)
        else do {
          let byte_off = clus_off mod 512;
          let lba = cluster_to_lba (geo s0) (fd_cur_cluster (fds s0 ! fd)) + clus_off div 512;
          let (ok, s1) = sec_read lba s0;
          if \<not> ok then Some (written, s1)
          else do {
            let can_write = min (512 - byte_off) (len - written);
            let (ok2, s2) = cache_patch (unat byte_off) (take (unat can_write) (drop (unat written) buf)) s1;
            if \<not> ok2 then Some (written, s2)
            else write_loop fd buf len csz (written + can_write)
                   (upd_fd fd (\<lambda>f. f\<lparr>fd_pos := fd_pos f + can_write,
                       fd_size := (if fd_pos f + can_write > fd_size f then fd_pos f + can_write else fd_size f)\<rparr>) s2)
          }
        }
      })"

text \<open>\<open>buf\<close> holds at least \<open>len\<close> bytes.\<close>

definition fat32_write :: "int \<Rightarrow> bytes \<Rightarrow> u32 \<Rightarrow> vol \<Rightarrow> ((fat32_err_t + u32) \<times> vol) option" where
  "fat32_write fd buf len s =
     (if \<not> fd_valid fd s \<or> \<not> fd_write (fds s ! nat fd) then Some (Inl FAT32_ERR_NOTFOUND, s)
      else do {
        (n, s1) \<leftarrow> write_loop (nat fd) buf len (vol_sec_per_clus (geo s) * 512) 0 s;
        Some (Inr n, s1)
      })"

section \<open>Seeking, closing, sizes\<close>

text \<open>The first \<open>n\<close> links from the current cluster, stored back as they are followed.\<close>

fun seek_links :: "nat \<Rightarrow> nat \<Rightarrow> vol \<Rightarrow> bool \<times> vol" where
  "seek_links fd 0 s = (True, s)"
| "seek_links fd (Suc n) s =
     (let (next, s1) = fat_get (fd_cur_cluster (fds s ! fd)) s
      in if next \<ge> FAT32_EOC \<or> next < 2 then (False, s1)
         else seek_links fd n (upd_fd fd (\<lambda>f. f\<lparr>fd_cur_cluster := next\<rparr>) s1))"

definition fat32_seek :: "int \<Rightarrow> u32 \<Rightarrow> vol \<Rightarrow> (fat32_err_t \<times> vol) option" where
  "fat32_seek fd pos s =
     (if \<not> fd_valid fd s then Some (FAT32_ERR_NOTFOUND, s)
      else if pos > fd_size (fds s ! nat fd) then Some (FAT32_ERR_NOTFOUND, s)
      else do {
        target_clus \<leftarrow> c_div pos (vol_sec_per_clus (geo s) * 512);
        let s1 = upd_fd (nat fd) (\<lambda>f. f\<lparr>fd_cur_cluster := fd_cluster f\<rparr>) s;
        let (ok, s2) = seek_links (nat fd) (unat target_clus) s1;
        if \<not> ok then Some (FAT32_ERR_NOTFOUND, s2)
        else Some (FAT32_OK, upd_fd (nat fd) (\<lambda>f. f\<lparr>fd_pos := pos\<rparr>) s2)
      })"

text \<open>The three fields of the cached directory entry that \<open>fat32_close\<close> stores.\<close>

definition close_entry :: "nat \<Rightarrow> fat32_fd_t \<Rightarrow> sector \<Rightarrow> sector" where
  "close_entry off f c =
     blit (off + 26) (le16 (ucast (fd_cluster f AND 0xFFFF)))
       (blit (off + 20) (le16 (ucast (drop_bit 16 (fd_cluster f))))
         (blit (off + 28) (le32 (fd_size f)) c))"

definition fat32_close :: "int \<Rightarrow> vol \<Rightarrow> vol" where
  "fat32_close fd s =
     (if \<not> fd_valid fd s then s
      else let f = fds s ! nat fd;
               s1 = (if fd_write f
                     then let (ok, s1) = sec_read (fd_dir_lba f) s
                          in if ok
                             then snd (sec_flush (s1\<lparr>sec_cache := close_entry (unat (fd_dir_offset f)) f (sec_cache s1),
                                                     sec_cache_dirty := True\<rparr>))
                             else s1
                     else s)
           in upd_fd (nat fd) (\<lambda>_. fd_zero) s1)"

definition fat32_filesize :: "bytes \<Rightarrow> vol \<Rightarrow> (int \<times> vol) option" where
  "fat32_filesize path s = do {
     (r, s1) \<leftarrow> path_stat path s;
     Some (case r of
             None \<Rightarrow> (-1, s1)
           | Some (e, _) \<Rightarrow> if de_attr e AND ATTR_DIR \<noteq> 0 then (-1, s1) else (sint (de_file_size e), s1))
   }"

section \<open>Directories\<close>

definition dot_entry :: "bytes \<Rightarrow> u32 \<Rightarrow> fat32_dir_entry_t" where
  "dot_entry nm cluster =
     (set_entry_cluster cluster dir_entry_zero)
       \<lparr>de_name := take 8 nm, de_ext := drop 8 nm, de_attr := ATTR_DIR\<rparr>"

definition fat32_mkdir :: "bytes \<Rightarrow> vol \<Rightarrow> (fat32_err_t \<times> vol) option" where
  "fat32_mkdir path s =
     (if \<not> vol_mounted s then Some (FAT32_ERR_NODEV, s)
      else do {
        (r, s1) \<leftarrow> path_stat path s;
        if r \<noteq> None then Some (FAT32_ERR_EXISTS, s1)
        else do {
          ((parent, name), s2) \<leftarrow> path_resolve_parent path s1;
          if parent = 0 \<or> name = [] then Some (FAT32_ERR_NOTFOUND, s2)
          else let (new_clus, s3) = fat_alloc 0 s2
               in if new_clus = 0 then Some (FAT32_ERR_FULL, s3)
                  else let dot = dot_entry (ascii ''.          '') new_clus;
                           parent_clus = (if parent = vol_root_cluster (geo s3) then 0 else parent);
                           dotdot = dot_entry (ascii ''..         '') parent_clus;
                           (ok, s4) = sec_read (cluster_to_lba (geo s3) new_clus) s3
                       in if \<not> ok
                          then do { s5 \<leftarrow> fat_free_chain new_clus s4; Some (FAT32_ERR_IO, s5) }
                          else let (_, s5) = cache_patch 0 (pack_dir dot @ pack_dir dotdot) s4
                               in do {
                                 (p, s6) \<leftarrow> dir_add_entry parent name ATTR_DIR new_clus 0 s5;
                                 if p = None
                                 then do { s7 \<leftarrow> fat_free_chain new_clus s6; Some (FAT32_ERR_FULL, s7) }
                                 else Some (FAT32_OK, s6)
                               }
        }
      })"

text \<open>The name \<open>fat32_readdir\<close> builds from a short entry.\<close>

definition name_of_83 :: "fat32_dir_entry_t \<Rightarrow> bytes" where
  "name_of_83 e =
     c_string (takeWhile (\<lambda>c. c \<noteq> CH_SPACE) (de_name e) @
       (if de_ext e ! 0 \<noteq> CH_SPACE then CH_DOT # takeWhile (\<lambda>c. c \<noteq> CH_SPACE) (de_ext e) else []))"

definition make_dirent :: "fat32_dir_entry_t \<Rightarrow> bytes \<Rightarrow> fat32_dirent_t" where
  "make_dirent e name = \<lparr>dirent_name = name, dirent_size = de_file_size e, dirent_attr = de_attr e,
     dirent_is_dir = (de_attr e AND ATTR_DIR \<noteq> 0), dirent_cluster = entry_cluster e\<rparr>"

definition is_dot_entry :: "bytes \<Rightarrow> bool" where
  "is_dot_entry e \<longleftrightarrow> e ! 0 = CH_DOT \<and> (e ! 1 = CH_SPACE \<or> e ! 1 = CH_DOT)"

text \<open>The entries passed to the callback, in order; its count is the result of the function.\<close>

partial_function (option) readdir_from ::
  "dir_pos_t \<Rightarrow> bytes \<times> bool \<Rightarrow> vol \<Rightarrow> (fat32_dirent_t list \<times> vol) option" where
  "readdir_from pos lfn s =
     (let (r, s1) = dir_read_entry pos s
      in case r of
           None \<Rightarrow> Some ([], s1)
         | Some e \<Rightarrow>
             if e_first e = 0 then Some ([], s1)
             else let (out, lfn1) =
                    (if e_first e = 0xE5 then ([], (fst lfn, False))
                     else if e_attr e = ATTR_LFN then ([], lfn_collect (unpack_lfn e) lfn)
                     else if is_dot_entry e then ([], (fst lfn, False))
                     else ([make_dirent (unpack_dir e)
                              (if snd lfn \<and> fst lfn ! 0 \<noteq> 0 then c_string (fst lfn)
                               else name_of_83 (unpack_dir e))], (fst lfn, False)))
                  in do {
                    ((more, pos1), s2) \<leftarrow> dir_next pos s1;
                    (rest, s3) \<leftarrow> (if more then readdir_from pos1 lfn1 s2 else Some ([], s2));
                    Some (out @ rest, s3)
                  })"

definition fat32_readdir :: "bytes \<Rightarrow> vol \<Rightarrow> ((fat32_err_t + fat32_dirent_t list) \<times> vol) option" where
  "fat32_readdir path s =
     (if \<not> vol_mounted s then Some (Inl FAT32_ERR_NODEV, s)
      else do {
        (r, s1) \<leftarrow> path_stat path s;
        case r of
          None \<Rightarrow> Some (Inl FAT32_ERR_NOTFOUND, s1)
        | Some (de, _) \<Rightarrow>
            if de_attr de AND ATTR_DIR = 0 then Some (Inl FAT32_ERR_NOTDIR, s1)
            else let c = entry_cluster de;
                     cluster = (if c = 0 then vol_root_cluster (geo s1) else c)
                 in do {
                   (out, s2) \<leftarrow> readdir_from (dir_pos_init (geo s1) cluster) (replicate 256 0, False) s1;
                   Some (Inr out, s2)
                 }
      })"

definition last_component :: "bytes \<Rightarrow> bytes" where
  "last_component path = rev (takeWhile (\<lambda>c. c \<noteq> CH_SLASH) (rev path))"

definition fat32_stat :: "bytes \<Rightarrow> vol \<Rightarrow> ((fat32_err_t + fat32_dirent_t) \<times> vol) option" where
  "fat32_stat path s =
     (if \<not> vol_mounted s then Some (Inl FAT32_ERR_NODEV, s)
      else do {
        (r, s1) \<leftarrow> path_stat path s;
        case r of
          None \<Rightarrow> Some (Inl FAT32_ERR_NOTFOUND, s1)
        | Some (e, _) \<Rightarrow> Some (Inr (make_dirent e (last_component path)), s1)
      })"

section \<open>Removing\<close>

text \<open>Mark the slots from \<open>del\<close> to \<open>pos\<close> as deleted.\<close>

partial_function (option) delete_slots :: "dir_pos_t \<Rightarrow> dir_pos_t \<Rightarrow> vol \<Rightarrow> vol option" where
  "delete_slots del pos s =
     (let (ok, s1) = sec_read (dp_lba del) s
      in if \<not> ok then Some s1
         else let (_, s2) = cache_patch (unat (dp_off del)) [0xE5] s1
              in if dp_lba del = dp_lba pos \<and> dp_off del = dp_off pos then Some s2
                 else do {
                   ((more, del1), s3) \<leftarrow> dir_next del s2;
                   if more then delete_slots del1 pos s3 else Some s3
                 })"

definition fat32_unlink :: "bytes \<Rightarrow> vol \<Rightarrow> (fat32_err_t \<times> vol) option" where
  "fat32_unlink path s =
     (if \<not> vol_mounted s then Some (FAT32_ERR_NODEV, s)
      else do {
        ((dir_cluster, name), s1) \<leftarrow> path_resolve_parent path s;
        if dir_cluster = 0 \<or> name = [] then Some (FAT32_ERR_NOTFOUND, s1)
        else do {
          (r, s2) \<leftarrow> dir_find dir_cluster name s1;
          case r of
            None \<Rightarrow> Some (FAT32_ERR_NOTFOUND, s2)
          | Some (e, pos, lfn_start) \<Rightarrow>
              if e_attr e AND ATTR_DIR \<noteq> 0 then Some (FAT32_ERR_ISDIR, s2)
              else let cluster = entry_cluster (unpack_dir e)
                   in do {
                     s3 \<leftarrow> (if cluster \<ge> 2 then fat_free_chain cluster s2 else Some s2);
                     s4 \<leftarrow> delete_slots lfn_start pos s3;
                     Some (FAT32_OK, s4)
                   }
        }
      })"

section \<open>Whole files\<close>

text \<open>\<open>while ((n = fat32_read(src, buf, 512)) > 0) fat32_write(dst, buf, n)\<close>.\<close>

partial_function (option) copy_loop :: "nat \<Rightarrow> nat \<Rightarrow> vol \<Rightarrow> vol option" where
  "copy_loop src_fd dst_fd s = do {
     (r, s1) \<leftarrow> fat32_read (int src_fd) 512 s;
     case r of
       Inl _ \<Rightarrow> Some s1
     | Inr buf \<Rightarrow>
         if buf = [] then Some s1
         else do {
           (_, s2) \<leftarrow> fat32_write (int dst_fd) buf (of_nat (length buf)) s1;
           copy_loop src_fd dst_fd s2
         }
   }"

definition fat32_copy :: "bytes \<Rightarrow> bytes \<Rightarrow> vol \<Rightarrow> (fat32_err_t \<times> vol) option" where
  "fat32_copy src dst s =
     (if \<not> vol_mounted s then Some (FAT32_ERR_NODEV, s)
      else do {
        (r, s1) \<leftarrow> fat32_open src False s;
        case r of
          Inl _ \<Rightarrow> Some (FAT32_ERR_NOTFOUND, s1)
        | Inr src_fd \<Rightarrow> do {
            (q, s2) \<leftarrow> fat32_open dst True s1;
            case q of
              Inl _ \<Rightarrow> Some (FAT32_ERR_FULL, fat32_close (int src_fd) s2)
            | Inr dst_fd \<Rightarrow> do {
                s3 \<leftarrow> copy_loop src_fd dst_fd s2;
                Some (FAT32_OK, fat32_close (int dst_fd) (fat32_close (int src_fd) s3))
              }
          }
      })"

definition fat32_rename :: "bytes \<Rightarrow> bytes \<Rightarrow> vol \<Rightarrow> (fat32_err_t \<times> vol) option" where
  "fat32_rename src dst s =
     (if \<not> vol_mounted s then Some (FAT32_ERR_NODEV, s)
      else do {
        (err, s1) \<leftarrow> fat32_copy src dst s;
        if err \<noteq> FAT32_OK then Some (err, s1) else fat32_unlink src s1
      })"

definition vol_kmalloc :: "u32 \<Rightarrow> vol \<Rightarrow> u32 option \<times> vol" where
  "vol_kmalloc n s = (let (p, q) = kmalloc_ptr n (heap_ptr s) in (p, s\<lparr>heap_ptr := q\<rparr>))"

text \<open>The buffer's bytes with the terminating NUL, and the size; \<open>None\<close> for \<open>NULL\<close>.\<close>

definition fat32_read_file :: "bytes \<Rightarrow> vol \<Rightarrow> ((bytes \<times> u32) option \<times> vol) option" where
  "fat32_read_file path s = do {
     (sz, s1) \<leftarrow> fat32_filesize path s;
     if sz < 0 then Some (None, s1)
     else let (p, s2) = vol_kmalloc (word_of_int sz + 1) s1
          in if p = None then Some (None, s2)
             else do {
               (r, s3) \<leftarrow> fat32_open path False s2;
               case r of
                 Inl _ \<Rightarrow> Some (None, s3)
               | Inr fd \<Rightarrow> do {
                   (n, s4) \<leftarrow> fat32_read (int fd) (word_of_int sz) s3;
                   let s5 = fat32_close (int fd) s4;
                   case n of
                     Inl _ \<Rightarrow> Some (None, s5)
                   | Inr out \<Rightarrow> Some (Some (out @ [0], of_nat (length out)), s5)
                 }
             }
   }"

definition fat32_write_file :: "bytes \<Rightarrow> bytes \<Rightarrow> u32 \<Rightarrow> vol \<Rightarrow> (fat32_err_t \<times> vol) option" where
  "fat32_write_file path dat len s = do {
     (r, s1) \<leftarrow> fat32_open path True s;
     case r of
       Inl err \<Rightarrow> Some (err, s1)
     | Inr fd \<Rightarrow> do {
         (n, s2) \<leftarrow> fat32_write (int fd) dat len s1;
         let s3 = fat32_close (int fd) s2;
         Some (case n of
                 Inl _ \<Rightarrow> (FAT32_ERR_IO, s3)
               | Inr n \<Rightarrow> (if sint n < 0 then FAT32_ERR_IO else FAT32_OK, s3))
       }
   }"

text \<open>The old contents are read into a zeroed buffer, the new data copied behind them.\<close>

definition fat32_append_file :: "bytes \<Rightarrow> bytes \<Rightarrow> u32 \<Rightarrow> vol \<Rightarrow> (fat32_err_t \<times> vol) option" where
  "fat32_append_file path dat len s = do {
     (sz, s1) \<leftarrow> fat32_filesize path s;
     if sz < 0 then fat32_write_file path dat len s1
     else let old_sz = word_of_int sz;
              (p, s2) = vol_kmalloc (old_sz + len + 1) s1
          in if p = None then Some (FAT32_ERR_NOMEM, s2)
             else do {
               (r, s3) \<leftarrow> fat32_open path False s2;
               (old, s5) \<leftarrow> (case r of
                   Inl _ \<Rightarrow> Some ([], s3)
                 | Inr fd \<Rightarrow> do {
                     (q, s4) \<leftarrow> fat32_read (int fd) old_sz s3;
                     Some (case q of Inl _ \<Rightarrow> [] | Inr out \<Rightarrow> out, fat32_close (int fd) s4)
                   });
               let buf = take (unat old_sz) (old @ replicate (unat old_sz) 0) @ take (unat len) dat;
               fat32_write_file path buf (old_sz + len) s5
             }
   }"

fun fat32_strerror :: "fat32_err_t \<Rightarrow> string" where
  "fat32_strerror FAT32_OK = ''OK''"
| "fat32_strerror FAT32_ERR_NOTFOUND = ''File not found''"
| "fat32_strerror FAT32_ERR_EXISTS = ''Already exists''"
| "fat32_strerror FAT32_ERR_FULL = ''Disk full''"
| "fat32_strerror FAT32_ERR_IO = ''I/O error''"
| "fat32_strerror FAT32_ERR_NOTDIR = ''Not a directory''"
| "fat32_strerror FAT32_ERR_ISDIR = ''Is a directory''"
| "fat32_strerror FAT32_ERR_NOMEM = ''Out of memory''"
| "fat32_strerror FAT32_ERR_NODEV = ''No device''"
| "fat32_strerror FAT32_ERR_NOTEMPTY = ''Directory not empty''"

text \<open>\<open>fat32_print_stats\<close>: the text it writes to the screen.\<close>

fun count_free :: "u32 list \<Rightarrow> u32 \<Rightarrow> vol \<Rightarrow> u32 \<times> vol" where
  "count_free [] n s = (n, s)"
| "count_free (c # cs) n s =
     (let (v, s1) = fat_get c s in count_free cs (if v = FAT32_FREE then n + 1 else n) s1)"

definition fat32_print_stats :: "vol \<Rightarrow> bytes \<times> vol" where
  "fat32_print_stats s =
     (if \<not> vol_mounted s then (ascii ''/persist: not mounted'' @ [10], s)
      else let (free_clus, s1) = count_free (range32 2 (vol_total_clusters (geo s) + 2)) 0 s;
               free_mb = (free_clus * vol_sec_per_clus (geo s) * 512) div (1024 * 1024);
               total_mb = (vol_total_clusters (geo s) * vol_sec_per_clus (geo s) * 512) div (1024 * 1024)
           in (ascii ''/persist: FAT32, '' @ dec_digits (unat total_mb) @ ascii '' MB total, '' @
                 dec_digits (unat free_mb) @ ascii '' MB free'' @ [10], s1))"

end
