(* ===== verification/Fat_Format.thy ===== *)
theory Fat_Format
  imports Fat_Ops
begin

text \<open>
  The boot sector and \<open>fat32_format\<close> (\<open>src/fs/fat32_internal.h\<close>, \<open>src/fs/fat32_core.c\<close> 473-546).
\<close>

section \<open>The boot sector\<close>

record fat32_bpb_t =
  bpb_jump :: bytes
  bpb_oem :: bytes
  bpb_bytes_per_sector :: u16
  bpb_sectors_per_cluster :: u8
  bpb_reserved_sectors :: u16
  bpb_num_fats :: u8
  bpb_root_entry_count :: u16
  bpb_total_sectors_16 :: u16
  bpb_media_type :: u8
  bpb_fat_size_16 :: u16
  bpb_sectors_per_track :: u16
  bpb_num_heads :: u16
  bpb_hidden_sectors :: u32
  bpb_total_sectors_32 :: u32
  bpb_fat_size_32 :: u32
  bpb_ext_flags :: u16
  bpb_fs_version :: u16
  bpb_root_cluster :: u32
  bpb_fs_info :: u16
  bpb_backup_boot_sector :: u16
  bpb_reserved :: bytes
  bpb_drive_number :: u8
  bpb_reserved1 :: u8
  bpb_boot_sig :: u8
  bpb_volume_id :: u32
  bpb_volume_label :: bytes
  bpb_fs_type :: bytes

definition pack_bpb :: "fat32_bpb_t \<Rightarrow> bytes" where
  "pack_bpb b = bpb_jump b @ bpb_oem b @ le16 (bpb_bytes_per_sector b) @ [bpb_sectors_per_cluster b] @
     le16 (bpb_reserved_sectors b) @ [bpb_num_fats b] @ le16 (bpb_root_entry_count b) @
     le16 (bpb_total_sectors_16 b) @ [bpb_media_type b] @ le16 (bpb_fat_size_16 b) @
     le16 (bpb_sectors_per_track b) @ le16 (bpb_num_heads b) @ le32 (bpb_hidden_sectors b) @
     le32 (bpb_total_sectors_32 b) @ le32 (bpb_fat_size_32 b) @ le16 (bpb_ext_flags b) @
     le16 (bpb_fs_version b) @ le32 (bpb_root_cluster b) @ le16 (bpb_fs_info b) @
     le16 (bpb_backup_boot_sector b) @ bpb_reserved b @
     [bpb_drive_number b, bpb_reserved1 b, bpb_boot_sig b] @ le32 (bpb_volume_id b) @
     bpb_volume_label b @ bpb_fs_type b"

text \<open>The structure a cast of a sector gives.\<close>

definition unpack_bpb :: "sector \<Rightarrow> fat32_bpb_t" where
  "unpack_bpb f = \<lparr>bpb_jump = slice f 0 3, bpb_oem = slice f 3 8, bpb_bytes_per_sector = get16 f 11,
     bpb_sectors_per_cluster = f 13, bpb_reserved_sectors = get16 f 14, bpb_num_fats = f 16,
     bpb_root_entry_count = get16 f 17, bpb_total_sectors_16 = get16 f 19, bpb_media_type = f 21,
     bpb_fat_size_16 = get16 f 22, bpb_sectors_per_track = get16 f 24, bpb_num_heads = get16 f 26,
     bpb_hidden_sectors = get32 f 28, bpb_total_sectors_32 = get32 f 32, bpb_fat_size_32 = get32 f 36,
     bpb_ext_flags = get16 f 40, bpb_fs_version = get16 f 42, bpb_root_cluster = get32 f 44,
     bpb_fs_info = get16 f 48, bpb_backup_boot_sector = get16 f 50, bpb_reserved = slice f 52 12,
     bpb_drive_number = f 64, bpb_reserved1 = f 65, bpb_boot_sig = f 66, bpb_volume_id = get32 f 67,
     bpb_volume_label = slice f 71 11, bpb_fs_type = slice f 82 8\<rparr>"

section \<open>Formatting\<close>

text \<open>The sectors of one FAT for a volume of \<open>total_sectors\<close>, rounded up to a multiple of eight.\<close>

definition format_fat_size :: "u32 \<Rightarrow> u32" where
  "format_fat_size total_sectors =
     (let data_sectors = total_sectors - 32;
          total_clusters = data_sectors div 8;
          fat_size = (total_clusters * 4 + 512 - 1) div 512
      in (fat_size + 7) AND NOT 7)"

definition format_bpb :: "u32 \<Rightarrow> u32 \<Rightarrow> fat32_bpb_t" where
  "format_bpb lba_start total_sectors = \<lparr>bpb_jump = [0xEB, 0x58, 0x90], bpb_oem = ascii ''CHIMAERA'',
     bpb_bytes_per_sector = 512, bpb_sectors_per_cluster = 8, bpb_reserved_sectors = 32, bpb_num_fats = 2,
     bpb_root_entry_count = 0, bpb_total_sectors_16 = 0, bpb_media_type = 0xF8, bpb_fat_size_16 = 0,
     bpb_sectors_per_track = 63, bpb_num_heads = 255, bpb_hidden_sectors = lba_start,
     bpb_total_sectors_32 = total_sectors, bpb_fat_size_32 = format_fat_size total_sectors,
     bpb_ext_flags = 0, bpb_fs_version = 0, bpb_root_cluster = 2, bpb_fs_info = 1,
     bpb_backup_boot_sector = 6, bpb_reserved = replicate 12 0, bpb_drive_number = 0x80,
     bpb_reserved1 = 0, bpb_boot_sig = 0x29, bpb_volume_id = 0xC0FFEE42,
     bpb_volume_label = ascii ''CHIMAERA   '', bpb_fs_type = ascii ''FAT32   ''\<rparr>"

definition boot_sector :: "u32 \<Rightarrow> u32 \<Rightarrow> sector" where
  "boot_sector lba_start total_sectors =
     blit 510 [0x55, 0xAA] (blit 0 (pack_bpb (format_bpb lba_start total_sectors)) zero_sector)"

text \<open>The first FAT sector: the media entry, the end marker and the root directory's cluster.\<close>

definition first_fat_sector :: sector where
  "first_fat_sector = blit 0 (le32 0x0FFFFFF8 @ le32 0x0FFFFFFF @ le32 0x0FFFFFFF) zero_sector"

definition fat32_format :: "u32 \<Rightarrow> u32 \<Rightarrow> vol \<Rightarrow> bool \<times> vol" where
  "fat32_format lba_start total_sectors s =
     (let fat_size = format_fat_size total_sectors;
          (ok, s1) = vol_blk_write lba_start (boot_sector lba_start total_sectors) s
      in if \<not> ok then (False, s1)
         else let fat_lba = lba_start + 32;
                  s2 = fold (\<lambda>f. zero_sectors (range32 0 fat_size) (fat_lba + f * fat_size)) (range32 0 2) s1;
                  s3 = fold (\<lambda>f s. snd (vol_blk_write (fat_lba + f * fat_size) first_fat_sector s)) (range32 0 2) s2;
                  root_lba = fat_lba + 2 * fat_size
              in (True, zero_sectors (range32 0 8) root_lba s3))"

section \<open>Reading the boot sector back\<close>

definition bpb_shape :: "fat32_bpb_t \<Rightarrow> bool" where
  "bpb_shape b \<longleftrightarrow> length (bpb_jump b) = 3 \<and> length (bpb_oem b) = 8 \<and> length (bpb_reserved b) = 12 \<and>
     length (bpb_volume_label b) = 11 \<and> length (bpb_fs_type b) = 8"

lemma length_pack_bpb: "bpb_shape b \<Longrightarrow> length (pack_bpb b) = 90"
  by (simp add: pack_bpb_def bpb_shape_def)

end
