(* ===== verification/Fsck_Bridge.thy ===== *)
theory Fsck_Bridge
  imports Fat_Ops
begin

text \<open>
  The bridge between the filesystem checker and the FAT driver (\<open>src/fs/fat32_fsck.c\<close>,
  \<open>src/include/fsck.h\<close>): the checker's view of directories, the marking of cluster chains and the
  repairs of single entries.
\<close>

section \<open>The checker's state\<close>

record fsck_stats_t =
  fat_mismatch_sectors :: u32
  fat_mismatch_repaired :: u32
  orphan_clusters :: u32
  orphan_clusters_rescued :: u32
  crosslink_clusters :: u32
  crosslink_repaired :: u32
  invalid_entries :: u32
  orphan_lfn_entries :: u32
  repair_failures :: u32

definition fsck_stats_init :: fsck_stats_t where
  "fsck_stats_init = \<lparr>fat_mismatch_sectors = 0, fat_mismatch_repaired = 0, orphan_clusters = 0,
     orphan_clusters_rescued = 0, crosslink_clusters = 0, crosslink_repaired = 0,
     invalid_entries = 0, orphan_lfn_entries = 0, repair_failures = 0\<rparr>"

record clus_ref_t =
  ref_cluster :: u32
  ref_entry :: u32
  ref_claimed :: bool

text \<open>The volume and the locals of \<open>chimerafs_fsck\<close> that the checks share.\<close>

record fsck =
  fk_vol :: vol
  reach_bmp :: bytes
  ref_table :: "clus_ref_t list"
  fk_stats :: fsck_stats_t
  need_readonly :: bool

definition upd_stats :: "(fsck_stats_t \<Rightarrow> fsck_stats_t) \<Rightarrow> fsck \<Rightarrow> fsck" where
  "upd_stats f k = k\<lparr>fk_stats := f (fk_stats k)\<rparr>"

text \<open>A call of the driver on the volume.\<close>

definition on_vol :: "(vol \<Rightarrow> 'a \<times> vol) \<Rightarrow> fsck \<Rightarrow> 'a \<times> fsck" where
  "on_vol f k = (let (r, v) = f (fk_vol k) in (r, k\<lparr>fk_vol := v\<rparr>))"

definition bmp_set :: "bytes \<Rightarrow> u32 \<Rightarrow> bytes" where
  "bmp_set bmp idx = bmp[unat (idx div 8) := bmp ! unat (idx div 8) OR ucast (push_bit (unat (idx mod 8)) (1 :: u32))]"

definition bmp_get :: "bytes \<Rightarrow> u32 \<Rightarrow> bool" where
  "bmp_get bmp idx \<longleftrightarrow> drop_bit (unat (idx mod 8)) (bmp ! unat (idx div 8)) AND 1 = 1"

section \<open>Volume access\<close>

definition fsck_get_vol_params :: "vol \<Rightarrow> u32 \<times> u32 \<times> u32 \<times> u32 \<times> u32" where
  "fsck_get_vol_params s = (vol_fat_lba (geo s), vol_fat_size (geo s), vol_num_fats (geo s),
     vol_total_clusters (geo s), vol_root_cluster (geo s))"

definition fsck_fat_get :: "u32 \<Rightarrow> vol \<Rightarrow> u32 \<times> vol" where
  "fsck_fat_get cluster s = fat_get cluster s"

definition fsck_fat_free_chain :: "u32 \<Rightarrow> vol \<Rightarrow> vol option" where
  "fsck_fat_free_chain start s = fat_free_chain start s"

definition fsck_lfn_checksum :: "bytes \<Rightarrow> u8" where
  "fsck_lfn_checksum name83 = lfn_checksum name83"

definition fsck_set_readonly :: "vol \<Rightarrow> vol" where
  "fsck_set_readonly s = s\<lparr>vol_readonly := True\<rparr>"

section \<open>Directory iteration\<close>

record fsck_dir_iter_t =
  it_cluster :: u32
  it_entry_idx :: u32
  it_lba :: u32
  it_off :: u32

definition fsck_dir_iter_init :: "geometry \<Rightarrow> u32 \<Rightarrow> fsck_dir_iter_t" where
  "fsck_dir_iter_init g cluster =
     \<lparr>it_cluster = cluster, it_entry_idx = 0, it_lba = cluster_to_lba g cluster, it_off = 0\<rparr>"

text \<open>
  The slot at the iterator and the iterator moved on. The chain's end does not end the iteration:
  the call returns true and the iterator stands behind the last cluster. The outer \<open>None\<close> is the
  division by \<open>vol_sec_per_clus = 0\<close>.
\<close>

definition fsck_dir_iter_next ::
  "fsck_dir_iter_t \<Rightarrow> vol \<Rightarrow> ((bytes option \<times> fsck_dir_iter_t) \<times> vol) option" where
  "fsck_dir_iter_next it s =
     (let (ok, s1) = sec_read (it_lba it) s
      in if \<not> ok then Some ((None, it), s1)
         else let re = slice (sec_cache s1) (unat (it_off it)) 32;
                  it1 = it\<lparr>it_off := it_off it + 32, it_entry_idx := it_entry_idx it + 1\<rparr>
              in if it_off it1 \<ge> 512
                 then let it2 = it1\<lparr>it_off := 0, it_lba := it_lba it1 + 1\<rparr>;
                          base = cluster_to_lba (geo s1) (it_cluster it2)
                      in do {
                        sec_in_clus \<leftarrow> c_mod (it_lba it2 - base) (vol_sec_per_clus (geo s1));
                        if sec_in_clus = 0 \<and> it_lba it2 \<noteq> base
                        then let (next_clus, s2) = fat_get (it_cluster it2) s1
                             in if next_clus \<ge> FAT32_EOC \<or> next_clus < 2 then Some ((Some re, it2), s2)
                                else Some ((Some re, it2\<lparr>it_cluster := next_clus,
                                        it_lba := cluster_to_lba (geo s2) next_clus\<rparr>), s2)
                        else Some ((Some re, it2), s1)
                      }
                 else Some ((Some re, it1), s1))"

text \<open>Where the repairs look for the slot that was read last: 32 bytes back, on the previous sector at
  a sector's start.\<close>

definition prev_slot :: "fsck_dir_iter_t \<Rightarrow> u32 \<times> u32" where
  "prev_slot it = (if it_off it = 0 then (it_lba it - 1, 512 - 32) else (it_lba it, it_off it - 32))"

definition fsck_delete_entry :: "fsck_dir_iter_t \<Rightarrow> vol \<Rightarrow> bool \<times> vol" where
  "fsck_delete_entry it s =
     (let (lba, off) = prev_slot it;
          (ok, s1) = sec_read lba s
      in if \<not> ok then (False, s1) else cache_patch (unat off) [0xE5] s1)"

partial_function (option) delete_range ::
  "u32 \<Rightarrow> u32 \<Rightarrow> u32 \<Rightarrow> fsck_dir_iter_t \<Rightarrow> vol \<Rightarrow> vol option" where
  "delete_range i first_entry_idx last_entry_idx scan s =
     (if \<not> i \<le> last_entry_idx then Some s
      else do {
        ((re, scan1), s1) \<leftarrow> fsck_dir_iter_next scan s;
        case re of
          None \<Rightarrow> Some s1
        | Some _ \<Rightarrow>
            if i < first_entry_idx then delete_range (i + 1) first_entry_idx last_entry_idx scan1 s1
            else let (lba, off) = prev_slot scan1;
                     (ok, s2) = sec_read lba s1
                 in if \<not> ok then delete_range (i + 1) first_entry_idx last_entry_idx scan1 s2
                    else let (_, s3) = cache_patch (unat off) [0xE5] s2
                         in delete_range (i + 1) first_entry_idx last_entry_idx scan1 s3
      })"

definition fsck_delete_entries_range :: "u32 \<Rightarrow> u32 \<Rightarrow> u32 \<Rightarrow> vol \<Rightarrow> vol option" where
  "fsck_delete_entries_range first_entry_idx last_entry_idx dir_cluster s =
     delete_range 0 first_entry_idx last_entry_idx (fsck_dir_iter_init (geo s) dir_cluster) s"

definition fsck_entry_fields :: "bytes \<Rightarrow> u32 \<times> u32 \<times> u32" where
  "fsck_entry_fields re = (ucast (field16 re 20), ucast (field16 re 26), field32 re 28)"

definition zero_entry_at :: "fsck_dir_iter_t \<Rightarrow> vol \<Rightarrow> bool \<times> vol" where
  "zero_entry_at it s =
     (let (lba, off) = prev_slot it;
          (ok, s1) = sec_read lba s
      in if \<not> ok then (False, s1)
         else let o' = unat off
              in sec_flush (s1\<lparr>sec_cache := blit (o' + 26) (replicate 6 0) (blit (o' + 20) (replicate 2 0) (sec_cache s1)),
                               sec_cache_dirty := True\<rparr>))"

partial_function (option) zero_entry_from ::
  "u32 \<Rightarrow> u32 \<Rightarrow> fsck_dir_iter_t \<Rightarrow> vol \<Rightarrow> (bool \<times> vol) option" where
  "zero_entry_from i entry_idx it s =
     (if \<not> i \<le> entry_idx then Some (False, s)
      else do {
        ((re, it1), s1) \<leftarrow> fsck_dir_iter_next it s;
        if re = None then Some (False, s1)
        else if i < entry_idx then zero_entry_from (i + 1) entry_idx it1 s1
        else Some (zero_entry_at it1 s1)
      })"

definition fsck_zero_entry_cluster :: "u32 \<Rightarrow> u32 \<Rightarrow> vol \<Rightarrow> (bool \<times> vol) option" where
  "fsck_zero_entry_cluster dir_cluster entry_idx s =
     zero_entry_from 0 entry_idx (fsck_dir_iter_init (geo s) dir_cluster) s"

section \<open>Marking a chain\<close>

text \<open>
  The loop of \<open>fsck_mark_chain\<close>; the first argument is the number of rounds the guard leaves
  (\<open>vol_total_clusters - guard\<close>).
\<close>

fun mark_chain :: "nat \<Rightarrow> u32 \<Rightarrow> u32 \<Rightarrow> u32 \<Rightarrow> u32 \<Rightarrow> u32 \<Rightarrow> fsck \<Rightarrow> fsck" where
  "mark_chain 0 tot start dir_cluster entry_idx c k = k"
| "mark_chain (Suc n) tot start dir_cluster entry_idx c k =
     (if \<not> (2 \<le> c \<and> c < tot + 2) then k
      else let idx = unat (c - 2);
               r = ref_table k ! idx
           in if bmp_get (reach_bmp k) (c - 2)
              then if start = dir_cluster
                   then let k1 = k\<lparr>ref_table := (ref_table k)[idx := r\<lparr>ref_cluster := dir_cluster, ref_entry := entry_idx\<rparr>]\<rparr>;
                            (next_self, k2) = on_vol (fat_get c) k1
                        in if next_self \<ge> FAT32_EOC \<or> next_self = 0 then k2
                           else mark_chain n tot start dir_cluster entry_idx next_self k2
                   else if ref_cluster r \<noteq> dir_cluster \<or> ref_entry r \<noteq> entry_idx
                   then upd_stats (\<lambda>st. st\<lparr>crosslink_clusters := crosslink_clusters st + 1,
                                           crosslink_repaired := crosslink_repaired st + 1\<rparr>)
                          (k\<lparr>need_readonly := False\<rparr>)
                   else k
              else let k1 = k\<lparr>reach_bmp := bmp_set (reach_bmp k) (c - 2),
                              ref_table := (ref_table k)[idx := \<lparr>ref_cluster = dir_cluster, ref_entry = entry_idx,
                                                                ref_claimed = True\<rparr>]\<rparr>;
                       (nxt, k2) = on_vol (fat_get c) k1
                   in if nxt \<ge> FAT32_EOC \<or> nxt = 0 then k2
                      else mark_chain n tot start dir_cluster entry_idx nxt k2)"

definition fsck_mark_chain :: "u32 \<Rightarrow> u32 \<Rightarrow> u32 \<Rightarrow> u32 \<Rightarrow> fsck \<Rightarrow> fsck" where
  "fsck_mark_chain start dir_cluster entry_idx tot k =
     mark_chain (unat tot) tot start dir_cluster entry_idx start k"

section \<open>Adopting a chain\<close>

fun chain_bytes :: "nat \<Rightarrow> u32 \<Rightarrow> u32 \<Rightarrow> u32 \<Rightarrow> vol \<Rightarrow> u32 \<times> vol" where
  "chain_bytes 0 cluster_size c len s = (len, s)"
| "chain_bytes (Suc n) cluster_size c len s =
     (if \<not> (2 \<le> c \<and> c < FAT32_EOC) then (len, s)
      else let (nxt, s1) = fat_get c s in chain_bytes n cluster_size nxt (len + cluster_size) s1)"

definition fsck_adopt_chain :: "bytes \<Rightarrow> u32 \<Rightarrow> vol \<Rightarrow> (bool \<times> vol) option" where
  "fsck_adopt_chain path first_cluster s = do {
     ((parent, name), s1) \<leftarrow> path_resolve_parent path s;
     if parent = 0 \<or> name = [] then Some (False, s1)
     else do {
       let cluster_size = vol_sec_per_clus (geo s1) * 512;
       let (chain_len, s2) = chain_bytes (unat (vol_total_clusters (geo s1))) cluster_size first_cluster 0 s1;
       (_, s3) \<leftarrow> make_83_unique parent name s2;
       (pos, s4) \<leftarrow> dir_add_entry parent name ATTR_ARCHIVE first_cluster chain_len s3;
       Some (pos \<noteq> None, s4)
     }
   }"

end
