(* ===== verification/Fsck.thy ===== *)
theory Fsck
  imports Fsck_Bridge
begin

text \<open>
  The boot-time consistency checker (\<open>src/fs/fsck.c\<close>): the FAT mismatch check, the walk over the
  directory tree and the rescue of orphaned chains. The log lines are left out. The two tables of the
  checker are lists of as many elements as the code asks the heap for.
\<close>

section \<open>C1: the FAT copies\<close>

fun check_fat_sectors :: "u32 list \<Rightarrow> u32 \<Rightarrow> u32 \<Rightarrow> u32 \<Rightarrow> fsck \<Rightarrow> u32 \<times> fsck" where
  "check_fat_sectors [] fat_lba fat2_base repaired k = (repaired, k)"
| "check_fat_sectors (i # is) fat_lba fat2_base repaired k =
     (case (blk_read (fat_lba + i) (drv (fk_vol k)), blk_read (fat2_base + i) (drv (fk_vol k))) of
        (Some fat1, Some fat2) \<Rightarrow>
          if slice fat1 0 512 = slice fat2 0 512 then check_fat_sectors is fat_lba fat2_base repaired k
          else let k1 = upd_stats (\<lambda>st. st\<lparr>fat_mismatch_sectors := fat_mismatch_sectors st + 1\<rparr>) k;
                   (ok, k2) = on_vol (vol_blk_write (fat2_base + i) fat1) k1
               in if ok then check_fat_sectors is fat_lba fat2_base (repaired + 1) k2
                  else check_fat_sectors is fat_lba fat2_base repaired
                         (upd_stats (\<lambda>st. st\<lparr>repair_failures := repair_failures st + 1\<rparr>) k2)
      | _ \<Rightarrow> check_fat_sectors is fat_lba fat2_base repaired k)"

definition check_fat_mismatch :: "u32 \<Rightarrow> u32 \<Rightarrow> u32 \<Rightarrow> fsck \<Rightarrow> u32 \<times> fsck" where
  "check_fat_mismatch fat_lba fat_size num_fats k =
     (if num_fats < 2 then (0, k)
      else let (repaired, k1) = check_fat_sectors (range32 0 fat_size) fat_lba (fat_lba + fat_size) 0 k
           in (repaired, upd_stats (\<lambda>st. st\<lparr>fat_mismatch_repaired := repaired\<rparr>) k1))"

section \<open>C3 to C5: walking the tree\<close>

text \<open>The locals of \<open>walk_dir\<close> that live across entries.\<close>

record walk_locals =
  wl_entry_idx :: u32
  wl_building :: bool
  wl_seq :: int
  wl_checksum :: u8
  wl_start :: u32

definition walk_init :: walk_locals where
  "walk_init = \<lparr>wl_entry_idx = 0, wl_building = False, wl_seq = 0, wl_checksum = 0, wl_start = 0\<rparr>"

text \<open>Delete the entry read last; a failed write makes the volume read-only.\<close>

definition walk_delete :: "fsck_dir_iter_t \<Rightarrow> fsck \<Rightarrow> fsck" where
  "walk_delete it k =
     (let (ok, k1) = on_vol (fsck_delete_entry it) k
      in if ok then k1
         else upd_stats (\<lambda>st. st\<lparr>repair_failures := repair_failures st + 1\<rparr>) (k1\<lparr>need_readonly := True\<rparr>))"

abbreviation count_lfn :: "fsck \<Rightarrow> fsck" where
  "count_lfn k \<equiv> upd_stats (\<lambda>st. st\<lparr>orphan_lfn_entries := orphan_lfn_entries st + 1\<rparr>) k"

abbreviation count_invalid :: "fsck \<Rightarrow> fsck" where
  "count_invalid k \<equiv> upd_stats (\<lambda>st. st\<lparr>invalid_entries := invalid_entries st + 1\<rparr>) k"

text \<open>A long-name slot.\<close>

definition walk_lfn :: "fsck_dir_iter_t \<Rightarrow> bytes \<Rightarrow> walk_locals \<Rightarrow> fsck \<Rightarrow> walk_locals \<times> fsck" where
  "walk_lfn it re L k =
     (let order = re ! 0; checksum = re ! 13; sq = uint (order AND 0x1F)
      in if order AND 0x40 \<noteq> 0
         then (L\<lparr>wl_building := True, wl_seq := sq, wl_checksum := checksum, wl_start := wl_entry_idx L\<rparr>, k)
         else if \<not> wl_building L then (L, walk_delete it (count_lfn k))
         else if sq \<noteq> wl_seq L - 1 then (L\<lparr>wl_building := False, wl_seq := 0\<rparr>, walk_delete it (count_lfn k))
         else if checksum \<noteq> wl_checksum L
         then (L\<lparr>wl_building := False, wl_seq := 0\<rparr>, walk_delete it (count_lfn k))
         else (L\<lparr>wl_seq := sq\<rparr>, k))"

text \<open>The long name that ends at a short entry: deleted when incomplete or with another checksum.\<close>

definition walk_lfn_end :: "u32 \<Rightarrow> bytes \<Rightarrow> walk_locals \<Rightarrow> fsck \<Rightarrow> fsck option" where
  "walk_lfn_end dir_cluster re L k =
     (if wl_building L \<and> (wl_seq L \<noteq> 1 \<or> fsck_lfn_checksum re \<noteq> wl_checksum L)
      then do {
        let k1 = count_lfn k;
        v \<leftarrow> fsck_delete_entries_range (wl_start L) (wl_entry_idx L - 1) dir_cluster (fk_vol k1);
        Some (k1\<lparr>fk_vol := v\<rparr>)
      }
      else Some k)"

definition is_dot_slot :: "bytes \<Rightarrow> bool" where
  "is_dot_slot re \<longleftrightarrow> re ! 0 = CH_DOT \<and> (re ! 1 = CH_SPACE \<or> re ! 1 = CH_DOT)"

text \<open>Claim the chain of an entry; a chain that meets another one is cut off in the entry.\<close>

definition walk_claim :: "u32 \<Rightarrow> u32 \<Rightarrow> u32 \<Rightarrow> u32 \<Rightarrow> fsck \<Rightarrow> fsck option" where
  "walk_claim dir_cluster entry_idx first_cluster tot k =
     (if \<not> 2 \<le> first_cluster then Some k
      else let xlink_before = crosslink_repaired (fk_stats k);
               k1 = fsck_mark_chain first_cluster dir_cluster entry_idx tot k
           in if crosslink_repaired (fk_stats k1) > xlink_before
              then do {
                (ok, v) \<leftarrow> fsck_zero_entry_cluster dir_cluster entry_idx (fk_vol k1);
                let k2 = k1\<lparr>fk_vol := v\<rparr>;
                Some (if ok then k2
                      else upd_stats (\<lambda>st. st\<lparr>repair_failures := repair_failures st + 1\<rparr>) (k2\<lparr>need_readonly := True\<rparr>))
              }
              else Some k1)"

text \<open>A short entry after the long-name checks: the checks C3 and C4, and the directory to descend into.\<close>

definition walk_short ::
  "u32 \<Rightarrow> u32 \<Rightarrow> fsck_dir_iter_t \<Rightarrow> bytes \<Rightarrow> walk_locals \<Rightarrow> fsck \<Rightarrow> (u32 option \<times> fsck) option" where
  "walk_short tot dir_cluster it re L k =
     (let attr = e_attr re;
          (hi, lo, file_size) = fsck_entry_fields re;
          first_cluster = push_bit 16 hi OR lo
      in if attr AND NOT 0x3F \<noteq> 0 then Some (None, walk_delete it (count_invalid k))
         else if attr AND 0x08 \<noteq> 0 then Some (None, k)
         else if first_cluster = 1 then Some (None, walk_delete it (count_invalid k))
         else if 2 \<le> first_cluster \<and> first_cluster \<ge> tot + 2 then Some (None, walk_delete it (count_invalid k))
         else if is_dot_slot re then Some (None, k)
         else do {
           k1 \<leftarrow> walk_claim dir_cluster (wl_entry_idx L) first_cluster tot k;
           Some (if attr AND 0x10 \<noteq> 0 \<and> 2 \<le> first_cluster then Some first_cluster else None, k1)
         })"

text \<open>One entry: the locals for the next one and the directory to descend into.\<close>

definition walk_entry ::
  "u32 \<Rightarrow> u32 \<Rightarrow> fsck_dir_iter_t \<Rightarrow> bytes \<Rightarrow> walk_locals \<Rightarrow> fsck \<Rightarrow> ((walk_locals \<times> u32 option) \<times> fsck) option" where
  "walk_entry tot dir_cluster it re L k =
     (let advance = (\<lambda>L. L\<lparr>wl_entry_idx := wl_entry_idx L + 1\<rparr>)
      in if re ! 0 = 0xE5 then Some ((advance (L\<lparr>wl_building := False, wl_seq := 0\<rparr>), None), k)
         else if e_attr re = ATTR_LFN
         then let (L1, k1) = walk_lfn it re L k in Some ((advance L1, None), k1)
         else do {
           k1 \<leftarrow> walk_lfn_end dir_cluster re L k;
           let L1 = (if wl_building L then L\<lparr>wl_building := False, wl_seq := 0\<rparr> else L);
           (sub, k2) \<leftarrow> walk_short tot dir_cluster it re L1 k1;
           Some ((advance L1, sub), k2)
         })"

text \<open>
  The loop over a directory, with the recursion into its subdirectories. A subdirectory below depth 32
  is not entered.
\<close>

partial_function (option) walk_from ::
  "u32 \<Rightarrow> u32 \<Rightarrow> nat \<Rightarrow> fsck_dir_iter_t \<Rightarrow> walk_locals \<Rightarrow> fsck \<Rightarrow> fsck option" where
  "walk_from tot dir_cluster depth it L k = do {
     ((r, it1), v) \<leftarrow> fsck_dir_iter_next it (fk_vol k);
     let k1 = k\<lparr>fk_vol := v\<rparr>;
     case r of
       None \<Rightarrow> Some k1
     | Some re \<Rightarrow>
         if re ! 0 = 0 then Some k1
         else do {
           ((L1, sub), k2) \<leftarrow> walk_entry tot dir_cluster it1 re L k1;
           k3 \<leftarrow> (case sub of
                     None \<Rightarrow> Some k2
                   | Some d \<Rightarrow>
                       if depth + 1 > 32 \<or> d < 2 then Some k2
                       else let k3 = fsck_mark_chain d d 0 tot k2
                            in walk_from tot d (depth + 1) (fsck_dir_iter_init (geo (fk_vol k3)) d) walk_init k3);
           walk_from tot dir_cluster depth it1 L1 k3
         }
   }"

definition walk_dir :: "u32 \<Rightarrow> u32 \<Rightarrow> nat \<Rightarrow> fsck \<Rightarrow> fsck option" where
  "walk_dir tot dir_cluster depth k =
     (if depth > 32 \<or> dir_cluster < 2 then Some k
      else let k1 = fsck_mark_chain dir_cluster dir_cluster 0 tot k
           in walk_from tot dir_cluster depth (fsck_dir_iter_init (geo (fk_vol k1)) dir_cluster) walk_init k1)"

section \<open>C2: orphaned chains\<close>

definition ensure_lost_found :: "vol \<Rightarrow> (u32 \<times> vol) option" where
  "ensure_lost_found s = do {
     (_, s1) \<leftarrow> fat32_mkdir (ascii ''/lost+found'') s;
     (r, s2) \<leftarrow> fat32_stat (ascii ''/lost+found'') s1;
     Some (case r of Inl _ \<Rightarrow> 0 | Inr de \<Rightarrow> dirent_cluster de, s2)
   }"

definition hex_digit :: "u32 \<Rightarrow> u8" where
  "hex_digit d = (if d < 10 then 48 + ucast d else 55 + ucast d)"

definition rescue_path :: "u32 \<Rightarrow> bytes" where
  "rescue_path sq = ascii ''/lost+found/FILE_'' @
     map (\<lambda>n. hex_digit (drop_bit n sq AND 0xF)) [12, 8, 4, 0]"

definition rescue_chain :: "u32 \<Rightarrow> u32 \<Rightarrow> vol \<Rightarrow> ((bool \<times> u32) \<times> vol) option" where
  "rescue_chain start_cluster lf_seq s = do {
     (ok, s1) \<leftarrow> fsck_adopt_chain (rescue_path lf_seq) start_cluster s;
     Some ((ok, lf_seq + 1), s1)
   }"

text \<open>Mark the directory \<open>/lost+found\<close>, at most \<open>vol_total_clusters\<close> clusters of it.\<close>

fun mark_lost_found :: "nat \<Rightarrow> u32 \<Rightarrow> u32 \<Rightarrow> fsck \<Rightarrow> fsck" where
  "mark_lost_found 0 tot lfc k = k"
| "mark_lost_found (Suc n) tot lfc k =
     (if \<not> (2 \<le> lfc \<and> lfc < tot + 2) then k
      else let (nxt, k1) = on_vol (fsck_fat_get lfc) (k\<lparr>reach_bmp := bmp_set (reach_bmp k) (lfc - 2)\<rparr>)
           in if nxt \<ge> 0x0FFFFFF8 \<or> nxt = 0 then k1 else mark_lost_found n tot nxt k1)"

text \<open>Mark a rescued chain, to its end.\<close>

partial_function (option) mark_rescued :: "u32 \<Rightarrow> u32 \<Rightarrow> fsck \<Rightarrow> fsck option" where
  "mark_rescued tot nc k =
     (if \<not> (2 \<le> nc \<and> nc < tot + 2) then Some k
      else let (nxt, k1) = on_vol (fsck_fat_get nc) (k\<lparr>reach_bmp := bmp_set (reach_bmp k) (nc - 2)\<rparr>)
           in if nxt \<ge> 0x0FFFFFF8 \<or> nxt = 0 then Some k1 else mark_rescued tot nxt k1)"

record orphan_locals =
  lf_cluster :: u32
  lf_seq :: u32
  lf_created :: bool

text \<open>Whether an unreachable cluster counts as the head of a chain.\<close>

definition is_chain_head :: "u32 \<Rightarrow> fsck \<Rightarrow> bool \<times> fsck" where
  "is_chain_head c k =
     (let (prev_val, k1) = (if 3 \<le> c then on_vol (fsck_fat_get (c - 1)) k else (0, k))
      in (prev_val = 0 \<or> prev_val \<ge> 0x0FFFFFF7 \<or> prev_val = 0x0FFFFFF8 \<or> \<not> bmp_get (reach_bmp k1) (c - 1 - 2), k1))"

definition orphan_prepare :: "u32 \<Rightarrow> orphan_locals \<Rightarrow> fsck \<Rightarrow> (orphan_locals \<times> fsck) option" where
  "orphan_prepare tot L k =
     (if lf_created L then Some (L, k)
      else do {
        (lf, v) \<leftarrow> ensure_lost_found (fk_vol k);
        let k1 = k\<lparr>fk_vol := v\<rparr>;
        Some (L\<lparr>lf_cluster := lf, lf_created := True\<rparr>,
              if lf \<noteq> 0 then mark_lost_found (unat tot) tot lf k1 else k1)
      })"

definition orphan_repair :: "u32 \<Rightarrow> u32 \<Rightarrow> orphan_locals \<Rightarrow> fsck \<Rightarrow> (orphan_locals \<times> fsck) option" where
  "orphan_repair tot c L k =
     (if lf_cluster L \<noteq> 0
      then do {
        ((ok, sq), v) \<leftarrow> rescue_chain c (lf_seq L) (fk_vol k);
        let L1 = L\<lparr>lf_seq := sq\<rparr>;
        let k1 = k\<lparr>fk_vol := v\<rparr>;
        if ok
        then do {
          k2 \<leftarrow> mark_rescued tot c (upd_stats (\<lambda>st. st\<lparr>orphan_clusters_rescued := orphan_clusters_rescued st + 1\<rparr>) k1);
          Some (L1, k2)
        }
        else do {
          v \<leftarrow> fsck_fat_free_chain c (fk_vol k1);
          Some (L1, upd_stats (\<lambda>st. st\<lparr>repair_failures := repair_failures st + 1\<rparr>) (k1\<lparr>fk_vol := v\<rparr>))
        }
      }
      else do { v \<leftarrow> fsck_fat_free_chain c (fk_vol k); Some (L, k\<lparr>fk_vol := v\<rparr>) })"

fun orphan_scan :: "u32 \<Rightarrow> u32 list \<Rightarrow> orphan_locals \<Rightarrow> fsck \<Rightarrow> fsck option" where
  "orphan_scan tot [] L k = Some k"
| "orphan_scan tot (c # cs) L k =
     (let (fat_val, k1) = on_vol (fsck_fat_get c) k
      in if fat_val = 0 \<or> fat_val = 0x0FFFFFF7 \<or> bmp_get (reach_bmp k1) (c - 2) then orphan_scan tot cs L k1
         else let (hd, k2) = is_chain_head c k1
              in if \<not> hd then orphan_scan tot cs L k2
                 else do {
                   (L1, k3) \<leftarrow> orphan_prepare tot L (upd_stats (\<lambda>st. st\<lparr>orphan_clusters := orphan_clusters st + 1\<rparr>) k2);
                   (L2, k4) \<leftarrow> orphan_repair tot c L1 k3;
                   orphan_scan tot cs L2 k4
                 })"

section \<open>The checker\<close>

abbreviation SIZEOF_CLUS_REF :: u32 where "SIZEOF_CLUS_REF \<equiv> 12"

text \<open>The checks that need the tables; \<open>k\<close> holds them zeroed.\<close>

definition fsck_tree :: "u32 \<Rightarrow> u32 \<Rightarrow> fsck \<Rightarrow> fsck option" where
  "fsck_tree tot root k = do {
     k1 \<leftarrow> walk_dir tot root 0 k;
     orphan_scan tot (range32 2 (tot + 2)) \<lparr>lf_cluster = 0, lf_seq = 0, lf_created = False\<rparr> k1
   }"

definition fsck_summary :: "fsck \<Rightarrow> vol" where
  "fsck_summary k =
     (if need_readonly k \<or> repair_failures (fk_stats k) > 0 then fsck_set_readonly (fk_vol k) else fk_vol k)"

definition chimerafs_fsck :: "vol \<Rightarrow> vol option" where
  "chimerafs_fsck s =
     (let (fat_lba, fat_size, num_fats, tot, root) = fsck_get_vol_params s;
          k0 = \<lparr>fk_vol = s, reach_bmp = [], ref_table = [], fk_stats = fsck_stats_init, need_readonly = False\<rparr>;
          (_, k1) = check_fat_mismatch fat_lba fat_size num_fats k0;
          bmp_bytes = (tot + 7) div 8;
          (bmp, k2) = on_vol (vol_kmalloc bmp_bytes) k1
      in if bmp = None then Some (fsck_summary k2)
         else let (refs, k3) = on_vol (vol_kmalloc (tot * SIZEOF_CLUS_REF)) k2
              in if refs = None then Some (fsck_summary k3)
                 else do {
                   k4 \<leftarrow> fsck_tree tot root (k3\<lparr>reach_bmp := replicate (unat bmp_bytes) 0,
                       ref_table := replicate (unat tot) \<lparr>ref_cluster = 0, ref_entry = 0, ref_claimed = False\<rparr>\<rparr>);
                   Some (fsck_summary k4)
                 })"

end
