(* ===== verification/Fat_Mount.thy ===== *)
theory Fat_Mount
  imports Fat_Format Fsck
begin

text \<open>
  Mounting (\<open>src/fs/fat32_core.c\<close> 734-835): the partition table, formatting a blank disk, the volume
  geometry, the repair of the second FAT and the consistency check.
\<close>

section \<open>Finding the volume\<close>

definition has_signature :: "sector \<Rightarrow> bool" where
  "has_signature b \<longleftrightarrow> b 510 = 0x55 \<and> b 511 = 0xAA"

record mbr_partition_t =
  part_status :: u8
  part_chs_first :: bytes
  part_type :: u8
  part_chs_last :: bytes
  part_lba_start :: u32
  part_lba_size :: u32

definition unpack_partition :: "sector \<Rightarrow> nat \<Rightarrow> mbr_partition_t" where
  "unpack_partition f o' = \<lparr>part_status = f o', part_chs_first = slice f (o' + 1) 3, part_type = f (o' + 4),
     part_chs_last = slice f (o' + 5) 3, part_lba_start = get32 f (o' + 8), part_lba_size = get32 f (o' + 12)\<rparr>"

text \<open>The first partition of type 0x0B or 0x0C, sector 0 without one.\<close>

definition partition_start :: "sector \<Rightarrow> u32" where
  "partition_start mbr =
     (let parts = map (\<lambda>i. unpack_partition mbr (0x1BE + 16 * i)) [0..<4]
      in case filter (\<lambda>p. part_type p = 0x0B \<or> part_type p = 0x0C) parts of [] \<Rightarrow> 0 | p # _ \<Rightarrow> part_lba_start p)"

text \<open>Format and read the sector at the volume's start again.\<close>

definition reformat :: "u32 \<Rightarrow> u32 \<Rightarrow> vol \<Rightarrow> sector option \<times> vol" where
  "reformat lba tot s =
     (let (ok, s1) = fat32_format lba tot s in if \<not> ok then (None, s1) else (blk_read lba (drv s1), s1))"

definition mount_mbr :: "vol \<Rightarrow> sector option \<times> vol" where
  "mount_mbr s =
     (case blk_read 0 (drv s) of
        None \<Rightarrow> (None, s)
      | Some mbr \<Rightarrow>
          if has_signature mbr then (Some mbr, s)
          else reformat 0 (if drv_sectors (drv s) = 0 then 131072 else drv_sectors (drv s)) s)"

definition mount_boot :: "u32 \<Rightarrow> vol \<Rightarrow> sector option \<times> vol" where
  "mount_boot lba_start s =
     (case blk_read lba_start (drv s) of
        None \<Rightarrow> (None, s)
      | Some boot \<Rightarrow>
          let (r, s1) = (if has_signature boot then (Some boot, s)
                         else reformat lba_start (drv_sectors (drv s) - lba_start) s)
          in case r of
               None \<Rightarrow> (None, s1)
             | Some boot \<Rightarrow>
                 if take 5 (bpb_fs_type (unpack_bpb boot)) = ascii ''FAT32'' then (Some boot, s1)
                 else reformat lba_start (drv_sectors (drv s1) - lba_start) s1)"

section \<open>The geometry\<close>

definition volume_geometry :: "u32 \<Rightarrow> fat32_bpb_t \<Rightarrow> geometry option" where
  "volume_geometry lba_start bpb =
     (let fat_lba = lba_start + ucast (bpb_reserved_sectors bpb);
          data_lba = fat_lba + ucast (bpb_num_fats bpb) * bpb_fat_size_32 bpb;
          total_sec = (if bpb_total_sectors_32 bpb \<noteq> 0 then bpb_total_sectors_32 bpb
                       else ucast (bpb_total_sectors_16 bpb));
          data_sec = total_sec - (data_lba - lba_start)
      in do {
        clusters \<leftarrow> c_div data_sec (ucast (bpb_sectors_per_cluster bpb));
        Some \<lparr>vol_lba_start = lba_start, vol_bytes_per_sec = ucast (bpb_bytes_per_sector bpb),
              vol_sec_per_clus = ucast (bpb_sectors_per_cluster bpb),
              vol_reserved_sec = ucast (bpb_reserved_sectors bpb), vol_num_fats = ucast (bpb_num_fats bpb),
              vol_fat_size = bpb_fat_size_32 bpb, vol_root_cluster = bpb_root_cluster bpb,
              vol_fat_lba = fat_lba, vol_data_lba = data_lba, vol_total_clusters = clusters\<rparr>
      })"

section \<open>The second FAT\<close>

fun mirror_fats :: "u32 list \<Rightarrow> u32 \<Rightarrow> u32 \<Rightarrow> vol \<Rightarrow> vol" where
  "mirror_fats [] fat_lba fat2_base s = s"
| "mirror_fats (i # is) fat_lba fat2_base s =
     (case (blk_read (fat_lba + i) (drv s), blk_read (fat2_base + i) (drv s)) of
        (Some fat1, Some fat2) \<Rightarrow>
          mirror_fats is fat_lba fat2_base
            (if slice fat1 0 512 \<noteq> slice fat2 0 512 then snd (vol_blk_write (fat2_base + i) fat1 s) else s)
      | _ \<Rightarrow> s)"

definition mount_mirror :: "vol \<Rightarrow> vol" where
  "mount_mirror s =
     (let g = geo s
      in if vol_num_fats g \<ge> 2
         then (mirror_fats (range32 0 (vol_fat_size g)) (vol_fat_lba g) (vol_fat_lba g + vol_fat_size g) s)
                \<lparr>sec_cache_lba := NO_LBA, sec_cache_dirty := False\<rparr>
         else s)"

section \<open>Mounting\<close>

definition fat32_mount :: "vol \<Rightarrow> (bool \<times> vol) option" where
  "fat32_mount s =
     (if \<not> drv_present (drv s) then Some (False, s)
      else case mount_mbr s of
             (None, s1) \<Rightarrow> Some (False, s1)
           | (Some mbr, s1) \<Rightarrow>
               (let lba_start = partition_start mbr
                in case mount_boot lba_start s1 of
                     (None, s2) \<Rightarrow> Some (False, s2)
                   | (Some boot, s2) \<Rightarrow> do {
                       g \<leftarrow> volume_geometry lba_start (unpack_bpb boot);
                       let s3 = mount_mirror (s2\<lparr>geo := g, fds := replicate FAT32_MAX_FD fd_zero\<rparr>);
                       s4 \<leftarrow> chimerafs_fsck (s3\<lparr>vol_mounted := True\<rparr>);
                       Some (True, s4\<lparr>vol_mounted := True\<rparr>)
                     }))"

definition fat32_mounted :: "vol \<Rightarrow> bool" where
  "fat32_mounted s = vol_mounted s"

end
