(* ===== verification/Fsck_Spec.thy ===== *)
theory Fsck_Spec
  imports Fsck
begin

text \<open>
  What the checker's parts do: which clusters \<open>fsck_mark_chain\<close> claims and when it reports a cross-link,
  where the directory iterator goes at the end of a chain, and which orphans the scan passes over.
\<close>

section \<open>The bitmap\<close>

lemma bit_index: "(idx :: u32) = i \<longleftrightarrow> idx div 8 = i div 8 \<and> idx mod 8 = i mod 8"
  by (metis word_mod_div_equality)

lemma mod8_less: "unat ((idx :: u32) mod 8) < 8"
  by (simp add: unat_mod)

lemma bmp_get_bit: "bmp_get bmp idx \<longleftrightarrow> bit (bmp ! unat (idx div 8)) (unat (idx mod 8))"
proof -
  have "drop_bit n w AND 1 = 1 \<longleftrightarrow> bit w n" for w :: u8 and n
    by (simp add: and_one_eq bit_iff_odd_drop_bit odd_iff_mod_2_eq_one)
  then show ?thesis by (simp add: bmp_get_def)
qed

lemma bmp_get_set:
  assumes "unat (idx div 8) < length bmp"
  shows "bmp_get (bmp_set bmp idx) i \<longleftrightarrow> i = idx \<or> bmp_get bmp i"
proof (cases "i div 8 = idx div 8")
  case True
  have "bit (ucast (push_bit n (1 :: u32)) :: u8) m \<longleftrightarrow> m = n" if "m < 8" for m n
    using that by (auto simp: bit_simps bit_1_iff)
  then show ?thesis using True assms bit_index [of i idx] mod8_less [of i]
    by (auto simp: bmp_get_bit bmp_set_def bit_or_iff word_unat_eq_iff)
next
  case False
  then have "unat (i div 8) \<noteq> unat (idx div 8)" by (simp add: word_unat_eq_iff)
  then show ?thesis using False by (auto simp: bmp_get_bit bmp_set_def)
qed

lemma length_bmp_set [simp]: "length (bmp_set bmp idx) = length bmp"
  by (simp add: bmp_set_def)

text \<open>A bitmap with room for all clusters.\<close>

definition tables_ok :: "fsck \<Rightarrow> bool" where
  "tables_ok k \<longleftrightarrow> unat (vol_total_clusters (geo (fk_vol k))) \<le> 8 * length (reach_bmp k) \<and>
     length (ref_table k) = unat (vol_total_clusters (geo (fk_vol k)))"

definition reached :: "fsck \<Rightarrow> u32 set" where
  "reached k = {c. valid_cluster (geo (fk_vol k)) c \<and> bmp_get (reach_bmp k) (c - 2)}"

lemma cluster_slot:
  assumes "valid_cluster (geo (fk_vol k)) c" "tables_ok k"
  shows "unat ((c - 2) div 8) < length (reach_bmp k)" "unat (c - 2) < length (ref_table k)"
    "unat (c - 2) = unat c - 2"
proof -
  have c: "2 \<le> unat c" "unat c < unat (vol_total_clusters (geo (fk_vol k))) + 2"
    using assms(1) by (simp_all add: valid_cluster_def fat_index_def)
  then show u: "unat (c - 2) = unat c - 2" by (simp add: unat_sub word_le_nat_alt)
  show "unat (c - 2) < length (ref_table k)" using u c assms(2) by (simp add: tables_ok_def)
  have "unat ((c - 2) div 8) = (unat c - 2) div 8" using u by (simp add: unat_div)
  moreover have "unat c - 2 < 8 * length (reach_bmp k)" using c assms(2) unfolding tables_ok_def by linarith
  ultimately show "unat ((c - 2) div 8) < length (reach_bmp k)" by (simp add: less_mult_imp_div_less mult.commute)
qed

lemma in_range_valid:
  assumes "geo_ok g" "valid_cluster g c"
  shows "2 \<le> c \<and> c < vol_total_clusters g + 2"
proof -
  have "unat (vol_total_clusters g + 2) = unat (vol_total_clusters g) + 2"
    using assms(1) by (simp add: geo_ok_def unat_word_ariths)
  then show ?thesis using assms(2) by (simp add: valid_cluster_def fat_index_def word_le_nat_alt word_less_nat_alt)
qed

lemma valid_in_range:
  assumes "geo_ok g" "2 \<le> c" "c < vol_total_clusters g + 2"
  shows "valid_cluster g c"
proof -
  have "unat (vol_total_clusters g + 2) = unat (vol_total_clusters g) + 2"
    using assms(1) by (simp add: geo_ok_def unat_word_ariths)
  then show ?thesis using assms(2,3) by (simp add: valid_cluster_def fat_index_def word_le_nat_alt word_less_nat_alt)
qed

section \<open>Marking a chain\<close>

text \<open>
  \<open>linked f c cs x\<close>: following the FAT from \<open>c\<close> visits the clusters \<open>cs\<close> and then reaches \<open>x\<close>.
\<close>

fun linked :: "(u32 \<Rightarrow> u32) \<Rightarrow> u32 \<Rightarrow> u32 list \<Rightarrow> u32 \<Rightarrow> bool" where
  "linked f c [] x \<longleftrightarrow> c = x"
| "linked f c (d # cs) x \<longleftrightarrow> c = d \<and> linked f (f d) cs x"

lemma linked_cong: "(\<And>y. y \<in> set cs \<Longrightarrow> f y = g y) \<Longrightarrow> linked f c cs x = linked g c cs x"
  by (induction cs arbitrary: c) auto

lemma mark_chain_claims:
  assumes "good_vol (fk_vol k)" "tables_ok k" "tot = vol_total_clusters (geo (fk_vol k))"
    and "linked (fatv (fk_vol k)) c cs x" "length cs + (if valid_cluster (geo (fk_vol k)) x then 1 else 0) \<le> n"
    and "\<forall>d \<in> set cs. valid_cluster (geo (fk_vol k)) d \<and> \<not> bmp_get (reach_bmp k) (d - 2)" "distinct cs" "x \<notin> set cs"
    and "valid_cluster (geo (fk_vol k)) x \<Longrightarrow> bmp_get (reach_bmp k) (x - 2) \<and>
       (ref_cluster (ref_table k ! unat (x - 2)) \<noteq> dir \<or> ref_entry (ref_table k ! unat (x - 2)) \<noteq> entry)"
    and "start \<noteq> dir"
  shows "reached (mark_chain n tot start dir entry c k) = reached k \<union> set cs \<and>
    crosslink_clusters (fk_stats (mark_chain n tot start dir entry c k)) =
      crosslink_clusters (fk_stats k) + (if valid_cluster (geo (fk_vol k)) x then 1 else 0)"
  using assms
proof (induction cs arbitrary: n c k)
  case Nil
  show ?case
  proof (cases "valid_cluster (geo (fk_vol k)) x")
    case True
    then obtain m where n: "n = Suc m" using Nil.prems(5) by (cases n) auto
    have r: "2 \<le> x" "x < tot + 2" using in_range_valid [OF _ True] Nil.prems(1,3) by (simp_all add: good_vol_def)
    show ?thesis using Nil.prems(4,9,10) r True by (simp add: n Let_def upd_stats_def reached_def)
  next
    case False
    then have r: "\<not> (2 \<le> x \<and> x < tot + 2)" using valid_in_range [of "geo (fk_vol k)" x] Nil.prems(1,3) by (auto simp: good_vol_def)
    show ?thesis using Nil.prems(4) r False by (cases n) auto
  qed
next
  case (Cons d cs)
  then obtain m where n: "n = Suc m" "length cs + (if valid_cluster (geo (fk_vol k)) x then 1 else 0) \<le> m" by (cases n) auto
  let ?g = "geo (fk_vol k)"
  have G: "geo_ok ?g" using Cons.prems(1) by (simp add: good_vol_def)
  have d: "c = d" "valid_cluster ?g d" "\<not> bmp_get (reach_bmp k) (d - 2)" using Cons.prems by simp_all
  have r: "2 \<le> d" "d < tot + 2" using in_range_valid [OF G d(2)] Cons.prems(3) by simp_all
  note S = cluster_slot [OF d(2) Cons.prems(2)]
  obtain v where v: "fat_get d (fk_vol k) = (fatv (fk_vol k) d, v)" "same_vol (fk_vol k) v" "good_vol v" "same_view (fk_vol k) v"
    using fat_getE [OF Cons.prems(1) valid_fat_index [OF d(2)]] by blast
  define k1 where "k1 = k\<lparr>reach_bmp := bmp_set (reach_bmp k) (d - 2),
      ref_table := (ref_table k)[unat (d - 2) := \<lparr>ref_cluster = dir, ref_entry = entry, ref_claimed = True\<rparr>], fk_vol := v\<rparr>"
  have g: "geo v = ?g" using v(2) by (rule same_vol_geo)
  have fv: "fatv v y = fatv (fk_vol k) y" if "valid_cluster ?g y" for y
    by (rule same_view_fatv [OF v(4,2) G valid_fat_index [OF that]])
  have lk: "linked (fatv v) (fatv (fk_vol k) d) cs x"
    using Cons.prems(4,6) fv linked_cong [of cs "fatv v" "fatv (fk_vol k)"] by (auto simp: d(1))
  have R: "reached k1 = insert d (reached k)"
    using bmp_get_set [OF S(1)] d(2) by (auto simp: reached_def k1_def g)
  have e: "mark_chain n tot start dir entry c k =
     (if fatv (fk_vol k) d \<ge> FAT32_EOC \<or> fatv (fk_vol k) d = 0 then k1
      else mark_chain m tot start dir entry (fatv (fk_vol k) d) k1)"
    using r v(1) d(3) by (simp add: n(1) d(1) Let_def on_vol_def k1_def)
  show ?case
  proof (cases "fatv (fk_vol k) d \<ge> FAT32_EOC \<or> fatv (fk_vol k) d = 0")
    case True
    have nv: "\<not> valid_cluster ?g (fatv (fk_vol k) d)"
      using True G by (auto simp: valid_cluster_def fat_index_def geo_ok_def word_le_nat_alt)
    have "cs = []" using lk nv Cons.prems(6) by (cases cs) auto
    then show ?thesis using nv lk True by (simp add: e R) (simp add: k1_def)
  next
    case False
    have ne: "y - 2 \<noteq> d - 2" if "y \<noteq> d" for y using that by simp
    have IH: "reached (mark_chain m tot start dir entry (fatv (fk_vol k) d) k1) = reached k1 \<union> set cs \<and>
      crosslink_clusters (fk_stats (mark_chain m tot start dir entry (fatv (fk_vol k) d) k1)) =
      crosslink_clusters (fk_stats k1) + (if valid_cluster (geo (fk_vol k1)) x then 1 else 0)"
    proof (rule Cons.IH)
      show "good_vol (fk_vol k1)" "tot = vol_total_clusters (geo (fk_vol k1))" using v(3) Cons.prems(3) by (simp_all add: k1_def g)
      show "tables_ok k1" using Cons.prems(2) by (simp add: tables_ok_def k1_def g)
      show "linked (fatv (fk_vol k1)) (fatv (fk_vol k) d) cs x" using lk by (simp add: k1_def)
      show "length cs + (if valid_cluster (geo (fk_vol k1)) x then 1 else 0) \<le> m" using n(2) by (simp add: k1_def g)
      show "\<forall>y \<in> set cs. valid_cluster (geo (fk_vol k1)) y \<and> \<not> bmp_get (reach_bmp k1) (y - 2)"
        using Cons.prems(6,7) bmp_get_set [OF S(1)] ne by (auto simp: k1_def g)
      show "distinct cs" "x \<notin> set cs" "start \<noteq> dir" using Cons.prems by simp_all
      assume x: "valid_cluster (geo (fk_vol k1)) x"
      then have x': "valid_cluster ?g x" by (simp add: k1_def g)
      have "unat (x - 2) \<noteq> unat (d - 2)" using ne [of x] Cons.prems(8) by (auto simp: word_unat_eq_iff)
      then show "bmp_get (reach_bmp k1) (x - 2) \<and>
       (ref_cluster (ref_table k1 ! unat (x - 2)) \<noteq> dir \<or> ref_entry (ref_table k1 ! unat (x - 2)) \<noteq> entry)"
        using Cons.prems(9) [OF x'] bmp_get_set [OF S(1)] by (simp add: k1_def)
    qed
    then show ?thesis using False by (simp add: e R) (simp add: k1_def g)
  qed
qed

lemma card_valid_clusters: "geo_ok g \<Longrightarrow> card {c. valid_cluster g c} = unat (vol_total_clusters g)"
proof -
  assume g: "geo_ok g"
  have "unat (vol_total_clusters g + 2) = unat (vol_total_clusters g) + 2"
    using g by (simp add: geo_ok_def unat_word_ariths)
  moreover have "length (range32 2 (vol_total_clusters g + 2)) = unat (vol_total_clusters g + 2) - 2" by (simp add: range32_def)
  ultimately have "length (range32 2 (vol_total_clusters g + 2)) = unat (vol_total_clusters g)" by linarith
  then show ?thesis using distinct_card [OF distinct_range32, of 2 "vol_total_clusters g + 2"] set_data_clusters [OF g] by simp
qed

lemma rounds_enough:
  assumes "geo_ok g" "distinct cs" "\<forall>d \<in> set cs. valid_cluster g d" "x \<notin> set cs"
  shows "length cs + (if valid_cluster g x then 1 else 0) \<le> unat (vol_total_clusters g)"
proof -
  have f: "finite {c. valid_cluster g c}" by simp
  show ?thesis
  proof (cases "valid_cluster g x")
    case True
    then have "card (insert x (set cs)) \<le> card {c. valid_cluster g c}" using assms(3) by (intro card_mono f) auto
    then show ?thesis using True assms(2,4) card_valid_clusters [OF assms(1)] by (simp add: distinct_card)
  next
    case False
    have "card (set cs) \<le> card {c. valid_cluster g c}" using assms(3) by (intro card_mono f) auto
    then show ?thesis using False assms(2) card_valid_clusters [OF assms(1)] by (simp add: distinct_card)
  qed
qed

section \<open>Passing over orphans\<close>

lemma below_no_lba: "unat (a :: u32) < 2 ^ 32 - 1 \<Longrightarrow> a \<noteq> NO_LBA"
  by auto

lemma on_fat_getE:
  assumes "good_vol (fk_vol k)" "fat_index (geo (fk_vol k)) c"
  obtains v where "on_vol (fsck_fat_get c) k = (fatv (fk_vol k) c, k\<lparr>fk_vol := v\<rparr>)" "geo v = geo (fk_vol k)"
    "good_vol v" "\<And>d. fat_index (geo (fk_vol k)) d \<Longrightarrow> fatv v d = fatv (fk_vol k) d" "same_view (fk_vol k) v"
    "same_vol (fk_vol k) v"
proof -
  obtain v where v: "fat_get c (fk_vol k) = (fatv (fk_vol k) c, v)" "same_vol (fk_vol k) v" "good_vol v" "same_view (fk_vol k) v"
    using fat_getE [OF assms] by blast
  have "fatv v d = fatv (fk_vol k) d" if "fat_index (geo (fk_vol k)) d" for d
    by (rule same_view_fatv [OF v(4,2) _ that]) (use assms(1) in \<open>simp add: good_vol_def\<close>)
  then show thesis using that [of v] v same_vol_geo [OF v(2)] by (simp add: on_vol_def fsck_fat_get_def)
qed

section \<open>Samples\<close>

text \<open>The tables after the root directory has been marked on the sample volume.\<close>

definition sample_fsck :: fsck where
  "sample_fsck = \<lparr>fk_vol = sample, reach_bmp = [1],
     ref_table = replicate 4 \<lparr>ref_cluster = 2, ref_entry = 0, ref_claimed = False\<rparr>,
     fk_stats = fsck_stats_init, need_readonly = False\<rparr>"

section \<open>Properties\<close>

text \<open>Claiming a chain. From the first cluster of an entry, \<open>fsck_mark_chain\<close> marks exactly the clusters
  up to the end of the chain, or up to the first cluster that another entry has claimed; in the
  second case, and only then, it counts one cross-link. The guard never cuts a chain short.\<close>

theorem fsck_mark_chain_claims:
  assumes "good_vol (fk_vol k)" "tables_ok k" "tot = vol_total_clusters (geo (fk_vol k))"
    and "linked (fatv (fk_vol k)) start cs x" "distinct cs" "x \<notin> set cs"
    and "\<forall>d \<in> set cs. valid_cluster (geo (fk_vol k)) d \<and> \<not> bmp_get (reach_bmp k) (d - 2)"
    and "valid_cluster (geo (fk_vol k)) x \<Longrightarrow> bmp_get (reach_bmp k) (x - 2) \<and>
       (ref_cluster (ref_table k ! unat (x - 2)) \<noteq> dir \<or> ref_entry (ref_table k ! unat (x - 2)) \<noteq> entry)"
    and "start \<noteq> dir"
  shows "reached (fsck_mark_chain start dir entry tot k) = reached k \<union> set cs \<and>
    crosslink_clusters (fk_stats (fsck_mark_chain start dir entry tot k)) =
      crosslink_clusters (fk_stats k) + (if valid_cluster (geo (fk_vol k)) x then 1 else 0)"
  unfolding fsck_mark_chain_def
proof (rule mark_chain_claims [OF assms(1-4) _ assms(7,5,6,8,9)])
  have "geo_ok (geo (fk_vol k))" using assms(1) by (simp add: good_vol_def)
  then show "length cs + (if valid_cluster (geo (fk_vol k)) x then 1 else 0) \<le> unat tot"
    unfolding assms(3) by (rule rounds_enough) (use assms(5-7) in simp_all)
qed

theorem fsck_mark_chain_claims_witness:
  "reached (fsck_mark_chain 3 2 7 4 sample_fsck) = reached sample_fsck \<union> {3, 5} \<and>
    crosslink_clusters (fk_stats (fsck_mark_chain 3 2 7 4 sample_fsck)) = 0"
proof -
  have g: "good_vol (fk_vol sample_fsck)" by (simp add: sample_fsck_def good_sample_vol)
  have t: "tables_ok sample_fsck" by (simp add: tables_ok_def sample_fsck_def sample_geo_def)
  have nv: "\<not> valid_cluster (geo (fk_vol sample_fsck)) FAT_MASK" by (simp add: sample_fsck_def valid_cluster_def)
  have m: "\<not> bmp_get (reach_bmp sample_fsck) 1" "\<not> bmp_get (reach_bmp sample_fsck) 3"
    by (simp_all add: bmp_get_def sample_fsck_def)
  have l: "linked (fatv (fk_vol sample_fsck)) 3 [3, 5] FAT_MASK"
    using fatv_sample by (simp add: sample_fsck_def)
  have "reached (fsck_mark_chain 3 2 7 4 sample_fsck) = reached sample_fsck \<union> set [3, 5] \<and>
    crosslink_clusters (fk_stats (fsck_mark_chain 3 2 7 4 sample_fsck)) =
      crosslink_clusters (fk_stats sample_fsck) + (if valid_cluster (geo (fk_vol sample_fsck)) FAT_MASK then 1 else 0)"
    by (rule fsck_mark_chain_claims [OF g t _ l]) (use nv m in \<open>simp_all add: sample_fsck_def sample_geo_def valid_cluster_def fat_index_def\<close>)
  then show ?thesis using nv by (simp add: sample_fsck_def fsck_stats_init_def)
qed

text \<open>The checker's iterator runs past the end of a directory. When the last cluster of a directory
  is full, the call after its last slot returns true with the first 32 bytes of the next cluster on
  the disk, whatever that cluster holds; the checker then treats file data as directory entries.\<close>

theorem fsck_iter_overruns:
  assumes "good_vol s" "valid_cluster (geo s) c" "valid_cluster (geo s) (c + 1)"
    and "fatv s c \<ge> FAT32_EOC \<or> fatv s c < 2"
    and "it_cluster it = c" "it_off it = 480" "it_lba it = cluster_to_lba (geo s) c + (vol_sec_per_clus (geo s) - 1)"
  shows "\<exists>re it1 s1 it2 s2. fsck_dir_iter_next it s = Some ((Some re, it1), s1) \<and>
    fsck_dir_iter_next it1 s1 = Some ((Some (slice (sec_view s (cluster_to_lba (geo s) (c + 1))) 0 32), it2), s2)"
proof -
  let ?g = "geo s" and ?k = "vol_sec_per_clus (geo s)"
  have G: "io_ok s" "cache_ok s" "geo_ok ?g" using assms(1) by (simp_all add: good_vol_def)
  have kp: "0 < unat ?k" using G(3) by (simp add: geo_ok_def)
  then have k0: "?k \<noteq> 0" by auto
  have "unat (?k - 1) < unat ?k" using kp by (simp add: unat_sub word_le_nat_alt)
  from cluster_lba_unat(2) [OF G(3) assms(2) this] have n1: "it_lba it \<noteq> NO_LBA"
    unfolding assms(7) by (intro below_no_lba) simp
  from cluster_lba_unat(2) [OF G(3) assms(3) kp] have n2: "cluster_to_lba ?g (c + 1) \<noteq> NO_LBA"
    by (intro below_no_lba) simp
  have nx: "it_lba it + 1 = cluster_to_lba ?g c + ?k" by (simp add: assms(7))
  have nx': "cluster_to_lba ?g c + ?k = cluster_to_lba ?g (c + 1)" by (simp add: cluster_to_lba_def algebra_simps)
  obtain t where t: "sec_read (it_lba it) s = (True, t)" "same_vol s t" "cache_ok t" "io_ok t"
    "\<And>a. a \<noteq> NO_LBA \<Longrightarrow> sec_view t a = sec_view s a" using sec_readE [OF G(1,2) n1] by metis
  have gt: "geo t = ?g" using t(2) by (rule same_vol_geo)
  have good: "good_vol t" using t(3,4) G(3) by (simp add: good_vol_def gt)
  have sv: "same_view s t" using t(5) by (simp add: same_view_def)
  obtain u where u: "fat_get c t = (fatv t c, u)" "same_vol t u" "good_vol u" "same_view t u"
    using fat_getE [OF good] valid_fat_index [OF assms(2)] gt by metis
  have fv: "fatv t c = fatv s c" by (rule same_view_fatv [OF sv t(2) G(3) valid_fat_index [OF assms(2)]])
  define it1 where "it1 = it\<lparr>it_off := 0, it_lba := it_lba it + 1, it_entry_idx := it_entry_idx it + 1\<rparr>"
  have one: "fsck_dir_iter_next it s = Some ((Some (slice (sec_cache t) 480 32), it1), u)"
    using assms(4-6) k0 nx u(1) fv t(1) gt by (auto simp: fsck_dir_iter_next_def it1_def Let_def)
  have Gu: "io_ok u" "cache_ok u" using u(3) by (simp_all add: good_vol_def)
  obtain w where w: "sec_read (cluster_to_lba ?g (c + 1)) u = (True, w)" "sec_cache w = sec_view u (cluster_to_lba ?g (c + 1))"
    using sec_readE [OF Gu n2] by metis
  have "sec_view u (cluster_to_lba ?g (c + 1)) = sec_view s (cluster_to_lba ?g (c + 1))"
    using u(4) t(5) n2 by (simp add: same_view_def)
  then have "\<exists>it2. fsck_dir_iter_next it1 u = Some ((Some (slice (sec_view s (cluster_to_lba ?g (c + 1))) 0 32), it2), w)"
    using w nx nx' by (simp add: fsck_dir_iter_next_def it1_def Let_def)
  then show ?thesis using one by blast
qed

text \<open>The root directory of the sample volume: behind its last slot comes cluster 3, which belongs to a
  file.\<close>

theorem fsck_iter_overruns_witness:
  "\<exists>re it1 s1 it2 s2. fsck_dir_iter_next \<lparr>it_cluster = 2, it_entry_idx = 15, it_lba = 3, it_off = 480\<rparr> sample
      = Some ((Some re, it1), s1) \<and>
    fsck_dir_iter_next it1 s1 = Some ((Some (slice (sec_view sample (cluster_to_lba (geo sample) (2 + 1))) 0 32), it2), s2)"
  by (rule fsck_iter_overruns [OF good_sample_vol])
    (use fatv_sample in \<open>simp_all add: valid_cluster_def sample_geo_def fat_index_def cluster_to_lba_def\<close>)

text \<open>Some orphans are never found. A cluster that follows, on the disk, a reachable cluster with a
  link to a further one is not taken for the head of a chain, whatever its own state: the scan
  neither counts nor rescues nor frees it, so a lost chain that starts there stays lost.\<close>

theorem orphan_behind_link_ignored:
  assumes "good_vol (fk_vol k)" "valid_cluster (geo (fk_vol k)) c" "valid_cluster (geo (fk_vol k)) (c - 1)" "3 \<le> c"
    and "c - 1 \<in> reached k" "fatv (fk_vol k) (c - 1) \<noteq> 0" "fatv (fk_vol k) (c - 1) < FAT32_BAD"
  shows "\<exists>v. orphan_scan tot [c] L k = Some (k\<lparr>fk_vol := v\<rparr>) \<and>
    (\<forall>d. fat_index (geo (fk_vol k)) d \<longrightarrow> fatv v d = fatv (fk_vol k) d)"
proof -
  obtain v where v: "on_vol (fsck_fat_get c) k = (fatv (fk_vol k) c, k\<lparr>fk_vol := v\<rparr>)" "geo v = geo (fk_vol k)"
    "good_vol v" "\<And>d. fat_index (geo (fk_vol k)) d \<Longrightarrow> fatv v d = fatv (fk_vol k) d"
    using on_fat_getE [OF assms(1) valid_fat_index [OF assms(2)]] by metis
  let ?k1 = "k\<lparr>fk_vol := v\<rparr>"
  obtain w where w: "on_vol (fsck_fat_get (c - 1)) ?k1 = (fatv v (c - 1), k\<lparr>fk_vol := w\<rparr>)"
    "\<And>d. fat_index (geo (fk_vol k)) d \<Longrightarrow> fatv w d = fatv v d"
    using on_fat_getE [of ?k1 "c - 1"] v(2,3) valid_fat_index [OF assms(3)] by auto
  have f: "fatv v (c - 1) = fatv (fk_vol k) (c - 1)" by (rule v(4) [OF valid_fat_index [OF assms(3)]])
  have m: "bmp_get (reach_bmp k) (c - 1 - 2)" using assms(5) by (simp add: reached_def)
  have ne: "fatv (fk_vol k) (c - 1) \<noteq> FAT32_EOC" using assms(7) by auto
  have h: "is_chain_head c ?k1 = (False, k\<lparr>fk_vol := w\<rparr>)"
    using assms(4,6,7) m w(1) f ne by (simp add: is_chain_head_def not_le)
  show ?thesis
  proof (cases "fatv (fk_vol k) c = 0 \<or> fatv (fk_vol k) c = 0x0FFFFFF7 \<or> bmp_get (reach_bmp k) (c - 2)")
    case True
    then have "orphan_scan tot [c] L k = Some ?k1" using v(1) by (simp add: Let_def)
    then show ?thesis using v(4) by auto
  next
    case False
    then have "orphan_scan tot [c] L k = Some (k\<lparr>fk_vol := w\<rparr>)" using v(1) h by (simp add: Let_def)
    then show ?thesis using v(4) w(2) by auto
  qed
qed

text \<open>With 3 reachable and linked to 5, an orphan at 4 is passed over.\<close>

theorem orphan_behind_link_ignored_witness:
  "\<exists>v. orphan_scan 4 [4] \<lparr>lf_cluster = 0, lf_seq = 0, lf_created = False\<rparr> (sample_fsck\<lparr>reach_bmp := [3]\<rparr>) =
      Some (sample_fsck\<lparr>reach_bmp := [3], fk_vol := v\<rparr>) \<and>
    (\<forall>d. fat_index (geo sample) d \<longrightarrow> fatv v d = fatv sample d)"
proof -
  let ?k = "sample_fsck\<lparr>reach_bmp := [3]\<rparr>"
  have v: "fk_vol ?k = sample" by (simp add: sample_fsck_def)
  have "\<exists>v. orphan_scan 4 [4] \<lparr>lf_cluster = 0, lf_seq = 0, lf_created = False\<rparr> ?k = Some (?k\<lparr>fk_vol := v\<rparr>) \<and>
    (\<forall>d. fat_index (geo (fk_vol ?k)) d \<longrightarrow> fatv v d = fatv (fk_vol ?k) d)"
    by (rule orphan_behind_link_ignored)
      (use fatv_sample good_sample_vol in \<open>simp_all add: v valid_cluster_def reached_def bmp_get_def\<close>)
  then show ?thesis by (simp only: v)
qed

end
