(* ===== verification/Fat_Mount_Spec.thy ===== *)
theory Fat_Mount_Spec
  imports Fat_Mount Fsck_Spec
begin

text \<open>
  Mounting a blank disk: what \<open>fat32_format\<close> leaves on the drive, the geometry \<open>fat32_mount\<close> reads
  back from it, and that the consistency check finds nothing to repair on it.
\<close>

section \<open>The sectors a format writes\<close>

lemma in_block: "a \<in> (\<lambda>i. b + i) ` set (range32 0 n) \<longleftrightarrow> a - b < n"
  by (auto simp: set_range32 image_iff intro: exI [of _ "a - b"])

lemma block_unat:
  assumes "unat (b :: u32) + unat n \<le> 2 ^ 32"
  shows "a - b < n \<longleftrightarrow> unat b \<le> unat a \<and> unat a < unat b + unat n"
proof -
  have "unat a < 2 ^ 32" using unsigned_less [of a, where ?'a = nat] by simp
  then show ?thesis using assms by (auto simp: word_less_nat_alt unat_sub_if' split: if_splits)
qed

lemma zero_sectors_data:
  "io_ok s \<Longrightarrow> zero_sectors is base s = s\<lparr>drv := (drv s)\<lparr>drv_data :=
     (\<lambda>a. if a \<in> (\<lambda>i. base + i) ` set is then zero_sector else drv_data (drv s) a)\<rparr>\<rparr>"
proof (induction "is" arbitrary: s)
  case (Cons i "is")
  let ?u = "s\<lparr>drv := (drv s)\<lparr>drv_data := (drv_data (drv s))(base + i := zero_sector)\<rparr>\<rparr>"
  have "io_ok ?u" using Cons.prems by (simp add: io_ok_def)
  from Cons.IH [OF this] show ?case using Cons.prems by (auto simp: blk_write_ok fun_eq_iff intro!: arg_cong [where f = "\<lambda>d. s\<lparr>drv := d\<rparr>"])
qed simp

text \<open>The contents of the drive after a format at sector 0, \<open>D\<close> before it.\<close>

definition formatted :: "u32 \<Rightarrow> (u32 \<Rightarrow> sector) \<Rightarrow> u32 \<Rightarrow> sector" where
  "formatted tot D a =
     (let F = unat (format_fat_size tot); u = unat a
      in if u = 32 + F \<or> u = 32 then first_fat_sector
         else if 32 \<le> u \<and> u < 40 + 2 * F then zero_sector
         else if u = 0 then boot_sector 0 tot else D a)"

lemma mask3_nat:
  assumes "unat n \<le> 2 ^ 32 - 8"
  shows "unat ((n + 7) AND NOT 7 :: u32) = (unat n + 7) div 8 * 8"
proof -
  have m: "unat (n + 7) = unat n + 7" using assms by (simp add: unat_word_ariths)
  have "(n + 7) AND NOT 7 = (n + 7) AND NOT (mask 3)" by (simp add: mask_eq_exp_minus_1)
  also have "\<dots> = push_bit 3 (drop_bit 3 (n + 7))"
    by (rule bit_word_eqI) (auto simp: bit_simps not_less dest!: le_Suc_ex)
  finally have "(n + 7) AND NOT 7 = push_bit 3 (drop_bit 3 (n + 7))" .
  moreover have "unat (drop_bit 3 (n + 7)) = (unat n + 7) div 8"
    using m by (simp add: unat_div drop_bit_eq_div)
  moreover have "(unat n + 7) div 8 * 8 < 2 ^ 32" using assms by simp
  ultimately show ?thesis by (simp add: push_bit_eq_mult unat_word_ariths mult.commute)
qed

lemma format_fat_size_unat:
  assumes "64 \<le> unat tot" "unat tot < 2 ^ 31"
  defines "F \<equiv> unat (format_fat_size tot)"
  shows "F = (((unat tot - 32) div 8 * 4 + 511) div 512 + 7) div 8 * 8"
    "8 \<le> F" "(unat tot - 32) div 8 \<le> 128 * F" "32 + 2 * F + 8 \<le> unat tot"
proof -
  let ?c = "(unat tot - 32) div 8"
  have u: "unat (tot - 32) = unat tot - 32" using assms(1) by (simp add: unat_sub word_le_nat_alt)
  have c: "unat ((tot - 32) div 8) = ?c" using u by (simp add: unat_div)
  have cb: "?c < 2 ^ 28" using assms(2) by simp
  have f: "unat (((tot - 32) div 8 * 4 + 512 - 1) div 512) = (?c * 4 + 511) div 512"
  proof -
    have "(tot - 32) div 8 * 4 + 512 - 1 = (tot - 32) div 8 * 4 + 511" by simp
    moreover have "unat ((tot - 32) div 8 * 4 + 511) = ?c * 4 + 511" using c cb by (simp add: unat_word_ariths)
    ultimately have "unat ((tot - 32) div 8 * 4 + 512 - 1) = ?c * 4 + 511" by (simp only:)
    then show ?thesis unfolding unat_div by simp
  qed
  have fb: "(?c * 4 + 511) div 512 \<le> 2 ^ 32 - 8" using cb by simp
  show F: "F = ((?c * 4 + 511) div 512 + 7) div 8 * 8"
    unfolding F_def format_fat_size_def Let_def using mask3_nat [of "((tot - 32) div 8 * 4 + 512 - 1) div 512"] f fb by simp
  define m where "m = (?c * 4 + 511) div 512"
  have m: "512 * m \<le> ?c * 4 + 511" "?c * 4 \<le> 512 * m" unfolding m_def by simp_all
  have Fm: "F = (m + 7) div 8 * 8" using F by (simp add: m_def)
  have F2: "F \<le> m + 7" "m \<le> F" unfolding Fm by simp_all
  have c4: "4 \<le> ?c" using assms(1) by simp
  then have "1 \<le> m" using m(2) by linarith
  then have "8 \<le> m + 7" by simp
  then show "8 \<le> F" unfolding Fm by (metis div_le_mono div_self mult_le_mono1 mult_1 zero_neq_numeral)
  show "?c \<le> 128 * F" using m(2) F2(2) by linarith
  have "8 * ?c \<le> unat tot - 32" by simp
  then show "32 + 2 * F + 8 \<le> unat tot" using m(1) F2(1) c4 assms(1) by linarith
qed

lemma range32_two: "range32 0 2 = [0, 1]"
  by (simp add: range32_def upt_rec)

lemma format_writes:
  assumes "io_ok s" "64 \<le> unat tot" "unat tot < 2 ^ 31"
  shows "fat32_format 0 tot s = (True, s\<lparr>drv := (drv s)\<lparr>drv_data := formatted tot (drv_data (drv s))\<rparr>\<rparr>)"
proof -
  let ?F = "format_fat_size tot"
  note FF = format_fat_size_unat [OF assms(2,3)]
  define st where "st D = s\<lparr>drv := (drv s)\<lparr>drv_data := D\<rparr>\<rparr>" for D
  have w: "vol_blk_write a b (st D) = (True, st (D(a := b)))" for a b D
    using assms(1) by (simp add: st_def vol_blk_write_def blk_write_def io_ok_def)
  have z: "zero_sectors (range32 0 n) b (st D) = st (\<lambda>a. if a - b < n then zero_sector else D a)" for n b D
  proof -
    have d: "drv_data (drv (st D)) = D" and i: "io_ok (st D)" using assms(1) by (simp_all add: st_def io_ok_def)
    show ?thesis using zero_sectors_data [OF i, of "range32 0 n" b] unfolding in_block d by (simp add: st_def)
  qed
  have st: "s = st (drv_data (drv s))" by (simp add: st_def)
  have u1: "unat (32 + ?F) = 32 + unat ?F" and u2: "unat (32 + 2 * ?F) = 32 + 2 * unat ?F"
    using FF(4) assms(3) by (simp_all add: unat_word_ariths)
  have b1: "a - 32 < ?F \<longleftrightarrow> 32 \<le> unat a \<and> unat a < 32 + unat ?F"
    and b2: "a - (32 + ?F) < ?F \<longleftrightarrow> 32 + unat ?F \<le> unat a \<and> unat a < 32 + 2 * unat ?F"
    and b3: "a - (32 + 2 * ?F) < 8 \<longleftrightarrow> 32 + 2 * unat ?F \<le> unat a \<and> unat a < 40 + 2 * unat ?F" for a
    using block_unat [of 32 ?F a] block_unat [of "32 + ?F" ?F a] block_unat [of "32 + 2 * ?F" 8 a] u1 u2 FF(4) assms(3)
    by (auto simp: add.assoc)
  have e: "a = 32 + ?F \<longleftrightarrow> unat a = 32 + unat ?F" "a = 32 \<longleftrightarrow> unat a = 32" "a = 0 \<longleftrightarrow> unat a = 0" for a
    using u1 by (auto simp: word_unat_eq_iff)
  let ?D = "drv_data (drv s)"
  have "fat32_format 0 tot (st ?D) = (True, st (\<lambda>a. if a - (32 + 2 * ?F) < 8 then zero_sector
      else ((\<lambda>a. if a - (32 + ?F) < ?F then zero_sector else if a - 32 < ?F then zero_sector
         else (?D(0 := boot_sector 0 tot)) a)(32 := first_fat_sector, 32 + ?F := first_fat_sector)) a))"
    by (simp add: fat32_format_def Let_def w z range32_two)
  also have "\<dots> = (True, st (formatted tot ?D))"
    by (intro arg_cong2 [where f = Pair] refl arg_cong [where f = st] ext)
      (use FF(2) in \<open>auto simp: b1 b2 b3 e formatted_def Let_def\<close>)
  finally show ?thesis using st by (simp add: st_def)
qed

section \<open>Reading the boot sector\<close>

lemma ascii_explicit:
  "ascii ''CHIMAERA'' = [67, 72, 73, 77, 65, 69, 82, 65]" "ascii ''FAT32   '' = [70, 65, 84, 51, 50, 32, 32, 32]"
  "ascii ''CHIMAERA   '' = [67, 72, 73, 77, 65, 69, 82, 65, 32, 32, 32]" "ascii ''FAT32'' = [70, 65, 84, 51, 50]"
  by (simp_all add: ascii_def)

lemma boot_bytes:
  fixes tot :: u32
  defines "b \<equiv> pack_bpb (format_bpb 0 tot)"
  shows "length b = 90"
    "b ! 11 = 0" "b ! 12 = 2" "b ! 13 = 8" "b ! 14 = 32" "b ! 15 = 0" "b ! 16 = 2" "b ! 19 = 0" "b ! 20 = 0"
    "b ! 82 = 70" "b ! 83 = 65" "b ! 84 = 84" "b ! 85 = 51" "b ! 86 = 50"
    "b ! 44 = 2" "b ! 45 = 0" "b ! 46 = 0" "b ! 47 = 0"
    "of_le32 (b ! 32) (b ! 33) (b ! 34) (b ! 35) = tot"
    "of_le32 (b ! 36) (b ! 37) (b ! 38) (b ! 39) = format_fat_size tot"
proof -
  have e: "b = [0xEB, 0x58, 0x90, 67, 72, 73, 77, 65, 69, 82, 65] @ [0, 2, 8, 32, 0, 2, 0, 0, 0, 0, 0xF8, 0, 0, 63, 0, 255, 0] @
    [0, 0, 0, 0] @ le32 tot @ le32 (format_fat_size tot) @ [0, 0, 0, 0, 2, 0, 0, 0, 1, 0, 6, 0] @ replicate 12 0 @
    [0x80, 0, 0x29, 0x42, 0xEE, 0xFF, 0xC0, 67, 72, 73, 77, 65, 69, 82, 65, 32, 32, 32, 70, 65, 84, 51, 50, 32, 32, 32]"
    by (simp add: b_def pack_bpb_def format_bpb_def ascii_explicit le16_def le32_def)
  show "length b = 90" by (simp add: e)
  show "b ! 11 = 0" "b ! 12 = 2" "b ! 13 = 8" "b ! 14 = 32" "b ! 15 = 0" "b ! 16 = 2" "b ! 19 = 0" "b ! 20 = 0"
    "b ! 82 = 70" "b ! 83 = 65" "b ! 84 = 84" "b ! 85 = 51" "b ! 86 = 50"
    "b ! 44 = 2" "b ! 45 = 0" "b ! 46 = 0" "b ! 47 = 0" by (simp_all add: e nth_append)
  have "drop 32 b = le32 tot @ drop 36 b" "drop 36 b = le32 (format_fat_size tot) @ drop 40 b" by (simp_all add: e)
  then show "of_le32 (b ! 32) (b ! 33) (b ! 34) (b ! 35) = tot"
    "of_le32 (b ! 36) (b ! 37) (b ! 38) (b ! 39) = format_fat_size tot"
    by (simp_all add: e nth_append)
qed

lemma boot_sector_at: "i < 90 \<Longrightarrow> boot_sector 0 tot i = pack_bpb (format_bpb 0 tot) ! i"
  by (simp add: boot_sector_def blit_def boot_bytes(1))

lemma boot_sector_zero: "90 \<le> i \<Longrightarrow> i < 510 \<Longrightarrow> boot_sector 0 tot i = 0"
  by (simp add: boot_sector_def blit_def boot_bytes(1) zero_sector_def)

lemma boot_signature: "has_signature (boot_sector 0 tot)"
  by (simp add: has_signature_def boot_sector_def blit_def)

lemma boot_partition: "partition_start (boot_sector 0 tot) = 0"
  by (simp add: partition_start_def Let_def unpack_partition_def boot_sector_zero upt_rec)

lemma boot_fields:
  fixes tot :: u32
  defines "b \<equiv> unpack_bpb (boot_sector 0 tot)"
  shows "bpb_bytes_per_sector b = 512" "bpb_sectors_per_cluster b = 8" "bpb_reserved_sectors b = 32" "bpb_num_fats b = 2"
    "bpb_total_sectors_16 b = 0" "bpb_total_sectors_32 b = tot" "bpb_fat_size_32 b = format_fat_size tot"
    "bpb_root_cluster b = 2" "take 5 (bpb_fs_type b) = ascii ''FAT32''"
proof -
  show "bpb_bytes_per_sector b = 512" "bpb_sectors_per_cluster b = 8" "bpb_reserved_sectors b = 32" "bpb_num_fats b = 2"
    "bpb_total_sectors_16 b = 0" "bpb_total_sectors_32 b = tot" "bpb_fat_size_32 b = format_fat_size tot"
    "bpb_root_cluster b = 2"
    by (simp_all add: b_def unpack_bpb_def get16_def get32_def boot_sector_at boot_bytes of_le16_def of_le32_def [of 2 0 0 0])
  show "take 5 (bpb_fs_type b) = ascii ''FAT32''"
    by (simp add: b_def unpack_bpb_def slice_def boot_sector_at boot_bytes ascii_explicit upt_rec take_map)
qed

definition formatted_geo :: "u32 \<Rightarrow> geometry" where
  "formatted_geo tot = \<lparr>vol_lba_start = 0, vol_bytes_per_sec = 512, vol_sec_per_clus = 8, vol_reserved_sec = 32,
     vol_num_fats = 2, vol_fat_size = format_fat_size tot, vol_root_cluster = 2, vol_fat_lba = 32,
     vol_data_lba = 32 + 2 * format_fat_size tot,
     vol_total_clusters = (tot - (32 + 2 * format_fat_size tot)) div 8\<rparr>"

lemma boot_geometry: "tot \<noteq> 0 \<Longrightarrow> volume_geometry 0 (unpack_bpb (boot_sector 0 tot)) = Some (formatted_geo tot)"
  by (simp add: volume_geometry_def formatted_geo_def Let_def boot_fields)

section \<open>The fresh volume\<close>

lemma formatted_geo_unat:
  assumes "64 \<le> unat tot" "unat tot < 2 ^ 31"
  shows "unat (vol_data_lba (formatted_geo tot)) = 32 + 2 * unat (format_fat_size tot)"
    "unat (vol_total_clusters (formatted_geo tot)) = (unat tot - (32 + 2 * unat (format_fat_size tot))) div 8"
    "1 \<le> unat (vol_total_clusters (formatted_geo tot))" "geo_ok (formatted_geo tot)"
proof -
  let ?F = "unat (format_fat_size tot)" and ?g = "formatted_geo tot"
  note FF = format_fat_size_unat [OF assms]
  show d: "unat (vol_data_lba ?g) = 32 + 2 * ?F" using FF(4) assms(2) by (simp add: formatted_geo_def unat_word_ariths)
  have u: "unat (32 + 2 * format_fat_size tot) = 32 + 2 * ?F" using FF(4) assms(2) by (simp add: unat_word_ariths)
  have le: "32 + 2 * format_fat_size tot \<le> tot" using FF(4) u by (simp add: word_le_nat_alt)
  show n: "unat (vol_total_clusters ?g) = (unat tot - (32 + 2 * ?F)) div 8"
    using unat_sub [OF le] u by (simp add: formatted_geo_def unat_div)
  have "8 \<le> unat tot - (32 + 2 * ?F)" using FF(4) by linarith
  then have "8 div 8 \<le> (unat tot - (32 + 2 * ?F)) div 8" by (rule div_le_mono)
  then show "1 \<le> unat (vol_total_clusters ?g)" using n by simp
  have "8 * unat (vol_total_clusters ?g) \<le> unat tot - (32 + 2 * ?F)" unfolding n by simp
  then have N: "8 * unat (vol_total_clusters ?g) + 32 + 2 * ?F \<le> unat tot" using FF(4) by linarith
  have "8 * ((unat tot - 32) div 8) + 7 \<ge> unat tot - 32" by linarith
  then have c: "unat (vol_total_clusters ?g) + 2 \<le> 128 * ?F" using FF(2,3) N by linarith
  show "geo_ok ?g" unfolding geo_ok_def d using c N assms(2) by (simp add: formatted_geo_def)
qed

definition fresh_volume :: "u32 \<Rightarrow> vol \<Rightarrow> bool" where
  "fresh_volume tot v \<longleftrightarrow> good_vol v \<and> geo v = formatted_geo tot \<and>
     (\<forall>c. valid_cluster (geo v) c \<longrightarrow> fatv v c = (if c = 2 then 0x0FFFFFFF else 0)) \<and>
     (\<forall>i < 8. sec_view v (cluster_to_lba (geo v) 2 + of_nat i) = zero_sector)"

lemma get32_first:
  "get32 first_fat_sector 8 = 0x0FFFFFFF" "12 \<le> o' \<Longrightarrow> get32 first_fat_sector o' = 0" "get32 zero_sector o' = 0"
  by (simp_all add: get32_def first_fat_sector_def blit_def le32_def zero_sector_def of_le32_def)

lemma fresh_volumeI:
  assumes "64 \<le> unat tot" "unat tot < 2 ^ 31" "io_ok v" "geo v = formatted_geo tot"
    and "drv_data (drv v) = formatted tot D" "sec_cache_lba v = NO_LBA" "\<not> sec_cache_dirty v"
  shows "fresh_volume tot v"
proof -
  let ?g = "formatted_geo tot" and ?F = "unat (format_fat_size tot)"
  note G = formatted_geo_unat [OF assms(1,2)] and FF = format_fat_size_unat [OF assms(1,2)]
  have view: "sec_view v a = formatted tot D a" if "a \<noteq> NO_LBA" for a using that assms(5,6) by (simp add: sec_view_def)
  have good: "good_vol v" using assms(3,4,6,7) G(4) by (simp add: good_vol_def cache_ok_def)
  have fat: "fatv v c = (if c = 2 then 0x0FFFFFFF else 0)" if c: "valid_cluster ?g c" for c
  proof -
    have f: "(0 :: u32) < vol_num_fats ?g" by (simp add: formatted_geo_def)
    note L = copy_lba_unat [OF G(4) valid_fat_index [OF c] f]
    have u: "unat (copy_lba ?g 0 c) = 32 + unat c div 128" using L(1) by (simp add: formatted_geo_def)
    have lt: "unat c div 128 < ?F" using L(2) by (simp add: formatted_geo_def)
    have o': "unat (fat_offset_in_sector c) = 4 * (unat c mod 128)" by (rule fat_offset_unat [OF G(4) valid_fat_index [OF c]])
    have s: "sec_view v (copy_lba ?g 0 c) = (if unat c div 128 = 0 then first_fat_sector else zero_sector)"
      using view [OF copy_lba_not_no [OF G(4) valid_fat_index [OF c] f]] u lt by (simp add: formatted_def Let_def)
    have c2: "2 \<le> unat c" using c by (simp add: valid_cluster_def)
    show ?thesis
    proof (cases "unat c div 128 = 0")
      case True
      then have m: "unat c mod 128 = unat c" by simp
      show ?thesis
      proof (cases "c = 2")
        case True
        then show ?thesis using s o' m by (simp add: fatv_def fat_copy_def assms(4) get32_first)
      next
        case False
        then have "unat c \<noteq> 2" by (auto simp: word_unat_eq_iff)
        then have "12 \<le> 4 * unat c" using c2 by linarith
        then show ?thesis using s o' m True False by (simp add: fatv_def fat_copy_def assms(4) get32_first)
      qed
    next
      case False
      then have "c \<noteq> 2" by auto
      then show ?thesis using s False by (simp add: fatv_def fat_copy_def assms(4) get32_first)
    qed
  qed
  have two: "valid_cluster ?g 2" using G(3) by (simp add: valid_cluster_def fat_index_def)
  have root: "sec_view v (cluster_to_lba ?g 2 + of_nat i) = zero_sector" if "i < 8" for i
  proof -
    have "i < unat (vol_sec_per_clus ?g)" using that by (simp add: formatted_geo_def)
    note C = cluster_lba_unat [OF G(4) two this]
    have "unat (cluster_to_lba ?g 2 + of_nat i) = 32 + 2 * ?F + i" using C(1) G(1) by simp
    moreover have "cluster_to_lba ?g 2 + of_nat i \<noteq> NO_LBA" using C(2) by (rule below_no_lba)
    ultimately show ?thesis using view that FF(2) by (simp add: formatted_def Let_def)
  qed
  show ?thesis using good fat root by (simp add: fresh_volume_def assms(4))
qed

lemma fresh_same:
  assumes "fresh_volume tot v" "same_vol v w" "good_vol w" "same_view v w" "geo_ok (formatted_geo tot)"
    "1 \<le> unat (vol_total_clusters (formatted_geo tot))"
  shows "fresh_volume tot w"
proof -
  have g: "geo v = formatted_geo tot" "geo w = formatted_geo tot" using assms(1) same_vol_geo [OF assms(2)] by (simp_all add: fresh_volume_def)
  have two: "valid_cluster (formatted_geo tot) 2" using assms(6) by (simp add: valid_cluster_def fat_index_def)
  have "cluster_to_lba (formatted_geo tot) 2 + of_nat i \<noteq> NO_LBA" if "i < 8" for i
    using cluster_lba_unat(2) [OF assms(5) two, of i] that by (intro below_no_lba) (simp add: formatted_geo_def)
  then show ?thesis
    using assms(1,3,4) same_view_fatv [OF assms(4,2)] assms(5) valid_fat_index
    by (simp add: fresh_volume_def g same_view_def)
qed

section \<open>The checks find nothing\<close>

lemma check_fat_sectors_equal:
  assumes "io_ok (fk_vol k)" "\<forall>i \<in> set is. drv_data (drv (fk_vol k)) (a + i) = drv_data (drv (fk_vol k)) (b + i)"
  shows "check_fat_sectors is a b r k = (r, k)"
  using assms by (induction "is") (auto simp: blk_read_def io_ok_def)

lemma mirror_fats_equal:
  assumes "io_ok s" "\<forall>i \<in> set is. drv_data (drv s) (a + i) = drv_data (drv s) (b + i)"
  shows "mirror_fats is a b s = s"
  using assms by (induction "is") (auto simp: blk_read_def io_ok_def)

lemma formatted_copies:
  assumes "64 \<le> unat tot" "unat tot < 2 ^ 31" "i \<in> set (range32 0 (format_fat_size tot))"
  shows "formatted tot D (32 + i) = formatted tot D (32 + format_fat_size tot + i)"
proof -
  note FF = format_fat_size_unat [OF assms(1,2)]
  have i: "unat i < unat (format_fat_size tot)" using assms(3) by (simp add: set_range32 word_less_nat_alt)
  have "unat (32 + i) = 32 + unat i" "unat (32 + format_fat_size tot + i) = 32 + unat (format_fat_size tot) + unat i"
    using i FF(4) assms(2) by (simp_all add: unat_word_ariths)
  then show ?thesis using i FF(2) by (auto simp: formatted_def Let_def)
qed

lemma orphan_scan_clean:
  assumes "good_vol (fk_vol k)"
    and "\<forall>c \<in> set cs. valid_cluster (geo (fk_vol k)) c \<and> (fatv (fk_vol k) c = 0 \<or> bmp_get (reach_bmp k) (c - 2))"
  shows "\<exists>v. orphan_scan n cs L k = Some (k\<lparr>fk_vol := v\<rparr>) \<and> good_vol v \<and> same_vol (fk_vol k) v \<and> same_view (fk_vol k) v"
  using assms
proof (induction cs arbitrary: k)
  case Nil
  then show ?case by (intro exI [of _ "fk_vol k"]) simp
next
  case (Cons c cs)
  have c: "valid_cluster (geo (fk_vol k)) c" using Cons.prems(2) by simp
  obtain v where v: "on_vol (fsck_fat_get c) k = (fatv (fk_vol k) c, k\<lparr>fk_vol := v\<rparr>)" "geo v = geo (fk_vol k)"
    "good_vol v" "\<And>d. fat_index (geo (fk_vol k)) d \<Longrightarrow> fatv v d = fatv (fk_vol k) d" "same_view (fk_vol k) v" "same_vol (fk_vol k) v"
    using on_fat_getE [OF Cons.prems(1) valid_fat_index [OF c]] by metis
  have "\<exists>w. orphan_scan n cs L (k\<lparr>fk_vol := v\<rparr>) = Some (k\<lparr>fk_vol := v\<rparr>\<lparr>fk_vol := w\<rparr>) \<and> good_vol w \<and>
      same_vol (fk_vol (k\<lparr>fk_vol := v\<rparr>)) w \<and> same_view (fk_vol (k\<lparr>fk_vol := v\<rparr>)) w"
    by (rule Cons.IH) (use Cons.prems(2) v(2-4) valid_fat_index in auto)
  then obtain w where w: "orphan_scan n cs L (k\<lparr>fk_vol := v\<rparr>) = Some (k\<lparr>fk_vol := w\<rparr>)" "good_vol w" "same_vol v w" "same_view v w"
    by auto
  have "orphan_scan n (c # cs) L k = orphan_scan n cs L (k\<lparr>fk_vol := v\<rparr>)" using Cons.prems(2) v(1) by auto
  then show ?case using w same_vol_trans [OF v(6) w(3)] same_view_trans [OF v(5) w(4)] by auto
qed

lemma fsck_tree_fresh:
  assumes size: "64 \<le> unat tot" "unat tot < 2 ^ 31"
    and fresh: "fresh_volume tot (fk_vol k)" and N: "N = vol_total_clusters (formatted_geo tot)"
    and tables: "reach_bmp k = replicate (unat ((N + 7) div 8)) 0" "length (ref_table k) = unat N"
  shows "\<exists>k'. fsck_tree N 2 k = Some k' \<and> fresh_volume tot (fk_vol k') \<and> same_vol (fk_vol k) (fk_vol k') \<and>
    fk_stats k' = fk_stats k \<and> need_readonly k' = need_readonly k"
proof -
  let ?g = "formatted_geo tot"
  note G = formatted_geo_unat [OF size]
  have gk: "geo (fk_vol k) = ?g" "good_vol (fk_vol k)" using fresh by (simp_all add: fresh_volume_def)
  have two: "valid_cluster ?g 2" using G(3) by (simp add: valid_cluster_def fat_index_def)
  have f2: "fatv (fk_vol k) 2 = 0x0FFFFFFF" using fresh two gk by (simp add: fresh_volume_def)
  have n7: "unat ((N + 7) div 8) = (unat N + 7) div 8"
  proof -
    have "unat (vol_total_clusters ?g) + 2 \<le> 0x0FFFFFF7" using G(4) by (simp add: geo_ok_def)
    then have "unat (N + 7) = unat N + 7" by (simp add: N unat_word_ariths)
    then show ?thesis unfolding unat_div by simp
  qed
  have "1 \<le> unat N" using G(3) by (simp add: N)
  then have len: "1 \<le> length (reach_bmp k)" using n7 by (simp add: tables(1))
  obtain v where v: "fat_get 2 (fk_vol k) = (0x0FFFFFFF, v)" "same_vol (fk_vol k) v" "good_vol v" "same_view (fk_vol k) v"
    using fat_getE [OF gk(2)] valid_fat_index [OF two] gk(1) f2 by metis
  define k1 where "k1 = k\<lparr>reach_bmp := bmp_set (reach_bmp k) 0,
      ref_table := (ref_table k)[0 := \<lparr>ref_cluster = 2, ref_entry = 0, ref_claimed = True\<rparr>], fk_vol := v\<rparr>"
  obtain m where m: "unat N = Suc m" using \<open>1 \<le> unat N\<close> by (cases "unat N") auto
  have zero: "\<not> bmp_get (reach_bmp k) 0" using len by (simp add: tables(1) bmp_get_def)
  have r: "2 < N + 2" using in_range_valid [OF G(4) two] by (simp add: N)
  have mark: "fsck_mark_chain 2 2 0 N k = k1"
    using v(1) zero r by (simp add: fsck_mark_chain_def m Let_def on_vol_def k1_def)
  have fv: "fresh_volume tot v" by (rule fresh_same [OF fresh v(2-4) G(4) G(3)])
  have gv: "geo v = ?g" using fv by (simp add: fresh_volume_def)
  have Gv: "io_ok v" "cache_ok v" using v(3) by (simp_all add: good_vol_def)
  have "0 < unat (vol_sec_per_clus ?g)" by (simp add: formatted_geo_def)
  from cluster_lba_unat(2) [OF G(4) two this] have ne: "cluster_to_lba ?g 2 \<noteq> NO_LBA" by (intro below_no_lba) simp
  obtain w where w: "sec_read (cluster_to_lba ?g 2) v = (True, w)" "same_vol v w" "cache_ok w" "io_ok w"
    "\<And>a. a \<noteq> NO_LBA \<Longrightarrow> sec_view w a = sec_view v a" "sec_cache w = sec_view v (cluster_to_lba ?g 2)"
    using sec_readE [OF Gv ne] by metis
  have root: "\<forall>i < 8. sec_view v (cluster_to_lba (geo v) 2 + of_nat i) = zero_sector"
    using fv unfolding fresh_volume_def by (elim conjE)
  have cw: "sec_cache w = zero_sector" using root [rule_format, of 0] w(6) gv by simp
  have gw: "geo w = ?g" using same_vol_geo [OF w(2)] gv by simp
  have goodw: "good_vol w" using w(3,4) G(4) by (simp add: good_vol_def gw)
  have fw: "fresh_volume tot w" by (rule fresh_same [OF fv w(2) goodw _ G(4) G(3)]) (simp add: same_view_def w(5))
  define k2 where "k2 = k1\<lparr>fk_vol := w\<rparr>"
  have walk: "walk_dir N 2 0 k = Some k2"
    unfolding walk_dir_def mark using w(1) cw
    by (subst walk_from.simps) (simp add: Let_def fsck_dir_iter_next_def fsck_dir_iter_init_def k1_def k2_def gv zero_sector_def slice_def upt_rec)
  have cs: "set (range32 2 (N + 2)) = {c. valid_cluster ?g c}" unfolding N by (rule set_data_clusters [OF G(4)])
  have "unat ((0 :: u32) div 8) < length (reach_bmp k)" using len by auto
  then have b: "bmp_get (reach_bmp k2) 0" using bmp_get_set [of 0 "reach_bmp k" 0] by (simp add: k2_def k1_def)
  have "\<forall>c \<in> set (range32 2 (N + 2)). valid_cluster (geo (fk_vol k2)) c \<and> (fatv (fk_vol k2) c = 0 \<or> bmp_get (reach_bmp k2) (c - 2))"
    unfolding cs using fw b by (auto simp: k2_def gw fresh_volume_def)
  then obtain u where u: "orphan_scan N (range32 2 (N + 2)) \<lparr>lf_cluster = 0, lf_seq = 0, lf_created = False\<rparr> k2 = Some (k2\<lparr>fk_vol := u\<rparr>)"
    "good_vol u" "same_vol w u" "same_view w u"
    using orphan_scan_clean [of k2 "range32 2 (N + 2)" N "\<lparr>lf_cluster = 0, lf_seq = 0, lf_created = False\<rparr>"] goodw
    by (auto simp: k2_def)
  have "fresh_volume tot u" by (rule fresh_same [OF fw u(3,2,4) G(4) G(3)])
  moreover have "same_vol (fk_vol k) u" using same_vol_trans [OF v(2) same_vol_trans [OF w(2) u(3)]] .
  ultimately show ?thesis using walk u(1) by (simp add: fsck_tree_def k2_def k1_def)
qed

lemma fsck_fresh:
  assumes size: "64 \<le> unat tot" "unat tot < 2 ^ 31"
    and v: "io_ok v" "geo v = formatted_geo tot" "drv_data (drv v) = formatted tot D" "sec_cache_lba v = NO_LBA" "\<not> sec_cache_dirty v"
  shows "\<exists>w. chimerafs_fsck v = Some w \<and> fresh_volume tot w \<and> vol_readonly w = vol_readonly v \<and> fds w = fds v"
proof -
  let ?g = "formatted_geo tot" and ?N = "vol_total_clusters (formatted_geo tot)" and ?F = "format_fat_size tot"
  let ?k0 = "\<lparr>fk_vol = v, reach_bmp = [], ref_table = [], fk_stats = fsck_stats_init, need_readonly = False\<rparr>"
  have c: "check_fat_mismatch 32 ?F 2 ?k0 = (0, ?k0)"
  proof -
    have "check_fat_sectors (range32 0 ?F) 32 (32 + ?F) 0 ?k0 = (0, ?k0)"
      by (rule check_fat_sectors_equal) (use v formatted_copies [OF size] in simp_all)
    then show ?thesis by (simp add: check_fat_mismatch_def upd_stats_def fsck_stats_init_def)
  qed
  have p: "fsck_get_vol_params v = (32, ?F, 2, ?N, 2)" by (simp add: fsck_get_vol_params_def v(2)) (simp add: formatted_geo_def)
  have heap: "fresh_volume tot (v\<lparr>heap_ptr := q\<rparr>)" for q
    by (rule fresh_volumeI [OF size]) (use v in \<open>simp_all add: io_ok_def\<close>)
  have sm: "fsck_summary (?k0\<lparr>fk_vol := x\<rparr>) = x" for x by (simp add: fsck_summary_def fsck_stats_init_def)
  obtain a q where a: "kmalloc_ptr ((?N + 7) div 8) (heap_ptr v) = (a, q)" by fastforce
  obtain b q' where b: "kmalloc_ptr (?N * 12) q = (b, q')" by fastforce
  have e: "chimerafs_fsck v =
     (if a = None then Some (v\<lparr>heap_ptr := q\<rparr>)
      else if b = None then Some (v\<lparr>heap_ptr := q'\<rparr>)
      else do {
        k4 \<leftarrow> fsck_tree ?N 2 (?k0\<lparr>fk_vol := v\<lparr>heap_ptr := q'\<rparr>, reach_bmp := replicate (unat ((?N + 7) div 8)) 0,
           ref_table := replicate (unat ?N) \<lparr>ref_cluster = 0, ref_entry = 0, ref_claimed = False\<rparr>\<rparr>);
        Some (fsck_summary k4)
      })"
    using sm by (simp add: chimerafs_fsck_def p c Let_def on_vol_def vol_kmalloc_def a b)
  show ?thesis
  proof (cases "a = None \<or> b = None")
    case True
    then show ?thesis using heap by (auto simp: e)
  next
    case False
    let ?k = "?k0\<lparr>fk_vol := v\<lparr>heap_ptr := q'\<rparr>, reach_bmp := replicate (unat ((?N + 7) div 8)) 0,
           ref_table := replicate (unat ?N) \<lparr>ref_cluster = 0, ref_entry = 0, ref_claimed = False\<rparr>\<rparr>"
    obtain k' where k': "fsck_tree ?N 2 ?k = Some k'" "fresh_volume tot (fk_vol k')" "same_vol (v\<lparr>heap_ptr := q'\<rparr>) (fk_vol k')"
      "fk_stats k' = fsck_stats_init" "need_readonly k' = False"
      using fsck_tree_fresh [OF size, of ?k ?N] heap by auto
    have "fsck_summary k' = fk_vol k'" using k'(4,5) by (simp add: fsck_summary_def fsck_stats_init_def)
    then show ?thesis using False k'(1-3) by (auto simp: e same_vol_def)
  qed
qed

lemma mount_blank:
  assumes "io_ok s" "\<not> has_signature (drv_data (drv s) 0)"
    and tot: "tot = (if drv_sectors (drv s) = 0 then 131072 else drv_sectors (drv s))" and size: "64 \<le> unat tot" "unat tot < 2 ^ 31"
  shows "\<exists>s'. fat32_mount s = Some (True, s') \<and> vol_mounted s' \<and> vol_readonly s' = vol_readonly s \<and>
    fds s' = replicate FAT32_MAX_FD fd_zero \<and> fresh_volume tot s'"
proof -
  define d where "d = (drv s)\<lparr>drv_data := formatted tot (drv_data (drv s))\<rparr>"
  have t0: "tot \<noteq> 0" using size(1) by auto
  have z: "formatted tot (drv_data (drv s)) 0 = boot_sector 0 tot" by (simp add: formatted_def Let_def)
  have io: "drv_present (drv s)" "drv_rd_ok (drv s) a" for a using assms(1) by (simp_all add: io_ok_def)
  have r: "reformat 0 tot s = (Some (boot_sector 0 tot), s\<lparr>drv := d\<rparr>)"
    using io by (simp add: reformat_def format_writes [OF assms(1) size] blk_read_def z d_def)
  have m: "mount_mbr s = (Some (boot_sector 0 tot), s\<lparr>drv := d\<rparr>)"
    using r assms(2) io by (simp add: mount_mbr_def blk_read_def tot [symmetric])
  have b: "mount_boot 0 (s\<lparr>drv := d\<rparr>) = (Some (boot_sector 0 tot), s\<lparr>drv := d\<rparr>)"
    using io by (simp add: mount_boot_def blk_read_def d_def z boot_signature boot_fields)
  let ?v = "s\<lparr>drv := d, geo := formatted_geo tot, fds := replicate FAT32_MAX_FD fd_zero\<rparr>"
  have iov: "io_ok ?v" using assms(1) by (simp add: io_ok_def d_def)
  have "mirror_fats (range32 0 (format_fat_size tot)) 32 (32 + format_fat_size tot) ?v = ?v"
    by (rule mirror_fats_equal [OF iov]) (simp add: d_def formatted_copies [OF size])
  then have mm: "mount_mirror ?v = ?v\<lparr>sec_cache_lba := NO_LBA, sec_cache_dirty := False\<rparr>"
    by (simp add: mount_mirror_def Let_def formatted_geo_def)
  let ?w = "?v\<lparr>sec_cache_lba := NO_LBA, sec_cache_dirty := False, vol_mounted := True\<rparr>"
  have iow: "io_ok ?w" using iov by (simp add: io_ok_def)
  obtain u where u: "chimerafs_fsck ?w = Some u" "fresh_volume tot u" "vol_readonly u = vol_readonly s" "fds u = replicate FAT32_MAX_FD fd_zero"
    using fsck_fresh [OF size iow] by (auto simp: d_def)
  have "fat32_mount s = Some (True, u\<lparr>vol_mounted := True\<rparr>)"
    using io u(1) mm by (simp add: fat32_mount_def m b boot_partition boot_geometry [OF t0])
  moreover have "fresh_volume tot (u\<lparr>vol_mounted := True\<rparr>)"
  proof -
    have F: "fatv (u\<lparr>vol_mounted := True\<rparr>) = fatv u" "sec_view (u\<lparr>vol_mounted := True\<rparr>) = sec_view u"
      "good_vol (u\<lparr>vol_mounted := True\<rparr>) = good_vol u" "geo (u\<lparr>vol_mounted := True\<rparr>) = geo u"
      by (simp_all add: fun_eq_iff fatv_def fat_copy_def sec_view_def good_vol_def io_ok_def cache_ok_def)
    show ?thesis using u(2) unfolding fresh_volume_def F .
  qed
  ultimately show ?thesis using u by auto
qed

section \<open>Properties\<close>

text \<open>C15: A blank disk becomes an empty volume. When sector 0 carries no signature, the drive works and has
  at least 64 and fewer than 2^31 sectors (131072 are assumed when it does not tell), mounting formats the disk and succeeds; the volume has consistent geometry and an empty cache or
  one that agrees with the drive, every cluster but the root directory's is free, the root directory
  is one cleared cluster, and the consistency check that the mount runs repairs nothing in this state and does not
  make the volume read-only.\<close>

theorem mount_blank_disk:
  assumes "io_ok s" "\<not> has_signature (drv_data (drv s) 0)"
    and "tot = (if drv_sectors (drv s) = 0 then 131072 else drv_sectors (drv s))" "64 \<le> unat tot" "unat tot < 2 ^ 31"
  shows "\<exists>s'. fat32_mount s = Some (True, s') \<and> vol_mounted s' \<and> vol_readonly s' = vol_readonly s \<and>
    fds s' = replicate FAT32_MAX_FD fd_zero \<and> good_vol s' \<and> geo s' = formatted_geo tot \<and>
    (\<forall>c. valid_cluster (geo s') c \<longrightarrow> fatv s' c = (if c = 2 then 0x0FFFFFFF else FAT32_FREE)) \<and>
    (\<forall>i < 8. sec_view s' (cluster_to_lba (geo s') 2 + of_nat i) = zero_sector)"
  using mount_blank [OF assms] by (auto simp: fresh_volume_def)

theorem mount_blank_disk_witness:
  "\<exists>s'. fat32_mount (sample_vol (\<lambda>_. zero_sector)) = Some (True, s') \<and> good_vol s' \<and>
    geo s' = formatted_geo 64 \<and> fatv s' 2 = 0x0FFFFFFF \<and> fatv s' 3 = FAT32_FREE"
proof -
  let ?s = "sample_vol (\<lambda>_. zero_sector)"
  have "io_ok ?s" using good_sample_vol by (simp add: good_vol_def)
  then have "\<exists>s'. fat32_mount ?s = Some (True, s') \<and> vol_mounted s' \<and> vol_readonly s' = vol_readonly ?s \<and>
    fds s' = replicate FAT32_MAX_FD fd_zero \<and> good_vol s' \<and> geo s' = formatted_geo 64 \<and>
    (\<forall>c. valid_cluster (geo s') c \<longrightarrow> fatv s' c = (if c = 2 then 0x0FFFFFFF else FAT32_FREE)) \<and>
    (\<forall>i < 8. sec_view s' (cluster_to_lba (geo s') 2 + of_nat i) = zero_sector)"
    by (rule mount_blank_disk) (simp_all add: sample_vol_def sample_drive_def has_signature_def zero_sector_def)
  moreover have "valid_cluster (formatted_geo 64) 2 \<and> valid_cluster (formatted_geo 64) 3"
  proof -
    have "format_fat_size 64 = 8" by (simp add: format_fat_size_def)
    then show ?thesis by (simp add: valid_cluster_def fat_index_def formatted_geo_def)
  qed
  ultimately show ?thesis by auto
qed

end
