(* ===== verification/Fat_Repair.thy ===== *)
theory Fat_Repair
  imports Fat_Format
begin

text \<open>
  The first repair pass of the driver (\<open>src/fs/fat32_core.c\<close> 548-732), which the checker of
  \<open>src/fs/fsck.c\<close> has replaced: \<open>fat32_fsck_repair\<close> has no caller left, but its code is compiled. The
  bitmap is the list of bytes the code asks the heap for.
\<close>

section \<open>Chains\<close>

text \<open>\<open>bmp[idx / 8] & (1u << (idx % 8))\<close> and the assignment that sets the bit.\<close>

definition reach_get :: "bytes \<Rightarrow> u32 \<Rightarrow> bool" where
  "reach_get bmp idx \<longleftrightarrow> ucast (bmp ! unat (idx div 8)) AND push_bit (unat (idx mod 8)) (1 :: u32) \<noteq> 0"

definition reach_set :: "bytes \<Rightarrow> u32 \<Rightarrow> bytes" where
  "reach_set bmp idx = bmp[unat (idx div 8) :=
     ucast ((ucast (bmp ! unat (idx div 8)) :: u32) OR push_bit (unat (idx mod 8)) 1)]"

partial_function (option) mark_chain_reachable :: "u32 \<Rightarrow> bytes \<Rightarrow> vol \<Rightarrow> (bytes \<times> vol) option" where
  "mark_chain_reachable c bmp s =
     (if \<not> (2 \<le> c \<and> c < vol_total_clusters (geo s) + 2) then Some (bmp, s)
      else if reach_get bmp (c - 2) then Some (bmp, s)
      else let bmp1 = reach_set bmp (c - 2);
               (nxt, s1) = fat_get c s
           in if nxt \<ge> 0x0FFFFFF8 \<or> nxt = 0 then Some (bmp1, s1) else mark_chain_reachable nxt bmp1 s1)"

text \<open>At most \<open>n\<close> clusters (the guard).\<close>

fun free_chain_n :: "nat \<Rightarrow> u32 \<Rightarrow> vol \<Rightarrow> vol" where
  "free_chain_n 0 c s = s"
| "free_chain_n (Suc n) c s =
     (if \<not> (2 \<le> c \<and> c < vol_total_clusters (geo s) + 2) then s
      else let (nxt, s1) = fat_get c s;
               s2 = snd (fat_set c FAT32_FREE s1)
           in if nxt \<ge> FAT32_EOC \<or> nxt = 0 then s2 else free_chain_n n nxt s2)"

definition free_chain :: "u32 \<Rightarrow> vol \<Rightarrow> vol" where
  "free_chain start s = free_chain_n (unat (vol_total_clusters (geo s))) start s"

section \<open>Directory passes\<close>

text \<open>What all passes skip: deleted slots, long-name slots and volume labels.\<close>

definition pass_skips :: "bytes \<Rightarrow> bool" where
  "pass_skips e \<longleftrightarrow> e_first e = 0xE5 \<or> e_attr e = ATTR_LFN \<or> e_attr e AND 0x08 \<noteq> 0"

definition pass_descends :: "bytes \<Rightarrow> bool" where
  "pass_descends e \<longleftrightarrow> e_attr e AND ATTR_DIR \<noteq> 0 \<and> entry_cluster (unpack_dir e) \<ge> 2 \<and>
     take 8 e \<noteq> ascii ''.       '' \<and> take 8 e \<noteq> ascii ''..      ''"

text \<open>
  After a slot that is skipped the result of \<open>dir_next\<close> is not looked at: behind the last slot of a
  full directory the loop goes on with the position \<open>dir_next\<close> leaves.
\<close>

partial_function (option) mark_dir_from ::
  "nat \<Rightarrow> dir_pos_t \<Rightarrow> bytes \<Rightarrow> vol \<Rightarrow> (bytes \<times> vol) option" where
  "mark_dir_from depth pos bmp s =
     (let (r, s1) = dir_read_entry pos s
      in case r of
           None \<Rightarrow> Some (bmp, s1)
         | Some e \<Rightarrow>
             if e_first e = 0 then Some (bmp, s1)
             else if pass_skips e then do { ((_, pos1), s2) \<leftarrow> dir_next pos s1; mark_dir_from depth pos1 bmp s2 }
             else do {
               let sc = entry_cluster (unpack_dir e);
               (bmp1, s2) \<leftarrow> (if 2 \<le> sc then mark_chain_reachable sc bmp s1 else Some (bmp, s1));
               (bmp2, s3) \<leftarrow> (if pass_descends e \<and> \<not> depth + 1 > 16
                 then do {
                   (b, s3) \<leftarrow> mark_chain_reachable sc bmp1 s2;
                   mark_dir_from (depth + 1) (dir_pos_init (geo s3) sc) b s3
                 }
                 else Some (bmp1, s2));
               ((more, pos1), s4) \<leftarrow> dir_next pos s3;
               if more then mark_dir_from depth pos1 bmp2 s4 else Some (bmp2, s4)
             })"

definition mark_dir_reachable :: "u32 \<Rightarrow> nat \<Rightarrow> bytes \<Rightarrow> vol \<Rightarrow> (bytes \<times> vol) option" where
  "mark_dir_reachable dir_cluster depth bmp s =
     (if depth > 16 \<or> dir_cluster < 2 then Some (bmp, s)
      else do {
        (b, s1) \<leftarrow> mark_chain_reachable dir_cluster bmp s;
        mark_dir_from depth (dir_pos_init (geo s1) dir_cluster) b s1
      })"

text \<open>A file of size zero with a chain loses the chain.\<close>

partial_function (option) zero_size_from :: "nat \<Rightarrow> dir_pos_t \<Rightarrow> vol \<Rightarrow> vol option" where
  "zero_size_from depth pos s =
     (let (r, s1) = dir_read_entry pos s
      in case r of
           None \<Rightarrow> Some s1
         | Some e \<Rightarrow>
             if e_first e = 0 then Some s1
             else if pass_skips e then do { ((_, pos1), s2) \<leftarrow> dir_next pos s1; zero_size_from depth pos1 s2 }
             else do {
               let sc = entry_cluster (unpack_dir e);
               let s2 = (if e_attr e AND ATTR_DIR = 0 \<and> de_file_size (unpack_dir e) = 0 \<and> 2 \<le> sc
                         then snd (dir_write_entry pos (pack_dir (set_entry_cluster 0 (unpack_dir e))) (free_chain sc s1))
                         else s1);
               s3 \<leftarrow> (if pass_descends e \<and> \<not> depth + 1 > 16
                       then zero_size_from (depth + 1) (dir_pos_init (geo s2) sc) s2 else Some s2);
               ((more, pos1), s4) \<leftarrow> dir_next pos s3;
               if more then zero_size_from depth pos1 s4 else Some s4
             })"

definition repair_dir_zero_size :: "u32 \<Rightarrow> nat \<Rightarrow> vol \<Rightarrow> vol option" where
  "repair_dir_zero_size dir_cluster depth s =
     (if depth > 16 \<or> dir_cluster < 2 then Some s
      else zero_size_from depth (dir_pos_init (geo s) dir_cluster) s)"

text \<open>A file whose first cluster is free loses its cluster and its size.\<close>

partial_function (option) dangling_from :: "nat \<Rightarrow> dir_pos_t \<Rightarrow> vol \<Rightarrow> vol option" where
  "dangling_from depth pos s =
     (let (r, s1) = dir_read_entry pos s
      in case r of
           None \<Rightarrow> Some s1
         | Some e \<Rightarrow>
             if e_first e = 0 then Some s1
             else if pass_skips e then do { ((_, pos1), s2) \<leftarrow> dir_next pos s1; dangling_from depth pos1 s2 }
             else do {
               let sc = entry_cluster (unpack_dir e);
               let s2 = (if e_attr e AND ATTR_DIR = 0 \<and> 2 \<le> sc
                         then let (fat_val, s2) = fat_get sc s1
                              in if fat_val = FAT32_FREE
                                 then snd (dir_write_entry pos
                                        (pack_dir ((set_entry_cluster 0 (unpack_dir e))\<lparr>de_file_size := 0\<rparr>)) s2)
                                 else s2
                         else s1);
               s3 \<leftarrow> (if pass_descends e \<and> \<not> depth + 1 > 16
                       then dangling_from (depth + 1) (dir_pos_init (geo s2) sc) s2 else Some s2);
               ((more, pos1), s4) \<leftarrow> dir_next pos s3;
               if more then dangling_from depth pos1 s4 else Some s4
             })"

definition repair_dir_dangling_cluster :: "u32 \<Rightarrow> nat \<Rightarrow> vol \<Rightarrow> vol option" where
  "repair_dir_dangling_cluster dir_cluster depth s =
     (if depth > 16 \<or> dir_cluster < 2 then Some s
      else dangling_from depth (dir_pos_init (geo s) dir_cluster) s)"

section \<open>The pass\<close>

text \<open>Free what is allocated and not reachable; the number of free clusters afterwards.\<close>

fun free_orphans :: "u32 list \<Rightarrow> bytes \<Rightarrow> u32 \<Rightarrow> vol \<Rightarrow> u32 \<times> vol" where
  "free_orphans [] bmp free_count s = (free_count, s)"
| "free_orphans (c # cs) bmp free_count s =
     (let (v, s1) = fat_get c s
      in if v = FAT32_FREE then free_orphans cs bmp (free_count + 1) s1
         else if v = 0x0FFFFFF7 then free_orphans cs bmp free_count s1
         else if \<not> reach_get bmp (c - 2) then free_orphans cs bmp (free_count + 1) (snd (fat_set c FAT32_FREE s1))
         else free_orphans cs bmp free_count s1)"

definition write_fsinfo :: "u32 \<Rightarrow> vol \<Rightarrow> vol" where
  "write_fsinfo free_count s =
     (let lba = vol_lba_start (geo s) + 1
      in case blk_read lba (drv s) of
           None \<Rightarrow> s
         | Some f \<Rightarrow>
             if get32 f 0 = 0x41615252 \<and> get32 f 484 = 0x61417272
             then snd (vol_blk_write lba (blit 492 (le32 0xFFFFFFFF) (blit 488 (le32 free_count) f)) s)
             else s)"

definition fat32_fsck_repair :: "vol \<Rightarrow> vol option" where
  "fat32_fsck_repair s =
     (if vol_total_clusters (geo s) = 0 then Some s
      else do {
        let root = vol_root_cluster (geo s);
        s1 \<leftarrow> repair_dir_zero_size root 0 s;
        s2 \<leftarrow> repair_dir_dangling_cluster root 0 s1;
        let bmp_bytes = (vol_total_clusters (geo s2) + 7) div 8;
        let (p, s3) = vol_kmalloc bmp_bytes s2;
        if p = None then Some s3
        else do {
          (bmp, s4) \<leftarrow> mark_dir_reachable root 0 (replicate (unat bmp_bytes) 0) s3;
          let (free_count, s5) = free_orphans (range32 2 (vol_total_clusters (geo s4) + 2)) bmp 0 s4;
          let (_, s6) = sec_flush (write_fsinfo free_count s5);
          Some (s6\<lparr>sec_cache_lba := NO_LBA, sec_cache_dirty := False\<rparr>)
        }
      })"

end
