(* ===== verification/Compositor.thy ===== *)
theory Compositor
  imports Prelude
begin

text \<open>
  The text-mode window compositor of \<open>src/gui/compositor.c\<close>. A C \<open>int\<close> is an integer, and every
  sum, difference and product the code computes with it goes through \<open>c_int\<close>; the content
  buffer of a window, the back-buffer and VGA memory are functions from indices. An access outside
  a window's content buffer, which C leaves undefined, is \<open>None\<close>.
\<close>

section \<open>State\<close>

record cell_t =
  cell_ch :: u8
  cell_attr :: u8

record window_t =
  win_x :: int
  win_y :: int
  win_w :: int
  win_h :: int
  win_title :: bytes
  win_active :: bool
  win_focused :: bool
  win_buf :: "int \<Rightarrow> cell_t"
  cursor_col :: int
  cursor_row :: int

text \<open>\<open>vga_mem\<close> is the text buffer at 0xB8000.\<close>

record compositor_t =
  windows :: "window_t list"
  z_order :: "nat list"
  nwindows :: nat
  mouse_x :: int
  mouse_y :: int
  backbuf :: "int \<Rightarrow> u16"
  vga_mem :: "int \<Rightarrow> u16"

abbreviation COMP_COLS :: int where "COMP_COLS \<equiv> 80"
abbreviation COMP_ROWS :: int where "COMP_ROWS \<equiv> 25"
abbreviation COMP_MAX_WINDOWS :: nat where "COMP_MAX_WINDOWS \<equiv> 8"
abbreviation COMP_TITLE_LEN :: nat where "COMP_TITLE_LEN \<equiv> 30"
abbreviation WIN_MAX_COLS :: int where "WIN_MAX_COLS \<equiv> 78"
abbreviation WIN_BUF_SIZE :: int where "WIN_BUF_SIZE \<equiv> 1716"

abbreviation ATTR_DESKTOP :: u8 where "ATTR_DESKTOP \<equiv> 0x17"
abbreviation ATTR_TITLEBAR :: u8 where "ATTR_TITLEBAR \<equiv> 0x70"
abbreviation ATTR_TITLEFOCUS :: u8 where "ATTR_TITLEFOCUS \<equiv> 0x4F"
abbreviation ATTR_BORDER :: u8 where "ATTR_BORDER \<equiv> 0x07"
abbreviation ATTR_CONTENT :: u8 where "ATTR_CONTENT \<equiv> 0x07"
abbreviation ATTR_CLOSE_BTN :: u8 where "ATTR_CLOSE_BTN \<equiv> 0xC0"

abbreviation CH_PLUS :: u8 where "CH_PLUS \<equiv> 43"
abbreviation CH_MINUS :: u8 where "CH_MINUS \<equiv> 45"
abbreviation CH_BAR :: u8 where "CH_BAR \<equiv> 124"
abbreviation CH_BLANK :: u8 where "CH_BLANK \<equiv> 32"

definition vga_cell :: "u8 \<Rightarrow> u8 \<Rightarrow> u16" where
  "vga_cell ch attr = push_bit 8 (ucast attr) OR ucast ch"

text \<open>\<open>comp_strcpy(dst, src, max)\<close> of a C string: at most \<open>max - 1\<close> characters.\<close>

definition comp_strcpy :: "bytes \<Rightarrow> nat \<Rightarrow> bytes" where
  "comp_strcpy src m = take (m - 1) src"

definition comp_fill :: "u16 \<Rightarrow> int \<Rightarrow> (int \<Rightarrow> u16) \<Rightarrow> (int \<Rightarrow> u16)" where
  "comp_fill val cnt buf = (\<lambda>i. if 0 \<le> i \<and> i < cnt then val else buf i)"

definition bb_put :: "int \<times> int \<times> u16 \<Rightarrow> (int \<Rightarrow> u16) \<Rightarrow> (int \<Rightarrow> u16)" where
  "bb_put = (\<lambda>(col, row, v) bb.
     if col < 0 \<or> col \<ge> COMP_COLS \<or> row < 0 \<or> row \<ge> COMP_ROWS then bb
     else bb(row * COMP_COLS + col := v))"

definition upd_win :: "nat \<Rightarrow> (window_t \<Rightarrow> window_t) \<Rightarrow> compositor_t \<Rightarrow> compositor_t" where
  "upd_win i f c = c\<lparr>windows := (windows c)[i := f (windows c ! i)]\<rparr>"

section \<open>Window management\<close>

definition comp_init :: "compositor_t \<Rightarrow> compositor_t" where
  "comp_init c =
     c\<lparr>windows := map (\<lambda>w. w\<lparr>win_active := False, win_focused := False\<rparr>) (windows c),
       nwindows := 0, mouse_x := COMP_COLS div 2, mouse_y := COMP_ROWS div 2,
       backbuf := comp_fill (vga_cell CH_BLANK ATTR_DESKTOP) (COMP_COLS * COMP_ROWS) (backbuf c)\<rparr>"

definition new_window :: "int \<Rightarrow> int \<Rightarrow> int \<Rightarrow> int \<Rightarrow> bytes \<Rightarrow> window_t \<Rightarrow> window_t" where
  "new_window x y w h title win = win\<lparr>win_x := x, win_y := y, win_w := w, win_h := h,
     win_active := True, win_focused := False, cursor_col := 0, cursor_row := 0,
     win_title := comp_strcpy title (COMP_TITLE_LEN + 1),
     win_buf := (\<lambda>i. if 0 \<le> i \<and> i < WIN_BUF_SIZE
                      then \<lparr>cell_ch = CH_BLANK, cell_attr = ATTR_CONTENT\<rparr> else win_buf win i)\<rparr>"

text \<open>The index of the new window, \<open>None\<close> for -1.\<close>

definition comp_create_window ::
  "int \<Rightarrow> int \<Rightarrow> int \<Rightarrow> int \<Rightarrow> bytes \<Rightarrow> compositor_t \<Rightarrow> nat option \<times> compositor_t" where
  "comp_create_window x y w h title c =
     (if nwindows c \<ge> COMP_MAX_WINDOWS then (None, c)
      else let free = filter (\<lambda>i. \<not> win_active (windows c ! i)) [0..<COMP_MAX_WINDOWS]
           in if free = [] then (None, c)
              else let idx = hd free;
                       c1 = upd_win idx (new_window x y w h title) c;
                       c2 = (if nwindows c > 0
                             then upd_win (z_order c ! (nwindows c - 1)) (\<lambda>w. w\<lparr>win_focused := False\<rparr>) c1
                             else c1);
                       c3 = c2\<lparr>z_order := (z_order c2)[nwindows c := idx], nwindows := nwindows c + 1\<rparr>
                   in (Some idx, upd_win idx (\<lambda>w. w\<lparr>win_focused := True\<rparr>) c3))"

text \<open>The first position of \<open>idx\<close> among the first \<open>n\<close> entries, \<open>None\<close> for -1.\<close>

definition z_find :: "nat \<Rightarrow> nat \<Rightarrow> nat list \<Rightarrow> nat option" where
  "z_find idx n z = (let ps = filter (\<lambda>i. z ! i = idx) [0..<n] in if ps = [] then None else Some (hd ps))"

text \<open>\<open>for (i = pos; i < n - 1; i++) z[i] = z[i+1];\<close>\<close>

definition z_shift :: "nat \<Rightarrow> nat \<Rightarrow> nat list \<Rightarrow> nat list" where
  "z_shift pos n z = fold (\<lambda>i z. z[i := z ! (i + 1)]) [pos..<n - 1] z"

definition comp_close_window :: "int \<Rightarrow> compositor_t \<Rightarrow> compositor_t" where
  "comp_close_window idx c =
     (if idx < 0 \<or> idx \<ge> int COMP_MAX_WINDOWS then c
      else if \<not> win_active (windows c ! nat idx) then c
      else let i = nat idx;
               c1 = upd_win i (\<lambda>w. w\<lparr>win_active := False, win_focused := False\<rparr>) c;
               c2 = (case z_find i (nwindows c1) (z_order c1) of
                       None \<Rightarrow> c1
                     | Some pos \<Rightarrow> c1\<lparr>z_order := z_shift pos (nwindows c1) (z_order c1),
                                     nwindows := nwindows c1 - 1\<rparr>)
           in if nwindows c2 > 0
              then upd_win (z_order c2 ! (nwindows c2 - 1)) (\<lambda>w. w\<lparr>win_focused := True\<rparr>) c2
              else c2)"

definition comp_bring_to_front :: "int \<Rightarrow> compositor_t \<Rightarrow> compositor_t" where
  "comp_bring_to_front idx c =
     (if idx < 0 \<or> idx \<ge> int COMP_MAX_WINDOWS then c
      else if \<not> win_active (windows c ! nat idx) then c
      else let i = nat idx; n = nwindows c; top = z_order c ! (n - 1)
           in case z_find i n (z_order c) of
                None \<Rightarrow>
                  if n > 0
                  then if top \<noteq> i
                       then upd_win i (\<lambda>w. w\<lparr>win_focused := True\<rparr>) (upd_win top (\<lambda>w. w\<lparr>win_focused := False\<rparr>) c)
                       else upd_win top (\<lambda>w. w\<lparr>win_focused := True\<rparr>) c
                  else c
              | Some pos \<Rightarrow>
                  if pos = n - 1
                  then (if top \<noteq> i
                        then upd_win i (\<lambda>w. w\<lparr>win_focused := True\<rparr>) (upd_win top (\<lambda>w. w\<lparr>win_focused := False\<rparr>) c)
                        else upd_win top (\<lambda>w. w\<lparr>win_focused := True\<rparr>) c)
                  else let c1 = upd_win top (\<lambda>w. w\<lparr>win_focused := False\<rparr>) c;
                           c2 = c1\<lparr>z_order := (z_shift pos n (z_order c1))[n - 1 := i]\<rparr>
                       in upd_win i (\<lambda>w. w\<lparr>win_focused := True\<rparr>) c2)"

definition comp_focused :: "compositor_t \<Rightarrow> nat option" where
  "comp_focused c = (if nwindows c = 0 then None else Some (z_order c ! (nwindows c - 1)))"

section \<open>Writing into a window\<close>

text \<open>The accesses \<open>win->buf[i]\<close>.\<close>

definition buf_read :: "int \<Rightarrow> (int \<Rightarrow> cell_t) \<Rightarrow> cell_t option" where
  "buf_read i buf = (if 0 \<le> i \<and> i < WIN_BUF_SIZE then Some (buf i) else None)"

definition buf_write :: "int \<Rightarrow> cell_t \<Rightarrow> (int \<Rightarrow> cell_t) \<Rightarrow> (int \<Rightarrow> cell_t) option" where
  "buf_write i v buf = (if 0 \<le> i \<and> i < WIN_BUF_SIZE then Some (buf(i := v)) else None)"

text \<open>The scroll loops: rows \<open>1 \<dots> rows - 1\<close> move up, the last row is cleared.\<close>

definition scroll_buf :: "int \<Rightarrow> int \<Rightarrow> u8 \<Rightarrow> (int \<Rightarrow> cell_t) \<Rightarrow> (int \<Rightarrow> cell_t) option" where
  "scroll_buf cw rows attr buf = do {
     moved \<leftarrow> each (\<lambda>r. each (\<lambda>col b. do {
                       v \<leftarrow> buf_read (c_int (c_int (r * WIN_MAX_COLS) + col)) b;
                       buf_write (c_int (c_int ((r - 1) * WIN_MAX_COLS) + col)) v b
                     }) [0..cw - 1]) [1..rows - 1] buf;
     each (\<lambda>col. buf_write (c_int (c_int ((rows - 1) * WIN_MAX_COLS) + col)) \<lparr>cell_ch = CH_BLANK, cell_attr = attr\<rparr>)
       [0..cw - 1] moved
   }"

definition putchar_win :: "u8 \<Rightarrow> u8 \<Rightarrow> window_t \<Rightarrow> window_t option" where
  "putchar_win ch attr win =
     (let cw = c_int (win_w win - 2); rows = c_int (win_h win - 3)
      in if cw \<le> 0 \<or> rows \<le> 0 then Some win
         else let w1 =
                (if ch = 10 then win\<lparr>cursor_col := 0, cursor_row := c_int (cursor_row win + 1)\<rparr>
                 else if ch = 13 then win\<lparr>cursor_col := 0\<rparr>
                 else let pos = c_int (c_int (cursor_row win * WIN_MAX_COLS) + cursor_col win);
                          w0 = (if pos \<ge> 0 \<and> pos < WIN_BUF_SIZE
                                then win\<lparr>win_buf := (win_buf win)(pos := \<lparr>cell_ch = ch, cell_attr = attr\<rparr>)\<rparr>
                                else win)
                      in if c_int (cursor_col win + 1) \<ge> cw
                         then w0\<lparr>cursor_col := 0, cursor_row := c_int (cursor_row win + 1)\<rparr>
                         else w0\<lparr>cursor_col := c_int (cursor_col win + 1)\<rparr>)
              in if cursor_row w1 \<ge> rows
                 then do {
                   b \<leftarrow> scroll_buf cw rows attr (win_buf w1);
                   Some (w1\<lparr>win_buf := b, cursor_row := rows - 1\<rparr>)
                 }
                 else Some w1)"

definition comp_win_putchar :: "int \<Rightarrow> u8 \<Rightarrow> u8 \<Rightarrow> compositor_t \<Rightarrow> compositor_t option" where
  "comp_win_putchar idx ch attr c =
     (if idx < 0 \<or> idx \<ge> int COMP_MAX_WINDOWS then Some c
      else if \<not> win_active (windows c ! nat idx) then Some c
      else do { w \<leftarrow> putchar_win ch attr (windows c ! nat idx); Some (upd_win (nat idx) (\<lambda>_. w) c) })"

fun comp_win_puts_attr :: "int \<Rightarrow> bytes \<Rightarrow> u8 \<Rightarrow> compositor_t \<Rightarrow> compositor_t option" where
  "comp_win_puts_attr idx [] attr c = Some c"
| "comp_win_puts_attr idx (ch # s) attr c =
     do { c1 \<leftarrow> comp_win_putchar idx ch attr c; comp_win_puts_attr idx s attr c1 }"

definition comp_win_puts :: "int \<Rightarrow> bytes \<Rightarrow> compositor_t \<Rightarrow> compositor_t option" where
  "comp_win_puts idx s c = comp_win_puts_attr idx s ATTR_CONTENT c"

section \<open>Rendering\<close>

text \<open>The calls of \<open>bb_put\<close> that \<open>render_window\<close> makes, in order.\<close>

definition title_puts :: "window_t \<Rightarrow> (int \<times> int \<times> u16) list" where
  "title_puts win =
     (let x = win_x win; y = win_y win; w = win_w win;
          tb_attr = (if win_focused win then ATTR_TITLEFOCUS else ATTR_TITLEBAR);
          bar_inner = (if c_int (w - 4) < 0 then 0 else c_int (w - 4));
          title_len = int (length (win_title win));
          tlen = (if title_len < bar_inner then title_len else bar_inner)
      in [(x, y, vga_cell CH_PLUS ATTR_BORDER)] @
         map (\<lambda>col. (c_int (x + col), y, vga_cell CH_MINUS tb_attr)) [1..c_int (w - 1) - 1] @
         map (\<lambda>i. (c_int (c_int (x + 1) + i), y, vga_cell (win_title win ! nat i) tb_attr)) [0..tlen - 1] @
         (if w \<ge> 5
          then [(c_int (c_int (x + w) - 4), y, vga_cell 91 ATTR_CLOSE_BTN),
                (c_int (c_int (x + w) - 3), y, vga_cell 88 ATTR_CLOSE_BTN),
                (c_int (c_int (x + w) - 2), y, vga_cell 93 ATTR_CLOSE_BTN)]
          else []) @
         [(c_int (c_int (x + w) - 1), y, vga_cell CH_PLUS ATTR_BORDER)])"

text \<open>The cell of the content buffer that row \<open>r\<close> shows in column \<open>col\<close>.\<close>

definition content_cell :: "window_t \<Rightarrow> int \<Rightarrow> int \<Rightarrow> u16" where
  "content_cell win r col =
     (let p = c_int (c_int (r * WIN_MAX_COLS) + col)
      in if p < WIN_BUF_SIZE then vga_cell (cell_ch (win_buf win p)) (cell_attr (win_buf win p))
         else vga_cell CH_BLANK ATTR_CONTENT)"

definition content_row_puts :: "window_t \<Rightarrow> int \<Rightarrow> (int \<times> int \<times> u16) list" where
  "content_row_puts win r =
     (let x = win_x win; row = c_int (c_int (win_y win + 1) + r); w = win_w win
      in [(x, row, vga_cell CH_BAR ATTR_BORDER)] @
         map (\<lambda>col. (c_int (c_int (x + 1) + col), row, content_cell win r col)) [0..c_int (w - 2) - 1] @
         [(c_int (c_int (x + w) - 1), row, vga_cell CH_BAR ATTR_BORDER)])"

definition bottom_puts :: "window_t \<Rightarrow> (int \<times> int \<times> u16) list" where
  "bottom_puts win =
     (let x = win_x win; bot = c_int (c_int (win_y win + win_h win) - 1); w = win_w win
      in [(x, bot, vga_cell CH_PLUS ATTR_BORDER)] @
         map (\<lambda>col. (c_int (x + col), bot, vga_cell CH_MINUS ATTR_BORDER)) [1..c_int (w - 1) - 1] @
         [(c_int (c_int (x + w) - 1), bot, vga_cell CH_PLUS ATTR_BORDER)])"

definition window_puts :: "window_t \<Rightarrow> (int \<times> int \<times> u16) list" where
  "window_puts win =
     title_puts win @ concat (map (content_row_puts win) [0..c_int (win_h win - 2) - 1]) @ bottom_puts win"

definition render_window :: "compositor_t \<Rightarrow> nat \<Rightarrow> (int \<Rightarrow> u16) \<Rightarrow> (int \<Rightarrow> u16)" where
  "render_window c idx bb =
     (if win_active (windows c ! idx) then fold bb_put (window_puts (windows c ! idx)) bb else bb)"

definition invert_cell :: "u16 \<Rightarrow> u16" where
  "invert_cell cell =
     (let ch = ucast (cell AND 0xFF) :: u8; attr = ucast (drop_bit 8 cell) :: u8
      in vga_cell ch (push_bit 4 (attr AND 0x0F) OR (drop_bit 4 attr AND 0x0F)))"

text \<open>The back-buffer after the desktop and the windows have been drawn.\<close>

definition render_scene :: "compositor_t \<Rightarrow> int \<Rightarrow> u16" where
  "render_scene c =
     fold (render_window c) (take (nwindows c) (z_order c))
       (comp_fill (vga_cell CH_BLANK ATTR_DESKTOP) (COMP_COLS * COMP_ROWS) (backbuf c))"

definition comp_render :: "compositor_t \<Rightarrow> compositor_t" where
  "comp_render c =
     (let bb = render_scene c;
          m = mouse_y c * COMP_COLS + mouse_x c;
          bb1 = (if mouse_x c \<ge> 0 \<and> mouse_x c < COMP_COLS \<and> mouse_y c \<ge> 0 \<and> mouse_y c < COMP_ROWS
                 then bb(m := invert_cell (bb m)) else bb)
      in c\<lparr>backbuf := bb1,
           vga_mem := (\<lambda>i. if 0 \<le> i \<and> i < COMP_COLS * COMP_ROWS then bb1 i else vga_mem c i)\<rparr>)"

section \<open>Input\<close>

definition win_contains :: "window_t \<Rightarrow> int \<Rightarrow> int \<Rightarrow> bool" where
  "win_contains win x y \<longleftrightarrow>
     x \<ge> win_x win \<and> x < c_int (win_x win + win_w win) \<and> y \<ge> win_y win \<and> y < c_int (win_y win + win_h win)"

fun hit_scan :: "nat list \<Rightarrow> compositor_t \<Rightarrow> int \<Rightarrow> int \<Rightarrow> nat option" where
  "hit_scan [] c x y = None"
| "hit_scan (i # is) c x y =
     (if \<not> win_active (windows c ! i) then hit_scan is c x y
      else if win_contains (windows c ! i) x y then Some i else hit_scan is c x y)"

definition comp_hit_test :: "compositor_t \<Rightarrow> int \<Rightarrow> int \<Rightarrow> nat option" where
  "comp_hit_test c x y = hit_scan (rev (take (nwindows c) (z_order c))) c x y"

definition comp_on_mouse_move :: "int \<Rightarrow> int \<Rightarrow> compositor_t \<Rightarrow> compositor_t" where
  "comp_on_mouse_move x y c =
     (let x = (if x < 0 then 0 else x); x = (if x \<ge> COMP_COLS then COMP_COLS - 1 else x);
          y = (if y < 0 then 0 else y); y = (if y \<ge> COMP_ROWS then COMP_ROWS - 1 else y)
      in comp_render (c\<lparr>mouse_x := x, mouse_y := y\<rparr>))"

definition on_close_button :: "window_t \<Rightarrow> int \<Rightarrow> int \<Rightarrow> bool" where
  "on_close_button win x y \<longleftrightarrow> y = win_y win \<and> win_w win \<ge> 5 \<and>
     x \<ge> c_int (c_int (win_x win + win_w win) - 4) \<and> x \<le> c_int (c_int (win_x win + win_w win) - 2)"

definition comp_on_mouse_click :: "int \<Rightarrow> int \<Rightarrow> compositor_t \<Rightarrow> nat option \<times> compositor_t" where
  "comp_on_mouse_click x y c =
     (case comp_hit_test c x y of
        None \<Rightarrow> (None, c)
      | Some idx \<Rightarrow>
          (Some idx, comp_render
             (if on_close_button (windows c ! idx) x y then comp_close_window (int idx) c
              else comp_bring_to_front (int idx) c)))"

definition comp_on_key :: "u8 \<Rightarrow> compositor_t \<Rightarrow> compositor_t option" where
  "comp_on_key ch c =
     (case comp_focused c of
        None \<Rightarrow> Some c
      | Some idx \<Rightarrow> do { c1 \<leftarrow> comp_win_putchar (int idx) ch ATTR_CONTENT c; Some (comp_render c1) })"

section \<open>The stack of windows\<close>

text \<open>The abstract state of window management: the open windows from back to front.\<close>

definition win_stack :: "compositor_t \<Rightarrow> nat list" where
  "win_stack c = take (nwindows c) (z_order c)"

text \<open>The open windows are on the stack, once each, and exactly the top one has the focus.\<close>

definition comp_inv :: "compositor_t \<Rightarrow> bool" where
  "comp_inv c \<longleftrightarrow> length (windows c) = COMP_MAX_WINDOWS \<and> length (z_order c) = COMP_MAX_WINDOWS \<and>
     nwindows c \<le> COMP_MAX_WINDOWS \<and> distinct (win_stack c) \<and>
     (\<forall>i < COMP_MAX_WINDOWS. win_active (windows c ! i) \<longleftrightarrow> i \<in> set (win_stack c)) \<and>
     (\<forall>i < COMP_MAX_WINDOWS. win_focused (windows c ! i) \<longleftrightarrow> win_stack c \<noteq> [] \<and> i = last (win_stack c)) \<and>
     set (win_stack c) \<subseteq> {..<COMP_MAX_WINDOWS}"

lemma length_stack: "length (z_order c) = COMP_MAX_WINDOWS \<Longrightarrow> nwindows c \<le> COMP_MAX_WINDOWS \<Longrightarrow> length (win_stack c) = nwindows c"
  by (simp add: win_stack_def)

lemma stack_last: "n \<le> length z \<Longrightarrow> 0 < n \<Longrightarrow> last (take n z) = z ! (n - 1)"
  by (cases n) (simp_all add: take_Suc_conv_app_nth)

lemma z_find_Some:
  assumes "z_find idx n z = Some p"
  shows "p < n" "z ! p = idx"
proof -
  let ?ps = "filter (\<lambda>i. z ! i = idx) [0..<n]"
  have "?ps \<noteq> []" "p = hd ?ps" using assms by (auto simp: z_find_def Let_def split: if_splits)
  then have "p \<in> set ?ps" using hd_in_set by metis
  then show "p < n" "z ! p = idx" by auto
qed

lemma z_find_None: "z_find idx n z = None \<Longrightarrow> n \<le> length z \<Longrightarrow> idx \<notin> set (take n z)"
  by (auto simp: z_find_def Let_def in_set_conv_nth filter_empty_conv split: if_splits)

lemma z_shift_fold:
  "b < length z \<or> b \<le> a \<Longrightarrow> length (fold (\<lambda>i z. z[i := z ! (i + 1)]) [a..<b] z) = length z \<and>
    (\<forall>k < length z. fold (\<lambda>i z. z[i := z ! (i + 1)]) [a..<b] z ! k = (if a \<le> k \<and> k < b then z ! (k + 1) else z ! k))"
proof (induction b)
  case (Suc b)
  show ?case
  proof (cases "a \<le> b")
    case True
    let ?z = "fold (\<lambda>i z. z[i := z ! (i + 1)]) [a..<b] z"
    have b: "Suc b < length z" using Suc.prems True by linarith
    then have "b < length z \<or> b \<le> a" by simp
    note IH = Suc.IH [OF this]
    have e: "fold (\<lambda>i z. z[i := z ! (i + 1)]) [a..<Suc b] z = ?z[b := ?z ! (b + 1)]"
      using True by simp
    have v: "?z ! (b + 1) = z ! (b + 1)" using IH b by simp
    show ?thesis unfolding e v using IH b True by (auto simp: nth_list_update)
  qed (use Suc.prems in auto)
qed simp

lemma length_z_shift [simp]: "n \<le> length z \<Longrightarrow> length (z_shift pos n z) = length z"
  using z_shift_fold [of "n - 1" z pos] by (cases n) (auto simp: z_shift_def)

lemma z_shift_take:
  assumes "pos < n" "n \<le> length z"
  shows "take (n - 1) (z_shift pos n z) = take pos z @ drop (Suc pos) (take n z)"
proof (rule nth_equalityI)
  have F: "\<forall>k < length z. z_shift pos n z ! k = (if pos \<le> k \<and> k < n - 1 then z ! (k + 1) else z ! k)"
  proof -
    have "n - 1 < length z" using assms by linarith
    then show ?thesis using z_shift_fold [of "n - 1" z pos] unfolding z_shift_def by blast
  qed
  show "length (take (n - 1) (z_shift pos n z)) = length (take pos z @ drop (Suc pos) (take n z))"
    using assms by simp
  fix k assume "k < length (take (n - 1) (z_shift pos n z))"
  then have k: "k < n - 1" by simp
  then show "take (n - 1) (z_shift pos n z) ! k = (take pos z @ drop (Suc pos) (take n z)) ! k"
    using F assms by (auto simp: nth_append)
qed

lemma z_shift_stack:
  assumes "z_find idx n z = Some pos" "n \<le> length z" "distinct (take n z)"
  shows "take (n - 1) (z_shift pos n z) = remove1 idx (take n z)"
proof -
  note P = z_find_Some [OF assms(1)]
  have "take n z = take pos z @ idx # drop (Suc pos) (take n z)"
    using P assms(2) id_take_nth_drop [of pos "take n z"] by simp
  moreover have "idx \<notin> set (take pos z)"
    using assms(3) calculation by (metis distinct_append disjoint_iff list.set_intros(1))
  ultimately have "remove1 idx (take n z) = take pos z @ drop (Suc pos) (take n z)"
    by (metis remove1.simps(2) remove1_append)
  then show ?thesis using z_shift_take [OF P(1) assms(2)] by simp
qed

section \<open>Management operations on the stack\<close>

lemma upd_win_simps [simp]:
  "z_order (upd_win i f c) = z_order c" "nwindows (upd_win i f c) = nwindows c"
  "win_stack (upd_win i f c) = win_stack c" "length (windows (upd_win i f c)) = length (windows c)"
  "mouse_x (upd_win i f c) = mouse_x c" "mouse_y (upd_win i f c) = mouse_y c"
  by (simp_all add: upd_win_def win_stack_def)

lemma upd_win_nth:
  "k < length (windows c) \<Longrightarrow> windows (upd_win i f c) ! k = (if k = i then f (windows c ! k) else windows c ! k)"
  by (auto simp: upd_win_def nth_list_update)

lemma comp_invD:
  assumes "comp_inv c"
  shows "length (windows c) = 8" "length (z_order c) = 8" "nwindows c \<le> 8" "distinct (win_stack c)"
    "i < 8 \<Longrightarrow> win_active (windows c ! i) \<longleftrightarrow> i \<in> set (win_stack c)"
    "i < 8 \<Longrightarrow> win_focused (windows c ! i) \<longleftrightarrow> win_stack c \<noteq> [] \<and> i = last (win_stack c)"
    "i \<in> set (win_stack c) \<Longrightarrow> i < 8" "win_stack c = [] \<longleftrightarrow> nwindows c = 0"
    "0 < nwindows c \<Longrightarrow> z_order c ! (nwindows c - 1) = last (win_stack c)"
  using assms stack_last [of "nwindows c" "z_order c"] by (auto simp: comp_inv_def win_stack_def)

lemma init_inv:
  "length (windows c) = 8 \<Longrightarrow> length (z_order c) = 8 \<Longrightarrow> comp_inv (comp_init c) \<and> win_stack (comp_init c) = []"
  by (simp add: comp_inv_def comp_init_def win_stack_def)

lemma create_spec:
  assumes "comp_inv c" "comp_create_window x y w h title c = (r, c')"
  shows "comp_inv c' \<and> (case r of
      None \<Rightarrow> nwindows c = 8 \<and> c' = c
    | Some idx \<Rightarrow> idx < 8 \<and> idx \<notin> set (win_stack c) \<and> win_stack c' = win_stack c @ [idx] \<and>
        win_x (windows c' ! idx) = x \<and> win_y (windows c' ! idx) = y \<and>
        win_w (windows c' ! idx) = w \<and> win_h (windows c' ! idx) = h)"
proof -
  note I = comp_invD [OF assms(1)]
  show ?thesis
  proof (cases "nwindows c \<ge> 8")
    case True
    with assms I(3) show ?thesis by (auto simp: comp_create_window_def)
  next
    case False
    then have n: "nwindows c < 8" by simp
    let ?free = "filter (\<lambda>i. \<not> win_active (windows c ! i)) [0..<8]"
    have "card (set (win_stack c)) < 8" using I(2,4) n by (simp add: distinct_card win_stack_def)
    then have "\<not> {..<8} \<subseteq> set (win_stack c)" using card_mono [of "set (win_stack c)" "{..<8 :: nat}"] by auto
    then obtain i where "i < 8" "i \<notin> set (win_stack c)" by auto
    then have "i \<in> set ?free" using I(5) by auto
    then have ne: "?free \<noteq> []" by (metis empty_iff empty_set)
    define idx where "idx = hd ?free"
    have "idx \<in> set ?free" using ne unfolding idx_def by (rule hd_in_set)
    then have idx: "idx < 8" "\<not> win_active (windows c ! idx)" by auto
    then have ns: "idx \<notin> set (win_stack c)" using I(5) by simp
    let ?top = "z_order c ! (nwindows c - 1)"
    let ?c1 = "upd_win idx (new_window x y w h title) c"
    let ?c2 = "if nwindows c > 0 then upd_win ?top (\<lambda>w. w\<lparr>win_focused := False\<rparr>) ?c1 else ?c1"
    let ?c3 = "?c2\<lparr>z_order := (z_order ?c2)[nwindows c := idx], nwindows := nwindows c + 1\<rparr>"
    have r: "r = Some idx" "c' = upd_win idx (\<lambda>w. w\<lparr>win_focused := True\<rparr>) ?c3"
      using assms(2) n ne by (simp_all add: comp_create_window_def Let_def idx_def [symmetric] not_le)
    have st: "win_stack c' = win_stack c @ [idx]"
      using I(2) n by (simp add: r win_stack_def take_Suc_conv_app_nth)
    have wn: "windows c' ! k = (if k = idx then (new_window x y w h title (windows c ! k))\<lparr>win_focused := True\<rparr>
        else if nwindows c > 0 \<and> k = ?top then (windows c ! k)\<lparr>win_focused := False\<rparr> else windows c ! k)" if "k < 8" for k
      using that I(1) by (auto simp: r upd_win_def nth_list_update new_window_def)
    have tp: "nwindows c > 0 \<Longrightarrow> ?top \<in> set (win_stack c)" using I(8,9) by (metis last_in_set not_gr_zero)
    have "comp_inv c'"
      unfolding comp_inv_def st
    proof (intro conjI allI impI)
      show "length (windows c') = 8" "length (z_order c') = 8" using I(1,2) by (simp_all add: r)
      show "nwindows c' \<le> 8" using n by (simp add: r)
      show "distinct (win_stack c @ [idx])" using I(4) ns by simp
      show "set (win_stack c @ [idx]) \<subseteq> {..<8}" using I(7) idx by auto
      fix k :: nat assume k: "k < 8"
      show "win_active (windows c' ! k) \<longleftrightarrow> k \<in> set (win_stack c @ [idx])"
        using wn [OF k] I(5) [OF k] by (auto simp: new_window_def)
      show "win_focused (windows c' ! k) \<longleftrightarrow> win_stack c @ [idx] \<noteq> [] \<and> k = last (win_stack c @ [idx])"
        using wn [OF k] I(6) [OF k] I(8,9) by (auto simp: new_window_def)
    qed
    moreover have "win_x (windows c' ! idx) = x \<and> win_y (windows c' ! idx) = y \<and>
        win_w (windows c' ! idx) = w \<and> win_h (windows c' ! idx) = h"
      using wn [OF idx(1)] by (simp add: new_window_def)
    ultimately show ?thesis using r idx ns st by simp
  qed
qed

text \<open>Focus bookkeeping once the stack and the flags are known.\<close>

lemma comp_invI:
  assumes "length (windows c) = 8" "length (z_order c) = 8" "nwindows c \<le> 8" "distinct (win_stack c)"
    and "set (win_stack c) \<subseteq> {..<8}"
    and "\<And>i. i < 8 \<Longrightarrow> win_active (windows c ! i) \<longleftrightarrow> i \<in> set (win_stack c)"
    and "\<And>i. i < 8 \<Longrightarrow> win_focused (windows c ! i) \<longleftrightarrow> win_stack c \<noteq> [] \<and> i = last (win_stack c)"
  shows "comp_inv c"
  using assms by (auto simp: comp_inv_def)

lemma last_remove1: "distinct xs \<Longrightarrow> xs \<noteq> [] \<Longrightarrow> last xs \<noteq> x \<Longrightarrow> last (remove1 x xs) = last xs \<and> remove1 x xs \<noteq> []"
  by (induction xs) auto

lemma close_spec:
  assumes "comp_inv c"
  shows "comp_inv (comp_close_window idx c) \<and>
    win_stack (comp_close_window idx c) = (if 0 \<le> idx then remove1 (nat idx) (win_stack c) else win_stack c)"
proof -
  note I = comp_invD [OF assms]
  show ?thesis
  proof (cases "0 \<le> idx \<and> nat idx \<in> set (win_stack c)")
    case False
    have same: "comp_close_window idx c = c"
    proof (cases "idx < 0 \<or> idx \<ge> 8")
      case in_range: False
      then have "0 \<le> idx" "nat idx < 8" by auto
      then have "\<not> win_active (windows c ! nat idx)" using False I(5) [of "nat idx"] by blast
      then show ?thesis by (simp add: comp_close_window_def)
    qed (simp add: comp_close_window_def)
    then show ?thesis using False assms by (auto simp: remove1_idem)
  next
    case True
    define i where "i = nat idx"
    have i: "i \<in> set (win_stack c)" "i < 8" "\<not> (idx < 0 \<or> idx \<ge> 8)" "win_active (windows c ! i)"
      using True I(5,7) by (auto simp: i_def) fastforce
    let ?c1 = "upd_win i (\<lambda>w. w\<lparr>win_active := False, win_focused := False\<rparr>) c"
    let ?n = "nwindows c"
    obtain pos where pos: "z_find i ?n (z_order c) = Some pos"
      using z_find_None [of i ?n "z_order c"] i(1) I(2,3) by (cases "z_find i ?n (z_order c)") (auto simp: win_stack_def)
    let ?c2 = "?c1\<lparr>z_order := z_shift pos ?n (z_order c), nwindows := ?n - 1\<rparr>"
    have st2: "win_stack ?c2 = remove1 i (win_stack c)"
      using z_shift_stack [OF pos] I(2,3,4) by (simp add: win_stack_def)
    have l2: "length (z_order ?c2) = 8" using I(2,3) by simp
    let ?c3 = "if ?n - 1 > 0 then upd_win (z_order ?c2 ! (?n - 1 - 1)) (\<lambda>w. w\<lparr>win_focused := True\<rparr>) ?c2 else ?c2"
    have eq: "comp_close_window idx c = ?c3"
      using i(3,4) pos by (simp add: comp_close_window_def i_def Let_def)
    have st: "win_stack ?c3 = remove1 i (win_stack c)"
      using st2 by (cases "0 < ?n - 1") (simp_all only: if_True if_False upd_win_simps)
    have ne: "remove1 i (win_stack c) \<noteq> [] \<longleftrightarrow> 0 < ?n - 1"
      using i(1) I(2,3) length_remove1 [of i "win_stack c"] length_stack [of c]
      by (metis (no_types, lifting) length_greater_0_conv)
    have tp: "0 < ?n - 1 \<Longrightarrow> z_order ?c2 ! (?n - 1 - 1) = last (remove1 i (win_stack c))"
      using st2 stack_last [of "?n - 1" "z_order ?c2"] I(2,3) by (simp add: win_stack_def)
    have wn: "windows ?c3 ! k = (let w = (if k = i then (windows c ! k)\<lparr>win_active := False, win_focused := False\<rparr> else windows c ! k)
        in if 0 < ?n - 1 \<and> k = last (remove1 i (win_stack c)) then w\<lparr>win_focused := True\<rparr> else w)" if "k < 8" for k
    proof -
      have w2: "windows ?c2 ! k = (if k = i then (windows c ! k)\<lparr>win_active := False, win_focused := False\<rparr> else windows c ! k)"
        using upd_win_nth [of k c] that I(1) by simp
      have l: "k < length (windows ?c2)" using that I(1) by simp
      show ?thesis
      proof (cases "0 < ?n - 1")
        case True
        have "windows ?c3 ! k = windows (upd_win (last (remove1 i (win_stack c))) (\<lambda>w. w\<lparr>win_focused := True\<rparr>) ?c2) ! k"
          using True tp by simp
        also have "\<dots> = (if k = last (remove1 i (win_stack c)) then (windows ?c2 ! k)\<lparr>win_focused := True\<rparr> else windows ?c2 ! k)"
          by (rule upd_win_nth [OF l])
        finally show ?thesis unfolding w2 Let_def using True by simp
      next
        case False
        then show ?thesis using w2 by (simp add: Let_def)
      qed
    qed
    have "comp_inv ?c3"
    proof (rule comp_invI)
      show "length (windows ?c3) = 8" "length (z_order ?c3) = 8" "nwindows ?c3 \<le> 8" using I(1,3) l2 by auto
      show "distinct (win_stack ?c3)" "set (win_stack ?c3) \<subseteq> {..<8}"
        unfolding st using I(4,7) set_remove1_subset [of i "win_stack c"] by (auto intro: distinct_remove1)
      fix k :: nat assume k: "k < 8"
      show "win_active (windows ?c3 ! k) \<longleftrightarrow> k \<in> set (win_stack ?c3)"
        unfolding wn [OF k] st using I(5) [OF k] I(4) by (auto simp: Let_def)
      have "i \<noteq> last (remove1 i (win_stack c))" if "0 < ?n - 1"
        using ne that I(4) last_in_set [of "remove1 i (win_stack c)"] by auto
      moreover have "last (remove1 i (win_stack c)) = last (win_stack c)" if "last (win_stack c) \<noteq> i"
        using last_remove1 [OF I(4) _ that] i(1) by fastforce
      moreover have "last (win_stack c) \<noteq> i \<Longrightarrow> remove1 i (win_stack c) \<noteq> []"
        using last_remove1 [OF I(4)] i(1) by fastforce
      ultimately show "win_focused (windows ?c3 ! k) \<longleftrightarrow> win_stack ?c3 \<noteq> [] \<and> k = last (win_stack ?c3)"
        unfolding wn [OF k] st ne using I(6) [OF k] ne by (auto simp: Let_def)
    qed
    then show ?thesis using st True by (simp add: eq i_def)
  qed
qed

lemma z_find_top:
  assumes "distinct (take n z)" "n \<le> length z" "0 < n" "z_find i n z = Some (n - 1)"
  shows "i = last (take n z)"
  using z_find_Some [OF assms(4)] stack_last [OF assms(2,3)] by simp

lemma remove1_last: "distinct xs \<Longrightarrow> xs \<noteq> [] \<Longrightarrow> remove1 (last xs) xs @ [last xs] = xs"
  by (induction xs) auto

lemma bring_spec:
  assumes "comp_inv c"
  shows "comp_inv (comp_bring_to_front idx c) \<and>
    win_stack (comp_bring_to_front idx c) =
      (if 0 \<le> idx \<and> nat idx \<in> set (win_stack c) then remove1 (nat idx) (win_stack c) @ [nat idx] else win_stack c)"
proof -
  note I = comp_invD [OF assms]
  let ?n = "nwindows c"
  show ?thesis
  proof (cases "0 \<le> idx \<and> nat idx \<in> set (win_stack c)")
    case False
    have "comp_bring_to_front idx c = c"
    proof (cases "idx < 0 \<or> idx \<ge> 8")
      case in_range: False
      then have "0 \<le> idx" "nat idx < 8" by auto
      then have "\<not> win_active (windows c ! nat idx)" using False I(5) [of "nat idx"] by blast
      then show ?thesis by (simp add: comp_bring_to_front_def)
    qed (simp add: comp_bring_to_front_def)
    then show ?thesis using False assms by auto
  next
    case True
    define i where "i = nat idx"
    have i: "i \<in> set (win_stack c)" using True by (simp add: i_def)
    then have i8: "i < 8" by (rule I(7))
    then have act: "\<not> (idx < 0 \<or> idx \<ge> 8)" "win_active (windows c ! i)"
      using True I(5) [OF i8] i by (auto simp: i_def)
    have n0: "0 < ?n" using i by (cases ?n) (auto simp: win_stack_def)
    obtain pos where pos: "z_find i ?n (z_order c) = Some pos"
      using z_find_None [of i ?n "z_order c"] i I(2,3) by (cases "z_find i ?n (z_order c)") (auto simp: win_stack_def)
    note top = I(9) [OF n0]
    have ne: "win_stack c \<noteq> []" using i by auto
    show ?thesis
    proof (cases "pos = ?n - 1")
      case last: True
      have it: "i = last (win_stack c)"
        using z_find_top [of ?n "z_order c" i] I(2,3,4) n0 pos last by (simp add: win_stack_def)
      let ?c = "upd_win i (\<lambda>w. w\<lparr>win_focused := True\<rparr>) c"
      have eq: "comp_bring_to_front idx c = ?c"
        using act pos last top it by (simp add: comp_bring_to_front_def i_def Let_def)
      have "windows ?c ! k = windows c ! k" if "k < 8" for k
        using upd_win_nth [of k c] that I(1) I(6) [OF that] it ne by simp
      then have "comp_inv ?c" using assms by (simp add: comp_inv_def)
      moreover have "win_stack ?c = remove1 i (win_stack c) @ [i]"
        using remove1_last [OF I(4) ne] it by simp
      ultimately show ?thesis using True by (simp add: eq i_def)
    next
      case False
      have p: "pos < ?n" "pos < ?n - 1" using z_find_Some [OF pos] False by auto
      let ?z = "(z_shift pos ?n (z_order c))[?n - 1 := i]"
      let ?c2 = "(upd_win (last (win_stack c)) (\<lambda>w. w\<lparr>win_focused := False\<rparr>) c)\<lparr>z_order := ?z\<rparr>"
      let ?c = "upd_win i (\<lambda>w. w\<lparr>win_focused := True\<rparr>) ?c2"
      have eq: "comp_bring_to_front idx c = ?c"
        using act pos False top by (simp add: comp_bring_to_front_def i_def Let_def)
      have lz: "length (z_shift pos ?n (z_order c)) = 8" using I(2,3) by simp
      have "take ?n ?z = take (?n - 1) (z_shift pos ?n (z_order c)) @ [i]"
        using n0 lz I(3) by (cases ?n) (simp_all add: take_Suc_conv_app_nth)
      also have "take (?n - 1) (z_shift pos ?n (z_order c)) = remove1 i (win_stack c)"
        using z_shift_stack [OF pos] I(2,3,4) by (simp add: win_stack_def)
      finally have st: "win_stack ?c = remove1 i (win_stack c) @ [i]" by (simp add: win_stack_def)
      have wn: "windows ?c ! k = (if k = i then (windows ?c2 ! k)\<lparr>win_focused := True\<rparr> else windows ?c2 ! k)"
        "windows ?c2 ! k = (if k = last (win_stack c) then (windows c ! k)\<lparr>win_focused := False\<rparr> else windows c ! k)"
        if "k < 8" for k
        using upd_win_nth [of k ?c2] upd_win_nth [of k c] that I(1) by simp_all
      have "comp_inv ?c"
      proof (rule comp_invI)
        show "length (windows ?c) = 8" "length (z_order ?c) = 8" "nwindows ?c \<le> 8" using I(1,3) lz by simp_all
        show "distinct (win_stack ?c)" "set (win_stack ?c) \<subseteq> {..<8}"
          unfolding st using I(4,7) i set_remove1_subset [of i "win_stack c"] by auto
        fix k :: nat assume k: "k < 8"
        show "win_active (windows ?c ! k) \<longleftrightarrow> k \<in> set (win_stack ?c)"
          unfolding wn(1) [OF k] wn(2) [OF k] st using I(4) I(5) [OF k] i by auto
        show "win_focused (windows ?c ! k) \<longleftrightarrow> win_stack ?c \<noteq> [] \<and> k = last (win_stack ?c)"
          unfolding wn(1) [OF k] wn(2) [OF k] st using I(6) [OF k] by auto
      qed
      then show ?thesis using st True by (simp add: eq i_def)
    qed
  qed
qed

text \<open>Drawing and text output leave the stack and the flags alone.\<close>

lemma comp_inv_cong:
  assumes "z_order d = z_order c" "nwindows d = nwindows c" "length (windows d) = length (windows c)"
    and "\<And>k. k < 8 \<Longrightarrow> win_active (windows d ! k) = win_active (windows c ! k) \<and>
      win_focused (windows d ! k) = win_focused (windows c ! k)"
  shows "comp_inv d = comp_inv c" "win_stack d = win_stack c"
proof -
  show st: "win_stack d = win_stack c" using assms(1,2) by (simp add: win_stack_def)
  show "comp_inv d = comp_inv c" unfolding comp_inv_def st using assms by auto
qed

lemma render_fields [simp]:
  "windows (comp_render c) = windows c" "z_order (comp_render c) = z_order c"
  "nwindows (comp_render c) = nwindows c" "mouse_x (comp_render c) = mouse_x c" "mouse_y (comp_render c) = mouse_y c"
  by (simp_all add: comp_render_def Let_def)

lemma render_inv [simp]: "comp_inv (comp_render c) = comp_inv c" "win_stack (comp_render c) = win_stack c"
  by (rule comp_inv_cong; simp)+

lemma putchar_win_frame:
  "putchar_win ch attr w = Some w' \<Longrightarrow> win_active w' = win_active w \<and> win_focused w' = win_focused w \<and>
     win_x w' = win_x w \<and> win_y w' = win_y w \<and> win_w w' = win_w w \<and> win_h w' = win_h w \<and> win_title w' = win_title w"
  by (auto simp: putchar_win_def Let_def bind_eq_Some_conv split: if_splits)

lemma putchar_inv:
  assumes "comp_win_putchar idx ch attr c = Some c'" "comp_inv c"
  shows "comp_inv c'" "win_stack c' = win_stack c"
proof -
  have "comp_inv c' = comp_inv c \<and> win_stack c' = win_stack c"
  proof (cases "c' = c")
    case False
    then obtain w where w: "\<not> (idx < 0 \<or> idx \<ge> 8)" "putchar_win ch attr (windows c ! nat idx) = Some w"
      "c' = upd_win (nat idx) (\<lambda>_. w) c"
      using assms(1) by (auto simp: comp_win_putchar_def bind_eq_Some_conv split: if_splits)
    have "win_active (windows c' ! k) = win_active (windows c ! k) \<and>
        win_focused (windows c' ! k) = win_focused (windows c ! k)" if "k < 8" for k
      using putchar_win_frame [OF w(2)] comp_invD(1) [OF assms(2)] that by (simp add: w(3) upd_win_nth)
    then show ?thesis using comp_inv_cong [of c' c] by (simp add: w(3))
  qed simp
  then show "comp_inv c'" "win_stack c' = win_stack c" using assms(2) by simp_all
qed

lemma puts_inv:
  "comp_win_puts_attr idx s attr c = Some c' \<Longrightarrow> comp_inv c \<Longrightarrow> comp_inv c' \<and> win_stack c' = win_stack c"
proof (induction idx s attr c rule: comp_win_puts_attr.induct)
  case (2 idx ch s attr c)
  then obtain c1 where "comp_win_putchar idx ch attr c = Some c1" "comp_win_puts_attr idx s attr c1 = Some c'"
    by (auto simp: bind_eq_Some_conv)
  then show ?case using 2 putchar_inv [of idx ch attr c c1] by auto
qed auto

section \<open>The event loop\<close>

text \<open>What the rest of the system can do to the compositor.\<close>

datatype comp_event =
    Ev_Create int int int int bytes
  | Ev_Close int
  | Ev_Front int
  | Ev_Puts int bytes u8
  | Ev_Move int int
  | Ev_Click int int
  | Ev_Key u8
  | Ev_Render

fun comp_handle :: "comp_event \<Rightarrow> compositor_t \<Rightarrow> compositor_t option" where
  "comp_handle (Ev_Create x y w h t) c = Some (snd (comp_create_window x y w h t c))"
| "comp_handle (Ev_Close i) c = Some (comp_close_window i c)"
| "comp_handle (Ev_Front i) c = Some (comp_bring_to_front i c)"
| "comp_handle (Ev_Puts i s a) c = comp_win_puts_attr i s a c"
| "comp_handle (Ev_Move x y) c = Some (comp_on_mouse_move x y c)"
| "comp_handle (Ev_Click x y) c = Some (snd (comp_on_mouse_click x y c))"
| "comp_handle (Ev_Key k) c = comp_on_key k c"
| "comp_handle Ev_Render c = Some (comp_render c)"

inductive comp_reach :: "compositor_t \<Rightarrow> bool" where
  start: "length (windows c) = 8 \<Longrightarrow> length (z_order c) = 8 \<Longrightarrow> comp_reach (comp_init c)"
| step: "comp_reach c \<Longrightarrow> comp_handle e c = Some c' \<Longrightarrow> comp_reach c'"

lemma click_spec:
  assumes "comp_inv c" "comp_on_mouse_click x y c = (r, c')"
  shows "comp_inv c' \<and> r = comp_hit_test c x y \<and> win_stack c' = (case r of
      None \<Rightarrow> win_stack c
    | Some i \<Rightarrow> if on_close_button (windows c ! i) x y then remove1 i (win_stack c)
        else if i \<in> set (win_stack c) then remove1 i (win_stack c) @ [i] else win_stack c)"
  using assms close_spec [OF assms(1), of "int (the (comp_hit_test c x y))"]
    bring_spec [OF assms(1), of "int (the (comp_hit_test c x y))"]
  by (auto simp: comp_on_mouse_click_def split: option.splits if_splits)

lemma move_inv: "comp_inv (comp_on_mouse_move x y c) = comp_inv c" "win_stack (comp_on_mouse_move x y c) = win_stack c"
proof -
  have "comp_inv (c\<lparr>mouse_x := a, mouse_y := b\<rparr>) = comp_inv c" "win_stack (c\<lparr>mouse_x := a, mouse_y := b\<rparr>) = win_stack c" for a b
    by (rule comp_inv_cong; simp)+
  then show "comp_inv (comp_on_mouse_move x y c) = comp_inv c" "win_stack (comp_on_mouse_move x y c) = win_stack c"
    unfolding comp_on_mouse_move_def Let_def by simp_all
qed

lemma handle_inv: "comp_inv c \<Longrightarrow> comp_handle e c = Some c' \<Longrightarrow> comp_inv c'"
proof (cases e)
  case (Ev_Create x y w h t)
  assume "comp_inv c" "comp_handle e c = Some c'"
  then show ?thesis using Ev_Create create_spec [of c x y w h t] by (cases "comp_create_window x y w h t c") auto
next
  case (Ev_Key k)
  assume a: "comp_inv c" "comp_handle e c = Some c'"
  then show ?thesis using Ev_Key putchar_inv [of _ k ATTR_CONTENT c]
    by (auto simp: comp_on_key_def bind_eq_Some_conv split: option.splits)
next
  case (Ev_Click x y)
  assume "comp_inv c" "comp_handle e c = Some c'"
  then show ?thesis using Ev_Click click_spec [of c x y] by (cases "comp_on_mouse_click x y c") auto
qed (auto simp: close_spec bring_spec move_inv dest: puts_inv)

lemma reach_inv: "comp_reach c \<Longrightarrow> comp_inv c"
  by (induction rule: comp_reach.induct) (auto simp: init_inv handle_inv)

section \<open>What is on the screen\<close>
























section \<open>Text output stays in bounds\<close>

text \<open>A window that fits the screen; the cursor is inside the content area.\<close>

definition fits :: "window_t \<Rightarrow> bool" where
  "fits w \<longleftrightarrow> 3 \<le> win_w w \<and> win_w w \<le> 80 \<and> 4 \<le> win_h w \<and> win_h w \<le> 25 \<and>
     0 \<le> cursor_col w \<and> cursor_col w < win_w w - 2 \<and> 0 \<le> cursor_row w \<and> cursor_row w < win_h w - 3"

text \<open>The scroll, as the loops run it on a window that fits.\<close>

definition blank_cell :: "u8 \<Rightarrow> cell_t" where
  "blank_cell attr = \<lparr>cell_ch = CH_BLANK, cell_attr = attr\<rparr>"

lemma copy_row:
  assumes "0 \<le> d" "d + 78 + n \<le> WIN_BUF_SIZE" "0 \<le> n" "n \<le> 78"
  shows "each (\<lambda>col b. do {
             v \<leftarrow> buf_read (c_int (d + 78 + col)) b; buf_write (c_int (d + col)) v b
           }) [0..n - 1] buf
    = Some (\<lambda>i. if d \<le> i \<and> i < d + n then buf (i + 78) else buf i)"
proof -
  have "each (\<lambda>col b. do {
             v \<leftarrow> buf_read (c_int (d + 78 + col)) b; buf_write (c_int (d + col)) v b
           }) [0..n - 1] buf = Some (fold (\<lambda>col b. b(d + col := b (d + 78 + col))) [0..n - 1] buf)"
  proof (rule conjunct1 [OF each_fold [where P = "\<lambda>_. True"]])
    fix col :: int and b assume "col \<in> set [0..n - 1]"
    then show "do { v \<leftarrow> buf_read (c_int (d + 78 + col)) b; buf_write (c_int (d + col)) v b }
        = Some (b(d + col := b (d + 78 + col))) \<and> True"
      using assms by (simp add: buf_read_def buf_write_def c_int_id)
  qed simp
  also have "fold (\<lambda>col b. b(d + col := b (d + 78 + col))) [0..n - 1] buf
      = (\<lambda>i. if d \<le> i \<and> i < d + n then buf (i + 78) else buf i)"
    using assms(3,4)
  proof (induction n rule: int_ge_induct)
    case (step n)
    have "[0..n + 1 - 1] = [0..n - 1] @ [n]" using step.hyps upto_rec2 [of 0 n] by simp
    then show ?case using step by (auto simp: fun_eq_iff ac_simps)
  qed (auto simp: fun_eq_iff)
  finally show ?thesis .
qed

lemma div_mod_78:
  fixes i k :: int
  shows "k * 78 \<le> i \<and> i < k * 78 + n \<and> n \<le> 78 \<Longrightarrow> i div 78 = k"
    "i div 78 = k \<Longrightarrow> k * 78 \<le> i \<and> i mod 78 = i - k * 78" "(i + 78) div 78 = i div 78 + 1" "(i + 78) mod 78 = i mod 78"
proof -
  show "k * 78 \<le> i \<and> i < k * 78 + n \<and> n \<le> 78 \<Longrightarrow> i div 78 = k"
    using div_mult_self3 [of 78 k "i - k * 78"] by (simp add: div_pos_pos_trivial)
  show "i div 78 = k \<Longrightarrow> k * 78 \<le> i \<and> i mod 78 = i - k * 78" using mult_div_mod_eq [of 78 i] pos_mod_sign [of 78 i] by auto
qed simp_all

lemma scroll_rows:
  assumes "0 \<le> n" "n \<le> 78" "0 \<le> k" "k \<le> 21"
  shows "each (\<lambda>r. each (\<lambda>col b. do {
             v \<leftarrow> buf_read (c_int (c_int (r * 78) + col)) b; buf_write (c_int (c_int ((r - 1) * 78) + col)) v b
           }) [0..n - 1]) [1..k] buf
    = Some (\<lambda>i. if 0 \<le> i \<and> i div 78 < k \<and> i mod 78 < n then buf (i + 78) else buf i)"
proof -
  let ?g = "\<lambda>r buf i. if (r - 1) * 78 \<le> i \<and> i < (r - 1) * 78 + n then buf (i + 78) else buf (i :: int) :: cell_t"
  have "each (\<lambda>r. each (\<lambda>col b. do {
             v \<leftarrow> buf_read (c_int (c_int (r * 78) + col)) b; buf_write (c_int (c_int ((r - 1) * 78) + col)) v b
           }) [0..n - 1]) [1..k] buf = Some (fold ?g [1..k] buf)"
  proof (rule conjunct1 [OF each_fold [where P = "\<lambda>_. True"]])
    fix r :: int and b assume r: "r \<in> set [1..k]"
    then have c: "c_int (r * 78) = (r - 1) * 78 + 78" "c_int ((r - 1) * 78) = (r - 1) * 78"
      using assms(4) by (simp_all add: c_int_id)
    show "each (\<lambda>col b. do { v \<leftarrow> buf_read (c_int (c_int (r * 78) + col)) b; buf_write (c_int (c_int ((r - 1) * 78) + col)) v b })
        [0..n - 1] b = Some (?g r b) \<and> True"
      unfolding c using copy_row [of "(r - 1) * 78" n b] r assms by simp
  qed simp
  also have "fold ?g [1..k] buf = (\<lambda>i. if 0 \<le> i \<and> i div 78 < k \<and> i mod 78 < n then buf (i + 78) else buf i)"
    using assms(3,4)
  proof (induction k rule: int_ge_induct)
    case base
    show ?case by (auto simp: fun_eq_iff pos_imp_zdiv_neg_iff)
  next
    case (step k)
    have s: "[1..k + 1] = [1..k] @ [k + 1]" using step.hyps upto_rec2 [of 1 "k + 1"] by simp
    have b: "k * 78 \<le> i \<and> i < k * 78 + n \<longleftrightarrow> i div 78 = k \<and> i mod 78 < n" for i
      using div_mod_78(1) [of k i n] div_mod_78(2) [of i k] assms(2) by auto
    show ?case
    proof
      fix i
      have "fold ?g [1..k + 1] buf i = (if i div 78 = k \<and> i mod 78 < n then fold ?g [1..k] buf (i + 78) else fold ?g [1..k] buf i)"
        unfolding s by (simp add: b)
      also have "\<dots> = (if 0 \<le> i \<and> i div 78 < k + 1 \<and> i mod 78 < n then buf (i + 78) else buf i)"
      proof -
        have "fold ?g [1..k] buf = (\<lambda>i. if 0 \<le> i \<and> i div 78 < k \<and> i mod 78 < n then buf (i + 78) else buf i)"
          using step by simp
        moreover have "i div 78 = k \<Longrightarrow> 0 \<le> i" using div_mod_78(2) [of i k] step.hyps by linarith
        ultimately show ?thesis by (cases "i div 78 = k"; cases "i mod 78 < n") (simp_all add: div_mod_78(3,4))
      qed
      finally show "fold ?g [1..k + 1] buf i = (if 0 \<le> i \<and> i div 78 < k + 1 \<and> i mod 78 < n then buf (i + 78) else buf i)" .
    qed
  qed
  finally show ?thesis .
qed

lemma blank_row_write:
  assumes "0 \<le> d" "d + n \<le> WIN_BUF_SIZE" "0 \<le> n"
  shows "each (\<lambda>col. buf_write (c_int (d + col)) v) [0..n - 1] buf
    = Some (\<lambda>i. if d \<le> i \<and> i < d + n then v else buf i)"
proof -
  have "each (\<lambda>col. buf_write (c_int (d + col)) v) [0..n - 1] buf = Some (fold (\<lambda>col b. b(d + col := v)) [0..n - 1] buf)"
  proof (rule conjunct1 [OF each_fold [where P = "\<lambda>_. True"]])
    fix col :: int and b assume "col \<in> set [0..n - 1]"
    then show "buf_write (c_int (d + col)) v b = Some (b(d + col := v)) \<and> True"
      using assms by (simp add: buf_write_def c_int_id)
  qed simp
  also have "fold (\<lambda>col b. b(d + col := v)) [0..n - 1] buf = (\<lambda>i. if d \<le> i \<and> i < d + n then v else buf i)"
    using assms(3)
  proof (induction n rule: int_ge_induct)
    case (step n)
    have "[0..n + 1 - 1] = [0..n - 1] @ [n]" using step.hyps upto_rec2 [of 0 n] by simp
    then show ?case using step by (auto simp: fun_eq_iff)
  qed (auto simp: fun_eq_iff)
  finally show ?thesis .
qed

lemma scroll_fits:
  assumes "1 \<le> cw" "cw \<le> 78" "1 \<le> rows" "rows \<le> 22"
  shows "\<exists>b. scroll_buf cw rows attr buf = Some b \<and>
    (\<forall>r col. 0 \<le> r \<longrightarrow> r < rows \<longrightarrow> 0 \<le> col \<longrightarrow> col < cw \<longrightarrow>
      b (r * 78 + col) = (if r = rows - 1 then blank_cell attr else buf ((r + 1) * 78 + col)))"
proof -
  let ?m = "\<lambda>i. if 0 \<le> i \<and> i div 78 < rows - 1 \<and> i mod 78 < cw then buf (i + 78) else buf i"
  let ?b = "\<lambda>i. if (rows - 1) * 78 \<le> i \<and> i < (rows - 1) * 78 + cw then blank_cell attr else ?m i"
  have c: "c_int ((rows - 1) * 78) = (rows - 1) * 78" using assms by (simp add: c_int_id)
  have m: "each (\<lambda>r. each (\<lambda>col b. do {
             v \<leftarrow> buf_read (c_int (c_int (r * 78) + col)) b; buf_write (c_int (c_int ((r - 1) * 78) + col)) v b
           }) [0..cw - 1]) [1..rows - 1] buf = Some ?m"
    by (rule scroll_rows) (use assms in simp_all)
  have w: "each (\<lambda>col. buf_write (c_int ((rows - 1) * 78 + col)) (blank_cell attr)) [0..cw - 1] ?m = Some ?b"
    by (rule blank_row_write) (use assms in simp_all)
  have "scroll_buf cw rows attr buf = Some ?b"
    unfolding scroll_buf_def m c blank_cell_def [symmetric] bind.bind_lunit w ..
  moreover have "?b (r * 78 + col) = (if r = rows - 1 then blank_cell attr else buf ((r + 1) * 78 + col))"
    if "0 \<le> r" "r < rows" "0 \<le> col" "col < cw" for r col
  proof -
    have d: "(r * 78 + col) div 78 = r" using div_mod_78(1) [of r "r * 78 + col" cw] that assms by simp
    have m: "(r * 78 + col) mod 78 = col" using div_mod_78(2) [OF d] by simp
    have "(rows - 1) * 78 \<le> r * 78 + col \<longleftrightarrow> r = rows - 1"
    proof
      assume a: "(rows - 1) * 78 \<le> r * 78 + col"
      show "r = rows - 1"
      proof (rule ccontr)
        assume "r \<noteq> rows - 1"
        then have "r + 1 \<le> rows - 1" using that by simp
        then have "(r + 1) * 78 \<le> (rows - 1) * 78" by (rule mult_right_mono) simp
        with a that assms show False by simp
      qed
    qed (use that in simp)
    then show ?thesis using that d m by (auto simp: algebra_simps)
  qed
  ultimately show ?thesis by blast
qed

text \<open>
  The content area of a window as its rows of cells, and what a console does with a character: it
  stores it at the cursor, breaks the line at a newline or behind the last column, and in the last
  row drops the first row and opens a blank one.
\<close>

definition content_rows :: "window_t \<Rightarrow> cell_t list list" where
  "content_rows w = map (\<lambda>r. map (\<lambda>col. win_buf w (int r * WIN_MAX_COLS + int col)) [0..<nat (win_w w - 2)])
     [0..<nat (win_h w - 3)]"

definition console_put :: "u8 \<Rightarrow> u8 \<Rightarrow> cell_t list list \<times> nat \<times> nat \<Rightarrow> cell_t list list \<times> nat \<times> nat" where
  "console_put ch attr = (\<lambda>(g, r, c).
     let width = length (g ! r);
         g1 = (if ch = 10 \<or> ch = 13 then g else g[r := (g ! r)[c := \<lparr>cell_ch = ch, cell_attr = attr\<rparr>]]);
         newline = (ch = 10 \<or> ch \<noteq> 13 \<and> c + 1 = width)
     in if \<not> newline then (g1, r, if ch = 13 then 0 else c + 1)
        else if r + 1 < length g then (g1, r + 1, 0)
        else (tl g1 @ [replicate width (blank_cell attr)], r, 0))"

lemma content_rows_nth:
  assumes "r < nat (win_h w - 3)"
  shows "length (content_rows w) = nat (win_h w - 3)" "length (content_rows w ! r) = nat (win_w w - 2)"
    "col < nat (win_w w - 2) \<Longrightarrow> content_rows w ! r ! col = win_buf w (int r * 78 + int col)"
  using assms by (simp_all add: content_rows_def)

lemma content_rows_eqI:
  assumes "length g = nat (win_h w - 3)"
    and "\<And>r. r < nat (win_h w - 3) \<Longrightarrow> length (g ! r) = nat (win_w w - 2)"
    and "\<And>r col. r < nat (win_h w - 3) \<Longrightarrow> col < nat (win_w w - 2) \<Longrightarrow> g ! r ! col = win_buf w (int r * 78 + int col)"
  shows "content_rows w = g"
proof (rule nth_equalityI)
  show "length (content_rows w) = length g" using assms(1) by (simp add: content_rows_def)
  fix r assume "r < length (content_rows w)"
  then have r: "r < nat (win_h w - 3)" by (simp add: content_rows_def)
  show "content_rows w ! r = g ! r"
    by (rule nth_equalityI) (use r assms(2,3) in \<open>simp_all add: content_rows_nth\<close>)
qed

lemma put_content:
  assumes "win_w w \<le> 80" "0 \<le> r" "r < win_h w - 3" "0 \<le> c" "c < win_w w - 2"
  shows "content_rows (w\<lparr>win_buf := (win_buf w)(r * 78 + c := v)\<rparr>) =
    (content_rows w)[nat r := (content_rows w ! nat r)[nat c := v]]"
proof (rule content_rows_eqI, goal_cases)
  case (3 i j)
  have "int i * 78 + int j = r * 78 + c \<longleftrightarrow> i = nat r \<and> j = nat c"
  proof
    assume e: "int i * 78 + int j = r * 78 + c"
    have "(int i * 78 + int j) div 78 = int i" "(r * 78 + c) div 78 = r"
      using 3 assms div_mod_78(1) [of "int i" "int i * 78 + int j" 78] div_mod_78(1) [of r "r * 78 + c" 78] by simp_all
    with e have "int i = r" by simp
    with e show "i = nat r \<and> j = nat c" by auto
  qed (use assms in simp)
  moreover have "nat r < length (content_rows w)" "nat c < length (content_rows w ! nat r)"
    using assms by (simp_all add: content_rows_def)
  ultimately show ?case
    using 3 assms by (cases "i = nat r"; cases "j = nat c") (simp_all add: content_rows_nth nth_list_update)
qed (use assms in \<open>auto simp: content_rows_nth content_rows_def nth_list_update\<close>)

lemma scroll_content:
  assumes "3 \<le> win_w w" "win_w w \<le> 80" "4 \<le> win_h w" "win_h w \<le> 25"
  shows "\<exists>b. scroll_buf (win_w w - 2) (win_h w - 3) attr (win_buf w) = Some b \<and>
    content_rows (w\<lparr>win_buf := b, cursor_row := y\<rparr>) =
      tl (content_rows w) @ [replicate (nat (win_w w - 2)) (blank_cell attr)]"
proof -
  obtain b where b: "scroll_buf (win_w w - 2) (win_h w - 3) attr (win_buf w) = Some b"
      "\<And>r col. 0 \<le> r \<Longrightarrow> r < win_h w - 3 \<Longrightarrow> 0 \<le> col \<Longrightarrow> col < win_w w - 2 \<Longrightarrow>
        b (r * 78 + col) = (if r = win_h w - 3 - 1 then blank_cell attr else win_buf w ((r + 1) * 78 + col))"
    using scroll_fits [of "win_w w - 2" "win_h w - 3" attr "win_buf w"] assms by auto
  have l: "length (content_rows w) = nat (win_h w - 3)" by (simp add: content_rows_def)
  have "content_rows (w\<lparr>win_buf := b, cursor_row := y\<rparr>) = tl (content_rows w) @ [replicate (nat (win_w w - 2)) (blank_cell attr)]"
  proof (rule content_rows_eqI, goal_cases)
    case (2 r)
    then show ?case using assms by (cases "r < nat (win_h w - 3) - 1") (simp_all add: nth_append l nth_tl content_rows_nth)
  next
    case (3 r col)
    then have r: "int r < win_h w - 3" "int col < win_w w - 2" by auto
    show ?case
    proof (cases "r < nat (win_h w - 3) - 1")
      case True
      then have "Suc r < nat (win_h w - 3)" "int r \<noteq> win_h w - 3 - 1" by auto
      then show ?thesis using True 3 b(2) [of "int r" "int col"] r
        by (simp add: nth_append l nth_tl content_rows_nth algebra_simps)
    next
      case False
      then have "int r = win_h w - 3 - 1" using r by auto
      then show ?thesis using False 3 b(2) [of "int r" "int col"] r by (simp add: nth_append l)
    qed
  qed (use assms l in auto)
  then show ?thesis using b(1) by blast
qed

lemma putchar_console:
  assumes "fits w"
  shows "\<exists>w'. putchar_win ch attr w = Some w' \<and> fits w' \<and>
    (content_rows w', nat (cursor_row w'), nat (cursor_col w')) =
      console_put ch attr (content_rows w, nat (cursor_row w), nat (cursor_col w))"
proof -
  note F = assms [unfolded fits_def]
  let ?r = "nat (cursor_row w)" and ?c = "nat (cursor_col w)"
  have s: "c_int (win_w w - 2) = win_w w - 2" "c_int (win_h w - 3) = win_h w - 3"
    "c_int (cursor_row w + 1) = cursor_row w + 1" "c_int (cursor_col w + 1) = cursor_col w + 1"
    "c_int (cursor_row w * 78) = cursor_row w * 78"
    "c_int (cursor_row w * 78 + cursor_col w) = cursor_row w * 78 + cursor_col w"
    using F by (simp_all add: c_int_id)
  have pos: "0 \<le> cursor_row w * 78 + cursor_col w" "cursor_row w * 78 + cursor_col w < 1716" using F by simp_all
  have len: "length (content_rows w) = nat (win_h w - 3)" "length (content_rows w ! ?r) = nat (win_w w - 2)"
    using F by (simp_all add: content_rows_def)
  have same: "content_rows (w\<lparr>cursor_col := a\<rparr>) = content_rows w" "content_rows (w\<lparr>cursor_row := a\<rparr>) = content_rows w"
    for w a by (simp_all add: content_rows_def)
  have main: "\<exists>w'. (if cursor_row w1 \<ge> win_h w - 3
      then do { b \<leftarrow> scroll_buf (win_w w - 2) (win_h w - 3) attr (win_buf w1);
                Some (w1\<lparr>win_buf := b, cursor_row := win_h w - 3 - 1\<rparr>) }
      else Some w1) = Some w' \<and> fits w' \<and>
    (content_rows w', nat (cursor_row w'), nat (cursor_col w')) =
      (if ?r + 1 < nat (win_h w - 3) then (content_rows w1, ?r + 1, 0)
       else (tl (content_rows w1) @ [replicate (nat (win_w w - 2)) (blank_cell attr)], ?r, 0))"
    if w1: "win_w w1 = win_w w" "win_h w1 = win_h w" "cursor_col w1 = 0" "cursor_row w1 = cursor_row w + 1" for w1
  proof (cases "cursor_row w + 1 < win_h w - 3")
    case True
    then have "?r + 1 < nat (win_h w - 3)" using F by linarith
    then show ?thesis using True w1 F by (simp add: fits_def nat_add_distrib)
  next
    case False
    obtain b where "scroll_buf (win_w w - 2) (win_h w - 3) attr (win_buf w1) = Some b"
        "content_rows (w1\<lparr>win_buf := b, cursor_row := win_h w - 3 - 1\<rparr>) =
          tl (content_rows w1) @ [replicate (nat (win_w w - 2)) (blank_cell attr)]"
      using scroll_content [of w1 attr "win_h w - 3 - 1"] w1 F by auto
    moreover have "\<not> ?r + 1 < nat (win_h w - 3)" "nat (win_h w - 4) = ?r" using False F by linarith+
    ultimately show ?thesis using False w1 F by (simp add: fits_def)
  qed
  consider "ch = 10" | "ch = 13" | "ch \<noteq> 10" "ch \<noteq> 13" "cursor_col w + 1 \<ge> win_w w - 2"
    | "ch \<noteq> 10" "ch \<noteq> 13" "cursor_col w + 1 < win_w w - 2" by linarith
  then show ?thesis
  proof cases
    case 1
    then show ?thesis
      using main [of "w\<lparr>cursor_col := 0, cursor_row := cursor_row w + 1\<rparr>"] F
      by (simp add: putchar_win_def s console_put_def len same Let_def cong: if_cong)
  next
    case 2
    then show ?thesis using F by (simp add: putchar_win_def s console_put_def len same Let_def fits_def)
  next
    case 3
    let ?b = "(win_buf w)(cursor_row w * 78 + cursor_col w := \<lparr>cell_ch = ch, cell_attr = attr\<rparr>)"
    have "?c + 1 = nat (win_w w - 2)" using 3 F by linarith
    with 3 show ?thesis
      using main [of "w\<lparr>win_buf := ?b, cursor_col := 0, cursor_row := cursor_row w + 1\<rparr>"] F pos
        put_content [of w "cursor_row w" "cursor_col w" "\<lparr>cell_ch = ch, cell_attr = attr\<rparr>"]
      by (simp add: putchar_win_def s console_put_def len same Let_def cong: if_cong)
  next
    case 4
    have "?c + 1 \<noteq> nat (win_w w - 2)" using 4 F by linarith
    with 4 show ?thesis
      using F pos put_content [of w "cursor_row w" "cursor_col w" "\<lparr>cell_ch = ch, cell_attr = attr\<rparr>"]
      by (simp add: putchar_win_def s console_put_def len same Let_def fits_def nat_add_distrib)
  qed
qed

section \<open>Properties\<close>

text \<open>C21: In every state the compositor can reach from \<open>comp_init\<close> through its entry points, the
  z-order lists each open window exactly once and nothing else, and exactly one window has the
  keyboard focus if any is open: the topmost one, which is what \<open>comp_focused\<close> answers.\<close>

theorem compositor_invariant:
  assumes "comp_reach c"
  shows "distinct (win_stack c) \<and> set (win_stack c) = {i. i < COMP_MAX_WINDOWS \<and> win_active (windows c ! i)} \<and>
    comp_focused c = (if win_stack c = [] then None else Some (last (win_stack c))) \<and>
    {i. i < COMP_MAX_WINDOWS \<and> win_focused (windows c ! i)} = (if win_stack c = [] then {} else {last (win_stack c)})"
proof -
  note I = comp_invD [OF reach_inv [OF assms]]
  have "set (win_stack c) = {i. i < 8 \<and> win_active (windows c ! i)}" using I(5,7) by auto
  moreover have "comp_focused c = (if win_stack c = [] then None else Some (last (win_stack c)))"
    using I(8,9) by (auto simp: comp_focused_def)
  moreover have "win_stack c \<noteq> [] \<Longrightarrow> last (win_stack c) < 8" using I(7) by simp
  then have "{i. i < 8 \<and> win_focused (windows c ! i)} = (if win_stack c = [] then {} else {last (win_stack c)})"
    using I(6) by auto
  ultimately show ?thesis using I(4) by simp
qed

definition blank_window :: window_t where
  "blank_window = \<lparr>win_x = 0, win_y = 0, win_w = 0, win_h = 0, win_title = [], win_active = False,
     win_focused = False, win_buf = (\<lambda>_. \<lparr>cell_ch = 0, cell_attr = 0\<rparr>), cursor_col = 0, cursor_row = 0\<rparr>"

definition blank_comp :: compositor_t where
  "blank_comp = \<lparr>windows = replicate 8 blank_window, z_order = replicate 8 0, nwindows = 0,
     mouse_x = 0, mouse_y = 0, backbuf = (\<lambda>_. 0), vga_mem = (\<lambda>_. 0)\<rparr>"

text \<open>Two windows on a fresh screen.\<close>

definition sample_comp :: compositor_t where
  "sample_comp = snd (comp_create_window 10 4 20 8 [76, 111, 103]
     (snd (comp_create_window 2 1 30 10 [83, 104] (comp_init blank_comp))))"

lemma sample_reach: "comp_reach sample_comp"
  unfolding sample_comp_def
  by (rule comp_reach.step [where e = "Ev_Create 10 4 20 8 [76, 111, 103]"],
      rule comp_reach.step [where e = "Ev_Create 2 1 30 10 [83, 104]"], rule comp_reach.start)
    (simp_all add: blank_comp_def)

theorem compositor_invariant_witness:
  "distinct (win_stack sample_comp) \<and>
    set (win_stack sample_comp) = {i. i < COMP_MAX_WINDOWS \<and> win_active (windows sample_comp ! i)} \<and>
    comp_focused sample_comp = (if win_stack sample_comp = [] then None else Some (last (win_stack sample_comp))) \<and>
    {i. i < COMP_MAX_WINDOWS \<and> win_focused (windows sample_comp ! i)}
      = (if win_stack sample_comp = [] then {} else {last (win_stack sample_comp)})"
  by (rule compositor_invariant [OF sample_reach])

text \<open>C20: Window management refines a stack. On a reachable state creating pushes a closed slot's
  index (and fails only with eight windows open), closing removes the window wherever it is,
  bringing to front moves it to the top, and a click does one of the two to the window hit.\<close>

theorem compositor_refines_stack:
  assumes "comp_reach c"
  shows "(case comp_create_window x y w h title c of
      (None, c') \<Rightarrow> length (win_stack c) = COMP_MAX_WINDOWS \<and> c' = c
    | (Some i, c') \<Rightarrow> i \<notin> set (win_stack c) \<and> win_stack c' = win_stack c @ [i]) \<and>
    win_stack (comp_close_window (int i) c) = remove1 i (win_stack c) \<and>
    win_stack (comp_bring_to_front (int i) c) =
      (if i \<in> set (win_stack c) then remove1 i (win_stack c) @ [i] else win_stack c) \<and>
    win_stack (snd (comp_on_mouse_click px py c)) = (case comp_hit_test c px py of
        None \<Rightarrow> win_stack c
      | Some j \<Rightarrow> if on_close_button (windows c ! j) px py then remove1 j (win_stack c)
          else if j \<in> set (win_stack c) then remove1 j (win_stack c) @ [j] else win_stack c)"
proof (intro conjI)
  note inv = reach_inv [OF assms]
  have "length (win_stack c) = nwindows c" using comp_invD(2,3) [OF inv] by (rule length_stack)
  then show "(case comp_create_window x y w h title c of
      (None, c') \<Rightarrow> length (win_stack c) = COMP_MAX_WINDOWS \<and> c' = c
    | (Some i, c') \<Rightarrow> i \<notin> set (win_stack c) \<and> win_stack c' = win_stack c @ [i])"
    using create_spec [OF inv, of x y w h title]
    by (cases "comp_create_window x y w h title c") (auto split: option.splits)
  show "win_stack (comp_close_window (int i) c) = remove1 i (win_stack c)"
    using close_spec [OF inv, of "int i"] by simp
  show "win_stack (comp_bring_to_front (int i) c) =
      (if i \<in> set (win_stack c) then remove1 i (win_stack c) @ [i] else win_stack c)"
    using bring_spec [OF inv, of "int i"] by simp
  show "win_stack (snd (comp_on_mouse_click px py c)) = (case comp_hit_test c px py of
        None \<Rightarrow> win_stack c
      | Some j \<Rightarrow> if on_close_button (windows c ! j) px py then remove1 j (win_stack c)
          else if j \<in> set (win_stack c) then remove1 j (win_stack c) @ [j] else win_stack c)"
    using click_spec [OF inv, of px py] by (cases "comp_on_mouse_click px py c") auto
qed

theorem compositor_refines_stack_witness:
  "win_stack (comp_close_window (int 0) sample_comp) = remove1 0 (win_stack sample_comp) \<and>
    win_stack (comp_bring_to_front (int 0) sample_comp) =
      (if 0 \<in> set (win_stack sample_comp) then remove1 0 (win_stack sample_comp) @ [0] else win_stack sample_comp)"
  using compositor_refines_stack [OF sample_reach, of 0 0 1 1 "[]" 0 0 0]
  by (simp only: simp_thms) 

lemma each_append: "each f (xs @ ys) s = do { t \<leftarrow> each f xs s; each f ys t }"
proof (induction xs arbitrary: s)
  case (Cons x xs)
  then show ?case by (cases "f x s") simp_all
qed simp





text \<open>C29: Text output is a console that never leaves the window's buffer. While the window fits the
  80 by 25 screen and its cursor is inside the content area, \<open>comp_win_putchar\<close> of any character
  makes no access outside the buffer, keeps the cursor inside, and changes the rows of the content
  area as a console does: the character at the cursor, a line break at a newline or behind the last
  column, and in the last row a scroll that moves every row up by one and blanks the last.\<close>

theorem putchar_in_bounds:
  assumes "fits w"
  shows "\<exists>w'. putchar_win ch attr w = Some w' \<and> fits w' \<and>
    (content_rows w', nat (cursor_row w'), nat (cursor_col w')) =
      console_put ch attr (content_rows w, nat (cursor_row w), nat (cursor_col w))"
  by (rule putchar_console [OF assms])

definition sample_window :: window_t where
  "sample_window = blank_window\<lparr>win_w := 4, win_h := 5, cursor_row := 1, cursor_col := 1,
     win_buf := (\<lambda>i. \<lparr>cell_ch = (if i < 78 then 65 else 66), cell_attr = 7\<rparr>)\<rparr>"

text \<open>Two rows AA, BB with the cursor on the last cell: a C stores it there and scrolls.\<close>

theorem putchar_in_bounds_witness:
  "\<exists>w'. putchar_win 67 7 sample_window = Some w' \<and> fits w' \<and> cursor_row w' = 1 \<and> cursor_col w' = 0 \<and>
    map (map cell_ch) (content_rows w') = [[66, 67], [32, 32]]"
proof -
  have f: "fits sample_window" by (simp add: fits_def sample_window_def blank_window_def)
  have e: "(\<lambda>(g, r, c). (map (map cell_ch) g, r, c))
      (console_put 67 7 (content_rows sample_window, nat (cursor_row sample_window), nat (cursor_col sample_window)))
    = ([[66, 67], [32, 32]], 1, 0)"
    by (simp add: sample_window_def blank_window_def content_rows_def console_put_def blank_cell_def upt_rec Let_def)
  obtain w' where w: "putchar_win 67 7 sample_window = Some w'" "fits w'"
    "(content_rows w', nat (cursor_row w'), nat (cursor_col w')) =
      console_put 67 7 (content_rows sample_window, nat (cursor_row sample_window), nat (cursor_col sample_window))"
    using putchar_in_bounds [OF f, of 67 7] by blast
  have "map (map cell_ch) (content_rows w') = [[66, 67], [32, 32]] \<and> nat (cursor_row w') = 1 \<and> nat (cursor_col w') = 0"
    using e unfolding w(3) [symmetric] by simp
  then show ?thesis using w(1,2) by (auto simp: fits_def)
qed

text \<open>\<open>comp_create_window\<close> does not limit the size: in a window of 26 rows a newline in the last
  row makes the scroll loop read a cell behind the end of the content buffer.\<close>

theorem tall_window_overruns:
  "putchar_win 10 attr (blank_window\<lparr>win_w := 80, win_h := 26, cursor_row := 22\<rparr>) = None"
proof -
  have s: "[1..23 - 1] = [1..22 - 1] @ [22 :: int]" using upto_rec2 [of 1 22] by simp
  have z: "[0..77] = 0 # [1..77 :: int]" using upto_rec1 [of 0 77] by simp
  have p: "0 \<le> (78 :: int)" "78 \<le> (78 :: int)" "0 \<le> (22 :: int) - 1" "(22 :: int) - 1 \<le> 21" by simp_all
  have "scroll_buf 78 23 attr buf = None" for buf
    unfolding scroll_buf_def s each_append scroll_rows [OF p] by (simp add: z buf_read_def c_int_def)
  then show ?thesis by (simp add: putchar_win_def blank_window_def c_int_def Let_def)
qed

end
