(* ===== verification/Sched.thy ===== *)
theory Sched
  imports Mm
begin

text \<open>
  The round-robin scheduler: \<open>src/proc/sched.c\<close> with the two interrupt handlers of
  \<open>src/kernel/idt.asm\<close> that do the switching for it (\<open>irq0_handler\<close> on the timer,
  \<open>yield_int_handler\<close> on \<open>int 0x30\<close>). Memory is a function from (4-byte aligned) addresses to
  words; the text printed to the serial port is left out.
\<close>

section \<open>Machine state\<close>

record cpu =
  r_eax :: u32
  r_ecx :: u32
  r_edx :: u32
  r_ebx :: u32
  r_esp :: u32
  r_ebp :: u32
  r_esi :: u32
  r_edi :: u32
  r_eip :: u32
  r_cs :: u32
  r_eflags :: u32
  r_ds :: u32
  r_es :: u32

datatype task_state_t = TASK_UNUSED | TASK_READY | TASK_RUNNING | TASK_ZOMBIE

record task_t =
  t_esp :: u32
  t_state :: task_state_t
  t_stack_base :: u32
  t_id :: u32
  t_name :: "string option"
  t_ticks :: u32

text \<open>\<open>heap_base\<close> is the address the linker gives the arena of \<open>mm.c\<close>.\<close>

record machine =
  cpu :: cpu
  mem :: "u32 \<Rightarrow> u32"
  g_tasks :: "task_t list"
  g_current :: nat
  g_tick_count :: u32
  g_ntasks :: u32
  g_ms_ticks :: u32
  heap_base :: u32
  heap_ptr :: u32

abbreviation SCHED_MAX_TASKS :: nat where "SCHED_MAX_TASKS \<equiv> 4"
abbreviation TASK_STACK_SIZE :: u32 where "TASK_STACK_SIZE \<equiv> 16 * 1024"

abbreviation task_state :: "machine \<Rightarrow> nat \<Rightarrow> task_state_t" where
  "task_state m i \<equiv> t_state (g_tasks m ! i)"

definition upd_task :: "nat \<Rightarrow> (task_t \<Rightarrow> task_t) \<Rightarrow> machine \<Rightarrow> machine" where
  "upd_task i f m = m\<lparr>g_tasks := (g_tasks m)[i := f (g_tasks m ! i)]\<rparr>"

section \<open>The stack\<close>

text \<open>\<open>*(--sp) = v\<close> for each value in turn, and the matching reads.\<close>

fun pushes :: "u32 list \<Rightarrow> u32 \<times> (u32 \<Rightarrow> u32) \<Rightarrow> u32 \<times> (u32 \<Rightarrow> u32)" where
  "pushes [] st = st"
| "pushes (v # vs) (sp, m) = pushes vs (sp - 4, m(sp - 4 := v))"

fun pops :: "nat \<Rightarrow> u32 \<Rightarrow> (u32 \<Rightarrow> u32) \<Rightarrow> u32 list" where
  "pops 0 sp m = []"
| "pops (Suc n) sp m = m sp # pops n (sp + 4) m"

section \<open>Interrupt entry and return\<close>

text \<open>
  The CPU pushes EFLAGS, CS and EIP; the handler does \<open>pusha\<close>, \<open>push ds\<close>, \<open>push es\<close>. \<open>eip\<close> is the
  address of the instruction to return to.
\<close>

definition frame_of :: "cpu \<Rightarrow> u32 list" where
  "frame_of c = [r_eflags c, r_cs c, r_eip c,
     r_eax c, r_ecx c, r_edx c, r_ebx c, r_esp c - 12, r_ebp c, r_esi c, r_edi c, r_ds c, r_es c]"

definition save_context :: "machine \<Rightarrow> machine" where
  "save_context m =
     (let (sp, mm) = pushes (frame_of (cpu m)) (r_esp (cpu m), mem m)
      in m\<lparr>cpu := (cpu m)\<lparr>r_esp := sp, r_ds := 0x18, r_es := 0x18\<rparr>, mem := mm\<rparr>)"

text \<open>\<open>pop es; pop ds; popa; iret\<close> from the stack pointer \<open>sp\<close>.\<close>

definition restore_context :: "u32 \<Rightarrow> machine \<Rightarrow> machine" where
  "restore_context sp m =
     (let w = pops 13 sp (mem m)
      in m\<lparr>cpu := \<lparr>r_eax = w ! 9, r_ecx = w ! 8, r_edx = w ! 7, r_ebx = w ! 6, r_esp = sp + 52,
             r_ebp = w ! 4, r_esi = w ! 3, r_edi = w ! 2, r_eip = w ! 10, r_cs = w ! 11,
             r_eflags = w ! 12, r_ds = w ! 1, r_es = w ! 0\<rparr>\<rparr>)"

section \<open>Switching\<close>

text \<open>The scan loop: the first ready task after the current one, in cyclic order.\<close>

definition next_ready :: "machine \<Rightarrow> nat option" where
  "next_ready m =
     (let c = g_current m;
          ready = filter (\<lambda>i. task_state m i = TASK_READY) [(c + 1) mod 4, (c + 2) mod 4, (c + 3) mod 4]
      in if ready = [] then None else Some (hd ready))"

definition switch_tasks :: "nat \<Rightarrow> machine \<Rightarrow> machine" where
  "switch_tasks k m =
     (let c = g_current m;
          m1 = (if task_state m c = TASK_RUNNING then upd_task c (\<lambda>t. t\<lparr>t_state := TASK_READY\<rparr>) m else m)
      in (upd_task k (\<lambda>t. t\<lparr>t_state := TASK_RUNNING\<rparr>) m1)\<lparr>g_current := k\<rparr>)"

text \<open>The part both handlers share: save, and store the stack pointer in the task table.\<close>

definition enter_handler :: "machine \<Rightarrow> machine" where
  "enter_handler m =
     (let m1 = save_context m in upd_task (g_current m1) (\<lambda>t. t\<lparr>t_esp := r_esp (cpu m1)\<rparr>) m1)"

definition yield_int_handler :: "machine \<Rightarrow> machine" where
  "yield_int_handler m =
     (let m1 = enter_handler m
      in case next_ready m1 of
           None \<Rightarrow> restore_context (r_esp (cpu m1)) m1
         | Some k \<Rightarrow> let m2 = (switch_tasks k m1)\<lparr>g_tick_count := 0\<rparr>
                     in restore_context (t_esp (g_tasks m2 ! k)) m2)"

definition irq0_handler :: "machine \<Rightarrow> machine" where
  "irq0_handler m =
     (let m1 = enter_handler m;
          m2 = (upd_task (g_current m1) (\<lambda>t. t\<lparr>t_ticks := t_ticks t + 1\<rparr>) m1)
                 \<lparr>g_tick_count := g_tick_count m1 + 1, g_ms_ticks := g_ms_ticks m1 + 10\<rparr>
      in if sint (g_tick_count m2) < 5 then restore_context (r_esp (cpu m2)) m2
         else let m3 = m2\<lparr>g_tick_count := 0\<rparr>
              in case next_ready m3 of
                   None \<Rightarrow> restore_context (r_esp (cpu m3)) m3
                 | Some k \<Rightarrow> let m4 = switch_tasks k m3
                             in restore_context (t_esp (g_tasks m4 ! k)) m4)"

section \<open>The C entry points\<close>

definition sched_init :: "machine \<Rightarrow> machine" where
  "sched_init m =
     m\<lparr>g_tasks := map (\<lambda>i. \<lparr>t_esp = 0, t_state = (if i = 0 then TASK_RUNNING else TASK_UNUSED),
                            t_stack_base = 0, t_id = of_nat i,
                            t_name = (if i = 0 then Some ''main'' else None), t_ticks = 0\<rparr>) [0..<SCHED_MAX_TASKS],
       g_current := 0, g_ntasks := 1\<rparr>"

text \<open>The initial frame, in the order \<open>sched_spawn\<close> stores it.\<close>

definition spawn_frame :: "u32 \<Rightarrow> u32 \<Rightarrow> u32 list" where
  "spawn_frame trampoline entry =
     [0x202, 0x10, trampoline, 0, 0, 0, entry, 0, 0, 0, 0, 0x18, 0x18]"

text \<open>
  The new task's index, \<open>None\<close> for -1. \<open>trampoline\<close> is the address of \<open>task_entry_trampoline\<close>;
  \<open>kmalloc\<close> zeroes the stack it returns.
\<close>

definition sched_spawn :: "u32 \<Rightarrow> u32 \<Rightarrow> string option \<Rightarrow> machine \<Rightarrow> nat option \<times> machine" where
  "sched_spawn trampoline entry name m =
     (let free = filter (\<lambda>i. task_state m i = TASK_UNUSED) [1..<SCHED_MAX_TASKS]
      in if free = [] then (None, m)
         else case kmalloc_ptr TASK_STACK_SIZE (heap_ptr m) of
                (None, _) \<Rightarrow> (None, m)
              | (Some p, q) \<Rightarrow>
                  let slot = hd free;
                      stack = heap_base m + p;
                      zeroed = (\<lambda>a. if a - stack < TASK_STACK_SIZE then 0 else mem m a);
                      (sp, mm) = pushes (spawn_frame trampoline entry) (stack + TASK_STACK_SIZE, zeroed)
                  in (Some slot,
                      (upd_task slot (\<lambda>_. \<lparr>t_esp = sp, t_state = TASK_READY, t_stack_base = stack,
                          t_id = of_nat slot, t_name = name, t_ticks = 0\<rparr>) m)
                        \<lparr>heap_ptr := q, mem := mm, g_ntasks := g_ntasks m + 1\<rparr>))"

text \<open>What \<open>task_trampoline_c\<close> does when the task function has returned; it then only yields.\<close>

definition task_exit :: "machine \<Rightarrow> machine" where
  "task_exit m = upd_task (g_current m) (\<lambda>t. t\<lparr>t_state := TASK_ZOMBIE\<rparr>) m"

definition yield :: "machine \<Rightarrow> machine" where
  "yield m = yield_int_handler m"

definition sched_current :: "machine \<Rightarrow> task_t" where
  "sched_current m = g_tasks m ! g_current m"

definition sched_tick :: "machine \<Rightarrow> machine" where
  "sched_tick m = m"

text \<open>The exit test of the loop of \<open>sched_start\<close>, which yields while it is false.\<close>

definition sched_all_done :: "machine \<Rightarrow> bool" where
  "sched_all_done m =
     list_all (\<lambda>i. task_state m i \<noteq> TASK_READY \<and> task_state m i \<noteq> TASK_RUNNING) [1..<SCHED_MAX_TASKS]"

definition sched_start_enter :: "machine \<Rightarrow> machine" where
  "sched_start_enter m = upd_task 0 (\<lambda>t. t\<lparr>t_state := TASK_RUNNING\<rparr>) m"

section \<open>Stack facts\<close>

lemma word_step:
  fixes sp :: u32
  assumes "i < 2 ^ 30" "j < 2 ^ 30" "i \<noteq> j"
  shows "sp - 4 * of_nat i \<noteq> sp - 4 * of_nat j"
proof
  assume "sp - 4 * of_nat i = sp - 4 * of_nat j"
  then have "(of_nat (4 * i) :: u32) = of_nat (4 * j)" by simp
  then have "unat (of_nat (4 * i) :: u32) = unat (of_nat (4 * j) :: u32)" by simp
  moreover have "unat (of_nat (4 * k) :: u32) = 4 * k" if "k < 2 ^ 30" for k
    by (rule unat_of_nat_eq) (use that in simp)
  ultimately have "4 * i = 4 * j" using assms(1,2) by metis
  with assms(3) show False by simp
qed

lemma pushes_sp: "fst (pushes vs (sp, m)) = sp - 4 * of_nat (length vs)"
proof (induction vs arbitrary: sp m)
  case (Cons v vs)
  show ?case unfolding pushes.simps Cons.IH by (simp add: algebra_simps)
qed simp

lemma pushes_keep:
  "(\<And>i. i < length vs \<Longrightarrow> a \<noteq> sp - 4 * of_nat (Suc i)) \<Longrightarrow> snd (pushes vs (sp, m)) a = m a"
proof (induction vs arbitrary: sp m)
  case (Cons v vs)
  have "a \<noteq> sp - 4" using Cons.prems [of 0] by simp
  moreover have "snd (pushes vs (sp - 4, m(sp - 4 := v))) a = (m(sp - 4 := v)) a"
  proof (rule Cons.IH)
    fix i assume "i < length vs"
    then show "a \<noteq> sp - 4 - 4 * of_nat (Suc i)" using Cons.prems [of "Suc i"] by (simp add: algebra_simps)
  qed
  ultimately show ?case by simp
qed simp

lemma pushes_nth:
  assumes "length vs < 2 ^ 30" "i < length vs"
  shows "snd (pushes vs (sp, m)) (sp - 4 * of_nat (Suc i)) = vs ! i"
  using assms
proof (induction vs arbitrary: sp m i)
  case (Cons v vs)
  show ?case
  proof (cases i)
    case 0
    have "sp - 4 \<noteq> sp - 4 - 4 * of_nat (Suc k)" if "k < length vs" for k
      using word_step [of 1 "k + 2" sp] that Cons.prems(1) by (simp add: algebra_simps)
    then have "snd (pushes vs (sp - 4, m(sp - 4 := v))) (sp - 4) = v"
      using pushes_keep [of vs "sp - 4" "sp - 4"] by simp
    then show ?thesis using 0 by simp
  next
    case (Suc k)
    then have "length vs < 2 ^ 30" "k < length vs" using Cons.prems by simp_all
    then have "snd (pushes vs (sp - 4, m(sp - 4 := v))) (sp - 4 - 4 * of_nat (Suc k)) = vs ! k" by (rule Cons.IH)
    moreover have e: "sp - 4 - 4 * of_nat (Suc k) = sp - 4 * of_nat (Suc i)" using Suc by (simp add: algebra_simps)
    ultimately show ?thesis unfolding pushes.simps e using Suc by (simp only: nth_Cons_Suc)
  qed
qed simp

lemma pops_eq: "pops n sp m = map (\<lambda>i. m (sp + 4 * of_nat i)) [0..<n]"
proof (induction n arbitrary: sp)
  case (Suc n)
  have "[0..<Suc n] = 0 # map Suc [0..<n]" by (simp add: upt_conv_Cons map_Suc_upt)
  with Suc show ?case by (simp add: algebra_simps comp_def)
qed simp

text \<open>Reading a frame back: the words in reverse order.\<close>

lemma pops_frame:
  assumes "length vs = n" "n < 2 ^ 30" "\<And>i. i < n \<Longrightarrow> mm (sp - 4 * of_nat (Suc i)) = vs ! i"
  shows "pops n (sp - 4 * of_nat n) mm = rev vs"
proof (rule nth_equalityI)
  show "length (pops n (sp - 4 * of_nat n) mm) = length (rev vs)" by (simp add: pops_eq assms(1))
  fix i assume "i < length (pops n (sp - 4 * of_nat n) mm)"
  then have i: "i < n" by (simp add: pops_eq)
  have "(of_nat n :: u32) = of_nat i + of_nat (Suc (n - Suc i))"
    using i by (simp only: of_nat_add [symmetric]) simp
  then have e: "sp - 4 * of_nat n + 4 * of_nat i = sp - 4 * of_nat (Suc (n - Suc i))"
    by (simp add: algebra_simps)
  have "pops n (sp - 4 * of_nat n) mm ! i = mm (sp - 4 * of_nat n + 4 * of_nat i)"
    using i by (simp add: pops_eq)
  also have "\<dots> = mm (sp - 4 * of_nat (Suc (n - Suc i)))" unfolding e by (rule refl)
  also have "\<dots> = vs ! (n - Suc i)" using assms(3) [of "n - Suc i"] i by simp
  also have "\<dots> = rev vs ! i" using i assms(1) by (simp add: rev_nth)
  finally show "pops n (sp - 4 * of_nat n) mm ! i = rev vs ! i" .
qed

lemma restore_frame:
  assumes "\<And>i. i < 13 \<Longrightarrow> mem m (r_esp c - 4 * of_nat (Suc i)) = frame_of c ! i"
  shows "cpu (restore_context (r_esp c - 52) m) = c"
proof -
  have "pops 13 (r_esp c - 4 * of_nat 13) (mem m) = rev (frame_of c)"
    by (rule pops_frame) (use assms in \<open>simp_all add: frame_of_def\<close>)
  then show ?thesis by (cases c) (simp add: restore_context_def frame_of_def Let_def)
qed

section \<open>What the handlers do to the task table\<close>

lemma save_fields [simp]:
  "g_tasks (save_context m) = g_tasks m" "g_current (save_context m) = g_current m"
  "g_tick_count (save_context m) = g_tick_count m" "heap_ptr (save_context m) = heap_ptr m"
  "g_ms_ticks (save_context m) = g_ms_ticks m"
  by (simp_all add: save_context_def split: prod.split)

lemma restore_fields [simp]:
  "g_tasks (restore_context sp m) = g_tasks m" "g_current (restore_context sp m) = g_current m"
  "g_tick_count (restore_context sp m) = g_tick_count m" "mem (restore_context sp m) = mem m"
  "g_ms_ticks (restore_context sp m) = g_ms_ticks m"
  by (simp_all add: restore_context_def Let_def)

lemma upd_task_fields [simp]:
  "g_current (upd_task i f m) = g_current m" "cpu (upd_task i f m) = cpu m" "mem (upd_task i f m) = mem m"
  "g_tick_count (upd_task i f m) = g_tick_count m" "length (g_tasks (upd_task i f m)) = length (g_tasks m)"
  "g_ms_ticks (upd_task i f m) = g_ms_ticks m"
  by (simp_all add: upd_task_def)

lemma upd_task_nth:
  "k < length (g_tasks m) \<Longrightarrow> g_tasks (upd_task i f m) ! k = (if k = i then f (g_tasks m ! k) else g_tasks m ! k)"
  by (auto simp: upd_task_def nth_list_update)

lemma save_cpu:
  "r_esp (cpu (save_context m)) = r_esp (cpu m) - 52" "mem (save_context m) = snd (pushes (frame_of (cpu m)) (r_esp (cpu m), mem m))"
  using pushes_sp [of "frame_of (cpu m)" "r_esp (cpu m)" "mem m"]
  by (simp_all add: save_context_def frame_of_def split: prod.splits)

lemma enter_fields [simp]:
  "g_current (enter_handler m) = g_current m" "g_tick_count (enter_handler m) = g_tick_count m"
  "cpu (enter_handler m) = cpu (save_context m)" "mem (enter_handler m) = mem (save_context m)"
  "length (g_tasks (enter_handler m)) = length (g_tasks m)" "g_ms_ticks (enter_handler m) = g_ms_ticks m"
  by (simp_all add: enter_handler_def Let_def)

lemma enter_nth:
  "k < length (g_tasks m) \<Longrightarrow> g_tasks (enter_handler m) ! k =
     (if k = g_current m then (g_tasks m ! k)\<lparr>t_esp := r_esp (cpu m) - 52\<rparr> else g_tasks m ! k)"
  by (simp add: enter_handler_def Let_def upd_task_nth save_cpu)

definition sched_inv :: "machine \<Rightarrow> bool" where
  "sched_inv m \<longleftrightarrow> length (g_tasks m) = SCHED_MAX_TASKS \<and> g_current m < SCHED_MAX_TASKS \<and>
     (task_state m (g_current m) = TASK_RUNNING \<or> task_state m (g_current m) = TASK_ZOMBIE) \<and>
     (\<forall>i < SCHED_MAX_TASKS. i \<noteq> g_current m \<longrightarrow> task_state m i \<noteq> TASK_RUNNING) \<and>
     task_state m 0 \<noteq> TASK_UNUSED \<and> task_state m 0 \<noteq> TASK_ZOMBIE"

lemma sched_invD:
  assumes "sched_inv m"
  shows "length (g_tasks m) = 4" "g_current m < 4"
    "task_state m (g_current m) = TASK_RUNNING \<or> task_state m (g_current m) = TASK_ZOMBIE"
    "i < 4 \<Longrightarrow> i \<noteq> g_current m \<Longrightarrow> task_state m i \<noteq> TASK_RUNNING"
    "task_state m 0 \<noteq> TASK_UNUSED" "task_state m 0 \<noteq> TASK_ZOMBIE"
  using assms by (auto simp: sched_inv_def)

text \<open>Only states and the current index matter for the scheduling decisions.\<close>

definition same_sched :: "machine \<Rightarrow> machine \<Rightarrow> bool" where
  "same_sched m m' \<longleftrightarrow> length (g_tasks m') = length (g_tasks m) \<and> g_current m' = g_current m \<and>
     (\<forall>i < 4. task_state m' i = task_state m i)"

lemma same_sched_inv: "same_sched m m' \<Longrightarrow> sched_inv m \<Longrightarrow> sched_inv m'"
  by (auto simp: same_sched_def sched_inv_def)

lemma same_sched_next: "same_sched m m' \<Longrightarrow> g_current m < 4 \<Longrightarrow> next_ready m' = next_ready m"
proof -
  assume a: "same_sched m m'" "g_current m < 4"
  let ?c = "g_current m"
  have "filter (\<lambda>i. task_state m' i = TASK_READY) [(?c + 1) mod 4, (?c + 2) mod 4, (?c + 3) mod 4]
      = filter (\<lambda>i. task_state m i = TASK_READY) [(?c + 1) mod 4, (?c + 2) mod 4, (?c + 3) mod 4]"
    by (rule filter_cong) (use a in \<open>auto simp: same_sched_def\<close>)
  then show ?thesis using a by (simp add: next_ready_def same_sched_def Let_def)
qed

lemma enter_same: "length (g_tasks m) = 4 \<Longrightarrow> same_sched m (enter_handler m)"
  by (simp add: same_sched_def enter_nth)

lemma next_ready_Some:
  assumes "next_ready m = Some k" "g_current m < 4"
  shows "k < 4" "k \<noteq> g_current m" "task_state m k = TASK_READY"
proof -
  let ?c = "g_current m"
  let ?l = "filter (\<lambda>i. task_state m i = TASK_READY) [(?c + 1) mod 4, (?c + 2) mod 4, (?c + 3) mod 4]"
  have "?l \<noteq> []" "k = hd ?l" using assms(1) by (auto simp: next_ready_def Let_def split: if_splits)
  then have "k \<in> set ?l" using hd_in_set by metis
  then have l: "k \<in> set [(?c + 1) mod 4, (?c + 2) mod 4, (?c + 3) mod 4]" "task_state m k = TASK_READY"
    unfolding set_filter by blast+
  then have k: "k = (?c + 1) mod 4 \<or> k = (?c + 2) mod 4 \<or> k = (?c + 3) mod 4" "task_state m k = TASK_READY"
    unfolding list.set insert_iff empty_iff by blast+
  show "task_state m k = TASK_READY" by (rule k(2))
  show "k < 4" using k(1) by (elim disjE) (simp_all only: mod_less_divisor zero_less_numeral)
  have "?c = 0 \<or> ?c = 1 \<or> ?c = 2 \<or> ?c = 3" using assms(2) by linarith
  then show "k \<noteq> ?c" using k(1) by (elim disjE) simp_all
qed

lemma switch_fields:
  assumes "sched_inv m" "k < 4" "k \<noteq> g_current m"
  shows "g_current (switch_tasks k m) = k" "length (g_tasks (switch_tasks k m)) = 4"
    "i < 4 \<Longrightarrow> task_state (switch_tasks k m) i = (if i = k then TASK_RUNNING
       else if i = g_current m \<and> task_state m i = TASK_RUNNING then TASK_READY else task_state m i)"
    "i < 4 \<Longrightarrow> t_esp (g_tasks (switch_tasks k m) ! i) = t_esp (g_tasks m ! i)"
  using sched_invD(1) [OF assms(1)] assms(2,3)
  by (auto simp: switch_tasks_def Let_def upd_task_nth)

lemma switch_inv:
  assumes "sched_inv m" "next_ready m = Some k"
  shows "sched_inv (switch_tasks k m)"
proof -
  note I = sched_invD [OF assms(1)]
  note K = next_ready_Some [OF assms(2) I(2)]
  note S = switch_fields [OF assms(1) K(1,2)]
  show ?thesis
    unfolding sched_inv_def S(1,2)
    using I K S(3) by (auto split: if_splits)
qed

lemma switch_same:
  assumes "same_sched m m1" "sched_inv m" "k < 4" "k \<noteq> g_current m"
  shows "same_sched (switch_tasks k m) (switch_tasks k m1)"
proof -
  have c: "g_current m1 = g_current m" and st: "\<And>i. i < 4 \<Longrightarrow> task_state m1 i = task_state m i"
    using assms(1) by (simp_all add: same_sched_def)
  note S = switch_fields [OF assms(2-4)]
    and S1 = switch_fields [OF same_sched_inv [OF assms(1,2)] assms(3), unfolded c, OF assms(4)]
  show ?thesis unfolding same_sched_def S(1,2) S1(1,2) using S(3) S1(3) st by auto
qed

text \<open>Both handlers are: bookkeeping, then a switch or not, then a return into some task.\<close>

definition sched_next_state :: "machine \<Rightarrow> machine \<Rightarrow> bool" where
  "sched_next_state m m' \<longleftrightarrow> length (g_tasks m') = 4 \<and> (case next_ready m of
      None \<Rightarrow> same_sched m m'
    | Some k \<Rightarrow> same_sched (switch_tasks k m) m')"

lemma yield_sched:
  assumes "sched_inv m"
  shows "sched_next_state m (yield_int_handler m)"
proof -
  note I = sched_invD [OF assms]
  let ?e = "enter_handler m"
  have e: "same_sched m ?e" by (rule enter_same [OF I(1)])
  have n: "next_ready ?e = next_ready m" by (rule same_sched_next [OF e I(2)])
  have ie: "sched_inv ?e" by (rule same_sched_inv [OF e assms])
  show ?thesis
  proof (cases "next_ready m")
    case None
    with e n I(1) show ?thesis
      by (simp add: sched_next_state_def yield_int_handler_def Let_def same_sched_def)
  next
    case (Some k)
    note K = next_ready_Some [OF Some I(2)]
    have "length (g_tasks (switch_tasks k ?e)) = 4"
      using switch_fields(2) [OF ie K(1)] K(2) by simp
    moreover have "same_sched (switch_tasks k m) (yield_int_handler m)"
      using switch_same [OF e assms K(1,2)] Some n
      by (simp add: yield_int_handler_def Let_def same_sched_def)
    ultimately show ?thesis using Some n
      by (simp add: sched_next_state_def yield_int_handler_def Let_def)
  qed
qed

lemma next_state_inv:
  assumes "sched_inv m" "sched_next_state m m'"
  shows "sched_inv m'"
proof (cases "next_ready m")
  case None
  then show ?thesis using assms same_sched_inv by (auto simp: sched_next_state_def)
next
  case (Some k)
  then show ?thesis using assms switch_inv same_sched_inv by (auto simp: sched_next_state_def)
qed

section \<open>The system as a step relation\<close>

text \<open>
  A step is a handler, a C entry point called by the running task, or arbitrary computation of the
  running task, which can change the registers and the memory but not the scheduler's variables.
\<close>

inductive sched_step :: "machine \<Rightarrow> machine \<Rightarrow> bool" where
  compute: "sched_step m (m\<lparr>cpu := c, mem := mm\<rparr>)"
| yielding: "sched_step m (yield m)"
| timer: "sched_step m (irq0_handler m)"
| spawning: "sched_step m (snd (sched_spawn tr en nm m))"
| exiting: "g_current m \<noteq> 0 \<Longrightarrow> sched_step m (task_exit m)"
| starting: "g_current m = 0 \<Longrightarrow> sched_step m (sched_start_enter m)"

inductive sched_reach :: "machine \<Rightarrow> bool" where
  boot: "sched_reach (sched_init m)"
| step: "sched_reach m \<Longrightarrow> sched_step m m' \<Longrightarrow> sched_reach m'"

lemma init_sched_inv: "sched_inv (sched_init m)"
proof -
  have "[0..<4] = [0, 1, 2, 3 :: nat]" by (simp add: upt_rec)
  moreover have "i < 4 \<longleftrightarrow> i = 0 \<or> i = 1 \<or> i = 2 \<or> i = (3 :: nat)" for i by auto
  ultimately show ?thesis by (auto simp: sched_inv_def sched_init_def)
qed

lemma irq0_cases:
  assumes "length (g_tasks m) = 4"
  shows "sint (g_tick_count m + 1) < 5 \<Longrightarrow>
      same_sched m (irq0_handler m) \<and> g_tick_count (irq0_handler m) = g_tick_count m + 1"
    "\<not> sint (g_tick_count m + 1) < 5 \<Longrightarrow> sched_inv m \<Longrightarrow>
      sched_next_state m (irq0_handler m) \<and> g_tick_count (irq0_handler m) = 0"
    "g_ms_ticks (irq0_handler m) = g_ms_ticks m + 10"
proof -
  define m2 where "m2 = (upd_task (g_current m) (\<lambda>t. t\<lparr>t_ticks := t_ticks t + 1\<rparr>) (enter_handler m))
      \<lparr>g_tick_count := g_tick_count m + 1, g_ms_ticks := g_ms_ticks m + 10\<rparr>"
  have irq: "irq0_handler m = (if sint (g_tick_count m2) < 5 then restore_context (r_esp (cpu m2)) m2
         else let m3 = m2\<lparr>g_tick_count := 0\<rparr>
              in case next_ready m3 of
                   None \<Rightarrow> restore_context (r_esp (cpu m3)) m3
                 | Some k \<Rightarrow> let m4 = switch_tasks k m3
                             in restore_context (t_esp (g_tasks m4 ! k)) m4)"
    by (simp add: irq0_handler_def m2_def Let_def)
  have t2: "g_tick_count m2 = g_tick_count m + 1" "g_ms_ticks m2 = g_ms_ticks m + 10" by (simp_all add: m2_def)
  have s2: "same_sched m m2"
    using enter_same [OF assms] assms by (simp add: same_sched_def m2_def upd_task_nth)
  show "sint (g_tick_count m + 1) < 5 \<Longrightarrow>
      same_sched m (irq0_handler m) \<and> g_tick_count (irq0_handler m) = g_tick_count m + 1"
    using s2 t2 by (simp add: irq same_sched_def)
  show "g_ms_ticks (irq0_handler m) = g_ms_ticks m + 10"
    using t2 by (simp add: irq Let_def switch_tasks_def split: option.split)
  assume q: "\<not> sint (g_tick_count m + 1) < 5" "sched_inv m"
  note I = sched_invD [OF q(2)]
  let ?m3 = "m2\<lparr>g_tick_count := 0\<rparr>"
  have s3: "same_sched m ?m3" using s2 by (simp add: same_sched_def)
  have n: "next_ready ?m3 = next_ready m" by (rule same_sched_next [OF s3 I(2)])
  have i3: "sched_inv ?m3" by (rule same_sched_inv [OF s3 q(2)])
  show "sched_next_state m (irq0_handler m) \<and> g_tick_count (irq0_handler m) = 0"
  proof (cases "next_ready m")
    case None
    with s3 n q(1) t2 I(1) show ?thesis
      by (simp add: sched_next_state_def irq Let_def same_sched_def)
  next
    case (Some k)
    note K = next_ready_Some [OF Some I(2)]
    have c3: "g_current ?m3 = g_current m" using s3 by (simp add: same_sched_def)
    have "length (g_tasks (switch_tasks k ?m3)) = 4" using switch_fields(2) [OF i3 K(1)] K(2) c3 by simp
    moreover have "g_tick_count (switch_tasks k ?m3) = 0" by (simp add: switch_tasks_def Let_def)
    moreover have "same_sched (switch_tasks k m) (irq0_handler m)"
      using switch_same [OF s3 q(2) K(1,2)] Some n q(1) t2
      by (simp add: irq Let_def same_sched_def)
    ultimately show ?thesis using Some n q(1) t2
      by (simp add: sched_next_state_def irq Let_def)
  qed
qed

lemma irq0_inv: "sched_inv m \<Longrightarrow> sched_inv (irq0_handler m)"
  using irq0_cases(1,2) [OF sched_invD(1)] same_sched_inv next_state_inv by blast

lemma spawn_inv:
  assumes "sched_inv m"
  shows "sched_inv (snd (sched_spawn tr en nm m))"
proof -
  note I = sched_invD [OF assms]
  let ?free = "filter (\<lambda>i. task_state m i = TASK_UNUSED) [1..<SCHED_MAX_TASKS]"
  show ?thesis
  proof (cases "?free = [] \<or> fst (kmalloc_ptr TASK_STACK_SIZE (heap_ptr m)) = None")
    case True
    then have "snd (sched_spawn tr en nm m) = m"
      by (auto simp: sched_spawn_def Let_def split: option.split prod.split)
    then show ?thesis using assms by simp
  next
    case False
    then obtain p q where p: "kmalloc_ptr TASK_STACK_SIZE (heap_ptr m) = (Some p, q)"
      by (cases "kmalloc_ptr TASK_STACK_SIZE (heap_ptr m)") auto
    define k where "k = hd ?free"
    have "k \<in> set ?free" using False unfolding k_def by (intro hd_in_set) simp
    then have k: "1 \<le> k" "k < 4" "task_state m k = TASK_UNUSED" by auto
    obtain sp mm where pu: "pushes (spawn_frame tr en) (heap_base m + p + TASK_STACK_SIZE,
        \<lambda>a. if a - (heap_base m + p) < TASK_STACK_SIZE then 0 else mem m a) = (sp, mm)" by fastforce
    define t where "t = \<lparr>t_esp = sp, t_state = TASK_READY, t_stack_base = heap_base m + p,
      t_id = of_nat k, t_name = nm, t_ticks = 0\<rparr>"
    have e: "snd (sched_spawn tr en nm m)
        = (upd_task k (\<lambda>_. t) m)\<lparr>heap_ptr := q, mem := mm, g_ntasks := g_ntasks m + 1\<rparr>" "t_state t = TASK_READY"
      using False p pu by (simp_all add: sched_spawn_def Let_def k_def t_def)
    have kc: "k \<noteq> g_current m" using I(3) k(3) by auto
    show ?thesis
      unfolding sched_inv_def e(1) using I k kc e(2) by (auto simp: upd_task_nth)
  qed
qed

lemma step_inv:
  assumes "sched_step m m'" "sched_inv m"
  shows "sched_inv m'"
  using assms
proof (cases rule: sched_step.cases)
  case (compute c mm)
  then show ?thesis using assms(2) by (simp add: sched_inv_def)
next
  case yielding
  then show ?thesis using next_state_inv [OF assms(2) yield_sched] assms(2) by (simp add: yield_def)
next
  case exiting
  then show ?thesis using assms(2) by (auto simp: sched_inv_def task_exit_def upd_task_nth)
next
  case starting
  then show ?thesis using assms(2) by (auto simp: sched_inv_def sched_start_enter_def upd_task_nth)
qed (simp_all add: irq0_inv spawn_inv)

lemma reach_sched_inv: "sched_reach m \<Longrightarrow> sched_inv m"
  by (induction rule: sched_reach.induct) (auto intro: init_sched_inv step_inv)

section \<open>Fairness\<close>

text \<open>How many places task \<open>k\<close> is behind the current one in cyclic order.\<close>

definition cyc_dist :: "nat \<Rightarrow> nat \<Rightarrow> nat" where
  "cyc_dist c k = (k + 4 - c) mod 4"

lemma below_4: "i < 4 \<longleftrightarrow> i = 0 \<or> i = 1 \<or> i = 2 \<or> i = (3 :: nat)"
  by linarith

lemma cyc_dist_pos: "c < 4 \<Longrightarrow> k < 4 \<Longrightarrow> k \<noteq> c \<Longrightarrow> 1 \<le> cyc_dist c k"
  unfolding below_4 cyc_dist_def by (elim disjE) simp_all

lemma cyc_next: "(c :: nat) < 4 \<Longrightarrow> k < 4 \<Longrightarrow> k \<noteq> c \<Longrightarrow> k = (c + 1) mod 4 \<or> k = (c + 2) mod 4 \<or> k = (c + 3) mod 4"
  unfolding below_4 by (elim disjE) simp_all

lemma next_ready_dist:
  assumes "g_current m < 4" "k < 4" "k \<noteq> g_current m" "task_state m k = TASK_READY"
  obtains j where "next_ready m = Some j" "cyc_dist (g_current m) j \<le> cyc_dist (g_current m) k"
    "j \<noteq> k \<Longrightarrow> cyc_dist j k < cyc_dist (g_current m) k"
proof -
  let ?c = "g_current m" and ?R = "\<lambda>i. task_state m i = TASK_READY"
  have n: "next_ready m = (if ?R ((?c + 1) mod 4) then Some ((?c + 1) mod 4)
      else if ?R ((?c + 2) mod 4) then Some ((?c + 2) mod 4)
      else if ?R ((?c + 3) mod 4) then Some ((?c + 3) mod 4) else None)"
    by (simp add: next_ready_def Let_def)
  have k: "k = (?c + 1) mod 4 \<or> k = (?c + 2) mod 4 \<or> k = (?c + 3) mod 4"
    by (rule cyc_next [OF assms(1-3)])
  have d: "cyc_dist ?c ((?c + i) mod 4) = i" "j \<le> i \<Longrightarrow> cyc_dist ((?c + j) mod 4) ((?c + i) mod 4) = i - j"
    if "i < 4" for i j
  proof -
    have c: "?c = 0 \<or> ?c = 1 \<or> ?c = 2 \<or> ?c = 3" using assms(1) by linarith
    have i: "i = 0 \<or> i = 1 \<or> i = 2 \<or> i = 3" using that by linarith
    show "cyc_dist ?c ((?c + i) mod 4) = i"
      using c i unfolding cyc_dist_def by (elim disjE) simp_all
    assume "j \<le> i"
    then have "j = 0 \<or> j = 1 \<or> j = 2 \<or> j = 3" using that by linarith
    then show "cyc_dist ((?c + j) mod 4) ((?c + i) mod 4) = i - j"
      using c i \<open>j \<le> i\<close> unfolding cyc_dist_def by (elim disjE) simp_all
  qed
  note d1 = d(1) [of 1, simplified] d(1) [of 2, simplified] d(1) [of 3, simplified]
  note d2 = d(2) [of 2 1, simplified] d(2) [of 3 1, simplified] d(2) [of 3 2, simplified]
  show ?thesis
  proof (cases "?R ((?c + 1) mod 4)")
    case True
    show ?thesis
    proof (rule that)
      show "next_ready m = Some ((?c + 1) mod 4)" using True n by simp
      show "cyc_dist ?c ((?c + 1) mod 4) \<le> cyc_dist ?c k" using k d1 by (elim disjE) simp_all
      show "(?c + 1) mod 4 \<noteq> k \<Longrightarrow> cyc_dist ((?c + 1) mod 4) k < cyc_dist ?c k"
        using k d1 d2 by (elim disjE) simp_all
    qed
  next
    case no1: False
    show ?thesis
    proof (cases "?R ((?c + 2) mod 4)")
      case True
      have k2: "k = (?c + 2) mod 4 \<or> k = (?c + 3) mod 4" using k no1 assms(4) by metis
      show ?thesis
      proof (rule that)
        show "next_ready m = Some ((?c + 2) mod 4)" using True no1 n by simp
        show "cyc_dist ?c ((?c + 2) mod 4) \<le> cyc_dist ?c k" using k2 d1 by (elim disjE) simp_all
        show "(?c + 2) mod 4 \<noteq> k \<Longrightarrow> cyc_dist ((?c + 2) mod 4) k < cyc_dist ?c k"
          using k2 d1 d2 by (elim disjE) simp_all
      qed
    next
      case no2: False
      have k3: "k = (?c + 3) mod 4" using k no1 no2 assms(4) by metis
      show ?thesis
        by (rule that [of "(?c + 3) mod 4"]) (use k3 no1 no2 n assms(4) in simp_all)
    qed
  qed
qed

text \<open>Yields with arbitrary computation of the running task before each of them.\<close>

fun run_yields :: "(cpu \<times> (u32 \<Rightarrow> u32)) list \<Rightarrow> machine \<Rightarrow> machine" where
  "run_yields [] m = m"
| "run_yields ((c, mm) # xs) m = run_yields xs (yield (m\<lparr>cpu := c, mem := mm\<rparr>))"

lemma run_yields_fair:
  assumes "sched_inv m" "k < 4" "k \<noteq> g_current m" "task_state m k = TASK_READY"
    and "cyc_dist (g_current m) k \<le> length xs"
  shows "\<exists>n. 1 \<le> n \<and> n \<le> cyc_dist (g_current m) k \<and> g_current (run_yields (take n xs) m) = k"
  using assms
proof (induction xs arbitrary: m)
  case Nil
  note I = sched_invD(2) [OF Nil.prems(1)]
  have "1 \<le> cyc_dist (g_current m) k" by (rule cyc_dist_pos [OF I Nil.prems(2,3)])
  with Nil.prems(5) show ?case by simp
next
  case (Cons x xs)
  obtain c mm where x: "x = (c, mm)" by fastforce
  let ?m = "m\<lparr>cpu := c, mem := mm\<rparr>"
  have ss: "same_sched m ?m" by (simp add: same_sched_def)
  have inv: "sched_inv ?m" by (rule same_sched_inv [OF ss Cons.prems(1)])
  note I = sched_invD(2) [OF inv]
  obtain j where j: "next_ready ?m = Some j" "cyc_dist (g_current m) j \<le> cyc_dist (g_current m) k"
    "j \<noteq> k \<Longrightarrow> cyc_dist j k < cyc_dist (g_current m) k"
    using next_ready_dist [of ?m k] Cons.prems(2-4) I by auto
  note J = next_ready_Some [OF j(1) I]
  note Y = yield_sched [OF inv]
  have sw: "same_sched (switch_tasks j ?m) (yield ?m)" using Y j(1) by (simp add: sched_next_state_def yield_def)
  note S = switch_fields [OF inv J(1,2)]
  have cur: "g_current (yield ?m) = j" using sw S(1) by (simp add: same_sched_def)
  have d0: "1 \<le> cyc_dist (g_current m) k"
    by (rule cyc_dist_pos [OF sched_invD(2) [OF Cons.prems(1)] Cons.prems(2,3)])
  show ?case
  proof (cases "j = k")
    case True
    then show ?thesis using cur d0 x by (intro exI [of _ 1]) simp
  next
    case False
    have inv': "sched_inv (yield ?m)" using next_state_inv [OF inv Y] by (simp add: yield_def)
    have kr: "task_state (yield ?m) k = TASK_READY"
      using sw S(3) [OF Cons.prems(2)] False Cons.prems(2-4) by (auto simp: same_sched_def)
    have dk: "cyc_dist (g_current (yield ?m)) k < cyc_dist (g_current m) k" using j(3) [OF False] cur by simp
    then have "cyc_dist (g_current (yield ?m)) k \<le> length xs" using Cons.prems(5) by simp
    then obtain n where n: "1 \<le> n" "n \<le> cyc_dist (g_current (yield ?m)) k"
        "g_current (run_yields (take n xs) (yield ?m)) = k"
      using Cons.IH [OF inv' Cons.prems(2) _ kr] False cur by auto
    then show ?thesis using dk x by (intro exI [of _ "Suc n"]) auto
  qed
qed

section \<open>Suspending and resuming\<close>

text \<open>Either handler.\<close>

definition sched_handler :: "(machine \<Rightarrow> machine) \<Rightarrow> bool" where
  "sched_handler h \<longleftrightarrow> h = yield \<or> h = irq0_handler"

lemma switch_mem [simp]: "mem (switch_tasks k m) = mem m" "cpu (switch_tasks k m) = cpu m"
  by (simp_all add: switch_tasks_def Let_def)

lemma pushes_13:
  assumes "i < 13"
  shows "snd (pushes (frame_of c) (r_esp c, m)) (r_esp c - 4 * of_nat (Suc i)) = frame_of c ! i"
  by (rule pushes_nth) (use assms in \<open>simp_all add: frame_of_def\<close>)

text \<open>The state in which the timer handler decides, with the tick counter reset.\<close>

definition tick_state :: "machine \<Rightarrow> machine" where
  "tick_state m = (upd_task (g_current m) (\<lambda>t. t\<lparr>t_ticks := t_ticks t + 1\<rparr>) (enter_handler m))
     \<lparr>g_ms_ticks := g_ms_ticks m + 10, g_tick_count := 0\<rparr>"

lemma irq0_eq:
  "irq0_handler m = (if sint (g_tick_count m + 1) < 5
     then restore_context (r_esp (cpu m) - 52) ((tick_state m)\<lparr>g_tick_count := g_tick_count m + 1\<rparr>)
     else case next_ready (tick_state m) of
       None \<Rightarrow> restore_context (r_esp (cpu m) - 52) (tick_state m)
     | Some k \<Rightarrow> restore_context (t_esp (g_tasks (switch_tasks k (tick_state m)) ! k)) (switch_tasks k (tick_state m)))"
proof -
  let ?m2 = "(upd_task (g_current m) (\<lambda>t. t\<lparr>t_ticks := t_ticks t + 1\<rparr>) (enter_handler m))
    \<lparr>g_tick_count := g_tick_count m + 1, g_ms_ticks := g_ms_ticks m + 10\<rparr>"
  have t: "?m2\<lparr>g_tick_count := 0\<rparr> = tick_state m" "?m2 = (tick_state m)\<lparr>g_tick_count := g_tick_count m + 1\<rparr>"
    by (simp_all add: tick_state_def)
  have e: "r_esp (cpu (tick_state m)) = r_esp (cpu m) - 52" "r_esp (cpu ?m2) = r_esp (cpu m) - 52"
    by (simp_all add: tick_state_def save_cpu)
  have g: "g_tick_count ?m2 = g_tick_count m + 1" by simp
  show ?thesis
    unfolding irq0_handler_def Let_def enter_fields t(1) e g unfolding t(2) by (rule refl)
qed

lemma tick_state_facts:
  assumes "sched_inv m"
  shows "sched_inv (tick_state m)" "g_current (tick_state m) = g_current m"
    "k < 4 \<Longrightarrow> k \<noteq> g_current m \<Longrightarrow> t_esp (g_tasks (tick_state m) ! k) = t_esp (g_tasks m ! k)"
    "t_esp (g_tasks (tick_state m) ! g_current m) = r_esp (cpu m) - 52"
    "mem (tick_state m) = snd (pushes (frame_of (cpu m)) (r_esp (cpu m), mem m))"
proof -
  note I = sched_invD [OF assms]
  have ie: "sched_inv (enter_handler m)" by (rule same_sched_inv [OF enter_same [OF I(1)] assms])
  show "sched_inv (tick_state m)" using ie I(1,2) by (auto simp: tick_state_def sched_inv_def upd_task_nth)
  show "k < 4 \<Longrightarrow> k \<noteq> g_current m \<Longrightarrow> t_esp (g_tasks (tick_state m) ! k) = t_esp (g_tasks m ! k)"
    "t_esp (g_tasks (tick_state m) ! g_current m) = r_esp (cpu m) - 52"
    using I(1,2) by (simp_all add: tick_state_def upd_task_nth enter_nth)
qed (simp_all add: tick_state_def save_cpu)

text \<open>A handler stores the frame below the stack pointer and records it, whatever it decides.\<close>

lemma handler_saves:
  assumes "sched_handler h" "sched_inv m"
  shows "mem (h m) = snd (pushes (frame_of (cpu m)) (r_esp (cpu m), mem m))"
    "t_esp (g_tasks (h m) ! g_current m) = r_esp (cpu m) - 52"
proof -
  note I = sched_invD [OF assms(2)]
  have e: "t_esp (g_tasks (enter_handler m) ! g_current m) = r_esp (cpu m) - 52"
    using I(1,2) by (simp add: enter_nth)
  have ie: "sched_inv (enter_handler m)" by (rule same_sched_inv [OF enter_same [OF I(1)] assms(2)])
  have sw: "t_esp (g_tasks (switch_tasks k m') ! g_current m) = t_esp (g_tasks m' ! g_current m)"
    if "sched_inv m'" "g_current m' = g_current m" "next_ready m' = Some k" for m' k
    using switch_fields(4) [OF that(1)] next_ready_Some [OF that(3)] that(2) I(2) by simp
  note T = tick_state_facts [OF assms(2)]
  have "mem (h m) = snd (pushes (frame_of (cpu m)) (r_esp (cpu m), mem m)) \<and>
      t_esp (g_tasks (h m) ! g_current m) = r_esp (cpu m) - 52"
  proof (cases "h = yield")
    case True
    show ?thesis
    proof (cases "next_ready (enter_handler m)")
      case None
      then show ?thesis using e True by (simp add: yield_def yield_int_handler_def Let_def save_cpu)
    next
      case (Some k)
      then show ?thesis using e True sw [OF ie _ Some] by (simp add: yield_def yield_int_handler_def Let_def save_cpu)
    qed
  next
    case False
    then have h: "h m = irq0_handler m" using assms(1) by (simp add: sched_handler_def)
    show ?thesis
    proof (cases "next_ready (tick_state m)")
      case None
      then show ?thesis unfolding h irq0_eq using T(4,5) by simp
    next
      case (Some k)
      then show ?thesis unfolding h irq0_eq using T(4,5) sw [OF T(1,2) Some] by simp
    qed
  qed
  then show "mem (h m) = snd (pushes (frame_of (cpu m)) (r_esp (cpu m), mem m))"
    "t_esp (g_tasks (h m) ! g_current m) = r_esp (cpu m) - 52" by blast+
qed

text \<open>A handler that switches to \<open>a\<close> loads the registers from the frame at \<open>a\<close>'s stack pointer.\<close>

lemma handler_resumes:
  assumes "sched_handler h" "sched_inv m" "g_current (h m) = a" "a \<noteq> g_current m"
  shows "\<exists>m'. cpu (h m) = cpu (restore_context (t_esp (g_tasks m ! a)) m') \<and>
    mem m' = snd (pushes (frame_of (cpu m)) (r_esp (cpu m), mem m))"
proof -
  note I = sched_invD [OF assms(2)]
  have ie: "sched_inv (enter_handler m)" by (rule same_sched_inv [OF enter_same [OF I(1)] assms(2)])
  have r: "cpu (restore_context sp m1) = cpu (restore_context sp m2)" if "mem m1 = mem m2" for sp m1 m2
    using that by (simp add: restore_context_def Let_def)
  show ?thesis
  proof (cases "h = yield")
    case True
    then obtain k where k: "next_ready (enter_handler m) = Some k"
      using assms(3,4) by (cases "next_ready (enter_handler m)") (auto simp: yield_def yield_int_handler_def Let_def)
    note K = next_ready_Some [OF k, unfolded enter_fields, OF I(2)]
    note S = switch_fields [OF ie K(1), unfolded enter_fields, OF K(2)]
    have a: "k = a" using assms(3) True k S(1) by (simp add: yield_def yield_int_handler_def Let_def)
    have "t_esp (g_tasks (switch_tasks k (enter_handler m)) ! k) = t_esp (g_tasks m ! a)"
      using S(4) [OF K(1)] K(1,2) I(1) a by (simp add: enter_nth)
    then show ?thesis using True k
      by (intro exI [of _ "(switch_tasks k (enter_handler m))\<lparr>g_tick_count := 0\<rparr>"])
        (simp add: yield_def yield_int_handler_def Let_def save_cpu)
  next
    case False
    then have h: "h = irq0_handler" using assms(1) by (simp add: sched_handler_def)
    note T = tick_state_facts [OF assms(2)]
    have q: "\<not> sint (g_tick_count m + 1) < 5"
    proof
      assume "sint (g_tick_count m + 1) < 5"
      then have "g_current (irq0_handler m) = g_current m" using irq0_cases(1) [OF I(1)] by (simp add: same_sched_def)
      with assms(3,4) h show False by simp
    qed
    note irq = irq0_eq [of m, unfolded if_not_P [OF q]]
    obtain k where k: "next_ready (tick_state m) = Some k"
      using assms(3,4) h T(2) by (cases "next_ready (tick_state m)") (simp_all add: irq)
    note K = next_ready_Some [OF k, unfolded T(2), OF I(2)]
    note S = switch_fields [OF T(1) K(1), unfolded T(2), OF K(2)]
    have a: "k = a" using assms(3) h k S(1) by (simp add: irq)
    have "t_esp (g_tasks (switch_tasks k (tick_state m)) ! k) = t_esp (g_tasks m ! a)"
      using S(4) [OF K(1)] T(3) [OF K(1,2)] a by simp
    then show ?thesis using h k T(5)
      by (intro exI [of _ "switch_tasks k (tick_state m)"]) (simp add: irq)
  qed
qed

section \<open>Properties\<close>

text \<open>C22: In every reachable state of the scheduler at most one task is marked running, and it is the
  current one; the current task is running or has just become a zombie; task 0, the idle task, is
  never unused and never a zombie.\<close>

theorem sched_one_running:
  assumes "sched_reach m"
  shows "g_current m < SCHED_MAX_TASKS \<and>
    {i. i < SCHED_MAX_TASKS \<and> task_state m i = TASK_RUNNING} \<subseteq> {g_current m} \<and>
    (task_state m (g_current m) = TASK_RUNNING \<or> g_current m \<noteq> 0 \<and> task_state m (g_current m) = TASK_ZOMBIE) \<and>
    task_state m 0 \<noteq> TASK_UNUSED \<and> task_state m 0 \<noteq> TASK_ZOMBIE"
  using reach_sched_inv [OF assms] by (auto simp: sched_inv_def intro: gr0I)

definition zero_cpu :: cpu where
  "zero_cpu = \<lparr>r_eax = 0, r_ecx = 0, r_edx = 0, r_ebx = 0, r_esp = 0x90000, r_ebp = 0, r_esi = 0,
     r_edi = 0, r_eip = 0x1000, r_cs = 0x10, r_eflags = 0x202, r_ds = 0x18, r_es = 0x18\<rparr>"

definition boot_machine :: machine where
  "boot_machine = sched_init \<lparr>cpu = zero_cpu, mem = (\<lambda>_. 0), g_tasks = [], g_current = 0, g_tick_count = 0,
     g_ntasks = 0, g_ms_ticks = 0, heap_base = 0x200000, heap_ptr = 0\<rparr>"

definition two_tasks :: machine where
  "two_tasks = snd (sched_spawn 0x5000 0x6000 (Some ''a'') boot_machine)"

theorem sched_one_running_witness:
  "g_current two_tasks < SCHED_MAX_TASKS \<and>
    {i. i < SCHED_MAX_TASKS \<and> task_state two_tasks i = TASK_RUNNING} \<subseteq> {g_current two_tasks} \<and>
    (task_state two_tasks (g_current two_tasks) = TASK_RUNNING \<or>
      g_current two_tasks \<noteq> 0 \<and> task_state two_tasks (g_current two_tasks) = TASK_ZOMBIE) \<and>
    task_state two_tasks 0 \<noteq> TASK_UNUSED \<and> task_state two_tasks 0 \<noteq> TASK_ZOMBIE"
  by (rule sched_one_running) (simp only: two_tasks_def boot_machine_def, rule sched_reach.step [OF sched_reach.boot sched_step.spawning])

text \<open>C18: Round robin is fair. Whatever the tasks compute in between, a ready task is running after
  at most three yields: at most as many as it is places behind the current task in cyclic order.\<close>

theorem yield_round_robin:
  assumes "sched_reach m" "k < SCHED_MAX_TASKS" "task_state m k = TASK_READY" "length xs = 3"
  shows "\<exists>n. 1 \<le> n \<and> n \<le> 3 \<and> n \<le> cyc_dist (g_current m) k \<and> g_current (run_yields (take n xs) m) = k"
proof -
  note inv = reach_sched_inv [OF assms(1)]
  have kc: "k \<noteq> g_current m" using sched_invD(3) [OF inv] assms(3) by auto
  have "cyc_dist (g_current m) k < 4" by (simp add: cyc_dist_def)
  then have d: "cyc_dist (g_current m) k \<le> 3" by linarith
  then have "cyc_dist (g_current m) k \<le> length xs" using assms(4) by simp
  from run_yields_fair [OF inv assms(2) kc assms(3) this] obtain n where
    "1 \<le> n" "n \<le> cyc_dist (g_current m) k" "g_current (run_yields (take n xs) m) = k" by blast
  with d show ?thesis by (intro exI [of _ n]) simp
qed

lemma two_tasks_reach: "sched_reach two_tasks"
  by (simp only: two_tasks_def boot_machine_def, rule sched_reach.step [OF sched_reach.boot sched_step.spawning])

lemma two_tasks_ready: "task_state two_tasks 1 = TASK_READY" "g_current two_tasks = 0"
  by (simp_all add: two_tasks_def boot_machine_def sched_spawn_def sched_init_def kmalloc_ptr_def round4_def
      upd_task_def Let_def upt_rec split: prod.split)

theorem yield_round_robin_witness:
  "\<exists>n. 1 \<le> n \<and> n \<le> 3 \<and> n \<le> cyc_dist (g_current two_tasks) 1 \<and>
    g_current (run_yields (take n [(zero_cpu, \<lambda>_. 0), (zero_cpu, \<lambda>_. 1), (zero_cpu, \<lambda>_. 2)]) two_tasks) = 1"
  by (rule yield_round_robin [OF two_tasks_reach _ two_tasks_ready(1)]) simp_all

text \<open>C17: A context switch is invisible to the task. A task suspended by either handler and later
  resumed by either handler finds every register, the stack pointer, the flags and the instruction
  pointer as they were, provided the other tasks left its 52-byte frame and its saved stack pointer in the task
  table alone.\<close>

theorem context_preserved:
  assumes "sched_handler h" "sched_handler h'" "sched_inv m" "sched_inv m'"
    and "t_esp (g_tasks m' ! g_current m) = t_esp (g_tasks (h m) ! g_current m)"
    and "\<And>i. i < 13 \<Longrightarrow> mem m' (r_esp (cpu m) - 4 * of_nat (Suc i)) = mem (h m) (r_esp (cpu m) - 4 * of_nat (Suc i))"
    and "\<And>i j. i < 13 \<Longrightarrow> j < 13 \<Longrightarrow> r_esp (cpu m) - 4 * of_nat (Suc i) \<noteq> r_esp (cpu m') - 4 * of_nat (Suc j)"
    and "g_current m' \<noteq> g_current m" "g_current (h' m') = g_current m"
  shows "cpu (h' m') = cpu m"
proof -
  note H = handler_saves [OF assms(1,3)]
  obtain m2 where m2: "cpu (h' m') = cpu (restore_context (t_esp (g_tasks m' ! g_current m)) m2)"
    "mem m2 = snd (pushes (frame_of (cpu m')) (r_esp (cpu m'), mem m'))"
    using handler_resumes [OF assms(2,4,9)] assms(8) by auto
  have "mem m2 (r_esp (cpu m) - 4 * of_nat (Suc i)) = frame_of (cpu m) ! i" if i: "i < 13" for i
  proof -
    have "mem m2 (r_esp (cpu m) - 4 * of_nat (Suc i)) = mem m' (r_esp (cpu m) - 4 * of_nat (Suc i))"
      unfolding m2(2) by (rule pushes_keep, rule assms(7) [OF i]) (simp add: frame_of_def)
    also have "\<dots> = frame_of (cpu m) ! i" using assms(6) [OF i] H(1) pushes_13 [OF i] by simp
    finally show ?thesis .
  qed
  then have "cpu (restore_context (r_esp (cpu m) - 52) m2) = cpu m" by (rule restore_frame)
  then show ?thesis using m2(1) assms(5) H(2) by simp
qed

lemma yield_current:
  assumes "sched_inv m" "next_ready m = Some k"
  shows "sched_inv (yield m)" "g_current (yield m) = k"
    "i < 4 \<Longrightarrow> task_state (yield m) i = task_state (switch_tasks k m) i"
proof -
  note Y = yield_sched [OF assms(1)]
  note K = next_ready_Some [OF assms(2) sched_invD(2) [OF assms(1)]]
  show "sched_inv (yield m)" using next_state_inv [OF assms(1) Y] by (simp add: yield_def)
  have s: "same_sched (switch_tasks k m) (yield m)" using Y assms(2) by (simp add: sched_next_state_def yield_def)
  then show "g_current (yield m) = k" using switch_fields(1) [OF assms(1) K(1,2)] by (simp add: same_sched_def)
  show "i < 4 \<Longrightarrow> task_state (yield m) i = task_state (switch_tasks k m) i" using s by (simp add: same_sched_def)
qed

definition main_cpu :: cpu where
  "main_cpu = zero_cpu\<lparr>r_eax := 7, r_ebp := 8, r_esp := 0x9000\<rparr>"

definition main_running :: machine where
  "main_running = two_tasks\<lparr>cpu := main_cpu\<rparr>"

definition other_running :: machine where
  "other_running = (yield main_running)\<lparr>cpu := zero_cpu\<lparr>r_esp := 0x7000\<rparr>\<rparr>"

lemma main_running_facts:
  "sched_inv main_running" "next_ready main_running = Some 1" "g_current main_running = 0"
  "task_state main_running 0 = TASK_RUNNING" "task_state main_running 2 = TASK_UNUSED" "task_state main_running 3 = TASK_UNUSED"
proof -
  have "same_sched two_tasks main_running" by (simp add: same_sched_def main_running_def)
  then show "sched_inv main_running" using reach_sched_inv [OF two_tasks_reach] by (rule same_sched_inv)
  show "g_current main_running = 0" "task_state main_running 0 = TASK_RUNNING"
    "task_state main_running 2 = TASK_UNUSED" "task_state main_running 3 = TASK_UNUSED"
    by (simp_all add: main_running_def two_tasks_def boot_machine_def sched_spawn_def sched_init_def kmalloc_ptr_def round4_def
      upd_task_def Let_def upt_rec split: prod.split)
  show "next_ready main_running = Some 1"
    using two_tasks_ready by (simp add: next_ready_def main_running_def)
qed

lemma other_running_facts:
  "sched_inv other_running" "g_current other_running = 1" "next_ready other_running = Some 0"
proof -
  note M = main_running_facts
  note Y = yield_current [OF M(1,2)]
  have S: "task_state (switch_tasks 1 main_running) i = (if i = 1 then TASK_RUNNING
      else if i = 0 \<and> task_state main_running i = TASK_RUNNING then TASK_READY else task_state main_running i)" if "i < 4" for i
    using switch_fields(3) [OF M(1), of 1 i] M(3) that by simp
  have ss: "same_sched (yield main_running) other_running" by (simp add: same_sched_def other_running_def)
  show i: "sched_inv other_running" by (rule same_sched_inv [OF ss Y(1)])
  have st: "task_state other_running i = task_state (switch_tasks 1 main_running) i" if "i < 4" for i
    using Y(3) [OF that] by (simp add: other_running_def)
  show c: "g_current other_running = 1" using Y(2) by (simp add: other_running_def)
  have "task_state other_running 0 = TASK_READY" using st [of 0] S [of 0] M(4) by simp
  moreover have "task_state other_running 2 = TASK_UNUSED" using st [of 2] S [of 2] M(5) by simp
  moreover have "task_state other_running 3 = TASK_UNUSED" using st [of 3] S [of 3] M(6) by simp
  ultimately show "next_ready other_running = Some 0"
    unfolding next_ready_def c by (simp add: Suc_eq_plus1 One_nat_def [symmetric] del: One_nat_def add_Suc_right)
qed

theorem context_preserved_witness: "cpu (yield other_running) = main_cpu"
proof -
  note M = main_running_facts and R = other_running_facts
  have "cpu (yield other_running) = cpu main_running"
  proof (rule context_preserved [where h = yield and h' = yield and m' = other_running])
    show "sched_handler yield" "sched_handler yield" by (simp_all add: sched_handler_def)
    show "g_current (yield other_running) = g_current main_running"
      using yield_current(2) [OF R(1,3)] M(3) by simp
    fix i j :: nat assume ij: "i < 13" "j < 13"
    have "(0x9000 :: u32) - 4 * of_nat (Suc i) = of_nat (0x9000 - 4 * Suc i)"
      "(0x7000 :: u32) - 4 * of_nat (Suc j) = of_nat (0x7000 - 4 * Suc j)"
      using ij by (simp_all add: of_nat_diff)
    then have "unat ((0x9000 :: u32) - 4 * of_nat (Suc i)) = 0x9000 - 4 * Suc i"
      "unat ((0x7000 :: u32) - 4 * of_nat (Suc j)) = 0x7000 - 4 * Suc j"
      by (simp_all only:) (subst unat_of_nat_eq; simp)+
    moreover have "0x7000 - 4 * Suc j < 0x9000 - 4 * Suc i" using ij by simp
    ultimately have "unat ((0x7000 :: u32) - 4 * of_nat (Suc j)) < unat ((0x9000 :: u32) - 4 * of_nat (Suc i))"
      by (simp only:)
    then have "(0x9000 :: u32) - 4 * of_nat (Suc i) \<noteq> 0x7000 - 4 * of_nat (Suc j)"
      using less_irrefl by metis
    then show "r_esp (cpu main_running) - 4 * of_nat (Suc i) \<noteq> r_esp (cpu other_running) - 4 * of_nat (Suc j)"
      by (simp add: main_running_def other_running_def main_cpu_def zero_cpu_def)
  qed (use M R in \<open>simp_all add: other_running_def\<close>)
  then show ?thesis by (simp add: main_running_def)
qed

text \<open>A spawned task starts right. \<open>sched_spawn\<close> leaves on the new stack the frame that the
  handlers pop: switched to for the first time the task is at the trampoline with the entry function
  in EBX, the kernel segments, interrupts enabled and an empty stack of 16 KB inside the heap block.\<close>

theorem spawn_first_run:
  assumes "sched_spawn tr en nm m = (Some k, m')" "length (g_tasks m) = SCHED_MAX_TASKS"
  shows "task_state m k = TASK_UNUSED \<and> task_state m' k = TASK_READY \<and>
    (\<exists>p q. kmalloc_ptr TASK_STACK_SIZE (heap_ptr m) = (Some p, q) \<and>
       cpu (restore_context (t_esp (g_tasks m' ! k)) m') =
         \<lparr>r_eax = 0, r_ecx = 0, r_edx = 0, r_ebx = en, r_esp = heap_base m + p + TASK_STACK_SIZE,
          r_ebp = 0, r_esi = 0, r_edi = 0, r_eip = tr, r_cs = 0x10, r_eflags = 0x202, r_ds = 0x18, r_es = 0x18\<rparr>)"
proof -
  let ?free = "filter (\<lambda>i. task_state m i = TASK_UNUSED) [1..<SCHED_MAX_TASKS]"
  have f: "?free \<noteq> []" using assms(1) by (auto simp: sched_spawn_def Let_def)
  obtain p q where p: "kmalloc_ptr TASK_STACK_SIZE (heap_ptr m) = (Some p, q)"
    using assms(1) f by (cases "kmalloc_ptr TASK_STACK_SIZE (heap_ptr m)" rule: prod.exhaust;
        cases "fst (kmalloc_ptr TASK_STACK_SIZE (heap_ptr m))") (auto simp: sched_spawn_def Let_def)
  let ?top = "heap_base m + p + TASK_STACK_SIZE"
  let ?z = "\<lambda>a. if a - (heap_base m + p) < TASK_STACK_SIZE then 0 else mem m a"
  obtain sp mm where pu: "pushes (spawn_frame tr en) (?top, ?z) = (sp, mm)" by fastforce
  have k: "k = hd ?free" using assms(1) f p pu by (simp add: sched_spawn_def Let_def)
  have "k \<in> set ?free" using f unfolding k by (rule hd_in_set)
  then have k4: "k < 4" "task_state m k = TASK_UNUSED" by auto
  have m': "m' = (upd_task k (\<lambda>_. \<lparr>t_esp = sp, t_state = TASK_READY, t_stack_base = heap_base m + p,
      t_id = of_nat k, t_name = nm, t_ticks = 0\<rparr>) m)\<lparr>heap_ptr := q, mem := mm, g_ntasks := g_ntasks m + 1\<rparr>"
    using assms(1) f p pu k by (simp add: sched_spawn_def Let_def)
  let ?c = "\<lparr>r_eax = 0, r_ecx = 0, r_edx = 0, r_ebx = en, r_esp = ?top,
          r_ebp = 0, r_esi = 0, r_edi = 0, r_eip = tr, r_cs = 0x10, r_eflags = 0x202, r_ds = 0x18, r_es = 0x18\<rparr> :: cpu"
  have "pops 13 (?top - 4 * of_nat 13) mm = rev (spawn_frame tr en)"
  proof (rule pops_frame)
    fix i :: nat assume "i < 13"
    then have "snd (pushes (spawn_frame tr en) (?top, ?z)) (?top - 4 * of_nat (Suc i)) = spawn_frame tr en ! i"
      by (intro pushes_nth) (simp_all add: spawn_frame_def)
    then show "mm (?top - 4 * of_nat (Suc i)) = spawn_frame tr en ! i" unfolding pu snd_conv .
  qed (simp_all add: spawn_frame_def)
  moreover have "sp = ?top - 52" using pushes_sp [of "spawn_frame tr en" ?top ?z] unfolding pu by (simp add: spawn_frame_def)
  ultimately have "cpu (restore_context sp m') = ?c"
    by (simp add: restore_context_def m' spawn_frame_def Let_def)
  then show ?thesis using k4 p assms(2) by (auto simp: m' upd_task_nth)
qed

theorem spawn_first_run_witness:
  "task_state boot_machine 1 = TASK_UNUSED \<and> task_state two_tasks 1 = TASK_READY \<and>
    (\<exists>p q. kmalloc_ptr TASK_STACK_SIZE (heap_ptr boot_machine) = (Some p, q) \<and>
       cpu (restore_context (t_esp (g_tasks two_tasks ! 1)) two_tasks) =
         \<lparr>r_eax = 0, r_ecx = 0, r_edx = 0, r_ebx = 0x6000, r_esp = heap_base boot_machine + p + TASK_STACK_SIZE,
          r_ebp = 0, r_esi = 0, r_edi = 0, r_eip = 0x5000, r_cs = 0x10, r_eflags = 0x202, r_ds = 0x18, r_es = 0x18\<rparr>)"
proof (rule spawn_first_run)
  show "length (g_tasks boot_machine) = SCHED_MAX_TASKS" by (simp add: boot_machine_def sched_init_def)
  have "fst (sched_spawn 0x5000 0x6000 (Some ''a'') boot_machine) = Some 1"
    by (simp add: boot_machine_def sched_spawn_def sched_init_def kmalloc_ptr_def round4_def
        Let_def upt_rec split: prod.split)
  then show "sched_spawn 0x5000 0x6000 (Some ''a'') boot_machine = (Some 1, two_tasks)"
    by (simp add: two_tasks_def prod_eq_iff)
qed

end
