(* ===== verification/Port_Io.thy ===== *)
theory Port_Io
  imports Prelude
begin

text \<open>
  Port-mapped devices. The \<open>in\<close> and \<open>out\<close> instructions act on a device state \<open>'d\<close> that the kernel
  does not see; what they do is a parameter of every driver model. An \<open>in\<close> can change the device
  (a data port, a status register that clears on read), so it returns the new state too.
\<close>

record 'd port_io =
  p_in8 :: "u16 \<Rightarrow> 'd \<Rightarrow> u8 \<times> 'd"
  p_in16 :: "u16 \<Rightarrow> 'd \<Rightarrow> u16 \<times> 'd"
  p_in32 :: "u16 \<Rightarrow> 'd \<Rightarrow> u32 \<times> 'd"
  p_out8 :: "u16 \<Rightarrow> u8 \<Rightarrow> 'd \<Rightarrow> 'd"
  p_out16 :: "u16 \<Rightarrow> u16 \<Rightarrow> 'd \<Rightarrow> 'd"
  p_out32 :: "u16 \<Rightarrow> u32 \<Rightarrow> 'd \<Rightarrow> 'd"

text \<open>A script of byte writes, as the initialisation sequences of the drivers make them.\<close>

fun out8_list :: "('d, 'z) port_io_scheme \<Rightarrow> (u16 \<times> u8) list \<Rightarrow> 'd \<Rightarrow> 'd" where
  "out8_list io [] d = d"
| "out8_list io ((p, v) # ws) d = out8_list io ws (p_out8 io p v d)"

lemma out8_list_append [simp]: "out8_list io (xs @ ys) d = out8_list io ys (out8_list io xs d)"
  by (induction xs arbitrary: d) auto

end
