(* ===== verification/Pci.thy ===== *)
theory Pci
  imports Port_Io
begin

text \<open>
  PCI configuration space (\<open>src/drivers/usb/pci.c\<close>): the address and data ports, and the scan for
  a device of a class.
\<close>

section \<open>Access\<close>

record pci_addr_t =
  pci_bus :: u8
  pci_dev :: u8
  pci_func :: u8

abbreviation PCI_ADDR_PORT :: u16 where "PCI_ADDR_PORT \<equiv> 0xCF8"
abbreviation PCI_DATA_PORT :: u16 where "PCI_DATA_PORT \<equiv> 0xCFC"

definition pci_make_addr :: "pci_addr_t \<Rightarrow> u8 \<Rightarrow> u32" where
  "pci_make_addr a offset =
     push_bit 31 1 OR push_bit 16 (ucast (pci_bus a)) OR push_bit 11 (ucast (pci_dev a))
       OR push_bit 8 (ucast (pci_func a)) OR ucast (offset AND 0xFC)"

definition pci_read32 :: "('d, 'z) port_io_scheme \<Rightarrow> pci_addr_t \<Rightarrow> u8 \<Rightarrow> 'd \<Rightarrow> u32 \<times> 'd" where
  "pci_read32 io addr offset d = p_in32 io PCI_DATA_PORT (p_out32 io PCI_ADDR_PORT (pci_make_addr addr offset) d)"

definition pci_read16 :: "('d, 'z) port_io_scheme \<Rightarrow> pci_addr_t \<Rightarrow> u8 \<Rightarrow> 'd \<Rightarrow> u16 \<times> 'd" where
  "pci_read16 io addr offset d =
     p_in16 io (PCI_DATA_PORT + ucast (offset AND 2)) (p_out32 io PCI_ADDR_PORT (pci_make_addr addr offset) d)"

definition pci_read8 :: "('d, 'z) port_io_scheme \<Rightarrow> pci_addr_t \<Rightarrow> u8 \<Rightarrow> 'd \<Rightarrow> u8 \<times> 'd" where
  "pci_read8 io addr offset d =
     p_in8 io (PCI_DATA_PORT + ucast (offset AND 3)) (p_out32 io PCI_ADDR_PORT (pci_make_addr addr offset) d)"

definition pci_write32 :: "('d, 'z) port_io_scheme \<Rightarrow> pci_addr_t \<Rightarrow> u8 \<Rightarrow> u32 \<Rightarrow> 'd \<Rightarrow> 'd" where
  "pci_write32 io addr offset v d =
     p_out32 io PCI_DATA_PORT v (p_out32 io PCI_ADDR_PORT (pci_make_addr addr offset) d)"

definition pci_write16 :: "('d, 'z) port_io_scheme \<Rightarrow> pci_addr_t \<Rightarrow> u8 \<Rightarrow> u16 \<Rightarrow> 'd \<Rightarrow> 'd" where
  "pci_write16 io addr offset v d =
     p_out16 io (PCI_DATA_PORT + ucast (offset AND 2)) v (p_out32 io PCI_ADDR_PORT (pci_make_addr addr offset) d)"

definition pci_write8 :: "('d, 'z) port_io_scheme \<Rightarrow> pci_addr_t \<Rightarrow> u8 \<Rightarrow> u8 \<Rightarrow> 'd \<Rightarrow> 'd" where
  "pci_write8 io addr offset v d =
     p_out8 io (PCI_DATA_PORT + ucast (offset AND 3)) v (p_out32 io PCI_ADDR_PORT (pci_make_addr addr offset) d)"

section \<open>The scan\<close>

text \<open>The class registers of one function, tested as the scan tests them.\<close>

definition class_match ::
  "('d, 'z) port_io_scheme \<Rightarrow> u8 \<Rightarrow> u8 \<Rightarrow> u8 \<Rightarrow> pci_addr_t \<Rightarrow> 'd \<Rightarrow> bool \<times> 'd" where
  "class_match io class_code subclass prog_if a d =
     (let (cc, d1) = pci_read8 io a 0x0B d;
          (sc, d2) = pci_read8 io a 0x0A d1;
          (pi, d3) = pci_read8 io a 0x09 d2
      in (cc = class_code \<and> sc = subclass \<and> (prog_if = 0xFF \<or> pi = prog_if), d3))"

text \<open>The three nested loops; the header type of function 0 ends the innermost one early.\<close>

fun scan_funcs ::
  "('d, 'z) port_io_scheme \<Rightarrow> u8 \<Rightarrow> u8 \<Rightarrow> u8 \<Rightarrow> u8 \<Rightarrow> u8 \<Rightarrow> u8 list \<Rightarrow> 'd \<Rightarrow> pci_addr_t option \<times> 'd" where
  "scan_funcs io cl sub pif bus dev [] d = (None, d)"
| "scan_funcs io cl sub pif bus dev (func # fs) d =
     (let a = \<lparr>pci_bus = bus, pci_dev = dev, pci_func = func\<rparr>;
          (vendor, d1) = pci_read16 io a 0x00 d
      in if vendor = 0xFFFF then scan_funcs io cl sub pif bus dev fs d1
         else let (hit, d2) = class_match io cl sub pif a d1
              in if hit then (Some a, d2)
                 else if func = 0
                 then let (hdr, d3) = pci_read8 io a 0x0E d2
                      in if hdr AND 0x80 = 0 then (None, d3)
                         else scan_funcs io cl sub pif bus dev fs d3
                 else scan_funcs io cl sub pif bus dev fs d2)"

fun scan_devs ::
  "('d, 'z) port_io_scheme \<Rightarrow> u8 \<Rightarrow> u8 \<Rightarrow> u8 \<Rightarrow> u8 \<Rightarrow> u8 list \<Rightarrow> 'd \<Rightarrow> pci_addr_t option \<times> 'd" where
  "scan_devs io cl sub pif bus [] d = (None, d)"
| "scan_devs io cl sub pif bus (dev # ds) d =
     (case scan_funcs io cl sub pif bus dev (map of_nat [0..<8]) d of
        (Some a, d1) \<Rightarrow> (Some a, d1)
      | (None, d1) \<Rightarrow> scan_devs io cl sub pif bus ds d1)"

fun scan_buses ::
  "('d, 'z) port_io_scheme \<Rightarrow> u8 \<Rightarrow> u8 \<Rightarrow> u8 \<Rightarrow> u8 list \<Rightarrow> 'd \<Rightarrow> pci_addr_t option \<times> 'd" where
  "scan_buses io cl sub pif [] d = (None, d)"
| "scan_buses io cl sub pif (bus # bs) d =
     (case scan_devs io cl sub pif bus (map of_nat [0..<32]) d of
        (Some a, d1) \<Rightarrow> (Some a, d1)
      | (None, d1) \<Rightarrow> scan_buses io cl sub pif bs d1)"

definition pci_find_device ::
  "('d, 'z) port_io_scheme \<Rightarrow> u8 \<Rightarrow> u8 \<Rightarrow> u8 \<Rightarrow> 'd \<Rightarrow> pci_addr_t option \<times> 'd" where
  "pci_find_device io class_code subclass prog_if d =
     scan_buses io class_code subclass prog_if (map of_nat [0..<256]) d"

section \<open>Setting a device up\<close>

definition pci_enable_device :: "('d, 'z) port_io_scheme \<Rightarrow> pci_addr_t \<Rightarrow> 'd \<Rightarrow> 'd" where
  "pci_enable_device io addr d =
     (let (cmd, d1) = pci_read16 io addr 0x04 d in pci_write16 io addr 0x04 (cmd OR (1 OR 2 OR 4)) d1)"

definition pci_get_bar_io :: "('d, 'z) port_io_scheme \<Rightarrow> pci_addr_t \<Rightarrow> u8 \<Rightarrow> 'd \<Rightarrow> u16 \<times> 'd" where
  "pci_get_bar_io io addr bar_index d =
     (if bar_index > 5 then (0, d)
      else let (bar, d1) = pci_read32 io addr (0x10 + bar_index * 4) d
           in if bar AND 1 = 0 then (0, d1) else (ucast (bar AND 0xFFFC), d1))"

section \<open>The configuration mechanism\<close>

text \<open>
  What the host bridge promises (PCI configuration mechanism 1): with the enable bit set, a read of
  the data port returns the bytes of the register that the last address selects. \<open>cfg\<close> is the
  configuration space, by bus, device, function and register.
\<close>

definition addr_bus :: "u32 \<Rightarrow> u8" where "addr_bus w = ucast (drop_bit 16 w)"
definition addr_dev :: "u32 \<Rightarrow> u8" where "addr_dev w = ucast (drop_bit 11 w AND 31)"
definition addr_func :: "u32 \<Rightarrow> u8" where "addr_func w = ucast (drop_bit 8 w AND 7)"
definition addr_reg :: "u32 \<Rightarrow> u8" where "addr_reg w = ucast (w AND 0xFC)"

definition cfg_at :: "(u8 \<Rightarrow> u8 \<Rightarrow> u8 \<Rightarrow> u8 \<Rightarrow> u8) \<Rightarrow> u32 \<Rightarrow> u8 \<Rightarrow> u8" where
  "cfg_at cfg w k = cfg (addr_bus w) (addr_dev w) (addr_func w) (addr_reg w + k)"

definition config_mechanism :: "('d, 'z) port_io_scheme \<Rightarrow> (u8 \<Rightarrow> u8 \<Rightarrow> u8 \<Rightarrow> u8 \<Rightarrow> u8) \<Rightarrow> bool" where
  "config_mechanism io cfg \<longleftrightarrow>
     (\<forall>w d. bit w 31 \<longrightarrow>
       (\<forall>k < 4. fst (p_in8 io (PCI_DATA_PORT + ucast k) (p_out32 io PCI_ADDR_PORT w d)) = cfg_at cfg w k) \<and>
       (\<forall>k \<in> {0, 2}. fst (p_in16 io (PCI_DATA_PORT + ucast k) (p_out32 io PCI_ADDR_PORT w d)) =
          of_le16 (cfg_at cfg w k) (cfg_at cfg w (k + 1))) \<and>
       fst (p_in32 io PCI_DATA_PORT (p_out32 io PCI_ADDR_PORT w d)) =
          of_le32 (cfg_at cfg w 0) (cfg_at cfg w 1) (cfg_at cfg w 2) (cfg_at cfg w 3))"

definition valid_addr :: "pci_addr_t \<Rightarrow> bool" where
  "valid_addr a \<longleftrightarrow> pci_dev a < 32 \<and> pci_func a < 8"

lemma low_bits:
  assumes "w < 2 ^ k" "bit (w :: 'a::len word) n"
  shows "n < k"
proof -
  have "w AND mask k = w" using assms(1) by (rule less_mask_eq)
  then have "bit (w AND mask k) n" using assms(2) by simp
  then show ?thesis by (simp add: bit_and_iff bit_mask_iff)
qed

lemma reg_mask: "bit (0xFC :: u8) n \<longleftrightarrow> 2 \<le> n \<and> n < 8" "bit (0xFC :: u32) n \<longleftrightarrow> 2 \<le> n \<and> n < 8"
proof -
  have "(0xFC :: u8) = push_bit 2 (mask 6)" "(0xFC :: u32) = push_bit 2 (mask 6)"
    by (simp_all add: mask_eq_exp_minus_1)
  then show "bit (0xFC :: u8) n \<longleftrightarrow> 2 \<le> n \<and> n < 8" "bit (0xFC :: u32) n \<longleftrightarrow> 2 \<le> n \<and> n < 8"
    by (simp_all only: bit_simps) auto
qed

lemma make_addr_bit:
  assumes "valid_addr a" "n < 32"
  shows "bit (pci_make_addr a off) n \<longleftrightarrow> (if n = 31 then True
     else if 16 \<le> n then n < 24 \<and> bit (pci_bus a) (n - 16)
     else if 11 \<le> n then bit (pci_dev a) (n - 11)
     else if 8 \<le> n then bit (pci_func a) (n - 8)
     else 2 \<le> n \<and> bit off n)"
proof -
  have d: "bit (pci_dev a) k \<Longrightarrow> k < 5" and f: "bit (pci_func a) k \<Longrightarrow> k < 3" for k
    using assms(1) low_bits [of "pci_dev a" 5 k] low_bits [of "pci_func a" 3 k] by (simp_all add: valid_addr_def)
  have b: "bit (w :: u8) k \<Longrightarrow> k < 8" for w k by (drule bit_imp_le_length) simp
  have e: "bit (pci_make_addr a off) n \<longleftrightarrow> n = 31 \<or> (16 \<le> n \<and> bit (pci_bus a) (n - 16)) \<or>
      (11 \<le> n \<and> bit (pci_dev a) (n - 11)) \<or> (8 \<le> n \<and> bit (pci_func a) (n - 8)) \<or>
      (bit off n \<and> 2 \<le> n \<and> n < 8)"
    unfolding pci_make_addr_def bit_or_iff bit_push_bit_iff bit_unsigned_iff bit_and_iff reg_mask bit_1_iff
    using assms(2) by (cases "n = 31") auto
  show ?thesis unfolding e using d [of "n - 11"] f [of "n - 8"] b [of "pci_bus a" "n - 16"] by auto
qed

lemma make_addr_fields:
  assumes "valid_addr a"
  shows "addr_bus (pci_make_addr a off) = pci_bus a" "addr_dev (pci_make_addr a off) = pci_dev a"
    "addr_func (pci_make_addr a off) = pci_func a" "addr_reg (pci_make_addr a off) = off AND 0xFC"
    "bit (pci_make_addr a off) 31"
proof -
  note B = make_addr_bit [OF assms]
  have m: "(31 :: u32) = mask 5" "(7 :: u32) = mask 3" by (simp_all add: mask_eq_exp_minus_1)
  have d: "bit (pci_dev a) k \<Longrightarrow> k < 5" and f: "bit (pci_func a) k \<Longrightarrow> k < 3" for k
    using assms low_bits [of "pci_dev a" 5 k] low_bits [of "pci_func a" 3 k] by (simp_all add: valid_addr_def)
  show "bit (pci_make_addr a off) 31" using B by simp
  show "addr_bus (pci_make_addr a off) = pci_bus a"
    by (rule bit_word_eqI) (simp add: addr_bus_def bit_ucast_iff bit_drop_bit_eq B)
  show "addr_dev (pci_make_addr a off) = pci_dev a"
    by (rule bit_word_eqI) (auto simp: addr_dev_def m(1) bit_ucast_iff bit_drop_bit_eq bit_and_iff bit_mask_iff B dest: d)
  show "addr_func (pci_make_addr a off) = pci_func a"
    by (rule bit_word_eqI) (auto simp: addr_func_def m(2) bit_ucast_iff bit_drop_bit_eq bit_and_iff bit_mask_iff B dest: f)
  show "addr_reg (pci_make_addr a off) = off AND 0xFC"
    by (rule bit_word_eqI) (auto simp only: addr_reg_def bit_ucast_iff bit_and_iff reg_mask B; auto simp: B)
qed

section \<open>What the scan sees\<close>

definition cfg_vendor :: "(u8 \<Rightarrow> u8 \<Rightarrow> u8 \<Rightarrow> u8 \<Rightarrow> u8) \<Rightarrow> pci_addr_t \<Rightarrow> u16" where
  "cfg_vendor cfg a =
     of_le16 (cfg (pci_bus a) (pci_dev a) (pci_func a) 0) (cfg (pci_bus a) (pci_dev a) (pci_func a) 1)"

definition cfg_byte :: "(u8 \<Rightarrow> u8 \<Rightarrow> u8 \<Rightarrow> u8 \<Rightarrow> u8) \<Rightarrow> pci_addr_t \<Rightarrow> u8 \<Rightarrow> u8" where
  "cfg_byte cfg a r = cfg (pci_bus a) (pci_dev a) (pci_func a) r"

definition cfg_class :: "(u8 \<Rightarrow> u8 \<Rightarrow> u8 \<Rightarrow> u8 \<Rightarrow> u8) \<Rightarrow> u8 \<Rightarrow> u8 \<Rightarrow> u8 \<Rightarrow> pci_addr_t \<Rightarrow> bool" where
  "cfg_class cfg cl sub pif a \<longleftrightarrow> cfg_byte cfg a 0x0B = cl \<and> cfg_byte cfg a 0x0A = sub \<and>
     (pif = 0xFF \<or> cfg_byte cfg a 0x09 = pif)"

text \<open>A device answers on the functions it has; only function 0 counts when it is single-function.\<close>

definition funcs_present :: "(u8 \<Rightarrow> u8 \<Rightarrow> u8 \<Rightarrow> u8 \<Rightarrow> u8) \<Rightarrow> u8 \<Rightarrow> u8 \<Rightarrow> pci_addr_t list" where
  "funcs_present cfg b d =
     (let a = (\<lambda>f. \<lparr>pci_bus = b, pci_dev = d, pci_func = f\<rparr>);
          single = (cfg_vendor cfg (a 0) \<noteq> 0xFFFF \<and> cfg_byte cfg (a 0) 0x0E AND 0x80 = 0)
      in filter (\<lambda>x. cfg_vendor cfg x \<noteq> 0xFFFF) (map a (if single then [0] else map of_nat [0..<8])))"

definition all_functions :: "(u8 \<Rightarrow> u8 \<Rightarrow> u8 \<Rightarrow> u8 \<Rightarrow> u8) \<Rightarrow> pci_addr_t list" where
  "all_functions cfg = concat (map (\<lambda>b. concat (map (funcs_present cfg b) (map of_nat [0..<32]))) (map of_nat [0..<256]))"

lemma mech_reads:
  assumes "config_mechanism io cfg" "valid_addr a"
  shows "fst (pci_read16 io a 0 d) = cfg_vendor cfg a"
    "r \<in> {0x09, 0x0A, 0x0B, 0x0E} \<Longrightarrow> fst (pci_read8 io a r d) = cfg_byte cfg a r"
proof -
  note F = make_addr_fields [OF assms(2)]
  have m8: "fst (p_in8 io (PCI_DATA_PORT + ucast k) (p_out32 io PCI_ADDR_PORT w d)) = cfg_at cfg w k"
    if "bit w 31" "k < 4" for w k d using assms(1) that by (simp add: config_mechanism_def)
  have m16: "fst (p_in16 io (PCI_DATA_PORT + ucast k) (p_out32 io PCI_ADDR_PORT w d)) =
      of_le16 (cfg_at cfg w k) (cfg_at cfg w (k + 1))"
    if "bit w 31" "k \<in> {0, 2}" for w k d using assms(1) that unfolding config_mechanism_def by blast
  show "fst (pci_read16 io a 0 d) = cfg_vendor cfg a"
    using m16 [OF F(5), of 0] by (simp add: pci_read16_def cfg_vendor_def cfg_at_def F(1-4))
  show "fst (pci_read8 io a r d) = cfg_byte cfg a r" if r: "r \<in> {0x09, 0x0A, 0x0B, 0x0E}"
  proof -
    have "r AND 3 < 4" "(r AND 0xFC) + (r AND 3) = r" using r by auto
    then show ?thesis using m8 [OF F(5), of "r AND 3"] by (simp add: pci_read8_def cfg_byte_def cfg_at_def F(1-4))
  qed
qed

lemma class_match_cfg:
  assumes "config_mechanism io cfg" "valid_addr a"
  shows "fst (class_match io cl sub pif a d) = cfg_class cfg cl sub pif a"
  using mech_reads(2) [OF assms]
  by (simp add: class_match_def cfg_class_def Let_def split: prod.split) (metis fst_conv insertCI)

lemma scan_funcs_cfg:
  assumes "config_mechanism io cfg" "dev < 32" "\<forall>f \<in> set fs. f < 8"
    and "\<And>a. a = \<lparr>pci_bus = bus, pci_dev = dev, pci_func = 0\<rparr> \<Longrightarrow> cfg_vendor cfg a \<noteq> 0xFFFF \<Longrightarrow>
      0 \<in> set fs \<Longrightarrow> cfg_byte cfg a 0x0E AND 0x80 \<noteq> 0"
  shows "fst (scan_funcs io cl sub pif bus dev fs d) =
    List.find (cfg_class cfg cl sub pif) (filter (\<lambda>x. cfg_vendor cfg x \<noteq> 0xFFFF)
      (map (\<lambda>f. \<lparr>pci_bus = bus, pci_dev = dev, pci_func = f\<rparr>) fs))"
  using assms(3,4)
proof (induction fs arbitrary: d)
  case (Cons f fs)
  let ?a = "\<lparr>pci_bus = bus, pci_dev = dev, pci_func = f\<rparr>"
  have v: "valid_addr ?a" using Cons.prems(1) assms(2) by (simp add: valid_addr_def)
  obtain d1 where r: "pci_read16 io ?a 0 d = (cfg_vendor cfg ?a, d1)"
    using mech_reads(1) [OF assms(1) v, of d] by (cases "pci_read16 io ?a 0 d") simp
  obtain d2 where c: "class_match io cl sub pif ?a d1 = (cfg_class cfg cl sub pif ?a, d2)"
    using class_match_cfg [OF assms(1) v, of cl sub pif d1] by (cases "class_match io cl sub pif ?a d1") simp
  obtain d3 where h: "pci_read8 io ?a 0x0E d2 = (cfg_byte cfg ?a 0x0E, d3)"
    using mech_reads(2) [OF assms(1) v, of "0x0E" d2] by (cases "pci_read8 io ?a 0x0E d2") simp
  have IH: "fst (scan_funcs io cl sub pif bus dev fs d) =
    List.find (cfg_class cfg cl sub pif) (filter (\<lambda>x. cfg_vendor cfg x \<noteq> 0xFFFF)
      (map (\<lambda>f. \<lparr>pci_bus = bus, pci_dev = dev, pci_func = f\<rparr>) fs))" for d
    using Cons.IH [of d] Cons.prems by simp
  have m: "f = 0 \<Longrightarrow> cfg_vendor cfg ?a \<noteq> 0xFFFF \<Longrightarrow> cfg_byte cfg ?a 0x0E AND 0x80 \<noteq> 0"
    using Cons.prems(2) [of ?a] by simp
  show ?case
  proof (cases "f = 0")
    case True
    with m show ?thesis by (simp add: Let_def r c h [unfolded True] r [unfolded True] c [unfolded True] IH)
  next
    case False
    then show ?thesis by (simp add: Let_def r c IH)
  qed
qed simp

lemma scan_single:
  assumes "config_mechanism io cfg" "dev < 32" "a = \<lparr>pci_bus = bus, pci_dev = dev, pci_func = 0\<rparr>"
    and "cfg_vendor cfg a \<noteq> 0xFFFF" "cfg_byte cfg a 0x0E AND 0x80 = 0"
  shows "fst (scan_funcs io cl sub pif bus dev (0 # fs) d) = (if cfg_class cfg cl sub pif a then Some a else None)"
proof -
  have v: "valid_addr a" using assms(2,3) by (simp add: valid_addr_def)
  obtain d1 where r: "pci_read16 io a 0 d = (cfg_vendor cfg a, d1)"
    using mech_reads(1) [OF assms(1) v, of d] by (cases "pci_read16 io a 0 d") simp
  obtain d2 where c: "class_match io cl sub pif a d1 = (cfg_class cfg cl sub pif a, d2)"
    using class_match_cfg [OF assms(1) v, of cl sub pif d1] by (cases "class_match io cl sub pif a d1") simp
  obtain d3 where h: "pci_read8 io a 0x0E d2 = (cfg_byte cfg a 0x0E, d3)"
    using mech_reads(2) [OF assms(1) v, of "0x0E" d2] by (cases "pci_read8 io a 0x0E d2") simp
  show ?thesis using assms(4,5) by (simp add: Let_def r c h assms(3) [symmetric])
qed

lemma find_append: "List.find P (xs @ ys) = (case List.find P xs of Some x \<Rightarrow> Some x | None \<Rightarrow> List.find P ys)"
  by (induction xs) auto

lemma scan_funcs_all:
  assumes "config_mechanism io cfg" "dev < 32"
  shows "fst (scan_funcs io cl sub pif bus dev (map of_nat [0..<8]) d) =
    List.find (cfg_class cfg cl sub pif) (funcs_present cfg bus dev)"
proof -
  let ?a = "\<lparr>pci_bus = bus, pci_dev = dev, pci_func = 0\<rparr>"
  have u: "(map of_nat [0..<8] :: u8 list) = 0 # map of_nat [1..<8]" by (simp add: upt_rec)
  have l8: "\<forall>f \<in> set (map of_nat [0..<8] :: u8 list). f < 8" by (auto simp: word_less_nat_alt unat_of_nat_eq)
  show ?thesis
  proof (cases "cfg_vendor cfg ?a \<noteq> 0xFFFF \<and> cfg_byte cfg ?a 0x0E AND 0x80 = 0")
    case True
    then show ?thesis unfolding u
      by (subst scan_single [OF assms refl]) (simp_all add: funcs_present_def Let_def)
  next
    case False
    show ?thesis
      by (subst scan_funcs_cfg [OF assms l8]) (use False in \<open>auto simp: funcs_present_def Let_def\<close>)
  qed
qed

lemma scan_devs_cfg:
  assumes "config_mechanism io cfg" "\<forall>x \<in> set ds. x < 32"
  shows "fst (scan_devs io cl sub pif bus ds d) =
    List.find (cfg_class cfg cl sub pif) (concat (map (funcs_present cfg bus) ds))"
  using assms(2)
proof (induction ds arbitrary: d)
  case (Cons x ds)
  obtain r d1 where s: "scan_funcs io cl sub pif bus x (map of_nat [0..<8]) d = (r, d1)" by fastforce
  then have "r = List.find (cfg_class cfg cl sub pif) (funcs_present cfg bus x)"
    using scan_funcs_all [OF assms(1), of x cl sub pif bus d] Cons.prems by simp
  then show ?case using Cons s by (simp add: find_append split: option.split)
qed simp

lemma scan_buses_cfg:
  assumes "config_mechanism io cfg"
  shows "fst (scan_buses io cl sub pif bs d) = List.find (cfg_class cfg cl sub pif)
    (concat (map (\<lambda>b. concat (map (funcs_present cfg b) (map of_nat [0..<32]))) bs))"
proof (induction bs arbitrary: d)
  case (Cons b bs)
  have l: "\<forall>f \<in> set (map of_nat [0..<32] :: u8 list). f < 32" by (auto simp: word_less_nat_alt unat_of_nat_eq)
  obtain r d1 where s: "scan_devs io cl sub pif b (map of_nat [0..<32]) d = (r, d1)" by fastforce
  then have "r = List.find (cfg_class cfg cl sub pif) (concat (map (funcs_present cfg b) (map of_nat [0..<32])))"
    using scan_devs_cfg [OF assms l, of cl sub pif b d] by simp
  then show ?case using Cons s by (simp add: find_append split: option.split)
qed simp

section \<open>Properties\<close>

text \<open>On a host bridge with configuration mechanism 1, the address word selects the register
  meant, and \<open>pci_find_device\<close> returns the first function, in the order of bus, device and function,
  whose class registers match; it misses none and never returns an absent function.\<close>

theorem pci_find_device_first:
  assumes "config_mechanism io cfg"
  shows "fst (pci_find_device io class_code subclass prog_if d) =
    List.find (cfg_class cfg class_code subclass prog_if) (all_functions cfg)"
  by (simp only: pci_find_device_def all_functions_def scan_buses_cfg [OF assms])

text \<open>A bridge that only latches the address, and a space with one UHCI controller at 0:1.2.\<close>

definition sample_cfg :: "u8 \<Rightarrow> u8 \<Rightarrow> u8 \<Rightarrow> u8 \<Rightarrow> u8" where
  "sample_cfg b d f r =
     (if b = 0 \<and> d = 1 \<and> (f = 0 \<or> f = 2)
      then (if r = 0x0E then 0x80 else if r = 0x0B then (if f = 0 then 6 else 0x0C)
            else if r = 0x0A then (if f = 0 then 1 else 3) else if r = 0x09 then 0 else 0x86)
      else 0xFF)"

definition sample_bridge :: "u32 port_io" where
  "sample_bridge =
     \<lparr>p_in8 = (\<lambda>p w. (cfg_at sample_cfg w (ucast (p - PCI_DATA_PORT)), w)),
      p_in16 = (\<lambda>p w. (of_le16 (cfg_at sample_cfg w (ucast (p - PCI_DATA_PORT)))
                               (cfg_at sample_cfg w (ucast (p - PCI_DATA_PORT) + 1)), w)),
      p_in32 = (\<lambda>p w. (of_le32 (cfg_at sample_cfg w 0) (cfg_at sample_cfg w 1)
                               (cfg_at sample_cfg w 2) (cfg_at sample_cfg w 3), w)),
      p_out8 = (\<lambda>p v w. w), p_out16 = (\<lambda>p v w. w),
      p_out32 = (\<lambda>p v w. if p = PCI_ADDR_PORT then v else w)\<rparr>"

lemma sample_bridge_mechanism: "config_mechanism sample_bridge sample_cfg"
proof -
  have "ucast (ucast k :: u16) = k" for k :: u8 by (rule bit_word_eqI) (simp add: bit_simps)
  then show ?thesis by (simp add: config_mechanism_def sample_bridge_def)
qed

theorem pci_find_device_first_witness:
  "fst (pci_find_device sample_bridge 0x0C 3 0 0) =
    List.find (cfg_class sample_cfg 0x0C 3 0) (all_functions sample_cfg)"
  by (rule pci_find_device_first [OF sample_bridge_mechanism])

end
