(* ===== verification/Uhci.thy ===== *)
theory Uhci
  imports Pci Mm
begin

text \<open>
  The UHCI host controller driver (\<open>src/drivers/usb/uhci.c\<close>): transfer descriptors, queue heads,
  the frame list, synchronous control transfers and periodic polling.

  The structures the controller shares with the driver (\<open>dma\<close>) are typed stores: each descriptor
  lies in a block of its own of the bump allocator, so a store through one pointer never reaches
  another object. The controller works while the driver waits: each read of the millisecond clock
  lets it run on the shared memory (\<open>hc_time\<close>).
\<close>

section \<open>Data\<close>

record uhci_td_t =
  td_link :: u32
  td_status :: u32
  td_token :: u32
  td_buffer :: u32
  td_sw_next :: u32
  td_sw_buf_virt :: u32

record uhci_qh_t =
  qh_link :: u32
  qh_element :: u32

record uhci_ctrl_t =
  uc_iobase :: u16
  uc_pci :: pci_addr_t
  uc_frame_list :: u32
  uc_port_count :: u8
  uc_port_connected :: "bool list"
  uc_port_speed :: "u8 list"

record dma =
  tds :: "u32 \<Rightarrow> uhci_td_t"
  qhs :: "u32 \<Rightarrow> uhci_qh_t"
  frames :: "u32 list"
  ubytes :: "u32 \<Rightarrow> u8"

record 'd hc_env = "'d port_io" +
  hc_time :: "dma \<Rightarrow> 'd \<Rightarrow> u32 \<times> dma \<times> 'd"

record 'd uhci =
  ram :: dma
  hw :: 'd
  uheap_base :: u32
  uheap_ptr :: u32
  g_uhci :: uhci_ctrl_t
  g_uhci_ready :: bool

abbreviation UHCI_USBCMD :: u8 where "UHCI_USBCMD \<equiv> 0x00"
abbreviation UHCI_USBSTS :: u8 where "UHCI_USBSTS \<equiv> 0x02"
abbreviation UHCI_USBINTR :: u8 where "UHCI_USBINTR \<equiv> 0x04"
abbreviation UHCI_FRNUM :: u8 where "UHCI_FRNUM \<equiv> 0x06"
abbreviation UHCI_FLBASEADD :: u8 where "UHCI_FLBASEADD \<equiv> 0x08"
abbreviation UHCI_SOFMOD :: u8 where "UHCI_SOFMOD \<equiv> 0x0C"
abbreviation UHCI_LP_TERMINATE :: u32 where "UHCI_LP_TERMINATE \<equiv> 1"
abbreviation UHCI_LP_QH :: u32 where "UHCI_LP_QH \<equiv> 2"
abbreviation UHCI_LP_DEPTH :: u32 where "UHCI_LP_DEPTH \<equiv> 4"
abbreviation UHCI_FRAME_COUNT :: nat where "UHCI_FRAME_COUNT \<equiv> 1024"

abbreviation TD_STS_ACTIVE :: u32 where "TD_STS_ACTIVE \<equiv> 0x800000"
abbreviation TD_STS_IOC :: u32 where "TD_STS_IOC \<equiv> 0x1000000"
abbreviation TD_STS_LS :: u32 where "TD_STS_LS \<equiv> 0x4000000"
abbreviation TD_STS_SPD :: u32 where "TD_STS_SPD \<equiv> 0x20000000"

definition TD_STS_ERRCNT :: "u32 \<Rightarrow> u32" where
  "TD_STS_ERRCNT n = push_bit 27 (n AND 3)"

abbreviation USB_PID_SETUP :: u8 where "USB_PID_SETUP \<equiv> 0x2D"
abbreviation USB_PID_IN :: u8 where "USB_PID_IN \<equiv> 0x69"
abbreviation USB_PID_OUT :: u8 where "USB_PID_OUT \<equiv> 0xE1"

definition TD_TOKEN_PID :: "u8 \<Rightarrow> u32" where "TD_TOKEN_PID p = ucast p AND 0xFF"
definition TD_TOKEN_DEVADDR :: "u8 \<Rightarrow> u32" where "TD_TOKEN_DEVADDR a = push_bit 8 (ucast a AND 0x7F)"
definition TD_TOKEN_ENDPT :: "u8 \<Rightarrow> u32" where "TD_TOKEN_ENDPT e = push_bit 15 (ucast e AND 0x0F)"
definition TD_TOKEN_TOGGLE :: "u8 \<Rightarrow> u32" where "TD_TOKEN_TOGGLE t = push_bit 19 (ucast t AND 1)"
definition TD_TOKEN_MAXLEN :: "u16 \<Rightarrow> u32" where "TD_TOKEN_MAXLEN n = push_bit 21 ((ucast n - 1) AND 0x7FF)"
definition TD_TOKEN_MAXLEN0 :: u32 where "TD_TOKEN_MAXLEN0 = push_bit 21 0x7FF"

definition td_token_of :: "u8 \<Rightarrow> u8 \<Rightarrow> u8 \<Rightarrow> u8 \<Rightarrow> u32 \<Rightarrow> u32" where
  "td_token_of pid dev_addr endpt toggle maxlen =
     TD_TOKEN_PID pid OR TD_TOKEN_DEVADDR dev_addr OR TD_TOKEN_ENDPT endpt OR TD_TOKEN_TOGGLE toggle OR maxlen"

section \<open>State access\<close>

definition timer_read :: "'d hc_env \<Rightarrow> ('d, 'z) uhci_scheme \<Rightarrow> u32 \<times> ('d, 'z) uhci_scheme" where
  "timer_read E s = (let (t, r, d) = hc_time E (ram s) (hw s) in (t, s\<lparr>ram := r, hw := d\<rparr>))"

definition upd_td :: "u32 \<Rightarrow> (uhci_td_t \<Rightarrow> uhci_td_t) \<Rightarrow> ('d, 'z) uhci_scheme \<Rightarrow> ('d, 'z) uhci_scheme" where
  "upd_td a f s = s\<lparr>ram := (ram s)\<lparr>tds := (tds (ram s))(a := f (tds (ram s) a))\<rparr>\<rparr>"

definition upd_qh :: "u32 \<Rightarrow> (uhci_qh_t \<Rightarrow> uhci_qh_t) \<Rightarrow> ('d, 'z) uhci_scheme \<Rightarrow> ('d, 'z) uhci_scheme" where
  "upd_qh a f s = s\<lparr>ram := (ram s)\<lparr>qhs := (qhs (ram s))(a := f (qhs (ram s) a))\<rparr>\<rparr>"

definition set_frame :: "nat \<Rightarrow> u32 \<Rightarrow> ('d, 'z) uhci_scheme \<Rightarrow> ('d, 'z) uhci_scheme" where
  "set_frame i v s = s\<lparr>ram := (ram s)\<lparr>frames := (frames (ram s))[i := v]\<rparr>\<rparr>"

definition put_bytes :: "u32 \<Rightarrow> bytes \<Rightarrow> ('d, 'z) uhci_scheme \<Rightarrow> ('d, 'z) uhci_scheme" where
  "put_bytes a bs s = s\<lparr>ram := (ram s)\<lparr>ubytes := (\<lambda>x. if unat (x - a) < length bs then bs ! unat (x - a)
                                                       else ubytes (ram s) x)\<rparr>\<rparr>"

definition get_byte :: "u32 \<Rightarrow> ('d, 'z) uhci_scheme \<Rightarrow> u8" where
  "get_byte a s = ubytes (ram s) a"

definition usb_kmalloc :: "u32 \<Rightarrow> ('d, 'z) uhci_scheme \<Rightarrow> u32 option \<times> ('d, 'z) uhci_scheme" where
  "usb_kmalloc n s =
     (case kmalloc_ptr n (uheap_ptr s) of
        (None, _) \<Rightarrow> (None, s)
      | (Some p, q) \<Rightarrow> (Some (uheap_base s + p),
          put_bytes (uheap_base s + p) (replicate (unat (round4 n)) 0) (s\<lparr>uheap_ptr := q\<rparr>)))"

definition uhci_rd16 :: "'d hc_env \<Rightarrow> u16 \<Rightarrow> u8 \<Rightarrow> ('d, 'z) uhci_scheme \<Rightarrow> u16 \<times> ('d, 'z) uhci_scheme" where
  "uhci_rd16 E base reg s = (let (v, d) = p_in16 E (base + ucast reg) (hw s) in (v, s\<lparr>hw := d\<rparr>))"

definition uhci_wr16 :: "'d hc_env \<Rightarrow> u16 \<Rightarrow> u8 \<Rightarrow> u16 \<Rightarrow> ('d, 'z) uhci_scheme \<Rightarrow> ('d, 'z) uhci_scheme" where
  "uhci_wr16 E base reg v s = s\<lparr>hw := p_out16 E (base + ucast reg) v (hw s)\<rparr>"

definition uhci_rd32 :: "'d hc_env \<Rightarrow> u16 \<Rightarrow> u8 \<Rightarrow> ('d, 'z) uhci_scheme \<Rightarrow> u32 \<times> ('d, 'z) uhci_scheme" where
  "uhci_rd32 E base reg s = (let (v, d) = p_in32 E (base + ucast reg) (hw s) in (v, s\<lparr>hw := d\<rparr>))"

definition uhci_wr32 :: "'d hc_env \<Rightarrow> u16 \<Rightarrow> u8 \<Rightarrow> u32 \<Rightarrow> ('d, 'z) uhci_scheme \<Rightarrow> ('d, 'z) uhci_scheme" where
  "uhci_wr32 E base reg v s = s\<lparr>hw := p_out32 E (base + ucast reg) v (hw s)\<rparr>"

section \<open>Waiting\<close>

partial_function (option) wait_until ::
  "'d hc_env \<Rightarrow> u32 \<Rightarrow> ('d, 'z) uhci_scheme \<Rightarrow> ('d, 'z) uhci_scheme option" where
  "wait_until E stop s =
     (let (t, s1) = timer_read E s in if t < stop then wait_until E stop s1 else Some s1)"

definition uhci_delay_ms :: "'d hc_env \<Rightarrow> u32 \<Rightarrow> ('d, 'z) uhci_scheme \<Rightarrow> ('d, 'z) uhci_scheme option" where
  "uhci_delay_ms E ms s = (let (t, s1) = timer_read E s in wait_until E (t + ms) s1)"

text \<open>\<open>while (rd16(reg) & bits) if (timer_ms() > timeout) return false;\<close>: whether it came clear.\<close>

partial_function (option) wait_clear ::
  "'d hc_env \<Rightarrow> u16 \<Rightarrow> u8 \<Rightarrow> u16 \<Rightarrow> u32 \<Rightarrow> ('d, 'z) uhci_scheme \<Rightarrow> (bool \<times> ('d, 'z) uhci_scheme) option" where
  "wait_clear E base reg bits timeout s =
     (let (v, s1) = uhci_rd16 E base reg s
      in if v AND bits = 0 then Some (True, s1)
         else let (t, s2) = timer_read E s1
              in if t > timeout then Some (False, s2)
                 else wait_clear E base reg bits timeout s2)"

section \<open>Descriptors\<close>

definition zero_td :: uhci_td_t where
  "zero_td = \<lparr>td_link = 0, td_status = 0, td_token = 0, td_buffer = 0, td_sw_next = 0, td_sw_buf_virt = 0\<rparr>"

definition zero_qh :: uhci_qh_t where
  "zero_qh = \<lparr>qh_link = 0, qh_element = 0\<rparr>"

text \<open>4 KiB within an allocation of 8 KiB.\<close>

definition alloc_frame_list :: "('d, 'z) uhci_scheme \<Rightarrow> u32 option \<times> ('d, 'z) uhci_scheme" where
  "alloc_frame_list s =
     (case usb_kmalloc (4096 + 4096) s of
        (None, s1) \<Rightarrow> (None, s1)
      | (Some raw, s1) \<Rightarrow> (Some ((raw + 4095) AND NOT 4095), s1))"

definition uhci_alloc_td :: "('d, 'z) uhci_scheme \<Rightarrow> u32 option \<times> ('d, 'z) uhci_scheme" where
  "uhci_alloc_td s =
     (case usb_kmalloc (32 + 16) s of
        (None, s1) \<Rightarrow> (None, s1)
      | (Some raw, s1) \<Rightarrow> let addr = (raw + 15) AND NOT 15 in (Some addr, upd_td addr (\<lambda>_. zero_td) s1))"

definition uhci_alloc_qh :: "('d, 'z) uhci_scheme \<Rightarrow> u32 option \<times> ('d, 'z) uhci_scheme" where
  "uhci_alloc_qh s =
     (case usb_kmalloc (16 + 16) s of
        (None, s1) \<Rightarrow> (None, s1)
      | (Some raw, s1) \<Rightarrow> let addr = (raw + 15) AND NOT 15 in (Some addr, upd_qh addr (\<lambda>_. zero_qh) s1))"

definition uhci_td_done :: "uhci_td_t \<Rightarrow> bool" where
  "uhci_td_done td \<longleftrightarrow> td_status td AND TD_STS_ACTIVE = 0"

definition uhci_td_error :: "uhci_td_t \<Rightarrow> bool" where
  "uhci_td_error td \<longleftrightarrow> td_status td AND (0x400000 OR 0x200000 OR 0x100000 OR 0x40000 OR 0x20000) \<noteq> 0"

definition uhci_td_actual_len :: "uhci_td_t \<Rightarrow> u16" where
  "uhci_td_actual_len td =
     (let raw = (ucast (td_status td AND 0x7FF) :: u16) in if raw = 0x7FF then 0 else raw + 1)"

definition reactivate :: "uhci_td_t \<Rightarrow> uhci_td_t" where
  "reactivate td = td\<lparr>td_token := td_token td XOR TD_TOKEN_TOGGLE 1,
     td_status := (td_status td AND NOT 0x00FFFFFF) OR TD_STS_ACTIVE OR TD_STS_ERRCNT 3 OR TD_STS_IOC\<rparr>"

definition uhci_reactivate_td :: "u32 \<Rightarrow> ('d, 'z) uhci_scheme \<Rightarrow> ('d, 'z) uhci_scheme" where
  "uhci_reactivate_td td s = upd_td td reactivate s"

section \<open>Initialisation\<close>

abbreviation UHCI_PORT_CCS :: u16 where "UHCI_PORT_CCS \<equiv> 0x001"
abbreviation UHCI_PORT_CSC :: u16 where "UHCI_PORT_CSC \<equiv> 0x002"
abbreviation UHCI_PORT_PED :: u16 where "UHCI_PORT_PED \<equiv> 0x004"
abbreviation UHCI_PORT_PEDC :: u16 where "UHCI_PORT_PEDC \<equiv> 0x008"
abbreviation UHCI_PORT_LSDA :: u16 where "UHCI_PORT_LSDA \<equiv> 0x100"
abbreviation UHCI_PORT_RESET :: u16 where "UHCI_PORT_RESET \<equiv> 0x200"

definition upd_ctrl :: "(uhci_ctrl_t \<Rightarrow> uhci_ctrl_t) \<Rightarrow> ('d, 'z) uhci_scheme \<Rightarrow> ('d, 'z) uhci_scheme" where
  "upd_ctrl f s = s\<lparr>g_uhci := f (g_uhci s)\<rparr>"

text \<open>A device was seen: reset the port, enable it (twice if need be) and record what is there.\<close>

definition reset_port :: "'d hc_env \<Rightarrow> u16 \<Rightarrow> u8 \<Rightarrow> nat \<Rightarrow> ('d, 'z) uhci_scheme \<Rightarrow> ('d, 'z) uhci_scheme option" where
  "reset_port E iobase reg p s = do {
     s1 \<leftarrow> uhci_delay_ms E 50 (uhci_wr16 E iobase reg UHCI_PORT_RESET s);
     s2 \<leftarrow> uhci_delay_ms E 2 (uhci_wr16 E iobase reg 0 s1);
     s3 \<leftarrow> uhci_delay_ms E 10 (uhci_wr16 E iobase reg UHCI_PORT_PED s2);
     let (sc, s4) = uhci_rd16 E iobase reg s3;
     (sc, s5) \<leftarrow> (if sc AND UHCI_PORT_PED = 0
       then do {
         s5 \<leftarrow> uhci_delay_ms E 10 (uhci_wr16 E iobase reg (UHCI_PORT_CSC OR UHCI_PORT_PEDC OR UHCI_PORT_PED) s4);
         Some (uhci_rd16 E iobase reg s5)
       }
       else Some (sc, s4));
     Some (upd_ctrl (\<lambda>c. c\<lparr>uc_port_connected := (uc_port_connected c)[p := (sc AND UHCI_PORT_CCS \<noteq> 0)],
                            uc_port_speed := (uc_port_speed c)[p := (if sc AND UHCI_PORT_LSDA \<noteq> 0 then 1 else 0)]\<rparr>) s5)
   }"

definition probe_port :: "'d hc_env \<Rightarrow> u16 \<Rightarrow> nat \<Rightarrow> ('d, 'z) uhci_scheme \<Rightarrow> ('d, 'z) uhci_scheme option" where
  "probe_port E iobase p s =
     (let reg = (if p = 0 then 0x10 else 0x12);
          (sc, s1) = uhci_rd16 E iobase reg s
      in if sc = 0xFFFF then Some s1
         else do {
           let s2 = upd_ctrl (\<lambda>c. c\<lparr>uc_port_count := uc_port_count c + 1\<rparr>) s1;
           s3 \<leftarrow> uhci_delay_ms E 2 (uhci_wr16 E iobase reg (UHCI_PORT_CSC OR UHCI_PORT_PEDC) s2);
           let (sc, s4) = uhci_rd16 E iobase reg s3;
           if sc AND UHCI_PORT_CCS = 0
           then Some (upd_ctrl (\<lambda>c. c\<lparr>uc_port_connected := (uc_port_connected c)[p := False]\<rparr>) s4)
           else reset_port E iobase reg p s4
         })"

text \<open>The global reset and the reset of the host controller: whether the controller came back.\<close>

definition reset_controller :: "'d hc_env \<Rightarrow> u16 \<Rightarrow> ('d, 'z) uhci_scheme \<Rightarrow> (bool \<times> ('d, 'z) uhci_scheme) option" where
  "reset_controller E iobase s = do {
     s1 \<leftarrow> uhci_delay_ms E 10 (uhci_wr16 E iobase UHCI_USBCMD 4 s);
     s2 \<leftarrow> uhci_delay_ms E 2 (uhci_wr16 E iobase UHCI_USBCMD 0 s1);
     let (t, s3) = timer_read E (uhci_wr16 E iobase UHCI_USBCMD 2 s2);
     wait_clear E iobase UHCI_USBCMD 2 (t + 50) s3
   }"

text \<open>From the interrupt mask to the running controller; \<open>False\<close> without memory or on a time-out.\<close>

definition start_controller :: "'d hc_env \<Rightarrow> u16 \<Rightarrow> ('d, 'z) uhci_scheme \<Rightarrow> (bool \<times> ('d, 'z) uhci_scheme) option" where
  "start_controller E iobase s =
     (let s1 = uhci_wr16 E iobase UHCI_USBSTS 0x3F (uhci_wr16 E iobase UHCI_USBINTR 0 s);
          s2 = s1\<lparr>hw := p_out8 E (iobase + ucast UHCI_SOFMOD) 0x40 (hw s1)\<rparr>
      in case alloc_frame_list s2 of
           (None, s3) \<Rightarrow> Some (False, s3)
         | (Some fl, s3) \<Rightarrow>
             let s4 = s3\<lparr>ram := (ram s3)\<lparr>frames := replicate UHCI_FRAME_COUNT UHCI_LP_TERMINATE\<rparr>\<rparr>;
                 s5 = upd_ctrl (\<lambda>c. c\<lparr>uc_frame_list := fl\<rparr>) s4;
                 s6 = uhci_wr16 E iobase UHCI_FRNUM 0 (uhci_wr32 E iobase UHCI_FLBASEADD fl s5);
                 s7 = uhci_wr16 E iobase UHCI_USBCMD (1 OR 0x80) (uhci_wr16 E iobase UHCI_USBCMD 0x80 s6);
                 (t, s8) = timer_read E s7
             in wait_clear E iobase UHCI_USBSTS 0x20 (t + 50) s8)"

definition uhci_init :: "'d hc_env \<Rightarrow> ('d, 'z) uhci_scheme \<Rightarrow> (bool \<times> ('d, 'z) uhci_scheme) option" where
  "uhci_init E s =
     (case pci_find_device E 0x0C 0x03 0x00 (hw s) of
        (None, d) \<Rightarrow> Some (False, s\<lparr>hw := d\<rparr>)
      | (Some pci, d) \<Rightarrow>
          let (iobase, d2) = pci_get_bar_io E pci 4 (pci_enable_device E pci d);
              s1 = s\<lparr>hw := d2\<rparr>
          in if iobase = 0 then Some (False, s1)
             else do {
               let s2 = upd_ctrl (\<lambda>c. c\<lparr>uc_iobase := iobase, uc_pci := pci\<rparr>) s1;
               (ok, s3) \<leftarrow> reset_controller E iobase s2;
               if \<not> ok then Some (False, s3)
               else do {
                 (ok, s4) \<leftarrow> start_controller E iobase s3;
                 if \<not> ok then Some (False, s4)
                 else do {
                   s5 \<leftarrow> probe_port E iobase 0 (upd_ctrl (\<lambda>c. c\<lparr>uc_port_count := 0\<rparr>) s4);
                   s6 \<leftarrow> probe_port E iobase 1 s5;
                   Some (True, s6\<lparr>g_uhci_ready := True\<rparr>)
                 }
               }
             })"

definition uhci_get :: "('d, 'z) uhci_scheme \<Rightarrow> uhci_ctrl_t option" where
  "uhci_get s = (if g_uhci_ready s then Some (g_uhci s) else None)"

section \<open>Control transfers\<close>

text \<open>
  The data stage: one descriptor per 64 bytes, each linked behind the one before. Returns the last
  descriptor, \<open>None\<close> when the heap is exhausted.
\<close>

function data_tds ::
  "u8 \<Rightarrow> u8 \<Rightarrow> u32 \<Rightarrow> bool \<Rightarrow> u8 \<Rightarrow> u32 \<Rightarrow> u16 \<Rightarrow> u32 \<Rightarrow> ('d, 'z) uhci_scheme \<Rightarrow> u32 option \<times> ('d, 'z) uhci_scheme" where
  "data_tds pid dev_addr ls_bit is_in toggle ptr remaining last_td s =
     (if \<not> 0 < remaining then (Some last_td, s)
      else let chunk = (if remaining > 64 then 64 else remaining)
           in case uhci_alloc_td s of
                (None, s1) \<Rightarrow> (None, s1)
              | (Some dtd, s1) \<Rightarrow>
                  let s2 = upd_td dtd (\<lambda>t. t\<lparr>td_status := (TD_STS_ACTIVE OR TD_STS_ERRCNT 3 OR ls_bit)
                                               OR (if is_in then TD_STS_SPD else 0),
                             td_token := td_token_of pid dev_addr 0 toggle (TD_TOKEN_MAXLEN chunk),
                             td_buffer := ptr\<rparr>) s1;
                      s3 = upd_td last_td (\<lambda>t. t\<lparr>td_link := dtd OR UHCI_LP_DEPTH\<rparr>) s2
                  in data_tds pid dev_addr ls_bit is_in (toggle XOR 1) (ptr + ucast chunk)
                       (remaining - chunk) dtd s3)"
  by pat_completeness auto
termination
  by (relation "measure (\<lambda>(_, _, _, _, _, _, remaining, _, _). unat remaining)")
    (auto simp: unat_sub word_less_nat_alt word_le_nat_alt)

declare data_tds.simps [simp del]

text \<open>Put the queue head in front of 16 frames, keeping what was there.\<close>

fun insert_qh :: "u16 \<Rightarrow> u32 \<Rightarrow> nat list \<Rightarrow> ('d, 'z) uhci_scheme \<Rightarrow> u32 list \<times> ('d, 'z) uhci_scheme" where
  "insert_qh frnum qh [] s = ([], s)"
| "insert_qh frnum qh (fi # fis) s =
     (let idx = unat ((frnum + 2 + of_nat fi) AND 0x3FF);
          saved = frames (ram s) ! idx;
          s1 = set_frame idx (qh OR UHCI_LP_QH) (upd_qh qh (\<lambda>q. q\<lparr>qh_link := saved\<rparr>) s);
          (rest, s2) = insert_qh frnum qh fis s1
      in (saved # rest, s2))"

fun restore_frames :: "u16 \<Rightarrow> (nat \<times> u32) list \<Rightarrow> ('d, 'z) uhci_scheme \<Rightarrow> ('d, 'z) uhci_scheme" where
  "restore_frames frnum [] s = s"
| "restore_frames frnum ((fi, saved) # ps) s =
     restore_frames frnum ps (set_frame (unat ((frnum + 2 + of_nat fi) AND 0x3FF)) saved s)"

partial_function (option) wait_status ::
  "'d hc_env \<Rightarrow> u32 \<Rightarrow> u32 \<Rightarrow> u32 \<Rightarrow> ('d, 'z) uhci_scheme \<Rightarrow> (bool \<times> ('d, 'z) uhci_scheme) option" where
  "wait_status E deadline setup_td status_td s =
     (let (t, s1) = timer_read E s
      in if \<not> t < deadline then Some (False, s1)
         else if uhci_td_done (tds (ram s1) status_td)
         then Some (\<not> uhci_td_error (tds (ram s1) status_td), s1)
         else if uhci_td_done (tds (ram s1) setup_td) \<and> uhci_td_error (tds (ram s1) setup_td)
         then Some (False, s1)
         else wait_status E deadline setup_td status_td s1)"

text \<open>The queue head and the chain of descriptors; \<open>None\<close> when an allocation fails.\<close>

definition build_chain ::
  "u8 \<Rightarrow> bool \<Rightarrow> bytes \<Rightarrow> u32 option \<Rightarrow> u16 \<Rightarrow> bool \<Rightarrow> ('d, 'z) uhci_scheme \<Rightarrow>
     (u32 \<times> u32 \<times> u32) option \<times> ('d, 'z) uhci_scheme" where
  "build_chain dev_addr low_speed setup_pkt data data_len is_in s =
     (let ls_bit = (if low_speed then TD_STS_LS else 0)
      in case uhci_alloc_qh s of (None, s1) \<Rightarrow> (None, s1) | (Some qh, s1) \<Rightarrow>
         case uhci_alloc_td s1 of (None, s2) \<Rightarrow> (None, s2) | (Some setup_td, s2) \<Rightarrow>
         case usb_kmalloc 8 s2 of (None, s3) \<Rightarrow> (None, s3) | (Some setup_buf, s3) \<Rightarrow>
           let s4 = put_bytes setup_buf setup_pkt s3;
               s5 = upd_td setup_td (\<lambda>t. t\<lparr>td_status := TD_STS_ACTIVE OR TD_STS_ERRCNT 3 OR ls_bit,
                      td_token := td_token_of USB_PID_SETUP dev_addr 0 0 (TD_TOKEN_MAXLEN 8),
                      td_buffer := setup_buf\<rparr>) s4
           in case (case data of
                      None \<Rightarrow> (Some setup_td, s5)
                    | Some ptr \<Rightarrow> data_tds (if is_in then USB_PID_IN else USB_PID_OUT) dev_addr ls_bit is_in 1
                                    ptr data_len setup_td s5) of
                (None, s6) \<Rightarrow> (None, s6)
              | (Some last_td, s6) \<Rightarrow>
                  case uhci_alloc_td s6 of (None, s7) \<Rightarrow> (None, s7) | (Some status_td, s7) \<Rightarrow>
                    let s8 = upd_td status_td (\<lambda>t. t\<lparr>
                               td_status := TD_STS_ACTIVE OR TD_STS_ERRCNT 3 OR TD_STS_IOC OR ls_bit,
                               td_token := td_token_of (if is_in then USB_PID_OUT else USB_PID_IN) dev_addr 0 1 TD_TOKEN_MAXLEN0,
                               td_buffer := 0, td_link := UHCI_LP_TERMINATE\<rparr>) s7;
                        s9 = upd_td last_td (\<lambda>t. t\<lparr>td_link := status_td OR UHCI_LP_DEPTH\<rparr>) s8
                    in (Some (qh, setup_td, status_td),
                        upd_qh qh (\<lambda>_. \<lparr>qh_link = UHCI_LP_TERMINATE, qh_element = setup_td\<rparr>) s9))"

definition uhci_control_transfer ::
  "'d hc_env \<Rightarrow> u8 \<Rightarrow> bool \<Rightarrow> bytes \<Rightarrow> u32 option \<Rightarrow> u16 \<Rightarrow> bool \<Rightarrow> ('d, 'z) uhci_scheme \<Rightarrow>
     (bool \<times> ('d, 'z) uhci_scheme) option" where
  "uhci_control_transfer E dev_addr low_speed setup_pkt data data_len is_in s =
     (if \<not> g_uhci_ready s then Some (False, s)
      else let iobase = uc_iobase (g_uhci s)
           in case build_chain dev_addr low_speed setup_pkt data data_len is_in s of
                (None, s1) \<Rightarrow> Some (False, s1)
              | (Some (qh, setup_td, status_td), s1) \<Rightarrow>
                  let (v, s2) = uhci_rd16 E iobase UHCI_FRNUM s1;
                      frnum = v AND 0x3FF;
                      (saved, s3) = insert_qh frnum qh [0..<16] s2;
                      (t, s4) = timer_read E s3
                  in do {
                    (ok, s5) \<leftarrow> wait_status E (t + 500) setup_td status_td s4;
                    Some (ok, restore_frames frnum (zip [0..<16] saved) s5)
                  })"

section \<open>Periodic transfers\<close>

text \<open>\<open>for (i = 0; i < 1024; i += interval)\<close>: the multiples of the interval, in order.\<close>

definition poll_frames :: "u8 \<Rightarrow> nat list" where
  "poll_frames interval = filter (\<lambda>i. i mod unat interval = 0) [0..<UHCI_FRAME_COUNT]"

fun insert_td :: "u32 \<Rightarrow> nat list \<Rightarrow> ('d, 'z) uhci_scheme \<Rightarrow> ('d, 'z) uhci_scheme" where
  "insert_td td [] s = s"
| "insert_td td (i # is) s =
     insert_td td is (set_frame i td (upd_td td (\<lambda>t. t\<lparr>td_link := frames (ram s) ! i\<rparr>) s))"

definition uhci_insert_periodic_td :: "u32 \<Rightarrow> u8 \<Rightarrow> ('d, 'z) uhci_scheme \<Rightarrow> ('d, 'z) uhci_scheme" where
  "uhci_insert_periodic_td td interval s =
     (if \<not> g_uhci_ready s \<or> td = 0 then s
      else insert_td td (poll_frames (if interval = 0 then 1 else interval)) s)"

fun remove_td :: "u32 \<Rightarrow> nat list \<Rightarrow> ('d, 'z) uhci_scheme \<Rightarrow> ('d, 'z) uhci_scheme" where
  "remove_td td [] s = s"
| "remove_td td (i # is) s =
     remove_td td is (if frames (ram s) ! i AND NOT 0xF = td
                      then set_frame i (td_link (tds (ram s) td)) s else s)"

definition uhci_remove_periodic_td :: "u32 \<Rightarrow> ('d, 'z) uhci_scheme \<Rightarrow> ('d, 'z) uhci_scheme" where
  "uhci_remove_periodic_td td s =
     (if \<not> g_uhci_ready s \<or> td = 0 then s else remove_td td [0..<UHCI_FRAME_COUNT] s)"

end
