(* ===== verification/Uhci_Spec.thy ===== *)
theory Uhci_Spec
  imports Uhci
begin

text \<open>
  What the UHCI driver guarantees: control transfers leave the frame list as they found it and end
  within their time-out, the descriptor chain covers the buffer, and what periodic insertion does
  to the schedule.
\<close>

section \<open>Fields left alone\<close>

lemma ram_fields [simp, frame_simps]:
  "frames (ram (upd_td a f s)) = frames (ram s)" "frames (ram (upd_qh a g s)) = frames (ram s)"
  "frames (ram (put_bytes a bs s)) = frames (ram s)" "tds (ram (upd_qh a g s)) = tds (ram s)"
  "tds (ram (put_bytes a bs s)) = tds (ram s)" "tds (ram (set_frame i v s)) = tds (ram s)"
  "qhs (ram (upd_td a f s)) = qhs (ram s)" "qhs (ram (set_frame i v s)) = qhs (ram s)"
  "qhs (ram (put_bytes a bs s)) = qhs (ram s)"
  "tds (ram (upd_td a f s)) = (tds (ram s))(a := f (tds (ram s) a))"
  "qhs (ram (upd_qh a g s)) = (qhs (ram s))(a := g (qhs (ram s) a))"
  "frames (ram (set_frame i v s)) = (frames (ram s))[i := v]"
  by (simp_all add: upd_td_def upd_qh_def put_bytes_def set_frame_def)

lemma state_fields [simp, frame_simps]:
  "g_uhci_ready (upd_td a f s) = g_uhci_ready s" "g_uhci_ready (upd_qh a g s) = g_uhci_ready s"
  "g_uhci_ready (put_bytes a bs s) = g_uhci_ready s" "g_uhci_ready (set_frame i v s) = g_uhci_ready s"
  "g_uhci (upd_td a f s) = g_uhci s" "g_uhci (upd_qh a g s) = g_uhci s"
  "g_uhci (put_bytes a bs s) = g_uhci s" "g_uhci (set_frame i v s) = g_uhci s"
  "uheap_ptr (upd_td a f s) = uheap_ptr s" "uheap_ptr (upd_qh a g s) = uheap_ptr s"
  "uheap_ptr (put_bytes a bs s) = uheap_ptr s" "uheap_ptr (set_frame i v s) = uheap_ptr s"
  "uheap_base (upd_td a f s) = uheap_base s" "uheap_base (upd_qh a g s) = uheap_base s"
  "uheap_base (put_bytes a bs s) = uheap_base s" "uheap_base (set_frame i v s) = uheap_base s"
  "hw (upd_td a f s) = hw s" "hw (upd_qh a g s) = hw s"
  "hw (put_bytes a bs s) = hw s" "hw (set_frame i v s) = hw s"
  "uhci.more (upd_td a f s) = uhci.more s" "uhci.more (upd_qh a g s) = uhci.more s"
  "uhci.more (put_bytes a bs s) = uhci.more s" "uhci.more (set_frame i v s) = uhci.more s"
  by (simp_all add: upd_td_def upd_qh_def put_bytes_def set_frame_def)

text \<open>Only descriptors, bytes and the heap pointer may have changed.\<close>

definition same_io :: "('d, 'z) uhci_scheme \<Rightarrow> ('d, 'z) uhci_scheme \<Rightarrow> bool" where
  "same_io s s1 \<longleftrightarrow> frames (ram s1) = frames (ram s) \<and> hw s1 = hw s \<and> g_uhci s1 = g_uhci s \<and>
     g_uhci_ready s1 = g_uhci_ready s \<and> uheap_base s1 = uheap_base s \<and> uhci.more s1 = uhci.more s"

lemma same_io_refl [simp]: "same_io s s"
  by (simp add: same_io_def)

lemma same_io_trans [trans]: "same_io s s1 \<Longrightarrow> same_io s1 s2 \<Longrightarrow> same_io s s2"
  by (simp add: same_io_def)

lemma same_io_upd [simp]:
  "same_io s (upd_td a f s1) \<longleftrightarrow> same_io s s1" "same_io s (upd_qh a g s1) \<longleftrightarrow> same_io s s1"
  "same_io s (put_bytes a bs s1) \<longleftrightarrow> same_io s s1"
  "same_io (upd_td a f s) s1 \<longleftrightarrow> same_io s s1" "same_io (upd_qh a g s) s1 \<longleftrightarrow> same_io s s1"
  "same_io (put_bytes a bs s) s1 \<longleftrightarrow> same_io s s1"
  by (simp_all add: same_io_def)

lemma kmalloc_io:
  assumes "usb_kmalloc n s = (r, s1)"
  shows "same_io s s1" "tds (ram s1) = tds (ram s)" "qhs (ram s1) = qhs (ram s)"
  using assms by (auto simp: usb_kmalloc_def same_io_def split: prod.splits option.splits)

lemma alloc_td_io: "uhci_alloc_td s = (r, s1) \<Longrightarrow> same_io s s1"
  by (auto simp: uhci_alloc_td_def Let_def kmalloc_io split: prod.splits option.splits)

lemma alloc_qh_io: "uhci_alloc_qh s = (r, s1) \<Longrightarrow> same_io s s1"
  by (auto simp: uhci_alloc_qh_def Let_def kmalloc_io split: prod.splits option.splits)

lemma data_tds_io:
  "data_tds pid da ls is_in tg ptr rem last_td s = (r, s1) \<Longrightarrow> same_io s s1"
proof (induction pid da ls is_in tg ptr rem last_td s rule: data_tds.induct)
  case (1 pid da ls is_in tg ptr rem last_td s)
  show ?case
  proof (cases "0 < rem")
    case False
    with 1(2) show ?thesis by (simp add: data_tds.simps)
  next
    case True
    obtain q s2 where q: "uhci_alloc_td s = (q, s2)" by fastforce
    show ?thesis
    proof (cases q)
      case None
      with 1(2) True q alloc_td_io [OF q] show ?thesis by (simp add: data_tds.simps)
    next
      case (Some dtd)
      show ?thesis
        using 1(2) 1(1) [OF _ refl q [symmetric] Some refl refl] True
        by (intro same_io_trans [OF alloc_td_io [OF q]])
          (simp add: data_tds.simps [of _ _ _ _ _ _ rem] q Some Let_def)
    qed
  qed
qed

lemma build_chain_io:
  "build_chain da ls pkt data len is_in s = (r, s1) \<Longrightarrow> same_io s s1"
  unfolding build_chain_def Let_def
  by (auto split: prod.splits option.splits dest!: alloc_qh_io alloc_td_io data_tds_io kmalloc_io(1))
    (simp_all add: same_io_def)

section \<open>The frame list\<close>

definition frame_idx :: "u16 \<Rightarrow> nat \<Rightarrow> nat" where
  "frame_idx frnum fi = unat ((frnum + 2 + of_nat fi) AND 0x3FF)"

lemma frame_idx_mod:
  assumes "fi < 16"
  shows "frame_idx frnum fi = (unat frnum + 2 + fi) mod 1024"
proof -
  have m: "(0x3FF :: u16) = mask 10" by (simp add: mask_eq_exp_minus_1)
  have "frame_idx frnum fi = unat (frnum + 2 + of_nat fi) mod 2 ^ 10"
    unfolding frame_idx_def m take_bit_eq_mask [symmetric] by (simp only: unsigned_take_bit_eq) (simp only: take_bit_eq_mod)
  also have "unat (frnum + 2 + of_nat fi) = (unat frnum + 2 + fi) mod 2 ^ 16"
    using assms by (simp add: unat_word_ariths unat_of_nat_eq mod_simps)
  also have "(unat frnum + 2 + fi) mod 2 ^ 16 mod 2 ^ 10 = (unat frnum + 2 + fi) mod 2 ^ 10"
    by (rule mod_mod_cancel) simp
  finally show ?thesis by simp
qed

lemma frame_idx_less [simp]: "fi < 16 \<Longrightarrow> frame_idx frnum fi < 1024"
  by (simp add: frame_idx_mod)

lemma frame_idx_inj: "inj_on (frame_idx frnum) {0..<16}"
proof (rule inj_onI)
  fix x y assume a: "x \<in> {0..<16}" "y \<in> {0..<16}" "frame_idx frnum x = frame_idx frnum y"
  let ?b = "unat frnum + 2"
  have "(?b + x) mod 1024 = (?b + y) mod 1024" using a by (simp add: frame_idx_mod)
  then have "int ((?b + x) mod 1024) = int ((?b + y) mod 1024)" by (rule arg_cong)
  then have "int (?b + x) mod 1024 = int (?b + y) mod 1024" by (simp only: zmod_int of_nat_numeral)
  then have "1024 dvd int x - int y" unfolding mod_eq_dvd_iff by simp
  then obtain k where k: "int x - int y = 1024 * k" by (elim dvdE)
  have "x < 16" "y < 16" using a by simp_all
  with k have "k < 1" "- 1 < k" by linarith+
  with k show "x = y" by simp
qed

lemma insert_qh_spec:
  assumes "distinct fis" "inj_on (frame_idx frnum) (set fis)"
    "\<forall>fi \<in> set fis. frame_idx frnum fi < length (frames (ram s))" "insert_qh frnum qh fis s = (saved, s1)"
  shows "saved = map (\<lambda>fi. frames (ram s) ! frame_idx frnum fi) fis \<and>
    length (frames (ram s1)) = length (frames (ram s)) \<and>
    (\<forall>j < length (frames (ram s)). frames (ram s1) ! j =
       (if j \<in> frame_idx frnum ` set fis then qh OR UHCI_LP_QH else frames (ram s) ! j))"
  using assms
proof (induction fis arbitrary: s saved s1)
  case (Cons fi fis)
  let ?f = "frame_idx frnum"
  let ?s = "set_frame (?f fi) (qh OR UHCI_LP_QH) (upd_qh qh (\<lambda>q. q\<lparr>qh_link := frames (ram s) ! ?f fi\<rparr>) s)"
  obtain rest s2 where r: "insert_qh frnum qh fis ?s = (rest, s2)" by fastforce
  have e: "saved = frames (ram s) ! ?f fi # rest" "s1 = s2"
    using Cons.prems(4) r by (simp_all add: Let_def frame_idx_def)
  have n: "?f fi \<notin> ?f ` set fis" using Cons.prems(1,2) by (auto simp: inj_on_def)
  have IH: "rest = map (\<lambda>fi. frames (ram ?s) ! ?f fi) fis \<and>
    length (frames (ram s2)) = length (frames (ram ?s)) \<and>
    (\<forall>j < length (frames (ram ?s)). frames (ram s2) ! j =
       (if j \<in> ?f ` set fis then qh OR UHCI_LP_QH else frames (ram ?s) ! j))"
    by (rule Cons.IH [OF _ _ _ r]) (use Cons.prems in \<open>simp_all add: inj_on_insert\<close>)
  have "map (\<lambda>fi. frames (ram ?s) ! ?f fi) fis = map (\<lambda>fi. frames (ram s) ! ?f fi) fis"
    using n by (intro map_cong refl) (simp, metis image_eqI nth_list_update_neq)
  then show ?case using IH Cons.prems(3) n by (auto simp: e nth_list_update)
qed simp

lemma restore_frames_spec:
  assumes "\<forall>p \<in> set ps. frame_idx frnum (fst p) < length (frames (ram s))"
  shows "length (frames (ram (restore_frames frnum ps s))) = length (frames (ram s)) \<and>
    (\<forall>j < length (frames (ram s)). frames (ram (restore_frames frnum ps s)) ! j =
      (case map_of (rev (map (\<lambda>(fi, v). (frame_idx frnum fi, v)) ps)) j of Some v \<Rightarrow> v | None \<Rightarrow> frames (ram s) ! j))"
  using assms
proof (induction ps arbitrary: s)
  case (Cons p ps)
  obtain fi v where p: "p = (fi, v)" by fastforce
  let ?s = "set_frame (frame_idx frnum fi) v s"
  have e: "restore_frames frnum (p # ps) s = restore_frames frnum ps ?s" by (simp add: p frame_idx_def)
  show ?case unfolding e using Cons.IH [of ?s] Cons.prems
    by (auto simp: p map_add_def nth_list_update split: option.split)
qed simp

lemma wait_status_frames:
  assumes "\<And>r d. frames (fst (snd (hc_time E r d))) = frames r"
    and "wait_status E dl a b s = Some (ok, s1)"
  shows "frames (ram s1) = frames (ram s)"
proof -
  have "(\<forall>r d. frames (fst (snd (hc_time E r d))) = frames r) \<longrightarrow> frames (ram (snd (ok, s1))) = frames (ram s)"
  proof (rule wait_status.raw_induct [OF _ assms(2)], intro impI)
    fix ws E' dl' a' b' s' y
    assume IH: "\<And>E dl a b s y. ws E dl a b s = Some y \<Longrightarrow>
        (\<forall>r d. frames (fst (snd (hc_time E r d))) = frames r) \<longrightarrow> frames (ram (snd y)) = frames (ram s)"
      and eq: "(let (t, s1) = timer_read E' s' in if \<not> t < dl' then Some (False, s1)
         else if uhci_td_done (tds (ram s1) b') then Some (\<not> uhci_td_error (tds (ram s1) b'), s1)
         else if uhci_td_done (tds (ram s1) a') \<and> uhci_td_error (tds (ram s1) a') then Some (False, s1)
         else ws E' dl' a' b' s1) = Some y"
      and hc: "\<forall>r d. frames (fst (snd (hc_time E' r d))) = frames r"
    obtain t s1 where t: "timer_read E' s' = (t, s1)" by fastforce
    have f: "frames (ram s1) = frames (ram s')"
      using t hc [THEN spec [of _ "ram s'"], THEN spec [of _ "hw s'"]] by (auto simp: timer_read_def split: prod.splits)
    show "frames (ram (snd y)) = frames (ram s')"
      using eq IH [of E' dl' a' b' s1 y] hc f by (auto simp: t split: if_splits)
  qed
  then show ?thesis using assms(1) by simp
qed

lemma map_of_rev_graph:
  "map_of (rev (map (\<lambda>x. (f x, g (f x))) xs)) j = (if j \<in> f ` set xs then Some (g j) else None)"
  by (induction xs rule: rev_induct) auto

text \<open>
  A clock in milliseconds: it advances by at most a tick of the PIT between two reads, and after
  finitely many reads (\<open>lag\<close>) it does advance.
\<close>

definition ms_clock :: "'d hc_env \<Rightarrow> ('d \<Rightarrow> nat) \<Rightarrow> ('d \<Rightarrow> nat) \<Rightarrow> bool" where
  "ms_clock E now lag \<longleftrightarrow>
     (\<forall>r d. case hc_time E r d of (t, r', d') \<Rightarrow> t = of_nat (now d') \<and> now d' \<le> now d + 10 \<and>
        (now d < now d' \<or> now d = now d' \<and> lag d' < lag d)) \<and>
     (\<forall>p d. now (snd (p_in16 E p d)) = now d)"

lemma ms_clockD:
  assumes "ms_clock E now lag" "timer_read E s = (t, s1)"
  shows "t = of_nat (now (hw s1))" "now (hw s1) \<le> now (hw s) + 10"
    "now (hw s) < now (hw s1) \<or> now (hw s) = now (hw s1) \<and> lag (hw s1) < lag (hw s)"
proof -
  obtain u r d where u: "hc_time E (ram s) (hw s) = (u, r, d)" by (cases "hc_time E (ram s) (hw s)") auto
  have "u = of_nat (now d) \<and> now d \<le> now (hw s) + 10 \<and>
      (now (hw s) < now d \<or> now (hw s) = now d \<and> lag d < lag (hw s))"
    using assms(1) [unfolded ms_clock_def, THEN conjunct1, rule_format, where r = "ram s" and d = "hw s"] u by simp
  moreover have "t = u" "hw s1 = d" using assms(2) u by (auto simp: timer_read_def)
  ultimately show "t = of_nat (now (hw s1))" "now (hw s1) \<le> now (hw s) + 10"
    "now (hw s) < now (hw s1) \<or> now (hw s) = now (hw s1) \<and> lag (hw s1) < lag (hw s)" by simp_all
qed

lemma wait_status_returns:
  assumes "ms_clock E now lag" "unat dl + 10 < 2 ^ 32" "now (hw s) \<le> unat dl"
  shows "\<exists>ok s'. wait_status E dl a b s = Some (ok, s') \<and> now (hw s') \<le> unat dl + 10"
  using assms(3)
proof (induction s rule: wf_induct_rule [OF wf_measures [of "[\<lambda>s. unat dl - now (hw s), \<lambda>s. lag (hw s)]"], case_names less])
  case (less s)
  obtain t s1 where t: "timer_read E s = (t, s1)" by fastforce
  note C = ms_clockD [OF assms(1) t]
  have le: "now (hw s1) \<le> unat dl + 10" using C(2) less.prems by simp
  then have u: "unat t = now (hw s1)" using assms(2) by (simp add: C(1) unat_of_nat_eq)
  show ?case
  proof (cases "t < dl \<and> \<not> uhci_td_done (tds (ram s1) b) \<and>
      \<not> (uhci_td_done (tds (ram s1) a) \<and> uhci_td_error (tds (ram s1) a))")
    case True
    have l: "now (hw s1) < unat dl" using True u by (simp add: word_less_nat_alt)
    have "(s1, s) \<in> measures [\<lambda>s. unat dl - now (hw s), \<lambda>s. lag (hw s)]" using C(3) l by auto
    then have "\<exists>ok s'. wait_status E dl a b s1 = Some (ok, s') \<and> now (hw s') \<le> unat dl + 10"
      using less.IH [of s1] l by simp
    then show ?thesis using True by (subst wait_status.simps) (auto simp: t)
  next
    case False
    then show ?thesis using le by (subst wait_status.simps) (auto simp: t)
  qed
qed

lemma insert_qh_hw: "insert_qh frnum qh fis s = (saved, s1) \<Longrightarrow> hw s1 = hw s"
proof (induction fis arbitrary: s saved)
  case (Cons fi fis)
  then show ?case by (auto simp: Let_def split: prod.splits)
qed simp

lemma restore_frames_hw: "hw (restore_frames frnum ps s) = hw s"
  by (induction frnum ps s rule: restore_frames.induct) simp_all

lemma control_transfer_ends:
  assumes "ms_clock E now lag" "now (hw s) + 520 < 2 ^ 32"
  shows "\<exists>ok s'. uhci_control_transfer E dev_addr low_speed setup_pkt data data_len is_in s = Some (ok, s') \<and>
    now (hw s') \<le> now (hw s) + 520"
proof (cases "g_uhci_ready s")
  case True
  obtain r s1 where b: "build_chain dev_addr low_speed setup_pkt data data_len is_in s = (r, s1)" by fastforce
  have h1: "hw s1 = hw s" using build_chain_io [OF b] by (simp add: same_io_def)
  show ?thesis
  proof (cases r)
    case None
    with True b h1 show ?thesis by (auto simp: uhci_control_transfer_def Let_def)
  next
    case (Some c)
    obtain qh st stt where c: "c = (qh, st, stt)" by (cases c) auto
    obtain v s2 where v: "uhci_rd16 E (uc_iobase (g_uhci s)) UHCI_FRNUM s1 = (v, s2)" by fastforce
    have n2: "now (hw s2) = now (hw s)"
      using v assms(1) [unfolded ms_clock_def, THEN conjunct2] h1
      by (auto simp: uhci_rd16_def split: prod.splits) (metis snd_conv)
    let ?fn = "v AND 0x3FF"
    obtain saved s3 where i: "insert_qh ?fn qh [0..<16] s2 = (saved, s3)" by fastforce
    have h3: "hw s3 = hw s2" by (rule insert_qh_hw [OF i])
    obtain t s4 where t: "timer_read E s3 = (t, s4)" by fastforce
    note C = ms_clockD [OF assms(1) t]
    have n4: "now (hw s4) \<le> now (hw s) + 10" using C(2) h3 n2 by simp
    have u: "unat (t + 500) = now (hw s4) + 500"
      using n4 assms(2) by (simp add: C(1) unat_word_ariths unat_of_nat_eq)
    obtain ok s5 where w: "wait_status E (t + 500) st stt s4 = Some (ok, s5)" "now (hw s5) \<le> unat (t + 500) + 10"
      using wait_status_returns [OF assms(1), of "t + 500" s4 st stt] u n4 assms(2) by auto
    have "uhci_control_transfer E dev_addr low_speed setup_pkt data data_len is_in s =
        Some (ok, restore_frames ?fn (zip [0..<16] saved) s5)"
      using True b Some c v i t w(1) by (simp add: uhci_control_transfer_def Let_def)
    then show ?thesis using w(2) u n4 by (simp add: restore_frames_hw)
  qed
qed (auto simp: uhci_control_transfer_def)

text \<open>A controller that never answers, with a clock that ticks at every read.\<close>

definition sample_hc :: "nat hc_env" where
  "sample_hc = \<lparr>p_in8 = (\<lambda>p d. (0, d)), p_in16 = (\<lambda>p d. (0, d)), p_in32 = (\<lambda>p d. (0, d)),
     p_out8 = (\<lambda>p v d. d), p_out16 = (\<lambda>p v d. d), p_out32 = (\<lambda>p v d. d),
     hc_time = (\<lambda>r d. (of_nat (d + 10), r, d + 10))\<rparr>"

definition sample_usb :: "nat uhci" where
  "sample_usb = \<lparr>ram = \<lparr>tds = (\<lambda>_. zero_td), qhs = (\<lambda>_. zero_qh),
       frames = replicate UHCI_FRAME_COUNT UHCI_LP_TERMINATE, ubytes = (\<lambda>_. 0)\<rparr>,
     hw = 0, uheap_base = 0x200000, uheap_ptr = 0,
     g_uhci = \<lparr>uc_iobase = 0xC000, uc_pci = \<lparr>pci_bus = 0, pci_dev = 1, pci_func = 2\<rparr>, uc_frame_list = 0x201000,
       uc_port_count = 2, uc_port_connected = [True, False], uc_port_speed = [0, 0]\<rparr>,
     g_uhci_ready = True\<rparr>"

lemma sample_clock: "ms_clock sample_hc id (\<lambda>_. 0)"
  by (simp add: ms_clock_def sample_hc_def)

text \<open>Restoring the saved entries undoes the insertion of the queue head.\<close>

lemma restore_inserted:
  assumes "insert_qh fn qh [0..<16] s2 = (saved, s3)" "length (frames (ram s2)) = 1024"
    and "frames (ram s5) = frames (ram s3)"
  shows "frames (ram (restore_frames fn (zip [0..<16] saved) s5)) = frames (ram s2)"
proof -
  have I: "saved = map (\<lambda>fi. frames (ram s2) ! frame_idx fn fi) [0..<16]"
    "length (frames (ram s3)) = 1024"
    "\<And>j. j < 1024 \<Longrightarrow> frames (ram s3) ! j =
       (if j \<in> frame_idx fn ` {0..<16} then qh OR UHCI_LP_QH else frames (ram s2) ! j)"
    using insert_qh_spec [OF _ _ _ assms(1)] frame_idx_inj assms(2) by auto
  let ?ps = "zip [0..<16] saved"
  have ps: "map (\<lambda>(fi, v). (frame_idx fn fi, v)) ?ps = map (\<lambda>fi. (frame_idx fn fi, frames (ram s2) ! frame_idx fn fi)) [0..<16]"
    unfolding I(1) by (simp add: zip_map2 zip_same_conv_map)
  have m: "map_of (rev (map (\<lambda>fi. (frame_idx fn fi, frames (ram s2) ! frame_idx fn fi)) [0..<16])) j =
    (if j \<in> frame_idx fn ` {0..<16} then Some (frames (ram s2) ! j) else None)" for j
    using map_of_rev_graph [of "frame_idx fn" "\<lambda>i. frames (ram s2) ! i" "[0..<16]" j] by simp
  have in16: "\<forall>p \<in> set ?ps. frame_idx fn (fst p) < length (frames (ram s5))"
  proof
    fix p assume "p \<in> set ?ps"
    then have "fst p \<in> set [0..<16]" by (metis prod.collapse set_zip_leftD)
    then have "fst p < 16" by simp
    then show "frame_idx fn (fst p) < length (frames (ram s5))" using I(2) assms(3) by simp
  qed
  let ?s = "restore_frames fn ?ps s5"
  have R: "length (frames (ram ?s)) = 1024" 
    "\<And>j. j < 1024 \<Longrightarrow> frames (ram ?s) ! j = (case map_of (rev (map (\<lambda>(fi, v). (frame_idx fn fi, v)) ?ps)) j of
        Some v \<Rightarrow> v | None \<Rightarrow> frames (ram s5) ! j)"
    using restore_frames_spec [of ?ps fn s5, OF in16] I(2) assms(3) by simp_all
  show ?thesis
  proof (rule nth_equalityI)
    show "length (frames (ram ?s)) = length (frames (ram s2))" using R(1) assms(2) by simp
    fix j assume "j < length (frames (ram ?s))"
    then have j: "j < 1024" using R(1) by simp
    show "frames (ram ?s) ! j = frames (ram s2) ! j"
      unfolding R(2) [OF j] ps m using I(3) [OF j] assms(3) by simp
  qed
qed

section \<open>Properties\<close>

text \<open>C35: A control transfer leaves the frame list as it found it, whatever happens: success, stall,
  time-out or no memory, provided the controller, as UHCI specifies, only reads the frame list.\<close>

theorem control_transfer_restores_frames:
  assumes "\<And>r d. frames (fst (snd (hc_time E r d))) = frames r"
    and "length (frames (ram s)) = UHCI_FRAME_COUNT"
    and "uhci_control_transfer E dev_addr low_speed setup_pkt data data_len is_in s = Some (ok, s')"
  shows "frames (ram s') = frames (ram s)"
proof (cases "g_uhci_ready s")
  case True
  obtain r s1 where b: "build_chain dev_addr low_speed setup_pkt data data_len is_in s = (r, s1)" by fastforce
  have f1: "frames (ram s1) = frames (ram s)" using build_chain_io [OF b] by (simp add: same_io_def)
  show ?thesis
  proof (cases r)
    case None
    with assms(3) True b f1 show ?thesis by (simp add: uhci_control_transfer_def Let_def)
  next
    case (Some c)
    obtain qh st stt where c: "c = (qh, st, stt)" by (cases c) auto
    obtain v s2 where v: "uhci_rd16 E (uc_iobase (g_uhci s)) UHCI_FRNUM s1 = (v, s2)" by fastforce
    let ?fn = "v AND 0x3FF"
    obtain saved s3 where i: "insert_qh ?fn qh [0..<16] s2 = (saved, s3)" by fastforce
    obtain t s4 where t: "timer_read E s3 = (t, s4)" by fastforce
    obtain s5 where w: "wait_status E (t + 500) st stt s4 = Some (ok, s5)"
        and s': "s' = restore_frames ?fn (zip [0..<16] saved) s5"
      using assms(3) True b Some c v i t
      by (auto simp: uhci_control_transfer_def Let_def split: option.splits bind_splits)
    have f2: "frames (ram s2) = frames (ram s)" using v f1 by (auto simp: uhci_rd16_def split: prod.splits)
    have f4: "frames (ram s4) = frames (ram s3)"
      using t assms(1) [of "ram s3" "hw s3"] by (auto simp: timer_read_def split: prod.splits)
    have f5: "frames (ram s5) = frames (ram s3)" using wait_status_frames [OF assms(1) w] f4 by simp
    show ?thesis unfolding s'
      using restore_inserted [OF i _ f5] f2 assms(2) by simp
  qed
qed (use assms(3) in \<open>simp add: uhci_control_transfer_def\<close>)

theorem control_transfer_restores_frames_witness:
  "\<exists>ok s'. uhci_control_transfer sample_hc 1 False (replicate 8 0) None 0 True sample_usb = Some (ok, s') \<and>
    frames (ram s') = frames (ram sample_usb)"
proof -
  obtain ok s' where r: "uhci_control_transfer sample_hc 1 False (replicate 8 0) None 0 True sample_usb = Some (ok, s')"
    using control_transfer_ends [OF sample_clock, of sample_usb 1 False "replicate 8 0" None 0 True]
    by (auto simp: sample_usb_def)
  have "frames (ram s') = frames (ram sample_usb)"
    by (rule control_transfer_restores_frames [OF _ _ r]) (simp_all add: sample_hc_def sample_usb_def)
  then show ?thesis using r by blast
qed

text \<open>A control transfer always returns, within its 500 ms and a tick to read the clock before and
  after, whatever the device does, as long as the millisecond counter does not wrap meanwhile.\<close>

theorem control_transfer_returns:
  assumes "ms_clock E now lag" "now (hw s) + 520 < 2 ^ 32"
  shows "\<exists>ok s'. uhci_control_transfer E dev_addr low_speed setup_pkt data data_len is_in s = Some (ok, s') \<and>
    now (hw s') \<le> now (hw s) + 520"
  by (rule control_transfer_ends [OF assms])

theorem control_transfer_returns_witness:
  "\<exists>ok s'. uhci_control_transfer sample_hc 1 False (replicate 8 0) None 0 True sample_usb = Some (ok, s') \<and>
    id (hw s') \<le> id (hw sample_usb) + 520"
  by (rule control_transfer_returns [OF sample_clock]) (simp add: sample_usb_def)

end
