(* ===== verification/Uhci_Chain.thy ===== *)
theory Uhci_Chain
  imports Uhci_Spec
begin

text \<open>
  The descriptor chain of a control transfer, read the way the controller reads it: tokens decode to
  the packet meant, addresses are aligned and distinct, and the chain covers the buffer.
\<close>

section \<open>The descriptor chain\<close>

text \<open>What the controller sees of a descriptor: PID, device, data toggle, length and buffer.\<close>

type_synonym packet = "u8 \<times> u8 \<times> bool \<times> u32 \<times> u32"

definition packet_of :: "uhci_td_t \<Rightarrow> packet" where
  "packet_of td =
     (ucast (td_token td), ucast (drop_bit 8 (td_token td) AND 0x7F), bit (td_token td) 19,
      (drop_bit 21 (td_token td) + 1) AND 0x7FF, td_buffer td)"

text \<open>The descriptors from a link pointer on, up to the terminating one.\<close>

fun follow_links :: "nat \<Rightarrow> (u32 \<Rightarrow> uhci_td_t) \<Rightarrow> u32 \<Rightarrow> uhci_td_t list" where
  "follow_links 0 m lp = []"
| "follow_links (Suc n) m lp =
     (if lp AND UHCI_LP_TERMINATE \<noteq> 0 then []
      else m (lp AND NOT 0xF) # follow_links n m (td_link (m (lp AND NOT 0xF))))"

text \<open>A buffer of \<open>n\<close> bytes in packets of at most 64, with alternating toggle.\<close>

function data_plan :: "u8 \<Rightarrow> u8 \<Rightarrow> u32 \<Rightarrow> nat \<Rightarrow> bool \<Rightarrow> packet list" where
  "data_plan pid dev ptr n tg =
     (if n = 0 then [] else (pid, dev, tg, of_nat (min 64 n), ptr) # data_plan pid dev (ptr + of_nat (min 64 n)) (n - min 64 n) (\<not> tg))"
  by pat_completeness auto
termination
  by (relation "measure (\<lambda>(_, _, _, n, _). n)") auto

declare data_plan.simps [simp del]

lemma data_plan_length: "length (data_plan pid dev ptr n tg) \<le> n"
proof (induction pid dev ptr n tg rule: data_plan.induct)
  case (1 pid dev ptr n tg)
  show ?case
  proof (cases "n = 0")
    case False
    then have "length (data_plan pid dev (ptr + of_nat (min 64 n)) (n - min 64 n) (\<not> tg)) \<le> n - min 64 n" by (rule 1)
    then show ?thesis using False by (subst data_plan.simps) simp
  qed (simp add: data_plan.simps)
qed

lemma tok_bits:
  "bit (td_token_of pid dev ep tg ml) n \<longleftrightarrow> n < 32 \<and> ((n < 8 \<and> bit pid n) \<or> (8 \<le> n \<and> n < 15 \<and> bit dev (n - 8)) \<or>
     (15 \<le> n \<and> n < 19 \<and> bit ep (n - 15)) \<or> (n = 19 \<and> bit tg 0) \<or> bit ml n)"
proof -
  have m: "(0xFF :: u32) = mask 8" "(0x7F :: u32) = mask 7" "(0x0F :: u32) = mask 4" "(1 :: u32) = mask 1"
    by (simp_all add: mask_eq_exp_minus_1)
  have b: "bit (ml :: u32) n \<Longrightarrow> n < 32" by (drule bit_imp_le_length) simp
  show ?thesis
    unfolding td_token_of_def TD_TOKEN_PID_def TD_TOKEN_DEVADDR_def TD_TOKEN_ENDPT_def TD_TOKEN_TOGGLE_def m
      bit_or_iff bit_push_bit_iff bit_and_iff bit_mask_iff bit_unsigned_iff
    using b by (cases "n = 19") auto
qed

lemma packet_of_token:
  assumes "ml AND mask 21 = 0" "dev < 128" "drop_bit 21 ml + 1 = k" "td_token td = td_token_of pid dev 0 tg ml"
  shows "packet_of td = (pid, dev, bit tg 0, k AND 0x7FF, td_buffer td)"
proof -
  have lo: "bit ml n \<Longrightarrow> 21 \<le> n" for n
    using arg_cong [OF assms(1), of "\<lambda>w. bit w n"] by (auto simp: bit_and_iff bit_mask_iff not_le dest: bit_imp_le_length)
  have d7: "bit dev n \<Longrightarrow> n < 7" for n using low_bits [of dev 7 n] assms(2) by simp
  have m: "(0x7F :: u32) = mask 7" by (simp add: mask_eq_exp_minus_1)
  have p8: "bit (pid :: u8) n \<Longrightarrow> n < 8" for n by (drule bit_imp_le_length) simp
  have "ucast (td_token td) = pid"
    by (rule bit_word_eqI) (auto simp: assms(4) bit_unsigned_iff tok_bits dest: lo)
  moreover have "ucast (drop_bit 8 (td_token td) AND 0x7F) = dev"
    by (rule bit_word_eqI) (auto simp: assms(4) m bit_unsigned_iff bit_and_iff bit_mask_iff bit_drop_bit_eq tok_bits dest: lo d7)
  moreover have "bit (td_token td) 19 = bit tg 0" by (auto simp: assms(4) tok_bits dest: lo)
  moreover have "drop_bit 21 (td_token td) = drop_bit 21 ml"
    by (rule bit_word_eqI) (auto simp: assms(4) bit_drop_bit_eq tok_bits dest: bit_imp_le_length)
  ultimately show ?thesis using assms(3) by (simp add: packet_of_def)
qed

lemma maxlen_facts:
  assumes "0 < n" "n \<le> (64 :: u16)"
  shows "TD_TOKEN_MAXLEN n AND mask 21 = 0" "drop_bit 21 (TD_TOKEN_MAXLEN n) + 1 = ucast n" "ucast n < (2 ^ 11 :: u32)"
    "(ucast n :: u32) AND 0x7FF = ucast n"
proof -
  have m: "(0x7FF :: u32) = mask 11" by (simp add: mask_eq_exp_minus_1)
  have u: "0 < unat n" "unat n \<le> 64" using assms by (simp_all add: word_less_nat_alt word_le_nat_alt)
  have un: "unat (ucast n :: u32) = unat n"
    using unsigned_less [of n, where ?'a = nat] by (simp add: unsigned_ucast_eq take_bit_nat_eq_self)
  have s: "unat (ucast n - 1 :: u32) = unat n - 1" using u un by (subst unat_sub) (simp_all add: word_le_nat_alt)
  have "(ucast n - 1 :: u32) < 2 ^ 11" using u s by (simp add: word_less_nat_alt)
  then have e: "(ucast n - 1) AND (0x7FF :: u32) = ucast n - 1" unfolding m by (rule less_mask_eq)
  show "TD_TOKEN_MAXLEN n AND mask 21 = 0"
    by (rule bit_word_eqI) (auto simp: TD_TOKEN_MAXLEN_def bit_and_iff bit_mask_iff bit_push_bit_iff)
  have "drop_bit 21 (push_bit 21 w) = w" if "w < (2 ^ 11 :: u32)" for w
  proof (rule bit_word_eqI)
    fix k assume "k < LENGTH(32)"
    then show "bit (drop_bit 21 (push_bit 21 w)) k = bit w k"
      using low_bits [OF that, of k] by (auto simp: bit_drop_bit_eq bit_push_bit_iff)
  qed
  then show "drop_bit 21 (TD_TOKEN_MAXLEN n) + 1 = ucast n"
    using \<open>(ucast n - 1 :: u32) < 2 ^ 11\<close> e by (simp add: TD_TOKEN_MAXLEN_def)
  show l: "ucast n < (2 ^ 11 :: u32)" using u un by (simp add: word_less_nat_alt)
  show "(ucast n :: u32) AND 0x7FF = ucast n" unfolding m using l by (rule less_mask_eq)
qed

subsection \<open>Addresses\<close>

definition arena_ok :: "('d, 'z) uhci_scheme \<Rightarrow> bool" where
  "arena_ok s \<longleftrightarrow> unat (uheap_base s) + 2 ^ 21 + 64 < 2 ^ 32 \<and> unat (uheap_ptr s) \<le> 2 ^ 21"

definition heap_top :: "('d, 'z) uhci_scheme \<Rightarrow> nat" where
  "heap_top s = unat (uheap_base s) + unat (uheap_ptr s)"

definition aligned16 :: "u32 \<Rightarrow> bool" where
  "aligned16 a \<longleftrightarrow> a AND 0xF = 0"

lemma mask4: "(0xF :: u32) = mask 4"
  by (simp add: mask_eq_exp_minus_1)

lemma align_down: "unat (x AND NOT 0xF :: u32) = unat x div 16 * 16"
proof -
  have "x AND NOT 0xF = push_bit 4 (drop_bit 4 x)"
    unfolding mask4 by (rule bit_word_eqI) (auto simp: bit_simps not_less dest!: le_Suc_ex)
  moreover have "unat (drop_bit 4 x) = unat x div 16" by (simp add: unat_div drop_bit_eq_div)
  moreover have "unat x div 16 * 16 < 2 ^ 32"
    using unsigned_less [of x, where ?'a = nat] div_times_less_eq_dividend [of "unat x" 16] by simp
  ultimately show ?thesis by (simp add: push_bit_eq_mult unat_word_ariths)
qed

lemma aligned_down: "aligned16 (x AND NOT 0xF)"
  unfolding aligned16_def mask4 by (rule bit_word_eqI) (simp add: bit_simps)

lemma aligned_link:
  assumes "aligned16 a"
  shows "(a OR 4) AND NOT 0xF = a" "a AND NOT 0xF = a" "(a OR 4) AND 1 = 0" "a AND 1 = 0"
proof -
  have lo: "bit a n \<Longrightarrow> 4 \<le> n" for n
    using arg_cong [OF assms [unfolded aligned16_def mask4], of "\<lambda>w. bit w n"]
    by (auto simp: bit_and_iff bit_mask_iff not_le dest: bit_imp_le_length)
  have m: "(4 :: u32) = push_bit 2 1" "(1 :: u32) = mask 1" by (simp_all add: mask_eq_exp_minus_1)
  show "(a OR 4) AND NOT 0xF = a" "a AND NOT 0xF = a" "(a OR 4) AND 1 = 0" "a AND 1 = 0"
    unfolding mask4 m
    by (rule bit_word_eqI, auto simp only: bit_and_iff bit_or_iff bit_not_iff bit_mask_iff bit_push_bit_iff bit_1_iff
        dest: lo; auto dest: lo bit_imp_le_length)+
qed

lemma aligned_link16: "aligned16 a \<Longrightarrow> (a OR 4) AND - 16 = a" "aligned16 a \<Longrightarrow> a AND - 16 = a"
  using aligned_link(1,2) [of a] by simp_all

lemma outside_block:
  assumes "unat x < unat (a :: u32)" "unat a + n \<le> 2 ^ 32"
  shows "n \<le> unat (x - a)"
proof -
  have "x < a" using assms(1) by (simp add: word_less_nat_alt)
  then have "unat (x - a) = unat x + 2 ^ 32 - unat a" using assms(1) by (simp add: unat_sub_if_size word_size)
  then show ?thesis using assms by simp
qed

lemma alloc_td_spec:
  assumes "uhci_alloc_td s = (Some a, s1)" "arena_ok s"
  shows "arena_ok s1" "heap_top s \<le> unat a" "unat a < heap_top s1" "heap_top s \<le> heap_top s1" "aligned16 a"
    "tds (ram s1) = (tds (ram s))(a := zero_td)" "qhs (ram s1) = qhs (ram s)"
    "unat x < heap_top s \<Longrightarrow> ubytes (ram s1) x = ubytes (ram s) x"
proof -
  let ?p = "uheap_ptr s" and ?b = "uheap_base s"
  have r: "round4 48 = 48" by (simp add: round4_def)
  have lim: "unat ?p \<le> 2 ^ 21" "unat ?b + 2 ^ 21 + 64 < 2 ^ 32" using assms(2) by (simp_all add: arena_ok_def)
  have k: "\<not> ?p + 48 > HEAP_SIZE"
    using assms(1) by (auto simp: uhci_alloc_td_def usb_kmalloc_def kmalloc_ptr_def r Let_def split: if_splits)
  have up: "unat (?p + 48) = unat ?p + 48" using lim by (simp add: unat_word_ariths)
  then have p48: "unat ?p + 48 \<le> 2 ^ 21" using k by (simp add: word_less_nat_alt)
  have a: "a = (?b + ?p + 15) AND NOT 0xF"
    and s1: "s1 = upd_td a (\<lambda>_. zero_td) (put_bytes (?b + ?p) (replicate (unat (48 :: u32)) 0) (s\<lparr>uheap_ptr := ?p + 48\<rparr>))"
    using assms(1) k by (auto simp: uhci_alloc_td_def usb_kmalloc_def kmalloc_ptr_def r Let_def)
  have ua: "unat (?b + ?p + 15) = unat ?b + unat ?p + 15" using lim by (simp add: unat_word_ariths)
  have "unat a = (unat ?b + unat ?p + 15) div 16 * 16" unfolding a align_down ua by simp
  then have b: "unat ?b + unat ?p \<le> unat a" "unat a \<le> unat ?b + unat ?p + 15" by linarith+
  show "arena_ok s1" using lim p48 up by (simp add: arena_ok_def s1)
  show "heap_top s \<le> unat a" "unat a < heap_top s1" "heap_top s \<le> heap_top s1"
    using b up by (simp_all add: heap_top_def s1)
  show "aligned16 a" unfolding a by (rule aligned_down)
  show "tds (ram s1) = (tds (ram s))(a := zero_td)" "qhs (ram s1) = qhs (ram s)" by (simp_all add: s1)
  show "ubytes (ram s1) x = ubytes (ram s) x" if x: "unat x < heap_top s"
  proof -
    have "unat (?b + ?p) = unat ?b + unat ?p" using lim by (simp add: unat_word_ariths)
    then have "48 \<le> unat (x - (?b + ?p))" using x lim by (intro outside_block) (simp_all add: heap_top_def)
    then show ?thesis by (simp add: s1 put_bytes_def upd_td_def)
  qed
qed

subsection \<open>The data stage\<close>

fun chained :: "(u32 \<Rightarrow> uhci_td_t) \<Rightarrow> u32 \<Rightarrow> u32 list \<Rightarrow> bool" where
  "chained m a [] = True"
| "chained m a (b # bs) = (td_link (m a) = b OR UHCI_LP_DEPTH \<and> chained m b bs)"

lemma chained_cong: "(\<And>x. x \<in> set (butlast (a # bs)) \<Longrightarrow> td_link (m' x) = td_link (m x)) \<Longrightarrow> chained m' a bs = chained m a bs"
  by (induction bs arbitrary: a) auto

lemma chained_snoc: "chained m a (bs @ [c]) \<longleftrightarrow> chained m a bs \<and> td_link (m (last (a # bs))) = c OR UHCI_LP_DEPTH"
  by (induction bs arbitrary: a) auto

lemma packet_link [simp]: "packet_of (t\<lparr>td_link := x\<rparr>) = packet_of t"
  by (simp add: packet_of_def)

lemma heap_top_simps [simp]:
  "heap_top (upd_td a f s) = heap_top s" "heap_top (upd_qh a g s) = heap_top s" "heap_top (put_bytes a bs s) = heap_top s"
  "arena_ok (upd_td a f s) = arena_ok s" "arena_ok (upd_qh a g s) = arena_ok s" "arena_ok (put_bytes a bs s) = arena_ok s"
  "ubytes (ram (upd_td a f s)) = ubytes (ram s)" "ubytes (ram (upd_qh a g s)) = ubytes (ram s)"
  by (simp_all add: heap_top_def arena_ok_def upd_td_def upd_qh_def)

text \<open>What \<open>data_tds\<close> has built behind \<open>last_td\<close>: the descriptors \<open>ds\<close>.\<close>

definition data_built ::
  "packet list \<Rightarrow> u32 \<Rightarrow> u32 list \<Rightarrow> ('d, 'z) uhci_scheme \<Rightarrow> ('d, 'z) uhci_scheme \<Rightarrow> bool" where
  "data_built plan last_td ds s s1 \<longleftrightarrow>
     arena_ok s1 \<and> heap_top s \<le> heap_top s1 \<and> qhs (ram s1) = qhs (ram s) \<and>
     chained (tds (ram s1)) last_td ds \<and> distinct ds \<and>
     (\<forall>d \<in> set ds. aligned16 d \<and> heap_top s \<le> unat d \<and> unat d < heap_top s1) \<and>
     map (packet_of \<circ> tds (ram s1)) ds = plan \<and>
     (\<forall>a. unat a < heap_top s \<longrightarrow> a \<noteq> last_td \<longrightarrow> tds (ram s1) a = tds (ram s) a) \<and>
     (\<exists>x. tds (ram s1) last_td = (tds (ram s) last_td)\<lparr>td_link := x\<rparr>) \<and>
     (\<forall>x. unat x < heap_top s \<longrightarrow> ubytes (ram s1) x = ubytes (ram s) x)"

lemma data_built_nil: "arena_ok s \<Longrightarrow> data_built [] a [] s s"
proof -
  have "\<exists>x. tds (ram s) a = (tds (ram s) a)\<lparr>td_link := x\<rparr>" by (rule exI [of _ "td_link (tds (ram s) a)"]) simp
  then show "arena_ok s \<Longrightarrow> data_built [] a [] s s" by (simp add: data_built_def)
qed

lemma chunk_facts:
  assumes "0 < (rem :: u16)"
  defines "chunk \<equiv> if rem > 64 then 64 else rem"
  shows "0 < chunk" "chunk \<le> 64" "ucast chunk = (of_nat (min 64 (unat rem)) :: u32)"
    "unat (rem - chunk) = unat rem - min 64 (unat rem)"
proof -
  have c: "unat chunk = min 64 (unat rem)" by (auto simp: chunk_def word_less_nat_alt)
  show "0 < chunk" "chunk \<le> 64" using assms(1) c by (simp_all add: word_less_nat_alt word_le_nat_alt)
  have "(ucast chunk :: u32) = of_nat (unat chunk)" 
    using unsigned_less [of chunk, where ?'a = nat]
    by (simp add: word_unat_eq_iff unsigned_ucast_eq take_bit_nat_eq_self unat_of_nat_eq)
  then show "ucast chunk = (of_nat (min 64 (unat rem)) :: u32)" using c by simp
  have "chunk \<le> rem" using c by (simp add: word_le_nat_alt)
  then show "unat (rem - chunk) = unat rem - min 64 (unat rem)" using c by (simp add: unat_sub)
qed

lemma data_tds_built:
  assumes "data_tds pid dev ls is_in tg ptr rem last_td s = (Some l, s1)" "arena_ok s"
    "unat last_td < heap_top s" "dev < 128"
  shows "\<exists>ds. data_built (data_plan pid dev ptr (unat rem) (bit tg 0)) last_td ds s s1 \<and> l = last (last_td # ds)"
  using assms
proof (induction pid dev ls is_in tg ptr rem last_td s rule: data_tds.induct)
  case (1 pid dev ls is_in tg ptr rem last_td s)
  show ?case
  proof (cases "0 < rem")
    case False
    then have "rem = 0" by (simp add: word_gt_0)
    then have "l = last_td" "s1 = s" using 1(2) by (simp_all add: data_tds.simps)
    then show ?thesis using data_built_nil [OF 1(3)] \<open>rem = 0\<close>
      by (intro exI [of _ "[]"]) (simp add: data_plan.simps)
  next
    case True
    let ?chunk = "if rem > 64 then 64 else rem"
    obtain q s2 where q: "uhci_alloc_td s = (q, s2)" by fastforce
    obtain d where d: "q = Some d" using 1(2) True q by (cases q) (simp_all add: data_tds.simps)
    note A = alloc_td_spec [OF q [unfolded d] 1(3)]
    define s3 where "s3 = upd_td d (\<lambda>t. t\<lparr>td_status := (TD_STS_ACTIVE OR TD_STS_ERRCNT 3 OR ls) OR (if is_in then TD_STS_SPD else 0),
        td_token := td_token_of pid dev 0 tg (TD_TOKEN_MAXLEN ?chunk), td_buffer := ptr\<rparr>) s2"
    define s4 where "s4 = upd_td last_td (\<lambda>t. t\<lparr>td_link := d OR UHCI_LP_DEPTH\<rparr>) s3"
    have rec: "data_tds pid dev ls is_in (tg XOR 1) (ptr + ucast ?chunk) (rem - ?chunk) d s4 = (Some l, s1)"
      using 1(2) True q d by (simp add: data_tds.simps [of _ _ _ _ _ _ rem] s3_def s4_def Let_def)
    have top: "heap_top s4 = heap_top s2" "arena_ok s4" using A(1) by (simp_all add: s3_def s4_def)
    have ne: "d \<noteq> last_td" using A(2) 1(4) by auto
    obtain ds where D: "data_built (data_plan pid dev (ptr + ucast ?chunk) (unat (rem - ?chunk)) (bit (tg XOR 1) 0)) d ds s4 s1"
        and l: "l = last (d # ds)"
      using 1(1) [OF _ refl q [symmetric] d s3_def s4_def] rec top 1(5) A(3) True by auto
    note D = D [unfolded data_built_def]
    obtain x where x: "tds (ram s1) d = (tds (ram s4) d)\<lparr>td_link := x\<rparr>" using D by blast
    have t4: "tds (ram s4) d = (zero_td\<lparr>td_status := (TD_STS_ACTIVE OR TD_STS_ERRCNT 3 OR ls) OR (if is_in then TD_STS_SPD else 0),
        td_token := td_token_of pid dev 0 tg (TD_TOKEN_MAXLEN ?chunk), td_buffer := ptr\<rparr>)"
      "tds (ram s4) last_td = (tds (ram s) last_td)\<lparr>td_link := d OR UHCI_LP_DEPTH\<rparr>"
      "a \<noteq> d \<Longrightarrow> a \<noteq> last_td \<Longrightarrow> tds (ram s4) a = tds (ram s) a" for a
      using ne by (simp_all add: s4_def s3_def A(6))
    have ch: "0 < ?chunk" "?chunk \<le> 64" "ptr + ucast ?chunk = ptr + of_nat (min 64 (unat rem))"
      "ucast ?chunk = (of_nat (min 64 (unat rem)) :: u32)" "unat (rem - ?chunk) = unat rem - min 64 (unat rem)"
      using chunk_facts [OF True] by simp_all
    have pk: "packet_of (tds (ram s1) d) = (pid, dev, bit tg 0, of_nat (min 64 (unat rem)), ptr)"
    proof -
      note M = maxlen_facts [OF ch(1,2)]
      have "packet_of (tds (ram s4) d) = (pid, dev, bit tg 0, ucast ?chunk AND 0x7FF, td_buffer (tds (ram s4) d))"
        by (rule packet_of_token [OF M(1) 1(5) M(2)]) (simp add: t4)
      moreover have "ucast ?chunk AND (0x7FF :: u32) = of_nat (min 64 (unat rem))" by (simp only: M(4)) (rule ch(4))
      ultimately show ?thesis unfolding x packet_link by (simp add: t4)
    qed
    have old: "tds (ram s1) a = tds (ram s4) a" if "unat a < heap_top s2" "a \<noteq> d" for a
      using D that top by simp
    have l2: "unat last_td < heap_top s2" using 1(4) A(4) by simp
    have "data_built (data_plan pid dev ptr (unat rem) (bit tg 0)) last_td (d # ds) s s1"
      unfolding data_built_def
    proof (intro conjI)
      show "chained (tds (ram s1)) last_td (d # ds)" using D old [OF l2] ne t4(2) by simp
      show "distinct (d # ds)" using D A(3) top by auto
      show "\<forall>d \<in> set (d # ds). aligned16 d \<and> heap_top s \<le> unat d \<and> unat d < heap_top s1"
        using D A(2-5) top by auto
      show "map (packet_of \<circ> tds (ram s1)) (d # ds) = data_plan pid dev ptr (unat rem) (bit tg 0)"
        using D pk True ch(3,5) by (subst data_plan.simps) (auto simp: word_less_nat_alt bit_xor_iff)
      show "\<forall>a. unat a < heap_top s \<longrightarrow> a \<noteq> last_td \<longrightarrow> tds (ram s1) a = tds (ram s) a"
        using old A(2,4) t4(3) by (metis leD le_less_trans less_le_trans)
      show "\<exists>x. tds (ram s1) last_td = (tds (ram s) last_td)\<lparr>td_link := x\<rparr>"
        using old [OF l2] ne t4(2) by auto
      show "\<forall>x. unat x < heap_top s \<longrightarrow> ubytes (ram s1) x = ubytes (ram s) x"
        using D A(8) A(4) top by (simp add: s4_def s3_def)
      show "qhs (ram s1) = qhs (ram s)" using D A(7) by (simp add: s4_def s3_def)
    qed (use D A(4) top in auto)
    then show ?thesis using l by (intro exI [of _ "d # ds"]) simp
  qed
qed

lemma alloc_qh_arena:
  assumes "uhci_alloc_qh s = (Some q, s1)" "arena_ok s"
  shows "arena_ok s1"
proof -
  let ?p = "uheap_ptr s"
  have r: "round4 32 = 32" by (simp add: round4_def)
  have k: "\<not> ?p + 32 > HEAP_SIZE" and s1: "uheap_ptr s1 = ?p + 32" "uheap_base s1 = uheap_base s"
    using assms(1) by (auto simp: uhci_alloc_qh_def usb_kmalloc_def kmalloc_ptr_def r Let_def split: if_splits)
  have "unat (?p + 32) = unat ?p + 32" using assms(2) by (simp add: arena_ok_def unat_word_ariths)
  then show ?thesis using assms(2) k by (simp add: arena_ok_def s1 word_less_nat_alt)
qed

lemma kmalloc8_spec:
  assumes "usb_kmalloc 8 s = (Some b, s1)" "arena_ok s"
  shows "arena_ok s1" "unat b = heap_top s" "heap_top s1 = heap_top s + 8" "tds (ram s1) = tds (ram s)"
proof -
  let ?p = "uheap_ptr s"
  have r: "round4 8 = 8" by (simp add: round4_def)
  have k: "\<not> ?p + 8 > HEAP_SIZE" and s1: "uheap_ptr s1 = ?p + 8" "uheap_base s1 = uheap_base s" "b = uheap_base s + ?p"
    using assms(1) by (auto simp: usb_kmalloc_def kmalloc_ptr_def r Let_def put_bytes_def split: if_splits)
  have u: "unat (?p + 8) = unat ?p + 8" using assms(2) by (simp add: arena_ok_def unat_word_ariths)
  then show "arena_ok s1" using assms(2) k by (simp add: arena_ok_def s1 word_less_nat_alt)
  show "unat b = heap_top s" using assms(2) by (simp add: arena_ok_def heap_top_def s1 unat_word_ariths)
  show "heap_top s1 = heap_top s + 8" by (simp add: heap_top_def s1 u)
  show "tds (ram s1) = tds (ram s)" by (rule kmalloc_io(2) [OF assms(1)])
qed

lemma follow_chained:
  assumes "aligned16 a" "lp = a \<or> lp = a OR UHCI_LP_DEPTH" "chained m a bs" "\<forall>b \<in> set bs. aligned16 b"
    "td_link (m (last (a # bs))) = UHCI_LP_TERMINATE" "length bs + 2 \<le> n"
  shows "follow_links n m lp = map m (a # bs)"
  using assms
proof (induction bs arbitrary: a lp n)
  case Nil
  then obtain k where n: "n = Suc (Suc k)" by (metis add_2_eq_Suc' le_Suc_ex list.size(3) plus_nat.simps(1) add.commute add_Suc_right)
  show ?case using Nil by (auto simp: n aligned_link aligned_link16)
next
  case (Cons b bs)
  then obtain k where n: "n = Suc k" "length bs + 2 \<le> k" by (cases n) auto
  have "follow_links k m (td_link (m a)) = map m (b # bs)"
    by (rule Cons.IH) (use Cons.prems n in auto)
  then show ?case using Cons.prems by (auto simp: n aligned_link aligned_link16)
qed

section \<open>The chain of a control transfer\<close>

definition setup_fields :: "u8 \<Rightarrow> u32 \<Rightarrow> u32 \<Rightarrow> uhci_td_t \<Rightarrow> uhci_td_t" where
  "setup_fields dev ls buf t = t\<lparr>td_status := TD_STS_ACTIVE OR TD_STS_ERRCNT 3 OR ls,
     td_token := td_token_of USB_PID_SETUP dev 0 0 (TD_TOKEN_MAXLEN 8), td_buffer := buf\<rparr>"

definition status_fields :: "u8 \<Rightarrow> u32 \<Rightarrow> bool \<Rightarrow> uhci_td_t \<Rightarrow> uhci_td_t" where
  "status_fields dev ls is_in t = t\<lparr>td_status := TD_STS_ACTIVE OR TD_STS_ERRCNT 3 OR TD_STS_IOC OR ls,
     td_token := td_token_of (if is_in then USB_PID_OUT else USB_PID_IN) dev 0 1 TD_TOKEN_MAXLEN0,
     td_buffer := 0, td_link := UHCI_LP_TERMINATE\<rparr>"

text \<open>The last steps: the status packet behind the packet \<open>l\<close>, and the queue head.\<close>

definition finish_chain ::
  "u8 \<Rightarrow> u32 \<Rightarrow> bool \<Rightarrow> u32 \<Rightarrow> u32 \<Rightarrow> u32 \<Rightarrow> u32 \<Rightarrow> ('d, 'z) uhci_scheme \<Rightarrow> ('d, 'z) uhci_scheme" where
  "finish_chain dev ls is_in qh st l stt s = upd_qh qh (\<lambda>_. \<lparr>qh_link = UHCI_LP_TERMINATE, qh_element = st\<rparr>)
     (upd_td l (\<lambda>t. t\<lparr>td_link := stt OR UHCI_LP_DEPTH\<rparr>) (upd_td stt (status_fields dev ls is_in) s))"

definition ctrl_plan :: "u8 \<Rightarrow> u32 option \<Rightarrow> u16 \<Rightarrow> bool \<Rightarrow> packet list" where
  "ctrl_plan dev data len is_in = (case data of None \<Rightarrow> []
     | Some p \<Rightarrow> data_plan (if is_in then USB_PID_IN else USB_PID_OUT) dev p (unat len) True)"

lemma build_chain_parts:
  assumes "build_chain dev low_speed pkt data len is_in s = (Some (qh, st, stt), s1)"
  defines "ls \<equiv> if low_speed then TD_STS_LS else 0"
  shows "\<exists>sa sb sc buf se sf sg l. uhci_alloc_qh s = (Some qh, sa) \<and> uhci_alloc_td sa = (Some st, sb) \<and>
    usb_kmalloc 8 sb = (Some buf, sc) \<and> se = upd_td st (setup_fields dev ls buf) (put_bytes buf pkt sc) \<and>
    (case data of None \<Rightarrow> (Some st, se) | Some ptr \<Rightarrow>
        data_tds (if is_in then USB_PID_IN else USB_PID_OUT) dev ls is_in 1 ptr len st se) = (Some l, sf) \<and>
    uhci_alloc_td sf = (Some stt, sg) \<and> s1 = finish_chain dev ls is_in qh st l stt sg"
  using assms(1) unfolding build_chain_def Let_def ls_def setup_fields_def [abs_def] finish_chain_def status_fields_def [abs_def]
  by (auto split: prod.splits option.splits)

lemma data_stage_built:
  assumes "(case data of None \<Rightarrow> (Some st, se) | Some ptr \<Rightarrow>
      data_tds (if is_in then USB_PID_IN else USB_PID_OUT) dev ls is_in 1 ptr len st se) = (Some l, sf)"
    and "arena_ok se" "unat st < heap_top se" "dev < 128"
  shows "\<exists>ds. data_built (ctrl_plan dev data len is_in) st ds se sf \<and> l = last (st # ds)"
proof (cases data)
  case None
  then have "l = st" "sf = se" using assms(1) by simp_all
  then show ?thesis using data_built_nil [OF assms(2)] None by (intro exI [of _ "[]"]) (simp add: ctrl_plan_def)
next
  case (Some p)
  then have "data_tds (if is_in then USB_PID_IN else USB_PID_OUT) dev ls is_in 1 p len st se = (Some l, sf)"
    using assms(1) by simp
  from data_tds_built [OF this assms(2-4)] show ?thesis by (simp add: Some ctrl_plan_def)
qed

text \<open>Finishing appends the status packet to the chain and leaves the packets before it alone.\<close>

lemma finish_chain_links:
  fixes s1 :: "('d, 'z) uhci_scheme"
  assumes "data_built plan st ds se sf" "l = last (st # ds)" "unat st < heap_top se"
    and "uhci_alloc_td sf = (Some stt, sg)" "s1 = finish_chain dev ls is_in qh st l stt sg"
  shows "chained (tds (ram s1)) st (ds @ [stt])" "tds (ram s1) stt = status_fields dev ls is_in zero_td"
    "\<And>a. a \<in> set (st # ds) \<Longrightarrow> packet_of (tds (ram s1) a) = packet_of (tds (ram sf) a)"
proof -
  note D = assms(1) [unfolded data_built_def]
  have osf: "arena_ok sf" "heap_top se \<le> heap_top sf" using D by blast+
  note SS = alloc_td_spec [OF assms(4) osf(1)]
  let ?m = "tds (ram s1)"
  have "\<forall>a \<in> set (st # ds). unat a < heap_top sf" using D assms(3) by auto
  then have nstt: "stt \<notin> set (st # ds)" using SS(2) by auto
  have "l \<in> set (st # ds)" unfolding assms(2) by (rule last_in_set) simp
  then have lne: "l \<noteq> stt" using nstt by blast
  have m: "?m stt = status_fields dev ls is_in zero_td" "?m l = (tds (ram sf) l)\<lparr>td_link := stt OR UHCI_LP_DEPTH\<rparr>"
    "\<And>a. a \<noteq> l \<Longrightarrow> a \<noteq> stt \<Longrightarrow> ?m a = tds (ram sf) a"
    using lne by (simp_all add: assms(5) finish_chain_def SS(6))
  have dist: "distinct (st # ds)" using D assms(3) by auto
  have "chained ?m st ds = chained (tds (ram sf)) st ds"
  proof (rule chained_cong)
    fix x assume x: "x \<in> set (butlast (st # ds))"
    then have "x \<noteq> l" using dist unfolding assms(2)
      by (metis append_butlast_last_id distinct_append list.discI list.set_intros(1) disjoint_iff)
    moreover have "x \<noteq> stt" using x nstt by (meson in_set_butlastD)
    ultimately show "td_link (?m x) = td_link (tds (ram sf) x)" using m(3) by simp
  qed
  then show "chained ?m st (ds @ [stt])" using D m(2) unfolding chained_snoc assms(2) [symmetric] by simp
  show "?m stt = status_fields dev ls is_in zero_td" by (rule m(1))
  show "packet_of (?m a) = packet_of (tds (ram sf) a)" if "a \<in> set (st # ds)" for a
  proof (cases "a = l")
    case False
    have "a \<noteq> stt" using that nstt by blast
    from m(3) [OF False this] show ?thesis by (rule arg_cong)
  qed (simp only: m(2) packet_link)
qed

lemma setup_status_packets:
  assumes "dev < 128"
  shows "packet_of (setup_fields dev ls buf t) = (USB_PID_SETUP, dev, False, 8, buf)"
    "packet_of (status_fields dev ls is_in t) = (if is_in then USB_PID_OUT else USB_PID_IN, dev, True, 0, 0)"
proof -
  show "packet_of (setup_fields dev ls buf t) = (USB_PID_SETUP, dev, False, 8, buf)"
    using packet_of_token [OF maxlen_facts(1) assms maxlen_facts(2), of 8 "setup_fields dev ls buf t" USB_PID_SETUP 0]
    by (simp add: setup_fields_def)
  have "TD_TOKEN_MAXLEN0 AND mask 21 = 0" "drop_bit 21 TD_TOKEN_MAXLEN0 + 1 = 0x800"
    by (simp_all add: TD_TOKEN_MAXLEN0_def mask_eq_exp_minus_1)
  from packet_of_token [OF this(1) assms this(2), of "status_fields dev ls is_in t" "if is_in then USB_PID_OUT else USB_PID_IN" 1]
  show "packet_of (status_fields dev ls is_in t) = (if is_in then USB_PID_OUT else USB_PID_IN, dev, True, 0, 0)"
    by (simp add: status_fields_def)
qed

text \<open>The eight bytes of the setup packet stay in their buffer while the rest is built.\<close>

lemma setup_bytes_kept:
  assumes "usb_kmalloc 8 sb = (Some buf, sc)" "arena_ok sb" "length pkt = 8"
    and "data_built plan st ds (upd_td st f (put_bytes buf pkt sc)) sf"
    and "uhci_alloc_td sf = (Some stt, sg)" "i < 8"
  shows "ubytes (ram (finish_chain dev ls is_in qh st l stt sg)) (buf + of_nat i) = pkt ! i"
proof -
  let ?se = "upd_td st f (put_bytes buf pkt sc)"
  note K = kmalloc8_spec [OF assms(1,2)]
  note D = assms(4) [unfolded data_built_def]
  have osf: "arena_ok sf" "heap_top ?se \<le> heap_top sf" using D by blast+
  have "heap_top ?se \<le> unat (uheap_base sc) + 2 ^ 21" using K(1) by (simp add: heap_top_def arena_ok_def)
  then have "unat (buf + of_nat i) = unat buf + i"
    using K(1-3) assms(6) by (simp add: unat_word_ariths unat_of_nat_eq arena_ok_def)
  then have lt: "unat (buf + of_nat i) < heap_top ?se" using K(2,3) assms(6) by simp
  then have "ubytes (ram (finish_chain dev ls is_in qh st l stt sg)) (buf + of_nat i) = ubytes (ram sf) (buf + of_nat i)"
    using alloc_td_spec(8) [OF assms(5) osf(1)] osf(2) by (simp add: finish_chain_def)
  also have "\<dots> = ubytes (ram ?se) (buf + of_nat i)" using D lt by blast
  also have "\<dots> = pkt ! i" using assms(3,6) by (simp add: put_bytes_def upd_td_def unat_of_nat_eq)
  finally show ?thesis .
qed

section \<open>Properties\<close>

text \<open>C36: The controller executes exactly the transfer asked for. Following the links from the queue
  head it sees the SETUP packet with the eight setup bytes, the data stage in packets of at most 64
  bytes that cover the buffer in order with alternating toggles from DATA1, and the zero-length
  status packet in the opposite direction with DATA1, and then the end of the list. Packets are told
  from PID, device, toggle, length and buffer; the status words and the endpoint are not looked at.\<close>

theorem control_chain_packets:
  assumes "build_chain dev low_speed pkt data len is_in s = (Some (qh, st, stt), s1)"
    and "arena_ok s" "dev < 128" "length pkt = 8" "unat len + 3 \<le> n"
  shows "\<exists>buf. map packet_of (follow_links n (tds (ram s1)) (qh_element (qhs (ram s1) qh))) =
      (USB_PID_SETUP, dev, False, 8, buf) #
      (case data of None \<Rightarrow> [] | Some p \<Rightarrow> data_plan (if is_in then USB_PID_IN else USB_PID_OUT) dev p (unat len) True) @
      [(if is_in then USB_PID_OUT else USB_PID_IN, dev, True, 0, 0)] \<and>
    (\<forall>i < 8. ubytes (ram s1) (buf + of_nat i) = pkt ! i)"
proof -
  let ?ls = "if low_speed then TD_STS_LS else 0"
  obtain sa sb sc buf se sf sg l where p: "uhci_alloc_qh s = (Some qh, sa)" "uhci_alloc_td sa = (Some st, sb)"
    "usb_kmalloc 8 sb = (Some buf, sc)" "se = upd_td st (setup_fields dev ?ls buf) (put_bytes buf pkt sc)"
    "(case data of None \<Rightarrow> (Some st, se) | Some ptr \<Rightarrow>
        data_tds (if is_in then USB_PID_IN else USB_PID_OUT) dev ?ls is_in 1 ptr len st se) = (Some l, sf)"
    "uhci_alloc_td sf = (Some stt, sg)" "s1 = finish_chain dev ?ls is_in qh st l stt sg"
    using build_chain_parts [OF assms(1)] by blast
  note ST = alloc_td_spec [OF p(2) alloc_qh_arena [OF p(1) assms(2)]]
  note K = kmalloc8_spec [OF p(3) ST(1)]
  have oe: "arena_ok se" "unat st < heap_top se" using K ST(3) by (simp_all add: p(4))
  obtain ds where D: "data_built (ctrl_plan dev data len is_in) st ds se sf" and l: "l = last (st # ds)"
    using data_stage_built [OF p(5) oe assms(3)] by blast
  note F = finish_chain_links [OF D l oe(2) p(6,7)] and B = D [unfolded data_built_def]
  let ?m = "tds (ram s1)"
  have "length ds = length (ctrl_plan dev data len is_in)" using B by (metis length_map)
  moreover have "length (ctrl_plan dev data len is_in) \<le> unat len" by (simp add: ctrl_plan_def data_plan_length split: option.split)
  ultimately have n: "length (ds @ [stt]) + 2 \<le> n" using assms(5) by simp
  have f: "follow_links n ?m (qh_element (qhs (ram s1) qh)) = map ?m (st # ds @ [stt])"
  proof (rule follow_chained [OF ST(5) _ F(1) _ _ n])
    show "qh_element (qhs (ram s1) qh) = st \<or> qh_element (qhs (ram s1) qh) = st OR UHCI_LP_DEPTH"
      by (simp add: p(7) finish_chain_def)
    show "\<forall>b \<in> set (ds @ [stt]). aligned16 b" using B alloc_td_spec(5) [OF p(6)] by auto
    show "td_link (?m (last (st # ds @ [stt]))) = UHCI_LP_TERMINATE" using F(2) by (simp add: status_fields_def)
  qed
  obtain x where "tds (ram sf) st = (tds (ram se) st)\<lparr>td_link := x\<rparr>" using B by blast
  then have "packet_of (?m st) = packet_of (setup_fields dev ?ls buf zero_td)"
    using F(3) [of st] by (simp add: p(4) K(4) ST(6))
  moreover have "map packet_of (map ?m ds) = map (packet_of \<circ> tds (ram sf)) ds" using F(3) by simp
  then have "map packet_of (map ?m ds) = ctrl_plan dev data len is_in" using B by simp
  moreover have "\<forall>i < 8. ubytes (ram s1) (buf + of_nat i) = pkt ! i"
    using setup_bytes_kept [OF p(3) ST(1) assms(4) D [unfolded p(4)] p(6)] unfolding p(7) by blast
  ultimately show ?thesis unfolding f
    using setup_status_packets [OF assms(3)] F(2) by (intro exI [of _ buf]) (simp add: ctrl_plan_def)
qed

theorem control_chain_packets_witness:
  "\<exists>qh st stt s1. build_chain 5 False [0x80, 6, 0, 1, 0, 0, 18, 0] (Some 0x9000) 18 True sample_usb = (Some (qh, st, stt), s1) \<and>
    (\<exists>buf. map packet_of (follow_links 21 (tds (ram s1)) (qh_element (qhs (ram s1) qh))) =
      (USB_PID_SETUP, 5, False, 8, buf) # data_plan USB_PID_IN 5 0x9000 18 True @ [(USB_PID_OUT, 5, True, 0, 0)])"
proof -
  have "fst (build_chain 5 False [0x80, 6, 0, 1, 0, 0, 18, 0] (Some 0x9000) 18 True sample_usb) \<noteq> None"
    by (simp add: build_chain_def sample_usb_def uhci_alloc_qh_def uhci_alloc_td_def usb_kmalloc_def
        kmalloc_ptr_def round4_def Let_def data_tds.simps put_bytes_def upd_td_def upd_qh_def)
  then obtain qh st stt s1 where b:
    "build_chain 5 False [0x80, 6, 0, 1, 0, 0, 18, 0] (Some 0x9000) 18 True sample_usb = (Some (qh, st, stt), s1)"
    by (metis option.exhaust prod.collapse)
  have "arena_ok sample_usb" by (simp add: arena_ok_def sample_usb_def)
  then have "\<exists>buf. map packet_of (follow_links 21 (tds (ram s1)) (qh_element (qhs (ram s1) qh))) =
      (USB_PID_SETUP, 5, False, 8, buf) #
      (case Some 0x9000 of None \<Rightarrow> [] | Some p \<Rightarrow> data_plan (if True then USB_PID_IN else USB_PID_OUT) 5 p (unat (18 :: u16)) True) @
      [(if True then USB_PID_OUT else USB_PID_IN, 5, True, 0, 0)] \<and>
    (\<forall>i < 8. ubytes (ram s1) (buf + of_nat i) = [0x80, 6, 0, 1, 0, 0, 18, 0] ! i)"
    by (intro control_chain_packets [OF b]) simp_all
  then show ?thesis using b by auto
qed

end
