(* ===== verification/Uhci_Poll.thy ===== *)
theory Uhci_Poll
  imports Uhci_Chain
begin

text \<open>
  Periodic polling: what the controller finds in each frame after \<open>uhci_insert_periodic_td\<close> and
  \<open>uhci_remove_periodic_td\<close>. A descriptor has a single link, which every frame it is put in
  shares.
\<close>

text \<open>The descriptors the controller visits from a frame list entry on.\<close>

fun polled :: "nat \<Rightarrow> (u32 \<Rightarrow> uhci_td_t) \<Rightarrow> u32 \<Rightarrow> u32 list" where
  "polled 0 m lp = []"
| "polled (Suc n) m lp =
     (if lp AND UHCI_LP_TERMINATE \<noteq> 0 then [] else (lp AND NOT 0xF) # polled n m (td_link (m (lp AND NOT 0xF))))"

definition polled_in :: "nat \<Rightarrow> ('d, 'z) uhci_scheme \<Rightarrow> u32 list" where
  "polled_in i s = polled 64 (tds (ram s)) (frames (ram s) ! i)"

lemma insert_td_spec:
  assumes "distinct is" "\<forall>i \<in> set is. i < length (frames (ram s))"
  shows "length (frames (ram (insert_td td is s))) = length (frames (ram s)) \<and>
    (\<forall>j < length (frames (ram s)). frames (ram (insert_td td is s)) ! j =
       (if j \<in> set is then td else frames (ram s) ! j)) \<and>
    tds (ram (insert_td td is s)) = (if is = [] then tds (ram s)
       else (tds (ram s))(td := (tds (ram s) td)\<lparr>td_link := frames (ram s) ! last is\<rparr>))"
  using assms
proof (induction "is" arbitrary: s)
  case (Cons i "is")
  let ?s = "set_frame i td (upd_td td (\<lambda>t. t\<lparr>td_link := frames (ram s) ! i\<rparr>) s)"
  have IH: "length (frames (ram (insert_td td is ?s))) = length (frames (ram ?s)) \<and>
    (\<forall>j < length (frames (ram ?s)). frames (ram (insert_td td is ?s)) ! j =
       (if j \<in> set is then td else frames (ram ?s) ! j)) \<and>
    tds (ram (insert_td td is ?s)) = (if is = [] then tds (ram ?s)
       else (tds (ram ?s))(td := (tds (ram ?s) td)\<lparr>td_link := frames (ram ?s) ! last is\<rparr>))"
    using Cons.IH [of ?s] Cons.prems by simp
  have l: "is \<noteq> [] \<Longrightarrow> last is \<noteq> i" using Cons.prems(1) last_in_set by fastforce
  show ?case using IH Cons.prems l by (auto simp: nth_list_update)
qed simp

lemma poll_frames_set: "set (poll_frames k) = {i. i < 1024 \<and> i mod unat k = 0}"
  by (auto simp: poll_frames_def)

lemma poll_frames_basic: "distinct (poll_frames k)" "poll_frames k \<noteq> []"
proof -
  have "0 \<in> set (poll_frames k)" by (simp add: poll_frames_set)
  then show "poll_frames k \<noteq> []" by auto
qed (simp add: poll_frames_def)

lemma insert_periodic_spec:
  assumes "g_uhci_ready s" "td \<noteq> 0" "0 < interval" "length (frames (ram s)) = UHCI_FRAME_COUNT"
  defines "s1 \<equiv> uhci_insert_periodic_td td interval s"
  shows "i < UHCI_FRAME_COUNT \<Longrightarrow> frames (ram s1) ! i = (if i mod unat interval = 0 then td else frames (ram s) ! i)"
    "length (frames (ram s1)) = UHCI_FRAME_COUNT"
    "tds (ram s1) = (tds (ram s))(td := (tds (ram s) td)\<lparr>td_link := frames (ram s) ! last (poll_frames interval)\<rparr>)"
proof -
  have e: "s1 = insert_td td (poll_frames interval) s"
    using assms(1-3) by (auto simp: s1_def uhci_insert_periodic_td_def)
  note S = insert_td_spec [OF poll_frames_basic(1), of interval s td]
  have le: "\<forall>i \<in> set (poll_frames interval). i < length (frames (ram s))" using assms(4) by (simp add: poll_frames_set)
  note S = S [OF le]
  show "i < UHCI_FRAME_COUNT \<Longrightarrow> frames (ram s1) ! i = (if i mod unat interval = 0 then td else frames (ram s) ! i)"
    using S assms(4) by (simp add: e poll_frames_set)
  show "length (frames (ram s1)) = UHCI_FRAME_COUNT" using S assms(4) by (simp add: e)
  show "tds (ram s1) = (tds (ram s))(td := (tds (ram s) td)\<lparr>td_link := frames (ram s) ! last (poll_frames interval)\<rparr>)"
    using S poll_frames_basic(2) by (simp add: e)
qed

text \<open>A chain that does not visit \<open>td\<close> is not affected by a change of \<open>td\<close>.\<close>

lemma polled_cong:
  "td \<notin> set (polled n m lp) \<Longrightarrow> polled n (m(td := t)) lp = polled n m lp"
proof (induction n arbitrary: lp)
  case (Suc n)
  show ?case
  proof (cases "lp AND UHCI_LP_TERMINATE \<noteq> 0")
    case False
    let ?a = "lp AND NOT 0xF"
    have "td \<noteq> ?a" "td \<notin> set (polled n m (td_link (m ?a)))" using Suc.prems False by simp_all
    have e: "(m(td := t)) ?a = m ?a" by (rule fun_upd_other) (use \<open>td \<noteq> ?a\<close> in blast)
    have "polled n (m(td := t)) (td_link (m ?a)) = polled n m (td_link (m ?a))"
      by (rule Suc.IH) (rule \<open>td \<notin> set (polled n m (td_link (m ?a)))\<close>)
    then show ?thesis using False by (simp only: polled.simps e)
  qed simp
qed simp

lemma remove_td_spec:
  assumes "\<forall>i \<in> set is. i < length (frames (ram s))" "distinct is"
  shows "length (frames (ram (remove_td td is s))) = length (frames (ram s)) \<and>
    tds (ram (remove_td td is s)) = tds (ram s) \<and>
    (\<forall>j < length (frames (ram s)). frames (ram (remove_td td is s)) ! j =
      (if j \<in> set is \<and> frames (ram s) ! j AND NOT 0xF = td then td_link (tds (ram s) td) else frames (ram s) ! j))"
  using assms
proof (induction "is" arbitrary: s)
  case (Cons i "is")
  let ?s = "if frames (ram s) ! i AND NOT 0xF = td then set_frame i (td_link (tds (ram s) td)) s else s"
  have "length (frames (ram ?s)) = length (frames (ram s))" "tds (ram ?s) = tds (ram s)" by simp_all
  moreover have "frames (ram ?s) ! j = (if j = i \<and> frames (ram s) ! i AND NOT 0xF = td then td_link (tds (ram s) td)
      else frames (ram s) ! j)" if "j < length (frames (ram s))" for j
    using that by (auto simp: nth_list_update)
  moreover have "length (frames (ram (remove_td td is ?s))) = length (frames (ram ?s)) \<and>
    tds (ram (remove_td td is ?s)) = tds (ram ?s) \<and>
    (\<forall>j < length (frames (ram ?s)). frames (ram (remove_td td is ?s)) ! j =
      (if j \<in> set is \<and> frames (ram ?s) ! j AND NOT 0xF = td then td_link (tds (ram ?s) td) else frames (ram ?s) ! j))"
    by (rule Cons.IH) (use Cons.prems in simp_all)
  ultimately show ?case using Cons.prems(2) unfolding remove_td.simps list.set insert_iff distinct.simps by metis
qed simp

lemma polled_take: "n \<le> k \<Longrightarrow> polled n m lp = take n (polled k m lp)"
proof (induction n arbitrary: k lp)
  case (Suc n)
  then obtain j where "k = Suc j" "n \<le> j" by (cases k) auto
  then show ?case using Suc.IH [of j] by simp
qed simp

lemma insert_td_ready: "g_uhci_ready (insert_td td is s) = g_uhci_ready s"
  by (induction td "is" s rule: insert_td.induct) simp_all

lemma insert_polled:
  assumes "g_uhci_ready s" "td \<noteq> 0" "aligned16 td" "0 < interval" "length (frames (ram s)) = UHCI_FRAME_COUNT"
    and "\<forall>i < UHCI_FRAME_COUNT. td \<notin> set (polled_in i s)" "i < UHCI_FRAME_COUNT"
  shows "if i mod unat interval = 0
    then polled_in i (uhci_insert_periodic_td td interval s) =
           td # take 63 (polled_in (last (poll_frames interval)) s)
    else polled_in i (uhci_insert_periodic_td td interval s) = polled_in i s"
proof -
  let ?s = "uhci_insert_periodic_td td interval s" and ?l = "last (poll_frames interval)"
  note S = insert_periodic_spec [OF assms(1,2,4,5)]
  have l: "?l < UHCI_FRAME_COUNT" using last_in_set [OF poll_frames_basic(2)] poll_frames_set by blast
  show ?thesis
  proof (cases "i mod unat interval = 0")
    case True
    have n: "(64 :: nat) = Suc 63" by simp
    have p: "polled 63 (tds (ram s)) (frames (ram s) ! ?l) = take 63 (polled_in ?l s)"
      unfolding polled_in_def by (rule polled_take) simp
    then have nin: "td \<notin> set (polled 63 (tds (ram s)) (frames (ram s) ! ?l))"
      using assms(6) l in_set_takeD by metis
    have q: "polled 63 (tds (ram ?s)) (frames (ram s) ! ?l) = take 63 (polled_in ?l s)"
      unfolding S(3) polled_cong [OF nin] by (rule p)
    have "frames (ram ?s) ! i = td" using S(1) [OF assms(7)] True by simp
    moreover have "td_link (tds (ram ?s) td) = frames (ram s) ! ?l" by (simp add: S(3))
    ultimately have "polled_in i ?s = td # polled 63 (tds (ram ?s)) (frames (ram s) ! ?l)"
      unfolding polled_in_def n polled.simps using aligned_link(2,4) [OF assms(3)] by simp
    then show ?thesis using True q by simp
  next
    case False
    then show ?thesis using polled_cong assms(6,7) S by (simp add: polled_in_def)
  qed
qed

lemma last_poll_frames:
  assumes "0 < k"
  shows "last (poll_frames k) = 1023 div unat k * unat k"
proof -
  let ?m = "1023 div unat k * unat k" and ?xs = "poll_frames k"
  have k: "0 < unat k" using assms by (simp add: word_gt_0 unat_gt_0)
  have "?m \<le> 1023" by (rule div_times_less_eq_dividend)
  then have "?m < UHCI_FRAME_COUNT" by linarith
  then have "?m \<in> set ?xs" by (simp add: poll_frames_set)
  then have "?m \<in> set (butlast ?xs @ [last ?xs])" using poll_frames_basic(2) by simp
  moreover have "x \<le> last ?xs" if "x \<in> set (butlast ?xs @ [last ?xs])" for x
  proof -
    have "sorted (butlast ?xs @ [last ?xs])" using poll_frames_basic(2) [of k] by (simp add: poll_frames_def sorted_wrt_filter)
    then show ?thesis using that by (auto simp: sorted_wrt_append)
  qed
  ultimately have "?m \<le> last ?xs" by blast
  moreover have "last ?xs \<le> ?m"
  proof -
    have "last ?xs < 1024" "last ?xs mod unat k = 0" using last_in_set [OF poll_frames_basic(2), of k] poll_frames_set by auto
    define q where "q = last ?xs div unat k"
    have q: "last ?xs = q * unat k" using \<open>last ?xs mod unat k = 0\<close> by (simp add: q_def dvd_div_mult_self mod_eq_0_iff_dvd)
    with \<open>last ?xs < 1024\<close> k have "q \<le> 1023 div unat k" by (simp add: less_eq_div_iff_mult_less_eq)
    then show ?thesis unfolding q by (rule mult_le_mono1)
  qed
  ultimately show ?thesis by (rule antisym [rotated])
qed

section \<open>Properties\<close>

text \<open>Polling an interrupt endpoint. After \<open>uhci_insert_periodic_td\<close> the controller visits the
  descriptor in exactly the frames that are multiples of the interval; behind it, in every one of
  them, it visits what the last of these frames held before (not what the frame itself held): the
  descriptor has one link for all frames.\<close>

theorem periodic_insert_schedule:
  assumes "g_uhci_ready s" "td \<noteq> 0" "aligned16 td" "0 < interval" "length (frames (ram s)) = UHCI_FRAME_COUNT"
    and "\<forall>i < UHCI_FRAME_COUNT. td \<notin> set (polled_in i s)" "i < UHCI_FRAME_COUNT"
  shows "if i mod unat interval = 0
    then polled_in i (uhci_insert_periodic_td td interval s) =
           td # take 63 (polled_in (last (poll_frames interval)) s)
    else polled_in i (uhci_insert_periodic_td td interval s) = polled_in i s"
  by (rule insert_polled [OF assms])

theorem periodic_insert_schedule_witness:
  "polled_in 16 (uhci_insert_periodic_td 0x202000 8 sample_usb) = 0x202000 # take 63 (polled_in (last (poll_frames 8)) sample_usb)"
proof -
  have e: "polled_in i sample_usb = []" if "i < UHCI_FRAME_COUNT" for i
  proof -
    have n: "(64 :: nat) = Suc 63" by simp
    show ?thesis unfolding polled_in_def n polled.simps using that by (simp add: sample_usb_def)
  qed
  have "if (16 :: nat) mod unat (8 :: u8) = 0
    then polled_in 16 (uhci_insert_periodic_td 0x202000 8 sample_usb) =
           0x202000 # take 63 (polled_in (last (poll_frames 8)) sample_usb)
    else polled_in 16 (uhci_insert_periodic_td 0x202000 8 sample_usb) = polled_in 16 sample_usb"
    by (rule periodic_insert_schedule) (simp_all add: e, simp_all add: sample_usb_def aligned16_def)
  then show ?thesis by simp
qed

text \<open>Two devices with different intervals interfere. When the last frame of the second interval is
  not a frame of the first, every frame that belongs to both polls only the second device: the first
  one is skipped there although it was scheduled.\<close>

theorem second_device_shadows_first:
  assumes "g_uhci_ready s" "length (frames (ram s)) = UHCI_FRAME_COUNT"
    and "\<forall>i < UHCI_FRAME_COUNT. frames (ram s) ! i = UHCI_LP_TERMINATE"
    and "td1 \<noteq> 0" "td2 \<noteq> 0" "td1 \<noteq> td2" "aligned16 td1" "aligned16 td2" "0 < iv1" "0 < iv2"
    and "(1023 div unat iv2 * unat iv2) mod unat iv1 \<noteq> 0"
    and "i < UHCI_FRAME_COUNT" "i mod unat iv1 = 0" "i mod unat iv2 = 0"
  shows "polled_in i (uhci_insert_periodic_td td1 iv1 s) = [td1] \<and>
    polled_in i (uhci_insert_periodic_td td2 iv2 (uhci_insert_periodic_td td1 iv1 s)) = [td2]"
proof -
  let ?s = "uhci_insert_periodic_td td1 iv1 s"
  have n: "(64 :: nat) = Suc 63" by simp
  have e: "polled_in j s = []" if "j < UHCI_FRAME_COUNT" for j
    using assms(3) that unfolding polled_in_def n polled.simps by simp
  have l: "last (poll_frames k) < UHCI_FRAME_COUNT" for k using last_in_set [OF poll_frames_basic(2)] poll_frames_set by blast
  have one: "polled_in j ?s = (if j mod unat iv1 = 0 then [td1] else [])" if "j < UHCI_FRAME_COUNT" for j
    using insert_polled [OF assms(1,4,7,9,2), of j] e that l by simp
  note S = insert_periodic_spec [OF assms(1,4,9,2)]
  have r: "g_uhci_ready ?s" using insert_td_ready assms(1,4,9) by (auto simp: uhci_insert_periodic_td_def)
  have "last (poll_frames iv2) mod unat iv1 \<noteq> 0" using assms(11) by (simp only: last_poll_frames [OF assms(10)] not_False_eq_True)
  then have "polled_in (last (poll_frames iv2)) ?s = []" using one [OF l] by simp
  then have "polled_in i (uhci_insert_periodic_td td2 iv2 ?s) = [td2]"
    using insert_polled [OF r assms(5,8,10) S(2), of i] one assms(6,12,14) by simp
  then show ?thesis using one [OF assms(12)] assms(13) by simp
qed

theorem second_device_shadows_first_witness:
  "polled_in 0 (uhci_insert_periodic_td 0x202000 8 sample_usb) = [0x202000] \<and>
    polled_in 0 (uhci_insert_periodic_td 0x202040 10 (uhci_insert_periodic_td 0x202000 8 sample_usb)) = [0x202040]"
  by (rule second_device_shadows_first) (simp_all add: sample_usb_def aligned16_def)

text \<open>Taking a descriptor out again restores the schedule when all the frames it was put in held
  the same entry before, as they do when it is the first.\<close>

theorem periodic_remove_undoes:
  assumes "g_uhci_ready s" "td \<noteq> 0" "aligned16 td" "0 < interval" "length (frames (ram s)) = UHCI_FRAME_COUNT"
    and "\<forall>i < UHCI_FRAME_COUNT. frames (ram s) ! i AND NOT 0xF \<noteq> td"
    and "\<forall>i < UHCI_FRAME_COUNT. i mod unat interval = 0 \<longrightarrow> frames (ram s) ! i = v"
  shows "frames (ram (uhci_remove_periodic_td td (uhci_insert_periodic_td td interval s))) = frames (ram s)"
proof (rule nth_equalityI)
  let ?s = "uhci_insert_periodic_td td interval s"
  note S = insert_periodic_spec [OF assms(1,2,4,5)]
  have "last (poll_frames interval) \<in> set (poll_frames interval)" by (rule last_in_set [OF poll_frames_basic(2)])
  then have v: "td_link (tds (ram ?s) td) = v" using assms(7) by (simp add: S(3) poll_frames_set)
  have "g_uhci_ready ?s" using insert_td_ready assms(1,2,4) by (auto simp: uhci_insert_periodic_td_def)
  then have e: "uhci_remove_periodic_td td ?s = remove_td td [0..<UHCI_FRAME_COUNT] ?s"
    using assms(2) by (simp add: uhci_remove_periodic_td_def)
  have R: "length (frames (ram (uhci_remove_periodic_td td ?s))) = UHCI_FRAME_COUNT"
    "\<forall>j < UHCI_FRAME_COUNT. frames (ram (uhci_remove_periodic_td td ?s)) ! j =
      (if frames (ram ?s) ! j AND NOT 0xF = td then td_link (tds (ram ?s) td) else frames (ram ?s) ! j)"
    using remove_td_spec [of "[0..<UHCI_FRAME_COUNT]" ?s td] S(2) unfolding e by auto
  show "length (frames (ram (uhci_remove_periodic_td td ?s))) = length (frames (ram s))" using R(1) assms(5) by simp
  fix j assume "j < length (frames (ram (uhci_remove_periodic_td td ?s)))"
  then have j: "j < UHCI_FRAME_COUNT" using R(1) by simp
  show "frames (ram (uhci_remove_periodic_td td ?s)) ! j = frames (ram s) ! j"
    unfolding R(2) [rule_format, OF j] v S(1) [OF j] using assms(6,7) j aligned_link(2) [OF assms(3)] by simp
qed

theorem periodic_remove_undoes_witness:
  "frames (ram (uhci_remove_periodic_td 0x202000 (uhci_insert_periodic_td 0x202000 8 sample_usb))) = frames (ram sample_usb)"
  by (rule periodic_remove_undoes [where v = UHCI_LP_TERMINATE]) (simp_all add: sample_usb_def aligned16_def)

end
