(* ===== verification/Usb_Core.thy ===== *)
theory Usb_Core
  imports Uhci_Poll
begin

text \<open>
  USB device enumeration (\<open>src/drivers/usb/usb_core.c\<close>): setup packets, the sequence of control
  transfers that gives a device its address, and the parser of the configuration descriptor.
\<close>

section \<open>Data\<close>

record usb_setup_t =
  bmRequestType :: u8
  bRequest :: u8
  wValue :: u16
  wIndex :: u16
  wLength :: u16

record usb_device_t =
  ud_addr :: u8
  ud_low_speed :: bool
  ud_port :: u8
  ud_class_code :: u8
  ud_subclass :: u8
  ud_protocol :: u8
  ud_max_packet0 :: u8
  ud_int_ep_addr :: u8
  ud_int_ep_interval :: u8
  ud_int_ep_maxpkt :: u16
  ud_int_ep_valid :: bool

record 'd usb = "'d uhci" +
  g_next_addr :: u8

abbreviation USB_REQ_SET_ADDRESS :: u8 where "USB_REQ_SET_ADDRESS \<equiv> 0x05"
abbreviation USB_REQ_GET_DESCRIPTOR :: u8 where "USB_REQ_GET_DESCRIPTOR \<equiv> 0x06"
abbreviation USB_REQ_SET_CONFIGURATION :: u8 where "USB_REQ_SET_CONFIGURATION \<equiv> 0x09"
abbreviation USB_REQ_HID_SET_IDLE :: u8 where "USB_REQ_HID_SET_IDLE \<equiv> 0x0A"
abbreviation USB_REQ_HID_SET_PROTOCOL :: u8 where "USB_REQ_HID_SET_PROTOCOL \<equiv> 0x0B"
abbreviation USB_DESC_DEVICE :: u16 where "USB_DESC_DEVICE \<equiv> 0x01"
abbreviation USB_DESC_CONFIG :: u16 where "USB_DESC_CONFIG \<equiv> 0x02"
abbreviation USB_DESC_INTERFACE :: u8 where "USB_DESC_INTERFACE \<equiv> 0x04"
abbreviation USB_DESC_ENDPOINT :: u8 where "USB_DESC_ENDPOINT \<equiv> 0x05"
abbreviation USB_DIR_IN :: u8 where "USB_DIR_IN \<equiv> 0x80"
abbreviation USB_TYPE_CLASS :: u8 where "USB_TYPE_CLASS \<equiv> 0x20"
abbreviation USB_RECIP_INTERFACE :: u8 where "USB_RECIP_INTERFACE \<equiv> 0x01"

definition zero_device :: usb_device_t where
  "zero_device = \<lparr>ud_addr = 0, ud_low_speed = False, ud_port = 0, ud_class_code = 0, ud_subclass = 0,
     ud_protocol = 0, ud_max_packet0 = 0, ud_int_ep_addr = 0, ud_int_ep_interval = 0,
     ud_int_ep_maxpkt = 0, ud_int_ep_valid = False\<rparr>"

section \<open>Requests\<close>

definition make_setup :: "u8 \<Rightarrow> u8 \<Rightarrow> u16 \<Rightarrow> u16 \<Rightarrow> u16 \<Rightarrow> usb_setup_t" where
  "make_setup type req v index len =
     \<lparr>bmRequestType = type, bRequest = req, wValue = v, wIndex = index, wLength = len\<rparr>"

text \<open>The packed structure, as the driver passes it on.\<close>

definition setup_bytes :: "usb_setup_t \<Rightarrow> bytes" where
  "setup_bytes p = [bmRequestType p, bRequest p] @ le16 (wValue p) @ le16 (wIndex p) @ le16 (wLength p)"

definition get_descriptor ::
  "'d hc_env \<Rightarrow> u8 \<Rightarrow> bool \<Rightarrow> u16 \<Rightarrow> u32 \<Rightarrow> u16 \<Rightarrow> ('d, 'z) usb_scheme \<Rightarrow> (bool \<times> ('d, 'z) usb_scheme) option" where
  "get_descriptor E addr low_speed desc buf len s =
     uhci_control_transfer E addr low_speed
       (setup_bytes (make_setup USB_DIR_IN USB_REQ_GET_DESCRIPTOR (push_bit 8 desc) 0 len)) (Some buf) len True s"

definition usb_set_configuration ::
  "'d hc_env \<Rightarrow> usb_device_t \<Rightarrow> u8 \<Rightarrow> ('d, 'z) usb_scheme \<Rightarrow> (bool \<times> ('d, 'z) usb_scheme) option" where
  "usb_set_configuration E dev config_value s =
     uhci_control_transfer E (ud_addr dev) (ud_low_speed dev)
       (setup_bytes (make_setup 0 USB_REQ_SET_CONFIGURATION (ucast config_value) 0 0)) None 0 False s"

definition usb_hid_set_protocol ::
  "'d hc_env \<Rightarrow> usb_device_t \<Rightarrow> u8 \<Rightarrow> u8 \<Rightarrow> ('d, 'z) usb_scheme \<Rightarrow> (bool \<times> ('d, 'z) usb_scheme) option" where
  "usb_hid_set_protocol E dev iface protocol s =
     uhci_control_transfer E (ud_addr dev) (ud_low_speed dev)
       (setup_bytes (make_setup (USB_TYPE_CLASS OR USB_RECIP_INTERFACE) USB_REQ_HID_SET_PROTOCOL
          (ucast protocol) (ucast iface) 0)) None 0 False s"

definition usb_hid_set_idle ::
  "'d hc_env \<Rightarrow> usb_device_t \<Rightarrow> u8 \<Rightarrow> u8 \<Rightarrow> ('d, 'z) usb_scheme \<Rightarrow> (bool \<times> ('d, 'z) usb_scheme) option" where
  "usb_hid_set_idle E dev iface duration s =
     uhci_control_transfer E (ud_addr dev) (ud_low_speed dev)
       (setup_bytes (make_setup (USB_TYPE_CLASS OR USB_RECIP_INTERFACE) USB_REQ_HID_SET_IDLE
          (push_bit 8 (ucast duration)) (ucast iface) 0)) None 0 False s"

section \<open>The configuration descriptor\<close>

text \<open>What one descriptor at index \<open>i\<close> adds to the device record.\<close>

definition interface_desc :: "bytes \<Rightarrow> nat \<Rightarrow> usb_device_t \<Rightarrow> usb_device_t" where
  "interface_desc bs i dev =
     (if bs ! (i + 1) = USB_DESC_INTERFACE \<and> 9 \<le> bs ! i \<and> ud_class_code dev = 0
      then dev\<lparr>ud_class_code := bs ! (i + 5), ud_subclass := bs ! (i + 6), ud_protocol := bs ! (i + 7)\<rparr>
      else dev)"

definition endpoint_desc :: "bytes \<Rightarrow> nat \<Rightarrow> usb_device_t \<Rightarrow> usb_device_t" where
  "endpoint_desc bs i dev =
     (if bs ! (i + 1) = USB_DESC_ENDPOINT \<and> 7 \<le> bs ! i \<and> bs ! (i + 3) AND 3 = 3 \<and> bs ! (i + 2) AND 0x80 \<noteq> 0
      then dev\<lparr>ud_int_ep_addr := bs ! (i + 2) AND 0x0F, ud_int_ep_interval := bs ! (i + 6),
               ud_int_ep_maxpkt := of_le16 (bs ! (i + 4)) (bs ! (i + 5)), ud_int_ep_valid := True\<rparr>
      else dev)"

function parse_config :: "bytes \<Rightarrow> nat \<Rightarrow> usb_device_t \<Rightarrow> usb_device_t" where
  "parse_config bs i dev =
     (if i < length bs \<and> i + 2 \<le> length bs
      then let len = unat (bs ! i)
           in if len < 2 \<or> i + len > length bs then dev
              else parse_config bs (i + len) (endpoint_desc bs i (interface_desc bs i dev))
      else dev)"
  by pat_completeness auto
termination
  by (relation "measure (\<lambda>(bs, i, _). length bs - i)") auto

declare parse_config.simps [simp del]

section \<open>Enumeration\<close>

text \<open>
  \<open>buf\<close> is the address of the local buffer. The device record is returned on every path: the
  caller's table slot keeps it.
\<close>

definition configure_device ::
  "'d hc_env \<Rightarrow> u32 \<Rightarrow> usb_device_t \<Rightarrow> ('d, 'z) usb_scheme \<Rightarrow> (bool \<times> usb_device_t \<times> ('d, 'z) usb_scheme) option" where
  "configure_device E buf dev s = do {
     (ok, s1) \<leftarrow> get_descriptor E (ud_addr dev) (ud_low_speed dev) USB_DESC_CONFIG buf 9 s;
     if \<not> ok then Some (False, dev, s1)
     else do {
       let wTotalLength = of_le16 (get_byte (buf + 2) s1) (get_byte (buf + 3) s1);
       let config_val = get_byte (buf + 5) s1;
       let total_len = (if wTotalLength > 255 then 255 else wTotalLength);
       (ok, s2) \<leftarrow> get_descriptor E (ud_addr dev) (ud_low_speed dev) USB_DESC_CONFIG buf total_len s1;
       if \<not> ok then Some (False, dev, s2)
       else do {
         let dev1 = parse_config (map (\<lambda>i. get_byte (buf + of_nat i) s2) [0..<unat total_len]) 0 dev;
         (ok, s3) \<leftarrow> usb_set_configuration E dev1 config_val s2;
         Some (ok, dev1, s3)
       }
     }
   }"

definition usb_enumerate_port ::
  "'d hc_env \<Rightarrow> u32 \<Rightarrow> u8 \<Rightarrow> bool \<Rightarrow> ('d, 'z) usb_scheme \<Rightarrow> (bool \<times> usb_device_t \<times> ('d, 'z) usb_scheme) option" where
  "usb_enumerate_port E buf port low_speed s = do {
     let dev = zero_device\<lparr>ud_port := port, ud_low_speed := low_speed\<rparr>;
     (ok, s1) \<leftarrow> get_descriptor E 0 low_speed USB_DESC_DEVICE buf 8 s;
     if \<not> ok then Some (False, dev, s1)
     else do {
       let dev1 = dev\<lparr>ud_max_packet0 := get_byte (buf + 7) s1\<rparr>;
       let new_addr = g_next_addr s1;
       let s2 = s1\<lparr>g_next_addr := new_addr + 1\<rparr>;
       (ok, s3) \<leftarrow> uhci_control_transfer E 0 low_speed
          (setup_bytes (make_setup 0 USB_REQ_SET_ADDRESS (ucast new_addr) 0 0)) None 0 False s2;
       if \<not> ok then Some (False, dev1, s3)
       else do {
         s4 \<leftarrow> uhci_delay_ms E 2 s3;
         let dev2 = dev1\<lparr>ud_addr := new_addr\<rparr>;
         (ok, s5) \<leftarrow> get_descriptor E new_addr low_speed USB_DESC_DEVICE buf 18 s4;
         if \<not> ok then Some (False, dev2, s5)
         else configure_device E buf
                (dev2\<lparr>ud_class_code := get_byte (buf + 4) s5, ud_subclass := get_byte (buf + 5) s5,
                      ud_protocol := get_byte (buf + 6) s5\<rparr>) s5
       }
     }
   }"

section \<open>The parser against its specification\<close>

text \<open>The descriptors of a configuration, cut off at the first malformed one.\<close>

function split_descs :: "bytes \<Rightarrow> bytes list" where
  "split_descs bs =
     (if length bs < 2 \<or> unat (bs ! 0) < 2 \<or> unat (bs ! 0) > length bs then []
      else take (unat (bs ! 0)) bs # split_descs (drop (unat (bs ! 0)) bs))"
  by pat_completeness auto
termination
  by (relation "measure length") auto

declare split_descs.simps [simp del]

definition apply_desc :: "bytes \<Rightarrow> usb_device_t \<Rightarrow> usb_device_t" where
  "apply_desc d dev = endpoint_desc d 0 (interface_desc d 0 dev)"

lemma desc_local:
  assumes "i + unat (bs ! i) \<le> length bs" "2 \<le> unat (bs ! i)"
  defines "d \<equiv> take (unat (bs ! i)) (drop i bs)"
  shows "endpoint_desc bs i (interface_desc bs i dev) = apply_desc d dev"
proof -
  have n: "d ! k = bs ! (i + k)" if "k < unat (bs ! i)" for k using that assms(1) by (simp add: d_def)
  have b: "d ! 0 = bs ! i" "d ! 1 = bs ! (i + 1)" using n [of 0] n [of 1] assms(2) by simp_all
  have "interface_desc bs i x = interface_desc d 0 x" for x
  proof (cases "9 \<le> bs ! i")
    case True
    then have "9 \<le> unat (bs ! i)" by (simp add: word_le_nat_alt)
    then have "d ! 5 = bs ! (i + 5)" "d ! 6 = bs ! (i + 6)" "d ! 7 = bs ! (i + 7)" by (intro n; simp)+
    then show ?thesis using b by (simp add: interface_desc_def)
  next
    case False
    then show ?thesis using b by (simp add: interface_desc_def)
  qed
  moreover have "endpoint_desc bs i x = endpoint_desc d 0 x" for x
  proof (cases "7 \<le> bs ! i")
    case True
    then have "7 \<le> unat (bs ! i)" by (simp add: word_le_nat_alt)
    then have "d ! 2 = bs ! (i + 2)" "d ! 3 = bs ! (i + 3)" "d ! 4 = bs ! (i + 4)" "d ! 5 = bs ! (i + 5)"
      "d ! 6 = bs ! (i + 6)" by (intro n; simp)+
    then show ?thesis using b unfolding endpoint_desc_def add_0_left by (simp only:)
  next
    case False
    then show ?thesis using b by (simp add: endpoint_desc_def)
  qed
  ultimately show ?thesis by (simp add: apply_desc_def)
qed

lemma parse_config_fold: "i \<le> length bs \<Longrightarrow> parse_config bs i dev = fold apply_desc (split_descs (drop i bs)) dev"
proof (induction bs i dev rule: parse_config.induct)
  case (1 bs i dev)
  show ?case
  proof (cases "i + 2 \<le> length bs \<and> 2 \<le> unat (bs ! i) \<and> i + unat (bs ! i) \<le> length bs")
    case True
    then have e: "parse_config bs i dev = parse_config bs (i + unat (bs ! i)) (endpoint_desc bs i (interface_desc bs i dev))"
      by (subst parse_config.simps) (simp add: Let_def)
    have "parse_config bs (i + unat (bs ! i)) (endpoint_desc bs i (interface_desc bs i dev)) =
        fold apply_desc (split_descs (drop (i + unat (bs ! i)) bs)) (endpoint_desc bs i (interface_desc bs i dev))"
      by (rule 1) (use True in auto)
    moreover have "split_descs (drop i bs) = take (unat (bs ! i)) (drop i bs) # split_descs (drop (i + unat (bs ! i)) bs)"
    proof -
      have "\<not> (length (drop i bs) < 2 \<or> unat (drop i bs ! 0) < 2 \<or> unat (drop i bs ! 0) > length (drop i bs))"
        using True by auto
      then show ?thesis using True by (subst split_descs.simps) (simp add: add.commute)
    qed
    ultimately show ?thesis using e desc_local [of i bs dev] True by simp
  next
    case False
    then show ?thesis using 1(2) by (subst parse_config.simps, subst split_descs.simps) (auto simp: Let_def)
  qed
qed

lemma split_descs_concat:
  assumes "\<forall>d \<in> set ds. 2 \<le> length d \<and> unat (hd d) = length d"
  shows "split_descs (concat ds) = ds"
  using assms
proof (induction ds)
  case (Cons d ds)
  then obtain x xs where d: "d = x # xs" by (cases d) auto
  have x: "unat x = Suc (length xs)" "xs \<noteq> []" using Cons.prems by (auto simp: d)
  have "split_descs (concat ds) = ds" using Cons by simp
  then show ?case using x by (subst split_descs.simps) (auto simp: d Suc_le_eq)
qed (simp add: split_descs.simps)

section \<open>Properties\<close>

text \<open>Parsing a configuration. On any sequence of descriptors that each start with their own length
  the index-based loop handles each descriptor exactly once and in order, seeing only its own bytes;
  so it agrees with the fold over the list of descriptors.\<close>

theorem parse_config_concat:
  assumes "\<forall>d \<in> set ds. 2 \<le> length d \<and> unat (hd d) = length d"
  shows "parse_config (concat ds) 0 dev = fold apply_desc ds dev"
  using parse_config_fold [of 0 "concat ds" dev] by (simp add: split_descs_concat [OF assms])

text \<open>A boot keyboard: configuration, interface, HID and endpoint descriptors.\<close>

theorem parse_config_concat_witness:
  "parse_config (concat [[9, 2, 34, 0, 1, 1, 0, 0xA0, 50], [9, 4, 0, 0, 1, 3, 1, 1, 0],
      [9, 0x21, 0x11, 1, 0, 1, 0x22, 63, 0], [7, 5, 0x81, 3, 8, 0, 10]]) 0 zero_device =
    zero_device\<lparr>ud_class_code := 3, ud_subclass := 1, ud_protocol := 1, ud_int_ep_addr := 1,
      ud_int_ep_interval := 10, ud_int_ep_maxpkt := 8, ud_int_ep_valid := True\<rparr>"
  by (subst parse_config_concat)
    (simp_all add: apply_desc_def endpoint_desc_def interface_desc_def zero_device_def of_le16_def)

end
