(* ===== verification/Hid_Ring.thy ===== *)
theory Hid_Ring
  imports Prelude
begin

text \<open>
  Input events and the ring buffer between the USB polling code and the applications
  (\<open>src/drivers/usb/hid.h\<close>, \<open>src/drivers/usb/hid.c\<close>).
\<close>

section \<open>The ring\<close>

datatype input_event_t =
    KeyEvent (ev_scancode: u8) (ev_ascii: u8) (ev_modifiers: u8) (ev_flags: u8)
  | MouseEvent (ev_dx: u8) (ev_dy: u8) (ev_buttons: u8)

abbreviation KEY_FLAG_PRESS :: u8 where "KEY_FLAG_PRESS \<equiv> 0"
abbreviation KEY_FLAG_RELEASE :: u8 where "KEY_FLAG_RELEASE \<equiv> 1"
abbreviation INPUT_RING_SIZE :: nat where "INPUT_RING_SIZE \<equiv> 64"

record input_ring_t =
  ring_events :: "input_event_t list"
  ring_head :: u32
  ring_tail :: u32

definition input_ring_init :: "input_ring_t \<Rightarrow> input_ring_t" where
  "input_ring_init r = r\<lparr>ring_head := 0, ring_tail := 0\<rparr>"

definition input_ring_post :: "input_event_t \<Rightarrow> input_ring_t \<Rightarrow> bool \<times> input_ring_t" where
  "input_ring_post ev r =
     (let nxt = (ring_head r + 1) AND (64 - 1)
      in if nxt = ring_tail r then (False, r)
         else (True, r\<lparr>ring_events := (ring_events r)[unat (ring_head r) := ev], ring_head := nxt\<rparr>))"

definition input_ring_read :: "input_ring_t \<Rightarrow> input_event_t option \<times> input_ring_t" where
  "input_ring_read r =
     (if ring_tail r = ring_head r then (None, r)
      else (Some (ring_events r ! unat (ring_tail r)), r\<lparr>ring_tail := (ring_tail r + 1) AND (64 - 1)\<rparr>))"

definition input_ring_empty :: "input_ring_t \<Rightarrow> bool" where
  "input_ring_empty r \<longleftrightarrow> ring_tail r = ring_head r"

section \<open>The ring as a queue\<close>

definition ring_inv :: "input_ring_t \<Rightarrow> bool" where
  "ring_inv r \<longleftrightarrow> length (ring_events r) = 64 \<and> unat (ring_head r) < 64 \<and> unat (ring_tail r) < 64"

definition ring_count :: "input_ring_t \<Rightarrow> nat" where
  "ring_count r = (unat (ring_head r) + 64 - unat (ring_tail r)) mod 64"

definition ring_contents :: "input_ring_t \<Rightarrow> input_event_t list" where
  "ring_contents r = map (\<lambda>i. ring_events r ! ((unat (ring_tail r) + i) mod 64)) [0..<ring_count r]"

lemma wrap_index:
  assumes "unat (w :: u32) < 64"
  shows "unat ((w + 1) AND (64 - 1)) = (unat w + 1) mod 64"
proof -
  have m: "(64 - 1 :: u32) = mask 6" by (simp add: mask_eq_exp_minus_1)
  have "unat ((w + 1) AND mask 6) = unat (w + 1) mod 2 ^ 6"
    unfolding take_bit_eq_mask [symmetric] by (simp only: unsigned_take_bit_eq) (simp only: take_bit_eq_mod)
  moreover have "unat (w + 1) = unat w + 1" using assms by (simp add: unat_word_ariths)
  ultimately show ?thesis unfolding m by simp
qed

lemma succ64: "(h :: nat) < 64 \<Longrightarrow> (h + 1) mod 64 = (if h = 63 then 0 else h + 1)"
  by (cases "h = 63") simp_all

lemma wrap64: "(t :: nat) < 64 \<Longrightarrow> i < 64 \<Longrightarrow> (t + i) mod 64 = (if t + i < 64 then t + i else t + i - 64)"
  by (cases "t + i < 64") (simp_all add: le_mod_geq)

lemma ring_count_cases:
  assumes "ring_inv r"
  shows "ring_count r = (if unat (ring_tail r) \<le> unat (ring_head r) then unat (ring_head r) - unat (ring_tail r)
      else unat (ring_head r) + 64 - unat (ring_tail r))" "ring_count r < 64"
  using assms by (auto simp: ring_count_def ring_inv_def mod_if)

lemma ring_full:
  assumes "ring_inv r"
  shows "(ring_head r + 1) AND (64 - 1) = ring_tail r \<longleftrightarrow> ring_count r = 63"
proof -
  have b: "unat (ring_head r) < 64" "unat (ring_tail r) < 64" using assms by (simp_all add: ring_inv_def)
  have "(ring_head r + 1) AND (64 - 1) = ring_tail r \<longleftrightarrow> (unat (ring_head r) + 1) mod 64 = unat (ring_tail r)"
    using wrap_index [OF b(1)] by (metis word_unat_eq_iff)
  also have "\<dots> \<longleftrightarrow> ring_count r = 63" using b ring_count_cases(1) [OF assms] by (auto simp: mod_if split: if_splits)
  finally show ?thesis .
qed

lemma ring_post_spec:
  assumes "ring_inv r" "ring_count r < 63" "input_ring_post ev r = (ok, r')"
  shows "ok \<and> ring_inv r' \<and> ring_contents r' = ring_contents r @ [ev]"
proof -
  let ?h = "unat (ring_head r)" and ?t = "unat (ring_tail r)"
  have b: "?h < 64" "?t < 64" "length (ring_events r) = 64" using assms(1) by (simp_all add: ring_inv_def)
  have nf: "(ring_head r + 1) AND (64 - 1) \<noteq> ring_tail r" using ring_full [OF assms(1)] assms(2) by simp
  then have r': "ok" "r' = r\<lparr>ring_events := (ring_events r)[?h := ev], ring_head := (ring_head r + 1) AND (64 - 1)\<rparr>"
    using assms(3) by (simp_all add: input_ring_post_def Let_def)
  have h': "unat (ring_head r') = (?h + 1) mod 64" using wrap_index [OF b(1)] by (simp add: r')
  have inv: "ring_inv r'" using b h' by (simp add: ring_inv_def r')
  have tl: "unat (ring_tail r') = ?t" by (simp add: r')
  have c: "ring_count r' = Suc (ring_count r)"
    using assms(2) b(1,2) unfolding ring_count_cases(1) [OF inv] ring_count_cases(1) [OF assms(1)] h' tl succ64 [OF b(1)]
    by (auto split: if_splits)
  have lt: "ring_count r < 64" by (rule ring_count_cases(2) [OF assms(1)])
  have e: "(?t + ring_count r) mod 64 = ?h"
    unfolding wrap64 [OF b(2) lt] unfolding ring_count_cases(1) [OF assms(1)] using b(1,2) by auto
  have ne: "(?t + i) mod 64 \<noteq> ?h" if "i < ring_count r" for i
  proof -
    have "i < 64" using that lt by simp
    then show ?thesis
      unfolding wrap64 [OF b(2) \<open>i < 64\<close>] using that b(1,2) unfolding ring_count_cases(1) [OF assms(1)]
      by (auto split: if_splits)
  qed
  have "ring_contents r' = map (\<lambda>i. (ring_events r)[?h := ev] ! ((?t + i) mod 64)) [0..<Suc (ring_count r)]"
    by (simp only: ring_contents_def c) (simp add: r')
  also have "\<dots> = map (\<lambda>i. ring_events r ! ((?t + i) mod 64)) [0..<ring_count r] @ [(ring_events r)[?h := ev] ! ?h]"
    using e by (auto simp: nth_list_update_neq [OF ne [symmetric]])
  also have "\<dots> = ring_contents r @ [ev]" using b by (simp add: ring_contents_def)
  finally show ?thesis using inv r' by simp
qed

lemma ring_read_spec:
  assumes "ring_inv r" "ring_contents r = y # ys"
  shows "\<exists>r'. input_ring_read r = (Some y, r') \<and> ring_inv r' \<and> ring_contents r' = ys"
proof -
  let ?h = "unat (ring_head r)" and ?t = "unat (ring_tail r)"
  have b: "?h < 64" "?t < 64" "length (ring_events r) = 64" using assms(1) by (simp_all add: ring_inv_def)
  have cnt: "ring_count r = Suc (length ys)" using arg_cong [OF assms(2), of length] by (simp add: ring_contents_def)
  have ne: "ring_tail r \<noteq> ring_head r" using cnt ring_count_cases(1) [OF assms(1)] by auto
  define r' where "r' = r\<lparr>ring_tail := (ring_tail r + 1) AND (64 - 1)\<rparr>"
  have t': "unat (ring_tail r') = (?t + 1) mod 64" using wrap_index [OF b(2)] by (simp add: r'_def)
  have inv: "ring_inv r'" using b t' by (simp add: ring_inv_def r'_def)
  have hd: "unat (ring_head r') = ?h" by (simp add: r'_def)
  have c: "ring_count r' = length ys"
    using cnt b(1,2) unfolding ring_count_cases(1) [OF inv] ring_count_cases(1) [OF assms(1)] t' hd succ64 [OF b(2)]
    by (auto split: if_splits)
  have "ring_contents r = map (\<lambda>i. ring_events r ! ((?t + i) mod 64)) (0 # map Suc [0..<length ys])"
    by (simp add: ring_contents_def cnt upt_conv_Cons map_Suc_upt del: upt_Suc)
  then have y: "y = ring_events r ! ?t" and ys: "ys = map (\<lambda>i. ring_events r ! ((?t + Suc i) mod 64)) [0..<length ys]"
    using assms(2) b by (simp_all add: comp_def)
  have "ring_contents r' = map (\<lambda>i. ring_events r ! (((?t + 1) mod 64 + i) mod 64)) [0..<length ys]"
    by (simp only: ring_contents_def c t') (simp add: r'_def)
  also have "\<dots> = ys" using ys by (simp add: mod_simps)
  finally have "ring_contents r' = ys" .
  then show ?thesis using ne y inv by (intro exI [of _ r']) (simp add: input_ring_read_def r'_def)
qed

interpretation ring: fifo ring_contents input_ring_post input_ring_read ring_inv 63
proof
  fix q :: input_ring_t and x assume q: "ring_inv q"
  have len: "length (ring_contents q) = ring_count q" by (simp add: ring_contents_def)
  show "length (ring_contents q) \<le> 63" using ring_count_cases(2) [OF q] len by simp
  show "\<exists>q'. input_ring_post x q = (True, q') \<and> ring_inv q' \<and> ring_contents q' = ring_contents q @ [x]"
    if "length (ring_contents q) < 63"
    using ring_post_spec [OF q] that len by (cases "input_ring_post x q") auto
  show "input_ring_post x q = (False, q)" if "length (ring_contents q) = 63"
    using ring_full [OF q] that len by (simp add: input_ring_post_def)
  show "\<exists>q'. input_ring_read q = (Some y, q') \<and> ring_inv q' \<and> ring_contents q' = ys" if "ring_contents q = y # ys" for y ys
    by (rule ring_read_spec [OF q that])
  show "input_ring_read q = (None, q)" if "ring_contents q = []"
    using that ring_count_cases(1) [OF q] len q
    by (auto simp: input_ring_read_def word_unat_eq_iff ring_inv_def split: if_splits)
qed

section \<open>Properties\<close>

text \<open>The input ring is a bounded queue. Whatever is posted to a ring in any reachable state, a
  reader gets the old contents followed by as many of the new events as fit (63 slots), in order,
  none twice and none torn; the rest is dropped from the end.\<close>

theorem input_ring_is_queue:
  assumes "ring_inv r"
  shows "ring_inv (fold (\<lambda>ev r. snd (input_ring_post ev r)) evs r) \<and>
    ring.drain 64 (fold (\<lambda>ev r. snd (input_ring_post ev r)) evs r) =
      ring_contents r @ take (63 - length (ring_contents r)) evs"
proof -
  note P = ring.post_all [OF assms, of evs]
  then have "length (ring_contents (fold (\<lambda>ev r. snd (input_ring_post ev r)) evs r)) \<le> 64"
    using ring.bounded by (meson le_trans numeral_le_iff order_trans semiring_norm)
  then show ?thesis using P ring.drain_contents by auto
qed

theorem input_ring_is_queue_witness:
  "ring.drain 64 (fold (\<lambda>ev r. snd (input_ring_post ev r)) [KeyEvent 4 97 0 0, KeyEvent 4 97 0 1]
      \<lparr>ring_events = replicate 64 (MouseEvent 0 0 0), ring_head = 63, ring_tail = 63\<rparr>) =
    [KeyEvent 4 97 0 0, KeyEvent 4 97 0 1]"
proof -
  let ?r = "\<lparr>ring_events = replicate 64 (MouseEvent 0 0 0), ring_head = 63, ring_tail = 63\<rparr>"
  have "ring_inv ?r" "ring_contents ?r = []" by (simp_all add: ring_inv_def ring_contents_def ring_count_def)
  then show ?thesis using input_ring_is_queue [of ?r "[KeyEvent 4 97 0 0, KeyEvent 4 97 0 1]"] by simp
qed

end
