(* ===== verification/Hid.thy ===== *)
theory Hid
  imports Usb_Core Hid_Ring
begin

text \<open>
  The HID boot-protocol drivers (\<open>src/drivers/usb/hid.c\<close>, \<open>hid_kbd.c\<close>, \<open>hid_mouse.c\<close>): the device
  table, the two polling drivers and the decoding of reports into input events. A pointer into the
  device table is the index of the slot. The calls of the serial line that polling makes are recorded in
  order in \<open>com1_calls\<close>; a program that polls performs them on its port (theory \<open>Usb_Demo\<close>). The messages
  of the initialisation are left out.
\<close>

section \<open>Data\<close>

record hid_kbd_state_t =
  kbd_dev :: "nat option"
  kbd_poll_td :: u32
  kbd_report_buf :: u32
  kbd_prev_report :: bytes
  kbd_active :: bool

record hid_mouse_state_t =
  mouse_dev :: "nat option"
  mouse_poll_td :: u32
  mouse_report_buf :: u32
  mouse_active :: bool

datatype serial_call = Puts bytes | Dec u32 | Hex8 u8 | Hex32 u32

record 'd hid = "'d usb" +
  g_devices :: "usb_device_t list"
  g_device_count :: u32
  g_kbd :: hid_kbd_state_t
  g_mouse :: hid_mouse_state_t
  g_input_ring :: input_ring_t
  g_poll_count :: u32
  g_done_count :: u32
  com1_calls :: "serial_call list"

abbreviation USB_MAX_DEVICES :: u32 where "USB_MAX_DEVICES \<equiv> 4"
abbreviation UHCI_MAX_PORTS :: nat where "UHCI_MAX_PORTS \<equiv> 2"
abbreviation KBD_REPORT_SIZE :: nat where "KBD_REPORT_SIZE \<equiv> 8"
abbreviation MOUSE_REPORT_SIZE :: u16 where "MOUSE_REPORT_SIZE \<equiv> 4"
abbreviation HID_PROTOCOL_BOOT :: u8 where "HID_PROTOCOL_BOOT \<equiv> 0"
abbreviation USB_CLASS_HID :: u8 where "USB_CLASS_HID \<equiv> 3"
abbreviation USB_SUBCLASS_BOOT :: u8 where "USB_SUBCLASS_BOOT \<equiv> 1"
abbreviation USB_PROTOCOL_KEYBOARD :: u8 where "USB_PROTOCOL_KEYBOARD \<equiv> 1"
abbreviation USB_PROTOCOL_MOUSE :: u8 where "USB_PROTOCOL_MOUSE \<equiv> 2"

text \<open>
  The two tables from usage IDs to ASCII, 0x65 entries each, row by row: reserved, letters from 0x04,
  digits from 0x1E, Enter to Space from 0x28, punctuation and Caps Lock from 0x2D; then function and
  navigation keys and the keypad. The rows of the second table after Caps Lock are the lines of the
  initialiser, and the last row the zeros that C pads it with.
\<close>

definition hid_to_ascii_unshifted :: bytes where
  "hid_to_ascii_unshifted =
     [0, 0, 0, 0] @
     [0x61, 0x62, 0x63, 0x64, 0x65, 0x66, 0x67, 0x68, 0x69, 0x6A, 0x6B, 0x6C, 0x6D,
      0x6E, 0x6F, 0x70, 0x71, 0x72, 0x73, 0x74, 0x75, 0x76, 0x77, 0x78, 0x79, 0x7A] @
     [0x31, 0x32, 0x33, 0x34, 0x35, 0x36, 0x37, 0x38, 0x39, 0x30] @
     [0x0D, 0x1B, 0x08, 0x09, 0x20] @
     [0x2D, 0x3D, 0x5B, 0x5D, 0x5C, 0, 0x3B, 0x27, 0x60, 0x2C, 0x2E, 0x2F, 0] @
     [0, 0, 0, 0, 0, 0, 0, 0, 0, 0, 0, 0, 0, 0, 0, 0, 0, 0] @
     [0x7F, 0, 0, 0, 0, 0, 0, 0] @
     [0x2F, 0x2A, 0x2D, 0x2B, 0x0D, 0x31, 0x32, 0x33, 0x34, 0x35, 0x36, 0x37, 0x38, 0x39, 0x30, 0x2E, 0]"

definition hid_to_ascii_shifted :: bytes where
  "hid_to_ascii_shifted =
     [0, 0, 0, 0] @
     [0x41, 0x42, 0x43, 0x44, 0x45, 0x46, 0x47, 0x48, 0x49, 0x4A, 0x4B, 0x4C, 0x4D,
      0x4E, 0x4F, 0x50, 0x51, 0x52, 0x53, 0x54, 0x55, 0x56, 0x57, 0x58, 0x59, 0x5A] @
     [0x21, 0x40, 0x23, 0x24, 0x25, 0x5E, 0x26, 0x2A, 0x28, 0x29] @
     [0x0D, 0x1B, 0x08, 0x09, 0x20] @
     [0x5F, 0x2B, 0x7B, 0x7D, 0x7C, 0, 0x3A, 0x22, 0x7E, 0x3C, 0x3E, 0x3F, 0] @
     [0, 0, 0, 0, 0, 0, 0, 0, 0, 0, 0, 0] @
     [0, 0, 0, 0, 0x7F, 0, 0] @
     [0, 0, 0, 0] @
     [0, 0x2F, 0x2A, 0x2D, 0x2B, 0x0D] @
     [0x31, 0x32, 0x33, 0x34, 0x35, 0x36, 0x37, 0x38, 0x39, 0x30, 0x2E, 0] @
     [0, 0]"

section \<open>Events\<close>

definition input_init :: "('d, 'z) hid_scheme \<Rightarrow> ('d, 'z) hid_scheme" where
  "input_init s = s\<lparr>g_input_ring := input_ring_init (g_input_ring s)\<rparr>"

definition post_event :: "input_event_t \<Rightarrow> ('d, 'z) hid_scheme \<Rightarrow> ('d, 'z) hid_scheme" where
  "post_event ev s = s\<lparr>g_input_ring := snd (input_ring_post ev (g_input_ring s))\<rparr>"

definition com1_print :: "serial_call list \<Rightarrow> ('d, 'z) hid_scheme \<Rightarrow> ('d, 'z) hid_scheme" where
  "com1_print cs s = s\<lparr>com1_calls := com1_calls s @ cs\<rparr>"

text \<open>The search loops over the six key slots.\<close>

definition in_slots :: "bytes \<Rightarrow> u8 \<Rightarrow> bool" where
  "in_slots r sc \<longleftrightarrow> list_ex (\<lambda>j. r ! j = sc) [2..<8]"

fun post_releases :: "bytes \<Rightarrow> bytes \<Rightarrow> nat list \<Rightarrow> ('d, 'z) hid_scheme \<Rightarrow> ('d, 'z) hid_scheme" where
  "post_releases prev cur [] s = s"
| "post_releases prev cur (i # is) s =
     (let sc = prev ! i
      in if sc = 0 \<or> sc = 1 then post_releases prev cur is s
         else if in_slots cur sc then post_releases prev cur is s
         else post_releases prev cur is
                (post_event (KeyEvent sc (if sc < 0x65 then hid_to_ascii_unshifted ! unat sc else 0)
                               (prev ! 0) KEY_FLAG_RELEASE) s))"

definition key_ascii :: "bool \<Rightarrow> u8 \<Rightarrow> u8" where
  "key_ascii shifted sc =
     (if sc < 0x65 then (if shifted then hid_to_ascii_shifted ! unat sc else hid_to_ascii_unshifted ! unat sc)
      else 0)"

text \<open>The line about a key that was pressed.\<close>

definition key_calls :: "u8 \<Rightarrow> u8 \<Rightarrow> serial_call list" where
  "key_calls a sc =
     (if 0x20 \<le> a \<and> a < 0x7F
      then [Puts (ascii ''[KBD] key='' @ [39]), Puts [a, 0], Puts (39 # ascii '' sc=0x''), Hex8 sc, Puts [13, 10]]
      else if a \<noteq> 0
      then [Puts (ascii ''[KBD] key=0x''), Hex8 a, Puts (ascii '' sc=0x''), Hex8 sc, Puts [13, 10]]
      else [Puts (ascii ''[KBD] key=<special> sc=0x''), Hex8 sc, Puts [13, 10]])"

fun post_presses :: "bytes \<Rightarrow> bytes \<Rightarrow> nat list \<Rightarrow> ('d, 'z) hid_scheme \<Rightarrow> ('d, 'z) hid_scheme" where
  "post_presses prev cur [] s = s"
| "post_presses prev cur (i # is) s =
     (let sc = cur ! i
      in if sc = 0 \<or> sc = 1 then post_presses prev cur is s
         else if in_slots prev sc then post_presses prev cur is s
         else let a = key_ascii (cur ! 0 AND 0x22 \<noteq> 0) sc
              in post_presses prev cur is
                   (com1_print (key_calls a sc) (post_event (KeyEvent sc a (cur ! 0) KEY_FLAG_PRESS) s)))"

definition report_bytes :: "u32 \<Rightarrow> ('d, 'z) uhci_scheme \<Rightarrow> bytes" where
  "report_bytes buf s = map (\<lambda>i. get_byte (buf + of_nat i) s) [0..<KBD_REPORT_SIZE]"

section \<open>The keyboard\<close>

definition poll_td_init :: "usb_device_t \<Rightarrow> u16 \<Rightarrow> u32 \<Rightarrow> uhci_td_t \<Rightarrow> uhci_td_t" where
  "poll_td_init dev maxlen buf t = t\<lparr>
     td_status := TD_STS_ACTIVE OR TD_STS_ERRCNT 3 OR TD_STS_IOC OR (if ud_low_speed dev then TD_STS_LS else 0),
     td_token := td_token_of USB_PID_IN (ud_addr dev) (ud_int_ep_addr dev) 0 (TD_TOKEN_MAXLEN maxlen),
     td_buffer := buf, td_sw_buf_virt := buf, td_link := UHCI_LP_TERMINATE\<rparr>"

definition hid_kbd_init :: "'d hc_env \<Rightarrow> nat \<Rightarrow> ('d, 'z) hid_scheme \<Rightarrow> (bool \<times> ('d, 'z) hid_scheme) option" where
  "hid_kbd_init E d s =
     (let dev = g_devices s ! d
      in if \<not> ud_int_ep_valid dev then Some (False, s)
         else do {
           (_, s1) \<leftarrow> usb_hid_set_protocol E dev 0 HID_PROTOCOL_BOOT s;
           (_, s2) \<leftarrow> usb_hid_set_idle E dev 0 0 s1;
           Some (case usb_kmalloc 8 s2 of
              (None, s3) \<Rightarrow> (False, s3)
            | (Some buf, s3) \<Rightarrow>
                case uhci_alloc_td (put_bytes buf (replicate KBD_REPORT_SIZE 0) s3) of
                  (None, s4) \<Rightarrow> (False, s4)
                | (Some td, s4) \<Rightarrow>
                    let s5 = upd_td td (poll_td_init dev 8 buf) s4;
                        interval = (if ud_int_ep_interval dev = 0 then 8 else ud_int_ep_interval dev);
                        s6 = uhci_insert_periodic_td td interval s5
                    in (True, s6\<lparr>g_kbd := \<lparr>kbd_dev = Some d, kbd_poll_td = td, kbd_report_buf = buf,
                                          kbd_prev_report = replicate KBD_REPORT_SIZE 0, kbd_active = True\<rparr>\<rparr>))
         })"

definition hid_kbd_debug_status :: "('d, 'z) hid_scheme \<Rightarrow> ('d, 'z) hid_scheme" where
  "hid_kbd_debug_status s =
     (if \<not> kbd_active (g_kbd s) then com1_print [Puts (ascii ''[KBD] not active'' @ [13, 10])] s
      else let td = tds (ram s) (kbd_poll_td (g_kbd s))
           in com1_print [Puts (ascii ''[KBD] poll_td status=0x''), Hex32 (td_status td), Puts (ascii '' active=''),
                Puts (if uhci_td_done td then ascii ''0'' else ascii ''1''), Puts [13, 10]] s)"

definition hid_kbd_poll :: "('d, 'z) hid_scheme \<Rightarrow> ('d, 'z) hid_scheme" where
  "hid_kbd_poll s =
     (if \<not> kbd_active (g_kbd s) then s
      else let a = kbd_poll_td (g_kbd s);
               td = tds (ram s) a;
               s0 = s\<lparr>g_poll_count := g_poll_count s + 1\<rparr>;
               s1 = (if g_poll_count s0 mod 500 = 0
                     then com1_print [Puts (ascii ''[KBD] poll=''), Dec (g_poll_count s0), Puts (ascii '' done=''),
                            Dec (g_done_count s0), Puts (ascii '' td_sts=0x''), Hex32 (td_status td),
                            Puts (ascii '' tok=0x''), Hex32 (td_token td), Puts [13, 10]] s0
                     else s0)
           in if \<not> uhci_td_done td then s1
              else let s2 = s1\<lparr>g_done_count := g_done_count s1 + 1\<rparr>;
                       s3 = com1_print [Puts (ascii ''[KBD] TD#''), Dec (g_done_count s2), Puts (ascii '' sts=0x''),
                              Hex32 (td_status td), Puts (ascii '' len=''), Dec (ucast (uhci_td_actual_len td)),
                              Puts (ascii '' tok=0x''), Hex32 (td_token td), Puts [13, 10]] s2
                   in if uhci_td_error td
                      then uhci_reactivate_td a
                             (com1_print [Puts (ascii ''[KBD] TD error bits=0x''), Hex32 (td_status td AND 0x007E0000),
                                Puts [13, 10]] s3)
                      else let cur = report_bytes (kbd_report_buf (g_kbd s3)) s3;
                               prev = kbd_prev_report (g_kbd s3);
                               s4 = post_presses prev cur [2..<8] (post_releases prev cur [2..<8] s3);
                               s5 = s4\<lparr>g_kbd := (g_kbd s4)\<lparr>kbd_prev_report := cur\<rparr>\<rparr>
                           in uhci_reactivate_td a s5)"

section \<open>The mouse\<close>

definition hid_mouse_init :: "'d hc_env \<Rightarrow> nat \<Rightarrow> ('d, 'z) hid_scheme \<Rightarrow> (bool \<times> ('d, 'z) hid_scheme) option" where
  "hid_mouse_init E d s =
     (let dev = g_devices s ! d
      in if \<not> ud_int_ep_valid dev then Some (False, s)
         else do {
           (_, s1) \<leftarrow> usb_hid_set_protocol E dev 0 HID_PROTOCOL_BOOT s;
           (_, s2) \<leftarrow> usb_hid_set_idle E dev 0 0 s1;
           Some (case usb_kmalloc 4 s2 of
              (None, s3) \<Rightarrow> (False, s3)
            | (Some buf, s3) \<Rightarrow>
                case uhci_alloc_td (put_bytes buf (replicate (unat MOUSE_REPORT_SIZE) 0) s3) of
                  (None, s4) \<Rightarrow> (False, s4)
                | (Some td, s4) \<Rightarrow>
                    let maxpkt = (if ud_int_ep_maxpkt dev = 0 \<or> ud_int_ep_maxpkt dev > MOUSE_REPORT_SIZE
                                  then MOUSE_REPORT_SIZE else ud_int_ep_maxpkt dev);
                        s5 = upd_td td (poll_td_init dev maxpkt buf) s4;
                        interval = (if ud_int_ep_interval dev = 0 then 8 else ud_int_ep_interval dev);
                        s6 = uhci_insert_periodic_td td interval s5
                    in (True, s6\<lparr>g_mouse := \<lparr>mouse_dev = Some d, mouse_poll_td = td, mouse_report_buf = buf,
                                            mouse_active = True\<rparr>\<rparr>))
         })"

text \<open>The lines about motion and buttons.\<close>

definition signed_calls :: "u8 \<Rightarrow> serial_call list" where
  "signed_calls v = (if sint v < 0 then [Puts (ascii ''-''), Dec (- scast v)] else [Dec (scast v)])"

definition mouse_calls :: "u8 \<Rightarrow> u8 \<Rightarrow> u8 \<Rightarrow> serial_call list" where
  "mouse_calls dx dy buttons =
     (if dx \<noteq> 0 \<or> dy \<noteq> 0
      then [Puts (ascii ''[MOUSE] dx='')] @ signed_calls dx @ [Puts (ascii '' dy='')] @ signed_calls dy @ [Puts [13, 10]]
      else []) @
     (if buttons \<noteq> 0 then [Puts (ascii ''[MOUSE] buttons=0x''), Hex8 buttons, Puts [13, 10]] else [])"

definition hid_mouse_poll :: "('d, 'z) hid_scheme \<Rightarrow> ('d, 'z) hid_scheme" where
  "hid_mouse_poll s =
     (if \<not> mouse_active (g_mouse s) then s
      else let td = mouse_poll_td (g_mouse s)
           in if \<not> uhci_td_done (tds (ram s) td) then s
              else if uhci_td_error (tds (ram s) td) then uhci_reactivate_td td s
              else let r = mouse_report_buf (g_mouse s);
                       buttons = get_byte r s AND 0x07;
                       dx = get_byte (r + 1) s;
                       dy = get_byte (r + 2) s
                   in uhci_reactivate_td td
                        (if dx \<noteq> 0 \<or> dy \<noteq> 0 \<or> buttons \<noteq> 0
                         then com1_print (mouse_calls dx dy buttons) (post_event (MouseEvent dx dy buttons) s) else s))"

section \<open>Initialisation and polling of all devices\<close>

text \<open>
  One round of the port loop: the outer \<open>None\<close> is a wait that never ends, the flag \<open>False\<close> the
  \<open>break\<close> of a full table, and the number what the round adds to the count.
\<close>

definition init_port ::
  "'d hc_env \<Rightarrow> u32 \<Rightarrow> nat \<Rightarrow> ('d, 'z) hid_scheme \<Rightarrow> (bool \<times> u32 \<times> ('d, 'z) hid_scheme) option" where
  "init_port E buf p s =
     (let ctrl = g_uhci s
      in if \<not> uc_port_connected ctrl ! p then Some (True, 0, s)
         else if g_device_count s \<ge> USB_MAX_DEVICES then Some (False, 0, s)
         else do {
           let d = unat (g_device_count s);
           (ok, dev, s1) \<leftarrow> usb_enumerate_port E buf (of_nat p) (uc_port_speed ctrl ! p = 1) s;
           let s2 = s1\<lparr>g_devices := (g_devices s1)[d := dev]\<rparr>;
           if \<not> ok then Some (True, 0, s2)
           else do {
             let s3 = s2\<lparr>g_device_count := g_device_count s2 + 1\<rparr>;
             if ud_class_code dev = USB_CLASS_HID \<and> ud_subclass dev = USB_SUBCLASS_BOOT then
               if ud_protocol dev = USB_PROTOCOL_KEYBOARD then do {
                 (r, s4) \<leftarrow> hid_kbd_init E d s3;
                 Some (True, if r then 1 else 0, s4)
               }
               else if ud_protocol dev = USB_PROTOCOL_MOUSE then do {
                 (r, s4) \<leftarrow> hid_mouse_init E d s3;
                 Some (True, if r then 1 else 0, s4)
               }
               else Some (True, 0, s3)
             else Some (True, 0, s3)
           }
         })"

fun init_ports ::
  "'d hc_env \<Rightarrow> u32 \<Rightarrow> nat list \<Rightarrow> u32 \<Rightarrow> ('d, 'z) hid_scheme \<Rightarrow> (u32 \<times> ('d, 'z) hid_scheme) option" where
  "init_ports E buf [] n s = Some (n, s)"
| "init_ports E buf (p # ps) n s = do {
     (go, k, s1) \<leftarrow> init_port E buf p s;
     if go then init_ports E buf ps (n + k) s1 else Some (n, s1)
   }"

definition usb_hid_init :: "'d hc_env \<Rightarrow> u32 \<Rightarrow> ('d, 'z) hid_scheme \<Rightarrow> (u32 \<times> ('d, 'z) hid_scheme) option" where
  "usb_hid_init E buf s =
     (case uhci_get s of
        None \<Rightarrow> Some (0, s)
      | Some ctrl \<Rightarrow> init_ports E buf [0..<min (unat (uc_port_count ctrl)) UHCI_MAX_PORTS] 0 s)"

definition usb_hid_poll :: "('d, 'z) hid_scheme \<Rightarrow> ('d, 'z) hid_scheme" where
  "usb_hid_poll s = hid_mouse_poll (hid_kbd_poll s)"

end
