(* ===== verification/Hid_Spec.thy ===== *)
theory Hid_Spec
  imports Hid
begin

text \<open>
  What the HID drivers promise: the events of the keyboard keep a reader's idea of the held keys equal
  to the last report, which reports of the mouse are passed on, what the translation tables give, and
  that the device table and the ring stay well formed through initialisation and polling.
\<close>

section \<open>The events of a report\<close>

definition key_events :: "bytes \<Rightarrow> bytes \<Rightarrow> input_event_t list" where
  "key_events prev cur =
     map (\<lambda>sc. KeyEvent sc (key_ascii False sc) (prev ! 0) KEY_FLAG_RELEASE)
       (filter (\<lambda>sc. sc \<notin> {0, 1} \<union> set (drop 2 cur)) (drop 2 prev)) @
     map (\<lambda>sc. KeyEvent sc (key_ascii (cur ! 0 AND 0x22 \<noteq> 0) sc) (cur ! 0) KEY_FLAG_PRESS)
       (filter (\<lambda>sc. sc \<notin> {0, 1} \<union> set (drop 2 prev)) (drop 2 cur))"

abbreviation post_all :: "input_event_t list \<Rightarrow> input_ring_t \<Rightarrow> input_ring_t" where
  "post_all evs r \<equiv> fold (\<lambda>ev r. snd (input_ring_post ev r)) evs r"

lemma map_slots: "length r = 8 \<Longrightarrow> map ((!) r) [2..<8] = drop 2 r"
  by (rule nth_equalityI) (simp_all del: upt_rec_numeral)

lemma in_slots_set: "length r = 8 \<Longrightarrow> in_slots r sc \<longleftrightarrow> sc \<in> set (drop 2 r)"
  by (simp add: in_slots_def list_ex_iff map_slots [symmetric]) auto

lemma fold_post_event: "fold post_event evs s = s\<lparr>g_input_ring := post_all evs (g_input_ring s)\<rparr>"
  by (induction evs arbitrary: s) (simp_all add: post_event_def)

lemma post_releases_fold:
  "post_releases prev cur is s = fold post_event
     (map (\<lambda>sc. KeyEvent sc (key_ascii False sc) (prev ! 0) KEY_FLAG_RELEASE)
       (filter (\<lambda>sc. sc \<noteq> 0 \<and> sc \<noteq> 1 \<and> \<not> in_slots cur sc) (map ((!) prev) is))) s"
  by (induction "is" arbitrary: s) (simp_all add: Let_def key_ascii_def)

lemma post_presses_all:
  "post_presses prev cur is s =
     (let sh = (cur ! 0 AND 0x22 \<noteq> 0);
          new = filter (\<lambda>sc. sc \<noteq> 0 \<and> sc \<noteq> 1 \<and> \<not> in_slots prev sc) (map ((!) cur) is)
      in s\<lparr>g_input_ring := post_all (map (\<lambda>sc. KeyEvent sc (key_ascii sh sc) (cur ! 0) KEY_FLAG_PRESS) new) (g_input_ring s),
           com1_calls := com1_calls s @ concat (map (\<lambda>sc. key_calls (key_ascii sh sc) sc) new)\<rparr>)"
  by (induction "is" arbitrary: s) (simp_all add: Let_def post_event_def com1_print_def)

text \<open>The keys a report presses anew, and the lines about them.\<close>

definition new_keys :: "bytes \<Rightarrow> bytes \<Rightarrow> bytes" where
  "new_keys prev cur = filter (\<lambda>sc. sc \<notin> {0, 1} \<union> set (drop 2 prev)) (drop 2 cur)"

definition report_calls :: "bytes \<Rightarrow> bytes \<Rightarrow> serial_call list" where
  "report_calls prev cur = concat (map (\<lambda>sc. key_calls (key_ascii (cur ! 0 AND 0x22 \<noteq> 0) sc) sc) (new_keys prev cur))"

lemma post_report:
  assumes "length prev = 8" "length cur = 8"
  shows "post_presses prev cur [2..<8] (post_releases prev cur [2..<8] s) =
    s\<lparr>g_input_ring := post_all (key_events prev cur) (g_input_ring s), com1_calls := com1_calls s @ report_calls prev cur\<rparr>"
  unfolding post_releases_fold post_presses_all fold_post_event Let_def report_calls_def new_keys_def key_events_def
    map_slots [OF assms(1)] map_slots [OF assms(2)] in_slots_set [OF assms(1)] in_slots_set [OF assms(2)]
  by simp

text \<open>What a poll that finds a completed transfer prints before it looks at the report.\<close>

definition poll_calls :: "u32 \<Rightarrow> u32 \<Rightarrow> uhci_td_t \<Rightarrow> serial_call list" where
  "poll_calls polls dones td =
     (if (polls + 1) mod 500 = 0
      then [Puts (ascii ''[KBD] poll=''), Dec (polls + 1), Puts (ascii '' done=''), Dec dones, Puts (ascii '' td_sts=0x''),
            Hex32 (td_status td), Puts (ascii '' tok=0x''), Hex32 (td_token td), Puts [13, 10]]
      else []) @
     [Puts (ascii ''[KBD] TD#''), Dec (dones + 1), Puts (ascii '' sts=0x''), Hex32 (td_status td), Puts (ascii '' len=''),
      Dec (ucast (uhci_td_actual_len td)), Puts (ascii '' tok=0x''), Hex32 (td_token td), Puts [13, 10]]"

lemma report_bytes_frame [simp]:
  "report_bytes a (s\<lparr>g_poll_count := n\<rparr>) = report_bytes a s" "report_bytes a (s\<lparr>g_done_count := n\<rparr>) = report_bytes a s"
  "report_bytes a (s\<lparr>com1_calls := cs\<rparr>) = report_bytes a s"
  by (simp_all only: report_bytes_def get_byte_def uhci.simps hid.simps) simp_all

lemma length_report [simp]: "length (report_bytes buf s) = 8"
  by (simp add: report_bytes_def)

lemma hid_kbd_poll_report:
  assumes "kbd_active (g_kbd s)" "length (kbd_prev_report (g_kbd s)) = 8"
    "uhci_td_done (tds (ram s) (kbd_poll_td (g_kbd s)))" "\<not> uhci_td_error (tds (ram s) (kbd_poll_td (g_kbd s)))"
  defines "prev \<equiv> kbd_prev_report (g_kbd s)" and "cur \<equiv> report_bytes (kbd_report_buf (g_kbd s)) s"
  shows "hid_kbd_poll s = uhci_reactivate_td (kbd_poll_td (g_kbd s))
     (s\<lparr>g_poll_count := g_poll_count s + 1, g_done_count := g_done_count s + 1,
        g_input_ring := post_all (key_events prev cur) (g_input_ring s),
        com1_calls := com1_calls s @ poll_calls (g_poll_count s) (g_done_count s) (tds (ram s) (kbd_poll_td (g_kbd s))) @
          report_calls prev cur,
        g_kbd := (g_kbd s)\<lparr>kbd_prev_report := cur\<rparr>\<rparr>)"
  using assms(1-4) unfolding prev_def cur_def
  by (simp add: hid_kbd_poll_def Let_def post_report com1_print_def poll_calls_def del: upt_rec_numeral)

section \<open>A reader that follows the events\<close>

definition held_keys :: "bytes \<Rightarrow> u8 set" where
  "held_keys r = set (drop 2 r) - {0, 1}"

fun apply_key :: "input_event_t \<Rightarrow> u8 set \<Rightarrow> u8 set" where
  "apply_key (KeyEvent sc a m f) K = (if f = KEY_FLAG_RELEASE then K - {sc} else insert sc K)"
| "apply_key (MouseEvent dx dy b) K = K"

lemma fold_release: "fold apply_key (map (\<lambda>sc. KeyEvent sc (f sc) m 1) xs) K = K - set xs"
  by (induction xs arbitrary: K) auto

lemma fold_press: "fold apply_key (map (\<lambda>sc. KeyEvent sc (f sc) m 0) xs) K = K \<union> set xs"
  by (induction xs arbitrary: K) auto

lemma key_events_replay: "fold apply_key (key_events prev cur) (held_keys prev) = held_keys cur"
  by (auto simp: key_events_def fold_release fold_press held_keys_def)

lemma key_events_length:
  assumes "length prev = 8" "length cur = 8"
  shows "length (key_events prev cur) \<le> 12"
proof -
  have "length (filter P (drop 2 r)) \<le> 6" if "length r = 8" for P and r :: bytes
    using that length_filter_le [of P "drop 2 r"] by simp
  from this [OF assms(1)] this [OF assms(2)] show ?thesis
    by (simp add: key_events_def add_mono [of _ 6 _ 6, simplified])
qed

text \<open>The application takes every event out of the ring.\<close>

fun read_events :: "nat \<Rightarrow> ('d, 'z) hid_scheme \<Rightarrow> input_event_t list \<times> ('d, 'z) hid_scheme" where
  "read_events 0 s = ([], s)"
| "read_events (Suc n) s =
     (case input_ring_read (g_input_ring s) of
        (None, _) \<Rightarrow> ([], s)
      | (Some ev, r) \<Rightarrow> let (evs, s') = read_events n (s\<lparr>g_input_ring := r\<rparr>) in (ev # evs, s'))"

lemma read_events_all:
  assumes "ring_inv (g_input_ring s)" "length (ring_contents (g_input_ring s)) \<le> n"
  shows "\<exists>r. read_events n s = (ring_contents (g_input_ring s), s\<lparr>g_input_ring := r\<rparr>) \<and> ring_inv r \<and> ring_contents r = []"
  using assms
proof (induction n arbitrary: s)
  case (Suc n)
  show ?case
  proof (cases "ring_contents (g_input_ring s)")
    case Nil
    with ring.take_none Suc.prems show ?thesis by (intro exI [of _ "g_input_ring s"]) simp
  next
    case (Cons y ys)
    with ring.take_some Suc.prems(1) obtain r
      where r: "input_ring_read (g_input_ring s) = (Some y, r)" "ring_inv r" "ring_contents r = ys" by blast
    obtain r' where "read_events n (s\<lparr>g_input_ring := r\<rparr>) = (ys, s\<lparr>g_input_ring := r'\<rparr>)" "ring_inv r'" "ring_contents r' = []"
      using Suc.IH [of "s\<lparr>g_input_ring := r\<rparr>"] r Suc.prems(2) Cons by auto
    with r Cons show ?thesis by auto
  qed
next
  case 0
  then show ?case by (intro exI [of _ "g_input_ring s"]) simp
qed

text \<open>
  The device answers the polling descriptor with a report: the controller stores it and writes back
  the status. Then the driver polls and the application reads.
\<close>

definition deliver :: "u32 \<Rightarrow> bytes \<Rightarrow> ('d, 'z) hid_scheme \<Rightarrow> ('d, 'z) hid_scheme" where
  "deliver sts rep s = upd_td (kbd_poll_td (g_kbd s)) (\<lambda>t. t\<lparr>td_status := sts\<rparr>) (put_bytes (kbd_report_buf (g_kbd s)) rep s)"

fun kbd_session :: "(u32 \<times> bytes) list \<Rightarrow> ('d, 'z) hid_scheme \<Rightarrow> input_event_t list \<times> ('d, 'z) hid_scheme" where
  "kbd_session [] s = ([], s)"
| "kbd_session ((sts, rep) # reps) s =
     (let (evs, s1) = read_events 64 (hid_kbd_poll (deliver sts rep s)); (rest, s2) = kbd_session reps s1
      in (evs @ rest, s2))"

definition good_status :: "u32 \<Rightarrow> bool" where
  "good_status sts \<longleftrightarrow> sts AND TD_STS_ACTIVE = 0 \<and> sts AND (0x400000 OR 0x200000 OR 0x100000 OR 0x40000 OR 0x20000) = 0"

definition kbd_idle :: "bytes \<Rightarrow> ('d, 'z) hid_scheme \<Rightarrow> bool" where
  "kbd_idle prev s \<longleftrightarrow> kbd_active (g_kbd s) \<and> kbd_prev_report (g_kbd s) = prev \<and> length prev = 8 \<and>
     ring_inv (g_input_ring s) \<and> ring_contents (g_input_ring s) = []"

lemma deliver_fields:
  "g_kbd (deliver sts rep s) = g_kbd s" "g_input_ring (deliver sts rep s) = g_input_ring s"
  "length rep = 8 \<Longrightarrow> report_bytes (kbd_report_buf (g_kbd s)) (deliver sts rep s) = rep"
  "td_status (tds (ram (deliver sts rep s)) (kbd_poll_td (g_kbd s))) = sts"
proof -
  show "report_bytes (kbd_report_buf (g_kbd s)) (deliver sts rep s) = rep" if "length rep = 8"
    using that by (intro nth_equalityI)
      (simp_all add: report_bytes_def get_byte_def deliver_def upd_td_def put_bytes_def unat_of_nat_eq)
qed (simp_all add: deliver_def upd_td_def put_bytes_def)

lemma reactivate_fields:
  "g_kbd (uhci_reactivate_td a s) = g_kbd s" "g_input_ring (uhci_reactivate_td a s) = g_input_ring s"
  by (simp_all add: uhci_reactivate_td_def upd_td_def)

lemma kbd_poll_delivered:
  assumes "kbd_idle prev s" "length rep = 8" "good_status sts"
  defines "s0 \<equiv> hid_kbd_poll (deliver sts rep s)"
  shows "ring_contents (g_input_ring s0) = key_events prev rep" "ring_inv (g_input_ring s0)"
    "g_kbd s0 = (g_kbd s)\<lparr>kbd_prev_report := rep\<rparr>" "g_mouse s0 = g_mouse s" "hw s0 = hw s" "hid.more s0 = hid.more s"
    "com1_calls s0 = com1_calls s @ poll_calls (g_poll_count s) (g_done_count s)
       ((tds (ram s) (kbd_poll_td (g_kbd s)))\<lparr>td_status := sts\<rparr>) @ report_calls prev rep"
    "g_poll_count s0 = g_poll_count s + 1" "g_done_count s0 = g_done_count s + 1"
    "td_token (tds (ram s0) (kbd_poll_td (g_kbd s))) = td_token (tds (ram s) (kbd_poll_td (g_kbd s))) XOR TD_TOKEN_TOGGLE 1"
proof -
  let ?s = "deliver sts rep s"
  note F = deliver_fields
  have I: "kbd_active (g_kbd s)" "kbd_prev_report (g_kbd s) = prev" "length prev = 8" "ring_inv (g_input_ring s)"
    "ring_contents (g_input_ring s) = []" using assms(1) by (simp_all add: kbd_idle_def)
  have p: "s0 = uhci_reactivate_td (kbd_poll_td (g_kbd s))
     (?s\<lparr>g_poll_count := g_poll_count ?s + 1, g_done_count := g_done_count ?s + 1,
        g_input_ring := post_all (key_events prev rep) (g_input_ring s),
        com1_calls := com1_calls ?s @ poll_calls (g_poll_count ?s) (g_done_count ?s) (tds (ram ?s) (kbd_poll_td (g_kbd s))) @
          report_calls prev rep,
        g_kbd := (g_kbd s)\<lparr>kbd_prev_report := rep\<rparr>\<rparr>)"
    using hid_kbd_poll_report [of ?s] I assms(2,3)
    by (simp add: s0_def F uhci_td_done_def uhci_td_error_def good_status_def)
  have r: "g_input_ring s0 = post_all (key_events prev rep) (g_input_ring s)" by (simp add: p reactivate_fields)
  show "ring_contents (g_input_ring s0) = key_events prev rep" "ring_inv (g_input_ring s0)"
    unfolding r using ring.post_all [OF I(4), of "key_events prev rep"] key_events_length [OF I(3) assms(2)] I(5) by simp_all
  show "g_kbd s0 = (g_kbd s)\<lparr>kbd_prev_report := rep\<rparr>" by (simp add: p reactivate_fields)
  show "g_mouse s0 = g_mouse s" "hw s0 = hw s" "hid.more s0 = hid.more s"
    by (simp_all add: p uhci_reactivate_td_def upd_td_def deliver_def put_bytes_def)
  have t: "tds (ram ?s) (kbd_poll_td (g_kbd s)) = (tds (ram s) (kbd_poll_td (g_kbd s)))\<lparr>td_status := sts\<rparr>"
    "com1_calls ?s = com1_calls s" "g_poll_count ?s = g_poll_count s" "g_done_count ?s = g_done_count s"
    by (simp_all add: deliver_def upd_td_def put_bytes_def)
  show "com1_calls s0 = com1_calls s @ poll_calls (g_poll_count s) (g_done_count s)
      ((tds (ram s) (kbd_poll_td (g_kbd s)))\<lparr>td_status := sts\<rparr>) @ report_calls prev rep"
    "g_poll_count s0 = g_poll_count s + 1" "g_done_count s0 = g_done_count s + 1"
    unfolding p t by (simp_all add: uhci_reactivate_td_def upd_td_def)
  show "td_token (tds (ram s0) (kbd_poll_td (g_kbd s))) = td_token (tds (ram s) (kbd_poll_td (g_kbd s))) XOR TD_TOKEN_TOGGLE 1"
    unfolding p by (simp add: uhci_reactivate_td_def upd_td_def reactivate_def t)
qed

lemma kbd_step:
  assumes "kbd_idle prev s" "length rep = 8" "good_status sts"
  shows "\<exists>s1. read_events 64 (hid_kbd_poll (deliver sts rep s)) = (key_events prev rep, s1) \<and> kbd_idle rep s1"
proof -
  define s0 where "s0 = hid_kbd_poll (deliver sts rep s)"
  note D = kbd_poll_delivered [OF assms, folded s0_def]
  have I: "kbd_active (g_kbd s)" "length prev = 8" using assms(1) by (simp_all add: kbd_idle_def)
  have "length (ring_contents (g_input_ring s0)) \<le> 64" unfolding D(1) using key_events_length [OF I(2) assms(2)] by simp
  from read_events_all [OF D(2) this] obtain r' where
    "read_events 64 s0 = (key_events prev rep, s0\<lparr>g_input_ring := r'\<rparr>)" "ring_inv r'" "ring_contents r' = []"
    unfolding D(1) by blast
  then show ?thesis unfolding s0_def [symmetric] using I assms(2) D(3) by (auto simp: kbd_idle_def)
qed

lemma kbd_session_run:
  assumes "kbd_idle prev s" "\<forall>(sts, rep) \<in> set reps. length rep = 8 \<and> good_status sts"
  shows "\<exists>evs s1. kbd_session reps s = (evs, s1) \<and> kbd_idle (last (prev # map snd reps)) s1 \<and>
    fold apply_key evs (held_keys prev) = held_keys (last (prev # map snd reps))"
  using assms
proof (induction reps arbitrary: prev s)
  case (Cons p reps)
  obtain sts rep where p: "p = (sts, rep)" by fastforce
  then have g: "length rep = 8" "good_status sts" using Cons.prems by simp_all
  obtain s1 where s1: "read_events 64 (hid_kbd_poll (deliver sts rep s)) = (key_events prev rep, s1)" "kbd_idle rep s1"
    using kbd_step [OF Cons.prems(1) g] by blast
  obtain evs s2 where "kbd_session reps s1 = (evs, s2)" "kbd_idle (last (rep # map snd reps)) s2"
    "fold apply_key evs (held_keys rep) = held_keys (last (rep # map snd reps))"
    using Cons.IH [OF s1(2)] Cons.prems by auto
  then show ?case using s1 by (auto simp: p key_events_replay)
qed simp

section \<open>The driver layers below leave the device table alone\<close>

lemma timer_read_more: "timer_read E s = (t, s1) \<Longrightarrow> uhci.more s1 = uhci.more s"
  by (auto simp: timer_read_def split: prod.splits)

lemma wait_until_more: "wait_until E stop s = Some s1 \<Longrightarrow> uhci.more s1 = uhci.more s"
proof (erule wait_until.raw_induct [rotated])
  fix wu E' stop' s' y
  assume IH: "\<And>E stop s y. wu E stop s = Some y \<Longrightarrow> uhci.more y = uhci.more s"
    and eq: "(let (t, s1) = timer_read E' s' in if t < stop' then wu E' stop' s1 else Some s1) = Some y"
  obtain t s1 where t: "timer_read E' s' = (t, s1)" by fastforce
  show "uhci.more y = uhci.more s'"
    using eq IH [of E' stop' s1 y] timer_read_more [OF t] by (auto simp: t split: if_splits)
qed

lemma wait_status_more: "wait_status E dl a b s = Some y \<Longrightarrow> uhci.more (snd y) = uhci.more s"
proof (erule wait_status.raw_induct [rotated])
  fix ws E' dl' a' b' s' y
  assume IH: "\<And>E dl a b s y. ws E dl a b s = Some y \<Longrightarrow> uhci.more (snd y) = uhci.more s"
    and eq: "(let (t, s1) = timer_read E' s' in if \<not> t < dl' then Some (False, s1)
         else if uhci_td_done (tds (ram s1) b') then Some (\<not> uhci_td_error (tds (ram s1) b'), s1)
         else if uhci_td_done (tds (ram s1) a') \<and> uhci_td_error (tds (ram s1) a') then Some (False, s1)
         else ws E' dl' a' b' s1) = Some y"
  obtain t s1 where t: "timer_read E' s' = (t, s1)" by fastforce
  show "uhci.more (snd y) = uhci.more s'"
    using eq IH [of E' dl' a' b' s1 y] timer_read_more [OF t] by (auto simp: t split: if_splits)
qed

lemma delay_more: "uhci_delay_ms E ms s = Some s1 \<Longrightarrow> uhci.more s1 = uhci.more s"
  by (auto simp: uhci_delay_ms_def dest!: wait_until_more timer_read_more split: prod.splits)

lemma insert_qh_more: "insert_qh frnum qh fis s = (saved, s1) \<Longrightarrow> uhci.more s1 = uhci.more s"
  by (induction fis arbitrary: s saved) (auto simp: Let_def split: prod.splits)

lemma restore_frames_more: "uhci.more (restore_frames frnum ps s) = uhci.more s"
  by (induction frnum ps s rule: restore_frames.induct) simp_all

lemma insert_td_more: "uhci.more (insert_td td is s) = uhci.more s"
  by (induction "is" arbitrary: s) simp_all

lemma insert_periodic_more: "uhci.more (uhci_insert_periodic_td td k s) = uhci.more s"
  by (simp add: uhci_insert_periodic_td_def insert_td_more)

lemma control_transfer_more:
  assumes "uhci_control_transfer E da ls pkt data len is_in s = Some (ok, s1)"
  shows "uhci.more s1 = uhci.more s"
proof -
  have rd: "uhci.more t1 = uhci.more t" if "uhci_rd16 E base reg t = (v, t1)" for base reg v and t t1 :: "('a, 'b) uhci_scheme"
    using that by (auto simp: uhci_rd16_def split: prod.splits)
  show ?thesis using assms
    by (auto simp: uhci_control_transfer_def Let_def restore_frames_more same_io_def
        split: if_splits prod.splits option.splits Option.bind_splits
        dest!: build_chain_io rd insert_qh_more timer_read_more wait_status_more)
qed

lemma hid_fields:
  assumes "uhci.more s1 = uhci.more (s :: ('d, 'z) hid_scheme)"
  shows "g_devices s1 = g_devices s \<and> g_device_count s1 = g_device_count s \<and> g_kbd s1 = g_kbd s \<and>
    g_mouse s1 = g_mouse s \<and> g_input_ring s1 = g_input_ring s"
  using assms by (cases s1, cases s) simp

lemma hid_frame [simp]:
  fixes s :: "('d, 'z) hid_scheme"
  shows "g_devices (put_bytes a bs s) = g_devices s" "g_device_count (put_bytes a bs s) = g_device_count s"
    "g_kbd (put_bytes a bs s) = g_kbd s" "g_mouse (put_bytes a bs s) = g_mouse s"
    "g_input_ring (put_bytes a bs s) = g_input_ring s"
    "g_devices (upd_td b f s) = g_devices s" "g_device_count (upd_td b f s) = g_device_count s"
    "g_kbd (upd_td b f s) = g_kbd s" "g_mouse (upd_td b f s) = g_mouse s"
    "g_input_ring (upd_td b f s) = g_input_ring s"
    "g_devices (uhci_insert_periodic_td b k s) = g_devices s"
    "g_device_count (uhci_insert_periodic_td b k s) = g_device_count s"
    "g_kbd (uhci_insert_periodic_td b k s) = g_kbd s" "g_mouse (uhci_insert_periodic_td b k s) = g_mouse s"
    "g_input_ring (uhci_insert_periodic_td b k s) = g_input_ring s"
  using hid_fields [of "put_bytes a bs s" s] hid_fields [of "upd_td b f s" s]
    hid_fields [of "uhci_insert_periodic_td b k s" s] by (simp_all add: insert_periodic_more)

lemma usb_fields:
  assumes "usb.more s1 = usb.more (s :: ('d, 'z) hid_scheme)"
  shows "g_devices s1 = g_devices s \<and> g_device_count s1 = g_device_count s \<and> g_kbd s1 = g_kbd s \<and>
    g_mouse s1 = g_mouse s \<and> g_input_ring s1 = g_input_ring s"
  using assms by (cases s1, cases s) simp

lemma usb_more: "uhci.more s1 = uhci.more (s :: ('d, 'z) usb_scheme) \<Longrightarrow> usb.more s1 = usb.more s"
  by (cases s1, cases s) simp

lemma configure_more: "configure_device E buf dev s = Some (ok, dev', s1) \<Longrightarrow> usb.more s1 = usb.more s"
  by (auto simp: configure_device_def get_descriptor_def usb_set_configuration_def Let_def
      split: if_splits Option.bind_splits dest!: control_transfer_more usb_more)

lemma enumerate_more: "usb_enumerate_port E buf port ls s = Some (ok, dev, s1) \<Longrightarrow> usb.more s1 = usb.more s"
  by (auto simp: usb_enumerate_port_def get_descriptor_def Let_def
      split: if_splits Option.bind_splits dest!: control_transfer_more delay_more configure_more usb_more)

section \<open>Well-formed driver state\<close>

text \<open>
  The static tables have their sizes, and an active driver points to an enumerated device of its kind.
\<close>

definition hid_ok :: "('d, 'z) hid_scheme \<Rightarrow> bool" where
  "hid_ok s \<longleftrightarrow> length (g_devices s) = 4 \<and> unat (g_device_count s) \<le> 4 \<and> ring_inv (g_input_ring s) \<and>
     length (kbd_prev_report (g_kbd s)) = 8 \<and>
     (kbd_active (g_kbd s) \<longrightarrow> (\<exists>d < unat (g_device_count s). kbd_dev (g_kbd s) = Some d \<and>
        ud_class_code (g_devices s ! d) = USB_CLASS_HID \<and> ud_protocol (g_devices s ! d) = USB_PROTOCOL_KEYBOARD)) \<and>
     (mouse_active (g_mouse s) \<longrightarrow> (\<exists>d < unat (g_device_count s). mouse_dev (g_mouse s) = Some d \<and>
        ud_class_code (g_devices s ! d) = USB_CLASS_HID \<and> ud_protocol (g_devices s ! d) = USB_PROTOCOL_MOUSE))"

lemma hid_ok_cong:
  assumes "hid_ok s"
    and "g_devices s1 = g_devices s \<and> g_device_count s1 = g_device_count s \<and> g_kbd s1 = g_kbd s \<and>
      g_mouse s1 = g_mouse s \<and> g_input_ring s1 = g_input_ring s"
  shows "hid_ok s1"
  using assms by (simp add: hid_ok_def)

lemma hid_ok_device:
  assumes "hid_ok s" "unat (g_device_count s) < 4"
  shows "hid_ok (s\<lparr>g_devices := (g_devices s)[unat (g_device_count s) := dev]\<rparr>)"
    "hid_ok (s\<lparr>g_devices := (g_devices s)[unat (g_device_count s) := dev], g_device_count := g_device_count s + 1\<rparr>)"
proof -
  have n: "unat (g_device_count s + 1) = unat (g_device_count s) + 1" using assms(2) by (simp add: unat_word_ariths)
  show "hid_ok (s\<lparr>g_devices := (g_devices s)[unat (g_device_count s) := dev]\<rparr>)"
    "hid_ok (s\<lparr>g_devices := (g_devices s)[unat (g_device_count s) := dev], g_device_count := g_device_count s + 1\<rparr>)"
    using assms by (auto simp: hid_ok_def n)
qed

text \<open>What the two initialisers store.\<close>

lemma alloc_more:
  "usb_kmalloc n s = (r, s1) \<Longrightarrow> uhci.more s1 = uhci.more s"
  "uhci_alloc_td s = (r, s1) \<Longrightarrow> uhci.more s1 = uhci.more s"
  by (auto dest!: kmalloc_io(1) alloc_td_io simp: same_io_def)

lemma hid_kbd_init_result:
  assumes "hid_kbd_init E d s = Some (ok, s1)"
  shows "g_devices s1 = g_devices s \<and> g_device_count s1 = g_device_count s \<and> g_mouse s1 = g_mouse s \<and>
    g_input_ring s1 = g_input_ring s \<and> (g_kbd s1 = g_kbd s \<or>
      kbd_dev (g_kbd s1) = Some d \<and> length (kbd_prev_report (g_kbd s1)) = 8)"
  using assms
  by (auto simp: hid_kbd_init_def Let_def usb_hid_set_protocol_def usb_hid_set_idle_def
      split: if_splits Option.bind_splits option.splits prod.splits
      dest!: control_transfer_more alloc_more hid_fields)

lemma hid_mouse_init_result:
  assumes "hid_mouse_init E d s = Some (ok, s1)"
  shows "g_devices s1 = g_devices s \<and> g_device_count s1 = g_device_count s \<and> g_kbd s1 = g_kbd s \<and>
    g_input_ring s1 = g_input_ring s \<and> (g_mouse s1 = g_mouse s \<or> mouse_dev (g_mouse s1) = Some d)"
  using assms
  by (auto simp: hid_mouse_init_def Let_def usb_hid_set_protocol_def usb_hid_set_idle_def
      split: if_splits Option.bind_splits option.splits prod.splits
      dest!: control_transfer_more alloc_more hid_fields)

lemma hid_kbd_init_ok:
  assumes "hid_ok s" "d < unat (g_device_count s)" "ud_class_code (g_devices s ! d) = USB_CLASS_HID"
    "ud_protocol (g_devices s ! d) = USB_PROTOCOL_KEYBOARD" "hid_kbd_init E d s = Some (ok, s1)"
  shows "hid_ok s1"
  using hid_kbd_init_result [OF assms(5)] assms(1-4) by (auto simp: hid_ok_def)

lemma hid_mouse_init_ok:
  assumes "hid_ok s" "d < unat (g_device_count s)" "ud_class_code (g_devices s ! d) = USB_CLASS_HID"
    "ud_protocol (g_devices s ! d) = USB_PROTOCOL_MOUSE" "hid_mouse_init E d s = Some (ok, s1)"
  shows "hid_ok s1"
  using hid_mouse_init_result [OF assms(5)] assms(1-4) by (auto simp: hid_ok_def)

lemma init_port_ok:
  assumes "hid_ok s" "init_port E buf p s = Some (go, k, s1)"
  shows "hid_ok s1"
proof (cases "uc_port_connected (g_uhci s) ! p \<and> g_device_count s < 4")
  case False
  with assms show ?thesis by (auto simp: init_port_def Let_def not_less split: if_splits)
next
  case True
  let ?d = "unat (g_device_count s)"
  have d: "?d < 4" using True by (simp add: word_less_nat_alt)
  have nf: "\<not> 4 \<le> g_device_count s" using True by (simp add: not_le)
  obtain ok dev s2 where e: "usb_enumerate_port E buf (of_nat p) (uc_port_speed (g_uhci s) ! p = 1) s = Some (ok, dev, s2)"
    using assms(2) True nf by (auto simp: init_port_def Let_def split: Option.bind_splits)
  note F = usb_fields [OF enumerate_more [OF e]]
  have ok2: "hid_ok s2" by (rule hid_ok_cong [OF assms(1) F])
  have d2: "unat (g_device_count s2) < 4" using F d by simp
  note D = hid_ok_device [OF ok2 d2, of dev]
  define s3 where "s3 = s2\<lparr>g_devices := (g_devices s2)[?d := dev], g_device_count := g_device_count s2 + 1\<rparr>"
  have ok3: "hid_ok s3" using D(2) F by (simp add: s3_def)
  have n: "?d < unat (g_device_count s3)" using F d by (simp add: s3_def unat_word_ariths)
  have l: "g_devices s3 ! ?d = dev" using ok2 d by (simp add: s3_def hid_ok_def)
  have r: "init_port E buf p s = (if \<not> ok then Some (True, 0, s2\<lparr>g_devices := (g_devices s2)[?d := dev]\<rparr>)
       else if ud_class_code dev = USB_CLASS_HID \<and> ud_subclass dev = USB_SUBCLASS_BOOT then
         if ud_protocol dev = USB_PROTOCOL_KEYBOARD then do {
           (r, s4) \<leftarrow> hid_kbd_init E ?d s3; Some (True, if r then 1 else 0, s4) }
         else if ud_protocol dev = USB_PROTOCOL_MOUSE then do {
           (r, s4) \<leftarrow> hid_mouse_init E ?d s3; Some (True, if r then 1 else 0, s4) }
         else Some (True, 0, s3)
       else Some (True, 0, s3))"
    using True nf by (simp add: init_port_def Let_def e s3_def)
  show ?thesis
    using assms(2) D(1) ok3 hid_kbd_init_ok [OF ok3 n] hid_mouse_init_ok [OF ok3 n] F
    unfolding r l by (auto split: if_splits Option.bind_splits)
qed

lemma init_ports_ok: "hid_ok s \<Longrightarrow> init_ports E buf ps n s = Some (m, s1) \<Longrightarrow> hid_ok s1"
  by (induction ps arbitrary: n s) (auto split: Option.bind_splits if_splits dest: init_port_ok)

lemma post_inv_ok: "ring_inv r \<Longrightarrow> ring_inv (post_all evs r)"
  using ring.post_all by blast

lemma hid_kbd_poll_ok:
  assumes "hid_ok s"
  shows "hid_ok (hid_kbd_poll s)"
proof (cases "kbd_active (g_kbd s) \<and> uhci_td_done (tds (ram s) (kbd_poll_td (g_kbd s))) \<and>
    \<not> uhci_td_error (tds (ram s) (kbd_poll_td (g_kbd s)))")
  case True
  then show ?thesis using assms
    by (subst hid_kbd_poll_report) (auto simp: hid_ok_def uhci_reactivate_td_def post_inv_ok)
next
  case False
  then show ?thesis using assms
    by (auto simp: hid_kbd_poll_def hid_ok_def uhci_reactivate_td_def Let_def com1_print_def)
qed

lemma hid_mouse_poll_ok: "hid_ok s \<Longrightarrow> hid_ok (hid_mouse_poll s)"
  by (auto simp: hid_mouse_poll_def hid_ok_def uhci_reactivate_td_def Let_def post_event_def com1_print_def ring.post_inv)

lemma usb_hid_poll_ok: "hid_ok s \<Longrightarrow> hid_ok (usb_hid_poll s)"
  by (simp add: usb_hid_poll_def hid_kbd_poll_ok hid_mouse_poll_ok)

lemma usb_hid_init_ok: "hid_ok s \<Longrightarrow> usb_hid_init E buf s = Some (n, s1) \<Longrightarrow> hid_ok s1"
  by (auto simp: usb_hid_init_def split: option.splits dest: init_ports_ok)

section \<open>Samples\<close>

definition sample_hid :: "nat hid" where
  "sample_hid = \<lparr>ram = ram sample_usb, hw = hw sample_usb, uheap_base = uheap_base sample_usb, uheap_ptr = 0,
     g_uhci = g_uhci sample_usb, g_uhci_ready = False, g_next_addr = 1,
     g_devices = replicate 4 zero_device, g_device_count = 0,
     g_kbd = \<lparr>kbd_dev = None, kbd_poll_td = 0x1000, kbd_report_buf = 0x2000,
       kbd_prev_report = replicate 8 0, kbd_active = False\<rparr>,
     g_mouse = \<lparr>mouse_dev = None, mouse_poll_td = 0x1040, mouse_report_buf = 0x2010, mouse_active = False\<rparr>,
     g_input_ring = \<lparr>ring_events = replicate 64 (MouseEvent 0 0 0), ring_head = 0, ring_tail = 0\<rparr>,
     g_poll_count = 0, g_done_count = 0, com1_calls = []\<rparr>"

definition sample_kbd :: "nat hid" where
  "sample_kbd = sample_hid\<lparr>g_kbd := (g_kbd sample_hid)\<lparr>kbd_active := True\<rparr>,
     g_mouse := (g_mouse sample_hid)\<lparr>mouse_active := True\<rparr>\<rparr>"

section \<open>Properties\<close>

text \<open>C37: Keyboard events track the keyboard. Over any sequence of error-free reports, each polled and
  read by the application before the next, an application that applies the press and release events
  in order ends up with exactly the set of keys held in the last report: no key is stuck and none
  is missed, and no event is lost in the ring.\<close>

theorem keyboard_events_track_keys:
  assumes "kbd_idle prev s" "\<forall>(sts, rep) \<in> set reps. length rep = 8 \<and> good_status sts"
  shows "fold apply_key (fst (kbd_session reps s)) (held_keys prev) = held_keys (last (prev # map snd reps))"
  using kbd_session_run [OF assms] by auto

text \<open>Shift and A, then B added, then A released: only B is held.\<close>

theorem keyboard_events_track_keys_witness:
  "fold apply_key (fst (kbd_session [(7, [2, 0, 4, 0, 0, 0, 0, 0]), (7, [2, 0, 4, 5, 0, 0, 0, 0]),
      (7, [0, 0, 5, 0, 0, 0, 0, 0])] sample_kbd)) {} = {5}"
proof -
  have "kbd_idle (replicate 8 0) sample_kbd"
    by (simp add: kbd_idle_def sample_kbd_def sample_hid_def ring_inv_def ring_contents_def ring_count_def)
  from keyboard_events_track_keys [OF this, of "[(7, [2, 0, 4, 0, 0, 0, 0, 0]), (7, [2, 0, 4, 5, 0, 0, 0, 0]),
      (7, [0, 0, 5, 0, 0, 0, 0, 0])]"]
  have "fold apply_key (fst (kbd_session [(7, [2, 0, 4, 0, 0, 0, 0, 0]), (7, [2, 0, 4, 5, 0, 0, 0, 0]),
      (7, [0, 0, 5, 0, 0, 0, 0, 0])] sample_kbd)) (held_keys (replicate 8 0)) = held_keys [0, 0, 5, 0, 0, 0, 0, 0]"
    by (simp add: good_status_def del: kbd_session.simps)
  moreover have "held_keys (replicate 8 0) = {}" "held_keys [0, 0, 5, 0, 0, 0, 0, 0] = {5}"
    by (auto simp: held_keys_def)
  ultimately show ?thesis by (simp del: kbd_session.simps)
qed

text \<open>The shifted table is out of step. From usage ID 0x3A on, the character a key gives with Shift
  is the one that the key two places further gives without: Shift and Up (0x52) types a slash, Shift
  and Home (0x4A) DEL, and the keypad digits are off by two.\<close>

theorem shifted_table_misaligned:
  assumes "0x3A \<le> sc" "sc \<le> 0x62"
  shows "key_ascii True sc = key_ascii False (sc + 2)"
proof -
  have all: "\<forall>i \<in> set [0x3A..<0x63]. hid_to_ascii_shifted ! i = hid_to_ascii_unshifted ! (i + 2)" by code_simp
  have n: "0x3A \<le> unat sc" "unat sc \<le> 0x62" using assms by (simp_all add: word_le_nat_alt)
  then have u: "unat (sc + 2) = unat sc + 2" by (simp add: unat_word_ariths)
  then have "sc < 0x65" "sc + 2 < 0x65" using n by (simp_all add: word_less_nat_alt)
  moreover have "hid_to_ascii_shifted ! unat sc = hid_to_ascii_unshifted ! (unat sc + 2)"
    by (rule bspec [OF all]) (use n in \<open>simp del: upt_rec_numeral\<close>)
  ultimately show ?thesis by (simp add: key_ascii_def u)
qed

theorem shifted_table_misaligned_witness: "key_ascii True 0x52 = 0x2F"
proof -
  have "key_ascii True 0x52 = key_ascii False (0x52 + 2)" by (rule shifted_table_misaligned) simp_all
  also have "\<dots> = 0x2F" by code_simp
  finally show ?thesis .
qed

text \<open>The release of a mouse button is not reported. A report with no button held and no motion, the
  one a mouse sends when a button is released, leaves the ring unchanged, so a reader that saw the
  press never learns that the button is up.\<close>

theorem mouse_release_not_reported:
  assumes "get_byte (mouse_report_buf (g_mouse s)) s AND 7 = 0"
    "get_byte (mouse_report_buf (g_mouse s) + 1) s = 0" "get_byte (mouse_report_buf (g_mouse s) + 2) s = 0"
  shows "g_input_ring (hid_mouse_poll s) = g_input_ring s"
  using assms by (simp add: hid_mouse_poll_def Let_def uhci_reactivate_td_def)

theorem mouse_release_not_reported_witness:
  "g_input_ring (hid_mouse_poll sample_kbd) = g_input_ring sample_kbd"
  by (rule mouse_release_not_reported) (simp_all add: sample_kbd_def sample_hid_def sample_usb_def get_byte_def)

end
