(* ===== verification/Hid_Run.thy ===== *)
theory Hid_Run
  imports Hid_Spec
begin

text \<open>
  The HID drivers at work: the initialisation returns on any devices, and the driver state stays well
  formed under polls that alternate with the activity of the controller and the reads of the application.
\<close>

section \<open>The initialisation returns\<close>

lemma wait_until_returns:
  assumes "ms_clock E now lag" "unat stop + 10 < 2 ^ 32" "now (hw s) \<le> unat stop"
  shows "\<exists>s'. wait_until E stop s = Some s' \<and> now (hw s') \<le> unat stop + 10"
  using assms(3)
proof (induction s rule: wf_induct_rule [OF wf_measures [of "[\<lambda>s. unat stop - now (hw s), \<lambda>s. lag (hw s)]"], case_names less])
  case (less s)
  obtain t s1 where t: "timer_read E s = (t, s1)" by fastforce
  note C = ms_clockD [OF assms(1) t]
  have le: "now (hw s1) \<le> unat stop + 10" using C(2) less.prems by simp
  then have u: "unat t = now (hw s1)" using assms(2) by (simp add: C(1) unat_of_nat_eq)
  show ?case
  proof (cases "t < stop")
    case True
    have l: "now (hw s1) < unat stop" using True u by (simp add: word_less_nat_alt)
    have "(s1, s) \<in> measures [\<lambda>s. unat stop - now (hw s), \<lambda>s. lag (hw s)]" using C(3) l by auto
    then have "\<exists>s'. wait_until E stop s1 = Some s' \<and> now (hw s') \<le> unat stop + 10" using less.IH [of s1] l by simp
    then show ?thesis using True by (subst wait_until.simps) (auto simp: t)
  next
    case False
    then show ?thesis using le by (subst wait_until.simps) (auto simp: t)
  qed
qed

lemma delay_returns:
  assumes "ms_clock E now lag" "now (hw s) + 30 < 2 ^ 32"
  shows "\<exists>s'. uhci_delay_ms E 2 s = Some s' \<and> now (hw s') \<le> now (hw s) + 30"
proof -
  obtain t s1 where t: "timer_read E s = (t, s1)" by fastforce
  note C = ms_clockD [OF assms(1) t]
  have u: "unat (t + 2) = now (hw s1) + 2" using C(1,2) assms(2) by (simp add: unat_word_ariths unat_of_nat_eq)
  show ?thesis using wait_until_returns [OF assms(1), of "t + 2" s1] u C(2) assms(2)
    by (auto simp: uhci_delay_ms_def t)
qed

text \<open>
  There is time for \<open>k\<close> more control transfers before \<open>T\<close>; a computation that returns and leaves as much.
\<close>

definition time_for :: "('d \<Rightarrow> nat) \<Rightarrow> nat \<Rightarrow> nat \<Rightarrow> ('d, 'z) uhci_scheme \<Rightarrow> bool" where
  "time_for now T k s \<longleftrightarrow> now (hw s) + 520 * k \<le> T \<and> T < 2 ^ 32"

definition leaves :: "('d \<Rightarrow> nat) \<Rightarrow> nat \<Rightarrow> nat \<Rightarrow> ('b \<Rightarrow> ('d, 'z) uhci_scheme) \<Rightarrow> 'b option \<Rightarrow> bool" where
  "leaves now T k st r \<longleftrightarrow> (\<exists>y. r = Some y \<and> time_for now T k (st y))"

abbreviation snd3 :: "'a \<times> 'b \<times> 'c \<Rightarrow> 'c" where "snd3 y \<equiv> snd (snd y)"

lemma time_for_less: "time_for now T (Suc k) s \<Longrightarrow> time_for now T k s"
  by (simp add: time_for_def)

lemma leaves_Some: "time_for now T k (st y) \<Longrightarrow> leaves now T k st (Some y)"
  by (simp add: leaves_def)

lemma leaves_bind:
  assumes "leaves now T k st r" "\<And>y. time_for now T k (st y) \<Longrightarrow> leaves now T k' st' (f y)"
  shows "leaves now T k' st' (r \<bind> f)"
  using assms by (auto simp: leaves_def)

lemma transfer_leaves:
  assumes "ms_clock E now lag" "time_for now T (Suc k) s"
  shows "leaves now T k snd (uhci_control_transfer E da ls pkt data n is_in s)"
proof -
  have "now (hw s) + 520 < 2 ^ 32" using assms(2) by (simp add: time_for_def)
  from control_transfer_ends [OF assms(1) this, of da ls pkt data n is_in] show ?thesis
    using assms(2) unfolding leaves_def time_for_def by fastforce
qed

lemma delay_leaves:
  assumes "ms_clock E now lag" "time_for now T (Suc k) s"
  shows "leaves now T k id (uhci_delay_ms E 2 s)"
proof -
  have "now (hw s) + 30 < 2 ^ 32" using assms(2) by (simp add: time_for_def)
  from delay_returns [OF assms(1) this] show ?thesis
    using assms(2) unfolding leaves_def time_for_def by fastforce
qed

lemma configure_leaves:
  assumes "ms_clock E now lag" "time_for now T (Suc (Suc (Suc k))) s"
  shows "leaves now T k snd3 (configure_device E buf dev s)"
  unfolding configure_device_def get_descriptor_def usb_set_configuration_def Let_def
  by (intro leaves_bind [OF transfer_leaves [OF assms]] leaves_bind [OF transfer_leaves [OF assms(1)]])
    (auto intro!: leaves_bind [OF transfer_leaves [OF assms(1)]] leaves_Some intro: time_for_less split: prod.split,
      simp_all add: time_for_def)

lemma enumerate_leaves:
  assumes "ms_clock E now lag" "time_for now T (Suc (Suc (Suc (Suc (Suc (Suc (Suc k))))))) s"
  shows "leaves now T k snd3 (usb_enumerate_port E buf port ls s)"
proof -
  note address = transfer_leaves [OF assms(1), where data = None and k = "Suc (Suc (Suc (Suc (Suc k))))"]
    and delay = delay_leaves [OF assms(1), where k = "Suc (Suc (Suc (Suc k)))"]
    and descriptor = transfer_leaves [OF assms(1), where data = "Some buf" and k = "Suc (Suc (Suc k))"]
  show ?thesis
    unfolding usb_enumerate_port_def get_descriptor_def Let_def
    by (intro leaves_bind [OF transfer_leaves [OF assms]])
      (auto intro!: leaves_bind [OF address] leaves_bind [OF delay] leaves_bind [OF descriptor] leaves_Some
         configure_leaves [OF assms(1)] split: prod.split, simp_all add: time_for_def)
qed

text \<open>After the two requests the initialisers only touch memory.\<close>

lemma insert_td_hw: "hw (insert_td td is s) = hw s"
  by (induction "is" arbitrary: s) simp_all

lemma memory_hw [simp]:
  "hw (uhci_insert_periodic_td td k s) = hw s" "hw (upd_td td f s) = hw s" "hw (put_bytes a bs s) = hw s"
  by (simp_all add: uhci_insert_periodic_td_def insert_td_hw upd_td_def put_bytes_def)

lemma alloc_hw: "usb_kmalloc n s = (r, s1) \<Longrightarrow> hw s1 = hw s" "uhci_alloc_td s = (r, s1) \<Longrightarrow> hw s1 = hw s"
  by (auto dest!: kmalloc_io(1) alloc_td_io simp: same_io_def)

lemma kbd_init_leaves:
  assumes "ms_clock E now lag" "time_for now T (Suc (Suc k)) s"
  shows "leaves now T k snd (hid_kbd_init E d s)"
  unfolding hid_kbd_init_def usb_hid_set_protocol_def usb_hid_set_idle_def Let_def
  by (auto intro!: leaves_bind [OF transfer_leaves [OF assms]] leaves_bind [OF transfer_leaves [OF assms(1)]] leaves_Some
      split: prod.split option.split simp: time_for_def dest!: alloc_hw) (use assms(2) in \<open>simp_all add: time_for_def\<close>)

lemma mouse_init_leaves:
  assumes "ms_clock E now lag" "time_for now T (Suc (Suc k)) s"
  shows "leaves now T k snd (hid_mouse_init E d s)"
  unfolding hid_mouse_init_def usb_hid_set_protocol_def usb_hid_set_idle_def Let_def
  by (auto intro!: leaves_bind [OF transfer_leaves [OF assms]] leaves_bind [OF transfer_leaves [OF assms(1)]] leaves_Some
      split: prod.split option.split simp: time_for_def dest!: alloc_hw) (use assms(2) in \<open>simp_all add: time_for_def\<close>)

lemma init_port_leaves:
  assumes "ms_clock E now lag" "time_for now T (k + 9) s"
  shows "leaves now T k snd3 (init_port E buf p s)"
proof -
  have t: "time_for now T (Suc (Suc (Suc (Suc (Suc (Suc (Suc (k + 2)))))))) s" "time_for now T k s"
    using assms(2) by (simp_all add: time_for_def)
  show ?thesis
    unfolding init_port_def Let_def
    by (auto intro!: leaves_bind [OF enumerate_leaves [OF assms(1) t(1)]] leaves_bind [OF kbd_init_leaves [OF assms(1)]]
        leaves_bind [OF mouse_init_leaves [OF assms(1)]] leaves_Some t(2) split: prod.split simp: time_for_def)
      (use t(2) in \<open>simp_all add: time_for_def\<close>)
qed

lemma init_ports_leaves:
  assumes "ms_clock E now lag"
  shows "time_for now T (9 * length ps + k) s \<Longrightarrow> leaves now T k snd (init_ports E buf ps n s)"
proof (induction ps arbitrary: n s)
  case Nil
  then show ?case by (simp add: leaves_def)
next
  case (Cons p ps)
  then have "time_for now T ((9 * length ps + k) + 9) s" by (simp add: ac_simps)
  then show ?case
    unfolding init_ports.simps
    by (intro leaves_bind [OF init_port_leaves [OF assms]])
      (auto intro!: Cons.IH leaves_Some split: prod.split, simp_all add: time_for_def)
qed

lemma usb_hid_init_returns:
  assumes "ms_clock E now lag" "now (hw s) + 9360 < 2 ^ 32"
  shows "\<exists>n s'. usb_hid_init E buf s = Some (n, s') \<and> now (hw s') \<le> now (hw s) + 9360"
proof (cases "uhci_get s")
  case None
  then show ?thesis by (simp add: usb_hid_init_def)
next
  case (Some c)
  let ?ps = "[0..<min (unat (uc_port_count c)) 2]"
  have "time_for now (now (hw s) + 9360) (9 * length ?ps + 0) s" using assms(2) by (simp add: time_for_def)
  from init_ports_leaves [OF assms(1) this, of buf 0] show ?thesis
    using Some by (auto simp: usb_hid_init_def leaves_def time_for_def)
qed


section \<open>The drivers in their surroundings\<close>

text \<open>
  What can happen to the driver state: the initialisation, a poll of all devices, anything the
  controller and the devices do (to the memory that descriptors and reports lie in, and behind the
  ports), and the application that takes an event.
\<close>

inductive hid_step :: "'d hc_env \<Rightarrow> u32 \<Rightarrow> ('d, 'z) hid_scheme \<Rightarrow> ('d, 'z) hid_scheme \<Rightarrow> bool" for E buf where
  start: "usb_hid_init E buf s = Some (n, t) \<Longrightarrow> hid_step E buf s t"
| poll: "hid_step E buf s (usb_hid_poll s)"
| activity: "hid_step E buf s (s\<lparr>ram := r, hw := d\<rparr>)"
| read: "hid_step E buf s (s\<lparr>g_input_ring := snd (input_ring_read (g_input_ring s))\<rparr>)"

lemma read_ring_inv: "ring_inv r \<Longrightarrow> ring_inv (snd (input_ring_read r))"
  using ring.take_some [of r] ring.take_none [of r] by (cases "ring_contents r") fastforce+

lemma hid_step_ok: "hid_step E buf s t \<Longrightarrow> hid_ok s \<Longrightarrow> hid_ok t"
  by (induction rule: hid_step.induct) (auto dest: usb_hid_init_ok simp: usb_hid_poll_ok, auto simp: hid_ok_def read_ring_inv)

lemma hid_steps_ok: "(hid_step E buf)\<^sup>*\<^sup>* s t \<Longrightarrow> hid_ok s \<Longrightarrow> hid_ok t"
  by (induction rule: rtranclp_induct) (auto intro: hid_step_ok)

lemma deliver_step: "hid_step E buf s (deliver sts rep s)"
proof -
  have "deliver sts rep s = s\<lparr>ram := ram (deliver sts rep s), hw := hw s\<rparr>"
    by (simp add: deliver_def upd_td_def put_bytes_def)
  then show ?thesis using hid_step.activity [where r = "ram (deliver sts rep s)" and d = "hw s"] by metis
qed

section \<open>Properties\<close>

text \<open>C38: The initialisation returns and the driver state stays well formed. On a clock in milliseconds with
  9360 ms left before it wraps, \<open>usb_hid_init\<close> returns whatever the devices answer and however the
  enumeration fails. In whatever order initialisation, polls, the activity of the controller and the
  devices, and the reads of the application follow each other, the tables keep their sizes, the ring is
  consistent, and an active keyboard (mouse) driver points to an enumerated HID keyboard (mouse) of
  the device table.\<close>

theorem hid_state_well_formed:
  assumes "hid_ok s" "ms_clock E now lag" "now (hw s) + 9360 < 2 ^ 32"
  shows "(\<exists>n t. usb_hid_init E buf s = Some (n, t) \<and> now (hw t) \<le> now (hw s) + 9360) \<and>
    (\<forall>t. (hid_step E buf)\<^sup>*\<^sup>* s t \<longrightarrow> hid_ok t)"
  using usb_hid_init_returns [OF assms(2,3)] hid_steps_ok [OF _ assms(1)] by blast

text \<open>A keyboard that is enumerated on a ready controller reports Shift and A; the driver polls.\<close>

definition ready_kbd :: "nat hid" where
  "ready_kbd = sample_hid\<lparr>g_uhci_ready := True, g_device_count := 1,
     g_devices := zero_device\<lparr>ud_class_code := USB_CLASS_HID, ud_subclass := USB_SUBCLASS_BOOT,
       ud_protocol := USB_PROTOCOL_KEYBOARD\<rparr> # replicate 3 zero_device,
     g_kbd := \<lparr>kbd_dev = Some 0, kbd_poll_td = 0x1000, kbd_report_buf = 0x2000,
       kbd_prev_report = replicate 8 0, kbd_active = True\<rparr>\<rparr>"

abbreviation shift_a :: bytes where "shift_a \<equiv> [2, 0, 4, 0, 0, 0, 0, 0]"

theorem hid_state_well_formed_witness:
  "(\<exists>n t. usb_hid_init sample_hc 0x300000 ready_kbd = Some (n, t)) \<and>
   hid_ok (usb_hid_poll (deliver 7 shift_a ready_kbd)) \<and>
   kbd_active (g_kbd (usb_hid_poll (deliver 7 shift_a ready_kbd))) \<and>
   ring_contents (g_input_ring (usb_hid_poll (deliver 7 shift_a ready_kbd))) = [KeyEvent 4 65 2 KEY_FLAG_PRESS]"
proof -
  have ok: "hid_ok ready_kbd" by (simp add: hid_ok_def ready_kbd_def sample_hid_def ring_inv_def)
  have now: "id (hw ready_kbd) + 9360 < 2 ^ 32" by (simp add: ready_kbd_def sample_hid_def sample_usb_def)
  note W = hid_state_well_formed [OF ok sample_clock now, where buf = "0x300000"]
  have i: "kbd_idle (replicate 8 0) ready_kbd"
    by (simp add: kbd_idle_def ready_kbd_def sample_hid_def ring_inv_def ring_contents_def ring_count_def)
  have g: "good_status 7" by (simp add: good_status_def)
  note D = kbd_poll_delivered [OF i _ g, of shift_a, simplified]
  have m: "usb_hid_poll (deliver 7 shift_a ready_kbd) = hid_kbd_poll (deliver 7 shift_a ready_kbd)"
    using D(4) by (simp add: usb_hid_poll_def hid_mouse_poll_def ready_kbd_def sample_hid_def)
  have "key_events (replicate 8 0) shift_a = [KeyEvent 4 65 2 KEY_FLAG_PRESS]" by code_simp
  moreover have "(hid_step sample_hc 0x300000)\<^sup>*\<^sup>* ready_kbd (usb_hid_poll (deliver 7 shift_a ready_kbd))"
    by (rule converse_rtranclp_into_rtranclp, rule deliver_step, rule r_into_rtranclp, rule hid_step.poll)
  ultimately show ?thesis using W D(1,3) unfolding m by (auto simp: ready_kbd_def)
qed

end
