(* ===== verification/Serial.thy ===== *)
theory Serial
  imports Port_Io
begin

text \<open>
  The serial line of \<open>src/drivers/serial.c\<close>: initialisation, characters, strings and numbers. The wait for
  the transmitter is not bounded in the code, so it is a \<open>partial_function\<close> (\<open>None\<close>: it never ends).
  A reference UART says what the driver relies on; \<open>prints\<close> is the contract of everything that writes
  text: it returns, and appends exactly that text to what the line has transmitted.
\<close>

section \<open>The driver\<close>

abbreviation COM1_BASE :: u16 where "COM1_BASE \<equiv> 0x3F8"

definition serial_init :: "'d port_io \<Rightarrow> 'd \<Rightarrow> 'd" where
  "serial_init E d = out8_list E
     [(COM1_BASE + 1, 0x00), (COM1_BASE + 3, 0x80), (COM1_BASE + 0, 0x01), (COM1_BASE + 1, 0x00),
      (COM1_BASE + 3, 0x03), (COM1_BASE + 2, 0xC7), (COM1_BASE + 4, 0x0B)] d"

partial_function (option) serial_wait_tx :: "'d port_io \<Rightarrow> 'd \<Rightarrow> 'd option" where
  "serial_wait_tx E d =
     (let (s, d1) = p_in8 E (COM1_BASE + 5) d
      in if s AND 0x20 = 0 then serial_wait_tx E d1 else Some d1)"

definition serial_putchar :: "'d port_io \<Rightarrow> u8 \<Rightarrow> 'd \<Rightarrow> 'd option" where
  "serial_putchar E c d = do { d1 \<leftarrow> serial_wait_tx E d; Some (p_out8 E COM1_BASE c d1) }"

text \<open>A string ends at its terminating zero, or where the list of its characters ends.\<close>

fun serial_puts :: "'d port_io \<Rightarrow> bytes \<Rightarrow> 'd \<Rightarrow> 'd option" where
  "serial_puts E [] d = Some d"
| "serial_puts E (c # s) d =
     (if c = 0 then Some d
      else do {
        d1 \<leftarrow> (if c = 10 then serial_putchar E 13 d else Some d);
        d2 \<leftarrow> serial_putchar E c d1;
        serial_puts E s d2
      })"

definition hex_char :: "u8 \<Rightarrow> u8" where
  "hex_char v = ascii ''0123456789abcdef'' ! unat v"

definition serial_hex8 :: "'d port_io \<Rightarrow> u8 \<Rightarrow> 'd \<Rightarrow> 'd option" where
  "serial_hex8 E v d = do {
     d1 \<leftarrow> serial_putchar E (hex_char (drop_bit 4 v AND 0xF)) d;
     serial_putchar E (hex_char (v AND 0xF)) d1
   }"

definition serial_hex16 :: "'d port_io \<Rightarrow> u16 \<Rightarrow> 'd \<Rightarrow> 'd option" where
  "serial_hex16 E v d = do {
     d1 \<leftarrow> serial_hex8 E (ucast (drop_bit 8 v)) d;
     serial_hex8 E (ucast (v AND 0xFF)) d1
   }"

definition serial_hex32 :: "'d port_io \<Rightarrow> u32 \<Rightarrow> 'd \<Rightarrow> 'd option" where
  "serial_hex32 E v d = do {
     d1 \<leftarrow> serial_hex8 E (ucast (drop_bit 24 v)) d;
     d2 \<leftarrow> serial_hex8 E (ucast (drop_bit 16 v)) d1;
     d3 \<leftarrow> serial_hex8 E (ucast (drop_bit 8 v)) d2;
     serial_hex8 E (ucast (v AND 0xFF)) d3
   }"

text \<open>\<open>while (v > 0) { buf[i++] = '0' + v % 10; v /= 10; }\<close>, then the buffer backwards.\<close>

function dec_loop :: "u32 \<Rightarrow> bytes" where
  "dec_loop v = (if v = 0 then [] else (48 + ucast (v mod 10)) # dec_loop (v div 10))"
  by auto

termination dec_loop
proof (relation "measure unat")
  fix v :: u32
  assume "v \<noteq> 0"
  then have "0 < unat v" by (simp add: unat_gt_0)
  then show "(v div 10, v) \<in> measure unat" by (simp add: unat_div)
qed simp

declare dec_loop.simps [simp del]

fun serial_putchars :: "'d port_io \<Rightarrow> bytes \<Rightarrow> 'd \<Rightarrow> 'd option" where
  "serial_putchars E [] d = Some d"
| "serial_putchars E (c # s) d = do { d1 \<leftarrow> serial_putchar E c d; serial_putchars E s d1 }"

definition serial_dec :: "'d port_io \<Rightarrow> u32 \<Rightarrow> 'd \<Rightarrow> 'd option" where
  "serial_dec E v d = (if v = 0 then serial_putchar E 48 d else serial_putchars E (rev (dec_loop v)) d)"

text \<open>The calls of a function body one after the other.\<close>

fun calls :: "('d \<Rightarrow> 'd option) list \<Rightarrow> 'd \<Rightarrow> 'd option" where
  "calls [] d = Some d"
| "calls (f # fs) d = do { d1 \<leftarrow> f d; calls fs d1 }"

section \<open>A reference UART\<close>

text \<open>
  The registers of a 16550 the kernel uses. A byte written to the transmitter is sent if the holding
  register is empty and lost otherwise; the register stays full for some number of status reads, then the
  shift register is busy for some more. With \<open>DLAB\<close> set the first two ports are the divisor. The FIFO, modem
  and interrupt registers have no effect here.
\<close>

record uart_dev =
  ux_sent :: bytes
  ux_rx :: bytes
  ux_full :: nat
  ux_shift :: nat
  ux_delays :: "(nat \<times> nat) list"
  ux_lcr :: u8
  ux_div_lo :: u8
  ux_div_hi :: u8

definition ux_dlab :: "uart_dev \<Rightarrow> bool" where
  "ux_dlab u \<longleftrightarrow> ux_lcr u AND 0x80 \<noteq> 0"

definition ux_status :: "uart_dev \<Rightarrow> u8 \<times> uart_dev" where
  "ux_status u =
     ((if ux_rx u \<noteq> [] then 0x01 else 0) OR
      (if ux_full u = 0 then if ux_shift u = 0 then 0x60 else 0x20 else 0),
      if ux_full u = 0 then u\<lparr>ux_shift := ux_shift u - 1\<rparr> else u\<lparr>ux_full := ux_full u - 1\<rparr>)"

definition ux_receive :: "uart_dev \<Rightarrow> u8 \<times> uart_dev" where
  "ux_receive u = (case ux_rx u of [] \<Rightarrow> (0, u) | c # cs \<Rightarrow> (c, u\<lparr>ux_rx := cs\<rparr>))"

definition ux_transmit :: "u8 \<Rightarrow> uart_dev \<Rightarrow> uart_dev" where
  "ux_transmit c u =
     (if ux_full u \<noteq> 0 then u
      else case ux_delays u of
        [] \<Rightarrow> u\<lparr>ux_sent := ux_sent u @ [c]\<rparr>
      | (a, b) # ds \<Rightarrow> u\<lparr>ux_sent := ux_sent u @ [c], ux_full := a, ux_shift := b, ux_delays := ds\<rparr>)"

definition ux_out8 :: "u16 \<Rightarrow> u8 \<Rightarrow> uart_dev \<Rightarrow> uart_dev" where
  "ux_out8 p x u =
     (if p = COM1_BASE then if ux_dlab u then u\<lparr>ux_div_lo := x\<rparr> else ux_transmit x u
      else if p = COM1_BASE + 1 then if ux_dlab u then u\<lparr>ux_div_hi := x\<rparr> else u
      else if p = COM1_BASE + 3 then u\<lparr>ux_lcr := x\<rparr> else u)"

text \<open>A machine whose COM1 behaves like the reference UART \<open>view d\<close>.\<close>

definition uart_compliant :: "'d port_io \<Rightarrow> ('d \<Rightarrow> uart_dev) \<Rightarrow> bool" where
  "uart_compliant E view \<longleftrightarrow>
     (\<forall>d. (fst (p_in8 E (COM1_BASE + 5) d), view (snd (p_in8 E (COM1_BASE + 5) d))) = ux_status (view d)) \<and>
     (\<forall>d. \<not> ux_dlab (view d) \<longrightarrow>
        (fst (p_in8 E COM1_BASE d), view (snd (p_in8 E COM1_BASE d))) = ux_receive (view d)) \<and>
     (\<forall>d p x. view (p_out8 E p x d) = ux_out8 p x (view d))"

definition uart_io :: "uart_dev port_io" where
  "uart_io = \<lparr>p_in8 = (\<lambda>p u. if p = COM1_BASE + 5 then ux_status u
       else if p = COM1_BASE \<and> \<not> ux_dlab u then ux_receive u else (0, u)),
     p_in16 = (\<lambda>p u. (0xFFFF, u)), p_in32 = (\<lambda>p u. (0xFFFFFFFF, u)),
     p_out8 = ux_out8, p_out16 = (\<lambda>p w u. u), p_out32 = (\<lambda>p w u. u)\<rparr>"

lemma uart_io_compliant: "uart_compliant uart_io (\<lambda>u. u)"
  by (simp add: uart_compliant_def uart_io_def)

lemma uartD:
  assumes "uart_compliant E view"
  shows "\<exists>d1. p_in8 E 0x3FD d = (fst (ux_status (view d)), d1) \<and> view d1 = snd (ux_status (view d))"
    "\<not> ux_dlab (view d) \<Longrightarrow>
      \<exists>d1. p_in8 E COM1_BASE d = (fst (ux_receive (view d)), d1) \<and> view d1 = snd (ux_receive (view d))"
    "view (p_out8 E p x d) = ux_out8 p x (view d)"
proof -
  have a: "(fst (p_in8 E 0x3FD d), view (snd (p_in8 E 0x3FD d))) = ux_status (view d)"
    using assms unfolding uart_compliant_def by simp
  show "\<exists>d1. p_in8 E 0x3FD d = (fst (ux_status (view d)), d1) \<and> view d1 = snd (ux_status (view d))"
    using a by (metis fst_conv prod.collapse snd_conv)
  show "\<exists>d1. p_in8 E COM1_BASE d = (fst (ux_receive (view d)), d1) \<and> view d1 = snd (ux_receive (view d))"
    if "\<not> ux_dlab (view d)"
  proof -
    have "(fst (p_in8 E COM1_BASE d), view (snd (p_in8 E COM1_BASE d))) = ux_receive (view d)"
      using assms that unfolding uart_compliant_def by simp
    then show ?thesis by (metis fst_conv prod.collapse snd_conv)
  qed
  show "view (p_out8 E p x d) = ux_out8 p x (view d)" using assms unfolding uart_compliant_def by simp
qed

section \<open>The contract of printing\<close>

text \<open>What \<open>f\<close> sends is the text \<open>s\<close>, however long the line takes; the receiver is not touched.\<close>

definition prints :: "('d \<Rightarrow> uart_dev) \<Rightarrow> ('d \<Rightarrow> 'd option) \<Rightarrow> bytes \<Rightarrow> bool" where
  "prints view f s \<longleftrightarrow> (\<forall>d. \<not> ux_dlab (view d) \<longrightarrow> (\<exists>d1. f d = Some d1 \<and> \<not> ux_dlab (view d1) \<and>
     ux_sent (view d1) = ux_sent (view d) @ s \<and> ux_rx (view d1) = ux_rx (view d)))"

lemma printsD:
  "prints view f s \<Longrightarrow> \<not> ux_dlab (view d) \<Longrightarrow> \<exists>d1. f d = Some d1 \<and> \<not> ux_dlab (view d1) \<and>
     ux_sent (view d1) = ux_sent (view d) @ s \<and> ux_rx (view d1) = ux_rx (view d)"
  by (simp add: prints_def)

named_theorems prints_intros "what the routines that write text print"

lemma prints_skip [prints_intros]: "prints view Some []"
  by (simp add: prints_def)

lemma prints_seq [prints_intros]:
  assumes "prints view f s" "prints view g t"
  shows "prints view (\<lambda>d. do { d1 \<leftarrow> f d; g d1 }) (s @ t)"
  unfolding prints_def
proof (intro allI impI)
  fix d assume "\<not> ux_dlab (view d)"
  then obtain d1 where d1: "f d = Some d1" "\<not> ux_dlab (view d1)" "ux_sent (view d1) = ux_sent (view d) @ s"
    "ux_rx (view d1) = ux_rx (view d)"
    using printsD [OF assms(1)] by blast
  then show "\<exists>d2. (do { d1 \<leftarrow> f d; g d1 }) = Some d2 \<and> \<not> ux_dlab (view d2) \<and>
      ux_sent (view d2) = ux_sent (view d) @ s @ t \<and> ux_rx (view d2) = ux_rx (view d)"
    using printsD [OF assms(2) d1(2)] by auto
qed

lemma prints_calls: "list_all2 (prints view) fs ss \<Longrightarrow> prints view (calls fs) (concat ss)"
proof (induction fs ss rule: list_all2_induct)
  case Nil
  then show ?case by (simp add: prints_def)
next
  case (Cons f fs s ss)
  then show ?case using prints_seq [of view f s "calls fs" "concat ss"] by (simp add: prints_def)
qed

section \<open>The driver prints\<close>

lemma wait_tx_view:
  assumes "uart_compliant E view"
  shows "\<exists>d1. serial_wait_tx E d = Some d1 \<and> ux_full (view d1) = 0 \<and> ux_sent (view d1) = ux_sent (view d) \<and>
    ux_rx (view d1) = ux_rx (view d) \<and> ux_lcr (view d1) = ux_lcr (view d)"
proof (induction "ux_full (view d)" arbitrary: d)
  case 0
  obtain d1 where d1: "p_in8 E 0x3FD d = (fst (ux_status (view d)), d1)" "view d1 = snd (ux_status (view d))"
    using uartD(1) [OF assms] by blast
  have "fst (ux_status (view d)) AND 0x20 \<noteq> 0" using 0 by (simp add: ux_status_def)
  then have "serial_wait_tx E d = Some d1" using d1(1) by (subst serial_wait_tx.simps) simp
  then show ?case using d1(2) 0 by (simp add: ux_status_def)
next
  case (Suc n)
  obtain d1 where d1: "p_in8 E 0x3FD d = (fst (ux_status (view d)), d1)" "view d1 = snd (ux_status (view d))"
    using uartD(1) [OF assms] by blast
  have "fst (ux_status (view d)) AND 0x20 = 0" by (simp add: ux_status_def flip: Suc(2))
  then have "serial_wait_tx E d = serial_wait_tx E d1" using d1(1) by (subst serial_wait_tx.simps) simp
  moreover have "n = ux_full (view d1)" by (simp add: d1(2) ux_status_def flip: Suc(2))
  moreover have "ux_sent (view d1) = ux_sent (view d)" "ux_rx (view d1) = ux_rx (view d)"
    "ux_lcr (view d1) = ux_lcr (view d)" by (simp_all add: d1(2) ux_status_def)
  ultimately show ?case using Suc(1) [of d1] by simp
qed

lemma transmit_view:
  "ux_full u = 0 \<Longrightarrow> ux_sent (ux_transmit c u) = ux_sent u @ [c] \<and> ux_rx (ux_transmit c u) = ux_rx u \<and>
     ux_lcr (ux_transmit c u) = ux_lcr u"
  by (simp add: ux_transmit_def split: list.split)

lemma prints_putchar [prints_intros]:
  assumes "uart_compliant E view"
  shows "prints view (serial_putchar E c) [c]"
  unfolding prints_def
proof (intro allI impI)
  fix d assume b: "\<not> ux_dlab (view d)"
  obtain d1 where d1: "serial_wait_tx E d = Some d1" "ux_full (view d1) = 0" "ux_sent (view d1) = ux_sent (view d)"
    "ux_rx (view d1) = ux_rx (view d)" "ux_lcr (view d1) = ux_lcr (view d)"
    using wait_tx_view [OF assms] by blast
  have "view (p_out8 E COM1_BASE c d1) = ux_transmit c (view d1)"
    using b d1(5) by (simp add: uartD(3) [OF assms] ux_out8_def ux_dlab_def)
  then show "\<exists>d2. serial_putchar E c d = Some d2 \<and> \<not> ux_dlab (view d2) \<and>
      ux_sent (view d2) = ux_sent (view d) @ [c] \<and> ux_rx (view d2) = ux_rx (view d)"
    using d1 transmit_view [OF d1(2), of c] b by (simp add: serial_putchar_def ux_dlab_def)
qed

text \<open>A line feed is sent as carriage return and line feed.\<close>

definition tty :: "bytes \<Rightarrow> bytes" where
  "tty s = concat (map (\<lambda>c. if c = 10 then [13, 10] else [c]) (c_string s))"

lemma tty_Nil [simp]: "tty [] = []"
  by (simp add: tty_def c_string_def)

lemma tty_Cons [simp]: "tty (c # s) = (if c = 0 then [] else (if c = 10 then [13, 10] else [c]) @ tty s)"
  by (simp add: tty_def c_string_def)

lemma tty_plain: "0 \<notin> set s \<Longrightarrow> 10 \<notin> set s \<Longrightarrow> tty s = s"
  by (induction s) auto

lemma prints_puts [prints_intros]:
  assumes "uart_compliant E view"
  shows "prints view (serial_puts E s) (tty s)"
proof (induction s)
  case Nil
  then show ?case by (simp add: prints_def)
next
  case (Cons c s)
  note p = prints_putchar [OF assms]
  consider "c = 0" | "c = 10" | "c \<noteq> 0" "c \<noteq> 10" by blast
  then show ?case
  proof cases
    case 1
    then show ?thesis by (simp add: prints_def)
  next
    case 2
    then show ?thesis using prints_seq [OF p [of 13] prints_seq [OF p [of 10] Cons]] by (simp add: prints_def)
  next
    case 3
    then show ?thesis using prints_seq [OF p [of c] Cons] by (simp add: prints_def)
  qed
qed

lemma prints_putchars: "uart_compliant E view \<Longrightarrow> prints view (serial_putchars E s) s"
proof (induction s)
  case (Cons c s)
  then show ?case using prints_seq [OF prints_putchar [of E view c] Cons.IH] by (simp add: prints_def)
qed (simp add: prints_def)

text \<open>Numbers: two hexadecimal digits for each byte, the most significant first, or decimal.\<close>

definition hex8 :: "u8 \<Rightarrow> bytes" where
  "hex8 v = [hex_char (drop_bit 4 v AND 0xF), hex_char (v AND 0xF)]"

definition hex32 :: "u32 \<Rightarrow> bytes" where
  "hex32 v = hex8 (ucast (drop_bit 24 v)) @ hex8 (ucast (drop_bit 16 v)) @ hex8 (ucast (drop_bit 8 v)) @ hex8 (ucast v)"

lemma prints_hex8 [prints_intros]: "uart_compliant E view \<Longrightarrow> prints view (serial_hex8 E v) (hex8 v)"
  using prints_seq [OF prints_putchar prints_putchar, of E view E] by (simp add: serial_hex8_def [abs_def] hex8_def)

lemma prints_hex32 [prints_intros]: 
  assumes "uart_compliant E view"
  shows "prints view (serial_hex32 E v) (hex32 v)"
proof -
  have m: "ucast (v AND 0xFF) = (ucast v :: u8)"
  proof -
    have f: "(0xFF :: u32) = mask 8" by (simp add: mask_eq_exp_minus_1)
    show ?thesis unfolding f by (rule bit_word_eqI) (auto simp: bit_simps)
  qed
  note p = prints_hex8 [OF assms]
  show ?thesis using prints_seq [OF p prints_seq [OF p prints_seq [OF p p]]]
    by (simp add: serial_hex32_def [abs_def] hex32_def m)
qed

lemma dec_loop_eq: "v \<noteq> 0 \<Longrightarrow> dec_loop v = dec_rev (unat v)"
proof (induction v rule: dec_loop.induct)
  case (1 v)
  have d: "48 + ucast (v mod 10) = (of_nat (48 + unat v mod 10) :: u8)"
  proof -
    have "(of_nat (unat (v mod 10)) :: u8) = ucast (v mod 10)" by simp
    then show ?thesis by (simp add: unat_mod)
  qed
  show ?case
  proof (cases "v div 10 = 0")
    case True
    have "unat (v div 10) = 0" by (simp only: True unsigned_0)
    then have "unat v div 10 = 0" by (simp only: unat_div unat_numeral) (simp add: unat_div)
    then have l: "unat v < 10" by linarith
    then have "dec_rev (unat v) = [48 + ucast (v mod 10)]"
      unfolding d by (simp add: dec_rev.simps [of "unat v"])
    also have "\<dots> = (48 + ucast (v mod 10)) # dec_loop (v div 10)"
      by (simp only: True dec_loop.simps [of 0] if_True refl)
    also have "\<dots> = dec_loop v" using 1(2) by (subst (2) dec_loop.simps) simp
    finally show ?thesis ..
  next
    case False
    then have "unat (v div 10) \<noteq> 0" by (simp only: unsigned_eq_0_iff not_False_eq_True)
    then have "unat v div 10 \<noteq> 0" by (simp only: unat_div unat_numeral) (simp add: unat_div)
    then have "\<not> unat v < 10" by fastforce
    then have "dec_rev (unat v) = of_nat (48 + unat v mod 10) # dec_rev (unat v div 10)"
      by (simp add: dec_rev.simps [of "unat v"])
    also have "\<dots> = (48 + ucast (v mod 10)) # dec_rev (unat (v div 10))"
      unfolding d by (simp add: unat_div)
    also have "\<dots> = (48 + ucast (v mod 10)) # dec_loop (v div 10)"
      using 1(1) [OF 1(2) False] by simp
    also have "\<dots> = dec_loop v" using 1(2) by (subst (2) dec_loop.simps) simp
    finally show ?thesis ..
  qed
qed

lemma prints_dec [prints_intros]:
  assumes "uart_compliant E view"
  shows "prints view (serial_dec E v) (dec_digits (unat v))"
proof (cases "v = 0")
  case True
  then show ?thesis using prints_putchar [OF assms, of 48]
    by (simp add: serial_dec_def [abs_def] dec_digits_def dec_rev.simps [of 0])
next
  case False
  then show ?thesis using prints_putchars [OF assms, of "rev (dec_loop v)"]
    by (simp add: serial_dec_def [abs_def] dec_digits_def dec_loop_eq)
qed

text \<open>The digits fit the buffer of twelve characters.\<close>

lemma dec_loop_length: "length (dec_loop v) \<le> 10"
proof (cases "v = 0")
  case False
  have "unat v < 10 ^ 10" using unsigned_less [of v, where ?'a = nat] by simp
  then show ?thesis using False length_dec_rev [of "unat v" 10] by (simp add: dec_loop_eq)
qed (simp add: dec_loop.simps [of 0])

text \<open>After \<open>serial_init\<close> the line runs at divisor 1 and characters reach the transmitter.\<close>

lemma serial_init_view:
  assumes "uart_compliant E view"
  shows "view (serial_init E d) = (view d)\<lparr>ux_lcr := 0x03, ux_div_lo := 0x01, ux_div_hi := 0x00\<rparr>"
  by (simp add: serial_init_def uartD(3) [OF assms] ux_out8_def ux_dlab_def)

end
