(* ===== verification/Acpi.thy ===== *)
theory Acpi
  imports Serial
begin

text \<open>
  ACPI (\<open>src/kernel/acpi.c\<close>): finding the tables in physical memory, reading the FADT and the \<open>_S5_\<close>
  package of the DSDT, shutdown and reboot. Memory below the tables is a function from addresses to
  bytes; the tables are only read.
\<close>

section \<open>Memory\<close>

type_synonym phys = "u32 \<Rightarrow> u8"

definition read_u32 :: "phys \<Rightarrow> u32 \<Rightarrow> u32 \<Rightarrow> u32" where
  "read_u32 m base off = of_le32 (m (base + off)) (m (base + off + 1)) (m (base + off + 2)) (m (base + off + 3))"

definition read_u64 :: "phys \<Rightarrow> u32 \<Rightarrow> u32 \<Rightarrow> u64" where
  "read_u64 m base off = ucast (read_u32 m base off) OR push_bit 32 (ucast (read_u32 m base (off + 4)))"

definition mem_bytes :: "phys \<Rightarrow> u32 \<Rightarrow> nat \<Rightarrow> bytes" where
  "mem_bytes m a n = map (\<lambda>i. m (a + of_nat i)) [0..<n]"

definition acpi_checksum :: "phys \<Rightarrow> u32 \<Rightarrow> u32 \<Rightarrow> u8" where
  "acpi_checksum m buf len = foldl (+) 0 (mem_bytes m buf (unat len))"

definition mem4eq :: "phys \<Rightarrow> u32 \<Rightarrow> bytes \<Rightarrow> bool" where
  "mem4eq m a b \<longleftrightarrow> mem_bytes m a 4 = b"

definition mem8eq :: "phys \<Rightarrow> u32 \<Rightarrow> bytes \<Rightarrow> bool" where
  "mem8eq m a b \<longleftrightarrow> mem4eq m a (take 4 b) \<and> mem4eq m (a + 4) (drop 4 b)"

section \<open>The tables\<close>

text \<open>Fields of the RSDP and of a table header.\<close>

definition rsdp_revision :: "phys \<Rightarrow> u32 \<Rightarrow> u8" where "rsdp_revision m r = m (r + 15)"
definition rsdp_rsdt_address :: "phys \<Rightarrow> u32 \<Rightarrow> u32" where "rsdp_rsdt_address m r = read_u32 m r 16"
definition rsdp_length :: "phys \<Rightarrow> u32 \<Rightarrow> u32" where "rsdp_length m r = read_u32 m r 20"
definition rsdp_xsdt_address :: "phys \<Rightarrow> u32 \<Rightarrow> u64" where "rsdp_xsdt_address m r = read_u64 m r 24"
definition sdt_length :: "phys \<Rightarrow> u32 \<Rightarrow> u32" where "sdt_length m h = read_u32 m h 4"
definition sdt_revision :: "phys \<Rightarrow> u32 \<Rightarrow> u8" where "sdt_revision m h = m (h + 8)"

abbreviation SDT_HEADER :: u32 where "SDT_HEADER \<equiv> 36"

definition rsdp_valid :: "phys \<Rightarrow> u32 \<Rightarrow> bool" where
  "rsdp_valid m r \<longleftrightarrow> mem8eq m r [0x52, 0x53, 0x44, 0x20, 0x50, 0x54, 0x52, 0x20] \<and>
     acpi_checksum m r 20 = 0 \<and>
     (rsdp_revision m r \<ge> 2 \<and> rsdp_length m r \<ge> 36 \<longrightarrow> acpi_checksum m r (rsdp_length m r) = 0)"

text \<open>\<open>for (addr = start; addr < end; addr += 16)\<close>; both scanned areas end far below the last address.\<close>

definition scan_rsdp :: "phys \<Rightarrow> u32 \<Rightarrow> u32 \<Rightarrow> u32 option" where
  "scan_rsdp m start end' =
     List.find (rsdp_valid m) (map (\<lambda>i. start + 16 * of_nat i) [0..<(unat end' - unat start + 15) div 16])"

definition sdt_valid :: "phys \<Rightarrow> u32 \<Rightarrow> bool" where
  "sdt_valid m h \<longleftrightarrow> \<not> sdt_length m h < SDT_HEADER \<and> acpi_checksum m h (sdt_length m h) = 0"

text \<open>
  The first entry of a root table, \<open>width\<close> bytes each, that points to a FADT; the low 32 bits of an
  entry are used.
\<close>

definition find_fadt :: "phys \<Rightarrow> u32 \<Rightarrow> u32 \<Rightarrow> u32 option" where
  "find_fadt m table width =
     (let n_entries = (sdt_length m table - SDT_HEADER) div width;
          addrs = map (\<lambda>i. read_u32 m (table + SDT_HEADER) (of_nat i * width)) [0..<unat n_entries]
      in List.find (\<lambda>a. \<not> a < 0x1000 \<and> mem4eq m a [0x46, 0x41, 0x43, 0x50]) addrs)"

section \<open>The \<open>_S5_\<close> package\<close>

text \<open>A round of the scan goes on, or ends it (\<open>break\<close> or \<open>return\<close>) with the values read so far.\<close>

datatype s5_result = S5_Continue | S5_Stop u16 u16

definition s5_values :: "(u32 \<Rightarrow> u8) \<Rightarrow> u32 \<Rightarrow> u32 \<Rightarrow> s5_result" where
  "s5_values b len j =
     (if j + 1 \<ge> len then S5_Stop 0 0
      else if b j \<noteq> 0x0A \<and> b j \<noteq> 0x00 then S5_Stop 0 0
      else let (typa, j) = (if b j = 0x0A then (ucast (b (j + 1)), j + 2) else (0, j + 1))
           in if j + 1 \<ge> len then S5_Stop typa 0
              else S5_Stop typa (if b j = 0x0A then ucast (b (j + 1)) else 0))"

definition s5_package :: "(u32 \<Rightarrow> u8) \<Rightarrow> u32 \<Rightarrow> u32 \<Rightarrow> s5_result" where
  "s5_package b len j0 =
     (if j0 \<ge> len then S5_Stop 0 0
      else let j1 = (if b j0 = 0x10 then j0 + 1 else j0)
           in if j1 \<ge> len then S5_Stop 0 0
              else if b j1 \<noteq> 0x12 then S5_Continue
              else let j2 = j1 + 1
                   in if j2 \<ge> len then S5_Stop 0 0
                      else let extra = ucast (drop_bit 6 (b j2) AND 0x03); j3 = j2 + 1 + extra
                           in if j3 \<ge> len then S5_Stop 0 0 else s5_values b len (j3 + 1))"

definition s5_at :: "(u32 \<Rightarrow> u8) \<Rightarrow> u32 \<Rightarrow> u32 \<Rightarrow> s5_result" where
  "s5_at b len i =
     (if b i \<noteq> 0x08 \<or> b (i + 1) \<noteq> 0x5F \<or> b (i + 2) \<noteq> 0x53 \<or> b (i + 3) \<noteq> 0x35 \<or> b (i + 4) \<noteq> 0x5F
      then S5_Continue else s5_package b len (i + 5))"

fun s5_scan :: "(u32 \<Rightarrow> u8) \<Rightarrow> u32 \<Rightarrow> u32 list \<Rightarrow> u16 \<times> u16" where
  "s5_scan b len [] = (0, 0)"
| "s5_scan b len (i # is) = (case s5_at b len i of S5_Continue \<Rightarrow> s5_scan b len is | S5_Stop x y \<Rightarrow> (x, y))"

definition extract_s5 :: "(u32 \<Rightarrow> u8) \<Rightarrow> u32 \<Rightarrow> u16 \<times> u16" where
  "extract_s5 b len = (if len < 40 then (0, 0) else s5_scan b len (range32 0 (len - 12)))"

section \<open>Initialisation\<close>

record acpi =
  g_acpi_ok :: bool
  g_pm1a_cnt :: u32
  g_pm1b_cnt :: u32
  g_slp_typa :: u16
  g_slp_typb :: u16
  g_pm1_cnt_len :: u8
  g_reset_reg_ok :: bool
  g_reset_port :: u16
  g_reset_value :: u8

text \<open>The reset register of a FADT of revision 2 or later.\<close>

definition fadt_reset :: "phys \<Rightarrow> u32 \<Rightarrow> acpi \<Rightarrow> acpi" where
  "fadt_reset m f s =
     (if sdt_revision m f \<ge> 2 \<and> sdt_length m f \<ge> 129 \<and> read_u32 m f 112 AND 0x400 \<noteq> 0
      then let gas_addr = read_u64 m f (116 + 4)
           in if m (f + 116) = 1 \<and> gas_addr \<le> 0xFFFF
              then s\<lparr>g_reset_port := ucast gas_addr, g_reset_value := m (f + 128), g_reset_reg_ok := True\<rparr>
              else s
      else s)"

definition fadt_dsdt :: "phys \<Rightarrow> u32 \<Rightarrow> acpi \<Rightarrow> acpi" where
  "fadt_dsdt m f s =
     (let dsdt = read_u32 m f 40
      in if dsdt \<ge> 0x1000 \<and> mem4eq m dsdt [0x44, 0x53, 0x44, 0x54] \<and> sdt_valid m dsdt
         then let (a, b) = extract_s5 (\<lambda>i. m (dsdt + SDT_HEADER + i)) (sdt_length m dsdt - SDT_HEADER)
              in s\<lparr>g_slp_typa := a, g_slp_typb := b\<rparr>
         else s)"

definition parse_fadt :: "phys \<Rightarrow> u32 \<Rightarrow> acpi \<Rightarrow> bool \<times> acpi" where
  "parse_fadt m f s =
     (if \<not> sdt_valid m f then (False, s)
      else if sdt_length m f < 90 then (False, s)
      else if read_u32 m f 112 AND 0x100000 \<noteq> 0 then (False, s)
      else let s1 = s\<lparr>g_pm1a_cnt := read_u32 m f 64, g_pm1b_cnt := read_u32 m f 68,
                      g_pm1_cnt_len := (if m (f + 89) = 0 then 2 else m (f + 89))\<rparr>
           in (True, fadt_dsdt m f (fadt_reset m f s1)))"

definition find_rsdp :: "phys \<Rightarrow> u32 option" where
  "find_rsdp m =
     (let ebda_seg = of_le16 (m 0x40E) (m 0x40F);
          base = push_bit 4 (ucast ebda_seg);
          r = (if ebda_seg \<ge> 0x7000 \<and> ebda_seg \<le> 0x9FFF then scan_rsdp m base (base + 1024) else None)
      in if r = None then scan_rsdp m 0xE0000 0x100000 else r)"

text \<open>The FADT from the XSDT when it is usable, from the RSDT otherwise; \<open>None\<close> ends the initialisation.\<close>

definition locate_fadt :: "phys \<Rightarrow> u32 \<Rightarrow> u32 option" where
  "locate_fadt m r =
     (let xsdt = ucast (rsdp_xsdt_address m r AND 0xFFFFFFFF);
          via_xsdt = (if rsdp_revision m r \<ge> 2 \<and> rsdp_xsdt_address m r \<noteq> 0 \<and> sdt_valid m xsdt
                      then find_fadt m xsdt 8 else None)
      in if via_xsdt \<noteq> None then via_xsdt
         else let rsdt = rsdp_rsdt_address m r
              in if \<not> sdt_valid m rsdt then None else find_fadt m rsdt 4)"

definition acpi_init :: "phys \<Rightarrow> acpi \<Rightarrow> bool \<times> acpi" where
  "acpi_init m s =
     (case find_rsdp m of
        None \<Rightarrow> (False, s)
      | Some r \<Rightarrow>
          (case locate_fadt m r of
             None \<Rightarrow> (False, s)
           | Some f \<Rightarrow>
               let (ok, s1) = parse_fadt m f s
               in if \<not> ok then (False, s1)
                  else if g_pm1a_cnt s1 = 0 then (False, s1)
                  else (True, s1\<lparr>g_acpi_ok := True\<rparr>)))"

definition acpi_available :: "acpi \<Rightarrow> bool" where
  "acpi_available s = g_acpi_ok s"

section \<open>Shutdown and reboot\<close>

text \<open>
  Up to the triple fault, from which the functions do not return. The lines on COM1 wait for the
  transmitter, so a call can also wait for ever (\<open>None\<close>).
\<close>

definition io_wait :: "'d port_io \<Rightarrow> nat \<Rightarrow> 'd \<Rightarrow> 'd" where
  "io_wait E n d = (p_out8 E 0x80 0 ^^ n) d"

text \<open>The dash of the messages, in UTF-8.\<close>

definition em_dash :: bytes where
  "em_dash = [0xE2, 0x80, 0x94]"

definition acpi_shutdown :: "'d port_io \<Rightarrow> acpi \<Rightarrow> 'd \<Rightarrow> 'd option" where
  "acpi_shutdown E s d0 = do {
     d \<leftarrow> serial_puts E (ascii ''[ACPI] Shutdown requested'' @ [10]) d0;
     d1 \<leftarrow> (if g_acpi_ok s \<and> g_pm1a_cnt s \<noteq> 0
           then let pm1a_val = push_bit 10 (g_slp_typa s) OR 0x2000
                in do {
                  a1 \<leftarrow> serial_puts E (ascii ''[ACPI] Writing 0x'') d;
                  a2 \<leftarrow> serial_hex16 E pm1a_val a1;
                  a3 \<leftarrow> serial_puts E (ascii '' to PM1a_CNT 0x'') a2;
                  a4 \<leftarrow> serial_hex32 E (g_pm1a_cnt s) a3;
                  a5 \<leftarrow> serial_puts E [10] a4;
                  let a6 = io_wait E 1000 (p_out16 E (ucast (g_pm1a_cnt s)) pm1a_val a5);
                      a7 = (if g_pm1b_cnt s \<noteq> 0
                            then io_wait E 1000 (p_out16 E (ucast (g_pm1b_cnt s)) (push_bit 10 (g_slp_typb s) OR 0x2000) a6)
                            else a6)
                  in serial_puts E (ascii ''[ACPI] PM1_CNT write done '' @ em_dash @ ascii '' machine should power off'' @ [10]) a7
                }
           else serial_puts E (ascii ''[ACPI] ACPI not available, using fallback shutdown'' @ [10]) d);
     d2 \<leftarrow> serial_puts E (ascii ''[ACPI] Fallback: QEMU ISA debug exit'' @ [10]) d1;
     serial_puts E (ascii ''[ACPI] Fallback: triple fault'' @ [10]) (p_out8 E 0x501 0 d2)
   }"

text \<open>\<open>while ((inb(0x64) & 0x02) && timeout--) io_wait();\<close>\<close>

fun kbc_drain :: "'d port_io \<Rightarrow> nat \<Rightarrow> 'd \<Rightarrow> 'd" where
  "kbc_drain E timeout d =
     (let (v, d1) = p_in8 E 0x64 d
      in if v AND 0x02 = 0 then d1
         else (case timeout of 0 \<Rightarrow> d1 | Suc n \<Rightarrow> kbc_drain E n (io_wait E 1 d1)))"

definition acpi_reboot :: "'d port_io \<Rightarrow> acpi \<Rightarrow> 'd \<Rightarrow> 'd option" where
  "acpi_reboot E s d0 = do {
     d \<leftarrow> serial_puts E (ascii ''[ACPI] Reboot requested'' @ [10]) d0;
     d1 \<leftarrow> (if g_reset_reg_ok s
           then do {
             a1 \<leftarrow> serial_puts E (ascii ''[ACPI] Reboot via ACPI reset register port=0x'') d;
             a2 \<leftarrow> serial_hex16 E (g_reset_port s) a1;
             a3 \<leftarrow> serial_puts E (ascii '' val=0x'') a2;
             a4 \<leftarrow> serial_hex8 E (g_reset_value s) a3;
             a5 \<leftarrow> serial_puts E [10] a4;
             Some (io_wait E 10000 (p_out8 E (g_reset_port s) (g_reset_value s) a5))
           }
           else Some d);
     d2 \<leftarrow> serial_puts E (ascii ''[ACPI] Reboot via keyboard controller'' @ [10]) d1;
     serial_puts E (ascii ''[ACPI] Fallback: triple fault reboot'' @ [10])
       (io_wait E 100000 (p_out8 E 0x64 0xFE (kbc_drain E 100000 d2)))
   }"

section \<open>Properties\<close>

text \<open>The part of AML that the scan understands: \<open>_S5_\<close> as a package of constants.\<close>

datatype aml_const = ZeroOp | ByteConst u8

fun aml_value :: "aml_const \<Rightarrow> u8" where
  "aml_value ZeroOp = 0"
| "aml_value (ByteConst v) = v"

fun aml_bytes :: "aml_const \<Rightarrow> bytes" where
  "aml_bytes ZeroOp = [0x00]"
| "aml_bytes (ByteConst v) = [0x0A, v]"

definition s5_name :: bytes where
  "s5_name = [0x08, 0x5F, 0x53, 0x35, 0x5F]"

definition s5_encoding :: "u8 \<Rightarrow> bytes \<Rightarrow> u8 \<Rightarrow> aml_const \<Rightarrow> aml_const \<Rightarrow> bytes" where
  "s5_encoding lead ext n a c = s5_name @ [0x12, lead] @ ext @ [n] @ aml_bytes a @ aml_bytes c"

definition name_at :: "bytes \<Rightarrow> nat \<Rightarrow> bool" where
  "name_at d i \<longleftrightarrow> take 5 (drop i d) = s5_name"

abbreviation mem_of :: "bytes \<Rightarrow> u32 \<Rightarrow> u8" where
  "mem_of d \<equiv> (\<lambda>i. d ! unat i)"

lemma s5_scan_skip:
  "(\<And>i. i \<in> set is \<Longrightarrow> s5_at b len i = S5_Continue) \<Longrightarrow> s5_scan b len (is @ js) = s5_scan b len js"
  by (induction "is") auto

lemma mem_of_nat: "k < 2 ^ 32 \<Longrightarrow> mem_of d (of_nat k) = d ! k"
  by (simp add: unat_of_nat_eq)

lemma of_nat_le_u32: "m < 2 ^ 32 \<Longrightarrow> n < 2 ^ 32 \<Longrightarrow> (of_nat m :: u32) \<le> of_nat n \<longleftrightarrow> m \<le> n"
  by (simp add: word_le_nat_alt unat_of_nat_eq)

lemma of_nat_numeral_add: "(of_nat k :: u32) + numeral n = of_nat (k + numeral n)" "(of_nat k :: u32) + 1 = of_nat (k + 1)"
  by simp_all

lemma s5_at_no_name:
  assumes "length d < 2 ^ 32" "i + 5 \<le> length d" "\<not> name_at d i"
  shows "s5_at (mem_of d) len (of_nat i) = S5_Continue"
proof -
  have "take 5 (drop i d) = [d ! i, d ! (i + 1), d ! (i + 2), d ! (i + 3), d ! (i + 4)]"
    using assms(2) by (simp add: list_eq_iff_nth_eq All_less_Suc numeral_eq_Suc)
  then have "d ! i \<noteq> 0x08 \<or> d ! (i + 1) \<noteq> 0x5F \<or> d ! (i + 2) \<noteq> 0x53 \<or> d ! (i + 3) \<noteq> 0x35 \<or> d ! (i + 4) \<noteq> 0x5F"
    using assms(3) by (auto simp: name_at_def s5_name_def)
  then show ?thesis
    using assms(1,2) by (simp only: s5_at_def of_nat_numeral_add mem_of_nat) (simp add: mem_of_nat)
qed

lemma drop_bit_6_lead: "(ucast (drop_bit 6 (v :: u8) AND 0x03) :: u32) = of_nat (unat (drop_bit 6 v))"
proof -
  have "drop_bit 6 v AND 3 = drop_bit 6 v" by (rule bit_word_eqI) (auto simp: bit_simps numeral_eq_Suc less_Suc_eq)
  then show ?thesis by simp
qed

lemma length_of_drop: "drop q d = xs \<Longrightarrow> xs \<noteq> [] \<Longrightarrow> length d = q + length xs"
  by (auto simp: not_le)

lemma nth_of_drop: "drop q d = xs \<Longrightarrow> xs \<noteq> [] \<Longrightarrow> d ! (q + k) = xs ! k"
  by (metis drop_eq_Nil le_cases nth_drop)

lemma s5_values_encoded:
  assumes "length d < 2 ^ 32" "drop q d = aml_bytes a @ aml_bytes c @ post"
  shows "s5_values (mem_of d) (of_nat (length d)) (of_nat q) = S5_Stop (ucast (aml_value a)) (ucast (aml_value c))"
proof -
  note len = length_of_drop [OF assms(2)] and at = nth_of_drop [OF assms(2)]
  show ?thesis
    using assms(1) len at [of 0] at [of 1] at [of 2] at [of "Suc (Suc (Suc 0))"]
    by (cases a; cases c)
      (simp_all add: s5_values_def of_nat_numeral_add of_nat_le_u32 unat_of_nat_eq del: of_nat_add of_nat_Suc)
qed

lemma s5_package_step:
  assumes "\<not> len \<le> j" "\<not> len \<le> j + 1" "\<not> len \<le> j + 2 + x" "b j = 0x12"
    "ucast (drop_bit 6 (b (j + 1)) AND 0x03) = x"
  shows "s5_package b len j = s5_values b len (j + 3 + x)"
proof -
  have "b j \<noteq> 0x10" using assms(4) by simp
  then show ?thesis using assms unfolding s5_package_def Let_def by (simp add: ac_simps)
qed

lemma s5_package_skip:
  assumes "length d < 2 ^ 32" "j + 3 + e < length d" "d ! j = 0x12" "unat (drop_bit 6 (d ! (j + 1))) = e"
  shows "s5_package (mem_of d) (of_nat (length d)) (of_nat j) = s5_values (mem_of d) (of_nat (length d)) (of_nat (j + 3 + e))"
proof -
  have le: "\<not> (of_nat (length d) :: u32) \<le> of_nat k" if "k < length d" for k
    using assms(1) that by (simp add: of_nat_le_u32)
  have "s5_package (mem_of d) (of_nat (length d)) (of_nat j)
    = s5_values (mem_of d) (of_nat (length d)) (of_nat j + 3 + of_nat e)"
  proof (rule s5_package_step)
    show "\<not> (of_nat (length d) :: u32) \<le> of_nat j" "\<not> (of_nat (length d) :: u32) \<le> of_nat j + 1"
      "\<not> (of_nat (length d) :: u32) \<le> of_nat j + 2 + of_nat e"
      using le [of j] le [of "j + 1"] le [of "j + 2 + e"] assms(2) by (simp_all add: ac_simps)
    show "mem_of d (of_nat j) = 0x12" using assms by (simp add: mem_of_nat)
    have "mem_of d (of_nat (j + 1)) = d ! (j + 1)" using assms by (simp add: mem_of_nat del: of_nat_add of_nat_Suc)
    then show "ucast (drop_bit 6 (mem_of d (of_nat j + 1)) AND 0x03) = (of_nat e :: u32)"
      using drop_bit_6_lead [of "d ! (j + 1)"] assms(4) by (simp only: of_nat_numeral_add)
  qed
  then show ?thesis by simp
qed

lemma s5_at_encoded:
  assumes "length d < 2 ^ 32" "drop p d = s5_encoding lead ext n a c @ post" "length ext = unat (drop_bit 6 lead)"
  shows "s5_at (mem_of d) (of_nat (length d)) (of_nat p) = S5_Stop (ucast (aml_value a)) (ucast (aml_value c))"
proof -
  let ?xs = "s5_encoding lead ext n a c @ post"
  have ne: "?xs \<noteq> []" by (simp add: s5_encoding_def s5_name_def)
  note len = length_of_drop [OF assms(2) ne] and at = nth_of_drop [OF assms(2) ne]
  define q where "q = p + 8 + length ext"
  have "drop q d = drop (8 + length ext) ?xs"
    by (simp add: q_def add.commute add.left_commute flip: assms(2))
  also have "\<dots> = aml_bytes a @ aml_bytes c @ post" by (simp add: s5_encoding_def s5_name_def numeral_eq_Suc)
  finally have v: "s5_values (mem_of d) (of_nat (length d)) (of_nat q)
    = S5_Stop (ucast (aml_value a)) (ucast (aml_value c))"
    by (rule s5_values_encoded [OF assms(1)])
  have l: "length d \<ge> q + 2" using len by (cases a; cases c) (simp_all add: q_def s5_encoding_def s5_name_def)
  have enc: "?xs ! 0 = 0x08" "?xs ! 1 = 0x5F" "?xs ! 2 = 0x53" "?xs ! 3 = 0x35" "?xs ! 4 = 0x5F" "?xs ! 5 = 0x12"
    "?xs ! 6 = lead" by (simp_all add: s5_encoding_def s5_name_def)
  note b = at [of 0, simplified] at [of 1] at [of 2] at [of 3] at [of 4] at [of 5] at [of 6]
  have "s5_at (mem_of d) (of_nat (length d)) (of_nat p) = s5_package (mem_of d) (of_nat (length d)) (of_nat (p + 5))"
    using assms(1) l b enc
    by (simp add: s5_at_def of_nat_numeral_add unat_of_nat_eq q_def del: of_nat_add of_nat_Suc)
  also have "\<dots> = s5_values (mem_of d) (of_nat (length d)) (of_nat q)"
    using s5_package_skip [OF assms(1), of "p + 5" "length ext"] assms(3) l b enc
    by (simp add: q_def ac_simps del: of_nat_add of_nat_Suc)
  finally show ?thesis using v by simp
qed

text \<open>C40: The sleep types are read back, except at the end of a table. When the bytes of the DSDT hold
  the \<open>_S5_\<close> package in the standard encoding (a package length of one to four bytes, then constants
  written as \<open>ZeroOp\<close> or as a \<open>BytePrefix\<close> and a byte), and no earlier bytes spell the same name,
  \<open>extract_s5\<close> returns exactly the two constants of the package if there are at least 40 bytes and the
  name starts more than 12 bytes before the end; otherwise the package is missed and both types are 0.\<close>

theorem extract_s5_roundtrip:
  assumes "d = pre @ s5_encoding lead ext n a c @ post"
    "length ext = unat (drop_bit 6 lead)" "\<forall>i < length pre. \<not> name_at d i" "length d < 2 ^ 32"
  shows "extract_s5 (mem_of d) (of_nat (length d)) =
    (if 40 \<le> length d \<and> length pre + 12 < length d then (ucast (aml_value a), ucast (aml_value c)) else (0, 0))"
proof (cases "40 \<le> length d")
  case True
  let ?len = "of_nat (length d) :: u32" and ?p = "length pre"
  have u: "unat (?len - 12) = length d - 12"
    using True assms(4) by (simp add: unat_sub word_le_nat_alt unat_of_nat_eq)
  have "?p + 9 \<le> length d" unfolding assms(1) by (cases a; cases c) (simp_all add: s5_encoding_def s5_name_def)
  then have skip: "s5_at (mem_of d) ?len i = S5_Continue" if "i \<in> set (map of_nat [0..<k])" "k \<le> ?p" for i k
    using that assms(3) by (auto intro!: s5_at_no_name [OF assms(4)])
  have n: "\<not> ?len < 40" using True assms(4) by (simp add: word_less_nat_alt unat_of_nat_eq)
  show ?thesis
  proof (cases "?p + 12 < length d")
    case l: True
    then have "[0..<length d - 12] = [0..<?p] @ ?p # [Suc ?p..<length d - 12]"
      using upt_add_eq_append [of 0 ?p "length d - 12 - ?p"] by (simp add: upt_conv_Cons)
    then have r: "range32 0 (?len - 12) = map of_nat [0..<?p] @ of_nat ?p # map of_nat [Suc ?p..<length d - 12]"
      by (simp add: range32_def u)
    have "drop ?p d = s5_encoding lead ext n a c @ post" by (simp add: assms(1))
    then have hit: "s5_at (mem_of d) ?len (of_nat ?p) = S5_Stop (ucast (aml_value a)) (ucast (aml_value c))"
      by (rule s5_at_encoded [OF assms(4) _ assms(2)])
    have "s5_scan (mem_of d) ?len (map of_nat [0..<?p] @ js) = s5_scan (mem_of d) ?len js" for js
      by (rule s5_scan_skip, rule skip [of _ ?p]) simp_all
    then have "s5_scan (mem_of d) ?len (range32 0 (?len - 12)) = (ucast (aml_value a), ucast (aml_value c))"
      unfolding r by (simp add: hit)
    then show ?thesis using n l True by (simp add: extract_s5_def)
  next
    case False
    then have "length d - 12 \<le> ?p" by simp
    then have "s5_scan (mem_of d) ?len (map of_nat [0..<length d - 12] @ []) = s5_scan (mem_of d) ?len []"
      by (intro s5_scan_skip skip [of _ "length d - 12"])
    then have "s5_scan (mem_of d) ?len (range32 0 (?len - 12)) = (0, 0)" by (simp add: range32_def u)
    then show ?thesis using n False by (simp add: extract_s5_def)
  qed
next
  case False
  then have "(of_nat (length d) :: u32) < 40" by (simp add: word_less_nat_alt unat_of_nat_eq)
  then show ?thesis using False by (simp add: extract_s5_def)
qed

text \<open>A package in the middle of a table, and the same package as its last bytes.\<close>

definition sample_dsdt :: bytes where
  "sample_dsdt = [0x08, 0x5F] @ s5_encoding 0x06 [] 2 (ByteConst 5) ZeroOp @ replicate 40 0xFF"

lemma length_sample_dsdt: "length sample_dsdt = 53"
  by (simp add: sample_dsdt_def s5_encoding_def s5_name_def)

definition short_dsdt :: bytes where
  "short_dsdt = replicate 40 0xFF @ s5_encoding 0x06 [] 2 (ByteConst 5) ZeroOp @ []"

theorem extract_s5_roundtrip_witness:
  "extract_s5 (mem_of sample_dsdt) 53 = (5, 0) \<and> extract_s5 (mem_of short_dsdt) 51 = (0, 0)"
proof
  have n: "\<not> name_at sample_dsdt 0" "\<not> name_at sample_dsdt 1"
    by (simp_all add: name_at_def sample_dsdt_def s5_encoding_def s5_name_def)
  have "extract_s5 (mem_of sample_dsdt) (of_nat (length sample_dsdt))
    = (if 40 \<le> length sample_dsdt \<and> length [0x08 :: u8, 0x5F] + 12 < length sample_dsdt
       then (ucast (aml_value (ByteConst 5)), ucast (aml_value ZeroOp)) else (0, 0))"
  proof (rule extract_s5_roundtrip [OF sample_dsdt_def])
    show "\<forall>i < length [0x08 :: u8, 0x5F]. \<not> name_at sample_dsdt i" using n by (simp add: All_less_Suc)
  qed (simp_all add: length_sample_dsdt)
  then show "extract_s5 (mem_of sample_dsdt) 53 = (5, 0)" by (simp add: length_sample_dsdt)
  have l: "length short_dsdt = 51" by (simp add: short_dsdt_def s5_encoding_def s5_name_def)
  have m: "\<not> name_at short_dsdt i" if "i < 40" for i
  proof -
    have "drop i short_dsdt = 0xFF # drop (Suc i) short_dsdt"
      using that l Cons_nth_drop_Suc [of i short_dsdt] by (simp add: short_dsdt_def nth_append del: replicate.simps)
    then show ?thesis by (simp add: name_at_def s5_name_def)
  qed
  have "extract_s5 (mem_of short_dsdt) (of_nat (length short_dsdt))
    = (if 40 \<le> length short_dsdt \<and> length (replicate 40 (0xFF :: u8)) + 12 < length short_dsdt
       then (ucast (aml_value (ByteConst 5)), ucast (aml_value ZeroOp)) else (0, 0))"
    by (rule extract_s5_roundtrip [OF short_dsdt_def]) (use m l in simp_all)
  then show "extract_s5 (mem_of short_dsdt) 51 = (0, 0)" by (simp add: l)
qed

end
