(* ===== verification/Fat_Paths.thy ===== *)
theory Fat_Paths
  imports Fat_Dir_Add
begin

text \<open>
  Path resolution as a walk through directories, and the effect of rewriting one directory entry in
  place: the facts about \<open>path_resolve_parent\<close>, \<open>path_stat\<close> and \<open>dir_find\<close> (\<open>src/fs/fat32_core.c\<close>) that
  the whole-file operations rest on.
\<close>

section \<open>Paths\<close>

text \<open>The directories a path leads through are given by their cluster chains \<open>css\<close>.\<close>

fun walk :: "vol \<Rightarrow> u32 \<Rightarrow> bytes \<Rightarrow> u32 list list \<Rightarrow> u32 \<Rightarrow> bytes \<Rightarrow> bool" where
  "walk s c p [] d n \<longleftrightarrow> p \<noteq> [] \<and> snd (path_comp p) = [] \<and> d = c \<and> n = fst (path_comp p)"
| "walk s c p (cs # css) d n \<longleftrightarrow> p \<noteq> [] \<and> snd (path_comp p) \<noteq> [] \<and> dir_chain s c cs \<and>
     (case lookup (fst (path_comp p)) s cs of
        None \<Rightarrow> False
      | Some (e, _, _) \<Rightarrow> e_attr e AND ATTR_DIR \<noteq> 0 \<and>
          walk s (if entry_cluster (unpack_dir e) = 0 then vol_root_cluster (geo s) else entry_cluster (unpack_dir e))
            (snd (path_comp p)) css d n)"

definition path_dir :: "vol \<Rightarrow> bytes \<Rightarrow> u32 list list \<Rightarrow> u32 \<Rightarrow> bytes \<Rightarrow> bool" where
  "path_dir s path css d n \<longleftrightarrow> d \<noteq> 0 \<and> n \<noteq> [] \<and>
     (\<exists>p. path = CH_SLASH # p \<and> walk s (vol_root_cluster (geo s)) p css d n)"

lemma walk_cong:
  assumes "geo t = geo s" "\<And>c cs. cs \<in> set css \<Longrightarrow> dir_chain s c cs \<Longrightarrow> dir_chain t c cs \<and> dir_listing t cs 0 = dir_listing s cs 0"
  shows "walk s c p css d n \<Longrightarrow> walk t c p css d n"
  using assms(2)
proof (induction css arbitrary: c p)
  case (Cons cs css)
  have "dir_chain s c cs" using Cons.prems(1) by simp
  then have "dir_chain t c cs" "dir_listing t cs 0 = dir_listing s cs 0" using Cons.prems(2) by simp_all
  with Cons.prems Cons.IH show ?case by (auto simp: assms(1) split: option.splits)
qed simp

lemma path_dir_changes:
  assumes "path_dir s path css d n" "changes K s t" "good_vol s" "\<Union> (set (map set css)) \<inter> K = {}"
  shows "path_dir t path css d n"
proof -
  have g: "geo t = geo s" by (rule changesD(2) [OF assms(2)])
  have "dir_chain t c cs \<and> dir_listing t cs 0 = dir_listing s cs 0" if "cs \<in> set css" "dir_chain s c cs" for c cs
  proof -
    have "set cs \<inter> K = {}" using assms(4) that(1) by auto
    from changes_dir(1,3) [OF assms(2,3) that(2) this] show ?thesis by blast
  qed
  then have "walk s c p css d n \<Longrightarrow> walk t c p css d n" for c p by (rule walk_cong [OF g]) auto
  then show ?thesis using assms(1) unfolding path_dir_def g by blast
qed

lemma reads_path_dir: "reads_only s t \<Longrightarrow> good_vol s \<Longrightarrow> path_dir s path css d n \<Longrightarrow> path_dir t path css d n"
  using path_dir_changes [of s path css d n "{}" t] reads_changes by simp

lemma resolve_walk_at:
  assumes "good_vol s" "walk s c p css d n"
  shows "\<exists>t. resolve_walk c p s = Some ((d, n), t) \<and> reads_only s t"
  using assms
proof (induction css arbitrary: c p s)
  case Nil
  then obtain x xs where "p = x # xs" by (cases p) auto
  with Nil show ?case by (auto simp: prod_eq_iff reads_only_refl split: prod.split)
next
  case (Cons cs css)
  obtain x xs where p: "p = x # xs" using Cons.prems(2) by (cases p) auto
  obtain comp rest where pc: "path_comp p = (comp, rest)" by fastforce
  from Cons.prems(2) pc obtain e q st where L: "rest \<noteq> []" "dir_chain s c cs" "lookup comp s cs = Some (e, q, st)"
    "e_attr e AND ATTR_DIR \<noteq> 0"
    "walk s (if entry_cluster (unpack_dir e) = 0 then vol_root_cluster (geo s) else entry_cluster (unpack_dir e)) rest css d n"
    by (auto split: option.splits)
  obtain s1 where s1: "dir_find c comp s = Some (Some (e, q, st), s1)" "reads_only s s1"
    using dir_find_listing [OF Cons.prems(1) L(2), of comp] L(3) by auto
  have g1: "geo s1 = geo s" by (rule reads_only_geo [OF s1(2)])
  have "walk s1 (if entry_cluster (unpack_dir e) = 0 then vol_root_cluster (geo s1) else entry_cluster (unpack_dir e)) rest css d n"
    unfolding g1 by (rule walk_cong [OF g1 _ L(5)]) (use dir_listing_cong [OF s1(2) Cons.prems(1)] in blast)
  moreover have "good_vol s1" using s1(2) by (simp add: reads_only_def)
  ultimately obtain t where "resolve_walk (if entry_cluster (unpack_dir e) = 0 then vol_root_cluster (geo s1)
      else entry_cluster (unpack_dir e)) rest s1 = Some ((d, n), t)" "reads_only s1 t"
    using Cons.IH by blast
  then show ?case using s1 L(1,4) pc reads_only_trans [OF s1(2)] unfolding p by (auto simp: Let_def)
qed

lemma path_resolve_at:
  assumes "good_vol s" "path_dir s path css d n"
  shows "\<exists>t. path_resolve_parent path s = Some ((d, n), t) \<and> reads_only s t"
  using resolve_walk_at [OF assms(1)] assms(2) by (auto simp: path_dir_def path_resolve_parent_def)

lemma path_stat_at:
  assumes "good_vol s" "path_dir s path css d n" "dir_chain s d ds"
  shows "\<exists>t. path_stat path s = Some (case lookup n s ds of None \<Rightarrow> None
      | Some (e, pos, _) \<Rightarrow> Some (unpack_dir e, Some (pos, d)), t) \<and> reads_only s t"
proof -
  obtain s1 where s1: "path_resolve_parent path s = Some ((d, n), s1)" "reads_only s s1"
    using path_resolve_at [OF assms(1,2)] by blast
  note L = dir_listing_cong [OF s1(2) assms(1,3)] and g1 = reads_only_geo [OF s1(2)]
  have g: "good_vol s1" using s1(2) by (simp add: reads_only_def)
  obtain t where t: "dir_find d n s1 = Some (lookup n s ds, t)" "reads_only s1 t"
    using dir_find_listing [OF g L(3), of n] unfolding g1 L(1) by blast
  have ne: "d \<noteq> 0" "n \<noteq> []" "path \<noteq> [CH_SLASH]"
    using assms(2) by (cases css; auto simp: path_dir_def)+
  have "path_stat path s = Some (case lookup n s ds of None \<Rightarrow> None
      | Some (e, pos, _) \<Rightarrow> Some (unpack_dir e, Some (pos, d)), t)"
    using s1(1) t(1) ne by (auto simp: path_stat_def split: option.split)
  then show ?thesis using reads_only_trans [OF s1(2) t(2)] by blast
qed

section \<open>The entry a lookup finds\<close>

lemma find_in_found:
  assumes "find_in name f xs = Some (e, pos, st)"
  shows "\<exists>ys zs. xs = ys @ (e, pos) # zs \<and> list_all (\<lambda>x. e_first (fst x) \<noteq> 0) ys \<and> \<not> slot_free e \<and> e_attr e \<noteq> ATTR_LFN \<and>
    find_in name f ys = None \<and>
    (\<forall>e' zs'. take 12 e' = take 12 e \<longrightarrow> length e' = 32 \<longrightarrow> length e = 32 \<longrightarrow> find_in name f (ys @ (e', pos) # zs') = Some (e', pos, st))"
  using assms
proof (induction name f xs rule: find_in.induct)
  case (2 name f x p xs)
  show ?case
  proof (cases "e_first x \<noteq> 0xE5 \<and> e_attr x \<noteq> ATTR_LFN \<and> find_match name x f")
    case True
    then have x: "x = e" "p = pos" "e_first e \<noteq> 0" "st = (if fs_building f then fs_start f else pos)"
      using "2.prems" by (auto split: if_splits)
    have "find_in name f ((e', pos) # zs') = Some (e', pos, st)"
      if e': "take 12 e' = take 12 e" "length e' = 32" "length e = 32" for e' zs'
    proof -
      have n: "e' ! i = e ! i" if "i < 12" for i using that e' by (metis nth_take)
      have "take 11 (take 12 e') = take 11 (take 12 e)" using e'(1) by simp
      then have "take 11 e' = take 11 e" by simp
      then show ?thesis using True x n [of 0] n [of 11] by (auto simp: find_match_def split: if_splits)
    qed
    then show ?thesis using x True by (intro exI [of _ "[]"] exI [of _ xs]) (auto simp: slot_free_def)
  next
    case False
    then have n: "e_first x \<noteq> 0" "find_in name (find_step x p f) xs = Some (e, pos, st)"
      using "2.prems" by (auto split: if_splits)
    from "2.IH" [OF n(1) False n(2)] obtain ys zs where I: "xs = ys @ (e, pos) # zs"
      "list_all (\<lambda>x. e_first (fst x) \<noteq> 0) ys" "\<not> slot_free e" "e_attr e \<noteq> ATTR_LFN"
      "find_in name (find_step x p f) ys = None"
      "\<And>e' zs'. take 12 e' = take 12 e \<Longrightarrow> length e' = 32 \<Longrightarrow> length e = 32 \<Longrightarrow>
         find_in name (find_step x p f) (ys @ (e', pos) # zs') = Some (e', pos, st)" by blast
    then show ?thesis using n(1) False by (intro exI [of _ "(x, p) # ys"] exI [of _ zs]) auto
  qed
qed simp

lemma listing_update:
  assumes "geo t = geo s" "dir_slots t cs = (dir_slots s cs)[k := e']" "k < slot_count (geo s) cs"
  shows "dir_listing t cs 0 = (dir_listing s cs 0)[k := (e', pos_at (geo s) cs 0 k)]"
proof (rule nth_equalityI)
  fix j assume "j < length (dir_listing t cs 0)"
  then have j: "j < slot_count (geo s) cs" by (simp add: assms(1))
  have "slot t cs j = (dir_slots s cs)[k := e'] ! j" using j assms(1,2) by (metis dir_slots_nth)
  then show "dir_listing t cs 0 ! j = (dir_listing s cs 0)[k := (e', pos_at (geo s) cs 0 k)] ! j"
    using j assms(3) by (cases "j = k") (simp_all add: dir_listing_def assms(1) dir_slots_nth)
qed (simp add: assms(1))

lemma lookup_slot:
  assumes "lookup name s cs = Some (e, pos, st)"
  obtains k where "k < slot_count (geo s) cs" "e = slot s cs k" "pos = pos_at (geo s) cs 0 k"
    "list_all (\<lambda>x. e_first x \<noteq> 0) (take k (dir_slots s cs))" "\<not> slot_free e" "e_attr e \<noteq> ATTR_LFN"
    "\<And>t e'. geo t = geo s \<Longrightarrow> dir_slots t cs = (dir_slots s cs)[k := e'] \<Longrightarrow> take 12 e' = take 12 e \<Longrightarrow> length e' = 32 \<Longrightarrow>
       lookup name t cs = Some (e', pos, st)"
proof -
  let ?n = "slot_count (geo s) cs"
  obtain ys zs where Y: "dir_listing s cs 0 = ys @ (e, pos) # zs" "list_all (\<lambda>x. e_first (fst x) \<noteq> 0) ys"
    "\<not> slot_free e" "e_attr e \<noteq> ATTR_LFN"
    "\<And>e' zs'. take 12 e' = take 12 e \<Longrightarrow> length e' = 32 \<Longrightarrow> length e = 32 \<Longrightarrow>
       find_in name (find_init (pos_at (geo s) cs 0 0)) (ys @ (e', pos) # zs') = Some (e', pos, st)"
    using find_in_found [OF assms] by blast
  define k where "k = length ys"
  have k: "k < ?n" using arg_cong [OF Y(1), of length] by (simp add: k_def)
  have e: "(e, pos) = dir_listing s cs 0 ! k" by (simp add: Y(1) k_def)
  then have ep: "e = slot s cs k" "pos = pos_at (geo s) cs 0 k" using k by (simp_all add: dir_listing_def)
  have "map fst ys = take k (map fst (dir_listing s cs 0))" by (simp add: Y(1) k_def)
  then have "map fst ys = take k (dir_slots s cs)" by simp
  then have pre: "list_all (\<lambda>x. e_first x \<noteq> 0) (take k (dir_slots s cs))" 
    using Y(2) list.pred_map [of "\<lambda>x. e_first x \<noteq> 0" fst ys] by (simp add: comp_def)
  have upd: "lookup name t cs = Some (e', pos, st)"
    if t: "geo t = geo s" "dir_slots t cs = (dir_slots s cs)[k := e']" "take 12 e' = take 12 e" "length e' = 32" for t e'
  proof -
    have "dir_listing t cs 0 = (dir_listing s cs 0)[k := (e', pos)]"
      unfolding ep(2) by (rule listing_update [OF t(1,2) k])
    also have "\<dots> = ys @ (e', pos) # zs" unfolding Y(1) k_def by simp
    finally show ?thesis using Y(5) t ep(1) by simp
  qed
  show ?thesis by (rule that [OF k ep pre Y(3,4) upd])
qed

text \<open>Different slots have different positions.\<close>

lemma pos_at_eq:
  assumes "good_vol s" "dir_chain s c cs" "j < slot_count (geo s) cs" "k < slot_count (geo s) cs"
  shows "dp_lba (pos_at (geo s) cs i j) = dp_lba (pos_at (geo s) cs i' k) \<and>
    dp_off (pos_at (geo s) cs i j) = dp_off (pos_at (geo s) cs i' k) \<longleftrightarrow> j = k"
proof -
  have v: "\<forall>k \<in> set cs. valid_cluster (geo s) k" and d: "distinct cs"
    using assms(2) chain_distinct by (auto simp: dir_chain_def)
  have "j mod 16 = k mod 16" if "dp_off (pos_at (geo s) cs i j) = dp_off (pos_at (geo s) cs i' k)"
    using arg_cong [OF that, of unat] by (simp add: pos_at_def unat_slot_off)
  then show ?thesis
    using slot_lba_inj [OF good_volD(3) [OF assms(1)] v d assms(3,4)] by (auto simp: pos_at_def)
qed

section \<open>Rewriting an entry\<close>

text \<open>The entry with another first cluster and size; every other byte is kept.\<close>

definition re_entry :: "u32 \<Rightarrow> u32 \<Rightarrow> bytes \<Rightarrow> bytes" where
  "re_entry c n e = pack_dir ((set_entry_cluster c (unpack_dir e))\<lparr>de_file_size := n\<rparr>)"

lemma re_entry_fields:
  assumes "length e = 32"
  shows "length (re_entry c n e) = 32" "take 12 (re_entry c n e) = take 12 e"
    "unpack_dir (re_entry c n e) = (set_entry_cluster c (unpack_dir e))\<lparr>de_file_size := n\<rparr>"
    "entry_cluster (unpack_dir (re_entry c n e)) = c" "de_file_size (unpack_dir (re_entry c n e)) = n"
proof -
  let ?e = "(set_entry_cluster c (unpack_dir e))\<lparr>de_file_size := n\<rparr>"
  have l: "length (de_name ?e) = 8" "length (de_ext ?e) = 3" using assms by (simp_all add: set_entry_cluster_def unpack_dir_def)
  show "length (re_entry c n e) = 32" unfolding re_entry_def by (rule length_pack_dir [OF l])
  have u: "unpack_dir (re_entry c n e) = ?e" unfolding re_entry_def by (rule unpack_pack_dir [OF l])
  show "unpack_dir (re_entry c n e) = ?e" by (rule u)
  have "entry_cluster ?e = entry_cluster (set_entry_cluster c (unpack_dir e))" by (simp add: entry_cluster_def)
  then show "entry_cluster (unpack_dir (re_entry c n e)) = c" unfolding u by simp
  show "de_file_size (unpack_dir (re_entry c n e)) = n" unfolding u by simp
  have "take 12 (re_entry c n e) = take 8 e @ take 3 (drop 8 e) @ [e ! 11]"
    using assms by (simp add: re_entry_def pack_dir_def set_entry_cluster_def unpack_dir_def)
  also have "\<dots> = take 12 e"
    using take_add [of 8 4 e] take_add [of 3 1 "drop 8 e"] assms by (simp add: take_Suc_conv_app_nth [of 0 "drop 11 e"])
  finally show "take 12 (re_entry c n e) = take 12 e" .
qed

lemma re_entry_re_entry: "length e = 32 \<Longrightarrow> re_entry c n (re_entry d m e) = re_entry c n e"
  by (simp add: re_entry_def [of c n "re_entry d m e"] re_entry_fields(3))
    (simp add: re_entry_def set_entry_cluster_def)

lemma take12:
  assumes "take 12 e' = take 12 e"
  shows "e_first e' = e_first e" "e_attr e' = e_attr e"
proof -
  have "e' ! i = e ! i" if "i < 12" for i using that assms(1) by (metis nth_take)
  from this [of 0] this [of 11] show "e_first e' = e_first e" "e_attr e' = e_attr e" by simp_all
qed

lemma end_ok_update: "end_ok xs \<Longrightarrow> (e_first e' = 0) = (e_first (xs ! k) = 0) \<Longrightarrow> k < length xs \<Longrightarrow> end_ok (xs[k := e'])"
proof (induction xs arbitrary: k)
  case (Cons x xs)
  show ?case
  proof (cases k)
    case (Suc j)
    have "list_all (\<lambda>x. e_first x = 0) (xs[j := e'])" if "list_all (\<lambda>x. e_first x = 0) xs" "j < length xs"
      using that Cons.prems Suc by (auto simp: list_all_length nth_list_update)
    then show ?thesis using Cons Suc by auto
  qed (use Cons in auto)
qed simp

text \<open>A lookup that ends at another slot is not affected.\<close>

lemma find_in_rewrite:
  assumes "k < length xs" "snd (xs ! k) = pos" "take 12 e' = take 12 (fst (xs ! k))" "e_attr e' \<noteq> ATTR_LFN"
    and "find_in nm f xs = Some (e, q, st)" "q \<noteq> pos"
  shows "find_in nm f (xs[k := (e', pos)]) = Some (e, q, st)"
  using assms(1-3,5)
proof (induction xs arbitrary: k f)
  case (Cons x xs)
  obtain y p where x: "x = (y, p)" by fastforce
  show ?case
  proof (cases k)
    case 0
    then have y: "take 12 e' = take 12 y" "p = pos" using Cons.prems(2,3) x by simp_all
    note T = take12 [OF y(1)]
    have "take 11 (take 12 e') = take 11 (take 12 y)" using y(1) by simp
    then have "take 11 e' = take 11 y" by simp
    then have m: "find_match nm e' f = find_match nm y f" by (simp add: find_match_def)
    have "find_step e' pos f = find_step y pos f" using T assms(4) by (simp add: find_step_def)
    moreover have "find_in nm (find_step y pos f) xs = Some (e, q, st) \<and> e_first y \<noteq> 0 \<and>
        \<not> (e_first y \<noteq> 0xE5 \<and> e_attr y \<noteq> ATTR_LFN \<and> find_match nm y f)"
      using Cons.prems(4) assms(6) x y(2) by (auto split: if_splits)
    ultimately show ?thesis using 0 T m by auto
  next
    case (Suc j)
    then show ?thesis using Cons.prems Cons.IH [of j "find_step y p f"] x by (auto split: if_splits)
  qed
qed simp

lemma dir_rewrite:
  assumes "good_vol s" "dir_ok s d ds" "lookup name s ds = Some (slot s ds k, pos_at (geo s) ds 0 k, st)"
    and "k < slot_count (geo s) ds"
  obtains t where "dir_write_entry (pos_at (geo s) ds 0 k) (re_entry c n (slot s ds k)) s = (True, t)"
    "writes_in (dir_sectors (geo s) ds) s t" "changes (set ds) s t" "dir_ok t d ds" "dir_slots t ds = (dir_slots s ds)[k := re_entry c n (slot s ds k)]"
    "lookup name t ds = Some (re_entry c n (slot s ds k), pos_at (geo s) ds 0 k, st)"
    "\<And>nm e q st'. lookup nm s ds = Some (e, q, st') \<Longrightarrow> q \<noteq> pos_at (geo s) ds 0 k \<Longrightarrow> lookup nm t ds = Some (e, q, st')"
proof -
  let ?e = "re_entry c n (slot s ds k)"
  have dc: "dir_chain s d ds" and eo: "end_ok (dir_slots s ds)" and nf: "fatv s (last ds) \<noteq> FAT32_FREE"
    using assms(2) by (simp_all add: dir_ok_def)
  note R = re_entry_fields [OF length_slot, of c n s ds k]
  obtain t where t: "dir_write_entry (pos_at (geo s) ds 0 k) ?e s = (True, t)"
    "writes_in (dir_sectors (geo s) ds) s t" "dir_slots t ds = (dir_slots s ds)[k := ?e]"
    by (rule dir_write_at [OF assms(1) dc assms(4) R(1)])
  have g: "geo t = geo s" by (rule writes_in_geo [OF t(2)])
  have c: "changes (set ds) s t" using writes_changes [OF t(2)] dc by (simp add: dir_chain_def)
  have "fat_index (geo s) (last ds)" using dc by (simp add: dir_chain_def valid_fat_index)
  then have "fatv t (last ds) = fatv s (last ds)" using t(2) by (simp add: writes_in_def)
  moreover have "end_ok (dir_slots t ds)"
    unfolding t(3) by (rule end_ok_update [OF eo]) (use take12(1) [OF R(2)] assms(4) in \<open>simp_all add: dir_slots_nth\<close>)
  ultimately have dk: "dir_ok t d ds" using writes_in_chain [OF t(2) dc] nf by (simp add: dir_ok_def)
  obtain k' where K: "k' < slot_count (geo s) ds" "pos_at (geo s) ds 0 k = pos_at (geo s) ds 0 k'"
    "slot s ds k = slot s ds k'" "e_attr (slot s ds k) \<noteq> ATTR_LFN"
    "\<And>t e'. geo t = geo s \<Longrightarrow> dir_slots t ds = (dir_slots s ds)[k' := e'] \<Longrightarrow> take 12 e' = take 12 (slot s ds k) \<Longrightarrow> length e' = 32 \<Longrightarrow>
       lookup name t ds = Some (e', pos_at (geo s) ds 0 k, st)"
    by (rule lookup_slot [OF assms(3)]) blast
  have "k' = k" using pos_at_eq [OF assms(1) dc K(1) assms(4), of 0 0] K(2) by simp
  moreover have "lookup nm t ds = Some (e, q, st')" if L: "lookup nm s ds = Some (e, q, st')" "q \<noteq> pos_at (geo s) ds 0 k" for nm e q st'
  proof -
    have "e_attr ?e \<noteq> ATTR_LFN" using take12(2) [OF R(2)] K(4) by simp
    then show ?thesis unfolding listing_update [OF g t(3) assms(4)] g
      by (intro find_in_rewrite [OF _ _ _ _ L]) (use assms(4) R(2) in \<open>simp_all add: dir_listing_def\<close>)
  qed
  ultimately show ?thesis using that [OF t(1,2) c dk t(3)] K(5) [of t ?e] g t(3) R(1,2) by simp
qed

text \<open>
  From \<open>s\<close> to \<open>t\<close> only the file \<open>name\<close>, at slot \<open>k\<close>, has changed for the lookups in a directory: every other
  name that led to another slot still does.
\<close>

definition others :: "vol \<Rightarrow> u32 list \<Rightarrow> vol \<Rightarrow> u32 list \<Rightarrow> bytes \<Rightarrow> nat \<Rightarrow> bool" where
  "others s ds t ds' name k \<longleftrightarrow> (\<forall>nm e q st. \<not> same_name nm name \<longrightarrow> q \<noteq> pos_at (geo s) ds' 0 k \<longrightarrow>
     lookup nm s ds = Some (e, q, st) \<longrightarrow> lookup nm t ds' = Some (e, q, st))"

lemma others_same: "\<forall>nm. \<not> same_name nm name \<longrightarrow> lookup nm t ds' = lookup nm s ds \<Longrightarrow> others s ds t ds' name k"
  by (simp add: others_def)

lemma others_trans: "others s ds t ds' name k \<Longrightarrow> others t ds' u ds' name k \<Longrightarrow> geo t = geo s \<Longrightarrow> others s ds u ds' name k"
  by (simp add: others_def)

lemma changes_lookup:
  assumes "changes K s t" "good_vol s" "dir_chain s d ds" "set ds \<inter> K = {}"
  shows "lookup nm t ds = lookup nm s ds"
  using changes_dir(3) [OF assms] changesD(2) [OF assms(1)] by simp

text \<open>The slot \<open>k\<close> of the file is the one a lookup found before, or was free or not there yet.\<close>

definition placed :: "vol \<Rightarrow> u32 list \<Rightarrow> u32 list \<Rightarrow> bytes \<Rightarrow> nat \<Rightarrow> bool" where
  "placed s ds ds' name k \<longleftrightarrow> (case lookup name s ds of
     None \<Rightarrow> k < slot_count (geo s) ds \<longrightarrow> slot_free (slot s ds k)
   | Some (_, q, _) \<Rightarrow> q = pos_at (geo s) ds' 0 k)"

text \<open>So every other name is found as before, unless it leads to the same entry.\<close>

definition undisturbed :: "vol \<Rightarrow> u32 list \<Rightarrow> vol \<Rightarrow> u32 list \<Rightarrow> bytes \<Rightarrow> bool" where
  "undisturbed s ds t ds' name \<longleftrightarrow> (\<forall>nm e q st. \<not> same_name nm name \<longrightarrow> (\<forall>e' st'. lookup name s ds \<noteq> Some (e', q, st')) \<longrightarrow>
     lookup nm s ds = Some (e, q, st) \<longrightarrow> lookup nm t ds' = Some (e, q, st))"

lemma placed_undisturbed:
  assumes "placed s ds (ds @ es) name k" "others s ds t (ds @ es) name k" "good_vol t" "dir_chain t d (ds @ es)" "geo t = geo s"
    and "k < slot_count (geo s) (ds @ es)" "good_vol s"
  shows "undisturbed s ds t (ds @ es) name"
  unfolding undisturbed_def
proof (intro allI impI)
  fix nm e q st
  assume nm: "\<not> same_name nm name" and dif: "\<forall>e' st'. lookup name s ds \<noteq> Some (e', q, st')" and L: "lookup nm s ds = Some (e, q, st)"
  obtain i where i: "i < slot_count (geo s) ds" "q = pos_at (geo s) ds 0 i" "\<not> slot_free (slot s ds i)"
    by (rule lookup_slot [OF L]) blast
  have K: "0 < clus_slots (geo s)" using good_volD(3) [OF assms(7)] by (simp add: clus_slots_def geo_ok_def)
  have qi: "q = pos_at (geo t) (ds @ es) 0 i" using i(1,2) slot_old(2) [OF K] assms(5) by simp
  have i': "i < slot_count (geo t) (ds @ es)" using i(1) assms(5) by (simp add: slot_count_def add_mult_distrib2 trans_less_add1)
  have "q \<noteq> pos_at (geo s) (ds @ es) 0 k"
  proof (cases "lookup name s ds")
    case None
    then have "i \<noteq> k" using assms(1) i by (auto simp: placed_def)
    then show ?thesis using pos_at_eq [OF assms(3,4) i', of k 0 0] assms(5,6) qi by auto
  next
    case (Some r)
    then show ?thesis using assms(1) dif by (cases r) (auto simp: placed_def)
  qed
  then show "lookup nm t (ds @ es) = Some (e, q, st)" using assms(2) nm L by (simp add: others_def)
qed

end
