(* ===== verification/Fat_File_Spec.thy ===== *)
theory Fat_File_Spec
  imports Fat_Ops Fat_Dir_Spec
begin

text \<open>
  What \<open>fat32_read\<close>, \<open>fat32_write\<close> and \<open>fat32_seek\<close> (\<open>src/fs/fat32_ops.c\<close> 226-326) do to the contents of a
  file. The contents are the bytes of the clusters of its chain, in the order of the chain.
\<close>

section \<open>File contents\<close>

definition clus_bytes :: "geometry \<Rightarrow> nat" where
  "clus_bytes g = 512 * unat (vol_sec_per_clus g)"

definition file_lba :: "geometry \<Rightarrow> u32 list \<Rightarrow> nat \<Rightarrow> u32" where
  "file_lba g cs p = cluster_to_lba g (cs ! (p div clus_bytes g)) + of_nat (p div 512 mod unat (vol_sec_per_clus g))"

definition file_byte :: "vol \<Rightarrow> u32 list \<Rightarrow> nat \<Rightarrow> u8" where
  "file_byte s cs p = sec_view s (file_lba (geo s) cs p) (p mod 512)"

definition file_bytes :: "vol \<Rightarrow> u32 list \<Rightarrow> nat \<Rightarrow> nat \<Rightarrow> bytes" where
  "file_bytes s cs p n = map (\<lambda>i. file_byte s cs (p + i)) [0..<n]"

text \<open>A cluster size that fits the 32-bit product \<open>vol_sec_per_clus * 512\<close>; a mounted volume has at most 255.\<close>

definition spc_ok :: "geometry \<Rightarrow> bool" where
  "spc_ok g \<longleftrightarrow> 0 < unat (vol_sec_per_clus g) \<and> unat (vol_sec_per_clus g) < 2 ^ 23"

lemma length_file_bytes [simp]: "length (file_bytes s cs p n) = n"
  by (simp add: file_bytes_def)

lemma file_bytes_0 [simp]: "file_bytes s cs p 0 = []"
  by (simp add: file_bytes_def)

lemma file_bytes_add: "file_bytes s cs p (m + n) = file_bytes s cs p m @ file_bytes s cs (p + m) n"
proof -
  have "[0..<m + n] = [0..<m] @ map (\<lambda>i. i + m) [0..<n]"
    using upt_add_eq_append [of 0 m n] map_add_upt [of m n] by (simp add: add.commute)
  then show ?thesis by (simp add: file_bytes_def ac_simps)
qed

lemma spc_bytes:
  assumes "spc_ok g"
  shows "unat (vol_sec_per_clus g * 512) = clus_bytes g" "vol_sec_per_clus g * 512 \<noteq> 0" "0 < clus_bytes g"
proof -
  show u: "unat (vol_sec_per_clus g * 512) = clus_bytes g"
    using assms by (simp add: spc_ok_def clus_bytes_def unat_word_ariths)
  show p: "0 < clus_bytes g" using assms by (simp add: spc_ok_def clus_bytes_def)
  show "vol_sec_per_clus g * 512 \<noteq> 0" using u p by (metis less_irrefl unat_0)
qed

text \<open>The driver's arithmetic on a position.\<close>

lemma pos_split:
  assumes "spc_ok g" "unat pos = p"
  shows "unat ((pos mod (vol_sec_per_clus g * 512)) mod 512) = p mod 512"
    "(pos mod (vol_sec_per_clus g * 512)) div 512 = of_nat (p div 512 mod unat (vol_sec_per_clus g))"
    "pos mod (vol_sec_per_clus g * 512) = 0 \<longleftrightarrow> p mod clus_bytes g = 0"
proof -
  let ?k = "unat (vol_sec_per_clus g)"
  have m: "unat (pos mod (vol_sec_per_clus g * 512)) = 512 * (p div 512 mod ?k) + p mod 512"
    using spc_bytes(1) [OF assms(1)] assms(2) by (simp add: unat_mod clus_bytes_def mod_mult2_eq)
  then show "unat ((pos mod (vol_sec_per_clus g * 512)) mod 512) = p mod 512"
    by (simp add: unat_mod)
  have "unat ((pos mod (vol_sec_per_clus g * 512)) div 512) = p div 512 mod ?k"
    using m by (simp add: unat_div)
  then show "(pos mod (vol_sec_per_clus g * 512)) div 512 = of_nat (p div 512 mod ?k)"
    by (metis of_nat_unat ucast_id)
  show "pos mod (vol_sec_per_clus g * 512) = 0 \<longleftrightarrow> p mod clus_bytes g = 0"
    using spc_bytes(1) [OF assms(1)] assms(2)
    unfolding unat_eq_0 [symmetric, of "pos mod (vol_sec_per_clus g * 512)"] unat_mod by simp
qed

lemma clus_div: "p div clus_bytes g = p div 512 div unat (vol_sec_per_clus g)"
  by (simp add: clus_bytes_def div_mult2_eq)

lemma within_sector:
  assumes "p mod 512 + i < 512"
  shows "(p + i) div 512 = p div 512" "(p + i) mod 512 = p mod 512 + i"
    "file_lba g cs (p + i) = file_lba g cs p"
proof -
  have e: "p + i = 512 * (p div 512) + (p mod 512 + i)" by simp
  show d: "(p + i) div 512 = p div 512" unfolding e using assms by (subst div_mult_self4) auto
  show "(p + i) mod 512 = p mod 512 + i" unfolding e using assms by (subst mod_mult_self4) auto
  show "file_lba g cs (p + i) = file_lba g cs p" by (simp add: file_lba_def clus_div d)
qed

lemma file_chunk:
  assumes "p mod 512 + n \<le> 512"
  shows "file_bytes s cs p n = slice (sec_view s (file_lba (geo s) cs p)) (p mod 512) n"
  by (rule nth_equalityI) (use assms in \<open>auto simp: file_bytes_def file_byte_def within_sector\<close>)

lemma file_lba_in:
  assumes "geo_ok g" "p < length cs * clus_bytes g"
  shows "file_lba g cs p \<in> cluster_sectors g (cs ! (p div clus_bytes g))" "p div clus_bytes g < length cs"
proof -
  have k: "0 < unat (vol_sec_per_clus g)" using assms(1) by (simp add: geo_ok_def)
  show "p div clus_bytes g < length cs" using assms(2) by (simp add: less_mult_imp_div_less)
  have lt: "p div 512 mod unat (vol_sec_per_clus g) < unat (vol_sec_per_clus g)" using k by simp
  have "unat (of_nat (p div 512 mod unat (vol_sec_per_clus g)) :: u32) = p div 512 mod unat (vol_sec_per_clus g)"
    by (rule unat_of_nat_eq) (use lt unsigned_less [of "vol_sec_per_clus g", where ?'a = nat] in simp)
  then show "file_lba g cs p \<in> cluster_sectors g (cs ! (p div clus_bytes g))"
    using lt by (auto simp: file_lba_def cluster_sectors_def word_less_nat_alt)
qed

lemma file_lba_data:
  assumes "geo_ok g" "p < length cs * clus_bytes g" "\<forall>k \<in> set cs. valid_cluster g k"
  shows "vol_data_lba g \<le> file_lba g cs p" "file_lba g cs p \<noteq> NO_LBA"
proof -
  have "valid_cluster g (cs ! (p div clus_bytes g))" using assms(3) file_lba_in(2) [OF assms(1,2)] by simp
  note C = cluster_sectors_range [OF assms(1) this file_lba_in(1) [OF assms(1,2)]]
  show "vol_data_lba g \<le> file_lba g cs p" "file_lba g cs p \<noteq> NO_LBA" by (rule C(1), rule C(2))
qed

section \<open>Descriptors\<close>

text \<open>\<open>t\<close> differs from \<open>s\<close> in the cache and in descriptor \<open>fd\<close>, which is \<open>f\<close>.\<close>

definition fd_reads :: "nat \<Rightarrow> fat32_fd_t \<Rightarrow> vol \<Rightarrow> vol \<Rightarrow> bool" where
  "fd_reads fd f s t \<longleftrightarrow> reads_only (upd_fd fd (\<lambda>_. f) s) t"

lemma upd_fd_simps [simp]:
  "geo (upd_fd fd h s) = geo s" "drv (upd_fd fd h s) = drv s" "sec_view (upd_fd fd h s) = sec_view s"
  "cache_ok (upd_fd fd h s) = cache_ok s" "io_ok (upd_fd fd h s) = io_ok s" "good_vol (upd_fd fd h s) = good_vol s"
  "fatv (upd_fd fd h s) = fatv s" "sec_cache (upd_fd fd h s) = sec_cache s"
  "file_byte (upd_fd fd h s) = file_byte s" "file_bytes (upd_fd fd h s) = file_bytes s"
  "vol_mounted (upd_fd fd h s) = vol_mounted s" "length (fds (upd_fd fd h s)) = length (fds s)"
  by (simp_all add: upd_fd_def sec_view_def fun_eq_iff cache_ok_def io_ok_def good_vol_def fatv_def fat_copy_def
      file_byte_def file_bytes_def)

lemma fds_upd_fd [simp]: "fd < length (fds s) \<Longrightarrow> fds (upd_fd fd h s) ! fd = h (fds s ! fd)"
  by (simp add: upd_fd_def)

lemma upd_fd_upd_fd [simp]: "fd < length (fds s) \<Longrightarrow> upd_fd fd g (upd_fd fd h s) = upd_fd fd (\<lambda>f. g (h f)) s"
  by (simp add: upd_fd_def)

lemma upd_fd_const: "upd_fd fd h s = upd_fd fd (\<lambda>_. h (fds s ! fd)) s"
  by (simp add: upd_fd_def)

lemma reads_only_upd_fd: "reads_only s t \<Longrightarrow> reads_only (upd_fd fd (\<lambda>_. f) s) (upd_fd fd (\<lambda>_. f) t)"
  by (simp add: reads_only_def same_vol_def same_view_def) (simp add: upd_fd_def)

lemma fd_reads_same: "good_vol s \<Longrightarrow> fd_reads fd (fds s ! fd) s s"
  by (simp add: fd_reads_def reads_only_def same_vol_def same_view_def) (simp add: upd_fd_def)

lemma fd_reads_trans:
  assumes "fd_reads fd f s t" "fd_reads fd h t u"
  shows "fd_reads fd h s u"
proof -
  have "reads_only (upd_fd fd (\<lambda>_. f) s) t" "reads_only (upd_fd fd (\<lambda>_. h) t) u"
    using assms by (simp_all add: fd_reads_def)
  then have "reads_only (upd_fd fd (\<lambda>_. h) (upd_fd fd (\<lambda>_. f) s)) u"
    using reads_only_upd_fd reads_only_trans by blast
  moreover have "upd_fd fd (\<lambda>_. h) (upd_fd fd (\<lambda>_. f) s) = upd_fd fd (\<lambda>_. h) s" by (simp add: upd_fd_def)
  ultimately show ?thesis by (simp add: fd_reads_def)
qed

lemma reads_only_fd: "reads_only s t \<Longrightarrow> fd_reads fd (h (fds s ! fd)) s (upd_fd fd h t)"
  using reads_only_upd_fd [of s t fd "h (fds s ! fd)"]
  by (simp add: fd_reads_def upd_fd_const [of fd h t]) (simp add: reads_only_def same_vol_def)

lemma fd_readsD:
  assumes "fd_reads fd f s t" "good_vol s"
  shows "good_vol t" "geo t = geo s" "length (fds t) = length (fds s)" "fd < length (fds s) \<Longrightarrow> fds t ! fd = f"
    "same_view s t" "fat_index (geo s) k \<Longrightarrow> fatv t k = fatv s k"
proof -
  have r: "reads_only (upd_fd fd (\<lambda>_. f) s) t" using assms(1) by (simp add: fd_reads_def)
  then show g: "good_vol t" "geo t = geo s" by (auto simp: reads_only_def dest: same_vol_geo)
  show "length (fds t) = length (fds s)" "fd < length (fds s) \<Longrightarrow> fds t ! fd = f"
    using r by (auto simp: reads_only_def same_vol_def upd_fd_def)
  show "same_view s t" using r by (simp add: reads_only_def same_view_def)
  show "fatv t k = fatv s k" if "fat_index (geo s) k"
    using same_view_fatv [of "upd_fd fd (\<lambda>_. f) s" t k] r good_volD(3) [OF assms(2)] that
    by (simp add: reads_only_def)
qed

lemma fd_reads_chain: "fd_reads fd f s t \<Longrightarrow> good_vol s \<Longrightarrow> dir_chain s c cs \<Longrightarrow> dir_chain t c cs"
  unfolding dir_chain_def using fd_readsD [of fd f s t]
  by (subst chain_cong [of cs "fatv t" "fatv s"]) (auto simp: valid_fat_index)

lemma fd_reads_bytes:
  assumes "fd_reads fd f s t" "good_vol s" "dir_chain s c cs" "p + n \<le> length cs * clus_bytes (geo s)"
  shows "file_bytes t cs p n = file_bytes s cs p n"
proof -
  note D = fd_readsD [OF assms(1,2)]
  have "file_lba (geo s) cs (p + i) \<noteq> NO_LBA" if "i < n" for i
    by (rule file_lba_data(2)) (use that assms good_volD(3) [OF assms(2)] in \<open>auto simp: dir_chain_def\<close>)
  then show ?thesis using D(2,5) by (auto simp: file_bytes_def file_byte_def same_view_def)
qed

section \<open>Reading\<close>

definition fd_on :: "vol \<Rightarrow> nat \<Rightarrow> u32 list \<Rightarrow> nat \<Rightarrow> bool" where
  "fd_on s fd cs p \<longleftrightarrow> fd < length (fds s) \<and> unat (fd_pos (fds s ! fd)) = p \<and>
     (p div clus_bytes (geo s) < length cs \<longrightarrow> fd_cur_cluster (fds s ! fd) = cs ! (p div clus_bytes (geo s)))"

lemma sector_in_cluster:
  assumes "spc_ok g" "p mod 512 + n \<le> 512"
  shows "p mod clus_bytes g + n \<le> clus_bytes g"
proof -
  let ?k = "unat (vol_sec_per_clus g)"
  have k: "0 < ?k" using assms(1) by (simp add: spc_ok_def)
  have m: "p mod clus_bytes g = 512 * (p div 512 mod ?k) + p mod 512" by (simp add: clus_bytes_def mod_mult2_eq)
  have "p div 512 mod ?k + 1 \<le> ?k" using k by (simp add: Suc_leI)
  then have "512 * (p div 512 mod ?k + 1) \<le> clus_bytes g" unfolding clus_bytes_def by (rule mult_le_mono2)
  then show ?thesis using m assms(2) by simp
qed

lemma pos_advance:
  assumes "spc_ok g" "0 < n" "p mod 512 + n \<le> 512"
  shows "(p + n) div clus_bytes g = (if (p + n) mod clus_bytes g = 0 then Suc (p div clus_bytes g) else p div clus_bytes g)"
proof -
  let ?C = "clus_bytes g"
  have k: "0 < ?C" using assms(1) by (simp add: spc_ok_def clus_bytes_def)
  note le = sector_in_cluster [OF assms(1,3)]
  have e: "p + n = ?C * (p div ?C) + (p mod ?C + n)" by simp
  show ?thesis
  proof (cases "p mod ?C + n = ?C")
    case True
    then have "p + n = ?C * Suc (p div ?C)" using e by simp
    then show ?thesis using k by simp
  next
    case False
    then have lt: "p mod ?C + n < ?C" using le by simp
    have "(?C * q + r) div ?C = q \<and> (?C * q + r) mod ?C = r" if "r < ?C" for q r using that k by simp
    from this [OF lt, of "p div ?C"] have "(p + n) div ?C = p div ?C" "(p + n) mod ?C = p mod ?C + n"
      unfolding e [symmetric] by simp_all
    then show ?thesis using assms(2) by simp
  qed
qed

lemma valid_links: "geo_ok g \<Longrightarrow> valid_cluster g c \<Longrightarrow> \<not> c < 2 \<and> \<not> FAT32_EOC \<le> c"
  by (auto simp: geo_ok_def valid_cluster_def fat_index_def word_less_nat_alt word_le_nat_alt)

lemma sec_readO:
  assumes "good_vol s" "lba \<noteq> NO_LBA"
  obtains t where "sec_read lba s = (True, t)" "reads_only s t" "sec_cache t = sec_view s lba" "sec_cache_lba t = lba"
proof -
  note G = good_volD [OF assms(1)]
  obtain t where t: "sec_read lba s = (True, t)" "same_vol s t" "cache_ok t" "io_ok t"
    "\<And>a. a \<noteq> NO_LBA \<Longrightarrow> sec_view t a = sec_view s a" "sec_cache t = sec_view s lba" "sec_cache_lba t = lba"
    using sec_readE [OF G(1,2) assms(2)] by blast
  then have "reads_only s t" using G(3) by (simp add: reads_only_def good_vol_def same_view_def same_vol_geo)
  with t that show ?thesis by blast
qed

lemma fat_getO:
  assumes "good_vol s" "fat_index (geo s) c"
  obtains t where "fat_get c s = (fatv s c, t)" "reads_only s t"
proof -
  obtain t where "fat_get c s = (fatv s c, t)" "same_vol s t" "good_vol t" "same_view s t"
    by (rule fat_getE [OF assms])
  with that show ?thesis by (simp add: reads_only_def)
qed

text \<open>One round of the loop: the rest of the sector, or of the request.\<close>

lemma read_step:
  assumes "good_vol s" "spc_ok (geo s)" "dir_chain s c cs" "fd_on s fd cs p" "p < length cs * clus_bytes (geo s)"
    and n: "0 < n" "p mod 512 + n \<le> 512" "p + n < 2 ^ 32"
    and "unat (fd_pos (fds s ! fd)) = p" "unat can = n"
  obtains s1 s3 d where "sec_read (cluster_to_lba (geo s) (fd_cur_cluster (fds s ! fd)) +
        (fd_pos (fds s ! fd) mod (vol_sec_per_clus (geo s) * 512)) div 512) s = (True, s1)"
    "slice (sec_cache s1) (unat ((fd_pos (fds s ! fd) mod (vol_sec_per_clus (geo s) * 512)) mod 512)) n = file_bytes s cs p n"
    "\<not> (fd_cur_cluster (fds s ! fd) < 2 \<or> fd_cur_cluster (fds s ! fd) \<ge> FAT32_EOC)"
    "(if (fd_pos (fds s ! fd) + can) mod (vol_sec_per_clus (geo s) * 512) = 0
      then let (c, s') = fat_get (fd_cur_cluster (fds s ! fd)) (upd_fd fd (\<lambda>f. f\<lparr>fd_pos := fd_pos f + can\<rparr>) s1)
           in upd_fd fd (\<lambda>f. f\<lparr>fd_cur_cluster := c\<rparr>) s'
      else upd_fd fd (\<lambda>f. f\<lparr>fd_pos := fd_pos f + can\<rparr>) s1) = s3"
    "fd_reads fd ((fds s ! fd)\<lparr>fd_pos := fd_pos (fds s ! fd) + can, fd_cur_cluster := d\<rparr>) s s3"
    "fd_on s3 fd cs (p + n)"
proof -
  let ?g = "geo s" and ?f = "fds s ! fd"
  let ?C = "clus_bytes ?g"
  note G = good_volD [OF assms(1)]
  have fd: "fd < length (fds s)" and cur: "fd_cur_cluster ?f = cs ! (p div ?C)"
    using assms(4) file_lba_in(2) [OF G(3) assms(5)] by (auto simp: fd_on_def)
  note S = pos_split [OF assms(2) assms(9)]
  have vc: "\<forall>k \<in> set cs. valid_cluster ?g k" using assms(3) by (simp add: dir_chain_def)
  have v: "valid_cluster ?g (fd_cur_cluster ?f)"
    using vc cur file_lba_in(2) [OF G(3) assms(5)] by simp
  have lba: "cluster_to_lba ?g (fd_cur_cluster ?f) + (fd_pos ?f mod (vol_sec_per_clus ?g * 512)) div 512 = file_lba ?g cs p"
    using S(2) cur by (simp add: file_lba_def)
  obtain s1 where s1: "sec_read (file_lba ?g cs p) s = (True, s1)" "reads_only s s1" "sec_cache s1 = sec_view s (file_lba ?g cs p)"
    using sec_readO [OF assms(1) file_lba_data(2) [OF G(3) assms(5) vc]] by blast
  define s2 where "s2 = upd_fd fd (\<lambda>f. f\<lparr>fd_pos := fd_pos f + can\<rparr>) s1"
  have f1: "fds s1 = fds s" using s1(2) by (simp add: reads_only_def same_vol_def)
  have r2: "fd_reads fd (?f\<lparr>fd_pos := fd_pos ?f + can\<rparr>) s s2" unfolding s2_def by (rule reads_only_fd [OF s1(2)])
  note D2 = fd_readsD [OF r2 assms(1)]
  have un: "unat (fd_pos ?f + can) = p + n" using assms(8,9,10) by (simp add: unat_word_ariths)
  note S' = pos_split(3) [OF assms(2) un]
  have on2: "fd_on s2 fd cs (p + n)" if "(p + n) mod ?C \<noteq> 0"
    using that D2 fd un cur pos_advance [OF assms(2) n(1,2)] by (simp add: fd_on_def)
  show ?thesis
  proof (cases "(p + n) mod ?C = 0")
    case False
    show ?thesis
    proof (rule that [of s1 s2 "fd_cur_cluster ?f"])
      show "fd_reads fd (?f\<lparr>fd_pos := fd_pos ?f + can, fd_cur_cluster := fd_cur_cluster ?f\<rparr>) s s2"
        using r2 by simp
    qed (use s1 lba S file_chunk [OF n(2)] valid_links [OF G(3) v] False S' on2 in \<open>auto simp: s2_def\<close>)
  next
    case True
    obtain s' where s': "fat_get (fd_cur_cluster ?f) s2 = (fatv s2 (fd_cur_cluster ?f), s')" "reads_only s2 s'"
      using fat_getO [OF D2(1)] valid_fat_index [OF v] D2(2) by metis
    define s3 where "s3 = upd_fd fd (\<lambda>f. f\<lparr>fd_cur_cluster := fatv s2 (fd_cur_cluster ?f)\<rparr>) s'"
    have r3: "fd_reads fd (?f\<lparr>fd_pos := fd_pos ?f + can, fd_cur_cluster := fatv s2 (fd_cur_cluster ?f)\<rparr>) s s3"
      using fd_reads_trans [OF r2 reads_only_fd [OF s'(2)]] D2(4) [OF fd] by (simp add: s3_def)
    note D3 = fd_readsD [OF r3 assms(1)]
    have link: "fatv s2 (fd_cur_cluster ?f) = cs ! Suc (p div ?C)" if "Suc (p div ?C) < length cs"
      using that chain_next [of "fatv s" c cs "p div ?C"] assms(3) D2(6) [OF valid_fat_index [OF v]] cur
      by (simp add: dir_chain_def)
    have "fd_on s3 fd cs (p + n)"
      using D3 fd un link pos_advance [OF assms(2) n(1,2)] True by (simp add: fd_on_def)
    then show ?thesis
      using r3 by (intro that [of s1 s3])
        (use s1 lba S file_chunk [OF n(2)] valid_links [OF G(3) v] True S' s' in \<open>auto simp: s2_def s3_def\<close>)
  qed
qed

text \<open>The words of a round: what fits in the sector, bounded by what is left of the request.\<close>

lemma round_words:
  assumes "unat byte_off = p mod 512" "rd < (len :: u32)"
  shows "unat (min (512 - byte_off) (len - rd)) = min (512 - p mod 512) (unat len - unat rd)"
    "0 < min (512 - p mod 512) (unat len - unat rd)"
    "unat (rd + min (512 - byte_off) (len - rd)) = unat rd + min (512 - p mod 512) (unat len - unat rd)"
    "p mod 512 + min (512 - p mod 512) (unat len - unat rd) \<le> 512"
proof -
  have "p mod 512 < 512" by simp
  then show "p mod 512 + min (512 - p mod 512) (unat len - unat rd) \<le> 512" by linarith
  have b: "unat (512 - byte_off) = 512 - p mod 512"
    using assms(1) by (simp add: unat_sub word_le_nat_alt)
  have r: "unat (len - rd) = unat len - unat rd" using assms(2) by (simp add: unat_sub)
  show m: "unat (min (512 - byte_off) (len - rd)) = min (512 - p mod 512) (unat len - unat rd)"
    using b r by (auto simp: min_def word_le_nat_alt)
  show "0 < min (512 - p mod 512) (unat len - unat rd)" using assms(2) by (simp add: word_less_nat_alt)
  have "unat rd + min (512 - p mod 512) (unat len - unat rd) < 2 ^ 32"
    using assms(2) unsigned_less [of len, where ?'a = nat] by (simp add: word_less_nat_alt)
  then show "unat (rd + min (512 - byte_off) (len - rd)) = unat rd + min (512 - p mod 512) (unat len - unat rd)"
    using m by (simp add: unat_word_ariths)
qed

lemma read_loop_at:
  assumes "good_vol s" "spc_ok (geo s)" "dir_chain s c cs" "fd_on s fd cs p" "rd \<le> len"
    and "p + (unat len - unat rd) \<le> length cs * clus_bytes (geo s)" "p + (unat len - unat rd) < 2 ^ 32"
  shows "\<exists>t d. read_loop fd len (vol_sec_per_clus (geo s) * 512) rd acc s =
      Some (acc @ file_bytes s cs p (unat len - unat rd), t) \<and>
    fd_reads fd ((fds s ! fd)\<lparr>fd_pos := fd_pos (fds s ! fd) + (len - rd),
        fd_cur_cluster := d\<rparr>) s t \<and>
    fd_on t fd cs (p + (unat len - unat rd))"
  using assms
proof (induction "unat len - unat rd" arbitrary: s rd acc p rule: less_induct)
  case less
  let ?f = "fds s ! fd" and ?csz = "vol_sec_per_clus (geo s) * 512"
  note G = good_volD [OF less.prems(1)]
  have fd: "fd < length (fds s)" and pos: "unat (fd_pos ?f) = p" using less.prems(4) by (simp_all add: fd_on_def)
  show ?case
  proof (cases "rd < len")
    case False
    then have "rd = len" using less.prems(5) by simp
    then show ?thesis using less.prems(4) fd_reads_same [OF less.prems(1), of fd]
      by (intro exI [of _ s] exI [of _ "fd_cur_cluster ?f"], subst read_loop.simps) simp
  next
    case True
    note S = pos_split [OF less.prems(2) pos]
    note R = round_words [OF S(1) True]
    let ?can = "min (512 - fd_pos ?f mod ?csz mod 512) (len - rd)"
    define n where "n = min (512 - p mod 512) (unat len - unat rd)"
    have n: "0 < n" "p mod 512 + n \<le> 512" "unat ?can = n" "unat (rd + ?can) = unat rd + n"
      unfolding n_def by (fact R)+
    have nle: "n \<le> unat len - unat rd" by (simp add: n_def)
    have lt: "p < length cs * clus_bytes (geo s)" "p + n < 2 ^ 32" using less.prems(6,7) n(1) nle by linarith+
    obtain s1 s3 d where q: "sec_read (cluster_to_lba (geo s) (fd_cur_cluster ?f) + (fd_pos ?f mod ?csz) div 512) s = (True, s1)"
        "slice (sec_cache s1) (unat ((fd_pos ?f mod ?csz) mod 512)) n = file_bytes s cs p n"
        "\<not> (fd_cur_cluster ?f < 2 \<or> fd_cur_cluster ?f \<ge> FAT32_EOC)"
        "(if (fd_pos ?f + ?can) mod ?csz = 0
          then let (c, s') = fat_get (fd_cur_cluster ?f) (upd_fd fd (\<lambda>f. f\<lparr>fd_pos := fd_pos f + ?can\<rparr>) s1)
               in upd_fd fd (\<lambda>f. f\<lparr>fd_cur_cluster := c\<rparr>) s'
          else upd_fd fd (\<lambda>f. f\<lparr>fd_pos := fd_pos f + ?can\<rparr>) s1) = s3"
        "fd_reads fd (?f\<lparr>fd_pos := fd_pos ?f + ?can, fd_cur_cluster := d\<rparr>) s s3"
        "fd_on s3 fd cs (p + n)"
      by (rule read_step [OF less.prems(1-4) lt(1) n(1,2) lt(2) pos n(3)])
    note D = fd_readsD [OF q(5) less.prems(1)]
    have "unat len = unat rd + (unat len - unat rd)" using True by (simp add: word_less_nat_alt)
    then have rest: "unat len - unat (rd + ?can) = unat len - unat rd - n" "rd + ?can \<le> len"
      using n(4) nle by (simp_all add: word_le_nat_alt)
    have "unat len - unat (rd + ?can) < unat len - unat rd" using rest(1) n(1) nle by linarith
    moreover have "p + n + (unat len - unat (rd + ?can)) = p + (unat len - unat rd)" using rest(1) nle by linarith
    moreover note less.hyps [of "rd + ?can" s3 "p + n" "acc @ file_bytes s cs p n"]
    ultimately obtain t d2 where t: "read_loop fd len ?csz (rd + ?can) (acc @ file_bytes s cs p n) s3 =
        Some ((acc @ file_bytes s cs p n) @ file_bytes s3 cs (p + n) (unat len - unat rd - n), t)"
      "fd_reads fd ((fds s3 ! fd)\<lparr>fd_pos := fd_pos (fds s3 ! fd) + (len - (rd + ?can)),
        fd_cur_cluster := d2\<rparr>) s3 t"
      "fd_on t fd cs (p + (unat len - unat rd))"
      using D(1,2) less.prems(2,6,7) fd_reads_chain [OF q(5) less.prems(1,3)] q(6) rest by auto
    have "read_loop fd len ?csz rd acc s = read_loop fd len ?csz (rd + ?can) (acc @ file_bytes s cs p n) s3"
      using True q(1-4) n(3) spc_bytes(2) [OF less.prems(2)]
      by (subst read_loop.simps) (simp add: Let_def)
    moreover have "file_bytes s3 cs (p + n) (unat len - unat rd - n) = file_bytes s cs (p + n) (unat len - unat rd - n)"
      by (rule fd_reads_bytes [OF q(5) less.prems(1,3)]) (use less.prems(6) nle in linarith)
    moreover have "file_bytes s cs p (unat len - unat rd)
        = file_bytes s cs p n @ file_bytes s cs (p + n) (unat len - unat rd - n)"
      using file_bytes_add [of s cs p n "unat len - unat rd - n"] unfolding le_add_diff_inverse [OF nle] .
    moreover have "fd_reads fd (?f\<lparr>fd_pos := fd_pos ?f + (len - rd), fd_cur_cluster := d2\<rparr>) s t"
      using fd_reads_trans [OF q(5) t(2)] D(4) [OF fd] by simp
    ultimately show ?thesis using t(1,3) by (intro exI [of _ t] exI [of _ d2]) simp
  qed
qed

text \<open>
  An open file: the chain \<open>cs\<close> starts at the descriptor's first cluster and has room for its size; and
  one that a reader has at position \<open>p\<close>.
\<close>

definition file_at :: "vol \<Rightarrow> nat \<Rightarrow> u32 list \<Rightarrow> bool" where
  "file_at s fd cs \<longleftrightarrow> fd < FAT32_MAX_FD \<and> fd < length (fds s) \<and> fd_open (fds s ! fd) \<and>
     dir_chain s (fd_cluster (fds s ! fd)) cs \<and> unat (fd_size (fds s ! fd)) \<le> length cs * clus_bytes (geo s)"

definition open_file :: "vol \<Rightarrow> nat \<Rightarrow> u32 list \<Rightarrow> nat \<Rightarrow> bool" where
  "open_file s fd cs p \<longleftrightarrow> file_at s fd cs \<and> fd_on s fd cs p \<and> p \<le> unat (fd_size (fds s ! fd))"

lemma fat32_read_at:
  assumes "good_vol s" "spc_ok (geo s)" "open_file s fd cs p"
  shows "\<exists>t d. fat32_read (int fd) len s = Some (Inr (file_bytes s cs p (min (unat len) (unat (fd_size (fds s ! fd)) - p))), t) \<and>
    fd_reads fd ((fds s ! fd)\<lparr>fd_pos := fd_pos (fds t ! fd), fd_cur_cluster := d\<rparr>) s t \<and>
    open_file t fd cs (p + min (unat len) (unat (fd_size (fds s ! fd)) - p))"
proof -
  let ?f = "fds s ! fd"
  have o: "fd < FAT32_MAX_FD" "fd_open ?f" "fd_on s fd cs p" "dir_chain s (fd_cluster ?f) cs" "p \<le> unat (fd_size ?f)"
    "unat (fd_size ?f) \<le> length cs * clus_bytes (geo s)" "unat (fd_pos ?f) = p" "fd < length (fds s)"
    using assms(3) by (simp_all add: open_file_def file_at_def fd_on_def)
  have valid: "fd_valid (int fd) s" using o(1,2) by (simp add: fd_valid_def)
  show ?thesis
  proof (cases "fd_size ?f \<le> fd_pos ?f")
    case True
    then have "unat (fd_size ?f) - p = 0" using o(7) by (simp add: word_le_nat_alt)
    then show ?thesis
      using True valid fd_reads_same [OF assms(1), of fd] assms(3)
      by (intro exI [of _ s] exI [of _ "fd_cur_cluster ?f"]) (simp add: fat32_read_def)
  next
    case False
    define l where "l = (if len > fd_size ?f - fd_pos ?f then fd_size ?f - fd_pos ?f else len)"
    have rem: "unat (fd_size ?f - fd_pos ?f) = unat (fd_size ?f) - p"
      using False o(7) by (simp add: unat_sub)
    then have l: "unat l = min (unat len) (unat (fd_size ?f) - p)"
      by (auto simp: l_def word_less_nat_alt)
    have b: "p + (unat l - unat (0 :: u32)) \<le> length cs * clus_bytes (geo s)" "p + (unat l - unat (0 :: u32)) < 2 ^ 32"
      using l o(5,6) unsigned_less [of "fd_size ?f", where ?'a = nat] by simp_all
    obtain t d where t: "read_loop fd l (vol_sec_per_clus (geo s) * 512) 0 [] s = Some (file_bytes s cs p (unat l), t)"
      "fd_reads fd (?f\<lparr>fd_pos := fd_pos ?f + l, fd_cur_cluster := d\<rparr>) s t"
      "fd_on t fd cs (p + unat l)"
      using read_loop_at [OF assms(1,2) o(4,3) word_zero_le b, of "[]"] by (simp, blast)
    note D = fd_readsD [OF t(2) assms(1)]
    have "p + unat l \<le> unat (fd_size ?f)" using l o(5) by linarith
    then have "open_file t fd cs (p + unat l)"
      using o D(2,3) D(4) [OF o(8)] t(3) fd_reads_chain [OF t(2) assms(1) o(4)]
      by (simp add: open_file_def file_at_def)
    moreover have "fat32_read (int fd) len s = Some (Inr (file_bytes s cs p (unat l)), t)"
      using False valid t(1) by (simp add: fat32_read_def Let_def l_def)
    moreover have "fd_pos (fds t ! fd) = fd_pos ?f + l" using D(4) [OF o(8)] by simp
    ultimately show ?thesis using t(2) l by auto
  qed
qed

section \<open>Seeking\<close>

lemma chain_hd: "chain f c cs \<Longrightarrow> cs \<noteq> [] \<Longrightarrow> cs ! 0 = c"
  by (cases cs) auto

lemma seek_links_at:
  assumes "good_vol s" "dir_chain s c cs" "fd < length (fds s)" "fd_cur_cluster (fds s ! fd) = cs ! i" "i + n < length cs"
  shows "\<exists>t. seek_links fd n s = (True, t) \<and> fd_reads fd ((fds s ! fd)\<lparr>fd_cur_cluster := cs ! (i + n)\<rparr>) s t"
  using assms
proof (induction n arbitrary: s i)
  case 0
  then have "(fds s ! fd)\<lparr>fd_cur_cluster := cs ! i\<rparr> = fds s ! fd" by simp
  then show ?case using fd_reads_same [OF 0(1), of fd] by simp
next
  case (Suc n)
  let ?f = "fds s ! fd"
  note G = good_volD [OF Suc.prems(1)]
  have ch: "chain (fatv s) c cs" "\<forall>k \<in> set cs. valid_cluster (geo s) k" using Suc.prems(2) by (simp_all add: dir_chain_def)
  have i: "i < length cs" "Suc i < length cs" using Suc.prems(5) by simp_all
  have v: "valid_cluster (geo s) (cs ! i)" "valid_cluster (geo s) (cs ! Suc i)" using ch(2) i by simp_all
  obtain s1 where s1: "fat_get (cs ! i) s = (fatv s (cs ! i), s1)" "reads_only s s1"
    by (rule fat_getO [OF Suc.prems(1) valid_fat_index [OF v(1)]])
  have nx: "fatv s (cs ! i) = cs ! Suc i" using chain_next [OF ch(1) i(2)] by simp
  define s2 where "s2 = upd_fd fd (\<lambda>f. f\<lparr>fd_cur_cluster := cs ! Suc i\<rparr>) s1"
  have r: "fd_reads fd (?f\<lparr>fd_cur_cluster := cs ! Suc i\<rparr>) s s2"
    unfolding s2_def by (rule reads_only_fd [OF s1(2)])
  note D = fd_readsD [OF r Suc.prems(1)]
  have "\<exists>t. seek_links fd n s2 = (True, t) \<and> fd_reads fd ((fds s2 ! fd)\<lparr>fd_cur_cluster := cs ! (Suc i + n)\<rparr>) s2 t"
    by (rule Suc.IH) (use D Suc.prems(3,5) fd_reads_chain [OF r Suc.prems(1,2)] in simp_all)
  then obtain t where t: "seek_links fd n s2 = (True, t)" "fd_reads fd ((fds s2 ! fd)\<lparr>fd_cur_cluster := cs ! (Suc i + n)\<rparr>) s2 t"
    by blast
  have "seek_links fd (Suc n) s = (True, t)"
    using s1(1) nx valid_links [OF G(3) v(2)] t(1) Suc.prems(4) by (simp add: s2_def)
  moreover have "fd_reads fd (?f\<lparr>fd_cur_cluster := cs ! (i + Suc n)\<rparr>) s t"
    using fd_reads_trans [OF r t(2)] D(4) [OF Suc.prems(3)] by simp
  ultimately show ?case by blast
qed

lemma fat32_seek_at:
  assumes "good_vol s" "spc_ok (geo s)" "fd < FAT32_MAX_FD" "fd_open (fds s ! fd)" "fd < length (fds s)"
    and "dir_chain s (fd_cluster (fds s ! fd)) cs" "pos \<le> fd_size (fds s ! fd)"
    and "unat pos div clus_bytes (geo s) < length cs"
  shows "\<exists>t. fat32_seek (int fd) pos s = Some (FAT32_OK, t) \<and>
    fd_reads fd ((fds s ! fd)\<lparr>fd_pos := pos, fd_cur_cluster := cs ! (unat pos div clus_bytes (geo s))\<rparr>) s t"
proof -
  let ?f = "fds s ! fd" and ?i = "unat pos div clus_bytes (geo s)"
  define s1 where "s1 = upd_fd fd (\<lambda>f. f\<lparr>fd_cur_cluster := fd_cluster f\<rparr>) s"
  have r: "fd_reads fd (?f\<lparr>fd_cur_cluster := fd_cluster ?f\<rparr>) s s1"
    unfolding s1_def by (rule reads_only_fd [OF reads_only_refl [OF assms(1)]])
  note D = fd_readsD [OF r assms(1)]
  have hd: "cs ! 0 = fd_cluster ?f" using assms(6) chain_hd by (auto simp: dir_chain_def)
  have "\<exists>t. seek_links fd ?i s1 = (True, t) \<and> fd_reads fd ((fds s1 ! fd)\<lparr>fd_cur_cluster := cs ! (0 + ?i)\<rparr>) s1 t"
    by (rule seek_links_at) (use D hd assms(5,8) fd_reads_chain [OF r assms(1,6)] in simp_all)
  then obtain t where t: "seek_links fd ?i s1 = (True, t)" "fd_reads fd ((fds s1 ! fd)\<lparr>fd_cur_cluster := cs ! ?i\<rparr>) s1 t"
    by auto
  have rt: "fd_reads fd (?f\<lparr>fd_cur_cluster := cs ! ?i\<rparr>) s t"
    using fd_reads_trans [OF r t(2)] D(4) [OF assms(5)] by simp
  note T = fd_readsD [OF rt assms(1)]
  have E: "?f\<lparr>fd_pos := pos, fd_cur_cluster := cs ! ?i\<rparr> = ?f\<lparr>fd_cur_cluster := cs ! ?i, fd_pos := pos\<rparr>" by simp
  have "fd_reads fd (?f\<lparr>fd_pos := pos, fd_cur_cluster := cs ! ?i\<rparr>) s (upd_fd fd (\<lambda>f. f\<lparr>fd_pos := pos\<rparr>) t)"
    using fd_reads_trans [OF rt reads_only_fd [OF reads_only_refl [OF T(1)], of fd "\<lambda>f. f\<lparr>fd_pos := pos\<rparr>"]]
    unfolding T(4) [OF assms(5)] E by simp
  moreover have "fat32_seek (int fd) pos s = Some (FAT32_OK, upd_fd fd (\<lambda>f. f\<lparr>fd_pos := pos\<rparr>) t)"
    using assms(3,4,7) t(1) spc_bytes(1,2) [OF assms(2)]
    by (simp add: fat32_seek_def fd_valid_def Let_def unat_div s1_def)
  ultimately show ?thesis by blast
qed

lemma seek_then_read:
  assumes "good_vol s" "spc_ok (geo s)" "file_at s fd cs" "pos \<le> fd_size (fds s ! fd)"
    and "unat pos div clus_bytes (geo s) < length cs"
  shows "\<exists>t u. fat32_seek (int fd) pos s = Some (FAT32_OK, t) \<and> open_file t fd cs (unat pos) \<and> good_vol t \<and>
    fat32_read (int fd) len t =
      Some (Inr (file_bytes s cs (unat pos) (min (unat len) (unat (fd_size (fds s ! fd)) - unat pos))), u)"
proof -
  let ?f = "fds s ! fd" and ?l = "min (unat len) (unat (fd_size (fds s ! fd)) - unat pos)"
  have o: "fd < FAT32_MAX_FD" "fd_open ?f" "fd < length (fds s)" "dir_chain s (fd_cluster ?f) cs"
    "unat (fd_size ?f) \<le> length cs * clus_bytes (geo s)"
    using assms(3) by (simp_all add: file_at_def)
  obtain t where t: "fat32_seek (int fd) pos s = Some (FAT32_OK, t)"
    "fd_reads fd (?f\<lparr>fd_pos := pos, fd_cur_cluster := cs ! (unat pos div clus_bytes (geo s))\<rparr>) s t"
    using fat32_seek_at [OF assms(1,2) o(1-4) assms(4,5)] by blast
  note D = fd_readsD [OF t(2) assms(1)]
  have f: "fds t ! fd = ?f\<lparr>fd_pos := pos, fd_cur_cluster := cs ! (unat pos div clus_bytes (geo s))\<rparr>" by (rule D(4) [OF o(3)])
  have op: "open_file t fd cs (unat pos)"
    using o assms(4) f D(2,3) fd_reads_chain [OF t(2) assms(1) o(4)]
    by (simp add: open_file_def file_at_def fd_on_def word_le_nat_alt)
  obtain u where "fat32_read (int fd) len t =
      Some (Inr (file_bytes t cs (unat pos) (min (unat len) (unat (fd_size (fds t ! fd)) - unat pos))), u)"
    using fat32_read_at [OF D(1) _ op, of len] assms(2) D(2) by auto
  moreover have "unat pos + ?l \<le> length cs * clus_bytes (geo s)"
    using o(5) assms(4) by (simp add: word_le_nat_alt)
  ultimately show ?thesis
    using t(1) op D(1) f fd_reads_bytes [OF t(2) assms(1) o(4), of "unat pos" ?l] by (intro exI [of _ t] exI [of _ u]) simp
qed

end
