(* ===== verification/Fat_File_Write.thy ===== *)
theory Fat_File_Write
  imports Fat_File_Spec
begin

text \<open>
  What \<open>fat32_write\<close> (\<open>src/fs/fat32_ops.c\<close> 259-299) does: the bytes of the request replace those of the
  file from the descriptor's position on, the chain grows by free clusters, and nothing else changes.
\<close>

section \<open>Positions of a file are independent\<close>

lemma file_lba_inj:
  assumes "geo_ok g" "\<forall>k \<in> set cs. valid_cluster g k" "distinct cs"
    and "i < length cs * clus_bytes g" "j < length cs * clus_bytes g" "file_lba g cs i = file_lba g cs j"
  shows "i div 512 = j div 512"
proof -
  let ?C = "clus_bytes g" and ?k = "unat (vol_sec_per_clus g)"
  note I = file_lba_in [OF assms(1,4)] and J = file_lba_in [OF assms(1,5)]
  have k: "0 < ?k" using assms(1) by (simp add: geo_ok_def)
  have v: "valid_cluster g (cs ! (i div ?C))" "valid_cluster g (cs ! (j div ?C))" using assms(2) I(2) J(2) by simp_all
  have "cs ! (i div ?C) = cs ! (j div ?C)"
    using cluster_sectors_disjoint [OF assms(1) v] I(1) J(1) assms(6) by auto
  then have d: "i div ?C = j div ?C" using nth_eq_iff_index_eq [OF assms(3) I(2) J(2)] by simp
  have n: "unat (of_nat (x mod ?k) :: u32) = x mod ?k" for x
    by (rule unat_of_nat_eq) (use mod_less_divisor [OF k, of x] unsigned_less [of "vol_sec_per_clus g", where ?'a = nat] in simp)
  have "(of_nat (i div 512 mod ?k) :: u32) = of_nat (j div 512 mod ?k)"
    using assms(6) d by (simp add: file_lba_def)
  then have "i div 512 mod ?k = j div 512 mod ?k" using n by metis
  moreover have "i div 512 div ?k = j div 512 div ?k" using d by (simp add: clus_div)
  ultimately show ?thesis by (metis div_mult_mod_eq)
qed

text \<open>Writing inside one sector of the file.\<close>

lemma file_byte_patch:
  assumes "geo_ok (geo s)" "\<forall>k \<in> set cs. valid_cluster (geo s) k" "distinct cs" "geo t = geo s"
    and "p < length cs * clus_bytes (geo s)" "p mod 512 + length bs \<le> 512" "i < length cs * clus_bytes (geo s)"
    and "\<And>a. a \<noteq> NO_LBA \<Longrightarrow> sec_view t a = (if a = file_lba (geo s) cs p
        then blit (p mod 512) bs (sec_view s (file_lba (geo s) cs p)) else sec_view s a)"
  shows "file_byte t cs i = (if p \<le> i \<and> i < p + length bs then bs ! (i - p) else file_byte s cs i)"
proof -
  let ?l = "file_lba (geo s) cs"
  have v: "sec_view t (?l i) = (if ?l i = ?l p then blit (p mod 512) bs (sec_view s (?l p)) else sec_view s (?l i))"
    using assms(8) file_lba_data(2) [OF assms(1,7,2)] by blast
  have pi: "p = 512 * (p div 512) + p mod 512" "i = 512 * (i div 512) + i mod 512" by simp_all
  show ?thesis
  proof (cases "?l i = ?l p")
    case True
    then have d: "i div 512 = p div 512" using file_lba_inj [OF assms(1-3,7,5)] by simp
    have "p mod 512 \<le> i mod 512 \<and> i mod 512 < p mod 512 + length bs \<longleftrightarrow> p \<le> i \<and> i < p + length bs"
      using pi d by linarith
    moreover have "i mod 512 - p mod 512 = i - p" using pi d by linarith
    ultimately show ?thesis using v True by (simp add: file_byte_def assms(4) blit_def)
  next
    case False
    have "\<not> (p \<le> i \<and> i < p + length bs)"
    proof
      assume a: "p \<le> i \<and> i < p + length bs"
      then have "p mod 512 + (i - p) < 512" using assms(6) by linarith
      from within_sector(3) [OF this, of "geo s" cs] a False show False by simp
    qed
    then show ?thesis using v False by (auto simp: file_byte_def assms(4))
  qed
qed

section \<open>One round\<close>

text \<open>The chain of a file ends with a proper end mark.\<close>

definition file_chain :: "vol \<Rightarrow> u32 \<Rightarrow> u32 list \<Rightarrow> bool" where
  "file_chain s c cs \<longleftrightarrow> dir_chain s c cs \<and> FAT32_EOC \<le> fatv s (last cs)"

text \<open>
  \<open>bs\<close> has been written at position \<open>p\<close>: the chain \<open>cs\<close> has become \<open>cs'\<close> by adding free clusters, the
  bytes of the file are the old ones with \<open>bs\<close> over them, and no other entry or data sector changed.
\<close>

definition written :: "vol \<Rightarrow> u32 list \<Rightarrow> nat \<Rightarrow> bytes \<Rightarrow> vol \<Rightarrow> u32 list \<Rightarrow> bool" where
  "written s cs p bs t cs' \<longleftrightarrow> good_vol t \<and> geo t = geo s \<and> distinct cs' \<and>
     (\<exists>ds. cs' = cs @ ds \<and> (\<forall>k \<in> set ds. fatv s k = FAT32_FREE)) \<and>
     p + length bs \<le> length cs' * clus_bytes (geo s) \<and>
     (\<forall>i. i < length cs * clus_bytes (geo s) \<or> i < p + length bs \<longrightarrow>
        file_byte t cs' i = (if p \<le> i \<and> i < p + length bs then bs ! (i - p) else file_byte s cs i)) \<and>
     (\<forall>k. fat_index (geo s) k \<longrightarrow> k \<notin> set cs' \<longrightarrow> fatv t k = fatv s k) \<and>
     (\<forall>a. a \<noteq> NO_LBA \<longrightarrow> vol_data_lba (geo s) \<le> a \<longrightarrow> a \<notin> dir_sectors (geo s) cs' \<longrightarrow> sec_view t a = sec_view s a)"

lemma dir_sectors_append: "dir_sectors g (cs @ ds) = dir_sectors g cs \<union> dir_sectors g ds"
  by (auto simp: dir_sectors_def)

lemma written_trans:
  assumes "written s cs p bs t cs'" "written t cs' (p + length bs) bs' u cs''"
    and "\<forall>k \<in> set cs''. fat_index (geo s) k"
  shows "written s cs p (bs @ bs') u cs''"
proof -
  let ?C = "clus_bytes (geo s)"
  note A = assms(1) [unfolded written_def] and B = assms(2) [unfolded written_def]
  have g: "geo t = geo s" "geo u = geo s" using A B by simp_all
  obtain ds ds' where ds: "cs' = cs @ ds" "\<forall>k \<in> set ds. fatv s k = FAT32_FREE"
    "cs'' = cs' @ ds'" "\<forall>k \<in> set ds'. fatv t k = FAT32_FREE" using A B by blast
  have fr: "fatv s k = FAT32_FREE" if "k \<in> set ds'" for k
  proof -
    have "k \<notin> set cs'" "fat_index (geo s) k" using that B ds(3) assms(3) by auto
    then have "fatv t k = fatv s k" using A by blast
    with that ds(4) show ?thesis by simp
  qed
  have "file_byte u cs'' i = (if p \<le> i \<and> i < p + length (bs @ bs') then (bs @ bs') ! (i - p) else file_byte s cs i)"
    if i: "i < length cs * ?C \<or> i < p + length (bs @ bs')" for i
  proof (cases "p + length bs \<le> i \<and> i < p + length bs + length bs'")
    case True
    then have "file_byte u cs'' i = bs' ! (i - (p + length bs))" using B g by simp
    moreover have "i - p - length bs = i - (p + length bs)" "\<not> i - p < length bs" using True by linarith+
    ultimately show ?thesis using True by (simp add: nth_append)
  next
    case False
    have le: "length cs * ?C \<le> length cs' * ?C" using ds(1) by simp
    have i': "i < length cs * ?C \<or> i < p + length bs" using i False by auto
    then have i'': "i < length cs' * ?C \<or> i < p + length bs + length bs'" using less_le_trans [OF _ le, of i] by linarith
    have "file_byte u cs'' i = file_byte t cs' i" using B g i'' False by auto
    also have "\<dots> = (if p \<le> i \<and> i < p + length bs then bs ! (i - p) else file_byte s cs i)"
      using A i' by blast
    finally show ?thesis using False by (auto simp: nth_append)
  qed
  moreover have "fatv u k = fatv s k" if "fat_index (geo s) k" "k \<notin> set cs''" for k
    using A B that ds(3) g by auto
  moreover have "sec_view u a = sec_view s a"
    if "a \<noteq> NO_LBA" "vol_data_lba (geo s) \<le> a" "a \<notin> dir_sectors (geo s) cs''" for a
    using A B that ds(3) g by (auto simp: dir_sectors_append)
  moreover have "\<exists>ds. cs'' = cs @ ds \<and> (\<forall>k \<in> set ds. fatv s k = FAT32_FREE)"
    using ds fr by (intro exI [of _ "ds @ ds'"]) auto
  ultimately show ?thesis using B g unfolding written_def by (auto simp: add.assoc)
qed

text \<open>The write cursor: behind a full cluster it is still on that cluster.\<close>

definition clus_at :: "geometry \<Rightarrow> nat \<Rightarrow> nat" where
  "clus_at g p = (if p > 0 \<and> p mod clus_bytes g = 0 then p div clus_bytes g - 1 else p div clus_bytes g)"

definition write_on :: "vol \<Rightarrow> nat \<Rightarrow> u32 list \<Rightarrow> nat \<Rightarrow> bool" where
  "write_on s fd cs p \<longleftrightarrow> fd < length (fds s) \<and> unat (fd_pos (fds s ! fd)) = p \<and>
     clus_at (geo s) p < length cs \<and> fd_cur_cluster (fds s ! fd) = cs ! clus_at (geo s) p"

definition no_free :: "vol \<Rightarrow> bool" where
  "no_free s \<longleftrightarrow> (\<forall>k. valid_cluster (geo s) k \<longrightarrow> fatv s k \<noteq> FAT32_FREE)"

text \<open>\<open>t\<close> is \<open>s\<close> up to disk and descriptor \<open>fd\<close>, whose changing fields are the three of a transfer.\<close>

definition same_file :: "fat32_fd_t \<Rightarrow> fat32_fd_t \<Rightarrow> bool" where
  "same_file f h \<longleftrightarrow> fd_open h = fd_open f \<and> fd_write h = fd_write f \<and> fd_cluster h = fd_cluster f \<and>
     fd_dir_cluster h = fd_dir_cluster f \<and> fd_dir_lba h = fd_dir_lba f \<and> fd_dir_offset h = fd_dir_offset f"

definition fd_moved :: "nat \<Rightarrow> vol \<Rightarrow> vol \<Rightarrow> bool" where
  "fd_moved fd s t \<longleftrightarrow> same_vol (upd_fd fd (\<lambda>_. fds t ! fd) s) t \<and> same_file (fds s ! fd) (fds t ! fd)"

lemma written_refl:
  assumes "good_vol s" "distinct cs" "p \<le> length cs * clus_bytes (geo s)"
  shows "written s cs p [] s cs"
  using assms by (auto simp: written_def)

lemma file_chain_free:
  assumes "file_chain s c cs" "fatv s k = FAT32_FREE"
  shows "k \<notin> set cs"
proof
  assume "k \<in> set cs"
  then obtain i where i: "i < length cs" "cs ! i = k" by (auto simp: in_set_conv_nth)
  have ch: "chain (fatv s) c cs" "cs \<noteq> []" using assms(1) by (simp_all add: file_chain_def dir_chain_def)
  show False
  proof (cases "Suc i < length cs")
    case True
    then show False using chain_next [OF ch(1) True] i(2) assms(2) by auto
  next
    case False
    then have "i = length cs - 1" using i(1) by linarith
    then have "k = last cs" using i ch(2) by (simp add: last_conv_nth)
    then show False using assms by (simp add: file_chain_def)
  qed
qed

lemma chain_snoc:
  assumes "chain f c cs" "cs \<noteq> []" "\<forall>k \<in> set cs. h k = (if k = last cs then d else f k)" "distinct cs"
    and "2 \<le> d" "d < FAT32_EOC" "h d < 2 \<or> FAT32_EOC \<le> h d"
  shows "chain h c (cs @ [d])"
  using assms(1-4)
proof (induction cs arbitrary: c)
  case (Cons x xs)
  show ?case
  proof (cases "xs = []")
    case True
    then show ?thesis using Cons.prems assms(5-7) by auto
  next
    case False
    then have "last xs \<in> set xs" by simp
    then have "x \<noteq> last xs" using Cons.prems(4) by auto
    then have "h x = f x" using Cons.prems(3) False by simp
    moreover have "chain h (f x) (xs @ [d])"
      by (rule Cons.IH) (use Cons.prems False in auto)
    ultimately show ?thesis using Cons.prems(1) by simp
  qed
qed simp

text \<open>Extending a file by a cluster.\<close>

lemma alloc_extends:
  assumes "good_vol s" "file_chain s c cs" "fat_alloc (last cs) s = (d, t)" "p \<le> length cs * clus_bytes (geo s)"
  shows "same_vol s t" "d = 0 \<Longrightarrow> no_free t \<and> good_vol t \<and> same_view s t"
    "d \<noteq> 0 \<Longrightarrow> written s cs p [] t (cs @ [d]) \<and> file_chain t c (cs @ [d])"
proof -
  note G = good_volD [OF assms(1)]
  have ch: "chain (fatv s) c cs" "cs \<noteq> []" "\<forall>k \<in> set cs. valid_cluster (geo s) k" "FAT32_EOC \<le> fatv s (last cs)"
    using assms(2) by (simp_all add: file_chain_def dir_chain_def)
  have l: "valid_cluster (geo s) (last cs)" using ch(2,3) by simp
  then have l0: "last cs \<noteq> 0" by (auto simp: valid_cluster_def)
  have pre: "last cs = 0 \<or> fat_index (geo s) (last cs) \<and> fatv s (last cs) \<noteq> FAT32_FREE"
    using valid_fat_index [OF l] ch(4) by auto
  note A = fat_alloc_spec [OF assms(1) pre assms(3)]
  show sv: "same_vol s t" using A by simp
  have g: "geo t = geo s" by (rule same_vol_geo [OF sv])
  show "no_free t \<and> good_vol t \<and> same_view s t" if "d = 0"
    using A that same_view_fatv [of s t] G(3) g sv by (auto simp: no_free_def valid_fat_index)
  show "written s cs p [] t (cs @ [d]) \<and> file_chain t c (cs @ [d])" if "d \<noteq> 0"
  proof -
    have al: "allocated (last cs) d s t" and gt: "good_vol t" using A that by auto
    note al = al [unfolded allocated_def]
    have vd: "valid_cluster (geo s) d" and fd: "fatv s d = FAT32_FREE" using al by auto
    have dn: "d \<notin> set cs" by (rule file_chain_free [OF assms(2) fd])
    have ds: "distinct cs" by (rule chain_distinct [OF ch(1)])
    have ft: "fatv t k = (if k = d then FAT_MASK else if k = last cs then d else fatv s k)" if "fat_index (geo s) k" for k
      using al that l0 by simp
    have "\<forall>k \<in> set cs. fatv t k = (if k = last cs then d else fatv s k)"
      using ft ch(3) dn by (auto simp: valid_fat_index)
    then have "chain (fatv t) c (cs @ [d])"
      using chain_snoc [OF ch(1,2) _ ds, of "fatv t" d] valid_links [OF G(3) vd] ft [OF valid_fat_index [OF vd]]
      by (simp add: not_less not_le)
    then have fc: "file_chain t c (cs @ [d])"
      using ch(3) vd ft [OF valid_fat_index [OF vd]] g by (simp add: file_chain_def dir_chain_def)
    have old: "file_byte t (cs @ [d]) i = file_byte s cs i" if i: "i < length cs * clus_bytes (geo s)" for i
    proof -
      note I = file_lba_in [OF G(3) i]
      have e: "file_lba (geo s) (cs @ [d]) i = file_lba (geo s) cs i" using I(2) by (simp add: file_lba_def nth_append)
      have "valid_cluster (geo s) (cs ! (i div clus_bytes (geo s)))" "cs ! (i div clus_bytes (geo s)) \<noteq> d"
        using ch(3) I(2) dn nth_mem by auto
      then have "file_lba (geo s) cs i \<notin> cluster_sectors (geo s) d"
        using cluster_sectors_disjoint [OF G(3) _ vd] I(1) by auto
      then have "sec_view t (file_lba (geo s) cs i) = sec_view s (file_lba (geo s) cs i)"
        using al file_lba_data [OF G(3) i ch(3)] by blast
      then show ?thesis by (simp add: file_byte_def g e)
    qed
    have fr: "sec_view t a = sec_view s a"
      if "a \<noteq> NO_LBA" "vol_data_lba (geo s) \<le> a" "a \<notin> dir_sectors (geo s) (cs @ [d])" for a
      using al that by (auto simp: dir_sectors_def)
    have "written s cs p [] t (cs @ [d])"
      unfolding written_def
    proof (intro conjI allI impI)
      show "\<exists>ds. cs @ [d] = cs @ ds \<and> (\<forall>k \<in> set ds. fatv s k = FAT32_FREE)"
        using fd by (intro exI [of _ "[d]"]) simp
      show "p + length [] \<le> length (cs @ [d]) * clus_bytes (geo s)" using assms(4) by simp
      show "fatv t k = fatv s k" if "fat_index (geo s) k" "k \<notin> set (cs @ [d])" for k
      proof -
        have "k \<noteq> last cs" "k \<noteq> d" using that(2) ch(2) by auto
        then show ?thesis using ft [OF that(1)] by simp
      qed
      fix i assume "i < length cs * clus_bytes (geo s) \<or> i < p + length ([] :: bytes)"
      then have "i < length cs * clus_bytes (geo s)" using assms(4) by auto
      then show "file_byte t (cs @ [d]) i = (if p \<le> i \<and> i < p + length ([] :: bytes) then [] ! (i - p) else file_byte s cs i)"
        using old by auto
    qed (use gt g ds dn fr in auto)
    with fc show ?thesis by simp
  qed
qed

text \<open>Moving to the next cluster at a boundary, with a new cluster at the end of the chain.\<close>

lemma same_view_written:
  assumes "same_view s t" "same_vol s t" "good_vol s" "good_vol t" "file_chain s c cs" "p \<le> length cs * clus_bytes (geo s)"
  shows "written s cs p [] t cs" "file_chain t c cs"
proof -
  note G = good_volD(3) [OF assms(3)] and g = same_vol_geo [OF assms(2)]
  have dc: "dir_chain s c cs" using assms(5) by (simp add: file_chain_def)
  note V = dir_chain_view(1) [OF assms(1-3) dc] and F = same_view_fatv [OF assms(1,2) G]
  have ne: "cs \<noteq> []" and vc: "\<forall>k \<in> set cs. valid_cluster (geo s) k" and ch: "chain (fatv s) c cs"
    using dc by (simp_all add: dir_chain_def)
  have "fatv t (last cs) = fatv s (last cs)" using F vc ne by (simp add: valid_fat_index)
  then show "file_chain t c cs" using V assms(5) by (simp add: file_chain_def)
  have "file_byte t cs i = file_byte s cs i" if "i < length cs * clus_bytes (geo s)" for i
    using file_lba_data(2) [OF G that vc] assms(1) by (simp add: file_byte_def g same_view_def)
  then show "written s cs p [] t cs"
    using assms(1,4,6) g chain_distinct [OF ch] F by (auto simp: written_def same_view_def)
qed

lemma same_vol_moved: "same_vol s t \<Longrightarrow> fd_moved fd s t"
  by (simp add: fd_moved_def same_vol_def same_file_def) (simp add: upd_fd_def)

lemma fd_moved_trans: "fd_moved fd s t \<Longrightarrow> fd_moved fd t u \<Longrightarrow> fd_moved fd s u"
  by (simp add: fd_moved_def same_file_def same_vol_def) (simp add: upd_fd_def, metis list_update_overwrite)

lemma upd_fd_moved:
  "fd < length (fds s) \<Longrightarrow> same_file (fds s ! fd) (h (fds s ! fd)) \<Longrightarrow> fd_moved fd s (upd_fd fd h s)"
  by (simp add: fd_moved_def same_vol_def) (simp add: upd_fd_def)

lemma fd_movedD: "fd_moved fd s t \<Longrightarrow> geo t = geo s \<and> length (fds t) = length (fds s) \<and> same_file (fds s ! fd) (fds t ! fd)"
  by (simp add: fd_moved_def same_vol_def) (simp add: upd_fd_def, metis length_list_update)

lemma written_upd_fd [simp]:
  "written s cs p bs (upd_fd fd h t) cs' = written s cs p bs t cs'"
  "written (upd_fd fd h s) cs p bs t cs' = written s cs p bs t cs'"
  by (simp_all add: written_def)

lemma file_chain_upd_fd [simp]: "file_chain (upd_fd fd h s) c cs = file_chain s c cs"
  by (simp add: file_chain_def dir_chain_def)

lemma no_free_upd_fd [simp]: "no_free (upd_fd fd h s) = no_free s"
  by (simp add: no_free_def)

lemma write_advance_at:
  assumes "good_vol s" "spc_ok (geo s)" "file_chain s c cs" "write_on s fd cs p" "p \<le> length cs * clus_bytes (geo s)"
    and "write_advance fd (fd_pos (fds s ! fd) mod (vol_sec_per_clus (geo s) * 512)) s = (go, t)"
  shows "fd_moved fd s t \<and> fd_pos (fds t ! fd) = fd_pos (fds s ! fd) \<and> fd_size (fds t ! fd) = fd_size (fds s ! fd) \<and>
    (if go then \<exists>cs'. written s cs p [] t cs' \<and> file_chain t c cs' \<and>
        fd_cur_cluster (fds t ! fd) = cs' ! (p div clus_bytes (geo s)) \<and> p div clus_bytes (geo s) < length cs'
     else p = length cs * clus_bytes (geo s) \<and> fds t ! fd = fds s ! fd \<and> no_free t \<and> written s cs p [] t cs \<and> file_chain t c cs)"
proof -
  let ?C = "clus_bytes (geo s)" and ?f = "fds s ! fd"
  note G = good_volD(3) [OF assms(1)]
  have fd: "fd < length (fds s)" and pos: "unat (fd_pos ?f) = p" and ix: "clus_at (geo s) p < length cs"
    and cur: "fd_cur_cluster ?f = cs ! clus_at (geo s) p" using assms(4) by (simp_all add: write_on_def)
  have ch: "chain (fatv s) c cs" "cs \<noteq> []" "\<forall>k \<in> set cs. valid_cluster (geo s) k" "FAT32_EOC \<le> fatv s (last cs)"
    using assms(3) by (simp_all add: file_chain_def dir_chain_def)
  have z: "fd_pos ?f mod (vol_sec_per_clus (geo s) * 512) = 0 \<and> fd_pos ?f > 0 \<longleftrightarrow> p mod ?C = 0 \<and> p > 0"
    using pos_split(3) [OF assms(2) pos] pos by (auto simp: word_less_nat_alt)
  have same: "same_file f (f\<lparr>fd_cur_cluster := d\<rparr>)" for f d by (simp add: same_file_def)
  show ?thesis
  proof (cases "p mod ?C = 0 \<and> p > 0")
    case False
    then have "go" "t = s" using assms(6) z by (auto simp: write_advance_def Let_def)
    moreover have "clus_at (geo s) p = p div ?C" using False by (auto simp: clus_at_def)
    ultimately show ?thesis
      using written_refl [OF assms(1) chain_distinct [OF ch(1)] assms(5)] assms(3) cur ix same_vol_moved [of s s fd] by auto
  next
    case True
    then have at: "clus_at (geo s) p = p div ?C - 1" "0 < p div ?C"
      by (auto simp: clus_at_def)
    then have sc: "Suc (clus_at (geo s) p) = p div ?C" by simp
    have v: "valid_cluster (geo s) (fd_cur_cluster ?f)" using ch(3) cur ix by simp
    obtain s1 where s1: "fat_get (fd_cur_cluster ?f) s = (fatv s (fd_cur_cluster ?f), s1)" "reads_only s s1"
      by (rule fat_getO [OF assms(1) valid_fat_index [OF v]])
    have r1: "same_view s s1" "same_vol s s1" "good_vol s1" using s1(2) by (simp_all add: reads_only_def)
    note W1 = same_view_written [OF r1(1,2) assms(1) r1(3) assms(3,5)]
    have f1: "fds s1 = fds s" "geo s1 = geo s" using r1(2) by (simp_all add: same_vol_def)
    show ?thesis
    proof (cases "p div ?C < length cs")
      case True
      then have nx: "fatv s (fd_cur_cluster ?f) = cs ! (p div ?C)"
        using chain_next [OF ch(1), of "clus_at (geo s) p"] sc cur by simp
      have "valid_cluster (geo s) (cs ! (p div ?C))" using ch(3) True by simp
      then have "go" "t = upd_fd fd (\<lambda>f. f\<lparr>fd_cur_cluster := cs ! (p div ?C)\<rparr>) s1"
        using assms(6) z \<open>p mod ?C = 0 \<and> p > 0\<close> s1(1) nx valid_links [OF G] by (auto simp: write_advance_def Let_def)
      then show ?thesis
        using W1 True fd f1 fd_moved_trans [OF same_vol_moved [OF r1(2)] upd_fd_moved [of fd s1]] same by auto
    next
      case False
      then have "clus_at (geo s) p = length cs - 1" using ix sc by simp
      then have last: "fd_cur_cluster ?f = last cs" using cur ch(2) by (simp add: last_conv_nth)
      obtain d s2 where al: "fat_alloc (last cs) s1 = (d, s2)" by fastforce
      have pc: "p \<le> length cs * clus_bytes (geo s1)" using assms(5) f1(2) by simp
      note A = alloc_extends [OF r1(3) W1(2) al pc]
      have f2: "fds s2 = fds s" "geo s2 = geo s" using A(1) f1 by (simp_all add: same_vol_def)
      note m2 = fd_moved_trans [OF same_vol_moved [OF r1(2)] same_vol_moved [OF A(1), of fd]]
      have step: "write_advance fd (fd_pos ?f mod (vol_sec_per_clus (geo s) * 512)) s
          = (if d = 0 then (False, s2) else (True, upd_fd fd (\<lambda>f. f\<lparr>fd_cur_cluster := d\<rparr>) s2))"
        using z \<open>p mod ?C = 0 \<and> p > 0\<close> s1(1) ch(4) al unfolding last by (simp add: write_advance_def Let_def last)
      show ?thesis
      proof (cases "d = 0")
        case True
        then have t: "\<not> go" "t = s2" using assms(6) step by auto
        have sv: "same_view s s2" using A(2) [OF True] same_view_trans [OF r1(1)] by blast
        note W2 = same_view_written [OF sv same_vol_trans [OF r1(2) A(1)] assms(1) _ assms(3,5)]
        have "p div ?C = length cs" using \<open>\<not> p div ?C < length cs\<close> ix sc by simp
        then have "p = length cs * ?C" using \<open>p mod ?C = 0 \<and> p > 0\<close> by (metis mod_0_imp_dvd dvd_div_mult_self)
        then show ?thesis using t m2 f2 A(2) [OF True] W2 by simp
      next
        case False
        then have t: "go" "t = upd_fd fd (\<lambda>f. f\<lparr>fd_cur_cluster := d\<rparr>) s2" using assms(6) step by auto
        have W: "written s1 cs p [] s2 (cs @ [d])" and fc: "file_chain s2 c (cs @ [d])" using A(3) [OF False] by simp_all
        have "\<forall>k \<in> set (cs @ [d]). fat_index (geo s) k"
          using fc f2(2) valid_fat_index by (simp add: file_chain_def dir_chain_def)
        from written_trans [OF W1(1) _ this, of "[]" s2] W
        have "written s cs p [] s2 (cs @ [d])" by simp
        moreover have "p div ?C = length cs" using \<open>\<not> p div ?C < length cs\<close> ix sc by simp
        moreover have "fd_moved fd s t"
          using fd_moved_trans [OF m2 upd_fd_moved [of fd s2]] fd f2(1) same t(2) by simp
        ultimately show ?thesis using t fc fd f2 by auto
      qed
    qed
  qed
qed

lemma room_in_cluster:
  assumes "spc_ok g" "p div clus_bytes g < length cs" "p mod 512 + n \<le> 512"
  shows "p + n \<le> length cs * clus_bytes g"
proof -
  let ?C = "clus_bytes g"
  have "p div ?C * ?C + p mod ?C = p" "(p div ?C + 1) * ?C = p div ?C * ?C + ?C" by simp_all
  moreover have "(p div ?C + 1) * ?C \<le> length cs * ?C" by (rule mult_le_mono1) (use assms(2) in simp)
  ultimately show ?thesis using sector_in_cluster [OF assms(1,3)] by linarith
qed

lemma write_put:
  assumes "good_vol s" "spc_ok (geo s)" "file_chain s c cs" "p div clus_bytes (geo s) < length cs"
    and "0 < length bs" "p mod 512 + length bs \<le> 512"
  obtains s1 t where "sec_read (file_lba (geo s) cs p) s = (True, s1)" "cache_patch (p mod 512) bs s1 = (True, t)"
    "same_vol s t" "written s cs p bs t cs" "file_chain t c cs"
proof -
  note G = good_volD [OF assms(1)]
  let ?lba = "file_lba (geo s) cs p"
  have dc: "dir_chain s c cs" and vc: "\<forall>k \<in> set cs. valid_cluster (geo s) k" and ch: "chain (fatv s) c cs"
    using assms(3) by (simp_all add: file_chain_def dir_chain_def)
  have le: "p + length bs \<le> length cs * clus_bytes (geo s)" by (rule room_in_cluster [OF assms(2,4,6)])
  then have p: "p < length cs * clus_bytes (geo s)" using assms(5) by linarith
  note L = file_lba_data [OF G(3) p vc]
  have inA: "?lba \<in> dir_sectors (geo s) cs"
    using file_lba_in(1) [OF G(3) p] nth_mem [OF assms(4)] unfolding dir_sectors_def by (rule UN_I [rotated])
  obtain s1 where s1: "sec_read ?lba s = (True, s1)" "reads_only s s1" "sec_cache s1 = sec_view s ?lba" "sec_cache_lba s1 = ?lba"
    by (rule sec_readO [OF assms(1) L(2)])
  have r: "same_vol s s1" "same_view s s1" "io_ok s1" using s1(2) by (simp_all add: reads_only_def good_vol_def)
  obtain ok t where t: "cache_patch (p mod 512) bs s1 = (ok, t)" by fastforce
  note P = cache_patch_view [OF t r(3) L(2) [folded s1(4)]]
  have sv: "same_vol s t" using same_vol_trans [OF r(1) P(3)] .
  have gt: "geo t = geo s" by (rule same_vol_geo [OF sv])
  have gv: "good_vol t" using P(2) same_vol_io [OF sv G(1)] G(3) gt by (simp add: good_vol_def)
  have v: "sec_view t a = (if a = ?lba then blit (p mod 512) bs (sec_view s ?lba) else sec_view s a)" if "a \<noteq> NO_LBA" for a
    using P(5) s1(3,4) r(2) that by (simp add: same_view_def)
  have w: "writes_in (dir_sectors (geo s) cs) s t"
    by (rule sectors_writes_in [OF assms(1) sv gv inA L(1)]) (use v in simp)
  note FB = file_byte_patch [OF G(3) vc chain_distinct [OF ch] gt p assms(6) _ v]
  have "written s cs p bs t cs"
    using gv gt chain_distinct [OF ch] le w FB by (auto simp: written_def writes_in_def)
  moreover have "file_chain t c cs"
    using writes_in_chain [OF w dc] w assms(3) vc by (auto simp: file_chain_def writes_in_def dir_chain_def valid_fat_index)
  ultimately show ?thesis using that s1(1) t P(1) sv by simp
qed

section \<open>The loop\<close>

lemma clus_at_advance:
  "spc_ok g \<Longrightarrow> 0 < n \<Longrightarrow> p mod 512 + n \<le> 512 \<Longrightarrow> clus_at g (p + n) = p div clus_bytes g"
  using pos_advance [of g n p] by (simp add: clus_at_def)

text \<open>What a round leaves: \<open>bs\<close> written, the descriptor moved behind it.\<close>

definition wrote_to :: "nat \<Rightarrow> u32 \<Rightarrow> vol \<Rightarrow> u32 list \<Rightarrow> nat \<Rightarrow> bytes \<Rightarrow> vol \<Rightarrow> u32 list \<Rightarrow> bool" where
  "wrote_to fd c s cs p bs t cs' \<longleftrightarrow> written s cs p bs t cs' \<and> file_chain t c cs' \<and> fd_moved fd s t \<and>
     unat (fd_pos (fds t ! fd)) = p + length bs \<and>
     unat (fd_size (fds t ! fd)) = max (unat (fd_size (fds s ! fd))) (p + length bs)"

lemma wrote_to_trans:
  assumes "wrote_to fd c s cs p bs t cs'" "wrote_to fd c t cs' (p + length bs) bs' u cs''"
  shows "wrote_to fd c s cs p (bs @ bs') u cs''"
proof -
  have "geo u = geo s" using assms by (simp add: wrote_to_def written_def)
  then have "\<forall>k \<in> set cs''. fat_index (geo s) k"
    using assms(2) valid_fat_index by (simp add: wrote_to_def file_chain_def dir_chain_def)
  then show ?thesis
    using assms written_trans [of s cs p bs t cs' bs' u cs''] fd_moved_trans [of fd s t u]
    by (simp add: wrote_to_def add.assoc)
qed

lemma write_round:
  assumes "good_vol s" "spc_ok (geo s)" "file_chain s c cs" "write_on s fd cs p" "p \<le> length cs * clus_bytes (geo s)"
    and "p \<le> unat (fd_size (fds s ! fd))" "wr < len" "unat len \<le> length buf" "p + (unat len - unat wr) < 2 ^ 32"
    and n: "n = min (512 - p mod 512) (unat len - unat wr)"
  shows "(\<exists>t. write_loop fd buf len (vol_sec_per_clus (geo s) * 512) wr s = Some (wr, t) \<and>
      p = length cs * clus_bytes (geo s) \<and> no_free t \<and> wrote_to fd c s cs p [] t cs \<and> write_on t fd cs p) \<or>
    (\<exists>t cs'. write_loop fd buf len (vol_sec_per_clus (geo s) * 512) wr s
        = write_loop fd buf len (vol_sec_per_clus (geo s) * 512) (wr + of_nat n) t \<and>
      wrote_to fd c s cs p (take n (drop (unat wr) buf)) t cs' \<and> write_on t fd cs' (p + n))"
proof -
  let ?f = "fds s ! fd" and ?csz = "vol_sec_per_clus (geo s) * 512" and ?C = "clus_bytes (geo s)"
  have fd: "fd < length (fds s)" and pos: "unat (fd_pos ?f) = p" using assms(4) by (simp_all add: write_on_def)
  note S = pos_split [OF assms(2) pos]
  note R = round_words [OF S(1) assms(7), folded n]
  have can: "min (512 - fd_pos ?f mod ?csz mod 512) (len - wr) = of_nat n"
    using R(1) by (metis of_nat_unat ucast_id)
  have un: "unat (of_nat n :: u32) = n" using R(1) can by simp
  obtain go s0 where ad: "write_advance fd (fd_pos ?f mod ?csz) s = (go, s0)" by fastforce
  note A = write_advance_at [OF assms(1-5) ad]
  have mv: "fd_moved fd s s0" and f0: "fd_pos (fds s0 ! fd) = fd_pos ?f" "fd_size (fds s0 ! fd) = fd_size ?f" using A by simp_all
  note unf = assms(7) spc_bytes(2) [OF assms(2)] ad can un
  show ?thesis
  proof (cases go)
    case False
    then have W: "written s cs p [] s0 cs" "file_chain s0 c cs" using A by metis+
    then have "wrote_to fd c s cs p [] s0 cs" using mv f0 pos assms(6) by (simp add: wrote_to_def)
    moreover have "write_on s0 fd cs p"
      using False A assms(4) fd_movedD [OF mv] by (simp add: write_on_def)
    moreover have "write_loop fd buf len ?csz wr s = Some (wr, s0)"
      using unf False by (subst write_loop.simps) (simp add: Let_def)
    ultimately show ?thesis using False A by auto
  next
    case True
    then obtain cs' where W: "written s cs p [] s0 cs'" "file_chain s0 c cs'"
      "fd_cur_cluster (fds s0 ! fd) = cs' ! (p div ?C)" "p div ?C < length cs'" using A by auto
    have g0: "good_vol s0" "geo s0 = geo s" using W(1) by (simp_all add: written_def)
    let ?bs = "take n (drop (unat wr) buf)"
    have lb: "length ?bs = n" using n assms(8) by simp
    have lba: "cluster_to_lba (geo s0) (fd_cur_cluster (fds s0 ! fd)) + (fd_pos ?f mod ?csz) div 512 = file_lba (geo s0) cs' p"
      using S(2) W(3) g0(2) by (simp add: file_lba_def)
    have pre: "spc_ok (geo s0)" "p div clus_bytes (geo s0) < length cs'" "0 < length ?bs" "p mod 512 + length ?bs \<le> 512"
      using assms(2) g0(2) W(4) R(2,4) lb by simp_all
    obtain s1 s2 where P: "sec_read (file_lba (geo s0) cs' p) s0 = (True, s1)" "cache_patch (p mod 512) ?bs s1 = (True, s2)"
      "same_vol s0 s2" "written s0 cs' p ?bs s2 cs'" "file_chain s2 c cs'"
      by (rule write_put [OF g0(1) pre(1) W(2) pre(2-4)])
    define h :: "fat32_fd_t \<Rightarrow> fat32_fd_t" where "h = (\<lambda>f. f\<lparr>fd_pos := fd_pos f + of_nat n,
                       fd_size := (if fd_pos f + of_nat n > fd_size f then fd_pos f + of_nat n else fd_size f)\<rparr>)"
    define t where "t = upd_fd fd h s2"
    have f2: "fds s2 = fds s0" "geo s2 = geo s0" using P(3) by (simp_all add: same_vol_def)
    have fd2: "fd < length (fds s2)" using fd_movedD [OF mv] fd f2 by simp
    have ht: "fds t ! fd = h (fds s0 ! fd)" using fd2 f2(1) by (simp add: t_def)
    have "n \<le> unat len - unat wr" by (simp add: n)
    then have "p + n < 2 ^ 32" using assms(9) by linarith
    then have pn: "unat (fd_pos ?f + of_nat n) = p + n"
      using pos un by (simp add: unat_word_ariths)
    have "\<forall>k \<in> set cs'. fat_index (geo s) k"
      using W(2) g0(2) valid_fat_index by (simp add: file_chain_def dir_chain_def)
    then have w: "written s cs p ?bs t cs'"
      using written_trans [OF W(1), of ?bs s2 cs'] P(4) by (simp add: t_def)
    have "fd_moved fd s t"
      using fd_moved_trans [OF mv fd_moved_trans [OF same_vol_moved [OF P(3)] upd_fd_moved [OF fd2, of h]]]
      by (simp add: t_def h_def same_file_def)
    moreover have "unat (fd_pos (fds t ! fd)) = p + n" using ht pn f0 by (simp add: h_def)
    moreover have "unat (fd_size (fds t ! fd)) = max (unat (fd_size ?f)) (p + n)"
      using ht pn f0 by (auto simp: h_def word_less_nat_alt)
    ultimately have "wrote_to fd c s cs p ?bs t cs'" using w P(5) lb by (simp add: wrote_to_def t_def)
    moreover have "write_on t fd cs' (p + n)"
      using ht pn f0 W(3,4) fd2 f2 g0(2) clus_at_advance [OF assms(2) R(2,4)] by (simp add: write_on_def h_def t_def)
    moreover have "write_loop fd buf len ?csz wr s = write_loop fd buf len ?csz (wr + of_nat n) t"
      using unf True lba P(1,2) S(1) by (subst write_loop.simps) (simp add: Let_def t_def h_def)
    ultimately show ?thesis by blast
  qed
qed

lemma write_loop_at:
  assumes "good_vol s" "spc_ok (geo s)" "file_chain s c cs" "write_on s fd cs p" "p \<le> length cs * clus_bytes (geo s)"
    and "p \<le> unat (fd_size (fds s ! fd))" "wr \<le> len" "unat len \<le> length buf" "p + (unat len - unat wr) < 2 ^ 32"
  shows "\<exists>w t cs'. write_loop fd buf len (vol_sec_per_clus (geo s) * 512) wr s = Some (w, t) \<and>
    wr \<le> w \<and> w \<le> len \<and> (w = len \<or> no_free t \<and> p + (unat w - unat wr) = length cs' * clus_bytes (geo s)) \<and>
    write_on t fd cs' (p + (unat w - unat wr)) \<and>
    wrote_to fd c s cs p (take (unat w - unat wr) (drop (unat wr) buf)) t cs'"
  using assms
proof (induction "unat len - unat wr" arbitrary: s cs p wr rule: less_induct)
  case less
  let ?csz = "vol_sec_per_clus (geo s) * 512"
  show ?case
  proof (cases "wr < len")
    case False
    then have "wr = len" using less.prems(7) by simp
    moreover have "unat (fd_pos (fds s ! fd)) = p" using less.prems(4) by (simp add: write_on_def)
    moreover have "distinct cs" using less.prems(3) chain_distinct by (auto simp: file_chain_def dir_chain_def)
    ultimately show ?thesis
      using written_refl [OF less.prems(1) _ less.prems(5)] less.prems(3,4,6) same_vol_moved [of s s fd]
      by (intro exI [of _ len] exI [of _ s] exI [of _ cs], subst write_loop.simps) (simp add: wrote_to_def)
  next
    case True
    define n where "n = min (512 - p mod 512) (unat len - unat wr)"
    have nle: "n \<le> unat len - unat wr" by (simp add: n_def)
    have n0: "0 < n"
      using True mod_less_divisor [of 512 p] by (simp add: n_def word_less_nat_alt)
    have len: "unat len < 2 ^ 32" "unat wr < unat len"
      using True unsigned_less [of len, where ?'a = nat] by (simp_all add: word_less_nat_alt)
    have un: "unat (wr + of_nat n) = unat wr + n"
      using nle len by (simp add: unat_word_ariths unat_of_nat_eq)
    from write_round [OF less.prems(1-6) True less.prems(8,9) n_def]
    consider t where "write_loop fd buf len ?csz wr s = Some (wr, t)" "p = length cs * clus_bytes (geo s)" "no_free t" "wrote_to fd c s cs p [] t cs"
        "write_on t fd cs p"
      | t cs' where "write_loop fd buf len ?csz wr s = write_loop fd buf len ?csz (wr + of_nat n) t"
        "wrote_to fd c s cs p (take n (drop (unat wr) buf)) t cs'" "write_on t fd cs' (p + n)" by blast
    then show ?thesis
    proof cases
      case 1
      then show ?thesis using True by (intro exI [of _ wr] exI [of _ t] exI [of _ cs]) simp
    next
      case 2
      let ?bs = "take n (drop (unat wr) buf)"
      have lb: "length ?bs = n" using nle less.prems(8) by simp
      have T: "good_vol t" "geo t = geo s" "file_chain t c cs'" "p + n \<le> length cs' * clus_bytes (geo s)"
        "p + n \<le> unat (fd_size (fds t ! fd))"
        using 2(2) lb by (simp_all add: wrote_to_def written_def)
      have "\<exists>w u cs''. write_loop fd buf len (vol_sec_per_clus (geo t) * 512) (wr + of_nat n) t = Some (w, u) \<and>
        wr + of_nat n \<le> w \<and> w \<le> len \<and>
        (w = len \<or> no_free u \<and> p + n + (unat w - unat (wr + of_nat n)) = length cs'' * clus_bytes (geo t)) \<and>
        write_on u fd cs'' (p + n + (unat w - unat (wr + of_nat n))) \<and>
        wrote_to fd c t cs' (p + n) (take (unat w - unat (wr + of_nat n)) (drop (unat (wr + of_nat n)) buf)) u cs''"
      proof (rule less.hyps [OF _ T(1) _ T(3) 2(3)])
        show "unat len - unat (wr + of_nat n) < unat len - unat wr" using un n0 len nle by linarith
        show "wr + of_nat n \<le> len" using un nle len by (simp add: word_le_nat_alt)
        show "p + n + (unat len - unat (wr + of_nat n)) < 2 ^ 32" using un nle less.prems(9) by linarith
      qed (use T less.prems(2,8) in simp_all)
      then obtain w u cs'' where W: "write_loop fd buf len ?csz (wr + of_nat n) t = Some (w, u)"
        "wr + of_nat n \<le> w" "w \<le> len"
        "w = len \<or> no_free u \<and> p + n + (unat w - unat (wr + of_nat n)) = length cs'' * clus_bytes (geo s)"
        "write_on u fd cs'' (p + n + (unat w - unat (wr + of_nat n)))"
        "wrote_to fd c t cs' (p + length ?bs) (take (unat w - unat wr - n) (drop n (drop (unat wr) buf))) u cs''"
        using T(2) un lb by (auto simp: add.commute)
      have sum: "p + n + (unat w - unat (wr + of_nat n)) = p + (unat w - unat wr)"
        using W(2) un by (simp add: word_le_nat_alt)
      have wle: "unat wr + n \<le> unat w" using W(2) un by (simp add: word_le_nat_alt)
      then have "take (unat w - unat wr) (drop (unat wr) buf)
          = ?bs @ take (unat w - unat wr - n) (drop n (drop (unat wr) buf))"
        using take_add [of n "unat w - unat wr - n" "drop (unat wr) buf"] by simp
      moreover have "wr \<le> w" using wle by (simp add: word_le_nat_alt)
      ultimately show ?thesis
        using 2(1) W(1,3) W(4,5) [unfolded sum] wrote_to_trans [OF 2(2) W(6)]
        by (intro exI [of _ w] exI [of _ u] exI [of _ cs'']) simp
    qed
  qed
qed

section \<open>The public operation\<close>

lemma fat32_write_at:
  assumes "good_vol s" "spc_ok (geo s)" "file_at s fd cs" "fd_write (fds s ! fd)"
    and "file_chain s (fd_cluster (fds s ! fd)) cs" "write_on s fd cs p" "p \<le> unat (fd_size (fds s ! fd))"
    and "unat len \<le> length buf" "p + unat len < 2 ^ 32"
  shows "\<exists>w t cs'. fat32_write (int fd) buf len s = Some (Inr w, t) \<and> w \<le> len \<and>
    (w = len \<or> no_free t \<and> p + unat w = length cs' * clus_bytes (geo s)) \<and> write_on t fd cs' (p + unat w) \<and>
    wrote_to fd (fd_cluster (fds s ! fd)) s cs p (take (unat w) buf) t cs'"
proof -
  have f: "fd < FAT32_MAX_FD" "fd_open (fds s ! fd)" "unat (fd_size (fds s ! fd)) \<le> length cs * clus_bytes (geo s)"
    using assms(3) by (simp_all add: file_at_def)
  have p: "p \<le> length cs * clus_bytes (geo s)" using f(3) assms(7) by linarith
  have b: "p + (unat len - unat (0 :: u32)) < 2 ^ 32" using assms(9) by simp
  obtain w t cs' where "write_loop fd buf len (vol_sec_per_clus (geo s) * 512) 0 s = Some (w, t)"
    "w \<le> len" "w = len \<or> no_free t \<and> p + unat w = length cs' * clus_bytes (geo s)" "write_on t fd cs' (p + unat w)"
    "wrote_to fd (fd_cluster (fds s ! fd)) s cs p (take (unat w) buf) t cs'"
    using write_loop_at [OF assms(1,2,5,6) p assms(7) word_zero_le assms(8) b] by auto
  then show ?thesis using f(1,2) assms(4) by (auto simp: fat32_write_def fd_valid_def)
qed

text \<open>After a write the descriptor still describes a file with room for its size.\<close>

lemma wrote_file_at:
  assumes "wrote_to fd (fd_cluster (fds s ! fd)) s cs p bs t cs'" "file_at s fd cs"
  shows "good_vol t" "geo t = geo s" "file_at t fd cs'" "unat (fd_pos (fds t ! fd)) = p + length bs"
    "p + length bs \<le> unat (fd_size (fds t ! fd))" "p + length bs \<le> length cs' * clus_bytes (geo s)"
proof -
  have w: "written s cs p bs t cs'" "file_chain t (fd_cluster (fds s ! fd)) cs'" "fd_moved fd s t"
    and sz: "unat (fd_size (fds t ! fd)) = max (unat (fd_size (fds s ! fd))) (p + length bs)"
    using assms(1) by (simp_all add: wrote_to_def)
  show "good_vol t" and g: "geo t = geo s" and le: "p + length bs \<le> length cs' * clus_bytes (geo s)"
    using w(1) by (simp_all add: written_def)
  show "unat (fd_pos (fds t ! fd)) = p + length bs" "p + length bs \<le> unat (fd_size (fds t ! fd))"
    using assms(1) sz by (simp_all add: wrote_to_def)
  have "length cs * clus_bytes (geo s) \<le> length cs' * clus_bytes (geo s)"
    using w(1) by (auto simp: written_def)
  moreover have "unat (fd_size (fds s ! fd)) \<le> length cs * clus_bytes (geo s)"
    using assms(2) by (simp add: file_at_def)
  ultimately have "unat (fd_size (fds t ! fd)) \<le> length cs' * clus_bytes (geo s)"
    using sz le by linarith
  then show "file_at t fd cs'"
    using assms(2) fd_movedD [OF w(3)] w(2) g by (simp add: file_at_def same_file_def file_chain_def)
qed

lemma written_read_back:
  assumes "written s cs p bs t cs'"
  shows "file_bytes t cs' p (length bs) = bs"
  by (rule nth_equalityI) (use assms in \<open>auto simp: file_bytes_def written_def\<close>)

lemma write_seek_read:
  assumes "spc_ok (geo s)" "file_at s fd cs" "unat pos = p" "unat n = length bs" "bs \<noteq> []"
    and "wrote_to fd (fd_cluster (fds s ! fd)) s cs p bs t cs'"
  shows "\<exists>u v. fat32_seek (int fd) pos t = Some (FAT32_OK, u) \<and> fat32_read (int fd) n u = Some (Inr bs, v)"
proof -
  note T = wrote_file_at [OF assms(6,2)]
  have C: "0 < clus_bytes (geo s)" by (rule spc_bytes(3) [OF assms(1)])
  have "p < length cs' * clus_bytes (geo s)" using T(6) assms(5) by (cases bs) auto
  then have ix: "unat pos div clus_bytes (geo t) < length cs'"
    using C assms(3) T(2) by (simp add: less_mult_imp_div_less)
  have le: "pos \<le> fd_size (fds t ! fd)" using T(5) assms(3) by (simp add: word_le_nat_alt)
  have "spc_ok (geo t)" using assms(1) T(2) by simp
  from seek_then_read [OF T(1) this T(3) le ix, of n]
  obtain u v where "fat32_seek (int fd) pos t = Some (FAT32_OK, u)"
    "fat32_read (int fd) n u = Some (Inr (file_bytes t cs' p (min (length bs) (unat (fd_size (fds t ! fd)) - p))), v)"
    using assms(3,4) by auto
  moreover have "min (length bs) (unat (fd_size (fds t ! fd)) - p) = length bs" using T(5) by simp
  ultimately show ?thesis using written_read_back assms(6) by (auto simp: wrote_to_def)
qed

text \<open>
  A write at a boundary that the descriptor reached by seeking: the cursor is already on the next
  cluster, and the loop moves it once more.
\<close>

lemma write_after_seek:
  assumes "good_vol s" "spc_ok (geo s)" "file_at s fd cs" "file_chain s (fd_cluster (fds s ! fd)) cs"
    and "fd_write (fds s ! fd)" "fd_pos (fds s ! fd) = pos" "fd_cur_cluster (fds s ! fd) = cs ! k" "unat pos = k * clus_bytes (geo s)"
    and "0 < k" "Suc k < length cs" "0 < len" "unat len \<le> 512" "unat len \<le> length buf" "unat pos + unat len < 2 ^ 32"
  shows "\<exists>t. fat32_write (int fd) buf len s = Some (Inr len, t) \<and> file_chain t (fd_cluster (fds s ! fd)) cs \<and>
    written s cs (Suc k * clus_bytes (geo s)) (take (unat len) buf) t cs"
proof -
  let ?f = "fds s ! fd" and ?csz = "vol_sec_per_clus (geo s) * 512" and ?C = "clus_bytes (geo s)"
  let ?bs = "take (unat len) buf"
  note G = good_volD(3) [OF assms(1)]
  have fd: "fd < length (fds s)" "fd < FAT32_MAX_FD" "fd_open ?f" using assms(3) by (simp_all add: file_at_def)
  have ch: "chain (fatv s) (fd_cluster ?f) cs" "\<forall>c \<in> set cs. valid_cluster (geo s) c"
    using assms(4) by (simp_all add: file_chain_def dir_chain_def)
  note C = spc_bytes [OF assms(2)]
  have z: "pos mod ?csz = 0" "0 < pos"
    using pos_split(3) [OF assms(2) assms(8)] assms(8,9) C(3) by (auto simp: word_less_nat_alt)
  have v: "valid_cluster (geo s) (cs ! k)" "valid_cluster (geo s) (cs ! Suc k)" using ch(2) assms(10) by simp_all
  obtain s1 where s1: "fat_get (cs ! k) s = (fatv s (cs ! k), s1)" "reads_only s s1"
    by (rule fat_getO [OF assms(1) valid_fat_index [OF v(1)]])
  have nx: "fatv s (cs ! k) = cs ! Suc k" using chain_next [OF ch(1) assms(10)] by simp
  have r1: "same_view s s1" "same_vol s s1" "good_vol s1" using s1(2) by (simp_all add: reads_only_def)
  define s0 where "s0 = upd_fd fd (\<lambda>f. f\<lparr>fd_cur_cluster := cs ! Suc k\<rparr>) s1"
  have ad: "write_advance fd (pos mod ?csz) s = (True, s0)"
    using z s1(1) nx valid_links [OF G v(2)] assms(6,7) by (simp add: write_advance_def Let_def s0_def)
  have f1: "fds s1 = fds s" "geo s1 = geo s" using r1(2) by (simp_all add: same_vol_def)
  have k: "Suc k * ?C \<le> length cs * ?C" by (rule mult_le_mono1) (use assms(10) in simp)
  note W1 = same_view_written [OF r1(1,2) assms(1) r1(3) assms(4) k]
  let ?p = "Suc k * ?C"
  have p0: "?p mod 512 = 0" "?p div ?C = Suc k" using C(3) by (simp_all add: clus_bytes_def mod_mult_left_eq)
  have "?p div 512 mod unat (vol_sec_per_clus (geo s)) = 0" by (simp add: clus_bytes_def mult.left_commute)
  then have lba: "file_lba (geo s) cs ?p = cluster_to_lba (geo s) (cs ! Suc k)" using p0(2) by (simp add: file_lba_def)
  have S0: "good_vol s0" "geo s0 = geo s" "file_chain s0 (fd_cluster ?f) cs" using r1(3) f1 W1(2) by (simp_all add: s0_def)
  have lb: "0 < length ?bs" "?p mod 512 + length ?bs \<le> 512" "length ?bs = unat len"
    using assms(11-13) p0 by (simp_all add: word_less_nat_alt)
  have pre: "spc_ok (geo s0)" "?p div clus_bytes (geo s0) < length cs" using assms(2,10) S0(2) p0(2) by simp_all
  obtain s2 t where P: "sec_read (file_lba (geo s0) cs ?p) s0 = (True, s2)" "cache_patch (?p mod 512) ?bs s2 = (True, t)"
    "same_vol s0 t" "written s0 cs ?p ?bs t cs" "file_chain t (fd_cluster ?f) cs"
    by (rule write_put [OF S0(1) pre(1) S0(3) pre(2) lb(1,2)])
  have can: "min 512 len = len" using assms(12) by (simp add: min_absorb2 word_le_nat_alt)
  define h :: "fat32_fd_t \<Rightarrow> fat32_fd_t" where "h = (\<lambda>f. f\<lparr>fd_pos := fd_pos f + len,
      fd_size := (if fd_pos f + len > fd_size f then fd_pos f + len else fd_size f)\<rparr>)"
  have "write_loop fd buf len ?csz 0 s = write_loop fd buf len ?csz len (upd_fd fd h t)"
    using assms(6,11) C(2) ad z P(1,2) p0(1) S0(2) lba can fd f1
    by (subst write_loop.simps) (simp add: Let_def h_def s0_def)
  also have "\<dots> = Some (len, upd_fd fd h t)" by (subst write_loop.simps) simp
  finally have "fat32_write (int fd) buf len s = Some (Inr len, upd_fd fd h t)"
    using fd assms(5) by (simp add: fat32_write_def fd_valid_def)
  moreover have "written s cs ?p ?bs t cs"
    using written_trans [OF W1(1), of ?bs t cs] P(4) ch(2) valid_fat_index by (simp add: s0_def)
  ultimately show ?thesis using P(5) by auto
qed

lemma seek_write_skips:
  assumes "good_vol s" "spc_ok (geo s)" "file_at s fd cs" "file_chain s (fd_cluster (fds s ! fd)) cs"
    and "fd_write (fds s ! fd)" "pos \<le> fd_size (fds s ! fd)" "unat pos = k * clus_bytes (geo s)"
    and "0 < k" "Suc k < length cs" "0 < len" "unat len \<le> 512" "unat len \<le> length buf" "unat pos + unat len < 2 ^ 32"
  shows "\<exists>t u. fat32_seek (int fd) pos s = Some (FAT32_OK, t) \<and> fat32_write (int fd) buf len t = Some (Inr len, u) \<and>
    file_bytes u cs (unat pos) (unat len) = file_bytes s cs (unat pos) (unat len) \<and>
    file_bytes u cs (unat pos + clus_bytes (geo s)) (unat len) = take (unat len) buf"
proof -
  let ?f = "fds s ! fd" and ?C = "clus_bytes (geo s)"
  have o: "fd < FAT32_MAX_FD" "fd_open ?f" "fd < length (fds s)" "dir_chain s (fd_cluster ?f) cs"
    using assms(3) by (simp_all add: file_at_def)
  have C: "0 < ?C" by (rule spc_bytes(3) [OF assms(2)])
  have k: "unat pos div ?C = k" using assms(7) C by simp
  obtain t where t: "fat32_seek (int fd) pos s = Some (FAT32_OK, t)"
    "fd_reads fd (?f\<lparr>fd_pos := pos, fd_cur_cluster := cs ! k\<rparr>) s t"
    using fat32_seek_at [OF assms(1,2) o(1-4) assms(6)] assms(9) k by auto
  note D = fd_readsD [OF t(2) assms(1)]
  have f: "fds t ! fd = ?f\<lparr>fd_pos := pos, fd_cur_cluster := cs ! k\<rparr>" by (rule D(4) [OF o(3)])
  have dc: "dir_chain t (fd_cluster ?f) cs" by (rule fd_reads_chain [OF t(2) assms(1) o(4)])
  have "fat_index (geo s) (last cs)" using o(4) valid_fat_index by (simp add: dir_chain_def)
  then have fc: "file_chain t (fd_cluster ?f) cs" using dc D(6) assms(4) by (simp add: file_chain_def)
  have "file_at t fd cs" using assms(3) f D(2,3) dc by (simp add: file_at_def)
  then obtain u where u: "fat32_write (int fd) buf len t = Some (Inr len, u)"
    "written t cs (Suc k * ?C) (take (unat len) buf) u cs"
    using write_after_seek [OF D(1) _ _ _ _ _ _ _ assms(8-13), of fd] assms(2,5,7) f fc D(2) by auto
  have lb: "length (take (unat len) buf) = unat len" using assms(12) by simp
  have e: "unat pos + ?C = Suc k * ?C" using assms(7) by simp
  have w: "file_byte u cs i = file_byte t cs i" if "i < Suc k * ?C" for i
  proof -
    have "Suc k * ?C \<le> length cs * ?C" by (rule mult_le_mono1) (use assms(9) in simp)
    then show ?thesis using u(2) that D(2) by (auto simp: written_def)
  qed
  have "unat len \<le> ?C" using assms(2,11) by (simp add: clus_bytes_def spc_ok_def)
  then have i: "unat pos + i < Suc k * ?C" if "i < unat len" for i using that e by linarith
  have "file_bytes u cs (unat pos) (unat len) = file_bytes t cs (unat pos) (unat len)"
    using w i by (simp add: file_bytes_def)
  moreover have "file_bytes t cs (unat pos) (unat len) = file_bytes s cs (unat pos) (unat len)"
  proof (rule fd_reads_bytes [OF t(2) assms(1) o(4)])
    have "Suc k * ?C \<le> length cs * ?C" by (rule mult_le_mono1) (use assms(9) in simp)
    then show "unat pos + unat len \<le> length cs * ?C" using e \<open>unat len \<le> ?C\<close> by linarith
  qed
  moreover have "file_bytes u cs (unat pos + ?C) (unat len) = take (unat len) buf"
    unfolding e using written_read_back [OF u(2)] lb by simp
  ultimately show ?thesis using t(1) u(1) by metis
qed

section \<open>Properties\<close>

text \<open>C8: Reading returns the contents. On a working drive, after \<open>fat32_seek\<close> to any position of an open
  file inside its chain, \<open>fat32_read\<close> returns exactly the bytes of the file from there, as many as
  were asked for or are left, whatever sector and cluster boundaries lie between, and the loop ends.\<close>

theorem fat32_seek_read:
  assumes "good_vol s" "spc_ok (geo s)" "file_at s fd cs" "pos \<le> fd_size (fds s ! fd)"
    and "unat pos div clus_bytes (geo s) < length cs"
  shows "\<exists>t u. fat32_seek (int fd) pos s = Some (FAT32_OK, t) \<and> open_file t fd cs (unat pos) \<and> good_vol t \<and>
    fat32_read (int fd) len t =
      Some (Inr (file_bytes s cs (unat pos) (min (unat len) (unat (fd_size (fds s ! fd)) - unat pos))), u)"
  by (rule seek_then_read [OF assms])

text \<open>A volume with one open file of 700 bytes in the clusters 3 and 5.\<close>

definition file_sample :: vol where
  "file_sample = sample\<lparr>fds := \<lparr>fd_open = True, fd_write = True, fd_cluster = 3, fd_dir_cluster = 2, fd_dir_lba = 3,
     fd_dir_offset = 0, fd_size = 700, fd_pos = 0, fd_cur_cluster = 3\<rparr> # replicate 15 fd_zero\<rparr>"

lemma file_sample_simps [simp]:
  "geo file_sample = sample_geo" "length (fds file_sample) = 16"
  "fds file_sample ! 0 = \<lparr>fd_open = True, fd_write = True, fd_cluster = 3,
     fd_dir_cluster = 2, fd_dir_lba = 3, fd_dir_offset = 0, fd_size = 700, fd_pos = 0, fd_cur_cluster = 3\<rparr>"
  by (simp_all add: file_sample_def sample_vol_def)

lemma file_sample_view [simp]: "sec_view file_sample = sec_view sample" "fatv file_sample = fatv sample" "good_vol file_sample"
proof -
  show v: "sec_view file_sample = sec_view sample" by (simp add: file_sample_def sec_view_def fun_eq_iff)
  show "fatv file_sample = fatv sample" by (simp add: fatv_def fat_copy_def fun_eq_iff v)
  have "good_vol file_sample = good_vol sample"
    by (simp add: good_vol_def io_ok_def cache_ok_def) (simp add: file_sample_def)
  then show "good_vol file_sample" using good_sample_vol by simp
qed

lemma clus_bytes_sample [simp]: "clus_bytes sample_geo = 512" "spc_ok sample_geo"
  by (simp_all add: clus_bytes_def spc_ok_def sample_geo_def)

lemma file_sample_at: "file_at file_sample 0 [3, 5]" "file_chain file_sample 3 [3, 5]"
  by (simp_all add: file_at_def file_chain_def dir_chain_def valid_cluster_def fatv_sample)

theorem fat32_seek_read_witness:
  "\<exists>t u. fat32_seek (int 0) 500 file_sample = Some (FAT32_OK, t) \<and> open_file t 0 [3, 5] (unat (500 :: u32)) \<and> good_vol t \<and>
    fat32_read (int 0) 100 t = Some (Inr (file_bytes file_sample [3, 5] (unat (500 :: u32))
      (min (unat (100 :: u32)) (unat (fd_size (fds file_sample ! 0)) - unat (500 :: u32)))), u)"
  by (rule fat32_seek_read [OF _ _ file_sample_at(1)]) simp_all

text \<open>C6: Writing replaces exactly the bytes of the request. On a working drive, with the cursor where
  opening a file or the write before left it (on the cluster of the last byte before the position, which
  is not behind the end of the file; after a seek to a cluster boundary this fails, see C27), and
  as long as the position does not pass 2^32, \<open>fat32_write\<close> returns, it has written the whole request or a prefix of it because no cluster is free, the chain has only been
  extended, by clusters that were free, the bytes of the file are the old ones with the written ones
  over them, position and size have moved accordingly, so that the next write continues there (a prefix
  ends with the last byte of the last cluster), and no other FAT entry and no data sector
  outside the file has changed.\<close>

theorem fat32_write_contents:
  assumes "good_vol s" "spc_ok (geo s)" "file_at s fd cs" "fd_write (fds s ! fd)"
    and "file_chain s (fd_cluster (fds s ! fd)) cs" "write_on s fd cs p" "p \<le> unat (fd_size (fds s ! fd))"
    and "unat len \<le> length buf" "p + unat len < 2 ^ 32"
  shows "\<exists>w t cs'. fat32_write (int fd) buf len s = Some (Inr w, t) \<and> w \<le> len \<and>
    (w = len \<or> no_free t \<and> p + unat w = length cs' * clus_bytes (geo s)) \<and> write_on t fd cs' (p + unat w) \<and>
    wrote_to fd (fd_cluster (fds s ! fd)) s cs p (take (unat w) buf) t cs'"
  by (rule fat32_write_at [OF assms])

theorem fat32_write_contents_witness:
  "\<exists>w t cs'. fat32_write (int 0) (replicate 1200 0x41) 1200 file_sample = Some (Inr w, t) \<and> w \<le> 1200 \<and>
    (w = 1200 \<or> no_free t \<and> 0 + unat w = length cs' * clus_bytes (geo file_sample)) \<and> write_on t 0 cs' (0 + unat w) \<and>
    wrote_to 0 (fd_cluster (fds file_sample ! 0)) file_sample [3, 5] 0 (take (unat w) (replicate 1200 0x41)) t cs'"
  by (rule fat32_write_contents [OF _ _ file_sample_at(1), where p = 0])
    (simp_all add: file_sample_at(2) write_on_def clus_at_def)

text \<open>C7: What was written is read back. After \<open>fat32_write\<close> of a request at any position the write cursor
  can have, seeking back to that position and reading as many bytes as were written returns those
  bytes, across sectors, clusters and the clusters the write has added.\<close>

theorem fat32_write_read_back:
  assumes "good_vol s" "spc_ok (geo s)" "file_at s fd cs" "fd_write (fds s ! fd)"
    and "file_chain s (fd_cluster (fds s ! fd)) cs" "write_on s fd cs p" "p \<le> unat (fd_size (fds s ! fd))"
    and "unat len \<le> length buf" "p + unat len < 2 ^ 32"
  shows "\<exists>w t. fat32_write (int fd) buf len s = Some (Inr w, t) \<and> (w = len \<or> no_free t) \<and>
    (w \<noteq> 0 \<longrightarrow> (\<exists>u v. fat32_seek (int fd) (fd_pos (fds s ! fd)) t = Some (FAT32_OK, u) \<and>
       fat32_read (int fd) w u = Some (Inr (take (unat w) buf), v)))"
proof -
  obtain w t cs' where W: "fat32_write (int fd) buf len s = Some (Inr w, t)" "w \<le> len" "w = len \<or> no_free t"
    "wrote_to fd (fd_cluster (fds s ! fd)) s cs p (take (unat w) buf) t cs'"
    using fat32_write_at [OF assms] by blast
  have n: "unat w = length (take (unat w) buf)" using W(2) assms(8) by (simp add: word_le_nat_alt)
  have p: "unat (fd_pos (fds s ! fd)) = p" using assms(6) by (simp add: write_on_def)
  have "\<exists>u v. fat32_seek (int fd) (fd_pos (fds s ! fd)) t = Some (FAT32_OK, u) \<and>
       fat32_read (int fd) w u = Some (Inr (take (unat w) buf), v)" if "w \<noteq> 0"
  proof (rule write_seek_read [OF assms(2,3) p n _ W(4)])
    have "0 < unat w" using that by (simp add: unat_gt_0)
    then have "0 < length (take (unat w) buf)" using n by linarith
    then show "take (unat w) buf \<noteq> []" by blast
  qed
  with W(1,3) show ?thesis by blast
qed

theorem fat32_write_read_back_witness:
  "\<exists>w t. fat32_write (int 0) (replicate 1200 0x41) 1200 file_sample = Some (Inr w, t) \<and> (w = 1200 \<or> no_free t) \<and>
    (w \<noteq> 0 \<longrightarrow> (\<exists>u v. fat32_seek (int 0) (fd_pos (fds file_sample ! 0)) t = Some (FAT32_OK, u) \<and>
       fat32_read (int 0) w u = Some (Inr (take (unat w) (replicate 1200 0x41)), v)))"
  by (rule fat32_write_read_back [OF _ _ file_sample_at(1), where p = 0])
    (simp_all add: file_sample_at(2) write_on_def clus_at_def)

text \<open>C27: A write after a seek to a cluster boundary goes to the wrong cluster. \<open>fat32_seek\<close> to the start of
  a cluster other than the first and the last leaves the cursor on that cluster, \<open>fat32_write\<close> takes it
  for the one before and moves on: the bytes at the position stay as they were and the data lands one
  cluster further.\<close>

theorem seek_write_skips_cluster:
  assumes "good_vol s" "spc_ok (geo s)" "file_at s fd cs" "file_chain s (fd_cluster (fds s ! fd)) cs"
    and "fd_write (fds s ! fd)" "pos \<le> fd_size (fds s ! fd)" "unat pos = k * clus_bytes (geo s)"
    and "0 < k" "Suc k < length cs" "0 < len" "unat len \<le> 512" "unat len \<le> length buf" "unat pos + unat len < 2 ^ 32"
  shows "\<exists>t u. fat32_seek (int fd) pos s = Some (FAT32_OK, t) \<and> fat32_write (int fd) buf len t = Some (Inr len, u) \<and>
    file_bytes u cs (unat pos) (unat len) = file_bytes s cs (unat pos) (unat len) \<and>
    file_bytes u cs (unat pos + clus_bytes (geo s)) (unat len) = take (unat len) buf"
  by (rule seek_write_skips [OF assms])

text \<open>The same file on the chain 3, 5, 4.\<close>

definition long_disk :: "u32 \<Rightarrow> sector" where
  "long_disk = (\<lambda>_. zero_sector)(1 := sector_of (concat (map le32
     [0x0FFFFFF8, 0x0FFFFFFF, 0x0FFFFFFF, 5, 0x0FFFFFFF, 4])))"

definition long_sample :: vol where
  "long_sample = (sample_vol long_disk)\<lparr>fds := \<lparr>fd_open = True, fd_write = True, fd_cluster = 3, fd_dir_cluster = 2,
     fd_dir_lba = 3, fd_dir_offset = 0, fd_size = 1500, fd_pos = 0, fd_cur_cluster = 3\<rparr> # replicate 15 fd_zero\<rparr>"

lemma long_sample_simps:
  "geo long_sample = sample_geo" "good_vol long_sample" "length (fds long_sample) = 16"
  "fatv long_sample 3 = 5" "fatv long_sample 5 = 4" "fatv long_sample 4 = FAT_MASK"
  by (simp_all add: long_sample_def good_vol_def io_ok_def cache_ok_def geo_ok_def fatv_def fat_copy_def copy_lba_def
      sec_view_def get32_def long_disk_def fat_offset_in_sector_def sample_defs of_le32_def)

theorem seek_write_skips_cluster_witness:
  "\<exists>t u. fat32_seek (int 0) 512 long_sample = Some (FAT32_OK, t) \<and> fat32_write (int 0) [1, 2] 2 t = Some (Inr 2, u) \<and>
    file_bytes u [3, 5, 4] (unat (512 :: u32)) (unat (2 :: u32)) = file_bytes long_sample [3, 5, 4] (unat (512 :: u32)) (unat (2 :: u32)) \<and>
    file_bytes u [3, 5, 4] (unat (512 :: u32) + clus_bytes (geo long_sample)) (unat (2 :: u32)) = take (unat (2 :: u32)) [1, 2]"
proof (rule seek_write_skips_cluster [where k = 1])
  have c: "dir_chain long_sample 3 [3, 5, 4]" by (simp add: dir_chain_def valid_cluster_def long_sample_simps)
  have f: "fds long_sample ! 0 = \<lparr>fd_open = True, fd_write = True, fd_cluster = 3, fd_dir_cluster = 2,
     fd_dir_lba = 3, fd_dir_offset = 0, fd_size = 1500, fd_pos = 0, fd_cur_cluster = 3\<rparr>" by (simp add: long_sample_def)
  show "file_at long_sample 0 [3, 5, 4]" using c f by (simp add: file_at_def long_sample_simps)
  show "file_chain long_sample (fd_cluster (fds long_sample ! 0)) [3, 5, 4]"
    using c f by (simp add: file_chain_def long_sample_simps)
  show "fd_write (fds long_sample ! 0)" "512 \<le> fd_size (fds long_sample ! 0)" using f by simp_all
qed (simp_all add: long_sample_simps)

end
