(* ===== verification/Fat_Whole.thy ===== *)
theory Fat_Whole
  imports Fat_Paths Fat_File_Write
begin

text \<open>
  Whole files: what opening, reading, writing and closing (\<open>src/fs/fat32_ops.c\<close> 157-350) do to the
  directory entry and the cluster chain of a file together, up to \<open>fat32_read_file\<close> and \<open>fat32_write_file\<close>.
\<close>

section \<open>Files\<close>

text \<open>The lookup of \<open>name\<close> in the directory \<open>ds\<close> ends at slot \<open>k\<close>, a file on the clusters \<open>cs\<close>.\<close>

definition file_in :: "vol \<Rightarrow> u32 list \<Rightarrow> bytes \<Rightarrow> nat \<Rightarrow> u32 list \<Rightarrow> bool" where
  "file_in s ds name k cs \<longleftrightarrow> k < slot_count (geo s) ds \<and> e_attr (slot s ds k) AND ATTR_DIR = 0 \<and>
     (\<exists>st. lookup name s ds = Some (slot s ds k, pos_at (geo s) ds 0 k, st)) \<and>
     chain (fatv s) (entry_cluster (unpack_dir (slot s ds k))) cs \<and> (\<forall>c \<in> set cs. valid_cluster (geo s) c)"

text \<open>It holds the bytes \<open>dat\<close>.\<close>

definition stores :: "vol \<Rightarrow> u32 list \<Rightarrow> bytes \<Rightarrow> nat \<Rightarrow> u32 list \<Rightarrow> bytes \<Rightarrow> bool" where
  "stores s ds name k cs dat \<longleftrightarrow> file_in s ds name k cs \<and>
     unat (de_file_size (unpack_dir (slot s ds k))) = length dat \<and>
     length dat \<le> length cs * clus_bytes (geo s) \<and> file_bytes s cs 0 (length dat) = dat"

text \<open>The path leads to the directory \<open>ds\<close>, which is in order, through directories apart from it.\<close>

definition reaches :: "vol \<Rightarrow> bytes \<Rightarrow> u32 list list \<Rightarrow> u32 \<Rightarrow> u32 list \<Rightarrow> bytes \<Rightarrow> bool" where
  "reaches s path css d ds name \<longleftrightarrow> path_dir s path css d name \<and> dir_ok s d ds \<and>
     (\<forall>c \<in> \<Union> (set (map set css)). c \<notin> set ds \<and> fatv s c \<noteq> FAT32_FREE)"

lemma changes_slot:
  assumes "changes K s t" "good_vol s" "dir_chain s c cs" "set cs \<inter> K = {}" "k < slot_count (geo s) cs"
  shows "slot t cs k = slot s cs k"
  using changes_dir(2) [OF assms(1-4)] changesD(2) [OF assms(1)] assms(5) by (metis dir_slots_nth)

lemma changes_bytes:
  assumes "changes K s t" "good_vol s" "\<forall>c \<in> set cs. valid_cluster (geo s) c" "set cs \<inter> K = {}"
    and "p + n \<le> length cs * clus_bytes (geo s)"
  shows "file_bytes t cs p n = file_bytes s cs p n"
proof -
  note G = good_volD(3) [OF assms(2)]
  have "file_byte t cs (p + i) = file_byte s cs (p + i)" if "i < n" for i
  proof -
    have "p + i < length cs * clus_bytes (geo s)" using that assms(5) by linarith
    note I = file_lba_in [OF G this]
    have "cs ! ((p + i) div clus_bytes (geo s)) \<in> set cs" using I(2) by simp
    then have "sec_view t (file_lba (geo s) cs (p + i)) = sec_view s (file_lba (geo s) cs (p + i))"
      using assms(3,4) by (intro changes_sector [OF assms(1,2) _ _ I(1)]) auto
    then show ?thesis by (simp add: file_byte_def changesD(2) [OF assms(1)])
  qed
  then show ?thesis by (simp add: file_bytes_def)
qed

lemma changes_file:
  assumes "changes K s t" "good_vol s" "dir_chain s d ds" "set ds \<inter> K = {}" "set cs \<inter> K = {}"
  shows "file_in s ds name k cs \<Longrightarrow> file_in t ds name k cs"
    "stores s ds name k cs dat \<Longrightarrow> stores t ds name k cs dat"
proof -
  note g = changesD(2) [OF assms(1)] and D = changes_dir [OF assms(1-4)] and S = changes_slot [OF assms(1-4)]
  show fi: "file_in t ds name k cs" if f: "file_in s ds name k cs"
  proof -
    have v: "\<forall>c \<in> set cs. valid_cluster (geo s) c" and k: "k < slot_count (geo s) ds" using f by (simp_all add: file_in_def)
    have "fatv t c = fatv s c" if "c \<in> set cs" for c
    proof -
      have "fat_index (geo s) c" "c \<notin> K" using v assms(5) that valid_fat_index by auto
      then show ?thesis using assms(1) by (simp add: changes_def)
    qed
    then have "chain (fatv t) c cs = chain (fatv s) c cs" for c by (rule chain_cong)
    then show ?thesis using f D(3) S [OF k] by (simp add: file_in_def g)
  qed
  assume st: "stores s ds name k cs dat"
  then have f: "file_in s ds name k cs" by (simp add: stores_def)
  then have v: "\<forall>c \<in> set cs. valid_cluster (geo s) c" and k: "k < slot_count (geo s) ds" by (simp_all add: file_in_def)
  have "file_bytes t cs 0 (length dat) = file_bytes s cs 0 (length dat)"
    by (rule changes_bytes [OF assms(1,2) v assms(5)]) (use st in \<open>simp add: stores_def\<close>)
  then show "stores t ds name k cs dat" using st fi [OF f] S [OF k] by (simp add: stores_def g)
qed

lemma reaches_chain: "reaches s path css d ds name \<Longrightarrow> dir_chain s d ds" "reaches s path css d ds name \<Longrightarrow> path_dir s path css d name"
  by (simp_all add: reaches_def dir_ok_def)

lemma same_vol_upd_fd: "same_vol s t \<Longrightarrow> same_vol (upd_fd fd h s) (upd_fd fd h t)"
  by (simp add: same_vol_def) (simp add: upd_fd_def)

text \<open>Changes that leave the disk alone.\<close>

lemma changes_upd_fd [simp]: "good_vol s \<Longrightarrow> changes K s (upd_fd fd h s)"
  by (simp add: changes_def)

lemma heap_ptr_simps [simp]:
  "sec_view (s\<lparr>heap_ptr := q\<rparr>) = sec_view s" "good_vol (s\<lparr>heap_ptr := q\<rparr>) = good_vol s" "fatv (s\<lparr>heap_ptr := q\<rparr>) = fatv s"
  by (simp_all add: sec_view_def fun_eq_iff good_vol_def io_ok_def cache_ok_def fatv_def fat_copy_def)

lemma changes_heap [simp]: "good_vol s \<Longrightarrow> changes K s (s\<lparr>heap_ptr := q\<rparr>)"
  by (simp add: changes_def)

lemma fd_reads_changes: "fd_reads fd f s t \<Longrightarrow> good_vol s \<Longrightarrow> changes K s t"
  using changes_same [OF changes_upd_fd reads_changes] by (fastforce simp: fd_reads_def)

section \<open>Reading a file\<close>

lemma first_free:
  assumes "first_free_fd s = Some fd"
  shows "fd < FAT32_MAX_FD" "\<not> fd_open (fds s ! fd)"
proof -
  let ?free = "filter (\<lambda>i. \<not> fd_open (fds s ! i)) [0..<FAT32_MAX_FD]"
  have "?free \<noteq> []" "fd = hd ?free" using assms by (auto simp: first_free_fd_def Let_def split: if_splits)
  then have "fd \<in> set ?free" using hd_in_set by metis
  then show "fd < FAT32_MAX_FD" "\<not> fd_open (fds s ! fd)" by auto
qed

lemma open_for_reading:
  assumes "good_vol s" "vol_mounted s" "first_free_fd s = Some fd" "path_dir s path css d name" "dir_chain s d ds"
    and "file_in s ds name k cs"
  shows "\<exists>t. fat32_open path False s = Some (Inr fd, t) \<and>
    fd_reads fd (new_fd False (entry_cluster (unpack_dir (slot s ds k))) d (pos_at (geo s) ds 0 k)
      (de_file_size (unpack_dir (slot s ds k)))) s t"
proof -
  let ?e = "slot s ds k"
  obtain st where L: "lookup name s ds = Some (?e, pos_at (geo s) ds 0 k, st)" "e_attr ?e AND ATTR_DIR = 0"
    using assms(6) by (auto simp: file_in_def)
  obtain t where t: "path_stat path s = Some (Some (unpack_dir ?e, Some (pos_at (geo s) ds 0 k, d)), t)" "reads_only s t"
    using path_stat_at [OF assms(1,4,5)] L(1) by auto
  have "de_attr (unpack_dir ?e) = e_attr ?e" by (simp add: unpack_dir_def)
  then have "fat32_open path False s = Some (Inr fd, upd_fd fd (\<lambda>_. new_fd False (entry_cluster (unpack_dir ?e)) d
      (pos_at (geo s) ds 0 k) (de_file_size (unpack_dir ?e))) t)"
    using assms(2,3) t(1) L(2) by (simp add: fat32_open_def open_existing_def Let_def)
  then show ?thesis 
    using reads_only_fd [OF t(2), of fd "\<lambda>_. new_fd False (entry_cluster (unpack_dir ?e)) d
      (pos_at (geo s) ds 0 k) (de_file_size (unpack_dir ?e))"] by blast
qed

lemma fat32_filesize_at:
  assumes "good_vol s" "path_dir s path css d name" "dir_chain s d ds" "file_in s ds name k cs"
  shows "\<exists>t. fat32_filesize path s = Some (sint (de_file_size (unpack_dir (slot s ds k))), t) \<and> reads_only s t"
proof -
  let ?e = "slot s ds k"
  obtain st where L: "lookup name s ds = Some (?e, pos_at (geo s) ds 0 k, st)" "e_attr ?e AND ATTR_DIR = 0"
    using assms(4) by (auto simp: file_in_def)
  obtain t where t: "path_stat path s = Some (Some (unpack_dir ?e, Some (pos_at (geo s) ds 0 k, d)), t)" "reads_only s t"
    using path_stat_at [OF assms(1-3)] L(1) by auto
  have "de_attr (unpack_dir ?e) = e_attr ?e" by (simp add: unpack_dir_def)
  then show ?thesis using t L(2) by (auto simp: fat32_filesize_def)
qed

text \<open>Reading an open file from its start.\<close>

lemma read_from_start:
  assumes "good_vol s" "spc_ok (geo s)" "fd < FAT32_MAX_FD" "fd < length (fds s)" "fd_open (fds s ! fd)"
    and "fd_pos (fds s ! fd) = 0" "fd_cur_cluster (fds s ! fd) = fd_cluster (fds s ! fd)" "fd_size (fds s ! fd) = n"
    and "chain (fatv s) (fd_cluster (fds s ! fd)) cs" "\<forall>c \<in> set cs. valid_cluster (geo s) c"
    and "unat n \<le> length cs * clus_bytes (geo s)"
  shows "\<exists>f t. fat32_read (int fd) n s = Some (Inr (file_bytes s cs 0 (unat n)), t) \<and> fd_reads fd f s t \<and>
    fd_open f \<and> fd_write f = fd_write (fds s ! fd)"
proof (cases "cs = []")
  case True
  then have "n = 0" using assms(11) by (simp add: unat_eq_0 [symmetric])
  then have "fat32_read (int fd) n s = Some (Inr [], s)"
    using assms(3,5,6,8) by (simp add: fat32_read_def fd_valid_def)
  then show ?thesis using fd_reads_same [OF assms(1), of fd] \<open>n = 0\<close> assms(5) by auto
next
  case False
  have dc: "dir_chain s (fd_cluster (fds s ! fd)) cs" using False assms(9,10) by (simp add: dir_chain_def)
  have "cs ! 0 = fd_cluster (fds s ! fd)" by (rule chain_hd [OF assms(9) False])
  then have op: "open_file s fd cs 0"
    using assms dc False by (simp add: open_file_def file_at_def fd_on_def)
  obtain t e where "fat32_read (int fd) n s = Some (Inr (file_bytes s cs 0 (min (unat n) (unat (fd_size (fds s ! fd)) - 0))), t)"
    "fd_reads fd ((fds s ! fd)\<lparr>fd_pos := fd_pos (fds t ! fd), fd_cur_cluster := e\<rparr>) s t"
    using fat32_read_at [OF assms(1,2) op, of n] by blast
  then show ?thesis using assms(5,8)
    by (intro exI [of _ "(fds s ! fd)\<lparr>fd_pos := fd_pos (fds t ! fd), fd_cur_cluster := e\<rparr>"] exI [of _ t]) simp
qed

lemma close_reading:
  assumes "fd < FAT32_MAX_FD" "fd_open (fds s ! fd)" "\<not> fd_write (fds s ! fd)"
  shows "fat32_close (int fd) s = upd_fd fd (\<lambda>_. fd_zero) s"
  using assms by (simp add: fat32_close_def fd_valid_def)

lemma sint_small: "unat (n :: u32) < 2 ^ 31 \<Longrightarrow> sint n = int (unat n)"
proof -
  assume "unat n < 2 ^ 31"
  then have "int (unat n) < int (2 ^ 31)" by (simp only: of_nat_less_iff)
  then have "uint n < 2 ^ 31" by simp
  then have "signed_take_bit (LENGTH(32) - 1) (uint n) = uint n"
    by (intro signed_take_bit_int_eq_self order_trans [OF _ uint_ge_0]) simp_all
  then show "sint n = int (unat n)" by (simp add: sint_uint)
qed

text \<open>Opening, reading everything and closing: the common part of \<open>fat32_read_file\<close> and \<open>fat32_append_file\<close>.\<close>

lemma open_read_close:
  assumes "good_vol s" "spc_ok (geo s)" "vol_mounted s" "length (fds s) = FAT32_MAX_FD" "first_free_fd s = Some fd"
    and "path_dir s path css d name" "dir_chain s d ds" "stores s ds name k cs dat"
  shows "\<exists>t u. fat32_open path False s = Some (Inr fd, t) \<and> fat32_read (int fd) (of_nat (length dat)) t = Some (Inr dat, u) \<and>
    fd_reads fd fd_zero s (fat32_close (int fd) u)"
proof -
  let ?e = "unpack_dir (slot s ds k)"
  let ?n = "de_file_size ?e"
  have fi: "file_in s ds name k cs" and n: "unat ?n = length dat" "length dat \<le> length cs * clus_bytes (geo s)"
    "file_bytes s cs 0 (length dat) = dat" using assms(8) by (simp_all add: stores_def)
  have on: "(of_nat (length dat) :: u32) = ?n" using n(1) by (metis of_nat_unat ucast_id)
  obtain t where t: "fat32_open path False s = Some (Inr fd, t)"
    "fd_reads fd (new_fd False (entry_cluster ?e) d (pos_at (geo s) ds 0 k) ?n) s t"
    using open_for_reading [OF assms(1,3,5,6,7) fi] by blast
  note F = first_free [OF assms(5)] and E = fd_readsD [OF t(2) assms(1)]
  have fdl: "fd < length (fds s)" using F(1) assms(4) by simp
  have ft: "fds t ! fd = new_fd False (entry_cluster ?e) d (pos_at (geo s) ds 0 k) ?n" by (rule E(4) [OF fdl])
  have c: "changes {} s t" by (rule fd_reads_changes [OF t(2) assms(1)])
  have fit: "file_in t ds name k cs" using changes_file(1) [OF c assms(1,7)] fi by simp
  have slt: "slot t ds k = slot s ds k" using changes_slot [OF c assms(1,7)] fi by (simp add: file_in_def)
  have ch: "chain (fatv t) (entry_cluster ?e) cs" "\<forall>c \<in> set cs. valid_cluster (geo t) c"
    using fit slt by (simp_all add: file_in_def)
  have v: "\<forall>c \<in> set cs. valid_cluster (geo s) c" using fi by (simp add: file_in_def)
  have b: "file_bytes t cs 0 (unat ?n) = dat" using changes_bytes [OF c assms(1) v, of 0 "unat ?n"] n by simp
  have g: "geo t = geo s" by (rule changesD(2) [OF c])
  have "\<exists>f u. fat32_read (int fd) ?n t = Some (Inr (file_bytes t cs 0 (unat ?n)), u) \<and> fd_reads fd f t u \<and>
      fd_open f \<and> fd_write f = fd_write (fds t ! fd)"
    by (rule read_from_start [OF E(1)]) (use assms(2) F(1) fdl E(3) ft ch n g in \<open>simp_all add: new_fd_def\<close>)
  then obtain f u where u: "fat32_read (int fd) ?n t = Some (Inr dat, u)" "fd_reads fd f t u" "fd_open f" "\<not> fd_write f"
    unfolding b ft by (auto simp: new_fd_def)
  have fu: "fds u ! fd = f" by (rule fd_readsD(4) [OF u(2) E(1)]) (use fdl E(3) in simp)
  have cl: "fat32_close (int fd) u = upd_fd fd (\<lambda>_. fd_zero) u"
    by (rule close_reading [OF F(1)]) (use fu u(3,4) in simp_all)
  have "fd_reads fd fd_zero u (upd_fd fd (\<lambda>_. fd_zero) u)"
    using reads_only_fd [OF reads_only_refl [OF fd_readsD(1) [OF u(2) E(1)]], of fd "\<lambda>_. fd_zero"] by simp
  then have "fd_reads fd fd_zero s (fat32_close (int fd) u)"
    unfolding cl using fd_reads_trans [OF t(2) fd_reads_trans [OF u(2)]] by blast
  then show ?thesis using t(1) u(1) on by auto
qed

text \<open>The size is read and the buffer taken from the heap before.\<close>

lemma sized_buffer:
  assumes "good_vol s" "path_dir s path css d name" "dir_chain s d ds" "stores s ds name k cs dat" "length dat < 2 ^ 31"
    and "kmalloc_ptr n (heap_ptr s) = (Some p, q)"
  shows "\<exists>t u. fat32_filesize path s = Some (int (length dat), t) \<and> vol_kmalloc n t = (Some p, u) \<and>
    reads_only (s\<lparr>heap_ptr := q\<rparr>) u"
proof -
  let ?n = "de_file_size (unpack_dir (slot s ds k))"
  have fi: "file_in s ds name k cs" and sz: "unat ?n = length dat" using assms(4) by (simp_all add: stores_def)
  have sn: "sint ?n = int (length dat)" using sint_small [of ?n] sz assms(5) by simp
  obtain t where t: "fat32_filesize path s = Some (sint ?n, t)" "reads_only s t"
    using fat32_filesize_at [OF assms(1-3) fi] by blast
  have "vol_kmalloc n t = (Some p, t\<lparr>heap_ptr := q\<rparr>)"
    using assms(6) t(2) by (simp add: vol_kmalloc_def reads_only_def same_vol_def)
  moreover have "reads_only (s\<lparr>heap_ptr := q\<rparr>) (t\<lparr>heap_ptr := q\<rparr>)"
    using t(2) by (simp add: reads_only_def same_vol_def same_view_def)
  ultimately show ?thesis using t(1) sn by auto
qed

text \<open>What the two steps leave is the same volume for every later operation.\<close>

lemma buffered:
  assumes "good_vol s" "reads_only (s\<lparr>heap_ptr := q\<rparr>) t"
  shows "changes {} s t" "fds t = fds s" "vol_mounted t = vol_mounted s" "vol_readonly t = vol_readonly s"
    "first_free_fd t = first_free_fd s" "heap_ptr t = q"
proof -
  have g: "good_vol (s\<lparr>heap_ptr := q\<rparr>)" using assms(1) by simp
  show "changes {} s t" by (rule changes_same [OF changes_heap [OF assms(1)] reads_changes [OF assms(2) g]])
  show f: "fds t = fds s" "vol_mounted t = vol_mounted s" "vol_readonly t = vol_readonly s" "heap_ptr t = q"
    using assms(2) by (simp_all add: reads_only_def same_vol_def)
  show "first_free_fd t = first_free_fd s" by (simp add: first_free_fd_def f)
qed

lemma read_file_at:
  assumes "good_vol s" "spc_ok (geo s)" "vol_mounted s" "length (fds s) = FAT32_MAX_FD" "first_free_fd s = Some fd"
    and "path_dir s path css d name" "dir_chain s d ds" "stores s ds name k cs dat" "length dat < 2 ^ 31"
    and "kmalloc_ptr (of_nat (length dat) + 1) (heap_ptr s) = (Some p, q)"
  shows "\<exists>t. fat32_read_file path s = Some (Some (dat @ [0], of_nat (length dat)), t) \<and>
    fd_reads fd fd_zero (s\<lparr>heap_ptr := q\<rparr>) t"
proof -
  obtain s1 s2 where s2: "fat32_filesize path s = Some (int (length dat), s1)"
    "vol_kmalloc (of_nat (length dat) + 1) s1 = (Some p, s2)" "reads_only (s\<lparr>heap_ptr := q\<rparr>) s2"
    using sized_buffer [OF assms(1,6-10)] by blast
  note B = buffered [OF assms(1) s2(3)]
  note g2 = changesD [OF B(1)]
  have D: "dir_chain s2 d ds" "stores s2 ds name k cs dat" "path_dir s2 path css d name"
    using changes_dir(1) [OF B(1) assms(1,7)] changes_file(2) [OF B(1) assms(1,7)] path_dir_changes [OF assms(6) B(1) assms(1)] assms(8)
    by simp_all
  obtain s3 s4 where s4: "fat32_open path False s2 = Some (Inr fd, s3)" "fat32_read (int fd) (of_nat (length dat)) s3 = Some (Inr dat, s4)"
    "fd_reads fd fd_zero s2 (fat32_close (int fd) s4)"
    using open_read_close [OF g2(1) _ _ _ _ D(3,1,2), of fd] assms(2-5) g2(2) B(2,3,5) by auto
  have "fat32_read_file path s = Some (Some (dat @ [0], of_nat (length dat)), fat32_close (int fd) s4)"
    using s2(1,2) s4(1,2) by (simp add: fat32_read_file_def)
  moreover have "fd_reads fd fd_zero (s\<lparr>heap_ptr := q\<rparr>) (fat32_close (int fd) s4)"
    using fd_reads_trans [OF reads_only_fd [OF s2(3), of fd id]] s4(3) by (simp add: fd_reads_def upd_fd_def)
  ultimately show ?thesis by blast
qed

section \<open>Opening for writing\<close>

text \<open>
  Descriptor \<open>fd\<close> writes the file on the clusters \<open>cs\<close> whose entry is slot \<open>k\<close> of the directory \<open>ds\<close>.
\<close>

definition writing :: "vol \<Rightarrow> nat \<Rightarrow> u32 \<Rightarrow> u32 list \<Rightarrow> bytes \<Rightarrow> nat \<Rightarrow> u32 list \<Rightarrow> bool" where
  "writing t fd d ds name k cs \<longleftrightarrow> good_vol t \<and> dir_ok t d ds \<and> file_at t fd cs \<and> fd_write (fds t ! fd) \<and>
     file_chain t (fd_cluster (fds t ! fd)) cs \<and> set ds \<inter> set cs = {} \<and>
     fd_dir_lba (fds t ! fd) = slot_lba (geo t) ds k \<and> fd_dir_offset (fds t ! fd) = 32 * of_nat (k mod 16) \<and>
     k < slot_count (geo t) ds \<and> e_attr (slot t ds k) AND ATTR_DIR = 0 \<and>
     (\<exists>st. lookup name t ds = Some (slot t ds k, pos_at (geo t) ds 0 k, st))"

text \<open>What opening leaves: an empty file on the new cluster \<open>new\<close>, the old clusters \<open>cs\<close> given back.\<close>

definition created :: "nat \<Rightarrow> u32 \<Rightarrow> u32 list \<Rightarrow> u32 list \<Rightarrow> bytes \<Rightarrow> vol \<Rightarrow> vol \<Rightarrow> u32 list \<Rightarrow> nat \<Rightarrow> u32 \<Rightarrow> bool" where
  "created fd d ds cs name s t es k new \<longleftrightarrow> writing t fd d (ds @ es) name k [new] \<and>
     fd_size (fds t ! fd) = 0 \<and> fd_pos (fds t ! fd) = 0 \<and> fd_cur_cluster (fds t ! fd) = new \<and>
     same_vol (upd_fd fd (\<lambda>_. fds t ! fd) s) t \<and> changes (insert new (set (ds @ es) \<union> set cs)) s t \<and>
     (\<forall>c \<in> insert new (set es). fatv s c = FAT32_FREE \<or> c \<in> set cs) \<and>
     (\<forall>c \<in> set cs. c \<noteq> new \<longrightarrow> fatv t c = FAT32_FREE) \<and>
     (\<forall>j < slot_count (geo s) ds. \<not> slot_free (slot s ds j) \<longrightarrow> j \<noteq> k \<longrightarrow> slot t (ds @ es) j = slot s ds j) \<and>
     others s ds t (ds @ es) name k \<and> placed s ds (ds @ es) name k"

text \<open>A failure for lack of space: at most one cluster was free, and only that one has changed.\<close>

definition disk_full :: "vol \<Rightarrow> vol \<Rightarrow> bool" where
  "disk_full s t \<longleftrightarrow> (\<exists>c. (\<forall>k. valid_cluster (geo s) k \<longrightarrow> fatv s k = FAT32_FREE \<longrightarrow> k = c) \<and>
     (valid_cluster (geo s) c \<longrightarrow> fatv s c = FAT32_FREE) \<and> changes {c} s t)"

text \<open>It leaves at most descriptor \<open>fd\<close> in another state.\<close>

definition open_full :: "nat \<Rightarrow> vol \<Rightarrow> vol \<Rightarrow> bool" where
  "open_full fd s t \<longleftrightarrow> disk_full s t \<and> (\<exists>f. same_vol (upd_fd fd (\<lambda>_. f) s) t)"

lemma open_fullI: "disk_full s t \<Longrightarrow> same_vol s t \<Longrightarrow> open_full fd s t"
proof -
  assume "disk_full s t" "same_vol s t"
  moreover from this(2) have "same_vol (upd_fd fd (\<lambda>_. fds s ! fd) s) t" by (simp add: same_vol_def) (simp add: upd_fd_def)
  ultimately show "open_full fd s t" unfolding open_full_def by blast
qed

lemma new_chain:
  assumes "good_vol t" "valid_cluster (geo t) new" "fatv t new = FAT_MASK"
  shows "file_chain t new [new]"
  using valid_links [OF good_volD(3) [OF assms(1)] assms(2)] assms(2,3)
  by (simp add: file_chain_def dir_chain_def not_less not_le)

text \<open>The old clusters of a file are freed, if it has any.\<close>

lemma free_old:
  assumes "good_vol s" "chain (fatv s) c cs" "\<forall>c \<in> set cs. valid_cluster (geo s) c"
  shows "\<exists>t. (if c \<ge> 2 then fat_free_chain c s else Some s) = Some t \<and> same_vol s t \<and> good_vol t \<and>
    (\<forall>k. fat_index (geo s) k \<longrightarrow> fatv t k = (if k \<in> set cs then FAT32_FREE else fatv s k)) \<and>
    (\<forall>a. a \<noteq> NO_LBA \<longrightarrow> vol_data_lba (geo s) \<le> a \<longrightarrow> sec_view t a = sec_view s a)"
proof (cases "c \<ge> 2")
  case True
  have "\<forall>c \<in> set cs. fat_index (geo s) c" using assms(3) valid_fat_index by blast
  from fat_free_chain_spec [OF assms(2) chain_distinct [OF assms(2)] this assms(1)] True show ?thesis by simp
next
  case False
  then have "cs = []" using assms(2) by (cases cs) auto
  then show ?thesis using False assms(1) by simp
qed

lemma open_existing_at:
  assumes "good_vol s" "length (fds s) = FAT32_MAX_FD" "fd < FAT32_MAX_FD" "dir_ok s d ds" "file_in s ds name k cs"
    and "set ds \<inter> set cs = {}"
  shows "\<exists>r t. open_existing fd True (unpack_dir (slot s ds k)) (pos_at (geo s) ds 0 k) d s = Some (r, t) \<and>
    (r = Inl FAT32_ERR_FULL \<and> open_full fd s t \<or> r = Inr fd \<and> (\<exists>new. created fd d ds cs name s t [] k new))"
proof -
  let ?e = "slot s ds k" and ?c = "entry_cluster (unpack_dir (slot s ds k))"
  note G = good_volD(3) [OF assms(1)]
  obtain st where fi: "k < slot_count (geo s) ds" "e_attr ?e AND ATTR_DIR = 0"
    "lookup name s ds = Some (?e, pos_at (geo s) ds 0 k, st)" "chain (fatv s) ?c cs" "\<forall>c \<in> set cs. valid_cluster (geo s) c"
    using assms(5) by (auto simp: file_in_def)
  define f where "f = new_fd True ?c d (pos_at (geo s) ds 0 k) (de_file_size (unpack_dir ?e))"
  define s1 where "s1 = upd_fd fd (\<lambda>_. f) s"
  have fdl: "fd < length (fds s)" using assms(2,3) by simp
  have e1: "fatv s1 = fatv s" "geo s1 = geo s" "sec_view s1 = sec_view s" "good_vol s1 = good_vol s" by (simp_all add: s1_def)
  have "good_vol s1" "chain (fatv s1) ?c cs" "\<forall>c \<in> set cs. valid_cluster (geo s1) c"
    using fi(4,5) assms(1) by (simp_all add: e1)
  from free_old [OF this]
  obtain s2 where s2: "(if ?c \<ge> 2 then fat_free_chain ?c s1 else Some s1) = Some s2" "same_vol s1 s2" "good_vol s2"
    "\<And>c. fat_index (geo s) c \<Longrightarrow> fatv s2 c = (if c \<in> set cs then FAT32_FREE else fatv s c)"
    "\<And>a. a \<noteq> NO_LBA \<Longrightarrow> vol_data_lba (geo s) \<le> a \<Longrightarrow> sec_view s2 a = sec_view s a"
    unfolding e1 by blast
  have g2: "geo s2 = geo s" using s2(2) by (simp add: same_vol_geo s1_def)
  have c2: "changes (set cs) s s2" using s2(3-5) g2 by (simp add: changes_def)
  obtain new s3 where al: "fat_alloc 0 s2 = (new, s3)" by fastforce
  note A = fat_alloc_spec [OF s2(3) disjI1 [OF refl] al]
  have op: "open_existing fd True (unpack_dir ?e) (pos_at (geo s) ds 0 k) d s =
    (if new = 0 then Some (Inl FAT32_ERR_FULL, s3)
     else Some (Inr fd, snd (dir_write_entry (pos_at (geo s) ds 0 k) (re_entry new 0 ?e)
       (upd_fd fd (\<lambda>f. f\<lparr>fd_cluster := new, fd_cur_cluster := new, fd_size := 0, fd_pos := 0\<rparr>) s3))))"
    unfolding open_existing_def Let_def f_def [symmetric] s1_def [symmetric] s2(1)
    by (simp add: al re_entry_def split: prod.split)
  show ?thesis
  proof (cases "new = 0")
    case True
    then have nf: "valid_cluster (geo s) c \<Longrightarrow> fatv s2 c \<noteq> FAT32_FREE" for c using A g2 by simp
    have "cs = []"
    proof (rule ccontr)
      assume "cs \<noteq> []"
      then have "hd cs \<in> set cs" by simp
      then have v: "valid_cluster (geo s) (hd cs)" using fi(5) by blast
      then show False using nf [OF v] s2(4) [OF valid_fat_index [OF v]] \<open>hd cs \<in> set cs\<close> by simp
    qed
    moreover have "same_vol s2 s3" "good_vol s3" "same_view s2 s3" using A True by simp_all
    then have "changes {} s2 s3" using reads_changes s2(3) by (simp add: reads_only_def)
    ultimately have "changes {} s s3" using changes_same [of "{}" s s2] c2 by simp
    then have c0: "changes {0} s s3" by (rule changes_mono) simp
    have "fatv s c \<noteq> FAT32_FREE" if "valid_cluster (geo s) c" for c
      using nf [OF that] s2(4) [OF valid_fat_index [OF that]] \<open>cs = []\<close> by simp
    with c0 have "disk_full s s3" unfolding disk_full_def by (intro exI [of _ 0]) (simp add: valid_cluster_def)
    moreover have "same_vol (upd_fd fd (\<lambda>_. f) s) s3"
      using same_vol_trans [OF s2(2) \<open>same_vol s2 s3\<close>] by (simp add: s1_def)
    ultimately have "open_full fd s s3" unfolding open_full_def by blast
    then show ?thesis using op True by simp
  next
    case False
    then have al': "allocated 0 new s2 s3" and sv3: "same_vol s2 s3" and g3: "good_vol s3" using A by simp_all
    have vn: "valid_cluster (geo s) new" and fn: "fatv s2 new = FAT32_FREE" using al' g2 by (simp_all add: allocated_def)
    then have fn3: "fatv s3 new = FAT_MASK" using al' g2 valid_fat_index [OF vn] by (simp add: allocated_def)
    have nfree: "fatv s new = FAT32_FREE \<or> new \<in> set cs" using fn s2(4) [OF valid_fat_index [OF vn]] by (simp split: if_splits)
    have nds: "new \<notin> set ds" using nfree assms(6) chain_last_nonfree [OF assms(4)] by auto
    have c3: "changes (insert new (set cs)) s s3"
      using changes_trans [OF c2 allocated_changes(2) [OF al' sv3 g3]] by simp
    define h :: "fat32_fd_t \<Rightarrow> fat32_fd_t" where "h = (\<lambda>f. f\<lparr>fd_cluster := new, fd_cur_cluster := new, fd_size := 0, fd_pos := 0\<rparr>)"
    define s4 where "s4 = upd_fd fd h s3"
    have c4: "changes (insert new (set cs)) s s4"
      using changes_same [OF c3 changes_upd_fd [OF g3]] by (simp add: s4_def)
    have g4: "good_vol s4" "geo s4 = geo s" using changesD [OF c4] by simp_all
    have dj: "set ds \<inter> insert new (set cs) = {}" using nds assms(6) by auto
    have dc: "dir_chain s d ds" using assms(4) by (simp add: dir_ok_def)
    note D4 = changes_dir [OF c4 assms(1) dc dj]
    have sl4: "slot s4 ds j = slot s ds j" if "j < slot_count (geo s) ds" for j
      by (rule changes_slot [OF c4 assms(1) dc dj that])
    have lst: "last ds \<in> set ds" using dc by (simp add: dir_chain_def)
    have dk4: "dir_ok s4 d ds" using assms(4) D4(1,2) D4(4) [OF lst] by (simp add: dir_ok_def)
    have L4: "lookup name s4 ds = Some (slot s4 ds k, pos_at (geo s4) ds 0 k, st)" using fi(3) D4(3) sl4 [OF fi(1)] g4(2) by simp
    have k4: "k < slot_count (geo s4) ds" using fi(1) g4(2) by simp
    obtain t where t: "dir_write_entry (pos_at (geo s4) ds 0 k) (re_entry new 0 (slot s4 ds k)) s4 = (True, t)"
      "writes_in (dir_sectors (geo s4) ds) s4 t" "changes (set ds) s4 t" "dir_ok t d ds"
      "dir_slots t ds = (dir_slots s4 ds)[k := re_entry new 0 (slot s4 ds k)]"
      "lookup name t ds = Some (re_entry new 0 (slot s4 ds k), pos_at (geo s4) ds 0 k, st)"
      "\<And>nm e q st'. lookup nm s4 ds = Some (e, q, st') \<Longrightarrow> q \<noteq> pos_at (geo s4) ds 0 k \<Longrightarrow> lookup nm t ds = Some (e, q, st')"
      by (rule dir_rewrite [OF g4(1) dk4 L4 k4, of new 0], rule that)
    have gt: "good_vol t" "geo t = geo s" using changesD [OF t(3)] g4(2) by simp_all
    have slt: "slot t ds j = (if j = k then re_entry new 0 ?e else slot s ds j)" if j: "j < slot_count (geo s) ds" for j
    proof -
      have "slot t ds j = dir_slots t ds ! j" using j gt(2) by (simp add: dir_slots_nth)
      then show ?thesis using j t(5) sl4 fi(1) g4(2) by (simp add: dir_slots_nth)
    qed
    have svt: "same_vol s4 t" using t(2) by (simp add: writes_in_def)
    have "same_vol (upd_fd fd h s1) s4"
      unfolding s4_def by (rule same_vol_upd_fd [OF same_vol_trans [OF s2(2) sv3]])
    then have st': "same_vol (upd_fd fd (\<lambda>_. h f) s) t"
      using same_vol_trans [OF _ svt] fdl by (simp add: s1_def)
    then have ft: "fds t = (fds s)[fd := h f]" by (simp add: same_vol_def) (simp add: upd_fd_def)
    have fdt: "fds t ! fd = h f" using ft fdl by simp
    have "fatv t new = fatv s4 new" using t(2) valid_fat_index [OF vn] g4(2) by (simp add: writes_in_def)
    then have fc: "file_chain t new [new]" using new_chain [OF gt(1)] vn gt(2) fn3 by (simp add: s4_def)
    then have dcn: "dir_chain t new [new]" by (simp add: file_chain_def)
    note RE = re_entry_fields [OF length_slot, of new 0 s ds k]
    have wr: "writing t fd d ds name k [new]"
      unfolding writing_def
    proof (intro conjI)
      show "file_at t fd [new]" using assms(3) fdt ft fdl dcn by (simp add: file_at_def h_def f_def new_fd_def)
      show "e_attr (slot t ds k) AND ATTR_DIR = 0" using slt [OF fi(1)] take12(2) [OF RE(2)] fi(2) by simp
      show "\<exists>st. lookup name t ds = Some (slot t ds k, pos_at (geo t) ds 0 k, st)"
        using t(6) slt [OF fi(1)] sl4 [OF fi(1)] g4(2) gt(2) by auto
    qed (use gt t(4) fdt fc nds fi(1) in \<open>simp_all add: h_def f_def new_fd_def pos_at_def\<close>)
    have "same_vol (upd_fd fd (\<lambda>_. fds t ! fd) s) t" using st' fdt by simp
    moreover have "changes (insert new (set ds \<union> set cs)) s t"
      by (rule changes_mono [OF changes_trans [OF c4 t(3)]]) auto
    moreover have "fatv t c = FAT32_FREE" if "c \<in> set cs" "c \<noteq> new" for c
    proof -
      have i: "fat_index (geo s) c" using fi(5) that(1) valid_fat_index by blast
      have "fatv t c = fatv s4 c" using t(2) i g4(2) by (simp add: writes_in_def)
      also have "\<dots> = fatv s2 c" using al' i that(2) g2 by (simp add: s4_def allocated_def)
      finally show ?thesis using s2(4) [OF i] that(1) by simp
    qed
    moreover have "others s ds t ds name k" using t(7) D4(3) g4(2) by (auto simp: others_def)
    moreover have "placed s ds ds name k" using fi(3) by (simp add: placed_def)
    ultimately have "created fd d ds cs name s t [] k new"
      using wr fdt slt nfree by (simp add: created_def h_def f_def new_fd_def)
    moreover have "t = snd (dir_write_entry (pos_at (geo s) ds 0 k) (re_entry new 0 ?e) s4)"
      using t(1) sl4 [OF fi(1)] g4(2) by simp
    ultimately show ?thesis using op False by (auto simp: s4_def h_def)
  qed
qed

text \<open>A name without an entry gets one, in the directory as it is or with one more cluster.\<close>

lemma entry_created:
  assumes "good_vol s" "fd < FAT32_MAX_FD" "fd < length (fds s)" "dir_chain s d ds" "changes {new} s s2" "good_vol s3" "same_vol s s3"
    and "valid_cluster (geo s) new" "fatv s new = FAT32_FREE" "fatv s2 new = FAT_MASK" "set ds \<inter> {new} = {}"
    and "entry_added d ds name e pos s2 s3" "e_attr (pack_dir e) AND ATTR_DIR = 0" "lookup name s ds = None"
  shows "\<exists>es k. created fd d ds [] name s (upd_fd fd (\<lambda>_. new_fd True new d pos 0) s3) es k new"
proof -
  have geo2: "geo s2 = geo s" by (rule changesD(2) [OF assms(5)])
  obtain es start k v where ea: "dir_ok s3 d (ds @ es)" "same_slot (pos_at (geo s2) (ds @ es) 0 k) pos"
    "dir_find d name s3 = Some (Some (pack_dir e, pos_at (geo s2) (ds @ es) 0 k, start), v)"
    "\<And>j. j < slot_count (geo s2) ds \<Longrightarrow> \<not> slot_free (slot s2 ds j) \<Longrightarrow> slot s3 (ds @ es) j = slot s2 ds j"
    "\<forall>k \<in> set es. fatv s2 k = FAT32_FREE" "changes (set (ds @ es)) s2 s3"
    "\<forall>nm. \<not> same_name nm name \<longrightarrow> lookup nm s3 (ds @ es) = lookup nm s2 ds"
    "k < slot_count (geo s2) (ds @ es)" "k < slot_count (geo s2) ds \<longrightarrow> slot_free (slot s2 ds k)"
    using assms(12) unfolding entry_added_def by blast
  let ?ds = "ds @ es"
  have dc3: "dir_chain s3 d ?ds" using ea(1) by (simp add: dir_ok_def)
  have g3: "geo s3 = geo s" using changesD(2) [OF ea(6)] geo2 by simp
  have L3: "lookup name s3 ?ds = Some (pack_dir e, pos_at (geo s3) ?ds 0 k, start)"
    using dir_find_listing [OF assms(6) dc3, of name] ea(3) g3 geo2 by auto
  obtain i where i: "i < slot_count (geo s3) ?ds" "pack_dir e = slot s3 ?ds i" "pos_at (geo s3) ?ds 0 k = pos_at (geo s3) ?ds 0 i"
    by (rule lookup_slot [OF L3]) blast
  have k: "k < slot_count (geo s3) ?ds" "pack_dir e = slot s3 ?ds k"
    using pos_at_eq [OF assms(6) dc3 _ i(1), of k 0 0] i ea(8) g3 geo2 by simp_all
  have nes: "new \<notin> set ?ds" using assms(11) ea(5) assms(10) by auto
  have "fatv s3 new = FAT_MASK"
    using ea(6) nes assms(10) valid_fat_index [OF assms(8)] geo2 by (simp add: changes_def)
  then have fc: "file_chain s3 new [new]" using new_chain [OF assms(6)] assms(8) g3 by simp
  define t where "t = upd_fd fd (\<lambda>_. new_fd True new d pos 0) s3"
  have f3: "fds s3 = fds s" using assms(7) by (simp add: same_vol_def)
  have fdt: "fds t ! fd = new_fd True new d pos 0" using assms(3) f3 by (simp add: t_def)
  have ct: "changes {} s3 t" using assms(6) by (simp add: t_def)
  have gt: "good_vol t" "geo t = geo s3" using changesD [OF ct] by simp_all
  have fct: "file_chain t new [new]" using fc unfolding t_def by simp
  then have dcn: "dir_chain t new [new]" by (simp add: file_chain_def)
  have slt: "slot t ?ds j = slot s3 ?ds j" for j by (simp add: t_def slot_def)
  have "dir_ok t d ?ds"
    using ea(1) changes_dir(1,2) [OF ct assms(6) dc3] by (simp add: dir_ok_def t_def)
  moreover have "lookup name t ?ds = Some (slot t ?ds k, pos_at (geo t) ?ds 0 k, start)"
    using L3 k changes_dir(3) [OF ct assms(6) dc3] slt gt(2) by simp
  moreover have "e_attr (slot t ?ds k) AND ATTR_DIR = 0" using assms(13) k(2) slt by simp
  moreover have "file_at t fd [new]"
    using assms(2,3) fdt dcn f3 by (simp add: file_at_def new_fd_def t_def)
  moreover have "fd_dir_lba (fds t ! fd) = slot_lba (geo t) ?ds k" "fd_dir_offset (fds t ! fd) = 32 * of_nat (k mod 16)"
    using ea(2) fdt gt(2) g3 geo2 by (simp_all add: same_slot_def pos_at_def new_fd_def)
  moreover have "fd_write (fds t ! fd)" "fd_cluster (fds t ! fd) = new" "set ?ds \<inter> set [new] = {}"
    using fdt nes by (simp_all add: new_fd_def)
  ultimately have wr: "writing t fd d ?ds name k [new]"
    unfolding writing_def using gt k(1) fct by (intro conjI exI [of _ start]) simp_all
  have es: "fatv s c = FAT32_FREE" if "c \<in> set es" for c
  proof -
    have "c \<notin> {new}" "fat_index (geo s) c" using that nes dc3 g3 valid_fat_index by (auto simp: dir_chain_def)
    then have "fatv s2 c = fatv s c" using assms(5) unfolding changes_def by blast
    then show ?thesis using ea(5) that by simp
  qed
  have keep: "slot t ?ds j = slot s ds j" if "j < slot_count (geo s) ds" "\<not> slot_free (slot s ds j)" for j
    using ea(4) [of j] changes_slot [OF assms(5,1,4,11) that(1)] that geo2 slt by simp
  have "same_vol (upd_fd fd (\<lambda>_. new_fd True new d pos 0) s) t"
    unfolding t_def by (rule same_vol_upd_fd [OF assms(7)])
  moreover have "changes (insert new (set ?ds)) s t"
    by (rule changes_mono [OF changes_trans [OF changes_trans [OF assms(5) ea(6)] ct]]) auto
  moreover have "others s ds t ?ds name k"
    using ea(7) changes_lookup [OF assms(5,1,4,11)] changes_lookup [OF ct assms(6) dc3] by (intro others_same) simp
  moreover have "placed s ds ?ds name k"
    using assms(14) ea(9) changes_slot [OF assms(5,1,4,11)] geo2 by (auto simp: placed_def)
  ultimately have "created fd d ds [] name s t es k new"
    using wr fdt es assms(9) keep by (simp add: created_def new_fd_def)
  then show ?thesis unfolding t_def by blast
qed

text \<open>When the directory cannot be extended, the new cluster is given back.\<close>

lemma new_cluster_back:
  assumes "changes {new} s s3" "good_vol s3" "valid_cluster (geo s) new" "fatv s3 new = FAT_MASK"
    and "\<And>c. valid_cluster (geo s) c \<Longrightarrow> fatv s c = FAT32_FREE \<Longrightarrow> c = new" "fatv s new = FAT32_FREE"
  shows "\<exists>t. fat_free_chain new s3 = Some t \<and> disk_full s t \<and> same_vol s3 t"
proof -
  have g3: "geo s3 = geo s" by (rule changesD(2) [OF assms(1)])
  have ch: "chain (fatv s3) new [new]"
    using new_chain [OF assms(2), of new] assms(3,4) g3 by (simp add: file_chain_def dir_chain_def)
  have ix: "\<forall>k \<in> set [new]. fat_index (geo s3) k" using valid_fat_index [OF assms(3)] g3 by simp
  obtain t where t: "fat_free_chain new s3 = Some t" "same_vol s3 t" "good_vol t"
    "\<forall>k. fat_index (geo s3) k \<longrightarrow> fatv t k = (if k \<in> set [new] then FAT32_FREE else fatv s3 k)"
    "\<forall>a. a \<noteq> NO_LBA \<longrightarrow> vol_data_lba (geo s3) \<le> a \<longrightarrow> sec_view t a = sec_view s3 a"
    using fat_free_chain_spec [OF ch chain_distinct [OF ch] ix assms(2)] by blast
  have "changes {new} s3 t" using t(2-5) by (simp add: changes_def same_vol_geo)
  then have "changes {new} s t" by (rule changes_same [OF assms(1)])
  then show ?thesis using t(1,2) assms(5,6) unfolding disk_full_def by blast
qed

lemma open_new_at:
  assumes "good_vol s" "length (fds s) = FAT32_MAX_FD" "fd < FAT32_MAX_FD" "path_dir s path css d name" "dir_ok s d ds"
    and "lookup name s ds = None" "name_ok name" "lfn_need name + 1 \<le> clus_slots (geo s)"
  shows "\<exists>r t. open_new fd path s = Some (r, t) \<and>
    (r = Inl FAT32_ERR_FULL \<and> open_full fd s t \<or> r = Inr fd \<and> (\<exists>es k new. created fd d ds [] name s t es k new))"
proof -
  have fdl: "fd < length (fds s)" using assms(2,3) by simp
  have d0: "d \<noteq> 0" using assms(4) by (simp add: path_dir_def)
  obtain s1 where s1: "path_resolve_parent path s = Some ((d, name), s1)" "reads_only s s1"
    using path_resolve_at [OF assms(1,4)] by blast
  have c1: "changes {} s s1" by (rule reads_changes [OF s1(2) assms(1)])
  note g1 = changesD [OF c1]
  have f1: "fatv s1 c = fatv s c" if "valid_cluster (geo s) c" for c
    using c1 valid_fat_index [OF that] by (simp add: changes_def)
  obtain new s2 where al: "fat_alloc 0 s1 = (new, s2)" by fastforce
  note A = fat_alloc_spec [OF g1(1) disjI1 [OF refl] al]
  have dc: "dir_chain s d ds" using assms(5) by (simp add: dir_ok_def)
  show ?thesis
  proof (cases "new = 0")
    case True
    then have r: "reads_only s1 s2" and nf: "\<And>c. valid_cluster (geo s) c \<Longrightarrow> fatv s c \<noteq> FAT32_FREE"
      using A f1 g1(2) by (simp_all add: reads_only_def)
    have "changes {0} s s2" by (rule changes_same [OF changes_mono [OF c1] reads_changes [OF r g1(1)]]) simp
    then have "disk_full s s2" using nf unfolding disk_full_def by (intro exI [of _ 0]) (simp add: valid_cluster_def)
    moreover have "same_vol s s2" using s1(2) r same_vol_trans by (auto simp: reads_only_def)
    ultimately have "open_full fd s s2" by (rule open_fullI)
    then show ?thesis using s1(1) al True d0 by (simp add: open_new_def)
  next
    case False
    then have al': "allocated 0 new s1 s2" and sv2: "same_vol s1 s2" and g2: "good_vol s2" using A by simp_all
    have vn: "valid_cluster (geo s) new" and fn: "fatv s1 new = FAT32_FREE" using al' g1(2) by (simp_all add: allocated_def)
    have fn2: "fatv s2 new = FAT_MASK" using al' valid_fat_index [OF vn] g1(2) by (simp add: allocated_def)
    have fnew: "fatv s new = FAT32_FREE" using fn f1 [OF vn] by simp
    then have nds: "set ds \<inter> {new} = {}" using chain_last_nonfree [OF assms(5)] by auto
    have c2: "changes {new} s s2"
      by (rule changes_same [OF changes_mono [OF c1] allocated_changes(2) [OF al' sv2 g2 refl]]) simp
    have geo2: "geo s2 = geo s" by (rule changesD(2) [OF c2])
    note D2 = changes_dir [OF c2 assms(1) dc nds]
    have "last ds \<in> set ds" using dc by (simp add: dir_chain_def)
    then have dk2: "dir_ok s2 d ds" using assms(5) D2(1,2,4) by (simp add: dir_ok_def)
    obtain v0 where nf2: "dir_find d name s2 = Some (None, v0)"
      using dir_find_listing [OF g2 D2(1), of name] assms(6) D2(3) geo2 by auto
    have "ATTR_ARCHIVE \<noteq> ATTR_LFN" "lfn_need name + 1 \<le> clus_slots (geo s2)" using assms(8) geo2 by simp_all
    from dir_add_spec [OF g2 dk2 assms(7) this nf2, of new 0]
    obtain r s3 where r: "dir_add_entry d name ATTR_ARCHIVE new 0 s2 = Some (r, s3)" "same_vol s2 s3" "good_vol s3"
      "case r of None \<Rightarrow> (\<forall>k. valid_cluster (geo s2) k \<longrightarrow> fatv s2 k \<noteq> FAT32_FREE) \<and> same_view s2 s3
       | Some pos \<Rightarrow> entry_added d ds name (make_e83 (unique_83 name (dir_slots s2 ds)) ATTR_ARCHIVE new 0) pos s2 s3" by blast
    have "same_vol s s1" using s1(2) by (simp add: reads_only_def)
    then have sv3: "same_vol s s3" by (rule same_vol_trans [OF same_vol_trans [OF _ sv2] r(2)])
    show ?thesis
    proof (cases r)
      case None
      have r3: "reads_only s2 s3" and nf: "\<And>c. valid_cluster (geo s) c \<Longrightarrow> fatv s2 c \<noteq> FAT32_FREE"
        using r None geo2 by (simp_all add: reads_only_def)
      have c3: "changes {new} s s3" by (rule changes_same [OF c2 reads_changes [OF r3 g2]])
      have fn3: "fatv s3 new = FAT_MASK"
        using reads_changes [OF r3 g2, of "{}"] valid_fat_index [OF vn] geo2 fn2 by (simp add: changes_def)
      have only: "c = new" if "valid_cluster (geo s) c" "fatv s c = FAT32_FREE" for c
        using nf [OF that(1)] c2 that valid_fat_index [OF that(1)] by (auto simp: changes_def)
      obtain t where t: "fat_free_chain new s3 = Some t" "disk_full s t" "same_vol s3 t"
        using new_cluster_back [OF c3 r(3) vn fn3 only fnew] by blast
      have "open_full fd s t" by (rule open_fullI [OF t(2) same_vol_trans [OF sv3 t(3)]])
      then show ?thesis using s1(1) al False d0 r(1) None t(1) by (simp add: open_new_def)
    next
      case (Some pos)
      define e where "e = make_e83 (unique_83 name (dir_slots s2 ds)) ATTR_ARCHIVE new 0"
      note U = unique_83_shape(1) [OF assms(7), of "dir_slots s2 ds"]
      have ea: "entry_added d ds name e pos s2 s3" using r(4) Some by (simp add: e_def)
      have at: "e_attr (pack_dir e) AND ATTR_DIR = 0" unfolding e_def make_e83_fields(3) [OF U] by simp
      obtain es k where "created fd d ds [] name s (upd_fd fd (\<lambda>_. new_fd True new d pos 0) s3) es k new"
        using entry_created [OF assms(1,3) fdl dc c2 r(3) sv3 vn fnew fn2 nds ea at assms(6)] by blast
      moreover have "open_new fd path s = Some (Inr fd, upd_fd fd (\<lambda>_. new_fd True new d pos 0) s3)"
        using s1(1) al False d0 r(1) Some by (simp add: open_new_def)
      ultimately show ?thesis by blast
    qed
  qed
qed

text \<open>The file a path names for writing: one that exists, on the clusters \<open>cs\<close>, or a legal new name.\<close>

definition target :: "vol \<Rightarrow> u32 list \<Rightarrow> bytes \<Rightarrow> u32 list \<Rightarrow> bool" where
  "target s ds name cs \<longleftrightarrow> set ds \<inter> set cs = {} \<and>
     (case lookup name s ds of
        None \<Rightarrow> cs = [] \<and> name_ok name \<and> lfn_need name + 1 \<le> clus_slots (geo s)
      | Some _ \<Rightarrow> \<exists>k. file_in s ds name k cs)"

lemma reads_created:
  assumes "reads_only s s1" "good_vol s" "dir_chain s d ds" "created fd d ds cs name s1 t es k new"
  shows "created fd d ds cs name s t es k new"
proof -
  note C = assms(4) [unfolded created_def]
  have c1: "changes {} s s1" by (rule reads_changes [OF assms(1,2)])
  have g1: "geo s1 = geo s" "same_vol s s1" using assms(1) by (simp_all add: reads_only_def same_vol_geo)
  have gt: "geo t = geo s" using C g1 by (auto dest: changesD)
  have wr: "writing t fd d (ds @ es) name k [new]" using C by blast
  then have "\<forall>c \<in> set [new]. valid_cluster (geo t) c" "\<forall>c \<in> set (ds @ es). valid_cluster (geo t) c"
    unfolding writing_def file_chain_def dir_ok_def dir_chain_def by blast+
  then have v: "fat_index (geo s) c" if "c \<in> insert new (set es)" for c
    using that valid_fat_index gt by auto
  have f: "fatv s1 c = fatv s c" if "c \<in> insert new (set es)" for c
    using c1 v [OF that] by (simp add: changes_def)
  have sl: "slot s1 ds j = slot s ds j" if "j < slot_count (geo s) ds" for j
    using changes_slot [OF c1 assms(2,3) _ that] by simp
  have "same_vol (upd_fd fd (\<lambda>_. fds t ! fd) s) t"
    using same_vol_trans [OF same_vol_upd_fd [OF g1(2)]] C by blast
  moreover have "changes (insert new (set (ds @ es) \<union> set cs)) s t"
    using changes_same [OF reads_changes [OF assms(1,2)]] C by blast
  moreover have "\<forall>c \<in> insert new (set es). fatv s c = FAT32_FREE \<or> c \<in> set cs" using C f by metis
  moreover have "\<forall>j < slot_count (geo s) ds. \<not> slot_free (slot s ds j) \<longrightarrow> j \<noteq> k \<longrightarrow> slot t (ds @ es) j = slot s ds j"
    using C sl g1(1) by simp
  moreover have "others s ds t (ds @ es) name k"
    using C changes_lookup [OF c1 assms(2,3)] g1(1) by (simp add: others_def)
  moreover have "placed s1 ds (ds @ es) name k" using C by blast
  then have "placed s ds (ds @ es) name k"
    using changes_lookup [OF c1 assms(2,3)] sl g1(1) by (cases "lookup name s ds") (simp_all add: placed_def)
  ultimately show ?thesis using C unfolding created_def by blast
qed

lemma reads_disk_full:
  assumes "reads_only s s1" "good_vol s" "disk_full s1 t"
  shows "disk_full s t"
proof -
  have c1: "changes {} s s1" by (rule reads_changes [OF assms(1,2)])
  have g1: "geo s1 = geo s" by (rule changesD(2) [OF c1])
  obtain c where c: "\<And>k. valid_cluster (geo s) k \<Longrightarrow> fatv s1 k = FAT32_FREE \<Longrightarrow> k = c" "changes {c} s1 t"
    "valid_cluster (geo s) c \<longrightarrow> fatv s1 c = FAT32_FREE" using assms(3) g1 unfolding disk_full_def by auto
  have "fatv s1 k = fatv s k" if "valid_cluster (geo s) k" for k
    using c1 valid_fat_index [OF that] by (simp add: changes_def)
  moreover have "changes {c} s t" by (rule changes_same [OF reads_changes [OF assms(1,2)] c(2)])
  ultimately show ?thesis using c(1,3) unfolding disk_full_def by metis
qed

lemma reads_open_full:
  assumes "reads_only s s1" "good_vol s" "open_full fd s1 t"
  shows "open_full fd s t"
proof -
  obtain f where f: "same_vol (upd_fd fd (\<lambda>_. f) s1) t" "disk_full s1 t" using assms(3) by (auto simp: open_full_def)
  have "same_vol s s1" using assms(1) by (simp add: reads_only_def)
  from same_vol_trans [OF same_vol_upd_fd [OF this] f(1)]
  show ?thesis using reads_disk_full [OF assms(1,2) f(2)] by (auto simp: open_full_def)
qed

lemma open_for_writing:
  assumes "good_vol s" "vol_mounted s" "\<not> vol_readonly s" "length (fds s) = FAT32_MAX_FD" "first_free_fd s = Some fd"
    and "path_dir s path css d name" "dir_ok s d ds" "target s ds name cs"
  shows "\<exists>r t. fat32_open path True s = Some (r, t) \<and>
    (r = Inl FAT32_ERR_FULL \<and> open_full fd s t \<or> r = Inr fd \<and> (\<exists>es k new. created fd d ds cs name s t es k new))"
proof -
  have dc: "dir_chain s d ds" using assms(7) by (simp add: dir_ok_def)
  note F = first_free [OF assms(5)]
  obtain s1 where s1: "path_stat path s = Some (case lookup name s ds of None \<Rightarrow> None
      | Some (e, pos, _) \<Rightarrow> Some (unpack_dir e, Some (pos, d)), s1)" "reads_only s s1"
    using path_stat_at [OF assms(1,6) dc] by blast
  have c1: "changes {} s s1" by (rule reads_changes [OF s1(2) assms(1)])
  have g1: "good_vol s1" "geo s1 = geo s" using changesD [OF c1] by simp_all
  have l1: "length (fds s1) = FAT32_MAX_FD" using s1(2) assms(4) by (simp add: reads_only_def same_vol_def)
  note dk1 = dir_ok_reads(1) [OF s1(2) assms(1,7)]
  have dj: "set ds \<inter> set cs = {}" using assms(8) by (simp add: target_def)
  have lift: "\<exists>r t. fat32_open path True s = Some (r, t) \<and>
    (r = Inl FAT32_ERR_FULL \<and> open_full fd s t \<or> r = Inr fd \<and> (\<exists>es k new. created fd d ds cs name s t es k new))"
    if q: "fat32_open path True s = q" "\<exists>r t. q = Some (r, t) \<and>
      (r = Inl FAT32_ERR_FULL \<and> open_full fd s1 t \<or> r = Inr fd \<and> (\<exists>es k new. created fd d ds cs name s1 t es k new))" for q
    using q reads_created [OF s1(2) assms(1) dc] reads_open_full [OF s1(2) assms(1)] by metis
  show ?thesis
  proof (cases "lookup name s ds")
    case None
    have nm: "name_ok name" "lfn_need name + 1 \<le> clus_slots (geo s1)" "cs = []"
      using assms(8) None g1(2) by (simp_all add: target_def)
    have n1: "lookup name s1 ds = None" using None changes_dir(3) [OF c1 assms(1) dc] g1(2) by simp
    have o: "fat32_open path True s = open_new fd path s1"
      using assms(2,3,5) s1(1) None by (simp add: fat32_open_def)
    show ?thesis
      by (rule lift [OF o])
        (use open_new_at [OF g1(1) l1 F(1) reads_path_dir [OF s1(2) assms(1,6)] dk1 n1 nm(1,2)] nm(3) in blast)
  next
    case (Some q)
    then obtain k where fi: "file_in s ds name k cs" using assms(8) by (auto simp: target_def)
    then obtain st where L: "lookup name s ds = Some (slot s ds k, pos_at (geo s) ds 0 k, st)"
      "e_attr (slot s ds k) AND ATTR_DIR = 0" "k < slot_count (geo s) ds" by (auto simp: file_in_def)
    have fi1: "file_in s1 ds name k cs" using changes_file(1) [OF c1 assms(1) dc] fi by simp
    have sl: "slot s1 ds k = slot s ds k" using changes_slot [OF c1 assms(1) dc _ L(3)] by simp
    have "de_attr (unpack_dir (slot s ds k)) = e_attr (slot s ds k)" by (simp add: unpack_dir_def)
    then have o: "fat32_open path True s
        = open_existing fd True (unpack_dir (slot s1 ds k)) (pos_at (geo s1) ds 0 k) d s1"
      using assms(2,3,5) s1(1) L g1(2) sl by (simp add: fat32_open_def)
    show ?thesis
      by (rule lift [OF o]) (use open_existing_at [OF g1(1) l1 F(1) dk1 fi1 dj] in blast)
  qed
qed

section \<open>Writing and closing\<close>

lemma wrote_changes:
  assumes "wrote_to fd c s cs p bs t cs'"
  shows "changes (set cs') s t" "\<forall>c \<in> set cs'. c \<in> set cs \<or> fatv s c = FAT32_FREE"
proof -
  have wt: "written s cs p bs t cs'" and fc: "file_chain t c cs'" using assms(1) by (simp_all add: wrote_to_def)
  then have v: "\<forall>c \<in> set cs'. valid_cluster (geo s) c" by (simp add: file_chain_def dir_chain_def written_def)
  show "changes (set cs') s t"
    unfolding changes_def
  proof (intro conjI allI impI)
    fix a assume "a \<noteq> NO_LBA" "vol_data_lba (geo s) \<le> a" "\<forall>k \<in> set cs'. valid_cluster (geo s) k \<longrightarrow> a \<notin> cluster_sectors (geo s) k"
    moreover from this(3) v have "a \<notin> dir_sectors (geo s) cs'" by (simp add: dir_sectors_def)
    ultimately show "sec_view t a = sec_view s a" using wt by (simp add: written_def)
  qed (use wt in \<open>simp_all add: written_def\<close>)
  show "\<forall>c \<in> set cs'. c \<in> set cs \<or> fatv s c = FAT32_FREE" using wt by (auto simp: written_def)
qed

lemma writing_wrote:
  assumes "writing s fd d ds name k cs" "wrote_to fd (fd_cluster (fds s ! fd)) s cs p bs t cs'"
  shows "writing t fd d ds name k cs'" "changes (set cs') s t" "\<forall>c \<in> set cs'. c \<in> set cs \<or> fatv s c = FAT32_FREE"
proof -
  note W = assms(1) [unfolded writing_def]
  have gs: "good_vol s" and dk: "dir_ok s d ds" and fa: "file_at s fd cs" and dj: "set ds \<inter> set cs = {}" using W by simp_all
  have dc: "dir_chain s d ds" using dk by (simp add: dir_ok_def)
  have wt: "written s cs p bs t cs'" and fc: "file_chain t (fd_cluster (fds s ! fd)) cs'" and mv: "fd_moved fd s t"
    using assms(2) by (simp_all add: wrote_to_def)
  note T = wrote_file_at [OF assms(2) fa] and M = fd_movedD [OF mv]
  show ch: "changes (set cs') s t" and new: "\<forall>c \<in> set cs'. c \<in> set cs \<or> fatv s c = FAT32_FREE"
    by (rule wrote_changes [OF assms(2)])+
  have dj': "set ds \<inter> set cs' = {}" using new dj chain_last_nonfree [OF dk] by blast
  note D = changes_dir [OF ch gs dc dj']
  have k: "k < slot_count (geo s) ds" using W by simp
  have sl: "slot t ds k = slot s ds k" by (rule changes_slot [OF ch gs dc dj' k])
  have "last ds \<in> set ds" using dc by (simp add: dir_chain_def)
  then have "dir_ok t d ds" using dk D(1,2,4) by (simp add: dir_ok_def)
  then show "writing t fd d ds name k cs'"
    using W M T(1-3) fc dj' sl D(3) by (auto simp: writing_def same_file_def)
qed

text \<open>The three stores of \<open>fat32_close\<close> rewrite the entry as a whole.\<close>

lemma re_entry_bytes:
  assumes "length e = 32"
  shows "re_entry c n e = take 20 e @ le16 (ucast (drop_bit 16 c)) @ take 4 (drop 22 e) @ le16 (ucast (c AND 0xFFFF)) @ le32 n"
proof -
  define u where "u = unpack_dir e"
  have l: "length (de_name u) = 8" "length (de_ext u) = 3" using assms by (simp_all add: u_def unpack_dir_def)
  have le: "length (le16 v) = 2" "length (le32 w) = 4" for v w by (simp_all add: le16_def le32_def)
  define A B where "A = de_name u @ de_ext u @ [de_attr u, de_nt_reserved u, de_crt_time_tenth u] @
     le16 (de_crt_time u) @ le16 (de_crt_date u) @ le16 (de_lst_acc_date u)"
    and "B = le16 (de_wrt_time u) @ le16 (de_wrt_date u)"
  have AB: "length A = 20" "length B = 4" using l le by (simp_all add: A_def B_def)
  have e: "e = A @ le16 (de_fst_clus_hi u) @ B @ le16 (de_fst_clus_lo u) @ le32 (de_file_size u)"
    using pack_unpack_dir [OF assms] by (simp add: pack_dir_def A_def B_def u_def)
  have "take 20 e = A" "take 4 (drop 22 e) = B" unfolding e using AB le by simp_all
  then show ?thesis
    by (simp add: re_entry_def pack_dir_def set_entry_cluster_def A_def B_def u_def)
qed

lemma close_entry_blit:
  "close_entry off f c = blit off (re_entry (fd_cluster f) (fd_size f) (slice c off 32)) c"
proof
  fix i
  have le: "length (le16 v) = 2" "length (le32 w) = 4" for v w by (simp_all add: le16_def le32_def)
  note R = re_entry_bytes [OF length_slice, of "fd_cluster f" "fd_size f" c off]
  show "close_entry off f c i = blit off (re_entry (fd_cluster f) (fd_size f) (slice c off 32)) c i"
  proof (cases "off \<le> i")
    case True
    then obtain j where j: "i = off + j" using le_Suc_ex by blast
    show ?thesis unfolding R j by (auto simp: close_entry_def blit_def nth_append le)
  qed (simp add: close_entry_def blit_def)
qed

lemma close_writing:
  assumes "writing s fd d ds name k cs"
  obtains t where "fat32_close (int fd) s = t" "same_vol (upd_fd fd (\<lambda>_. fd_zero) s) t" "changes (set ds) s t"
    "\<And>c. fat_index (geo s) c \<Longrightarrow> fatv t c = fatv s c" "dir_ok t d ds" "file_in t ds name k cs"
    "de_file_size (unpack_dir (slot t ds k)) = fd_size (fds s ! fd)"
    "\<And>j. j < slot_count (geo s) ds \<Longrightarrow> j \<noteq> k \<Longrightarrow> slot t ds j = slot s ds j" "others s ds t ds name k"
proof -
  let ?f = "fds s ! fd" and ?e = "slot s ds k"
  note W = assms [unfolded writing_def]
  obtain st where st: "lookup name s ds = Some (?e, pos_at (geo s) ds 0 k, st)" using W by blast
  have gs: "good_vol s" and dk: "dir_ok s d ds" and k: "k < slot_count (geo s) ds" using W by simp_all
  have fd: "fd < FAT32_MAX_FD" "fd < length (fds s)" "fd_open ?f" using W by (simp_all add: file_at_def)
  obtain u where u: "dir_write_entry (pos_at (geo s) ds 0 k) (re_entry (fd_cluster ?f) (fd_size ?f) ?e) s = (True, u)"
    "writes_in (dir_sectors (geo s) ds) s u" "changes (set ds) s u" "dir_ok u d ds"
    "dir_slots u ds = (dir_slots s ds)[k := re_entry (fd_cluster ?f) (fd_size ?f) ?e]"
    "lookup name u ds = Some (re_entry (fd_cluster ?f) (fd_size ?f) ?e, pos_at (geo s) ds 0 k, st)"
    "\<And>nm e q st'. lookup nm s ds = Some (e, q, st') \<Longrightarrow> q \<noteq> pos_at (geo s) ds 0 k \<Longrightarrow> lookup nm u ds = Some (e, q, st')"
    by (rule dir_rewrite [OF gs dk st k, of "fd_cluster ?f" "fd_size ?f"], rule that)
  have dc: "dir_chain s d ds" using dk by (simp add: dir_ok_def)
  have lba: "slot_lba (geo s) ds k \<noteq> NO_LBA"
    using slot_lba_data(2) [OF good_volD(3) [OF gs] k] dc by (simp add: dir_chain_def)
  obtain s1 where s1: "sec_read (slot_lba (geo s) ds k) s = (True, s1)" "reads_only s s1"
    "sec_cache s1 = sec_view s (slot_lba (geo s) ds k)" by (rule sec_readO [OF gs lba])
  have off: "unat (fd_dir_offset ?f) = 32 * (k mod 16)" "fd_dir_lba ?f = slot_lba (geo s) ds k"
    using W unat_slot_off by simp_all
  have "snd (sec_flush (s1\<lparr>sec_cache := close_entry (unat (fd_dir_offset ?f)) ?f (sec_cache s1), sec_cache_dirty := True\<rparr>)) = u"
    using u(1) s1(1,3) by (simp add: close_entry_blit off dir_write_entry_def pos_at_def unat_slot_off cache_patch_def slot_def)
  then have cl: "fat32_close (int fd) s = upd_fd fd (\<lambda>_. fd_zero) u"
    using W fd s1(1) off(2) by (simp add: fat32_close_def fd_valid_def Let_def)
  define t where "t = upd_fd fd (\<lambda>_. fd_zero) u"
  have gu: "good_vol u" "geo u = geo s" using changesD [OF u(3)] by simp_all
  have ct: "changes {} u t" using gu by (simp add: t_def)
  have du: "dir_chain u d ds" using u(4) by (simp add: dir_ok_def)
  note D = changes_dir(1-3) [OF ct gu(1) du]
  have sl: "slot t ds j = (if j = k then re_entry (fd_cluster ?f) (fd_size ?f) ?e else slot s ds j)"
    if j: "j < slot_count (geo s) ds" for j
  proof -
    have "slot t ds j = slot u ds j" by (simp add: t_def slot_def)
    also have "\<dots> = dir_slots u ds ! j" using j gu(2) by (simp add: dir_slots_nth)
    finally show ?thesis using j u(5) k by (simp add: dir_slots_nth)
  qed
  note RE = re_entry_fields [OF length_slot, of "fd_cluster ?f" "fd_size ?f" s ds k]
  have fv: "fatv t c = fatv s c" if "fat_index (geo s) c" for c using u(2) that by (simp add: t_def writes_in_def)
  have fc: "chain (fatv s) (fd_cluster ?f) cs" "\<forall>c \<in> set cs. valid_cluster (geo s) c"
    using W by (simp_all add: file_chain_def dir_chain_def)
  have "chain (fatv t) (fd_cluster ?f) cs" using fc fv valid_fat_index by (subst chain_cong [of cs _ "fatv s"]) auto
  moreover have "lookup name t ds = Some (slot t ds k, pos_at (geo t) ds 0 k, st)"
    using u(6) sl [OF k] D(3) gu(2) by (simp add: t_def)
  moreover have "e_attr (slot t ds k) AND ATTR_DIR = 0" using sl [OF k] take12(2) [OF RE(2)] W by simp
  ultimately have fi: "file_in t ds name k cs"
    using sl [OF k] RE(4) fc(2) k gu(2) by (auto simp: file_in_def t_def)
  have sv: "same_vol (upd_fd fd (\<lambda>_. fd_zero) s) t"
    unfolding t_def by (rule same_vol_upd_fd) (use u(2) in \<open>simp add: writes_in_def\<close>)
  have cs: "changes (set ds) s t" by (rule changes_mono [OF changes_trans [OF u(3) ct]]) simp
  have dkt: "dir_ok t d ds" using u(4) D(1,2) by (simp add: dir_ok_def t_def)
  have "others s ds t ds name k" using u(7) D(3) gu(2) by (simp add: others_def t_def)
  then show ?thesis
    by (intro that [OF cl [folded t_def] sv cs fv dkt fi]) (use sl [OF k] RE(5) sl in simp_all)
qed

section \<open>Writing a whole file\<close>

text \<open>
  The file \<open>name\<close> now holds \<open>dat\<close>; its clusters and those the directory has gained were free or were the
  file's before, the file's other old clusters are free, and every other slot in use is unchanged.
\<close>

definition saved :: "vol \<Rightarrow> u32 \<Rightarrow> u32 list \<Rightarrow> bytes \<Rightarrow> u32 list \<Rightarrow> bytes \<Rightarrow> vol \<Rightarrow> bool" where
  "saved s d ds name cs dat t \<longleftrightarrow> (\<exists>es k cs'. dir_ok t d (ds @ es) \<and> stores t (ds @ es) name k cs' dat \<and> cs' \<noteq> [] \<and> set (ds @ es) \<inter> set cs' = {} \<and>
     changes (set (ds @ es) \<union> set cs \<union> set cs') s t \<and>
     (\<forall>c \<in> set es \<union> set cs'. fatv s c = FAT32_FREE \<or> c \<in> set cs) \<and>
     (\<forall>c \<in> set cs - set cs'. fatv t c = FAT32_FREE) \<and>
     (\<forall>j < slot_count (geo s) ds. \<not> slot_free (slot s ds j) \<longrightarrow> j \<noteq> k \<longrightarrow> slot t (ds @ es) j = slot s ds j) \<and>
     undisturbed s ds t (ds @ es) name)"

lemma file_in_chain: "file_in s ds name k cs \<Longrightarrow> cs \<noteq> [] \<Longrightarrow> dir_chain s (entry_cluster (unpack_dir (slot s ds k))) cs"
  by (simp add: file_in_def dir_chain_def)

text \<open>Closing a new file into which \<open>bs\<close> has been written.\<close>

lemma close_created:
  assumes "created fd d ds cs name s s1 es k new" "\<forall>c \<in> set cs. valid_cluster (geo s) c"
    and wu: "wrote_to fd (fd_cluster (fds s1 ! fd)) s1 [new] 0 bs u cs'" and gs: "good_vol s"
  shows "saved s d ds name cs bs (fat32_close (int fd) u) \<and> same_vol (upd_fd fd (\<lambda>_. fd_zero) s) (fat32_close (int fd) u) \<and>
    (no_free u \<longrightarrow> no_free (fat32_close (int fd) u))"
proof -
  note C = assms(1) [unfolded created_def]
  let ?ds = "ds @ es" and ?c = "fd_cluster (fds s1 ! fd)"
  have wr: "writing s1 fd d ?ds name k [new]" and ch1: "changes (insert new (set ?ds \<union> set cs)) s s1"
    and sv1: "same_vol (upd_fd fd (\<lambda>_. fds s1 ! fd) s) s1" using C by blast+
  have g1: "good_vol s1" "geo s1 = geo s" using changesD [OF ch1] by simp_all
  have fdl: "fd < length (fds s1)" using wr by (simp add: writing_def file_at_def)
  note WW = writing_wrote [OF wr wu]
  have gu: "good_vol u" "geo u = geo s" using changesD [OF WW(2)] g1(2) by simp_all
  obtain t where t: "fat32_close (int fd) u = t" "same_vol (upd_fd fd (\<lambda>_. fd_zero) u) t" "changes (set ?ds) u t"
    "\<And>c. fat_index (geo u) c \<Longrightarrow> fatv t c = fatv u c" "dir_ok t d ?ds" "file_in t ?ds name k cs'"
    "de_file_size (unpack_dir (slot t ?ds k)) = fd_size (fds u ! fd)"
    "\<And>j. j < slot_count (geo u) ?ds \<Longrightarrow> j \<noteq> k \<Longrightarrow> slot t ?ds j = slot u ?ds j" "others u ?ds t ?ds name k"
    by (rule close_writing [OF WW(1)]) blast
  have wt: "written s1 [new] 0 bs u cs'" and mv: "fd_moved fd s1 u"
    and sz: "unat (fd_size (fds u ! fd)) = length bs" using wu C by (simp_all add: wrote_to_def)
  have fu: "file_chain u (fd_cluster (fds u ! fd)) cs'" and dj: "set ?ds \<inter> set cs' = {}"
    using WW(1) by (simp_all add: writing_def)
  have v: "\<forall>c \<in> set cs'. valid_cluster (geo u) c" using fu by (simp add: file_chain_def dir_chain_def)
  have room: "0 + length bs \<le> length cs' * clus_bytes (geo u)" using wt gu(2) g1(2) by (simp add: written_def)
  have "file_bytes t cs' 0 (length bs) = file_bytes u cs' 0 (length bs)"
    by (rule changes_bytes [OF t(3) gu(1) v _ room]) (use dj in auto)
  also have "\<dots> = bs" by (rule written_read_back [OF wt])
  finally have st: "stores t ?ds name k cs' bs"
    using t(6,7) sz room changesD(2) [OF t(3)] by (simp add: stores_def)
  have ne: "cs' \<noteq> []" using wt by (auto simp: written_def)
  have full: "changes (set ?ds \<union> set cs \<union> set cs') s t"
  proof (rule changes_mono [OF changes_trans [OF changes_trans [OF ch1 WW(2)] t(3)]])
    have "new \<in> set cs'" using wt by (auto simp: written_def)
    then show "insert new (set ?ds \<union> set cs) \<union> set cs' \<union> set ?ds \<subseteq> set ?ds \<union> set cs \<union> set cs'" by auto
  qed
  have f1: "fatv s1 c = fatv s c" if "c \<in> set cs'" "c \<noteq> new" "c \<notin> set cs" for c
  proof -
    have "fat_index (geo s) c" using v that(1) gu(2) valid_fat_index by auto
    then show ?thesis using ch1 that dj unfolding changes_def by auto
  qed
  have "fatv s c = FAT32_FREE \<or> c \<in> set cs" if "c \<in> set es \<union> set cs'" for c
    using that WW(3) C f1 by (cases "c = new \<or> c \<in> set es") auto
  moreover have "fatv t c = FAT32_FREE" if c: "c \<in> set cs - set cs'" for c
  proof -
    have i: "fat_index (geo s) c" using assms(2) c valid_fat_index by blast
    have "fatv t c = fatv u c" using t(4) i gu(2) by simp
    also have "\<dots> = fatv s1 c" using wt c i g1(2) by (simp add: written_def)
    finally show ?thesis using C c wt by (auto simp: written_def)
  qed
  moreover have "slot t ?ds j = slot s ds j" if j: "j < slot_count (geo s) ds" "\<not> slot_free (slot s ds j)" "j \<noteq> k" for j
  proof -
    have ds1: "dir_chain s1 d ?ds" using wr by (simp add: writing_def dir_ok_def)
    have j': "j < slot_count (geo s1) ?ds" using j(1) g1(2) by (simp add: slot_count_def add_mult_distrib2 trans_less_add1)
    have "slot t ?ds j = slot u ?ds j" by (rule t(8)) (use j j' gu g1 in simp_all)
    also have "\<dots> = slot s1 ?ds j" by (rule changes_slot [OF WW(2) g1(1) ds1 dj j'])
    finally show ?thesis using C j by simp
  qed
  moreover have "undisturbed s ds t ?ds name"
  proof (rule placed_undisturbed)
    have ds1: "dir_chain s1 d ?ds" using wr by (simp add: writing_def dir_ok_def)
    have "others s1 ?ds u ?ds name k" using changes_lookup [OF WW(2) g1(1) ds1 dj] by (intro others_same) simp
    from others_trans [OF this t(9)] gu(2) g1(2) have "others s1 ?ds t ?ds name k" by simp
    moreover have "others s ds s1 ?ds name k" using C by blast
    ultimately show "others s ds t ?ds name k" using others_trans g1(2) by blast
    show "placed s ds ?ds name k" using C by blast
    show "good_vol t" "geo t = geo s" using changesD [OF t(3)] gu(2) by simp_all
    show "dir_chain t d ?ds" using t(5) by (simp add: dir_ok_def)
    show "k < slot_count (geo s) ?ds" using wr g1(2) by (simp add: writing_def)
    show "good_vol s" by (rule gs)
  qed
  ultimately have "saved s d ds name cs bs t"
    unfolding saved_def using t(5) st full ne dj by blast
  moreover have "no_free u \<longrightarrow> no_free t"
    using t(4) changesD(2) [OF t(3)] valid_fat_index by (auto simp: no_free_def)
  moreover have "same_vol (upd_fd fd (\<lambda>_. fd_zero) s) t"
  proof -
    have "fds s1 = fds (upd_fd fd (\<lambda>_. fds s1 ! fd) s)" using sv1 unfolding same_vol_def by blast
    then have "length (fds s1) = length (fds s)" by (metis upd_fd_simps(12))
    then have fd: "fd < length (fds s)" using fdl by simp
    have "same_vol (upd_fd fd (\<lambda>_. fd_zero) s) (upd_fd fd (\<lambda>_. fd_zero) s1)"
      using same_vol_upd_fd [OF sv1, of fd "\<lambda>_. fd_zero"] fd by simp
    also have "same_vol (upd_fd fd (\<lambda>_. fd_zero) s1) (upd_fd fd (\<lambda>_. fd_zero) u)"
      using same_vol_upd_fd [of "upd_fd fd (\<lambda>_. fds u ! fd) s1" u fd "\<lambda>_. fd_zero"] mv fdl by (simp add: fd_moved_def)
    also note t(2)
    finally show ?thesis .
  qed
  ultimately show ?thesis using t(1) by blast
qed

lemma created_start:
  assumes "created fd d ds cs name s s1 es k new"
  shows "good_vol s1" "geo s1 = geo s" "file_at s1 fd [new]" "fd_write (fds s1 ! fd)"
    "file_chain s1 (fd_cluster (fds s1 ! fd)) [new]" "write_on s1 fd [new] 0"
proof -
  note C = assms [unfolded created_def]
  have wr: "writing s1 fd d (ds @ es) name k [new]" and ch1: "changes (insert new (set (ds @ es) \<union> set cs)) s s1" using C by blast+
  show "good_vol s1" "geo s1 = geo s" using changesD [OF ch1] by simp_all
  show W: "file_at s1 fd [new]" "fd_write (fds s1 ! fd)" "file_chain s1 (fd_cluster (fds s1 ! fd)) [new]"
    using wr by (simp_all add: writing_def)
  show "write_on s1 fd [new] 0" using C W(1) by (simp add: write_on_def clus_at_def file_at_def)
qed

lemma write_created:
  assumes "created fd d ds cs name s s1 es k new" "spc_ok (geo s)" "unat len \<le> length buf" "\<forall>c \<in> set cs. valid_cluster (geo s) c" "good_vol s"
  shows "\<exists>w t. fat32_write (int fd) buf len s1 = Some (Inr w, t) \<and> w \<le> len \<and>
    (w = len \<or> no_free (fat32_close (int fd) t)) \<and> saved s d ds name cs (take (unat w) buf) (fat32_close (int fd) t) \<and>
    same_vol (upd_fd fd (\<lambda>_. fd_zero) s) (fat32_close (int fd) t)"
proof -
  note S = created_start [OF assms(1)]
  have lt: "0 + unat len < 2 ^ 32" using unsigned_less [of len, where ?'a = nat] by simp
  have spc1: "spc_ok (geo s1)" using assms(2) S(2) by simp
  obtain w u cs' where u: "fat32_write (int fd) buf len s1 = Some (Inr w, u)" "w \<le> len" "w = len \<or> no_free u"
    "wrote_to fd (fd_cluster (fds s1 ! fd)) s1 [new] 0 (take (unat w) buf) u cs'"
    using fat32_write_at [OF S(1) spc1 S(3-6) le0 assms(3) lt] by blast
  show ?thesis using close_created [OF assms(1,4) u(4) assms(5)] u(1-3) by blast
qed

lemma target_valid: "target s ds name cs \<Longrightarrow> \<forall>c \<in> set cs. valid_cluster (geo s) c"
  by (auto simp: target_def file_in_def split: option.splits)

lemma write_file_at:
  assumes "good_vol s" "spc_ok (geo s)" "vol_mounted s" "\<not> vol_readonly s" "length (fds s) = FAT32_MAX_FD"
    and "first_free_fd s = Some fd" "path_dir s path css d name" "dir_ok s d ds" "target s ds name cs"
    and "unat len \<le> length buf" "unat len < 2 ^ 31"
  shows "(\<exists>t. fat32_write_file path buf len s = Some (FAT32_ERR_FULL, t) \<and> disk_full s t) \<or>
    (\<exists>w t. fat32_write_file path buf len s = Some (FAT32_OK, t) \<and> w \<le> len \<and> (w = len \<or> no_free t) \<and>
      saved s d ds name cs (take (unat w) buf) t \<and> same_vol (upd_fd fd (\<lambda>_. fd_zero) s) t)"
proof -
  obtain r s1 where r: "fat32_open path True s = Some (r, s1)"
    "r = Inl FAT32_ERR_FULL \<and> open_full fd s s1 \<or> r = Inr fd \<and> (\<exists>es k new. created fd d ds cs name s s1 es k new)"
    using open_for_writing [OF assms(1,3-9)] by blast
  show ?thesis
  proof (cases "r = Inr fd")
    case False
    then show ?thesis using r by (auto simp: fat32_write_file_def open_full_def)
  next
    case True
    then obtain es k new where C: "created fd d ds cs name s s1 es k new" using r(2) by auto
    obtain w t where w: "fat32_write (int fd) buf len s1 = Some (Inr w, t)" "w \<le> len"
      "w = len \<or> no_free (fat32_close (int fd) t)" "saved s d ds name cs (take (unat w) buf) (fat32_close (int fd) t)"
      "same_vol (upd_fd fd (\<lambda>_. fd_zero) s) (fat32_close (int fd) t)"
      using write_created [OF C assms(2,10) target_valid [OF assms(9)] assms(1)] by blast
    have "unat w < 2 ^ 31" using w(2) assms(11) by (simp add: word_le_nat_alt)
    then have "\<not> sint w < 0" by (simp add: sint_small)
    then have "fat32_write_file path buf len s = Some (FAT32_OK, fat32_close (int fd) t)"
      using r(1) True w(1) by (simp add: fat32_write_file_def)
    then show ?thesis using w(2-5) by blast
  qed
qed

text \<open>The path still leads to the directory.\<close>

lemma saved_path:
  assumes "saved s d ds name cs dat t" "good_vol s" "reaches s path css d ds name" "target s ds name cs"
    and "\<Union> (set (map set css)) \<inter> set cs = {}"
  shows "path_dir t path css d name"
proof -
  obtain es k cs' where S: "changes (set (ds @ es) \<union> set cs \<union> set cs') s t"
    "\<forall>c \<in> set es \<union> set cs'. fatv s c = FAT32_FREE \<or> c \<in> set cs"
    using assms(1) unfolding saved_def by blast
  have "\<Union> (set (map set css)) \<inter> (set (ds @ es) \<union> set cs \<union> set cs') = {}"
    using assms(3,5) S(2) by (auto simp: reaches_def)
  then show ?thesis using path_dir_changes [OF _ S(1) assms(2)] assms(3) by (simp add: reaches_def)
qed

lemma first_free_closed:
  assumes "same_vol (upd_fd fd (\<lambda>_. fd_zero) s) t" "first_free_fd s = Some fd"
  shows "first_free_fd t = Some fd"
proof -
  note F = first_free [OF assms(2)]
  have "fds t = (fds s)[fd := fd_zero]" using assms(1) by (simp add: same_vol_def) (simp add: upd_fd_def)
  then have "fd_open (fds t ! i) = fd_open (fds s ! i)" for i
    using F(2) by (cases "i = fd"; cases "fd < length (fds s)") (simp_all add: fd_zero_def list_update_beyond)
  then show ?thesis using assms(2) by (simp add: first_free_fd_def)
qed

end
