(* ===== verification/Fat_Save.thy ===== *)
theory Fat_Save
  imports Fat_Whole
begin

text \<open>
  Saving, loading and appending (\<open>src/fs/fat32_ops.c\<close> 575-632): \<open>fat32_append_file\<close> as reading followed by
  writing, a sample volume with a file, and the properties of the whole-file operations.
\<close>

section \<open>Appending\<close>

lemma same_disk_target: "changes {} s t \<Longrightarrow> good_vol s \<Longrightarrow> dir_chain s d ds \<Longrightarrow> target s ds name cs \<Longrightarrow> target t ds name cs"
  using changes_dir(3) [of "{}" s t d ds 0] changesD(2) [of "{}" s t] changes_file(1) [of "{}" s t d ds cs name]
  by (auto simp: target_def split: option.splits)

lemma same_disk_ok: "changes {} s t \<Longrightarrow> good_vol s \<Longrightarrow> dir_ok s d ds \<Longrightarrow> dir_ok t d ds"
  using changes_dir(1,2,4) [of "{}" s t d ds] by (auto simp: dir_ok_def dir_chain_def)

lemma same_disk_fat: "changes {} s t \<Longrightarrow> valid_cluster (geo s) c \<Longrightarrow> fatv t c = fatv s c"
  using valid_fat_index by (auto simp: changes_def)

lemma same_disk_full:
  assumes "changes {} s s1" "good_vol s" "disk_full s1 t"
  shows "disk_full s t"
proof -
  obtain c where c: "\<And>k. valid_cluster (geo s) k \<Longrightarrow> fatv s1 k = FAT32_FREE \<Longrightarrow> k = c" "changes {c} s1 t"
    "valid_cluster (geo s) c \<longrightarrow> fatv s1 c = FAT32_FREE" using assms(3) changesD(2) [OF assms(1)] unfolding disk_full_def by auto
  have "changes {c} s t" using changes_trans [OF assms(1) c(2)] by simp
  then show ?thesis using c(1,3) same_disk_fat [OF assms(1)] unfolding disk_full_def by metis
qed

lemma same_disk_saved:
  assumes "changes {} s s1" "good_vol s" "dir_chain s d ds" "saved s1 d ds name cs dat t"
  shows "saved s d ds name cs dat t"
proof -
  obtain es k cs' where S: "dir_ok t d (ds @ es)" "stores t (ds @ es) name k cs' dat" "cs' \<noteq> [] \<and> set (ds @ es) \<inter> set cs' = {}" "changes (set (ds @ es) \<union> set cs \<union> set cs') s1 t"
    "\<forall>c \<in> set es \<union> set cs'. fatv s1 c = FAT32_FREE \<or> c \<in> set cs" "\<forall>c \<in> set cs - set cs'. fatv t c = FAT32_FREE"
    "\<forall>j < slot_count (geo s1) ds. \<not> slot_free (slot s1 ds j) \<longrightarrow> j \<noteq> k \<longrightarrow> slot t (ds @ es) j = slot s1 ds j" "undisturbed s1 ds t (ds @ es) name"
    using assms(4) unfolding saved_def by blast
  have g: "geo s1 = geo s" "geo t = geo s" using changesD(2) [OF assms(1)] changesD(2) [OF S(4)] by simp_all
  have v: "valid_cluster (geo s) c" if "c \<in> set es \<union> set cs'" for c
    using S(1,2) that g(2) by (auto simp: dir_ok_def dir_chain_def stores_def file_in_def)
  have "changes (set (ds @ es) \<union> set cs \<union> set cs') s t" using changes_trans [OF assms(1) S(4)] by simp
  moreover have "\<forall>c \<in> set es \<union> set cs'. fatv s c = FAT32_FREE \<or> c \<in> set cs" using S(5) same_disk_fat [OF assms(1) v] by metis
  moreover have "slot s1 ds j = slot s ds j" if "j < slot_count (geo s) ds" for j
    using changes_slot [OF assms(1-3) _ that] by simp
  moreover have "undisturbed s ds t (ds @ es) name" using S(8) changes_lookup [OF assms(1-3)] by (simp add: undisturbed_def)
  ultimately show ?thesis using S(1-3,6,7) g(1) unfolding saved_def by metis
qed

lemma append_file_at:
  assumes "good_vol s" "spc_ok (geo s)" "vol_mounted s" "\<not> vol_readonly s" "length (fds s) = FAT32_MAX_FD"
    and "first_free_fd s = Some fd" "path_dir s path css d name" "dir_ok s d ds" "set ds \<inter> set cs = {}" "stores s ds name k cs old"
    and "unat len \<le> length dat" "length old + unat len < 2 ^ 31"
    and "kmalloc_ptr (of_nat (length old) + len + 1) (heap_ptr s) = (Some p, q)"
  shows "(\<exists>t. fat32_append_file path dat len s = Some (FAT32_ERR_FULL, t) \<and> disk_full s t) \<or>
    (\<exists>n t. fat32_append_file path dat len s = Some (FAT32_OK, t) \<and> n \<le> length old + unat len \<and>
      (n = length old + unat len \<or> no_free t) \<and> saved s d ds name cs (take n (old @ take (unat len) dat)) t)"
proof -
  let ?buf = "old @ take (unat len) dat"
  have dc: "dir_chain s d ds" using assms(8) by (simp add: dir_ok_def)
  have l31: "length old < 2 ^ 31" using assms(12) by simp
  have un: "unat (of_nat (length old) :: u32) = length old" by (rule unat_of_nat_eq) (use l31 in simp)
  then have ul: "unat (of_nat (length old) + len) = length old + unat len" using assms(12) by (simp add: unat_word_ariths)
  obtain s1 s2 where s2: "fat32_filesize path s = Some (int (length old), s1)"
    "vol_kmalloc (of_nat (length old) + len + 1) s1 = (Some p, s2)" "reads_only (s\<lparr>heap_ptr := q\<rparr>) s2"
    using sized_buffer [OF assms(1,7) dc assms(10) l31 assms(13)] by blast
  note B = buffered [OF assms(1) s2(3)]
  note g2 = changesD [OF B(1)]
  have D: "dir_chain s2 d ds" "stores s2 ds name k cs old" "path_dir s2 path css d name"
    using changes_dir(1) [OF B(1) assms(1) dc] changes_file(2) [OF B(1) assms(1) dc] path_dir_changes [OF assms(7) B(1) assms(1)] assms(10)
    by simp_all
  obtain s3 s4 where s4: "fat32_open path False s2 = Some (Inr fd, s3)" "fat32_read (int fd) (of_nat (length old)) s3 = Some (Inr old, s4)"
    "fd_reads fd fd_zero s2 (fat32_close (int fd) s4)"
    using open_read_close [OF g2(1) _ _ _ _ D(3,1,2), of fd] assms(2,3,5,6) g2(2) B(2,3,5) by auto
  define s5 where "s5 = fat32_close (int fd) s4"
  have c5: "changes {} s s5" using changes_trans [OF B(1) fd_reads_changes [OF s4(3) g2(1)], of "{}"] by (simp add: s5_def)
  note g5 = changesD [OF c5]
  have sv5: "same_vol (upd_fd fd (\<lambda>_. fd_zero) s2) s5" using s4(3) by (simp add: fd_reads_def reads_only_def s5_def)
  have f5: "vol_mounted s5" "\<not> vol_readonly s5" "length (fds s5) = FAT32_MAX_FD"
    using sv5 B(2-4) assms(3-5) by (simp_all add: same_vol_def) (simp_all add: upd_fd_def)
  have ff5: "first_free_fd s5 = Some fd" using first_free_closed [OF sv5] B(5) assms(6) by simp
  have tg: "target s ds name cs" using assms(9,10) by (auto simp: target_def stores_def file_in_def)
  have T5: "path_dir s5 path css d name" "dir_ok s5 d ds" "target s5 ds name cs"
    using path_dir_changes [OF assms(7) c5 assms(1)] same_disk_ok [OF c5 assms(1,8)] same_disk_target [OF c5 assms(1) dc tg] by simp_all
  have step: "fat32_append_file path dat len s = fat32_write_file path ?buf (of_nat (length old) + len) s5"
    using s2(1,2) s4(1,2) un by (simp add: fat32_append_file_def s5_def Let_def)
  have b: "unat (of_nat (length old) + len) \<le> length ?buf" "unat (of_nat (length old) + len) < 2 ^ 31"
    using ul assms(11,12) by simp_all
  have "spc_ok (geo s5)" using assms(2) g5(2) by simp
  from write_file_at [OF g5(1) this f5 ff5 T5 b]
  consider t where "fat32_append_file path dat len s = Some (FAT32_ERR_FULL, t)" "disk_full s5 t"
    | w t where "fat32_append_file path dat len s = Some (FAT32_OK, t)" "w \<le> of_nat (length old) + len"
      "w = of_nat (length old) + len \<or> no_free t" "saved s5 d ds name cs (take (unat w) ?buf) t"
    unfolding step by blast
  then show ?thesis
  proof cases
    case 1
    then show ?thesis using same_disk_full [OF c5 assms(1)] by blast
  next
    case 2
    have "unat w \<le> length old + unat len" using 2(2) ul by (simp add: word_le_nat_alt)
    moreover have "unat w = length old + unat len \<or> no_free t" using 2(3) ul by auto
    ultimately show ?thesis
      using 2(1) same_disk_saved [OF c5 assms(1) dc 2(4)] by blast
  qed
qed

section \<open>The other files\<close>

text \<open>The file \<open>n1\<close> at slot \<open>k\<close> of \<open>ds1\<close> is not the one \<open>n2\<close> names in \<open>ds2\<close>.\<close>

definition other_file :: "vol \<Rightarrow> u32 list \<Rightarrow> bytes \<Rightarrow> nat \<Rightarrow> u32 list \<Rightarrow> bytes \<Rightarrow> bool" where
  "other_file s ds1 n1 k ds2 n2 \<longleftrightarrow> (if ds1 = ds2
     then \<not> same_name n1 n2 \<and> (\<forall>e st. lookup n2 s ds2 \<noteq> Some (e, pos_at (geo s) ds1 0 k, st))
     else set ds1 \<inter> set ds2 = {})"

lemma changes_dir_ok: "changes K s t \<Longrightarrow> good_vol s \<Longrightarrow> dir_ok s d ds \<Longrightarrow> set ds \<inter> K = {} \<Longrightarrow> dir_ok t d ds"
  using changes_dir(1,2,4) [of K s t d ds] by (auto simp: dir_ok_def dir_chain_def)

lemma saved_keeps:
  assumes "saved s d2 ds2 n2 cs2 dat2 t" "good_vol s" "dir_ok s d1 ds1" "stores s ds1 n1 k cs dat" "\<forall>c \<in> set cs. fatv s c \<noteq> FAT32_FREE"
    and "set cs \<inter> (set ds2 \<union> set cs2) = {}" "set ds1 \<inter> set cs2 = {}" "other_file s ds1 n1 k ds2 n2"
  shows "\<exists>es. dir_ok t d1 (ds1 @ es) \<and> stores t (ds1 @ es) n1 k cs dat \<and>
    (\<forall>c \<in> set es. fatv s c = FAT32_FREE \<or> c \<in> set cs2) \<and> (ds1 \<noteq> ds2 \<longrightarrow> es = [])"
proof -
  obtain es k2 cs' where S: "dir_ok t d2 (ds2 @ es)" "changes (set (ds2 @ es) \<union> set cs2 \<union> set cs') s t"
    "\<forall>c \<in> set es \<union> set cs'. fatv s c = FAT32_FREE \<or> c \<in> set cs2" "undisturbed s ds2 t (ds2 @ es) n2"
    using assms(1) unfolding saved_def by blast
  have dj: "set cs \<inter> (set (ds2 @ es) \<union> set cs2 \<union> set cs') = {}" using S(3) assms(5,6) by auto
  have dc1: "dir_chain s d1 ds1" using assms(3) by (simp add: dir_ok_def)
  show ?thesis
  proof (cases "ds1 = ds2")
    case False
    then have "set ds1 \<inter> set ds2 = {}" using assms(8) by (simp add: other_file_def)
    then have "set ds1 \<inter> (set (ds2 @ es) \<union> set cs2 \<union> set cs') = {}"
      using S(3) assms(7) chain_last_nonfree [OF assms(3)] by auto
    then show ?thesis
      using changes_dir_ok [OF S(2) assms(2,3)] changes_file(2) [OF S(2) assms(2) dc1 _ dj] assms(4)
      by (intro exI [of _ "[]"]) simp
  next
    case True
    note g = changesD [OF S(2)]
    have dct: "dir_chain t d2 (ds2 @ es)" using S(1) by (simp add: dir_ok_def)
    have "ds1 ! 0 = d1" "(ds2 @ es) ! 0 = d2" using dc1 dct chain_hd by (auto simp: dir_chain_def)
    then have d: "d2 = d1" using True dc1 by (auto simp: dir_chain_def nth_append)
    have fi: "file_in s ds1 n1 k cs" using assms(4) by (simp add: stores_def)
    then obtain st where L: "lookup n1 s ds1 = Some (slot s ds1 k, pos_at (geo s) ds1 0 k, st)" and k: "k < slot_count (geo s) ds1"
      by (auto simp: file_in_def)
    have Lt: "lookup n1 t (ds1 @ es) = Some (slot s ds1 k, pos_at (geo s) ds1 0 k, st)"
      using S(4) assms(8) L True by (auto simp: undisturbed_def other_file_def)
    obtain i where i: "i < slot_count (geo t) (ds1 @ es)" "slot s ds1 k = slot t (ds1 @ es) i" "pos_at (geo s) ds1 0 k = pos_at (geo t) (ds1 @ es) 0 i"
      by (rule lookup_slot [OF Lt]) blast
    have K: "0 < clus_slots (geo s)" using good_volD(3) [OF assms(2)] by (simp add: clus_slots_def geo_ok_def)
    have p: "pos_at (geo s) ds1 0 k = pos_at (geo t) (ds1 @ es) 0 k" using slot_old(2) [OF K k] g(2) by simp
    have kt: "k < slot_count (geo t) (ds1 @ es)" using k g(2) by (simp add: slot_count_def add_mult_distrib2 trans_less_add1)
    have "i = k" using pos_at_eq [OF g(1) dct i(1) [unfolded True] kt [unfolded True], of 0 0] i(3) p True by simp
    then have sl: "slot t (ds1 @ es) k = slot s ds1 k" using i(2) by simp
    have v: "\<forall>c \<in> set cs. valid_cluster (geo s) c" using fi by (simp add: file_in_def)
    have "fatv t c = fatv s c" if "c \<in> set cs" for c
    proof -
      have "fat_index (geo s) c" "c \<notin> set (ds2 @ es) \<union> set cs2 \<union> set cs'" using v dj that valid_fat_index by blast+
      then show ?thesis using S(2) unfolding changes_def by blast
    qed
    then have "chain (fatv t) c cs = chain (fatv s) c cs" for c by (rule chain_cong)
    then have "file_in t (ds1 @ es) n1 k cs" using fi Lt sl p kt g(2) by (simp add: file_in_def)
    moreover have "file_bytes t cs 0 (length dat) = file_bytes s cs 0 (length dat)"
      by (rule changes_bytes [OF S(2) assms(2) v dj]) (use assms(4) in \<open>simp add: stores_def\<close>)
    ultimately have "stores t (ds1 @ es) n1 k cs dat" using assms(4) sl g(2) by (simp add: stores_def)
    then show ?thesis using S(1,3) True d by blast
  qed
qed

lemma disk_full_keeps:
  assumes "disk_full s t" "good_vol s" "dir_ok s d1 ds1" "stores s ds1 n1 k cs dat" "\<forall>c \<in> set cs. fatv s c \<noteq> FAT32_FREE"
  shows "dir_ok t d1 ds1 \<and> stores t ds1 n1 k cs dat"
proof -
  obtain c where c: "valid_cluster (geo s) c \<longrightarrow> fatv s c = FAT32_FREE" "changes {c} s t"
    using assms(1) unfolding disk_full_def by blast
  have dc: "dir_chain s d1 ds1" using assms(3) by (simp add: dir_ok_def)
  have "\<forall>x \<in> set cs. valid_cluster (geo s) x" "\<forall>x \<in> set ds1. valid_cluster (geo s) x"
    using assms(4) dc by (simp_all add: stores_def file_in_def dir_chain_def)
  then have "set cs \<inter> {c} = {}" "set ds1 \<inter> {c} = {}" using c(1) assms(5) chain_last_nonfree [OF assms(3)] by auto
  then show ?thesis using changes_dir_ok [OF c(2) assms(2,3)] changes_file(2) [OF c(2) assms(2) dc] assms(4) by blast
qed

section \<open>Sample file\<close>

text \<open>The sample volume with a file of 700 bytes on the clusters 3 and 5 in its root directory.\<close>

definition note_entry :: bytes where
  "note_entry = pack_dir ((make_e83 (ascii ''NOTES   TXT'') ATTR_ARCHIVE 3 700))"

definition note_disk :: "u32 \<Rightarrow> sector" where
  "note_disk = (\<lambda>_. zero_sector)(1 := sample_fat, 2 := sample_fat, 3 := sector_of note_entry)"

abbreviation note_vol :: vol where "note_vol \<equiv> sample_vol note_disk"

abbreviation note_name :: bytes where "note_name \<equiv> ascii ''notes.txt''"
abbreviation note_path :: bytes where "note_path \<equiv> ascii ''/notes.txt''"
abbreviation note_data :: bytes where "note_data \<equiv> file_bytes note_vol [3, 5] 0 700"

lemma note_path_dir: "path_dir (sample_vol d) note_path [] 2 note_name"
  by (simp add: path_dir_def path_comp_def ascii_def sample_geo_def)

lemma note_fat: "fatv note_vol 2 = FAT_MASK" "fatv note_vol 3 = 5" "fatv note_vol 4 = 0" "fatv note_vol 5 = FAT_MASK"
  by (simp_all add: fatv_def fat_copy_def copy_lba_def sec_view_def get32_def note_disk_def
      fat_offset_in_sector_def sample_defs of_le32_def)

lemma note_entry: "length note_entry = 32" "e_attr note_entry = ATTR_ARCHIVE" "take 11 note_entry = make_83 note_name"
    "unpack_dir note_entry = make_e83 (ascii ''NOTES   TXT'') ATTR_ARCHIVE 3 700" "\<not> slot_free note_entry"
proof -
  have l: "length (ascii ''NOTES   TXT'') = 11" by (simp add: ascii_def)
  note M = make_e83_fields [OF l, of ATTR_ARCHIVE 3 700, folded note_entry_def]
  have m: "make_83 note_name = ascii ''NOTES   TXT''" by code_simp
  show "length note_entry = 32" "e_attr note_entry = ATTR_ARCHIVE" "take 11 note_entry = make_83 note_name"
    "unpack_dir note_entry = make_e83 (ascii ''NOTES   TXT'') ATTR_ARCHIVE 3 700"
    using M(1-4) m by simp_all
  have "e_first note_entry = take 11 note_entry ! 0" by simp
  then show "\<not> slot_free note_entry" unfolding M(2) by (simp add: slot_free_def ascii_def)
qed

lemma note_slot: "slot note_vol [2] 0 = note_entry"
proof -
  have "slot_lba sample_geo [2] 0 = 3" by (simp add: slot_lba_def clus_slots_def cluster_to_lba_def sample_geo_def)
  then have "slot note_vol [2] 0 = slice (sector_of note_entry) 0 32"
    by (simp add: slot_def sec_view_def sample_vol_def sample_drive_def note_disk_def sample_geo_def)
  also have "\<dots> = note_entry" by (rule nth_equalityI) (simp_all add: note_entry(1) sector_of_def)
  finally show ?thesis .
qed

lemma note_lookup: "lookup note_name note_vol [2] = Some (slot note_vol [2] 0, pos_at (geo note_vol) [2] 0 0, pos_at (geo note_vol) [2] 0 0)"
proof -
  have "0 < slot_count (geo note_vol) [2]" by (simp add: slot_count_def clus_slots_def sample_geo_def)
  from drop_dir_listing [OF this, of 0]
  have "dir_listing note_vol [2] 0 = (note_entry, pos_at (geo note_vol) [2] 0 0) # drop (Suc 0) (dir_listing note_vol [2] 0)"
    by (simp add: note_slot)
  then have "lookup note_name note_vol [2] = find_in note_name (find_init (pos_at (geo note_vol) [2] 0 0))
      ((note_entry, pos_at (geo note_vol) [2] 0 0) # drop (Suc 0) (dir_listing note_vol [2] 0))" by metis
  then show ?thesis using note_entry by (simp add: find_init_def find_match_def slot_free_def note_slot)
qed

lemma note_slot_rest:
  assumes "0 < j" "j < 16"
  shows "slot note_vol [2] j = replicate 32 0"
proof -
  have "slot_lba sample_geo [2] j = 3"
    using assms by (simp add: slot_lba_def clus_slots_def cluster_to_lba_def sample_geo_def)
  then have "slot note_vol [2] j = slice (sector_of note_entry) (32 * j) 32"
    using assms by (simp add: slot_def sec_view_def sample_vol_def sample_drive_def note_disk_def sample_geo_def)
  also have "\<dots> = replicate 32 0"
    by (rule nth_equalityI) (use assms in \<open>simp_all add: note_entry(1) sector_of_def\<close>)
  finally show ?thesis .
qed

lemma note_dir: "dir_ok note_vol 2 [2]"
proof -
  have "list_all (\<lambda>e. e_first e = 0) (drop 1 (dir_slots note_vol [2]))"
    using note_slot_rest by (auto simp: list_all_length dir_slots_def slot_count_def clus_slots_def sample_geo_def)
  moreover have "dir_slots note_vol [2] = note_entry # drop 1 (dir_slots note_vol [2])"
    using drop_dir_slots [of 0 note_vol "[2]"] note_slot by (simp add: slot_count_def clus_slots_def sample_geo_def)
  ultimately have "end_ok (dir_slots note_vol [2])"
    using note_entry(5) end_ok_zero by (metis end_ok.simps(2) slot_free_def)
  then show ?thesis using note_fat(1) by (simp add: dir_ok_def dir_chain_def valid_cluster_def)
qed

lemma note_file: "file_in note_vol [2] note_name 0 [3, 5]"
  using note_lookup note_entry note_fat make_e83_fields(5) [of "ascii ''NOTES   TXT''" ATTR_ARCHIVE 3 700]
  by (simp add: file_in_def note_slot slot_count_def clus_slots_def sample_geo_def valid_cluster_def ascii_def fat_index_def)

lemma note_stores: "stores note_vol [2] note_name 0 [3, 5] note_data"
  using note_file note_entry(4) by (simp add: stores_def note_slot make_e83_def)

lemma sample_vol_fields:
  "vol_mounted (sample_vol d)" "\<not> vol_readonly (sample_vol d)" "length (fds (sample_vol d)) = FAT32_MAX_FD"
  "first_free_fd (sample_vol d) = Some 0" "heap_ptr (sample_vol d) = 0" "spc_ok (geo (sample_vol d))"
  by (simp_all add: sample_vol_def first_free_fd_def fd_zero_def spc_ok_def sample_geo_def)

lemma note_reaches: "reaches note_vol note_path [] 2 [2] note_name"
  by (simp add: reaches_def note_dir note_path_dir)

lemma note_target: "target note_vol [2] note_name [3, 5]"
  using note_file note_lookup by (auto simp: target_def)

text \<open>A name that is not in its directory.\<close>

abbreviation copy_name :: bytes where "copy_name \<equiv> ascii ''copy.txt''"
abbreviation copy_path :: bytes where "copy_path \<equiv> ascii ''/copy.txt''"

lemma copy_lookup: "lookup copy_name note_vol [2] = None"
proof -
  have c: "0 < slot_count (geo note_vol) [2]" "Suc 0 < slot_count (geo note_vol) [2]"
    by (simp_all add: slot_count_def clus_slots_def sample_geo_def)
  have "dir_listing note_vol [2] 0 = drop 0 (dir_listing note_vol [2] 0)" by simp
  then have l: "dir_listing note_vol [2] 0 = (note_entry, pos_at (geo note_vol) [2] 0 0) #
      (replicate 32 0, pos_at (geo note_vol) [2] 0 (Suc 0)) # drop (Suc (Suc 0)) (dir_listing note_vol [2] 0)"
    unfolding drop_dir_listing [OF c(1)] drop_dir_listing [OF c(2)] note_slot note_slot_rest [of "Suc 0", simplified] .
  have "make_83 copy_name \<noteq> make_83 note_name" by code_simp
  then have "\<not> find_match copy_name note_entry (find_init p)" for p
    using note_entry(3) by (simp add: find_match_def find_init_def)
  then show ?thesis by (subst l) (use note_entry(2,5) in \<open>simp add: slot_free_def\<close>)
qed

lemma copy_path_dir: "path_dir (sample_vol d) copy_path [] 2 copy_name"
  by (simp add: path_dir_def path_comp_def ascii_def sample_geo_def)

lemma copy_name_ok: "name_ok copy_name" "length copy_name = 8" "\<not> same_name note_name copy_name"
  by (simp_all add: name_ok_def ascii_def same_name_def f_toupper_def)

lemma copy_target: "reaches note_vol copy_path [] 2 [2] copy_name" "target note_vol [2] copy_name []"
  "other_file note_vol [2] note_name 0 [2] copy_name"
proof -
  show "reaches note_vol copy_path [] 2 [2] copy_name" by (simp add: reaches_def note_dir copy_path_dir)
  show "target note_vol [2] copy_name []" unfolding target_def copy_lookup
    by (simp add: copy_name_ok) (simp add: clus_slots_def sample_geo_def)
  show "other_file note_vol [2] note_name 0 [2] copy_name" unfolding other_file_def copy_lookup by (simp add: copy_name_ok)
qed

lemma note_used: "\<forall>c \<in> set [3, 5]. fatv note_vol c \<noteq> FAT32_FREE"
  by (simp add: note_fat)

section \<open>Properties\<close>

text \<open>C1: Writing a whole file. For a path that leads to a directory in order, naming a file that exists or
  a legal new name, \<open>fat32_write_file\<close> on a working drive returns. It answers \<open>FAT32_ERR_FULL\<close> only if at
  most one cluster was free, and then at most that cluster has changed; otherwise the path leads to a
  file with exactly the data (or with a prefix of it, when no cluster is left), on clusters that were
  free or the file's own, the file's other old clusters are free again, every other slot in use,
  every other FAT entry and every other data sector is unchanged, every other name that was found still
  leads to the same entry unless that is the entry written, and the descriptor is closed. The data is
  shorter than 2^31 bytes, a descriptor is free, and the clusters of the file are not those of a directory
  on the path.\<close>

theorem fat32_write_file_saves:
  assumes "good_vol s" "spc_ok (geo s)" "vol_mounted s" "\<not> vol_readonly s" "length (fds s) = FAT32_MAX_FD"
    and "first_free_fd s = Some fd" "reaches s path css d ds name" "target s ds name cs"
    and "\<Union> (set (map set css)) \<inter> set cs = {}" "unat len \<le> length buf" "unat len < 2 ^ 31"
  shows "(\<exists>t. fat32_write_file path buf len s = Some (FAT32_ERR_FULL, t) \<and> disk_full s t) \<or>
    (\<exists>w t. fat32_write_file path buf len s = Some (FAT32_OK, t) \<and> w \<le> len \<and> (w = len \<or> no_free t) \<and>
      saved s d ds name cs (take (unat w) buf) t \<and> path_dir t path css d name \<and>
      same_vol (upd_fd fd (\<lambda>_. fd_zero) s) t)"
proof -
  have R: "path_dir s path css d name" "dir_ok s d ds" using assms(7) by (simp_all add: reaches_def)
  show ?thesis
    using write_file_at [OF assms(1-6) R assms(8,10,11)] saved_path [OF _ assms(1,7-9)] by blast
qed

theorem fat32_write_file_saves_witness:
  "(\<exists>t. fat32_write_file note_path (replicate 1000 0x41) 1000 note_vol = Some (FAT32_ERR_FULL, t) \<and> disk_full note_vol t) \<or>
    (\<exists>w t. fat32_write_file note_path (replicate 1000 0x41) 1000 note_vol = Some (FAT32_OK, t) \<and> w \<le> (1000 :: u32) \<and> (w = 1000 \<or> no_free t) \<and>
      saved note_vol 2 [2] note_name [3, 5] (take (unat w) (replicate 1000 0x41)) t \<and> path_dir t note_path [] 2 note_name \<and>
      same_vol (upd_fd 0 (\<lambda>_. fd_zero) note_vol) t)"
  by (rule fat32_write_file_saves [OF good_sample_vol sample_vol_fields(6,1-4) note_reaches note_target]) simp_all

text \<open>C2: What was saved is loaded. \<open>fat32_write_file\<close> followed by \<open>fat32_read_file\<close> of the same path gives
  back the written bytes with the terminating zero and their number, for a new file and for one that
  is overwritten, whenever the heap has room for the buffer.\<close>

theorem write_file_read_file:
  assumes "good_vol s" "spc_ok (geo s)" "vol_mounted s" "\<not> vol_readonly s" "length (fds s) = FAT32_MAX_FD"
    and "first_free_fd s = Some fd" "reaches s path css d ds name" "target s ds name cs"
    and "\<Union> (set (map set css)) \<inter> set cs = {}" "unat len \<le> length buf" "unat len < 2 ^ 31"
  shows "(\<exists>t. fat32_write_file path buf len s = Some (FAT32_ERR_FULL, t) \<and> disk_full s t) \<or>
    (\<exists>w t. fat32_write_file path buf len s = Some (FAT32_OK, t) \<and> w \<le> len \<and> (w = len \<or> no_free t) \<and>
      (\<forall>p q. kmalloc_ptr (w + 1) (heap_ptr s) = (Some p, q) \<longrightarrow>
        (\<exists>u. fat32_read_file path t = Some (Some (take (unat w) buf @ [0], w), u))))"
proof -
  have R: "path_dir s path css d name" "dir_ok s d ds" using assms(7) by (simp_all add: reaches_def)
  have rd: "\<exists>u. fat32_read_file path t = Some (Some (take (unat w) buf @ [0], w), u)"
    if W: "saved s d ds name cs (take (unat w) buf) t" "same_vol (upd_fd fd (\<lambda>_. fd_zero) s) t" "w \<le> len"
      and km: "kmalloc_ptr (w + 1) (heap_ptr s) = (Some p, q)" for w t p q
  proof -
    let ?dat = "take (unat w) buf"
    have l: "length ?dat = unat w" using W(3) assms(10) by (simp add: word_le_nat_alt)
    then have ow: "(of_nat (length ?dat) :: u32) = w" by simp
    obtain es k cs' where S0: "dir_ok t d (ds @ es)" "stores t (ds @ es) name k cs' ?dat"
      "changes (set (ds @ es) \<union> set cs \<union> set cs') s t" using W(1) unfolding saved_def by blast
    note S = S0(1,2) changesD [OF S0(3)]
    have dc: "dir_chain t d (ds @ es)" using S(1) by (simp add: dir_ok_def)
    have "vol_mounted t" "length (fds t) = FAT32_MAX_FD" "heap_ptr t = heap_ptr s"
      using W(2) assms(3,5) by (simp_all add: same_vol_def) (simp_all add: upd_fd_def)
    moreover have "length ?dat < 2 ^ 31" using l W(3) assms(11) by (simp add: word_le_nat_alt)
    ultimately show ?thesis
      using read_file_at [OF S(3) _ _ _ first_free_closed [OF W(2) assms(6)] saved_path [OF W(1) assms(1,7-9)] dc S(2), of p q]
        km ow S(4) assms(2) by auto
  qed
  from write_file_at [OF assms(1-6) R assms(8,10,11)]
  consider t where "fat32_write_file path buf len s = Some (FAT32_ERR_FULL, t)" "disk_full s t"
    | w t where "fat32_write_file path buf len s = Some (FAT32_OK, t)" "w \<le> len" "w = len \<or> no_free t"
      "saved s d ds name cs (take (unat w) buf) t" "same_vol (upd_fd fd (\<lambda>_. fd_zero) s) t" by blast
  then show ?thesis
  proof cases
    case 2
    have "\<forall>p q. kmalloc_ptr (w + 1) (heap_ptr s) = (Some p, q) \<longrightarrow>
        (\<exists>u. fat32_read_file path t = Some (Some (take (unat w) buf @ [0], w), u))"
      by (intro allI impI) (rule rd [OF 2(4,5,2)])
    then show ?thesis using 2(1-3) by blast
  qed blast
qed

theorem write_file_read_file_witness:
  "(\<exists>t. fat32_write_file note_path (replicate 1000 0x41) 1000 note_vol = Some (FAT32_ERR_FULL, t) \<and> disk_full note_vol t) \<or>
    (\<exists>w t. fat32_write_file note_path (replicate 1000 0x41) 1000 note_vol = Some (FAT32_OK, t) \<and> w \<le> (1000 :: u32) \<and> (w = 1000 \<or> no_free t) \<and>
      (\<forall>p q. kmalloc_ptr (w + 1) (heap_ptr note_vol) = (Some p, q) \<longrightarrow>
        (\<exists>u. fat32_read_file note_path t = Some (Some (take (unat w) (replicate 1000 0x41) @ [0], w), u))))"
  by (rule write_file_read_file [OF good_sample_vol sample_vol_fields(6,1-4) note_reaches note_target]) simp_all

text \<open>C12: Appending keeps the old contents. For a file with the contents \<open>old\<close>, \<open>fat32_append_file\<close> rewrites the
  file with \<open>old\<close> followed by the new data; when the disk fills up on the way, the file ends where the
  space ended, which can be inside \<open>old\<close>.\<close>

theorem fat32_append_file_appends:
  assumes "good_vol s" "spc_ok (geo s)" "vol_mounted s" "\<not> vol_readonly s" "length (fds s) = FAT32_MAX_FD"
    and "first_free_fd s = Some fd" "path_dir s path css d name" "dir_ok s d ds" "set ds \<inter> set cs = {}" "stores s ds name k cs old"
    and "unat len \<le> length dat" "length old + unat len < 2 ^ 31"
    and "kmalloc_ptr (of_nat (length old) + len + 1) (heap_ptr s) = (Some p, q)"
  shows "(\<exists>t. fat32_append_file path dat len s = Some (FAT32_ERR_FULL, t) \<and> disk_full s t) \<or>
    (\<exists>n t. fat32_append_file path dat len s = Some (FAT32_OK, t) \<and> n \<le> length old + unat len \<and>
      (n = length old + unat len \<or> no_free t) \<and> saved s d ds name cs (take n (old @ take (unat len) dat)) t)"
  by (rule append_file_at [OF assms])

theorem fat32_append_file_appends_witness:
  "(\<exists>t. fat32_append_file note_path [1, 2, 3] 3 note_vol = Some (FAT32_ERR_FULL, t) \<and> disk_full note_vol t) \<or>
    (\<exists>n t. fat32_append_file note_path [1, 2, 3] 3 note_vol = Some (FAT32_OK, t) \<and> n \<le> length note_data + unat (3 :: u32) \<and>
      (n = length note_data + unat (3 :: u32) \<or> no_free t) \<and>
      saved note_vol 2 [2] note_name [3, 5] (take n (note_data @ take (unat (3 :: u32)) [1, 2, 3])) t)"
  by (rule fat32_append_file_appends [OF good_sample_vol sample_vol_fields(6,1-4) note_path_dir note_dir _ note_stores,
        where p = 0 and q = 704])
    (simp_all add: sample_vol_fields(5) kmalloc_ptr_def round4_def)

text \<open>C3: Writing a file leaves every other file alone. Whatever \<open>fat32_write_file\<close> answers, a file that
  is not the one written, in the same directory under another name or in another directory, is
  still found at its slot, on its clusters and with its contents, and its directory is in order.\<close>

theorem write_file_keeps_files:
  assumes "good_vol s" "spc_ok (geo s)" "vol_mounted s" "\<not> vol_readonly s" "length (fds s) = FAT32_MAX_FD"
    and "first_free_fd s = Some fd" "reaches s path css d ds name" "target s ds name cs"
    and "unat len \<le> length buf" "unat len < 2 ^ 31"
    and "dir_ok s d1 ds1" "stores s ds1 n1 k cs1 dat" "\<forall>c \<in> set cs1. fatv s c \<noteq> FAT32_FREE"
    and "set cs1 \<inter> (set ds \<union> set cs) = {}" "set ds1 \<inter> set cs = {}" "other_file s ds1 n1 k ds name"
  shows "\<exists>r t es. fat32_write_file path buf len s = Some (r, t) \<and> dir_ok t d1 (ds1 @ es) \<and> stores t (ds1 @ es) n1 k cs1 dat"
proof -
  have R: "path_dir s path css d name" "dir_ok s d ds" using assms(7) by (simp_all add: reaches_def)
  from write_file_at [OF assms(1-6) R assms(8-10)]
  consider t where "fat32_write_file path buf len s = Some (FAT32_ERR_FULL, t)" "disk_full s t"
    | w :: u32 and t where "fat32_write_file path buf len s = Some (FAT32_OK, t)" "saved s d ds name cs (take (unat w) buf) t" by blast
  then show ?thesis
  proof cases
    case 1
    have "dir_ok t d1 (ds1 @ []) \<and> stores t (ds1 @ []) n1 k cs1 dat"
      using disk_full_keeps [OF 1(2) assms(1,11-13)] by simp
    then show ?thesis using 1(1) by blast
  next
    case 2
    then show ?thesis using saved_keeps [OF 2(2) assms(1,11-16)] by blast
  qed
qed

theorem write_file_keeps_files_witness:
  "\<exists>r t es. fat32_write_file copy_path (replicate 500 0x41) 500 note_vol = Some (r, t) \<and> dir_ok t 2 ([2] @ es) \<and>
    stores t ([2] @ es) note_name 0 [3, 5] note_data"
  by (rule write_file_keeps_files [OF good_sample_vol sample_vol_fields(6,1-4) copy_target(1,2) _ _ note_dir note_stores note_used _ _
        copy_target(3)]) simp_all

end
