(* ===== verification/Fat_Unlink.thy ===== *)
theory Fat_Unlink
  imports Fat_Save
begin

text \<open>
  What \<open>fat32_unlink\<close> (\<open>src/fs/fat32_ops.c\<close> 510-541) does: it frees the clusters of the file and marks its
  short entry and the long-name slots before it as deleted.
\<close>

section \<open>The slots of an entry\<close>

text \<open>The position a lookup reports as the start is that of the first long-name slot of the entry.\<close>

definition lfn_run :: "(bytes \<times> 'p) list \<Rightarrow> nat \<Rightarrow> nat \<Rightarrow> bool" where
  "lfn_run xs j k \<longleftrightarrow> (\<forall>i. j \<le> i \<and> i < k \<longrightarrow> e_attr (fst (xs ! i)) = ATTR_LFN \<and> \<not> slot_free (fst (xs ! i)))"

lemma find_step_building:
  assumes "fs_building (find_step e p f)"
  shows "e_first e \<noteq> 0xE5 \<and> e_attr e = ATTR_LFN \<and>
    (fs_start (find_step e p f) = p \<or> fs_building f \<and> fs_start (find_step e p f) = fs_start f)"
  using assms
  by (auto simp: find_step_def find_lfn_def lfn_collect_def Let_def split: if_splits prod.splits)

lemma find_in_start:
  assumes "find_in name f zs = Some (e, pos, st)" "fs_building f \<longrightarrow> (\<exists>j < length pre. fs_start f = snd (pre ! j) \<and> lfn_run pre j (length pre))"
  shows "\<exists>j k. j \<le> k \<and> length pre \<le> k \<and> k < length (pre @ zs) \<and> (pre @ zs) ! k = (e, pos) \<and> st = snd ((pre @ zs) ! j) \<and>
    lfn_run (pre @ zs) j k \<and> find_in name f (take (k - length pre) zs) = None \<and>
    list_all (\<lambda>x. e_first (fst x) \<noteq> 0) (take (k - length pre) zs)"
  using assms
proof (induction name f zs arbitrary: pre rule: find_in.induct)
  case (2 name f x p xs)
  show ?case
  proof (cases "e_first x \<noteq> 0xE5 \<and> e_attr x \<noteq> ATTR_LFN \<and> find_match name x f")
    case True
    then have m: "x = e" "p = pos" "st = (if fs_building f then fs_start f else pos)"
      using "2.prems"(1) by (auto split: if_splits)
    show ?thesis
    proof (cases "fs_building f")
      case True
      then obtain j where "j < length pre" "fs_start f = snd (pre ! j)" "lfn_run pre j (length pre)" using "2.prems"(2) by blast
      then show ?thesis using m True
        by (intro exI [of _ j] exI [of _ "length pre"]) (auto simp: nth_append lfn_run_def)
    next
      case False
      then show ?thesis using m by (intro exI [of _ "length pre"]) (auto simp: lfn_run_def)
    qed
  next
    case False
    then have n: "e_first x \<noteq> 0" "find_in name (find_step x p f) xs = Some (e, pos, st)"
      using "2.prems"(1) by (auto split: if_splits)
    have inv: "fs_building (find_step x p f) \<longrightarrow> (\<exists>j < length (pre @ [(x, p)]). fs_start (find_step x p f) = snd ((pre @ [(x, p)]) ! j) \<and>
        lfn_run (pre @ [(x, p)]) j (length (pre @ [(x, p)])))"
    proof
      assume b: "fs_building (find_step x p f)"
      note B = find_step_building [OF b]
      have x: "e_attr x = ATTR_LFN" "\<not> slot_free x" using B n(1) by (auto simp: slot_free_def)
      show "\<exists>j < length (pre @ [(x, p)]). fs_start (find_step x p f) = snd ((pre @ [(x, p)]) ! j) \<and>
        lfn_run (pre @ [(x, p)]) j (length (pre @ [(x, p)]))"
      proof (cases "fs_start (find_step x p f) = p")
        case True
        then show ?thesis using x by (intro exI [of _ "length pre"]) (auto simp: lfn_run_def less_Suc_eq)
      next
        case False
        then obtain j where "j < length pre" "fs_start f = snd (pre ! j)" "lfn_run pre j (length pre)"
          "fs_start (find_step x p f) = fs_start f" using "2.prems"(2) B by blast
        then show ?thesis using x by (intro exI [of _ j]) (auto simp: nth_append lfn_run_def less_Suc_eq)
      qed
    qed
    obtain j k where I: "j \<le> k" "length (pre @ [(x, p)]) \<le> k" "k < length ((pre @ [(x, p)]) @ xs)"
      "((pre @ [(x, p)]) @ xs) ! k = (e, pos)" "st = snd (((pre @ [(x, p)]) @ xs) ! j)" "lfn_run ((pre @ [(x, p)]) @ xs) j k"
      "find_in name (find_step x p f) (take (k - length (pre @ [(x, p)])) xs) = None"
      "list_all (\<lambda>x. e_first (fst x) \<noteq> 0) (take (k - length (pre @ [(x, p)])) xs)"
      using "2.IH" [OF n(1) False n(2) inv] by blast
    have "k - length pre = Suc (k - length (pre @ [(x, p)]))" using I(2) by simp
    then have "find_in name f (take (k - length pre) ((x, p) # xs)) = None"
      "list_all (\<lambda>x. e_first (fst x) \<noteq> 0) (take (k - length pre) ((x, p) # xs))"
      using I(7,8) n(1) False by auto
    then show ?thesis using I by (intro exI [of _ j] exI [of _ k]) simp
  qed
qed simp

section \<open>A scan over deleted slots\<close>

lemma find_in_marked_init:
  assumes "list_all (\<lambda>x. e_first (fst x) = 0xE5) ds" "ds \<noteq> []"
  shows "find_in name f (ds @ zs) = find_in name (find_init p) zs"
proof -
  have "\<not> fs_building (find_init p)" by (simp add: find_init_def)
  then show ?thesis using find_in_deleted [OF assms, of name f] find_in_idle by metis
qed

lemma find_in_lfn_run:
  assumes "list_all (\<lambda>x. e_attr (fst x) = ATTR_LFN \<and> \<not> slot_free (fst x)) xs"
  shows "\<exists>g. \<forall>zs. find_in name f (xs @ zs) = find_in name g zs"
  using assms
proof (induction xs arbitrary: f)
  case (Cons x xs)
  obtain e p where x: "x = (e, p)" by fastforce
  then have "find_in name f ((x # xs) @ zs) = find_in name (find_step e p f) (xs @ zs)" for zs
    using Cons.prems by (simp add: slot_free_def)
  then show ?case using Cons.IH [of "find_step e p f"] Cons.prems by simp
qed auto

text \<open>A lookup that ends outside the deleted slots is not affected.\<close>

lemma find_in_marked_other:
  assumes "find_in nm f xs = Some (e, q, st)" "q \<noteq> snd (xs ! k)" "lfn_run xs j k" "j \<le> k" "k < length xs"
    and "list_all (\<lambda>x. e_first (fst x) \<noteq> 0) (take k xs)" "e_attr (fst (xs ! k)) \<noteq> ATTR_LFN"
    and "length ms = Suc k - j" "list_all (\<lambda>x. e_first (fst x) = 0xE5) ms"
  shows "find_in nm f (take j xs @ ms @ drop (Suc k) xs) = Some (e, q, st)"
proof -
  define R where "R = take (k - j) (drop j xs)"
  have xs: "xs = take j xs @ R @ xs ! k # drop (Suc k) xs"
    using assms(4,5) append_take_drop_id [of j xs] append_take_drop_id [of "k - j" "drop j xs"]
    by (simp add: R_def Cons_nth_drop_Suc)
  have "list_all (\<lambda>x. e_first (fst x) \<noteq> 0) (take j (take k xs))"
    using assms(6) unfolding list_all_iff by (blast dest: in_set_takeD)
  then have "list_all (\<lambda>x. e_first (fst x) \<noteq> 0) (take j xs)" using assms(4) by (simp add: min_absorb1)
  from find_in_split [OF this, of nm f] consider r where "\<And>zs. find_in nm f (take j xs @ zs) = Some r"
    | f' where "\<And>zs. find_in nm f (take j xs @ zs) = find_in nm f' zs" by blast
  then show ?thesis
  proof cases
    case 1
    have "find_in nm f xs = Some r" using arg_cong [OF xs, of "find_in nm f"] unfolding 1 .
    then show ?thesis using assms(1) 1 by simp
  next
    case 2
    have "list_all (\<lambda>x. e_attr (fst x) = ATTR_LFN \<and> \<not> slot_free (fst x)) R"
      using assms(3-5) by (auto simp: R_def lfn_run_def list_all_length)
    then obtain g where g: "\<And>zs. find_in nm f' (R @ zs) = find_in nm g zs" using find_in_lfn_run [of R nm f'] by blast
    obtain y p where y: "xs ! k = (y, p)" by fastforce
    have "find_in nm f xs = find_in nm g ((y, p) # drop (Suc k) xs)" using arg_cong [OF xs, of "find_in nm f"] unfolding 2 g y .
    then have "find_in nm g ((y, p) # drop (Suc k) xs) = Some (e, q, st)" using assms(1) by simp
    then have d: "find_in nm (find_step y p g) (drop (Suc k) xs) = Some (e, q, st)"
      using assms(2) y by (auto split: if_splits)
    have "\<not> fs_building (find_step y p g)" using assms(7) y by (simp add: find_step_def)
    moreover have "ms \<noteq> []" using assms(4,8) by auto
    then obtain h where h: "\<not> fs_building h" "\<And>zs. find_in nm f' (ms @ zs) = find_in nm h zs"
      using find_in_deleted [OF assms(9)] by blast
    ultimately have "find_in nm h (drop (Suc k) xs) = Some (e, q, st)" using d find_in_idle by metis
    then show ?thesis by (simp add: 2 h(2))
  qed
qed

section \<open>Marking slots as deleted\<close>

definition mark_deleted :: "nat \<Rightarrow> nat \<Rightarrow> bytes list \<Rightarrow> bytes list" where
  "mark_deleted j k es = map (\<lambda>m. if j \<le> m \<and> m \<le> k then 0xE5 # tl (es ! m) else es ! m) [0..<length es]"

lemma length_mark_deleted [simp]: "length (mark_deleted j k es) = length es"
  by (simp add: mark_deleted_def)

lemma mark_deleted_nth: "m < length es \<Longrightarrow> mark_deleted j k es ! m = (if j \<le> m \<and> m \<le> k then 0xE5 # tl (es ! m) else es ! m)"
  by (simp add: mark_deleted_def)

lemma mark_deleted_step: "j \<le> k \<Longrightarrow> k < length es \<Longrightarrow> mark_deleted (Suc j) k (es[j := 0xE5 # tl (es ! j)]) = mark_deleted j k es"
  by (rule nth_equalityI) (auto simp: mark_deleted_nth nth_list_update)

lemma mark_deleted_one: "k < length es \<Longrightarrow> es[k := 0xE5 # tl (es ! k)] = mark_deleted k k es"
  by (rule nth_equalityI) (auto simp: mark_deleted_nth nth_list_update)

lemma blit_first: "blit off [x] c = blit off (x # tl (slice c off 32)) c"
proof
  fix i
  have l: "slice c off 32 = c off # tl (slice c off 32)" by (simp add: slice_def upt_conv_Cons)
  have "(x # tl (slice c off 32)) ! Suc n = c (off + Suc n)" if "Suc n < 32" for n
    using nth_slice [OF that, of c off] l by (metis nth_Cons_Suc)
  then have "blit off [x] c (off + n) = blit off (x # tl (slice c off 32)) c (off + n)" for n
    by (cases n) (auto simp: blit_def)
  note n = this
  show "blit off [x] c i = blit off (x # tl (slice c off 32)) c i"
  proof (cases "off \<le> i")
    case True
    then obtain m where "i = off + m" using le_Suc_ex by blast
    then show ?thesis using n by simp
  qed (simp add: blit_def)
qed

lemma delete_write:
  assumes "dir_write_entry p (0xE5 # tl (slice (sec_view s (dp_lba p)) (unat (dp_off p)) 32)) s = (True, t)"
    and "sec_read (dp_lba p) s = (True, s1)" "sec_cache s1 = sec_view s (dp_lba p)"
  shows "cache_patch (unat (dp_off p)) [0xE5] s1 = (True, t)"
  using assms by (simp add: dir_write_entry_def cache_patch_def blit_first [of _ "0xE5"])

lemma delete_one:
  assumes "good_vol s" "dir_chain s c cs" "j < slot_count (geo s) cs"
  obtains s1 t where "sec_read (dp_lba (pos_at (geo s) cs i j)) s = (True, s1)"
    "cache_patch (unat (dp_off (pos_at (geo s) cs i j))) [0xE5] s1 = (True, t)"
    "writes_in (dir_sectors (geo s) cs) s t" "dir_slots t cs = (dir_slots s cs)[j := 0xE5 # tl (dir_slots s cs ! j)]"
proof -
  let ?p = "pos_at (geo s) cs i j"
  have p: "dp_lba ?p = slot_lba (geo s) cs j" "unat (dp_off ?p) = 32 * (j mod 16)"
    by (simp_all add: pos_at_def unat_slot_off)
  have "\<forall>k \<in> set cs. valid_cluster (geo s) k" using assms(2) by (simp add: dir_chain_def)
  note lba = slot_lba_data(2) [OF good_volD(3) [OF assms(1)] assms(3) this]
  obtain s1 where s1: "sec_read (slot_lba (geo s) cs j) s = (True, s1)" "sec_cache s1 = sec_view s (slot_lba (geo s) cs j)"
    by (rule sec_readO [OF assms(1) lba])
  have l: "length (0xE5 # tl (slot s cs j)) = 32" by simp
  obtain t where t: "dir_write_entry ?p (0xE5 # tl (slot s cs j)) s = (True, t)"
    "writes_in (dir_sectors (geo s) cs) s t" "dir_slots t cs = (dir_slots s cs)[j := 0xE5 # tl (slot s cs j)]"
    by (rule dir_write_at [OF assms l])
  have "cache_patch (unat (dp_off ?p)) [0xE5] s1 = (True, t)"
    by (rule delete_write [where p = ?p and s = s]) (use t(1) s1 p in \<open>simp_all add: slot_def\<close>)
  then show ?thesis using that s1(1) t(2,3) p(1) assms(3) by (simp add: dir_slots_nth)
qed

lemma delete_slots_at:
  assumes "good_vol s" "dir_chain s c cs" "j \<le> k" "k < slot_count (geo s) cs"
  shows "\<exists>t. delete_slots (pos_at (geo s) cs i j) (pos_at (geo s) cs i k) s = Some t \<and>
    writes_in (dir_sectors (geo s) cs) s t \<and> dir_slots t cs = mark_deleted j k (dir_slots s cs)"
  using assms
proof (induction "k - j" arbitrary: j s)
  case 0
  then have j: "j = k" by simp
  obtain s1 t where t: "sec_read (dp_lba (pos_at (geo s) cs i k)) s = (True, s1)"
    "cache_patch (unat (dp_off (pos_at (geo s) cs i k))) [0xE5] s1 = (True, t)"
    "writes_in (dir_sectors (geo s) cs) s t" "dir_slots t cs = (dir_slots s cs)[k := 0xE5 # tl (dir_slots s cs ! k)]"
    by (rule delete_one [OF 0(2,3,5)])
  have "delete_slots (pos_at (geo s) cs i k) (pos_at (geo s) cs i k) s = Some t"
    using t(1,2) by (subst delete_slots.simps) simp
  then show ?case using t(3,4) j 0(5) mark_deleted_one [of k "dir_slots s cs"] by simp
next
  case (Suc m)
  have j: "j < k" "j < slot_count (geo s) cs" "Suc j < slot_count (geo s) cs" using Suc.hyps(2) Suc.prems(4) by linarith+
  obtain s1 s2 where t: "sec_read (dp_lba (pos_at (geo s) cs i j)) s = (True, s1)"
    "cache_patch (unat (dp_off (pos_at (geo s) cs i j))) [0xE5] s1 = (True, s2)"
    "writes_in (dir_sectors (geo s) cs) s s2" "dir_slots s2 cs = (dir_slots s cs)[j := 0xE5 # tl (dir_slots s cs ! j)]"
    by (rule delete_one [OF Suc.prems(1,2) j(2)])
  have g2: "good_vol s2" "geo s2 = geo s" using t(3) by (simp_all add: writes_in_def same_vol_geo)
  note c2 = writes_in_chain [OF t(3) Suc.prems(2)]
  obtain s3 p where n: "dir_next (pos_at (geo s) cs i j) s2 = Some ((True, pos_at (geo s) cs i (Suc j)), s3)" "reads_only s2 s3"
    using dir_next_at [OF g2(1) c2, of j] j g2(2) unfolding reads_only_def by metis
  have g3: "good_vol s3" "geo s3 = geo s" using n(2) reads_only_geo [OF n(2)] g2(2) by (simp_all add: reads_only_def)
  note L3 = dir_listing_cong [OF n(2) g2(1) c2]
  have "m = k - Suc j" "Suc j \<le> k" "k < slot_count (geo s3) cs" using Suc.hyps(2) Suc.prems(4) j(1) g3(2) by simp_all
  from Suc.hyps(1) [OF this(1) g3(1) L3(3) this(2,3)]
  obtain t' where u: "delete_slots (pos_at (geo s) cs i (Suc j)) (pos_at (geo s) cs i k) s3 = Some t'"
    "writes_in (dir_sectors (geo s) cs) s3 t'" "dir_slots t' cs = mark_deleted (Suc j) k (dir_slots s3 cs)"
    unfolding g3(2) by blast
  have ne: "\<not> (dp_lba (pos_at (geo s) cs i j) = dp_lba (pos_at (geo s) cs i k) \<and>
      dp_off (pos_at (geo s) cs i j) = dp_off (pos_at (geo s) cs i k))"
    using pos_at_eq [OF Suc.prems(1,2) j(2) Suc.prems(4), of i i] j(1) by simp
  have "delete_slots (pos_at (geo s) cs i j) (pos_at (geo s) cs i k) s = Some t'"
    using t(1,2) n(1) u(1) ne by (subst delete_slots.simps) auto
  moreover have "writes_in (dir_sectors (geo s) cs) s t'"
    by (rule writes_in_trans [OF t(3) writes_in_trans [OF reads_writes_in [OF n(2) g2(1)] u(2)]])
  moreover have "dir_slots t' cs = mark_deleted j k (dir_slots s cs)"
    using u(3) L3(2) t(4) mark_deleted_step [of j k "dir_slots s cs"] j(1) Suc.prems(4) by simp
  ultimately show ?case by blast
qed

lemma end_ok_marked:
  assumes "end_ok es" "k < length es" "list_all (\<lambda>e. e_first e \<noteq> 0) (take (Suc k) es)"
  shows "end_ok (mark_deleted j k es)"
proof -
  have "mark_deleted j k es = take (Suc k) (mark_deleted j k es) @ drop (Suc k) es"
    by (rule nth_equalityI) (use assms(2) in \<open>auto simp: mark_deleted_nth nth_append\<close>)
  moreover have "list_all (\<lambda>e. e_first e \<noteq> 0) (take (Suc k) (mark_deleted j k es))"
    using assms(2,3) by (auto simp: list_all_length mark_deleted_nth)
  ultimately show ?thesis using end_ok_nonzero end_ok_drop [OF assms(1)] by metis
qed

text \<open>What the lookup of any name answers once the slots up to the entry that was found are deleted.\<close>

lemma find_in_marked:
  assumes "find_in name f (take k xs) = None" "list_all (\<lambda>x. e_first (fst x) \<noteq> 0) (take k xs)" "j \<le> k" "k < length xs"
    and "ys = take j xs @ ms @ drop (Suc k) xs" "length ms = Suc k - j" "list_all (\<lambda>x. e_first (fst x) = 0xE5) ms"
  shows "find_in name f ys = find_in name (find_init p) (drop (Suc k) xs)"
proof -
  obtain zs where t: "take k xs = take j xs @ zs"
    using append_take_drop_id [of j "take k xs"] assms(3) by (metis min.absorb1 take_take)
  have "list_all (\<lambda>x. e_first (fst x) \<noteq> 0) (take j xs)" using assms(2) t by simp
  moreover have "find_in name f (take j xs @ zs) = None" using assms(1) t by simp
  ultimately obtain f' where "\<forall>zs. find_in name f (take j xs @ zs) = find_in name f' zs"
    using find_in_prefix by blast
  moreover have "ms \<noteq> []" using assms(3,6) by auto
  ultimately show ?thesis using find_in_marked_init [OF assms(7)] assms(5) by simp
qed

section \<open>Removing a file\<close>

lemma lookup_start:
  assumes "good_vol s" "dir_chain s c cs" "k < slot_count (geo s) cs"
    and "lookup name s cs = Some (slot s cs k, pos_at (geo s) cs 0 k, st)"
  obtains j where "j \<le> k" "st = pos_at (geo s) cs 0 j" "lfn_run (dir_listing s cs 0) j k"
    "find_in name (find_init (pos_at (geo s) cs 0 0)) (take k (dir_listing s cs 0)) = None"
    "list_all (\<lambda>x. e_first (fst x) \<noteq> 0) (take k (dir_listing s cs 0))"
proof -
  let ?xs = "dir_listing s cs 0"
  have "\<not> fs_building (find_init (pos_at (geo s) cs 0 0))" by (simp add: find_init_def)
  then obtain j k' where I: "j \<le> k'" "k' < length ?xs" "?xs ! k' = (slot s cs k, pos_at (geo s) cs 0 k)" "st = snd (?xs ! j)"
    "lfn_run ?xs j k'" "find_in name (find_init (pos_at (geo s) cs 0 0)) (take k' ?xs) = None"
    "list_all (\<lambda>x. e_first (fst x) \<noteq> 0) (take k' ?xs)"
    using find_in_start [OF assms(4), of "[]"] by auto
  then have "pos_at (geo s) cs 0 k' = pos_at (geo s) cs 0 k" by (simp add: dir_listing_def)
  then have "k' = k" using pos_at_eq [OF assms(1,2) _ assms(3), of k' 0 0] I(2) by simp
  then show ?thesis using that [of j] I by (simp add: dir_listing_def)
qed

lemma listing_marked:
  assumes "geo t = geo s" "dir_slots t cs = mark_deleted j k (dir_slots s cs)" "j \<le> k" "k < slot_count (geo s) cs"
  shows "\<exists>ms. dir_listing t cs 0 = take j (dir_listing s cs 0) @ ms @ drop (Suc k) (dir_listing s cs 0) \<and>
    length ms = Suc k - j \<and> list_all (\<lambda>x. e_first (fst x) = 0xE5) ms"
proof (intro exI conjI)
  let ?ms = "map (\<lambda>m. (0xE5 # tl (slot s cs m), pos_at (geo s) cs 0 m)) [j..<Suc k]"
  have sl: "slot t cs m = (if j \<le> m \<and> m \<le> k then 0xE5 # tl (slot s cs m) else slot s cs m)" if "m < slot_count (geo s) cs" for m
    using arg_cong [OF assms(2), of "\<lambda>xs. xs ! m"] that by (simp add: dir_slots_nth assms(1) mark_deleted_nth)
  show "dir_listing t cs 0 = take j (dir_listing s cs 0) @ ?ms @ drop (Suc k) (dir_listing s cs 0)"
  proof (rule nth_equalityI)
    show "length (dir_listing t cs 0) = length (take j (dir_listing s cs 0) @ ?ms @ drop (Suc k) (dir_listing s cs 0))"
      using assms(3,4) by (simp add: assms(1) del: upt_Suc)
    fix m assume "m < length (dir_listing t cs 0)"
    then have m: "m < slot_count (geo s) cs" by (simp add: assms(1))
    have e: "m - j < Suc k - j \<longleftrightarrow> m \<le> k" if "j \<le> m" using that assms(3) by linarith
    consider "m < j" | "j \<le> m" "m \<le> k" | "k < m" "j \<le> m" using assms(3) by linarith
    then show "dir_listing t cs 0 ! m = (take j (dir_listing s cs 0) @ ?ms @ drop (Suc k) (dir_listing s cs 0)) ! m"
      by cases (use m sl assms e in \<open>simp_all add: dir_listing_def nth_append del: upt_Suc\<close>)
  qed
  show "length ?ms = Suc k - j" by (simp del: upt_Suc)
  show "list_all (\<lambda>x. e_first (fst x) = 0xE5) ?ms" by (simp add: list_all_iff del: upt_Suc)
qed

text \<open>
  The file is gone: its clusters are free, the slots \<open>j \<dots> k\<close> of its entry are marked and nothing else has
  changed; a lookup of its name answers what the rest of the directory answers, and every lookup that led
  to another slot still does.
\<close>

definition removed :: "vol \<Rightarrow> u32 \<Rightarrow> u32 list \<Rightarrow> bytes \<Rightarrow> nat \<Rightarrow> nat \<Rightarrow> u32 list \<Rightarrow> vol \<Rightarrow> bool" where
  "removed s d ds name j k cs t \<longleftrightarrow> j \<le> k \<and> lfn_run (dir_listing s ds 0) j k \<and> same_vol s t \<and> dir_ok t d ds \<and>
     dir_slots t ds = mark_deleted j k (dir_slots s ds) \<and> changes (set ds \<union> set cs) s t \<and>
     (\<forall>c. fat_index (geo s) c \<longrightarrow> fatv t c = (if c \<in> set cs then FAT32_FREE else fatv s c)) \<and>
     (\<forall>nm e q st. q \<noteq> pos_at (geo s) ds 0 k \<longrightarrow> lookup nm s ds = Some (e, q, st) \<longrightarrow> lookup nm t ds = Some (e, q, st)) \<and>
     lookup name t ds = find_in name (find_init (pos_at (geo s) ds 0 0)) (drop (Suc k) (dir_listing s ds 0))"

lemma fat32_unlink_at:
  assumes "good_vol s" "vol_mounted s" "path_dir s path css d name" "dir_ok s d ds" "file_in s ds name k cs" "set ds \<inter> set cs = {}"
  shows "\<exists>j t. fat32_unlink path s = Some (FAT32_OK, t) \<and> removed s d ds name j k cs t"
proof -
  let ?e = "slot s ds k"
  have dc: "dir_chain s d ds" and eo: "end_ok (dir_slots s ds)" using assms(4) by (simp_all add: dir_ok_def)
  obtain st where fi: "k < slot_count (geo s) ds" "e_attr ?e AND ATTR_DIR = 0"
    "lookup name s ds = Some (?e, pos_at (geo s) ds 0 k, st)" "chain (fatv s) (entry_cluster (unpack_dir ?e)) cs"
    "\<forall>c \<in> set cs. valid_cluster (geo s) c" using assms(5) by (auto simp: file_in_def)
  obtain j where j: "j \<le> k" "st = pos_at (geo s) ds 0 j" "lfn_run (dir_listing s ds 0) j k"
    "find_in name (find_init (pos_at (geo s) ds 0 0)) (take k (dir_listing s ds 0)) = None"
    "list_all (\<lambda>x. e_first (fst x) \<noteq> 0) (take k (dir_listing s ds 0))"
    by (rule lookup_start [OF assms(1) dc fi(1,3)])
  obtain s1 where s1: "path_resolve_parent path s = Some ((d, name), s1)" "reads_only s s1"
    using path_resolve_at [OF assms(1,3)] by blast
  note L1 = dir_listing_cong [OF s1(2) assms(1) dc] and G1 = reads_only_geo [OF s1(2)]
  have g1: "good_vol s1" using s1(2) by (simp add: reads_only_def)
  obtain s2 where s2: "dir_find d name s1 = Some (Some (?e, pos_at (geo s) ds 0 k, st), s2)" "reads_only s1 s2"
    using dir_find_listing [OF g1 L1(3), of name] fi(3) unfolding G1 L1(1) by auto
  have r2: "reads_only s s2" by (rule reads_only_trans [OF s1(2) s2(2)])
  have c2: "changes {} s s2" by (rule reads_changes [OF r2 assms(1)])
  have g2: "good_vol s2" "geo s2 = geo s" using changesD [OF c2] by simp_all
  have f2: "fatv s2 c = fatv s c" if "fat_index (geo s) c" for c using c2 that by (simp add: changes_def)
  have "chain (fatv s2) (entry_cluster (unpack_dir ?e)) cs"
    using fi(4,5) f2 valid_fat_index by (subst chain_cong [of cs _ "fatv s"]) auto
  moreover have "\<forall>c \<in> set cs. valid_cluster (geo s2) c" using fi(5) g2(2) by simp
  ultimately obtain s3 where s3: "(if entry_cluster (unpack_dir ?e) \<ge> 2 then fat_free_chain (entry_cluster (unpack_dir ?e)) s2 else Some s2) = Some s3"
    "same_vol s2 s3" "good_vol s3" "\<And>c. fat_index (geo s) c \<Longrightarrow> fatv s3 c = (if c \<in> set cs then FAT32_FREE else fatv s2 c)"
    "\<And>a. a \<noteq> NO_LBA \<Longrightarrow> vol_data_lba (geo s) \<le> a \<Longrightarrow> sec_view s3 a = sec_view s2 a"
    using free_old [OF g2(1)] unfolding g2(2) by blast
  have g3: "geo s3 = geo s" using s3(2) g2(2) by (simp add: same_vol_geo)
  have "changes (set cs) s2 s3" using s3(3-5) g3 g2(2) by (simp add: changes_def)
  then have c3: "changes (set cs) s s3" using changes_trans [OF c2] by simp
  note D3 = changes_dir [OF c3 assms(1) dc assms(6)]
  have "j \<le> k" "k < slot_count (geo s3) ds" using j(1) fi(1) g3 by simp_all
  from delete_slots_at [OF s3(3) D3(1) this, of 0]
  obtain t where t: "delete_slots (pos_at (geo s) ds 0 j) (pos_at (geo s) ds 0 k) s3 = Some t"
    "writes_in (dir_sectors (geo s3) ds) s3 t" "dir_slots t ds = mark_deleted j k (dir_slots s ds)"
    unfolding g3 D3(2) by blast
  have gt: "geo t = geo s" using writes_in_geo [OF t(2)] g3 by simp
  have "\<forall>c \<in> set ds. valid_cluster (geo s3) c" using D3(1) by (simp add: dir_chain_def)
  then have ct: "changes (set ds) s3 t" by (rule writes_changes [OF t(2)])
  have ft: "fatv t c = (if c \<in> set cs then FAT32_FREE else fatv s c)" if "fat_index (geo s) c" for c
    using t(2) s3(4) f2 that g3 by (simp add: writes_in_def)
  have dct: "dir_chain t d ds" by (rule writes_in_chain [OF t(2) D3(1)])
  have l: "last ds \<in> set ds" "fat_index (geo s) (last ds)" using dc by (simp_all add: dir_chain_def valid_fat_index)
  have "last ds \<notin> set cs" using l(1) assms(6) by blast
  then have "fatv t (last ds) \<noteq> FAT32_FREE" using ft [OF l(2)] assms(4) by (simp add: dir_ok_def)
  moreover have "end_ok (dir_slots t ds)"
    unfolding t(3)
  proof (rule end_ok_marked [OF eo])
    have "list_all (\<lambda>e. e_first e \<noteq> 0) (map fst (take k (dir_listing s ds 0)))"
      using j(5) by (simp add: list.pred_map comp_def)
    then have "list_all (\<lambda>e. e_first e \<noteq> 0) (take k (dir_slots s ds))" by (simp add: take_map [symmetric])
    moreover have "e_first ?e \<noteq> 0" using lookup_slot [OF fi(3)] by (metis slot_free_def)
    ultimately show "list_all (\<lambda>e. e_first e \<noteq> 0) (take (Suc k) (dir_slots s ds))"
      using fi(1) by (simp add: take_Suc_conv_app_nth dir_slots_nth)
  qed (use fi(1) in simp)
  ultimately have dk: "dir_ok t d ds" using dct by (simp add: dir_ok_def)
  obtain ms where ms: "dir_listing t ds 0 = take j (dir_listing s ds 0) @ ms @ drop (Suc k) (dir_listing s ds 0)"
    "length ms = Suc k - j" "list_all (\<lambda>x. e_first (fst x) = 0xE5) ms"
    using listing_marked [OF gt t(3) j(1) fi(1)] by blast
  have lk: "lookup name t ds = find_in name (find_init (pos_at (geo s) ds 0 0)) (drop (Suc k) (dir_listing s ds 0))"
    unfolding gt by (rule find_in_marked [OF j(4,5,1) _ ms]) (use fi(1) in simp)
  have ot: "lookup nm t ds = Some (e, q, st')"
    if "q \<noteq> pos_at (geo s) ds 0 k" "lookup nm s ds = Some (e, q, st')" for nm e q st'
  proof -
    have "e_attr ?e \<noteq> ATTR_LFN" using lookup_slot [OF fi(3)] by metis
    then show ?thesis unfolding ms(1) gt
      using find_in_marked_other [OF that(2) _ j(3,1) _ j(5) _ ms(2,3)] that(1) fi(1) by (simp add: dir_listing_def)
  qed
  have nz: "d \<noteq> 0" "name \<noteq> []" using assms(3) by (simp_all add: path_dir_def)
  have "fat32_unlink path s = Some (FAT32_OK, t)"
    unfolding fat32_unlink_def using assms(2) s1(1) nz s2(1) fi(2) s3(1) t(1) j(2) by (simp add: Let_def)
  moreover have "same_vol s t"
    using r2 s3(2) t(2) same_vol_trans by (metis reads_only_def writes_in_def)
  moreover have "changes (set ds \<union> set cs) s t" by (rule changes_mono [OF changes_trans [OF c3 ct]]) auto
  ultimately show ?thesis using j(1,3) dk t(3) ft lk ot unfolding removed_def by blast
qed

section \<open>Properties\<close>

text \<open>C9: Removing a file. \<open>fat32_unlink\<close> of a path that names a file answers \<open>FAT32_OK\<close>; exactly the clusters of
  the file become free, exactly the slots of its entry, the short one and the long-name slots in
  front of it, are marked as deleted, the directory stays in order and nothing else in the FAT (its first copy) or in
  the data area changes, so that every lookup that led to another entry still leads there. The name is then looked up in what follows the entry, so unless it occurs there once more,
  opening the path for reading answers \<open>FAT32_ERR_NOTFOUND\<close>.\<close>

theorem fat32_unlink_removes:
  assumes "good_vol s" "vol_mounted s" "first_free_fd s \<noteq> None" "reaches s path css d ds name" "file_in s ds name k cs"
    and "set ds \<inter> set cs = {}" "\<Union> (set (map set css)) \<inter> set cs = {}"
  shows "\<exists>j t. fat32_unlink path s = Some (FAT32_OK, t) \<and> removed s d ds name j k cs t \<and> path_dir t path css d name \<and>
    (find_in name (find_init (pos_at (geo s) ds 0 0)) (drop (Suc k) (dir_listing s ds 0)) = None \<longrightarrow>
      (\<exists>u. fat32_open path False t = Some (Inl FAT32_ERR_NOTFOUND, u)))"
proof -
  have R: "path_dir s path css d name" "dir_ok s d ds" using assms(4) by (simp_all add: reaches_def)
  obtain j t where t: "fat32_unlink path s = Some (FAT32_OK, t)" "removed s d ds name j k cs t"
    using fat32_unlink_at [OF assms(1,2) R assms(5,6)] by blast
  have T: "changes (set ds \<union> set cs) s t" "same_vol s t" "dir_ok t d ds"
    "lookup name t ds = find_in name (find_init (pos_at (geo s) ds 0 0)) (drop (Suc k) (dir_listing s ds 0))"
    using t(2) by (simp_all add: removed_def)
  have "\<Union> (set (map set css)) \<inter> (set ds \<union> set cs) = {}" using assms(4,7) by (auto simp: reaches_def)
  then have p: "path_dir t path css d name" by (rule path_dir_changes [OF R(1) T(1) assms(1)])
  have g: "good_vol t" by (rule changesD(1) [OF T(1)])
  have dc: "dir_chain t d ds" using T(3) by (simp add: dir_ok_def)
  have "\<exists>u. fat32_open path False t = Some (Inl FAT32_ERR_NOTFOUND, u)" if "lookup name t ds = None"
  proof -
    obtain u where "path_stat path t = Some (None, u)" using path_stat_at [OF g p dc] \<open>lookup name t ds = None\<close> by auto
    moreover have "vol_mounted t" "first_free_fd t \<noteq> None"
      using T(2) assms(2,3) by (simp_all add: same_vol_def first_free_fd_def)
    ultimately show ?thesis by (auto simp: fat32_open_def)
  qed
  then show ?thesis using t p T(4) by auto
qed

theorem fat32_unlink_removes_witness:
  "\<exists>j t. fat32_unlink note_path note_vol = Some (FAT32_OK, t) \<and> removed note_vol 2 [2] note_name j 0 [3, 5] t \<and>
    path_dir t note_path [] 2 note_name \<and>
    (find_in note_name (find_init (pos_at (geo note_vol) [2] 0 0)) (drop (Suc 0) (dir_listing note_vol [2] 0)) = None \<longrightarrow>
      (\<exists>u. fat32_open note_path False t = Some (Inl FAT32_ERR_NOTFOUND, u)))"
  by (rule fat32_unlink_removes [OF good_sample_vol sample_vol_fields(1) _ note_reaches note_file])
    (simp_all add: sample_vol_fields(4))

end
