(* ===== verification/Fat_Copy.thy ===== *)
theory Fat_Copy
  imports Fat_Unlink
begin

text \<open>
  Copying and renaming (\<open>src/fs/fat32_ops.c\<close> 543-573): two open files at a time, one read and one written
  in turn, and the removal of the source.
\<close>

section \<open>The reader\<close>

text \<open>Descriptor \<open>fd\<close> reads the bytes \<open>dat\<close> of the clusters \<open>cs\<close>, and \<open>p\<close> of them have been read.\<close>

definition reading :: "vol \<Rightarrow> nat \<Rightarrow> u32 list \<Rightarrow> bytes \<Rightarrow> nat \<Rightarrow> bool" where
  "reading t fd cs dat p \<longleftrightarrow> good_vol t \<and> fd < FAT32_MAX_FD \<and> fd < length (fds t) \<and> fd_open (fds t ! fd) \<and>
     \<not> fd_write (fds t ! fd) \<and> unat (fd_pos (fds t ! fd)) = p \<and> unat (fd_size (fds t ! fd)) = length dat \<and> p \<le> length dat \<and>
     length dat \<le> length cs * clus_bytes (geo t) \<and> file_bytes t cs 0 (length dat) = dat \<and>
     (\<forall>c \<in> set cs. valid_cluster (geo t) c \<and> fatv t c \<noteq> FAT32_FREE) \<and> (cs \<noteq> [] \<longrightarrow> open_file t fd cs p)"

lemma file_bytes_part:
  assumes "file_bytes s cs 0 (length dat) = dat" "p + n \<le> length dat"
  shows "file_bytes s cs p n = take n (drop p dat)"
proof -
  have "file_bytes s cs 0 (p + (n + (length dat - (p + n)))) = dat" using assms by simp
  then have "file_bytes s cs 0 p @ file_bytes s cs p n @ file_bytes s cs (p + n) (length dat - (p + n)) = dat"
    by (simp only: file_bytes_add add_0)
  then have "drop p dat = file_bytes s cs p n @ file_bytes s cs (p + n) (length dat - (p + n))"
    by (metis append_eq_conv_conj length_file_bytes)
  then show ?thesis by simp
qed

lemma reading_step:
  assumes "reading t fd cs dat p" "spc_ok (geo t)"
  shows "\<exists>u. fat32_read (int fd) 512 t = Some (Inr (take 512 (drop p dat)), u) \<and> fd_reads fd (fds u ! fd) t u \<and>
    reading u fd cs dat (p + length (take 512 (drop p dat)))"
proof -
  note R = assms(1) [unfolded reading_def]
  have g: "good_vol t" using R by simp
  show ?thesis
  proof (cases "p < length dat")
    case False
    then have "p = length dat" using R by simp
    moreover from this have "fat32_read (int fd) 512 t = Some (Inr [], t)"
      using R by (simp add: fat32_read_def fd_valid_def word_le_nat_alt)
    ultimately show ?thesis using assms(1) fd_reads_same [OF g] by (intro exI [of _ t]) simp
  next
    case True
    define n where "n = min 512 (length dat - p)"
    have pn: "p + n \<le> length dat" using True by (simp add: n_def)
    have tk: "take n (drop p dat) = take 512 (drop p dat)" by (simp add: n_def min_def)
    have ln: "length (take 512 (drop p dat)) = n" by (simp add: n_def)
    have "cs \<noteq> []" using True R by auto
    then have op: "open_file t fd cs p" using R by simp
    obtain u d where u: "fat32_read (int fd) 512 t = Some (Inr (file_bytes t cs p n), u)"
      "fd_reads fd ((fds t ! fd)\<lparr>fd_pos := fd_pos (fds u ! fd), fd_cur_cluster := d\<rparr>) t u" "open_file u fd cs (p + n)"
      using fat32_read_at [OF g assms(2) op, of 512] R by (auto simp: n_def)
    note U = fd_readsD [OF u(2) g]
    have fu: "fds u ! fd = (fds t ! fd)\<lparr>fd_pos := fd_pos (fds u ! fd), fd_cur_cluster := d\<rparr>" using U(4) R by blast
    have v: "\<forall>c \<in> set cs. valid_cluster (geo u) c \<and> fatv u c \<noteq> FAT32_FREE"
      using R U(2,6) valid_fat_index by simp
    have "dir_chain t (fd_cluster (fds t ! fd)) cs" using op by (simp add: open_file_def file_at_def)
    from fd_reads_bytes [OF u(2) g this, of 0 "length dat"]
    have b: "file_bytes u cs 0 (length dat) = dat" using R by simp
    have pos: "unat (fd_pos (fds u ! fd)) = p + n" using u(3) by (simp add: open_file_def fd_on_def)
    have fs: "fd_open (fds u ! fd)" "\<not> fd_write (fds u ! fd)" "fd_size (fds u ! fd) = fd_size (fds t ! fd)"
      by (subst fu, use R in simp)+
    have "reading u fd cs dat (p + n)"
      using R U(1-3) v b pos fs u(3) pn by (simp add: reading_def)
    then show ?thesis
      using u(1,2) file_bytes_part [OF _ pn, of t cs] R fu tk ln by auto
  qed
qed

text \<open>Changes elsewhere on the disk do not disturb it.\<close>

lemma reading_changes:
  assumes "reading s fd cs dat p" "changes K s t" "set cs \<inter> K = {}" "fds t ! fd = fds s ! fd" "length (fds t) = length (fds s)"
  shows "reading t fd cs dat p"
proof -
  note R = assms(1) [unfolded reading_def]
  have g: "good_vol s" using R by simp
  note G = changesD [OF assms(2)]
  have v: "\<forall>c \<in> set cs. valid_cluster (geo s) c" using R by simp
  have f: "fatv t c = fatv s c" if "c \<in> set cs" for c
    using assms(2,3) v that valid_fat_index unfolding changes_def by blast
  have b: "file_bytes t cs 0 (length dat) = dat"
    using changes_bytes [OF assms(2) g v assms(3), of 0 "length dat"] R by simp
  have "open_file t fd cs p" if "open_file s fd cs p"
    using that changes_dir(1) [OF assms(2) g _ assms(3)] assms(4,5) G(2)
    by (simp add: open_file_def file_at_def fd_on_def)
  then show ?thesis using R G f b assms(4,5) by (simp add: reading_def)
qed

section \<open>Two descriptors\<close>

lemma fds_other: "i \<noteq> j \<Longrightarrow> fds (upd_fd i h s) ! j = fds s ! j"
  by (simp add: upd_fd_def)

lemma upd_fd_commute: "i \<noteq> j \<Longrightarrow> upd_fd i g (upd_fd j h s) = upd_fd j h (upd_fd i g s)"
  by (simp add: upd_fd_def list_update_swap)

lemma upd_fd_again: "upd_fd i (\<lambda>_. a) (upd_fd i h s) = upd_fd i (\<lambda>_. a) s"
  by (simp add: upd_fd_def)

text \<open>What descriptor \<open>j\<close> has written stands when descriptor \<open>i\<close> reads on.\<close>

lemma wrote_to_reads:
  assumes "wrote_to j c (upd_fd i (\<lambda>_. a) s) cs p bs t cs'" "fd_reads i b t u" "i \<noteq> j" "good_vol s"
  shows "wrote_to j c (upd_fd i (\<lambda>_. b) s) cs p bs u cs'"
proof -
  note W = assms(1) [unfolded wrote_to_def]
  have w: "written s cs p bs t cs'" and fc: "file_chain t c cs'" using W by simp_all
  have gt: "good_vol t" "geo t = geo s" using w by (simp_all add: written_def)
  note U = fd_readsD [OF assms(2) gt(1)]
  have ro: "reads_only (upd_fd i (\<lambda>_. b) t) u" using assms(2) by (simp add: fd_reads_def)
  have dt: "dir_chain t c cs'" "FAT32_EOC \<le> fatv t (last cs')" using fc by (simp_all add: file_chain_def)
  have du: "dir_chain u c cs'" by (rule fd_reads_chain [OF assms(2) gt(1) dt(1)])
  have fu: "file_chain u c cs'"
    using du dt U(2,6) valid_fat_index by (simp add: file_chain_def dir_chain_def)
  have cu: "changes {} (upd_fd i (\<lambda>_. b) t) u" by (rule reads_changes [OF ro]) (simp add: gt)
  have fb: "file_byte u cs' k = file_byte t cs' k" if "k < length cs' * clus_bytes (geo s)" for k
  proof -
    have "file_bytes u cs' k 1 = file_bytes t cs' k 1"
      using fd_reads_bytes [OF assms(2) gt(1) dt(1), of k 1] that gt(2) by simp
    then show ?thesis by (simp add: file_bytes_def)
  qed
  have le: "length cs \<le> length cs'" "p + length bs \<le> length cs' * clus_bytes (geo s)"
    using w by (auto simp: written_def)
  from le(1) have "length cs * clus_bytes (geo s) \<le> length cs' * clus_bytes (geo s)" by simp
  then have "file_byte u cs' k = (if p \<le> k \<and> k < p + length bs then bs ! (k - p) else file_byte s cs k)"
    if k: "k < length cs * clus_bytes (geo s) \<or> k < p + length bs" for k
  proof -
    have "k < length cs' * clus_bytes (geo s)" using k le(2) \<open>length cs * clus_bytes (geo s) \<le> _\<close> by linarith
    from fb [OF this] show ?thesis using w k by (auto simp: written_def)
  qed
  moreover have "sec_view u k = sec_view t k" if "k \<noteq> NO_LBA" for k using U(5) that by (simp add: same_view_def)
  ultimately have wu: "written s cs p bs u cs'"
    using w U(1,2,6) gt(2) unfolding written_def by simp
  have "same_vol (upd_fd j (\<lambda>_. fds t ! j) (upd_fd i (\<lambda>_. a) s)) t" using W by (simp add: fd_moved_def)
  from same_vol_upd_fd [OF this, of i "\<lambda>_. b"]
  have "same_vol (upd_fd i (\<lambda>_. b) (upd_fd j (\<lambda>_. fds t ! j) (upd_fd i (\<lambda>_. a) s))) (upd_fd i (\<lambda>_. b) t)" .
  also have "upd_fd i (\<lambda>_. b) (upd_fd j (\<lambda>_. fds t ! j) (upd_fd i (\<lambda>_. a) s)) = upd_fd j (\<lambda>_. fds t ! j) (upd_fd i (\<lambda>_. b) s)"
    using assms(3) by (simp add: upd_fd_commute [of i j] upd_fd_again)
  finally have sv: "same_vol (upd_fd j (\<lambda>_. fds t ! j) (upd_fd i (\<lambda>_. b) s)) u"
    using same_vol_trans ro by (auto simp: reads_only_def)
  have "fds u = fds (upd_fd i (\<lambda>_. b) t)" using ro by (simp add: reads_only_def same_vol_def)
  then have fj: "fds u ! j = fds t ! j" using assms(3) by (simp add: fds_other)
  show ?thesis
    using W wu fu sv assms(3) by (simp add: wrote_to_def fd_moved_def fj fds_other)
qed

section \<open>The copy loop\<close>

text \<open>
  Of the \<open>p\<close> bytes descriptor \<open>i\<close> has read, \<open>j\<close> has written \<open>w\<close> to a file begun in \<open>s\<close>: all of them, or as
  many as there was room for.
\<close>

definition copying :: "vol \<Rightarrow> nat \<Rightarrow> nat \<Rightarrow> u32 \<Rightarrow> u32 list \<Rightarrow> bytes \<Rightarrow> nat \<Rightarrow> nat \<Rightarrow> vol \<Rightarrow> u32 list \<Rightarrow> bool" where
  "copying s i j new cs dat p w t cs' \<longleftrightarrow> reading t i cs dat p \<and> set cs \<inter> set cs' = {} \<and>
     wrote_to j (fd_cluster (fds s ! j)) (upd_fd i (\<lambda>_. fds t ! i) s) [new] 0 (take w dat) t cs' \<and> write_on t j cs' w \<and>
     w \<le> p \<and> (w = p \<or> no_free t \<and> w = length cs' * clus_bytes (geo t))"

definition copies_to :: "vol \<Rightarrow> nat \<Rightarrow> nat \<Rightarrow> u32 \<Rightarrow> bool" where
  "copies_to s i j new \<longleftrightarrow> good_vol s \<and> spc_ok (geo s) \<and> i \<noteq> j \<and> file_at s j [new] \<and> fd_write (fds s ! j)"

lemma fd_reads_other: "fd_reads i f t u \<Longrightarrow> i \<noteq> j \<Longrightarrow> fds u ! j = fds t ! j"
  by (simp add: fd_reads_def reads_only_def same_vol_def) (simp add: upd_fd_def)

lemma fd_moved_other: "fd_moved j t u \<Longrightarrow> i \<noteq> j \<Longrightarrow> fds u ! i = fds t ! i"
  by (simp add: fd_moved_def same_vol_def) (simp add: upd_fd_def, metis nth_list_update_neq)

lemma no_free_reads: "fd_reads i f t u \<Longrightarrow> good_vol t \<Longrightarrow> no_free u = no_free t"
  using fd_readsD(2,6) [of i f t u] valid_fat_index by (auto simp: no_free_def)

lemma copying_read:
  assumes "copying s i j new cs dat p w t cs'" "copies_to s i j new"
  shows "\<exists>u. fat32_read (int i) 512 t = Some (Inr (take 512 (drop p dat)), u) \<and> reading u i cs dat (p + length (take 512 (drop p dat))) \<and>
    wrote_to j (fd_cluster (fds s ! j)) (upd_fd i (\<lambda>_. fds u ! i) s) [new] 0 (take w dat) u cs' \<and> write_on u j cs' w \<and>
    no_free u = no_free t \<and> geo u = geo s \<and> geo t = geo s"
proof -
  note C = assms(1) [unfolded copying_def] and S = assms(2) [unfolded copies_to_def]
  have rd: "reading t i cs dat p" and W: "wrote_to j (fd_cluster (fds s ! j)) (upd_fd i (\<lambda>_. fds t ! i) s) [new] 0 (take w dat) t cs'"
    using C by simp_all
  have gt: "geo t = geo s" "good_vol t" using W by (simp_all add: wrote_to_def written_def)
  have "spc_ok (geo t)" using S gt by simp
  from reading_step [OF rd this] obtain u where u: "fat32_read (int i) 512 t = Some (Inr (take 512 (drop p dat)), u)"
    "fd_reads i (fds u ! i) t u" "reading u i cs dat (p + length (take 512 (drop p dat)))" by blast
  have ij: "i \<noteq> j" "good_vol s" using S by simp_all
  note U = fd_readsD [OF u(2) gt(2)]
  have "write_on u j cs' w" using C fd_reads_other [OF u(2) ij(1)] U(2,3) by (simp add: write_on_def)
  then show ?thesis
    using u wrote_to_reads [OF W u(2) ij] no_free_reads [OF u(2) gt(2)] U(2) gt by auto
qed

lemma copying_write:
  assumes "reading u i cs dat p" "set cs \<inter> set cs' = {}"
    and "wrote_to j (fd_cluster (fds s ! j)) (upd_fd i (\<lambda>_. fds u ! i) s) [new] 0 (take w dat) u cs'" "write_on u j cs' w"
    and "w \<le> q" "w = q \<or> no_free u \<and> w = length cs' * clus_bytes (geo u)" "copies_to s i j new"
    and "p = q + length bs" "bs = take 512 (drop q dat)" "bs \<noteq> []"
  shows "\<exists>n v w' cs''. fat32_write (int j) bs (of_nat (length bs)) u = Some (n, v) \<and> copying s i j new cs dat p w' v cs''"
proof -
  note S = assms(7) [unfolded copies_to_def]
  let ?s = "upd_fd i (\<lambda>_. fds u ! i) s"
  have sj: "fds ?s ! j = fds s ! j" using S by (simp add: fds_other)
  have fa: "file_at ?s j [new]" using S sj by (auto simp: file_at_def dir_chain_def)
  have W: "wrote_to j (fd_cluster (fds ?s ! j)) ?s [new] 0 (take w dat) u cs'" using assms(3) sj by simp
  note F = wrote_file_at [OF W fa]
  have mv: "fd_moved j ?s u" and fc: "file_chain u (fd_cluster (fds s ! j)) cs'" using assms(3) by (simp_all add: wrote_to_def)
  have sf: "same_file (fds s ! j) (fds u ! j)" using fd_movedD [OF mv] sj by simp
  then have fw: "fd_write (fds u ! j)" "fd_cluster (fds u ! j) = fd_cluster (fds s ! j)" using S by (simp_all add: same_file_def)
  have R: "p \<le> length dat" "unat (fd_size (fds u ! i)) = length dat" using assms(1) by (simp_all add: reading_def)
  have d32: "length dat < 2 ^ 32" using R(2) unsigned_less [of "fd_size (fds u ! i)", where ?'a = nat] by simp
  have wl: "length (take w dat) = w" using assms(5,8) R(1) by simp
  have lb: "length bs \<le> 512" "unat (of_nat (length bs) :: u32) = length bs"
    using assms(9) d32 by (simp_all add: unat_of_nat_eq)
  have sp: "spc_ok (geo u)" "geo u = geo s" using S F(2) by simp_all
  have fcu: "file_chain u (fd_cluster (fds u ! j)) cs'" using fc fw by simp
  have ws: "w \<le> unat (fd_size (fds u ! j))" using F(5) wl by simp
  have lens: "unat (of_nat (length bs) :: u32) \<le> length bs" "w + unat (of_nat (length bs) :: u32) < 2 ^ 32"
    using lb assms(5,8) R(1) d32 by simp_all
  obtain n v cs'' where v: "fat32_write (int j) bs (of_nat (length bs)) u = Some (Inr n, v)" "n \<le> of_nat (length bs)"
    "n = of_nat (length bs) \<or> no_free v \<and> w + unat n = length cs'' * clus_bytes (geo u)" "write_on v j cs'' (w + unat n)"
    "wrote_to j (fd_cluster (fds s ! j)) u cs' w (take (unat n) bs) v cs''"
    using fat32_write_at [OF F(1) sp(1) F(3) fw(1) fcu assms(4) ws lens] fw(2) by auto
  have nl: "unat n \<le> length bs" using v(2) lb(2) by (simp add: word_le_nat_alt)
  note H = wrote_changes [OF v(5)]
  have vm: "fd_moved j u v" and gv: "geo v = geo u" using v(5) by (simp_all add: wrote_to_def written_def)
  have fi: "fds v ! i = fds u ! i" "length (fds v) = length (fds u)"
    using fd_moved_other [OF vm] fd_movedD [OF vm] S by simp_all
  have dj: "set cs \<inter> set cs'' = {}" using H(2) assms(1,2) by (auto simp: reading_def)
  have rv: "reading v i cs dat p" by (rule reading_changes [OF assms(1) H(1) dj fi])
  have "wrote_to j (fd_cluster (fds s ! j)) u cs' (0 + length (take w dat)) (take (unat n) bs) v cs''" using v(5) wl by simp
  from wrote_to_trans [OF assms(3) this]
  have tr: "wrote_to j (fd_cluster (fds s ! j)) (upd_fd i (\<lambda>_. fds v ! i) s) [new] 0 (take w dat @ take (unat n) bs) v cs''"
    using fi(1) by simp
  have "copying s i j new cs dat p (w + unat n) v cs''"
  proof (cases "w = q")
    case True
    have "take (unat n) bs = take (unat n) (drop q dat)" using nl lb(1) by (simp add: assms(9) min_absorb1)
    then have "take w dat @ take (unat n) bs = take (w + unat n) dat" using True by (simp add: take_add)
    moreover have "w + unat n \<le> p" using True nl assms(8) by simp
    moreover have "w + unat n = p \<or> no_free v \<and> w + unat n = length cs'' * clus_bytes (geo v)"
      using v(3) True assms(8) lb(2) gv by auto
    ultimately show ?thesis using rv dj tr v(4) by (simp add: copying_def)
  next
    case False
    then have full: "no_free u" "w = length cs' * clus_bytes (geo u)" using assms(6) by simp_all
    obtain ds where ds: "cs'' = cs' @ ds" "\<forall>k \<in> set ds. fatv u k = FAT32_FREE" "w + unat n \<le> length cs'' * clus_bytes (geo u)"
      using v(5) nl by (auto simp: wrote_to_def written_def)
    have "file_chain v (fd_cluster (fds s ! j)) cs''" using v(5) by (simp add: wrote_to_def)
    then have "\<forall>k \<in> set ds. valid_cluster (geo u) k" using ds(1) gv by (simp add: file_chain_def dir_chain_def)
    then have "ds = []" using ds(2) full(1) by (cases ds) (auto simp: no_free_def)
    then have e: "cs'' = cs'" "unat n = 0" using ds(1,3) full(2) by simp_all
    have "no_free v" using v(3) e(2) lb(2) assms(10) by auto
    then show ?thesis using rv dj tr v(4) e full(2) gv assms(5,8) by (simp add: copying_def)
  qed
  then show ?thesis using v(1) by blast
qed

lemma copy_loop_at:
  assumes "copying s i j new cs dat p w t cs'" "copies_to s i j new"
  shows "\<exists>u w' cs''. copy_loop i j t = Some u \<and> copying s i j new cs dat (length dat) w' u cs''"
  using assms(1)
proof (induction "length dat - p" arbitrary: p w t cs' rule: less_induct)
  case less
  let ?bs = "take 512 (drop p dat)"
  from copying_read [OF less.prems assms(2)]
  obtain u where u: "fat32_read (int i) 512 t = Some (Inr ?bs, u)" "reading u i cs dat (p + length ?bs)"
    "wrote_to j (fd_cluster (fds s ! j)) (upd_fd i (\<lambda>_. fds u ! i) s) [new] 0 (take w dat) u cs'" "write_on u j cs' w"
    "no_free u = no_free t" "geo u = geo t" by auto
  note C = less.prems [unfolded copying_def]
  show ?case
  proof (cases "?bs = []")
    case True
    then have p: "p = length dat" using C by (simp add: reading_def)
    then have "copying s i j new cs dat (length dat) w u cs'" using C u by (simp add: copying_def)
    moreover have "copy_loop i j t = Some u" using u(1) True by (subst copy_loop.simps) simp
    ultimately show ?thesis by blast
  next
    case False
    have "set cs \<inter> set cs' = {}" "w \<le> p" "w = p \<or> no_free u \<and> w = length cs' * clus_bytes (geo u)" using C u(5,6) by simp_all
    from copying_write [OF u(2) this(1) u(3,4) this(2,3) assms(2) refl refl False]
    obtain n v w' cs'' where v: "fat32_write (int j) ?bs (of_nat (length ?bs)) u = Some (n, v)"
      "copying s i j new cs dat (p + length ?bs) w' v cs''" by blast
    have "length dat - (p + length ?bs) < length dat - p" using False by auto
    from less.hyps [OF this v(2)] obtain z where "copy_loop i j v = Some (fst z) \<and>
      copying s i j new cs dat (length dat) (fst (snd z)) (fst z) (snd (snd z))" by auto
    moreover have "copy_loop i j t = copy_loop i j v"
      using u(1) v(1) False by (subst copy_loop.simps) (simp del: take_eq_Nil drop_eq_Nil)
    ultimately show ?thesis by auto
  qed
qed

section \<open>Opening both files\<close>

definition free_fds :: "vol \<Rightarrow> nat list" where
  "free_fds s = filter (\<lambda>k. \<not> fd_open (fds s ! k)) [0..<FAT32_MAX_FD]"

lemma first_free_fds: "first_free_fd s = (if free_fds s = [] then None else Some (hd (free_fds s)))"
  by (simp add: first_free_fd_def free_fds_def Let_def)

lemma two_free:
  assumes "free_fds s = i # j # fs" "length (fds s) = FAT32_MAX_FD"
  shows "first_free_fd s = Some i" "i \<noteq> j" "i < FAT32_MAX_FD" "j < FAT32_MAX_FD"
    "fds t = (fds s)[i := f] \<Longrightarrow> fd_open f \<Longrightarrow> first_free_fd t = Some j"
proof -
  have "distinct (free_fds s)" "set (free_fds s) \<subseteq> {..<FAT32_MAX_FD}" by (auto simp: free_fds_def)
  then have d: "i \<noteq> j" "i \<notin> set (j # fs)" "i < FAT32_MAX_FD" "j < FAT32_MAX_FD" unfolding assms(1) by auto
  show "first_free_fd s = Some i" by (simp add: first_free_fds assms(1))
  show "i \<noteq> j" "i < FAT32_MAX_FD" "j < FAT32_MAX_FD" using d by simp_all
  assume t: "fds t = (fds s)[i := f]" "fd_open f"
  have "(\<not> fd_open (fds t ! k)) = (k \<noteq> i \<and> \<not> fd_open (fds s ! k))" for k
    using t d(3) assms(2) by (cases "k = i") simp_all
  then have "free_fds t = filter (\<lambda>k. k \<noteq> i) (free_fds s)" by (simp add: free_fds_def filter_filter conj_commute)
  also have "\<dots> = j # fs" using d(2) by (auto simp: assms(1) filter_id_conv)
  finally show "first_free_fd t = Some j" by (simp add: first_free_fds)
qed

lemma open_reading:
  assumes "good_vol s" "vol_mounted s" "first_free_fd s = Some fd" "length (fds s) = FAT32_MAX_FD" "path_dir s path css d name"
    and "dir_chain s d ds" "stores s ds name k cs dat" "\<forall>c \<in> set cs. fatv s c \<noteq> FAT32_FREE"
  shows "\<exists>t. fat32_open path False s = Some (Inr fd, t) \<and> fd_reads fd (fds t ! fd) s t \<and> reading t fd cs dat 0"
proof -
  let ?e = "unpack_dir (slot s ds k)"
  let ?f = "new_fd False (entry_cluster ?e) d (pos_at (geo s) ds 0 k) (de_file_size ?e)"
  have fi: "file_in s ds name k cs" and n: "unat (de_file_size ?e) = length dat" "length dat \<le> length cs * clus_bytes (geo s)"
    "file_bytes s cs 0 (length dat) = dat" using assms(7) by (simp_all add: stores_def)
  obtain t where t: "fat32_open path False s = Some (Inr fd, t)" "fd_reads fd ?f s t"
    using open_for_reading [OF assms(1-3,5,6) fi] by blast
  note F = first_free [OF assms(3)] and E = fd_readsD [OF t(2) assms(1)]
  have fdl: "fd < length (fds s)" using F(1) assms(4) by simp
  have ft: "fds t ! fd = ?f" by (rule E(4) [OF fdl])
  have c: "changes {} s t" by (rule fd_reads_changes [OF t(2) assms(1)])
  have v: "\<forall>c \<in> set cs. valid_cluster (geo s) c" using fi by (simp add: file_in_def)
  have b: "file_bytes t cs 0 (length dat) = dat" using changes_bytes [OF c assms(1) v, of 0 "length dat"] n by simp
  have nf: "\<forall>c \<in> set cs. valid_cluster (geo t) c \<and> fatv t c \<noteq> FAT32_FREE"
    using assms(8) v E(2,6) valid_fat_index by simp
  have op: "open_file t fd cs 0" if "cs \<noteq> []"
  proof -
    have "chain (fatv s) (entry_cluster ?e) cs" using fi by (simp add: file_in_def)
    then have ch: "dir_chain s (entry_cluster ?e) cs" "cs ! 0 = entry_cluster ?e"
      using that v chain_hd by (auto simp: dir_chain_def)
    have "dir_chain t (entry_cluster ?e) cs" by (rule changes_dir(1) [OF c assms(1) ch(1)]) simp
    then show ?thesis
      using that F(1) fdl E(2,3) ft ch(2) n by (simp add: open_file_def file_at_def fd_on_def new_fd_def)
  qed
  have "reading t fd cs dat 0"
    using E(1-3) F(1) fdl ft n b nf op by (simp add: reading_def new_fd_def)
  then show ?thesis using t ft by auto
qed

section \<open>Copying\<close>

lemma upd_fd_slot [simp]: "slot (upd_fd i h s) = slot s"
  by (simp add: fun_eq_iff slot_def)

lemma upd_fd_disk [simp]:
  "dir_slots (upd_fd i h s) = dir_slots s" "dir_listing (upd_fd i h s) = dir_listing s"
  "dir_chain (upd_fd i h s) = dir_chain s" "dir_ok (upd_fd i h s) = dir_ok s"
  by (simp_all add: fun_eq_iff dir_slots_def dir_listing_def dir_chain_def dir_ok_def)

lemma upd_fd_changes [simp]:
  "changes K (upd_fd i h s) t = changes K s t" "changes K s (upd_fd i h t) = changes K s t"
  by (simp_all add: changes_def)

lemma upd_fd_others [simp]:
  "others (upd_fd i h s) ds (upd_fd i h t) ds' name k = others s ds t ds' name k"
  "placed (upd_fd i h s) ds ds' name k = placed s ds ds' name k"
  by (simp_all add: others_def) (cases "lookup name s ds"; simp add: placed_def)

text \<open>A file begun with \<open>j\<close> is begun whatever \<open>i\<close> is.\<close>

lemma created_other:
  assumes "created j d ds cs name s t es k new" "i \<noteq> j"
  shows "created j d ds cs name (upd_fd i (\<lambda>_. z) s) (upd_fd i (\<lambda>_. z) t) es k new"
proof -
  note C = assms(1) [unfolded created_def]
  have j: "fds (upd_fd i (\<lambda>_. z) t) ! j = fds t ! j" by (rule fds_other [OF assms(2)])
  have "writing t j d (ds @ es) name k [new]" using C by blast
  then have "writing (upd_fd i (\<lambda>_. z) t) j d (ds @ es) name k [new]"
    by (simp add: writing_def file_at_def j)
  moreover have "same_vol (upd_fd j (\<lambda>_. fds t ! j) (upd_fd i (\<lambda>_. z) s)) (upd_fd i (\<lambda>_. z) t)"
    using same_vol_upd_fd [of "upd_fd j (\<lambda>_. fds t ! j) s" t i "\<lambda>_. z"] C upd_fd_commute [OF assms(2)] by metis
  ultimately show ?thesis using C by (simp add: created_def j)
qed

lemma created_copying:
  assumes "created j d ds cs2 name s t es k new" "reading s i cs dat 0" "spc_ok (geo s)" "i \<noteq> j"
    and "set cs \<inter> (set ds \<union> set cs2) = {}"
  shows "copies_to t i j new" "copying t i j new cs dat 0 0 t [new]"
proof -
  note C = assms(1) [unfolded created_def] and S = created_start [OF assms(1)]
  show "copies_to t i j new" using S assms(3,4) by (simp add: copies_to_def)
  have sv: "same_vol (upd_fd j (\<lambda>_. fds t ! j) s) t" and ch: "changes (insert new (set (ds @ es) \<union> set cs2)) s t"
    and fr: "\<forall>c \<in> insert new (set es). fatv s c = FAT32_FREE \<or> c \<in> set cs2" using C by blast+
  have dj: "set cs \<inter> insert new (set (ds @ es) \<union> set cs2) = {}"
    using fr assms(2,5) by (auto simp: reading_def)
  have f: "fds t = fds (upd_fd j (\<lambda>_. fds t ! j) s)" using sv unfolding same_vol_def by blast
  have "fds t ! i = fds s ! i" using assms(4) f fds_other by metis
  moreover have "length (fds t) = length (fds s)" using f by (metis upd_fd_simps(12))
  ultimately have rd: "reading t i cs dat 0" by (rule reading_changes [OF assms(2) ch dj])
  have "upd_fd i (\<lambda>_. fds t ! i) t = t" by (simp add: upd_fd_def)
  moreover have "written t [new] 0 [] t [new]" by (rule written_refl [OF S(1)]) simp_all
  ultimately have "wrote_to j (fd_cluster (fds t ! j)) (upd_fd i (\<lambda>_. fds t ! i) t) [new] 0 (take 0 dat) t [new]"
    using C S(5) same_vol_moved [of t t j] by (simp add: wrote_to_def)
  then show "copying t i j new cs dat 0 0 t [new]" using rd dj S(6) by (simp add: copying_def)
qed

lemma copy_at:
  assumes "good_vol s" "spc_ok (geo s)" "vol_mounted s" "\<not> vol_readonly s" "length (fds s) = FAT32_MAX_FD" "free_fds s = i # j # fs"
    and "path_dir s src css1 d1 n1" "dir_chain s d1 ds1" "stores s ds1 n1 k1 cs1 dat" "\<forall>c \<in> set cs1. fatv s c \<noteq> FAT32_FREE"
    and "path_dir s dst css2 d2 n2" "dir_ok s d2 ds2" "target s ds2 n2 cs2" "set cs1 \<inter> (set ds2 \<union> set cs2) = {}"
  shows "(\<exists>t. fat32_copy src dst s = Some (FAT32_ERR_FULL, t) \<and> disk_full s t) \<or>
    (\<exists>w t. fat32_copy src dst s = Some (FAT32_OK, t) \<and> w \<le> length dat \<and> (w = length dat \<or> no_free t) \<and>
      saved s d2 ds2 n2 cs2 (take w dat) t \<and> same_vol (upd_fd j (\<lambda>_. fd_zero) (upd_fd i (\<lambda>_. fd_zero) s)) t)"
proof -
  note T = two_free [OF assms(6,5)]
  obtain s1 where s1: "fat32_open src False s = Some (Inr i, s1)" "fd_reads i (fds s1 ! i) s s1" "reading s1 i cs1 dat 0"
    using open_reading [OF assms(1,3) T(1) assms(5,7-10)] by blast
  have sv1: "same_vol (upd_fd i (\<lambda>_. fds s1 ! i) s) s1" using s1(2) by (simp add: fd_reads_def reads_only_def)
  then have fs1: "fds s1 = (fds s)[i := fds s1 ! i]" by (simp add: same_vol_def) (simp add: upd_fd_def)
  have i1: "fd_open (fds s1 ! i)" "\<not> fd_write (fds s1 ! i)" using s1(3) by (simp_all add: reading_def)
  have c1: "changes {} s s1" by (rule fd_reads_changes [OF s1(2) assms(1)])
  note g1 = changesD [OF c1]
  have f1: "vol_mounted s1" "\<not> vol_readonly s1" "length (fds s1) = FAT32_MAX_FD" "first_free_fd s1 = Some j"
    using sv1 assms(3-5) T(5) [OF fs1 i1(1)] arg_cong [OF fs1, of length] by (simp_all add: same_vol_def) (simp_all add: upd_fd_def)
  have dc2: "dir_chain s d2 ds2" using assms(12) by (simp add: dir_ok_def)
  have P: "path_dir s1 dst css2 d2 n2" "dir_ok s1 d2 ds2" "target s1 ds2 n2 cs2"
    using path_dir_changes [OF assms(11) c1 assms(1)] same_disk_ok [OF c1 assms(1,12)] same_disk_target [OF c1 assms(1) dc2 assms(13)]
    by simp_all
  obtain r s2 where r: "fat32_open dst True s1 = Some (r, s2)"
    "r = Inl FAT32_ERR_FULL \<and> open_full j s1 s2 \<or> r = Inr j \<and> (\<exists>es k new. created j d2 ds2 cs2 n2 s1 s2 es k new)"
    using open_for_writing [OF g1(1) f1 P] by blast
  note unf = fat32_copy_def s1(1) r(1)
  show ?thesis
  proof (cases "r = Inr j")
    case False
    then obtain f where f: "r = Inl FAT32_ERR_FULL" "disk_full s1 s2" "same_vol (upd_fd j (\<lambda>_. f) s1) s2"
      using r(2) by (auto simp: open_full_def)
    have "fds s2 = fds (upd_fd j (\<lambda>_. f) s1)" using f(3) by (simp add: same_vol_def)
    then have "fds s2 ! i = fds s1 ! i" using T(2) fds_other by metis
    then have "fat32_close (int i) s2 = upd_fd i (\<lambda>_. fd_zero) s2" by (intro close_reading [OF T(3)]) (simp_all add: i1)
    moreover have "disk_full s (upd_fd i (\<lambda>_. fd_zero) s2)"
      using same_disk_full [OF c1 assms(1) f(2)] by (simp add: disk_full_def)
    ultimately show ?thesis using unf f(1) assms(3) by simp
  next
    case True
    then obtain es k new where C: "created j d2 ds2 cs2 n2 s1 s2 es k new" using r(2) by auto
    have spc1: "spc_ok (geo s1)" using assms(2) g1(2) by simp
    note I = created_copying [OF C s1(3) spc1 T(2) assms(14)]
    obtain u w cs' where u: "copy_loop i j s2 = Some u" "copying s2 i j new cs1 dat (length dat) w u cs'"
      using copy_loop_at [OF I(2,1)] by blast
    note U = u(2) [unfolded copying_def]
    have ru: "reading u i cs1 dat (length dat)" using U by simp
    then have gu: "good_vol u" "fd_open (fds u ! i)" "\<not> fd_write (fds u ! i)" by (simp_all add: reading_def)
    let ?z = "\<lambda>_ :: fat32_fd_t. fd_zero"
    define u1 where "u1 = upd_fd i ?z u"
    have cl: "fat32_close (int i) u = u1" unfolding u1_def by (rule close_reading [OF T(3) gu(2,3)])
    have "reads_only u1 u1" by (rule reads_only_refl) (simp add: u1_def gu)
    then have fr: "fd_reads i fd_zero u u1" by (simp add: fd_reads_def u1_def)
    have g2: "good_vol s2" using I(1) by (simp add: copies_to_def)
    have "wrote_to j (fd_cluster (fds s2 ! j)) (upd_fd i (\<lambda>_. fds u ! i) s2) [new] 0 (take w dat) u cs'" using U by simp
    from wrote_to_reads [OF this fr T(2) g2]
    have W: "wrote_to j (fd_cluster (fds (upd_fd i ?z s2) ! j)) (upd_fd i ?z s2) [new] 0 (take w dat) u1 cs'"
      by (simp add: fds_other [OF T(2)])
    have v: "\<forall>c \<in> set cs2. valid_cluster (geo (upd_fd i ?z s1)) c" using target_valid [OF P(3)] by simp
    have "good_vol (upd_fd i ?z s1)" using g1(1) by simp
    from close_created [OF created_other [OF C T(2)] v W this]
    have D: "saved (upd_fd i ?z s1) d2 ds2 n2 cs2 (take w dat) (fat32_close (int j) u1)"
      "same_vol (upd_fd j ?z (upd_fd i ?z s1)) (fat32_close (int j) u1)" "no_free u1 \<longrightarrow> no_free (fat32_close (int j) u1)" by blast+
    have "changes {} s (upd_fd i ?z s1)" using c1 by simp
    from same_disk_saved [OF this assms(1) dc2 D(1)]
    have "saved s d2 ds2 n2 cs2 (take w dat) (fat32_close (int j) u1)" .
    moreover have "w \<le> length dat" "w = length dat \<or> no_free (fat32_close (int j) u1)"
      using U D(3) by (auto simp: u1_def)
    moreover have "fat32_copy src dst s = Some (FAT32_OK, fat32_close (int j) u1)"
      using unf True assms(3) u(1) cl by simp
    moreover have "same_vol (upd_fd i ?z s) (upd_fd i ?z s1)"
      using same_vol_upd_fd [OF sv1, of i ?z] by (simp add: upd_fd_again)
    from same_vol_trans [OF same_vol_upd_fd [OF this] D(2)]
    have "same_vol (upd_fd j ?z (upd_fd i ?z s)) (fat32_close (int j) u1)" .
    ultimately show ?thesis by blast
  qed
qed

lemma copy_keeps:
  assumes "good_vol s" "spc_ok (geo s)" "vol_mounted s" "\<not> vol_readonly s" "length (fds s) = FAT32_MAX_FD" "free_fds s = i # j # fs"
    and "reaches s src css1 d1 ds1 n1" "stores s ds1 n1 k cs1 dat" "\<forall>c \<in> set cs1. fatv s c \<noteq> FAT32_FREE"
    and "reaches s dst css2 d2 ds2 n2" "target s ds2 n2 cs2" "set cs1 \<inter> (set ds2 \<union> set cs2) = {}"
    and "set ds1 \<inter> set cs2 = {}" "other_file s ds1 n1 k ds2 n2"
  shows "\<exists>r t es. fat32_copy src dst s = Some (r, t) \<and> dir_ok t d1 (ds1 @ es) \<and> stores t (ds1 @ es) n1 k cs1 dat \<and>
    (\<forall>c \<in> set es. fatv s c = FAT32_FREE \<or> c \<in> set cs2) \<and> (ds1 \<noteq> ds2 \<longrightarrow> es = []) \<and>
    (r = FAT32_ERR_FULL \<and> disk_full s t \<or>
     r = FAT32_OK \<and> same_vol (upd_fd j (\<lambda>_. fd_zero) (upd_fd i (\<lambda>_. fd_zero) s)) t \<and>
       (\<exists>w \<le> length dat. (w = length dat \<or> no_free t) \<and> saved s d2 ds2 n2 cs2 (take w dat) t))"
proof -
  have R: "path_dir s src css1 d1 n1" "dir_ok s d1 ds1" "path_dir s dst css2 d2 n2" "dir_ok s d2 ds2" "dir_chain s d1 ds1"
    using assms(7,10) by (simp_all add: reaches_def dir_ok_def)
  from copy_at [OF assms(1-6) R(1,5) assms(8,9) R(3,4) assms(11,12)]
  consider t where "fat32_copy src dst s = Some (FAT32_ERR_FULL, t)" "disk_full s t"
    | w t where "fat32_copy src dst s = Some (FAT32_OK, t)" "w \<le> length dat" "w = length dat \<or> no_free t"
      "saved s d2 ds2 n2 cs2 (take w dat) t" "same_vol (upd_fd j (\<lambda>_. fd_zero) (upd_fd i (\<lambda>_. fd_zero) s)) t" by blast
  then show ?thesis
  proof cases
    case 1
    then show ?thesis using disk_full_keeps [OF 1(2) assms(1) R(2) assms(8,9)]
      by (intro exI [of _ FAT32_ERR_FULL] exI [of _ t] exI [of _ "[]"]) simp
  next
    case 2
    then show ?thesis using saved_keeps [OF 2(4) assms(1) R(2) assms(8,9,12,13,14)] by blast
  qed
qed

section \<open>Renaming\<close>

lemma removed_keeps:
  assumes "removed t d1 ds1 n1 i k cs1 u" "good_vol t" "dir_ok t d1 ds1" "dir_ok t d2 ds2" "stores t ds2 n2 k2 cs2 dat"
    and "ds1 = ds2 \<and> k2 \<noteq> k \<and> k < slot_count (geo t) ds1 \<or> set ds1 \<inter> set ds2 = {}"
    and "set cs2 \<inter> (set ds1 \<union> set cs1) = {}" "set ds2 \<inter> set cs1 = {}"
  shows "stores u ds2 n2 k2 cs2 dat"
proof -
  have ch: "changes (set ds1 \<union> set cs1) t u" using assms(1) by (simp add: removed_def)
  note g = changesD [OF ch]
  have dc: "dir_chain t d2 ds2" using assms(4) by (simp add: dir_ok_def)
  show ?thesis
  proof (cases "set ds1 \<inter> set ds2 = {}")
    case True
    then show ?thesis using changes_file(2) [OF ch assms(2) dc _ assms(7)] assms(5,8) by blast
  next
    case False
    then have e: "ds1 = ds2" "k2 \<noteq> k" "k < slot_count (geo t) ds2" using assms(6) by auto
    have fi: "file_in t ds2 n2 k2 cs2" using assms(5) by (simp add: stores_def)
    then obtain st where L: "lookup n2 t ds2 = Some (slot t ds2 k2, pos_at (geo t) ds2 0 k2, st)" and k2: "k2 < slot_count (geo t) ds2"
      by (auto simp: file_in_def)
    have "pos_at (geo t) ds2 0 k2 \<noteq> pos_at (geo t) ds2 0 k" using pos_at_eq [OF assms(2) dc k2 e(3), of 0 0] e(2) by auto
    then have Lu: "lookup n2 u ds2 = Some (slot t ds2 k2, pos_at (geo u) ds2 0 k2, st)"
      using assms(1) L e(1) g(2) by (simp add: removed_def)
    have dcu: "dir_chain u d1 ds2" using assms(1) e(1) by (simp add: removed_def dir_ok_def)
    obtain m where m: "m < slot_count (geo u) ds2" "slot t ds2 k2 = slot u ds2 m" "pos_at (geo u) ds2 0 k2 = pos_at (geo u) ds2 0 m"
      by (rule lookup_slot [OF Lu]) blast
    have "m = k2" using pos_at_eq [OF g(1) dcu _ m(1), of k2 0 0] m(3) k2 g(2) by simp
    then have sl: "slot u ds2 k2 = slot t ds2 k2" using m(2) by simp
    have v: "\<forall>c \<in> set cs2. valid_cluster (geo t) c" using fi by (simp add: file_in_def)
    have "fatv u c = fatv t c" if "c \<in> set cs2" for c
    proof -
      have "fat_index (geo t) c" "c \<notin> set ds1 \<union> set cs1" using v assms(7) that valid_fat_index by blast+
      then show ?thesis using ch unfolding changes_def by blast
    qed
    then have "chain (fatv u) c cs2 = chain (fatv t) c cs2" for c by (rule chain_cong)
    then have "file_in u ds2 n2 k2 cs2" using fi Lu sl g(2) by (simp add: file_in_def)
    moreover have "file_bytes u cs2 0 (length dat) = file_bytes t cs2 0 (length dat)"
      by (rule changes_bytes [OF ch assms(2) v assms(7)]) (use assms(5) in \<open>simp add: stores_def\<close>)
    ultimately show ?thesis using assms(5) sl g(2) by (simp add: stores_def)
  qed
qed

lemma rename_at:
  assumes "good_vol s" "spc_ok (geo s)" "vol_mounted s" "\<not> vol_readonly s" "length (fds s) = FAT32_MAX_FD" "free_fds s = i # j # fs"
    and "reaches s src css1 d1 ds1 n1" "stores s ds1 n1 k cs1 dat" "\<forall>c \<in> set cs1. fatv s c \<noteq> FAT32_FREE"
    and "reaches s dst css2 d2 ds2 n2" "target s ds2 n2 cs2" "set cs1 \<inter> (set ds2 \<union> set cs2) = {}"
    and "set ds1 \<inter> (set cs1 \<union> set cs2) = {}" "other_file s ds1 n1 k ds2 n2" "\<Union> (set (map set css1)) \<inter> (set ds2 \<union> set cs2) = {}"
  shows "(\<exists>t. fat32_rename src dst s = Some (FAT32_ERR_FULL, t) \<and> disk_full s t) \<or>
    (\<exists>w t u m es es' k' cs'. fat32_rename src dst s = Some (FAT32_OK, u) \<and> w \<le> length dat \<and> (w = length dat \<or> no_free t) \<and>
      saved s d2 ds2 n2 cs2 (take w dat) t \<and> removed t d1 (ds1 @ es) n1 m k cs1 u \<and> stores u (ds2 @ es') n2 k' cs' (take w dat))"
proof -
  have d12: "set ds1 \<inter> set cs2 = {}" using assms(13) by blast
  obtain r t es where C: "fat32_copy src dst s = Some (r, t)" "dir_ok t d1 (ds1 @ es)" "stores t (ds1 @ es) n1 k cs1 dat"
    "\<forall>c \<in> set es. fatv s c = FAT32_FREE \<or> c \<in> set cs2" "ds1 \<noteq> ds2 \<longrightarrow> es = []"
    "r = FAT32_ERR_FULL \<and> disk_full s t \<or>
     r = FAT32_OK \<and> same_vol (upd_fd j (\<lambda>_. fd_zero) (upd_fd i (\<lambda>_. fd_zero) s)) t \<and>
       (\<exists>w \<le> length dat. (w = length dat \<or> no_free t) \<and> saved s d2 ds2 n2 cs2 (take w dat) t)"
    using copy_keeps [OF assms(1-12) d12 assms(14)] by blast
  show ?thesis
  proof (cases "r = FAT32_OK")
    case False
    then show ?thesis using C(1,6) assms(3) by (auto simp: fat32_rename_def)
  next
    case True
    then obtain w where w: "w \<le> length dat" "w = length dat \<or> no_free t" "saved s d2 ds2 n2 cs2 (take w dat) t"
      and sv: "same_vol (upd_fd j (\<lambda>_. fd_zero) (upd_fd i (\<lambda>_. fd_zero) s)) t" using C(6) by auto
    obtain es' k' cs' where S: "dir_ok t d2 (ds2 @ es')" "stores t (ds2 @ es') n2 k' cs' (take w dat)" "cs' \<noteq> []" "set (ds2 @ es') \<inter> set cs' = {}"
      "changes (set (ds2 @ es') \<union> set cs2 \<union> set cs') s t" "\<forall>c \<in> set es' \<union> set cs'. fatv s c = FAT32_FREE \<or> c \<in> set cs2"
      using w(3) unfolding saved_def by blast
    have gt: "good_vol t" by (rule changesD(1) [OF S(5)])
    have mt: "vol_mounted t" using sv assms(3) by (simp add: same_vol_def)
    have nf1: "\<forall>c \<in> set ds1. fatv s c \<noteq> FAT32_FREE" and cn: "\<forall>c \<in> \<Union> (set (map set css1)). fatv s c \<noteq> FAT32_FREE"
      and pd: "path_dir s src css1 d1 n1"
      using assms(7) chain_last_nonfree by (auto simp: reaches_def)
    have "x \<notin> set (ds2 @ es') \<union> set cs2 \<union> set cs'" if x: "x \<in> \<Union> (set (map set css1))" for x
    proof -
      have "fatv s x \<noteq> FAT32_FREE" using cn x by (rule bspec)
      moreover have "x \<notin> set ds2 \<union> set cs2" using assms(15) x by (meson disjoint_iff)
      ultimately show ?thesis using S(6) by auto
    qed
    then have "\<Union> (set (map set css1)) \<inter> (set (ds2 @ es') \<union> set cs2 \<union> set cs') = {}" by (meson disjoint_iff)
    then have pt: "path_dir t src css1 d1 n1" by (rule path_dir_changes [OF pd S(5) assms(1)])
    have d1c: "set (ds1 @ es) \<inter> set cs1 = {}" using assms(9,12,13) C(4) by auto
    have fi: "file_in t (ds1 @ es) n1 k cs1" using C(3) by (simp add: stores_def)
    obtain m u where u: "fat32_unlink src t = Some (FAT32_OK, u)" "removed t d1 (ds1 @ es) n1 m k cs1 u"
      using fat32_unlink_at [OF gt mt pt C(2) fi d1c] by blast
    have fi2: "file_in t (ds2 @ es') n2 k' cs'" using S(2) by (simp add: stores_def)
    have dc: "dir_chain t d1 (ds1 @ es)" "dir_chain t d2 (ds2 @ es')" using C(2) S(1) by (simp_all add: dir_ok_def)
    have same: "ds1 @ es = ds2 @ es'" if "ds1 = ds2"
    proof -
      have "ds1 \<noteq> []" using assms(7) by (auto simp: reaches_def dir_ok_def dir_chain_def)
      then have "(ds1 @ es) ! 0 = (ds2 @ es') ! 0" using that by (simp add: nth_append)
      then have "d1 = d2" using dc chain_hd unfolding dir_chain_def by metis
      then show ?thesis using dc chain_unique unfolding dir_chain_def by metis
    qed
    have c1: "set cs' \<inter> (set (ds1 @ es) \<union> set cs1) = {}"
    proof -
      have "set cs' \<inter> set ds1 = {}" "set cs' \<inter> set cs1 = {}" using S(6) nf1 assms(9,12,13) by blast+
      moreover have "set cs' \<inter> set (ds1 @ es) = {}" if "ds1 = ds2" using S(4) same [OF that] by auto
      ultimately show ?thesis using C(5) by (cases "ds1 = ds2") auto
    qed
    have c2: "set (ds2 @ es') \<inter> set cs1 = {}" using S(6) assms(9,12) by auto
    have dj: "ds1 @ es = ds2 @ es' \<and> k' \<noteq> k \<and> k < slot_count (geo t) (ds1 @ es) \<or> set (ds1 @ es) \<inter> set (ds2 @ es') = {}"
    proof (cases "ds1 = ds2")
      case True
      have "k' \<noteq> k"
      proof
        assume "k' = k"
        then have "cs' = cs1" using fi fi2 same [OF True] chain_unique by (auto simp: file_in_def)
        then show False using c1 S(3) by auto
      qed
      then show ?thesis using same [OF True] fi by (simp add: file_in_def)
    next
      case False
      then have "set ds1 \<inter> set ds2 = {}" "es = []" using assms(14) C(5) by (simp_all add: other_file_def)
      then show ?thesis using S(6) nf1 d12 by auto
    qed
    have "stores u (ds2 @ es') n2 k' cs' (take w dat)"
      by (rule removed_keeps [OF u(2) gt C(2) S(1,2) dj c1 c2])
    moreover have "fat32_rename src dst s = Some (FAT32_OK, u)" using C(1) True u(1) assms(3) by (simp add: fat32_rename_def)
    ultimately show ?thesis using w u(2) by blast
  qed
qed

section \<open>Properties\<close>

lemma note_free_fds: "free_fds (sample_vol d) = 0 # Suc 0 # [2..<FAT32_MAX_FD]"
  by (simp add: free_fds_def sample_vol_def fd_zero_def upt_rec)

text \<open>C4: Copying a file. With two free descriptors \<open>fat32_copy\<close> of a file to a path that names another file or a
  legal new name, in the same directory or another, returns. It answers \<open>FAT32_ERR_FULL\<close> only if at most
  one cluster was free, otherwise \<open>FAT32_OK\<close>, and the target then holds the bytes of the source, or the
  prefix for which there was room although the answer is the same. The source keeps its entry, its
  clusters and its contents, both descriptors are closed, and \<open>saved\<close> says what else may have changed.\<close>

theorem fat32_copy_copies:
  assumes "good_vol s" "spc_ok (geo s)" "vol_mounted s" "\<not> vol_readonly s" "length (fds s) = FAT32_MAX_FD" "free_fds s = i # j # fs"
    and "reaches s src css1 d1 ds1 n1" "stores s ds1 n1 k cs1 dat" "\<forall>c \<in> set cs1. fatv s c \<noteq> FAT32_FREE"
    and "reaches s dst css2 d2 ds2 n2" "target s ds2 n2 cs2" "set cs1 \<inter> (set ds2 \<union> set cs2) = {}"
    and "set ds1 \<inter> set cs2 = {}" "other_file s ds1 n1 k ds2 n2"
  shows "\<exists>r t es. fat32_copy src dst s = Some (r, t) \<and> dir_ok t d1 (ds1 @ es) \<and> stores t (ds1 @ es) n1 k cs1 dat \<and>
    (r = FAT32_ERR_FULL \<and> disk_full s t \<or>
     r = FAT32_OK \<and> same_vol (upd_fd j (\<lambda>_. fd_zero) (upd_fd i (\<lambda>_. fd_zero) s)) t \<and>
       (\<exists>w \<le> length dat. (w = length dat \<or> no_free t) \<and> saved s d2 ds2 n2 cs2 (take w dat) t))"
  using copy_keeps [OF assms] by blast

theorem fat32_copy_copies_witness:
  "\<exists>r t es. fat32_copy note_path copy_path note_vol = Some (r, t) \<and> dir_ok t 2 ([2] @ es) \<and> stores t ([2] @ es) note_name 0 [3, 5] note_data \<and>
    (r = FAT32_ERR_FULL \<and> disk_full note_vol t \<or>
     r = FAT32_OK \<and> same_vol (upd_fd (Suc 0) (\<lambda>_. fd_zero) (upd_fd 0 (\<lambda>_. fd_zero) note_vol)) t \<and>
       (\<exists>w \<le> length note_data. (w = length note_data \<or> no_free t) \<and> saved note_vol 2 [2] copy_name [] (take w note_data) t))"
  by (rule fat32_copy_copies [OF good_sample_vol sample_vol_fields(6,1-3) note_free_fds note_reaches note_stores note_used
        copy_target(1,2) _ _ copy_target(3)]) simp_all

text \<open>C5: Renaming a file. \<open>fat32_rename\<close> copies and then removes the source: unless it answers \<open>FAT32_ERR_FULL\<close>
  without having changed a file, the target ends up with the bytes of the source, its clusters are free
  and its entry is marked, and the target survives that. If the disk fills up on the way, the source is
  removed all the same: the target holds only a prefix and the rest of the file is lost. The path
  of the source must not lead through the directory of the target.\<close>

theorem fat32_rename_moves:
  assumes "good_vol s" "spc_ok (geo s)" "vol_mounted s" "\<not> vol_readonly s" "length (fds s) = FAT32_MAX_FD" "free_fds s = i # j # fs"
    and "reaches s src css1 d1 ds1 n1" "stores s ds1 n1 k cs1 dat" "\<forall>c \<in> set cs1. fatv s c \<noteq> FAT32_FREE"
    and "reaches s dst css2 d2 ds2 n2" "target s ds2 n2 cs2" "set cs1 \<inter> (set ds2 \<union> set cs2) = {}"
    and "set ds1 \<inter> (set cs1 \<union> set cs2) = {}" "other_file s ds1 n1 k ds2 n2" "\<Union> (set (map set css1)) \<inter> (set ds2 \<union> set cs2) = {}"
  shows "(\<exists>t. fat32_rename src dst s = Some (FAT32_ERR_FULL, t) \<and> disk_full s t) \<or>
    (\<exists>w t u m es es' k' cs'. fat32_rename src dst s = Some (FAT32_OK, u) \<and> w \<le> length dat \<and> (w = length dat \<or> no_free t) \<and>
      saved s d2 ds2 n2 cs2 (take w dat) t \<and> removed t d1 (ds1 @ es) n1 m k cs1 u \<and> stores u (ds2 @ es') n2 k' cs' (take w dat))"
  by (rule rename_at [OF assms])

theorem fat32_rename_moves_witness:
  "(\<exists>t. fat32_rename note_path copy_path note_vol = Some (FAT32_ERR_FULL, t) \<and> disk_full note_vol t) \<or>
    (\<exists>w t u m es es' k' cs'. fat32_rename note_path copy_path note_vol = Some (FAT32_OK, u) \<and> w \<le> length note_data \<and>
      (w = length note_data \<or> no_free t) \<and> saved note_vol 2 [2] copy_name [] (take w note_data) t \<and>
      removed t 2 ([2] @ es) note_name m 0 [3, 5] u \<and> stores u ([2] @ es') copy_name k' cs' (take w note_data))"
  by (rule fat32_rename_moves [OF good_sample_vol sample_vol_fields(6,1-3) note_free_fds note_reaches note_stores note_used
        copy_target(1,2) _ _ copy_target(3)]) simp_all

end
