(* ===== verification/Fat_List.thy ===== *)
theory Fat_List
  imports Fat_Copy
begin

text \<open>
  Listing a directory (\<open>src/fs/fat32_ops.c\<close> 406-495): \<open>fat32_readdir\<close> computes a list that is described without
  reference to the scan, and every name that is found is listed.
\<close>

section \<open>What a listing shows\<close>

text \<open>The slots of the long name in front of an entry, and the slots that are shown.\<close>

definition lfn_part :: "bytes \<Rightarrow> bool" where
  "lfn_part e \<longleftrightarrow> e_first e \<noteq> 0xE5 \<and> e_attr e = ATTR_LFN"

definition shown :: "bytes \<Rightarrow> bool" where
  "shown e \<longleftrightarrow> e_first e \<noteq> 0xE5 \<and> e_attr e \<noteq> ATTR_LFN \<and> \<not> is_dot_entry e"

definition lfn_run :: "bytes list \<Rightarrow> bytes list" where
  "lfn_run es = rev (takeWhile lfn_part (rev es))"

definition collected :: "bytes list \<Rightarrow> bytes \<times> bool" where
  "collected es = fold lfn_collect (map unpack_lfn (lfn_run es)) (replicate 256 0, False)"

definition name_from :: "bytes \<times> bool \<Rightarrow> bytes \<Rightarrow> bytes" where
  "name_from st e = (if snd st \<and> fst st ! 0 \<noteq> 0 then c_string (fst st) else name_of_83 (unpack_dir e))"

text \<open>
  A directory lists, in order, its slots before the end mark that are neither deleted nor part of a long name nor a dot
  entry; each goes by the long name collected from the slots directly in front of it, and else by its short name.
\<close>

definition dirents :: "bytes list \<Rightarrow> fat32_dirent_t list" where
  "dirents es =
     (let us = takeWhile (\<lambda>e. e_first e \<noteq> 0) es
      in map (\<lambda>k. make_dirent (unpack_dir (us ! k)) (name_from (collected (take k us)) (us ! k)))
           (filter (\<lambda>k. shown (us ! k)) [0..<length us]))"

text \<open>The loop as a recursion on the slots.\<close>

definition list_step :: "bytes \<Rightarrow> bytes \<times> bool \<Rightarrow> bytes \<times> bool" where
  "list_step e st = (if lfn_part e then lfn_collect (unpack_lfn e) st else (fst st, False))"

fun list_from :: "bytes \<times> bool \<Rightarrow> bytes list \<Rightarrow> fat32_dirent_t list" where
  "list_from st [] = []"
| "list_from st (e # es) =
     (if e_first e = 0 then []
      else (if shown e then [make_dirent (unpack_dir e) (name_from st e)] else []) @ list_from (list_step e st) es)"

text \<open>The buffer matters only while a long name is being collected.\<close>

definition same_lfn :: "bytes \<times> bool \<Rightarrow> bytes \<times> bool \<Rightarrow> bool" where
  "same_lfn st st' \<longleftrightarrow> snd st = snd st' \<and> (snd st \<longrightarrow> fst st = fst st')"

lemma same_lfn_name: "same_lfn st st' \<Longrightarrow> name_from st e = name_from st' e"
  by (auto simp: same_lfn_def name_from_def)

lemma same_lfn_step:
  assumes "same_lfn st (collected es)"
  shows "same_lfn (list_step e st) (collected (es @ [e]))"
proof (cases "lfn_part e")
  case True
  have "same_lfn (lfn_collect l st) (lfn_collect l (collected es))" for l
    using assms by (cases st; cases "collected es") (auto simp: same_lfn_def lfn_collect_def Let_def)
  moreover have "collected (es @ [e]) = lfn_collect (unpack_lfn e) (collected es)"
    using True by (simp add: collected_def lfn_run_def)
  ultimately show ?thesis using True by (simp add: list_step_def)
qed (simp add: list_step_def same_lfn_def collected_def lfn_run_def)

lemma list_from_used: "list_from st es = list_from st (takeWhile (\<lambda>e. e_first e \<noteq> 0) es)"
  by (induction st es rule: list_from.induct) simp_all

lemma list_from_at:
  assumes "k \<le> length us" "same_lfn st (collected (take k us))" "list_all (\<lambda>e. e_first e \<noteq> 0) us"
  shows "list_from st (drop k us) =
    map (\<lambda>k. make_dirent (unpack_dir (us ! k)) (name_from (collected (take k us)) (us ! k)))
      (filter (\<lambda>k. shown (us ! k)) [k..<length us])"
  using assms
proof (induction "length us - k" arbitrary: k st)
  case (Suc m)
  then have k: "k < length us" by simp
  have d: "drop k us = us ! k # drop (Suc k) us" by (simp add: Cons_nth_drop_Suc k)
  have "same_lfn (list_step (us ! k) st) (collected (take (Suc k) us))"
    using same_lfn_step [OF Suc.prems(2)] by (simp add: take_Suc_conv_app_nth k)
  then have I: "list_from (list_step (us ! k) st) (drop (Suc k) us) =
    map (\<lambda>k. make_dirent (unpack_dir (us ! k)) (name_from (collected (take k us)) (us ! k)))
      (filter (\<lambda>k. shown (us ! k)) [Suc k..<length us])"
    using Suc.hyps Suc.prems(3) k by auto
  have "e_first (us ! k) \<noteq> 0" using Suc.prems(3) k by (simp add: list_all_length)
  then show ?case unfolding d using I same_lfn_name [OF Suc.prems(2)] k by (simp add: upt_rec [of k])
qed simp

lemma list_from_dirents: "list_from (replicate 256 0, False) es = dirents es"
proof -
  let ?us = "takeWhile (\<lambda>e. e_first e \<noteq> 0) es"
  have "list_all (\<lambda>e. e_first e \<noteq> 0) ?us" by (auto simp: list_all_iff dest: set_takeWhileD)
  moreover have "same_lfn (replicate 256 0, False) (collected (take 0 ?us))"
    by (simp add: same_lfn_def collected_def lfn_run_def)
  ultimately have "list_from (replicate 256 0, False) (drop 0 ?us) = dirents es"
    using list_from_at [of 0 ?us] by (simp add: dirents_def Let_def)
  then show ?thesis using list_from_used by simp
qed

section \<open>The scan of a listing\<close>

lemma readdir_from_at:
  assumes "good_vol s" "dir_chain s c cs" "j < slot_count (geo s) cs"
  shows "\<exists>t. readdir_from (pos_at (geo s) cs i j) st s = Some (list_from st (drop j (dir_slots s cs)), t) \<and> reads_only s t"
  using assms
proof (induction "slot_count (geo s) cs - j" arbitrary: j st s)
  case (Suc m)
  obtain s1 s2 p where S: "dir_read_entry (pos_at (geo s) cs i j) s = (Some (slot s cs j), s1)"
    "dir_next (pos_at (geo s) cs i j) s1 = Some ((Suc j < slot_count (geo s) cs, p), s2)"
    "Suc j < slot_count (geo s) cs \<Longrightarrow> p = pos_at (geo s) cs i (Suc j)"
    "reads_only s s1" "reads_only s s2"
    by (rule scan_step [OF Suc.prems]) blast
  have gv2: "good_vol s2" using S(5) by (simp add: reads_only_def)
  note g2 = reads_only_geo [OF S(5)] and L2 = dir_listing_cong [OF S(5) Suc.prems(1,2)]
  note D = drop_dir_slots [OF Suc.prems(3)]
  let ?e = "slot s cs j"
  show ?case
  proof (cases "e_first ?e = 0")
    case True
    then show ?thesis using S D by (subst readdir_from.simps) auto
  next
    case go: False
    have st: "(if e_first ?e = 0xE5 then ([], (fst st, False))
       else if e_attr ?e = ATTR_LFN then ([], lfn_collect (unpack_lfn ?e) st)
       else if is_dot_entry ?e then ([], (fst st, False))
       else ([make_dirent (unpack_dir ?e) (if snd st \<and> fst st ! 0 \<noteq> 0 then c_string (fst st)
           else name_of_83 (unpack_dir ?e))], (fst st, False)))
      = (if shown ?e then [make_dirent (unpack_dir ?e) (name_from st ?e)] else [], list_step ?e st)"
      by (simp add: shown_def list_step_def lfn_part_def name_from_def)
    show ?thesis
    proof (cases "Suc j < slot_count (geo s) cs")
      case True
      have "m = slot_count (geo s2) cs - Suc j" using Suc.hyps(2) g2 by simp
      with Suc.hyps(1) [OF this gv2 L2(3)] True
      obtain t where t: "readdir_from (pos_at (geo s) cs i (Suc j)) (list_step ?e st) s2
          = Some (list_from (list_step ?e st) (drop (Suc j) (dir_slots s cs)), t)"
        "reads_only s2 t" unfolding g2 L2(2) by blast
      have "readdir_from (pos_at (geo s) cs i j) st s = Some (list_from st (drop j (dir_slots s cs)), t)"
        using S(1,2) S(3) [OF True] go True t(1) unfolding D by (subst readdir_from.simps) (simp add: st)
      then show ?thesis using reads_only_trans [OF S(5) t(2)] by blast
    next
      case False
      then have "drop (Suc j) (dir_slots s cs) = []" by (simp add: dir_slots_def)
      then show ?thesis using S go False unfolding D by (subst readdir_from.simps) (auto simp: st)
    qed
  qed
qed simp

text \<open>The directory on the clusters \<open>ds\<close> is what a path names: the root, or an entry of a directory.\<close>

definition first_cluster :: "vol \<Rightarrow> bytes \<Rightarrow> u32" where
  "first_cluster s e = (if entry_cluster (unpack_dir e) = 0 then vol_root_cluster (geo s) else entry_cluster (unpack_dir e))"

definition dir_at :: "vol \<Rightarrow> bytes \<Rightarrow> u32 list \<Rightarrow> bool" where
  "dir_at s path ds \<longleftrightarrow> path = [CH_SLASH] \<and> dir_chain s (vol_root_cluster (geo s)) ds \<or>
     (\<exists>css d ds0 n e pos st. path_dir s path css d n \<and> dir_chain s d ds0 \<and> lookup n s ds0 = Some (e, pos, st) \<and>
        e_attr e AND ATTR_DIR \<noteq> 0 \<and> dir_chain s (first_cluster s e) ds)"

lemma unpack_attr: "length e = 32 \<Longrightarrow> de_attr (unpack_dir e) = e_attr e"
  by (simp add: unpack_dir_def)

lemma readdir_chain:
  assumes "good_vol s" "dir_chain s c ds"
  shows "\<exists>t. readdir_from (dir_pos_init (geo s) c) (replicate 256 0, False) s = Some (dirents (dir_slots s ds), t) \<and> reads_only s t"
  using readdir_from_at [OF assms slot_count_pos [OF assms], of 0 "(replicate 256 0, False)"]
  by (simp add: dir_pos_init_chain [OF assms] list_from_dirents)

lemma readdir_at:
  assumes "good_vol s" "vol_mounted s" "dir_at s path ds"
  shows "\<exists>t. fat32_readdir path s = Some (Inr (dirents (dir_slots s ds)), t) \<and> reads_only s t"
proof -
  obtain de w c s1 where P: "path_stat path s = Some (Some (de, w), s1)" "reads_only s s1" "de_attr de AND ATTR_DIR \<noteq> 0"
    "c = (if entry_cluster de = 0 then vol_root_cluster (geo s) else entry_cluster de)" "dir_chain s c ds"
  proof (cases "path = [CH_SLASH]")
    case True
    have "\<not> path_dir s path css d n" for css d n using True by (cases css) (auto simp: path_dir_def)
    then have "dir_chain s (vol_root_cluster (geo s)) ds" using assms(3) by (auto simp: dir_at_def)
    moreover have "de_attr (set_entry_cluster (vol_root_cluster (geo s)) (dir_entry_zero\<lparr>de_attr := ATTR_DIR\<rparr>)) AND ATTR_DIR \<noteq> 0"
      by (simp add: set_entry_cluster_def)
    ultimately show ?thesis
      using that [of "set_entry_cluster (vol_root_cluster (geo s)) (dir_entry_zero\<lparr>de_attr := ATTR_DIR\<rparr>)" None s "vol_root_cluster (geo s)"]
        True reads_only_refl [OF assms(1)] by (simp add: path_stat_def)
  next
    case False
    then obtain css d ds0 n e pos st where D: "path_dir s path css d n" "dir_chain s d ds0" "lookup n s ds0 = Some (e, pos, st)"
      "e_attr e AND ATTR_DIR \<noteq> 0" "dir_chain s (first_cluster s e) ds" using assms(3) by (auto simp: dir_at_def)
    obtain k where "e = slot s ds0 k" by (rule lookup_slot [OF D(3)])
    then have "length e = 32" by simp
    with D path_stat_at [OF assms(1) D(1,2)] show ?thesis using that by (auto simp: first_cluster_def unpack_attr)
  qed
  have g: "good_vol s1" using P(2) by (simp add: reads_only_def)
  note L = dir_listing_cong [OF P(2) assms(1) P(5)] and g1 = reads_only_geo [OF P(2)]
  obtain t where t: "readdir_from (dir_pos_init (geo s1) c) (replicate 256 0, False) s1 = Some (dirents (dir_slots s1 ds), t)" "reads_only s1 t"
    using readdir_chain [OF g L(3)] by blast
  have "fat32_readdir path s = Some (Inr (dirents (dir_slots s ds)), t)"
    using P(1,3,4) t(1) assms(2) L(2) g1 by (cases "entry_cluster de = 0") (simp_all add: fat32_readdir_def Let_def)
  then show ?thesis using reads_only_trans [OF P(2) t(2)] by blast
qed

section \<open>What is found is listed\<close>

text \<open>The name shown for an entry that was found under \<open>name\<close>.\<close>

definition shown_as :: "bytes \<Rightarrow> bytes \<Rightarrow> bytes \<Rightarrow> bool" where
  "shown_as name e nm \<longleftrightarrow> map f_toupper nm = map f_toupper name \<or> nm = name_of_83 (unpack_dir e) \<and> take 11 e = make_83 name"

lemma find_step_list:
  assumes "same_lfn (fs_buf f, fs_building f) st"
  shows "same_lfn (fs_buf (find_step e pos f), fs_building (find_step e pos f)) (list_step e st)"
proof (cases "lfn_part e")
  case True
  obtain buf on where C: "lfn_collect (unpack_lfn e) (fs_buf f, fs_building f) = (buf, on)" by fastforce
  have "same_lfn (lfn_collect l (fs_buf f, fs_building f)) (lfn_collect l st)" for l
    using assms by (cases st) (auto simp: same_lfn_def lfn_collect_def Let_def)
  from this [of "unpack_lfn e"] show ?thesis
    using True C by (auto simp: find_step_def list_step_def lfn_part_def find_lfn_def Let_def)
next
  case False
  then show ?thesis by (auto simp: find_step_def list_step_def lfn_part_def same_lfn_def)
qed

lemma find_in_listed:
  assumes "find_in name f xs = Some (e, pos, p)" "same_lfn (fs_buf f, fs_building f) st" "\<not> is_dot_entry e" "name \<noteq> []"
  shows "\<exists>nm. make_dirent (unpack_dir e) nm \<in> set (list_from st (map fst xs)) \<and> shown_as name e nm"
  using assms(1,2,4)
proof (induction name f xs arbitrary: st rule: find_in.induct)
  case (2 n f x q xs)
  show ?case
  proof (cases "e_first x \<noteq> 0xE5 \<and> e_attr x \<noteq> ATTR_LFN \<and> find_match n x f")
    case True
    then have x: "x = e" "e_first e \<noteq> 0" using "2.prems" by (auto split: if_splits)
    then have "shown x" using True assms(3) by (simp add: shown_def)
    moreover have "shown_as n e (name_from st e)"
    proof (cases "fs_building f \<and> 0 < fs_parts f \<and> lfn_matches n (fs_buf f)")
      case on: True
      then have st: "st = (fs_buf f, True)" using "2.prems"(2) by (cases st) (auto simp: same_lfn_def)
      show ?thesis using on "2.prems"(3) by (cases "fs_buf f ! 0 = 0"; cases "fs_buf f")
        (auto simp: shown_as_def name_from_def st lfn_matches_def c_string_def)
    next
      case off: False
      then have "\<not> fs_building f" "take 11 e = make_83 n" using True x by (auto simp: find_match_def split: if_splits)
      moreover from this(1) have "\<not> snd st" using "2.prems"(2) by (simp add: same_lfn_def)
      ultimately show ?thesis by (simp add: shown_as_def name_from_def)
    qed
    ultimately show ?thesis using x by auto
  next
    case False
    then have n: "e_first x \<noteq> 0" "find_in n (find_step x q f) xs = Some (e, pos, p)"
      using "2.prems" by (auto split: if_splits)
    from "2.IH" [OF n(1) False n(2) find_step_list [OF "2.prems"(2)] "2.prems"(3)] show ?thesis using n(1) by auto
  qed
qed simp

lemma lookup_listed:
  assumes "lookup name s ds = Some (e, pos, p)" "\<not> is_dot_entry e" "name \<noteq> []"
  shows "\<exists>nm. make_dirent (unpack_dir e) nm \<in> set (dirents (dir_slots s ds)) \<and> shown_as name e nm"
  using find_in_listed [OF assms(1) _ assms(2,3), of "(replicate 256 0, False)"]
  by (simp add: same_lfn_def find_init_def list_from_dirents)

text \<open>A sample listing: the file of \<open>note_vol\<close> under its short name.\<close>

lemma note_dirents: "dirents (dir_slots note_vol [2]) = [make_dirent (unpack_dir note_entry) (ascii ''NOTES.TXT'')]"
proof -
  have c: "0 < slot_count (geo note_vol) [2]" "Suc 0 < slot_count (geo note_vol) [2]"
    by (simp_all add: slot_count_def clus_slots_def sample_geo_def)
  have "dir_slots note_vol [2] = drop 0 (dir_slots note_vol [2])" by simp
  then have l: "dir_slots note_vol [2] = note_entry # replicate 32 0 # drop (Suc (Suc 0)) (dir_slots note_vol [2])"
    unfolding drop_dir_slots [OF c(1)] drop_dir_slots [OF c(2)] note_slot note_slot_rest [of "Suc 0", simplified] .
  have "e_first note_entry = take 11 note_entry ! 0" by simp
  also have "take 11 note_entry = ascii ''NOTES   TXT''"
    unfolding note_entry_def by (rule make_e83_fields(2)) (simp add: ascii_def)
  finally have f: "e_first note_entry = 78" by (simp add: ascii_def)
  then have s: "shown note_entry" by (simp add: shown_def is_dot_entry_def note_entry(2))
  have n: "name_of_83 (unpack_dir note_entry) = ascii ''NOTES.TXT''"
    unfolding note_entry(4) by (simp add: name_of_83_def make_e83_def set_entry_cluster_def ascii_def c_string_def)
  show ?thesis by (subst l) (simp add: dirents_def name_from_def collected_def lfn_run_def f s n)
qed

section \<open>Properties\<close>

text \<open>C11: Listing a directory. For a path that names a directory, the root or an entry with the directory
  attribute, \<open>fat32_readdir\<close> returns, changes nothing but the sector cache, and passes on, in order, the
  slots before the end mark that are neither deleted nor part of a long name nor a dot entry, each under
  the long name in the slots directly in front of it and else under its short name. Whatever a lookup
  in the directory finds is listed, under the same name up to case or under its short name.\<close>

theorem fat32_readdir_lists:
  assumes "good_vol s" "vol_mounted s" "dir_at s path ds"
  shows "\<exists>t. fat32_readdir path s = Some (Inr (dirents (dir_slots s ds)), t) \<and> reads_only s t \<and>
    (\<forall>name e pos p. name \<noteq> [] \<longrightarrow> lookup name s ds = Some (e, pos, p) \<longrightarrow> \<not> is_dot_entry e \<longrightarrow>
      (\<exists>nm. make_dirent (unpack_dir e) nm \<in> set (dirents (dir_slots s ds)) \<and> shown_as name e nm))"
  using readdir_at [OF assms] lookup_listed [of _ s ds] by blast

theorem fat32_readdir_lists_witness:
  "\<exists>t. fat32_readdir [CH_SLASH] note_vol = Some (Inr [make_dirent (unpack_dir note_entry) (ascii ''NOTES.TXT'')], t)"
proof -
  have "dir_at note_vol [CH_SLASH] [2]" using note_dir by (simp add: dir_at_def dir_ok_def sample_geo_def)
  from fat32_readdir_lists [OF good_sample_vol sample_vol_fields(1) this] show ?thesis unfolding note_dirents by blast
qed

end
