(* ===== verification/Fat_Mkdir.thy ===== *)
theory Fat_Mkdir
  imports Fat_List
begin

text \<open>
  Making a directory (\<open>src/fs/fat32_ops.c\<close> 362-404): \<open>fat32_mkdir\<close> adds an empty directory that its path names and
  that paths lead into, and leaves the rest of the disk as it is.
\<close>

section \<open>A new directory\<close>

lemma blit_append: "blit off (xs @ ys) f = blit off xs (blit (off + length xs) ys f)"
  by (auto simp: blit_def fun_eq_iff nth_append)

text \<open>
  The bytes of the entry of a directory \<open>nm\<close> at cluster \<open>c\<close> as FAT lays them out: the name, the
  attributes, the high half of the cluster at 20, the low half at 26; times and size are 0.
\<close>

definition subdir_bytes :: "bytes \<Rightarrow> u32 \<Rightarrow> bytes" where
  "subdir_bytes nm c = nm @ [0x10] @ replicate 8 0 @ [ucast (drop_bit 16 c), ucast (drop_bit 24 c)] @ replicate 4 0 @
     [ucast c, ucast (drop_bit 8 c)] @ replicate 4 0"

definition dot_slot :: "u32 \<Rightarrow> bytes" where
  "dot_slot c = subdir_bytes (ascii ''.          '') c"

definition dotdot_slot :: "u32 \<Rightarrow> bytes" where
  "dotdot_slot c = subdir_bytes (ascii ''..         '') c"

lemma dot_slots:
  "length (dot_slot c) = 32" "length (dotdot_slot c) = 32" "dot_slot c ! 0 = CH_DOT" "dotdot_slot c ! 0 = CH_DOT"
  "dot_slot c ! Suc 0 = CH_SPACE" "dotdot_slot c ! Suc 0 = CH_DOT" "e_attr (dot_slot c) = ATTR_DIR" "e_attr (dotdot_slot c) = ATTR_DIR"
  by (simp_all add: dot_slot_def dotdot_slot_def subdir_bytes_def ascii_def nth_append numeral_eq_Suc)

lemma ucast_low_half: "ucast (ucast ((c :: u32) AND 0xFFFF) :: u16) = (ucast c :: u8)"
  "ucast (drop_bit 8 (ucast (c AND 0xFFFF) :: u16)) = (ucast (drop_bit 8 c) :: u8)"
  "ucast (ucast (drop_bit 16 c) :: u16) = (ucast (drop_bit 16 c) :: u8)"
  "ucast (drop_bit 8 (ucast (drop_bit 16 c) :: u16)) = (ucast (drop_bit 24 c) :: u8)"
  by (rule bit_word_eqI, auto simp: bit_simps numeral_eq_Suc less_Suc_eq)+

lemma pack_dot_entry:
  "pack_dir (dot_entry (ascii ''.          '') c) = dot_slot c" "pack_dir (dot_entry (ascii ''..         '') c) = dotdot_slot c"
proof -
  have r: "replicate 4 (0 :: u8) = [0, 0, 0, 0]" "replicate 8 (0 :: u8) = [0, 0, 0, 0, 0, 0, 0, 0]"
    by (simp_all add: numeral_eq_Suc)
  show "pack_dir (dot_entry (ascii ''.          '') c) = dot_slot c" "pack_dir (dot_entry (ascii ''..         '') c) = dotdot_slot c"
    by (simp_all add: dot_slot_def dotdot_slot_def subdir_bytes_def dot_entry_def dir_entry_zero_def pack_dir_def ascii_def
        set_entry_cluster_def le16_def le32_def ucast_low_half r unpack_dir_def field16_def field32_def of_le16_def of_le32_def)
qed

text \<open>The slots of a directory at cluster \<open>c\<close> that was just made: itself, its parent, and no entry.\<close>

definition fresh_dir :: "u32 \<Rightarrow> u32 \<Rightarrow> bytes list \<Rightarrow> bool" where
  "fresh_dir c p es \<longleftrightarrow> (\<exists>n. es = dot_slot c # dotdot_slot p # replicate n (replicate 32 0))"

lemma fresh_dirents: "fresh_dir c p es \<Longrightarrow> dirents es = []"
proof -
  assume "fresh_dir c p es"
  then obtain n where es: "es = dot_slot c # dotdot_slot p # replicate n (replicate 32 0)" by (auto simp: fresh_dir_def)
  have "list_from st (replicate n (replicate 32 0)) = []" for st by (cases n) simp_all
  then show ?thesis unfolding list_from_dirents [symmetric] es by (simp add: shown_def is_dot_entry_def dot_slots)
qed

lemma fresh_end_ok: "fresh_dir c p es \<Longrightarrow> end_ok es"
proof -
  assume "fresh_dir c p es"
  then obtain n where es: "es = [dot_slot c, dotdot_slot p] @ replicate n (replicate 32 0)" by (auto simp: fresh_dir_def)
  have "end_ok (replicate n (replicate 32 0))" by (rule end_ok_zero) (simp add: list_all_iff)
  then show ?thesis unfolding es by (subst end_ok_nonzero) (simp_all add: dot_slots)
qed

lemma make_83_no_dot: "make_83 name ! 0 \<noteq> CH_DOT"
proof -
  have "pad_to 8 xs ! 0 \<noteq> CH_DOT" if "CH_DOT \<notin> set xs" for xs
    using that by (cases xs) (auto simp: pad_to_def)
  moreover have "CH_DOT \<notin> set (make_stem i dot room cs)" for i dot room cs using make_stem_chars by blast
  ultimately show ?thesis by (simp add: make_83_def Let_def nth_append)
qed

lemma fresh_find_in:
  assumes "fresh_dir c p (map fst xs)" "\<not> fs_building f"
  shows "find_in name f xs = None"
proof -
  obtain n where X: "map fst xs = dot_slot c # dotdot_slot p # replicate n (replicate 32 0)"
    using assms(1) by (auto simp: fresh_dir_def)
  then obtain q1 q2 zs where xs: "xs = (dot_slot c, q1) # (dotdot_slot p, q2) # zs" and z: "map fst zs = replicate n (replicate 32 0)"
    by (cases xs; cases "tl xs") auto
  have "list_all (\<lambda>x. e_first (fst x) = 0) zs"
  proof -
    have "list_all (\<lambda>e. e_first e = 0) (map fst zs)" unfolding z by (simp add: list_all_iff)
    then show ?thesis by (simp add: list.pred_map comp_def)
  qed
  then have "find_in name g zs = None" for g by (rule find_in_zero)
  moreover have "take 11 e \<noteq> make_83 name" if "e ! 0 = CH_DOT" for e :: bytes
    using that make_83_no_dot [of name] by (metis nth_take zero_less_numeral)
  ultimately show ?thesis using assms(2) unfolding xs by (simp add: find_match_def find_step_def dot_slots)
qed

lemma fresh_lookup: "fresh_dir c p (dir_slots s ds) \<Longrightarrow> lookup name s ds = None"
  by (rule fresh_find_in) (simp_all add: find_init_def)

text \<open>The first sector of a zeroed cluster gets the two dot entries.\<close>

lemma dot_cluster:
  assumes "good_vol s" "valid_cluster (geo s) new" "fatv s new = FAT_MASK"
    and "\<forall>a \<in> cluster_sectors (geo s) new. sec_view s a = zero_sector"
  shows "\<exists>s1 ok t. sec_read (cluster_to_lba (geo s) new) s = (True, s1) \<and> cache_patch 0 (dot_slot c @ dotdot_slot p) s1 = (ok, t) \<and>
    same_vol s t \<and> good_vol t \<and> changes {new} s t \<and> fatv t new = FAT_MASK \<and> dir_ok t new [new] \<and> fresh_dir c p (dir_slots t [new])"
proof -
  note G = good_volD [OF assms(1)]
  let ?lba = "cluster_to_lba (geo s) new" and ?n = "slot_count (geo s) [new]" and ?ents = "dot_slot c @ dotdot_slot p"
  have dc: "dir_chain s new [new]" using new_chain [OF assms(1-3)] by (simp add: file_chain_def)
  have vc: "\<forall>k \<in> set [new]. valid_cluster (geo s) k" using assms(2) by simp
  have n16: "16 \<le> clus_slots (geo s)" using G(3) by (simp add: clus_slots_def geo_ok_def)
  have cs: "?n = clus_slots (geo s)" by (simp add: slot_count_def)
  have j: "0 < ?n" "1 < ?n" using n16 cs by linarith+
  have l0: "slot_lba (geo s) [new] 0 = ?lba" by (simp add: slot_lba_def)
  have l1: "slot_lba (geo s) [new] 1 = ?lba" using n16 by (simp add: slot_lba_def)
  note L = slot_lba_data [OF G(3) j(1) vc, unfolded l0]
  obtain s1 where s1: "sec_read ?lba s = (True, s1)" "same_vol s s1" "cache_ok s1" "io_ok s1"
      "\<And>a. a \<noteq> NO_LBA \<Longrightarrow> sec_view s1 a = sec_view s a" "sec_cache s1 = sec_view s ?lba" "sec_cache_lba s1 = ?lba"
    using sec_readE [OF G(1,2) L(2)] by blast
  obtain ok t where t: "cache_patch 0 ?ents s1 = (ok, t)" by fastforce
  note P = cache_patch_view [OF t s1(4) L(2) [folded s1(7)]]
  have sv: "same_vol s t" using same_vol_trans [OF s1(2) P(3)] .
  have gt: "geo t = geo s" by (rule same_vol_geo [OF sv])
  have gvt: "good_vol t" using P(2) same_vol_io [OF sv G(1)] G(3) gt by (simp add: good_vol_def)
  have vt: "a \<noteq> NO_LBA \<Longrightarrow> sec_view t a = (if a = ?lba then blit 0 ?ents (sec_view s ?lba) else sec_view s a)" for a
    using P(5) s1(5,6,7) by simp
  have "?lba \<in> dir_sectors (geo s) [new]"
    using slot_lba_in [OF G(3) j(1)] unfolding dir_sectors_def l0 by simp
  then have w: "writes_in (dir_sectors (geo s) [new]) s t"
    by (rule sectors_writes_in [OF assms(1) sv gvt _ L(1)]) (use vt in simp)
  have sl: "slot t [new] k = (if k = 0 then dot_slot c else if k = 1 then dotdot_slot p else replicate 32 0)" if k: "k < ?n" for k
  proof -
    note K = slot_lba_data [OF G(3) k vc]
    have "slot_lba (geo s) [new] k \<in> cluster_sectors (geo s) new"
      using slot_lba_in [OF G(3) k] slot_index(1) [OF G(3) k] by simp
    then have z: "sec_view s (slot_lba (geo s) [new] k) = zero_sector" using assms(4) by blast
    have mod: "k mod 16 \<noteq> 0 \<and> k mod 16 \<noteq> 1" if "slot_lba (geo s) [new] k = ?lba" "k \<noteq> 0" "k \<noteq> 1"
      using slot_lba_inj [OF G(3) vc _ k j(1)] slot_lba_inj [OF G(3) vc _ k j(2)] that l0 l1 by simp
    consider "k = 0" | "k = 1" | "k \<noteq> 0" "k \<noteq> 1" by blast
    then show ?thesis
    proof cases
      case 1
      then show ?thesis using vt l0 L(2) by (simp add: slot_def gt blit_append slice_blit_same dot_slots)
    next
      case 2
      then show ?thesis using vt [of ?lba] l1 L(2)
        by (simp add: slot_def gt blit_append slice_blit_same slice_blit_other dot_slots)
    next
      case 3
      show ?thesis
      proof (cases "slot_lba (geo s) [new] k = ?lba")
        case True
        then have "64 \<le> 32 * (k mod 16)" using mod 3 by (cases "k mod 16"; cases "k mod 16 - 1") auto
        then show ?thesis using 3 True vt L(2) z
          by (simp add: slot_def gt blit_append slice_blit_other dot_slots slice_zero)
      next
        case False
        then show ?thesis using 3 vt [OF K(2)] z by (simp add: slot_def gt slice_zero)
      qed
    qed
  qed
  have "dir_slots t [new] = dot_slot c # dotdot_slot p # replicate (?n - 2) (replicate 32 0)"
  proof (rule nth_equalityI)
    show "length (dir_slots t [new]) = length (dot_slot c # dotdot_slot p # replicate (?n - 2) (replicate 32 (0 :: u8)))"
      using j by (simp add: gt)
    fix k assume "k < length (dir_slots t [new])"
    then have k: "k < ?n" by (simp add: gt)
    show "dir_slots t [new] ! k = (dot_slot c # dotdot_slot p # replicate (?n - 2) (replicate 32 0)) ! k"
      using sl [OF k] k gt by (auto simp: dir_slots_nth nth_Cons split: nat.split)
  qed
  then have fr: "fresh_dir c p (dir_slots t [new])" by (auto simp: fresh_dir_def)
  have fn: "fatv t new = FAT_MASK" using w assms(3) valid_fat_index [OF assms(2)] by (simp add: writes_in_def)
  have "dir_ok t new [new]" using writes_in_chain [OF w dc] fresh_end_ok [OF fr] fn by (simp add: dir_ok_def)
  then show ?thesis using s1(1) t sv gvt writes_changes [OF w vc] fn fr by auto
qed

text \<open>
  What making the directory \<open>name\<close> leaves: an entry at slot \<open>k\<close> with the new cluster, which holds an
  empty directory whose parent is \<open>d\<close>, written as 0 for the root.
\<close>

definition dir_made :: "vol \<Rightarrow> u32 \<Rightarrow> u32 list \<Rightarrow> bytes \<Rightarrow> vol \<Rightarrow> u32 list \<Rightarrow> nat \<Rightarrow> u32 \<Rightarrow> bool" where
  "dir_made s d ds name t es k new \<longleftrightarrow> dir_ok t d (ds @ es) \<and> dir_ok t new [new] \<and>
     fresh_dir new (if d = vol_root_cluster (geo s) then 0 else d) (dir_slots t [new]) \<and>
     new \<notin> set (ds @ es) \<and> k < slot_count (geo s) (ds @ es) \<and> e_attr (slot t (ds @ es) k) AND ATTR_DIR \<noteq> 0 \<and>
     entry_cluster (unpack_dir (slot t (ds @ es) k)) = new \<and>
     (\<exists>st. lookup name t (ds @ es) = Some (slot t (ds @ es) k, pos_at (geo s) (ds @ es) 0 k, st)) \<and>
     (k < slot_count (geo s) ds \<longrightarrow> slot_free (slot s ds k)) \<and>
     (\<forall>j < slot_count (geo s) ds. \<not> slot_free (slot s ds j) \<longrightarrow> slot t (ds @ es) j = slot s ds j) \<and>
     (\<forall>nm. \<not> same_name nm name \<longrightarrow> lookup nm t (ds @ es) = lookup nm s ds) \<and>
     (\<forall>c \<in> insert new (set es). fatv s c = FAT32_FREE) \<and> changes (insert new (set (ds @ es))) s t"

lemma dir_created:
  assumes "good_vol s" "dir_chain s d ds" "changes {new} s s2" "good_vol s3"
    and "valid_cluster (geo s) new" "fatv s new = FAT32_FREE" "fatv s2 new = FAT_MASK" "set ds \<inter> {new} = {}"
    and "entry_added d ds name e pos s2 s3" "e_attr (pack_dir e) AND ATTR_DIR \<noteq> 0" "entry_cluster (unpack_dir (pack_dir e)) = new"
    and "dir_ok s2 new [new]" "fresh_dir new (if d = vol_root_cluster (geo s) then 0 else d) (dir_slots s2 [new])"
  shows "\<exists>es k. dir_made s d ds name s3 es k new"
proof -
  note g2 = changesD [OF assms(3)]
  obtain es start k v where ea: "dir_ok s3 d (ds @ es)"
    "dir_find d name s3 = Some (Some (pack_dir e, pos_at (geo s2) (ds @ es) 0 k, start), v)"
    "\<And>j. j < slot_count (geo s2) ds \<Longrightarrow> \<not> slot_free (slot s2 ds j) \<Longrightarrow> slot s3 (ds @ es) j = slot s2 ds j"
    "\<forall>k \<in> set es. fatv s2 k = FAT32_FREE" "changes (set (ds @ es)) s2 s3"
    "\<forall>nm. \<not> same_name nm name \<longrightarrow> lookup nm s3 (ds @ es) = lookup nm s2 ds"
    "k < slot_count (geo s2) (ds @ es)" "k < slot_count (geo s2) ds \<longrightarrow> slot_free (slot s2 ds k)"
    using assms(9) unfolding entry_added_def by blast
  let ?ds = "ds @ es"
  have dc3: "dir_chain s3 d ?ds" using ea(1) by (simp add: dir_ok_def)
  have g3: "geo s3 = geo s" using changesD(2) [OF ea(5)] g2(2) by simp
  have L3: "lookup name s3 ?ds = Some (pack_dir e, pos_at (geo s3) ?ds 0 k, start)"
    using dir_find_listing [OF assms(4) dc3, of name] ea(2) g3 g2(2) by auto
  obtain i where i: "i < slot_count (geo s3) ?ds" "pack_dir e = slot s3 ?ds i" "pos_at (geo s3) ?ds 0 k = pos_at (geo s3) ?ds 0 i"
    by (rule lookup_slot [OF L3]) blast
  have k: "k < slot_count (geo s3) ?ds" "pack_dir e = slot s3 ?ds k"
    using pos_at_eq [OF assms(4) dc3 _ i(1), of k 0 0] i ea(7) g3 g2(2) by simp_all
  have nes: "new \<notin> set ?ds" using assms(8) ea(4) assms(7) by auto
  have dn: "dir_chain s2 new [new]" using assms(12) by (simp add: dir_ok_def)
  note N = changes_dir [OF ea(5) g2(1) dn]
  have "dir_ok s3 new [new]" "fresh_dir new (if d = vol_root_cluster (geo s) then 0 else d) (dir_slots s3 [new])"
    using N nes assms(12,13) by (simp_all add: dir_ok_def)
  moreover have "fatv s c = FAT32_FREE" if "c \<in> set es" for c
  proof -
    have "c \<notin> {new}" "fat_index (geo s) c" using that nes dc3 g3 valid_fat_index by (auto simp: dir_chain_def)
    then have "fatv s2 c = fatv s c" using assms(3) unfolding changes_def by blast
    then show ?thesis using ea(4) that by simp
  qed
  moreover have "slot s3 ?ds j = slot s ds j" if "j < slot_count (geo s) ds" "\<not> slot_free (slot s ds j)" for j
    using ea(3) [of j] changes_slot [OF assms(3,1,2,8) that(1)] that g2(2) by simp
  moreover have "k < slot_count (geo s) ds \<longrightarrow> slot_free (slot s ds k)"
    using ea(8) changes_slot [OF assms(3,1,2,8)] g2(2) by auto
  moreover have "\<forall>nm. \<not> same_name nm name \<longrightarrow> lookup nm s3 ?ds = lookup nm s ds"
    using ea(6) changes_lookup [OF assms(3,1,2,8)] by simp
  moreover have "changes (insert new (set ?ds)) s s3"
    by (rule changes_mono [OF changes_trans [OF assms(3) ea(5)]]) auto
  ultimately have "dir_made s d ds name s3 es k new"
    unfolding dir_made_def using ea(1) nes k L3 assms(6,10,11) g3 by (intro conjI) auto
  then show ?thesis by blast
qed

lemma mkdir_at:
  assumes "good_vol s" "vol_mounted s" "path_dir s path css d name" "dir_ok s d ds"
    and "lookup name s ds = None" "name_ok name" "lfn_need name + 1 \<le> clus_slots (geo s)"
  shows "\<exists>r t. fat32_mkdir path s = Some (r, t) \<and> same_vol s t \<and>
    (r = FAT32_ERR_FULL \<and> disk_full s t \<or> r = FAT32_OK \<and> (\<exists>es k new. dir_made s d ds name t es k new))"
proof -
  have dn: "d \<noteq> 0" "name \<noteq> []" using assms(3) by (simp_all add: path_dir_def)
  have dc: "dir_chain s d ds" using assms(4) by (simp add: dir_ok_def)
  obtain s0 where s0: "path_stat path s = Some (None, s0)" "reads_only s s0"
    using path_stat_at [OF assms(1,3) dc] assms(5) by auto
  have g0: "good_vol s0" using s0(2) by (simp add: reads_only_def)
  obtain s1 where s1: "path_resolve_parent path s0 = Some ((d, name), s1)" "reads_only s0 s1"
    using path_resolve_at [OF g0 reads_path_dir [OF s0(2) assms(1,3)]] by blast
  have r1: "reads_only s s1" by (rule reads_only_trans [OF s0(2) s1(2)])
  have c1: "changes {} s s1" by (rule reads_changes [OF r1 assms(1)])
  note g1 = changesD [OF c1]
  have f1: "fatv s1 c = fatv s c" if "valid_cluster (geo s) c" for c
    using c1 valid_fat_index [OF that] by (simp add: changes_def)
  obtain new s2 where al: "fat_alloc 0 s1 = (new, s2)" by fastforce
  note A = fat_alloc_spec [OF g1(1) disjI1 [OF refl] al]
  show ?thesis
  proof (cases "new = 0")
    case True
    then have r: "reads_only s1 s2" and nf: "\<And>c. valid_cluster (geo s) c \<Longrightarrow> fatv s c \<noteq> FAT32_FREE"
      using A f1 g1(2) by (simp_all add: reads_only_def)
    have "changes {0} s s2" by (rule changes_same [OF changes_mono [OF c1] reads_changes [OF r g1(1)]]) simp
    then have "disk_full s s2" using nf unfolding disk_full_def by (intro exI [of _ 0]) (simp add: valid_cluster_def)
    moreover have "same_vol s s2" using r1 r same_vol_trans by (auto simp: reads_only_def)
    ultimately show ?thesis using s0(1) s1(1) al True dn assms(2) by (simp add: fat32_mkdir_def)
  next
    case False
    then have al': "allocated 0 new s1 s2" and sv2: "same_vol s1 s2" and g2: "good_vol s2" using A by simp_all
    have vn: "valid_cluster (geo s) new" and fn: "fatv s1 new = FAT32_FREE" using al' g1(2) by (simp_all add: allocated_def)
    have fnew: "fatv s new = FAT32_FREE" using fn f1 [OF vn] by simp
    then have nds: "set ds \<inter> {new} = {}" using chain_last_nonfree [OF assms(4)] by auto
    have geo2: "geo s2 = geo s" using same_vol_geo [OF sv2] g1(2) by simp
    define p where "p = (if d = vol_root_cluster (geo s2) then 0 else d)"
    have "valid_cluster (geo s2) new" "fatv s2 new = FAT_MASK" "\<forall>a \<in> cluster_sectors (geo s2) new. sec_view s2 a = zero_sector"
      using al' vn valid_fat_index [OF vn] geo2 g1(2) by (simp_all add: allocated_def)
    from dot_cluster [OF g2 this, of new p] obtain s3 ok s4 where D:
      "sec_read (cluster_to_lba (geo s2) new) s2 = (True, s3)" "cache_patch 0 (dot_slot new @ dotdot_slot p) s3 = (ok, s4)"
      "same_vol s2 s4" "good_vol s4" "changes {new} s2 s4" "fatv s4 new = FAT_MASK" "dir_ok s4 new [new]" "fresh_dir new p (dir_slots s4 [new])"
      by blast
    have "changes {new} s s2"
      by (rule changes_same [OF changes_mono [OF c1] allocated_changes(2) [OF al' sv2 g2 refl]]) simp
    then have c4: "changes {new} s s4" using D(5) by (rule changes_same)
    have geo4: "geo s4 = geo s" by (rule changesD(2) [OF c4])
    note D4 = changes_dir [OF c4 assms(1) dc nds]
    have "last ds \<in> set ds" using dc by (simp add: dir_chain_def)
    then have dk4: "dir_ok s4 d ds" using assms(4) D4(1,2,4) by (simp add: dir_ok_def)
    obtain v0 where nf4: "dir_find d name s4 = Some (None, v0)"
      using dir_find_listing [OF D(4) D4(1), of name] assms(5) D4(3) geo4 by auto
    have "ATTR_DIR \<noteq> ATTR_LFN" "lfn_need name + 1 \<le> clus_slots (geo s4)" using assms(7) geo4 by simp_all
    from dir_add_spec [OF D(4) dk4 assms(6) this nf4, of new 0]
    obtain r s5 where r: "dir_add_entry d name ATTR_DIR new 0 s4 = Some (r, s5)" "same_vol s4 s5" "good_vol s5"
      "case r of None \<Rightarrow> (\<forall>k. valid_cluster (geo s4) k \<longrightarrow> fatv s4 k \<noteq> FAT32_FREE) \<and> same_view s4 s5
       | Some pos \<Rightarrow> entry_added d ds name (make_e83 (unique_83 name (dir_slots s4 ds)) ATTR_DIR new 0) pos s4 s5" by blast
    have "same_vol s s1" using r1 by (simp add: reads_only_def)
    then have sv5: "same_vol s s5" using same_vol_trans sv2 D(3) r(2) by metis
    have run: "fat32_mkdir path s = (if r = None then do { t \<leftarrow> fat_free_chain new s5; Some (FAT32_ERR_FULL, t) } else Some (FAT32_OK, s5))"
      using s0(1) s1(1) al False dn assms(2) D(1,2) r(1) unfolding fat32_mkdir_def p_def
      by (simp add: Let_def pack_dot_entry)
    show ?thesis
    proof (cases r)
      case None
      have r5: "reads_only s4 s5" and nf: "\<And>c. valid_cluster (geo s) c \<Longrightarrow> fatv s4 c \<noteq> FAT32_FREE"
        using r None geo4 by (simp_all add: reads_only_def)
      have c5: "changes {new} s s5" by (rule changes_same [OF c4 reads_changes [OF r5 D(4)]])
      have fn5: "fatv s5 new = FAT_MASK"
        using reads_changes [OF r5 D(4), of "{}"] valid_fat_index [OF vn] geo4 D(6) by (simp add: changes_def)
      have only: "c = new" if "valid_cluster (geo s) c" "fatv s c = FAT32_FREE" for c
        using nf [OF that(1)] c4 that valid_fat_index [OF that(1)] by (auto simp: changes_def)
      obtain t where t: "fat_free_chain new s5 = Some t" "disk_full s t" "same_vol s5 t"
        using new_cluster_back [OF c5 r(3) vn fn5 only fnew] by blast
      then show ?thesis using None run same_vol_trans [OF sv5] by simp
    next
      case (Some pos)
      define e where "e = make_e83 (unique_83 name (dir_slots s4 ds)) ATTR_DIR new 0"
      note E = make_e83_fields [OF unique_83_shape(1) [OF assms(6), of "dir_slots s4 ds"], of ATTR_DIR new 0, folded e_def]
      have ea: "entry_added d ds name e pos s4 s5" using r(4) Some by (simp add: e_def)
      have "e_attr (pack_dir e) AND ATTR_DIR \<noteq> 0" "entry_cluster (unpack_dir (pack_dir e)) = new" using E by simp_all
      from dir_created [OF assms(1) dc c4 r(3) vn fnew D(6) nds ea this D(7) D(8) [unfolded p_def geo2]] show ?thesis
        using Some run sv5 by auto
    qed
  qed
qed

section \<open>Paths into the new directory\<close>

lemma path_comp_append:
  assumes "snd (path_comp p) = []" "p \<noteq> []" "last p \<noteq> CH_SLASH"
  shows "path_comp (p @ CH_SLASH # m) = (fst (path_comp p), m)"
proof -
  have "CH_SLASH \<notin> set p"
  proof
    assume "CH_SLASH \<in> set p"
    then obtain x where x: "dropWhile (\<lambda>c. c \<noteq> CH_SLASH) p = CH_SLASH # x"
      by (metis (mono_tags, lifting) dropWhile_eq_Nil_conv hd_dropWhile list.exhaust_sel)
    then have "x = []" using assms(1) by (simp add: path_comp_def)
    then have "p = takeWhile (\<lambda>c. c \<noteq> CH_SLASH) p @ [CH_SLASH]" using x takeWhile_dropWhile_id by metis
    then have "last p = CH_SLASH" by (metis last_snoc)
    with assms(3) show False by simp
  qed
  then have w: "takeWhile (\<lambda>c. c \<noteq> CH_SLASH) (p @ CH_SLASH # m) = p" "dropWhile (\<lambda>c. c \<noteq> CH_SLASH) (p @ CH_SLASH # m) = CH_SLASH # m"
    "takeWhile (\<lambda>c. c \<noteq> CH_SLASH) p = p"
    by (auto simp: takeWhile_append dropWhile_append)
  show ?thesis unfolding path_comp_def Let_def w by simp
qed

lemma path_comp_step:
  assumes "snd (path_comp p) \<noteq> []"
  shows "path_comp (p @ q) = (fst (path_comp p), snd (path_comp p) @ q)" "last (snd (path_comp p)) = last p"
proof -
  let ?P = "\<lambda>c. c \<noteq> CH_SLASH"
  have d: "drop 1 (dropWhile ?P p) \<noteq> []" using assms by (simp add: path_comp_def Let_def)
  then obtain y ys where y: "dropWhile ?P p = y # ys" "ys \<noteq> []" by (cases "dropWhile ?P p") simp_all
  have p: "p = takeWhile ?P p @ y # ys" using takeWhile_dropWhile_id [of ?P p] y(1) by simp
  have "\<not> ?P y" using hd_dropWhile [of ?P p] y(1) by simp
  moreover have "y \<in> set p" by (subst p) simp
  ultimately have e: "takeWhile ?P (p @ q) = takeWhile ?P p" "dropWhile ?P (p @ q) = (y # ys) @ q"
    using takeWhile_append1 [of y p ?P q] dropWhile_append1 [of y p ?P q] y(1) by simp_all
  show "path_comp (p @ q) = (fst (path_comp p), snd (path_comp p) @ q)"
    unfolding path_comp_def Let_def e y(1) by simp
  have "last p = last ys" using arg_cong [OF p, of last] y(2) by simp
  then show "last (snd (path_comp p)) = last p" unfolding path_comp_def Let_def y(1) by simp
qed

definition one_comp :: "bytes \<Rightarrow> bool" where
  "one_comp m \<longleftrightarrow> m \<noteq> [] \<and> CH_SLASH \<notin> set m \<and> length m \<le> 255"

lemma one_comp_path: "one_comp m \<Longrightarrow> path_comp m = (m, [])"
proof -
  assume m: "one_comp m"
  then have w: "takeWhile (\<lambda>c. c \<noteq> CH_SLASH) m = m" "dropWhile (\<lambda>c. c \<noteq> CH_SLASH) m = []"
    by (auto simp: one_comp_def)
  have "path_comp m = (take 255 m, drop 1 [])" unfolding path_comp_def Let_def w ..
  then show ?thesis using m by (simp add: one_comp_def)
qed

lemma walk_into:
  assumes "walk s c p css d n" "last p \<noteq> CH_SLASH" "dir_chain s d ds" "lookup n s ds = Some (e, q, st)"
    and "e_attr e AND ATTR_DIR \<noteq> 0" "one_comp m"
  shows "walk s c (p @ CH_SLASH # m) (css @ [ds]) (first_cluster s e) m"
  using assms(1,2)
proof (induction css arbitrary: c p)
  case Nil
  have m: "m \<noteq> []" using assms(6) by (simp add: one_comp_def)
  have p: "p \<noteq> []" "snd (path_comp p) = []" "d = c" "n = fst (path_comp p)" using Nil.prems by simp_all
  show ?case using assms(3-5) p m path_comp_append [OF p(2,1) Nil.prems(2)] one_comp_path [OF assms(6)]
    by (simp add: first_cluster_def)
next
  case (Cons cs css)
  have ne: "snd (path_comp p) \<noteq> []" using Cons.prems(1) by simp
  note S = path_comp_step [OF ne]
  show ?case using Cons.prems Cons.IH [of _ "snd (path_comp p)"] S by (auto split: option.splits)
qed

text \<open>A directory that was just made is the directory its path names, and paths into it reach it.\<close>

lemma made_reached:
  assumes "good_vol s" "reaches s path css d ds name" "dir_made s d ds name t es k new"
  shows "path_dir t path css d name" "dir_at t path [new]"
    "last path \<noteq> CH_SLASH \<Longrightarrow> one_comp m \<Longrightarrow> reaches t (path @ CH_SLASH # m) (css @ [ds @ es]) new [new] m"
proof -
  note R = assms(2) [unfolded reaches_def] and M = assms(3) [unfolded dir_made_def]
  have ch: "changes (insert new (set (ds @ es))) s t" using M by blast
  note g = changesD [OF ch]
  have dj: "\<Union> (set (map set css)) \<inter> insert new (set (ds @ es)) = {}" using R M by auto
  show pd: "path_dir t path css d name" by (rule path_dir_changes [OF _ ch assms(1) dj]) (use R in blast)
  obtain st where L: "lookup name t (ds @ es) = Some (slot t (ds @ es) k, pos_at (geo s) (ds @ es) 0 k, st)"
    and A: "e_attr (slot t (ds @ es) k) AND ATTR_DIR \<noteq> 0" "entry_cluster (unpack_dir (slot t (ds @ es) k)) = new"
    and dk: "dir_ok t d (ds @ es)" "dir_ok t new [new]" using M by blast
  have dc: "dir_chain t d (ds @ es)" "dir_chain t new [new]" using dk by (simp_all add: dir_ok_def)
  then have "new \<noteq> 0" by (auto simp: dir_chain_def valid_cluster_def)
  then have fc: "first_cluster t (slot t (ds @ es) k) = new" using A(2) by (simp add: first_cluster_def)
  show "dir_at t path [new]" unfolding dir_at_def using pd dc L A(1) fc by metis
  show "reaches t (path @ CH_SLASH # m) (css @ [ds @ es]) new [new] m" if l: "last path \<noteq> CH_SLASH" and m: "one_comp m"
  proof -
    obtain p where p: "path = CH_SLASH # p" "walk t (vol_root_cluster (geo t)) p css d name" using pd by (auto simp: path_dir_def)
    have "p \<noteq> []" using p(2) by (cases css) auto
    then have "last p \<noteq> CH_SLASH" using l p(1) by simp
    from walk_into [OF p(2) this dc(1) L A(1) m] have "path_dir t (path @ CH_SLASH # m) (css @ [ds @ es]) new m"
      using p(1) m \<open>new \<noteq> 0\<close> by (simp add: path_dir_def fc one_comp_def)
    moreover have "c \<notin> set [new] \<and> fatv t c \<noteq> FAT32_FREE" if c: "c \<in> \<Union> (set (map set (css @ [ds @ es])))" for c
    proof (cases "c \<in> set (ds @ es)")
      case True
      then show ?thesis using chain_last_nonfree [OF dk(1)] M by auto
    next
      case False
      then have u: "c \<in> \<Union> (set (map set css))" using c by auto
      then have nf: "fatv s c \<noteq> FAT32_FREE" "c \<noteq> new" using R dj by auto
      have "fat_index (geo s) c"
      proof -
        have "\<exists>cs c0. cs \<in> set css \<and> c \<in> set cs \<and> dir_chain s c0 cs" if "walk s c1 p css d name" for c1 p
          using that u
        proof (induction css arbitrary: c1 p)
          case (Cons a as)
          then show ?case by (auto split: option.splits) blast+
        qed simp
        then show ?thesis using R valid_fat_index by (auto simp: path_dir_def dir_chain_def) blast
      qed
      then have "fatv t c = fatv s c" using ch dj u unfolding changes_def by blast
      then show ?thesis using nf by simp
    qed
    ultimately show ?thesis using dk(2) by (simp add: reaches_def)
  qed
qed

section \<open>Properties\<close>

text \<open>C10: Making a directory. For a path that leads to a directory in order and a legal new name,
  \<open>fat32_mkdir\<close> on a working drive returns. It answers \<open>FAT32_ERR_FULL\<close> only if at most one cluster was
  free, and then at most that cluster has changed. Otherwise the path names a directory of one cluster
  that was free; its slots are the two dot entries, of itself and of its parent (0 for
  the root), byte for byte as FAT lays them out, and unused ones; it is listed as empty and nothing is
  found in it, paths into it reach it, so that a file with a legal name can be created there, and making it once more
  answers \<open>FAT32_ERR_EXISTS\<close>. In the parent every slot in use and every other name is as before, and
  nothing else in the FAT or the data area changes.\<close>

theorem fat32_mkdir_makes:
  assumes "good_vol s" "vol_mounted s" "reaches s path css d ds name" "lookup name s ds = None"
    and "name_ok name" "lfn_need name + 1 \<le> clus_slots (geo s)" "last path \<noteq> CH_SLASH"
  shows "(\<exists>t. fat32_mkdir path s = Some (FAT32_ERR_FULL, t) \<and> disk_full s t) \<or>
    (\<exists>t es k new. fat32_mkdir path s = Some (FAT32_OK, t) \<and> same_vol s t \<and> dir_made s d ds name t es k new \<and>
      (\<exists>u. fat32_readdir path t = Some (Inr [], u)) \<and> (\<exists>u. fat32_mkdir path t = Some (FAT32_ERR_EXISTS, u)) \<and>
      (\<forall>m. one_comp m \<longrightarrow> reaches t (path @ CH_SLASH # m) (css @ [ds @ es]) new [new] m \<and> lookup m t [new] = None \<and>
        (name_ok m \<longrightarrow> lfn_need m + 1 \<le> clus_slots (geo s) \<longrightarrow> target t [new] m [])))"
proof -
  have R: "path_dir s path css d name" "dir_ok s d ds" using assms(3) by (simp_all add: reaches_def)
  have ok: "(\<exists>u. fat32_readdir path t = Some (Inr [], u)) \<and> (\<exists>u. fat32_mkdir path t = Some (FAT32_ERR_EXISTS, u)) \<and>
      (\<forall>m. one_comp m \<longrightarrow> reaches t (path @ CH_SLASH # m) (css @ [ds @ es]) new [new] m \<and> lookup m t [new] = None \<and>
        (name_ok m \<longrightarrow> lfn_need m + 1 \<le> clus_slots (geo s) \<longrightarrow> target t [new] m []))"
    if M: "dir_made s d ds name t es k new" and v: "same_vol s t" for t es k new
  proof -
    note P = made_reached [OF assms(1,3) M] and D = M [unfolded dir_made_def]
    have g: "good_vol t" "geo t = geo s" using D changesD by blast+
    have m: "vol_mounted t" using v assms(2) by (simp add: same_vol_def)
    have fr: "fresh_dir new (if d = vol_root_cluster (geo s) then 0 else d) (dir_slots t [new])" using D by blast
    have ex: "lookup name t (ds @ es) \<noteq> None" and dc: "dir_chain t d (ds @ es)" using D by (auto simp: dir_ok_def)
    obtain u where "path_stat path t = Some (case lookup name t (ds @ es) of None \<Rightarrow> None
        | Some (e, pos, _) \<Rightarrow> Some (unpack_dir e, Some (pos, d)), u)"
      using path_stat_at [OF g(1) P(1) dc] by blast
    then have "\<exists>u. fat32_mkdir path t = Some (FAT32_ERR_EXISTS, u)"
      using ex m by (auto simp: fat32_mkdir_def split: option.splits)
    moreover have "\<exists>u. fat32_readdir path t = Some (Inr [], u)"
      using readdir_at [OF g(1) m P(2)] fresh_dirents [OF fr] by auto
    moreover have "target t [new] m []" if "name_ok m" "lfn_need m + 1 \<le> clus_slots (geo s)" for m
      using that fresh_lookup [OF fr] g(2) by (simp add: target_def)
    ultimately show ?thesis using P(3) [OF assms(7)] fresh_lookup [OF fr] by blast
  qed
  obtain r t where T: "fat32_mkdir path s = Some (r, t)" "same_vol s t"
    "r = FAT32_ERR_FULL \<and> disk_full s t \<or> r = FAT32_OK \<and> (\<exists>es k new. dir_made s d ds name t es k new)"
    using mkdir_at [OF assms(1,2) R assms(4-6)] by blast
  from T(3) show ?thesis
  proof (elim disjE conjE exE)
    fix es k new assume r: "r = FAT32_OK" and M: "dir_made s d ds name t es k new"
    show ?thesis
      by (rule disjI2, rule exI [of _ t], rule exI [of _ es], rule exI [of _ k], rule exI [of _ new],
        rule conjI [OF T(1) [unfolded r] conjI [OF T(2) conjI [OF M ok [OF M T(2)]]]])
  qed (use T(1) in blast)
qed

theorem fat32_mkdir_makes_witness:
  "(\<exists>t. fat32_mkdir copy_path note_vol = Some (FAT32_ERR_FULL, t) \<and> disk_full note_vol t) \<or>
    (\<exists>t es k new. fat32_mkdir copy_path note_vol = Some (FAT32_OK, t) \<and> same_vol note_vol t \<and> dir_made note_vol 2 [2] copy_name t es k new \<and>
      (\<exists>u. fat32_readdir copy_path t = Some (Inr [], u)) \<and> (\<exists>u. fat32_mkdir copy_path t = Some (FAT32_ERR_EXISTS, u)) \<and>
      (\<forall>m. one_comp m \<longrightarrow> reaches t (copy_path @ CH_SLASH # m) ([] @ [[2] @ es]) new [new] m \<and> lookup m t [new] = None \<and>
        (name_ok m \<longrightarrow> lfn_need m + 1 \<le> clus_slots (geo note_vol) \<longrightarrow> target t [new] m [])))"
proof (rule fat32_mkdir_makes [OF good_sample_vol sample_vol_fields(1) copy_target(1) copy_lookup copy_name_ok(1)])
  show "lfn_need copy_name + 1 \<le> clus_slots (geo note_vol)" by (simp add: copy_name_ok(2)) (simp add: clus_slots_def sample_geo_def)
  show "last copy_path \<noteq> CH_SLASH" by (simp add: ascii_def)
qed

end
