(* ===== verification/Fat_Lookup.thy ===== *)
theory Fat_Lookup
  imports Fat_List
begin

text \<open>
  What a name finds in a directory, told from the bytes of its slots (\<open>dir_find\<close> of \<open>src/fs/fat32_core.c\<close>
  327-405): which slots make up the long name in front of an entry, which characters they spell, and which
  entry a name matches. \<open>dir_find\<close> computes exactly this.
\<close>

section \<open>Long names in the bytes of the slots\<close>

text \<open>The last slot of a long name, which comes first on the disk.\<close>

definition long_head :: "bytes \<Rightarrow> bool" where
  "long_head e \<longleftrightarrow> e ! 0 AND 0x40 \<noteq> 0"

text \<open>The slots of the long name directly behind the slots \<open>es\<close>: back to the nearest head, if there is one.\<close>

definition long_run :: "bytes list \<Rightarrow> bytes list" where
  "long_run es =
     (let r = rev (lfn_run es); n = length (takeWhile (\<lambda>e. \<not> long_head e) r)
      in if n < length r then rev (take (Suc n) r) else [])"

text \<open>The offsets of the 13 characters in a slot; of each the low byte counts.\<close>

definition long_offsets :: "nat list" where
  "long_offsets = [1, 3, 5, 7, 9, 14, 16, 18, 20, 22, 24, 28, 30]"

definition slot_char :: "bytes \<Rightarrow> nat \<Rightarrow> u8" where
  "slot_char e j = e ! (long_offsets ! j)"

text \<open>A slot gives character \<open>i\<close> if its number says so and no earlier character of it ends the name.\<close>

definition gives_char :: "nat \<Rightarrow> bytes \<Rightarrow> bool" where
  "gives_char i e \<longleftrightarrow> unat (e ! 0 AND 0x1F) = i div 13 + 1 \<and> (\<forall>j < i mod 13. slot_char e j \<noteq> 0)"

definition long_char :: "bytes list \<Rightarrow> nat \<Rightarrow> u8" where
  "long_char run i = (let es = filter (gives_char i) run in if es = [] then 0 else slot_char (last es) (i mod 13))"

definition long_text :: "bytes list \<Rightarrow> bytes" where
  "long_text run = takeWhile (\<lambda>c. c \<noteq> 0) (map (long_char run) [0..<255])"

section \<open>What a name matches\<close>

text \<open>
  An entry with a long name in front of it goes by this name only, up to case (and by none if the
  number in its head is 0); any other by its 8.3 name.
\<close>

definition goes_by :: "bytes \<Rightarrow> bytes list \<Rightarrow> bytes \<Rightarrow> bool" where
  "goes_by name before e \<longleftrightarrow>
     (if long_run before = [] then take 11 e = make_83 name
      else hd (long_run before) ! 0 AND 0x1F \<noteq> 0 \<and> map f_toupper name = map f_toupper (long_text (long_run before)))"

definition is_entry :: "bytes \<Rightarrow> bool" where
  "is_entry e \<longleftrightarrow> e ! 0 \<noteq> 0xE5 \<and> e ! 11 \<noteq> ATTR_LFN"

text \<open>The first such entry before the end mark, and the first slot that belongs to it.\<close>

definition dir_lookup :: "bytes \<Rightarrow> bytes list \<Rightarrow> (nat \<times> nat) option" where
  "dir_lookup name es =
     (let n = length (takeWhile (\<lambda>e. e ! 0 \<noteq> 0) es)
      in map_option (\<lambda>k. (k, k - length (long_run (take k es))))
           (find (\<lambda>k. is_entry (es ! k) \<and> goes_by name (take k es) (es ! k)) [0..<n]))"

section \<open>The scan\<close>

lemma lfn_store_at:
  assumes "i < length buf"
  shows "lfn_store k cs buf ! i =
    (if k \<le> i \<and> i < k + length cs \<and> i < 255 \<and> (\<forall>j < i - k. cs ! j \<noteq> 0) then cs ! (i - k) else buf ! i)"
  using assms
proof (induction k cs buf rule: lfn_store.induct)
  case (2 k c cs buf)
  consider "i < k" | "i = k" | "k < i" by linarith
  then show ?case
  proof cases
    case 3
    then obtain d where d: "i - k = Suc d" "i - Suc k = d" by (cases "i - k") auto
    have "(\<forall>j < Suc d. (c # cs) ! j \<noteq> 0) \<longleftrightarrow> c \<noteq> 0 \<and> (\<forall>j < d. cs ! j \<noteq> 0)"
      by (auto simp: nth_Cons less_Suc_eq_0_disj split: nat.splits)
    then show ?thesis using 2 3 d by auto
  qed (use 2 in auto)
qed auto

lemma extract_chars:
  assumes "length e = 32" "j < 13"
  shows "lfn_extract (unpack_lfn e) ! j = slot_char e j" "length (lfn_extract (unpack_lfn e)) = 13"
proof -
  have u: "[0..<5 :: nat] = [0, 1, 2, 3, 4]" "[0..<6 :: nat] = [0, 1, 2, 3, 4, 5]" "[0..<2 :: nat] = [0, 1]"
    by (simp_all add: upt_rec)
  have b: "(ucast (of_le16 a c :: u16) :: u8) = a" for a c
    by (rule bit_word_eqI) (auto simp: of_le16_def bit_simps)
  have "lfn_extract (unpack_lfn e) = map (slot_char e) [0, 1, 2, 3, 4, 5, 6, 7, 8, 9, 10, 11, 12]"
    by (simp add: lfn_extract_def unpack_lfn_def slot_char_def long_offsets_def field16_def u b)
  also have "[0, 1, 2, 3, 4, 5, 6, 7, 8, 9, 10, 11, 12] = [0..<13 :: nat]" by (simp add: upt_rec)
  finally have m: "lfn_extract (unpack_lfn e) = map (slot_char e) [0..<13]" .
  show "lfn_extract (unpack_lfn e) ! j = slot_char e j" unfolding m using assms(2) by (simp del: upt_rec_numeral)
  show "length (lfn_extract (unpack_lfn e)) = 13" unfolding m by simp
qed

text \<open>One more slot at the end of the run.\<close>

lemma store_slot:
  assumes "length e = 32" "i < 255" "length buf = 256" "q = unat (e ! 0 AND 0x1F)" "1 \<le> q"
  shows "lfn_store ((q - 1) * 13) (lfn_extract (unpack_lfn e)) buf ! i =
    (if gives_char i e then slot_char e (i mod 13) else buf ! i)"
proof -
  note L = extract_chars(2) [OF assms(1), of 0, simplified]
  have d: "(q - 1) * 13 \<le> i \<and> i < (q - 1) * 13 + 13 \<longleftrightarrow> q = i div 13 + 1"
  proof
    assume "(q - 1) * 13 \<le> i \<and> i < (q - 1) * 13 + 13"
    then have "i div 13 = q - 1" by (intro div_nat_eqI) simp_all
    then show "q = i div 13 + 1" using assms(5) by simp
  next
    assume q: "q = i div 13 + 1"
    have "13 * (i div 13) + i mod 13 = i" "i mod 13 < 13" by simp_all
    then have "i div 13 * 13 \<le> i" "i < i div 13 * 13 + 13" by linarith+
    then show "(q - 1) * 13 \<le> i \<and> i < (q - 1) * 13 + 13" by (simp add: q mult.commute)
  qed
  have m: "i - (q - 1) * 13 = i mod 13" if "q = i div 13 + 1"
    using that by (simp add: mult.commute minus_mult_div_eq_mod)
  have "lfn_extract (unpack_lfn e) ! j = slot_char e j" if "j < 13" for j
    using extract_chars(1) [OF assms(1) that] .
  moreover have "i mod 13 < 13" by simp
  ultimately show ?thesis
    using assms(2,3) L d m by (auto simp: lfn_store_at gives_char_def assms(4) [symmetric])
qed

text \<open>The locals of the scan behind the slots \<open>es\<close>, with their positions \<open>at\<close>.\<close>

definition scanned :: "bytes list \<Rightarrow> (nat \<Rightarrow> dir_pos_t) \<Rightarrow> find_state \<Rightarrow> bool" where
  "scanned es at f \<longleftrightarrow> fs_building f = (long_run es \<noteq> []) \<and> (long_run es \<noteq> [] \<longrightarrow>
     length (fs_buf f) = 256 \<and> (\<forall>i < 255. fs_buf f ! i = long_char (long_run es) i) \<and> fs_buf f ! 255 = 0 \<and>
     fs_parts f = unat (hd (long_run es) ! 0 AND 0x1F) \<and> fs_start f = at (length es - length (long_run es)))"

lemma long_run_length: "length (long_run es) \<le> length es"
proof -
  have "length (lfn_run es) \<le> length es" using length_takeWhile_le [of lfn_part "rev es"] by (simp add: lfn_run_def)
  then show ?thesis by (simp add: long_run_def Let_def)
qed

lemma long_run_snoc:
  "long_run (es @ [e]) =
     (if \<not> lfn_part e then [] else if long_head e then [e] else if long_run es = [] then [] else long_run es @ [e])"
  by (auto simp: long_run_def lfn_run_def Let_def)

lemma long_char_snoc:
  "long_char (run @ [e]) i = (if gives_char i e then slot_char e (i mod 13) else long_char run i)"
  by (simp add: long_char_def Let_def)

lemma collect_slot:
  assumes "length e = 32" "lfn_collect (unpack_lfn e) (buf, building) = (buf', building')" "building' \<longrightarrow> \<not> long_head e \<longrightarrow> length buf = 256"
  shows "building' = (long_head e \<or> building)"
    "building' \<Longrightarrow> length buf' = 256"
    "building' \<Longrightarrow> i < 255 \<Longrightarrow> buf' ! i = (if gives_char i e then slot_char e (i mod 13) else if long_head e then 0 else buf ! i)"
    "building' \<Longrightarrow> buf' ! 255 = (if long_head e then 0 else buf ! 255)"
proof -
  let ?q = "unat (e ! 0 AND 0x1F)" and ?b = "if long_head e then replicate 256 0 else buf"
  have o: "lfn_order (unpack_lfn e) = e ! 0" by (simp add: unpack_lfn_def)
  have c: "lfn_collect (unpack_lfn e) (buf, building) =
      (if (long_head e \<or> building) \<and> 1 \<le> ?q \<and> ?q \<le> 20
       then (lfn_store ((?q - 1) * 13) (lfn_extract (unpack_lfn e)) ?b, True) else (?b, long_head e \<or> building))"
    by (auto simp: lfn_collect_def o long_head_def Let_def)
  show on: "building' = (long_head e \<or> building)" using assms(2) unfolding c by (auto split: if_splits)
  assume b: "building'"
  have l: "length ?b = 256" using assms(3) b by simp
  then show "length buf' = 256" using assms(2) unfolding c by (auto split: if_splits)
  show "buf' ! 255 = (if long_head e then 0 else buf ! 255)"
    using assms(2) l unfolding c by (auto simp: lfn_store_at split: if_splits)
  assume i: "i < 255"
  have z: "\<not> gives_char i e" if "\<not> (1 \<le> ?q \<and> ?q \<le> 20)"
  proof -
    have "i div 13 \<le> 254 div 13" using i by (intro div_le_mono) simp
    then have "i div 13 + 1 \<le> 20" by simp
    then show ?thesis using that by (auto simp: gives_char_def)
  qed
  show "buf' ! i = (if gives_char i e then slot_char e (i mod 13) else if long_head e then 0 else buf ! i)"
  proof (cases "1 \<le> ?q \<and> ?q \<le> 20")
    case True
    then have "buf' = lfn_store ((?q - 1) * 13) (lfn_extract (unpack_lfn e)) ?b"
      using assms(2) on b unfolding c by auto
    then show ?thesis using store_slot [OF assms(1) i l refl] True i by auto
  next
    case False
    then have "buf' = ?b" using assms(2) unfolding c by auto
    then show ?thesis using z [OF False] i by auto
  qed
qed

lemma scanned_step:
  assumes "scanned es at f" "length e = 32"
  shows "scanned (es @ [e]) at (find_step e (at (length es)) f)"
proof (cases "lfn_part e")
  case True
  then have live: "e ! 0 \<noteq> 0xE5" "e ! 11 = ATTR_LFN" by (simp_all add: lfn_part_def)
  obtain buf on where C: "lfn_collect (unpack_lfn e) (fs_buf f, fs_building f) = (buf, on)" by fastforce
  have f': "find_step e (at (length es)) f =
      (if long_head e then f\<lparr>fs_buf := buf, fs_building := on, fs_parts := unat (e ! 0 AND 0x1F), fs_start := at (length es)\<rparr>
       else f\<lparr>fs_buf := buf, fs_building := on\<rparr>)"
    using live C by (simp add: find_step_def find_lfn_def long_head_def unpack_lfn_def)
  have len: "on \<longrightarrow> \<not> long_head e \<longrightarrow> length (fs_buf f) = 256"
  proof (intro impI)
    assume "on" "\<not> long_head e"
    then have "fs_building f" using C by (auto simp: lfn_collect_def long_head_def unpack_lfn_def Let_def split: if_splits)
    then show "length (fs_buf f) = 256" using assms(1) by (simp add: scanned_def)
  qed
  note S = collect_slot [OF assms(2) C len]
  have r: "long_run (es @ [e]) = (if long_head e then [e] else if long_run es = [] then [] else long_run es @ [e])"
    using True by (simp add: long_run_snoc)
  show ?thesis
  proof (cases "long_head e")
    case h: True
    have "long_char [e] i = (if gives_char i e then slot_char e (i mod 13) else 0)" for i by (simp add: long_char_def)
    then show ?thesis using h S r f' by (simp add: scanned_def)
  next
    case h: False
    show ?thesis
    proof (cases "long_run es = []")
      case True
      then show ?thesis using h S(1) r f' assms(1) by (simp add: scanned_def)
    next
      case run: False
      then have o: "fs_building f" "on" using assms(1) S(1) by (simp_all add: scanned_def)
      show ?thesis using h run S(2-4) r f' o assms(1) by (simp add: scanned_def long_char_snoc)
    qed
  qed
next
  case False
  then have "long_run (es @ [e]) = []" by (simp add: long_run_snoc)
  moreover have "\<not> fs_building (find_step e (at (length es)) f)" using False by (auto simp: find_step_def lfn_part_def)
  ultimately show ?thesis by (simp add: scanned_def)
qed

lemma scanned_text:
  assumes "scanned es at f" "long_run es \<noteq> []"
  shows "c_string (fs_buf f) = long_text (long_run es)"
proof -
  have b: "length (fs_buf f) = 256" "\<And>i. i < 255 \<Longrightarrow> fs_buf f ! i = long_char (long_run es) i" "fs_buf f ! 255 = 0"
    using assms by (simp_all add: scanned_def)
  have "fs_buf f = map (long_char (long_run es)) [0..<255] @ [0]"
  proof (rule nth_equalityI)
    fix i assume "i < length (fs_buf f)"
    then have "i < 255 \<or> i = 255" using b(1) by linarith
    then show "fs_buf f ! i = (map (long_char (long_run es)) [0..<255] @ [0]) ! i"
      using b(2,3) by (auto simp: nth_append simp del: upt_rec_numeral)
  qed (simp add: b(1))
  then show ?thesis by (simp add: c_string_def long_text_def takeWhile_tail del: upt_rec_numeral)
qed

lemma scanned_match:
  assumes "scanned es at f" "length e = 32"
  shows "find_match name e f \<longleftrightarrow> goes_by name es e"
proof (cases "long_run es = []")
  case True
  then show ?thesis using assms(1) by (simp add: scanned_def find_match_def goes_by_def)
next
  case False
  have p: "fs_parts f = unat (hd (long_run es) ! 0 AND 0x1F)" "fs_building f" using assms(1) False by (simp_all add: scanned_def)
  have "0 < fs_parts f \<longleftrightarrow> hd (long_run es) ! 0 AND 0x1F \<noteq> 0" unfolding p(1) by (simp add: unat_gt_0)
  then show ?thesis using False p(2) scanned_text [OF assms(1) False]
    by (auto simp: find_match_def goes_by_def lfn_matches_def)
qed

lemma find_in_lookup:
  assumes "\<forall>e \<in> set es. length e = 32" "k \<le> length es" "scanned (take k es) at f" "list_all (\<lambda>e. e ! 0 \<noteq> 0) (take k es)"
  shows "find_in name f (map (\<lambda>j. (es ! j, at j)) [k..<length es]) =
    map_option (\<lambda>j. (es ! j, at j, at (j - length (long_run (take j es)))))
      (find (\<lambda>j. is_entry (es ! j) \<and> goes_by name (take j es) (es ! j))
         [k..<length (takeWhile (\<lambda>e. e ! 0 \<noteq> 0) es)])"
  using assms(2-4)
proof (induction "length es - k" arbitrary: k f)
  case 0
  then have "length (takeWhile (\<lambda>e. e ! 0 \<noteq> 0) es) \<le> k" using length_takeWhile_le [of _ es] by simp
  then show ?case using 0 by simp
next
  case (Suc m)
  then have k: "k < length es" by simp
  have l: "length (es ! k) = 32" using assms(1) k by simp
  have u: "[k..<length es] = k # [Suc k..<length es]" using k by (simp add: upt_conv_Cons)
  have t: "takeWhile (\<lambda>e. e ! 0 \<noteq> 0) es = take k es @ takeWhile (\<lambda>e. e ! 0 \<noteq> 0) (drop k es)"
    using Suc.prems(3) takeWhile_append2 [of "take k es" "\<lambda>e. e ! 0 \<noteq> 0" "drop k es"] by (auto simp: list_all_iff)
  have d: "drop k es = es ! k # drop (Suc k) es" using k by (simp add: Cons_nth_drop_Suc)
  show ?case
  proof (cases "es ! k ! 0 = 0")
    case True
    then have "length (takeWhile (\<lambda>e. e ! 0 \<noteq> 0) es) = k" unfolding t d using k by simp
    then show ?thesis unfolding u using True by simp
  next
    case nz: False
    have "Suc k \<le> length (takeWhile (\<lambda>e. e ! 0 \<noteq> 0) es)" unfolding t d using k nz by simp
    then have u': "[k..<length (takeWhile (\<lambda>e. e ! 0 \<noteq> 0) es)] = k # [Suc k..<length (takeWhile (\<lambda>e. e ! 0 \<noteq> 0) es)]"
      by (simp add: upt_conv_Cons)
    note M = scanned_match [OF Suc.prems(2) l, of name]
    show ?thesis
    proof (cases "is_entry (es ! k) \<and> goes_by name (take k es) (es ! k)")
      case True
      have "(if fs_building f then fs_start f else at k) = at (k - length (long_run (take k es)))"
        using Suc.prems(2) k by (auto simp: scanned_def)
      then show ?thesis unfolding u u' using True nz M by (simp add: is_entry_def)
    next
      case False
      have s: "take (Suc k) es = take k es @ [es ! k]" using k by (simp add: take_Suc_conv_app_nth)
      have "scanned (take (Suc k) es) at (find_step (es ! k) (at k) f)"
        using scanned_step [OF Suc.prems(2) l] k unfolding s by simp
      moreover have "list_all (\<lambda>e. e ! 0 \<noteq> 0) (take (Suc k) es)" using Suc.prems(3) nz unfolding s by simp
      ultimately have I: "find_in name (find_step (es ! k) (at k) f) (map (\<lambda>j. (es ! j, at j)) [Suc k..<length es]) =
        map_option (\<lambda>j. (es ! j, at j, at (j - length (long_run (take j es)))))
          (find (\<lambda>j. is_entry (es ! j) \<and> goes_by name (take j es) (es ! j))
             [Suc k..<length (takeWhile (\<lambda>e. e ! 0 \<noteq> 0) es)])"
        using Suc.hyps k by simp
      have "\<not> (e_first (es ! k) \<noteq> 0xE5 \<and> e_attr (es ! k) \<noteq> ATTR_LFN \<and> find_match name (es ! k) f)"
        using False M by (simp add: is_entry_def)
      note nf = if_not_P [OF this]
      show ?thesis
        unfolding u u' list.map(2) find_in.simps(2) List.find.simps(2) if_not_P [OF nz] nf if_not_P [OF False] by (rule I)
    qed
  qed
qed

text \<open>\<open>lookup\<close>, the scan of a listing, in these terms.\<close>

lemma lookup_slots:
  "lookup name s ds = map_option (\<lambda>(k, b). (slot s ds k, pos_at (geo s) ds 0 k, pos_at (geo s) ds 0 b))
     (dir_lookup name (dir_slots s ds))"
proof -
  let ?es = "dir_slots s ds" and ?at = "pos_at (geo s) ds 0"
  let ?f = "find_init (pos_at (geo s) ds 0 0)"
  let ?n = "length (takeWhile (\<lambda>e. e ! 0 \<noteq> 0) ?es)"
  let ?found = "find (\<lambda>j. is_entry (?es ! j) \<and> goes_by name (take j ?es) (?es ! j)) [0..<?n]"
  have l: "dir_listing s ds 0 = map (\<lambda>j. (?es ! j, ?at j)) [0..<length ?es]"
    by (rule nth_equalityI) (simp_all add: dir_listing_def dir_slots_nth)
  have "find_in name ?f (map (\<lambda>j. (?es ! j, ?at j)) [0..<length ?es]) =
      map_option (\<lambda>j. (?es ! j, ?at j, ?at (j - length (long_run (take j ?es))))) ?found"
    by (rule find_in_lookup) (auto simp: dir_slots_def scanned_def find_init_def long_run_def lfn_run_def)
  also have "\<dots> = map_option (\<lambda>(k, b). (slot s ds k, ?at k, ?at b)) (dir_lookup name ?es)"
  proof (cases ?found)
    case (Some k)
    have "k < ?n" using Some by (auto simp: find_Some_iff)
    then have "k < length ?es" using length_takeWhile_le order.strict_trans2 by blast
    then show ?thesis using Some by (simp add: dir_lookup_def Let_def dir_slots_nth)
  qed (simp add: dir_lookup_def Let_def)
  finally show ?thesis unfolding l [symmetric] by simp
qed


section \<open>A sample directory\<close>

text \<open>
  A long name that a deletion has cut off, in front of an entry without one; then a long name of two
  slots with its entry.
\<close>

definition raw_long :: "u8 \<Rightarrow> bytes \<Rightarrow> bytes" where
  "raw_long ord cs = ord # concat (map (\<lambda>c. [c, 0]) (take 5 cs)) @ [0x0F, 0, 0] @
     concat (map (\<lambda>c. [c, 0]) (take 6 (drop 5 cs))) @ [0, 0] @ concat (map (\<lambda>c. [c, 0]) (drop 11 cs))"

definition raw_entry :: "bytes \<Rightarrow> bytes" where
  "raw_entry nm = nm @ [0x20] @ [0, 0, 0, 0, 0, 0, 0, 0, 0, 0, 0, 0, 0, 0, 9, 0, 0, 0, 0, 0]"

definition name_slots :: "bytes list" where
  "name_slots =
     [raw_long 0x41 (ascii ''old.txt'' @ [0, 255, 255, 255, 255, 255]), raw_entry (0xE5 # ascii ''LD     TXT''),
      raw_entry (ascii ''NOTES   TXT''),
      raw_long 0x42 (ascii ''s'' @ [0, 255, 255, 255, 255, 255, 255, 255, 255, 255, 255, 255]), raw_long 0x01 (ascii ''Readme of thi''),
      raw_entry (ascii ''README~1   '')]"

definition names_disk :: "u32 \<Rightarrow> sector" where
  "names_disk = (\<lambda>_. zero_sector)(1 := sample_fat, 2 := sample_fat, 3 := sector_of (concat name_slots))"

abbreviation names_vol :: vol where "names_vol \<equiv> sample_vol names_disk"

lemma name_slots_raw:
  "name_slots =
    [[0x41, 111, 0, 108, 0, 100, 0, 46, 0, 116, 0, 15, 0, 0, 120, 0, 116, 0, 0, 0, 255, 0, 255, 0, 255, 0, 0, 0, 255, 0, 255, 0],
     [0xE5, 76, 68, 32, 32, 32, 32, 32, 84, 88, 84, 32, 0, 0, 0, 0, 0, 0, 0, 0, 0, 0, 0, 0, 0, 0, 9, 0, 0, 0, 0, 0],
     [78, 79, 84, 69, 83, 32, 32, 32, 84, 88, 84, 32, 0, 0, 0, 0, 0, 0, 0, 0, 0, 0, 0, 0, 0, 0, 9, 0, 0, 0, 0, 0],
     [0x42, 115, 0, 0, 0, 255, 0, 255, 0, 255, 0, 15, 0, 0, 255, 0, 255, 0, 255, 0, 255, 0, 255, 0, 255, 0, 0, 0, 255, 0, 255, 0],
     [0x01, 82, 0, 101, 0, 97, 0, 100, 0, 109, 0, 15, 0, 0, 101, 0, 32, 0, 111, 0, 102, 0, 32, 0, 116, 0, 0, 0, 104, 0, 105, 0],
     [82, 69, 65, 68, 77, 69, 126, 49, 32, 32, 32, 32, 0, 0, 0, 0, 0, 0, 0, 0, 0, 0, 0, 0, 0, 0, 9, 0, 0, 0, 0, 0]]"
  by (simp add: name_slots_def raw_long_def raw_entry_def ascii_def)

lemma take_drop_concat:
  "\<forall>e \<in> set es. length e = n \<Longrightarrow> j < length es \<Longrightarrow> take n (drop (n * j) (concat es)) = es ! j"
proof (induction es arbitrary: j)
  case (Cons e es)
  then show ?case by (cases j) simp_all
qed simp

lemma slice_sector_of: "slice (sector_of xs) off n = take n (drop off xs @ replicate n 0)"
  by (rule nth_equalityI) (auto simp: slice_def sector_of_def nth_append)

lemma name_slots_length: "length name_slots = 6" "\<forall>e \<in> set name_slots. length e = 32" "length (concat name_slots) = 192"
  by (simp_all add: name_slots_raw)

lemma names_slots: "dir_slots names_vol [2] = name_slots @ replicate 10 (replicate 32 0)"
proof (rule nth_equalityI)
  show "length (dir_slots names_vol [2]) = length (name_slots @ replicate 10 (replicate 32 0))"
    by (simp add: dir_slots_def slot_count_def clus_slots_def sample_geo_def name_slots_length)
  fix j assume "j < length (dir_slots names_vol [2])"
  then have j: "j < 16" "j < slot_count (geo names_vol) [2]"
    by (simp_all add: dir_slots_def slot_count_def clus_slots_def sample_geo_def)
  have "slot_lba sample_geo [2] j = 3"
    using j(1) by (simp add: slot_lba_def clus_slots_def cluster_to_lba_def sample_geo_def)
  then have "slot names_vol [2] j = slice (sector_of (concat name_slots)) (32 * j) 32"
    using j(1) by (simp add: slot_def sec_view_def sample_vol_def sample_drive_def names_disk_def sample_geo_def)
  also have "\<dots> = (name_slots @ replicate 10 (replicate 32 0)) ! j"
  proof (cases "j < 6")
    case True
    then have "32 * j + 32 \<le> 192" by simp
    then show ?thesis using True take_drop_concat [OF name_slots_length(2), of j] name_slots_length
      by (simp add: slice_sector_of nth_append)
  next
    case False
    then show ?thesis using j(1) name_slots_length by (simp add: slice_sector_of nth_append)
  qed
  finally show "dir_slots names_vol [2] ! j = (name_slots @ replicate 10 (replicate 32 0)) ! j"
    using dir_slots_nth [OF j(2)] by simp
qed

lemma names_chain: "dir_chain names_vol 2 [2]"
  by (simp add: dir_chain_def valid_cluster_def fatv_def fat_copy_def copy_lba_def sec_view_def get32_def names_disk_def
      fat_offset_in_sector_def sample_defs of_le32_def fat_index_def)

lemma names_text: "long_text [name_slots ! 3, name_slots ! 4] = ascii ''Readme of this''"
proof -
  let ?a = "name_slots ! 3" and ?b = "name_slots ! 4"
  have u: "[0..<13 :: nat] = [0, 1, 2, 3, 4, 5, 6, 7, 8, 9, 10, 11, 12]" by (simp add: upt_rec)
  have b: "map (slot_char ?b) [0..<13] = ascii ''Readme of thi''"
    unfolding u by (simp add: name_slots_raw slot_char_def long_offsets_def ascii_def)
  have a: "slot_char ?a 0 = 115" "slot_char ?a 1 = 0" by (simp_all add: name_slots_raw slot_char_def long_offsets_def)
  have o: "unat (?a ! 0 AND 0x1F) = 2" "unat (?b ! 0 AND 0x1F) = 1" by (simp_all add: name_slots_raw)
  have "list_all (\<lambda>c. c \<noteq> 0) (map (slot_char ?b) [0..<13])" unfolding b by (simp add: ascii_def)
  then have nz: "j < 13 \<Longrightarrow> slot_char ?b j \<noteq> 0" for j by (simp add: list_all_iff del: upt_rec_numeral)
  have ga: "gives_char i ?a \<longleftrightarrow> i div 13 = 1 \<and> (\<forall>j < i mod 13. slot_char ?a j \<noteq> 0)" for i
    unfolding gives_char_def o by auto
  have gb: "gives_char i ?b \<longleftrightarrow> i div 13 = 0 \<and> (\<forall>j < i mod 13. slot_char ?b j \<noteq> 0)" for i
    unfolding gives_char_def o by auto
  have c: "long_char [?a, ?b] i = slot_char ?b i" if "i < 13" for i
    using that nz by (simp add: long_char_def ga gb)
  have d: "long_char [?a, ?b] 13 = 115" "long_char [?a, ?b] 14 = 0"
    using a by (simp_all add: long_char_def ga gb)
  have "[0..<255 :: nat] = [0..<13] @ 13 # 14 # [15..<255]"
    using upt_add_eq_append [of 0 13 242] by (simp add: upt_conv_Cons del: upt_rec_numeral)
  moreover have "map (long_char [?a, ?b]) [0..<13] = map (slot_char ?b) [0..<13]"
    by (rule map_cong [OF refl], rule c) (simp only: set_upt atLeastLessThan_iff)
  ultimately have "map (long_char [?a, ?b]) [0..<255] = ascii ''Readme of thi'' @ 115 # 0 # map (long_char [?a, ?b]) [15..<255]"
    unfolding b by (simp only: map_append list.map d)
  then show ?thesis unfolding long_text_def by (simp only:) (simp add: ascii_def del: upt_rec_numeral)
qed

lemma names_lookup:
  "dir_lookup (ascii ''readme OF this'') (dir_slots names_vol [2]) = Some (5, 3)"
  "dir_lookup (ascii ''notes.txt'') (dir_slots names_vol [2]) = Some (2, 2)"
  "dir_lookup (ascii ''README~1'') (dir_slots names_vol [2]) = None"
  "dir_lookup (ascii ''old.txt'') (dir_slots names_vol [2]) = None"
proof -
  define es where "es = name_slots @ replicate 10 (replicate 32 (0 :: u8))"
  have n: "length (takeWhile (\<lambda>e. e ! 0 \<noteq> 0) es) = 6" by (simp add: es_def name_slots_raw takeWhile_append)
  have k: "\<not> is_entry (es ! 0)" "\<not> is_entry (es ! 1)" "is_entry (es ! 2)" "\<not> is_entry (es ! 3)" "\<not> is_entry (es ! 4)" "is_entry (es ! 5)"
    by (simp_all add: es_def name_slots_raw is_entry_def)
  have r: "long_run (take 2 es) = []" "long_run (take 5 es) = [name_slots ! 3, name_slots ! 4]"
    by (simp_all add: es_def name_slots_raw long_run_def lfn_run_def lfn_part_def long_head_def)
  have e: "take 11 (es ! 2) = ascii ''NOTES   TXT''" "name_slots ! 3 ! 0 AND 0x1F \<noteq> 0" by (simp_all add: es_def name_slots_raw ascii_def)
  have g: "goes_by name (take 2 es) (es ! 2) \<longleftrightarrow> make_83 name = ascii ''NOTES   TXT''"
    "goes_by name (take 5 es) (es ! 5) \<longleftrightarrow> map f_toupper name = ascii ''README OF THIS''" for name
    using e by (auto simp: goes_by_def r names_text) (simp_all add: ascii_def f_toupper_def)
  have m: "make_83 (ascii ''readme OF this'') \<noteq> ascii ''NOTES   TXT''" "make_83 (ascii ''notes.txt'') = ascii ''NOTES   TXT''"
    "make_83 (ascii ''README~1'') \<noteq> ascii ''NOTES   TXT''" "make_83 (ascii ''old.txt'') \<noteq> ascii ''NOTES   TXT''"
    by code_simp+
  have u: "[0..<6 :: nat] = [0, 1, 2, 3, 4, 5]" by (simp add: upt_rec)
  have l: "dir_lookup name es = (if make_83 name = ascii ''NOTES   TXT'' then Some (2, 2)
      else if map f_toupper name = ascii ''README OF THIS'' then Some (5, 3) else None)" for name
    unfolding dir_lookup_def Let_def n u by (simp add: k [simplified] g r)
  show
    "dir_lookup (ascii ''readme OF this'') (dir_slots names_vol [2]) = Some (5, 3)"
    "dir_lookup (ascii ''notes.txt'') (dir_slots names_vol [2]) = Some (2, 2)"
    "dir_lookup (ascii ''README~1'') (dir_slots names_vol [2]) = None"
    "dir_lookup (ascii ''old.txt'') (dir_slots names_vol [2]) = None"
    unfolding names_slots es_def [symmetric] l using m by (simp_all add: ascii_def f_toupper_def)
qed

section \<open>Properties\<close>

text \<open>C13: Lookup on the disk. For a directory whose FAT chain ends, \<open>dir_find\<close> returns, changes nothing but
  the sector cache, and answers with the first entry before the end mark that the name matches, told from
  the bytes of the slots: an entry goes by the long name in the slots directly in front of it, from its head
  on (the 13 characters of each at their offsets, by the slot's number), compared up to case; without one it
  goes by its 8.3 name. With the entry it gives its position and that of the first slot of its long name.\<close>

theorem dir_find_refines_listing:
  assumes "good_vol s" "dir_chain s c cs"
  shows "\<exists>t. dir_find c name s
      = Some (map_option (\<lambda>(k, b). (slot s cs k, pos_at (geo s) cs 0 k, pos_at (geo s) cs 0 b))
          (dir_lookup name (dir_slots s cs)), t) \<and>
    same_vol s t \<and> good_vol t \<and> same_view s t"
  using dir_find_listing [OF assms, of name] unfolding lookup_slots by (auto simp: reads_only_def)


text \<open>The long name in capitals; a name that only a cut-off long name spells; the 8.3 name of an entry with a long one.\<close>

theorem dir_find_refines_listing_witness:
  "(\<exists>t. dir_find 2 (ascii ''readme OF this'') names_vol =
      Some (Some (slot names_vol [2] 5, pos_at (geo names_vol) [2] 0 5, pos_at (geo names_vol) [2] 0 3), t)) \<and>
   (\<exists>t. dir_find 2 (ascii ''old.txt'') names_vol = Some (None, t)) \<and>
   (\<exists>t. dir_find 2 (ascii ''README~1'') names_vol = Some (None, t))"
proof -
  note F = dir_find_refines_listing [OF good_sample_vol names_chain]
  show ?thesis
    using F [of "ascii ''readme OF this''"] F [of "ascii ''old.txt''"] F [of "ascii ''README~1''"]
    by (auto simp: names_lookup)
qed

end
