(* ===== verification/Ata.thy ===== *)
theory Ata
  imports Port_Io Sector_Cache
begin

text \<open>
  The ATA PIO driver (\<open>src/drivers/ata.c\<close>) for the slave on the primary bus. The drive behind the ports
  is a parameter; what the driver relies on is stated with a reference drive. The wait for \<open>BSY\<close> is not
  bounded in the code, so it is a \<open>partial_function\<close>: \<open>None\<close> is a wait that never ends.
\<close>

section \<open>The driver\<close>

abbreviation ATA_DATA :: u16 where "ATA_DATA \<equiv> 0x1F0"
abbreviation ATA_SECTOR_CNT :: u16 where "ATA_SECTOR_CNT \<equiv> 0x1F2"
abbreviation ATA_LBA_LO :: u16 where "ATA_LBA_LO \<equiv> 0x1F3"
abbreviation ATA_LBA_MID :: u16 where "ATA_LBA_MID \<equiv> 0x1F4"
abbreviation ATA_LBA_HI :: u16 where "ATA_LBA_HI \<equiv> 0x1F5"
abbreviation ATA_DRIVE_HEAD :: u16 where "ATA_DRIVE_HEAD \<equiv> 0x1F6"
abbreviation ATA_STATUS :: u16 where "ATA_STATUS \<equiv> 0x1F7"
abbreviation ATA_COMMAND :: u16 where "ATA_COMMAND \<equiv> 0x1F7"

record ata =
  disk_present :: bool
  disk_sectors :: u32

partial_function (option) ata_wait_bsy :: "'d port_io \<Rightarrow> 'd \<Rightarrow> 'd option" where
  "ata_wait_bsy E d =
     (let (s, d1) = p_in8 E ATA_STATUS d
      in if s AND 0x80 \<noteq> 0 then ata_wait_bsy E d1 else Some d1)"

text \<open>The polls that are left; the caller allows 100000.\<close>

fun ata_poll_drq :: "'d port_io \<Rightarrow> nat \<Rightarrow> 'd \<Rightarrow> bool \<times> 'd" where
  "ata_poll_drq E 0 d = (False, d)"
| "ata_poll_drq E (Suc n) d =
     (let (s, d1) = p_in8 E ATA_STATUS d
      in if s AND 0x01 \<noteq> 0 then (False, d1)
         else if s AND 0x08 \<noteq> 0 then (True, d1)
         else ata_poll_drq E n d1)"

definition ata_wait_drq :: "'d port_io \<Rightarrow> 'd \<Rightarrow> bool \<times> 'd" where
  "ata_wait_drq E d = ata_poll_drq E 100000 d"

text \<open>\<open>for (i = 0; i < n; i++) p[i] = inw(ATA_DATA);\<close> and its counterpart for \<open>outw\<close>.\<close>

fun inw_words :: "'d port_io \<Rightarrow> nat \<Rightarrow> 'd \<Rightarrow> u16 list \<times> 'd" where
  "inw_words E 0 d = ([], d)"
| "inw_words E (Suc n) d = (let (w, d1) = p_in16 E ATA_DATA d; (ws, d2) = inw_words E n d1 in (w # ws, d2))"

fun outw_words :: "'d port_io \<Rightarrow> u16 list \<Rightarrow> 'd \<Rightarrow> 'd" where
  "outw_words E [] d = d"
| "outw_words E (w # ws) d = outw_words E ws (p_out16 E ATA_DATA w d)"

definition ata_init :: "'d port_io \<Rightarrow> ata \<Rightarrow> 'd \<Rightarrow> (bool \<times> ata \<times> 'd) option" where
  "ata_init E a d = do {
     d1 \<leftarrow> ata_wait_bsy E (p_out8 E ATA_DRIVE_HEAD 0xF0 d);
     d2 \<leftarrow> ata_wait_bsy E (p_out8 E ATA_COMMAND 0xEC d1);
     let (status, d3) = p_in8 E ATA_STATUS d2;
     if status = 0x00 \<or> status = 0xFF then Some (False, a\<lparr>disk_present := False\<rparr>, d3)
     else let (ok, d4) = ata_wait_drq E d3
          in if \<not> ok then Some (False, a\<lparr>disk_present := False\<rparr>, d4)
             else let (ident, d5) = inw_words E 256 d4
                  in Some (True, a\<lparr>disk_sectors := push_bit 16 (ucast (ident ! 61)) OR ucast (ident ! 60), disk_present := True\<rparr>, d5)
   }"

definition ata_disk_present :: "ata \<Rightarrow> bool" where
  "ata_disk_present a = disk_present a"

definition ata_disk_sectors :: "ata \<Rightarrow> u32" where
  "ata_disk_sectors a = disk_sectors a"

text \<open>The register writes that both transfers begin with.\<close>

definition ata_select :: "'d port_io \<Rightarrow> u32 \<Rightarrow> u8 \<Rightarrow> 'd \<Rightarrow> 'd" where
  "ata_select E cur cmd d = out8_list E
     [(ATA_DRIVE_HEAD, ucast (0xF0 OR (drop_bit 24 cur AND 0x0F))), (ATA_SECTOR_CNT, 1), (ATA_LBA_LO, ucast cur),
      (ATA_LBA_MID, ucast (drop_bit 8 cur)), (ATA_LBA_HI, ucast (drop_bit 16 cur)), (ATA_COMMAND, cmd)] d"

definition ata_start :: "'d port_io \<Rightarrow> u32 \<Rightarrow> u8 \<Rightarrow> 'd \<Rightarrow> (bool \<times> 'd) option" where
  "ata_start E cur cmd d = do {
     d1 \<leftarrow> ata_wait_bsy E d;
     d2 \<leftarrow> ata_wait_bsy E (ata_select E cur cmd d1);
     Some (ata_wait_drq E d2)
   }"

text \<open>The sectors that are left, and the words the buffer has received.\<close>

fun ata_read_sectors :: "'d port_io \<Rightarrow> u32 list \<Rightarrow> 'd \<Rightarrow> ((bool \<times> u16 list) \<times> 'd) option" where
  "ata_read_sectors E [] d = Some ((True, []), d)"
| "ata_read_sectors E (cur # cs) d = do {
     (ok, d1) \<leftarrow> ata_start E cur 0x20 d;
     if \<not> ok then Some ((False, []), d1)
     else do {
       let (ws, d2) = inw_words E 256 d1;
       ((ok2, rest), d3) \<leftarrow> ata_read_sectors E cs d2;
       Some ((ok2, ws @ rest), d3)
     }
   }"

definition ata_read :: "'d port_io \<Rightarrow> ata \<Rightarrow> u32 \<Rightarrow> u32 \<Rightarrow> 'd \<Rightarrow> ((bool \<times> u16 list) \<times> 'd) option" where
  "ata_read E a lba n d =
     (if \<not> disk_present a then Some ((False, []), d)
      else ata_read_sectors E (map (\<lambda>s. lba + s) (range32 0 n)) d)"

fun ata_write_sectors :: "'d port_io \<Rightarrow> u32 list \<Rightarrow> u16 list \<Rightarrow> 'd \<Rightarrow> (bool \<times> 'd) option" where
  "ata_write_sectors E [] p d = Some (True, d)"
| "ata_write_sectors E (cur # cs) p d = do {
     (ok, d1) \<leftarrow> ata_start E cur 0x30 d;
     if \<not> ok then Some (False, d1)
     else do {
       d2 \<leftarrow> ata_wait_bsy E (outw_words E (take 256 p) d1);
       ata_write_sectors E cs (drop 256 p) d2
     }
   }"

text \<open>\<open>p\<close> holds at least \<open>256 * n\<close> words.\<close>

definition ata_write :: "'d port_io \<Rightarrow> ata \<Rightarrow> u32 \<Rightarrow> u32 \<Rightarrow> u16 list \<Rightarrow> 'd \<Rightarrow> (bool \<times> 'd) option" where
  "ata_write E a lba n p d =
     (if \<not> disk_present a then Some (False, d)
      else ata_write_sectors E (map (\<lambda>s. lba + s) (range32 0 n)) p d)"

section \<open>A reference drive\<close>

text \<open>
  What the ATA standard says of the commands the driver uses. A command makes the drive busy for some
  number of status reads; then it waits for the data transfer, or reports an error for an address
  behind its last sector.
\<close>

datatype ata_phase = Idle | Failed | Data_In "u16 list" | Data_Out nat "u16 list"

record ata_dev =
  dv_head :: u8
  dv_lo :: u8
  dv_mid :: u8
  dv_hi :: u8
  dv_phase :: ata_phase
  dv_busy :: nat
  dv_delays :: "nat list"
  dv_disk :: "nat \<Rightarrow> u16 list"
  dv_size :: nat
  dv_ident :: "u16 list"

definition dv_lba :: "ata_dev \<Rightarrow> nat" where
  "dv_lba v = unat (of_le32 (dv_lo v) (dv_mid v) (dv_hi v) (dv_head v AND 0x0F))"

text \<open>Busy for the next number of status reads on the list.\<close>

definition dv_work :: "ata_dev \<Rightarrow> ata_dev" where
  "dv_work v = (case dv_delays v of [] \<Rightarrow> v\<lparr>dv_busy := 0\<rparr> | n # ns \<Rightarrow> v\<lparr>dv_busy := n, dv_delays := ns\<rparr>)"

definition dv_status :: "ata_dev \<Rightarrow> u8 \<times> ata_dev" where
  "dv_status v =
     (if dv_busy v > 0 then (0x80, v\<lparr>dv_busy := dv_busy v - 1\<rparr>)
      else (case dv_phase v of Idle \<Rightarrow> 0x40 | Failed \<Rightarrow> 0x41 | Data_In _ \<Rightarrow> 0x48 | Data_Out _ _ \<Rightarrow> 0x48, v))"

definition dv_command :: "u8 \<Rightarrow> ata_dev \<Rightarrow> ata_dev" where
  "dv_command cmd v =
     (let ok = dv_lba v < dv_size v
      in dv_work (v\<lparr>dv_phase := (if cmd = 0xEC then Data_In (dv_ident v)
           else if cmd = 0x20 \<and> ok then Data_In (dv_disk v (dv_lba v))
           else if cmd = 0x30 \<and> ok then Data_Out (dv_lba v) [] else Failed)\<rparr>))"

definition dv_out8 :: "u16 \<Rightarrow> u8 \<Rightarrow> ata_dev \<Rightarrow> ata_dev" where
  "dv_out8 p x v =
     (if p = ATA_DRIVE_HEAD then v\<lparr>dv_head := x\<rparr> else if p = ATA_LBA_LO then v\<lparr>dv_lo := x\<rparr>
      else if p = ATA_LBA_MID then v\<lparr>dv_mid := x\<rparr> else if p = ATA_LBA_HI then v\<lparr>dv_hi := x\<rparr>
      else if p = ATA_COMMAND then dv_command x v else v)"

definition dv_in16 :: "ata_dev \<Rightarrow> u16 \<times> ata_dev" where
  "dv_in16 v = (case dv_phase v of
       Data_In (w # ws) \<Rightarrow> (w, v\<lparr>dv_phase := (if ws = [] then Idle else Data_In ws)\<rparr>)
     | _ \<Rightarrow> (0, v))"

definition dv_out16 :: "u16 \<Rightarrow> ata_dev \<Rightarrow> ata_dev" where
  "dv_out16 w v = (case dv_phase v of
       Data_Out lba ws \<Rightarrow>
         if length ws = 255 then dv_work (v\<lparr>dv_disk := (dv_disk v)(lba := ws @ [w]), dv_phase := Idle\<rparr>)
         else v\<lparr>dv_phase := Data_Out lba (ws @ [w])\<rparr>
     | _ \<Rightarrow> v)"

text \<open>A bus whose slave behaves like the reference drive \<open>view d\<close>.\<close>

definition ata_compliant :: "'d port_io \<Rightarrow> ('d \<Rightarrow> ata_dev) \<Rightarrow> bool" where
  "ata_compliant E view \<longleftrightarrow> (\<forall>d. (fst (p_in8 E ATA_STATUS d), view (snd (p_in8 E ATA_STATUS d))) = dv_status (view d)) \<and>
     (\<forall>d. (fst (p_in16 E ATA_DATA d), view (snd (p_in16 E ATA_DATA d))) = dv_in16 (view d)) \<and>
     (\<forall>d p x. 0x1F0 \<le> p \<longrightarrow> p \<le> 0x1F7 \<longrightarrow> view (p_out8 E p x d) = dv_out8 p x (view d)) \<and>
     (\<forall>d w. view (p_out16 E ATA_DATA w d) = dv_out16 w (view d))"

text \<open>The reference drive as a bus.\<close>

definition ref_io :: "ata_dev port_io" where
  "ref_io = \<lparr>p_in8 = (\<lambda>p v. if p = ATA_STATUS then dv_status v else (0xFF, v)),
     p_in16 = (\<lambda>p v. if p = ATA_DATA then dv_in16 v else (0xFFFF, v)), p_in32 = (\<lambda>p v. (0xFFFFFFFF, v)),
     p_out8 = dv_out8, p_out16 = (\<lambda>p w v. if p = ATA_DATA then dv_out16 w v else v), p_out32 = (\<lambda>p w v. v)\<rparr>"

lemma ref_io_compliant: "ata_compliant ref_io (\<lambda>v. v)"
  by (simp add: ata_compliant_def ref_io_def)

section \<open>The driver on such a bus\<close>

definition dv_ok :: "ata_dev \<Rightarrow> bool" where
  "dv_ok v \<longleftrightarrow> (\<forall>a. length (dv_disk v a) = 256) \<and> length (dv_ident v) = 256"

lemma compliantD:
  assumes "ata_compliant E view"
  shows "\<exists>d1. p_in8 E ATA_STATUS d = (fst (dv_status (view d)), d1) \<and> view d1 = snd (dv_status (view d))"
    "\<exists>d1. p_in16 E ATA_DATA d = (fst (dv_in16 (view d)), d1) \<and> view d1 = snd (dv_in16 (view d))"
    "0x1F0 \<le> p \<Longrightarrow> p \<le> 0x1F7 \<Longrightarrow> view (p_out8 E p x d) = dv_out8 p x (view d)"
    "view (p_out16 E ATA_DATA w d) = dv_out16 w (view d)"
proof -
  have a: "(fst (p_in8 E ATA_STATUS d), view (snd (p_in8 E ATA_STATUS d))) = dv_status (view d)"
    "(fst (p_in16 E ATA_DATA d), view (snd (p_in16 E ATA_DATA d))) = dv_in16 (view d)"
    using assms unfolding ata_compliant_def by blast+
  show "\<exists>d1. p_in8 E ATA_STATUS d = (fst (dv_status (view d)), d1) \<and> view d1 = snd (dv_status (view d))"
    using a(1) by (metis fst_conv prod.collapse snd_conv)
  show "\<exists>d1. p_in16 E ATA_DATA d = (fst (dv_in16 (view d)), d1) \<and> view d1 = snd (dv_in16 (view d))"
    using a(2) by (metis fst_conv prod.collapse snd_conv)
  show "0x1F0 \<le> p \<Longrightarrow> p \<le> 0x1F7 \<Longrightarrow> view (p_out8 E p x d) = dv_out8 p x (view d)"
    "view (p_out16 E ATA_DATA w d) = dv_out16 w (view d)"
    using assms unfolding ata_compliant_def by blast+
qed

lemma wait_bsy_view:
  assumes "ata_compliant E view"
  shows "\<exists>d1. ata_wait_bsy E d = Some d1 \<and> view d1 = (view d)\<lparr>dv_busy := 0\<rparr>"
proof (induction "dv_busy (view d)" arbitrary: d)
  case 0
  obtain d1 where d1: "p_in8 E ATA_STATUS d = (fst (dv_status (view d)), d1)" "view d1 = snd (dv_status (view d))"
    using compliantD(1) [OF assms] by blast
  have "fst (dv_status (view d)) AND 0x80 = 0" "snd (dv_status (view d)) = (view d)\<lparr>dv_busy := 0\<rparr>"
    using 0 by (simp_all add: dv_status_def split: ata_phase.split)
  then show ?case using d1 by (subst ata_wait_bsy.simps) simp
next
  case (Suc n)
  obtain d1 where d1: "p_in8 E ATA_STATUS d = (fst (dv_status (view d)), d1)" "view d1 = snd (dv_status (view d))"
    using compliantD(1) [OF assms] by blast
  have s: "dv_status (view d) = (0x80, (view d)\<lparr>dv_busy := n\<rparr>)" using Suc(2) by (simp add: dv_status_def flip: Suc(2))
  have "ata_wait_bsy E d = ata_wait_bsy E d1" using d1(1) s by (subst ata_wait_bsy.simps) simp
  moreover have "n = dv_busy (view d1)" using d1(2) s by simp
  ultimately show ?case using Suc(1) [of d1] d1(2) s by simp
qed

lemma wait_drq_view:
  assumes "ata_compliant E view" "dv_busy (view d) = 0" "dv_phase (view d) \<noteq> Idle"
  shows "\<exists>d1. ata_wait_drq E d = (dv_phase (view d) \<noteq> Failed, d1) \<and> view d1 = view d"
proof -
  obtain n where n: "(100000 :: nat) = Suc n" by (metis numeral_eq_Suc)
  obtain d1 where d1: "p_in8 E ATA_STATUS d = (fst (dv_status (view d)), d1)" "view d1 = snd (dv_status (view d))"
    using compliantD(1) [OF assms(1)] by blast
  then show ?thesis
    using assms(2,3) by (auto simp: ata_wait_drq_def n dv_status_def split: ata_phase.splits)
qed

lemma select_view:
  assumes "ata_compliant E view"
  shows "view (ata_select E cur cmd d) = dv_command cmd ((view d)\<lparr>dv_head := ucast (0xF0 OR (drop_bit 24 cur AND 0x0F)),
    dv_lo := ucast cur, dv_mid := ucast (drop_bit 8 cur), dv_hi := ucast (drop_bit 16 cur)\<rparr>)"
  by (simp add: ata_select_def compliantD(3) [OF assms] dv_out8_def)

lemma dv_lba_select: "dv_lba (v\<lparr>dv_head := ucast (0xF0 OR (drop_bit 24 cur AND 0x0F)),
    dv_lo := ucast cur, dv_mid := ucast (drop_bit 8 cur), dv_hi := ucast (drop_bit 16 cur)\<rparr>) = unat (cur :: u32) mod 2 ^ 28"
proof -
  have "of_le32 (ucast cur) (ucast (drop_bit 8 cur)) (ucast (drop_bit 16 cur))
      (ucast (0xF0 OR (drop_bit 24 cur AND 0x0F)) AND 0x0F) = take_bit 28 cur"
  proof (rule bit_word_eqI)
    fix n :: nat
    assume "n < LENGTH(32)"
    then consider "n < 8" | "8 \<le> n" "n < 16" | "16 \<le> n" "n < 24" | "n = 24" | "n = 25" | "n = 26" | "n = 27" | "n = 28" | "n = 29" | "n = 30" | "n = 31"
      by (auto simp: not_less) linarith
    then show "bit (of_le32 (ucast cur) (ucast (drop_bit 8 cur)) (ucast (drop_bit 16 cur))
        (ucast (0xF0 OR (drop_bit 24 cur AND 0x0F)) AND 0x0F)) n = bit (take_bit 28 cur) n"
      by cases (auto simp: of_le32_def bit_simps)
  qed
  then show ?thesis by (simp add: dv_lba_def take_bit_eq_mod unat_mod)
qed

text \<open>Selecting a sector and starting a command.\<close>

definition dv_on_disk :: "ata_dev \<Rightarrow> u32 \<Rightarrow> bool" where
  "dv_on_disk v cur \<longleftrightarrow> unat cur mod 2 ^ 28 < dv_size v"

definition dv_same :: "ata_dev \<Rightarrow> ata_dev \<Rightarrow> bool" where
  "dv_same v w \<longleftrightarrow> dv_disk w = dv_disk v \<and> dv_size w = dv_size v \<and> dv_ident w = dv_ident v"

lemma dv_same_refl [simp]: "dv_same v v"
  by (simp add: dv_same_def)

lemma dv_same_trans: "dv_same u v \<Longrightarrow> dv_same v w \<Longrightarrow> dv_same u w"
  by (simp add: dv_same_def)

lemma dv_work_fields [simp]: "dv_phase (dv_work v) = dv_phase v" "dv_disk (dv_work v) = dv_disk v"
  "dv_size (dv_work v) = dv_size v" "dv_ident (dv_work v) = dv_ident v"
  by (simp_all add: dv_work_def split: list.split)

lemma start_view:
  assumes "ata_compliant E view" "cmd = 0x20 \<or> cmd = 0x30"
  shows "\<exists>d1. ata_start E cur cmd d = Some (dv_on_disk (view d) cur, d1) \<and> dv_same (view d) (view d1) \<and>
    dv_phase (view d1) = (if \<not> dv_on_disk (view d) cur then Failed
      else if cmd = 0x20 then Data_In (dv_disk (view d) (unat cur mod 2 ^ 28)) else Data_Out (unat cur mod 2 ^ 28) [])"
proof -
  obtain d1 where d1: "ata_wait_bsy E d = Some d1" "view d1 = (view d)\<lparr>dv_busy := 0\<rparr>"
    using wait_bsy_view [OF assms(1)] by blast
  let ?v = "(view d1)\<lparr>dv_head := ucast (0xF0 OR (drop_bit 24 cur AND 0x0F)),
    dv_lo := ucast cur, dv_mid := ucast (drop_bit 8 cur), dv_hi := ucast (drop_bit 16 cur)\<rparr>"
  have sel: "view (ata_select E cur cmd d1) = dv_command cmd ?v" by (rule select_view [OF assms(1)])
  obtain d2 where d2: "ata_wait_bsy E (ata_select E cur cmd d1) = Some d2" "view d2 = (dv_command cmd ?v)\<lparr>dv_busy := 0\<rparr>"
    using wait_bsy_view [OF assms(1)] sel by metis
  have lba: "dv_lba ?v = unat cur mod 2 ^ 28" by (rule dv_lba_select)
  have c: "dv_same (view d) (view d2)" "dv_busy (view d2) = 0"
    "dv_phase (view d2) = (if \<not> dv_on_disk (view d) cur then Failed
      else if cmd = 0x20 then Data_In (dv_disk (view d) (unat cur mod 2 ^ 28)) else Data_Out (unat cur mod 2 ^ 28) [])"
    using assms(2) unfolding d2(2) dv_command_def Let_def lba
    by (auto simp: d1(2) dv_same_def dv_on_disk_def)
  obtain d3 where "ata_wait_drq E d2 = (dv_phase (view d2) \<noteq> Failed, d3)" "view d3 = view d2"
    using wait_drq_view [OF assms(1) c(2)] c(3) by (auto split: if_splits)
  then show ?thesis using d1(1) d2(1) c(1,3) assms(2) by (auto simp: ata_start_def)
qed

lemma inw_words_view:
  assumes "ata_compliant E view" "dv_phase (view d) = Data_In ws" "ws \<noteq> []"
  shows "\<exists>d1. inw_words E (length ws) d = (ws, d1) \<and> view d1 = (view d)\<lparr>dv_phase := Idle\<rparr>"
  using assms(2,3)
proof (induction ws arbitrary: d)
  case (Cons w ws)
  obtain d1 where d1: "p_in16 E ATA_DATA d = (w, d1)" "view d1 = (view d)\<lparr>dv_phase := (if ws = [] then Idle else Data_In ws)\<rparr>"
    using compliantD(2) [OF assms(1), of d] Cons.prems by (auto simp: dv_in16_def)
  show ?case
  proof (cases "ws = []")
    case False
    then obtain d2 where "inw_words E (length ws) d1 = (ws, d2)" "view d2 = (view d1)\<lparr>dv_phase := Idle\<rparr>"
      using Cons.IH [of d1] d1(2) by auto
    then show ?thesis using d1 by simp
  qed (use d1 in simp)
qed simp

lemma outw_words_view:
  assumes "ata_compliant E view" "dv_phase (view d) = Data_Out lba acc" "ws \<noteq> []" "length acc + length ws = 256"
  shows "\<exists>u. view (outw_words E ws d) = dv_work u \<and> dv_phase u = Idle \<and> dv_disk u = (dv_disk (view d))(lba := acc @ ws) \<and>
    dv_size u = dv_size (view d) \<and> dv_ident u = dv_ident (view d)"
  using assms(2-4)
proof (induction ws arbitrary: d acc)
  case (Cons w ws)
  have o: "view (p_out16 E ATA_DATA w d) = dv_out16 w (view d)" by (rule compliantD(4) [OF assms(1)])
  show ?case
  proof (cases "ws = []")
    case True
    then show ?thesis using o Cons.prems
      by (intro exI [of _ "(view d)\<lparr>dv_disk := (dv_disk (view d))(lba := acc @ [w]), dv_phase := Idle\<rparr>"])
        (simp add: dv_out16_def)
  next
    case False
    then have "length acc \<noteq> 255" using Cons.prems(3) by (cases ws) auto
    then have v: "view (p_out16 E ATA_DATA w d) = (view d)\<lparr>dv_phase := Data_Out lba (acc @ [w])\<rparr>"
      using o Cons.prems(1) by (simp add: dv_out16_def)
    then show ?thesis using Cons.IH [of "p_out16 E ATA_DATA w d" "acc @ [w]"] False Cons.prems(3) by simp
  qed
qed simp

section \<open>Transfers of whole sectors\<close>

text \<open>What the drive holds at an address, of which the driver passes on 28 bits.\<close>

definition dv_sector :: "ata_dev \<Rightarrow> u32 \<Rightarrow> u16 list" where
  "dv_sector v a = dv_disk v (unat a mod 2 ^ 28)"

text \<open>The sectors up to the first that is not on the disk.\<close>

fun dv_read :: "ata_dev \<Rightarrow> u32 list \<Rightarrow> bool \<times> u16 list" where
  "dv_read v [] = (True, [])"
| "dv_read v (c # cs) =
     (if dv_on_disk v c then let (ok, ws) = dv_read v cs in (ok, dv_sector v c @ ws) else (False, []))"

lemma dv_read_same: "dv_same v w \<Longrightarrow> dv_read w cs = dv_read v cs"
  by (induction cs) (simp_all add: dv_same_def dv_on_disk_def dv_sector_def)

lemma read_sectors_view:
  assumes "ata_compliant E view" "dv_ok (view d)"
  shows "\<exists>d1. ata_read_sectors E cs d = Some (dv_read (view d) cs, d1) \<and> dv_same (view d) (view d1)"
  using assms(2)
proof (induction cs arbitrary: d)
  case (Cons c cs)
  obtain d1 where d1: "ata_start E c 0x20 d = Some (dv_on_disk (view d) c, d1)" "dv_same (view d) (view d1)"
    "dv_on_disk (view d) c \<Longrightarrow> dv_phase (view d1) = Data_In (dv_sector (view d) c)"
    using start_view [OF assms(1), of "0x20" c d] by (auto simp: dv_sector_def)
  show ?case
  proof (cases "dv_on_disk (view d) c")
    case False
    then show ?thesis using d1(1,2) by auto
  next
    case True
    have len: "length (dv_sector (view d) c) = 256" using Cons.prems by (simp add: dv_ok_def dv_sector_def)
    then have "dv_sector (view d) c \<noteq> []" by auto
    then obtain d2 where d2: "inw_words E 256 d1 = (dv_sector (view d) c, d2)" "view d2 = (view d1)\<lparr>dv_phase := Idle\<rparr>"
      using inw_words_view [OF assms(1) d1(3) [OF True]] len by auto
    have s2: "dv_same (view d) (view d2)" using d1(2) d2(2) by (simp add: dv_same_def)
    then have "dv_ok (view d2)" using Cons.prems by (simp add: dv_ok_def dv_same_def)
    then obtain d3 where "ata_read_sectors E cs d2 = Some (dv_read (view d2) cs, d3)" "dv_same (view d2) (view d3)"
      using Cons.IH by blast
    then show ?thesis
      using d1(1) d2(1) True dv_read_same [OF s2] dv_same_trans [OF s2] by (auto split: prod.split)
  qed
qed simp

text \<open>And a write, which stops there too.\<close>

fun dv_write :: "ata_dev \<Rightarrow> u32 list \<Rightarrow> u16 list \<Rightarrow> bool \<times> (nat \<Rightarrow> u16 list)" where
  "dv_write v [] p = (True, dv_disk v)"
| "dv_write v (c # cs) p =
     (if dv_on_disk v c then dv_write (v\<lparr>dv_disk := (dv_disk v)(unat c mod 2 ^ 28 := take 256 p)\<rparr>) cs (drop 256 p)
      else (False, dv_disk v))"

lemma dv_write_cong: "dv_disk w = dv_disk v \<Longrightarrow> dv_size w = dv_size v \<Longrightarrow> dv_write w cs p = dv_write v cs p"
  by (induction cs arbitrary: v w p) (simp_all add: dv_on_disk_def)

lemma write_sectors_view:
  assumes "ata_compliant E view" "dv_ok (view d)" "256 * length cs \<le> length p"
  shows "\<exists>d1. ata_write_sectors E cs p d = Some (fst (dv_write (view d) cs p), d1) \<and> dv_ok (view d1) \<and>
    dv_disk (view d1) = snd (dv_write (view d) cs p) \<and> dv_size (view d1) = dv_size (view d) \<and> dv_ident (view d1) = dv_ident (view d)"
  using assms(2,3)
proof (induction cs arbitrary: d p)
  case (Cons c cs)
  obtain d1 where d1: "ata_start E c 0x30 d = Some (dv_on_disk (view d) c, d1)" "dv_same (view d) (view d1)"
    "dv_on_disk (view d) c \<Longrightarrow> dv_phase (view d1) = Data_Out (unat c mod 2 ^ 28) []"
    using start_view [OF assms(1), of "0x30" c d] by auto
  show ?case
  proof (cases "dv_on_disk (view d) c")
    case False
    then show ?thesis using d1(1,2) Cons.prems(1) by (auto simp: dv_same_def dv_ok_def)
  next
    case True
    have l: "length (take 256 p) = 256" using Cons.prems(2) by simp
    then have ne: "take 256 p \<noteq> []" by auto
    obtain u where u: "view (outw_words E (take 256 p) d1) = dv_work u" "dv_disk u = (dv_disk (view d1))(unat c mod 2 ^ 28 := take 256 p)"
      "dv_size u = dv_size (view d1)" "dv_ident u = dv_ident (view d1)"
      using outw_words_view [OF assms(1) d1(3) [OF True] ne] l by auto
    obtain d2 where d2: "ata_wait_bsy E (outw_words E (take 256 p) d1) = Some d2"
      "view d2 = (dv_work u)\<lparr>dv_busy := 0\<rparr>"
      using wait_bsy_view [OF assms(1)] u(1) by metis
    have v2: "dv_disk (view d2) = (dv_disk (view d))(unat c mod 2 ^ 28 := take 256 p)" "dv_size (view d2) = dv_size (view d)"
      "dv_ident (view d2) = dv_ident (view d)" using d2(2) u d1(2) by (simp_all add: dv_same_def)
    then have ok2: "dv_ok (view d2)" using Cons.prems(1) l by (simp add: dv_ok_def)
    have w: "dv_write (view d2) cs (drop 256 p) = dv_write (view d) (c # cs) p"
      using True dv_write_cong [of "view d2" "(view d)\<lparr>dv_disk := (dv_disk (view d))(unat c mod 2 ^ 28 := take 256 p)\<rparr>"] v2 by simp
    have "256 * length cs \<le> length (drop 256 p)" using Cons.prems(2) by simp
    from Cons.IH [OF ok2 this] obtain d3 where "ata_write_sectors E cs (drop 256 p) d2 = Some (fst (dv_write (view d2) cs (drop 256 p)), d3)"
      "dv_ok (view d3)" "dv_disk (view d3) = snd (dv_write (view d2) cs (drop 256 p))" "dv_size (view d3) = dv_size (view d2)"
      "dv_ident (view d3) = dv_ident (view d2)" by blast
    then show ?thesis using d1(1) d2(1) True w v2 by simp
  qed
qed simp

section \<open>The drive that the sector cache sees\<close>

text \<open>The bytes of a sector in memory and the 16-bit words of the data port.\<close>

definition words_sector :: "u16 list \<Rightarrow> sector" where
  "words_sector ws = (\<lambda>i. if i < 512 then (if even i then ucast (ws ! (i div 2)) else ucast (drop_bit 8 (ws ! (i div 2)))) else 0)"

definition sector_words :: "sector \<Rightarrow> u16 list" where
  "sector_words b = map (\<lambda>i. of_le16 (b (2 * i)) (b (2 * i + 1))) [0..<256]"

lemma length_sector_words [simp]: "length (sector_words b) = 256"
  by (simp add: sector_words_def)

lemma words_sector_words: "i < 512 \<Longrightarrow> words_sector (sector_words b) i = b i"
proof -
  assume i: "i < 512"
  then have n: "sector_words b ! (i div 2) = of_le16 (b (2 * (i div 2))) (b (2 * (i div 2) + 1))"
    using nth_map_upt [of "i div 2" 256 0] less_mult_imp_div_less [of i 256 2]
    by (simp add: sector_words_def del: upt_rec_numeral)
  have l: "ucast (of_le16 x y) = x" "ucast (drop_bit 8 (of_le16 x y)) = y" for x y :: u8
    using le16_of_le16 [of x y] by (simp_all add: le16_def)
  show ?thesis
  proof (cases "even i")
    case True
    then have "2 * (i div 2) = i" by simp
    then show ?thesis using i n True by (simp add: words_sector_def l)
  next
    case False
    then have "2 * (i div 2) + 1 = i" by simp
    then show ?thesis using i n False by (simp add: words_sector_def l)
  qed
qed

definition dev_drive :: "ata_dev \<Rightarrow> drive" where
  "dev_drive v = \<lparr>drv_present = True, drv_sectors = of_nat (dv_size v), drv_data = (\<lambda>a. words_sector (dv_sector v a)),
     drv_rd_ok = dv_on_disk v, drv_wr_ok = dv_on_disk v\<rparr>"

lemma range32_1: "range32 0 1 = [0]"
  by (simp add: range32_def)

lemma mod28: "(x :: u32) < 0x10000000 \<Longrightarrow> unat x mod 2 ^ 28 = unat x"
  by (simp add: word_less_nat_alt)

lemma ata_refines:
  assumes "ata_compliant E view" "dv_ok (view d)" "disk_present a" "lba < 0x10000000"
  shows "\<exists>ok ws d1. ata_read E a lba 1 d = Some ((ok, ws), d1) \<and>
      map_option words_sector (if ok then Some ws else None) = blk_read lba (dev_drive (view d)) \<and>
      dev_drive (view d1) = dev_drive (view d) \<and> dv_ok (view d1)"
    "\<exists>ok d1. ata_write E a lba 1 (sector_words b) d = Some (ok, d1) \<and> dv_ok (view d1) \<and>
      ok = fst (blk_write lba b (dev_drive (view d))) \<and>
      (\<forall>x i. x < 0x10000000 \<longrightarrow> i < 512 \<longrightarrow>
         drv_data (dev_drive (view d1)) x i = drv_data (snd (blk_write lba b (dev_drive (view d)))) x i)"
proof -
  obtain d1 where d1: "ata_read_sectors E [lba] d = Some (dv_read (view d) [lba], d1)" "dv_same (view d) (view d1)"
    using read_sectors_view [OF assms(1,2)] by blast
  have dd: "dev_drive (view d1) = dev_drive (view d)"
    using d1(2) by (simp add: dev_drive_def dv_same_def dv_sector_def dv_on_disk_def fun_eq_iff)
  have "dv_ok (view d1)" using assms(2) d1(2) by (simp add: dv_same_def dv_ok_def)
  moreover have "ata_read E a lba 1 d = Some ((dv_on_disk (view d) lba, snd (dv_read (view d) [lba])), d1)"
    using d1(1) assms(3) by (simp add: ata_read_def range32_1 del: ata_read_sectors.simps)
  moreover have "map_option words_sector (if dv_on_disk (view d) lba then Some (snd (dv_read (view d) [lba])) else None)
      = blk_read lba (dev_drive (view d))" by (simp add: blk_read_def dev_drive_def)
  ultimately show "\<exists>ok ws d1. ata_read E a lba 1 d = Some ((ok, ws), d1) \<and>
      map_option words_sector (if ok then Some ws else None) = blk_read lba (dev_drive (view d)) \<and>
      dev_drive (view d1) = dev_drive (view d) \<and> dv_ok (view d1)" using dd by blast
  have "256 * length [lba] \<le> length (sector_words b)" by simp
  from write_sectors_view [OF assms(1,2) this] obtain d2
    where d2: "ata_write_sectors E [lba] (sector_words b) d = Some (fst (dv_write (view d) [lba] (sector_words b)), d2)"
    "dv_ok (view d2)" "dv_disk (view d2) = snd (dv_write (view d) [lba] (sector_words b))" by blast
  have w: "dv_write (view d) [lba] (sector_words b) = (if dv_on_disk (view d) lba
      then (True, (dv_disk (view d))(unat lba := sector_words b)) else (False, dv_disk (view d)))"
    using mod28 [OF assms(4)] by (simp add: take_all)
  have "drv_data (dev_drive (view d2)) x i = drv_data (snd (blk_write lba b (dev_drive (view d)))) x i"
    if "x < 0x10000000" "i < 512" for x i
    using d2(3) w mod28 [OF that(1)] words_sector_words [OF that(2), of b]
    by (auto simp: dev_drive_def dv_sector_def blk_write_def word_unat_eq_iff)
  then show "\<exists>ok d1. ata_write E a lba 1 (sector_words b) d = Some (ok, d1) \<and> dv_ok (view d1) \<and>
      ok = fst (blk_write lba b (dev_drive (view d))) \<and>
      (\<forall>x i. x < 0x10000000 \<longrightarrow> i < 512 \<longrightarrow>
         drv_data (dev_drive (view d1)) x i = drv_data (snd (blk_write lba b (dev_drive (view d)))) x i)"
    using d2(1,2) w assms(3) by (auto simp: ata_write_def range32_1 dev_drive_def blk_write_def)
qed

lemma dv_write_frame:
  "x \<notin> (\<lambda>c. unat c mod 2 ^ 28) ` set cs \<Longrightarrow> snd (dv_write v cs p) x = dv_disk v x"
  by (induction v cs p rule: dv_write.induct) auto

lemma dv_write_ok: "\<forall>c \<in> set cs. dv_on_disk v c \<Longrightarrow> fst (dv_write v cs p)"
  by (induction v cs p rule: dv_write.induct) (simp_all add: dv_on_disk_def)

lemma dv_read_written:
  assumes "\<forall>c \<in> set cs. dv_on_disk v c" "distinct (map (\<lambda>c. unat c mod 2 ^ 28) cs)" "length p = 256 * length cs"
    and "dv_disk w = snd (dv_write v cs p)" "dv_size w = dv_size v"
  shows "dv_read w cs = (True, p)"
  using assms
proof (induction cs arbitrary: v p)
  case (Cons c cs)
  let ?k = "unat c mod 2 ^ 28"
  let ?v = "v\<lparr>dv_disk := (dv_disk v)(?k := take 256 p)\<rparr>"
  have on: "dv_on_disk v c" "\<forall>c \<in> set cs. dv_on_disk ?v c" using Cons.prems(1) by (simp_all add: dv_on_disk_def)
  have w: "dv_disk w = snd (dv_write ?v cs (drop 256 p))" using Cons.prems(4) on(1) by simp
  have "?k \<notin> (\<lambda>c. unat c mod 2 ^ 28) ` set cs" using Cons.prems(2) by simp
  then have "dv_sector w c = take 256 p" using dv_write_frame [of ?k cs ?v "drop 256 p"] w by (simp add: dv_sector_def)
  moreover have "dv_read w cs = (True, drop 256 p)"
    by (rule Cons.IH [OF on(2) _ _ w]) (use Cons.prems in simp_all)
  moreover have "dv_on_disk w c" using on(1) Cons.prems(5) by (simp add: dv_on_disk_def)
  ultimately show ?case by simp
qed simp

text \<open>The addresses of a transfer.\<close>

definition xfer_lbas :: "u32 \<Rightarrow> u32 \<Rightarrow> u32 list" where
  "xfer_lbas lba n = map (\<lambda>s. lba + s) (range32 0 n)"

lemma xfer_lbas_facts:
  assumes "unat lba + unat n \<le> 2 ^ 28"
  shows "map (\<lambda>c. unat c mod 2 ^ 28) (xfer_lbas lba n) = map (\<lambda>i. unat lba + i) [0..<unat n]"
    "length (xfer_lbas lba n) = unat n"
proof -
  have "unat (lba + of_nat i) mod 2 ^ 28 = unat lba + i" if "i < unat n" for i
  proof -
    have "unat (of_nat i :: u32) = i" by (rule unat_of_nat_eq) (use that assms in simp)
    then have "unat (lba + of_nat i) = unat lba + i" using that assms by (simp add: unat_word_ariths)
    then show ?thesis using that assms by simp
  qed
  then show "map (\<lambda>c. unat c mod 2 ^ 28) (xfer_lbas lba n) = map (\<lambda>i. unat lba + i) [0..<unat n]"
    by (simp add: xfer_lbas_def range32_def)
  show "length (xfer_lbas lba n) = unat n" by (simp add: xfer_lbas_def range32_def)
qed

lemma ata_write_read:
  assumes "ata_compliant E view" "dv_ok (view d)" "disk_present a"
    and "unat lba + unat n \<le> 2 ^ 28" "unat lba + unat n \<le> dv_size (view d)" "length p = 256 * unat n"
  shows "\<exists>d1 d2. ata_write E a lba n p d = Some (True, d1) \<and> ata_read E a lba n d1 = Some ((True, p), d2) \<and>
    (\<forall>x. x < unat lba \<or> unat lba + unat n \<le> x \<longrightarrow> dv_disk (view d2) x = dv_disk (view d) x)"
proof -
  let ?cs = "xfer_lbas lba n" and ?k = "\<lambda>c :: u32. unat c mod 2 ^ 28"
  note X = xfer_lbas_facts [OF assms(4)]
  have keys: "?k ` set ?cs = (\<lambda>i. unat lba + i) ` {0..<unat n}"
    using arg_cong [OF X(1), of set] by simp
  have on: "\<forall>c \<in> set ?cs. dv_on_disk (view d) c"
  proof
    fix c assume "c \<in> set ?cs"
    then have "?k c \<in> (\<lambda>i. unat lba + i) ` {0..<unat n}" unfolding keys [symmetric] by (rule imageI)
    then show "dv_on_disk (view d) c" using assms(5) by (auto simp: dv_on_disk_def)
  qed
  have ds: "distinct (map ?k ?cs)" unfolding X(1) by (simp add: distinct_map inj_on_def)
  have len: "length p = 256 * length ?cs" using assms(6) X(2) by simp
  obtain d1 where d1: "ata_write_sectors E ?cs p d = Some (fst (dv_write (view d) ?cs p), d1)" "dv_ok (view d1)"
    "dv_disk (view d1) = snd (dv_write (view d) ?cs p)" "dv_size (view d1) = dv_size (view d)"
    using write_sectors_view [OF assms(1,2), of ?cs p] len by auto
  obtain d2 where d2: "ata_read_sectors E ?cs d1 = Some (dv_read (view d1) ?cs, d2)" "dv_same (view d1) (view d2)"
    using read_sectors_view [OF assms(1) d1(2)] by blast
  have "dv_read (view d1) ?cs = (True, p)" by (rule dv_read_written [OF on ds len d1(3,4)])
  moreover have "fst (dv_write (view d) ?cs p)" by (rule dv_write_ok [OF on])
  moreover have "dv_disk (view d2) x = dv_disk (view d) x" if "x < unat lba \<or> unat lba + unat n \<le> x" for x
  proof -
    have "x \<notin> ?k ` set ?cs" unfolding keys using that by auto
    then show ?thesis using dv_write_frame [of x ?cs "view d" p] d1(3) d2(2) by (simp add: dv_same_def)
  qed
  ultimately show ?thesis using d1(1) d2(1) assms(3) by (simp add: ata_write_def ata_read_def xfer_lbas_def)
qed

text \<open>A bus without a drive: every read of the status register gives all ones.\<close>

lemma wait_bsy_stuck: "ata_wait_bsy E d = Some d1 \<Longrightarrow> \<exists>d. fst (p_in8 E ATA_STATUS d) \<noteq> 0xFF"
proof (erule ata_wait_bsy.raw_induct [rotated])
  fix f E d d1
  assume IH: "\<And>E d d1. f E d = Some d1 \<Longrightarrow> \<exists>d. fst (p_in8 E ATA_STATUS d) \<noteq> 0xFF"
    and eq: "(let (s, d1) = p_in8 E ATA_STATUS d in if s AND 0x80 \<noteq> 0 then f E d1 else Some d1) = Some d1"
  obtain s d2 where sd: "p_in8 E ATA_STATUS d = (s, d2)" by fastforce
  show "\<exists>d. fst (p_in8 E ATA_STATUS d) \<noteq> 0xFF"
  proof (cases "s = 0xFF")
    case True
    then show ?thesis using eq IH [of E d2] sd by simp
  qed (use sd in \<open>auto intro: exI [of _ d]\<close>)
qed

lemma wait_bsy_floating:
  assumes "\<forall>d. fst (p_in8 E ATA_STATUS d) = 0xFF"
  shows "ata_wait_bsy E d = None"
  using wait_bsy_stuck [of E d] assms by (cases "ata_wait_bsy E d") auto

section \<open>Properties\<close>

text \<open>C23: The driver implements the disk that the file system relies on. On a bus whose slave behaves like an
  ATA drive, however long it is busy after each command, \<open>ata_read\<close> and \<open>ata_write\<close> of one sector
  return, fail exactly for addresses behind the last sector, and have the result and the effect of
  \<open>blk_read\<close> and \<open>blk_write\<close>, for all addresses of 28 bits.\<close>

theorem ata_refines_blk:
  assumes "ata_compliant E view" "dv_ok (view d)" "disk_present a" "lba < 0x10000000"
  shows "(\<exists>ok ws d1. ata_read E a lba 1 d = Some ((ok, ws), d1) \<and>
      map_option words_sector (if ok then Some ws else None) = blk_read lba (dev_drive (view d)) \<and>
      dev_drive (view d1) = dev_drive (view d) \<and> dv_ok (view d1)) \<and>
    (\<exists>ok d1. ata_write E a lba 1 (sector_words b) d = Some (ok, d1) \<and> dv_ok (view d1) \<and>
      ok = fst (blk_write lba b (dev_drive (view d))) \<and>
      (\<forall>x i. x < 0x10000000 \<longrightarrow> i < 512 \<longrightarrow>
         drv_data (dev_drive (view d1)) x i = drv_data (snd (blk_write lba b (dev_drive (view d)))) x i))"
  using ata_refines [OF assms] by blast

definition sample_dev :: ata_dev where
  "sample_dev = \<lparr>dv_head = 0, dv_lo = 0, dv_mid = 0, dv_hi = 0, dv_phase = Idle, dv_busy = 2, dv_delays = [3, 0, 7],
     dv_disk = (\<lambda>a. replicate 256 (of_nat a)), dv_size = 1000, dv_ident = replicate 256 0\<rparr>"

lemma sample_dev_ok: "dv_ok sample_dev" "dv_size sample_dev = 1000"
  by (simp_all add: dv_ok_def sample_dev_def)

theorem ata_refines_blk_witness:
  "(\<exists>ok ws d1. ata_read ref_io \<lparr>disk_present = True, disk_sectors = 1000\<rparr> 7 1 sample_dev = Some ((ok, ws), d1) \<and>
      map_option words_sector (if ok then Some ws else None) = blk_read 7 (dev_drive sample_dev) \<and>
      dev_drive d1 = dev_drive sample_dev \<and> dv_ok d1) \<and>
    (\<exists>ok d1. ata_write ref_io \<lparr>disk_present = True, disk_sectors = 1000\<rparr> 7 1 (sector_words (\<lambda>_. 0)) sample_dev = Some (ok, d1) \<and>
      dv_ok d1 \<and> ok = fst (blk_write 7 (\<lambda>_. 0) (dev_drive sample_dev)) \<and>
      (\<forall>x i. x < 0x10000000 \<longrightarrow> i < 512 \<longrightarrow>
         drv_data (dev_drive d1) x i = drv_data (snd (blk_write 7 (\<lambda>_. 0) (dev_drive sample_dev))) x i))"
  by (rule ata_refines_blk [OF ref_io_compliant]) (simp_all add: sample_dev_ok)

text \<open>Sectors written are read back. On such a bus a transfer of any number of sectors that fits the disk and
  the 28-bit addresses succeeds, reading the same sectors afterwards returns the words that were
  written, and no other sector of the disk has changed.\<close>

theorem ata_write_read_back:
  assumes "ata_compliant E view" "dv_ok (view d)" "disk_present a"
    and "unat lba + unat n \<le> 2 ^ 28" "unat lba + unat n \<le> dv_size (view d)" "length p = 256 * unat n"
  shows "\<exists>d1 d2. ata_write E a lba n p d = Some (True, d1) \<and> ata_read E a lba n d1 = Some ((True, p), d2) \<and>
    (\<forall>x. x < unat lba \<or> unat lba + unat n \<le> x \<longrightarrow> dv_disk (view d2) x = dv_disk (view d) x)"
  by (rule ata_write_read [OF assms])

theorem ata_write_read_back_witness:
  "\<exists>d1 d2. ata_write ref_io \<lparr>disk_present = True, disk_sectors = 1000\<rparr> 7 3 (replicate 768 0x55AA) sample_dev = Some (True, d1) \<and>
    ata_read ref_io \<lparr>disk_present = True, disk_sectors = 1000\<rparr> 7 3 d1 = Some ((True, replicate 768 0x55AA), d2) \<and>
    (\<forall>x. x < unat (7 :: u32) \<or> unat (7 :: u32) + unat (3 :: u32) \<le> x \<longrightarrow> dv_disk d2 x = dv_disk sample_dev x)"
  by (rule ata_write_read_back [OF ref_io_compliant]) (simp_all add: sample_dev_ok)

text \<open>C39: Without a drive \<open>ata_init\<close> never returns. On a bus with nothing attached every status read gives 0xFF;
  the code means to report that no disk is there, but it first waits for a clear busy bit, which 0xFF
  never shows.\<close>

theorem ata_init_hangs_without_drive:
  assumes "\<forall>d. fst (p_in8 E ATA_STATUS d) = 0xFF"
  shows "ata_init E a d = None"
  by (simp add: ata_init_def wait_bsy_floating [OF assms])

definition floating_io :: "unit port_io" where
  "floating_io = \<lparr>p_in8 = (\<lambda>p d. (0xFF, d)), p_in16 = (\<lambda>p d. (0xFFFF, d)), p_in32 = (\<lambda>p d. (0xFFFFFFFF, d)),
     p_out8 = (\<lambda>p x d. d), p_out16 = (\<lambda>p x d. d), p_out32 = (\<lambda>p x d. d)\<rparr>"

theorem ata_init_hangs_without_drive_witness:
  "ata_init floating_io \<lparr>disk_present = False, disk_sectors = 0\<rparr> () = None"
  by (rule ata_init_hangs_without_drive) (simp add: floating_io_def)

end
