(* ===== verification/Panic.thy ===== *)
theory Panic
  imports Serial Mm
begin

text \<open>
  The panic handler of \<open>src/kernel/panic.c\<close>: the table of function symbols that \<open>symtab_init\<close> takes from the
  embedded ELF sections, the lookup of an address in it, and the report \<open>panic_impl\<close> writes to the
  serial line before it stops the machine. The memory the report reads is a function from the addresses
  of double words: nothing but the handler's own stack, below the dumped one, changes while it runs.
\<close>

section \<open>The symbol table\<close>

record elf32_sym =
  st_name :: u32
  st_value :: u32
  st_size :: u32
  st_info :: u8
  st_other :: u8
  st_shndx :: u16

text \<open>The section is an array of entries of 16 bytes.\<close>

definition raw_sym :: "bytes \<Rightarrow> nat \<Rightarrow> elf32_sym" where
  "raw_sym sec i =
     (let b = (\<lambda>k. sec ! (16 * i + k))
      in \<lparr>st_name = of_le32 (b 0) (b 1) (b 2) (b 3), st_value = of_le32 (b 4) (b 5) (b 6) (b 7),
          st_size = of_le32 (b 8) (b 9) (b 10) (b 11), st_info = b 12, st_other = b 13,
          st_shndx = of_le16 (b 14) (b 15)\<rparr>)"

definition raw_syms :: "bytes \<Rightarrow> elf32_sym list" where
  "raw_syms sec = map (raw_sym sec) [0..<length sec div 16]"

text \<open>\<open>name\<close> points into the copied string table, or at the literal \<open>"?"\<close>.\<close>

datatype name_ptr = In_Strtab u32 | Question_Mark

record sym_entry_t =
  sym_addr :: u32
  sym_size :: u32
  sym_name :: name_ptr

record symtab =
  g_syms :: "sym_entry_t list option"
  g_sym_count :: u32
  g_strtab :: "bytes option"
  g_strtab_sz :: u32

definition is_func :: "elf32_sym \<Rightarrow> bool" where
  "is_func s \<longleftrightarrow> st_info s AND 0xF = 2 \<and> st_shndx s \<noteq> 0 \<and> st_value s \<noteq> 0"

fun count_funcs :: "elf32_sym list \<Rightarrow> nat \<Rightarrow> nat" where
  "count_funcs [] n = n"
| "count_funcs (s # ss) n = (if n < 512 then count_funcs ss (if is_func s then n + 1 else n) else n)"

definition sym_entry :: "u32 \<Rightarrow> elf32_sym \<Rightarrow> sym_entry_t" where
  "sym_entry strtab_sz s = \<lparr>sym_addr = st_value s, sym_size = st_size s,
     sym_name = (if st_name s < strtab_sz then In_Strtab (st_name s) else Question_Mark)\<rparr>"

text \<open>The array is filled from index 0 on; \<open>n\<close> counts the entries that are left of \<open>func_count\<close>.\<close>

fun fill_syms :: "u32 \<Rightarrow> elf32_sym list \<Rightarrow> nat \<Rightarrow> sym_entry_t list" where
  "fill_syms sz [] n = []"
| "fill_syms sz (s # ss) n =
     (if n = 0 then [] else if is_func s then sym_entry sz s # fill_syms sz ss (n - 1) else fill_syms sz ss n)"

text \<open>
  \<open>while (j >= 0 && arr[j].addr > key.addr) { arr[j + 1] = arr[j]; j--; } arr[j + 1] = key;\<close> The second
  argument is \<open>j + 1\<close>.
\<close>

fun sort_shift :: "sym_entry_t \<Rightarrow> nat \<Rightarrow> sym_entry_t list \<Rightarrow> sym_entry_t list" where
  "sort_shift key 0 arr = arr[0 := key]"
| "sort_shift key (Suc j) arr =
     (if sym_addr key < sym_addr (arr ! j) then sort_shift key j (arr[Suc j := arr ! j]) else arr[Suc j := key])"

definition sort_syms :: "nat \<Rightarrow> sym_entry_t list \<Rightarrow> sym_entry_t list" where
  "sort_syms n arr = fold (\<lambda>i arr. sort_shift (arr ! i) i arr) [1..<n] arr"

definition symtab_init ::
  "'d port_io \<Rightarrow> bytes \<Rightarrow> bytes \<Rightarrow> heap \<times> symtab \<times> 'd \<Rightarrow> (heap \<times> symtab \<times> 'd) option" where
  "symtab_init E symsec strsec = (\<lambda>(h, g, d).
     (let raw = raw_syms symsec;
          strtab_sz = of_nat (length strsec) :: u32;
          say = (\<lambda>h g s. map_option (\<lambda>d1. (h, g, d1)) (serial_puts E (ascii s @ [10]) d))
      in if length raw = 0 \<or> strtab_sz = 0 then say h g ''[SYMTAB] symtab_init: no symbol table embedded''
         else case kmalloc (strtab_sz + 1) h of
           (None, h1) \<Rightarrow> say h1 (g\<lparr>g_strtab := None\<rparr>) ''[SYMTAB] symtab_init: kmalloc strtab failed''
         | (Some p, h1) \<Rightarrow>
             (let g1 = g\<lparr>g_strtab := Some (strsec @ [0]), g_strtab_sz := strtab_sz\<rparr>;
                  func_count = count_funcs raw 0
              in if func_count = 0 then say h1 g1 ''[SYMTAB] symtab_init: no function symbols found''
                 else case kmalloc (of_nat func_count * 12) h1 of
                   (None, h2) \<Rightarrow> say h2 (g1\<lparr>g_syms := None\<rparr>) ''[SYMTAB] symtab_init: kmalloc syms failed''
                 | (Some q, h2) \<Rightarrow>
                     (let arr = fill_syms strtab_sz raw func_count;
                          g2 = g1\<lparr>g_syms := Some (sort_syms (length arr) arr), g_sym_count := of_nat (length arr)\<rparr>
                      in map_option (\<lambda>d1. (h2, g2, d1))
                           (calls [serial_puts E (ascii ''[SYMTAB] symtab_init: loaded ''),
                                   serial_dec E (of_nat (length arr)),
                                   serial_puts E (ascii '' function symbols'' @ [10])] d)))))"

fun find_best :: "u32 \<Rightarrow> sym_entry_t option \<Rightarrow> sym_entry_t list \<Rightarrow> sym_entry_t option" where
  "find_best addr best [] = best"
| "find_best addr best (e # es) = (if sym_addr e \<le> addr then find_best addr (Some e) es else best)"

definition lookup_symbol :: "symtab \<Rightarrow> u32 \<Rightarrow> (name_ptr \<times> u32) option" where
  "lookup_symbol g addr =
     (case g_syms g of
        None \<Rightarrow> None
      | Some syms \<Rightarrow>
          if g_sym_count g = 0 then None
          else case find_best addr None (take (unat (g_sym_count g)) syms) of
            None \<Rightarrow> None
          | Some b \<Rightarrow>
              (let limit = (if sym_size b \<noteq> 0 then sym_addr b + sym_size b else sym_addr b + 0x10000)
               in if limit < addr then None else Some (sym_name b, addr - sym_addr b)))"

text \<open>The characters a name points at.\<close>

definition name_chars :: "symtab \<Rightarrow> name_ptr \<Rightarrow> bytes" where
  "name_chars g p = (case p of
     Question_Mark \<Rightarrow> [63]
   | In_Strtab i \<Rightarrow> (case g_strtab g of None \<Rightarrow> [] | Some s \<Rightarrow> drop (unat i) s))"

section \<open>The report\<close>

record panic_regs_t =
  p_eax :: u32
  p_ebx :: u32
  p_ecx :: u32
  p_edx :: u32
  p_esi :: u32
  p_edi :: u32
  p_ebp :: u32
  p_esp :: u32
  p_eip :: u32
  p_eflags :: u32
  p_cr0 :: u32
  p_cr2 :: u32
  p_cr3 :: u32

text \<open>Both flush bits of the line status: the holding register and the shift register are empty.\<close>

partial_function (option) serial_flush :: "'d port_io \<Rightarrow> 'd \<Rightarrow> 'd option" where
  "serial_flush E d =
     (let (s, d1) = p_in8 E (COM1_BASE + 5) d
      in if s AND 0x60 \<noteq> 0x60 then serial_flush E d1 else Some d1)"

text \<open>\<open>if (sym) { <sym+offset> } else { ... }\<close>, for both places that annotate an address.\<close>

definition put_symbol :: "'d port_io \<Rightarrow> symtab \<Rightarrow> u32 \<Rightarrow> bytes \<Rightarrow> 'd \<Rightarrow> 'd option" where
  "put_symbol E g addr unknown =
     (case lookup_symbol g addr of
        Some (nm, offset) \<Rightarrow> calls [serial_puts E (ascii ''  <''), serial_puts E (name_chars g nm),
          serial_puts E (ascii ''+''), serial_dec E offset, serial_puts E (ascii ''>'')]
      | None \<Rightarrow> serial_puts E unknown)"

abbreviation crlf :: bytes where "crlf \<equiv> [13, 10]"

definition reg_dump :: "'d port_io \<Rightarrow> panic_regs_t \<Rightarrow> 'd \<Rightarrow> 'd option" where
  "reg_dump E r = calls
     [serial_puts E (ascii ''[PANIC] Registers:'' @ crlf),
      serial_puts E (ascii ''  EAX=''), serial_hex32 E (p_eax r), serial_puts E (ascii ''  EBX=''), serial_hex32 E (p_ebx r),
      serial_puts E (ascii ''  ECX=''), serial_hex32 E (p_ecx r), serial_puts E (ascii ''  EDX=''), serial_hex32 E (p_edx r),
      serial_puts E crlf,
      serial_puts E (ascii ''  ESI=''), serial_hex32 E (p_esi r), serial_puts E (ascii ''  EDI=''), serial_hex32 E (p_edi r),
      serial_puts E (ascii ''  EBP=''), serial_hex32 E (p_ebp r), serial_puts E (ascii ''  ESP=''), serial_hex32 E (p_esp r),
      serial_puts E crlf,
      serial_puts E (ascii ''  EIP=''), serial_hex32 E (p_eip r),
      serial_puts E (ascii ''  EFLAGS=''), serial_hex32 E (p_eflags r),
      serial_puts E crlf,
      serial_puts E (ascii ''  CR0=''), serial_hex32 E (p_cr0 r), serial_puts E (ascii ''  CR2=''), serial_hex32 E (p_cr2 r),
      serial_puts E (ascii ''  CR3=''), serial_hex32 E (p_cr3 r),
      serial_puts E (crlf @ crlf)]"

text \<open>The double words of the stack that are left to dump, by their index from \<open>ESP\<close>.\<close>

fun stack_dump :: "'d port_io \<Rightarrow> symtab \<Rightarrow> (u32 \<Rightarrow> u32) \<Rightarrow> u32 \<Rightarrow> nat list \<Rightarrow> 'd \<Rightarrow> 'd option" where
  "stack_dump E g mem esp [] d = Some d"
| "stack_dump E g mem esp (i # is) d =
     (let a = esp + of_nat (4 * i)
      in if 0x04000000 \<le> a then Some d
         else do {
           d1 \<leftarrow> calls [serial_puts E (ascii ''  [ESP+''), serial_dec E (of_nat (i * 4)), serial_puts E (ascii ''] ''),
                  serial_hex32 E (mem a), put_symbol E g (mem a) [], serial_puts E crlf] d;
           stack_dump E g mem esp is d1
         })"

text \<open>The frames that are left to walk, by their number.\<close>

fun stack_trace :: "'d port_io \<Rightarrow> symtab \<Rightarrow> (u32 \<Rightarrow> u32) \<Rightarrow> u32 \<Rightarrow> nat list \<Rightarrow> 'd \<Rightarrow> 'd option" where
  "stack_trace E g mem ebp [] d = Some d"
| "stack_trace E g mem ebp (frame # fs) d =
     (if ebp = 0 \<or> ebp AND 3 \<noteq> 0 \<or> 0x04000000 \<le> ebp then Some d
      else let ret_addr = mem (ebp + 4); next_ebp = mem ebp
           in do {
             d1 \<leftarrow> calls [serial_puts E (ascii ''  #''), serial_dec E (of_nat frame), serial_puts E (ascii ''  ''),
                    serial_hex32 E ret_addr, put_symbol E g ret_addr (ascii ''  <unknown>''), serial_puts E crlf] d;
             if next_ebp \<le> ebp then Some d1 else stack_trace E g mem next_ebp fs d1
           })"

text \<open>The frame of the banner: three box-drawing characters in UTF-8.\<close>

definition box_line :: "u8 \<Rightarrow> u8 \<Rightarrow> bytes" where
  "box_line left right = [0xE2, 0x95, left] @ concat (replicate 58 [0xE2, 0x95, 0x90]) @ [0xE2, 0x95, right] @ crlf"

definition box_text :: bytes where
  "box_text = [0xE2, 0x95, 0x91] @ ascii ''              *** KERNEL PANIC ***                        '' @ [0xE2, 0x95, 0x91] @ crlf"

text \<open>
  The handler never returns: the result is \<open>EAX\<close> and the devices at the \<open>hlt\<close> loop it ends in.
  Interrupts stay disabled from the first instruction on.
\<close>

definition panic_impl ::
  "'d port_io \<Rightarrow> symtab \<Rightarrow> (u32 \<Rightarrow> u32) \<Rightarrow> bytes option \<Rightarrow> panic_regs_t \<Rightarrow> 'd \<Rightarrow> (u32 \<times> 'd) option" where
  "panic_impl E g mem msg r d = do {
     d1 \<leftarrow> calls
       [serial_puts E crlf,
        serial_puts E (box_line 0x94 0x97), serial_puts E box_text, serial_puts E (box_line 0x9A 0x9D),
        serial_puts E (ascii ''[PANIC] ''),
        serial_puts E (case msg of Some m \<Rightarrow> m | None \<Rightarrow> ascii ''(no message)''),
        serial_puts E (crlf @ crlf),
        reg_dump E r,
        serial_puts E (ascii ''[PANIC] Stack (top 32 dwords from ESP):'' @ crlf),
        stack_dump E g mem (p_esp r) [0..<32],
        serial_puts E crlf,
        serial_puts E (ascii ''[PANIC] Stack trace:'' @ crlf),
        stack_trace E g mem (p_ebp r) [0..<32],
        serial_puts E crlf,
        serial_puts E (ascii ''[PANIC] System halted.'' @ crlf),
        serial_flush E] d;
     Some (0xDEADC0DE, p_out8 E 0x501 0x31 d1)
   }"

end
