(* ===== verification/Panic_Spec.thy ===== *)
theory Panic_Spec
  imports Panic
begin

text \<open>
  What the panic handler promises: the symbols are sorted stably by address, a lookup finds the function
  around an address, and the report is written completely, with the call stack as its trace.
\<close>

section \<open>Sorting\<close>

definition insert_after :: "sym_entry_t \<Rightarrow> sym_entry_t list \<Rightarrow> sym_entry_t list" where
  "insert_after key es = takeWhile (\<lambda>e. sym_addr e \<le> sym_addr key) es @ key #
     dropWhile (\<lambda>e. sym_addr e \<le> sym_addr key) es"

lemma length_insert_after [simp]: "length (insert_after key es) = Suc (length es)"
proof -
  have "length (takeWhile P es) + length (dropWhile P es) = length es" for P
    by (metis length_append takeWhile_dropWhile_id)
  then show ?thesis by (simp add: insert_after_def)
qed

lemma takeWhile_snoc_false: "\<not> P x \<Longrightarrow> takeWhile P (xs @ [x]) = takeWhile P xs \<and> dropWhile P (xs @ [x]) = dropWhile P xs @ [x]"
  by (induction xs) auto

lemma sort_shift_eq:
  "j < length arr \<Longrightarrow> sorted (map sym_addr (take j arr)) \<Longrightarrow>
    sort_shift key j arr = insert_after key (take j arr) @ drop (Suc j) arr"
proof (induction j arbitrary: arr)
  case 0
  then show ?case by (cases arr) (simp_all add: insert_after_def)
next
  case (Suc j)
  have t: "take (Suc j) arr = take j arr @ [arr ! j]" using Suc.prems(1) by (simp add: take_Suc_conv_app_nth)
  show ?case
  proof (cases "sym_addr key < sym_addr (arr ! j)")
    case True
    let ?arr = "arr[Suc j := arr ! j]"
    have "sort_shift key j ?arr = insert_after key (take j ?arr) @ drop (Suc j) ?arr"
      by (rule Suc.IH) (use Suc.prems t in \<open>simp_all add: sorted_append\<close>)
    moreover have "drop (Suc j) ?arr = arr ! j # drop (Suc (Suc j)) arr"
      using Cons_nth_drop_Suc [OF Suc.prems(1), symmetric] by (simp add: drop_update_swap)
    ultimately show ?thesis
      using True takeWhile_snoc_false [of "\<lambda>e. sym_addr e \<le> sym_addr key" "arr ! j" "take j arr"]
      by (simp add: insert_after_def t)
  next
    case False
    have "\<forall>e \<in> set (take (Suc j) arr). sym_addr e \<le> sym_addr key"
    proof
      fix e assume "e \<in> set (take (Suc j) arr)"
      then have "sym_addr e \<le> sym_addr (arr ! j)" using Suc.prems(2) unfolding t by (auto simp: sorted_append)
      then show "sym_addr e \<le> sym_addr key" using False by simp
    qed
    then have "takeWhile (\<lambda>e. sym_addr e \<le> sym_addr key) (take (Suc j) arr) = take (Suc j) arr"
      "dropWhile (\<lambda>e. sym_addr e \<le> sym_addr key) (take (Suc j) arr) = []"
      by (simp_all only: takeWhile_eq_all_conv dropWhile_eq_Nil_conv)
    then have "insert_after key (take (Suc j) arr) = take (Suc j) arr @ [key]"
      unfolding insert_after_def by simp
    then show ?thesis using False Suc.prems(1) by (simp add: upd_conv_take_nth_drop)
  qed
qed

lemma sorted_takeWhile_filter:
  "sorted (map f es) \<Longrightarrow> takeWhile (\<lambda>e. f e \<le> a) es = filter (\<lambda>e. f e \<le> a) es"
  by (induction es) (auto intro!: filter_False [symmetric] dest: order_trans)

lemma sorted_dropWhile_filter:
  "sorted (map f es) \<Longrightarrow> dropWhile (\<lambda>e. f e \<le> a) es = filter (\<lambda>e. \<not> f e \<le> a) es"
  by (induction es) (auto intro!: filter_True [symmetric] dest: order_trans)

lemma sort_key_snoc: "sort_key sym_addr (es @ [e]) = insert_after e (sort_key sym_addr es)"
proof (rule properties_for_sort_key)
  let ?s = "sort_key sym_addr es"
  have so: "sorted (map sym_addr ?s)" by (rule sorted_sort_key)
  note F = sorted_takeWhile_filter [OF so] sorted_dropWhile_filter [OF so]
  have id: "takeWhile P ?s @ dropWhile P ?s = ?s" for P by simp
  have "mset (insert_after e ?s) = add_mset e (mset (takeWhile (\<lambda>x. sym_addr x \<le> sym_addr e) ?s) +
      mset (dropWhile (\<lambda>x. sym_addr x \<le> sym_addr e) ?s))"
    unfolding insert_after_def by simp
  also have "\<dots> = add_mset e (mset ?s)" unfolding mset_append [symmetric] id ..
  finally show "mset (insert_after e ?s) = mset (es @ [e])" by simp
  show "sorted (map sym_addr (insert_after e ?s))"
    using so by (auto simp: insert_after_def F sorted_append sorted_filter)
  show "filter (\<lambda>x. sym_addr k = sym_addr x) (insert_after e ?s) = filter (\<lambda>x. sym_addr k = sym_addr x) (es @ [e])"
    if "k \<in> set (insert_after e ?s)" for k
  proof -
    let ?P = "\<lambda>x. sym_addr k = sym_addr x"
    have st: "filter ?P ?s = filter ?P es" using sort_key_stable [of sym_addr "sym_addr k" es] by (simp add: eq_commute)
    show ?thesis
    proof (cases "sym_addr k = sym_addr e")
      case True
      then have "filter ?P (filter (\<lambda>x. \<not> sym_addr x \<le> sym_addr e) ?s) = []"
        "filter ?P (filter (\<lambda>x. sym_addr x \<le> sym_addr e) ?s) = filter ?P ?s"
        by (auto simp: filter_empty_conv intro!: filter_cong)
      then show ?thesis using True st by (simp add: insert_after_def F)
    next
      case False
      have "filter ?P (insert_after e ?s) = filter ?P (takeWhile (\<lambda>x. sym_addr x \<le> sym_addr e) ?s) @
          filter ?P (dropWhile (\<lambda>x. sym_addr x \<le> sym_addr e) ?s)"
        unfolding insert_after_def using False by simp
      also have "\<dots> = filter ?P ?s" unfolding filter_append [symmetric] id ..
      finally have "filter ?P (insert_after e ?s) = filter ?P ?s" .
      then show ?thesis using False st by simp
    qed
  qed
qed

lemma sort_syms_loop:
  assumes "0 < i" "i \<le> length es"
  shows "fold (\<lambda>i arr. sort_shift (arr ! i) i arr) [1..<i] es = sort_key sym_addr (take i es) @ drop i es"
  using assms
proof (induction i rule: nat_induct_non_zero)
  case 1
  then show ?case by (cases es) simp_all
next
  case (Suc i)
  let ?a = "sort_key sym_addr (take i es) @ drop i es"
  have IH: "fold (\<lambda>i arr. sort_shift (arr ! i) i arr) [1..<i] es = ?a" using Suc by simp
  have "[1..<Suc i] = [1..<i] @ [i]" using Suc.hyps by simp
  then have "fold (\<lambda>i arr. sort_shift (arr ! i) i arr) [1..<Suc i] es = sort_shift (?a ! i) i ?a"
    using IH by simp
  also have "\<dots> = insert_after (?a ! i) (take i ?a) @ drop (Suc i) ?a"
    by (rule sort_shift_eq) (use Suc.prems in simp_all)
  also have "take i ?a = sort_key sym_addr (take i es)" using Suc.prems by simp
  also have "?a ! i = es ! i" using Suc.prems by (simp add: nth_append)
  also have "drop (Suc i) ?a = drop (Suc i) es" using Suc.prems by (simp add: Suc_diff_le)
  also have "insert_after (es ! i) (sort_key sym_addr (take i es)) = sort_key sym_addr (take (Suc i) es)"
    using Suc.prems by (simp add: take_Suc_conv_app_nth sort_key_snoc)
  finally show ?case .
qed

lemma sort_syms_eq: "sort_syms (length es) es = sort_key sym_addr es"
proof (cases "es = []")
  case False
  then show ?thesis using sort_syms_loop [of "length es" es] by (simp add: sort_syms_def)
qed (simp add: sort_syms_def)

section \<open>Looking up an address\<close>

lemma find_best_eq:
  "find_best a best es =
     (let below = takeWhile (\<lambda>e. sym_addr e \<le> a) es in if below = [] then best else Some (last below))"
  by (induction es arbitrary: best) (auto simp: Let_def)

lemma count_funcs_eq: "n \<le> 512 \<Longrightarrow> count_funcs ss n = min 512 (n + length (filter is_func ss))"
  by (induction ss arbitrary: n) auto

lemma fill_syms_eq: "fill_syms sz ss n = map (sym_entry sz) (take n (filter is_func ss))"
proof (induction ss arbitrary: n)
  case (Cons s ss)
  then show ?case by (cases n) auto
qed simp

lemma sorted_le_last: "sorted (map f es) \<Longrightarrow> e \<in> set es \<Longrightarrow> f e \<le> f (last es)"
  by (induction es) auto

text \<open>The last entry at or below an address, if it is the only one between itself and the address.\<close>

lemma last_below:
  assumes "e \<in> set es" "sym_addr e \<le> a"
    and "\<forall>t \<in> set es. sym_addr e \<le> sym_addr t \<and> sym_addr t \<le> a \<longrightarrow> t = e"
  shows "find_best a None (sort_key sym_addr es) = Some e"
proof -
  let ?s = "sort_key sym_addr es" and ?P = "\<lambda>e. sym_addr e \<le> a"
  have so: "sorted (map sym_addr ?s)" by (rule sorted_sort_key)
  note F = sorted_takeWhile_filter [OF so]
  have e: "e \<in> set (filter ?P ?s)" using assms(1,2) by simp
  then have ne: "filter ?P ?s \<noteq> []" by (metis empty_iff empty_set)
  have "sym_addr e \<le> sym_addr (last (filter ?P ?s))" by (rule sorted_le_last [OF sorted_filter [OF so] e])
  moreover have "last (filter ?P ?s) \<in> set (filter ?P ?s)" by (rule last_in_set [OF ne])
  then have "last (filter ?P ?s) \<in> set es" "sym_addr (last (filter ?P ?s)) \<le> a" by simp_all
  ultimately have "last (filter ?P ?s) = e" using assms(3) by blast
  then show ?thesis using ne by (simp add: find_best_eq F)
qed

text \<open>The table that a successful \<open>symtab_init\<close> leaves.\<close>

definition loaded_symtab :: "bytes \<Rightarrow> bytes \<Rightarrow> symtab \<Rightarrow> symtab" where
  "loaded_symtab symsec strsec g =
     (let sz = of_nat (length strsec); es = map (sym_entry sz) (filter is_func (raw_syms symsec))
      in g\<lparr>g_syms := Some (sort_key sym_addr es), g_sym_count := of_nat (length es),
           g_strtab := Some (strsec @ [0]), g_strtab_sz := sz\<rparr>)"

lemma symtab_init_loads:
  assumes "uart_compliant E view" "\<not> ux_dlab (view d)" "heap_ok h"
    and "unat (bump_ptr h) + length strsec + 6152 \<le> unat HEAP_SIZE" "strsec \<noteq> []"
    and "filter is_func (raw_syms symsec) \<noteq> []" "length (filter is_func (raw_syms symsec)) \<le> 512"
  shows "\<exists>h1 d1. symtab_init E symsec strsec (h, g, d) = Some (h1, loaded_symtab symsec strsec g, d1) \<and> heap_ok h1"
proof -
  let ?fs = "filter is_func (raw_syms symsec)"
  let ?sz = "of_nat (length strsec) :: u32"
  have raw: "raw_syms symsec \<noteq> []" using assms(6) by (metis filter.simps(1))
  have sz: "unat ?sz = length strsec" by (rule unat_of_nat_eq) (use assms(4) in simp)
  have sz1: "unat (?sz + 1) = length strsec + 1" using sz assms(4) by (simp add: unat_word_ariths)
  have ne: "?sz \<noteq> 0" using sz assms(5) by (metis length_0_conv unsigned_0)
  have fc: "count_funcs (raw_syms symsec) 0 = length ?fs" using assms(7) by (simp add: count_funcs_eq)
  obtain h1 where h1: "kmalloc (?sz + 1) h = (Some (bump_ptr h), h1)" "heap_ok h1"
    "unat (bump_ptr h1) = unat (bump_ptr h) + (length strsec + 1 + 3) div 4 * 4"
  proof -
    have "unat (bump_ptr h) + (unat (?sz + 1) + 3) div 4 * 4 \<le> unat HEAP_SIZE"
      using div_times_less_eq_dividend [of "length strsec + 4" 4] assms(4) by (simp add: sz1)
    from kmalloc_cases(2) [OF assms(3) _ this] show ?thesis using that sz1 assms(4) by auto
  qed
  have n: "unat (of_nat (length ?fs) * 12 :: u32) = length ?fs * 12"
    using assms(7) by (simp add: unat_word_ariths unat_of_nat_eq)
  obtain h2 where h2: "kmalloc (of_nat (length ?fs) * 12) h1 = (Some (bump_ptr h1), h2)" "heap_ok h2"
  proof -
    have "unat (bump_ptr h1) + (unat (of_nat (length ?fs) * 12 :: u32) + 3) div 4 * 4 \<le> unat HEAP_SIZE"
      using div_times_less_eq_dividend [of "length strsec + 4" 4] div_times_less_eq_dividend [of "length ?fs * 12 + 3" 4]
        assms(4,7) unfolding n h1(3) by simp
    from kmalloc_cases(2) [OF h1(2) _ this] show ?thesis using that n assms(7) by auto
  qed
  let ?es = "map (sym_entry ?sz) ?fs"
  have P: "prints view (calls [serial_puts E (ascii ''[SYMTAB] symtab_init: loaded ''), serial_dec E (of_nat (length ?es)),
      serial_puts E (ascii '' function symbols'' @ [10])])
     (concat [tty (ascii ''[SYMTAB] symtab_init: loaded ''), dec_digits (unat (of_nat (length ?es) :: u32)),
       tty (ascii '' function symbols'' @ [10])])"
    by (rule prints_calls) (simp only: list_all2_Cons list_all2_Nil prints_puts [OF assms(1)] prints_dec [OF assms(1)] simp_thms)
  then obtain d1 where d1: "calls [serial_puts E (ascii ''[SYMTAB] symtab_init: loaded ''),
      serial_dec E (of_nat (length ?es)), serial_puts E (ascii '' function symbols'' @ [10])] d = Some d1"
    using printsD [OF P assms(2)] by blast
  have fill: "fill_syms ?sz (raw_syms symsec) (length ?fs) = ?es" by (simp add: fill_syms_eq)
  have "symtab_init E symsec strsec (h, g, d) = Some (h2, loaded_symtab symsec strsec g, d1)"
    using raw ne assms(6) d1 sort_syms_eq [of ?es]
    by (simp add: symtab_init_def fc h1(1) h2(1) fill loaded_symtab_def Let_def del: calls.simps)
  with h2(2) show ?thesis by blast
qed

lemma lookup_loaded:
  assumes "s \<in> set (filter is_func (raw_syms symsec))" "length (filter is_func (raw_syms symsec)) \<le> 512"
    and "\<forall>t \<in> set (filter is_func (raw_syms symsec)). st_value s \<le> st_value t \<and> st_value t \<le> a \<longrightarrow> t = s"
    and "st_value s \<le> a" "unat a \<le> unat (st_value s) + (if st_size s = 0 then 0x10000 else unat (st_size s))"
    and "unat (st_value s) + (if st_size s = 0 then 0x10000 else unat (st_size s)) < 2 ^ 32"
  shows "lookup_symbol (loaded_symtab symsec strsec g) a =
    Some (sym_name (sym_entry (of_nat (length strsec)) s), a - st_value s)"
proof -
  let ?fs = "filter is_func (raw_syms symsec)"
  let ?en = "sym_entry (of_nat (length strsec))"
  let ?es = "map ?en ?fs"
  have n: "unat (of_nat (length ?es) :: u32) = length ?es" by (rule unat_of_nat_eq) (use assms(2) in simp)
  have "?fs \<noteq> []" using assms(1) by (metis length_pos_if_in_set length_greater_0_conv)
  then have "?es \<noteq> []" by simp
  then have ne: "(of_nat (length ?es) :: u32) \<noteq> 0" using n by (metis length_0_conv unsigned_0)
  have best: "find_best a None (sort_key sym_addr ?es) = Some (?en s)"
    by (rule last_below) (use assms(1,3,4) in \<open>auto simp: sym_entry_def\<close>)
  have "\<not> (if st_size s \<noteq> 0 then st_value s + st_size s else st_value s + 0x10000) < a"
    using assms(5,6) by (auto simp: word_less_nat_alt unat_word_ariths split: if_splits)
  moreover have "find_best a None (take (unat (of_nat (length ?es) :: u32)) (sort_key sym_addr ?es)) = Some (?en s)"
    using best unfolding n by simp
  ultimately show ?thesis using ne
    by (simp only: lookup_symbol_def loaded_symtab_def Let_def option.case symtab.simps if_False)
      (auto simp: sym_entry_def split: if_splits)
qed

section \<open>The report\<close>

text \<open>The text that annotates an address.\<close>

definition symbol_text :: "symtab \<Rightarrow> u32 \<Rightarrow> bytes \<Rightarrow> bytes" where
  "symbol_text g a unknown = (case lookup_symbol g a of
     Some (nm, offset) \<Rightarrow> ascii ''  <'' @ tty (name_chars g nm) @ ascii ''+'' @ dec_digits (unat offset) @ ascii ''>''
   | None \<Rightarrow> unknown)"

definition trace_line :: "symtab \<Rightarrow> nat \<times> u32 \<Rightarrow> bytes" where
  "trace_line g = (\<lambda>(i, ret). ascii ''  #'' @ dec_digits i @ ascii ''  '' @ hex32 ret @
     symbol_text g ret (ascii ''  <unknown>'') @ tty crlf)"

definition dump_line :: "symtab \<Rightarrow> nat \<times> u32 \<Rightarrow> bytes" where
  "dump_line g = (\<lambda>(i, v). ascii ''  [ESP+'' @ dec_digits (i * 4) @ ascii ''] '' @ hex32 v @
     symbol_text g v [] @ tty crlf)"

text \<open>
  The return addresses of the frames that a walk from \<open>ebp\<close> visits: it stops at a frame pointer that
  is null, unaligned or beyond 64 MB, and behind a frame whose caller is not higher on the stack.
\<close>

definition frame_ok :: "u32 \<Rightarrow> bool" where
  "frame_ok ebp \<longleftrightarrow> ebp \<noteq> 0 \<and> ebp AND 3 = 0 \<and> ebp < 0x04000000"

fun backtrace :: "(u32 \<Rightarrow> u32) \<Rightarrow> nat \<Rightarrow> u32 \<Rightarrow> u32 list" where
  "backtrace mem 0 ebp = []"
| "backtrace mem (Suc n) ebp =
     (if frame_ok ebp then mem (ebp + 4) # (if ebp < mem ebp then backtrace mem n (mem ebp) else []) else [])"

definition stack_words :: "(u32 \<Rightarrow> u32) \<Rightarrow> u32 \<Rightarrow> nat list \<Rightarrow> (nat \<times> u32) list" where
  "stack_words mem esp is = map (\<lambda>i. (i, mem (esp + of_nat (4 * i))))
     (takeWhile (\<lambda>i. esp + of_nat (4 * i) < 0x04000000) is)"

definition field_text :: "string \<Rightarrow> u32 \<Rightarrow> bytes" where
  "field_text nm v = ascii ''  '' @ ascii nm @ ascii ''='' @ hex32 v"

definition reg_text :: "panic_regs_t \<Rightarrow> bytes" where
  "reg_text r = tty (ascii ''[PANIC] Registers:'' @ crlf) @
     field_text ''EAX'' (p_eax r) @ field_text ''EBX'' (p_ebx r) @ field_text ''ECX'' (p_ecx r) @ field_text ''EDX'' (p_edx r) @ tty crlf @
     field_text ''ESI'' (p_esi r) @ field_text ''EDI'' (p_edi r) @ field_text ''EBP'' (p_ebp r) @ field_text ''ESP'' (p_esp r) @ tty crlf @
     field_text ''EIP'' (p_eip r) @ field_text ''EFLAGS'' (p_eflags r) @ tty crlf @
     field_text ''CR0'' (p_cr0 r) @ field_text ''CR2'' (p_cr2 r) @ field_text ''CR3'' (p_cr3 r) @ tty crlf @ tty crlf"

definition banner_text :: "bytes option \<Rightarrow> bytes" where
  "banner_text msg = tty crlf @ tty (box_line 0x94 0x97) @ tty box_text @ tty (box_line 0x9A 0x9D) @
     ascii ''[PANIC] '' @ tty (case msg of Some m \<Rightarrow> m | None \<Rightarrow> ascii ''(no message)'') @ tty crlf @ tty crlf"

definition panic_text :: "symtab \<Rightarrow> (u32 \<Rightarrow> u32) \<Rightarrow> bytes option \<Rightarrow> panic_regs_t \<Rightarrow> bytes" where
  "panic_text g mem msg r = banner_text msg @ reg_text r @
     tty (ascii ''[PANIC] Stack (top 32 dwords from ESP):'' @ crlf) @
     concat (map (dump_line g) (stack_words mem (p_esp r) [0..<32])) @ tty crlf @
     tty (ascii ''[PANIC] Stack trace:'' @ crlf) @
     concat (map (trace_line g) (zip [0..<32] (backtrace mem 32 (p_ebp r)))) @ tty crlf @
     tty (ascii ''[PANIC] System halted.'' @ crlf)"

lemma prints_put_symbol:
  assumes "uart_compliant E view"
  shows "prints view (put_symbol E g a unknown) (symbol_text g a (tty unknown))"
proof (cases "lookup_symbol g a")
  case None
  then show ?thesis using prints_puts [OF assms, of unknown] by (simp add: put_symbol_def symbol_text_def)
next
  case (Some r)
  obtain nm offset where r: "r = (nm, offset)" by fastforce
  have lit: "tty (ascii ''  <'') = ascii ''  <''" "tty (ascii ''+'') = ascii ''+''" "tty (ascii ''>'') = ascii ''>''"
    by (simp_all add: ascii_def)
  have "prints view (calls [serial_puts E (ascii ''  <''), serial_puts E (name_chars g nm), serial_puts E (ascii ''+''),
      serial_dec E offset, serial_puts E (ascii ''>'')])
     (concat [tty (ascii ''  <''), tty (name_chars g nm), tty (ascii ''+''), dec_digits (unat offset), tty (ascii ''>'')])"
    by (rule prints_calls) (simp only: list_all2_Cons list_all2_Nil prints_puts [OF assms] prints_dec [OF assms] simp_thms)
  then show ?thesis using Some r by (simp add: put_symbol_def symbol_text_def lit del: calls.simps)
qed

lemma tty_literals:
  "tty (ascii ''  <unknown>'') = ascii ''  <unknown>''" "tty (ascii ''  #'') = ascii ''  #''" "tty (ascii ''  '') = ascii ''  ''"
  "tty (ascii ''  [ESP+'') = ascii ''  [ESP+''" "tty (ascii ''] '') = ascii ''] ''" "tty (ascii ''[PANIC] '') = ascii ''[PANIC] ''"
  by (simp_all add: ascii_def)

lemma prints_trace_step:
  assumes "uart_compliant E view" "i < 32"
  shows "prints view (calls [serial_puts E (ascii ''  #''), serial_dec E (of_nat i), serial_puts E (ascii ''  ''),
    serial_hex32 E ret, put_symbol E g ret (ascii ''  <unknown>''), serial_puts E crlf]) (trace_line g (i, ret))"
proof -
  have i: "unat (of_nat i :: u32) = i" by (rule unat_of_nat_eq) (use assms(2) in simp)
  have "prints view (calls [serial_puts E (ascii ''  #''), serial_dec E (of_nat i), serial_puts E (ascii ''  ''),
      serial_hex32 E ret, put_symbol E g ret (ascii ''  <unknown>''), serial_puts E crlf])
     (concat [tty (ascii ''  #''), dec_digits (unat (of_nat i :: u32)), tty (ascii ''  ''), hex32 ret,
       symbol_text g ret (tty (ascii ''  <unknown>'')), tty crlf])"
    by (rule prints_calls) (simp only: list_all2_Cons list_all2_Nil prints_puts [OF assms(1)] prints_dec [OF assms(1)]
        prints_hex32 [OF assms(1)] prints_put_symbol [OF assms(1)] simp_thms)
  then show ?thesis by (simp only: concat.simps tty_literals i trace_line_def prod.case append_assoc append_Nil2)
qed

lemma prints_dump_step:
  assumes "uart_compliant E view" "i < 32"
  shows "prints view (calls [serial_puts E (ascii ''  [ESP+''), serial_dec E (of_nat (i * 4)), serial_puts E (ascii ''] ''),
    serial_hex32 E v, put_symbol E g v [], serial_puts E crlf]) (dump_line g (i, v))"
proof -
  have i: "unat (of_nat (i * 4) :: u32) = i * 4" by (rule unat_of_nat_eq) (use assms(2) in simp)
  have "prints view (calls [serial_puts E (ascii ''  [ESP+''), serial_dec E (of_nat (i * 4)), serial_puts E (ascii ''] ''),
      serial_hex32 E v, put_symbol E g v [], serial_puts E crlf])
     (concat [tty (ascii ''  [ESP+''), dec_digits (unat (of_nat (i * 4) :: u32)), tty (ascii ''] ''), hex32 v,
       symbol_text g v (tty []), tty crlf])"
    by (rule prints_calls) (simp only: list_all2_Cons list_all2_Nil prints_puts [OF assms(1)] prints_dec [OF assms(1)]
        prints_hex32 [OF assms(1)] prints_put_symbol [OF assms(1)] simp_thms)
  then show ?thesis by (simp only: concat.simps tty_literals tty_Nil i dump_line_def prod.case append_assoc append_Nil2)
qed

lemma prints_stack_dump:
  assumes "uart_compliant E view" "\<forall>i \<in> set is. i < 32"
  shows "prints view (stack_dump E g mem esp is) (concat (map (dump_line g) (stack_words mem esp is)))"
  using assms(2)
proof (induction "is")
  case Nil
  then show ?case by (simp add: stack_words_def prints_def)
next
  case (Cons i "is")
  show ?case
  proof (cases "0x04000000 \<le> esp + of_nat (4 * i)")
    case True
    moreover from this have "\<not> esp + of_nat (4 * i) < 0x04000000" by (simp only: not_less)
    ultimately show ?thesis by (simp add: stack_words_def prints_def Let_def)
  next
    case False
    have "i < 32" using Cons.prems by simp
    have "stack_words mem esp (i # is) = (i, mem (esp + of_nat (4 * i))) # stack_words mem esp is"
      using False by (simp add: stack_words_def not_le)
    moreover have "stack_dump E g mem esp (i # is) = (\<lambda>d. do {
        d1 \<leftarrow> calls [serial_puts E (ascii ''  [ESP+''), serial_dec E (of_nat (i * 4)), serial_puts E (ascii ''] ''),
          serial_hex32 E (mem (esp + of_nat (4 * i))), put_symbol E g (mem (esp + of_nat (4 * i))) [], serial_puts E crlf] d;
        stack_dump E g mem esp is d1 })"
      by (rule ext) (simp only: stack_dump.simps Let_def False if_False)
    moreover have "prints view (stack_dump E g mem esp is) (concat (map (dump_line g) (stack_words mem esp is)))"
      by (rule Cons.IH) (use Cons.prems in simp)
    note prints_seq [OF prints_dump_step [OF assms(1) \<open>i < 32\<close>] this]
    ultimately show ?thesis by (simp only: list.map concat.simps)
  qed
qed

lemma prints_stack_trace:
  assumes "uart_compliant E view" "\<forall>i \<in> set is. i < 32"
  shows "prints view (stack_trace E g mem ebp is) (concat (map (trace_line g) (zip is (backtrace mem (length is) ebp))))"
  using assms(2)
proof (induction "is" arbitrary: ebp)
  case Nil
  then show ?case by (simp add: prints_def)
next
  case (Cons i "is")
  consider "\<not> frame_ok ebp" | "frame_ok ebp" "mem ebp \<le> ebp" | "frame_ok ebp" "ebp < mem ebp" by fastforce
  then show ?case
  proof cases
    case 1
    then have "ebp = 0 \<or> ebp AND 3 \<noteq> 0 \<or> 0x04000000 \<le> ebp" by (auto simp: frame_ok_def not_less)
    then show ?thesis using 1 by (simp add: prints_def)
  next
    case 2
    have ok: "\<not> (ebp = 0 \<or> ebp AND 3 \<noteq> 0 \<or> 0x04000000 \<le> ebp)" using 2 by (auto simp: frame_ok_def not_le)
    have "stack_trace E g mem ebp (i # is) = calls [serial_puts E (ascii ''  #''), serial_dec E (of_nat i),
        serial_puts E (ascii ''  ''), serial_hex32 E (mem (ebp + 4)),
        put_symbol E g (mem (ebp + 4)) (ascii ''  <unknown>''), serial_puts E crlf]"
      using 2 ok by (intro ext) (simp add: Let_def del: calls.simps)
    moreover have "backtrace mem (length (i # is)) ebp = [mem (ebp + 4)]" using 2 leD [OF 2(2)] by simp
    moreover have "i < 32" using Cons.prems by simp
    ultimately show ?thesis using prints_trace_step [OF assms(1), of i "mem (ebp + 4)" g]
      by (simp del: calls.simps backtrace.simps stack_trace.simps)
  next
    case 3
    have ok: "\<not> (ebp = 0 \<or> ebp AND 3 \<noteq> 0 \<or> 0x04000000 \<le> ebp)" using 3 by (auto simp: frame_ok_def not_le)
    have "stack_trace E g mem ebp (i # is) = (\<lambda>d. do { d1 \<leftarrow> calls [serial_puts E (ascii ''  #''), serial_dec E (of_nat i),
        serial_puts E (ascii ''  ''), serial_hex32 E (mem (ebp + 4)),
        put_symbol E g (mem (ebp + 4)) (ascii ''  <unknown>''), serial_puts E crlf] d; stack_trace E g mem (mem ebp) is d1 })"
      using 3 ok not_le [THEN iffD2, OF 3(2)] by (intro ext) (simp add: Let_def del: calls.simps)
    moreover have "backtrace mem (length (i # is)) ebp = mem (ebp + 4) # backtrace mem (length is) (mem ebp)" using 3 by simp
    moreover have "i < 32" using Cons.prems by simp
    moreover have "prints view (stack_trace E g mem (mem ebp) is)
        (concat (map (trace_line g) (zip is (backtrace mem (length is) (mem ebp)))))"
      by (rule Cons.IH) (use Cons.prems in simp)
    note prints_seq [OF prints_trace_step [OF assms(1) \<open>i < 32\<close>] this]
    ultimately show ?thesis by (simp only: zip_Cons_Cons list.map concat.simps)
  qed
qed

lemma prints_flush:
  assumes "uart_compliant E view"
  shows "prints view (serial_flush E) []"
  unfolding prints_def
proof (intro allI impI)
  fix d assume b: "\<not> ux_dlab (view d)"
  have "\<exists>d1. serial_flush E d = Some d1 \<and> ux_sent (view d1) = ux_sent (view d) \<and> ux_rx (view d1) = ux_rx (view d) \<and>
    ux_lcr (view d1) = ux_lcr (view d)"
  proof (induction "ux_full (view d) + ux_shift (view d)" arbitrary: d rule: less_induct)
    case less
    obtain d1 where d1: "p_in8 E 0x3FD d = (fst (ux_status (view d)), d1)" "view d1 = snd (ux_status (view d))"
      using uartD(1) [OF assms] by blast
    have v: "ux_sent (view d1) = ux_sent (view d)" "ux_rx (view d1) = ux_rx (view d)" "ux_lcr (view d1) = ux_lcr (view d)"
      by (simp_all add: d1(2) ux_status_def)
    show ?case
    proof (cases "ux_full (view d) = 0 \<and> ux_shift (view d) = 0")
      case True
      then have "fst (ux_status (view d)) AND 0x60 = 0x60" by (simp add: ux_status_def)
      then have "serial_flush E d = Some d1" using d1(1) by (subst serial_flush.simps) simp
      then show ?thesis using v by blast
    next
      case False
      then have "fst (ux_status (view d)) AND 0x60 \<noteq> 0x60" by (auto simp: ux_status_def)
      then have "serial_flush E d = serial_flush E d1" using d1(1) by (subst serial_flush.simps) simp
      moreover have "ux_full (view d1) + ux_shift (view d1) < ux_full (view d) + ux_shift (view d)"
        using False by (auto simp: d1(2) ux_status_def)
      ultimately show ?thesis using less [of d1] v by simp
    qed
  qed
  then show "\<exists>d1. serial_flush E d = Some d1 \<and> \<not> ux_dlab (view d1) \<and> ux_sent (view d1) = ux_sent (view d) @ [] \<and>
      ux_rx (view d1) = ux_rx (view d)" using b by (auto simp: ux_dlab_def)
qed

lemma tty_fields:
  "tty (ascii ''  EAX='') = ascii ''  EAX=''" "tty (ascii ''  EBX='') = ascii ''  EBX=''" "tty (ascii ''  ECX='') = ascii ''  ECX=''"
  "tty (ascii ''  EDX='') = ascii ''  EDX=''" "tty (ascii ''  ESI='') = ascii ''  ESI=''" "tty (ascii ''  EDI='') = ascii ''  EDI=''"
  "tty (ascii ''  EBP='') = ascii ''  EBP=''" "tty (ascii ''  ESP='') = ascii ''  ESP=''" "tty (ascii ''  EIP='') = ascii ''  EIP=''"
  "tty (ascii ''  EFLAGS='') = ascii ''  EFLAGS=''" "tty (ascii ''  CR0='') = ascii ''  CR0=''"
  "tty (ascii ''  CR2='') = ascii ''  CR2=''" "tty (ascii ''  CR3='') = ascii ''  CR3=''"
  by (simp_all add: ascii_def)

lemma prints_reg_dump:
  assumes "uart_compliant E view"
  shows "prints view (reg_dump E r) (reg_text r)"
proof -
  have "prints view (reg_dump E r) (concat
    [tty (ascii ''[PANIC] Registers:'' @ crlf),
     tty (ascii ''  EAX=''), hex32 (p_eax r), tty (ascii ''  EBX=''), hex32 (p_ebx r),
     tty (ascii ''  ECX=''), hex32 (p_ecx r), tty (ascii ''  EDX=''), hex32 (p_edx r), tty crlf,
     tty (ascii ''  ESI=''), hex32 (p_esi r), tty (ascii ''  EDI=''), hex32 (p_edi r),
     tty (ascii ''  EBP=''), hex32 (p_ebp r), tty (ascii ''  ESP=''), hex32 (p_esp r), tty crlf,
     tty (ascii ''  EIP=''), hex32 (p_eip r), tty (ascii ''  EFLAGS=''), hex32 (p_eflags r), tty crlf,
     tty (ascii ''  CR0=''), hex32 (p_cr0 r), tty (ascii ''  CR2=''), hex32 (p_cr2 r),
     tty (ascii ''  CR3=''), hex32 (p_cr3 r), tty (crlf @ crlf)])"
    unfolding reg_dump_def
    by (rule prints_calls) (simp only: list_all2_Cons list_all2_Nil prints_puts [OF assms] prints_hex32 [OF assms] simp_thms)
  moreover have "ascii ''  '' @ ascii nm @ ascii ''='' = ascii (''  '' @ nm @ ''='')" for nm by (simp add: ascii_def)
  then have f: "field_text nm v = ascii (''  '' @ nm @ ''='') @ hex32 v" for nm v
    by (simp only: field_text_def append_assoc [symmetric])
  have "tty (crlf @ crlf) = tty crlf @ tty crlf" by simp
  ultimately show ?thesis by (simp only: tty_fields reg_text_def f concat.simps append_assoc append_Nil2 append_Cons append_Nil)
qed

lemma panic_reports:
  assumes "uart_compliant E view" "\<not> ux_dlab (view d)"
  shows "\<exists>d1. panic_impl E g mem msg r d = Some (0xDEADC0DE, d1) \<and>
    ux_sent (view d1) = ux_sent (view d) @ panic_text g mem msg r"
proof -
  let ?m = "case msg of Some m \<Rightarrow> m | None \<Rightarrow> ascii ''(no message)''"
  let ?trace = "concat (map (trace_line g) (zip [0..<32] (backtrace mem (length [0..<32]) (p_ebp r))))"
  let ?fs = "[serial_puts E crlf, serial_puts E (box_line 0x94 0x97), serial_puts E box_text, serial_puts E (box_line 0x9A 0x9D),
        serial_puts E (ascii ''[PANIC] ''), serial_puts E ?m, serial_puts E (crlf @ crlf), reg_dump E r,
        serial_puts E (ascii ''[PANIC] Stack (top 32 dwords from ESP):'' @ crlf), stack_dump E g mem (p_esp r) [0..<32],
        serial_puts E crlf, serial_puts E (ascii ''[PANIC] Stack trace:'' @ crlf), stack_trace E g mem (p_ebp r) [0..<32],
        serial_puts E crlf, serial_puts E (ascii ''[PANIC] System halted.'' @ crlf), serial_flush E]"
  have b: "\<forall>i \<in> set [0..<32]. i < (32 :: nat)" by simp
  have P: "prints view (calls ?fs) (concat
    [tty crlf, tty (box_line 0x94 0x97), tty box_text, tty (box_line 0x9A 0x9D), tty (ascii ''[PANIC] ''), tty ?m,
     tty (crlf @ crlf), reg_text r, tty (ascii ''[PANIC] Stack (top 32 dwords from ESP):'' @ crlf),
     concat (map (dump_line g) (stack_words mem (p_esp r) [0..<32])), tty crlf,
     tty (ascii ''[PANIC] Stack trace:'' @ crlf), ?trace, tty crlf, tty (ascii ''[PANIC] System halted.'' @ crlf), []])"
    by (rule prints_calls) (simp only: list_all2_Cons list_all2_Nil prints_puts [OF assms(1)] prints_reg_dump [OF assms(1)]
        prints_stack_dump [OF assms(1) b] prints_stack_trace [OF assms(1) b] prints_flush [OF assms(1)] simp_thms)
  obtain d1 where d1: "calls ?fs d = Some d1" "ux_sent (view d1) = ux_sent (view d) @ concat
    [tty crlf, tty (box_line 0x94 0x97), tty box_text, tty (box_line 0x9A 0x9D), tty (ascii ''[PANIC] ''), tty ?m,
     tty (crlf @ crlf), reg_text r, tty (ascii ''[PANIC] Stack (top 32 dwords from ESP):'' @ crlf),
     concat (map (dump_line g) (stack_words mem (p_esp r) [0..<32])), tty crlf,
     tty (ascii ''[PANIC] Stack trace:'' @ crlf), ?trace, tty crlf, tty (ascii ''[PANIC] System halted.'' @ crlf), []]"
    using printsD [OF P assms(2)] by blast
  have nl: "tty (crlf @ crlf) = tty crlf @ tty crlf" by simp
  have ln: "length [0..<32 :: nat] = 32" by (rule trans [OF length_upt]) simp
  have "panic_impl E g mem msg r d = Some (0xDEADC0DE, p_out8 E 0x501 0x31 d1)"
    unfolding panic_impl_def by (simp only: d1(1) Option.bind.bind_lunit)
  moreover have "ux_sent (view (p_out8 E 0x501 0x31 d1)) = ux_sent (view d1)"
    by (simp add: uartD(3) [OF assms(1)] ux_out8_def)
  moreover have "ux_sent (view d1) = ux_sent (view d) @ panic_text g mem msg r"
    unfolding d1(2) panic_text_def banner_text_def nl ln
    by (simp only: concat.simps append_assoc append_Nil2 tty_literals)
  ultimately show ?thesis by (intro exI [of _ "p_out8 E 0x501 0x31 d1"]) (simp only: simp_thms)
qed

text \<open>
  The call stack: from the innermost frame on, the frame pointer and the return address of every active
  function. Each frame holds the frame pointer of its caller, which lies above it; the outermost
  frame, of the boot code, holds a null pointer.
\<close>

fun call_stack :: "(u32 \<Rightarrow> u32) \<Rightarrow> u32 \<Rightarrow> (u32 \<times> u32) list \<Rightarrow> bool" where
  "call_stack mem ebp [] \<longleftrightarrow> ebp = 0"
| "call_stack mem ebp ((e, ret) # fs) \<longleftrightarrow> ebp = e \<and> frame_ok e \<and> mem (e + 4) = ret \<and> call_stack mem (mem e) fs \<and>
     (fs \<noteq> [] \<longrightarrow> e < mem e)"

lemma backtrace_call_stack: "call_stack mem ebp fs \<Longrightarrow> backtrace mem n ebp = take n (map snd fs)"
proof (induction fs arbitrary: n ebp)
  case Nil
  then show ?case by (cases n) (simp_all add: frame_ok_def)
next
  case (Cons f fs)
  obtain e ret where f: "f = (e, ret)" by fastforce
  show ?case
  proof (cases n)
    case (Suc m)
    have "backtrace mem m (mem e) = take m (map snd fs)" using Cons by (auto simp: f)
    then show ?thesis using Cons.prems by (cases "fs = []") (auto simp: f Suc)
  qed simp
qed

section \<open>Properties\<close>

text \<open>C31: A panic is reported completely. Whatever the registers, the memory and the message are, and however
  long the serial line is busy, \<open>panic_impl\<close> reaches the \<open>hlt\<close> loop with \<open>0xDEADC0DE\<close> in \<open>EAX\<close>, and what
  it has sent is the banner with the message, all registers, the words on the stack below 64 MB, and the
  trace; when the frame pointers form a call stack, the trace lists the return addresses of its
  innermost 32 functions in order, each with the name and offset that the symbol lookup gives.\<close>

theorem panic_impl_reports:
  assumes "uart_compliant E view" "\<not> ux_dlab (view d)"
  shows "(\<exists>d1. panic_impl E g mem msg r d = Some (0xDEADC0DE, d1) \<and>
      ux_sent (view d1) = ux_sent (view d) @ panic_text g mem msg r) \<and>
    (\<forall>fs. call_stack mem (p_ebp r) fs \<longrightarrow> backtrace mem 32 (p_ebp r) = take 32 (map snd fs))"
  using panic_reports [OF assms] backtrace_call_stack by blast

definition sample_uart :: uart_dev where
  "sample_uart = \<lparr>ux_sent = [], ux_rx = [], ux_full = 1, ux_shift = 0, ux_delays = [(2, 5), (0, 1)], ux_lcr = 0x03,
     ux_div_lo = 1, ux_div_hi = 0\<rparr>"

definition sample_regs :: panic_regs_t where
  "sample_regs = \<lparr>p_eax = 1, p_ebx = 2, p_ecx = 3, p_edx = 4, p_esi = 5, p_edi = 6, p_ebp = 0x1000, p_esp = 0xFF0,
     p_eip = 0x100010, p_eflags = 2, p_cr0 = 0x11, p_cr2 = 0, p_cr3 = 0\<rparr>"

definition sample_stack :: "u32 \<Rightarrow> u32" where
  "sample_stack = (\<lambda>_. 0)(0x1000 := 0x1020, 0x1004 := 0x100123, 0x1024 := 0x100456)"

theorem panic_impl_reports_witness:
  "(\<exists>d1. panic_impl uart_io \<lparr>g_syms = None, g_sym_count = 0, g_strtab = None, g_strtab_sz = 0\<rparr> sample_stack None
        sample_regs sample_uart = Some (0xDEADC0DE, d1) \<and>
      ux_sent d1 = ux_sent sample_uart @ panic_text \<lparr>g_syms = None, g_sym_count = 0, g_strtab = None, g_strtab_sz = 0\<rparr>
        sample_stack None sample_regs) \<and>
    backtrace sample_stack 32 (p_ebp sample_regs) = [0x100123, 0x100456]"
proof -
  have "\<not> ux_dlab sample_uart" by (simp add: ux_dlab_def sample_uart_def)
  note P = panic_impl_reports [OF uart_io_compliant this, of "\<lparr>g_syms = None, g_sym_count = 0, g_strtab = None, g_strtab_sz = 0\<rparr>"
      sample_stack None sample_regs]
  have "call_stack sample_stack (p_ebp sample_regs) [(0x1000, 0x100123), (0x1020, 0x100456)]"
    by (simp add: sample_stack_def sample_regs_def frame_ok_def)
  from mp [OF spec [OF conjunct2 [OF P]] this] conjunct1 [OF P] show ?thesis by simp
qed

text \<open>C30: Addresses are attributed to the function they are in. After \<open>symtab_init\<close> on a heap with room and a
  symbol section with at most 512 defined functions, looking up an address of a function (of the 64 KB
  behind it, if its size is 0), when no other function starts between the two, finds this function: the
  name is the one the ELF string table has for it, and the offset is the distance from its start. The
  address directly behind the function counts as well: it is the return address of a final call.\<close>

theorem symtab_finds_function:
  assumes "uart_compliant E view" "\<not> ux_dlab (view d)" "heap_ok h"
    and "unat (bump_ptr h) + length strsec + 6152 \<le> unat HEAP_SIZE"
    and "s \<in> set (filter is_func (raw_syms symsec))" "length (filter is_func (raw_syms symsec)) \<le> 512"
    and "unat (st_name s) < length strsec"
    and "st_value s \<le> a" "unat a \<le> unat (st_value s) + (if st_size s = 0 then 0x10000 else unat (st_size s))"
    and "unat (st_value s) + (if st_size s = 0 then 0x10000 else unat (st_size s)) < 2 ^ 32"
    and "\<forall>t \<in> set (filter is_func (raw_syms symsec)). st_value s \<le> st_value t \<and> st_value t \<le> a \<longrightarrow> t = s"
  shows "\<exists>h1 g1 d1 nm. symtab_init E symsec strsec (h, g, d) = Some (h1, g1, d1) \<and>
    lookup_symbol g1 a = Some (nm, a - st_value s) \<and>
    c_string (name_chars g1 nm) = c_string (drop (unat (st_name s)) strsec)"
proof -
  have ne: "filter is_func (raw_syms symsec) \<noteq> []" using assms(5) by (metis length_pos_if_in_set length_greater_0_conv)
  obtain h1 d1 where i: "symtab_init E symsec strsec (h, g, d) = Some (h1, loaded_symtab symsec strsec g, d1)"
    using symtab_init_loads [OF assms(1-4) _ ne assms(6)] assms(7) by fastforce
  have "unat (of_nat (length strsec) :: u32) = length strsec" by (rule unat_of_nat_eq) (use assms(4) in simp)
  then have "sym_name (sym_entry (of_nat (length strsec)) s) = In_Strtab (st_name s)"
    using assms(7) by (simp add: sym_entry_def word_less_nat_alt)
  moreover have "c_string (name_chars (loaded_symtab symsec strsec g) (In_Strtab (st_name s)))
      = c_string (drop (unat (st_name s)) strsec)"
    using assms(7) by (simp add: name_chars_def loaded_symtab_def Let_def c_string_def takeWhile_tail)
  ultimately show ?thesis using i lookup_loaded [OF assms(5,6,11,8-10)] by auto
qed

text \<open>One data symbol and two functions out of order, \<open>f\<close> at 0x100000 and \<open>go\<close> at 0x100100, with their names.\<close>

definition sample_symsec :: bytes where
  "sample_symsec = le32 3 @ le32 0x100100 @ le32 0x40 @ [0x12, 0] @ le16 1 @
     le32 1 @ le32 0x200000 @ le32 4 @ [0x11, 0] @ le16 2 @
     le32 1 @ le32 0x100000 @ le32 0x80 @ [0x12, 0] @ le16 1"

definition sample_strsec :: bytes where
  "sample_strsec = 0 # ascii ''f'' @ 0 # ascii ''go'' @ [0]"

lemma sample_raw_syms:
  "raw_syms sample_symsec =
    [\<lparr>st_name = 3, st_value = 0x100100, st_size = 0x40, st_info = 0x12, st_other = 0, st_shndx = 1\<rparr>,
     \<lparr>st_name = 1, st_value = 0x200000, st_size = 4, st_info = 0x11, st_other = 0, st_shndx = 2\<rparr>,
     \<lparr>st_name = 1, st_value = 0x100000, st_size = 0x80, st_info = 0x12, st_other = 0, st_shndx = 1\<rparr>]"
  by code_simp

theorem symtab_finds_function_witness:
  "\<exists>h1 g1 d1 nm. symtab_init uart_io sample_symsec sample_strsec
      (heap0, \<lparr>g_syms = None, g_sym_count = 0, g_strtab = None, g_strtab_sz = 0\<rparr>, sample_uart) = Some (h1, g1, d1) \<and>
    lookup_symbol g1 0x100123 = Some (nm, 0x23) \<and> c_string (name_chars g1 nm) = ascii ''go''"
proof -
  let ?s = "\<lparr>st_name = 3, st_value = 0x100100, st_size = 0x40, st_info = 0x12, st_other = 0, st_shndx = 1\<rparr>"
  have f: "filter is_func (raw_syms sample_symsec) =
      [?s, \<lparr>st_name = 1, st_value = 0x100000, st_size = 0x80, st_info = 0x12, st_other = 0, st_shndx = 1\<rparr>]"
    unfolding sample_raw_syms by (simp add: is_func_def)
  have "\<not> ux_dlab sample_uart" by (simp add: ux_dlab_def sample_uart_def)
  note S = symtab_finds_function [OF uart_io_compliant this, where h = heap0 and strsec = sample_strsec and s = ?s
      and symsec = sample_symsec and a = "0x100123"
      and g = "\<lparr>g_syms = None, g_sym_count = 0, g_strtab = None, g_strtab_sz = 0\<rparr>", unfolded f]
  have "c_string (drop (unat (st_name ?s)) sample_strsec) = ascii ''go''"
    by (simp add: sample_strsec_def ascii_def c_string_def)
  with S show ?thesis by (simp add: heap0_def heap_ok_def sample_strsec_def ascii_def)
qed

text \<open>C0: The insertion sort of the symbol table is a stable sort by address: it gives the same array as the
  library's \<open>sort_key\<close>, so symbols at the same address keep their order.\<close>

theorem sort_syms_stable: "sort_syms (length es) es = sort_key sym_addr es"
  by (rule sort_syms_eq)

end
