(* ===== verification/Interrupts.thy ===== *)
theory Interrupts
  imports Port_Io
begin

text \<open>
  The interrupt table and the interrupt controllers (\<open>src/kernel/idt.c\<close>) and the millisecond timer
  (\<open>src/kernel/timer.c\<close>). The addresses of the assembler's handlers and of the table are link-time constants,
  and the time stamp counter is a parameter. The two 8259A controllers and channel 0 of the PIT are given
  as a reference machine that the properties speak about.
\<close>

section \<open>The interrupt table\<close>

record idt_entry_t =
  offset_lo :: u16
  selector :: u16
  zero :: u8
  type_attr :: u8
  offset_hi :: u16

record idtr_t =
  limit :: u16
  idt_base :: u32

text \<open>The table, the descriptor of it, and the descriptor register of the CPU, once \<open>lidt\<close> has set it.\<close>

record idt =
  g_idt :: "idt_entry_t list"
  g_idtr :: idtr_t
  cpu_idtr :: "idtr_t option"

record idt_syms =
  irq0_handler_addr :: u32
  irq_spurious_handler_addr :: u32
  yield_int_handler_addr :: u32
  g_idt_addr :: u32

abbreviation IDT_INT_GATE_RING0 :: u8 where "IDT_INT_GATE_RING0 \<equiv> 0x8E"

definition idt_set_gate :: "u8 \<Rightarrow> u32 \<Rightarrow> u16 \<Rightarrow> u8 \<Rightarrow> idt \<Rightarrow> idt" where
  "idt_set_gate vector addr sel ta t = t\<lparr>g_idt := (g_idt t)[unat vector :=
     \<lparr>offset_lo = ucast (addr AND 0xFFFF), selector = sel, zero = 0, type_attr = ta,
      offset_hi = ucast (drop_bit 16 addr AND 0xFFFF)\<rparr>]\<rparr>"

abbreviation PIC1_CMD :: u16 where "PIC1_CMD \<equiv> 0x20"
abbreviation PIC1_DATA :: u16 where "PIC1_DATA \<equiv> 0x21"
abbreviation PIC2_CMD :: u16 where "PIC2_CMD \<equiv> 0xA0"
abbreviation PIC2_DATA :: u16 where "PIC2_DATA \<equiv> 0xA1"
abbreviation PIT_CH0_DATA :: u16 where "PIT_CH0_DATA \<equiv> 0x40"
abbreviation PIT_CMD_PORT :: u16 where "PIT_CMD_PORT \<equiv> 0x43"

text \<open>\<open>outb(port, v); io_wait();\<close>\<close>

definition out_wait :: "u16 \<Rightarrow> u8 \<Rightarrow> (u16 \<times> u8) list" where
  "out_wait p v = [(p, v), (0x80, 0x00)]"

definition pic_remap :: "'d port_io \<Rightarrow> u8 \<Rightarrow> u8 \<Rightarrow> 'd \<Rightarrow> 'd" where
  "pic_remap E master_offset slave_offset d =
     (let (mask1, d1) = p_in8 E PIC1_DATA d;
          (mask2, d2) = p_in8 E PIC2_DATA d1
      in out8_list E (out_wait PIC1_CMD 0x11 @ out_wait PIC2_CMD 0x11 @
           out_wait PIC1_DATA master_offset @ out_wait PIC2_DATA slave_offset @
           out_wait PIC1_DATA 0x04 @ out_wait PIC2_DATA 0x02 @
           out_wait PIC1_DATA 0x01 @ out_wait PIC2_DATA 0x01 @
           [(PIC1_DATA, mask1), (PIC2_DATA, mask2)]) d2)"

definition pit_init :: "'d port_io \<Rightarrow> u16 \<Rightarrow> 'd \<Rightarrow> 'd" where
  "pit_init E divisor d = out8_list E
     [(PIT_CMD_PORT, 0x36), (PIT_CH0_DATA, ucast (divisor AND 0xFF)), (PIT_CH0_DATA, ucast (drop_bit 8 divisor))] d"

definition idt_init :: "'d port_io \<Rightarrow> idt_syms \<Rightarrow> idt \<times> 'd \<Rightarrow> idt \<times> 'd" where
  "idt_init E y = (\<lambda>(t, d).
     (let t1 = fold (\<lambda>i. idt_set_gate (ucast i) (irq_spurious_handler_addr y) 0x10 IDT_INT_GATE_RING0) (range32 0 256) t;
          d1 = out8_list E [(PIC1_DATA, 0xFF), (PIC2_DATA, 0xFF)] (pic_remap E 0x20 0x28 d);
          t2 = idt_set_gate 0x20 (irq0_handler_addr y) 0x10 IDT_INT_GATE_RING0 t1;
          t3 = idt_set_gate 0x30 (yield_int_handler_addr y) 0x10 IDT_INT_GATE_RING0 t2;
          d2 = pit_init E 11932 (p_out8 E PIC1_DATA 0xFE d1);
          r = \<lparr>limit = 8 * 256 - 1, idt_base = g_idt_addr y\<rparr>
      in (t3\<lparr>g_idtr := r, cpu_idtr := Some r\<rparr>, d2)))"

definition idt_eoi :: "'d port_io \<Rightarrow> u8 \<Rightarrow> 'd \<Rightarrow> 'd" where
  "idt_eoi E irq d = p_out8 E PIC1_CMD 0x20 (if 8 \<le> irq then p_out8 E PIC2_CMD 0x20 d else d)"

section \<open>The timer\<close>

record timer =
  g_ms_ticks :: u32
  g_ticks_per_ms :: u32

abbreviation PIT_CH2_DATA :: u16 where "PIT_CH2_DATA \<equiv> 0x42"
abbreviation PIT_GATE_PORT :: u16 where "PIT_GATE_PORT \<equiv> 0x61"
abbreviation PIT_10MS_COUNT :: u32 where "PIT_10MS_COUNT \<equiv> 11932"

text \<open>\<open>rdtsc\<close> gives the low and the high half of the counter.\<close>

type_synonym 'd rdtsc = "'d \<Rightarrow> (u32 \<times> u32) \<times> 'd"

partial_function (option) wait_gate :: "'d port_io \<Rightarrow> 'd \<Rightarrow> 'd option" where
  "wait_gate E d =
     (let (v, d1) = p_in8 E PIT_GATE_PORT d
      in if v AND 0x20 = 0 then wait_gate E d1 else Some d1)"

definition timer_init :: "'d port_io \<Rightarrow> 'd rdtsc \<Rightarrow> timer \<times> 'd \<Rightarrow> (timer \<times> 'd) option" where
  "timer_init E T = (\<lambda>(t, d).
     (let (gate, d1) = p_in8 E PIT_GATE_PORT d;
          d2 = out8_list E [(PIT_GATE_PORT, gate AND 0xFE), (0x43, 0xB0), (PIT_CH2_DATA, ucast (PIT_10MS_COUNT AND 0xFF)),
                 (PIT_CH2_DATA, ucast (drop_bit 8 PIT_10MS_COUNT))] d1;
          ((start_lo, start_hi), d3) = T d2
      in do {
        d4 \<leftarrow> wait_gate E (p_out8 E PIT_GATE_PORT ((gate AND 0xFE) OR 0x01) d3);
        let ((end_lo, end_hi), d5) = T d4;
            delta = end_lo - start_lo
        in Some (t\<lparr>g_ms_ticks := 0, g_ticks_per_ms := (if delta div 10 = 0 then 1 else delta div 10)\<rparr>,
                 p_out8 E PIT_GATE_PORT (gate AND 0xFE) d5)
      }))"

definition timer_irq_tick :: "timer \<Rightarrow> timer" where
  "timer_irq_tick t = t\<lparr>g_ms_ticks := g_ms_ticks t + 10\<rparr>"

definition timer_ms :: "timer \<Rightarrow> u32" where
  "timer_ms t = g_ms_ticks t"

definition timer_tsc :: "'d rdtsc \<Rightarrow> 'd \<Rightarrow> u64 \<times> 'd" where
  "timer_tsc T d = (let ((lo, hi), d1) = T d in (push_bit 32 (ucast hi) OR ucast lo, d1))"

definition timer_ticks_per_ms :: "timer \<Rightarrow> u32" where
  "timer_ticks_per_ms t = g_ticks_per_ms t"

section \<open>A reference machine\<close>

text \<open>
  An 8259A: the interrupt vector base, the mask, the lines in service, and the initialisation word it
  expects next (0: none, 2 to 4: \<open>ICW2\<close> to \<open>ICW4\<close>). A write of 0x20 to the command port ends the
  interrupt of the highest priority in service.
\<close>

record pic =
  pc_base :: u8
  pc_mask :: u8
  pc_service :: "nat list"
  pc_icw :: nat

text \<open>\<open>pc_service\<close> lists the lines in service, the highest priority first.\<close>

definition pic_cmd :: "u8 \<Rightarrow> pic \<Rightarrow> pic" where
  "pic_cmd x c =
     (if x AND 0x10 \<noteq> 0 then c\<lparr>pc_mask := 0, pc_service := [], pc_icw := 2\<rparr>
      else if x = 0x20 then c\<lparr>pc_service := tl (pc_service c)\<rparr> else c)"

definition pic_data :: "u8 \<Rightarrow> pic \<Rightarrow> pic" where
  "pic_data x c =
     (if pc_icw c = 2 then c\<lparr>pc_base := x AND 0xF8, pc_icw := 3\<rparr>
      else if pc_icw c = 3 then c\<lparr>pc_icw := 4\<rparr>
      else if pc_icw c = 4 then c\<lparr>pc_icw := 0\<rparr>
      else c\<lparr>pc_mask := x\<rparr>)"

record irq_dev =
  pic1 :: pic
  pic2 :: pic
  pit_mode :: u8
  pit_low :: "u8 option"
  pit_reload :: u16

definition dev_out8 :: "u16 \<Rightarrow> u8 \<Rightarrow> irq_dev \<Rightarrow> irq_dev" where
  "dev_out8 p x v =
     (if p = PIC1_CMD then v\<lparr>pic1 := pic_cmd x (pic1 v)\<rparr>
      else if p = PIC1_DATA then v\<lparr>pic1 := pic_data x (pic1 v)\<rparr>
      else if p = PIC2_CMD then v\<lparr>pic2 := pic_cmd x (pic2 v)\<rparr>
      else if p = PIC2_DATA then v\<lparr>pic2 := pic_data x (pic2 v)\<rparr>
      else if p = PIT_CMD_PORT then if x AND 0xC0 = 0 then v\<lparr>pit_mode := x, pit_low := None\<rparr> else v
      else if p = PIT_CH0_DATA then (case pit_low v of
          None \<Rightarrow> v\<lparr>pit_low := Some x\<rparr>
        | Some l \<Rightarrow> v\<lparr>pit_low := None, pit_reload := of_le16 l x\<rparr>)
      else v)"

definition irq_compliant :: "'d port_io \<Rightarrow> ('d \<Rightarrow> irq_dev) \<Rightarrow> bool" where
  "irq_compliant E view \<longleftrightarrow> (\<forall>d p. view (snd (p_in8 E p d)) = view d) \<and>
     (\<forall>d p x. view (p_out8 E p x d) = dev_out8 p x (view d))"

definition irq_io :: "irq_dev port_io" where
  "irq_io = \<lparr>p_in8 = (\<lambda>p v. (if p = PIC1_DATA then pc_mask (pic1 v) else if p = PIC2_DATA then pc_mask (pic2 v) else 0, v)),
     p_in16 = (\<lambda>p v. (0xFFFF, v)), p_in32 = (\<lambda>p v. (0xFFFFFFFF, v)), p_out8 = dev_out8,
     p_out16 = (\<lambda>p w v. v), p_out32 = (\<lambda>p w v. v)\<rparr>"

lemma irq_io_compliant: "irq_compliant irq_io (\<lambda>v. v)"
  by (simp add: irq_compliant_def irq_io_def)

text \<open>The vector at which the CPU receives a line, if the masks let it pass.\<close>

definition irq_vector :: "irq_dev \<Rightarrow> nat \<Rightarrow> u8 option" where
  "irq_vector v n =
     (if n < 8 then if bit (pc_mask (pic1 v)) n then None else Some (pc_base (pic1 v) + of_nat n)
      else if bit (pc_mask (pic2 v)) (n - 8) \<or> bit (pc_mask (pic1 v)) 2 then None
      else Some (pc_base (pic2 v) + of_nat (n - 8)))"

text \<open>Where the CPU goes on an interrupt vector: the code segment and the address of a present interrupt gate.\<close>

definition gate_target :: "idt \<Rightarrow> u8 \<Rightarrow> (u16 \<times> u32) option" where
  "gate_target t n =
     (case cpu_idtr t of
        None \<Rightarrow> None
      | Some r \<Rightarrow>
          let e = g_idt t ! unat n
          in if 8 * unat n + 7 \<le> unat (limit r) \<and> type_attr e = 0x8E \<and> zero e = 0
             then Some (selector e, push_bit 16 (ucast (offset_hi e)) OR ucast (offset_lo e)) else None)"

section \<open>Facts\<close>

lemma compliant_out8_list: "irq_compliant E view \<Longrightarrow> view (out8_list E ws d) = fold (\<lambda>(p, x). dev_out8 p x) ws (view d)"
  by (induction ws arbitrary: d) (auto simp: irq_compliant_def)

lemma gate_address:
  "push_bit 16 (ucast (ucast (drop_bit 16 a AND 0xFFFF) :: u16)) OR ucast (ucast (a AND 0xFFFF) :: u16) = (a :: u32)"
proof -
  have m: "(0xFFFF :: u32) = mask 16" by (simp add: mask_eq_exp_minus_1)
  show ?thesis unfolding m by (rule bit_word_eqI) (auto simp: bit_simps)
qed

definition int_gate :: "u32 \<Rightarrow> idt_entry_t" where
  "int_gate a = \<lparr>offset_lo = ucast (a AND 0xFFFF), selector = 0x10, zero = 0, type_attr = 0x8E,
     offset_hi = ucast (drop_bit 16 a AND 0xFFFF)\<rparr>"

lemma fold_set_gate:
  assumes "length (g_idt t) = 256" "n \<le> 256"
  shows "g_idt (fold (\<lambda>i. idt_set_gate (ucast i) a 0x10 0x8E) (map of_nat [0..<n] :: u32 list) t)
    = replicate n (int_gate a) @ drop n (g_idt t)"
  using assms(2)
proof (induction n)
  case (Suc n)
  have u: "unat (ucast (of_nat n :: u32) :: u8) = n"
    using Suc.prems by (simp add: unsigned_ucast_eq unsigned_of_nat take_bit_nat_eq_self)
  have "(replicate n g @ drop n (g_idt t))[n := g] = replicate (Suc n) g @ drop (Suc n) (g_idt t)" for g
    using Suc.prems assms(1) Cons_nth_drop_Suc [of n "g_idt t"]
    by (simp add: list_update_append replicate_append_same [symmetric] flip: Cons_nth_drop_Suc)
  then show ?case using Suc by (simp add: idt_set_gate_def int_gate_def u)
qed simp

text \<open>The controllers after \<open>idt_init\<close>, and the reload value of channel 0.\<close>

lemma idt_init_devices:
  assumes "irq_compliant E view" "pc_icw (pic1 (view d)) = 0" "pc_icw (pic2 (view d)) = 0"
    and "idt_init E y (t, d) = (t1, d1)"
  shows "pc_base (pic1 (view d1)) = 0x20 \<and> pc_mask (pic1 (view d1)) = 0xFE \<and>
    pc_base (pic2 (view d1)) = 0x28 \<and> pc_mask (pic2 (view d1)) = 0xFF \<and>
    pit_mode (view d1) = 0x36 \<and> pit_reload (view d1) = 11932"
proof -
  obtain m1 e1 where e1: "p_in8 E PIC1_DATA d = (m1, e1)" by fastforce
  obtain m2 e2 where e2: "p_in8 E PIC2_DATA e1 = (m2, e2)" by fastforce
  have in8: "view (snd (p_in8 E p x)) = view x" and out8: "view (p_out8 E p v x) = dev_out8 p v (view x)" for p v x
    using assms(1) unfolding irq_compliant_def by blast+
  have v: "view e2 = view d" using in8 [of PIC1_DATA d] in8 [of PIC2_DATA e1] by (simp add: e1 e2)
  have "d1 = pit_init E 11932 (p_out8 E PIC1_DATA 0xFE (out8_list E [(PIC1_DATA, 0xFF), (PIC2_DATA, 0xFF)] (pic_remap E 0x20 0x28 d)))"
    using assms(4) by (simp add: idt_init_def Let_def)
  then have "view d1 = fold (\<lambda>(p, x). dev_out8 p x)
      [(PIT_CMD_PORT, 0x36), (PIT_CH0_DATA, 0x9C), (PIT_CH0_DATA, 0x2E)]
      (dev_out8 PIC1_DATA 0xFE (dev_out8 PIC2_DATA 0xFF (dev_out8 PIC1_DATA 0xFF (view (pic_remap E 0x20 0x28 d)))))"
    by (simp add: pit_init_def out8)
  moreover have "view (pic_remap E 0x20 0x28 d) = (view d)\<lparr>pic1 := (pic1 (view d))\<lparr>pc_base := 0x20, pc_mask := m1, pc_service := [], pc_icw := 0\<rparr>,
      pic2 := (pic2 (view d))\<lparr>pc_base := 0x28, pc_mask := m2, pc_service := [], pc_icw := 0\<rparr>\<rparr>"
    by (simp add: pic_remap_def e1 e2 out_wait_def out8 v dev_out8_def pic_cmd_def pic_data_def)
  ultimately show ?thesis by (simp add: dev_out8_def pic_data_def of_le16_def)
qed

lemma idt_init_table:
  assumes "length (g_idt t) = 256" "idt_init E y (t, d) = (t1, d1)"
  shows "g_idt t1 = (replicate 256 (int_gate (irq_spurious_handler_addr y)))
      [0x20 := int_gate (irq0_handler_addr y), 0x30 := int_gate (yield_int_handler_addr y)] \<and>
    cpu_idtr t1 = Some \<lparr>limit = 2047, idt_base = g_idt_addr y\<rparr>"
proof -
  have "range32 0 256 = (map of_nat [0..<256] :: u32 list)" by (simp only: range32_def unsigned_0 unat_numeral) simp
  then have "g_idt (fold (\<lambda>i. idt_set_gate (ucast i) (irq_spurious_handler_addr y) 0x10 0x8E) (range32 0 256) t)
      = replicate 256 (int_gate (irq_spurious_handler_addr y))"
    using fold_set_gate [OF assms(1), of 256 "irq_spurious_handler_addr y"] assms(1) by (simp del: upt_rec_numeral)
  then show ?thesis using assms(2)
    by (auto simp: idt_init_def Let_def idt_set_gate_def int_gate_def)
qed

lemma gate_target_int_gate:
  assumes "cpu_idtr t = Some \<lparr>limit = 2047, idt_base = b\<rparr>" "g_idt t ! unat n = int_gate a"
  shows "gate_target t n = Some (0x10, a)"
proof -
  have "unat n < 256" using unsigned_less [of n, where ?'a = nat] by simp
  then show ?thesis using assms gate_address [of a] by (simp add: gate_target_def int_gate_def Let_def)
qed

lemma idt_init_gates:
  assumes "length (g_idt t) = 256" "idt_init E y (t, d) = (t1, d1)"
  shows "gate_target t1 n = Some (0x10, if n = 0x20 then irq0_handler_addr y else
    if n = 0x30 then yield_int_handler_addr y else irq_spurious_handler_addr y)"
proof -
  note T = idt_init_table [OF assms]
  have n: "unat n < 256" using unsigned_less [of n, where ?'a = nat] by simp
  have u: "unat n = 0x20 \<longleftrightarrow> n = 0x20" "unat n = 0x30 \<longleftrightarrow> n = 0x30"
    by (simp_all add: word_unat_eq_iff)
  have "g_idt t1 ! unat n = int_gate (if n = 0x20 then irq0_handler_addr y else
      if n = 0x30 then yield_int_handler_addr y else irq_spurious_handler_addr y)"
    using n u unfolding conjunct1 [OF T] by (simp add: nth_list_update)
  then show ?thesis by (rule gate_target_int_gate [OF conjunct2 [OF T]])
qed

lemma unmasked_lines: "bit (0xFE :: u8) n \<longleftrightarrow> 0 < n \<and> n < 8" "n < 8 \<Longrightarrow> bit (0xFF :: u8) n"
proof -
  have "(0xFE :: u8) = NOT (mask 1)" "(0xFF :: u8) = mask 8" by (simp_all add: mask_eq_exp_minus_1)
  then show "bit (0xFE :: u8) n \<longleftrightarrow> 0 < n \<and> n < 8" "n < 8 \<Longrightarrow> bit (0xFF :: u8) n"
    by (auto simp only: bit_simps) auto
qed

lemma idt_init_vectors:
  assumes "irq_compliant E view" "pc_icw (pic1 (view d)) = 0" "pc_icw (pic2 (view d)) = 0"
    and "idt_init E y (t, d) = (t1, d1)" "n < 16"
  shows "irq_vector (view d1) n = (if n = 0 then Some 0x20 else None)"
  using idt_init_devices [OF assms(1-4)] assms(5) unmasked_lines(1) [of n] unmasked_lines(1) [of 2] unmasked_lines(2) [of "n - 8"]
  by (auto simp: irq_vector_def)

text \<open>The end of an interrupt: only its line leaves service, on the slave and the cascade for lines 8 to 15.\<close>

lemma idt_eoi_service:
  assumes "irq_compliant E view"
  shows "view (idt_eoi E irq d) = (view d)\<lparr>pic1 := (pic1 (view d))\<lparr>pc_service := tl (pc_service (pic1 (view d)))\<rparr>,
    pic2 := (if 8 \<le> irq then (pic2 (view d))\<lparr>pc_service := tl (pc_service (pic2 (view d)))\<rparr> else pic2 (view d))\<rparr>"
proof -
  have out8: "view (p_out8 E p v x) = dev_out8 p v (view x)" for p v x
    using assms(1) unfolding irq_compliant_def by blast
  show ?thesis by (simp add: idt_eoi_def out8 dev_out8_def pic_cmd_def)
qed

text \<open>The wait of \<open>timer_init\<close> ends when some read of the gate port shows the output of channel 2.\<close>

fun gate_reads :: "'d port_io \<Rightarrow> nat \<Rightarrow> 'd \<Rightarrow> 'd" where
  "gate_reads E 0 d = d"
| "gate_reads E (Suc n) d = gate_reads E n (snd (p_in8 E PIT_GATE_PORT d))"

lemma wait_gate_ends:
  "fst (p_in8 E PIT_GATE_PORT (gate_reads E n d)) AND 0x20 \<noteq> 0 \<Longrightarrow> \<exists>d1. wait_gate E d = Some d1"
proof (induction n arbitrary: d)
  case 0
  then show ?case by (subst wait_gate.simps) (auto simp: Let_def split: prod.split)
next
  case (Suc n)
  obtain v d1 where vd: "p_in8 E PIT_GATE_PORT d = (v, d1)" by fastforce
  have "\<exists>d2. wait_gate E d1 = Some d2" using Suc.IH [of d1] Suc.prems by (simp add: vd)
  then show ?case by (subst wait_gate.simps) (simp add: vd)
qed

lemma ticks_add: "g_ms_ticks ((timer_irq_tick ^^ k) t) = g_ms_ticks t + of_nat (10 * k)"
  by (induction k) (simp_all add: timer_irq_tick_def)

section \<open>Properties\<close>

text \<open>After \<open>idt_init\<close> exactly the timer interrupt reaches the kernel. On a machine with two 8259A controllers
  in operation, the only line of the sixteen that is not masked is line 0; it arrives at vector 0x20, away
  from the CPU's exceptions, and runs \<open>irq0_handler\<close>; \<open>int 0x30\<close> runs \<open>yield_int_handler\<close>, and each
  of the other vectors, the exceptions included, the spurious handler, always through a present ring 0
  interrupt gate inside the loaded table. Channel 0 counts 11932 in mode 3.\<close>

theorem idt_init_routes_interrupts:
  assumes "irq_compliant E view" "pc_icw (pic1 (view d)) = 0" "pc_icw (pic2 (view d)) = 0"
    and "length (g_idt t) = 256" "idt_init E y (t, d) = (t1, d1)"
  shows "(\<forall>n < 16. irq_vector (view d1) n = (if n = 0 then Some 0x20 else None)) \<and>
    gate_target t1 0x20 = Some (0x10, irq0_handler_addr y) \<and>
    gate_target t1 0x30 = Some (0x10, yield_int_handler_addr y) \<and>
    (\<forall>v. v \<noteq> 0x20 \<and> v \<noteq> 0x30 \<longrightarrow> gate_target t1 v = Some (0x10, irq_spurious_handler_addr y)) \<and>
    pit_mode (view d1) = 0x36 \<and> pit_reload (view d1) = 11932"
  using idt_init_vectors [OF assms(1-3,5)] idt_init_gates [OF assms(4,5)] idt_init_devices [OF assms(1-3,5)] by simp

definition sample_irq_dev :: irq_dev where
  "sample_irq_dev = \<lparr>pic1 = \<lparr>pc_base = 8, pc_mask = 0xB8, pc_service = [0], pc_icw = 0\<rparr>,
     pic2 = \<lparr>pc_base = 0x70, pc_mask = 0x8F, pc_service = [], pc_icw = 0\<rparr>, pit_mode = 0x34, pit_low = Some 3, pit_reload = 0\<rparr>"

definition sample_idt :: idt where
  "sample_idt = \<lparr>g_idt = replicate 256 \<lparr>offset_lo = 0, selector = 0, zero = 0, type_attr = 0, offset_hi = 0\<rparr>,
     g_idtr = \<lparr>limit = 0, idt_base = 0\<rparr>, cpu_idtr = None\<rparr>"

definition sample_idt_syms :: idt_syms where
  "sample_idt_syms = \<lparr>irq0_handler_addr = 0x101230, irq_spurious_handler_addr = 0x101280,
     yield_int_handler_addr = 0x1012A0, g_idt_addr = 0x110000\<rparr>"

theorem idt_init_routes_interrupts_witness:
  "\<exists>t1 d1. idt_init irq_io sample_idt_syms (sample_idt, sample_irq_dev) = (t1, d1) \<and>
    (\<forall>n < 16. irq_vector d1 n = (if n = 0 then Some 0x20 else None)) \<and>
    gate_target t1 0x20 = Some (0x10, 0x101230) \<and> gate_target t1 0x30 = Some (0x10, 0x1012A0) \<and>
    (\<forall>v. v \<noteq> 0x20 \<and> v \<noteq> 0x30 \<longrightarrow> gate_target t1 v = Some (0x10, 0x101280)) \<and>
    pit_mode d1 = 0x36 \<and> pit_reload d1 = 11932"
proof -
  obtain t1 d1 where td: "idt_init irq_io sample_idt_syms (sample_idt, sample_irq_dev) = (t1, d1)" by fastforce
  have "length (g_idt sample_idt) = 256" by (simp add: sample_idt_def)
  note P = idt_init_routes_interrupts [OF irq_io_compliant _ _ this td]
  have h: "irq0_handler_addr sample_idt_syms = 0x101230" "yield_int_handler_addr sample_idt_syms = 0x1012A0"
    "irq_spurious_handler_addr sample_idt_syms = 0x101280" by (simp_all add: sample_idt_syms_def)
  show ?thesis using P td unfolding h by (simp add: sample_irq_dev_def)
qed

text \<open>The millisecond clock. If the gate port ever shows the end of the calibration interval, \<open>timer_init\<close>
  returns and the tick rate it stores is never zero, so dividing by it is safe; from then on the time
  between two readings is the number of timer interrupts in between, times ten, as long as this is less
  than \<open>2^32\<close> milliseconds (49 days), also across the wrap-around of the counter.\<close>

theorem timer_measures_time:
  assumes "\<forall>d. \<exists>n. fst (p_in8 E PIT_GATE_PORT (gate_reads E n d)) AND 0x20 \<noteq> 0"
  shows "\<exists>t1 d1. timer_init E T (t, d) = Some (t1, d1) \<and> timer_ms t1 = 0 \<and> timer_ticks_per_ms t1 \<noteq> 0 \<and>
    (\<forall>j k. 10 * k < 2 ^ 32 \<longrightarrow> unat (timer_ms ((timer_irq_tick ^^ (j + k)) t1) - timer_ms ((timer_irq_tick ^^ j) t1)) = 10 * k)"
proof -
  have w: "\<exists>d1. wait_gate E d = Some d1" for d
  proof -
    obtain n where "fst (p_in8 E PIT_GATE_PORT (gate_reads E n d)) AND 0x20 \<noteq> 0" using spec [OF assms, of d] by (rule exE)
    then show ?thesis by (rule wait_gate_ends)
  qed
  obtain gate d1 where d1: "p_in8 E PIT_GATE_PORT d = (gate, d1)" by fastforce
  obtain lo hi d3 where d3: "T (out8_list E [(PIT_GATE_PORT, gate AND 0xFE), (0x43, 0xB0),
      (PIT_CH2_DATA, ucast (PIT_10MS_COUNT AND 0xFF)), (PIT_CH2_DATA, ucast (drop_bit 8 PIT_10MS_COUNT))] d1) = ((lo, hi), d3)"
    by (metis prod.exhaust)
  obtain d4 where d4: "wait_gate E (p_out8 E PIT_GATE_PORT ((gate AND 0xFE) OR 0x01) d3) = Some d4" using w by blast
  obtain lo' hi' d5 where d5: "T d4 = ((lo', hi'), d5)" by (metis prod.exhaust)
  let ?t = "t\<lparr>g_ms_ticks := 0, g_ticks_per_ms := (if (lo' - lo) div 10 = 0 then 1 else (lo' - lo) div 10)\<rparr>"
  have "timer_init E T (t, d) = Some (?t, p_out8 E PIT_GATE_PORT (gate AND 0xFE) d5)"
    using d3 by (simp add: timer_init_def d1 d4 d5 Let_def del: out8_list.simps)
  moreover have "unat (timer_ms ((timer_irq_tick ^^ (j + k)) ?t) - timer_ms ((timer_irq_tick ^^ j) ?t)) = 10 * k"
    if "10 * k < 2 ^ 32" for j k
  proof -
    have "timer_ms ((timer_irq_tick ^^ (j + k)) ?t) - timer_ms ((timer_irq_tick ^^ j) ?t) = of_nat (10 * k)"
      unfolding timer_ms_def ticks_add by (simp add: algebra_simps)
    moreover have "unat (of_nat (10 * k) :: u32) = 10 * k" by (rule unat_of_nat_eq) (use that in simp)
    ultimately show ?thesis by (simp only:)
  qed
  ultimately show ?thesis
    by (intro exI [of _ ?t] exI [of _ "p_out8 E PIT_GATE_PORT (gate AND 0xFE) d5"]) (simp add: timer_ms_def timer_ticks_per_ms_def)
qed

text \<open>A port that shows the output on every third read.\<close>

definition gate_io :: "nat port_io" where
  "gate_io = \<lparr>p_in8 = (\<lambda>p n. (if n mod 3 = 2 then 0x20 else 0, n + 1)), p_in16 = (\<lambda>p n. (0, n)), p_in32 = (\<lambda>p n. (0, n)),
     p_out8 = (\<lambda>p x n. n), p_out16 = (\<lambda>p x n. n), p_out32 = (\<lambda>p x n. n)\<rparr>"

lemma gate_io_reads: "gate_reads gate_io n d = d + n"
  by (induction n arbitrary: d) (simp_all add: gate_io_def)

theorem timer_measures_time_witness:
  "\<exists>t1 d1. timer_init gate_io (\<lambda>n. ((of_nat (1000 * n), 0), n)) (\<lparr>g_ms_ticks = 7, g_ticks_per_ms = 1\<rparr>, 0) = Some (t1, d1) \<and>
    timer_ticks_per_ms t1 \<noteq> 0 \<and> unat (timer_ms ((timer_irq_tick ^^ (5 + 2)) t1) - timer_ms ((timer_irq_tick ^^ 5) t1)) = 20"
proof -
  have g: "\<forall>d. \<exists>n. fst (p_in8 gate_io PIT_GATE_PORT (gate_reads gate_io n d)) AND 0x20 \<noteq> 0"
  proof
    fix d :: nat
    have "(d + (2 * d + 2)) mod 3 = 2" by presburger
    then show "\<exists>n. fst (p_in8 gate_io PIT_GATE_PORT (gate_reads gate_io n d)) AND 0x20 \<noteq> 0"
      by (intro exI [of _ "2 * d + 2"]) (simp add: gate_io_reads, simp add: gate_io_def)
  qed
  obtain t1 d1 where P: "timer_init gate_io (\<lambda>n. ((of_nat (1000 * n), 0), n)) (\<lparr>g_ms_ticks = 7, g_ticks_per_ms = 1\<rparr>, 0) = Some (t1, d1)"
    "timer_ticks_per_ms t1 \<noteq> 0"
    "\<forall>j k. 10 * k < 2 ^ 32 \<longrightarrow> unat (timer_ms ((timer_irq_tick ^^ (j + k)) t1) - timer_ms ((timer_irq_tick ^^ j) t1)) = 10 * k"
    using timer_measures_time [OF g, of "\<lambda>n. ((of_nat (1000 * n), 0), n)" "\<lparr>g_ms_ticks = 7, g_ticks_per_ms = 1\<rparr>" 0]
    by (elim exE conjE)
  have "unat (timer_ms ((timer_irq_tick ^^ (5 + 2)) t1) - timer_ms ((timer_irq_tick ^^ 5) t1)) = 20"
    using mp [OF spec [OF spec [OF P(3), of 5], of 2]] by (simp del: funpow.simps)
  with P(1,2) show ?thesis by blast
qed

end
