(* ===== verification/Metrics.thy ===== *)
theory Metrics
  imports Serial Mm Interrupts "HOL-Library.Sublist"
begin

text \<open>
  The performance metrics of \<open>src/kernel/metrics.c\<close>: what is recorded when, the report on the serial line,
  and the command \<open>metrics\<close> that asks for it. The low half of the time stamp counter at boot, which the
  boot code stores, is an argument.
\<close>

section \<open>The operations\<close>

record metrics =
  g_boot_ms :: u32
  g_mem_after_boot :: u32
  g_ttfb_ms :: u32
  g_tokens_per_sec :: u32
  g_mem_after_infer :: u32
  g_infer_start_ms :: u32
  g_infer_started :: bool
  g_first_token_done :: bool
  rx_buf :: bytes

definition metrics_init :: "'d rdtsc \<Rightarrow> timer \<Rightarrow> u32 \<Rightarrow> metrics \<times> 'd \<Rightarrow> metrics \<times> 'd" where
  "metrics_init T t boot_tsc_lo = (\<lambda>(m, d).
     (let (now, d1) = timer_tsc T d;
          now_lo = ucast now :: u32;
          tpm = timer_ticks_per_ms t;
          delta = now_lo - boot_tsc_lo
      in (m\<lparr>g_boot_ms := (if 0 < tpm then delta div tpm else timer_ms t)\<rparr>, d1)))"

definition metrics_snapshot_mem_boot :: "heap \<Rightarrow> metrics \<Rightarrow> metrics" where
  "metrics_snapshot_mem_boot h m = m\<lparr>g_mem_after_boot := mm_heap_used h\<rparr>"

definition metrics_start_inference :: "timer \<Rightarrow> metrics \<Rightarrow> metrics" where
  "metrics_start_inference t m = m\<lparr>g_infer_start_ms := timer_ms t, g_infer_started := True, g_first_token_done := False\<rparr>"

definition metrics_record_first_token :: "timer \<Rightarrow> metrics \<Rightarrow> metrics" where
  "metrics_record_first_token t m =
     (if g_infer_started m \<and> \<not> g_first_token_done m
      then m\<lparr>g_ttfb_ms := timer_ms t - g_infer_start_ms m, g_first_token_done := True\<rparr> else m)"

definition metrics_record_token_batch :: "u32 \<Rightarrow> u32 \<Rightarrow> metrics \<Rightarrow> metrics" where
  "metrics_record_token_batch n_tokens elapsed_ms m =
     m\<lparr>g_tokens_per_sec := (if 0 < elapsed_ms then (n_tokens * 1000) div elapsed_ms else 999999)\<rparr>"

definition metrics_snapshot_mem_infer :: "heap \<Rightarrow> metrics \<Rightarrow> metrics" where
  "metrics_snapshot_mem_infer h m = m\<lparr>g_mem_after_infer := mm_heap_used h\<rparr>"

definition m_u32 :: "'d port_io \<Rightarrow> u32 \<Rightarrow> 'd \<Rightarrow> 'd option" where
  "m_u32 E v d = (if v = 0 then serial_putchar E 48 d else serial_putchars E (rev (dec_loop v)) d)"

definition metrics_emit :: "'d port_io \<Rightarrow> metrics \<Rightarrow> 'd \<Rightarrow> 'd option" where
  "metrics_emit E m = calls
     [serial_puts E (ascii ''[METRICS] boot_ms=''), m_u32 E (g_boot_ms m), serial_puts E [10],
      serial_puts E (ascii ''[METRICS] mem_after_boot_bytes=''), m_u32 E (g_mem_after_boot m), serial_puts E [10],
      serial_puts E (ascii ''[METRICS] ttfb_ms=''), m_u32 E (g_ttfb_ms m), serial_puts E [10],
      serial_puts E (ascii ''[METRICS] tokens_per_sec=''), m_u32 E (g_tokens_per_sec m), serial_puts E [10],
      serial_puts E (ascii ''[METRICS] mem_after_infer_bytes=''), m_u32 E (g_mem_after_infer m), serial_puts E [10],
      serial_puts E (ascii ''[METRICS] net_rtt_ms=0'' @ [10]),
      serial_puts E (ascii ''[METRICS] DONE'' @ [10])]"

definition metrics_cmd :: bytes where
  "metrics_cmd = ascii ''metrics'' @ [10]"

definition metrics_poll_command :: "'d port_io \<Rightarrow> metrics \<times> 'd \<Rightarrow> (metrics \<times> 'd) option" where
  "metrics_poll_command E = (\<lambda>(m, d).
     (let (s, d1) = p_in8 E (COM1_BASE + 5) d
      in if s AND 0x01 = 0 then Some (m, d1)
         else let (c, d2) = p_in8 E COM1_BASE d1;
                  m1 = m\<lparr>rx_buf := map (\<lambda>i. rx_buf m ! (i + 1)) [0..<7] @ [c]\<rparr>
              in if rx_buf m1 = metrics_cmd then map_option (\<lambda>d3. (m1, d3)) (metrics_emit E m1 d2)
                 else Some (m1, d2)))"

text \<open>The polls of the main loop.\<close>

fun polls :: "'d port_io \<Rightarrow> nat \<Rightarrow> metrics \<times> 'd \<Rightarrow> (metrics \<times> 'd) option" where
  "polls E 0 md = Some md"
| "polls E (Suc n) md = do { md1 \<leftarrow> metrics_poll_command E md; polls E n md1 }"

section \<open>The report\<close>

text \<open>The five values with the keys that the collecting script looks for.\<close>

definition metric_values :: "metrics \<Rightarrow> (string \<times> nat) list" where
  "metric_values m = [(''boot_ms'', unat (g_boot_ms m)), (''mem_after_boot_bytes'', unat (g_mem_after_boot m)),
     (''ttfb_ms'', unat (g_ttfb_ms m)), (''tokens_per_sec'', unat (g_tokens_per_sec m)),
     (''mem_after_infer_bytes'', unat (g_mem_after_infer m)), (''net_rtt_ms'', 0)]"

definition metric_line :: "string \<times> nat \<Rightarrow> bytes" where
  "metric_line = (\<lambda>(key, v). ascii ''[METRICS] '' @ ascii key @ ascii ''='' @ dec_digits v @ [13, 10])"

definition metrics_text :: "metrics \<Rightarrow> bytes" where
  "metrics_text m = concat (map metric_line (metric_values m)) @ ascii ''[METRICS] DONE'' @ [13, 10]"

lemma prints_m_u32: "uart_compliant E view \<Longrightarrow> prints view (m_u32 E v) (dec_digits (unat v))"
  using prints_dec [of E view v] by (simp add: m_u32_def [abs_def] serial_dec_def [abs_def])

lemma tty_metrics:
  "tty (ascii ''[METRICS] boot_ms='') = ascii ''[METRICS] '' @ ascii ''boot_ms'' @ ascii ''=''"
  "tty (ascii ''[METRICS] mem_after_boot_bytes='') = ascii ''[METRICS] '' @ ascii ''mem_after_boot_bytes'' @ ascii ''=''"
  "tty (ascii ''[METRICS] ttfb_ms='') = ascii ''[METRICS] '' @ ascii ''ttfb_ms'' @ ascii ''=''"
  "tty (ascii ''[METRICS] tokens_per_sec='') = ascii ''[METRICS] '' @ ascii ''tokens_per_sec'' @ ascii ''=''"
  "tty (ascii ''[METRICS] mem_after_infer_bytes='') = ascii ''[METRICS] '' @ ascii ''mem_after_infer_bytes'' @ ascii ''=''"
  "tty (ascii ''[METRICS] net_rtt_ms=0'' @ [10]) = ascii ''[METRICS] '' @ ascii ''net_rtt_ms'' @ ascii ''='' @ dec_digits 0 @ [13, 10]"
  "tty (ascii ''[METRICS] DONE'' @ [10]) = ascii ''[METRICS] DONE'' @ [13, 10]" "tty [10] = [13, 10]"
  by (simp_all add: ascii_def dec_digits_def dec_rev.simps [of 0])

lemma prints_emit:
  assumes "uart_compliant E view"
  shows "prints view (metrics_emit E m) (metrics_text m)"
proof -
  have "prints view (metrics_emit E m) (concat
     [tty (ascii ''[METRICS] boot_ms=''), dec_digits (unat (g_boot_ms m)), tty [10],
      tty (ascii ''[METRICS] mem_after_boot_bytes=''), dec_digits (unat (g_mem_after_boot m)), tty [10],
      tty (ascii ''[METRICS] ttfb_ms=''), dec_digits (unat (g_ttfb_ms m)), tty [10],
      tty (ascii ''[METRICS] tokens_per_sec=''), dec_digits (unat (g_tokens_per_sec m)), tty [10],
      tty (ascii ''[METRICS] mem_after_infer_bytes=''), dec_digits (unat (g_mem_after_infer m)), tty [10],
      tty (ascii ''[METRICS] net_rtt_ms=0'' @ [10]), tty (ascii ''[METRICS] DONE'' @ [10])])"
    unfolding metrics_emit_def
    by (rule prints_calls) (simp only: list_all2_Cons list_all2_Nil prints_puts [OF assms] prints_m_u32 [OF assms] simp_thms)
  then show ?thesis
    by (simp only: concat.simps tty_metrics metrics_text_def metric_values_def metric_line_def list.map prod.case
        append_assoc append_Nil2 append_Nil)
qed

lemma metrics_text_rx [simp]: "metrics_text (m\<lparr>rx_buf := b\<rparr>) = metrics_text m"
  by (simp add: metrics_text_def metric_values_def)

section \<open>The command\<close>

text \<open>The buffer holds the last eight characters received, zeros before the first.\<close>

definition last_eight :: "bytes \<Rightarrow> bytes" where
  "last_eight hist = drop (length hist) (replicate 8 0 @ hist)"

lemma length_last_eight [simp]: "length (last_eight hist) = 8"
  by (simp add: last_eight_def)

lemma last_eight_snoc: "map (\<lambda>i. last_eight hist ! (i + 1)) [0..<7] @ [c] = last_eight (hist @ [c])"
proof -
  have l: "length (last_eight hist) = 8" by simp
  have "map (\<lambda>i. last_eight hist ! (i + 1)) [0..<7] = tl (last_eight hist)"
    by (rule nth_equalityI) (auto simp: nth_tl l simp del: upt_rec_numeral)
  also have "\<dots> = drop (Suc (length hist)) (replicate 8 0 @ hist)" by (simp only: last_eight_def drop_Suc tl_drop)
  also have "\<dots> @ [c] = last_eight (hist @ [c])" by (simp add: last_eight_def del: replicate.simps)
  finally show ?thesis .
qed

lemma last_eight_cmd: "last_eight hist = metrics_cmd \<longleftrightarrow> suffix metrics_cmd hist"
proof (cases "8 \<le> length hist")
  case True
  have l: "length metrics_cmd = 8" by (simp add: metrics_cmd_def ascii_def)
  have "last_eight hist = drop (length hist - 8) hist" using True by (simp add: last_eight_def)
  then show ?thesis using True l by (metis append_take_drop_id suffixI suffix_def append_eq_conv_conj length_append add_diff_cancel_right')
next
  case False
  then have "last_eight hist ! 0 = 0" by (simp add: last_eight_def nth_append)
  moreover have "metrics_cmd ! 0 \<noteq> 0" "length metrics_cmd = 8" by (simp_all add: metrics_cmd_def ascii_def)
  ultimately show ?thesis using False suffix_length_le [of metrics_cmd hist] by auto
qed

lemma poll_step:
  assumes "uart_compliant E view" "\<not> ux_dlab (view d)" "ux_rx (view d) = c # cs" "rx_buf m = last_eight hist"
  shows "\<exists>d1. metrics_poll_command E (m, d) = Some (m\<lparr>rx_buf := last_eight (hist @ [c])\<rparr>, d1) \<and>
    \<not> ux_dlab (view d1) \<and> ux_rx (view d1) = cs \<and>
    ux_sent (view d1) = ux_sent (view d) @ (if suffix metrics_cmd (hist @ [c]) then metrics_text m else [])"
proof -
  obtain d1 where d1: "p_in8 E 0x3FD d = (fst (ux_status (view d)), d1)" "view d1 = snd (ux_status (view d))"
    using uartD(1) [OF assms(1)] by blast
  have v1: "ux_rx (view d1) = c # cs" "\<not> ux_dlab (view d1)" "ux_sent (view d1) = ux_sent (view d)"
    using assms(2,3) by (simp_all add: d1(2) ux_status_def ux_dlab_def)
  have rdy: "fst (ux_status (view d)) AND 0x01 \<noteq> 0" using assms(3) by (simp add: ux_status_def)
  obtain d2 where d2: "p_in8 E COM1_BASE d1 = (c, d2)" "view d2 = (view d1)\<lparr>ux_rx := cs\<rparr>"
    using uartD(2) [OF assms(1) v1(2)] v1(1) by (auto simp: ux_receive_def)
  have v2: "ux_rx (view d2) = cs" "\<not> ux_dlab (view d2)" "ux_sent (view d2) = ux_sent (view d)"
    using v1 by (simp_all add: d2(2) ux_dlab_def)
  let ?m = "m\<lparr>rx_buf := last_eight (hist @ [c])\<rparr>"
  have eq: "metrics_poll_command E (m, d) =
      (if last_eight (hist @ [c]) = metrics_cmd then map_option (\<lambda>d3. (?m, d3)) (metrics_emit E ?m d2) else Some (?m, d2))"
    using rdy last_eight_snoc [of hist c] unfolding metrics_poll_command_def
    by (simp add: d1(1) d2(1) assms(4) Let_def del: upt_rec_numeral)
  show ?thesis
  proof (cases "suffix metrics_cmd (hist @ [c])")
    case True
    obtain d3 where "metrics_emit E ?m d2 = Some d3" "\<not> ux_dlab (view d3)"
      "ux_sent (view d3) = ux_sent (view d2) @ metrics_text m" "ux_rx (view d3) = ux_rx (view d2)"
      using printsD [OF prints_emit [OF assms(1), of ?m] v2(2)] by auto
    then show ?thesis using True v2 eq unfolding last_eight_cmd by (simp only: if_True) simp
  next
    case False
    then show ?thesis using v2 eq unfolding last_eight_cmd by (simp only: if_False append_Nil2) simp
  qed
qed

text \<open>What the polls answer to the characters \<open>cs\<close> after \<open>hist\<close>: a report for every end of the command.\<close>

fun answers :: "bytes \<Rightarrow> bytes \<Rightarrow> bytes \<Rightarrow> bytes" where
  "answers report hist [] = []"
| "answers report hist (c # cs) =
     (if suffix metrics_cmd (hist @ [c]) then report else []) @ answers report (hist @ [c]) cs"

lemma polls_answer:
  assumes "uart_compliant E view"
  shows "\<not> ux_dlab (view d) \<Longrightarrow> ux_rx (view d) = cs \<Longrightarrow> rx_buf m = last_eight hist \<Longrightarrow>
    \<exists>d1. polls E (length cs) (m, d) = Some (m\<lparr>rx_buf := last_eight (hist @ cs)\<rparr>, d1) \<and>
      ux_rx (view d1) = [] \<and> ux_sent (view d1) = ux_sent (view d) @ answers (metrics_text m) hist cs"
proof (induction cs arbitrary: d m hist)
  case Nil
  have "m\<lparr>rx_buf := last_eight (hist @ [])\<rparr> = m" using Nil(3) by simp
  then show ?case using Nil by simp
next
  case (Cons c cs)
  obtain d1 where d1: "metrics_poll_command E (m, d) = Some (m\<lparr>rx_buf := last_eight (hist @ [c])\<rparr>, d1)"
    "\<not> ux_dlab (view d1)" "ux_rx (view d1) = cs"
    "ux_sent (view d1) = ux_sent (view d) @ (if suffix metrics_cmd (hist @ [c]) then metrics_text m else [])"
    using poll_step [OF assms Cons.prems] by blast
  show ?case
    using Cons.IH [OF d1(2,3), of "m\<lparr>rx_buf := last_eight (hist @ [c])\<rparr>" "hist @ [c]"] d1 by auto
qed

text \<open>Recording: only the first token after a start counts, and a batch is exact up to four million tokens.\<close>

lemma first_token_once:
  "metrics_record_first_token t2 (metrics_record_first_token t1 (metrics_start_inference t0 m)) =
     metrics_record_first_token t1 (metrics_start_inference t0 m)"
  "g_ttfb_ms (metrics_record_first_token t1 (metrics_start_inference t0 m)) = timer_ms t1 - timer_ms t0"
  by (simp_all add: metrics_record_first_token_def metrics_start_inference_def)

lemma token_rate:
  "0 < ms \<Longrightarrow> unat n * 1000 < 2 ^ 32 \<Longrightarrow>
    unat (g_tokens_per_sec (metrics_record_token_batch n ms m)) = unat n * 1000 div unat ms"
  by (simp add: metrics_record_token_batch_def unat_div unat_word_ariths)

section \<open>Properties\<close>

text \<open>The host can ask for the metrics at any time. When the main loop polls as often as characters have
  arrived, it consumes all of them, and it answers each occurrence of \<open>metrics\<close> and line feed in the stream,
  wherever it starts and however often it comes, with one report that gives the recorded values in
  decimal, and nothing else.\<close>

theorem metrics_command_answered:
  assumes "uart_compliant E view" "\<not> ux_dlab (view d)" "ux_rx (view d) = cs" "rx_buf m = replicate 8 0"
  shows "\<exists>m1 d1. polls E (length cs) (m, d) = Some (m1, d1) \<and> metric_values m1 = metric_values m \<and> ux_rx (view d1) = [] \<and>
    ux_sent (view d1) = ux_sent (view d) @
      concat (map (\<lambda>n. if suffix metrics_cmd (take n cs) then metrics_text m else []) [1..<Suc (length cs)])"
proof -
  have "answers r hist cs = concat (map (\<lambda>n. if suffix metrics_cmd (hist @ take n cs) then r else []) [1..<Suc (length cs)])"
    for r hist
  proof (induction cs arbitrary: hist)
    case (Cons c cs)
    have r: "[1..<Suc (length (c # cs))] = 1 # map Suc [1..<Suc (length cs)]"
      by (simp add: map_Suc_upt upt_conv_Cons del: upt_Suc)
    have t: "hist @ take 1 (c # cs) = hist @ [c]" "hist @ take (Suc n) (c # cs) = (hist @ [c]) @ take n cs" for n by simp_all
    show ?case unfolding r answers.simps Cons.IH list.map concat.simps map_map comp_def t ..
  qed simp
  from this [of "metrics_text m" "[]"] show ?thesis
    using polls_answer [OF assms(1-3), of m "[]"] assms(4) by (fastforce simp: last_eight_def metric_values_def)
qed

theorem metrics_command_answered_witness:
  "\<exists>m1 d1. polls uart_io 12 (\<lparr>g_boot_ms = 812, g_mem_after_boot = 65536, g_ttfb_ms = 40, g_tokens_per_sec = 250,
        g_mem_after_infer = 70000, g_infer_start_ms = 900, g_infer_started = True, g_first_token_done = True,
        rx_buf = replicate 8 0\<rparr>,
      \<lparr>ux_sent = [], ux_rx = ascii ''met'' @ metrics_cmd @ [10], ux_full = 3, ux_shift = 1, ux_delays = [(1, 1)], ux_lcr = 3,
        ux_div_lo = 1, ux_div_hi = 0\<rparr>) = Some (m1, d1) \<and> ux_rx d1 = [] \<and>
    ux_sent d1 = concat (map metric_line [(''boot_ms'', 812), (''mem_after_boot_bytes'', 65536), (''ttfb_ms'', 40),
        (''tokens_per_sec'', 250), (''mem_after_infer_bytes'', 70000), (''net_rtt_ms'', 0)]) @ ascii ''[METRICS] DONE'' @ [13, 10]"
proof -
  let ?m = "\<lparr>g_boot_ms = 812, g_mem_after_boot = 65536, g_ttfb_ms = 40, g_tokens_per_sec = 250,
        g_mem_after_infer = 70000, g_infer_start_ms = 900, g_infer_started = True, g_first_token_done = True,
        rx_buf = replicate 8 0\<rparr>"
  let ?u = "\<lparr>ux_sent = [], ux_rx = ascii ''met'' @ metrics_cmd @ [10], ux_full = 3, ux_shift = 1, ux_delays = [(1, 1)],
        ux_lcr = 3, ux_div_lo = 1, ux_div_hi = 0\<rparr>"
  let ?cs = "ascii ''met'' @ metrics_cmd @ [10]"
  have b: "\<not> ux_dlab ?u" by (simp add: ux_dlab_def)
  have l: "length ?cs = 12" by (simp add: ascii_def metrics_cmd_def)
  have r: "concat (map (\<lambda>n. if suffix metrics_cmd (take n ?cs) then r else []) [1..<Suc (length ?cs)]) = r" for r :: bytes
    unfolding l by (simp add: upt_rec metrics_cmd_def ascii_def suffix_to_prefix)
  obtain m1 d1 where P: "polls uart_io (length ?cs) (?m, ?u) = Some (m1, d1)" "ux_rx d1 = []"
    "ux_sent d1 = ux_sent ?u @ metrics_text ?m"
    using metrics_command_answered [OF uart_io_compliant b, of ?cs ?m, unfolded r] by auto
  have "metrics_text ?m = concat (map metric_line [(''boot_ms'', 812), (''mem_after_boot_bytes'', 65536), (''ttfb_ms'', 40),
        (''tokens_per_sec'', 250), (''mem_after_infer_bytes'', 70000), (''net_rtt_ms'', 0)]) @ ascii ''[METRICS] DONE'' @ [13, 10]"
    by (simp add: metrics_text_def metric_values_def)
  then show ?thesis using P unfolding l by (intro exI [of _ m1] exI [of _ d1]) (simp del: polls.simps)
qed

end
