(* ===== verification/Vga.thy ===== *)
theory Vga
  imports Prelude
begin

text \<open>
  The text console of \<open>src/drivers/vga.c\<close>. The video memory is the list of its 80 * 25 cells. The
  specification is a terminal that keeps every row ever written; the screen shows its last 25 rows.
\<close>

section \<open>The driver\<close>

abbreviation VGA_WIDTH :: nat where "VGA_WIDTH \<equiv> 80"
abbreviation VGA_HEIGHT :: nat where "VGA_HEIGHT \<equiv> 25"

record vga =
  vga_mem :: "u16 list"
  vga_col :: nat
  vga_row :: nat

text \<open>\<open>(uint16_t)(VGA_COLOR << 8) | (uint8_t)c\<close>, white on black.\<close>

definition text_cell :: "u8 \<Rightarrow> u16" where
  "text_cell c = push_bit 8 0x0F OR ucast c"

text \<open>The accesses of the video memory; one outside the screen has no value.\<close>

definition cell_get :: "nat \<Rightarrow> u16 list \<Rightarrow> u16 option" where
  "cell_get i m = (if i < length m then Some (m ! i) else None)"

definition cell_set :: "nat \<Rightarrow> u16 \<Rightarrow> u16 list \<Rightarrow> u16 list option" where
  "cell_set i x m = (if i < length m then Some (m[i := x]) else None)"

definition vga_clear :: "vga \<Rightarrow> vga option" where
  "vga_clear v = do {
     m \<leftarrow> each (\<lambda>i. cell_set i (text_cell 32)) [0..<VGA_WIDTH * VGA_HEIGHT] (vga_mem v);
     Some (v\<lparr>vga_mem := m, vga_col := 0, vga_row := 0\<rparr>)
   }"

definition vga_scroll :: "vga \<Rightarrow> vga option" where
  "vga_scroll v = do {
     m1 \<leftarrow> each (\<lambda>r. each (\<lambda>c m. do {
                    x \<leftarrow> cell_get (r * VGA_WIDTH + c) m;
                    cell_set ((r - 1) * VGA_WIDTH + c) x m
                  }) [0..<VGA_WIDTH]) [1..<VGA_HEIGHT] (vga_mem v);
     m2 \<leftarrow> each (\<lambda>c. cell_set ((VGA_HEIGHT - 1) * VGA_WIDTH + c) (text_cell 32)) [0..<VGA_WIDTH] m1;
     Some (v\<lparr>vga_mem := m2, vga_row := VGA_HEIGHT - 1\<rparr>)
   }"

definition vga_init :: "vga \<Rightarrow> vga option" where
  "vga_init v = vga_clear v"

definition vga_putchar :: "u8 \<Rightarrow> vga \<Rightarrow> vga option" where
  "vga_putchar c v = do {
     v1 \<leftarrow> (if c = 10 then Some (v\<lparr>vga_col := 0, vga_row := vga_row v + 1\<rparr>)
           else if c = 13 then Some (v\<lparr>vga_col := 0\<rparr>)
           else do {
             m \<leftarrow> cell_set (vga_row v * VGA_WIDTH + vga_col v) (text_cell c) (vga_mem v);
             let v0 = v\<lparr>vga_mem := m, vga_col := vga_col v + 1\<rparr>
             in Some (if VGA_WIDTH \<le> vga_col v0 then v0\<lparr>vga_col := 0, vga_row := vga_row v0 + 1\<rparr> else v0)
           });
     if VGA_HEIGHT \<le> vga_row v1 then vga_scroll v1 else Some v1
   }"

fun vga_puts :: "bytes \<Rightarrow> vga \<Rightarrow> vga option" where
  "vga_puts [] v = Some v"
| "vga_puts (c # s) v = (if c = 0 then Some v else do { v1 \<leftarrow> vga_putchar c v; vga_puts s v1 })"

section \<open>Filling and scrolling\<close>

lemma fold_fill: "a \<le> b \<Longrightarrow> b \<le> length m \<Longrightarrow>
    fold (\<lambda>i m. m[i := x]) [a..<b] m = take a m @ replicate (b - a) x @ drop b m"
proof (induction b)
  case (Suc b)
  show ?case
  proof (cases "a \<le> b")
    case True
    then have "fold (\<lambda>i m. m[i := x]) [a..<Suc b] m = (take a m @ replicate (b - a) x @ drop b m)[b := x]"
      using Suc by simp
    also have "\<dots> = take a m @ replicate (b - a) x @ x # drop (Suc b) m"
      using True Suc.prems Cons_nth_drop_Suc [of b m, symmetric] by (simp add: list_update_append)
    also have "\<dots> = take a m @ replicate (Suc b - a) x @ drop (Suc b) m"
      using True by (simp add: Suc_diff_le replicate_app_Cons_same)
    finally show ?thesis .
  next
    case False
    then have "a = Suc b" using Suc.prems by simp
    then show ?thesis by simp
  qed
qed simp

lemma fold_rows:
  "0 < w \<Longrightarrow> a \<le> b \<Longrightarrow> fold (\<lambda>r m. fold (\<lambda>c m. f (r * w + c) m) [0..<w] m) [a..<b] m = fold f [a * w..<b * w] m"
proof (induction b arbitrary: m)
  case (Suc b)
  have s: "fold (\<lambda>c m. f (b * w + c) m) [0..<w] m = fold f [b * w..<b * w + w] m" for m
  proof -
    have "[b * w..<b * w + w] = map (\<lambda>c. b * w + c) [0..<w]" by (simp add: map_add_upt add.commute)
    then show ?thesis by (simp add: fold_map comp_def)
  qed
  show ?case
  proof (cases "a \<le> b")
    case True
    have "[a * w..<Suc b * w] = [a * w..<b * w] @ [b * w..<b * w + w]"
      using upt_add_eq_append [of "a * w" "b * w" w] True by (simp add: add.commute)
    then show ?thesis using Suc True s by simp
  next
    case False
    then have "a = Suc b" using Suc.prems by simp
    then show ?thesis by simp
  qed
qed simp

lemma fold_shift: "w \<le> n \<Longrightarrow> n \<le> length m \<Longrightarrow>
    fold (\<lambda>k m. m[k - w := m ! k]) [w..<n] m = drop w (take n m) @ drop (n - w) m"
proof (induction n)
  case (Suc n)
  show ?case
  proof (cases "w \<le> n")
    case True
    let ?m = "drop w (take n m) @ drop (n - w) m"
    have IH: "fold (\<lambda>k m. m[k - w := m ! k]) [w..<n] m = ?m" using Suc True by simp
    have l: "length (drop w (take n m)) = n - w" using Suc.prems True by simp
    have "\<not> n < n - w" by simp
    then have "?m ! n = drop (n - w) m ! (n - (n - w))" unfolding nth_append l by simp
    then have "?m ! n = m ! n" using True Suc.prems by simp
    then have "fold (\<lambda>k m. m[k - w := m ! k]) [w..<Suc n] m = ?m[n - w := m ! n]" using IH True by simp
    also have "\<dots> = drop w (take n m) @ m ! n # drop (Suc (n - w)) m"
      using l Suc.prems Cons_nth_drop_Suc [of "n - w" m, symmetric] by (simp add: list_update_append)
    also have "\<dots> = drop w (take (Suc n) m) @ drop (Suc n - w) m"
      using True Suc.prems by (simp add: take_Suc_conv_app_nth Suc_diff_le)
    finally show ?thesis .
  next
    case False
    then have "w = Suc n" using Suc.prems by simp
    then show ?thesis by simp
  qed
qed simp

abbreviation blank_row :: "u16 list" where
  "blank_row \<equiv> replicate VGA_WIDTH (text_cell 32)"

lemma each_cell_set:
  assumes "\<And>i. i \<in> set is \<Longrightarrow> f i < length m"
  shows "each (\<lambda>i. cell_set (f i) x) is m = Some (fold (\<lambda>i m. m[f i := x]) is m)"
  by (rule conjunct1 [OF each_fold [where P = "\<lambda>m'. length m' = length m"]]) (use assms in \<open>simp_all add: cell_set_def\<close>)

lemma each_copy_row:
  assumes "1 \<le> r" "r < VGA_HEIGHT" "length m = 2000"
  shows "each (\<lambda>c m. do { x \<leftarrow> cell_get (r * 80 + c) m; cell_set ((r - 1) * 80 + c) x m }) [0..<80] m =
      Some (fold (\<lambda>c m. m[(r - 1) * 80 + c := m ! (r * 80 + c)]) [0..<80] m) \<and>
    length (fold (\<lambda>c m. m[(r - 1) * 80 + c := m ! (r * 80 + c)]) [0..<80] m) = 2000"
proof (rule each_fold [where P = "\<lambda>m. length m = 2000"])
  fix c and m :: "u16 list" assume c: "c \<in> set [0..<80]" and m: "length m = 2000"
  from c have "c < 80" by (simp only: set_upt atLeastLessThan_iff)
  moreover have "(r - 1) * 80 + 80 \<le> 1920" "r * 80 + 80 \<le> 2000" using assms(1,2) by simp_all
  ultimately have "r * 80 + c < 2000" "(r - 1) * 80 + c < 2000" by linarith+
  then show "do { x \<leftarrow> cell_get (r * 80 + c) m; cell_set ((r - 1) * 80 + c) x m } = Some (m[(r - 1) * 80 + c := m ! (r * 80 + c)])
      \<and> length (m[(r - 1) * 80 + c := m ! (r * 80 + c)]) = 2000"
    using m by (simp add: cell_get_def cell_set_def)
qed (rule assms(3))

lemma vga_scroll_mem:
  assumes "length (vga_mem v) = 2000"
  shows "vga_scroll v = Some (v\<lparr>vga_mem := drop VGA_WIDTH (vga_mem v) @ blank_row, vga_row := 24\<rparr>)"
proof -
  have run: "each (\<lambda>r. each (\<lambda>c m. do { x \<leftarrow> cell_get (r * 80 + c) m; cell_set ((r - 1) * 80 + c) x m }) [0..<80])
        [1..<25] (vga_mem v)
      = Some (fold (\<lambda>r m. fold (\<lambda>c m. m[(r - 1) * 80 + c := m ! (r * 80 + c)]) [0..<80] m) [1..<25] (vga_mem v))"
  proof (rule conjunct1 [OF each_fold [where P = "\<lambda>m. length m = 2000"]])
    fix r :: nat and m :: "u16 list" assume r: "r \<in> set [1..<25]" and m: "length m = 2000"
    from r have "1 \<le> r" "r < 25" by (simp_all only: set_upt atLeastLessThan_iff)
    from each_copy_row [OF this m]
    show "each (\<lambda>c m. do { x \<leftarrow> cell_get (r * 80 + c) m; cell_set ((r - 1) * 80 + c) x m }) [0..<80] m =
        Some (fold (\<lambda>c m. m[(r - 1) * 80 + c := m ! (r * 80 + c)]) [0..<80] m) \<and>
      length (fold (\<lambda>c m. m[(r - 1) * 80 + c := m ! (r * 80 + c)]) [0..<80] m) = 2000" .
  qed (rule assms)
  have "fold (\<lambda>r m. fold (\<lambda>c m. m[(r - 1) * 80 + c := m ! (r * 80 + c)]) [0..<80] m) [1..<25] (vga_mem v)
      = fold (\<lambda>r m. fold (\<lambda>c m. m[(r * 80 + c) - 80 := m ! (r * 80 + c)]) [0..<80] m) [1..<25] (vga_mem v)"
  proof (rule fold_cong [OF refl refl])
    fix r :: nat
    assume "r \<in> set [1..<25]"
    then have "1 \<le> r" by (simp only: set_upt atLeastLessThan_iff)
    then have "(r - 1) * 80 + c = r * 80 + c - 80" for c by (cases r) simp_all
    then show "(\<lambda>m. fold (\<lambda>c m. m[(r - 1) * 80 + c := m ! (r * 80 + c)]) [0..<80] m) =
        (\<lambda>m. fold (\<lambda>c m. m[(r * 80 + c) - 80 := m ! (r * 80 + c)]) [0..<80] m)" by (simp only:)
  qed
  also have "\<dots> = fold (\<lambda>k m. m[k - 80 := m ! k]) [1 * 80..<25 * 80] (vga_mem v)"
    by (rule fold_rows) simp_all
  also have "\<dots> = drop 80 (vga_mem v) @ drop 1920 (vga_mem v)"
    using fold_shift [of 80 2000 "vga_mem v"] assms by (simp del: upt_rec_numeral)
  finally have m1: "fold (\<lambda>r m. fold (\<lambda>c m. m[(r - 1) * 80 + c := m ! (r * 80 + c)]) [0..<80] m) [1..<25] (vga_mem v)
      = drop 80 (vga_mem v) @ drop 1920 (vga_mem v)" .
  have "fold (\<lambda>c m. m[(25 - 1) * 80 + c := text_cell 32]) [0..<80] m = fold (\<lambda>i m. m[i := text_cell 32]) [1920..<2000] m" for m :: "u16 list"
  proof -
    have "[1920..<2000 :: nat] = map (\<lambda>c. (25 - 1) * 80 + c) [0..<80]"
      using map_add_upt [of 1920 80] by (simp add: add.commute del: upt_rec_numeral)
    then show ?thesis by (simp only: fold_map comp_def)
  qed
  then have "fold (\<lambda>c m. m[(25 - 1) * 80 + c := text_cell 32]) [0..<80] (drop 80 (vga_mem v) @ drop 1920 (vga_mem v))
      = drop 80 (vga_mem v) @ blank_row"
    using fold_fill [of 1920 2000 "drop 80 (vga_mem v) @ drop 1920 (vga_mem v)" "text_cell 32"] assms
    by (simp del: upt_rec_numeral)
  moreover have "each (\<lambda>c. cell_set ((25 - 1) * 80 + c) (text_cell 32)) [0..<80] (drop 80 (vga_mem v) @ drop 1920 (vga_mem v)) =
      Some (fold (\<lambda>c m. m[(25 - 1) * 80 + c := text_cell 32]) [0..<80] (drop 80 (vga_mem v) @ drop 1920 (vga_mem v)))"
    by (rule each_cell_set) (use assms in \<open>simp only: set_upt atLeastLessThan_iff length_append length_drop, linarith\<close>)
  ultimately show ?thesis unfolding vga_scroll_def run m1 bind.bind_lunit by simp
qed

section \<open>The terminal\<close>

record terminal =
  tm_rows :: "u16 list list"
  tm_col :: nat

definition tm_newline :: "terminal \<Rightarrow> terminal" where
  "tm_newline t = \<lparr>tm_rows = tm_rows t @ [blank_row], tm_col = 0\<rparr>"

definition tm_putchar :: "u8 \<Rightarrow> terminal \<Rightarrow> terminal" where
  "tm_putchar c t =
     (if c = 10 then tm_newline t
      else if c = 13 then t\<lparr>tm_col := 0\<rparr>
      else let t1 = t\<lparr>tm_rows := butlast (tm_rows t) @ [(last (tm_rows t))[tm_col t := text_cell c]], tm_col := tm_col t + 1\<rparr>
           in if tm_col t1 = VGA_WIDTH then tm_newline t1 else t1)"

definition tm_puts :: "bytes \<Rightarrow> terminal \<Rightarrow> terminal" where
  "tm_puts s t = fold tm_putchar (c_string s) t"

definition tm_blank :: terminal where
  "tm_blank = \<lparr>tm_rows = [blank_row], tm_col = 0\<rparr>"

text \<open>The rows on the screen: the last 25, and blank rows below while there are fewer.\<close>

definition visible :: "u16 list list \<Rightarrow> u16 list list" where
  "visible rs = drop (length rs - VGA_HEIGHT) rs @ replicate (VGA_HEIGHT - length rs) blank_row"

definition tm_ok :: "terminal \<Rightarrow> bool" where
  "tm_ok t \<longleftrightarrow> tm_rows t \<noteq> [] \<and> (\<forall>r \<in> set (tm_rows t). length r = VGA_WIDTH) \<and> tm_col t < VGA_WIDTH"

definition screen_shows :: "vga \<Rightarrow> terminal \<Rightarrow> bool" where
  "screen_shows v t \<longleftrightarrow> vga_mem v = concat (visible (tm_rows t)) \<and> vga_col v = tm_col t \<and>
     vga_row v = min (length (tm_rows t)) VGA_HEIGHT - 1"

lemma length_concat_rows: "\<forall>r \<in> set rs. length r = w \<Longrightarrow> length (concat rs) = w * length rs"
  by (induction rs) auto

lemma visible_rows:
  assumes "\<forall>r \<in> set rs. length r = VGA_WIDTH"
  shows "length (visible rs) = VGA_HEIGHT" "\<forall>r \<in> set (visible rs). length r = VGA_WIDTH"
  using assms by (auto simp: visible_def simp del: replicate.simps dest: in_set_dropD)

lemma screen_length:
  assumes "tm_ok t" "screen_shows v t"
  shows "length (vga_mem v) = VGA_WIDTH * VGA_HEIGHT"
proof -
  have r: "\<forall>r \<in> set (tm_rows t). length r = VGA_WIDTH" using assms(1) by (simp add: tm_ok_def)
  show ?thesis
    using assms(2) length_concat_rows [OF visible_rows(2) [OF r]] visible_rows(1) [OF r] by (simp add: screen_shows_def)
qed

text \<open>The cursor row on the screen, with the rows above and below it.\<close>

lemma visible_snoc:
  "visible (rs @ [r]) = drop (length rs - 24) rs @ r # replicate (24 - length rs) blank_row"
  by (simp add: visible_def del: replicate.simps)

lemma update_visible:
  assumes "\<forall>r \<in> set rs. length r = VGA_WIDTH" "length r = VGA_WIDTH" "c < VGA_WIDTH"
  shows "(concat (visible (rs @ [r])))[min (length rs) 24 * VGA_WIDTH + c := x] = concat (visible (rs @ [r[c := x]]))"
proof -
  let ?a = "drop (length rs - 24) rs"
  have "\<forall>r \<in> set ?a. length r = VGA_WIDTH" using assms(1) by (meson in_set_dropD)
  from length_concat_rows [OF this] have "length (concat ?a) = min (length rs) 24 * VGA_WIDTH" by (simp add: min_def)
  then show ?thesis using assms(2,3) by (simp add: visible_snoc list_update_append del: replicate.simps)
qed

lemma newline_shows:
  assumes "tm_ok t" "vga_mem v = concat (visible (tm_rows t))" "vga_col v = 0"
    and "vga_row v = min (length (tm_rows t)) VGA_HEIGHT"
  shows "\<exists>w. (if VGA_HEIGHT \<le> vga_row v then vga_scroll v else Some v) = Some w \<and> screen_shows w (tm_newline t)"
proof (cases "length (tm_rows t) < VGA_HEIGHT")
  case True
  then have "replicate (VGA_HEIGHT - length (tm_rows t)) blank_row = blank_row # replicate (24 - length (tm_rows t)) blank_row"
    using Suc_diff_le [of "length (tm_rows t)" 24] by (simp del: replicate.simps add: replicate_Suc)
  then show ?thesis using True assms(2-4)
    by (simp add: screen_shows_def tm_newline_def visible_def del: replicate.simps)
next
  case False
  have r: "\<forall>r \<in> set (tm_rows t). length r = VGA_WIDTH" using assms(1) by (simp add: tm_ok_def)
  have m: "length (vga_mem v) = 2000" using length_concat_rows [OF visible_rows(2) [OF r]] visible_rows(1) [OF r] assms(2) by simp
  obtain r0 rs where c: "visible (tm_rows t) = r0 # rs" using visible_rows(1) [OF r] by (cases "visible (tm_rows t)") auto
  have l: "length r0 = VGA_WIDTH" using visible_rows(2) [OF r] by (simp add: c)
  have "visible (tm_rows t @ [blank_row]) = rs @ [blank_row]"
  proof -
    have d: "drop (length (tm_rows t) - VGA_HEIGHT) (tm_rows t) = r0 # rs" using False c by (simp add: visible_def)
    have "length (tm_rows t) - 24 = Suc (length (tm_rows t) - VGA_HEIGHT)" using False by simp
    then have "drop (length (tm_rows t) - 24) (tm_rows t) = rs" using d by (metis drop_Suc list.sel(3) tl_drop)
    then show ?thesis using False by (simp add: visible_snoc del: replicate.simps)
  qed
  then show ?thesis using False assms l vga_scroll_mem [OF m] c
    by (simp add: screen_shows_def tm_newline_def del: replicate.simps)
qed

lemma putchar_shows:
  assumes "tm_ok t" "screen_shows v t"
  shows "\<exists>w. vga_putchar c v = Some w \<and> tm_ok (tm_putchar c t) \<and> screen_shows w (tm_putchar c t)"
proof -
  obtain rs r where rs: "tm_rows t = rs @ [r]" using assms(1) by (metis rev_exhaust tm_ok_def)
  have ok: "\<forall>r \<in> set rs. length r = VGA_WIDTH" "length r = VGA_WIDTH" "tm_col t < VGA_WIDTH"
    using assms(1) by (simp_all add: tm_ok_def rs)
  have v: "vga_mem v = concat (visible (rs @ [r]))" "vga_col v = tm_col t" "vga_row v = min (length rs) 24"
    using assms(2) by (simp_all add: screen_shows_def rs)
  have newl: "tm_ok t' \<Longrightarrow> tm_ok (tm_newline t')" for t' by (auto simp: tm_ok_def tm_newline_def)
  consider "c = 10" | "c = 13" | "c \<noteq> 10" "c \<noteq> 13" by blast
  then show ?thesis
  proof cases
    case 1
    have "\<exists>w. (if VGA_HEIGHT \<le> vga_row (v\<lparr>vga_col := 0, vga_row := vga_row v + 1\<rparr>)
        then vga_scroll (v\<lparr>vga_col := 0, vga_row := vga_row v + 1\<rparr>) else Some (v\<lparr>vga_col := 0, vga_row := vga_row v + 1\<rparr>)) = Some w
        \<and> screen_shows w (tm_newline t)"
      by (rule newline_shows [OF assms(1)]) (use v in \<open>simp_all add: rs\<close>)
    then show ?thesis using 1 newl [OF assms(1)]
      by (cases "24 \<le> vga_row v") (simp_all add: vga_putchar_def tm_putchar_def)
  next
    case 2
    then show ?thesis using assms v by (auto simp: vga_putchar_def tm_putchar_def screen_shows_def tm_ok_def rs)
  next
    case 3
    let ?t = "t\<lparr>tm_rows := rs @ [r[tm_col t := text_cell c]], tm_col := tm_col t + 1\<rparr>"
    let ?v = "v\<lparr>vga_mem := concat (visible (rs @ [r[tm_col t := text_cell c]])), vga_col := tm_col t + 1\<rparr>"
    have t1: "tm_putchar c t = (if tm_col t + 1 = VGA_WIDTH then tm_newline ?t else ?t)"
      using 3 by (simp add: tm_putchar_def rs)
    have "vga_row v * 80 + 80 \<le> 2000" using v(3) by simp
    then have "vga_row v * 80 + vga_col v < length (vga_mem v)"
      using screen_length [OF assms] v(2) ok(3) by simp
    then have "cell_set (vga_row v * 80 + vga_col v) (text_cell c) (vga_mem v) =
        Some (concat (visible (rs @ [r[tm_col t := text_cell c]])))"
      using update_visible [OF ok, of "text_cell c"] v by (simp add: cell_set_def)
    then have v1: "vga_putchar c v = (let v1 = (if VGA_WIDTH \<le> tm_col t + 1 then ?v\<lparr>vga_col := 0, vga_row := vga_row v + 1\<rparr> else ?v)
        in if VGA_HEIGHT \<le> vga_row v1 then vga_scroll v1 else Some v1)"
      using 3 v(2) by (simp add: vga_putchar_def Let_def)
    show ?thesis
    proof (cases "tm_col t + 1 = VGA_WIDTH")
      case True
      let ?t0 = "?t\<lparr>tm_col := 0\<rparr>"
      let ?w = "?v\<lparr>vga_col := 0, vga_row := vga_row v + 1\<rparr>"
      have ok0: "tm_ok ?t0" using ok by (auto simp: tm_ok_def)
      have "\<exists>w. (if VGA_HEIGHT \<le> vga_row ?w then vga_scroll ?w else Some ?w) = Some w \<and> screen_shows w (tm_newline ?t0)"
        by (rule newline_shows [OF ok0]) (use v(3) in simp_all)
      moreover have "tm_putchar c t = tm_newline ?t0" using True t1 by (simp add: tm_newline_def)
      moreover have "vga_putchar c v = (if VGA_HEIGHT \<le> vga_row ?w then vga_scroll ?w else Some ?w)"
        unfolding v1 using True by simp
      moreover note newl [OF ok0]
      ultimately show ?thesis by (simp only: simp_thms)
    next
      case False
      then show ?thesis using ok v t1 v1 by (auto simp: Let_def screen_shows_def tm_ok_def)
    qed
  qed
qed

lemma puts_shows:
  "tm_ok t \<Longrightarrow> screen_shows v t \<Longrightarrow> \<exists>w. vga_puts s v = Some w \<and> tm_ok (tm_puts s t) \<and> screen_shows w (tm_puts s t)"
proof (induction s arbitrary: v t)
  case (Cons c s)
  obtain w where "vga_putchar c v = Some w" "tm_ok (tm_putchar c t)" "screen_shows w (tm_putchar c t)"
    using putchar_shows [OF Cons.prems, of c] by blast
  then show ?case using Cons.prems Cons.IH [of "tm_putchar c t" w]
    by (cases "c = 0") (simp_all add: tm_puts_def c_string_def)
qed (simp add: tm_puts_def c_string_def)

lemma init_shows:
  assumes "length (vga_mem v) = VGA_WIDTH * VGA_HEIGHT"
  shows "\<exists>w. vga_init v = Some w \<and> screen_shows w tm_blank"
proof -
  have "each (\<lambda>i. cell_set i (text_cell 32)) [0..<2000] (vga_mem v) = Some (replicate 2000 (text_cell 32))"
    using each_cell_set [of "[0..<2000]" "\<lambda>i. i" "vga_mem v" "text_cell 32"] fold_fill [of 0 2000 "vga_mem v" "text_cell 32"] assms
    by (simp del: upt_rec_numeral replicate.simps)
  then have "vga_init v = Some (v\<lparr>vga_mem := replicate 2000 (text_cell 32), vga_col := 0, vga_row := 0\<rparr>)"
    by (simp add: vga_init_def vga_clear_def del: upt_rec_numeral replicate.simps)
  moreover have "concat (replicate n (replicate m x)) = replicate (n * m) x" for n m and x :: u16
    by (induction n) (simp_all add: replicate_add)
  from this [of 25 80 "text_cell 32"] have "concat (visible [blank_row]) = replicate 2000 (text_cell 32)"
    using replicate_Suc [of 24 blank_row] by (simp add: visible_def del: replicate.simps)
  ultimately show ?thesis by (simp add: screen_shows_def tm_blank_def del: replicate.simps)
qed

section \<open>Properties\<close>

text \<open>C32: The screen shows the end of the text. From any video memory of 80 * 25 cells \<open>vga_init\<close> and the
  printing of any sequence of strings, with line feeds, carriage returns and lines of any length in them,
  make no access outside the memory of the screen; afterwards it holds exactly the last 25 rows of an
  endless terminal that was given the same text, blank rows below while there are fewer, and the cursor
  is on the screen.\<close>

theorem vga_shows_last_rows:
  assumes "length (vga_mem v) = VGA_WIDTH * VGA_HEIGHT" "t = fold tm_puts ss tm_blank"
  shows "\<exists>w. do { v0 \<leftarrow> vga_init v; each vga_puts ss v0 } = Some w \<and>
    vga_mem w = concat (visible (tm_rows t)) \<and> length (vga_mem w) = VGA_WIDTH * VGA_HEIGHT \<and>
    vga_col w < VGA_WIDTH \<and> vga_row w < VGA_HEIGHT"
proof -
  have E: "\<exists>w. each vga_puts ss v0 = Some w \<and> tm_ok (fold tm_puts ss t0) \<and> screen_shows w (fold tm_puts ss t0)"
    if "tm_ok t0" "screen_shows v0 t0" for t0 v0
    using that
  proof (induction ss arbitrary: t0 v0)
    case (Cons s ss)
    obtain w where "vga_puts s v0 = Some w" "tm_ok (tm_puts s t0)" "screen_shows w (tm_puts s t0)"
      using puts_shows [OF Cons.prems, of s] by blast
    then show ?case using Cons.IH [of "tm_puts s t0" w] by simp
  qed simp
  obtain v0 where "vga_init v = Some v0" "screen_shows v0 tm_blank" using init_shows [OF assms(1)] by blast
  moreover have "tm_ok tm_blank" by (simp add: tm_ok_def tm_blank_def)
  moreover obtain w where "each vga_puts ss v0 = Some w" "tm_ok t" "screen_shows w t"
    using E [of tm_blank v0] calculation(2,3) assms(2) by blast
  ultimately show ?thesis using screen_length [of t w] by (auto simp: screen_shows_def tm_ok_def)
qed

theorem vga_shows_last_rows_witness:
  "\<exists>w t. do { v0 \<leftarrow> vga_init \<lparr>vga_mem = replicate 2000 0, vga_col = 7, vga_row = 9\<rparr>;
        each vga_puts [ascii ''boot'' @ [10], ascii ''ok''] v0 } = Some w \<and>
    t = fold tm_puts [ascii ''boot'' @ [10], ascii ''ok''] tm_blank \<and> vga_mem w = concat (visible (tm_rows t)) \<and>
    length (vga_mem w) = VGA_WIDTH * VGA_HEIGHT \<and> vga_col w < VGA_WIDTH \<and> vga_row w < VGA_HEIGHT"
proof -
  have "length (vga_mem \<lparr>vga_mem = replicate 2000 0, vga_col = 7, vga_row = 9\<rparr>) = VGA_WIDTH * VGA_HEIGHT" by simp
  from vga_shows_last_rows [OF this refl, of "[ascii ''boot'' @ [10], ascii ''ok'']"]
  show ?thesis by blast
qed

end
