(* ===== verification/Acpi_Shell.thy ===== *)
theory Acpi_Shell
  imports Serial Acpi
begin

text \<open>
  The command shell of the ACPI kernel (\<open>src/kernel/kernel_acpi.c\<close>): characters from the serial line are
  edited in a buffer of 16, a line end dispatches the command. The wait for a character is not bounded;
  \<open>None\<close> is a shell that waits for ever. The power functions do not return, so each ends the loop.
\<close>

section \<open>The shell\<close>

definition serial_rx_ready :: "'d port_io \<Rightarrow> 'd \<Rightarrow> bool \<times> 'd" where
  "serial_rx_ready E d = (let (s, d1) = p_in8 E (COM1_BASE + 5) d in (s AND 0x01 \<noteq> 0, d1))"

partial_function (option) serial_getchar :: "'d port_io \<Rightarrow> 'd \<Rightarrow> (u8 \<times> 'd) option" where
  "serial_getchar E d =
     (let (ok, d1) = serial_rx_ready E d in if ok then Some (p_in8 E COM1_BASE d1) else serial_getchar E d1)"

abbreviation CMD_BUF_SIZE :: nat where "CMD_BUF_SIZE \<equiv> 16"

record cmd =
  g_cmd_buf :: bytes
  g_cmd_len :: u8

definition cmd_reset :: "cmd \<Rightarrow> cmd" where
  "cmd_reset b = b\<lparr>g_cmd_len := 0, g_cmd_buf := replicate CMD_BUF_SIZE 0\<rparr>"

text \<open>The characters of the literal that are left, and the index of the next.\<close>

fun cmd_is_from :: "cmd \<Rightarrow> bytes \<Rightarrow> u8 \<Rightarrow> bool" where
  "cmd_is_from b [] i = (i = g_cmd_len b)"
| "cmd_is_from b (c # s) i =
     (if unat i < CMD_BUF_SIZE then if g_cmd_buf b ! unat i \<noteq> c then False else cmd_is_from b s (i + 1)
      else False)"

definition cmd_is :: "cmd \<Rightarrow> bytes \<Rightarrow> bool" where
  "cmd_is b s = cmd_is_from b s 0"

text \<open>
  How the shell ends: the device after the call that powers off or restarts the machine (\<open>None\<close>: the
  call waits for ever to print).
\<close>

datatype 'd power = Powered_Off "'d option" | Restarted "'d option"

definition shell_dispatch :: "'d port_io \<Rightarrow> acpi \<Rightarrow> cmd \<Rightarrow> 'd \<Rightarrow> ('d power + 'd) option" where
  "shell_dispatch E a b d =
     (if cmd_is b (ascii ''shutdown'') then do {
        d1 \<leftarrow> serial_puts E (ascii ''[ACPI_DEMO] cmd: shutdown'' @ [10]) d;
        Some (Inl (Powered_Off (acpi_shutdown E a d1)))
      }
      else if cmd_is b (ascii ''reboot'') then do {
        d1 \<leftarrow> serial_puts E (ascii ''[ACPI_DEMO] cmd: reboot'' @ [10]) d;
        Some (Inl (Restarted (acpi_reboot E a d1)))
      }
      else if cmd_is b (ascii ''status'') then do {
        d1 \<leftarrow> serial_puts E (ascii ''[ACPI_DEMO] cmd: status'' @ [10]) d;
        d2 \<leftarrow> (if acpi_available a then serial_puts E (ascii ''[ACPI_DEMO] status: ACPI available'' @ [10]) d1
               else serial_puts E (ascii ''[ACPI_DEMO] status: ACPI unavailable (fallbacks active)'' @ [10]) d1);
        Some (Inr d2)
      }
      else if 0 < g_cmd_len b then
        map_option Inr (calls
          [serial_puts E (ascii ''[ACPI_DEMO] unknown command: '' @ [39]),
           serial_putchars E (take (unat (g_cmd_len b)) (g_cmd_buf b)),
           serial_puts E (39 # [10])] d)
      else Some (Inr d))"

text \<open>The body of the loop for one character.\<close>

definition shell_char :: "'d port_io \<Rightarrow> acpi \<Rightarrow> u8 \<Rightarrow> cmd \<times> 'd \<Rightarrow> ('d power + cmd \<times> 'd) option" where
  "shell_char E a c = (\<lambda>(b, d).
     (if c = 10 \<or> c = 13 then do {
        r \<leftarrow> shell_dispatch E a b d;
        Some (case r of Inl p \<Rightarrow> Inl p | Inr d1 \<Rightarrow> Inr (cmd_reset b, d1))
      }
      else if c = 8 \<or> c = 0x7F then
        Some (Inr (if 0 < g_cmd_len b then b\<lparr>g_cmd_len := g_cmd_len b - 1\<rparr> else b, d))
      else if unat (g_cmd_len b) < CMD_BUF_SIZE - 1 then
        Some (Inr (b\<lparr>g_cmd_buf := (g_cmd_buf b)[unat (g_cmd_len b) := c], g_cmd_len := g_cmd_len b + 1\<rparr>, d))
      else Some (Inr (b, d))))"

partial_function (option) shell_loop :: "'d port_io \<Rightarrow> acpi \<Rightarrow> cmd \<times> 'd \<Rightarrow> 'd power option" where
  "shell_loop E a bd = do {
     (c, d1) \<leftarrow> serial_getchar E (snd bd);
     r \<leftarrow> shell_char E a c (fst bd, d1);
     case r of Inl p \<Rightarrow> Some p | Inr bd1 \<Rightarrow> shell_loop E a bd1
   }"

definition shell_run :: "'d port_io \<Rightarrow> acpi \<Rightarrow> cmd \<times> 'd \<Rightarrow> 'd power option" where
  "shell_run E a = (\<lambda>(b, d). do {
     d1 \<leftarrow> calls [serial_puts E (ascii ''[ACPI_DEMO] shell ready'' @ [10]),
                  serial_puts E (ascii ''[ACPI_DEMO] commands: shutdown, reboot, status'' @ [10])] d;
     shell_loop E a (cmd_reset b, d1)
   })"

section \<open>The shell as a line editor\<close>

text \<open>The line after one more character: erase the last, or append while there is room for the terminator.\<close>

definition edit :: "u8 \<Rightarrow> bytes \<Rightarrow> bytes" where
  "edit c l = (if c = 8 \<or> c = 0x7F then butlast l else if length l < 15 then l @ [c] else l)"

datatype outcome = Reply bytes | Power_Off | Restart

definition answer :: "bool \<Rightarrow> bytes \<Rightarrow> outcome" where
  "answer available l =
     (if l = ascii ''shutdown'' then Power_Off else if l = ascii ''reboot'' then Restart
      else if l = ascii ''status'' then Reply (tty (ascii ''[ACPI_DEMO] cmd: status'' @ [10]) @
        tty ((if available then ascii ''[ACPI_DEMO] status: ACPI available''
              else ascii ''[ACPI_DEMO] status: ACPI unavailable (fallbacks active)'') @ [10]))
      else if l = [] then Reply []
      else Reply (tty (ascii ''[ACPI_DEMO] unknown command: '' @ [39]) @ l @ tty (39 # [10])))"

text \<open>What a session prints before it ends, how it ends, and the input that is left.\<close>

fun session :: "bool \<Rightarrow> bytes \<Rightarrow> bytes \<Rightarrow> (bytes \<times> outcome \<times> bytes) option" where
  "session av l [] = None"
| "session av l (c # cs) =
     (if c = 10 \<or> c = 13 then
        (case answer av l of
           Reply t \<Rightarrow> map_option (\<lambda>(out, e, rest). (t @ out, e, rest)) (session av [] cs)
         | Power_Off \<Rightarrow> Some (tty (ascii ''[ACPI_DEMO] cmd: shutdown'' @ [10]), Power_Off, cs)
         | Restart \<Rightarrow> Some (tty (ascii ''[ACPI_DEMO] cmd: reboot'' @ [10]), Restart, cs))
      else session av (edit c l) cs)"

definition holds_line :: "cmd \<Rightarrow> bytes \<Rightarrow> bool" where
  "holds_line b l \<longleftrightarrow> length (g_cmd_buf b) = 16 \<and> length l \<le> 15 \<and> unat (g_cmd_len b) = length l \<and>
     take (length l) (g_cmd_buf b) = l"

lemma cmd_is_from_past:
  assumes "holds_line b l"
  shows "length l < unat i \<Longrightarrow> unat i \<le> 16 \<Longrightarrow> \<not> cmd_is_from b s i"
proof (induction s arbitrary: i)
  case Nil
  then show ?case using assms by (auto simp: holds_line_def)
next
  case (Cons c s)
  show ?case
  proof (cases "unat i < 16")
    case True
    then have "unat (i + 1) = Suc (unat i)" by (simp add: unat_word_ariths)
    then show ?thesis using Cons.IH [of "i + 1"] Cons.prems True by simp
  qed simp
qed

lemma cmd_is_from_eq:
  assumes "holds_line b l"
  shows "unat i \<le> length l \<Longrightarrow> cmd_is_from b s i \<longleftrightarrow> drop (unat i) l = s"
proof (induction s arbitrary: i)
  case Nil
  then show ?case using assms by (auto simp: holds_line_def word_unat_eq_iff)
next
  case (Cons c s)
  have l: "length l \<le> 15" using assms by (simp add: holds_line_def)
  then have i1: "unat (i + 1) = Suc (unat i)" using Cons.prems by (simp add: unat_word_ariths)
  show ?case
  proof (cases "unat i < length l")
    case True
    have "g_cmd_buf b ! unat i = l ! unat i" using True assms unfolding holds_line_def by (metis nth_take)
    moreover have "drop (unat i) l = l ! unat i # drop (Suc (unat i)) l" using True by (simp add: Cons_nth_drop_Suc)
    ultimately show ?thesis using Cons.IH [of "i + 1"] True i1 l by auto
  next
    case False
    then have "\<not> cmd_is_from b s (i + 1)" using i1 Cons.prems l by (intro cmd_is_from_past [OF assms]) simp_all
    then show ?thesis using False Cons.prems by simp
  qed
qed

lemma cmd_is_eq: "holds_line b l \<Longrightarrow> cmd_is b s \<longleftrightarrow> l = s"
  using cmd_is_from_eq [of b l 0 s] by (simp add: cmd_is_def)

lemma reset_holds: "holds_line (cmd_reset b) []"
  by (simp add: holds_line_def cmd_reset_def)

lemma getchar_view:
  assumes "uart_compliant E view" "\<not> ux_dlab (view d)" "ux_rx (view d) = c # cs"
  shows "\<exists>d1. serial_getchar E d = Some (c, d1) \<and> \<not> ux_dlab (view d1) \<and> ux_rx (view d1) = cs \<and>
    ux_sent (view d1) = ux_sent (view d)"
proof -
  obtain d1 where d1: "p_in8 E 0x3FD d = (fst (ux_status (view d)), d1)" "view d1 = snd (ux_status (view d))"
    using uartD(1) [OF assms(1)] by blast
  have v1: "ux_rx (view d1) = c # cs" "\<not> ux_dlab (view d1)" "ux_sent (view d1) = ux_sent (view d)"
    using assms(2,3) by (simp_all add: d1(2) ux_status_def ux_dlab_def)
  have "fst (ux_status (view d)) AND 0x01 \<noteq> 0" using assms(3) by (simp add: ux_status_def)
  then have "serial_getchar E d = Some (p_in8 E COM1_BASE d1)"
    using d1(1) by (subst serial_getchar.simps) (simp add: serial_rx_ready_def)
  then show ?thesis using uartD(2) [OF assms(1) v1(2)] v1 by (auto simp: ux_receive_def ux_dlab_def)
qed

lemma edit_holds:
  assumes "holds_line b l" "c \<noteq> 10" "c \<noteq> 13"
  shows "\<exists>b1. shell_char E a c (b, d) = Some (Inr (b1, d)) \<and> holds_line b1 (edit c l)"
proof -
  have h: "length (g_cmd_buf b) = 16" "length l \<le> 15" "unat (g_cmd_len b) = length l" "take (length l) (g_cmd_buf b) = l"
    using assms(1) by (simp_all add: holds_line_def)
  have z: "0 < g_cmd_len b \<longleftrightarrow> l \<noteq> []" using h(3) by (simp add: word_gt_0 word_unat_eq_iff)
  consider "c = 8 \<or> c = 0x7F" | "c \<noteq> 8" "c \<noteq> 0x7F" "length l < 15" | "c \<noteq> 8" "c \<noteq> 0x7F" "\<not> length l < 15" by blast
  then show ?thesis
  proof cases
    case 1
    have "holds_line (if 0 < g_cmd_len b then b\<lparr>g_cmd_len := g_cmd_len b - 1\<rparr> else b) (butlast l)"
    proof (cases "l = []")
      case False
      then have "unat (g_cmd_len b - 1) = length l - 1" using h(3) z by (simp add: unat_minus_one word_gt_0)
      moreover have "take (length l - 1) (g_cmd_buf b) = butlast l" using h(4) by (metis butlast_take diff_le_self h(1,2) le_trans numeral_le_iff semiring_norm(68,71,76) take_all butlast_conv_take min.absorb1 take_take length_take)
      ultimately show ?thesis using False z h by (simp add: holds_line_def)
    qed (use assms(1) z in simp)
    then show ?thesis using 1 assms(2,3) by (auto simp: shell_char_def edit_def)
  next
    case 2
    have "take (Suc (length l)) ((g_cmd_buf b)[length l := c]) = l @ [c]"
      using h 2(3) by (simp add: take_Suc_conv_app_nth)
    moreover have "unat (g_cmd_len b + 1) = Suc (length l)" using h(3) 2(3) by (simp add: unat_word_ariths)
    ultimately show ?thesis using 2 h assms(2,3) by (simp add: shell_char_def edit_def holds_line_def)
  next
    case 3
    then show ?thesis using assms h(3) by (simp add: shell_char_def edit_def)
  qed
qed

text \<open>The call with which a session ends.\<close>

definition power_call :: "'d port_io \<Rightarrow> acpi \<Rightarrow> outcome \<Rightarrow> 'd \<Rightarrow> 'd power" where
  "power_call E a e d = (if e = Power_Off then Powered_Off (acpi_shutdown E a d) else Restarted (acpi_reboot E a d))"

definition farewell :: "outcome \<Rightarrow> bytes" where
  "farewell e = tty ((if e = Power_Off then ascii ''[ACPI_DEMO] cmd: shutdown'' else ascii ''[ACPI_DEMO] cmd: reboot'') @ [10])"

lemma commands_distinct: "ascii ''shutdown'' \<noteq> ascii ''reboot''" "ascii ''shutdown'' \<noteq> ascii ''status''"
  "ascii ''reboot'' \<noteq> ascii ''status''" "ascii ''status'' \<noteq> []" "ascii ''shutdown'' \<noteq> []" "ascii ''reboot'' \<noteq> []"
  by (simp_all add: ascii_def)

lemma dispatch_power:
  assumes "uart_compliant E view" "\<not> ux_dlab (view d)" "holds_line b l"
    and "answer (acpi_available a) l = e" "e = Power_Off \<or> e = Restart"
  shows "\<exists>d1. shell_dispatch E a b d = Some (Inl (power_call E a e d1)) \<and>
    ux_sent (view d1) = ux_sent (view d) @ farewell e \<and> ux_rx (view d1) = ux_rx (view d)"
proof -
  note P = printsD [OF prints_puts [OF assms(1)] assms(2)] and c = cmd_is_eq [OF assms(3)]
  consider "e = Power_Off" "l = ascii ''shutdown''" | "e = Restart" "l = ascii ''reboot''"
    using assms(4,5) by (auto simp: answer_def split: if_splits)
  then show ?thesis
  proof cases
    case 1
    obtain d1 where "serial_puts E (ascii ''[ACPI_DEMO] cmd: shutdown'' @ [10]) d = Some d1"
      "ux_sent (view d1) = ux_sent (view d) @ tty (ascii ''[ACPI_DEMO] cmd: shutdown'' @ [10])"
      "ux_rx (view d1) = ux_rx (view d)" using P by blast
    then show ?thesis using 1 by (intro exI [of _ d1]) (simp add: shell_dispatch_def c power_call_def farewell_def)
  next
    case 2
    obtain d1 where "serial_puts E (ascii ''[ACPI_DEMO] cmd: reboot'' @ [10]) d = Some d1"
      "ux_sent (view d1) = ux_sent (view d) @ tty (ascii ''[ACPI_DEMO] cmd: reboot'' @ [10])"
      "ux_rx (view d1) = ux_rx (view d)" using P by blast
    then show ?thesis using 2 commands_distinct
      by (intro exI [of _ d1]) (simp add: shell_dispatch_def c power_call_def farewell_def)
  qed
qed

lemma dispatch_reply:
  assumes "uart_compliant E view" "\<not> ux_dlab (view d)" "holds_line b l" "answer (acpi_available a) l = Reply t"
  shows "\<exists>d1. shell_dispatch E a b d = Some (Inr d1) \<and> \<not> ux_dlab (view d1) \<and>
    ux_sent (view d1) = ux_sent (view d) @ t \<and> ux_rx (view d1) = ux_rx (view d)"
proof -
  note c = cmd_is_eq [OF assms(3)] and pp = prints_puts [OF assms(1)]
  have n: "l \<noteq> ascii ''shutdown''" "l \<noteq> ascii ''reboot''" using assms(4) by (auto simp: answer_def split: if_splits)
  consider "l = ascii ''status''" | "l = []" | "l \<noteq> ascii ''status''" "l \<noteq> []" by blast
  then show ?thesis
  proof cases
    case 1
    let ?st = "(if acpi_available a then ascii ''[ACPI_DEMO] status: ACPI available''
        else ascii ''[ACPI_DEMO] status: ACPI unavailable (fallbacks active)'') @ [10]"
    have "prints view (\<lambda>d. do { d1 \<leftarrow> serial_puts E (ascii ''[ACPI_DEMO] cmd: status'' @ [10]) d; serial_puts E ?st d1 })
        (tty (ascii ''[ACPI_DEMO] cmd: status'' @ [10]) @ tty ?st)"
      by (rule prints_seq [OF pp pp])
    from printsD [OF this assms(2)] obtain d1 where d1:
      "do { d1 \<leftarrow> serial_puts E (ascii ''[ACPI_DEMO] cmd: status'' @ [10]) d; serial_puts E ?st d1 } = Some d1"
      "\<not> ux_dlab (view d1)" "ux_sent (view d1) = ux_sent (view d) @ tty (ascii ''[ACPI_DEMO] cmd: status'' @ [10]) @ tty ?st"
      "ux_rx (view d1) = ux_rx (view d)" by blast
    have "t = tty (ascii ''[ACPI_DEMO] cmd: status'' @ [10]) @ tty ?st"
      using 1 n assms(4) by (simp add: answer_def split: if_splits)
    moreover have "shell_dispatch E a b d = Some (Inr d1)"
      using d1(1) 1 n by (auto simp: shell_dispatch_def c split: if_splits bind_splits)
    ultimately show ?thesis using d1 by blast
  next
    case 2
    then have "\<not> 0 < g_cmd_len b" using assms(3) by (simp add: holds_line_def word_gt_0 word_unat_eq_iff)
    then show ?thesis using 2 n assms(2,4) commands_distinct by (simp add: shell_dispatch_def c answer_def)
  next
    case 3
    have len: "take (unat (g_cmd_len b)) (g_cmd_buf b) = l" "0 < g_cmd_len b"
      using assms(3) 3 by (simp_all add: holds_line_def word_gt_0 word_unat_eq_iff)
    have "prints view (calls [serial_puts E (ascii ''[ACPI_DEMO] unknown command: '' @ [39]), serial_putchars E l, serial_puts E (39 # [10])])
       (concat [tty (ascii ''[ACPI_DEMO] unknown command: '' @ [39]), l, tty (39 # [10])])"
      by (rule prints_calls) (simp only: list_all2_Cons list_all2_Nil pp prints_putchars [OF assms(1)] simp_thms)
    from printsD [OF this assms(2)] obtain d1 where d1:
      "calls [serial_puts E (ascii ''[ACPI_DEMO] unknown command: '' @ [39]), serial_putchars E l, serial_puts E (39 # [10])] d = Some d1"
      "\<not> ux_dlab (view d1)" "ux_rx (view d1) = ux_rx (view d)"
      "ux_sent (view d1) = ux_sent (view d) @ tty (ascii ''[ACPI_DEMO] unknown command: '' @ [39]) @ l @ tty (39 # [10])" by auto
    have "t = tty (ascii ''[ACPI_DEMO] unknown command: '' @ [39]) @ l @ tty (39 # [10])"
      using 3 n assms(4) by (simp add: answer_def)
    moreover have "shell_dispatch E a b d = Some (Inr d1)"
      using d1(1) 3 n len by (simp add: shell_dispatch_def c del: calls.simps)
    ultimately show ?thesis using d1 by blast
  qed
qed

lemma loop_session:
  assumes "uart_compliant E view"
  shows "session (acpi_available a) l cs = Some (out, e, rest) \<Longrightarrow> holds_line b l \<Longrightarrow> \<not> ux_dlab (view d) \<Longrightarrow>
    ux_rx (view d) = cs \<Longrightarrow> \<exists>d1. shell_loop E a (b, d) = Some (power_call E a e d1) \<and>
      ux_sent (view d1) = ux_sent (view d) @ out \<and> ux_rx (view d1) = rest"
proof (induction cs arbitrary: l b d out)
  case (Cons c cs)
  obtain d1 where d1: "serial_getchar E d = Some (c, d1)" "\<not> ux_dlab (view d1)" "ux_rx (view d1) = cs"
    "ux_sent (view d1) = ux_sent (view d)" using getchar_view [OF assms Cons.prems(3,4)] by blast
  have step: "shell_loop E a (b, d) = (case shell_char E a c (b, d1) of None \<Rightarrow> None
      | Some (Inl p) \<Rightarrow> Some p | Some (Inr bd) \<Rightarrow> shell_loop E a bd)"
    by (subst shell_loop.simps) (simp add: d1(1) split: option.split sum.split)
  show ?case
  proof (cases "c = 10 \<or> c = 13")
    case False
    then have "c \<noteq> 10" "c \<noteq> 13" by simp_all
    from edit_holds [OF Cons.prems(2) this, of E a d1] obtain b1
      where b1: "shell_char E a c (b, d1) = Some (Inr (b1, d1))" "holds_line b1 (edit c l)" by (elim exE conjE)
    have "session (acpi_available a) (edit c l) cs = Some (out, e, rest)" using Cons.prems(1) False by simp
    from Cons.IH [OF this b1(2) d1(2,3)] show ?thesis unfolding step b1(1) d1(4) by simp
  next
    case True
    show ?thesis
    proof (cases "answer (acpi_available a) l")
      case (Reply t)
      obtain out' where o: "session (acpi_available a) [] cs = Some (out', e, rest)" "out = t @ out'"
        using Cons.prems(1) True Reply by auto
      obtain d2 where d2: "shell_dispatch E a b d1 = Some (Inr d2)" "\<not> ux_dlab (view d2)"
        "ux_sent (view d2) = ux_sent (view d1) @ t" "ux_rx (view d2) = ux_rx (view d1)"
        using dispatch_reply [OF assms d1(2) Cons.prems(2) Reply] by blast
      have "shell_char E a c (b, d1) = Some (Inr (cmd_reset b, d2))" using True d2(1) by (auto simp: shell_char_def)
      moreover have "ux_rx (view d2) = cs" using d2(4) d1(3) by simp
      note Cons.IH [OF o(1) reset_holds d2(2) this, of b]
      ultimately show ?thesis unfolding step using d2(3) d1(4) o(2) by simp
    next
      case Power_Off
      then have o: "out = farewell e" "rest = cs" "e = Power_Off" using Cons.prems(1) True by (auto simp: farewell_def)
      obtain d2 where "shell_dispatch E a b d1 = Some (Inl (power_call E a e d2))"
        "ux_sent (view d2) = ux_sent (view d1) @ farewell e" "ux_rx (view d2) = ux_rx (view d1)"
        using dispatch_power [OF assms d1(2) Cons.prems(2) Power_Off] o(3) by blast
      then show ?thesis unfolding step using True o d1(3,4) by (auto simp: shell_char_def)
    next
      case Restart
      then have o: "out = farewell e" "rest = cs" "e = Restart" using Cons.prems(1) True by (auto simp: farewell_def)
      obtain d2 where "shell_dispatch E a b d1 = Some (Inl (power_call E a e d2))"
        "ux_sent (view d2) = ux_sent (view d1) @ farewell e" "ux_rx (view d2) = ux_rx (view d1)"
        using dispatch_power [OF assms d1(2) Cons.prems(2) Restart] o(3) by blast
      then show ?thesis unfolding step using True o d1(3,4) by (auto simp: shell_char_def)
    qed
  qed
qed simp

section \<open>Properties\<close>

text \<open>C34: The shell is a line editor over the serial line. For any input whose session, as the line
  specification describes it (backspaces erase, at most fifteen characters count, every line end asks for
  an answer), ends with \<open>shutdown\<close> or \<open>reboot\<close>, the shell prints its greeting, the answers to the lines
  before in order and the echo of the last command, makes exactly this power call, and reads no
  character behind it; stale characters in the buffer never count.\<close>

theorem shell_refines_sessions:
  assumes "uart_compliant E view" "\<not> ux_dlab (view d)"
    and "session (acpi_available a) [] (ux_rx (view d)) = Some (out, e, rest)"
  shows "\<exists>d1. shell_run E a (b, d) = Some (power_call E a e d1) \<and> ux_rx (view d1) = rest \<and>
    ux_sent (view d1) = ux_sent (view d) @ tty (ascii ''[ACPI_DEMO] shell ready'' @ [10]) @
      tty (ascii ''[ACPI_DEMO] commands: shutdown, reboot, status'' @ [10]) @ out"
proof -
  note pp = prints_puts [OF assms(1)]
  have "prints view (calls [serial_puts E (ascii ''[ACPI_DEMO] shell ready'' @ [10]),
      serial_puts E (ascii ''[ACPI_DEMO] commands: shutdown, reboot, status'' @ [10])])
     (concat [tty (ascii ''[ACPI_DEMO] shell ready'' @ [10]), tty (ascii ''[ACPI_DEMO] commands: shutdown, reboot, status'' @ [10])])"
    by (rule prints_calls) (simp only: list_all2_Cons list_all2_Nil pp simp_thms)
  from printsD [OF this assms(2)] obtain d1 where d1: "calls [serial_puts E (ascii ''[ACPI_DEMO] shell ready'' @ [10]),
      serial_puts E (ascii ''[ACPI_DEMO] commands: shutdown, reboot, status'' @ [10])] d = Some d1"
    "\<not> ux_dlab (view d1)" "ux_rx (view d1) = ux_rx (view d)" "ux_sent (view d1) = ux_sent (view d) @
      tty (ascii ''[ACPI_DEMO] shell ready'' @ [10]) @ tty (ascii ''[ACPI_DEMO] commands: shutdown, reboot, status'' @ [10])"
    by auto
  have "shell_run E a (b, d) = shell_loop E a (cmd_reset b, d1)" unfolding shell_run_def by (simp only: prod.case d1(1) Option.bind.bind_lunit)
  moreover obtain d2 where "shell_loop E a (cmd_reset b, d1) = Some (power_call E a e d2)"
    "ux_sent (view d2) = ux_sent (view d1) @ out" "ux_rx (view d2) = rest"
    using loop_session [OF assms(1,3) reset_holds d1(2,3), of b] by blast
  ultimately show ?thesis using d1(4) by (intro exI [of _ d2]) (simp only: append_assoc simp_thms)
qed

definition no_acpi :: acpi where
  "no_acpi = \<lparr>g_acpi_ok = False, g_pm1a_cnt = 0, g_pm1b_cnt = 0, g_slp_typa = 0, g_slp_typb = 0, g_pm1_cnt_len = 0,
     g_reset_reg_ok = False, g_reset_port = 0, g_reset_value = 0\<rparr>"

text \<open>An unknown command, a corrected one, and what follows it.\<close>

theorem shell_refines_sessions_witness:
  "\<exists>d1. shell_run uart_io no_acpi (\<lparr>g_cmd_buf = [], g_cmd_len = 9\<rparr>,
      \<lparr>ux_sent = [], ux_rx = ascii ''hi'' @ [13] @ ascii ''rebooX'' @ [8] @ ascii ''t'' @ [10, 33], ux_full = 0, ux_shift = 0,
        ux_delays = [(1, 1)], ux_lcr = 3, ux_div_lo = 1, ux_div_hi = 0\<rparr>) = Some (Restarted d1)"
proof -
  let ?a = no_acpi
  let ?u = "\<lparr>ux_sent = [], ux_rx = ascii ''hi'' @ [13] @ ascii ''rebooX'' @ [8] @ ascii ''t'' @ [10, 33], ux_full = 0, ux_shift = 0,
        ux_delays = [(1, 1)], ux_lcr = 3, ux_div_lo = 1, ux_div_hi = 0\<rparr>"
  have "\<not> ux_dlab ?u" by (simp add: ux_dlab_def)
  moreover have "session (acpi_available ?a) [] (ux_rx ?u) = Some (tty (ascii ''[ACPI_DEMO] unknown command: '' @ [39]) @ ascii ''hi'' @
      tty (39 # [10]) @ tty (ascii ''[ACPI_DEMO] cmd: reboot'' @ [10]), Restart, [33])"
    by (simp add: answer_def edit_def ascii_def acpi_available_def no_acpi_def)
  ultimately obtain d1 where "shell_run uart_io ?a (\<lparr>g_cmd_buf = [], g_cmd_len = 9\<rparr>, ?u) = Some (power_call uart_io ?a Restart d1)"
    using shell_refines_sessions [OF uart_io_compliant, of ?u ?a _ _ _ "\<lparr>g_cmd_buf = [], g_cmd_len = 9\<rparr>"] by blast
  then show ?thesis by (simp add: power_call_def)
qed

end
