(* ===== verification/Usb_Demo.thy ===== *)
theory Usb_Demo
  imports Serial Hid_Spec
begin

text \<open>
  The polling task of the USB kernel (\<open>src/kernel/kernel_usb.c\<close>): it polls the HID devices, takes all events
  out of the input ring and describes each on the serial line, for five seconds. The serial line
  is on the same devices as the controller; what the line prints is related to the events in the ring.
\<close>

section \<open>The task\<close>

record 'd usb_demo = "'d hid" +
  g_key_events :: u32
  g_mouse_events :: u32
  g_demo_done :: bool

text \<open>A call of a routine that only drives the ports.\<close>

definition on_ports :: "('d \<Rightarrow> 'd option) \<Rightarrow> ('d, 'z) usb_demo_scheme \<Rightarrow> ('d, 'z) usb_demo_scheme option" where
  "on_ports f s = map_option (\<lambda>d. s\<lparr>hw := d\<rparr>) (f (hw s))"

text \<open>The polling of the devices, with the serial calls that it makes.\<close>

definition send_call :: "'d port_io \<Rightarrow> serial_call \<Rightarrow> 'd \<Rightarrow> 'd option" where
  "send_call E c = (case c of
     Puts b \<Rightarrow> serial_puts E b | Dec v \<Rightarrow> serial_dec E v | Hex8 v \<Rightarrow> serial_hex8 E v | Hex32 v \<Rightarrow> serial_hex32 E v)"

definition poll_devices :: "'d port_io \<Rightarrow> ('d, 'z) usb_demo_scheme \<Rightarrow> ('d, 'z) usb_demo_scheme option" where
  "poll_devices E s =
     (let s1 = usb_hid_poll s in on_ports (calls (map (send_call E) (com1_calls s1))) (s1\<lparr>com1_calls := []\<rparr>))"

text \<open>\<open>if (v < 0) { "-"; serial_dec(-(int32_t)v); } else serial_dec(v);\<close> for an \<open>int8_t\<close>.\<close>

definition put_signed :: "'d port_io \<Rightarrow> u8 \<Rightarrow> 'd \<Rightarrow> 'd option" where
  "put_signed E v =
     (if sint v < 0 then calls [serial_puts E (ascii ''-''), serial_dec E (- scast v)]
      else serial_dec E (scast v))"

definition echo_key :: "'d port_io \<Rightarrow> u8 \<Rightarrow> u8 \<Rightarrow> 'd \<Rightarrow> 'd option" where
  "echo_key E ascii_code sc = calls
     [serial_puts E (ascii ''[USB_DEMO] keypress: '' @ [39]),
      (if 0x20 \<le> ascii_code \<and> ascii_code < 0x7F then serial_puts E [ascii_code, 0] else serial_puts E (ascii ''?'')),
      serial_puts E ([39] @ ascii '' sc=0x''), serial_hex8 E sc, serial_puts E [13, 10]]"

definition echo_mouse :: "'d port_io \<Rightarrow> u8 \<Rightarrow> u8 \<Rightarrow> u8 \<Rightarrow> 'd \<Rightarrow> 'd option" where
  "echo_mouse E dx dy buttons = calls
     [serial_puts E (ascii ''[USB_DEMO] mouse: dx=''), put_signed E dx,
      serial_puts E (ascii '' dy=''), put_signed E dy,
      serial_puts E (ascii '' buttons=0x''), serial_hex8 E buttons, serial_puts E [13, 10]]"

definition echo_event ::
  "'d port_io \<Rightarrow> input_event_t \<Rightarrow> ('d, 'z) usb_demo_scheme \<Rightarrow> ('d, 'z) usb_demo_scheme option" where
  "echo_event E ev s = (case ev of
     KeyEvent sc a m fl \<Rightarrow>
       if fl = KEY_FLAG_PRESS then on_ports (echo_key E a sc) (s\<lparr>g_key_events := g_key_events s + 1\<rparr>) else Some s
   | MouseEvent dx dy b \<Rightarrow> on_ports (echo_mouse E dx dy b) (s\<lparr>g_mouse_events := g_mouse_events s + 1\<rparr>))"

text \<open>\<open>while (input_ring_read(&g_input_ring, &ev)) { ... }\<close>\<close>

partial_function (option) echo_ring ::
  "'d port_io \<Rightarrow> ('d, 'z) usb_demo_scheme \<Rightarrow> ('d, 'z) usb_demo_scheme option" where
  "echo_ring E s = (case input_ring_read (g_input_ring s) of
     (None, r) \<Rightarrow> Some (s\<lparr>g_input_ring := r\<rparr>)
   | (Some ev, r) \<Rightarrow> do { s1 \<leftarrow> echo_event E ev (s\<lparr>g_input_ring := r\<rparr>); echo_ring E s1 })"

partial_function (option) usb_poll_loop ::
  "'d hc_env \<Rightarrow> u32 \<Rightarrow> ('d, 'z) usb_demo_scheme \<Rightarrow> ('d, 'z) usb_demo_scheme option" where
  "usb_poll_loop E start s =
     (if g_demo_done s then Some s
      else do {
        s0 \<leftarrow> poll_devices (port_io.truncate E) s;
        s1 \<leftarrow> echo_ring (port_io.truncate E) s0;
        let (t, s2) = timer_read E s1
        in if 5000 \<le> t - start then Some (s2\<lparr>g_demo_done := True\<rparr>)
           else let (t2, s3) = timer_read E s2
                in do { s4 \<leftarrow> wait_until E (t2 + 10) s3; usb_poll_loop E start s4 }
      })"

definition task_usb_poll :: "'d hc_env \<Rightarrow> ('d, 'z) usb_demo_scheme \<Rightarrow> ('d, 'z) usb_demo_scheme option" where
  "task_usb_poll E s =
     (let (start, s1) = timer_read E s; P = port_io.truncate E
      in do {
        s2 \<leftarrow> on_ports (calls [serial_puts P (ascii ''[USB_DEMO] poll_start timer_ms=''), serial_dec P start,
               serial_puts P [13, 10]]) s1;
        usb_poll_loop E start s2
      })"

section \<open>What an event prints\<close>

definition signed_text :: "int \<Rightarrow> bytes" where
  "signed_text v = (if v < 0 then ascii ''-'' @ dec_digits (nat (- v)) else dec_digits (nat v))"

definition event_text :: "input_event_t \<Rightarrow> bytes" where
  "event_text ev = (case ev of
     KeyEvent sc a m fl \<Rightarrow>
       if fl = KEY_FLAG_PRESS
       then ascii ''[USB_DEMO] keypress: '' @ [39] @ (if 0x20 \<le> a \<and> a < 0x7F then [a] else ascii ''?'') @ [39] @
         ascii '' sc=0x'' @ hex8 sc @ [13, 13, 10]
       else []
   | MouseEvent dx dy b \<Rightarrow> ascii ''[USB_DEMO] mouse: dx='' @ signed_text (sint dx) @ ascii '' dy='' @ signed_text (sint dy) @
       ascii '' buttons=0x'' @ hex8 b @ [13, 13, 10])"

definition is_press :: "input_event_t \<Rightarrow> bool" where
  "is_press ev = (case ev of KeyEvent sc a m fl \<Rightarrow> fl = KEY_FLAG_PRESS | MouseEvent _ _ _ \<Rightarrow> False)"

definition is_mouse :: "input_event_t \<Rightarrow> bool" where
  "is_mouse ev = (case ev of KeyEvent _ _ _ _ \<Rightarrow> False | MouseEvent _ _ _ \<Rightarrow> True)"

lemma signed_word: "sint (v :: u8) < 0 \<Longrightarrow> unat (- scast v :: u32) = nat (- sint v)"
  "0 \<le> sint v \<Longrightarrow> unat (scast v :: u32) = nat (sint v)"
proof -
  have b: "- (2 ^ 7) \<le> sint v" "sint v < 2 ^ 7" using sint_greater_eq [of v] sint_less [of v] by simp_all
  have s: "(scast v :: u32) = of_int (sint v)" by (simp only: scast_eq)
  show "unat (- scast v :: u32) = nat (- sint v)" if "sint v < 0"
  proof -
    have "(- scast v :: u32) = of_nat (nat (- sint v))" unfolding s using that by (simp add: of_nat_nat)
    then show ?thesis using b by (simp add: unat_of_nat_eq)
  qed
  show "unat (scast v :: u32) = nat (sint v)" if "0 \<le> sint v"
  proof -
    have "(scast v :: u32) = of_nat (nat (sint v))" unfolding s using that by (simp add: of_nat_nat)
    then show ?thesis using b by (simp add: unat_of_nat_eq)
  qed
qed

lemma prints_signed:
  assumes "uart_compliant E view"
  shows "prints view (put_signed E v) (signed_text (sint v))"
proof (cases "sint v < 0")
  case True
  have "prints view (calls [serial_puts E (ascii ''-''), serial_dec E (- scast v)])
     (concat [tty (ascii ''-''), dec_digits (unat (- scast v :: u32))])"
    by (rule prints_calls) (simp only: list_all2_Cons list_all2_Nil prints_puts [OF assms] prints_dec [OF assms] simp_thms)
  moreover have "tty (ascii ''-'') = ascii ''-''" by (simp add: ascii_def)
  ultimately show ?thesis using True by (simp add: put_signed_def signed_text_def signed_word(1) del: calls.simps)
next
  case False
  then show ?thesis using prints_dec [OF assms, of "scast v"] by (simp add: put_signed_def signed_text_def signed_word(2))
qed

lemma tty_demo:
  "tty (ascii ''[USB_DEMO] keypress: '' @ [39]) = ascii ''[USB_DEMO] keypress: '' @ [39]"
  "tty (39 # ascii '' sc=0x'') = 39 # ascii '' sc=0x''" "tty [13, 10] = [13, 13, 10]" "tty (ascii ''?'') = ascii ''?''"
  "tty (ascii ''[USB_DEMO] mouse: dx='') = ascii ''[USB_DEMO] mouse: dx=''" "tty (ascii '' dy='') = ascii '' dy=''"
  "tty (ascii '' buttons=0x'') = ascii '' buttons=0x''"
  by (simp_all add: ascii_def)

lemma prints_key:
  assumes "uart_compliant E view"
  shows "prints view (echo_key E a sc) (event_text (KeyEvent sc a m KEY_FLAG_PRESS))"
proof -
  let ?c = "if 0x20 \<le> a \<and> a < 0x7F then [a] else ascii ''?''"
  have c: "prints view (if 0x20 \<le> a \<and> a < 0x7F then serial_puts E [a, 0] else serial_puts E (ascii ''?'')) ?c"
  proof (cases "0x20 \<le> a \<and> a < 0x7F")
    case True
    then have "a \<noteq> 0" "a \<noteq> 10" by auto
    then show ?thesis using True prints_puts [OF assms, of "[a, 0]"] by simp
  next
    case False
    then show ?thesis using prints_puts [OF assms, of "ascii ''?''"] by (simp only: False if_False tty_demo)
  qed
  have "prints view (echo_key E a sc) (concat [tty (ascii ''[USB_DEMO] keypress: '' @ [39]), ?c,
      tty ([39] @ ascii '' sc=0x''), hex8 sc, tty [13, 10]])"
    unfolding echo_key_def
    by (rule prints_calls) (simp only: list_all2_Cons list_all2_Nil prints_puts [OF assms] prints_hex8 [OF assms] c simp_thms)
  then show ?thesis by (simp only: concat.simps tty_demo event_text_def input_event_t.case if_True refl append_assoc append_Nil2 append_Nil append_Cons)
qed

lemma prints_mouse:
  assumes "uart_compliant E view"
  shows "prints view (echo_mouse E dx dy b) (event_text (MouseEvent dx dy b))"
proof -
  have "prints view (echo_mouse E dx dy b) (concat [tty (ascii ''[USB_DEMO] mouse: dx=''), signed_text (sint dx),
      tty (ascii '' dy=''), signed_text (sint dy), tty (ascii '' buttons=0x''), hex8 b, tty [13, 10]])"
    unfolding echo_mouse_def
    by (rule prints_calls)
      (simp only: list_all2_Cons list_all2_Nil prints_puts [OF assms] prints_hex8 [OF assms] prints_signed [OF assms] simp_thms)
  then show ?thesis by (simp only: concat.simps tty_demo event_text_def input_event_t.case append_assoc append_Nil2)
qed

section \<open>What the drivers print\<close>

definition call_text :: "serial_call \<Rightarrow> bytes" where
  "call_text c = (case c of
     Puts b \<Rightarrow> tty b | Dec v \<Rightarrow> dec_digits (unat v) | Hex8 v \<Rightarrow> hex8 v | Hex32 v \<Rightarrow> hex32 v)"

lemma prints_call: "uart_compliant E view \<Longrightarrow> prints view (send_call E c) (call_text c)"
  by (cases c) (simp_all add: send_call_def call_text_def prints_puts prints_dec prints_hex8 prints_hex32)

lemma prints_call_list:
  assumes "uart_compliant E view"
  shows "prints view (calls (map (send_call E) cs)) (concat (map call_text cs))"
  by (rule prints_calls) (simp add: list_all2_map1 list_all2_map2 list_all2_same prints_call [OF assms])

text \<open>
  The lines of the keyboard driver when it finds a completed transfer: every 500th poll its counters,
  then the completion with its number, status, length and token, then the keys pressed anew.
  A line ends with CR, CR, LF, as the strings hold CR LF and \<open>serial_puts\<close> puts a CR before each LF.
\<close>

abbreviation line_end :: bytes where "line_end \<equiv> [13, 13, 10]"

definition actual_length :: "u32 \<Rightarrow> nat" where
  "actual_length sts = (if sts AND 0x7FF = 0x7FF then 0 else unat (sts AND 0x7FF) + 1)"

definition key_line :: "u8 \<Rightarrow> u8 \<Rightarrow> bytes" where
  "key_line a sc =
     (if 0x20 \<le> a \<and> a < 0x7F then ascii ''[KBD] key='' @ [39, a, 39]
      else if a \<noteq> 0 then ascii ''[KBD] key=0x'' @ hex8 a
      else ascii ''[KBD] key=<special>'') @ ascii '' sc=0x'' @ hex8 sc @ line_end"

definition driver_text :: "u32 \<Rightarrow> u32 \<Rightarrow> u32 \<Rightarrow> u32 \<Rightarrow> bytes \<Rightarrow> bytes \<Rightarrow> bytes" where
  "driver_text polls dones sts tok prev cur =
     (if (polls + 1) mod 500 = 0
      then ascii ''[KBD] poll='' @ dec_digits (unat (polls + 1)) @ ascii '' done='' @ dec_digits (unat dones) @
        ascii '' td_sts=0x'' @ hex32 sts @ ascii '' tok=0x'' @ hex32 tok @ line_end
      else []) @
     ascii ''[KBD] TD#'' @ dec_digits (unat (dones + 1)) @ ascii '' sts=0x'' @ hex32 sts @
     ascii '' len='' @ dec_digits (actual_length sts) @ ascii '' tok=0x'' @ hex32 tok @ line_end @
     concat (map (\<lambda>sc. key_line (key_ascii (cur ! 0 AND 0x22 \<noteq> 0) sc) sc) (new_keys prev cur))"

lemma tty_kbd:
  "tty (ascii ''[KBD] poll='') = ascii ''[KBD] poll=''" "tty (ascii '' done='') = ascii '' done=''"
  "tty (ascii '' td_sts=0x'') = ascii '' td_sts=0x''" "tty (ascii '' tok=0x'') = ascii '' tok=0x''"
  "tty (ascii ''[KBD] TD#'') = ascii ''[KBD] TD#''" "tty (ascii '' sts=0x'') = ascii '' sts=0x''"
  "tty (ascii '' len='') = ascii '' len=''" "tty (ascii ''[KBD] key='' @ [39]) = ascii ''[KBD] key='' @ [39]"
  "tty (ascii ''[KBD] key=0x'') = ascii ''[KBD] key=0x''" "tty (ascii '' sc=0x'') = ascii '' sc=0x''"
  "tty (ascii ''[KBD] key=<special> sc=0x'') = ascii ''[KBD] key=<special>'' @ ascii '' sc=0x''"
  "tty (39 # ascii '' sc=0x'') = 39 # ascii '' sc=0x''" "tty [13, 10] = [13, 13, 10]"
  by (simp_all add: ascii_def)

lemma actual_length: "unat (ucast (uhci_td_actual_len td) :: u32) = actual_length (td_status td)"
proof -
  let ?l = "td_status td AND 0x7FF"
  have "?l \<le> 0x7FF" by (rule word_and_le1)
  then have b: "unat ?l \<le> 0x7FF" by (simp add: word_le_nat_alt)
  have r: "unat (ucast ?l :: u16) = unat ?l" using b by (simp add: unsigned_ucast_eq take_bit_nat_eq_self)
  have e: "(ucast ?l :: u16) = 0x7FF \<longleftrightarrow> ?l = 0x7FF" by (simp add: word_unat_eq_iff r)
  have "unat ((ucast ?l :: u16) + 1) = unat ?l + 1" using b by (simp add: unat_word_ariths r)
  moreover have "unat (ucast w :: u32) = unat w" for w :: u16
  proof -
    have "unat w < 2 ^ 16" by (rule order_less_le_trans [OF unsigned_less]) simp
    then show ?thesis by (simp add: unsigned_ucast_eq take_bit_nat_eq_self)
  qed
  ultimately show ?thesis by (simp add: uhci_td_actual_len_def actual_length_def Let_def e)
qed

lemma key_calls_text: "concat (map call_text (key_calls a sc)) = key_line a sc"
proof -
  have "tty [a, 0] = [a]" if "0x20 \<le> a" using that by auto
  then show ?thesis by (auto simp: key_calls_def key_line_def call_text_def tty_kbd)
qed

lemma concat_map_concat: "concat (map f (concat (map g xs))) = concat (map (\<lambda>x. concat (map f (g x))) xs)"
  by (induction xs) simp_all

lemma poll_calls_text:
  "concat (map call_text (poll_calls polls dones td @ report_calls prev cur)) =
    driver_text polls dones (td_status td) (td_token td) prev cur"
proof -
  have "concat (map call_text (report_calls prev cur)) =
      concat (map (\<lambda>sc. key_line (key_ascii (cur ! 0 AND 0x22 \<noteq> 0) sc) sc) (new_keys prev cur))"
    unfolding report_calls_def key_calls_text [symmetric] by (simp add: concat_map_concat)
  then show ?thesis by (simp add: poll_calls_def driver_text_def call_text_def tty_kbd actual_length)
qed

section \<open>Draining the ring\<close>

text \<open>What an echo changes: the devices behind the ports, and the two counters.\<close>

definition demo_more :: "('d, 'z) usb_demo_scheme \<Rightarrow> ('d, 'z) usb_demo_scheme \<Rightarrow> bool" where
  "demo_more s s1 \<longleftrightarrow> s1 = s\<lparr>hw := hw s1, g_input_ring := g_input_ring s1, g_key_events := g_key_events s1,
     g_mouse_events := g_mouse_events s1\<rparr>"

lemma demo_more_refl [simp]: "demo_more s s"
  by (simp add: demo_more_def)

lemma demo_more_trans: "demo_more s s1 \<Longrightarrow> demo_more s1 s2 \<Longrightarrow> demo_more s s2"
  unfolding demo_more_def by (cases s, cases s1, cases s2) simp

lemma demo_more_fields:
  assumes "demo_more s s1"
  shows "g_kbd s1 = g_kbd s" "g_mouse s1 = g_mouse s" "ram s1 = ram s" "com1_calls s1 = com1_calls s"
    "g_poll_count s1 = g_poll_count s" "g_done_count s1 = g_done_count s"
  using assms unfolding demo_more_def by (cases s, cases s1, simp)+

lemma hid_more_events: "hid.more s1 = hid.more s \<Longrightarrow> g_key_events s1 = g_key_events (s :: ('d, 'z) usb_demo_scheme)"
  by (cases s, cases s1, simp)

lemma echo_event_prints:
  assumes "uart_compliant E view" "\<not> ux_dlab (view (hw s))"
  shows "\<exists>s1. echo_event E ev s = Some s1 \<and> demo_more s s1 \<and> g_input_ring s1 = g_input_ring s \<and>
    \<not> ux_dlab (view (hw s1)) \<and> ux_sent (view (hw s1)) = ux_sent (view (hw s)) @ event_text ev \<and>
    g_key_events s1 = g_key_events s + (if is_press ev then 1 else 0) \<and>
    g_mouse_events s1 = g_mouse_events s + (if is_mouse ev then 1 else 0)"
proof (cases ev)
  case (KeyEvent sc a m fl)
  show ?thesis
  proof (cases "fl = KEY_FLAG_PRESS")
    case True
    obtain d1 where "echo_key E a sc (hw s) = Some d1" "\<not> ux_dlab (view d1)"
      "ux_sent (view d1) = ux_sent (view (hw s)) @ event_text (KeyEvent sc a m KEY_FLAG_PRESS)"
      using printsD [OF prints_key [OF assms(1)] assms(2)] by blast
    then show ?thesis using True
      by (intro exI [of _ "s\<lparr>hw := d1, g_key_events := g_key_events s + 1\<rparr>"])
        (simp add: KeyEvent echo_event_def on_ports_def is_press_def is_mouse_def demo_more_def)
  next
    case False
    then show ?thesis using assms(2)
      by (simp add: KeyEvent echo_event_def is_press_def is_mouse_def event_text_def)
  qed
next
  case (MouseEvent dx dy b)
  obtain d1 where "echo_mouse E dx dy b (hw s) = Some d1" "\<not> ux_dlab (view d1)"
    "ux_sent (view d1) = ux_sent (view (hw s)) @ event_text (MouseEvent dx dy b)"
    using printsD [OF prints_mouse [OF assms(1)] assms(2)] by blast
  then show ?thesis
    by (intro exI [of _ "s\<lparr>hw := d1, g_mouse_events := g_mouse_events s + 1\<rparr>"])
      (simp add: MouseEvent echo_event_def on_ports_def is_press_def is_mouse_def demo_more_def)
qed

lemma echo_ring_drains:
  assumes "uart_compliant E view"
  shows "ring_inv (g_input_ring s) \<Longrightarrow> ring_contents (g_input_ring s) = evs \<Longrightarrow> \<not> ux_dlab (view (hw s)) \<Longrightarrow>
    \<exists>s1. echo_ring E s = Some s1 \<and> demo_more s s1 \<and> ring_inv (g_input_ring s1) \<and> ring_contents (g_input_ring s1) = [] \<and>
      \<not> ux_dlab (view (hw s1)) \<and> ux_sent (view (hw s1)) = ux_sent (view (hw s)) @ concat (map event_text evs) \<and>
      g_key_events s1 = g_key_events s + of_nat (length (filter is_press evs)) \<and>
      g_mouse_events s1 = g_mouse_events s + of_nat (length (filter is_mouse evs))"
proof (induction evs arbitrary: s)
  case Nil
  then have "input_ring_read (g_input_ring s) = (None, g_input_ring s)" by (simp add: ring.take_none)
  then have "echo_ring E s = Some s" by (subst echo_ring.simps) simp
  then show ?case using Nil by simp
next
  case (Cons ev evs)
  obtain r where r: "input_ring_read (g_input_ring s) = (Some ev, r)" "ring_inv r" "ring_contents r = evs"
    using ring.take_some [OF Cons.prems(1,2)] by blast
  have nd: "\<not> ux_dlab (view (hw (s\<lparr>g_input_ring := r\<rparr>)))" using Cons.prems(3) by simp
  obtain s1 where s1: "echo_event E ev (s\<lparr>g_input_ring := r\<rparr>) = Some s1" "demo_more (s\<lparr>g_input_ring := r\<rparr>) s1"
    "g_input_ring s1 = r" "\<not> ux_dlab (view (hw s1))" "ux_sent (view (hw s1)) = ux_sent (view (hw s)) @ event_text ev"
    "g_key_events s1 = g_key_events s + (if is_press ev then 1 else 0)"
    "g_mouse_events s1 = g_mouse_events s + (if is_mouse ev then 1 else 0)"
    using echo_event_prints [OF assms nd, of ev] by auto
  have "echo_ring E s = echo_ring E s1" using r(1) s1(1) by (subst echo_ring.simps) simp
  moreover have "demo_more s (s\<lparr>g_input_ring := r\<rparr>)" by (simp add: demo_more_def)
  then have "demo_more s s1" using s1(2) by (rule demo_more_trans)
  moreover obtain s2 where "echo_ring E s1 = Some s2" "demo_more s1 s2" "ring_inv (g_input_ring s2)"
    "ring_contents (g_input_ring s2) = []" "\<not> ux_dlab (view (hw s2))"
    "ux_sent (view (hw s2)) = ux_sent (view (hw s1)) @ concat (map event_text evs)"
    "g_key_events s2 = g_key_events s1 + of_nat (length (filter is_press evs))"
    "g_mouse_events s2 = g_mouse_events s1 + of_nat (length (filter is_mouse evs))"
    using Cons.IH [of s1] r(2,3) s1(3,4) by blast
  ultimately show ?case using s1(5-7) demo_more_trans [of s s1 s2] by (intro exI [of _ s2]) simp
qed

section \<open>Typing\<close>

text \<open>
  Rounds of the polling loop: in each the controller has completed the keyboard's transfer with a
  status and a report before the poll.
\<close>

fun typing_rounds ::
  "'d port_io \<Rightarrow> (u32 \<times> bytes) list \<Rightarrow> ('d, 'z) usb_demo_scheme \<Rightarrow> ('d, 'z) usb_demo_scheme option" where
  "typing_rounds E [] s = Some s"
| "typing_rounds E ((sts, rep) # reps) s = do {
     s0 \<leftarrow> poll_devices E (deliver sts rep s);
     s1 \<leftarrow> echo_ring E s0;
     typing_rounds E reps s1
   }"

text \<open>The events of a sequence of reports.\<close>

fun typed :: "bytes \<Rightarrow> bytes list \<Rightarrow> input_event_t list" where
  "typed prev [] = []"
| "typed prev (rep # reps) = key_events prev rep @ typed rep reps"

text \<open>
  What COM1 sends in these rounds, from the counters and the token of the polling descriptor: the lines of
  the driver, then one line of the task for each event. The token's toggle bit changes after each round.
\<close>

fun session_text :: "u32 \<Rightarrow> u32 \<Rightarrow> u32 \<Rightarrow> bytes \<Rightarrow> (u32 \<times> bytes) list \<Rightarrow> bytes" where
  "session_text polls dones tok prev [] = []"
| "session_text polls dones tok prev ((sts, rep) # reps) =
     driver_text polls dones sts tok prev rep @ concat (map event_text (key_events prev rep)) @
     session_text (polls + 1) (dones + 1) (tok XOR 0x80000) rep reps"

abbreviation poll_token :: "('d, 'z) hid_scheme \<Rightarrow> u32" where
  "poll_token s \<equiv> td_token (tds (ram s) (kbd_poll_td (g_kbd s)))"

lemma poll_devices_prints:
  fixes s :: "('d, 'z) usb_demo_scheme"
  assumes "uart_compliant E view" "\<not> ux_dlab (view (hw (usb_hid_poll s)))"
  shows "\<exists>d1. poll_devices E s = Some ((usb_hid_poll s)\<lparr>com1_calls := [], hw := d1\<rparr>) \<and> \<not> ux_dlab (view d1) \<and>
    ux_sent (view d1) = ux_sent (view (hw (usb_hid_poll s))) @ concat (map call_text (com1_calls (usb_hid_poll s)))"
  using printsD [OF prints_call_list [OF assms(1), of "com1_calls (usb_hid_poll s)"] assms(2)]
  by (auto simp: poll_devices_def Let_def on_ports_def)

lemma typing_echo:
  fixes s :: "('d, 'z) usb_demo_scheme"
  assumes "uart_compliant E view"
  shows "\<not> ux_dlab (view (hw s)) \<Longrightarrow> kbd_idle prev s \<Longrightarrow> \<not> mouse_active (g_mouse s) \<Longrightarrow> com1_calls s = [] \<Longrightarrow>
    \<forall>(sts, rep) \<in> set reps. length rep = 8 \<and> good_status sts \<Longrightarrow>
    \<exists>s1. typing_rounds E reps s = Some s1 \<and> kbd_idle (last (prev # map snd reps)) s1 \<and>
      ux_sent (view (hw s1)) = ux_sent (view (hw s)) @ session_text (g_poll_count s) (g_done_count s) (poll_token s) prev reps \<and>
      g_key_events s1 = g_key_events s + of_nat (length (filter is_press (typed prev (map snd reps))))"
proof (induction reps arbitrary: prev s)
  case (Cons p reps)
  obtain sts rep where p: "p = (sts, rep)" by fastforce
  then have g: "length rep = 8" "good_status sts" using Cons.prems(5) by simp_all
  define s0 where "s0 = hid_kbd_poll (deliver sts rep s)"
  note D = kbd_poll_delivered [OF Cons.prems(2) g, folded s0_def]
  have poll: "usb_hid_poll (deliver sts rep s) = s0"
    using Cons.prems(3) D(4) by (simp add: usb_hid_poll_def s0_def [symmetric] hid_mouse_poll_def)
  have "\<not> ux_dlab (view (hw (usb_hid_poll (deliver sts rep s))))" using Cons.prems(1) D(5) by (simp add: poll)
  from poll_devices_prints [OF assms this] obtain d1 where d1:
    "poll_devices E (deliver sts rep s) = Some (s0\<lparr>com1_calls := [], hw := d1\<rparr>)" "\<not> ux_dlab (view d1)"
    "ux_sent (view d1) = ux_sent (view (hw s)) @ concat (map call_text (com1_calls s0))"
    unfolding poll D(5) by blast
  have lines: "concat (map call_text (com1_calls s0)) = driver_text (g_poll_count s) (g_done_count s) sts (poll_token s) prev rep"
    unfolding D(7) Cons.prems(4) append_Nil poll_calls_text by simp
  define s0' where "s0' = s0\<lparr>com1_calls := [], hw := d1\<rparr>"
  have R: "ring_inv (g_input_ring s0')" "ring_contents (g_input_ring s0') = key_events prev rep" "\<not> ux_dlab (view (hw s0'))"
    "g_kbd s0' = (g_kbd s)\<lparr>kbd_prev_report := rep\<rparr>" "g_mouse s0' = g_mouse s" "com1_calls s0' = []"
    "g_poll_count s0' = g_poll_count s + 1" "g_done_count s0' = g_done_count s + 1" "hw s0' = d1" "ram s0' = ram s0"
    "g_key_events s0' = g_key_events s0"
    using D d1(2) by (simp_all add: s0'_def)
  obtain s1 where s1: "echo_ring E s0' = Some s1" "demo_more s0' s1" "ring_inv (g_input_ring s1)" "ring_contents (g_input_ring s1) = []"
    "\<not> ux_dlab (view (hw s1))" "ux_sent (view (hw s1)) = ux_sent (view (hw s0')) @ concat (map event_text (key_events prev rep))"
    "g_key_events s1 = g_key_events s0' + of_nat (length (filter is_press (key_events prev rep)))"
    using echo_ring_drains [OF assms R(1-3)] by blast
  note m = demo_more_fields [OF s1(2)]
  have k: "g_key_events s0 = g_key_events s" by (rule hid_more_events [OF D(6)])
  have "kbd_idle rep s1" using Cons.prems(2) R(4) s1(3,4) g(1) m(1) by (simp add: kbd_idle_def)
  moreover have "\<not> mouse_active (g_mouse s1)" "com1_calls s1 = []" using Cons.prems(3) R(5,6) m by simp_all
  moreover have tok: "poll_token s1 = poll_token s XOR 0x80000"
    using D(10) m R(4,10) by (simp add: TD_TOKEN_TOGGLE_def)
  ultimately obtain s2 where s2: "typing_rounds E reps s1 = Some s2" "kbd_idle (last (rep # map snd reps)) s2"
    "ux_sent (view (hw s2)) = ux_sent (view (hw s1)) @ session_text (g_poll_count s1) (g_done_count s1) (poll_token s1) rep reps"
    "g_key_events s2 = g_key_events s1 + of_nat (length (filter is_press (typed rep (map snd reps))))"
    using Cons.IH [OF s1(5)] Cons.prems(5) by (auto simp: p)
  have "typing_rounds E (p # reps) s = Some s2" using d1(1) s1(1) s2(1) by (simp add: p s0'_def)
  moreover have "ux_sent (view (hw s2)) = ux_sent (view (hw s)) @
      session_text (g_poll_count s) (g_done_count s) (poll_token s) prev (p # reps)"
    using s2(3) s1(6) d1(3) R(7-9) m tok by (simp add: p lines)
  ultimately show ?case using s2(2,4) s1(7) R(11) k by (simp add: p)
qed simp

section \<open>Properties\<close>

text \<open>C33: What is typed is printed. On a machine with a keyboard whose reports arrive without error and are
  polled one by one, the rounds of the polling task send exactly this text to COM1, in order and complete:
  in every round the lines of the keyboard driver (every 500th poll its counters; the completion with its number,
  status, length and token, whose toggle changes each time; a line per key pressed anew), then the task's
  line for each key that the report presses anew, with the character it has under the shift state of that
  report and its scan code. Released and held keys have no line of their own, the ring is empty after
  each round, and the counter of key events counts the task's lines.\<close>

theorem typing_is_echoed:
  assumes "uart_compliant E view" "\<not> ux_dlab (view (hw s))" "kbd_idle prev s" "\<not> mouse_active (g_mouse s)"
    and "com1_calls s = []" "\<forall>(sts, rep) \<in> set reps. length rep = 8 \<and> good_status sts"
  shows "\<exists>s1. typing_rounds E reps s = Some s1 \<and> ring_contents (g_input_ring s1) = [] \<and>
    ux_sent (view (hw s1)) = ux_sent (view (hw s)) @ session_text (g_poll_count s) (g_done_count s) (poll_token s) prev reps \<and>
    g_key_events s1 = g_key_events s + of_nat (length (filter is_press (typed prev (map snd reps))))"
  using typing_echo [OF assms] by (auto simp: kbd_idle_def)

text \<open>Shift and A, then B added with shift still down.\<close>

definition sample_demo :: "uart_dev usb_demo" where
  "sample_demo = \<lparr>ram = ram sample_usb,
     hw = \<lparr>ux_sent = [], ux_rx = [], ux_full = 1, ux_shift = 0, ux_delays = [(2, 5), (0, 1)], ux_lcr = 0x03, ux_div_lo = 1, ux_div_hi = 0\<rparr>,
     uheap_base = 0, uheap_ptr = 0, g_uhci = g_uhci sample_usb, g_uhci_ready = True, g_next_addr = 1,
     g_devices = replicate 4 zero_device, g_device_count = 0,
     g_kbd = \<lparr>kbd_dev = None, kbd_poll_td = 0x1000, kbd_report_buf = 0x2000,
       kbd_prev_report = replicate 8 0, kbd_active = True\<rparr>,
     g_mouse = \<lparr>mouse_dev = None, mouse_poll_td = 0x1040, mouse_report_buf = 0x2010, mouse_active = False\<rparr>,
     g_input_ring = \<lparr>ring_events = replicate 64 (MouseEvent 0 0 0), ring_head = 0, ring_tail = 0\<rparr>,
     g_poll_count = 499, g_done_count = 7, com1_calls = [], g_key_events = 0, g_mouse_events = 0, g_demo_done = False\<rparr>"

theorem typing_is_echoed_witness:
  "\<exists>s1. typing_rounds uart_io [(7, [2, 0, 4, 0, 0, 0, 0, 0]), (7, [2, 0, 4, 5, 0, 0, 0, 0])] sample_demo = Some s1 \<and>
    ux_sent (hw s1) =
      ascii ''[KBD] poll=500 done=7 td_sts=0x00000007 tok=0x00000000'' @ line_end @
      ascii ''[KBD] TD#8 sts=0x00000007 len=8 tok=0x00000000'' @ line_end @
      ascii ''[KBD] key='' @ [39, 65, 39] @ ascii '' sc=0x04'' @ line_end @
      ascii ''[USB_DEMO] keypress: '' @ [39, 65, 39] @ ascii '' sc=0x04'' @ line_end @
      ascii ''[KBD] TD#9 sts=0x00000007 len=8 tok=0x00080000'' @ line_end @
      ascii ''[KBD] key='' @ [39, 66, 39] @ ascii '' sc=0x05'' @ line_end @
      ascii ''[USB_DEMO] keypress: '' @ [39, 66, 39] @ ascii '' sc=0x05'' @ line_end"
  (is "\<exists>s1. _ \<and> _ = ?text")
proof -
  let ?reps = "[(7, [2, 0, 4, 0, 0, 0, 0, 0]), (7, [2, 0, 4, 5, 0, 0, 0, 0])] :: (u32 \<times> bytes) list"
  have "\<not> ux_dlab (hw sample_demo)" by (simp add: ux_dlab_def sample_demo_def)
  moreover have "kbd_idle (replicate 8 0) sample_demo"
    by (simp add: kbd_idle_def sample_demo_def ring_inv_def ring_contents_def ring_count_def)
  moreover have "\<not> mouse_active (g_mouse sample_demo)" "com1_calls sample_demo = []" by (simp_all add: sample_demo_def)
  moreover have "\<forall>(sts, rep) \<in> set ?reps. length rep = 8 \<and> good_status sts" by (simp add: good_status_def)
  ultimately obtain s1 where s1: "typing_rounds uart_io ?reps sample_demo = Some s1"
    "ux_sent (hw s1) = ux_sent (hw sample_demo) @
      session_text (g_poll_count sample_demo) (g_done_count sample_demo) (poll_token sample_demo) (replicate 8 0) ?reps"
    using typing_is_echoed [OF uart_io_compliant, of sample_demo "replicate 8 0" ?reps] by blast
  have "g_poll_count sample_demo = 499" "g_done_count sample_demo = 7" "poll_token sample_demo = 0" "ux_sent (hw sample_demo) = []"
    by (simp_all add: sample_demo_def sample_usb_def zero_td_def)
  moreover have "session_text 499 7 0 (replicate 8 0) ?reps = ?text" by code_simp
  ultimately show ?thesis using s1 by (simp del: typing_rounds.simps session_text.simps)
qed

end
