(* ===== verification/Spec2Isabelle.thy ===== *)
theory Spec2Isabelle
  imports Fat_Table Fat_Names Fat_Dir_Add Fat_Ops Fat_Mount_Spec Fat_Repair Mm Compositor Sched Pci Uhci_Spec
    Uhci_Chain Uhci_Poll Usb_Core Hid_Run Acpi Fat_Mkdir Fat_Lookup Ata
    Panic_Spec Metrics Vga Acpi_Shell Usb_Demo
begin

text \<open>
  Verification library for the ChimaeraOS kernel (the C sources below \<open>src/src\<close>).

  \<^bold>\<open>The system.\<close> ChimaeraOS is a 32-bit teaching kernel. Its logic is in a FAT32 driver over an ATA
  disk, a preemptive round-robin scheduler, a text-mode window compositor, a bump allocator, a
  USB stack (PCI, UHCI host controller, enumeration, HID keyboard and mouse), and the services around
  them (interrupt table, timer, serial line, text screen, symbol table and panic report, metrics, ACPI). The kernel entry
  points of \<open>kernel_*.c\<close> call these parts and print.

  \<^bold>\<open>Conventions.\<close> C integers are words of the same width, so arithmetic wraps where the code wraps.
  Global variables are fields of a state record that every operation takes and returns. An error code
  is a value (\<open>fat32_err_t\<close>, \<open>bool\<close>), a possibly null pointer an \<open>option\<close>. A loop that the code does not
  bound (a FAT chain, a wait for hardware) is a \<open>partial_function\<close> into \<open>option\<close>: \<open>None\<close> is a loop that
  never ends, and termination is a theorem under stated hypotheses. The progress
  messages of the file system, the scheduler and the initialisations of USB and ACPI on the serial line are
  left out; the lines that the HID drivers print while polling and those of the ACPI shutdown and reboot are
  part of the model. The signed coordinates of the compositor are integers that every operation wraps to 32
  bits (\<open>c_int\<close>). An access of a window buffer or of the video memory out of its range has no value, so a
  theorem that an operation has a value says that all its accesses are in range. What is not in the repository is a parameter: the drive behind the sector cache
  (\<open>blk_read\<close>, \<open>blk_write\<close> in \<open>vol\<close>), the port instructions (\<open>port_io\<close>), and the USB controller and
  devices (\<open>hc_env\<close>), which run on the shared memory whenever the driver reads the clock.

  \<^bold>\<open>Theories.\<close>

  \<^item> \<open>Prelude\<close>: word and byte lemmas, little-endian fields, and the two interfaces as locales:
    \<open>cell_store\<close> (what a store of cells promises; interpreted by the cached FAT) and \<open>fifo\<close> (a bounded
    queue; interpreted by the input ring).
  \<^item> \<open>Sector_Cache\<close>, \<open>Fat_Table\<close> (\<open>src/fs/fat32_core.c\<close> 16-155): the one-sector write-back cache and
    the allocation table: reads see the latest write whatever is cached, \<open>fat_set\<close> changes one entry in
    every copy, allocation is first fit, freeing a chain frees exactly its clusters and ends, and does
    not end when a FAT sector is unreadable.
  \<^item> \<open>Fat_Names\<close> (\<open>fat32_internal.h\<close>, \<open>fat32_ops.c\<close> 83-107): 8.3 names, long-name slots, the packed
    entries and their round trips.
  \<^item> \<open>Fat_Dir\<close>, \<open>Fat_Dir_Spec\<close>, \<open>Fat_Dir_Add\<close> (\<open>fat32_core.c\<close> 159-469, \<open>fat32_ops.c\<close> 21-153): directory
    walking, the search as a refinement of a listing, unique short names, and that a name just added
    is found again.
  \<^item> \<open>Fat_Ops\<close> (\<open>fat32_ops.c\<close> 157-665): the public file operations.
  \<^item> \<open>Fat_File_Spec\<close>, \<open>Fat_File_Write\<close>: the contents of a file as the bytes of its chain; seeking and
    reading return them, writing replaces exactly the bytes of the request and extends the chain by
    free clusters, what was written is read back; a write after a seek to a boundary goes astray.
  \<^item> \<open>Fat_Paths\<close>, \<open>Fat_Whole\<close>, \<open>Fat_Save\<close>, \<open>Fat_Unlink\<close>: the layers put together. What a path leads to; how opening,
    transferring and closing change the directory, the table and the data as one; \<open>fat32_write_file\<close>,
    \<open>fat32_append_file\<close> and \<open>fat32_unlink\<close> with what they leave alone (\<open>changes K s t\<close>: the disk differs at most
    in the clusters of \<open>K\<close>), the full disk included; what was saved is loaded by \<open>fat32_read_file\<close>; files
    other than the one written keep their entry and their contents.
  \<^item> \<open>Fat_Copy\<close>: \<open>fat32_copy\<close> and \<open>fat32_rename\<close>, with two files open at once: the invariant of the copying loop,
    the frame that keeps the source apart from the target, and the prefix that a full disk leaves.
  \<^item> \<open>Fat_List\<close>, \<open>Fat_Mkdir\<close>: \<open>fat32_readdir\<close> as a listing described without the scan, and \<open>fat32_mkdir\<close>, after which
    the path names an empty directory that other paths lead into.
  \<^item> \<open>Fat_Lookup\<close>: which entry a name finds, told from the raw bytes of the slots (the deleted ones included) and
    without any function of the driver, and that the search computes it.
  \<^item> \<open>Fat_Format\<close>, \<open>Fat_Mount\<close>, \<open>Fat_Mount_Spec\<close> (\<open>fat32_core.c\<close> 471-546 and 734-835): the boot sector,
    formatting and mounting; a blank disk becomes an empty, consistent volume.
  \<^item> \<open>Fat_Repair\<close> (\<open>fat32_core.c\<close> 548-732): the older repair pass, which is compiled but not called.
  \<^item> \<open>Fsck_Bridge\<close>, \<open>Fsck\<close>, \<open>Fsck_Spec\<close> (\<open>src/fs/fat32_fsck.c\<close>, \<open>src/fs/fsck.c\<close>): the consistency checker
    with its directory iterator, the claiming of chains, the tree walk, and the rescue of orphans; which
    clusters a claim marks, that the iterator runs past a full directory, and which orphans are missed.
  \<^item> \<open>Mm\<close> (\<open>src/mm/mm.c\<close>): the bump allocator; blocks are disjoint, and a size near 4 GB wraps.
  \<^item> \<open>Compositor\<close> (\<open>src/gui/compositor.c\<close>): the window table refines a stack of windows, its invariant
    is preserved, rendering paints each cell from the topmost window (for windows with a frame), output stays in the buffer
    unless the window is taller than it.
  \<^item> \<open>Sched\<close> (\<open>src/proc/sched.c\<close>, \<open>src/kernel/idt.asm\<close>): task table, frames on the stack, the two
    switching handlers; contexts are preserved, exactly one task runs, and every ready task gets its turn.
  \<^item> \<open>Port_Io\<close>, \<open>Pci\<close> (\<open>src/drivers/usb/pci.c\<close>): configuration access and the bus scan, which finds the
    first matching function in bus order.
  \<^item> \<open>Uhci\<close> (\<open>src/drivers/usb/uhci.c\<close>): descriptors, initialisation, control transfers, periodic polling.
    \<open>Uhci_Spec\<close>: a control transfer leaves the frame list as it was and returns within its time-out
    (for a clock in milliseconds that advances). \<open>Uhci_Chain\<close>: the chain of descriptors is the packet
    plan of the transfer. \<open>Uhci_Poll\<close>: the polling schedule after inserting and removing devices.
  \<^item> \<open>Usb_Core\<close> (\<open>usb_core.c\<close>): setup packets, enumeration and the parser of configuration descriptors.
  \<^item> \<open>Hid_Ring\<close>, \<open>Hid\<close>, \<open>Hid_Spec\<close>, \<open>Hid_Run\<close> (\<open>hid.c\<close>, \<open>hid_kbd.c\<close>, \<open>hid_mouse.c\<close>): the input ring as a queue, the two
    boot-protocol drivers, that key events reproduce the reports, and that the initialisation returns and the
    driver state stays well formed in every interleaving of polling, reading and device activity.
  \<^item> \<open>Serial\<close>, \<open>Vga\<close> (\<open>src/drivers/serial.c\<close>, \<open>src/drivers/vga.c\<close>): the serial line with a reference UART
    and the contract \<open>prints\<close> of everything that writes text to it; the text screen as the last 25 rows
    of an endless terminal.
  \<^item> \<open>Interrupts\<close> (\<open>src/kernel/idt.c\<close>, \<open>src/kernel/timer.c\<close>): the interrupt table, the controllers and the
    timer; which interrupts reach which handler, and that time differences are right.
  \<^item> \<open>Panic\<close>, \<open>Panic_Spec\<close> (\<open>src/kernel/panic.c\<close>): the symbol table and the panic report; the sort is stable,
    the lookup finds the function around an address, the report is complete with the call stack.
  \<^item> \<open>Acpi_Shell\<close>, \<open>Usb_Demo\<close> (\<open>kernel_acpi.c\<close> 47-148, \<open>kernel_usb.c\<close> 44-113): two programs on top of
    the drivers, composed of the parts above: the command shell refines a line editor, and what is typed
    on the USB keyboard is printed on the serial line, the lines of the keyboard driver included.
  \<^item> \<open>Metrics\<close> (\<open>src/kernel/metrics.c\<close>): what is recorded and how the serial command is answered.
  \<^item> \<open>Ata\<close> (\<open>src/drivers/ata.c\<close>): the PIO driver for the slave disk; with a drive that follows the standard it
    refines the block device of \<open>Sector_Cache\<close>, transfers are read back, and it hangs without a drive.
  \<^item> \<open>Acpi\<close> (\<open>src/kernel/acpi.c\<close>): finding the tables, the FADT, shutdown and reboot; the sleep types of an
    \<open>_S5_\<close> package are read back from its standard encoding, except in the last bytes of the table.

  \<^bold>\<open>Bounds.\<close> No fuel is used in the models. The specification functions \<open>polled\<close> and \<open>read_events\<close> visit at
  most 64 descriptors or events, which is more than the devices or slots there are.

  \<^bold>\<open>Not modelled.\<close> The monolithic \<open>src/fs/fat32.c\<close> is not compiled by any rule, and the other entry
  points and the self tests have no logic of their own. The checker's two tables are lists of their logical length:
  the product \<open>vol_total_clusters * sizeof(clus_ref_t)\<close> wraps only beyond 357 million clusters.
\<close>

end
